(* ===== verification/Prelude.thy ===== *)
theory Prelude
  imports Main "HOL-Library.Word" "HOL-Library.Monad_Syntax"
begin

text \<open>
  What every component shares: bytes, pointers and a byte-addressed memory, little-endian
  reads and writes of machine words, the total-correctness predicate \<open>ok\<close> on the option
  monad, and the collections the component proofs use.

  A pointer is an integer address. A memory maps an address to the byte stored there, or to
  \<open>None\<close> where no object lives. Every model function that the C code could drive
  into undefined behaviour (a read or write outside every object, a shift as wide as its
  operand, a call through a null function pointer) returns \<open>None\<close> there; a loop that runs
  out of its fuel returns \<open>None\<close> as well. So a theorem that a call equals
  \<open>Some r\<close> says that the call has no undefined behaviour and that it returns.
\<close>

unbundle bit_operations_syntax

type_synonym byte = "8 word"
type_synonym u16 = "16 word"
type_synonym u32 = "32 word"
type_synonym u64 = "64 word"
type_synonym ptr = int
type_synonym mem = "ptr \<Rightarrow> byte option"

named_theorems ok_rules \<open>evaluation rules of the predicate ok\<close>
named_theorems mem_simps \<open>characteristic equations of loads and stores\<close>

section \<open>Total correctness on the option monad\<close>

definition ok :: "'a option \<Rightarrow> ('a \<Rightarrow> bool) \<Rightarrow> bool" where
  "ok r Q = (case r of None \<Rightarrow> False | Some x \<Rightarrow> Q x)"

lemma ok_Some [ok_rules, simp]: "ok (Some x) Q = Q x"
  by (simp add: ok_def)

lemma ok_None [ok_rules, simp]: "ok None Q = False"
  by (simp add: ok_def)

lemma ok_bind [ok_rules, simp]: "ok (r \<bind> f) Q = ok r (\<lambda>x. ok (f x) Q)"
  by (cases r) (simp_all add: ok_def)

lemma ok_conv: "ok r Q \<longleftrightarrow> (\<exists>x. r = Some x \<and> Q x)"
  by (cases r) simp_all

lemma ok_mono: "ok r P \<Longrightarrow> (\<And>x. r = Some x \<Longrightarrow> P x \<Longrightarrow> Q x) \<Longrightarrow> ok r Q"
  by (cases r) simp_all

lemma ok_conj: "ok r (\<lambda>x. P x \<and> Q x) \<longleftrightarrow> ok r P \<and> ok r Q"
  by (cases r) simp_all

lemma okI: "r = Some x \<Longrightarrow> Q x \<Longrightarrow> ok r Q"
  by simp

lemma okE: "ok r Q \<Longrightarrow> (\<And>x. r = Some x \<Longrightarrow> Q x \<Longrightarrow> thesis) \<Longrightarrow> thesis"
  by (cases r) simp_all

section \<open>Checked array access\<close>

definition nth_opt :: "'a list \<Rightarrow> nat \<Rightarrow> 'a option" where
  "nth_opt xs i = (if i < length xs then Some (xs ! i) else None)"

lemma nth_opt_Some [simp]: "i < length xs \<Longrightarrow> nth_opt xs i = Some (xs ! i)"
  by (simp add: nth_opt_def)

lemma nth_opt_None [simp]: "length xs \<le> i \<Longrightarrow> nth_opt xs i = None"
  by (simp add: nth_opt_def)

section \<open>Loads and stores\<close>

fun load_bytes :: "mem \<Rightarrow> ptr \<Rightarrow> nat \<Rightarrow> byte list option" where
  "load_bytes m p 0 = Some []"
| "load_bytes m p (Suc n) =
     do { b \<leftarrow> m p; bs \<leftarrow> load_bytes m (p + 1) n; Some (b # bs) }"

definition store :: "mem \<Rightarrow> ptr \<Rightarrow> byte \<Rightarrow> mem option" where
  "store m p b = (if m p = None then None else Some (m(p \<mapsto> b)))"

fun store_bytes :: "mem \<Rightarrow> ptr \<Rightarrow> byte list \<Rightarrow> mem option" where
  "store_bytes m p [] = Some m"
| "store_bytes m p (b # bs) = do { m' \<leftarrow> store m p b; store_bytes m' (p + 1) bs }"

text \<open>The copy loop of \<open>buf_read\<close> and \<open>buf_write\<close>: one byte at a time, upwards.\<close>

fun copy_bytes :: "mem \<Rightarrow> ptr \<Rightarrow> ptr \<Rightarrow> nat \<Rightarrow> mem option" where
  "copy_bytes m src dst 0 = Some m"
| "copy_bytes m src dst (Suc n) =
     do { b \<leftarrow> m src; m' \<leftarrow> store m dst b; copy_bytes m' (src + 1) (dst + 1) n }"

definition mapped :: "mem \<Rightarrow> ptr \<Rightarrow> int \<Rightarrow> bool" where
  "mapped m p n \<longleftrightarrow> {p ..< p + n} \<subseteq> dom m"

definition bytes_at :: "mem \<Rightarrow> ptr \<Rightarrow> byte list \<Rightarrow> bool" where
  "bytes_at m p bs \<longleftrightarrow> load_bytes m p (length bs) = Some bs"

definition same_outside :: "mem \<Rightarrow> mem \<Rightarrow> ptr \<Rightarrow> int \<Rightarrow> bool" where
  "same_outside m m' p n \<longleftrightarrow> dom m' = dom m \<and> (\<forall>a. a \<notin> {p ..< p + n} \<longrightarrow> m' a = m a)"

lemma mapped_mono: "mapped m p n \<Longrightarrow> p \<le> q \<Longrightarrow> q + k \<le> p + n \<Longrightarrow> mapped m q k"
  unfolding mapped_def by (rule subset_trans [rotated]) auto

lemma mapped_dom: "dom m' = dom m \<Longrightarrow> mapped m' p n = mapped m p n"
  by (simp add: mapped_def)

lemma mapped_byte: "mapped m p n \<Longrightarrow> p \<le> a \<Longrightarrow> a < p + n \<Longrightarrow> \<exists>b. m a = Some b"
  by (auto simp: mapped_def)

lemma same_outside_refl [simp]: "same_outside m m p n"
  by (simp add: same_outside_def)

lemma same_outside_trans:
  "same_outside m m' p n \<Longrightarrow> same_outside m' m'' p n \<Longrightarrow> same_outside m m'' p n"
  by (simp add: same_outside_def)

lemma same_outside_mono:
  "same_outside m m' q k \<Longrightarrow> p \<le> q \<Longrightarrow> q + k \<le> p + n \<Longrightarrow> same_outside m m' p n"
  by (auto simp: same_outside_def)

lemma same_outside_dom: "same_outside m m' p n \<Longrightarrow> dom m' = dom m"
  by (simp add: same_outside_def)

lemma same_outside_mapped: "same_outside m m' p n \<Longrightarrow> mapped m' q k = mapped m q k"
  by (simp add: same_outside_def mapped_def)


lemma mapped_Suc: "mapped m p (1 + int n) \<longleftrightarrow> m p \<noteq> None \<and> mapped m (p + 1) (int n)"
proof -
  have "{p ..< p + (1 + int n)} = insert p {p + 1 ..< p + 1 + int n}" by auto
  then show ?thesis by (auto simp: mapped_def domIff)
qed

lemma mapped_0 [simp]: "mapped m p 0"
  by (simp add: mapped_def)

lemma load_bytes_ok: "mapped m p (int n) \<Longrightarrow> ok (load_bytes m p n) (\<lambda>bs. length bs = n)"
proof (induction n arbitrary: p)
  case 0
  then show ?case by simp
next
  case (Suc n)
  then have "m p \<noteq> None" and "mapped m (p + 1) (int n)"
    using mapped_Suc [of m p n] by (simp_all add: add.commute)
  with Suc.IH show ?case by (auto intro: ok_mono)
qed

lemma load_bytes_length: "load_bytes m p n = Some bs \<Longrightarrow> length bs = n"
  by (induction n arbitrary: p bs) (auto simp: bind_eq_Some_conv)

lemma load_bytes_nth:
  "load_bytes m p n = Some bs \<Longrightarrow> i < n \<Longrightarrow> m (p + int i) = Some (bs ! i)"
proof (induction n arbitrary: p bs i)
  case 0
  then show ?case by simp
next
  case (Suc n)
  from Suc.prems(1) obtain b bs' where "m p = Some b" "load_bytes m (p + 1) n = Some bs'"
    and bs: "bs = b # bs'" by (auto simp: bind_eq_Some_conv)
  show ?case
  proof (cases i)
    case 0
    with bs \<open>m p = Some b\<close> show ?thesis by simp
  next
    case (Suc j)
    with Suc.prems(2) have "m (p + 1 + int j) = Some (bs' ! j)"
      by (intro Suc.IH) (use \<open>load_bytes m (p + 1) n = Some bs'\<close> in auto)
    with Suc bs show ?thesis by (simp add: algebra_simps)
  qed
qed

lemma load_bytes_iff:
  "load_bytes m p n = Some bs \<longleftrightarrow> length bs = n \<and> (\<forall>i < n. m (p + int i) = Some (bs ! i))"
proof
  assume "load_bytes m p n = Some bs"
  then show "length bs = n \<and> (\<forall>i < n. m (p + int i) = Some (bs ! i))"
    by (simp add: load_bytes_length load_bytes_nth)
next
  show "length bs = n \<and> (\<forall>i < n. m (p + int i) = Some (bs ! i)) \<Longrightarrow> load_bytes m p n = Some bs"
  proof (induction n arbitrary: p bs)
    case 0
    then show ?case by simp
  next
    case (Suc n)
    then obtain b bs' where bs: "bs = b # bs'" by (cases bs) auto
    from Suc.prems have at: "\<And>i. i < Suc n \<Longrightarrow> m (p + int i) = Some (bs ! i)" by blast
    have "m p = Some b" using at [of 0] bs by simp
    moreover have "load_bytes m (p + 1) n = Some bs'"
    proof (rule Suc.IH)
      show "length bs' = n \<and> (\<forall>i < n. m (p + 1 + int i) = Some (bs' ! i))"
      proof (intro conjI allI impI)
        show "length bs' = n" using Suc.prems bs by simp
        fix i assume "i < n"
        then show "m (p + 1 + int i) = Some (bs' ! i)"
          using at [of "Suc i"] bs by (simp add: algebra_simps)
      qed
    qed
    ultimately show ?case using bs by simp
  qed
qed

lemma load_bytes_cong:
  "(\<And>a. p \<le> a \<Longrightarrow> a < p + int n \<Longrightarrow> m' a = m a) \<Longrightarrow> load_bytes m' p n = load_bytes m p n"
proof (induction n arbitrary: p)
  case 0
  then show ?case by simp
next
  case (Suc n)
  from Suc.prems have "m' p = m p" by simp
  moreover have "load_bytes m' (p + 1) n = load_bytes m (p + 1) n"
    by (rule Suc.IH) (use Suc.prems in auto)
  ultimately show ?case by simp
qed

lemma store_ok: "m p \<noteq> None \<Longrightarrow> ok (store m p b) (\<lambda>m'. m' = m(p \<mapsto> b))"
  by (auto simp: store_def)

lemma dom_store: "store m p b = Some m' \<Longrightarrow> dom m' = dom m"
  by (auto simp: store_def split: if_splits)

text \<open>The effect of a block store, in closed form.\<close>

definition upd_bytes :: "mem \<Rightarrow> ptr \<Rightarrow> byte list \<Rightarrow> mem" where
  "upd_bytes m p bs =
     (\<lambda>a. if p \<le> a \<and> a < p + int (length bs) then Some (bs ! nat (a - p)) else m a)"

lemma upd_bytes_Nil [simp]: "upd_bytes m p [] = m"
  by (auto simp: upd_bytes_def fun_eq_iff)

lemma upd_bytes_Cons: "upd_bytes (m(p \<mapsto> b)) (p + 1) bs = upd_bytes m p (b # bs)"
proof
  fix a
  consider "a = p" | "p < a" | "a < p" by linarith
  then show "upd_bytes (m(p \<mapsto> b)) (p + 1) bs a = upd_bytes m p (b # bs) a"
  proof cases
    case 2
    then have "nat (a - p) = Suc (nat (a - (p + 1)))" by simp
    with 2 show ?thesis by (auto simp: upd_bytes_def)
  qed (auto simp: upd_bytes_def)
qed

lemma upd_bytes_append: "upd_bytes (upd_bytes m p xs) (p + int (length xs)) ys = upd_bytes m p (xs @ ys)"
proof
  fix a
  have "nat (a - p) - length xs = nat (a - (p + int (length xs)))" by (simp add: algebra_simps nat_minus_as_int)
  then show "upd_bytes (upd_bytes m p xs) (p + int (length xs)) ys a = upd_bytes m p (xs @ ys) a"
    by (auto simp: upd_bytes_def nth_append)
qed

lemma store_bytes_conv:
  "mapped m p (int (length bs)) \<Longrightarrow> store_bytes m p bs = Some (upd_bytes m p bs)"
proof (induction bs arbitrary: m p)
  case Nil
  then show ?case by simp
next
  case (Cons b bs)
  then have "m p \<noteq> None" "mapped m (p + 1) (int (length bs))"
    using mapped_Suc [of m p "length bs"] by (simp_all add: add.commute)
  then have "store m p b = Some (m(p \<mapsto> b))" "mapped (m(p \<mapsto> b)) (p + 1) (int (length bs))"
    by (auto simp: store_def mapped_def)
  then show ?case using Cons.IH [of "m(p \<mapsto> b)" "p + 1"] by (simp add: upd_bytes_Cons del: fun_upd_apply)
qed

lemma same_outside_upd: "mapped m p (int (length bs)) \<Longrightarrow> same_outside m (upd_bytes m p bs) p (int (length bs))"
  by (auto simp: same_outside_def upd_bytes_def mapped_def dom_def split: if_splits)

lemma store_bytes_ok:
  "mapped m p (int (length bs)) \<Longrightarrow>
   ok (store_bytes m p bs) (\<lambda>m'. m' = upd_bytes m p bs \<and> same_outside m m' p (int (length bs)))"
  by (simp add: store_bytes_conv same_outside_upd)

lemma load_upd_same: "load_bytes (upd_bytes m p bs) p (length bs) = Some bs"
  by (simp add: load_bytes_iff upd_bytes_def)

lemma load_upd_other:
  "q + int n \<le> p \<or> p + int (length bs) \<le> q \<Longrightarrow> load_bytes (upd_bytes m p bs) q n = load_bytes m q n"
  by (rule load_bytes_cong) (auto simp: upd_bytes_def)

lemma load_same_outside:
  "same_outside m m' p k \<Longrightarrow> q + int n \<le> p \<or> p + k \<le> q \<Longrightarrow> load_bytes m' q n = load_bytes m q n"
  by (rule load_bytes_cong) (auto simp: same_outside_def)

lemma copy_bytes_ok:
  "mapped m src (int n) \<Longrightarrow> mapped m dst (int n) \<Longrightarrow>
   ok (copy_bytes m src dst n) (\<lambda>m'. same_outside m m' dst (int n))"
proof (induction n arbitrary: m src dst)
  case 0
  then show ?case by simp
next
  case (Suc n)
  then obtain b where b: "m src = Some b" "mapped m (src + 1) (int n)"
    and d: "m dst \<noteq> None" "mapped m (dst + 1) (int n)"
    using mapped_Suc [of m src n] mapped_Suc [of m dst n] by (auto simp: add.commute)
  let ?m = "m(dst \<mapsto> b)"
  have st: "store m dst b = Some ?m" using d by (simp add: store_def)
  have s1: "same_outside m ?m dst (int (Suc n))" using d by (auto simp: same_outside_def)
  have "ok (copy_bytes ?m (src + 1) (dst + 1) n) (\<lambda>m'. same_outside ?m m' (dst + 1) (int n))"
    by (rule Suc.IH) (simp_all only: b d same_outside_mapped [OF s1])
  then have "ok (copy_bytes ?m (src + 1) (dst + 1) n) (\<lambda>m'. same_outside m m' dst (int (Suc n)))"
    by (rule ok_mono) (rule same_outside_trans [OF s1], erule same_outside_mono, simp_all)
  then show ?case by (simp add: b st del: fun_upd_apply)
qed

text \<open>With source and destination disjoint the loop is a block copy.\<close>

lemma copy_bytes_disjoint:
  "load_bytes m src n = Some bs \<Longrightarrow> mapped m dst (int n) \<Longrightarrow>
   src + int n \<le> dst \<or> dst + int n \<le> src \<Longrightarrow> copy_bytes m src dst n = Some (upd_bytes m dst bs)"
proof (induction n arbitrary: m src dst bs)
  case 0
  then show ?case by simp
next
  case (Suc n)
  from Suc.prems(1) obtain b bs' where b: "m src = Some b" "load_bytes m (src + 1) n = Some bs'"
    and bs: "bs = b # bs'" by (auto simp: bind_eq_Some_conv)
  have d: "m dst \<noteq> None" "mapped m (dst + 1) (int n)"
    using Suc.prems(2) mapped_Suc [of m dst n] by (auto simp: add.commute)
  let ?m = "m(dst \<mapsto> b)"
  have st: "store m dst b = Some ?m" using d by (simp add: store_def)
  have "load_bytes ?m (src + 1) n = load_bytes m (src + 1) n"
    by (rule load_bytes_cong) (use Suc.prems(3) in auto)
  moreover have "mapped ?m (dst + 1) (int n)" using d by (auto simp: mapped_def)
  ultimately have "copy_bytes ?m (src + 1) (dst + 1) n = Some (upd_bytes ?m (dst + 1) bs')"
    by (intro Suc.IH) (use Suc.prems(3) b in \<open>simp_all del: fun_upd_apply, linarith\<close>)
  then show ?case by (simp add: b st bs upd_bytes_Cons)
qed

section \<open>Machine words in little-endian byte order\<close>

definition le_bytes :: "nat \<Rightarrow> 'a::len word \<Rightarrow> byte list" where
  "le_bytes n w = map (\<lambda>i. ucast (drop_bit (8 * i) w)) [0 ..< n]"

fun le_word :: "byte list \<Rightarrow> 'a::len word" where
  "le_word [] = 0"
| "le_word (b # bs) = ucast b OR push_bit 8 (le_word bs)"

definition load_word :: "mem \<Rightarrow> ptr \<Rightarrow> nat \<Rightarrow> 'a::len word option" where
  "load_word m p n = do { bs \<leftarrow> load_bytes m p n; Some (le_word bs) }"

definition store_word :: "mem \<Rightarrow> ptr \<Rightarrow> nat \<Rightarrow> 'a::len word \<Rightarrow> mem option" where
  "store_word m p n w = store_bytes m p (le_bytes n w)"

text \<open>A pointer in memory is eight bytes wide (the LP64 model of the platform).\<close>

definition load_ptr :: "mem \<Rightarrow> ptr \<Rightarrow> ptr option" where
  "load_ptr m p = do { w \<leftarrow> load_word m p 8; Some (uint (w :: u64)) }"

lemma length_le_bytes [simp]: "length (le_bytes n w) = n"
  by (simp add: le_bytes_def)

lemma bit_le_word:
  fixes k :: nat
  shows "bit (le_word bs :: 'a::len word) k \<longleftrightarrow>
     k < LENGTH('a) \<and> k div 8 < length bs \<and> bit (bs ! (k div 8)) (k mod 8)"
proof (induction bs arbitrary: k)
  case Nil
  then show ?case by simp
next
  case (Cons b bs)
  show ?case
  proof (cases "k < 8")
    case True
    then show ?thesis by (auto simp: bit_or_iff bit_push_bit_iff bit_ucast_iff)
  next
    case False
    then have k: "k div 8 = Suc ((k - 8) div 8)" "k mod 8 = (k - 8) mod 8"
      by (simp_all add: le_div_geq le_mod_geq)
    have "\<not> bit b k" using False bit_imp_le_length [of b k] by auto
    with False k Cons.IH [of "k - 8"] show ?thesis
      by (auto simp: bit_or_iff bit_push_bit_iff bit_ucast_iff)
  qed
qed

lemma le_word_le_bytes:
  fixes w :: "'a::len word"
  assumes "LENGTH('a) \<le> 8 * n"
  shows "le_word (le_bytes n w) = w"
proof (rule bit_word_eqI)
  fix k assume k: "k < LENGTH('a)"
  then have "k div 8 < n" using assms by auto
  then show "bit (le_word (le_bytes n w) :: 'a word) k = bit w k"
    using k by (auto simp: bit_le_word le_bytes_def bit_ucast_iff bit_drop_bit_eq)
qed

lemma load_word_ok: "mapped m p (int n) \<Longrightarrow> ok (load_word m p n) (\<lambda>_. True)"
  by (auto simp: load_word_def intro: ok_mono [OF load_bytes_ok])

lemma load_ptr_ok: "mapped m p 8 \<Longrightarrow> ok (load_ptr m p) (\<lambda>_. True)"
  by (auto simp: load_ptr_def intro: ok_mono [OF load_word_ok])

lemma store_word_ok:
  "mapped m p (int n) \<Longrightarrow>
   ok (store_word m p n w) (\<lambda>m'. m' = upd_bytes m p (le_bytes n w) \<and> same_outside m m' p (int n))"
  using store_bytes_ok [of m p "le_bytes n w"] by (simp add: store_word_def)

lemma load_store_word:
  fixes w :: "'a::len word"
  assumes "LENGTH('a) \<le> 8 * n"
  shows "load_word (upd_bytes m p (le_bytes n w)) p n = Some w"
  using load_upd_same [of m p "le_bytes n w"] le_word_le_bytes [OF assms]
  by (simp add: load_word_def)

section \<open>Words as numbers\<close>

lemma unat_drop_bit_div: "unat (drop_bit k w) = unat (w :: 'a::len word) div 2 ^ k"
proof -
  have "unat (drop_bit k w) = drop_bit k (unat w)" by (rule bit_eqI) (auto simp: bit_drop_bit_eq bit_unsigned_iff)
  then show ?thesis by (simp only: drop_bit_eq_div)
qed

lemma unat_and_mask: "unat (w AND mask k) = unat (w :: 'a::len word) mod 2 ^ k"
proof -
  have "unat (w AND mask k) = take_bit k (unat w)" by (simp only: take_bit_eq_mask [symmetric] unsigned_take_bit_eq)
  then show ?thesis by (simp only: take_bit_eq_mod)
qed

lemma unat_of_nat_small: "n < 2 ^ LENGTH('a) \<Longrightarrow> unat (of_nat n :: 'a::len word) = n"
  by (simp add: unat_of_nat)

lemma unat_ucast_mod: "unat (ucast (w :: 'a::len word) :: 'b::len word) = unat w mod 2 ^ LENGTH('b)"
  by (simp add: unsigned_ucast_eq take_bit_eq_mod)

lemma unat_push_one: "k < LENGTH('a) \<Longrightarrow> unat (push_bit k 1 :: 'a::len word) = 2 ^ k"
proof -
  assume k: "k < LENGTH('a)"
  have "unat (of_nat (2 ^ k) :: 'a word) = 2 ^ k" using k by (simp only: unat_of_nat) (simp add: power_strict_increasing)
  then show ?thesis by (simp add: push_bit_eq_mult)
qed

lemma small_word_bits: "unat (w :: 'a::len word) < 2 ^ k \<Longrightarrow> bit w i \<Longrightarrow> i < k"
proof -
  assume "unat w < 2 ^ k" and b: "bit w i"
  then have "unat (take_bit k w) = unat w" by (simp add: unsigned_take_bit_eq take_bit_nat_eq_self)
  then have "take_bit k w = w" by (simp add: word_unat_eq_iff)
  with b show "i < k" by (metis bit_take_bit_iff)
qed

end
