(* ===== verification/PbTypes.thy ===== *)
theory PbTypes
  imports Prelude
begin

text \<open>
  The data model of nanopb (pb.h, pb_encode.h, pb_decode.h), in the configuration the
  project builds it with: \<open>PB_FIELD_32BIT\<close> (so \<open>pb_size_t\<close> is \<open>uint32_t\<close>) and no
  \<open>PB_ENABLE_MALLOC\<close>, \<open>PB_BUFFER_ONLY\<close>, \<open>PB_NO_ERRMSG\<close> or \<open>PB_OLD_CALLBACK_STYLE\<close>.
  \<open>size_t\<close> and pointers are 64 bits wide.

  A field descriptor is a value of the datatype \<open>pb_field_t\<close> with the members of
  \<open>struct pb_field_s\<close>; a descriptor array is a list that ends with the entry of tag 0 that
  \<open>PB_LAST_FIELD\<close> writes. Message structs, the linked list of extensions, callbacks
  and buffers live in memory. What a stream or a field calls through a function pointer is
  user code: the record \<open>pb_env\<close> maps the pointer to its meaning.
\<close>

section \<open>Field types\<close>

abbreviation (input) PB_MAX_REQUIRED_FIELDS :: nat where "PB_MAX_REQUIRED_FIELDS \<equiv> 64"

abbreviation (input) PB_LTYPE_VARINT :: byte where "PB_LTYPE_VARINT \<equiv> 0x00"
abbreviation (input) PB_LTYPE_UVARINT :: byte where "PB_LTYPE_UVARINT \<equiv> 0x01"
abbreviation (input) PB_LTYPE_SVARINT :: byte where "PB_LTYPE_SVARINT \<equiv> 0x02"
abbreviation (input) PB_LTYPE_FIXED32 :: byte where "PB_LTYPE_FIXED32 \<equiv> 0x03"
abbreviation (input) PB_LTYPE_FIXED64 :: byte where "PB_LTYPE_FIXED64 \<equiv> 0x04"
abbreviation (input) PB_LTYPE_LAST_PACKABLE :: byte where "PB_LTYPE_LAST_PACKABLE \<equiv> 0x04"
abbreviation (input) PB_LTYPE_BYTES :: byte where "PB_LTYPE_BYTES \<equiv> 0x05"
abbreviation (input) PB_LTYPE_STRING :: byte where "PB_LTYPE_STRING \<equiv> 0x06"
abbreviation (input) PB_LTYPE_SUBMESSAGE :: byte where "PB_LTYPE_SUBMESSAGE \<equiv> 0x07"
abbreviation (input) PB_LTYPE_EXTENSION :: byte where "PB_LTYPE_EXTENSION \<equiv> 0x08"
abbreviation (input) PB_LTYPE_FIXED_LENGTH_BYTES :: byte where "PB_LTYPE_FIXED_LENGTH_BYTES \<equiv> 0x09"

abbreviation (input) PB_HTYPE_REQUIRED :: byte where "PB_HTYPE_REQUIRED \<equiv> 0x00"
abbreviation (input) PB_HTYPE_OPTIONAL :: byte where "PB_HTYPE_OPTIONAL \<equiv> 0x10"
abbreviation (input) PB_HTYPE_REPEATED :: byte where "PB_HTYPE_REPEATED \<equiv> 0x20"
abbreviation (input) PB_HTYPE_ONEOF :: byte where "PB_HTYPE_ONEOF \<equiv> 0x30"

abbreviation (input) PB_ATYPE_STATIC :: byte where "PB_ATYPE_STATIC \<equiv> 0x00"
abbreviation (input) PB_ATYPE_POINTER :: byte where "PB_ATYPE_POINTER \<equiv> 0x80"
abbreviation (input) PB_ATYPE_CALLBACK :: byte where "PB_ATYPE_CALLBACK \<equiv> 0x40"

definition PB_ATYPE :: "byte \<Rightarrow> byte" where "PB_ATYPE x = x AND 0xC0"
definition PB_HTYPE :: "byte \<Rightarrow> byte" where "PB_HTYPE x = x AND 0x30"
definition PB_LTYPE :: "byte \<Rightarrow> byte" where "PB_LTYPE x = x AND 0x0F"

text \<open>\<open>PB_SIZE_MAX\<close> is \<open>(pb_size_t)-1\<close>.\<close>

abbreviation (input) PB_SIZE_MAX :: u32 where "PB_SIZE_MAX \<equiv> 0xFFFFFFFF"

section \<open>Field descriptors\<close>

text \<open>
  The member \<open>ptr\<close> is null, the descriptor array of a submessage, or the bytes of a default
  value. \<open>size_offset\<close> is an \<open>int32_t\<close>, read with \<open>sint\<close>.
\<close>

datatype pb_field_t = Pb_Field
  (tag: u32) (type: byte) (data_offset: u32) (size_offset: u32) (data_size: u32)
  (array_size: u32) (field_ptr: field_ptr)
and field_ptr = PNull | PFields "pb_field_t list" | PDefault "byte list"

text \<open>
  The entry that ends every descriptor array.
\<close>

definition PB_LAST_FIELD :: pb_field_t where
  "PB_LAST_FIELD = Pb_Field 0 0 0 0 0 0 PNull"

text \<open>\<open>PB_BYTES_ARRAY_T_ALLOCSIZE\<close>: the size member is four bytes, the bytes follow it.\<close>

definition PB_BYTES_ARRAY_T_ALLOCSIZE :: "u32 \<Rightarrow> u64" where
  "PB_BYTES_ARRAY_T_ALLOCSIZE n = ucast n + 4"

text \<open>Wire types: the enum names four of the eight values a tag can hold.\<close>

type_synonym pb_wire_type_t = u32

abbreviation (input) PB_WT_VARINT :: pb_wire_type_t where "PB_WT_VARINT \<equiv> 0"
abbreviation (input) PB_WT_64BIT :: pb_wire_type_t where "PB_WT_64BIT \<equiv> 1"
abbreviation (input) PB_WT_STRING :: pb_wire_type_t where "PB_WT_STRING \<equiv> 2"
abbreviation (input) PB_WT_32BIT :: pb_wire_type_t where "PB_WT_32BIT \<equiv> 5"

section \<open>Streams\<close>

text \<open>
  The function behind a stream's \<open>callback\<close> is the buffer routine of the library, a user
  function (named by its pointer), or, for an output stream, null: a sizing stream.
\<close>

datatype icallback = Buf_read | User_read int
datatype ocallback = Sizing | Buf_write | User_write int

record pb_istream_t =
  i_callback :: icallback
  i_state :: ptr
  bytes_left :: u64
  i_errmsg :: "string option"

record pb_ostream_t =
  o_callback :: ocallback
  o_state :: ptr
  max_size :: u64
  bytes_written :: u64
  o_errmsg :: "string option"

text \<open>\<open>PB_SET_ERROR\<close> keeps the first message.\<close>

definition i_set_error :: "pb_istream_t \<Rightarrow> string \<Rightarrow> pb_istream_t" where
  "i_set_error s msg =
     s\<lparr>i_errmsg := (case i_errmsg s of None \<Rightarrow> Some msg | Some e \<Rightarrow> Some e)\<rparr>"

definition o_set_error :: "pb_ostream_t \<Rightarrow> string \<Rightarrow> pb_ostream_t" where
  "o_set_error s msg =
     s\<lparr>o_errmsg := (case o_errmsg s of None \<Rightarrow> Some msg | Some e \<Rightarrow> Some e)\<rparr>"

lemma i_set_error_simps [simp]:
  "i_callback (i_set_error s e) = i_callback s"
  "i_state (i_set_error s e) = i_state s"
  "bytes_left (i_set_error s e) = bytes_left s"
  by (simp_all add: i_set_error_def)

lemma o_set_error_simps [simp]:
  "o_callback (o_set_error s e) = o_callback s"
  "o_state (o_set_error s e) = o_state s"
  "max_size (o_set_error s e) = max_size s"
  "bytes_written (o_set_error s e) = bytes_written s"
  by (simp_all add: o_set_error_def)

section \<open>User code\<close>

text \<open>
  \<open>read_fn\<close> and \<open>write_fn\<close> are stream callbacks: the first gets the number of bytes asked
  for and delivers the bytes it puts into the buffer, the second gets the bytes to write.
  \<open>dec_fn\<close> and \<open>enc_fn\<close> are field callbacks, which get the field and the address of
  their \<open>arg\<close>. An extension type has two functions of its own (0 is the null pointer, which
  selects the default handler) and the descriptor of the extension field.
\<close>

record pb_extension_type_t =
  ext_decode :: int
  ext_encode :: int
  ext_arg :: pb_field_t

record pb_env =
  read_fn :: "int \<Rightarrow> (pb_istream_t \<Rightarrow> u64 \<Rightarrow> mem \<Rightarrow> (bool \<times> byte list \<times> pb_istream_t \<times> mem) option) option"
  write_fn :: "int \<Rightarrow> (pb_ostream_t \<Rightarrow> byte list \<Rightarrow> mem \<Rightarrow> (bool \<times> pb_ostream_t \<times> mem) option) option"
  dec_fn :: "int \<Rightarrow> (pb_istream_t \<Rightarrow> pb_field_t \<Rightarrow> ptr \<Rightarrow> mem \<Rightarrow> (bool \<times> pb_istream_t \<times> mem) option) option"
  enc_fn :: "int \<Rightarrow> (pb_ostream_t \<Rightarrow> pb_field_t \<Rightarrow> ptr \<Rightarrow> mem \<Rightarrow> (bool \<times> pb_ostream_t \<times> mem) option) option"
  extdec_fn :: "int \<Rightarrow> (pb_istream_t \<Rightarrow> ptr \<Rightarrow> u32 \<Rightarrow> pb_wire_type_t \<Rightarrow> mem \<Rightarrow> (bool \<times> pb_istream_t \<times> mem) option) option"
  extenc_fn :: "int \<Rightarrow> (pb_ostream_t \<Rightarrow> ptr \<Rightarrow> mem \<Rightarrow> (bool \<times> pb_ostream_t \<times> mem) option) option"
  ext_types :: "ptr \<Rightarrow> pb_extension_type_t option"

text \<open>An environment without user code.\<close>

definition no_user :: pb_env where
  "no_user = \<lparr>read_fn = (\<lambda>_. None), write_fn = (\<lambda>_. None), dec_fn = (\<lambda>_. None),
     enc_fn = (\<lambda>_. None), extdec_fn = (\<lambda>_. None), extenc_fn = (\<lambda>_. None),
     ext_types = (\<lambda>_. None)\<rparr>"

text \<open>
  Member offsets of \<open>struct pb_extension_s\<close> (type, dest, next, found) and of
  \<open>struct pb_callback_s\<close> (funcs, arg).
\<close>

abbreviation (input) ext_off_type :: int where "ext_off_type \<equiv> 0"
abbreviation (input) ext_off_dest :: int where "ext_off_dest \<equiv> 8"
abbreviation (input) ext_off_next :: int where "ext_off_next \<equiv> 16"
abbreviation (input) ext_off_found :: int where "ext_off_found \<equiv> 24"
abbreviation (input) cb_off_funcs :: int where "cb_off_funcs \<equiv> 0"
abbreviation (input) cb_off_arg :: int where "cb_off_arg \<equiv> 8"

section \<open>The descriptor macros\<close>

text \<open>
  \<open>PB_FIELD\<close> assembles a descriptor entry from the tag, the type, the rule, the
  allocation, the placement and the layout of the struct. What the compiler computes from
  the struct with \<open>offsetof\<close> and \<open>sizeof\<close> is a record \<open>member\<close>: the offset and the size
  of the member, the size of its first element, and the offset of its has or count or
  which companion.
\<close>

datatype pb_proto_type = BOOL | BYTES | DOUBLE | ENUM | UENUM | FIXED32 | FIXED64 | FLOAT
  | INT32 | INT64 | MESSAGE | SFIXED32 | SFIXED64 | SINT32 | SINT64 | STRING | UINT32 | UINT64
  | EXTENSION | FIXED_LENGTH_BYTES

fun PB_LTYPE_MAP :: "pb_proto_type \<Rightarrow> byte" where
  "PB_LTYPE_MAP BOOL = PB_LTYPE_VARINT"
| "PB_LTYPE_MAP BYTES = PB_LTYPE_BYTES"
| "PB_LTYPE_MAP DOUBLE = PB_LTYPE_FIXED64"
| "PB_LTYPE_MAP ENUM = PB_LTYPE_VARINT"
| "PB_LTYPE_MAP UENUM = PB_LTYPE_UVARINT"
| "PB_LTYPE_MAP FIXED32 = PB_LTYPE_FIXED32"
| "PB_LTYPE_MAP FIXED64 = PB_LTYPE_FIXED64"
| "PB_LTYPE_MAP FLOAT = PB_LTYPE_FIXED32"
| "PB_LTYPE_MAP INT32 = PB_LTYPE_VARINT"
| "PB_LTYPE_MAP INT64 = PB_LTYPE_VARINT"
| "PB_LTYPE_MAP MESSAGE = PB_LTYPE_SUBMESSAGE"
| "PB_LTYPE_MAP SFIXED32 = PB_LTYPE_FIXED32"
| "PB_LTYPE_MAP SFIXED64 = PB_LTYPE_FIXED64"
| "PB_LTYPE_MAP SINT32 = PB_LTYPE_SVARINT"
| "PB_LTYPE_MAP SINT64 = PB_LTYPE_SVARINT"
| "PB_LTYPE_MAP STRING = PB_LTYPE_STRING"
| "PB_LTYPE_MAP UINT32 = PB_LTYPE_UVARINT"
| "PB_LTYPE_MAP UINT64 = PB_LTYPE_UVARINT"
| "PB_LTYPE_MAP EXTENSION = PB_LTYPE_EXTENSION"
| "PB_LTYPE_MAP FIXED_LENGTH_BYTES = PB_LTYPE_FIXED_LENGTH_BYTES"

record member =
  m_offset :: int
  m_size :: int
  m_elem :: int
  m_companion :: int

datatype pb_rules = REQUIRED | OPTIONAL | SINGULAR | REPEATED | OPTEXT
datatype pb_alloc = STATIC | POINTER | CALLBACK
datatype pb_placement = FIRST | OTHER | UNION

definition pb_arraysize :: "member \<Rightarrow> int" where
  "pb_arraysize m = m_size m div m_elem m"

definition pb_delta :: "int \<Rightarrow> int \<Rightarrow> int" where
  "pb_delta off1 off2 = off1 - off2"

fun PB_DATAOFFSET :: "pb_placement \<Rightarrow> member \<Rightarrow> member \<Rightarrow> u32" where
  "PB_DATAOFFSET FIRST m1 m2 = word_of_int (m_offset m1)"
| "PB_DATAOFFSET OTHER m1 m2 = word_of_int (m_offset m1 - m_offset m2 - m_size m2)"
| "PB_DATAOFFSET UNION m1 m2 = PB_SIZE_MAX"

text \<open>
  The companion delta, the item size and the array size the macro for a rule and an
  allocation writes. \<open>OPTEXT\<close> has the data offset 0 for static allocation; its pointer
  and callback variants are those of \<open>OPTIONAL\<close>.
\<close>

fun PB_ENTRY :: "pb_rules \<Rightarrow> pb_alloc \<Rightarrow> u32 \<Rightarrow> member \<Rightarrow> u32 \<Rightarrow> byte \<Rightarrow> field_ptr \<Rightarrow> pb_field_t" where
  "PB_ENTRY REQUIRED STATIC t m fd lt p =
     Pb_Field t (PB_ATYPE_STATIC OR PB_HTYPE_REQUIRED OR lt) fd 0 (word_of_int (m_size m)) 0 p"
| "PB_ENTRY OPTIONAL STATIC t m fd lt p =
     Pb_Field t (PB_ATYPE_STATIC OR PB_HTYPE_OPTIONAL OR lt) fd
       (word_of_int (pb_delta (m_companion m) (m_offset m))) (word_of_int (m_size m)) 0 p"
| "PB_ENTRY SINGULAR STATIC t m fd lt p =
     Pb_Field t (PB_ATYPE_STATIC OR PB_HTYPE_OPTIONAL OR lt) fd 0 (word_of_int (m_size m)) 0 p"
| "PB_ENTRY REPEATED STATIC t m fd lt p =
     Pb_Field t (PB_ATYPE_STATIC OR PB_HTYPE_REPEATED OR lt) fd
       (word_of_int (pb_delta (m_companion m) (m_offset m))) (word_of_int (m_elem m))
       (word_of_int (pb_arraysize m)) p"
| "PB_ENTRY REQUIRED POINTER t m fd lt p =
     Pb_Field t (PB_ATYPE_POINTER OR PB_HTYPE_REQUIRED OR lt) fd 0 (word_of_int (m_elem m)) 0 p"
| "PB_ENTRY OPTIONAL POINTER t m fd lt p =
     Pb_Field t (PB_ATYPE_POINTER OR PB_HTYPE_OPTIONAL OR lt) fd 0 (word_of_int (m_elem m)) 0 p"
| "PB_ENTRY SINGULAR POINTER t m fd lt p =
     Pb_Field t (PB_ATYPE_POINTER OR PB_HTYPE_OPTIONAL OR lt) fd 0 (word_of_int (m_elem m)) 0 p"
| "PB_ENTRY REPEATED POINTER t m fd lt p =
     Pb_Field t (PB_ATYPE_POINTER OR PB_HTYPE_REPEATED OR lt) fd
       (word_of_int (pb_delta (m_companion m) (m_offset m))) (word_of_int (m_elem m)) 0 p"
| "PB_ENTRY REQUIRED CALLBACK t m fd lt p =
     Pb_Field t (PB_ATYPE_CALLBACK OR PB_HTYPE_REQUIRED OR lt) fd 0 (word_of_int (m_size m)) 0 p"
| "PB_ENTRY OPTIONAL CALLBACK t m fd lt p =
     Pb_Field t (PB_ATYPE_CALLBACK OR PB_HTYPE_OPTIONAL OR lt) fd 0 (word_of_int (m_size m)) 0 p"
| "PB_ENTRY SINGULAR CALLBACK t m fd lt p =
     Pb_Field t (PB_ATYPE_CALLBACK OR PB_HTYPE_OPTIONAL OR lt) fd 0 (word_of_int (m_size m)) 0 p"
| "PB_ENTRY REPEATED CALLBACK t m fd lt p =
     Pb_Field t (PB_ATYPE_CALLBACK OR PB_HTYPE_REPEATED OR lt) fd 0 (word_of_int (m_size m)) 0 p"
| "PB_ENTRY OPTEXT STATIC t m fd lt p =
     Pb_Field t (PB_ATYPE_STATIC OR PB_HTYPE_REQUIRED OR lt) 0 0 (word_of_int (m_size m)) 0 p"
| "PB_ENTRY OPTEXT POINTER t m fd lt p =
     Pb_Field t (PB_ATYPE_POINTER OR PB_HTYPE_OPTIONAL OR lt) fd 0 (word_of_int (m_elem m)) 0 p"
| "PB_ENTRY OPTEXT CALLBACK t m fd lt p =
     Pb_Field t (PB_ATYPE_CALLBACK OR PB_HTYPE_OPTIONAL OR lt) fd 0 (word_of_int (m_size m)) 0 p"

definition PB_FIELD :: "u32 \<Rightarrow> pb_proto_type \<Rightarrow> pb_rules \<Rightarrow> pb_alloc \<Rightarrow> pb_placement \<Rightarrow>
    member \<Rightarrow> member \<Rightarrow> field_ptr \<Rightarrow> pb_field_t" where
  "PB_FIELD t ty rules alloc placement m prev p =
     PB_ENTRY rules alloc t m (PB_DATAOFFSET placement m prev) (PB_LTYPE_MAP ty) p"

text \<open>A member of a oneof: its companion is the which field of the union.\<close>

definition PB_ONEOF_FIELD :: "u32 \<Rightarrow> pb_proto_type \<Rightarrow> bool \<Rightarrow> pb_placement \<Rightarrow>
    member \<Rightarrow> member \<Rightarrow> field_ptr \<Rightarrow> pb_field_t" where
  "PB_ONEOF_FIELD t ty pointer placement m prev p =
     Pb_Field t ((if pointer then PB_ATYPE_POINTER else PB_ATYPE_STATIC) OR PB_HTYPE_ONEOF OR PB_LTYPE_MAP ty)
       (PB_DATAOFFSET placement m prev) (word_of_int (pb_delta (m_companion m) (m_offset m)))
       (word_of_int (if pointer then m_elem m else m_size m)) 0 p"

end
