(* ===== verification/PbIter.thy ===== *)
theory PbIter
  imports PbTypes
begin

text \<open>
  The field iterator (pb_common.c). The iterator walks a descriptor array and keeps the
  addresses of the current member and of its has or count companion by adding up sizes and
  offsets. A step beyond the end of the array is undefined behaviour (\<open>None\<close>).
  \<open>iter_at\<close> is the closed form of the iterator after a number of steps; the lemmas below
  show that beginning, stepping and searching only ever produce iterators of this form.
\<close>

record pb_field_iter_t =
  it_start :: "pb_field_t list"
  it_pos :: nat
  required_field_index :: nat
  dest_struct :: ptr
  pData :: ptr
  pSize :: ptr

text \<open>The dereference \<open>*iter->pos\<close>.\<close>

definition it_field :: "pb_field_iter_t \<Rightarrow> pb_field_t option" where
  "it_field it = nth_opt (it_start it) (it_pos it)"

definition pb_field_iter_begin :: "pb_field_t list \<Rightarrow> ptr \<Rightarrow> (bool \<times> pb_field_iter_t) option" where
  "pb_field_iter_begin fs dest = do {
     f \<leftarrow> nth_opt fs 0;
     let pd = dest + uint (data_offset f);
     Some (tag f \<noteq> 0,
       \<lparr>it_start = fs, it_pos = 0, required_field_index = 0, dest_struct = dest,
        pData = pd, pSize = pd + sint (size_offset f)\<rparr>)
   }"

definition in_union :: "pb_field_t \<Rightarrow> pb_field_t \<Rightarrow> bool" where
  "in_union prev f \<longleftrightarrow> PB_HTYPE (type prev) = PB_HTYPE_ONEOF \<and> PB_HTYPE (type f) = PB_HTYPE_ONEOF
     \<and> data_offset f = PB_SIZE_MAX"

text \<open>
  The bytes the previous member takes up in the struct. The sizes are 32 bits wide and the
  product is taken in \<open>size_t\<close>, so it does not wrap.
\<close>

definition prev_size :: "pb_field_t \<Rightarrow> int" where
  "prev_size prev =
     (if PB_ATYPE (type prev) = PB_ATYPE_STATIC \<and> PB_HTYPE (type prev) = PB_HTYPE_REPEATED
      then uint (data_size prev) * uint (array_size prev)
      else if PB_ATYPE (type prev) = PB_ATYPE_POINTER then 8
      else uint (data_size prev))"

definition pb_field_iter_next :: "pb_field_iter_t \<Rightarrow> (bool \<times> pb_field_iter_t) option" where
  "pb_field_iter_next it = do {
     prev \<leftarrow> it_field it;
     if tag prev = 0 then Some (False, it)
     else do {
       f \<leftarrow> nth_opt (it_start it) (Suc (it_pos it));
       if tag f = 0 then do {
         (_, it') \<leftarrow> pb_field_iter_begin (it_start it) (dest_struct it);
         Some (False, it')
       }
       else if in_union prev f then Some (True, it\<lparr>it_pos := Suc (it_pos it)\<rparr>)
       else
         let pd = pData it + prev_size prev + uint (data_offset f);
             req = (if PB_HTYPE (type prev) = PB_HTYPE_REQUIRED then Suc (required_field_index it)
                    else required_field_index it)
         in Some (True, it\<lparr>it_pos := Suc (it_pos it), required_field_index := req,
                   pData := pd, pSize := pd + sint (size_offset f)\<rparr>)
     }
   }"

text \<open>The do-while loop of the search. Its fuel is the length of the array.\<close>

fun iter_find_loop :: "nat \<Rightarrow> nat \<Rightarrow> pb_field_iter_t \<Rightarrow> u32 \<Rightarrow> (bool \<times> pb_field_iter_t) option" where
  "iter_find_loop 0 start it t = None"
| "iter_find_loop (Suc n) start it t = do {
     f \<leftarrow> it_field it;
     if tag f = t \<and> PB_LTYPE (type f) \<noteq> PB_LTYPE_EXTENSION then Some (True, it)
     else do {
       (_, it') \<leftarrow> pb_field_iter_next it;
       if it_pos it' \<noteq> start then iter_find_loop n start it' t else Some (False, it')
     }
   }"

definition pb_field_iter_find :: "pb_field_iter_t \<Rightarrow> u32 \<Rightarrow> (bool \<times> pb_field_iter_t) option" where
  "pb_field_iter_find it t = iter_find_loop (length (it_start it)) (it_pos it) it t"

section \<open>The iterator in closed form\<close>

text \<open>A descriptor array: entries of non-zero tag, then the terminator.\<close>

definition wf_array :: "pb_field_t list \<Rightarrow> bool" where
  "wf_array fs \<longleftrightarrow> fs \<noteq> [] \<and> last fs = PB_LAST_FIELD \<and> (\<forall>f \<in> set (butlast fs). tag f \<noteq> 0)"

definition nfields :: "pb_field_t list \<Rightarrow> nat" where
  "nfields fs = length fs - 1"

fun data_pos :: "pb_field_t list \<Rightarrow> nat \<Rightarrow> int" where
  "data_pos fs 0 = uint (data_offset (fs ! 0))"
| "data_pos fs (Suc i) =
     (if in_union (fs ! i) (fs ! Suc i) then data_pos fs i
      else data_pos fs i + prev_size (fs ! i) + uint (data_offset (fs ! Suc i)))"

fun size_pos :: "pb_field_t list \<Rightarrow> nat \<Rightarrow> int" where
  "size_pos fs 0 = data_pos fs 0 + sint (size_offset (fs ! 0))"
| "size_pos fs (Suc i) =
     (if in_union (fs ! i) (fs ! Suc i) then size_pos fs i
      else data_pos fs (Suc i) + sint (size_offset (fs ! Suc i)))"

definition req_index :: "pb_field_t list \<Rightarrow> nat \<Rightarrow> nat" where
  "req_index fs i = length (filter (\<lambda>f. PB_HTYPE (type f) = PB_HTYPE_REQUIRED) (take i fs))"

definition iter_at :: "pb_field_t list \<Rightarrow> ptr \<Rightarrow> nat \<Rightarrow> pb_field_iter_t" where
  "iter_at fs dest i =
     \<lparr>it_start = fs, it_pos = i, required_field_index = req_index fs i, dest_struct = dest,
      pData = dest + data_pos fs i, pSize = dest + size_pos fs i\<rparr>"

lemma iter_at_simps [simp]:
  "it_start (iter_at fs dest i) = fs"
  "it_pos (iter_at fs dest i) = i"
  "required_field_index (iter_at fs dest i) = req_index fs i"
  "dest_struct (iter_at fs dest i) = dest"
  "pData (iter_at fs dest i) = dest + data_pos fs i"
  "pSize (iter_at fs dest i) = dest + size_pos fs i"
  by (simp_all add: iter_at_def)

lemma wf_array_length: "wf_array fs \<Longrightarrow> length fs = Suc (nfields fs)"
  by (auto simp: wf_array_def nfields_def)

lemma wf_array_nth:
  "wf_array fs \<Longrightarrow> i \<le> nfields fs \<Longrightarrow> tag (fs ! i) = 0 \<longleftrightarrow> i = nfields fs"
proof -
  assume wf: "wf_array fs" and i: "i \<le> nfields fs"
  show ?thesis
  proof (cases "i = nfields fs")
    case True
    then have "fs ! i = PB_LAST_FIELD" using wf by (auto simp: wf_array_def nfields_def last_conv_nth)
    with True show ?thesis by (simp add: PB_LAST_FIELD_def)
  next
    case False
    then have "i < length (butlast fs)" using i by (simp add: nfields_def)
    then have "fs ! i \<in> set (butlast fs)" by (metis nth_butlast nth_mem)
    with wf False show ?thesis by (auto simp: wf_array_def)
  qed
qed

lemma wf_array_last: "wf_array fs \<Longrightarrow> fs ! nfields fs = PB_LAST_FIELD"
  by (auto simp: wf_array_def nfields_def last_conv_nth)

lemma in_union_not_required: "in_union prev f \<Longrightarrow> PB_HTYPE (type prev) \<noteq> PB_HTYPE_REQUIRED"
  by (simp add: in_union_def)

lemma req_index_Suc:
  "i < length fs \<Longrightarrow> req_index fs (Suc i) =
     (if PB_HTYPE (type (fs ! i)) = PB_HTYPE_REQUIRED then Suc (req_index fs i) else req_index fs i)"
  by (simp add: req_index_def take_Suc_conv_app_nth)

lemma req_index_mono: "i \<le> j \<Longrightarrow> req_index fs i \<le> req_index fs j"
proof -
  assume "i \<le> j"
  then have "take j fs = take i fs @ drop i (take j fs)"
    by (metis append_take_drop_id min.absorb1 take_take)
  then have "req_index fs j = req_index fs i +
      length (filter (\<lambda>f. PB_HTYPE (type f) = PB_HTYPE_REQUIRED) (drop i (take j fs)))"
    unfolding req_index_def by (metis filter_append length_append)
  then show ?thesis by simp
qed

lemma iter_begin_at:
  "wf_array fs \<Longrightarrow> pb_field_iter_begin fs dest = Some (nfields fs \<noteq> 0, iter_at fs dest 0)"
  using wf_array_length [of fs] wf_array_nth [of fs 0]
  by (simp add: pb_field_iter_begin_def iter_at_def req_index_def Let_def)

lemma iter_next_at:
  assumes wf: "wf_array fs" and i: "i < nfields fs"
  shows "pb_field_iter_next (iter_at fs dest i) =
    Some (if Suc i < nfields fs then (True, iter_at fs dest (Suc i)) else (False, iter_at fs dest 0))"
proof -
  have len: "length fs = Suc (nfields fs)" using wf by (rule wf_array_length)
  have prev: "tag (fs ! i) \<noteq> 0" using wf_array_nth [OF wf, of i] i by simp
  have nxt: "tag (fs ! Suc i) = 0 \<longleftrightarrow> \<not> Suc i < nfields fs"
    using wf_array_nth [OF wf, of "Suc i"] i by auto
  show ?thesis
    using i len prev nxt iter_begin_at [OF wf, of dest] in_union_not_required [of "fs ! i" "fs ! Suc i"]
    by (auto simp: pb_field_iter_next_def it_field_def iter_at_def req_index_Suc Let_def)
qed

lemma iter_next_empty:
  "wf_array fs \<Longrightarrow> nfields fs = 0 \<Longrightarrow> pb_field_iter_next (iter_at fs dest 0) = Some (False, iter_at fs dest 0)"
  using wf_array_length [of fs] wf_array_nth [of fs 0]
  by (simp add: pb_field_iter_next_def it_field_def)

lemma it_field_at: "wf_array fs \<Longrightarrow> i \<le> nfields fs \<Longrightarrow> it_field (iter_at fs dest i) = Some (fs ! i)"
  using wf_array_length [of fs] by (simp add: it_field_def)

section \<open>The search\<close>

definition field_matches :: "u32 \<Rightarrow> pb_field_t \<Rightarrow> bool" where
  "field_matches t f \<longleftrightarrow> tag f = t \<and> PB_LTYPE (type f) \<noteq> PB_LTYPE_EXTENSION"

text \<open>
  The index the cyclic search from \<open>i\<close> stops at: the first match at or after \<open>i\<close>, or else the
  first match from the start.
\<close>

definition find_index :: "pb_field_t list \<Rightarrow> nat \<Rightarrow> u32 \<Rightarrow> nat option" where
  "find_index fs i t =
     (case filter (\<lambda>j. field_matches t (fs ! j)) ([i ..< nfields fs] @ [0 ..< i]) of
        [] \<Rightarrow> None | j # _ \<Rightarrow> Some j)"

text \<open>Walking from \<open>j\<close> to the position before \<open>start\<close> visits the cyclic interval in order.\<close>

definition cyc :: "nat \<Rightarrow> nat \<Rightarrow> nat \<Rightarrow> nat list" where
  "cyc n start j = (if start \<le> j then [j ..< n] @ [0 ..< start] else [j ..< start])"

definition cyc_next :: "nat \<Rightarrow> nat \<Rightarrow> nat" where
  "cyc_next n j = (if Suc j < n then Suc j else 0)"

lemma cyc_step:
  "j < n \<Longrightarrow> start < n \<Longrightarrow> cyc n start j = j # (if cyc_next n j = start then [] else cyc n start (cyc_next n j))"
  by (auto simp: cyc_def cyc_next_def upt_conv_Cons Suc_lessI)

lemma iter_next_cyc:
  assumes "wf_array fs" and "j < nfields fs"
  shows "\<exists>b. pb_field_iter_next (iter_at fs dest j) = Some (b, iter_at fs dest (cyc_next (nfields fs) j))"
  using iter_next_at [OF assms, of dest] by (cases "Suc j < nfields fs") (auto simp: cyc_next_def)

lemma iter_find_loop_at:
  assumes wf: "wf_array fs" and start: "start < nfields fs"
  shows "j < nfields fs \<Longrightarrow> length (cyc (nfields fs) start j) \<le> n \<Longrightarrow>
    iter_find_loop n start (iter_at fs dest j) t =
      Some (case filter (\<lambda>k. field_matches t (fs ! k)) (cyc (nfields fs) start j) of
              [] \<Rightarrow> (False, iter_at fs dest start) | k # _ \<Rightarrow> (True, iter_at fs dest k))"
proof (induction n arbitrary: j)
  case 0
  then show ?case using cyc_step [of j "nfields fs" start] start by simp
next
  case (Suc n)
  let ?n = "nfields fs" and ?j' = "cyc_next (nfields fs) j"
  have step: "cyc ?n start j = j # (if ?j' = start then [] else cyc ?n start ?j')"
    using Suc.prems(1) start by (rule cyc_step)
  obtain b where nxt: "pb_field_iter_next (iter_at fs dest j) = Some (b, iter_at fs dest ?j')"
    using iter_next_cyc [OF wf Suc.prems(1)] by blast
  have f: "it_field (iter_at fs dest j) = Some (fs ! j)"
    using wf Suc.prems(1) by (simp add: it_field_at)
  have j': "?j' < ?n" using Suc.prems(1) by (auto simp: cyc_next_def)
  show ?case
  proof (cases "field_matches t (fs ! j)")
    case True
    then show ?thesis by (simp add: f step field_matches_def)
  next
    case False
    show ?thesis
    proof (cases "?j' = start")
      case True
      with False show ?thesis by (simp add: f nxt step) (auto simp: field_matches_def)
    next
      case neq: False
      with step Suc.prems(2) have "length (cyc ?n start ?j') \<le> n" by simp
      with False neq Suc.IH [OF j'] show ?thesis
        by (simp add: f nxt step) (auto simp: field_matches_def)
    qed
  qed
qed

lemma iter_find_at:
  assumes wf: "wf_array fs" and i: "i < nfields fs"
  shows "pb_field_iter_find (iter_at fs dest i) t =
    Some (case find_index fs i t of None \<Rightarrow> (False, iter_at fs dest i)
          | Some j \<Rightarrow> (True, iter_at fs dest j))"
proof -
  have "length (cyc (nfields fs) i i) \<le> length fs"
    using i wf_array_length [OF wf] by (simp add: cyc_def)
  from iter_find_loop_at [OF wf i i this, of dest t] show ?thesis
    by (simp add: pb_field_iter_find_def find_index_def cyc_def split: list.splits)
qed

text \<open>
  An array with no entries: the search compares the tag with that of the terminator, so the
  tag 0 is found there.
\<close>

lemma iter_find_empty:
  assumes wf: "wf_array fs" and n: "nfields fs = 0"
  shows "pb_field_iter_find (iter_at fs dest 0) t = Some (t = 0, iter_at fs dest 0)"
proof -
  have "fs ! 0 = PB_LAST_FIELD" using wf_array_last [OF wf] n by simp
  then show ?thesis
    using wf_array_length [OF wf] n iter_next_empty [OF wf n, of dest] it_field_at [OF wf, of 0 dest]
    by (simp add: pb_field_iter_find_def PB_LAST_FIELD_def PB_LTYPE_def)
qed

lemma find_index_Some:
  assumes "find_index fs i t = Some j" and "i \<le> nfields fs"
  shows "j < nfields fs \<and> field_matches t (fs ! j)"
proof -
  let ?xs = "filter (\<lambda>j. field_matches t (fs ! j)) ([i ..< nfields fs] @ [0 ..< i])"
  from assms(1) obtain js where "?xs = j # js"
    by (auto simp: find_index_def split: list.splits)
  then have "j \<in> set ?xs" by simp
  with assms(2) show ?thesis by auto
qed

lemma find_index_None:
  assumes "i \<le> nfields fs"
  shows "find_index fs i t = None \<longleftrightarrow> (\<forall>j < nfields fs. \<not> field_matches t (fs ! j))"
proof -
  let ?xs = "filter (\<lambda>j. field_matches t (fs ! j)) ([i ..< nfields fs] @ [0 ..< i])"
  have "find_index fs i t = None \<longleftrightarrow> ?xs = []" by (cases ?xs) (simp_all add: find_index_def)
  also have "\<dots> \<longleftrightarrow> (\<forall>j \<in> {i ..< nfields fs} \<union> {0 ..< i}. \<not> field_matches t (fs ! j))"
    by (simp only: filter_empty_conv set_append set_upt)
  also have "{i ..< nfields fs} \<union> {0 ..< i} = {0 ..< nfields fs}" using assms by auto
  finally show ?thesis by auto
qed

end
