(* ===== verification/PbIStream.thy ===== *)
theory PbIStream
  imports PbIter
begin

text \<open>
  Input streams and the primitive readers (pb_decode.c up to the field decoders): reading
  from a buffer or a user callback, varints, tags, skipping a value, raw values and
  length-limited substreams.

  A function that returns bool and delivers a value through a pointer to a local variable
  returns an option: \<open>Some v\<close> is true with the value \<open>v\<close>, \<open>None\<close> is false. The outer
  option is the one of undefined behaviour.
\<close>

section \<open>Reading\<close>

text \<open>
  Where the bytes read go: nowhere (a null pointer), a local array of the caller (the
  bytes are part of the result), or memory.
\<close>

datatype read_dst = DNull | DLocal | DMem ptr

definition buf_read :: "pb_istream_t \<Rightarrow> read_dst \<Rightarrow> u64 \<Rightarrow> mem \<Rightarrow> (bool \<times> byte list \<times> pb_istream_t \<times> mem) option" where
  "buf_read s d count m =
     (let source = i_state s; s' = s\<lparr>i_state := i_state s + uint count\<rparr>
      in case d of
           DNull \<Rightarrow> Some (True, [], s', m)
         | DLocal \<Rightarrow> do { bs \<leftarrow> load_bytes m source (unat count); Some (True, bs, s', m) }
         | DMem p \<Rightarrow> do { m' \<leftarrow> copy_bytes m source p (unat count); Some (True, [], s', m') })"

definition call_read :: "pb_env \<Rightarrow> pb_istream_t \<Rightarrow> read_dst \<Rightarrow> u64 \<Rightarrow> mem \<Rightarrow> (bool \<times> byte list \<times> pb_istream_t \<times> mem) option" where
  "call_read env s d count m =
     (case i_callback s of
        Buf_read \<Rightarrow> buf_read s d count m
      | User_read f \<Rightarrow> do {
          fn \<leftarrow> read_fn env f;
          (b, bs, s', m') \<leftarrow> fn s count m;
          case d of
            DMem p \<Rightarrow> do { m'' \<leftarrow> store_bytes m' p bs; Some (b, [], s', m'') }
          | _ \<Rightarrow> Some (b, bs, s', m')
        })"

text \<open>\<open>pb_read\<close> with a buffer that is not null, or on a buffer stream.\<close>

definition pb_read_direct :: "pb_env \<Rightarrow> pb_istream_t \<Rightarrow> read_dst \<Rightarrow> u64 \<Rightarrow> mem \<Rightarrow> (bool \<times> byte list \<times> pb_istream_t \<times> mem) option" where
  "pb_read_direct env s d count m =
     (if bytes_left s < count then Some (False, [], i_set_error s ''end-of-stream'', m)
      else do {
        (b, bs, s', m') \<leftarrow> call_read env s d count m;
        if \<not> b then Some (False, bs, i_set_error s' ''io error'', m')
        else Some (True, bs, s'\<lparr>bytes_left := bytes_left s' - count\<rparr>, m')
      })"

text \<open>The loop that skips input of a callback stream through a local array of 16 bytes.\<close>

function pb_read_skip :: "pb_env \<Rightarrow> pb_istream_t \<Rightarrow> u64 \<Rightarrow> mem \<Rightarrow> (bool \<times> byte list \<times> pb_istream_t \<times> mem) option" where
  "pb_read_skip env s count m =
     (if count > 16 then do {
        (b, bs, s', m') \<leftarrow> pb_read_direct env s DLocal 16 m;
        if \<not> b then Some (False, [], s', m') else pb_read_skip env s' (count - 16) m'
      }
      else do {
        (b, bs, s', m') \<leftarrow> pb_read_direct env s DLocal count m;
        Some (b, [], s', m')
      })"
  by pat_completeness auto
termination
proof (relation "measure (\<lambda>(env, s, count, m). unat count)")
  fix count :: u64
  assume "16 < count"
  then have "unat (count - 16) < unat count" by unat_arith
  then show "\<And>env s m x y xa xb xc xd xe. ((env, x, count - 16, y), env, s, count, m)
      \<in> measure (\<lambda>(env, s, count, m). unat count)" by simp
qed simp

declare pb_read_skip.simps [simp del]

definition pb_read :: "pb_env \<Rightarrow> pb_istream_t \<Rightarrow> read_dst \<Rightarrow> u64 \<Rightarrow> mem \<Rightarrow> (bool \<times> byte list \<times> pb_istream_t \<times> mem) option" where
  "pb_read env s d count m =
     (if d = DNull \<and> i_callback s \<noteq> Buf_read then pb_read_skip env s count m
      else pb_read_direct env s d count m)"

text \<open>
  One byte. The byte is a local variable of the caller, so a callback that returns true
  without delivering it leaves the caller with an indeterminate value (\<open>None\<close>).
\<close>

definition pb_readbyte :: "pb_env \<Rightarrow> pb_istream_t \<Rightarrow> mem \<Rightarrow> (byte option \<times> pb_istream_t \<times> mem) option" where
  "pb_readbyte env s m =
     (if bytes_left s = 0 then Some (None, i_set_error s ''end-of-stream'', m)
      else do {
        (b, bs, s', m') \<leftarrow> call_read env s DLocal 1 m;
        if \<not> b then Some (None, i_set_error s' ''io error'', m')
        else do {
          x \<leftarrow> nth_opt bs 0;
          Some (Some x, s'\<lparr>bytes_left := bytes_left s' - 1\<rparr>, m')
        }
      })"

definition pb_istream_from_buffer :: "ptr \<Rightarrow> u64 \<Rightarrow> pb_istream_t" where
  "pb_istream_from_buffer buf bufsize =
     \<lparr>i_callback = Buf_read, i_state = buf, bytes_left = bufsize, i_errmsg = None\<rparr>"

section \<open>Varints\<close>

text \<open>
  The bit position is a \<open>uint_fast8_t\<close>; the guard keeps it at 70 or below, so it does not
  wrap and is a natural number here.
\<close>

function varint32_loop :: "pb_env \<Rightarrow> pb_istream_t \<Rightarrow> nat \<Rightarrow> u32 \<Rightarrow> mem \<Rightarrow> (u32 option \<times> pb_istream_t \<times> mem) option" where
  "varint32_loop env s bitpos result m =
     (if 32 \<le> bitpos then Some (None, i_set_error s ''varint overflow'', m)
      else do {
        (r, s', m') \<leftarrow> pb_readbyte env s m;
        case r of None \<Rightarrow> Some (None, s', m')
        | Some b \<Rightarrow>
            let result' = result OR push_bit bitpos (ucast (b AND 0x7F))
            in if b AND 0x80 \<noteq> 0 then varint32_loop env s' (bitpos + 7) result' m'
               else Some (Some result', s', m')
      })"
  by pat_completeness auto
termination by (relation "measure (\<lambda>(env, s, bitpos, result, m). 32 - bitpos)") auto

declare varint32_loop.simps [simp del]

definition pb_decode_varint32 :: "pb_env \<Rightarrow> pb_istream_t \<Rightarrow> mem \<Rightarrow> (u32 option \<times> pb_istream_t \<times> mem) option" where
  "pb_decode_varint32 env s m = do {
     (r, s', m') \<leftarrow> pb_readbyte env s m;
     case r of None \<Rightarrow> Some (None, s', m')
     | Some b \<Rightarrow>
         if b AND 0x80 = 0 then Some (Some (ucast b), s', m')
         else varint32_loop env s' 7 (ucast (b AND 0x7F)) m'
   }"

function varint64_loop :: "pb_env \<Rightarrow> pb_istream_t \<Rightarrow> nat \<Rightarrow> u64 \<Rightarrow> mem \<Rightarrow> (u64 option \<times> pb_istream_t \<times> mem) option" where
  "varint64_loop env s bitpos result m =
     (if 64 \<le> bitpos then Some (None, i_set_error s ''varint overflow'', m)
      else do {
        (r, s', m') \<leftarrow> pb_readbyte env s m;
        case r of None \<Rightarrow> Some (None, s', m')
        | Some b \<Rightarrow>
            let result' = result OR push_bit bitpos (ucast (b AND 0x7F))
            in if b AND 0x80 \<noteq> 0 then varint64_loop env s' (bitpos + 7) result' m'
               else Some (Some result', s', m')
      })"
  by pat_completeness auto
termination by (relation "measure (\<lambda>(env, s, bitpos, result, m). 64 - bitpos)") auto

declare varint64_loop.simps [simp del]

definition pb_decode_varint :: "pb_env \<Rightarrow> pb_istream_t \<Rightarrow> mem \<Rightarrow> (u64 option \<times> pb_istream_t \<times> mem) option" where
  "pb_decode_varint env s m = varint64_loop env s 0 0 m"

text \<open>
  Skipping a varint reads until a byte without the continuation bit, however many there
  are. What a user callback does to the stream is not known, so the loop has fuel; on a
  buffer more fuel than bytes left is enough.
\<close>

fun pb_skip_varint :: "nat \<Rightarrow> pb_env \<Rightarrow> pb_istream_t \<Rightarrow> mem \<Rightarrow> (bool \<times> pb_istream_t \<times> mem) option" where
  "pb_skip_varint 0 env s m = None"
| "pb_skip_varint (Suc n) env s m = do {
     (b, bs, s', m') \<leftarrow> pb_read env s DLocal 1 m;
     if \<not> b then Some (False, s', m')
     else do {
       x \<leftarrow> nth_opt bs 0;
       if x AND 0x80 \<noteq> 0 then pb_skip_varint n env s' m' else Some (True, s', m')
     }
   }"

definition pb_skip_string :: "pb_env \<Rightarrow> pb_istream_t \<Rightarrow> mem \<Rightarrow> (bool \<times> pb_istream_t \<times> mem) option" where
  "pb_skip_string env s m = do {
     (r, s', m') \<leftarrow> pb_decode_varint32 env s m;
     case r of None \<Rightarrow> Some (False, s', m')
     | Some len \<Rightarrow> do {
         (b, _, s'', m'') \<leftarrow> pb_read env s' DNull (ucast len) m';
         Some (b, s'', m'')
       }
   }"

section \<open>Tags and fields\<close>

text \<open>
  The result of \<open>pb_decode_tag\<close>: the wire type and the field number, or false with the
  end-of-message flag.
\<close>

datatype tag_result = Tag pb_wire_type_t u32 | No_tag bool

definition pb_decode_tag :: "pb_env \<Rightarrow> pb_istream_t \<Rightarrow> mem \<Rightarrow> (tag_result \<times> pb_istream_t \<times> mem) option" where
  "pb_decode_tag env s m = do {
     (r, s', m') \<leftarrow> pb_decode_varint32 env s m;
     Some (case r of
        None \<Rightarrow> No_tag (bytes_left s' = 0)
      | Some temp \<Rightarrow> if temp = 0 then No_tag True else Tag (temp AND 7) (drop_bit 3 temp),
      s', m')
   }"

definition pb_skip_field :: "nat \<Rightarrow> pb_env \<Rightarrow> pb_istream_t \<Rightarrow> pb_wire_type_t \<Rightarrow> mem \<Rightarrow> (bool \<times> pb_istream_t \<times> mem) option" where
  "pb_skip_field fuel env s wire_type m =
     (if wire_type = PB_WT_VARINT then pb_skip_varint fuel env s m
      else if wire_type = PB_WT_64BIT then
        do { (b, _, s', m') \<leftarrow> pb_read env s DNull 8 m; Some (b, s', m') }
      else if wire_type = PB_WT_STRING then pb_skip_string env s m
      else if wire_type = PB_WT_32BIT then
        do { (b, _, s', m') \<leftarrow> pb_read env s DNull 4 m; Some (b, s', m') }
      else Some (False, i_set_error s ''invalid wire_type'', m))"

text \<open>
  Read a raw value into a local buffer of \<open>max_size\<close> bytes: the buffer and the size of
  the value in it.
\<close>

function read_raw_varint :: "pb_env \<Rightarrow> pb_istream_t \<Rightarrow> nat \<Rightarrow> byte list \<Rightarrow> mem \<Rightarrow> (byte list option \<times> pb_istream_t \<times> mem) option" where
  "read_raw_varint env s max_sz buf m =
     (if max_sz < Suc (length buf) then Some (None, s, m)
      else do {
        (b, bs, s', m') \<leftarrow> pb_read env s DLocal 1 m;
        if \<not> b then Some (None, s', m')
        else do {
          x \<leftarrow> nth_opt bs 0;
          if x AND 0x80 \<noteq> 0 then read_raw_varint env s' max_sz (buf @ [x]) m'
          else Some (Some (buf @ [x]), s', m')
        }
      })"
  by pat_completeness auto
termination by (relation "measure (\<lambda>(env, s, max_sz, buf, m). max_sz - length buf)") auto

declare read_raw_varint.simps [simp del]

definition read_raw_value :: "pb_env \<Rightarrow> pb_istream_t \<Rightarrow> pb_wire_type_t \<Rightarrow> nat \<Rightarrow> mem \<Rightarrow> (byte list option \<times> pb_istream_t \<times> mem) option" where
  "read_raw_value env s wire_type max_sz m =
     (if wire_type = PB_WT_VARINT then read_raw_varint env s max_sz [] m
      else if wire_type = PB_WT_64BIT then do {
        (b, bs, s', m') \<leftarrow> pb_read env s DLocal 8 m;
        Some (if b then Some bs else None, s', m') }
      else if wire_type = PB_WT_32BIT then do {
        (b, bs, s', m') \<leftarrow> pb_read env s DLocal 4 m;
        Some (if b then Some bs else None, s', m') }
      else Some (None, i_set_error s ''invalid wire_type'', m))"

section \<open>Substreams\<close>

definition pb_make_string_substream :: "pb_env \<Rightarrow> pb_istream_t \<Rightarrow> mem \<Rightarrow> (pb_istream_t option \<times> pb_istream_t \<times> mem) option" where
  "pb_make_string_substream env s m = do {
     (r, s', m') \<leftarrow> pb_decode_varint32 env s m;
     case r of None \<Rightarrow> Some (None, s', m')
     | Some sz \<Rightarrow>
         if bytes_left s' < ucast sz
         then Some (None, i_set_error s' ''parent stream too short'', m')
         else Some (Some (s'\<lparr>bytes_left := ucast sz\<rparr>),
                    s'\<lparr>bytes_left := bytes_left s' - ucast sz\<rparr>, m')
   }"

definition pb_close_string_substream :: "pb_env \<Rightarrow> pb_istream_t \<Rightarrow> pb_istream_t \<Rightarrow> mem \<Rightarrow> (bool \<times> pb_istream_t \<times> mem) option" where
  "pb_close_string_substream env s sub m =
     (if bytes_left sub \<noteq> 0 then do {
        (b, _, sub', m') \<leftarrow> pb_read env sub DNull (bytes_left sub) m;
        if \<not> b then Some (False, s, m')
        else Some (True, s\<lparr>i_state := i_state sub', i_errmsg := i_errmsg sub'\<rparr>, m')
      }
      else Some (True, s\<lparr>i_state := i_state sub, i_errmsg := i_errmsg sub\<rparr>, m))"

end
