(* ===== verification/PbVarint.thy ===== *)
theory PbVarint
  imports Prelude
begin

text \<open>
  The base-128 varint encoding as a function on byte lists: the reference that the readers
  and writers of nanopb are compared with. \<open>parse_varint\<close> reads a varint into a word of any
  width and says how many bytes it used; \<open>base128\<close> is the number a list of seven-bit groups
  stands for.
\<close>

fun parse_varint :: "nat \<Rightarrow> 'a::len word \<Rightarrow> byte list \<Rightarrow> (string + 'a word) \<times> nat" where
  "parse_varint pos acc [] =
     (if LENGTH('a) \<le> pos then Inl ''varint overflow'' else Inl ''end-of-stream'', 0)"
| "parse_varint pos acc (b # bs) =
     (if LENGTH('a) \<le> pos then (Inl ''varint overflow'', 0)
      else let acc' = acc OR push_bit pos (ucast (b AND 0x7F))
           in if b AND 0x80 \<noteq> 0 then (case parse_varint (pos + 7) acc' bs of (r, k) \<Rightarrow> (r, Suc k))
              else (Inr acc', 1))"

fun base128 :: "byte list \<Rightarrow> nat" where
  "base128 [] = 0"
| "base128 (b # bs) = unat (b AND 0x7F) + 128 * base128 bs"

text \<open>Continuation bit set on every byte but the last.\<close>

fun varint_shape :: "byte list \<Rightarrow> bool" where
  "varint_shape [] \<longleftrightarrow> False"
| "varint_shape (b # bs) \<longleftrightarrow> (if bs = [] then b AND 0x80 = 0 else b AND 0x80 \<noteq> 0 \<and> varint_shape bs)"

text \<open>The bits of the two masks.\<close>

lemma bit_7F: "bit (0x7F :: 'a::len word) n \<longleftrightarrow> n < 7 \<and> n < LENGTH('a)"
proof -
  have "(0x7F :: 'a word) = mask 7" by (simp add: mask_eq_exp_minus_1)
  then show ?thesis by (simp only: bit_mask_iff possible_bit_word) auto
qed

lemma bit_80: "bit (0x80 :: 'a::len word) n \<longleftrightarrow> n = 7 \<and> n < LENGTH('a)"
proof -
  have "(0x80 :: 'a word) = 2 ^ 7" by simp
  then show ?thesis by (simp only: bit_exp_iff possible_bit_word) auto
qed

lemmas bits_7F_80 = bit_7F bit_80 bit_and_iff bit_or_iff bit_ucast_iff bit_take_bit_iff

lemma unat_and_7F: "unat (b AND 0x7F :: byte) < 128"
proof -
  have "b AND 0x7F \<le> 0x7F" by (rule word_and_le1)
  then have "unat (b AND 0x7F) \<le> unat (0x7F :: byte)" by (simp only: word_le_nat_alt)
  then show ?thesis by simp
qed

lemma or_push_bit_add:
  fixes acc :: "'a::len word"
  assumes "take_bit pos acc = acc"
  shows "acc OR push_bit pos x = acc + push_bit pos x"
proof (rule disjunctive_add [symmetric])
  fix n
  have "bit acc n \<Longrightarrow> n < pos" using assms by (metis bit_take_bit_iff)
  then show "\<not> bit acc n \<or> \<not> bit (push_bit pos x) n" by (auto simp: bit_push_bit_iff)
qed

lemma push_bit_of_nat:
  "push_bit pos (ucast x :: 'a::len word) = of_nat (2 ^ pos * unat x)"
proof -
  have "push_bit pos (ucast x :: 'a word) = ucast x * 2 ^ pos" by (simp add: push_bit_eq_mult)
  also have "ucast x = (of_nat (unat x) :: 'a word)" by simp
  finally show ?thesis by (simp add: mult.commute)
qed

lemma take_bit_acc:
  fixes acc :: "'a::len word"
  assumes "take_bit pos acc = acc"
  shows "take_bit (pos + 7) (acc OR push_bit pos (ucast (b AND 0x7F :: byte))) =
    acc OR push_bit pos (ucast (b AND 0x7F))"
proof (rule bit_word_eqI)
  fix n
  have "bit acc n \<Longrightarrow> n < pos" using assms by (metis bit_take_bit_iff)
  moreover have "bit (b AND 0x7F) (n - pos) \<Longrightarrow> n - pos < 7"
  proof -
    have "(0x7F :: byte) = mask 7" by (simp add: mask_eq_exp_minus_1)
    then show "bit (b AND 0x7F) (n - pos) \<Longrightarrow> n - pos < 7" by (simp add: bit_and_iff bit_mask_iff)
  qed
  ultimately show "bit (take_bit (pos + 7) (acc OR push_bit pos (ucast (b AND 0x7F)))) n =
      bit (acc OR push_bit pos (ucast (b AND 0x7F))) n"
    by (fastforce simp: bit_take_bit_iff bit_or_iff bit_push_bit_iff bit_ucast_iff)
qed

lemma acc_step:
  fixes acc :: "'a::len word"
  assumes "take_bit pos acc = acc"
  shows "acc OR push_bit pos (ucast (b AND 0x7F :: byte)) = acc + of_nat (2 ^ pos * unat (b AND 0x7F))"
  by (simp only: or_push_bit_add [OF assms] flip: push_bit_of_nat)

text \<open>What a successful parse returns.\<close>

lemma parse_varint_Inr:
  fixes acc :: "'a::len word"
  assumes "parse_varint pos acc bs = (Inr v, k)" and "take_bit pos acc = acc"
  shows "0 < k \<and> k \<le> length bs \<and> varint_shape (take k bs) \<and> pos + 7 * (k - 1) < LENGTH('a) \<and>
    v = acc + of_nat (2 ^ pos * base128 (take k bs))"
  using assms
proof (induction bs arbitrary: pos acc k)
  case Nil
  then show ?case by (simp split: if_splits)
next
  case (Cons b bs)
  let ?acc = "acc OR push_bit pos (ucast (b AND 0x7F))"
  have pos: "pos < LENGTH('a)" using Cons.prems(1) by (auto split: if_splits)
  show ?case
  proof (cases "b AND 0x80 = 0")
    case True
    then have "v = ?acc" "k = 1" using Cons.prems(1) pos by (auto simp: Let_def)
    then show ?thesis using True pos acc_step [OF Cons.prems(2), of b] by simp
  next
    case False
    then obtain k' where k: "k = Suc k'" and p: "parse_varint (pos + 7) ?acc bs = (Inr v, k')"
      using Cons.prems(1) pos by (auto simp: Let_def split: prod.splits)
    from Cons.IH [OF p take_bit_acc [OF Cons.prems(2)]]
    have ih: "0 < k'" "k' \<le> length bs" "varint_shape (take k' bs)" "pos + 7 + 7 * (k' - 1) < LENGTH('a)"
      and v: "v = ?acc + of_nat (2 ^ (pos + 7) * base128 (take k' bs))" by auto
    have "v = acc + of_nat (2 ^ pos * unat (b AND 0x7F) + 2 ^ (pos + 7) * base128 (take k' bs))"
      unfolding v acc_step [OF Cons.prems(2)] by simp
    also have "2 ^ pos * unat (b AND 0x7F) + 2 ^ (pos + 7) * base128 (take k' bs) =
        2 ^ pos * base128 (take k (b # bs))"
      by (simp add: k power_add algebra_simps)
    finally have "v = acc + of_nat (2 ^ pos * base128 (take k (b # bs)))" .
    moreover have "take k' bs \<noteq> []" using ih by auto
    ultimately show ?thesis using ih False k by auto
  qed
qed

text \<open>Every well-shaped list that fits the width is parsed, whatever follows it.\<close>

lemma parse_varint_shape:
  fixes acc :: "'a::len word"
  assumes "varint_shape xs" and "pos + 7 * (length xs - 1) < LENGTH('a)" and "take_bit pos acc = acc"
  shows "parse_varint pos acc (xs @ rest) = (Inr (acc + of_nat (2 ^ pos * base128 xs)), length xs)"
  using assms
proof (induction xs arbitrary: pos acc)
  case Nil
  then show ?case by simp
next
  case (Cons b bs)
  let ?acc = "acc OR push_bit pos (ucast (b AND 0x7F))"
  have pos: "pos < LENGTH('a)" using Cons.prems(2) by simp
  show ?case
  proof (cases "bs = []")
    case True
    then show ?thesis using Cons.prems pos acc_step [OF Cons.prems(3), of b] by (simp add: Let_def)
  next
    case False
    then obtain c cs where "bs = c # cs" by (cases bs) auto
    then have "parse_varint (pos + 7) ?acc (bs @ rest) =
        (Inr (?acc + of_nat (2 ^ (pos + 7) * base128 bs)), length bs)"
      using Cons.prems False by (intro Cons.IH take_bit_acc) auto
    moreover have "?acc + of_nat (2 ^ (pos + 7) * base128 bs) =
        acc + of_nat (2 ^ pos * base128 (b # bs))"
      unfolding acc_step [OF Cons.prems(3)] by (simp add: power_add algebra_simps)
    ultimately show ?thesis using Cons.prems(1) False pos by (simp add: Let_def)
  qed
qed

lemma parse_varint_consumed: "snd (parse_varint pos acc bs) \<le> length bs"
proof (induction bs arbitrary: pos acc)
  case Nil
  then show ?case by simp
next
  case (Cons b bs)
  then show ?case by (auto simp: Let_def split: prod.splits) (metis snd_conv)
qed

lemma ucast_of_nat_down:
  assumes "LENGTH('a) \<le> LENGTH('b)"
  shows "ucast (of_nat n :: 'b::len word) = (of_nat n :: 'a::len word)"
proof -
  have "unat (ucast (of_nat n :: 'b word) :: 'a word) = n mod 2 ^ LENGTH('b) mod 2 ^ LENGTH('a)"
    by (simp add: unsigned_ucast_eq unsigned_of_nat take_bit_eq_mod)
  also have "\<dots> = n mod 2 ^ LENGTH('a)" using assms by (simp add: mod_mod_cancel le_imp_power_dvd)
  finally show ?thesis by (simp add: word_unat_eq_iff unat_of_nat)
qed

text \<open>A narrow parse that succeeds agrees with the wide one on the low bits.\<close>

lemma parse_varint_narrow:
  assumes "parse_varint 0 (0 :: 'a::len word) bs = (Inr v, k)" and "LENGTH('a) \<le> LENGTH('b)"
  shows "parse_varint 0 (0 :: 'b::len word) bs = (Inr (of_nat (base128 (take k bs))), k)"
    and "v = ucast (of_nat (base128 (take k bs)) :: 'b word)"
proof -
  have r: "k \<le> length bs" "varint_shape (take k bs)" "7 * (k - 1) < LENGTH('a)"
    "v = of_nat (base128 (take k bs))"
    using parse_varint_Inr [OF assms(1)] by auto
  have "parse_varint 0 (0 :: 'b word) (take k bs @ drop k bs) =
      (Inr (0 + of_nat (2 ^ 0 * base128 (take k bs))), length (take k bs))"
    by (rule parse_varint_shape) (use r assms(2) in auto)
  with r(1) show "parse_varint 0 (0 :: 'b word) bs = (Inr (of_nat (base128 (take k bs))), k)" by simp
  have "v = word_of_nat (base128 (take k bs))" using r by simp
  also have "\<dots> = ucast (of_nat (base128 (take k bs)) :: 'b word)"
    using assms(2) by (rule ucast_of_nat_down [symmetric])
  finally show "v = ucast (of_nat (base128 (take k bs)) :: 'b word)" .
qed

end
