(* ===== verification/PbReaders.thy ===== *)
theory PbReaders
  imports PbIStream PbVarint
begin

text \<open>
  The laws of the readers. The interface \<open>byte_source\<close> is what the readers need of a
  stream: its content as a list of bytes, and a read that delivers the next of them or fails at
  the end. Everything proved inside it (a varint read is a parse of the content, a skip
  drops bytes, a substream is a prefix) holds for every stream that keeps the contract of
  pb_decode.h; the buffer streams of the library are shown to keep it.
\<close>

locale byte_source =
  fixes env :: pb_env
    and content :: "mem \<Rightarrow> pb_istream_t \<Rightarrow> byte list option"
    and advance :: "pb_istream_t \<Rightarrow> nat \<Rightarrow> pb_istream_t"
  assumes readbyte_Nil:
      "content m s = Some [] \<Longrightarrow> pb_readbyte env s m = Some (None, i_set_error s ''end-of-stream'', m)"
    and readbyte_Cons:
      "content m s = Some (b # bs) \<Longrightarrow> pb_readbyte env s m = Some (Some b, advance s 1, m)"
    and read_local:
      "content m s = Some bs \<Longrightarrow> pb_read env s DLocal cnt m =
         Some (if length bs < unat cnt then (False, [], i_set_error s ''end-of-stream'', m)
               else (True, take (unat cnt) bs, advance s (unat cnt), m))"
    and read_null:
      "content m s = Some bs \<Longrightarrow> pb_read env s DNull cnt m =
         Some (if length bs < unat cnt then (False, [], i_set_error s ''end-of-stream'', m)
               else (True, [], advance s (unat cnt), m))"
    and content_advance:
      "content m s = Some bs \<Longrightarrow> n \<le> length bs \<Longrightarrow> content m (advance s n) = Some (drop n bs)"
    and content_limit:
      "content m s = Some bs \<Longrightarrow> cnt \<le> bytes_left s \<Longrightarrow>
         content m (s\<lparr>bytes_left := cnt\<rparr>) = Some (take (unat cnt) bs)"
    and content_left: "content m s = Some bs \<Longrightarrow> unat (bytes_left s) = length bs"
    and advance_0: "advance s 0 = s"
    and advance_add: "advance (advance s i) j = advance s (i + j)"
    and advance_left: "bytes_left (advance s n) = bytes_left s - of_nat n"
begin

lemma varint64_loop_parse:
  "content m s = Some bs \<Longrightarrow> varint64_loop env s pos acc m =
     Some (case parse_varint pos acc bs of
             (Inr v, k) \<Rightarrow> (Some v, advance s k, m)
           | (Inl e, k) \<Rightarrow> (None, i_set_error (advance s k) e, m))"
proof (induction bs arbitrary: s pos acc)
  case Nil
  then show ?case using readbyte_Nil [OF Nil]
    by (simp add: varint64_loop.simps [of env s pos acc m] advance_0)
next
  case (Cons b bs)
  have "content m (advance s 1) = Some bs" using content_advance [OF Cons.prems, of 1] by simp
  from Cons.IH [OF this] readbyte_Cons [OF Cons.prems] show ?case
    by (simp add: varint64_loop.simps [of env s pos acc m] Let_def advance_0 advance_add
        split: prod.splits sum.splits)
qed

lemma varint32_loop_parse:
  "content m s = Some bs \<Longrightarrow> varint32_loop env s pos acc m =
     Some (case parse_varint pos acc bs of
             (Inr v, k) \<Rightarrow> (Some v, advance s k, m)
           | (Inl e, k) \<Rightarrow> (None, i_set_error (advance s k) e, m))"
proof (induction bs arbitrary: s pos acc)
  case Nil
  then show ?case using readbyte_Nil [OF Nil]
    by (simp add: varint32_loop.simps [of env s pos acc m] advance_0)
next
  case (Cons b bs)
  have "content m (advance s 1) = Some bs" using content_advance [OF Cons.prems, of 1] by simp
  from Cons.IH [OF this] readbyte_Cons [OF Cons.prems] show ?case
    by (simp add: varint32_loop.simps [of env s pos acc m] Let_def advance_0 advance_add
        split: prod.splits sum.splits)
qed

lemma decode_varint_parse:
  "content m s = Some bs \<Longrightarrow> pb_decode_varint env s m =
     Some (case parse_varint 0 0 bs of
             (Inr v, k) \<Rightarrow> (Some v, advance s k, m)
           | (Inl e, k) \<Rightarrow> (None, i_set_error (advance s k) e, m))"
  by (simp add: pb_decode_varint_def varint64_loop_parse)

lemma decode_varint32_parse:
  assumes "content m s = Some bs"
  shows "pb_decode_varint32 env s m =
     Some (case parse_varint 0 0 bs of
             (Inr v, k) \<Rightarrow> (Some v, advance s k, m)
           | (Inl e, k) \<Rightarrow> (None, i_set_error (advance s k) e, m))"
proof (cases bs)
  case Nil
  with assms readbyte_Nil show ?thesis by (simp add: pb_decode_varint32_def advance_0)
next
  case (Cons b bs')
  have c: "content m (advance s 1) = Some bs'" using content_advance [OF assms, of 1] Cons by simp
  have "b AND 0x80 = 0 \<Longrightarrow> b AND 0x7F = b"
  proof (rule bit_word_eqI)
    fix n assume b: "b AND 0x80 = 0" and n: "n < LENGTH(8)"
    have "(0x7F :: byte) = mask 7" "(0x80 :: byte) = push_bit 7 1"
      by (simp_all add: mask_eq_exp_minus_1)
    moreover have "\<not> bit (b AND 0x80) 7" using b by simp
    ultimately have "\<not> bit b 7" by (simp add: bit_and_iff bit_push_bit_iff)
    moreover have "n < 7 \<or> n = 7" using n by auto
    ultimately show "bit (b AND 0x7F) n = bit b n"
      by (auto simp: \<open>(0x7F :: byte) = mask 7\<close> bit_and_iff bit_mask_iff)
  qed
  with readbyte_Cons [OF assms [unfolded Cons]] varint32_loop_parse [OF c] show ?thesis
    by (simp add: pb_decode_varint32_def Cons Let_def advance_add split: prod.splits sum.splits)
qed

lemma skip_varint_content:
  "content m s = Some bs \<Longrightarrow> length bs < fuel \<Longrightarrow> pb_skip_varint fuel env s m =
     Some (case dropWhile (\<lambda>b. b AND 0x80 \<noteq> 0) bs of
             [] \<Rightarrow> (False, i_set_error (advance s (length bs)) ''end-of-stream'', m)
           | _ # rest \<Rightarrow> (True, advance s (length bs - length rest), m))"
proof (induction bs arbitrary: s fuel)
  case Nil
  then obtain n where "fuel = Suc n" by (cases fuel) auto
  with Nil show ?case by (simp add: read_local [OF Nil(1)] advance_0)
next
  case (Cons b bs)
  then obtain n where fuel: "fuel = Suc n" "length bs < n" by (cases fuel) auto
  have c: "content m (advance s 1) = Some bs" using content_advance [OF Cons.prems(1), of 1] by simp
  show ?case
  proof (cases "dropWhile (\<lambda>b. b AND 0x80 \<noteq> 0) bs")
    case Nil
    with Cons.IH [OF c fuel(2)] show ?thesis
      by (simp add: fuel read_local [OF Cons.prems(1)] advance_add del: dropWhile_eq_Nil_conv)
  next
    case dw: (Cons x xs)
    then have "length (x # xs) \<le> length bs" by (metis length_dropWhile_le)
    with dw Cons.IH [OF c fuel(2)] show ?thesis
      by (simp add: fuel read_local [OF Cons.prems(1)] advance_add Suc_diff_le)
  qed
qed

lemma skip_string_content:
  assumes "content m s = Some bs"
  shows "pb_skip_string env s m =
     Some (case parse_varint 0 (0 :: u32) bs of
             (Inl e, k) \<Rightarrow> (False, i_set_error (advance s k) e, m)
           | (Inr v, k) \<Rightarrow>
               if length bs - k < unat v then (False, i_set_error (advance s k) ''end-of-stream'', m)
               else (True, advance s (k + unat v), m))"
proof -
  obtain r k where p: "parse_varint 0 (0 :: u32) bs = (r, k)" by fastforce
  have k: "k \<le> length bs" using parse_varint_consumed [of 0 "0 :: u32" bs] p by simp
  note c = content_advance [OF assms k]
  have "unat (ucast v :: u64) = unat v" for v :: u32
    by (simp add: unsigned_ucast_eq take_bit_nat_eq_self order.strict_trans [OF unsigned_less])
  with p k show ?thesis
    by (cases r) (auto simp: pb_skip_string_def decode_varint32_parse [OF assms] read_null [OF c] advance_add)
qed

lemma make_substream_content:
  assumes "content m s = Some bs" and "parse_varint 0 (0 :: u32) bs = (Inr v, k)"
  shows "pb_make_string_substream env s m =
     Some (if length bs - k < unat v
           then (None, i_set_error (advance s k) ''parent stream too short'', m)
           else (Some ((advance s k)\<lparr>bytes_left := ucast v\<rparr>),
                 (advance s k)\<lparr>bytes_left := bytes_left (advance s k) - ucast v\<rparr>, m))"
proof -
  have k: "k \<le> length bs" using parse_varint_consumed [of 0 "0 :: u32" bs] assms(2) by simp
  have "unat (bytes_left (advance s k)) = length bs - k"
    using content_left [OF content_advance [OF assms(1) k]] by simp
  moreover have "unat (ucast v :: u64) = unat v"
    by (simp add: unsigned_ucast_eq take_bit_nat_eq_self order.strict_trans [OF unsigned_less])
  ultimately show ?thesis
    by (simp add: pb_make_string_substream_def decode_varint32_parse [OF assms(1)] assms(2) word_less_nat_alt)
qed

end

section \<open>Buffer streams\<close>

text \<open>
  The content of a buffer stream: the bytes from \<open>state\<close> on, as many as are left. It is
  defined when they all lie in memory.
\<close>

definition buf_content :: "mem \<Rightarrow> pb_istream_t \<Rightarrow> byte list option" where
  "buf_content m s =
     (if i_callback s = Buf_read then load_bytes m (i_state s) (unat (bytes_left s)) else None)"

definition buf_advance :: "pb_istream_t \<Rightarrow> nat \<Rightarrow> pb_istream_t" where
  "buf_advance s n = s\<lparr>i_state := i_state s + int n, bytes_left := bytes_left s - of_nat n\<rparr>"

lemma load_bytes_drop:
  "load_bytes m p n = Some bs \<Longrightarrow> k \<le> n \<Longrightarrow> load_bytes m (p + int k) (n - k) = Some (drop k bs)"
  unfolding load_bytes_iff
proof (intro conjI allI impI)
  fix i assume *: "length bs = n \<and> (\<forall>i < n. m (p + int i) = Some (bs ! i))" "k \<le> n" "i < n - k"
  then have "k + i < n" by simp
  with * have "m (p + int (k + i)) = Some (bs ! (k + i))" by blast
  moreover have "p + int (k + i) = p + int k + int i" by simp
  ultimately show "m (p + int k + int i) = Some (drop k bs ! i)" using * by (simp add: add.assoc)
qed simp

lemma load_bytes_take:
  "load_bytes m p n = Some bs \<Longrightarrow> k \<le> n \<Longrightarrow> load_bytes m p k = Some (take k bs)"
  by (auto simp: load_bytes_iff)

lemma buf_contentD:
  "buf_content m s = Some bs \<Longrightarrow>
     i_callback s = Buf_read \<and> load_bytes m (i_state s) (length bs) = Some bs \<and> unat (bytes_left s) = length bs"
  by (auto simp: buf_content_def load_bytes_length split: if_splits dest: load_bytes_length)

interpretation buf: byte_source env buf_content buf_advance for env
proof
  fix m s bs b and n :: u64 and k i j :: nat
  show "buf_content m s = Some [] \<Longrightarrow>
      pb_readbyte env s m = Some (None, i_set_error s ''end-of-stream'', m)"
    by (drule buf_contentD) (simp add: pb_readbyte_def unat_eq_zero)
  show "pb_readbyte env s m = Some (Some b, buf_advance s 1, m)"
    if "buf_content m s = Some (b # bs)"
    using buf_contentD [OF that] load_bytes_take [of m "i_state s" _ _ 1]
    by (auto simp: pb_readbyte_def call_read_def buf_read_def buf_advance_def Let_def bind_eq_Some_conv)
  show "pb_read env s DLocal n m =
         Some (if length bs < unat n then (False, [], i_set_error s ''end-of-stream'', m)
               else (True, take (unat n) bs, buf_advance s (unat n), m))"
    if "buf_content m s = Some bs"
    using buf_contentD [OF that] load_bytes_take [of m "i_state s" "length bs" bs "unat n"]
    by (auto simp: pb_read_def pb_read_direct_def call_read_def buf_read_def buf_advance_def Let_def
        word_less_nat_alt)
  show "pb_read env s DNull n m =
         Some (if length bs < unat n then (False, [], i_set_error s ''end-of-stream'', m)
               else (True, [], buf_advance s (unat n), m))"
    if "buf_content m s = Some bs"
    using buf_contentD [OF that]
    by (auto simp: pb_read_def pb_read_direct_def call_read_def buf_read_def buf_advance_def Let_def
        word_less_nat_alt)
  show "unat (bytes_left s) = length bs" if "buf_content m s = Some bs"
    using buf_contentD [OF that] by simp
  show "buf_advance s 0 = s" by (simp add: buf_advance_def)
  show "buf_advance (buf_advance s i) j = buf_advance s (i + j)"
    by (simp add: buf_advance_def algebra_simps)
  show "bytes_left (buf_advance s k) = bytes_left s - of_nat k" by (simp add: buf_advance_def)
  show "buf_content m (buf_advance s k) = Some (drop k bs)"
    if c: "buf_content m s = Some bs" and k: "k \<le> length bs"
  proof -
    note d = buf_contentD [OF c]
    have "k < 2 ^ 64" using d k unsigned_less [of "bytes_left s", where ?'a = nat] by simp
    then have k64: "unat (of_nat k :: u64) = k" by (simp add: unat_of_nat)
    then have "unat (bytes_left s - of_nat k) = length bs - k"
      using d k by (simp add: unat_sub word_le_nat_alt)
    then show ?thesis using d load_bytes_drop [of m "i_state s" "length bs" bs k] k
      by (simp add: buf_content_def buf_advance_def)
  qed
  show "buf_content m (s\<lparr>bytes_left := n\<rparr>) = Some (take (unat n) bs)"
    if c: "buf_content m s = Some bs" and n: "n \<le> bytes_left s"
    using buf_contentD [OF c] n load_bytes_take [of m "i_state s" "length bs" bs "unat n"]
    by (simp add: buf_content_def word_le_nat_alt)
qed

end
