(* ===== verification/PbDecFields.thy ===== *)
theory PbDecFields
  imports PbReaders
begin

text \<open>
  The decoders of single values (the end of pb_decode.c): integers with their overflow check,
  fixed-width values, byte arrays, strings and submessages. The decoder of a submessage gets
  the message decoder as an argument; the recursion is tied in \<open>pb_decode_noinit\<close>.
\<close>

type_synonym decoder = "pb_istream_t \<Rightarrow> pb_field_t \<Rightarrow> ptr \<Rightarrow> mem \<Rightarrow> (bool \<times> pb_istream_t \<times> mem) option"
type_synonym msg_decoder = "pb_istream_t \<Rightarrow> pb_field_t list \<Rightarrow> ptr \<Rightarrow> mem \<Rightarrow> (bool \<times> pb_istream_t \<times> mem) option"

text \<open>An \<open>int64_t\<close> is kept as the word with its bits.\<close>

definition unzigzag :: "u64 \<Rightarrow> u64" where
  "unzigzag value = (if value AND 1 \<noteq> 0 then NOT (drop_bit 1 value) else drop_bit 1 value)"

definition pb_decode_svarint :: "pb_env \<Rightarrow> pb_istream_t \<Rightarrow> mem \<Rightarrow> (u64 option \<times> pb_istream_t \<times> mem) option" where
  "pb_decode_svarint env s m = do {
     (r, s', m') \<leftarrow> pb_decode_varint env s m;
     Some (case r of None \<Rightarrow> None | Some value \<Rightarrow> Some (unzigzag value), s', m')
   }"

definition pb_decode_fixed32 :: "pb_env \<Rightarrow> pb_istream_t \<Rightarrow> ptr \<Rightarrow> mem \<Rightarrow> (bool \<times> pb_istream_t \<times> mem) option" where
  "pb_decode_fixed32 env s dest m = do {
     (b, bytes, s', m') \<leftarrow> pb_read env s DLocal 4 m;
     if \<not> b then Some (False, s', m')
     else do {
       b0 \<leftarrow> nth_opt bytes 0; b1 \<leftarrow> nth_opt bytes 1; b2 \<leftarrow> nth_opt bytes 2; b3 \<leftarrow> nth_opt bytes 3;
       m'' \<leftarrow> store_word m' dest 4
         ((ucast b0 :: u32) OR push_bit 8 (ucast b1) OR push_bit 16 (ucast b2) OR push_bit 24 (ucast b3));
       Some (True, s', m'')
     }
   }"

definition pb_decode_fixed64 :: "pb_env \<Rightarrow> pb_istream_t \<Rightarrow> ptr \<Rightarrow> mem \<Rightarrow> (bool \<times> pb_istream_t \<times> mem) option" where
  "pb_decode_fixed64 env s dest m = do {
     (b, bytes, s', m') \<leftarrow> pb_read env s DLocal 8 m;
     if \<not> b then Some (False, s', m')
     else do {
       b0 \<leftarrow> nth_opt bytes 0; b1 \<leftarrow> nth_opt bytes 1; b2 \<leftarrow> nth_opt bytes 2; b3 \<leftarrow> nth_opt bytes 3;
       b4 \<leftarrow> nth_opt bytes 4; b5 \<leftarrow> nth_opt bytes 5; b6 \<leftarrow> nth_opt bytes 6; b7 \<leftarrow> nth_opt bytes 7;
       m'' \<leftarrow> store_word m' dest 8
         ((ucast b0 :: u64) OR push_bit 8 (ucast b1) OR push_bit 16 (ucast b2) OR push_bit 24 (ucast b3)
          OR push_bit 32 (ucast b4) OR push_bit 40 (ucast b5) OR push_bit 48 (ucast b6) OR push_bit 56 (ucast b7));
       Some (True, s', m'')
     }
   }"

text \<open>
  The cast to the field's width: how many bytes are stored, and the value they have when read
  back as a 64-bit integer (\<open>clamped\<close>). \<open>None\<close> for a size no integer has.
\<close>

definition clamp_signed :: "u32 \<Rightarrow> u64 \<Rightarrow> (nat \<times> u64) option" where
  "clamp_signed sz v =
     (if sz = 8 then Some (8, v)
      else if sz = 4 then Some (4, scast (ucast v :: u32))
      else if sz = 2 then Some (2, scast (ucast v :: u16))
      else if sz = 1 then Some (1, scast (ucast v :: byte))
      else None)"

definition clamp_unsigned :: "u32 \<Rightarrow> u64 \<Rightarrow> (nat \<times> u64) option" where
  "clamp_unsigned sz v =
     (if sz = 8 then Some (8, v)
      else if sz = 4 then Some (4, ucast (ucast v :: u32))
      else if sz = 2 then Some (2, ucast (ucast v :: u16))
      else if sz = 1 then Some (1, ucast (ucast v :: byte))
      else None)"

definition store_clamped :: "(nat \<times> u64) option \<Rightarrow> u64 \<Rightarrow> pb_istream_t \<Rightarrow> ptr \<Rightarrow> mem \<Rightarrow> (bool \<times> pb_istream_t \<times> mem) option" where
  "store_clamped c v s dest m =
     (case c of
        None \<Rightarrow> Some (False, i_set_error s ''invalid data_size'', m)
      | Some (n, clamped) \<Rightarrow> do {
          m' \<leftarrow> store_word m dest n clamped;
          if clamped \<noteq> v then Some (False, i_set_error s ''integer too large'', m')
          else Some (True, s, m')
        })"

definition pb_dec_varint :: "pb_env \<Rightarrow> decoder" where
  "pb_dec_varint env s field dest m = do {
     (r, s', m') \<leftarrow> pb_decode_varint env s m;
     case r of None \<Rightarrow> Some (False, s', m')
     | Some value \<Rightarrow>
         let svalue = (if data_size field = 8 then value else scast (ucast value :: u32))
         in store_clamped (clamp_signed (data_size field) svalue) svalue s' dest m'
   }"

definition pb_dec_uvarint :: "pb_env \<Rightarrow> decoder" where
  "pb_dec_uvarint env s field dest m = do {
     (r, s', m') \<leftarrow> pb_decode_varint env s m;
     case r of None \<Rightarrow> Some (False, s', m')
     | Some value \<Rightarrow> store_clamped (clamp_unsigned (data_size field) value) value s' dest m'
   }"

definition pb_dec_svarint :: "pb_env \<Rightarrow> decoder" where
  "pb_dec_svarint env s field dest m = do {
     (r, s', m') \<leftarrow> pb_decode_svarint env s m;
     case r of None \<Rightarrow> Some (False, s', m')
     | Some value \<Rightarrow> store_clamped (clamp_signed (data_size field) value) value s' dest m'
   }"

definition pb_dec_fixed32 :: "pb_env \<Rightarrow> decoder" where
  "pb_dec_fixed32 env s field dest m = pb_decode_fixed32 env s dest m"

definition pb_dec_fixed64 :: "pb_env \<Rightarrow> decoder" where
  "pb_dec_fixed64 env s field dest m = pb_decode_fixed64 env s dest m"

text \<open>
  A byte array: the size member, then the bytes. In this configuration \<open>size > PB_SIZE_MAX\<close>
  cannot hold and the allocation size does not wrap, but the checks are there.
\<close>

definition pb_dec_bytes :: "pb_env \<Rightarrow> decoder" where
  "pb_dec_bytes env s field dest m = do {
     (r, s', m') \<leftarrow> pb_decode_varint32 env s m;
     case r of None \<Rightarrow> Some (False, s', m')
     | Some sz \<Rightarrow>
         if sz > PB_SIZE_MAX then Some (False, i_set_error s' ''bytes overflow'', m')
         else let alloc_size = PB_BYTES_ARRAY_T_ALLOCSIZE sz in
         if ucast sz > alloc_size then Some (False, i_set_error s' ''size too large'', m')
         else if PB_ATYPE (type field) = PB_ATYPE_POINTER then
           Some (False, i_set_error s' ''no malloc support'', m')
         else if alloc_size > ucast (data_size field) then
           Some (False, i_set_error s' ''bytes overflow'', m')
         else do {
           m'' \<leftarrow> store_word m' dest 4 sz;
           (b, _, s'', m''') \<leftarrow> pb_read env s' (DMem (dest + 4)) (ucast sz) m'';
           Some (b, s'', m''')
         }
   }"

text \<open>
  A string: the sum \<open>size + 1\<close> is taken in 32 bits. The terminator is written whether or not
  the bytes could be read.
\<close>

definition pb_dec_string :: "pb_env \<Rightarrow> decoder" where
  "pb_dec_string env s field dest m = do {
     (r, s', m') \<leftarrow> pb_decode_varint32 env s m;
     case r of None \<Rightarrow> Some (False, s', m')
     | Some sz \<Rightarrow>
         let alloc_size = (ucast (sz + 1) :: u64) in
         if alloc_size < ucast sz then Some (False, i_set_error s' ''size too large'', m')
         else if PB_ATYPE (type field) = PB_ATYPE_POINTER then
           Some (False, i_set_error s' ''no malloc support'', m')
         else if alloc_size > ucast (data_size field) then
           Some (False, i_set_error s' ''string overflow'', m')
         else do {
           (status, _, s'', m'') \<leftarrow> pb_read env s' (DMem dest) (ucast sz) m';
           m''' \<leftarrow> store m'' (dest + uint sz) 0;
           Some (status, s'', m''')
         }
   }"

definition pb_dec_submessage :: "pb_env \<Rightarrow> msg_decoder \<Rightarrow> msg_decoder \<Rightarrow> decoder" where
  "pb_dec_submessage env decode noinit s field dest m = do {
     (r, s', m') \<leftarrow> pb_make_string_substream env s m;
     case r of None \<Rightarrow> Some (False, s', m')
     | Some sub \<Rightarrow>
         (case field_ptr field of
            PNull \<Rightarrow> Some (False, i_set_error s' ''invalid field descriptor'', m')
          | PDefault _ \<Rightarrow> None
          | PFields submsg_fields \<Rightarrow> do {
              (status, sub', m'') \<leftarrow>
                (if PB_HTYPE (type field) = PB_HTYPE_REPEATED then decode sub submsg_fields dest m'
                 else noinit sub submsg_fields dest m');
              (b, s'', m''') \<leftarrow> pb_close_string_substream env s' sub' m'';
              Some (b \<and> status, s'', m''')
            })
   }"

definition pb_dec_fixed_length_bytes :: "pb_env \<Rightarrow> decoder" where
  "pb_dec_fixed_length_bytes env s field dest m = do {
     (r, s', m') \<leftarrow> pb_decode_varint32 env s m;
     case r of None \<Rightarrow> Some (False, s', m')
     | Some sz \<Rightarrow>
         if sz > PB_SIZE_MAX then Some (False, i_set_error s' ''bytes overflow'', m')
         else if sz = 0 then do {
           m'' \<leftarrow> store_bytes m' dest (replicate (unat (data_size field)) 0);
           Some (True, s', m'')
         }
         else if sz \<noteq> data_size field then
           Some (False, i_set_error s' ''incorrect fixed length bytes size'', m')
         else do {
           (b, _, s'', m'') \<leftarrow> pb_read env s' (DMem dest) (ucast (data_size field)) m';
           Some (b, s'', m'')
         }
   }"

text \<open>
  The table of decoders, indexed by the field type. An index outside the table is undefined
  behaviour (the outer option); the entry for extensions is a null pointer (the inner one),
  undefined when called.
\<close>

definition PB_DECODERS :: "pb_env \<Rightarrow> decoder \<Rightarrow> byte \<Rightarrow> decoder option option" where
  "PB_DECODERS env sub lt =
     (if lt = PB_LTYPE_VARINT then Some (Some (pb_dec_varint env))
      else if lt = PB_LTYPE_UVARINT then Some (Some (pb_dec_uvarint env))
      else if lt = PB_LTYPE_SVARINT then Some (Some (pb_dec_svarint env))
      else if lt = PB_LTYPE_FIXED32 then Some (Some (pb_dec_fixed32 env))
      else if lt = PB_LTYPE_FIXED64 then Some (Some (pb_dec_fixed64 env))
      else if lt = PB_LTYPE_BYTES then Some (Some (pb_dec_bytes env))
      else if lt = PB_LTYPE_STRING then Some (Some (pb_dec_string env))
      else if lt = PB_LTYPE_SUBMESSAGE then Some (Some sub)
      else if lt = PB_LTYPE_EXTENSION then Some None
      else if lt = PB_LTYPE_FIXED_LENGTH_BYTES then Some (Some (pb_dec_fixed_length_bytes env))
      else None)"

definition call_decoder :: "decoder option \<Rightarrow> decoder" where
  "call_decoder func s field dest m = (case func of None \<Rightarrow> None | Some f \<Rightarrow> f s field dest m)"

end
