(* ===== verification/PbDecode.thy ===== *)
theory PbDecode
  imports PbDecFields
begin

text \<open>
  Decoding a message (pb_decode.c): default values, the three kinds of fields, extensions, and
  the loop over the fields with the check of required fields.

  The functions that loop or recurse take fuel. On a buffer stream and a descriptor without
  callbacks and extensions an amount just above the length of the buffer plus the size of the
  descriptor is enough (theory \<open>PbDecodeSafe\<close>).
\<close>

section \<open>Extensions in memory\<close>

text \<open>The type record an extension points to, and the iterator faked for its field.\<close>

definition ext_type :: "pb_env \<Rightarrow> ptr \<Rightarrow> mem \<Rightarrow> pb_extension_type_t option" where
  "ext_type env ext m = do { p \<leftarrow> load_ptr m (ext + ext_off_type); ext_types env p }"

definition iter_from_extension :: "pb_env \<Rightarrow> ptr \<Rightarrow> mem \<Rightarrow> pb_field_iter_t option" where
  "iter_from_extension env ext m = do {
     et \<leftarrow> ext_type env ext m;
     let field = ext_arg et;
     dest \<leftarrow> load_ptr m (ext + ext_off_dest);
     (_, it) \<leftarrow> pb_field_iter_begin [field] dest;
     Some (it\<lparr>pData := (if PB_ATYPE (type field) = PB_ATYPE_POINTER then ext + ext_off_dest else dest),
              pSize := ext + ext_off_found\<rparr>)
   }"

section \<open>Default values\<close>

fun pb_field_set_to_default :: "nat \<Rightarrow> pb_env \<Rightarrow> pb_field_iter_t \<Rightarrow> mem \<Rightarrow> mem option"
and ext_set_to_default :: "nat \<Rightarrow> pb_env \<Rightarrow> ptr \<Rightarrow> mem \<Rightarrow> mem option"
and pb_message_set_to_defaults :: "nat \<Rightarrow> pb_env \<Rightarrow> pb_field_t list \<Rightarrow> ptr \<Rightarrow> mem \<Rightarrow> mem option"
and message_defaults_loop :: "nat \<Rightarrow> pb_env \<Rightarrow> pb_field_iter_t \<Rightarrow> mem \<Rightarrow> mem option"
where
  "pb_field_set_to_default 0 env it m = None"
| "pb_field_set_to_default (Suc n) env it m = do {
     f \<leftarrow> it_field it;
     if PB_LTYPE (type f) = PB_LTYPE_EXTENSION then do {
       ext \<leftarrow> load_ptr m (pData it);
       ext_set_to_default n env ext m
     }
     else if PB_ATYPE (type f) = PB_ATYPE_STATIC then do {
       (init_data, m') \<leftarrow>
         (if PB_HTYPE (type f) = PB_HTYPE_OPTIONAL \<and> pSize it \<noteq> pData it
          then do { m' \<leftarrow> store m (pSize it) 0; Some (True, m') }
          else if PB_HTYPE (type f) = PB_HTYPE_REPEATED \<or> PB_HTYPE (type f) = PB_HTYPE_ONEOF
          then do { m' \<leftarrow> store_word m (pSize it) 4 (0 :: u32); Some (False, m') }
          else Some (True, m));
       if \<not> init_data then Some m'
       else if PB_LTYPE (type f) = PB_LTYPE_SUBMESSAGE then
         (case field_ptr f of
            PFields sub \<Rightarrow> pb_message_set_to_defaults n env sub (pData it) m' | _ \<Rightarrow> None)
       else (case field_ptr f of
               PDefault bs \<Rightarrow>
                 if length bs < unat (data_size f) then None
                 else store_bytes m' (pData it) (take (unat (data_size f)) bs)
             | PFields _ \<Rightarrow> None
             | PNull \<Rightarrow> store_bytes m' (pData it) (replicate (unat (data_size f)) 0))
     }
     else if PB_ATYPE (type f) = PB_ATYPE_POINTER then do {
       m' \<leftarrow> store_word m (pData it) 8 (0 :: u64);
       if PB_HTYPE (type f) = PB_HTYPE_REPEATED \<or> PB_HTYPE (type f) = PB_HTYPE_ONEOF
       then store_word m' (pSize it) 4 (0 :: u32) else Some m'
     }
     else Some m
   }"
| "ext_set_to_default 0 env ext m = None"
| "ext_set_to_default (Suc n) env ext m =
     (if ext = 0 then Some m
      else do {
        m' \<leftarrow> store m (ext + ext_off_found) 0;
        it \<leftarrow> iter_from_extension env ext m';
        m'' \<leftarrow> pb_field_set_to_default n env it m';
        nxt \<leftarrow> load_ptr m'' (ext + ext_off_next);
        ext_set_to_default n env nxt m''
      })"
| "pb_message_set_to_defaults 0 env fs dest m = None"
| "pb_message_set_to_defaults (Suc n) env fs dest m = do {
     (b, it) \<leftarrow> pb_field_iter_begin fs dest;
     if \<not> b then Some m else message_defaults_loop n env it m
   }"
| "message_defaults_loop 0 env it m = None"
| "message_defaults_loop (Suc n) env it m = do {
     m' \<leftarrow> pb_field_set_to_default n env it m;
     (b, it') \<leftarrow> pb_field_iter_next it;
     if b then message_defaults_loop n env it' m' else Some m'
   }"

section \<open>Fields\<close>

text \<open>The loop over the items of a packed array. The count is read from memory each time.\<close>

fun packed_loop :: "nat \<Rightarrow> decoder option \<Rightarrow> pb_field_t \<Rightarrow> ptr \<Rightarrow> ptr \<Rightarrow> pb_istream_t \<Rightarrow> mem \<Rightarrow> (bool \<times> pb_istream_t \<times> mem) option" where
  "packed_loop 0 func f pd ps sub m = None"
| "packed_loop (Suc n) func f pd ps sub m =
     (if bytes_left sub = 0 then Some (True, sub, m)
      else do {
        (sz :: u32) \<leftarrow> load_word m ps 4;
        if \<not> sz < array_size f then Some (True, sub, m)
        else do {
          (b, sub', m') \<leftarrow> call_decoder func sub f (pd + uint (data_size f * sz)) m;
          if \<not> b then Some (False, sub', m')
          else do {
            (sz' :: u32) \<leftarrow> load_word m' ps 4;
            m'' \<leftarrow> store_word m' ps 4 (sz' + 1);
            packed_loop n func f pd ps sub' m''
          }
        }
      })"

definition decode_static_field :: "nat \<Rightarrow> pb_env \<Rightarrow> decoder \<Rightarrow> (pb_field_t list \<Rightarrow> ptr \<Rightarrow> mem \<Rightarrow> mem option) \<Rightarrow>
    pb_istream_t \<Rightarrow> pb_wire_type_t \<Rightarrow> pb_field_iter_t \<Rightarrow> mem \<Rightarrow> (bool \<times> pb_istream_t \<times> mem) option" where
  "decode_static_field fuel env sub defaults s wire_type it m = do {
     f \<leftarrow> it_field it;
     func \<leftarrow> PB_DECODERS env sub (PB_LTYPE (type f));
     if PB_HTYPE (type f) = PB_HTYPE_REQUIRED then call_decoder func s f (pData it) m
     else if PB_HTYPE (type f) = PB_HTYPE_OPTIONAL then do {
       m' \<leftarrow> (if pSize it \<noteq> pData it then store m (pSize it) 1 else Some m);
       call_decoder func s f (pData it) m'
     }
     else if PB_HTYPE (type f) = PB_HTYPE_REPEATED then
       if wire_type = PB_WT_STRING \<and> PB_LTYPE (type f) \<le> PB_LTYPE_LAST_PACKABLE then do {
         (r, s', m') \<leftarrow> pb_make_string_substream env s m;
         case r of None \<Rightarrow> Some (False, s', m')
         | Some substream \<Rightarrow> do {
             (status, substream', m'') \<leftarrow> packed_loop fuel func f (pData it) (pSize it) substream m';
             if bytes_left substream' \<noteq> 0 then Some (False, i_set_error s' ''array overflow'', m'')
             else do {
               (b, s'', m''') \<leftarrow> pb_close_string_substream env s' substream' m'';
               Some (b \<and> status, s'', m''')
             }
           }
       }
       else do {
         (sz :: u32) \<leftarrow> load_word m (pSize it) 4;
         let pItem = pData it + uint (data_size f * sz);
         if sz \<ge> array_size f then Some (False, i_set_error s ''array overflow'', m)
         else do {
           m' \<leftarrow> store_word m (pSize it) 4 (sz + 1);
           call_decoder func s f pItem m'
         }
       }
     else do {
       m' \<leftarrow> store_word m (pSize it) 4 (tag f);
       m'' \<leftarrow> (if PB_LTYPE (type f) = PB_LTYPE_SUBMESSAGE then do {
                m1 \<leftarrow> store_bytes m' (pData it) (replicate (unat (data_size f)) 0);
                case field_ptr f of PFields fs \<Rightarrow> defaults fs (pData it) m1 | _ \<Rightarrow> None
              } else Some m');
       call_decoder func s f (pData it) m''
     }
   }"

definition decode_pointer_field :: "pb_istream_t \<Rightarrow> mem \<Rightarrow> (bool \<times> pb_istream_t \<times> mem) option" where
  "decode_pointer_field s m = Some (False, i_set_error s ''no malloc support'', m)"

text \<open>The do-while loop that hands a substream to a callback until it is used up.\<close>

fun callback_loop :: "nat \<Rightarrow> (pb_istream_t \<Rightarrow> mem \<Rightarrow> (bool \<times> pb_istream_t \<times> mem) option) \<Rightarrow> pb_istream_t \<Rightarrow> mem \<Rightarrow> (bool \<times> pb_istream_t \<times> mem) option" where
  "callback_loop 0 decode sub m = None"
| "callback_loop (Suc n) decode sub m = do {
     (b, sub', m') \<leftarrow> decode sub m;
     if \<not> b then Some (False, sub', m')
     else if bytes_left sub' \<noteq> 0 then callback_loop n decode sub' m'
     else Some (True, sub', m')
   }"

text \<open>
  A callback field. The raw value of a scalar is copied to a local buffer; the substream over
  it is given to the callback in a memory that holds the buffer at \<open>raw_buffer\<close>.
\<close>

definition raw_buffer :: ptr where "raw_buffer = -16"

definition with_local :: "mem \<Rightarrow> byte list \<Rightarrow> mem" where
  "with_local m bs = (\<lambda>a. if raw_buffer \<le> a \<and> a < 0 then
     (if a < raw_buffer + int (length bs) then Some (bs ! nat (a - raw_buffer)) else None) else m a)"

definition without_local :: "mem \<Rightarrow> mem \<Rightarrow> mem" where
  "without_local m0 m = (\<lambda>a. if raw_buffer \<le> a \<and> a < 0 then m0 a else m a)"

definition decode_callback_field :: "nat \<Rightarrow> pb_env \<Rightarrow> pb_istream_t \<Rightarrow> pb_wire_type_t \<Rightarrow> pb_field_iter_t \<Rightarrow> mem \<Rightarrow> (bool \<times> pb_istream_t \<times> mem) option" where
  "decode_callback_field fuel env s wire_type it m = do {
     f \<leftarrow> it_field it;
     fp \<leftarrow> load_ptr m (pData it + cb_off_funcs);
     let arg = pData it + cb_off_arg;
     if fp = 0 then pb_skip_field fuel env s wire_type m
     else if wire_type = PB_WT_STRING then do {
       (r, s', m') \<leftarrow> pb_make_string_substream env s m;
       case r of None \<Rightarrow> Some (False, s', m')
       | Some substream \<Rightarrow> do {
           decode \<leftarrow> dec_fn env fp;
           (b, substream', m'') \<leftarrow> callback_loop fuel (\<lambda>st. decode st f arg) substream m';
           if \<not> b then Some (False, i_set_error s' ''callback failed'', m'')
           else pb_close_string_substream env s' substream' m''
         }
     }
     else do {
       (r, s', m') \<leftarrow> read_raw_value env s wire_type 10 m;
       case r of None \<Rightarrow> Some (False, s', m')
       | Some buffer \<Rightarrow> do {
           decode \<leftarrow> dec_fn env fp;
           (b, _, m'') \<leftarrow> decode (pb_istream_from_buffer raw_buffer (of_nat (length buffer))) f arg (with_local m' buffer);
           Some (b, s', without_local m' m'')
         }
     }
   }"

definition decode_field :: "nat \<Rightarrow> pb_env \<Rightarrow> decoder \<Rightarrow> (pb_field_t list \<Rightarrow> ptr \<Rightarrow> mem \<Rightarrow> mem option) \<Rightarrow>
    pb_istream_t \<Rightarrow> pb_wire_type_t \<Rightarrow> pb_field_iter_t \<Rightarrow> mem \<Rightarrow> (bool \<times> pb_istream_t \<times> mem) option" where
  "decode_field fuel env sub defaults s wire_type it m = do {
     f \<leftarrow> it_field it;
     if PB_ATYPE (type f) = PB_ATYPE_STATIC then decode_static_field fuel env sub defaults s wire_type it m
     else if PB_ATYPE (type f) = PB_ATYPE_POINTER then decode_pointer_field s m
     else if PB_ATYPE (type f) = PB_ATYPE_CALLBACK then decode_callback_field fuel env s wire_type it m
     else Some (False, i_set_error s ''invalid field type'', m)
   }"

section \<open>Extension fields\<close>

definition default_extension_decoder :: "pb_env \<Rightarrow>
    (pb_istream_t \<Rightarrow> pb_wire_type_t \<Rightarrow> pb_field_iter_t \<Rightarrow> mem \<Rightarrow> (bool \<times> pb_istream_t \<times> mem) option) \<Rightarrow>
    pb_istream_t \<Rightarrow> ptr \<Rightarrow> u32 \<Rightarrow> pb_wire_type_t \<Rightarrow> mem \<Rightarrow> (bool \<times> pb_istream_t \<times> mem) option" where
  "default_extension_decoder env dec_field s ext t wire_type m = do {
     et \<leftarrow> ext_type env ext m;
     if tag (ext_arg et) \<noteq> t then Some (True, s, m)
     else do {
       it \<leftarrow> iter_from_extension env ext m;
       m' \<leftarrow> store m (ext + ext_off_found) 1;
       dec_field s wire_type it m'
     }
   }"

text \<open>The loop over the list of extensions; \<open>pos\<close> is the position before it.\<close>

fun decode_extension_loop :: "nat \<Rightarrow> pb_env \<Rightarrow>
    (pb_istream_t \<Rightarrow> pb_wire_type_t \<Rightarrow> pb_field_iter_t \<Rightarrow> mem \<Rightarrow> (bool \<times> pb_istream_t \<times> mem) option) \<Rightarrow>
    u64 \<Rightarrow> ptr \<Rightarrow> pb_istream_t \<Rightarrow> u32 \<Rightarrow> pb_wire_type_t \<Rightarrow> mem \<Rightarrow> (bool \<times> pb_istream_t \<times> mem) option" where
  "decode_extension_loop 0 env dec_field pos ext s t wire_type m = None"
| "decode_extension_loop (Suc n) env dec_field pos ext s t wire_type m =
     (if ext = 0 \<or> pos \<noteq> bytes_left s then Some (True, s, m)
      else do {
        et \<leftarrow> ext_type env ext m;
        (status, s', m') \<leftarrow>
          (if ext_decode et \<noteq> 0 then do {
             decode \<leftarrow> extdec_fn env (ext_decode et);
             decode s ext t wire_type m
           }
           else default_extension_decoder env dec_field s ext t wire_type m);
        if \<not> status then Some (False, s', m')
        else do {
          nxt \<leftarrow> load_ptr m' (ext + ext_off_next);
          decode_extension_loop n env dec_field pos nxt s' t wire_type m'
        }
      })"

definition decode_extension :: "nat \<Rightarrow> pb_env \<Rightarrow>
    (pb_istream_t \<Rightarrow> pb_wire_type_t \<Rightarrow> pb_field_iter_t \<Rightarrow> mem \<Rightarrow> (bool \<times> pb_istream_t \<times> mem) option) \<Rightarrow>
    pb_istream_t \<Rightarrow> u32 \<Rightarrow> pb_wire_type_t \<Rightarrow> pb_field_iter_t \<Rightarrow> mem \<Rightarrow> (bool \<times> pb_istream_t \<times> mem) option" where
  "decode_extension fuel env dec_field s t wire_type it m = do {
     ext \<leftarrow> load_ptr m (pData it);
     decode_extension_loop fuel env dec_field (bytes_left s) ext s t wire_type m
   }"

fun find_ext_loop :: "nat \<Rightarrow> nat \<Rightarrow> pb_field_iter_t \<Rightarrow> (bool \<times> pb_field_iter_t) option" where
  "find_ext_loop 0 start it = None"
| "find_ext_loop (Suc n) start it = do {
     f \<leftarrow> it_field it;
     if PB_LTYPE (type f) = PB_LTYPE_EXTENSION then Some (True, it)
     else do {
       (_, it') \<leftarrow> pb_field_iter_next it;
       if it_pos it' \<noteq> start then find_ext_loop n start it' else Some (False, it')
     }
   }"

definition find_extension_field :: "pb_field_iter_t \<Rightarrow> (bool \<times> pb_field_iter_t) option" where
  "find_extension_field it = find_ext_loop (length (it_start it)) (it_pos it) it"

section \<open>Required fields\<close>

definition set_seen :: "u32 list \<Rightarrow> nat \<Rightarrow> u32 list option" where
  "set_seen seen i = do {
     w \<leftarrow> nth_opt seen (i div 32);
     Some (seen[i div 32 := w OR push_bit (i mod 32) 1])
   }"

fun check_words :: "u32 list \<Rightarrow> nat \<Rightarrow> nat \<Rightarrow> bool option" where
  "check_words seen i 0 = Some True"
| "check_words seen i (Suc n) = do {
     w \<leftarrow> nth_opt seen i;
     if w \<noteq> 0xFFFFFFFF then Some False else check_words seen (Suc i) n
   }"

text \<open>
  The final check: whole words, then the remaining bits. The shift by
  \<open>32 - (req_field_count & 31)\<close> is undefined when the count is a multiple of 32, as it is as
  wide as its operand.
\<close>

definition check_required :: "u32 list \<Rightarrow> nat \<Rightarrow> bool option" where
  "check_required seen req_field_count =
     (if req_field_count = 0 then Some True
      else do {
        whole \<leftarrow> check_words seen 0 (req_field_count div 32);
        if \<not> whole then Some False
        else if req_field_count mod 32 = 0 then None
        else do {
          w \<leftarrow> nth_opt seen (req_field_count div 32);
          Some (w = drop_bit (32 - req_field_count mod 32) 0xFFFFFFFF)
        }
      })"

text \<open>Seeking to the end of the array: the count before the last field and the type of it.\<close>

fun req_scan :: "nat \<Rightarrow> pb_field_iter_t \<Rightarrow> (nat \<times> byte \<times> pb_field_iter_t) option" where
  "req_scan 0 it = None"
| "req_scan (Suc n) it = do {
     f \<leftarrow> it_field it;
     (b, it') \<leftarrow> pb_field_iter_next it;
     if b then req_scan n it' else Some (required_field_index it, type f, it')
   }"

definition required_present :: "pb_field_iter_t \<Rightarrow> u32 list \<Rightarrow> bool option" where
  "required_present it seen = do {
     (req, last_type, it') \<leftarrow> req_scan (length (it_start it)) it;
     f \<leftarrow> it_field it';
     check_required seen
       (if PB_HTYPE last_type = PB_HTYPE_REQUIRED \<and> tag f \<noteq> 0 then Suc req else req)
   }"

section \<open>Messages\<close>

text \<open>
  The loop over the fields of the input. Its state is the iterator, the words of fields seen
  and the start of the extension range; it ends with the iterator and the words, or fails.
\<close>

fun decode_loop :: "nat \<Rightarrow> pb_env \<Rightarrow>
    (pb_istream_t \<Rightarrow> pb_wire_type_t \<Rightarrow> pb_field_iter_t \<Rightarrow> mem \<Rightarrow> (bool \<times> pb_istream_t \<times> mem) option) \<Rightarrow>
    pb_field_iter_t \<Rightarrow> u32 list \<Rightarrow> u32 \<Rightarrow> pb_istream_t \<Rightarrow> mem \<Rightarrow>
    ((pb_field_iter_t \<times> u32 list) option \<times> pb_istream_t \<times> mem) option" where
  "decode_loop 0 env dec_field it seen ext_start s m = None"
| "decode_loop (Suc n) env dec_field it seen ext_start s m =
     (if bytes_left s = 0 then Some (Some (it, seen), s, m)
      else do {
        (tr, s1, m1) \<leftarrow> pb_decode_tag env s m;
        case tr of
          No_tag eof \<Rightarrow> Some (if eof then Some (it, seen) else None, s1, m1)
        | Tag wire_type t \<Rightarrow> do {
            (found, it1) \<leftarrow> pb_field_iter_find it t;
            if found then do {
              f \<leftarrow> it_field it1;
              seen' \<leftarrow>
                (if PB_HTYPE (type f) = PB_HTYPE_REQUIRED \<and> required_field_index it1 < PB_MAX_REQUIRED_FIELDS
                 then set_seen seen (required_field_index it1) else Some seen);
              (b, s2, m2) \<leftarrow> dec_field s1 wire_type it1 m1;
              if \<not> b then Some (None, s2, m2)
              else decode_loop n env dec_field it1 seen' ext_start s2 m2
            }
            else do {
              (handled, it2, ext_start', s2, m2) \<leftarrow>
                (if t \<ge> ext_start then do {
                   (fx, it2) \<leftarrow> find_extension_field it1;
                   fld \<leftarrow> it_field it2;
                   let ext_start' = (if fx then tag fld else 0xFFFFFFFF);
                   if t \<ge> ext_start' then do {
                     (b, s2, m2) \<leftarrow> decode_extension n env dec_field s1 t wire_type it2 m1;
                     Some (if \<not> b then None else Some (bytes_left s1 \<noteq> bytes_left s2), it2, ext_start', s2, m2)
                   }
                   else Some (Some False, it2, ext_start', s1, m1)
                 }
                 else Some (Some False, it1, ext_start, s1, m1));
              case handled of
                None \<Rightarrow> Some (None, s2, m2)
              | Some True \<Rightarrow> decode_loop n env dec_field it2 seen ext_start' s2 m2
              | Some False \<Rightarrow> do {
                  (b, s3, m3) \<leftarrow> pb_skip_field n env s2 wire_type m2;
                  if \<not> b then Some (None, s3, m3)
                  else decode_loop n env dec_field it2 seen ext_start' s3 m3
                }
            }
          }
      })"

text \<open>
  \<open>pb_decode_noinit\<close>. \<open>fields_seen\<close> has \<open>(PB_MAX_REQUIRED_FIELDS + 31) / 32\<close> words.
\<close>

fun pb_decode_noinit :: "nat \<Rightarrow> pb_env \<Rightarrow> msg_decoder" where
  "pb_decode_noinit 0 env s fs dest m = None"
| "pb_decode_noinit (Suc n) env s fs dest m = do {
     (_, it) \<leftarrow> pb_field_iter_begin fs dest;
     let defaults = pb_message_set_to_defaults n env;
     let sub = pb_dec_submessage env
           (\<lambda>s fs dest m. do { m' \<leftarrow> defaults fs dest m; pb_decode_noinit n env s fs dest m' })
           (pb_decode_noinit n env);
     (r, s', m') \<leftarrow> decode_loop n env (decode_field n env sub defaults) it [0, 0] 0 s m;
     case r of
       None \<Rightarrow> Some (False, s', m')
     | Some (it', seen) \<Rightarrow> do {
         present \<leftarrow> required_present it' seen;
         if present then Some (True, s', m')
         else Some (False, i_set_error s' ''missing required field'', m')
       }
   }"

definition pb_decode :: "nat \<Rightarrow> pb_env \<Rightarrow> msg_decoder" where
  "pb_decode fuel env s fs dest m = do {
     m' \<leftarrow> pb_message_set_to_defaults fuel env fs dest m;
     pb_decode_noinit fuel env s fs dest m'
   }"

definition pb_decode_delimited :: "nat \<Rightarrow> pb_env \<Rightarrow> msg_decoder" where
  "pb_decode_delimited fuel env s fs dest m = do {
     (r, s', m') \<leftarrow> pb_make_string_substream env s m;
     case r of None \<Rightarrow> Some (False, s', m')
     | Some sub \<Rightarrow> do {
         (status, sub', m'') \<leftarrow> pb_decode fuel env sub fs dest m';
         (b, s'', m''') \<leftarrow> pb_close_string_substream env s' sub' m'';
         Some (b \<and> status, s'', m''')
       }
   }"

end
