(* ===== verification/PbStreamSafe.thy ===== *)
theory PbStreamSafe
  imports PbDecFields
begin

text \<open>
  Safety of the readers and of the single-value decoders on a buffer stream. \<open>buf_stream\<close> says
  that the bytes left lie in memory; \<open>ireach\<close> relates a stream to what a reader makes of it:
  it moves forward and never past the old end. \<open>dec_contract\<close> is the contract of a
  field decoder: for every input it returns, moves the stream forward (by at least a byte when it
  succeeds) and writes no memory outside the field.
\<close>

definition ilimit :: "pb_istream_t \<Rightarrow> ptr" where
  "ilimit s = i_state s + uint (bytes_left s)"

definition buf_stream :: "mem \<Rightarrow> pb_istream_t \<Rightarrow> bool" where
  "buf_stream m s \<longleftrightarrow> i_callback s = Buf_read \<and> mapped m (i_state s) (uint (bytes_left s))"

definition ireach :: "pb_istream_t \<Rightarrow> pb_istream_t \<Rightarrow> bool" where
  "ireach s s' \<longleftrightarrow> i_callback s' = i_callback s \<and> i_state s \<le> i_state s' \<and> ilimit s' \<le> ilimit s"

lemma ireach_refl [simp]: "ireach s s"
  by (simp add: ireach_def)

lemma ireach_trans: "ireach s s' \<Longrightarrow> ireach s' s'' \<Longrightarrow> ireach s s''"
  by (simp add: ireach_def)

lemma ireach_error [simp]: "ireach s (i_set_error s' e) = ireach s s'"
  by (simp add: ireach_def ilimit_def)

lemma ireach_left: "ireach s s' \<Longrightarrow> bytes_left s' \<le> bytes_left s"
  by (simp add: ireach_def ilimit_def word_le_def)

lemma buf_stream_error [simp]: "buf_stream m (i_set_error s e) = buf_stream m s"
  by (simp add: buf_stream_def)

lemma buf_stream_ireach:
  assumes "buf_stream m s" and "ireach s s'" and "dom m' = dom m"
  shows "buf_stream m' s'"
proof -
  have "mapped m (i_state s') (uint (bytes_left s'))"
    using assms(1,2) mapped_mono [of m "i_state s" "uint (bytes_left s)"]
    by (simp add: buf_stream_def ireach_def ilimit_def)
  with assms show ?thesis by (simp only: buf_stream_def ireach_def mapped_dom [OF assms(3)])
qed

lemma buf_stream_content:
  assumes "buf_stream m s"
  obtains bs where "buf_content m s = Some bs" and "length bs = unat (bytes_left s)"
proof -
  from assms have "mapped m (i_state s) (int (unat (bytes_left s)))" by (simp add: buf_stream_def)
  from load_bytes_ok [OF this] that assms show ?thesis
    by (auto simp: ok_conv buf_content_def buf_stream_def)
qed

lemma ireach_advance: "buf_content m s = Some bs \<Longrightarrow> k \<le> length bs \<Longrightarrow> ireach s (buf_advance s k)"
proof -
  assume c: "buf_content m s = Some bs" and k: "k \<le> length bs"
  have "int (unat (bytes_left (buf_advance s k))) = int (length bs) - int k"
    using buf.content_left [OF buf.content_advance [OF c k]] k by (simp only: length_drop of_nat_diff)
  moreover have "int (unat (bytes_left s)) = int (length bs)"
    using buf.content_left [OF c] by (simp only:)
  moreover have "i_state (buf_advance s k) = i_state s + int k"
    "i_callback (buf_advance s k) = i_callback s" by (simp_all add: buf_advance_def)
  ultimately show ?thesis by (simp add: ireach_def ilimit_def)
qed

lemma advance_less:
  "buf_content m s = Some bs \<Longrightarrow> k \<le> length bs \<Longrightarrow> 0 < k \<Longrightarrow> bytes_left (buf_advance s k) < bytes_left s"
  using buf.content_left buf.content_advance [of m s bs k] buf.content_left [of m "buf_advance s k" "drop k bs"]
  by (simp add: word_less_nat_alt)

section \<open>Readers\<close>

text \<open>What a reader promises that delivers a value and does not write.\<close>

definition reads :: "pb_istream_t \<Rightarrow> mem \<Rightarrow> ('a option \<times> pb_istream_t \<times> mem) option \<Rightarrow> bool" where
  "reads s m r \<longleftrightarrow> ok r (\<lambda>(v, s', m'). m' = m \<and> ireach s s' \<and> (v \<noteq> None \<longrightarrow> bytes_left s' < bytes_left s))"

lemma parse_reads:
  assumes c: "buf_content m s = Some bs"
    and r: "r = Some (case parse_varint 0 (0 :: 'a::len word) bs of
             (Inr v, k) \<Rightarrow> (Some v, buf_advance s k, m)
           | (Inl e, k) \<Rightarrow> (None, i_set_error (buf_advance s k) e, m))"
  shows "reads s m r"
proof -
  obtain x k where p: "parse_varint 0 (0 :: 'a word) bs = (x, k)" by fastforce
  have "k \<le> length bs" using parse_varint_consumed [of 0 "0 :: 'a word" bs] p by simp
  moreover have "x = Inr v \<Longrightarrow> 0 < k" for v using parse_varint_Inr [of 0 "0 :: 'a word" bs v k] p by simp
  ultimately show ?thesis
    using p r ireach_advance [OF c] advance_less [OF c]
    by (cases x) (auto simp: reads_def)
qed

lemma decode_varint_reads: "buf_stream m s \<Longrightarrow> reads s m (pb_decode_varint env s m)"
  by (erule buf_stream_content) (rule parse_reads, assumption, erule buf.decode_varint_parse)

lemma decode_varint32_reads: "buf_stream m s \<Longrightarrow> reads s m (pb_decode_varint32 env s m)"
  by (erule buf_stream_content) (rule parse_reads, assumption, erule buf.decode_varint32_parse)

lemma decode_svarint_reads: "buf_stream m s \<Longrightarrow> reads s m (pb_decode_svarint env s m)"
  using decode_varint_reads [of m s env]
  by (auto simp: reads_def pb_decode_svarint_def elim!: ok_mono split: option.splits)

definition skips :: "pb_istream_t \<Rightarrow> mem \<Rightarrow> (bool \<times> pb_istream_t \<times> mem) option \<Rightarrow> bool" where
  "skips s m r \<longleftrightarrow> ok r (\<lambda>(b, s', m'). m' = m \<and> ireach s s')"

lemma read_null_skips:
  "buf_stream m s \<Longrightarrow> ok (pb_read env s DNull n m) (\<lambda>(b, bs, s', m'). m' = m \<and> ireach s s')"
  by (erule buf_stream_content) (auto simp: buf.read_null intro: ireach_advance)

lemma skip_string_skips: "buf_stream m s \<Longrightarrow> skips s m (pb_skip_string env s m)"
proof (erule buf_stream_content)
  fix bs assume c: "buf_content m s = Some bs"
  obtain r k where p: "parse_varint 0 (0 :: u32) bs = (r, k)" by fastforce
  have k: "k \<le> length bs" using parse_varint_consumed [of 0 "0 :: u32" bs] p by simp
  show ?thesis using k ireach_advance [OF c]
    by (cases r) (auto simp: skips_def buf.skip_string_content [OF c] p)
qed

lemma skip_varint_skips:
  "buf_stream m s \<Longrightarrow> unat (bytes_left s) < fuel \<Longrightarrow> skips s m (pb_skip_varint fuel env s m)"
proof (erule buf_stream_content)
  fix bs assume c: "buf_content m s = Some bs" and len: "length bs = unat (bytes_left s)"
    and fuel: "unat (bytes_left s) < fuel"
  show ?thesis
    using buf.skip_varint_content [OF c, of fuel env] len fuel ireach_advance [OF c]
    by (auto simp: skips_def split: list.splits)
qed

lemma skip_field_skips:
  "buf_stream m s \<Longrightarrow> unat (bytes_left s) < fuel \<Longrightarrow> skips s m (pb_skip_field fuel env s wt m)"
  using skip_varint_skips [of m s fuel env] skip_string_skips [of m s env]
    read_null_skips [of m s env 8] read_null_skips [of m s env 4]
  by (auto simp: pb_skip_field_def skips_def elim!: ok_mono)

lemma decode_tag_reads:
  "buf_stream m s \<Longrightarrow> ok (pb_decode_tag env s m) (\<lambda>(tr, s', m'). m' = m \<and> ireach s s' \<and>
     (\<forall>wt t. tr = Tag wt t \<longrightarrow> bytes_left s' < bytes_left s \<and> t < 0xFFFFFFFF))"
proof -
  assume "buf_stream m s"
  from decode_varint32_reads [OF this, of env]
  have "ok (pb_decode_varint32 env s m) (\<lambda>(v, s', m'). m' = m \<and> ireach s s' \<and>
      (v \<noteq> None \<longrightarrow> bytes_left s' < bytes_left s))" by (simp only: reads_def)
  moreover have "drop_bit 3 w < 0xFFFFFFFF" for w :: u32
  proof -
    have "unat (drop_bit 3 w) = unat w div 8" by (simp only: unat_drop_bit_eq) (simp add: drop_bit_eq_div)
    moreover have "unat w < 2 ^ 32" using unsigned_less [of w, where ?'a = nat] by simp
    ultimately show ?thesis by (simp add: word_less_nat_alt)
  qed
  ultimately show ?thesis
    by (auto simp: pb_decode_tag_def elim!: ok_mono split: option.splits if_splits)
qed

text \<open>
  A substream is a piece of the parent; the parent, before it is closed, keeps the position and
  loses the piece.
\<close>

definition sub_of :: "pb_istream_t \<Rightarrow> pb_istream_t \<Rightarrow> pb_istream_t \<Rightarrow> bool" where
  "sub_of s s' sub \<longleftrightarrow> ireach s sub \<and> bytes_left sub < bytes_left s \<and> bytes_left s' < bytes_left s \<and>
     i_state s' = i_state sub \<and> ilimit s' + uint (bytes_left sub) \<le> ilimit s"

lemma make_substream_sub:
  "buf_stream m s \<Longrightarrow> ok (pb_make_string_substream env s m) (\<lambda>(r, s', m'). m' = m \<and> ireach s s' \<and>
     (\<forall>sub. r = Some sub \<longrightarrow> sub_of s s' sub))"
proof -
  assume "buf_stream m s"
  from decode_varint32_reads [OF this, of env]
  have rd: "ok (pb_decode_varint32 env s m) (\<lambda>(v, s', m'). m' = m \<and> ireach s s' \<and>
      (v \<noteq> None \<longrightarrow> bytes_left s' < bytes_left s))" by (simp only: reads_def)
  from rd obtain v s' where d: "pb_decode_varint32 env s m = Some (v, s', m)"
    and r: "ireach s s'" "v \<noteq> None \<Longrightarrow> bytes_left s' < bytes_left s" by (auto simp: ok_conv)
  show ?thesis
  proof (cases v)
    case None
    with d r show ?thesis by (simp add: pb_make_string_substream_def)
  next
    case (Some sz)
    define k where "k = uint (ucast sz :: u64)"
    have "0 \<le> k" by (simp add: k_def)
    moreover have "uint (bytes_left s' - ucast sz) = uint (bytes_left s') - k \<and> k \<le> uint (bytes_left s')"
      if "\<not> bytes_left s' < ucast sz"
      using that uint_sub_lem [of "ucast sz" "bytes_left s'"] by (simp add: not_less word_le_def k_def)
    ultimately show ?thesis using d r Some
      by (auto simp: pb_make_string_substream_def sub_of_def ireach_def ilimit_def word_less_def
          simp flip: k_def)
  qed
qed

lemma close_substream_reach:
  assumes "buf_stream m sub'" and "sub_of s s' sub" and "ireach s s'" and "ireach sub sub'"
  shows "ok (pb_close_string_substream env s' sub' m) (\<lambda>(b, s'', m'). m' = m \<and> ireach s s'' \<and>
     bytes_left s'' < bytes_left s)"
proof -
  have close: "ireach s (s'\<lparr>i_state := i_state sub'', i_errmsg := e\<rparr>) \<and> bytes_left s' < bytes_left s"
    if "ireach sub' sub''" for sub'' e
  proof -
    have "i_state sub'' \<le> i_state sub + uint (bytes_left sub)"
      using assms(4) that uint_ge_0 [of "bytes_left sub''"] unfolding ireach_def ilimit_def by linarith
    then show ?thesis using assms(2-4) that by (auto simp: sub_of_def ireach_def ilimit_def)
  qed
  show ?thesis
    using read_null_skips [OF assms(1), of env "bytes_left sub'"] close assms(2,3)
    by (auto simp: pb_close_string_substream_def sub_of_def elim!: ok_mono)
qed

section \<open>The contract of a field decoder\<close>

text \<open>
  For any input the decoder returns, moves the stream forward (by at least a byte when it
  succeeds), and writes nothing outside the \<open>data_size\<close> bytes of the field. The bound \<open>n\<close> on
  the bytes left is there for the recursion of submessages.
\<close>

definition dec_post :: "pb_istream_t \<Rightarrow> mem \<Rightarrow> ptr \<Rightarrow> int \<Rightarrow> bool \<times> pb_istream_t \<times> mem \<Rightarrow> bool" where
  "dec_post s m p sz = (\<lambda>(b, s', m'). ireach s s' \<and> same_outside m m' p sz \<and> (b \<longrightarrow> bytes_left s' < bytes_left s))"

definition dec_contract :: "nat \<Rightarrow> decoder \<Rightarrow> pb_field_t \<Rightarrow> bool" where
  "dec_contract n D f \<longleftrightarrow> (\<forall>s dest m. buf_stream m s \<and> unat (bytes_left s) \<le> n \<and>
     mapped m dest (uint (data_size f)) \<longrightarrow> ok (D s f dest m) (dec_post s m dest (uint (data_size f))))"

lemma dec_post_pair: "dec_post s m p sz (b, s', m') \<longleftrightarrow>
    ireach s s' \<and> same_outside m m' p sz \<and> (b \<longrightarrow> bytes_left s' < bytes_left s)"
  by (simp add: dec_post_def)

lemma dec_contractI:
  "(\<And>s dest m. buf_stream m s \<Longrightarrow> unat (bytes_left s) \<le> n \<Longrightarrow> mapped m dest (uint (data_size f)) \<Longrightarrow>
     ok (D s f dest m) (dec_post s m dest (uint (data_size f)))) \<Longrightarrow> dec_contract n D f"
  by (simp add: dec_contract_def)

lemma dec_contractD:
  "dec_contract n D f \<Longrightarrow> buf_stream m s \<Longrightarrow> unat (bytes_left s) \<le> n \<Longrightarrow> mapped m dest (uint (data_size f)) \<Longrightarrow>
     ok (D s f dest m) (dec_post s m dest (uint (data_size f)))"
  by (simp add: dec_contract_def)

lemma dec_post_trans:
  "ireach s s1 \<Longrightarrow> bytes_left s1 \<le> bytes_left s \<Longrightarrow> same_outside m m1 p sz \<Longrightarrow> dec_post s1 m1 p sz r \<Longrightarrow> dec_post s m p sz r"
  by (auto simp: dec_post_def intro: ireach_trans same_outside_trans)

lemma dec_post_fail: "ireach s s' \<Longrightarrow> dec_post s m p sz (False, i_set_error s' e, m)"
  by (simp add: dec_post_def)

text \<open>Reading into memory: the copy stays inside the destination.\<close>

lemma read_mem_safe:
  assumes "buf_stream m s" and "mapped m p (uint cnt)"
  shows "ok (pb_read env s (DMem p) cnt m) (\<lambda>(b, bs, s', m'). ireach s s' \<and> same_outside m m' p (uint cnt))"
proof (cases "bytes_left s < cnt")
  case True
  then show ?thesis using assms by (simp add: pb_read_def pb_read_direct_def)
next
  case False
  then have le: "uint cnt \<le> uint (bytes_left s)"
    and diff: "uint (bytes_left s - cnt) = uint (bytes_left s) - uint cnt"
    using uint_sub_lem [of cnt "bytes_left s"] by (simp_all add: not_less word_le_def)
  have "mapped m (i_state s) (int (unat cnt))"
    using assms(1) le mapped_mono [of m "i_state s" "uint (bytes_left s)" "i_state s" "uint cnt"]
    by (simp add: buf_stream_def)
  moreover have "mapped m p (int (unat cnt))" using assms(2) by simp
  ultimately have "ok (copy_bytes m (i_state s) p (unat cnt)) (\<lambda>m'. same_outside m m' p (int (unat cnt)))"
    by (rule copy_bytes_ok)
  moreover have "i_callback s = Buf_read" using assms(1) by (simp add: buf_stream_def)
  ultimately show ?thesis using False diff
    by (auto simp: pb_read_def pb_read_direct_def call_read_def buf_read_def Let_def ireach_def ilimit_def
        elim!: ok_mono)
qed

lemma read_local_safe:
  assumes "buf_stream m s"
  shows "ok (pb_read env s DLocal cnt m) (\<lambda>(b, bs, s', m'). m' = m \<and> ireach s s' \<and>
    (b \<longrightarrow> length bs = unat cnt \<and> (cnt \<noteq> 0 \<longrightarrow> bytes_left s' < bytes_left s)))"
  using assms
proof (rule buf_stream_content)
  fix bs assume c: "buf_content m s = Some bs"
  have "0 < unat cnt" if "cnt \<noteq> 0" using that by (simp add: unat_gt_0)
  then show ?thesis
    using ireach_advance [OF c, of "unat cnt"] advance_less [OF c, of "unat cnt"]
    by (auto simp: buf.read_local [OF c])
qed

section \<open>The decoders keep the contract\<close>

lemma store_word_safe:
  "mapped m p sz \<Longrightarrow> int n \<le> sz \<Longrightarrow> ok (store_word m p n w) (\<lambda>m'. same_outside m m' p sz)"
  by (rule ok_mono [OF store_word_ok]) (auto elim: mapped_mono same_outside_mono)

lemma store_safe:
  "mapped m p sz \<Longrightarrow> p \<le> a \<Longrightarrow> a < p + sz \<Longrightarrow> ok (store m a b) (\<lambda>m'. same_outside m m' p sz)"
  using mapped_byte [of m p sz a] by (auto simp: store_def same_outside_def)

lemma store_clamped_safe:
  assumes "\<And>k w. c = Some (k, w) \<Longrightarrow> int k \<le> sz" and "mapped m dest sz" and "ireach s0 s"
    and "bytes_left s < bytes_left s0"
  shows "ok (store_clamped c v s dest m) (dec_post s0 m dest sz)"
proof (cases c)
  case None
  with assms show ?thesis by (simp add: store_clamped_def dec_post_def)
next
  case (Some kw)
  then have "int (fst kw) \<le> sz" using assms(1) [of "fst kw" "snd kw"] by simp
  from store_word_safe [OF assms(2) this, of "snd kw"] Some assms(3,4) show ?thesis
    by (auto simp: store_clamped_def dec_post_def split: prod.split elim!: ok_mono)
qed

lemma clamp_signed_size: "clamp_signed sz v = Some (k, w) \<Longrightarrow> int k \<le> uint sz"
  by (auto simp: clamp_signed_def split: if_splits)

lemma clamp_unsigned_size: "clamp_unsigned sz v = Some (k, w) \<Longrightarrow> int k \<le> uint sz"
  by (auto simp: clamp_unsigned_def split: if_splits)

lemmas store_signed_safe = store_clamped_safe [OF clamp_signed_size]
lemmas store_unsigned_safe = store_clamped_safe [OF clamp_unsigned_size]

text \<open>The pattern of every decoder: read a value, fail if there is none, go on with it.\<close>

lemma reads_then:
  assumes "reads s m r"
    and "\<And>s'. ireach s s' \<Longrightarrow> Q (False, s', m)"
    and "\<And>v s'. ireach s s' \<Longrightarrow> bytes_left s' < bytes_left s \<Longrightarrow> ok (g v s' m) Q"
  shows "ok (r \<bind> (\<lambda>(v, s', m'). case v of None \<Rightarrow> Some (False, s', m') | Some x \<Rightarrow> g x s' m')) Q"
proof -
  from assms(1) obtain v s' where "r = Some (v, s', m)" "ireach s s'"
    "v \<noteq> None \<Longrightarrow> bytes_left s' < bytes_left s" by (auto simp: reads_def ok_conv)
  with assms(2,3) show ?thesis by (cases v) auto
qed

lemma dec_varint_contract: "dec_contract n (pb_dec_varint env) f"
  unfolding pb_dec_varint_def Let_def
  by (rule dec_contractI, rule reads_then, erule decode_varint_reads, simp add: dec_post_pair, rule store_signed_safe)

lemma dec_uvarint_contract: "dec_contract n (pb_dec_uvarint env) f"
  unfolding pb_dec_uvarint_def Let_def
  by (rule dec_contractI, rule reads_then, erule decode_varint_reads, simp add: dec_post_pair, rule store_unsigned_safe)

lemma dec_svarint_contract: "dec_contract n (pb_dec_svarint env) f"
  unfolding pb_dec_svarint_def Let_def
  by (rule dec_contractI, rule reads_then, erule decode_svarint_reads, simp add: dec_post_pair, rule store_signed_safe)

lemma dec_fixed32_contract: "4 \<le> data_size f \<Longrightarrow> dec_contract n (pb_dec_fixed32 env) f"
proof (rule dec_contractI)
  fix s dest m assume b: "buf_stream m s" and m: "mapped m dest (uint (data_size f))" and "4 \<le> data_size f"
  then have "int 4 \<le> uint (data_size f)" by (simp add: word_le_def)
  from read_local_safe [OF b, of env 4] store_word_safe [OF m this]
  show "ok (pb_dec_fixed32 env s f dest m) (dec_post s m dest (uint (data_size f)))"
    unfolding pb_dec_fixed32_def pb_decode_fixed32_def ok_bind
    by (elim ok_mono) (auto simp: dec_post_def elim!: ok_mono)
qed

lemma dec_fixed64_contract: "8 \<le> data_size f \<Longrightarrow> dec_contract n (pb_dec_fixed64 env) f"
proof (rule dec_contractI)
  fix s dest m assume b: "buf_stream m s" and m: "mapped m dest (uint (data_size f))" and "8 \<le> data_size f"
  then have "int 8 \<le> uint (data_size f)" by (simp add: word_le_def)
  from read_local_safe [OF b, of env 8] store_word_safe [OF m this]
  show "ok (pb_dec_fixed64 env s f dest m) (dec_post s m dest (uint (data_size f)))"
    unfolding pb_dec_fixed64_def pb_decode_fixed64_def ok_bind
    by (elim ok_mono) (auto simp: dec_post_def elim!: ok_mono)
qed

text \<open>Reading \<open>cnt\<close> bytes to a place inside the field, after a value has been read.\<close>

lemma read_field_safe:
  assumes "buf_stream m s" and "mapped m p sz" and "p \<le> q" and "q + uint cnt \<le> p + sz"
  shows "ok (pb_read env s (DMem q) cnt m) (\<lambda>(b, bs, s', m'). ireach s s' \<and> same_outside m m' p sz)"
  using read_mem_safe [OF assms(1) mapped_mono [OF assms(2-4)], of env] assms(3,4)
  by (auto elim!: ok_mono same_outside_mono)

lemma uint_size [simp]: "uint (ucast (n :: u32) :: u64) = uint n"
  using uint_bounded [of n] by (simp add: unsigned_ucast_eq take_bit_int_eq_self)

lemma uint_alloc_size: "uint (PB_BYTES_ARRAY_T_ALLOCSIZE n) = uint n + 4"
proof -
  have "uint n < 2 ^ 32" using uint_bounded [of n] by simp
  then show ?thesis by (simp add: PB_BYTES_ARRAY_T_ALLOCSIZE_def uint_word_ariths)
qed

lemma reads_obtain:
  assumes "reads s m r"
  obtains v s' where "r = Some (v, s', m)" and "ireach s s'" and "v \<noteq> None \<Longrightarrow> bytes_left s' < bytes_left s"
  using assms by (auto simp: reads_def ok_conv)

lemma dec_bytes_contract: "dec_contract n (pb_dec_bytes env) f"
proof (rule dec_contractI)
  fix s dest m
  let ?n = "uint (data_size f)"
  assume b: "buf_stream m s" and m: "mapped m dest ?n"
  from decode_varint32_reads [OF b, of env] obtain v s1 where d: "pb_decode_varint32 env s m = Some (v, s1, m)"
    and r: "ireach s s1" "v \<noteq> None \<Longrightarrow> bytes_left s1 < bytes_left s" by (rule reads_obtain) blast
  show "ok (pb_dec_bytes env s f dest m) (dec_post s m dest ?n)"
  proof (cases "\<exists>sz. v = Some sz \<and> \<not> PB_BYTES_ARRAY_T_ALLOCSIZE sz > ucast (data_size f)")
    case False
    with d r show ?thesis by (auto simp: pb_dec_bytes_def Let_def dec_post_pair split: option.split)
  next
    case True
    then obtain sz where v: "v = Some sz" and "\<not> PB_BYTES_ARRAY_T_ALLOCSIZE sz > ucast (data_size f)" by blast
    then have room: "uint sz + 4 \<le> ?n" by (simp add: word_less_def uint_alloc_size)
    then have "int 4 \<le> ?n" using uint_ge_0 [of sz] by linarith
    then have sw: "ok (store_word m dest 4 sz) (\<lambda>m'. same_outside m m' dest ?n)"
      using m by (rule store_word_safe [rotated])
    from sw obtain m1 where m1: "store_word m dest 4 sz = Some m1" "same_outside m m1 dest ?n"
      by (auto simp: ok_conv)
    have "ok (pb_read env s1 (DMem (dest + 4)) (ucast sz) m1) (\<lambda>(b, bs, s', m'). ireach s1 s' \<and> same_outside m1 m' dest ?n)"
      using b m r room m1
      by (intro read_field_safe buf_stream_ireach [OF b]) (auto simp: same_outside_mapped same_outside_dom)
    then obtain c bs s2 m2 where "pb_read env s1 (DMem (dest + 4)) (ucast sz) m1 = Some (c, bs, s2, m2)"
      and "ireach s1 s2" "same_outside m1 m2 dest ?n" by (auto simp: ok_conv)
    with m1 show ?thesis using d v r
      by (auto simp: pb_dec_bytes_def Let_def dec_post_pair
          intro: ireach_trans same_outside_trans order.strict_trans1 [OF ireach_left])
  qed
qed

lemma dec_string_contract: "dec_contract n (pb_dec_string env) f"
proof (rule dec_contractI)
  fix s dest m
  let ?n = "uint (data_size f)"
  assume b: "buf_stream m s" and m: "mapped m dest ?n"
  from decode_varint32_reads [OF b, of env] obtain v s1 where d: "pb_decode_varint32 env s m = Some (v, s1, m)"
    and r: "ireach s s1" "v \<noteq> None \<Longrightarrow> bytes_left s1 < bytes_left s" by (rule reads_obtain) blast
  show "ok (pb_dec_string env s f dest m) (dec_post s m dest ?n)"
  proof (cases "\<exists>sz. v = Some sz \<and> \<not> ucast (sz + 1) < (ucast sz :: u64) \<and> \<not> ucast (sz + 1) > (ucast (data_size f) :: u64)")
    case False
    with d r show ?thesis by (auto simp: pb_dec_string_def Let_def dec_post_pair split: option.split)
  next
    case True
    then obtain sz where v: "v = Some sz" and "uint sz \<le> uint (sz + 1)" "uint (sz + 1) \<le> ?n"
      by (auto simp: word_less_def not_less)
    have "uint sz < 2 ^ 32" using uint_bounded [of sz] by simp
    with \<open>uint sz \<le> uint (sz + 1)\<close> have "uint (sz + 1) = uint sz + 1"
      by (simp add: uint_word_ariths) (smt (verit) mod_pos_pos_trivial mod_self uint_ge_0)
    with \<open>uint (sz + 1) \<le> ?n\<close> have room: "uint sz + 1 \<le> ?n" "0 \<le> uint sz" by simp_all
    have "ok (pb_read env s1 (DMem dest) (ucast sz) m) (\<lambda>(b, bs, s', m'). ireach s1 s' \<and> same_outside m m' dest ?n)"
      using b m r room by (intro read_field_safe buf_stream_ireach [OF b]) auto
    then obtain c bs s2 m2 where rd: "pb_read env s1 (DMem dest) (ucast sz) m = Some (c, bs, s2, m2)"
      "ireach s1 s2" "same_outside m m2 dest ?n" by (auto simp: ok_conv)
    then obtain m3 where "store m2 (dest + uint sz) 0 = Some m3" "same_outside m2 m3 dest ?n"
      using store_safe [of m2 dest ?n "dest + uint sz" 0] m room by (auto simp: same_outside_mapped ok_conv)
    with rd show ?thesis using d v r
      by (auto simp: pb_dec_string_def Let_def dec_post_pair
          intro: ireach_trans same_outside_trans order.strict_trans1 [OF ireach_left])
  qed
qed

lemma dec_fixed_length_bytes_contract: "dec_contract n (pb_dec_fixed_length_bytes env) f"
proof (rule dec_contractI)
  fix s dest m
  let ?n = "uint (data_size f)"
  assume b: "buf_stream m s" and m: "mapped m dest ?n"
  from decode_varint32_reads [OF b, of env] obtain v s1 where d: "pb_decode_varint32 env s m = Some (v, s1, m)"
    and r: "ireach s s1" "v \<noteq> None \<Longrightarrow> bytes_left s1 < bytes_left s" by (rule reads_obtain) blast
  have "ok (pb_read env s1 (DMem dest) (ucast (data_size f)) m) (\<lambda>(b, bs, s', m'). ireach s1 s' \<and> same_outside m m' dest ?n)"
    using b m r by (intro read_field_safe buf_stream_ireach [OF b]) auto
  moreover have "ok (store_bytes m dest (replicate (unat (data_size f)) 0)) (\<lambda>m'. same_outside m m' dest ?n)"
    using store_bytes_ok [of m dest "replicate (unat (data_size f)) 0"] m by (auto elim: ok_mono)
  ultimately show "ok (pb_dec_fixed_length_bytes env s f dest m) (dec_post s m dest ?n)"
    using d r
    by (auto simp: pb_dec_fixed_length_bytes_def dec_post_pair elim!: ok_mono
        intro: ireach_trans order.strict_trans1 [OF ireach_left] split: option.split)
qed

end
