(* ===== verification/PbDecodeSafe.thy ===== *)
theory PbDecodeSafe
  imports PbDecode PbStreamSafe
begin

text \<open>
  Memory safety and termination of the message decoder. \<open>wf_msg\<close> is what the descriptor
  arrays the generator writes satisfy (no callbacks and extensions here): every member and
  companion lies inside the struct, submessages are described by a well-formed array of their
  own. For such a descriptor and any input the decoder returns, and it writes only inside the
  struct.
\<close>

section \<open>Well-formed message descriptors\<close>

definition inside :: "int \<Rightarrow> int \<Rightarrow> int \<Rightarrow> bool" where
  "inside sz p n \<longleftrightarrow> 0 \<le> p \<and> p + n \<le> sz"

definition wf_entry :: "(pb_field_t list \<Rightarrow> int \<Rightarrow> bool) \<Rightarrow> pb_field_t list \<Rightarrow> int \<Rightarrow> nat \<Rightarrow> bool" where
  "wf_entry wf_sub fs sz i =
     (let f = fs ! i; h = PB_HTYPE (type f); l = PB_LTYPE (type f) in
        l \<le> PB_LTYPE_FIXED_LENGTH_BYTES \<and> l \<noteq> PB_LTYPE_EXTENSION \<and>
        (PB_ATYPE (type f) = PB_ATYPE_STATIC \<or> PB_ATYPE (type f) = PB_ATYPE_POINTER) \<and>
        inside sz (data_pos fs i) (prev_size f) \<and>
        (h = PB_HTYPE_OPTIONAL \<and> size_pos fs i \<noteq> data_pos fs i \<longrightarrow> inside sz (size_pos fs i) 1) \<and>
        (h = PB_HTYPE_REPEATED \<or> h = PB_HTYPE_ONEOF \<longrightarrow> inside sz (size_pos fs i) 4) \<and>
        (PB_ATYPE (type f) = PB_ATYPE_STATIC \<longrightarrow>
           (h = PB_HTYPE_REPEATED \<longrightarrow> uint (data_size f) * uint (array_size f) < 2 ^ 32) \<and>
           (l = PB_LTYPE_FIXED32 \<longrightarrow> 4 \<le> data_size f) \<and>
           (l = PB_LTYPE_FIXED64 \<longrightarrow> 8 \<le> data_size f) \<and>
           (case field_ptr f of
              PNull \<Rightarrow> l \<noteq> PB_LTYPE_SUBMESSAGE
            | PFields sub \<Rightarrow> l = PB_LTYPE_SUBMESSAGE \<and> wf_sub sub (uint (data_size f))
            | PDefault bs \<Rightarrow> l \<noteq> PB_LTYPE_SUBMESSAGE \<and> unat (data_size f) \<le> length bs)))"

lemma mapped_inside: "mapped m dest sz \<Longrightarrow> inside sz p n \<Longrightarrow> mapped m (dest + p) n"
  by (rule mapped_mono) (auto simp: inside_def)

lemma same_inside: "same_outside m m' (dest + p) n \<Longrightarrow> inside sz p n \<Longrightarrow> same_outside m m' dest sz"
  by (erule same_outside_mono) (auto simp: inside_def)

lemma store_inside:
  "mapped m dest sz \<Longrightarrow> inside sz p 1 \<Longrightarrow> ok (store m (dest + p) b) (\<lambda>m'. same_outside m m' dest sz)"
  by (rule store_safe) (auto simp: inside_def)

lemma store_word_inside:
  "mapped m dest sz \<Longrightarrow> inside sz p (int n) \<Longrightarrow> ok (store_word m (dest + p) n w) (\<lambda>m'. same_outside m m' dest sz)"
  by (rule ok_mono [OF store_word_ok]) (auto intro: mapped_inside same_inside)

lemma store_bytes_inside:
  "mapped m dest sz \<Longrightarrow> inside sz p (int (length bs)) \<Longrightarrow>
   ok (store_bytes m (dest + p) bs) (\<lambda>m'. same_outside m m' dest sz)"
  by (rule ok_mono [OF store_bytes_ok]) (auto intro: mapped_inside same_inside)

lemma load_word_inside:
  "mapped m dest sz \<Longrightarrow> inside sz p (int n) \<Longrightarrow> ok (load_word m (dest + p) n) (\<lambda>_. True)"
  by (rule load_word_ok) (rule mapped_inside)

text \<open>
  The number of required fields: below the number the decoder keeps track of, and not a
  multiple of 32, for which the final check is undefined.
\<close>

definition req_ok :: "nat \<Rightarrow> bool" where
  "req_ok r \<longleftrightarrow> r = 0 \<or> r < PB_MAX_REQUIRED_FIELDS \<and> r mod 32 \<noteq> 0"

text \<open>The first argument bounds the nesting of submessages.\<close>

primrec wf_msg :: "nat \<Rightarrow> pb_field_t list \<Rightarrow> int \<Rightarrow> bool" where
  "wf_msg 0 fs sz \<longleftrightarrow> False"
| "wf_msg (Suc d) fs sz \<longleftrightarrow> wf_array fs \<and> 0 \<le> sz \<and> req_ok (req_index fs (nfields fs)) \<and>
     list_all (wf_entry (wf_msg d) fs sz) [0 ..< nfields fs]"

text \<open>Fuel that is enough to walk a descriptor and its submessages.\<close>

primrec msg_fuel :: "nat \<Rightarrow> pb_field_t list \<Rightarrow> nat" where
  "msg_fuel 0 fs = 0"
| "msg_fuel (Suc d) fs = 2 + nfields fs +
     sum_list (map (\<lambda>f. case field_ptr f of PFields sub \<Rightarrow> msg_fuel d sub | _ \<Rightarrow> 0) fs)"

text \<open>The positions the iterator can stand at: the entries, or the terminator of an empty array.\<close>

definition valid_pos :: "pb_field_t list \<Rightarrow> nat \<Rightarrow> bool" where
  "valid_pos fs i \<longleftrightarrow> i \<le> nfields fs - 1"

lemma valid_pos_cases: "valid_pos fs i \<Longrightarrow> i < nfields fs \<or> nfields fs = 0 \<and> i = 0"
  by (auto simp: valid_pos_def)

lemma valid_posI [intro]: "i < nfields fs \<Longrightarrow> valid_pos fs i"
  by (simp add: valid_pos_def)

lemma valid_pos_0 [simp]: "valid_pos fs 0"
  by (simp add: valid_pos_def)

lemma valid_pos_field: "wf_array fs \<Longrightarrow> valid_pos fs i \<Longrightarrow> it_field (iter_at fs dest i) = Some (fs ! i)"
  by (rule it_field_at) (auto simp: valid_pos_def)

lemma wf_msg_entry:
  assumes "wf_msg (Suc d) fs sz" and "valid_pos fs i"
  shows "wf_entry (wf_msg d) fs sz i"
  using valid_pos_cases [OF assms(2)]
proof
  assume "i < nfields fs"
  with assms(1) show ?thesis by (simp add: list_all_iff)
next
  assume e: "nfields fs = 0 \<and> i = 0"
  then have "fs ! 0 = PB_LAST_FIELD" using assms(1) wf_array_last [of fs] by simp
  with e assms(1) show ?thesis
    by (simp add: wf_entry_def PB_LAST_FIELD_def PB_LTYPE_def PB_HTYPE_def PB_ATYPE_def prev_size_def inside_def)
qed

lemma msg_fuel_sub:
  "f \<in> set fs \<Longrightarrow> field_ptr f = PFields sub \<Longrightarrow> msg_fuel d sub + nfields fs + 2 \<le> msg_fuel (Suc d) fs"
  using member_le_sum_list [of "msg_fuel d sub"
      "map (\<lambda>f. case field_ptr f of PFields sub \<Rightarrow> msg_fuel d sub | _ \<Rightarrow> 0) fs"]
  by (force simp: image_iff)

lemma valid_pos_mem: "wf_array fs \<Longrightarrow> valid_pos fs i \<Longrightarrow> fs ! i \<in> set fs"
  using wf_array_length [of fs] by (auto simp: valid_pos_def)

section \<open>Default values\<close>

definition def_contract :: "(pb_field_t list \<Rightarrow> ptr \<Rightarrow> mem \<Rightarrow> mem option) \<Rightarrow> pb_field_t list \<Rightarrow> int \<Rightarrow> bool" where
  "def_contract D fs sz \<longleftrightarrow> (\<forall>dest m. mapped m dest sz \<longrightarrow> ok (D fs dest m) (\<lambda>m'. same_outside m m' dest sz))"

lemma def_contractD: "def_contract D fs sz \<Longrightarrow> mapped m dest sz \<Longrightarrow> ok (D fs dest m) (\<lambda>m'. same_outside m m' dest sz)"
  by (simp add: def_contract_def)

lemma field_default_safe:
  assumes wf: "wf_msg (Suc d) fs sz" and pos: "valid_pos fs i" and m: "mapped m dest sz"
    and sub: "\<And>sub k. field_ptr (fs ! i) = PFields sub \<Longrightarrow> wf_msg d sub k \<Longrightarrow>
      def_contract (pb_message_set_to_defaults n env) sub k"
  shows "ok (pb_field_set_to_default (Suc n) env (iter_at fs dest i) m) (\<lambda>m'. same_outside m m' dest sz)"
proof -
  let ?f = "fs ! i"
  have e: "wf_entry (wf_msg d) fs sz i" using wf pos by (rule wf_msg_entry)
  have f: "it_field (iter_at fs dest i) = Some ?f" using wf pos by (simp add: valid_pos_field)
  show ?thesis
  proof (cases "PB_ATYPE (type ?f) = PB_ATYPE_STATIC")
    case False
    with e have "inside sz (data_pos fs i) (int 8)" by (auto simp: wf_entry_def Let_def prev_size_def)
    from store_word_inside [OF m this, of "0 :: u64"] obtain m1 where
      m1: "store_word m (dest + data_pos fs i) 8 (0 :: u64) = Some m1" "same_outside m m1 dest sz"
      by (auto simp: ok_conv)
    then have "mapped m1 dest sz" using m by (simp add: same_outside_mapped)
    from store_word_inside [OF this, of "size_pos fs i" 4 "0 :: u32"] e f m1 False show ?thesis
      by (auto simp: wf_entry_def Let_def elim!: ok_mono intro: same_outside_trans)
  next
    case static: True
    let ?init = "if PB_HTYPE (type ?f) = PB_HTYPE_OPTIONAL \<and> size_pos fs i \<noteq> data_pos fs i
          then do { m' \<leftarrow> store m (dest + size_pos fs i) 0; Some (True, m') }
          else if PB_HTYPE (type ?f) = PB_HTYPE_REPEATED \<or> PB_HTYPE (type ?f) = PB_HTYPE_ONEOF
          then do { m' \<leftarrow> store_word m (dest + size_pos fs i) 4 (0 :: u32); Some (False, m') }
          else Some (True, m)"
    have "ok ?init (\<lambda>(b, m'). same_outside m m' dest sz \<and> (b \<longrightarrow> PB_HTYPE (type ?f) \<noteq> PB_HTYPE_REPEATED))"
      using e store_inside [OF m, of "size_pos fs i" 0] store_word_inside [OF m, of "size_pos fs i" 4 "0 :: u32"]
      by (auto simp: wf_entry_def Let_def elim: ok_mono)
    then obtain b m1 where init: "?init = Some (b, m1)" and m1: "same_outside m m1 dest sz"
      and b: "b \<Longrightarrow> PB_HTYPE (type ?f) \<noteq> PB_HTYPE_REPEATED" by (auto simp: ok_conv)
    have m1m: "mapped m1 dest sz" using m m1 by (simp add: same_outside_mapped)
    have nx: "(PB_LTYPE (type ?f) = PB_LTYPE_EXTENSION) = False" using e by (simp add: wf_entry_def Let_def)
    have run: "pb_field_set_to_default (Suc n) env (iter_at fs dest i) m =
        (if \<not> b then Some m1
         else if PB_LTYPE (type ?f) = PB_LTYPE_SUBMESSAGE then
           (case field_ptr ?f of
              PFields sub \<Rightarrow> pb_message_set_to_defaults n env sub (dest + data_pos fs i) m1 | _ \<Rightarrow> None)
         else (case field_ptr ?f of
                 PDefault bs \<Rightarrow>
                   if length bs < unat (data_size ?f) then None
                   else store_bytes m1 (dest + data_pos fs i) (take (unat (data_size ?f)) bs)
               | PFields _ \<Rightarrow> None
               | PNull \<Rightarrow> store_bytes m1 (dest + data_pos fs i) (replicate (unat (data_size ?f)) 0)))"
      using nx by (simp only: pb_field_set_to_default.simps f Option.bind.simps static refl if_True if_False
          iter_at_simps add_left_cancel init prod.case)
    show ?thesis
    proof (cases b)
      case False
      with run m1 show ?thesis by simp
    next
      case True
      with e static b have room: "inside sz (data_pos fs i) (uint (data_size ?f))"
        by (auto simp: wf_entry_def Let_def prev_size_def)
      have set_bytes: "ok (store_bytes m1 (dest + data_pos fs i) bs) (\<lambda>m'. same_outside m m' dest sz)"
        if "length bs = unat (data_size ?f)" for bs
        using store_bytes_inside [OF m1m, of "data_pos fs i" bs] room that m1
        by (auto elim!: ok_mono intro: same_outside_trans)
      show ?thesis
      proof (cases "field_ptr ?f")
        case PNull
        with run True e static set_bytes show ?thesis by (simp add: wf_entry_def Let_def)
      next
        case (PDefault bs)
        with run True e static set_bytes show ?thesis by (simp add: wf_entry_def Let_def)
      next
        case (PFields sub)
        with e static have "PB_LTYPE (type ?f) = PB_LTYPE_SUBMESSAGE" "wf_msg d sub (uint (data_size ?f))"
          by (simp_all add: wf_entry_def Let_def)
        with def_contractD [OF sub [OF PFields] mapped_inside [OF m1m room]] run True PFields room m1
        show ?thesis by (auto elim!: ok_mono intro: same_inside same_outside_trans)
      qed
    qed
  qed
qed

lemma defaults_loop_safe:
  assumes wf: "wf_msg (Suc d) fs sz"
    and sub: "\<And>f sub k n'. f \<in> set fs \<Longrightarrow> field_ptr f = PFields sub \<Longrightarrow> wf_msg d sub k \<Longrightarrow> B \<le> n' \<Longrightarrow>
      def_contract (pb_message_set_to_defaults n' env) sub k"
  shows "i < nfields fs \<Longrightarrow> mapped m dest sz \<Longrightarrow> nfields fs - i + Suc B \<le> n \<Longrightarrow>
    ok (message_defaults_loop n env (iter_at fs dest i) m) (\<lambda>m'. same_outside m m' dest sz)"
proof (induction n arbitrary: i m)
  case 0
  then show ?case by simp
next
  case (Suc n)
  then obtain n' where n: "n = Suc n'" "B \<le> n'" by (cases n) auto
  have wa: "wf_array fs" using wf by simp
  have "fs ! i \<in> set fs" using Suc.prems(1) by (intro valid_pos_mem [OF wa]) auto
  from field_default_safe [OF wf valid_posI [OF Suc.prems(1)] Suc.prems(2) sub [OF this _ _ n(2)]]
  obtain m1 where m1: "pb_field_set_to_default n env (iter_at fs dest i) m = Some m1" "same_outside m m1 dest sz"
    unfolding n by (auto simp: ok_conv)
  show ?case
  proof (cases "Suc i < nfields fs")
    case True
    have "mapped m1 dest sz" using m1 Suc.prems(2) by (simp add: same_outside_mapped)
    moreover have "nfields fs - Suc i + Suc B \<le> n" using True Suc.prems(3) by simp
    ultimately have "ok (message_defaults_loop n env (iter_at fs dest (Suc i)) m1) (\<lambda>m'. same_outside m1 m' dest sz)"
      by (rule Suc.IH [OF True])
    with True Suc.prems(1) m1 show ?thesis
      by (auto simp: iter_next_at [OF wa] elim!: ok_mono intro: same_outside_trans)
  next
    case False
    with Suc.prems m1 show ?thesis by (simp add: iter_next_at [OF wa])
  qed
qed

lemma message_defaults_safe:
  "wf_msg d fs sz \<Longrightarrow> msg_fuel d fs \<le> n \<Longrightarrow> def_contract (pb_message_set_to_defaults n env) fs sz"
proof (induction d arbitrary: fs sz n)
  case 0
  then show ?case by simp
next
  case (Suc d)
  define B where "B = msg_fuel (Suc d) fs - (2 + nfields fs)"
  from Suc.prems(2) obtain k where n: "n = Suc k" "nfields fs + Suc B \<le> k" by (cases n) (auto simp: B_def)
  have wa: "wf_array fs" using Suc.prems(1) by simp
  have sub: "def_contract (pb_message_set_to_defaults n' env) sub' k'"
    if "f \<in> set fs" "field_ptr f = PFields sub'" "wf_msg d sub' k'" "B \<le> n'" for f sub' k' n'
    using that msg_fuel_sub [OF that(1,2), of d] by (intro Suc.IH) (auto simp: B_def)
  show ?case unfolding def_contract_def
  proof (intro allI impI)
    fix dest m assume m: "mapped m dest sz"
    show "ok (pb_message_set_to_defaults n env fs dest m) (\<lambda>m'. same_outside m m' dest sz)"
    proof (cases "nfields fs = 0")
      case True
      then show ?thesis by (simp add: n iter_begin_at [OF wa])
    next
      case False
      then show ?thesis
        using defaults_loop_safe [OF Suc.prems(1) sub _ m, where i = 0 and n = k] n(2)
        by (simp add: n(1) iter_begin_at [OF wa])
    qed
  qed
qed

section \<open>Single fields\<close>

text \<open>The address of an item: the product does not wrap for an index inside the array.\<close>

lemma item_inside:
  assumes "uint (data_size f) * uint (array_size f) < 2 ^ 32"
    and "inside sz p (uint (data_size f) * uint (array_size f))" and "i < array_size f"
  shows "inside sz (p + uint (data_size f * i)) (uint (data_size f))"
proof -
  let ?d = "uint (data_size f)" and ?a = "uint (array_size f)"
  have i: "uint i + 1 \<le> ?a" using assms(3) by (simp add: word_less_def)
  have "?d * uint i + ?d = ?d * (uint i + 1)" by (simp add: algebra_simps)
  also have "\<dots> \<le> ?d * ?a" using i by (intro mult_left_mono) simp_all
  finally have le: "?d * uint i + ?d \<le> ?d * ?a" .
  have "0 \<le> ?d" "0 \<le> ?d * uint i" by simp_all
  with le assms(1) have "?d * uint i < 2 ^ 32" by linarith
  then have "uint (data_size f * i) = ?d * uint i" by (simp add: uint_word_ariths mod_pos_pos_trivial)
  with le assms(2) \<open>0 \<le> ?d * uint i\<close> show ?thesis by (simp add: inside_def)
qed

text \<open>
  The interface between the loop over an array and the decoder of its items: a decoder that
  keeps the contract for the fields that fit it.
\<close>

locale item_decoder =
  fixes n :: nat and D :: decoder and fits :: "pb_field_t \<Rightarrow> bool"
  assumes contract: "fits f \<Longrightarrow> dec_contract n D f"
begin

lemma single_safe:
  assumes "fits f" and "buf_stream m s" and "unat (bytes_left s) \<le> n" and "mapped m dest sz"
    and "inside sz p (uint (data_size f))"
  shows "ok (call_decoder (Some D) s f (dest + p) m) (dec_post s m dest sz)"
  using dec_contractD [OF contract [OF assms(1)] assms(2,3) mapped_inside [OF assms(4,5)]] assms(5)
  by (auto simp: call_decoder_def dec_post_def elim!: ok_mono same_inside)

lemma packed_safe:
  assumes f: "fits f" and small: "uint (data_size f) * uint (array_size f) < 2 ^ 32"
    and data: "inside sz p (uint (data_size f) * uint (array_size f))" and count: "inside sz q 4"
  shows "buf_stream m s \<Longrightarrow> unat (bytes_left s) \<le> n \<Longrightarrow> mapped m dest sz \<Longrightarrow> unat (bytes_left s) < fuel \<Longrightarrow>
    ok (packed_loop fuel (Some D) f (dest + p) (dest + q) s m)
      (\<lambda>(b, s', m'). ireach s s' \<and> same_outside m m' dest sz)"
proof (induction fuel arbitrary: s m)
  case 0
  then show ?case by simp
next
  case (Suc fuel)
  from load_word_inside [of m dest sz q 4] Suc.prems(3) count obtain i :: u32
    where i: "load_word m (dest + q) 4 = Some i" by (auto simp: ok_conv)
  show ?case
  proof (cases "bytes_left s = 0 \<or> \<not> i < array_size f")
    case True
    with i show ?thesis by auto
  next
    case False
    then have "i < array_size f" by simp
    from single_safe [OF f Suc.prems(1-3) item_inside [OF small data this]] obtain b s1 m1
      where d: "call_decoder (Some D) s f (dest + p + uint (data_size f * i)) m = Some (b, s1, m1)"
        and r: "ireach s s1" "same_outside m m1 dest sz" "b \<Longrightarrow> bytes_left s1 < bytes_left s"
      by (auto simp: ok_conv dec_post_def add.assoc)
    have m1: "mapped m1 dest sz" using r Suc.prems by (simp add: same_outside_mapped)
    from load_word_inside [OF m1, of q 4] count obtain j :: u32
      where j: "load_word m1 (dest + q) 4 = Some j" by (auto simp: ok_conv)
    from store_word_inside [OF m1, of q 4 "j + 1"] count obtain m2
      where m2: "store_word m1 (dest + q) 4 (j + 1) = Some m2" "same_outside m1 m2 dest sz"
      by (auto simp: ok_conv)
    have "same_outside m m2 dest sz" using r(2) m2(2) by (rule same_outside_trans)
    show ?thesis
    proof (cases b)
      case True
      have "buf_stream m2 s1" using Suc.prems(1) r(1) \<open>same_outside m m2 dest sz\<close>
        by (rule buf_stream_ireach [OF _ _ same_outside_dom])
      moreover have "mapped m2 dest sz" using m1 m2(2) by (simp add: same_outside_mapped)
      moreover have "unat (bytes_left s1) < unat (bytes_left s)" using r(3) True by (simp add: word_less_nat_alt)
      ultimately have "ok (packed_loop fuel (Some D) f (dest + p) (dest + q) s1 m2)
          (\<lambda>(b, s', m'). ireach s1 s' \<and> same_outside m2 m' dest sz)"
        using Suc.prems(2,4) by (intro Suc.IH) auto
      with True False i d j m2 r(1) \<open>same_outside m m2 dest sz\<close> show ?thesis
        by (auto elim!: ok_mono intro: ireach_trans same_outside_trans)
    qed (use False i d r in simp)
  qed
qed

end

text \<open>The contract of a message decoder, and the submessage decoder on top of it.\<close>

definition msg_contract :: "nat \<Rightarrow> msg_decoder \<Rightarrow> pb_field_t list \<Rightarrow> int \<Rightarrow> bool" where
  "msg_contract n D fs sz \<longleftrightarrow> (\<forall>s dest m. buf_stream m s \<and> unat (bytes_left s) \<le> n \<and> mapped m dest sz \<longrightarrow>
     ok (D s fs dest m) (\<lambda>(b, s', m'). ireach s s' \<and> same_outside m m' dest sz))"

lemma msg_contractD:
  "msg_contract n D fs sz \<Longrightarrow> buf_stream m s \<Longrightarrow> unat (bytes_left s) \<le> n \<Longrightarrow> mapped m dest sz \<Longrightarrow>
     ok (D s fs dest m) (\<lambda>(b, s', m'). ireach s s' \<and> same_outside m m' dest sz)"
  by (simp add: msg_contract_def)

definition fits_sub :: "nat \<Rightarrow> msg_decoder \<Rightarrow> msg_decoder \<Rightarrow> pb_field_t \<Rightarrow> bool" where
  "fits_sub n decode noinit f \<longleftrightarrow> (\<exists>fs. field_ptr f = PFields fs \<and>
     msg_contract n decode fs (uint (data_size f)) \<and> msg_contract n noinit fs (uint (data_size f)))"

lemma dec_submessage_contract:
  assumes "fits_sub n decode noinit f"
  shows "dec_contract n (pb_dec_submessage env decode noinit) f"
proof (rule dec_contractI)
  fix s dest m
  let ?n = "uint (data_size f)"
  assume b: "buf_stream m s" and n: "unat (bytes_left s) \<le> n" and m: "mapped m dest ?n"
  from assms obtain fs where fs: "field_ptr f = PFields fs" and c: "msg_contract n decode fs ?n" "msg_contract n noinit fs ?n"
    by (auto simp: fits_sub_def)
  from make_substream_sub [OF b, of env] obtain r s1 where mk: "pb_make_string_substream env s m = Some (r, s1, m)"
    and r1: "ireach s s1" and sub: "\<And>sub. r = Some sub \<Longrightarrow> sub_of s s1 sub" by (auto simp: ok_conv)
  show "ok (pb_dec_submessage env decode noinit s f dest m) (dec_post s m dest ?n)"
  proof (cases r)
    case None
    with mk r1 show ?thesis by (simp add: pb_dec_submessage_def dec_post_pair)
  next
    case (Some ss)
    note so = sub [OF Some]
    let ?D = "if PB_HTYPE (type f) = PB_HTYPE_REPEATED then decode ss fs dest m else noinit ss fs dest m"
    have ssb: "buf_stream m ss" using b so by (auto simp: sub_of_def intro: buf_stream_ireach)
    have "unat (bytes_left ss) \<le> n" using so n by (simp add: sub_of_def word_less_nat_alt)
    with ssb m c have "ok ?D (\<lambda>(b, s', m'). ireach ss s' \<and> same_outside m m' dest ?n)"
      by (simp add: msg_contractD)
    then obtain st ss' m1 where d: "?D = Some (st, ss', m1)" "ireach ss ss'" "same_outside m m1 dest ?n"
      by (auto simp: ok_conv)
    have "buf_stream m1 ss'" using ssb d(2) same_outside_dom [OF d(3)] by (rule buf_stream_ireach)
    from close_substream_reach [OF this so r1 d(2), of env] show ?thesis
      using d(3) by (auto simp: pb_dec_submessage_def mk Some fs d(1) dec_post_pair elim!: ok_mono)
  qed
qed

interpretation varint: item_decoder n "pb_dec_varint env" "\<lambda>_. True" for n env
  by unfold_locales (rule dec_varint_contract)

interpretation uvarint: item_decoder n "pb_dec_uvarint env" "\<lambda>_. True" for n env
  by unfold_locales (rule dec_uvarint_contract)

interpretation svarint: item_decoder n "pb_dec_svarint env" "\<lambda>_. True" for n env
  by unfold_locales (rule dec_svarint_contract)

interpretation fixed32: item_decoder n "pb_dec_fixed32 env" "\<lambda>f. 4 \<le> data_size f" for n env
  by unfold_locales (rule dec_fixed32_contract)

interpretation fixed64: item_decoder n "pb_dec_fixed64 env" "\<lambda>f. 8 \<le> data_size f" for n env
  by unfold_locales (rule dec_fixed64_contract)

interpretation bytes: item_decoder n "pb_dec_bytes env" "\<lambda>_. True" for n env
  by unfold_locales (rule dec_bytes_contract)

interpretation str: item_decoder n "pb_dec_string env" "\<lambda>_. True" for n env
  by unfold_locales (rule dec_string_contract)

interpretation fixed_bytes: item_decoder n "pb_dec_fixed_length_bytes env" "\<lambda>_. True" for n env
  by unfold_locales (rule dec_fixed_length_bytes_contract)

interpretation submsg: item_decoder n "pb_dec_submessage env decode noinit" "fits_sub n decode noinit"
  for n env decode noinit
  by unfold_locales (rule dec_submessage_contract)

text \<open>So every decoder the table holds for a well-formed entry keeps the contract.\<close>

lemma ltype_cases:
  assumes "l \<le> PB_LTYPE_FIXED_LENGTH_BYTES"
  shows "l \<in> {0x00, 0x01, 0x02, 0x03, 0x04, 0x05, 0x06, 0x07, 0x08, 0x09}"
proof -
  have "unat l \<le> 9" using assms by (simp add: word_le_nat_alt)
  then have "unat l \<in> {0, 1, 2, 3, 4, 5, 6, 7, 8, 9}" by (simp, arith)
  moreover have "l = of_nat (unat l)" by simp
  ultimately show ?thesis by (elim insertE) (auto simp: word_unat_eq_iff)
qed

lemma tableI:
  "PB_DECODERS env sub l = Some (Some D) \<Longrightarrow> item_decoder n D fits \<Longrightarrow> fits f \<Longrightarrow>
   \<exists>D fits. PB_DECODERS env sub l = Some (Some D) \<and> item_decoder n D fits \<and> fits f"
  by blast

lemma table_safe:
  assumes "wf_entry (wf_msg d) fs sz i" and "PB_ATYPE (type (fs ! i)) = PB_ATYPE_STATIC"
    and "PB_LTYPE (type (fs ! i)) = PB_LTYPE_SUBMESSAGE \<Longrightarrow> fits_sub n decode noinit (fs ! i)"
  shows "\<exists>D fits. PB_DECODERS env (pb_dec_submessage env decode noinit) (PB_LTYPE (type (fs ! i))) = Some (Some D) \<and>
    item_decoder n D fits \<and> fits (fs ! i)"
proof -
  let ?l = "PB_LTYPE (type (fs ! i))"
  have l: "?l \<le> PB_LTYPE_FIXED_LENGTH_BYTES" and x: "?l \<noteq> PB_LTYPE_EXTENSION"
    and f32: "?l = PB_LTYPE_FIXED32 \<Longrightarrow> 4 \<le> data_size (fs ! i)"
    and f64: "?l = PB_LTYPE_FIXED64 \<Longrightarrow> 8 \<le> data_size (fs ! i)"
    using assms(1,2) by (simp_all add: wf_entry_def Let_def)
  from ltype_cases [OF l] x consider "?l = 0x00" | "?l = 0x01" | "?l = 0x02" | "?l = 0x03" | "?l = 0x04" | "?l = 0x05" | "?l = 0x06" | "?l = 0x07" | "?l = 0x09" by auto
  then show ?thesis
  proof cases
    case 1
    then show ?thesis by (intro tableI [OF _ varint.item_decoder_axioms]) (simp_all add: PB_DECODERS_def)
  next
    case 2
    then show ?thesis by (intro tableI [OF _ uvarint.item_decoder_axioms]) (simp_all add: PB_DECODERS_def)
  next
    case 3
    then show ?thesis by (intro tableI [OF _ svarint.item_decoder_axioms]) (simp_all add: PB_DECODERS_def)
  next
    case 4
    then show ?thesis by (intro tableI [OF _ fixed32.item_decoder_axioms]) (simp_all add: PB_DECODERS_def f32)
  next
    case 5
    then show ?thesis by (intro tableI [OF _ fixed64.item_decoder_axioms]) (simp_all add: PB_DECODERS_def f64)
  next
    case 6
    then show ?thesis by (intro tableI [OF _ bytes.item_decoder_axioms]) (simp_all add: PB_DECODERS_def)
  next
    case 7
    then show ?thesis by (intro tableI [OF _ str.item_decoder_axioms]) (simp_all add: PB_DECODERS_def)
  next
    case 8
    then have "fits_sub n decode noinit (fs ! i)" by (rule assms(3))
    from 8 show ?thesis
      by (intro tableI [OF _ submsg.item_decoder_axioms \<open>fits_sub n decode noinit (fs ! i)\<close>]) (simp add: PB_DECODERS_def)
  next
    case 9
    then show ?thesis by (intro tableI [OF _ fixed_bytes.item_decoder_axioms]) (simp_all add: PB_DECODERS_def)
  qed
qed

section \<open>A field of a message\<close>

text \<open>What the decoder of a message is given for the fields that are submessages.\<close>

definition subs_safe :: "nat \<Rightarrow> msg_decoder \<Rightarrow> msg_decoder \<Rightarrow> (pb_field_t list \<Rightarrow> ptr \<Rightarrow> mem \<Rightarrow> mem option) \<Rightarrow>
    nat \<Rightarrow> pb_field_t list \<Rightarrow> bool" where
  "subs_safe n decode noinit defaults d fs \<longleftrightarrow> (\<forall>f \<in> set fs. \<forall>sub k. field_ptr f = PFields sub \<and> wf_msg d sub k \<longrightarrow>
     msg_contract n decode sub k \<and> msg_contract n noinit sub k \<and> def_contract defaults sub k)"

lemma static_sub:
  assumes "wf_entry (wf_msg d) fs sz i" and "PB_ATYPE (type (fs ! i)) = PB_ATYPE_STATIC"
    and "subs_safe n decode noinit defaults d fs" and "fs ! i \<in> set fs"
    and "PB_LTYPE (type (fs ! i)) = PB_LTYPE_SUBMESSAGE"
  obtains sub where "field_ptr (fs ! i) = PFields sub" and "fits_sub n decode noinit (fs ! i)"
    and "def_contract defaults sub (uint (data_size (fs ! i)))"
  using assms by (cases "field_ptr (fs ! i)") (auto simp: wf_entry_def Let_def subs_safe_def fits_sub_def)

lemma htype_cases: "PB_HTYPE x \<in> {PB_HTYPE_REQUIRED, PB_HTYPE_OPTIONAL, PB_HTYPE_REPEATED, PB_HTYPE_ONEOF}"
proof -
  have "x AND 0x30 = (if bit x 4 then 0x10 else 0) OR (if bit x 5 then 0x20 else 0)"
  proof (rule bit_word_eqI)
    fix n assume "n < LENGTH(8)"
    then consider "n = 0" | "n = 1" | "n = 2" | "n = 3" | "n = 4" | "n = 5" | "n = 6" | "n = 7" by fastforce
    then show "bit (x AND 0x30) n = bit ((if bit x 4 then 0x10 else 0) OR (if bit x 5 then 0x20 else 0) :: byte) n"
      by cases (simp_all add: bit_and_iff bit_or_iff)
  qed
  then show ?thesis by (simp add: PB_HTYPE_def)
qed

lemma decode_static_safe:
  assumes wf: "wf_msg (Suc d) fs sz" and pos: "valid_pos fs i" and m: "mapped m dest sz"
    and b: "buf_stream m s" and n: "unat (bytes_left s) \<le> n" "n < fuel"
    and static: "PB_ATYPE (type (fs ! i)) = PB_ATYPE_STATIC"
    and subs: "subs_safe n decode noinit defaults d fs"
  shows "ok (decode_static_field fuel env (pb_dec_submessage env decode noinit) defaults s wt (iter_at fs dest i) m)
    (\<lambda>(b, s', m'). ireach s s' \<and> same_outside m m' dest sz)"
proof -
  let ?f = "fs ! i" and ?p = "data_pos fs i" and ?q = "size_pos fs i"
  let ?h = "PB_HTYPE (type ?f)"
  let ?Q = "\<lambda>(b, s', m'). ireach s s' \<and> same_outside m m' dest sz"
  have e: "wf_entry (wf_msg d) fs sz i" using wf pos by (rule wf_msg_entry)
  have wa: "wf_array fs" using wf by simp
  note mem = valid_pos_mem [OF wa pos]
  note f = valid_pos_field [OF wa pos, of dest]
  have "PB_LTYPE (type ?f) = PB_LTYPE_SUBMESSAGE \<Longrightarrow> fits_sub n decode noinit ?f"
    using static_sub [OF e static subs mem] by metis
  from table_safe [OF e static this, of env] obtain D fits where
    tab: "PB_DECODERS env (pb_dec_submessage env decode noinit) (PB_LTYPE (type ?f)) = Some (Some D)"
    and D: "item_decoder n D fits" and fit: "fits ?f" by blast
  have single: "ok (call_decoder (Some D) s ?f (dest + ?p) m1) ?Q"
    if "same_outside m m1 dest sz" "?h \<noteq> PB_HTYPE_REPEATED" for m1
  proof -
    have "inside sz ?p (uint (data_size ?f))"
      using e static that(2) by (simp add: wf_entry_def Let_def prev_size_def)
    moreover have "buf_stream m1 s" using b ireach_refl same_outside_dom [OF that(1)] by (rule buf_stream_ireach)
    moreover have "mapped m1 dest sz" using m that(1) by (simp add: same_outside_mapped)
    ultimately show ?thesis
      using item_decoder.single_safe [OF D fit _ n(1), of m1 dest sz ?p] that(1)
      by (auto simp: dec_post_def elim!: ok_mono intro: same_outside_trans)
  qed
  consider (req) "?h = PB_HTYPE_REQUIRED" | (opt) "?h = PB_HTYPE_OPTIONAL" | (rep) "?h = PB_HTYPE_REPEATED"
    | (oneof) "?h \<noteq> PB_HTYPE_REQUIRED" "?h \<noteq> PB_HTYPE_OPTIONAL" "?h \<noteq> PB_HTYPE_REPEATED" by blast
  then show ?thesis
  proof cases
    case req
    with single [of m] show ?thesis by (simp add: decode_static_field_def f tab)
  next
    case opt
    show ?thesis
    proof (cases "?q = ?p")
      case True
      with opt single [of m] show ?thesis by (simp add: decode_static_field_def f tab)
    next
      case False
      then have "inside sz ?q 1" using e opt by (simp add: wf_entry_def Let_def)
      from store_inside [OF m this, of 1] single opt False show ?thesis
        by (auto simp: decode_static_field_def f tab elim!: ok_mono)
    qed
  next
    case rep
    with e static have small: "uint (data_size ?f) * uint (array_size ?f) < 2 ^ 32"
      and data: "inside sz ?p (uint (data_size ?f) * uint (array_size ?f))" and cnt: "inside sz ?q 4"
      by (simp_all add: wf_entry_def Let_def prev_size_def)
    show ?thesis
    proof (cases "wt = PB_WT_STRING \<and> PB_LTYPE (type ?f) \<le> PB_LTYPE_LAST_PACKABLE")
      case True
      from make_substream_sub [OF b, of env] obtain r s1 where mk: "pb_make_string_substream env s m = Some (r, s1, m)"
        and r1: "ireach s s1" and sub: "\<And>sub. r = Some sub \<Longrightarrow> sub_of s s1 sub" by (auto simp: ok_conv)
      show ?thesis
      proof (cases r)
        case None
        with True rep r1 show ?thesis by (simp add: decode_static_field_def f tab mk)
      next
        case (Some ss)
        note so = sub [OF Some]
        have ssb: "buf_stream m ss" using b so by (auto simp: sub_of_def intro: buf_stream_ireach)
        have ssn: "unat (bytes_left ss) \<le> n" "unat (bytes_left ss) < fuel"
          using so n by (auto simp: sub_of_def word_less_nat_alt)
        from item_decoder.packed_safe [OF D fit small data cnt ssb ssn(1) m ssn(2)] obtain st ss' m1 where
          pk: "packed_loop fuel (Some D) ?f (dest + ?p) (dest + ?q) ss m = Some (st, ss', m1)"
          "ireach ss ss'" "same_outside m m1 dest sz" by (auto simp: ok_conv)
        have "buf_stream m1 ss'" using ssb pk(2) same_outside_dom [OF pk(3)] by (rule buf_stream_ireach)
        from close_substream_reach [OF this so r1 pk(2), of env] True rep r1 pk show ?thesis
          by (auto simp: decode_static_field_def f tab mk Some elim!: ok_mono)
      qed
    next
      case False
      from load_word_inside [OF m, of ?q 4] cnt obtain k :: u32
        where k: "load_word m (dest + ?q) 4 = Some k" by (auto simp: ok_conv)
      from store_word_inside [OF m, of ?q 4 "k + 1"] cnt obtain m1 where
        m1: "store_word m (dest + ?q) 4 (k + 1) = Some m1" "same_outside m m1 dest sz" by (auto simp: ok_conv)
      have "ok (call_decoder (Some D) s ?f (dest + (?p + uint (data_size ?f * k))) m1) ?Q" if "k < array_size ?f"
      proof -
        have "buf_stream m1 s" using b ireach_refl same_outside_dom [OF m1(2)] by (rule buf_stream_ireach)
        moreover have "mapped m1 dest sz" using m m1(2) by (simp add: same_outside_mapped)
        ultimately show ?thesis
          using item_decoder.single_safe [OF D fit _ n(1) _ item_inside [OF small data that], of m1 dest] m1(2)
          by (auto simp: dec_post_def elim!: ok_mono intro: same_outside_trans)
      qed
      with False rep k m1 show ?thesis
        by (auto simp: decode_static_field_def f tab Let_def add.assoc not_le)
    qed
  next
    case oneof
    with htype_cases [of "type ?f"] have h: "?h = PB_HTYPE_ONEOF" by simp
    with e static have cnt: "inside sz ?q 4" and room: "inside sz ?p (uint (data_size ?f))"
      by (simp_all add: wf_entry_def Let_def prev_size_def)
    from store_word_inside [OF m, of ?q 4 "tag ?f"] cnt obtain m1 where
      m1: "store_word m (dest + ?q) 4 (tag ?f) = Some m1" "same_outside m m1 dest sz" by (auto simp: ok_conv)
    have m1m: "mapped m1 dest sz" using m m1(2) by (simp add: same_outside_mapped)
    show ?thesis
    proof (cases "PB_LTYPE (type ?f) = PB_LTYPE_SUBMESSAGE")
      case False
      with h single [OF m1(2)] m1(1) show ?thesis by (simp add: decode_static_field_def f tab)
    next
      case True
      obtain sub where sub: "field_ptr ?f = PFields sub" "def_contract defaults sub (uint (data_size ?f))"
        using static_sub [OF e static subs mem True] by metis
      from store_bytes_inside [OF m1m, of ?p "replicate (unat (data_size ?f)) 0"] room obtain m2 where
        m2: "store_bytes m1 (dest + ?p) (replicate (unat (data_size ?f)) 0) = Some m2" "same_outside m1 m2 dest sz"
        by (auto simp: ok_conv)
      have "mapped m2 dest sz" using m1m m2(2) by (simp add: same_outside_mapped)
      from def_contractD [OF sub(2) mapped_inside [OF this room]] obtain m3 where
        m3: "defaults sub (dest + ?p) m2 = Some m3" "same_outside m2 m3 (dest + ?p) (uint (data_size ?f))"
        by (auto simp: ok_conv)
      have "same_outside m m3 dest sz"
        using m1(2) m2(2) same_inside [OF m3(2) room] by (blast intro: same_outside_trans)
      from single [OF this] h True sub m1 m2 m3 tab show ?thesis
        by (simp add: decode_static_field_def f)
    qed
  qed
qed

lemma decode_field_safe:
  assumes wf: "wf_msg (Suc d) fs sz" and pos: "valid_pos fs i" and m: "mapped m dest sz"
    and b: "buf_stream m s" and n: "unat (bytes_left s) \<le> n" "n < fuel"
    and subs: "subs_safe n decode noinit defaults d fs"
  shows "ok (decode_field fuel env (pb_dec_submessage env decode noinit) defaults s wt (iter_at fs dest i) m)
    (\<lambda>(b, s', m'). ireach s s' \<and> same_outside m m' dest sz)"
proof -
  have "PB_ATYPE (type (fs ! i)) = PB_ATYPE_STATIC \<or> PB_ATYPE (type (fs ! i)) = PB_ATYPE_POINTER"
    using wf_msg_entry [OF wf pos] by (simp add: wf_entry_def Let_def)
  then show ?thesis
    using decode_static_safe [OF wf pos m b n _ subs] valid_pos_field [of fs i dest] wf pos
    by (auto simp: decode_field_def decode_pointer_field_def)
qed

section \<open>The loop over the fields\<close>

text \<open>Without extension fields the search for one comes back to where it started.\<close>

definition no_extensions :: "pb_field_t list \<Rightarrow> bool" where
  "no_extensions fs \<longleftrightarrow> (\<forall>i. valid_pos fs i \<longrightarrow> PB_LTYPE (type (fs ! i)) \<noteq> PB_LTYPE_EXTENSION)"

lemma wf_no_extensions: "wf_msg (Suc d) fs sz \<Longrightarrow> no_extensions fs"
  using wf_msg_entry by (fastforce simp: no_extensions_def wf_entry_def Let_def)

lemma find_ext_loop_none:
  assumes wa: "wf_array fs" and x: "no_extensions fs" and start: "start < nfields fs"
  shows "j < nfields fs \<Longrightarrow> length (cyc (nfields fs) start j) \<le> n \<Longrightarrow>
    find_ext_loop n start (iter_at fs dest j) = Some (False, iter_at fs dest start)"
proof (induction n arbitrary: j)
  case 0
  then show ?case using cyc_step [of j "nfields fs" start] start by simp
next
  case (Suc n)
  let ?n = "nfields fs" and ?j' = "cyc_next (nfields fs) j"
  have step: "cyc ?n start j = j # (if ?j' = start then [] else cyc ?n start ?j')"
    using Suc.prems(1) start by (rule cyc_step)
  obtain b where nxt: "pb_field_iter_next (iter_at fs dest j) = Some (b, iter_at fs dest ?j')"
    using iter_next_cyc [OF wa Suc.prems(1)] by blast
  have "?j' < ?n" using Suc.prems(1) by (auto simp: cyc_next_def)
  then show ?case
    using x Suc.prems step nxt Suc.IH [of ?j'] valid_pos_field [OF wa valid_posI [OF Suc.prems(1)], of dest]
    by (auto simp: no_extensions_def)
qed

lemma find_extension_none:
  assumes wa: "wf_array fs" and x: "no_extensions fs" and i: "valid_pos fs i"
  shows "find_extension_field (iter_at fs dest i) = Some (False, iter_at fs dest i)"
  using valid_pos_cases [OF i]
proof
  assume "i < nfields fs"
  then show ?thesis
    using find_ext_loop_none [OF wa x, of i i "length fs" dest] wf_array_length [OF wa]
    by (simp add: find_extension_field_def cyc_def)
next
  assume "nfields fs = 0 \<and> i = 0"
  then show ?thesis
    using wf_array_length [OF wa] iter_next_empty [OF wa, of dest] valid_pos_field [OF wa i, of dest] x
    by (simp add: find_extension_field_def no_extensions_def)
qed

text \<open>The scan to the end of the array counts the required fields.\<close>

lemma req_scan_at:
  assumes wa: "wf_array fs"
  shows "i < nfields fs \<Longrightarrow> nfields fs - i \<le> n \<Longrightarrow> req_scan n (iter_at fs dest i) =
    Some (req_index fs (nfields fs - 1), type (fs ! (nfields fs - 1)), iter_at fs dest 0)"
proof (induction n arbitrary: i)
  case 0
  then show ?case by simp
next
  case (Suc n)
  have f: "it_field (iter_at fs dest i) = Some (fs ! i)" using wa Suc.prems(1) by (simp add: it_field_at)
  show ?case
  proof (cases "Suc i < nfields fs")
    case True
    with Suc show ?thesis by (simp add: f iter_next_at [OF wa])
  next
    case False
    with Suc.prems have "i = nfields fs - 1" by simp
    with False Suc.prems f show ?thesis by (simp add: iter_next_at [OF wa])
  qed
qed

lemma required_present_eq:
  assumes wa: "wf_array fs" and i: "valid_pos fs i"
  shows "required_present (iter_at fs dest i) seen = check_required seen (req_index fs (nfields fs))"
  using valid_pos_cases [OF i]
proof
  assume i: "i < nfields fs"
  then have "req_index fs (nfields fs) = (if PB_HTYPE (type (fs ! (nfields fs - 1))) = PB_HTYPE_REQUIRED
      then Suc (req_index fs (nfields fs - 1)) else req_index fs (nfields fs - 1))"
    using wf_array_length [OF wa] req_index_Suc [of "nfields fs - 1" fs] by simp
  moreover have "tag (fs ! 0) \<noteq> 0" using i wf_array_nth [OF wa, of 0] by simp
  ultimately show ?thesis
    using i req_scan_at [OF wa i, of "length fs" dest] wf_array_length [OF wa] it_field_at [OF wa, of 0 dest]
    by (simp add: required_present_def)
next
  assume e: "nfields fs = 0 \<and> i = 0"
  then have "fs ! 0 = PB_LAST_FIELD" using wf_array_last [OF wa] by simp
  with e show ?thesis
    using wf_array_length [OF wa] iter_next_empty [OF wa, of dest] it_field_at [OF wa, of 0 dest]
    by (simp add: required_present_def req_index_def PB_LAST_FIELD_def)
qed

lemma check_words_ok: "i + n \<le> length seen \<Longrightarrow> ok (check_words seen i n) (\<lambda>_. True)"
  by (induction seen i n rule: check_words.induct) auto

lemma check_required_ok: "req_ok r \<Longrightarrow> length seen = 2 \<Longrightarrow> ok (check_required seen r) (\<lambda>_. True)"
  using check_words_ok [of 0 "r div 32" seen] less_mult_imp_div_less [of r 2 32]
  by (auto simp: check_required_def req_ok_def elim!: ok_mono)

text \<open>The state of the loop: where the iterator can be, and the words of fields seen.\<close>

definition loop_state :: "pb_field_t list \<Rightarrow> ptr \<Rightarrow> pb_field_iter_t \<Rightarrow> u32 list \<Rightarrow> bool" where
  "loop_state fs dest it seen \<longleftrightarrow> (\<exists>i. valid_pos fs i \<and> it = iter_at fs dest i) \<and> length seen = 2"

lemma iter_find_valid:
  assumes wa: "wf_array fs" and i: "valid_pos fs i"
  obtains b j where "pb_field_iter_find (iter_at fs dest i) t = Some (b, iter_at fs dest j)" and "valid_pos fs j"
  using valid_pos_cases [OF i]
proof
  assume i: "i < nfields fs"
  show ?thesis
  proof (cases "find_index fs i t")
    case None
    with i that iter_find_at [OF wa i, of dest t] show ?thesis by auto
  next
    case (Some j)
    then have "j < nfields fs" using find_index_Some [OF Some] i by simp
    with Some that iter_find_at [OF wa i, of dest t] show ?thesis by auto
  qed
next
  assume "nfields fs = 0 \<and> i = 0"
  with that [of "t = 0" 0] iter_find_empty [OF wa, of dest t] show ?thesis by simp
qed

lemma set_seen_ok: "length seen = 2 \<Longrightarrow> i < 64 \<Longrightarrow> ok (set_seen seen i) (\<lambda>seen'. length seen' = 2)"
  by (auto simp: set_seen_def)

lemma decode_loop_safe:
  assumes wa: "wf_array fs" and req: "req_index fs (nfields fs) \<le> 64" and x: "no_extensions fs"
    and field: "\<And>i s m wt. valid_pos fs i \<Longrightarrow> mapped m dest sz \<Longrightarrow> buf_stream m s \<Longrightarrow> unat (bytes_left s) \<le> n \<Longrightarrow>
      ok (dec_field s wt (iter_at fs dest i) m) (\<lambda>(b, s', m'). ireach s s' \<and> same_outside m m' dest sz)"
  shows "loop_state fs dest it seen \<Longrightarrow> mapped m dest sz \<Longrightarrow> buf_stream m s \<Longrightarrow> unat (bytes_left s) \<le> n \<Longrightarrow>
    unat (bytes_left s) < fuel \<Longrightarrow>
    ok (decode_loop fuel env dec_field it seen es s m) (\<lambda>(r, s', m'). ireach s s' \<and> same_outside m m' dest sz \<and>
      (\<forall>it' seen'. r = Some (it', seen') \<longrightarrow> loop_state fs dest it' seen'))"
proof (induction fuel arbitrary: it seen es s m)
  case 0
  then show ?case by simp
next
  case (Suc fuel)
  let ?Q = "\<lambda>s m (r, s', m'). ireach s s' \<and> same_outside m m' dest sz \<and>
      (\<forall>it' seen'. r = Some (it', seen') \<longrightarrow> loop_state fs dest it' seen')"
  obtain i where i: "valid_pos fs i" "it = iter_at fs dest i" and seen: "length seen = 2"
    using Suc.prems(1) by (auto simp: loop_state_def)
  from decode_tag_reads [OF Suc.prems(3), of env] obtain tr s1 where
    tag: "pb_decode_tag env s m = Some (tr, s1, m)" and s1: "ireach s s1"
    and Tag: "\<And>wt t. tr = Tag wt t \<Longrightarrow> bytes_left s1 < bytes_left s \<and> t < 0xFFFFFFFF"
    by (auto simp: ok_conv)
  have again: "ok (decode_loop fuel env dec_field (iter_at fs dest j) seen' es' s2 m2) (?Q s m)"
    if "valid_pos fs j" "length seen' = 2" "ireach s1 s2" "same_outside m m2 dest sz" "bytes_left s1 < bytes_left s"
    for j seen' es' s2 m2
  proof -
    have s2: "ireach s s2" using s1 that(3) by (rule ireach_trans)
    have "unat (bytes_left s2) < unat (bytes_left s)"
      using ireach_left [OF that(3)] that(5) by (simp add: word_less_nat_alt word_le_nat_alt)
    moreover have "buf_stream m2 s2" using Suc.prems(3) s2 same_outside_dom [OF that(4)] by (rule buf_stream_ireach)
    moreover have "mapped m2 dest sz" using Suc.prems(2) that(4) by (simp add: same_outside_mapped)
    ultimately have "ok (decode_loop fuel env dec_field (iter_at fs dest j) seen' es' s2 m2) (?Q s2 m2)"
      using that(1,2) Suc.prems(4,5) by (intro Suc.IH) (auto simp: loop_state_def)
    then show ?thesis
      using s2 that(4) by (auto elim!: ok_mono intro: ireach_trans same_outside_trans)
  qed
  show ?case
  proof (cases tr)
    case (No_tag eof)
    with tag s1 seen i show ?thesis by (auto simp: loop_state_def)
  next
    case (Tag wt t)
    with \<open>\<And>wt t. tr = Tag wt t \<Longrightarrow> bytes_left s1 < bytes_left s \<and> t < 0xFFFFFFFF\<close>
    have less: "bytes_left s1 < bytes_left s" and t: "t < 0xFFFFFFFF" by simp_all
    have b1: "buf_stream m s1" using Suc.prems(3) s1 refl by (rule buf_stream_ireach)
    have n1: "unat (bytes_left s1) \<le> n" "unat (bytes_left s1) < fuel"
      using less Suc.prems(4,5) by (simp_all add: word_less_nat_alt)
    obtain found j where find: "pb_field_iter_find (iter_at fs dest i) t = Some (found, iter_at fs dest j)"
      and j: "valid_pos fs j" by (rule iter_find_valid [OF wa i(1)])
    show ?thesis
    proof (cases found)
      case True
      let ?seen = "if PB_HTYPE (type (fs ! j)) = PB_HTYPE_REQUIRED \<and> req_index fs j < PB_MAX_REQUIRED_FIELDS
                 then set_seen seen (req_index fs j) else Some seen"
      have "ok ?seen (\<lambda>seen'. length seen' = 2)" using set_seen_ok [OF seen, of "req_index fs j"] seen by simp
      then obtain seen' where seen': "?seen = Some seen'" "length seen' = 2" by (auto simp only: ok_conv)
      from field [OF j Suc.prems(2) b1 n1(1), of wt] obtain b s2 m2 where
        d: "dec_field s1 wt (iter_at fs dest j) m = Some (b, s2, m2)" "ireach s1 s2" "same_outside m m2 dest sz"
        by (auto simp: ok_conv)
      have "ok (decode_loop (Suc fuel) env dec_field it seen es s m) (?Q s m) \<longleftrightarrow>
          ok (if \<not> b then Some (None, s2, m2) else decode_loop fuel env dec_field (iter_at fs dest j) seen' es s2 m2) (?Q s m)"
        if "bytes_left s \<noteq> 0"
        using that True seen'(1) d(1)
        by (auto simp: tag Tag i(2) find valid_pos_field [OF wa j] split: if_split_asm)
      then show ?thesis using again [OF j seen'(2) d(2,3) less] d s1 i seen
        by (cases "bytes_left s = 0") (auto simp: loop_state_def intro: ireach_trans)
    next
      case False
      from skip_field_skips [OF b1 n1(2), of env wt] obtain b s2 where
        sk: "pb_skip_field fuel env s1 wt m = Some (b, s2, m)" "ireach s1 s2"
        by (auto simp: skips_def ok_conv)
      have "\<not> 0xFFFFFFFF \<le> t" using t by (simp add: not_le)
      then show ?thesis
        using False again [OF j seen sk(2) same_outside_refl less] sk s1 i seen
        by (cases "bytes_left s = 0")
          (auto simp: tag Tag find find_extension_none [OF wa x j] valid_pos_field [OF wa j] Let_def
            loop_state_def intro: ireach_trans)
    qed
  qed
qed

section \<open>Messages\<close>

lemma noinit_step:
  assumes wf: "wf_msg (Suc d) fs sz" and n: "n < fuel"
    and subs: "subs_safe n (\<lambda>s fs dest m. do { m' \<leftarrow> pb_message_set_to_defaults fuel env fs dest m; pb_decode_noinit fuel env s fs dest m' })
      (pb_decode_noinit fuel env) (pb_message_set_to_defaults fuel env) d fs"
  shows "msg_contract n (pb_decode_noinit (Suc fuel) env) fs sz"
  unfolding msg_contract_def
proof (intro allI impI, elim conjE)
  fix s dest m assume b: "buf_stream m s" and s: "unat (bytes_left s) \<le> n" and m: "mapped m dest sz"
  have wa: "wf_array fs" and req: "req_ok (req_index fs (nfields fs))" using wf by simp_all
  note x = wf_no_extensions [OF wf]
  let ?D = "decode_field fuel env (pb_dec_submessage env
      (\<lambda>s fs dest m. do { m' \<leftarrow> pb_message_set_to_defaults fuel env fs dest m; pb_decode_noinit fuel env s fs dest m' })
      (pb_decode_noinit fuel env)) (pb_message_set_to_defaults fuel env)"
  have "ok (decode_loop fuel env ?D (iter_at fs dest 0) [0, 0] 0 s m)
      (\<lambda>(r, s', m'). ireach s s' \<and> same_outside m m' dest sz \<and>
        (\<forall>it' seen'. r = Some (it', seen') \<longrightarrow> loop_state fs dest it' seen'))"
    using req b s m n
    by (intro decode_loop_safe [OF wa _ x, where n = n] decode_field_safe [OF wf _ _ _ _ n subs])
      (auto simp: req_ok_def loop_state_def intro: exI [of _ 0])
  then obtain r s1 m1 where loop: "decode_loop fuel env ?D (iter_at fs dest 0) [0, 0] 0 s m = Some (r, s1, m1)"
    and r: "ireach s s1" "same_outside m m1 dest sz"
    and st: "\<And>it' seen'. r = Some (it', seen') \<Longrightarrow> loop_state fs dest it' seen'" by (auto simp: ok_conv)
  show "ok (pb_decode_noinit (Suc fuel) env s fs dest m) (\<lambda>(b, s', m'). ireach s s' \<and> same_outside m m' dest sz)"
  proof (cases r)
    case None
    with r show ?thesis by (simp add: iter_begin_at [OF wa] Let_def loop)
  next
    case (Some p)
    then obtain i seen where p: "p = (iter_at fs dest i, seen)" and i: "valid_pos fs i" and l: "length seen = 2"
      using st [of "fst p" "snd p"] by (cases p) (auto simp: loop_state_def)
    from check_required_ok [OF req l] obtain c where c: "check_required seen (req_index fs (nfields fs)) = Some c"
      by (auto simp: ok_conv)
    with Some p r show ?thesis
      by (simp add: iter_begin_at [OF wa] Let_def loop required_present_eq [OF wa i])
  qed
qed

lemma decode_noinit_contract:
  "wf_msg d fs sz \<Longrightarrow> n + msg_fuel d fs < fuel \<Longrightarrow> msg_contract n (pb_decode_noinit fuel env) fs sz"
proof (induction d arbitrary: fs sz fuel)
  case 0
  then show ?case by simp
next
  case (Suc d)
  obtain k where fuel: "fuel = Suc k" and k: "n + msg_fuel (Suc d) fs \<le> k" using Suc.prems(2) by (cases fuel) auto
  have sub: "msg_contract n (pb_decode_noinit k env) sub k' \<and>
      def_contract (pb_message_set_to_defaults k env) sub k'"
    if "f \<in> set fs" "field_ptr f = PFields sub" "wf_msg d sub k'" for f sub k'
    using msg_fuel_sub [OF that(1,2), of d] k that(3)
    by (intro conjI Suc.IH message_defaults_safe) auto
  have both: "msg_contract n (\<lambda>s fs dest m. do { m' \<leftarrow> pb_message_set_to_defaults k env fs dest m; pb_decode_noinit k env s fs dest m' }) sub k'"
    if c: "msg_contract n (pb_decode_noinit k env) sub k'" "def_contract (pb_message_set_to_defaults k env) sub k'" for sub k'
    unfolding msg_contract_def
  proof (intro allI impI, elim conjE)
    fix s dest m assume b: "buf_stream m s" and s: "unat (bytes_left s) \<le> n" and m: "mapped m dest k'"
    from def_contractD [OF c(2) m] obtain m1 where
      m1: "pb_message_set_to_defaults k env sub dest m = Some m1" "same_outside m m1 dest k'" by (auto simp: ok_conv)
    have "buf_stream m1 s" using b ireach_refl same_outside_dom [OF m1(2)] by (rule buf_stream_ireach)
    from msg_contractD [OF c(1) this s, of dest] m m1
    show "ok (do { m' \<leftarrow> pb_message_set_to_defaults k env sub dest m; pb_decode_noinit k env s sub dest m' })
        (\<lambda>(b, s', m'). ireach s s' \<and> same_outside m m' dest k')"
      by (auto simp: same_outside_mapped elim!: ok_mono intro: same_outside_trans)
  qed
  show ?case unfolding fuel
    using k sub both by (intro noinit_step [OF Suc.prems(1)]) (auto simp: subs_safe_def)
qed

lemma decode_contract:
  assumes "wf_msg d fs sz" and "n + msg_fuel d fs < fuel"
  shows "msg_contract n (pb_decode fuel env) fs sz"
  unfolding msg_contract_def pb_decode_def
proof (intro allI impI, elim conjE)
  fix s dest m assume b: "buf_stream m s" and s: "unat (bytes_left s) \<le> n" and m: "mapped m dest sz"
  from def_contractD [OF message_defaults_safe [OF assms(1)] m, of fuel env] assms(2) obtain m1 where
    m1: "pb_message_set_to_defaults fuel env fs dest m = Some m1" "same_outside m m1 dest sz" by (auto simp: ok_conv)
  have "buf_stream m1 s" using b ireach_refl same_outside_dom [OF m1(2)] by (rule buf_stream_ireach)
  from msg_contractD [OF decode_noinit_contract [OF assms] this s, of dest env] m m1
  show "ok (do { m' \<leftarrow> pb_message_set_to_defaults fuel env fs dest m; pb_decode_noinit fuel env s fs dest m' })
      (\<lambda>(b, s', m'). ireach s s' \<and> same_outside m m' dest sz)"
    by (auto simp: same_outside_mapped elim!: ok_mono intro: same_outside_trans)
qed

end
