(* ===== verification/PbOStream.thy ===== *)
theory PbOStream
  imports PbIter PbVarint
begin

text \<open>
  Output streams and the primitive writers (pb_encode.c): writing to a buffer, a user
  callback or a sizing stream, varints, tags, fixed-width values and strings.
\<close>

section \<open>Writing\<close>

text \<open>What is written: a null pointer, a local array of the caller, or bytes in memory.\<close>

datatype write_src = SNull | SLocal "byte list" | SMem ptr

fun src_bytes :: "write_src \<Rightarrow> nat \<Rightarrow> mem \<Rightarrow> byte list option" where
  "src_bytes SNull n m = (if n = 0 then Some [] else None)"
| "src_bytes (SLocal bs) n m = (if n \<le> length bs then Some (take n bs) else None)"
| "src_bytes (SMem p) n m = load_bytes m p n"

definition buf_write :: "pb_ostream_t \<Rightarrow> write_src \<Rightarrow> u64 \<Rightarrow> mem \<Rightarrow> (bool \<times> pb_ostream_t \<times> mem) option" where
  "buf_write s buf count m =
     (let dest = o_state s; s' = s\<lparr>o_state := o_state s + uint count\<rparr>
      in case buf of
           SMem p \<Rightarrow> do { m' \<leftarrow> copy_bytes m p dest (unat count); Some (True, s', m') }
         | _ \<Rightarrow> do { bs \<leftarrow> src_bytes buf (unat count) m; m' \<leftarrow> store_bytes m dest bs; Some (True, s', m') })"

definition pb_ostream_from_buffer :: "ptr \<Rightarrow> u64 \<Rightarrow> pb_ostream_t" where
  "pb_ostream_from_buffer buf bufsize =
     \<lparr>o_callback = Buf_write, o_state = buf, max_size = bufsize, bytes_written = 0, o_errmsg = None\<rparr>"

text \<open>\<open>PB_OSTREAM_SIZING\<close>: all members zero.\<close>

definition PB_OSTREAM_SIZING :: pb_ostream_t where
  "PB_OSTREAM_SIZING =
     \<lparr>o_callback = Sizing, o_state = 0, max_size = 0, bytes_written = 0, o_errmsg = None\<rparr>"

definition call_write :: "pb_env \<Rightarrow> pb_ostream_t \<Rightarrow> write_src \<Rightarrow> u64 \<Rightarrow> mem \<Rightarrow> (bool \<times> pb_ostream_t \<times> mem) option" where
  "call_write env s buf count m =
     (case o_callback s of
        Sizing \<Rightarrow> None
      | Buf_write \<Rightarrow> buf_write s buf count m
      | User_write f \<Rightarrow> do { fn \<leftarrow> write_fn env f; bs \<leftarrow> src_bytes buf (unat count) m; fn s bs m })"

text \<open>\<open>pb_write\<close>; the sum in the size check is taken in \<open>size_t\<close>.\<close>

definition pb_write :: "pb_env \<Rightarrow> pb_ostream_t \<Rightarrow> write_src \<Rightarrow> u64 \<Rightarrow> mem \<Rightarrow> (bool \<times> pb_ostream_t \<times> mem) option" where
  "pb_write env s buf count m =
     (if o_callback s \<noteq> Sizing then
        if bytes_written s + count > max_size s then Some (False, o_set_error s ''stream full'', m)
        else do {
          (b, s', m') \<leftarrow> call_write env s buf count m;
          if \<not> b then Some (False, o_set_error s' ''io error'', m')
          else Some (True, s'\<lparr>bytes_written := bytes_written s' + count\<rparr>, m')
        }
      else Some (True, s\<lparr>bytes_written := bytes_written s + count\<rparr>, m))"

section \<open>Varints, tags, fixed-width values and strings\<close>

text \<open>
  The loop that fills \<open>buffer[10]\<close>; a write past its end would be undefined behaviour.
\<close>

function varint_fill :: "u64 \<Rightarrow> byte list \<Rightarrow> byte list option" where
  "varint_fill value buffer =
     (if value = 0 then Some buffer
      else if 10 \<le> length buffer then None
      else varint_fill (drop_bit 7 value) (buffer @ [ucast ((value AND 0x7F) OR 0x80)]))"
  by pat_completeness auto
termination by (relation "measure (\<lambda>(value, buffer). 10 - length buffer)") auto

declare varint_fill.simps [simp del]

definition pb_encode_varint :: "pb_env \<Rightarrow> pb_ostream_t \<Rightarrow> u64 \<Rightarrow> mem \<Rightarrow> (bool \<times> pb_ostream_t \<times> mem) option" where
  "pb_encode_varint env s value m =
     (if value \<le> 0x7F then pb_write env s (SLocal [ucast value]) 1 m
      else do {
        buffer \<leftarrow> varint_fill value [];
        let i = length buffer;
        pb_write env s (SLocal (buffer[i - 1 := buffer ! (i - 1) AND 0x7F])) (of_nat i) m
      })"

text \<open>An \<open>int64_t\<close> is the word with its bits; it is negative when \<open>sint\<close> is.\<close>

definition zigzag :: "u64 \<Rightarrow> u64" where
  "zigzag value = (if sint value < 0 then NOT (push_bit 1 value) else push_bit 1 value)"

definition pb_encode_svarint :: "pb_env \<Rightarrow> pb_ostream_t \<Rightarrow> u64 \<Rightarrow> mem \<Rightarrow> (bool \<times> pb_ostream_t \<times> mem) option" where
  "pb_encode_svarint env s value m = pb_encode_varint env s (zigzag value) m"

definition pb_encode_fixed32 :: "pb_env \<Rightarrow> pb_ostream_t \<Rightarrow> ptr \<Rightarrow> mem \<Rightarrow> (bool \<times> pb_ostream_t \<times> mem) option" where
  "pb_encode_fixed32 env s value m = do {
     (val :: u32) \<leftarrow> load_word m value 4;
     pb_write env s (SLocal [ucast (val AND 0xFF), ucast (drop_bit 8 val AND 0xFF),
       ucast (drop_bit 16 val AND 0xFF), ucast (drop_bit 24 val AND 0xFF)]) 4 m
   }"

definition pb_encode_fixed64 :: "pb_env \<Rightarrow> pb_ostream_t \<Rightarrow> ptr \<Rightarrow> mem \<Rightarrow> (bool \<times> pb_ostream_t \<times> mem) option" where
  "pb_encode_fixed64 env s value m = do {
     (val :: u64) \<leftarrow> load_word m value 8;
     pb_write env s (SLocal [ucast (val AND 0xFF), ucast (drop_bit 8 val AND 0xFF),
       ucast (drop_bit 16 val AND 0xFF), ucast (drop_bit 24 val AND 0xFF),
       ucast (drop_bit 32 val AND 0xFF), ucast (drop_bit 40 val AND 0xFF),
       ucast (drop_bit 48 val AND 0xFF), ucast (drop_bit 56 val AND 0xFF)]) 8 m
   }"

definition pb_encode_tag :: "pb_env \<Rightarrow> pb_ostream_t \<Rightarrow> pb_wire_type_t \<Rightarrow> u32 \<Rightarrow> mem \<Rightarrow> (bool \<times> pb_ostream_t \<times> mem) option" where
  "pb_encode_tag env s wiretype field_number m =
     pb_encode_varint env s (push_bit 3 (ucast field_number) OR ucast wiretype) m"

text \<open>The wire type of a field's type, if it has one.\<close>

definition wiretype_of :: "byte \<Rightarrow> pb_wire_type_t option" where
  "wiretype_of lt =
     (if lt = PB_LTYPE_VARINT \<or> lt = PB_LTYPE_UVARINT \<or> lt = PB_LTYPE_SVARINT then Some PB_WT_VARINT
      else if lt = PB_LTYPE_FIXED32 then Some PB_WT_32BIT
      else if lt = PB_LTYPE_FIXED64 then Some PB_WT_64BIT
      else if lt = PB_LTYPE_BYTES \<or> lt = PB_LTYPE_STRING \<or> lt = PB_LTYPE_SUBMESSAGE
        \<or> lt = PB_LTYPE_FIXED_LENGTH_BYTES then Some PB_WT_STRING
      else None)"

definition pb_encode_tag_for_field :: "pb_env \<Rightarrow> pb_ostream_t \<Rightarrow> pb_field_t \<Rightarrow> mem \<Rightarrow> (bool \<times> pb_ostream_t \<times> mem) option" where
  "pb_encode_tag_for_field env s field m =
     (case wiretype_of (PB_LTYPE (type field)) of
        None \<Rightarrow> Some (False, o_set_error s ''invalid field type'', m)
      | Some wiretype \<Rightarrow> pb_encode_tag env s wiretype (tag field) m)"

definition pb_encode_string :: "pb_env \<Rightarrow> pb_ostream_t \<Rightarrow> write_src \<Rightarrow> u64 \<Rightarrow> mem \<Rightarrow> (bool \<times> pb_ostream_t \<times> mem) option" where
  "pb_encode_string env s buffer sz m = do {
     (b, s', m') \<leftarrow> pb_encode_varint env s sz m;
     if \<not> b then Some (False, s', m') else pb_write env s' buffer sz m'
   }"

section \<open>The bytes of a varint\<close>

text \<open>The bytes \<open>pb_encode_varint\<close> writes, without the stream.\<close>

definition varint_bytes :: "u64 \<Rightarrow> byte list" where
  "varint_bytes value =
     (if value \<le> 0x7F then [ucast value]
      else case varint_fill value [] of
        None \<Rightarrow> []
      | Some buffer \<Rightarrow> buffer[length buffer - 1 := buffer ! (length buffer - 1) AND 0x7F])"

text \<open>The groups of seven bits, least significant first.\<close>

fun groups7 :: "nat \<Rightarrow> u64 \<Rightarrow> byte list" where
  "groups7 0 value = []"
| "groups7 (Suc n) value = (if value = 0 then [] else ucast ((value AND 0x7F) OR 0x80) # groups7 n (drop_bit 7 value))"

lemma unat_drop_bit_7: "unat (drop_bit 7 (v :: u64)) = unat v div 128"
proof -
  have "unat (drop_bit 7 v) = drop_bit 7 (unat v)" by (rule unat_drop_bit_eq)
  also have "\<dots> = unat v div 2 ^ 7" by (rule drop_bit_eq_div)
  finally show ?thesis by simp
qed

lemma groups7_enough: "unat v < 128 ^ n \<Longrightarrow> length bs + n \<le> 10 \<Longrightarrow>
    varint_fill v bs = Some (bs @ groups7 n v)"
proof (induction n arbitrary: v bs)
  case 0
  then have "v = 0" by (simp add: unat_eq_zero)
  then show ?case by (simp add: varint_fill.simps [of 0 bs])
next
  case (Suc n)
  show ?case
  proof (cases "v = 0")
    case True
    then show ?thesis by (simp add: varint_fill.simps [of 0 bs])
  next
    case False
    have "unat (drop_bit 7 v) < 128 ^ n"
      using Suc.prems(1) by (simp add: unat_drop_bit_7 less_mult_imp_div_less mult.commute)
    from Suc.IH [OF this, of "bs @ [ucast ((v AND 0x7F) OR 0x80)]"] Suc.prems(2) False
    show ?thesis by (simp add: varint_fill.simps [of v bs])
  qed
qed

lemma varint_fill_ten: "varint_fill v [] = Some (groups7 10 v)"
proof -
  have "unat v < 2 ^ 64" using unsigned_less [of v, where ?'a = nat] by simp
  also have "\<dots> < 128 ^ 10" by simp
  finally show ?thesis using groups7_enough [of v 10 "[]"] by simp
qed

lemma length_groups7: "length (groups7 n v) \<le> n"
  by (induction n v rule: groups7.induct) auto

lemma group7_and_7F:
  "(ucast ((v AND 0x7F) OR 0x80 :: u64) :: byte) AND 0x7F = ucast (take_bit 7 v)"
  by (rule bit_word_eqI) (auto simp: bits_7F_80 simp del: bit_numeral_word_iff)

lemma group7_and_80: "(ucast ((v AND 0x7F) OR 0x80 :: u64) :: byte) AND 0x80 \<noteq> 0"
proof
  assume "(ucast ((v AND 0x7F) OR 0x80 :: u64) :: byte) AND 0x80 = 0"
  then have "\<not> bit ((ucast ((v AND 0x7F) OR 0x80 :: u64) :: byte) AND 0x80) 7" by simp
  then show False by (simp only: bits_7F_80) simp
qed

lemma unat_take_bit_7: "unat (ucast (take_bit 7 (v :: u64)) :: byte) = unat v mod 128"
proof -
  have "unat (ucast (take_bit 7 v) :: byte) = take_bit 8 (take_bit 7 (unat v))"
    by (simp only: unsigned_ucast_eq unsigned_take_bit_eq) simp
  also have "\<dots> = take_bit 7 (unat v)" by simp
  also have "\<dots> = unat v mod 2 ^ 7" by (rule take_bit_eq_mod)
  finally show ?thesis by simp
qed

lemma group7_value: "unat ((ucast ((v AND 0x7F) OR 0x80 :: u64) :: byte) AND 0x7F) = unat v mod 128"
  by (simp only: group7_and_7F unat_take_bit_7)

lemma clear_top_and:
  "(b AND 0x7F) AND 0x7F = (b AND 0x7F :: byte)" "(b AND 0x7F) AND 0x80 = (0 :: byte)"
  by (simp_all add: and.assoc)

text \<open>Clearing the top bit of the last group gives a well-shaped list with the value of the word.\<close>

definition clear_last :: "byte list \<Rightarrow> byte list" where
  "clear_last gs = butlast gs @ [last gs AND 0x7F]"

lemma clear_last_update: "gs \<noteq> [] \<Longrightarrow> gs[length gs - 1 := gs ! (length gs - 1) AND 0x7F] = clear_last gs"
  by (cases gs rule: rev_cases) (simp_all add: clear_last_def)

lemma groups7_shape:
  "v \<noteq> 0 \<Longrightarrow> unat v < 128 ^ n \<Longrightarrow>
   groups7 n v \<noteq> [] \<and> varint_shape (clear_last (groups7 n v)) \<and> base128 (clear_last (groups7 n v)) = unat v"
proof (induction n arbitrary: v)
  case 0
  then show ?case by (simp add: unat_eq_zero)
next
  case (Suc n)
  let ?b = "ucast ((v AND 0x7F) OR 0x80 :: u64) :: byte" and ?w = "drop_bit 7 v"
  have w: "unat ?w < 128 ^ n"
    using Suc.prems(2) by (simp add: unat_drop_bit_7 less_mult_imp_div_less mult.commute)
  have g: "groups7 (Suc n) v = ?b # groups7 n ?w" using Suc.prems(1) by simp
  have split: "unat v = unat v mod 128 + 128 * unat ?w" by (simp add: unat_drop_bit_7)
  show ?case
  proof (cases "?w = 0")
    case True
    then have "groups7 n ?w = []" by (cases n) simp_all
    moreover have "unat v mod 128 = unat v" using split True by simp
    ultimately show ?thesis
      using group7_value [of v] by (simp only: g) (simp add: clear_top_and clear_last_def)
  next
    case False
    from Suc.IH [OF False w] have ih: "groups7 n ?w \<noteq> []"
      "varint_shape (clear_last (groups7 n ?w))" "base128 (clear_last (groups7 n ?w)) = unat ?w" by auto
    have "clear_last (?b # groups7 n ?w) = ?b # clear_last (groups7 n ?w)"
      using ih(1) by (simp add: clear_last_def)
    moreover have "clear_last (groups7 n ?w) \<noteq> []" by (simp add: clear_last_def)
    ultimately show ?thesis
      using ih group7_value [of v] group7_and_80 [of v] split by (simp only: g) simp
  qed
qed

lemma varint_bytes_big: "\<not> v \<le> 0x7F \<Longrightarrow> varint_bytes v = clear_last (groups7 10 v)"
proof -
  assume v: "\<not> v \<le> 0x7F"
  then have "groups7 10 v \<noteq> []" using groups7_shape [of v 10] unsigned_less [of v, where ?'a = nat] by fastforce
  with v show ?thesis by (simp add: varint_bytes_def varint_fill_ten clear_last_update [simplified])
qed

lemma varint_bytes_shape:
  "varint_shape (varint_bytes v) \<and> base128 (varint_bytes v) = unat v \<and> length (varint_bytes v) \<le> 10"
proof (cases "v \<le> 0x7F")
  case True
  then have small: "unat v \<le> 127" by (simp add: word_le_nat_alt)
  have "take_bit 7 v = v"
  proof -
    have "unat (take_bit 7 v) = take_bit 7 (unat v)" by (rule unsigned_take_bit_eq)
    also have "\<dots> = unat v" using small by (simp add: take_bit_nat_eq_self)
    finally show ?thesis by (simp add: word_unat_eq_iff)
  qed
  then have "(ucast v :: byte) = (ucast ((v AND 0x7F) OR 0x80 :: u64) :: byte) AND 0x7F"
    by (simp only: group7_and_7F)
  then have "(ucast v :: byte) AND 0x80 = 0" "unat ((ucast v :: byte) AND 0x7F) = unat v"
    using small unat_take_bit_7 [of v] by (simp_all add: clear_top_and group7_value)
  with True show ?thesis by (simp add: varint_bytes_def)
next
  case False
  then have "v \<noteq> 0" by auto
  moreover have "unat v < 128 ^ 10" using unsigned_less [of v, where ?'a = nat] by simp
  ultimately show ?thesis
    using False groups7_shape [of v 10] length_groups7 [of 10 v]
    by (simp add: varint_bytes_big) (simp add: clear_last_def)
qed

lemma pb_encode_varint_write:
  "pb_encode_varint env s v m = pb_write env s (SLocal (varint_bytes v)) (of_nat (length (varint_bytes v))) m"
  by (simp add: pb_encode_varint_def varint_bytes_def varint_fill_ten Let_def)

text \<open>What the reference parser makes of the bytes of a varint.\<close>

lemma parse_varint_bytes: "parse_varint 0 (0 :: u64) (varint_bytes v @ rest) = (Inr v, length (varint_bytes v))"
proof -
  have "length (varint_bytes v) \<le> 10" using varint_bytes_shape [of v] by simp
  then have "7 * (length (varint_bytes v) - 1) \<le> 7 * 9" by (intro mult_le_mono2) simp
  then have "0 + 7 * (length (varint_bytes v) - 1) < LENGTH(64)" by simp
  from parse_varint_shape [OF _ this, of 0 rest] varint_bytes_shape [of v] show ?thesis by simp
qed

end
