(* ===== verification/PbReadProps.thy ===== *)
theory PbReadProps
  imports PbReaders PbOStream
begin

text \<open>
  What the readers do on a buffer, in terms of its content: which byte strings are varints and
  with which value, how the 32-bit reader differs from the 64-bit one, how many bytes a skipped
  field takes, and how a length-limited substream divides its parent. The bytes
  at \<open>ex_at\<close> are the concrete buffers of the witnesses.
\<close>

definition ex_mem :: "ptr \<Rightarrow> byte list \<Rightarrow> mem" where
  "ex_mem p bs = (\<lambda>a. if p \<le> a \<and> a < p + int (length bs) then Some (bs ! nat (a - p)) else None)"

definition ex_stream :: "ptr \<Rightarrow> byte list \<Rightarrow> pb_istream_t" where
  "ex_stream p bs = pb_istream_from_buffer p (of_nat (length bs))"

lemma ex_content:
  assumes "length bs < 2 ^ 64"
  shows "buf_content (ex_mem p bs) (ex_stream p bs) = Some bs"
proof -
  have "unat (of_nat (length bs) :: u64) = length bs" using assms by (simp add: unat_of_nat)
  then show ?thesis
    by (simp add: buf_content_def ex_stream_def pb_istream_from_buffer_def load_bytes_iff ex_mem_def)
qed

text \<open>A buffer \<open>xs\<close> at \<open>p\<close> and an object \<open>ys\<close> at \<open>q\<close>.\<close>

definition ex_mem2 :: "ptr \<Rightarrow> byte list \<Rightarrow> ptr \<Rightarrow> byte list \<Rightarrow> mem" where
  "ex_mem2 p xs q ys = (\<lambda>a. if p \<le> a \<and> a < p + int (length xs) then ex_mem p xs a else ex_mem q ys a)"

lemma ex_content2: "length bs < 2 ^ 64 \<Longrightarrow> buf_content (ex_mem2 p bs q ys) (ex_stream p bs) = Some bs"
proof -
  assume "length bs < 2 ^ 64"
  from ex_content [OF this, of p] have "load_bytes (ex_mem p bs) p (unat (of_nat (length bs) :: u64)) = Some bs"
    by (simp add: buf_content_def ex_stream_def pb_istream_from_buffer_def)
  moreover have "unat (of_nat (length bs) :: u64) = length bs" using \<open>length bs < 2 ^ 64\<close> by (simp add: unat_of_nat)
  moreover have "load_bytes (ex_mem2 p bs q ys) p (length bs) = load_bytes (ex_mem p bs) p (length bs)"
    by (rule load_bytes_cong) (simp add: ex_mem2_def)
  ultimately show ?thesis by (simp add: buf_content_def ex_stream_def pb_istream_from_buffer_def)
qed

lemma ex_mapped2: "n \<le> int (length ys) \<Longrightarrow> mapped (ex_mem2 p xs q ys) q n"
  by (auto simp: mapped_def ex_mem2_def ex_mem_def dom_def)

lemma ex_state: "i_state (ex_stream p bs) = p"
  by (simp add: ex_stream_def pb_istream_from_buffer_def)

section \<open>Varints\<close>

lemma shape_prefix_unique:
  "varint_shape (take k bs) \<Longrightarrow> varint_shape (take j bs) \<Longrightarrow> k \<le> length bs \<Longrightarrow> j \<le> length bs \<Longrightarrow> k = j"
proof (induction bs arbitrary: k j)
  case Nil
  then show ?case by simp
next
  case (Cons b bs)
  then show ?case by (cases k; cases j) (auto split: if_splits)
qed

lemma parse_varint_iff:
  "parse_varint 0 (0 :: 'a::len word) bs = (Inr v, k) \<longleftrightarrow>
     0 < k \<and> k \<le> length bs \<and> varint_shape (take k bs) \<and> 7 * (k - 1) < LENGTH('a) \<and> v = of_nat (base128 (take k bs))"
    (is "?l \<longleftrightarrow> ?r")
proof
  assume ?l
  from parse_varint_Inr [OF this] show ?r by simp
next
  assume r: ?r
  then have "parse_varint 0 (0 :: 'a word) (take k bs @ drop k bs) =
      (Inr (0 + of_nat (2 ^ 0 * base128 (take k bs))), length (take k bs))"
    by (intro parse_varint_shape) auto
  with r show ?l by simp
qed

text \<open>
  C30: The 64-bit reader accepts exactly the byte strings of at most ten bytes with the
  continuation bit on every byte but the last; it returns the base-128 number they stand for,
  modulo \<open>2 ^ 64\<close>, leaves the stream right behind them and changes nothing else.
\<close>

theorem decode_varint_exact:
  assumes "buf_content m s = Some bs"
  shows "pb_decode_varint env s m = Some (Some v, s', m') \<longleftrightarrow>
    m' = m \<and> (\<exists>k. 0 < k \<and> k \<le> length bs \<and> k \<le> 10 \<and> varint_shape (take k bs) \<and>
      v = of_nat (base128 (take k bs)) \<and> s' = buf_advance s k)"
proof -
  obtain r k where p: "parse_varint 0 (0 :: u64) bs = (r, k)" by fastforce
  have k10: "7 * (j - 1) < LENGTH(64) \<longleftrightarrow> j \<le> 10" for j by auto
  show ?thesis
  proof (cases r)
    case (Inl e)
    then have "\<not> (0 < j \<and> j \<le> length bs \<and> j \<le> 10 \<and> varint_shape (take j bs))" for j
      using p parse_varint_iff [of bs "of_nat (base128 (take j bs)) :: u64" j] by (auto simp: k10)
    then show ?thesis using Inl p by (auto simp: buf.decode_varint_parse [OF assms])
  next
    case (Inr w)
    with p have "parse_varint 0 (0 :: u64) bs = (Inr w, k)" by simp
    then have "0 < k \<and> k \<le> length bs \<and> varint_shape (take k bs) \<and> 7 * (k - 1) < LENGTH(64) \<and> w = of_nat (base128 (take k bs))"
      by (simp only: parse_varint_iff)
    then have w: "0 < k" "k \<le> length bs" "k \<le> 10" "varint_shape (take k bs)" "w = of_nat (base128 (take k bs))"
      using k10 [of k] by blast+
    have run: "pb_decode_varint env s m = Some (Some w, buf_advance s k, m)"
      using Inr p by (simp add: buf.decode_varint_parse [OF assms])
    have uniq: "varint_shape (take j bs) \<Longrightarrow> j \<le> length bs \<Longrightarrow> j = k" for j
      using shape_prefix_unique [of j bs k] w by blast
    show ?thesis unfolding run
    proof
      assume "Some (Some w, buf_advance s k, m) = Some (Some v, s', m')"
      with w show "m' = m \<and> (\<exists>k. 0 < k \<and> k \<le> length bs \<and> k \<le> 10 \<and> varint_shape (take k bs) \<and>
          v = of_nat (base128 (take k bs)) \<and> s' = buf_advance s k)" by blast
    next
      assume "m' = m \<and> (\<exists>k. 0 < k \<and> k \<le> length bs \<and> k \<le> 10 \<and> varint_shape (take k bs) \<and>
          v = of_nat (base128 (take k bs)) \<and> s' = buf_advance s k)"
      with uniq w(5) show "Some (Some w, buf_advance s k, m) = Some (Some v, s', m')" by blast
    qed
  qed
qed

theorem decode_varint_exact_witness:
  "pb_decode_varint no_user (ex_stream 8 [0x96, 0x01, 0xFF]) (ex_mem 8 [0x96, 0x01, 0xFF]) =
     Some (Some 150, buf_advance (ex_stream 8 [0x96, 0x01, 0xFF]) 2, ex_mem 8 [0x96, 0x01, 0xFF])"
proof -
  have "buf_content (ex_mem 8 [0x96, 0x01, 0xFF]) (ex_stream 8 [0x96, 0x01, 0xFF]) = Some [0x96, 0x01, 0xFF]"
    by (rule ex_content) simp
  from iffD2 [OF decode_varint_exact [OF this]] show ?thesis
    by (rule, intro conjI refl exI [of _ 2]) simp_all
qed

text \<open>
  Where the 32-bit reader succeeds, the 64-bit reader succeeds on the same bytes, and the
  value of the first is the low half of the value of the second.
\<close>

theorem decode_varint32_agrees:
  assumes "buf_content m s = Some bs" and "pb_decode_varint32 env s m = Some (Some v, s', m')"
  shows "\<exists>w. pb_decode_varint env s m = Some (Some w, s', m') \<and> v = ucast w"
proof -
  obtain k where p: "parse_varint 0 (0 :: u32) bs = (Inr v, k)" and "s' = buf_advance s k" "m' = m"
    using assms by (auto simp: buf.decode_varint32_parse [OF assms(1)] split: prod.splits sum.splits)
  then show ?thesis
    using parse_varint_narrow [where 'b = 64, OF p] by (auto simp: buf.decode_varint_parse [OF assms(1)])
qed

theorem decode_varint32_agrees_witness:
  "\<exists>w. pb_decode_varint no_user (ex_stream 8 [0x96, 0x01]) (ex_mem 8 [0x96, 0x01]) =
     Some (Some w, buf_advance (ex_stream 8 [0x96, 0x01]) 2, ex_mem 8 [0x96, 0x01]) \<and> (150 :: u32) = ucast w"
proof -
  have c: "buf_content (ex_mem 8 [0x96, 0x01]) (ex_stream 8 [0x96, 0x01]) = Some [0x96, 0x01]"
    by (rule ex_content) simp
  have "parse_varint 0 (0 :: u32) [0x96, 0x01] = (Inr 150, 2)" by code_simp
  then show ?thesis
    by (intro decode_varint32_agrees [OF c]) (simp add: buf.decode_varint32_parse [OF c] del: parse_varint.simps)
qed

lemma parse_varint_overflow:
  fixes acc :: "'a::len word"
  assumes "\<And>i. i < j \<Longrightarrow> bs ! i AND 0x80 \<noteq> 0" and "j \<le> length bs" and "LENGTH('a) \<le> pos + 7 * j"
  shows "\<exists>k. parse_varint pos acc bs = (Inl ''varint overflow'', k)"
  using assms
proof (induction j arbitrary: pos acc bs)
  case 0
  then show ?case by (cases bs) simp_all
next
  case (Suc j)
  then obtain b bs' where bs: "bs = b # bs'" by (cases bs) auto
  have b: "b AND 0x80 \<noteq> 0" using Suc.prems(1) [of 0] bs by simp
  have "bs' ! i AND 0x80 \<noteq> 0" if "i < j" for i using Suc.prems(1) [of "Suc i"] that bs by simp
  with Suc.prems bs have "\<exists>k. parse_varint (pos + 7) (acc OR push_bit pos (ucast (b AND 0x7F))) bs' = (Inl ''varint overflow'', k)"
    by (intro Suc.IH) auto
  with b bs show ?case by (auto simp: Let_def)
qed

lemma shape_continues: "varint_shape xs \<Longrightarrow> Suc i < length xs \<Longrightarrow> xs ! i AND 0x80 \<noteq> 0"
  by (induction xs arbitrary: i) (auto simp: nth_Cons split: if_splits nat.splits)

lemma base128_bound: "base128 xs < 128 ^ length xs"
proof (induction xs)
  case Nil
  then show ?case by simp
next
  case (Cons b bs)
  have "unat (b AND 0x7F) < 128" by (rule unat_and_7F)
  moreover have "base128 bs + 1 \<le> 128 ^ length bs" using Cons.IH by simp
  then have "128 * (base128 bs + 1) \<le> 128 * 128 ^ length bs" by (rule mult_le_mono2)
  ultimately show ?case by simp
qed

text \<open>
  The 32-bit reader fails with an overflow on the encoding of every number of more than 35
  bits. The encoder sign-extends a negative \<open>int32\<close> to 64 bits, so it produces such encodings for
  negative numbers, which the header names as a use of this reader.
\<close>

theorem decode_varint32_rejects_wide:
  assumes "buf_content m s = Some (varint_bytes v @ rest)" and "2 ^ 35 \<le> unat v"
  shows "\<exists>s'. pb_decode_varint32 env s m = Some (None, s', m) \<and>
    i_errmsg s' = (case i_errmsg s of None \<Rightarrow> Some ''varint overflow'' | Some e \<Rightarrow> Some e)"
proof -
  have sh: "varint_shape (varint_bytes v)" "base128 (varint_bytes v) = unat v" using varint_bytes_shape by auto
  have "5 < length (varint_bytes v)"
  proof (rule ccontr)
    assume "\<not> 5 < length (varint_bytes v)"
    then have "(128 :: nat) ^ length (varint_bytes v) \<le> 128 ^ 5" by (intro power_increasing) auto
    with base128_bound [of "varint_bytes v"] sh(2) assms(2) show False by simp
  qed
  then have "\<exists>k. parse_varint 0 (0 :: u32) (varint_bytes v @ rest) = (Inl ''varint overflow'', k)"
    using shape_continues [OF sh(1)] by (intro parse_varint_overflow [of 5]) (auto simp: nth_append)
  then obtain k where "parse_varint 0 (0 :: u32) (varint_bytes v @ rest) = (Inl ''varint overflow'', k)" ..
  then show ?thesis
    by (auto simp: buf.decode_varint32_parse [OF assms(1)] i_set_error_def buf_advance_def)
qed

text \<open>The witness reads the encoding of -1, which is ten bytes long.\<close>

theorem decode_varint32_rejects_wide_witness:
  "\<exists>s'. pb_decode_varint32 no_user (ex_stream 8 (varint_bytes (- 1) @ [])) (ex_mem 8 (varint_bytes (- 1) @ [])) =
     Some (None, s', ex_mem 8 (varint_bytes (- 1) @ [])) \<and> i_errmsg s' = Some ''varint overflow''"
proof -
  have "length (varint_bytes (- 1)) \<le> 10" using varint_bytes_shape [of "- 1"] by simp
  then have "buf_content (ex_mem 8 (varint_bytes (- 1) @ [])) (ex_stream 8 (varint_bytes (- 1) @ [])) =
      Some (varint_bytes (- 1) @ [])" by (intro ex_content) simp
  moreover have "2 ^ 35 \<le> unat (- 1 :: u64)" by (simp only: unsigned_minus_1_eq_mask mask_eq_exp_minus_1) simp
  ultimately have "\<exists>s'. pb_decode_varint32 no_user (ex_stream 8 (varint_bytes (- 1) @ [])) (ex_mem 8 (varint_bytes (- 1) @ [])) =
     Some (None, s', ex_mem 8 (varint_bytes (- 1) @ [])) \<and>
       i_errmsg s' = (case i_errmsg (ex_stream 8 (varint_bytes (- 1) @ [])) of None \<Rightarrow> Some ''varint overflow'' | Some e \<Rightarrow> Some e)"
    by (rule decode_varint32_rejects_wide)
  then show ?thesis by (simp add: ex_stream_def pb_istream_from_buffer_def)
qed

section \<open>Tags and skipped fields\<close>

text \<open>
  The length of a field's payload on the wire: what a parser that knows only the wire type
  must skip.
\<close>

definition payload_length :: "pb_wire_type_t \<Rightarrow> byte list \<Rightarrow> nat option" where
  "payload_length wt bs =
     (if wt = PB_WT_VARINT then
        (case dropWhile (\<lambda>b. b AND 0x80 \<noteq> 0) bs of [] \<Rightarrow> None | _ # rest \<Rightarrow> Some (length bs - length rest))
      else if wt = PB_WT_64BIT then (if 8 \<le> length bs then Some 8 else None)
      else if wt = PB_WT_STRING then
        (case parse_varint 0 (0 :: u32) bs of
           (Inl _, _) \<Rightarrow> None
         | (Inr n, k) \<Rightarrow> if k + unat n \<le> length bs then Some (k + unat n) else None)
      else if wt = PB_WT_32BIT then (if 4 \<le> length bs then Some 4 else None)
      else None)"

lemma skip_field_exact_aux:
  assumes "buf_content m s = Some bs" and "length bs < fuel"
  shows "\<exists>b s'. pb_skip_field fuel env s wt m = Some (b, s', m) \<and>
    (case payload_length wt bs of None \<Rightarrow> \<not> b | Some k \<Rightarrow> b \<and> s' = buf_advance s k)"
proof -
  consider "wt = PB_WT_VARINT" | "wt = PB_WT_64BIT" | "wt = PB_WT_STRING" | "wt = PB_WT_32BIT"
    | "wt \<notin> {PB_WT_VARINT, PB_WT_64BIT, PB_WT_STRING, PB_WT_32BIT}" by blast
  then show ?thesis
  proof cases
    case 1
    with buf.skip_varint_content [OF assms, of env] show ?thesis
      by (cases "dropWhile (\<lambda>b. b AND 0x80 \<noteq> 0) bs")
        (auto simp: pb_skip_field_def payload_length_def simp del: dropWhile_eq_Nil_conv)
  next
    case 3
    have "k \<le> length bs" if "parse_varint 0 (0 :: u32) bs = (r, k)" for r k
      using parse_varint_consumed [of 0 "0 :: u32" bs] that by simp
    with 3 show ?thesis
      by (auto simp: pb_skip_field_def payload_length_def buf.skip_string_content [OF assms(1)]
          split: prod.split sum.split)
  qed (auto simp: pb_skip_field_def payload_length_def buf.read_null [OF assms(1)] not_less)
qed

text \<open>
  C31: Skipping a field succeeds exactly when the buffer holds a whole payload of the wire type,
  and then leaves the stream right behind it. It does not change memory, and more fuel
  than there are bytes is enough.
\<close>

theorem skip_field_exact:
  assumes "buf_content m s = Some bs" and "length bs < fuel"
  shows "\<exists>b s'. pb_skip_field fuel env s wt m = Some (b, s', m) \<and>
    (case payload_length wt bs of None \<Rightarrow> \<not> b | Some k \<Rightarrow> b \<and> s' = buf_advance s k)"
  using assms by (rule skip_field_exact_aux)

theorem skip_field_exact_witness:
  "\<exists>b s'. pb_skip_field 5 no_user (ex_stream 8 [2, 65, 66, 7]) PB_WT_STRING (ex_mem 8 [2, 65, 66, 7]) =
     Some (b, s', ex_mem 8 [2, 65, 66, 7]) \<and> b \<and> s' = buf_advance (ex_stream 8 [2, 65, 66, 7]) 3"
proof -
  have "buf_content (ex_mem 8 [2, 65, 66, 7]) (ex_stream 8 [2, 65, 66, 7]) = Some [2, 65, 66, 7]"
    by (rule ex_content) simp
  from skip_field_exact [OF this, of 5 no_user PB_WT_STRING] show ?thesis
    by (simp add: payload_length_def Let_def numeral_3_eq_3)
qed

section \<open>Substreams\<close>

text \<open>
  Opening a length-limited substream hands out exactly the bytes the length prefix
  announces. Whatever the reader of the substream leaves unread, closing it puts the parent
  right behind these bytes.
\<close>

theorem substream_exact:
  assumes "buf_content m s = Some bs" and "parse_varint 0 (0 :: u32) bs = (Inr n, k)"
    and "k + unat n \<le> length bs"
  shows "\<exists>sub par. pb_make_string_substream env s m = Some (Some sub, par, m) \<and>
    buf_content m sub = Some (take (unat n) (drop k bs)) \<and>
    (\<forall>j \<le> unat n. \<exists>s'. pb_close_string_substream env par (buf_advance sub j) m = Some (True, s', m) \<and>
       buf_content m s' = Some (drop (k + unat n) bs))"
proof -
  note c = buf.make_substream_content [OF assms(1,2), of env]
  let ?p = "buf_advance s k" and ?n = "ucast n :: u64"
  have k: "k \<le> length bs" using assms(3) by simp
  have n: "unat ?n = unat n"
    by (simp add: unsigned_ucast_eq take_bit_nat_eq_self order.strict_trans [OF unsigned_less])
  have cp: "buf_content m ?p = Some (drop k bs)" using assms(1) k by (rule buf.content_advance)
  then have "unat (bytes_left ?p) = length bs - k" using buf.content_left [OF cp] by simp
  then have le: "?n \<le> bytes_left ?p" using assms(3) n by (simp add: word_le_nat_alt)
  let ?sub = "?p\<lparr>bytes_left := ?n\<rparr>" and ?par = "?p\<lparr>bytes_left := bytes_left ?p - ?n\<rparr>"
  have sub: "buf_content m ?sub = Some (take (unat n) (drop k bs))"
    using buf.content_limit [OF cp le] n by simp
  have "pb_make_string_substream env s m = Some (Some ?sub, ?par, m)"
    using c assms(3) by simp
  moreover have "\<exists>s'. pb_close_string_substream env ?par (buf_advance ?sub j) m = Some (True, s', m) \<and>
       buf_content m s' = Some (drop (k + unat n) bs)" if j: "j \<le> unat n" for j
  proof -
    have len: "length (take (unat n) (drop k bs)) = unat n" using assms(3) by simp
    have cj: "buf_content m (buf_advance ?sub j) = Some (drop j (take (unat n) (drop k bs)))"
      using buf.content_advance [OF sub, of j] j len by simp
    have lj: "unat (bytes_left (buf_advance ?sub j)) = unat n - j" using buf.content_left [OF cj] len by simp
    have full: "buf_content m (buf_advance ?p (unat n)) = Some (drop (k + unat n) bs)"
      using buf.content_advance [OF cp, of "unat n"] assms(3) by (simp add: add.commute)
    have same: "buf_content m (?par\<lparr>i_state := i_state s + int k + uint n\<rparr>) = Some (drop (k + unat n) bs)"
      "buf_content m (?par\<lparr>i_state := i_state s + int k + uint n, i_errmsg := e\<rparr>) = Some (drop (k + unat n) bs)" for e
      using full by (auto simp: buf_content_def buf_advance_def split: if_splits)
    show ?thesis
    proof (cases "j = unat n")
      case True
      with lj have "bytes_left (buf_advance ?sub j) = 0" by (simp add: unat_eq_zero)
      then show ?thesis using True same
        by (simp add: pb_close_string_substream_def) (simp add: buf_advance_def)
    next
      case False
      with lj j have "bytes_left (buf_advance ?sub j) \<noteq> 0" by auto
      moreover have "min (length bs - k) (unat n) = unat n" using assms(3) by simp
      ultimately show ?thesis using j lj same
        by (simp add: pb_close_string_substream_def buf.read_null [OF cj] len)
          (simp add: buf_advance_def add.assoc)
    qed
  qed
  ultimately show ?thesis using sub by blast
qed


theorem substream_exact_witness:
  "\<exists>sub par. pb_make_string_substream no_user (ex_stream 8 [2, 65, 66, 7]) (ex_mem 8 [2, 65, 66, 7]) =
       Some (Some sub, par, ex_mem 8 [2, 65, 66, 7]) \<and>
     buf_content (ex_mem 8 [2, 65, 66, 7]) sub = Some [65, 66] \<and>
     (\<exists>s'. pb_close_string_substream no_user par (buf_advance sub 1) (ex_mem 8 [2, 65, 66, 7]) =
        Some (True, s', ex_mem 8 [2, 65, 66, 7]) \<and> buf_content (ex_mem 8 [2, 65, 66, 7]) s' = Some [7])"
proof -
  have c: "buf_content (ex_mem 8 [2, 65, 66, 7]) (ex_stream 8 [2, 65, 66, 7]) = Some [2, 65, 66, 7]"
    by (rule ex_content) simp
  have "parse_varint 0 (0 :: u32) [2, 65, 66, 7] = (Inr 2, 1)" by (simp add: Let_def)
  from substream_exact [OF c this, of no_user] obtain sub par where
    "pb_make_string_substream no_user (ex_stream 8 [2, 65, 66, 7]) (ex_mem 8 [2, 65, 66, 7]) =
       Some (Some sub, par, ex_mem 8 [2, 65, 66, 7])"
    "buf_content (ex_mem 8 [2, 65, 66, 7]) sub = Some (take 2 [65, 66, 7])"
    and close: "\<And>j. j \<le> 2 \<Longrightarrow> \<exists>s'. pb_close_string_substream no_user par (buf_advance sub j) (ex_mem 8 [2, 65, 66, 7]) =
        Some (True, s', ex_mem 8 [2, 65, 66, 7]) \<and> buf_content (ex_mem 8 [2, 65, 66, 7]) s' = Some (drop 3 [2, 65, 66, 7])"
    by auto
  then show ?thesis using close [of 1] by auto
qed

end
