(* ===== verification/PbDecodeProps.thy ===== *)
theory PbDecodeProps
  imports PbDecodeSafe PbReadProps
begin

text \<open>
  Properties of the message decoder: it is safe and terminates on every input, what it does
  on empty and on truncated input, and what the final check of the required fields computes. The
  example message \<open>ex_fields\<close> is the one of the witnesses: a required integer, an optional string,
  a repeated integer and an optional submessage.
\<close>

definition ex_sub :: "pb_field_t list" where
  "ex_sub = (let a = \<lparr>m_offset = 0, m_size = 4, m_elem = 4, m_companion = 0\<rparr>
    in [PB_FIELD 1 UINT32 SINGULAR STATIC FIRST a a PNull, PB_LAST_FIELD])"

definition ex_fields :: "pb_field_t list" where
  "ex_fields =
     (let a = \<lparr>m_offset = 0, m_size = 4, m_elem = 4, m_companion = 0\<rparr>;
          b = \<lparr>m_offset = 5, m_size = 7, m_elem = 1, m_companion = 4\<rparr>;
          c = \<lparr>m_offset = 16, m_size = 8, m_elem = 4, m_companion = 12\<rparr>;
          d = \<lparr>m_offset = 28, m_size = 4, m_elem = 4, m_companion = 24\<rparr>
      in [PB_FIELD 1 INT32 REQUIRED STATIC FIRST a a PNull,
          PB_FIELD 2 STRING OPTIONAL STATIC OTHER b a PNull,
          PB_FIELD 3 UINT32 REPEATED STATIC OTHER c b PNull,
          PB_FIELD 4 MESSAGE OPTIONAL STATIC OTHER d c (PFields ex_sub),
          PB_LAST_FIELD])"

lemma ex_fields_wf: "wf_msg 2 ex_fields 32"
  by code_simp

lemma ex_fields_fuel: "msg_fuel 2 ex_fields \<le> 16"
  by code_simp

section \<open>Safety and termination\<close>

text \<open>
  C1: For a well-formed descriptor without callbacks and extensions, whatever the bytes of the
  input are, decoding returns, without undefined behaviour. It reads only the input buffer, leaves
  the stream inside it, and writes only inside the destination struct.
\<close>

theorem pb_decode_safe:
  assumes "wf_msg d fs sz" and "i_callback s = Buf_read" and "mapped m (i_state s) (uint (bytes_left s))"
    and "mapped m dest sz" and "unat (bytes_left s) + msg_fuel d fs < fuel"
  shows "\<exists>b s' m'. pb_decode fuel env s fs dest m = Some (b, s', m') \<and>
    i_state s \<le> i_state s' \<and> i_state s' + uint (bytes_left s') \<le> i_state s + uint (bytes_left s) \<and>
    dom m' = dom m \<and> (\<forall>a. a \<notin> {dest ..< dest + sz} \<longrightarrow> m' a = m a)"
proof -
  have "buf_stream m s" using assms(2,3) by (simp add: buf_stream_def)
  from msg_contractD [OF decode_contract [OF assms(1,5), of env] this order_refl assms(4)] obtain b s' m' where
    "pb_decode fuel env s fs dest m = Some (b, s', m')" "ireach s s'" "same_outside m m' dest sz"
    by (auto simp: ok_conv)
  then show ?thesis unfolding ireach_def ilimit_def same_outside_def by blast
qed

theorem pb_decode_safe_witness:
  "\<exists>b s' m'. pb_decode 30 no_user (ex_stream 8 [8, 5, 18, 200, 1]) ex_fields 100
       (ex_mem2 8 [8, 5, 18, 200, 1] 100 (replicate 32 0)) = Some (b, s', m') \<and>
     i_state (ex_stream 8 [8, 5, 18, 200, 1]) \<le> i_state s' \<and>
     i_state s' + uint (bytes_left s') \<le>
       i_state (ex_stream 8 [8, 5, 18, 200, 1]) + uint (bytes_left (ex_stream 8 [8, 5, 18, 200, 1])) \<and>
     dom m' = dom (ex_mem2 8 [8, 5, 18, 200, 1] 100 (replicate 32 0)) \<and>
     (\<forall>a. a \<notin> {100 ..< 100 + 32} \<longrightarrow> m' a = ex_mem2 8 [8, 5, 18, 200, 1] 100 (replicate 32 0) a)"
proof (rule pb_decode_safe [OF ex_fields_wf])
  show "mapped (ex_mem2 8 [8, 5, 18, 200, 1] 100 (replicate 32 0)) (i_state (ex_stream 8 [8, 5, 18, 200, 1]))
      (uint (bytes_left (ex_stream 8 [8, 5, 18, 200, 1])))"
    by (auto simp: mapped_def ex_mem2_def ex_mem_def dom_def ex_stream_def pb_istream_from_buffer_def)
  show "mapped (ex_mem2 8 [8, 5, 18, 200, 1] 100 (replicate 32 0)) 100 32" by (rule ex_mapped2) simp
  show "unat (bytes_left (ex_stream 8 [8, 5, 18, 200, 1])) + msg_fuel 2 ex_fields < 30"
    using ex_fields_fuel by (simp add: ex_stream_def pb_istream_from_buffer_def)
qed (simp add: ex_stream_def pb_istream_from_buffer_def)

text \<open>
  The same holds for a message that is preceded by its length.
\<close>

theorem pb_decode_delimited_safe:
  assumes "wf_msg d fs sz" and "i_callback s = Buf_read" and "mapped m (i_state s) (uint (bytes_left s))"
    and "mapped m dest sz" and "unat (bytes_left s) + msg_fuel d fs < fuel"
  shows "\<exists>b s' m'. pb_decode_delimited fuel env s fs dest m = Some (b, s', m') \<and>
    i_state s \<le> i_state s' \<and> i_state s' + uint (bytes_left s') \<le> i_state s + uint (bytes_left s) \<and>
    dom m' = dom m \<and> (\<forall>a. a \<notin> {dest ..< dest + sz} \<longrightarrow> m' a = m a)"
proof -
  have b: "buf_stream m s" using assms(2,3) by (simp add: buf_stream_def)
  from make_substream_sub [OF b, of env] obtain r s1 where mk: "pb_make_string_substream env s m = Some (r, s1, m)"
    and r1: "ireach s s1" and sub: "\<And>sub. r = Some sub \<Longrightarrow> sub_of s s1 sub" by (auto simp: ok_conv)
  show ?thesis
  proof (cases r)
    case None
    with mk r1 show ?thesis by (auto simp: pb_decode_delimited_def ireach_def ilimit_def)
  next
    case (Some ss)
    note so = sub [OF Some]
    have ssb: "buf_stream m ss" using b so by (auto simp: sub_of_def intro: buf_stream_ireach)
    have "unat (bytes_left ss) \<le> unat (bytes_left s)" using so by (simp add: sub_of_def word_less_nat_alt)
    from msg_contractD [OF decode_contract [OF assms(1,5), of env] ssb this assms(4)] obtain st ss' m1 where
      d: "pb_decode fuel env ss fs dest m = Some (st, ss', m1)" "ireach ss ss'" "same_outside m m1 dest sz"
      by (auto simp: ok_conv)
    have "buf_stream m1 ss'" using ssb d(2) same_outside_dom [OF d(3)] by (rule buf_stream_ireach)
    from close_substream_reach [OF this so r1 d(2), of env] obtain c s2 where
      "pb_close_string_substream env s1 ss' m1 = Some (c, s2, m1)" "ireach s s2" by (auto simp: ok_conv)
    with d have "pb_decode_delimited fuel env s fs dest m = Some (c \<and> st, s2, m1)"
      by (simp add: pb_decode_delimited_def mk Some)
    with \<open>ireach s s2\<close> d(3) show ?thesis unfolding ireach_def ilimit_def same_outside_def by blast
  qed
qed

theorem pb_decode_delimited_safe_witness:
  "\<exists>b s' m'. pb_decode_delimited 30 no_user (ex_stream 8 [2, 8, 5]) ex_fields 100
       (ex_mem2 8 [2, 8, 5] 100 (replicate 32 0)) = Some (b, s', m') \<and>
     i_state (ex_stream 8 [2, 8, 5]) \<le> i_state s' \<and>
     i_state s' + uint (bytes_left s') \<le> i_state (ex_stream 8 [2, 8, 5]) + uint (bytes_left (ex_stream 8 [2, 8, 5])) \<and>
     dom m' = dom (ex_mem2 8 [2, 8, 5] 100 (replicate 32 0)) \<and>
     (\<forall>a. a \<notin> {100 ..< 100 + 32} \<longrightarrow> m' a = ex_mem2 8 [2, 8, 5] 100 (replicate 32 0) a)"
proof (rule pb_decode_delimited_safe [OF ex_fields_wf])
  show "mapped (ex_mem2 8 [2, 8, 5] 100 (replicate 32 0)) (i_state (ex_stream 8 [2, 8, 5])) (uint (bytes_left (ex_stream 8 [2, 8, 5])))"
    by (auto simp: mapped_def ex_mem2_def ex_mem_def dom_def ex_stream_def pb_istream_from_buffer_def)
  show "mapped (ex_mem2 8 [2, 8, 5] 100 (replicate 32 0)) 100 32" by (rule ex_mapped2) simp
  show "unat (bytes_left (ex_stream 8 [2, 8, 5])) + msg_fuel 2 ex_fields < 30"
    using ex_fields_fuel by (simp add: ex_stream_def pb_istream_from_buffer_def)
qed (simp add: ex_stream_def pb_istream_from_buffer_def)

section \<open>The final check of the required fields\<close>

lemma all_ones_bit: "(0xFFFFFFFF :: u32) = mask 32"
  by (simp add: mask_eq_exp_minus_1)

lemma word_full_iff: "(w :: u32) = 0xFFFFFFFF \<longleftrightarrow> (\<forall>i < 32. bit w i)"
  by (auto simp only: all_ones_bit bit_eq_iff bit_mask_iff possible_bit_word) auto

lemma word_low_iff:
  assumes "k < 32" and "\<And>i. k \<le> i \<Longrightarrow> i < 32 \<Longrightarrow> \<not> bit w i"
  shows "(w :: u32) = drop_bit (32 - k) 0xFFFFFFFF \<longleftrightarrow> (\<forall>i < k. bit w i)"
proof -
  have b: "bit (drop_bit (32 - k) (0xFFFFFFFF :: u32)) i \<longleftrightarrow> i < k" for i
    using assms(1) by (simp only: bit_drop_bit_eq all_ones_bit bit_mask_iff possible_bit_word comp_def) auto
  show ?thesis
  proof
    assume "w = drop_bit (32 - k) 0xFFFFFFFF"
    then show "\<forall>i < k. bit w i" using b by simp
  next
    assume a: "\<forall>i < k. bit w i"
    show "w = drop_bit (32 - k) 0xFFFFFFFF"
    proof (rule bit_word_eqI)
      fix i assume "i < LENGTH(32)"
      then show "bit w i = bit (drop_bit (32 - k) (0xFFFFFFFF :: u32)) i"
        using a assms(2) [of i] b [of i] by (cases "i < k") auto
    qed
  qed
qed

text \<open>
  C33: For fewer than 64 required fields, whose number is not a multiple of 32, the check
  succeeds exactly when the bit of every required field is set.
\<close>

theorem check_required_exact:
  assumes "0 < r" and "r < 64" and "r mod 32 \<noteq> 0" and "length seen = 2"
    and "\<And>i. r \<le> i \<Longrightarrow> i < 64 \<Longrightarrow> \<not> bit (seen ! (i div 32)) (i mod 32)"
  shows "check_required seen r = Some (\<forall>i < r. bit (seen ! (i div 32)) (i mod 32))"
proof -
  obtain a b where seen: "seen = [a, b]" using assms(4) by (auto simp: numeral_2_eq_2 length_Suc_conv)
  show ?thesis
  proof (cases "r < 32")
    case True
    have hi: "\<not> bit a i" if "r \<le> i" "i < 32" for i using assms(5) [of i] that by (simp add: seen)
    from True have "check_required seen r = Some (a = drop_bit (32 - r) 0xFFFFFFFF)"
      using assms(1) by (simp add: check_required_def seen)
    also have "a = drop_bit (32 - r) 0xFFFFFFFF \<longleftrightarrow> (\<forall>i < r. bit a i)" using True hi by (rule word_low_iff)
    also have "\<dots> \<longleftrightarrow> (\<forall>i < r. bit (seen ! (i div 32)) (i mod 32))" using True by (simp add: seen)
    finally show ?thesis .
  next
    case False
    define k where "k = r - 32"
    have "r \<noteq> 32" using assms(3) by auto
    then have r: "r = k + 32" "0 < k" "k < 32" using False assms(2) by (auto simp: k_def)
    have hi: "\<not> bit b i" if "k \<le> i" "i < 32" for i using assms(5) [of "i + 32"] that r by (simp add: seen)
    have dm: "(k + 32) div 32 = 1" "(k + 32) mod 32 = k" using r by (simp_all add: div_nat_eqI)
    have "check_required seen r = Some (a = 0xFFFFFFFF \<and> b = drop_bit (32 - k) 0xFFFFFFFF)"
      unfolding check_required_def r(1) dm using r(2,3) by (simp add: seen)
    also have "b = drop_bit (32 - k) 0xFFFFFFFF \<longleftrightarrow> (\<forall>i < k. bit b i)" using r(3) hi by (rule word_low_iff)
    also have "a = 0xFFFFFFFF \<longleftrightarrow> (\<forall>i < 32. bit a i)" by (rule word_full_iff)
    also have "(\<forall>i < 32. bit a i) \<and> (\<forall>i < k. bit b i) \<longleftrightarrow> (\<forall>i < r. bit (seen ! (i div 32)) (i mod 32))"
    proof (intro iffI allI impI conjI)
      fix i assume h: "(\<forall>i < 32. bit a i) \<and> (\<forall>i < k. bit b i)" and i: "i < r"
      show "bit (seen ! (i div 32)) (i mod 32)"
      proof (cases "i < 32")
        case True
        with h show ?thesis by (simp add: seen)
      next
        case False
        then have "i div 32 = 1" "i mod 32 = i - 32" using i r by (auto simp: div_nat_eqI le_mod_geq)
        with h False i r show ?thesis by (simp add: seen)
      qed
    next
      fix i :: nat assume h: "\<forall>i < r. bit (seen ! (i div 32)) (i mod 32)" and i: "i < 32"
      from h [rule_format, of i] i r show "bit a i" by (simp add: seen)
    next
      fix i assume h: "\<forall>i < r. bit (seen ! (i div 32)) (i mod 32)" and i: "i < k"
      have "(i + 32) div 32 = 1" "(i + 32) mod 32 = i" using i r(3) by auto
      with h [rule_format, of "i + 32"] i r show "bit b i" by (simp add: seen)
    qed
    finally show ?thesis .
  qed
qed

theorem check_required_exact_witness: "check_required [7, 0] 3 = Some True"
proof -
  have "\<not> bit ([7, 0 :: u32] ! (i div 32)) (i mod 32)" if "3 \<le> i" "i < 64" for i
  proof (cases "i < 32")
    case True
    have "(7 :: u32) = mask 3" by (simp add: mask_eq_exp_minus_1)
    then have "bit (7 :: u32) j \<longleftrightarrow> j < 3" for j by (simp only: bit_mask_iff possible_bit_word) auto
    with True that show ?thesis by (simp del: bit_numeral_word_iff)
  next
    case False
    then have "i div 32 = 1" using that by (auto simp: div_nat_eqI)
    then show ?thesis by simp
  qed
  from check_required_exact [OF _ _ _ _ this] have "check_required [7, 0] 3 =
      Some (\<forall>i < 3. bit ([7, 0 :: u32] ! (i div 32)) (i mod 32))" by simp
  moreover have "bit ([7, 0 :: u32] ! (i div 32)) (i mod 32)" if "i < 3" for i
  proof -
    from that consider "i = 0" | "i = 1" | "i = 2" by fastforce
    then show ?thesis by cases simp_all
  qed
  ultimately show ?thesis by simp
qed

text \<open>
  When the number of required fields is a multiple of 32 and all of them have been found, the
  check is undefined: it shifts a 32-bit word by 32 bits.
\<close>

theorem required_multiple_of_32:
  assumes "wf_array fs" and "valid_pos fs i" and "req_index fs (nfields fs) = 32 * k" and "0 < k"
    and "k \<le> length seen" and "\<forall>j < k. seen ! j = 0xFFFFFFFF"
  shows "required_present (iter_at fs dest i) seen = None"
proof -
  have "check_words seen j n = Some True" if "j + n \<le> k" for j n
    using that assms(5,6) by (induction n arbitrary: j) auto
  then have "check_words seen 0 k = Some True" by simp
  with assms(3,4) show ?thesis by (simp add: required_present_eq [OF assms(1,2)] check_required_def)
qed

theorem required_multiple_of_32_witness:
  "required_present (iter_at (replicate 32 (Pb_Field 1 0 0 0 4 0 PNull) @ [PB_LAST_FIELD]) 100 0) [0xFFFFFFFF, 0] = None"
proof (rule required_multiple_of_32 [where k = 1])
  show "wf_array (replicate 32 (Pb_Field 1 0 0 0 4 0 PNull) @ [PB_LAST_FIELD])" by (simp add: wf_array_def)
  show "req_index (replicate 32 (Pb_Field 1 0 0 0 4 0 PNull) @ [PB_LAST_FIELD])
      (nfields (replicate 32 (Pb_Field 1 0 0 0 4 0 PNull) @ [PB_LAST_FIELD])) = 32 * 1" by code_simp
qed simp_all


section \<open>Empty input\<close>

text \<open>No field seen: the check succeeds only if there is nothing to check.\<close>

lemma check_required_none: "check_required [0, 0] r = Some (r = 0)"
proof (cases "r < 32")
  case True
  then have "(0 :: u32) = drop_bit (32 - r) 0xFFFFFFFF \<longleftrightarrow> (\<forall>i < r. bit (0 :: u32) i)"
    by (rule word_low_iff) simp
  with True show ?thesis by (auto simp: check_required_def)
next
  case False
  then obtain n where "r div 32 = Suc n" by (cases "r div 32") auto
  with False show ?thesis by (simp add: check_required_def)
qed

text \<open>The decoder is its loop, for some decoder of the fields, and the check after it.\<close>

lemma noinit_loop:
  assumes wa: "wf_array fs"
  obtains D where "\<And>s m. pb_decode_noinit (Suc n) env s fs dest m = do {
     (r, s', m') \<leftarrow> decode_loop n env (decode_field n env D (pb_message_set_to_defaults n env)) (iter_at fs dest 0) [0, 0] 0 s m;
     case r of
       None \<Rightarrow> Some (False, s', m')
     | Some (it', seen) \<Rightarrow> do {
         present \<leftarrow> required_present it' seen;
         if present then Some (True, s', m')
         else Some (False, i_set_error s' ''missing required field'', m')
       } }"
  by (rule that, simp only: pb_decode_noinit.simps iter_begin_at [OF wa] Let_def bind.bind_lunit prod.case)

lemma noinit_run:
  assumes wa: "wf_array fs" and i: "valid_pos fs i" and "0 < fuel"
    and loop: "\<And>D. decode_loop (fuel - 1) env D (iter_at fs dest 0) [0, 0] 0 s m =
      Some (Some (iter_at fs dest i, [0, 0]), s', m')"
  shows "pb_decode_noinit fuel env s fs dest m = Some (if req_index fs (nfields fs) = 0 then (True, s', m')
    else (False, i_set_error s' ''missing required field'', m'))"
proof -
  obtain n where n: "fuel = Suc n" using assms(3) by (cases fuel) auto
  then have run: "decode_loop n env D (iter_at fs dest 0) [0, 0] 0 s m =
      Some (Some (iter_at fs dest i, [0, 0]), s', m')" for D using loop by simp
  show ?thesis unfolding n
  proof (rule noinit_loop [OF wa, of n env dest])
    fix D assume D: "\<And>s m. pb_decode_noinit (Suc n) env s fs dest m = do {
       (r, s', m') \<leftarrow> decode_loop n env (decode_field n env D (pb_message_set_to_defaults n env)) (iter_at fs dest 0) [0, 0] 0 s m;
       case r of
         None \<Rightarrow> Some (False, s', m')
       | Some (it', seen) \<Rightarrow> do {
           present \<leftarrow> required_present it' seen;
           if present then Some (True, s', m')
           else Some (False, i_set_error s' ''missing required field'', m')
         } }"
    show "pb_decode_noinit (Suc n) env s fs dest m = Some (if req_index fs (nfields fs) = 0 then (True, s', m')
        else (False, i_set_error s' ''missing required field'', m'))"
      by (simp add: D run required_present_eq [OF wa i] check_required_none del: pb_decode_noinit.simps)
  qed
qed

text \<open>
  On empty input the decoder succeeds exactly when the message has no required field, and
  the struct keeps its content.
\<close>

theorem decode_empty:
  assumes "wf_array fs" and "bytes_left s = 0" and "1 < fuel"
  shows "pb_decode_noinit fuel env s fs dest m =
    Some (if req_index fs (nfields fs) = 0 then (True, s, m)
          else (False, i_set_error s ''missing required field'', m))"
proof -
  obtain n where n: "fuel = Suc (Suc n)" using less_imp_Suc_add [OF assms(3)] by auto
  have "decode_loop (fuel - 1) env D it [0, 0] 0 s m = Some (Some (it, [0, 0]), s, m)" for D it
    using assms(2) n by simp
  then show ?thesis using assms(3) by (intro noinit_run [OF assms(1) valid_pos_0]) simp_all
qed

theorem decode_empty_witness:
  "pb_decode_noinit 2 no_user (ex_stream 8 []) ex_fields 100 (ex_mem 8 []) =
     Some (False, i_set_error (ex_stream 8 []) ''missing required field'', ex_mem 8 [])"
proof -
  have "wf_array ex_fields" "req_index ex_fields (nfields ex_fields) \<noteq> 0" by code_simp+
  then show ?thesis
    using decode_empty [of ex_fields "ex_stream 8 []" 2 no_user 100 "ex_mem 8 []"]
    by (simp add: ex_stream_def pb_istream_from_buffer_def del: pb_decode_noinit.simps)
qed

section \<open>Unknown fields\<close>

text \<open>
  A sequence of complete fields that the message does not have: each is a tag whose number no
  field has, and a payload of the wire type of the tag.
\<close>

inductive unknown_fields :: "pb_field_t list \<Rightarrow> byte list \<Rightarrow> bool" for fs where
  unknown_Nil: "unknown_fields fs []"
| unknown_Cons: "\<lbrakk>parse_varint 0 (0 :: u32) bs = (Inr v, k); drop_bit 3 v \<noteq> 0;
     \<forall>j < nfields fs. \<not> field_matches (drop_bit 3 v) (fs ! j);
     payload_length (v AND 7) (drop k bs) = Some p; unknown_fields fs (drop (k + p) bs)\<rbrakk> \<Longrightarrow> unknown_fields fs bs"

lemma payload_length_le: "payload_length wt bs = Some k \<Longrightarrow> k \<le> length bs"
  by (auto simp: payload_length_def split: if_splits list.splits prod.splits sum.splits)

lemma tag_number_bound: "drop_bit 3 v < (0xFFFFFFFF :: u32)"
proof -
  have "unat (drop_bit 3 v) = unat v div 8" by (simp only: unat_drop_bit_div) simp
  moreover have "unat v < 4294967296" using unsigned_less [of v, where ?'a = nat] by simp
  ultimately have "unat (drop_bit 3 v) < 4294967295" by linarith
  then have "unat (drop_bit 3 v) < unat (0xFFFFFFFF :: u32)" by simp
  then show ?thesis by (simp only: word_less_nat_alt)
qed

lemma find_unknown:
  assumes wa: "wf_array fs" and i: "valid_pos fs i" and t: "t \<noteq> 0"
    and "\<forall>j < nfields fs. \<not> field_matches t (fs ! j)"
  shows "pb_field_iter_find (iter_at fs dest i) t = Some (False, iter_at fs dest i)"
  using valid_pos_cases [OF i]
proof
  assume i: "i < nfields fs"
  with assms(4) have "find_index fs i t = None" by (simp add: find_index_None)
  with i show ?thesis by (simp add: iter_find_at [OF wa])
next
  assume "nfields fs = 0 \<and> i = 0"
  with t show ?thesis by (simp add: iter_find_empty [OF wa])
qed

text \<open>One unknown field is skipped, and the loop goes on behind it.\<close>

lemma decode_loop_skips:
  assumes wa: "wf_array fs" and ne: "no_extensions fs" and i: "valid_pos fs i" and c: "buf_content m s = Some bs"
    and v: "parse_varint 0 (0 :: u32) bs = (Inr v, k)" and t: "drop_bit 3 v \<noteq> 0" "\<forall>j < nfields fs. \<not> field_matches (drop_bit 3 v) (fs ! j)"
    and p: "payload_length (v AND 7) (drop k bs) = Some p" and n: "length bs < Suc n"
  shows "\<exists>es'. decode_loop (Suc n) env D (iter_at fs dest i) seen es s m = decode_loop n env D (iter_at fs dest i) seen es' (buf_advance s (k + p)) m"
    and "buf_content m (buf_advance s (k + p)) = Some (drop (k + p) bs)" and "0 < k" and "k + p \<le> length bs"
proof -
  show k: "0 < k" using v by (simp add: parse_varint_iff)
  have k_le: "k \<le> length bs" using v by (simp add: parse_varint_iff)
  show kp: "k + p \<le> length bs" using payload_length_le [OF p] k_le by simp
  show "buf_content m (buf_advance s (k + p)) = Some (drop (k + p) bs)" using kp by (rule buf.content_advance [OF c])
  have ck: "buf_content m (buf_advance s k) = Some (drop k bs)" using c k_le by (rule buf.content_advance)
  have "length (drop k bs) < n" using k k_le n by simp
  from skip_field_exact_aux [OF ck this, of env "v AND 7"] p
  have skip: "pb_skip_field n env (buf_advance s k) (v AND 7) m = Some (True, buf_advance s (k + p), m)"
    by (auto simp: buf.advance_add)
  have "bytes_left s \<noteq> 0" using buf.content_left [OF c] k k_le by auto
  moreover have "v \<noteq> 0" using t(1) by auto
  then have "pb_decode_tag env s m = Some (Tag (v AND 7) (drop_bit 3 v), buf_advance s k, m)"
    using v by (simp add: pb_decode_tag_def buf.decode_varint32_parse [OF c])
  moreover have "\<not> 0xFFFFFFFF \<le> (drop_bit 3 v :: u32)" using tag_number_bound [of v] by (simp only: not_le)
  ultimately show "\<exists>es'. decode_loop (Suc n) env D (iter_at fs dest i) seen es s m =
      decode_loop n env D (iter_at fs dest i) seen es' (buf_advance s (k + p)) m"
    by (simp add: find_unknown [OF wa i t] skip Let_def find_extension_none [OF wa ne i] valid_pos_field [OF wa i]) blast
qed

lemma decode_loop_unknown:
  "unknown_fields fs bs \<Longrightarrow> wf_array fs \<Longrightarrow> no_extensions fs \<Longrightarrow> valid_pos fs i \<Longrightarrow> buf_content m s = Some bs \<Longrightarrow>
    length bs < fuel \<Longrightarrow> decode_loop fuel env D (iter_at fs dest i) seen es s m =
      Some (Some (iter_at fs dest i, seen), buf_advance s (length bs), m)"
proof (induction bs arbitrary: s es fuel rule: unknown_fields.induct)
  case unknown_Nil
  then obtain n where "fuel = Suc n" by (cases fuel) auto
  with unknown_Nil buf.content_left [OF unknown_Nil(4)] show ?case by (simp add: buf.advance_0 unat_eq_0)
next
  case (unknown_Cons bs v k p)
  then obtain n where n: "fuel = Suc n" by (cases fuel) auto
  note step = decode_loop_skips [OF unknown_Cons.prems(1-4) unknown_Cons.hyps(1-4) unknown_Cons.prems(5) [unfolded n]]
  obtain es' where "decode_loop fuel env D (iter_at fs dest i) seen es s m =
      decode_loop n env D (iter_at fs dest i) seen es' (buf_advance s (k + p)) m" using step(1) n by blast
  moreover have "length (drop (k + p) bs) < n" using step(3,4) n unknown_Cons.prems(5) by simp
  ultimately show ?case
    using unknown_Cons.IH [OF unknown_Cons.prems(1-3) step(2), of n] step(4) by (simp add: buf.advance_add)
qed

text \<open>
  C22: A decoder skips the fields it does not know: an input that consists of such fields, in any
  number and of any wire types, is consumed to its end and does not change the struct. The
  result is the one of an empty message.
\<close>

theorem decode_unknown_fields:
  assumes "wf_array fs" and "no_extensions fs" and "buf_content m s = Some bs" and "unknown_fields fs bs"
    and "Suc (length bs) < fuel"
  shows "pb_decode_noinit fuel env s fs dest m =
    Some (if req_index fs (nfields fs) = 0 then (True, buf_advance s (length bs), m)
          else (False, i_set_error (buf_advance s (length bs)) ''missing required field'', m))"
  using assms(5) decode_loop_unknown [OF assms(4,1,2) valid_pos_0 assms(3)]
  by (intro noinit_run [OF assms(1) valid_pos_0]) simp_all

theorem decode_unknown_fields_witness:
  "pb_decode_noinit 9 no_user (ex_stream 8 [0x30, 0x96, 1, 0x3A, 1, 65]) ex_sub 100 (ex_mem 8 [0x30, 0x96, 1, 0x3A, 1, 65]) =
     Some (True, buf_advance (ex_stream 8 [0x30, 0x96, 1, 0x3A, 1, 65]) 6, ex_mem 8 [0x30, 0x96, 1, 0x3A, 1, 65])"
proof -
  let ?bs = "[0x30, 0x96, 1, 0x3A, 1, 65 :: byte]"
  have "wf_array ex_sub" "req_index ex_sub (nfields ex_sub) = 0" by code_simp+
  moreover have "no_extensions ex_sub" by (rule wf_no_extensions [of 0 _ 4]) code_simp
  moreover have "buf_content (ex_mem 8 ?bs) (ex_stream 8 ?bs) = Some ?bs" by (rule ex_content) simp
  moreover have "unknown_fields ex_sub ?bs"
    by (rule unknown_Cons [where k = 1 and p = 2 and v = 48], code_simp, simp, code_simp, code_simp,
      rule unknown_Cons [where k = 1 and p = 2 and v = 58], code_simp, simp, code_simp, code_simp) (simp add: unknown_Nil)
  ultimately show ?thesis using decode_unknown_fields [of ex_sub "ex_mem 8 ?bs" "ex_stream 8 ?bs" ?bs 9] by (simp add: eval_nat_numeral)
qed

section \<open>Truncated input\<close>








end
