(* ===== verification/PbEncode.thy ===== *)
theory PbEncode
  imports PbOStream
begin

text \<open>
  Encoding a message (pb_encode.c): the encoders of single values, arrays, the proto3
  default-value check, fields with static, pointer and callback allocation, extensions,
  submessages and the loop over the fields. The encoder of a submessage gets the message
  encoder as an argument; the recursion is tied in \<open>pb_encode\<close>, whose fuel bounds the
  depth of submessages and the length of descriptor arrays and extension lists.
\<close>

type_synonym encoder = "pb_ostream_t \<Rightarrow> pb_field_t \<Rightarrow> ptr \<Rightarrow> mem \<Rightarrow> (bool \<times> pb_ostream_t \<times> mem) option"
type_synonym msg_encoder = "pb_ostream_t \<Rightarrow> pb_field_t list \<Rightarrow> ptr \<Rightarrow> mem \<Rightarrow> (bool \<times> pb_ostream_t \<times> mem) option"

section \<open>Values\<close>

text \<open>
  Reading an integer of the field's size, widened to 64 bits. The outer option is an invalid
  access, the inner one a size no integer has.
\<close>

definition load_signed :: "mem \<Rightarrow> u32 \<Rightarrow> ptr \<Rightarrow> u64 option option" where
  "load_signed m sz src =
     (if sz = 1 then do { (v :: byte) \<leftarrow> load_word m src 1; Some (Some (scast v)) }
      else if sz = 2 then do { (v :: u16) \<leftarrow> load_word m src 2; Some (Some (scast v)) }
      else if sz = 4 then do { (v :: u32) \<leftarrow> load_word m src 4; Some (Some (scast v)) }
      else if sz = 8 then do { (v :: u64) \<leftarrow> load_word m src 8; Some (Some v) }
      else Some None)"

definition load_unsigned :: "mem \<Rightarrow> u32 \<Rightarrow> ptr \<Rightarrow> u64 option option" where
  "load_unsigned m sz src =
     (if sz = 1 then do { (v :: byte) \<leftarrow> load_word m src 1; Some (Some (ucast v)) }
      else if sz = 2 then do { (v :: u16) \<leftarrow> load_word m src 2; Some (Some (ucast v)) }
      else if sz = 4 then do { (v :: u32) \<leftarrow> load_word m src 4; Some (Some (ucast v)) }
      else if sz = 8 then do { (v :: u64) \<leftarrow> load_word m src 8; Some (Some v) }
      else Some None)"

definition pb_enc_varint :: "pb_env \<Rightarrow> encoder" where
  "pb_enc_varint env s field src m = do {
     r \<leftarrow> load_signed m (data_size field) src;
     case r of None \<Rightarrow> Some (False, o_set_error s ''invalid data_size'', m)
     | Some value \<Rightarrow> pb_encode_varint env s value m
   }"

definition pb_enc_uvarint :: "pb_env \<Rightarrow> encoder" where
  "pb_enc_uvarint env s field src m = do {
     r \<leftarrow> load_unsigned m (data_size field) src;
     case r of None \<Rightarrow> Some (False, o_set_error s ''invalid data_size'', m)
     | Some value \<Rightarrow> pb_encode_varint env s value m
   }"

definition pb_enc_svarint :: "pb_env \<Rightarrow> encoder" where
  "pb_enc_svarint env s field src m = do {
     r \<leftarrow> load_signed m (data_size field) src;
     case r of None \<Rightarrow> Some (False, o_set_error s ''invalid data_size'', m)
     | Some value \<Rightarrow> pb_encode_svarint env s value m
   }"

definition pb_enc_fixed32 :: "pb_env \<Rightarrow> encoder" where
  "pb_enc_fixed32 env s field src m = pb_encode_fixed32 env s src m"

definition pb_enc_fixed64 :: "pb_env \<Rightarrow> encoder" where
  "pb_enc_fixed64 env s field src m = pb_encode_fixed64 env s src m"

definition pb_enc_bytes :: "pb_env \<Rightarrow> encoder" where
  "pb_enc_bytes env s field src m =
     (if src = 0 then pb_encode_string env s SNull 0 m
      else do {
        (sz :: u32) \<leftarrow> load_word m src 4;
        if PB_ATYPE (type field) = PB_ATYPE_STATIC \<and> PB_BYTES_ARRAY_T_ALLOCSIZE sz > ucast (data_size field)
        then Some (False, o_set_error s ''bytes size exceeded'', m)
        else pb_encode_string env s (SMem (src + 4)) (ucast sz) m
      })"

text \<open>The loop that looks for the terminator, at most \<open>max_size\<close> bytes far.\<close>

function strnlen_loop :: "mem \<Rightarrow> ptr \<Rightarrow> nat \<Rightarrow> nat \<Rightarrow> nat option" where
  "strnlen_loop m p sz max_sz =
     (if sz < max_sz then do {
        c \<leftarrow> m p;
        if c \<noteq> 0 then strnlen_loop m (p + 1) (Suc sz) max_sz else Some sz
      }
      else Some sz)"
  by pat_completeness auto
termination by (relation "measure (\<lambda>(m, p, sz, max_sz). max_sz - sz)") auto

declare strnlen_loop.simps [simp del]

definition pb_enc_string :: "pb_env \<Rightarrow> encoder" where
  "pb_enc_string env s field src m =
     (let max_sz = (if PB_ATYPE (type field) = PB_ATYPE_POINTER then 0xFFFFFFFFFFFFFFFF
                    else unat (data_size field))
      in if src = 0 then pb_encode_string env s SNull 0 m
         else do {
           sz \<leftarrow> strnlen_loop m src 0 max_sz;
           pb_encode_string env s (SMem src) (of_nat sz) m
         })"

definition pb_enc_fixed_length_bytes :: "pb_env \<Rightarrow> encoder" where
  "pb_enc_fixed_length_bytes env s field src m =
     pb_encode_string env s (if src = 0 then SNull else SMem src) (ucast (data_size field)) m"

section \<open>Submessages\<close>

text \<open>
  The message is encoded twice: once into a sizing stream, and once into a substream of that
  size, whose length must come out the same.
\<close>

definition pb_encode_submessage :: "pb_env \<Rightarrow> msg_encoder \<Rightarrow> msg_encoder" where
  "pb_encode_submessage env encode s fs src m = do {
     (b, substream, m1) \<leftarrow> encode PB_OSTREAM_SIZING fs src m;
     if \<not> b then Some (False, s\<lparr>o_errmsg := o_errmsg substream\<rparr>, m1)
     else do {
       let sz = bytes_written substream;
       (b', s', m2) \<leftarrow> pb_encode_varint env s sz m1;
       if \<not> b' then Some (False, s', m2)
       else if o_callback s' = Sizing then pb_write env s' SNull sz m2
       else if bytes_written s' + sz > max_size s' then Some (False, o_set_error s' ''stream full'', m2)
       else do {
         (status, sub, m3) \<leftarrow>
           encode \<lparr>o_callback = o_callback s', o_state = o_state s', max_size = sz,
                   bytes_written = 0, o_errmsg = None\<rparr> fs src m2;
         let s'' = s'\<lparr>o_state := o_state sub, bytes_written := bytes_written s' + bytes_written sub,
                      o_errmsg := o_errmsg sub\<rparr>;
         if bytes_written sub \<noteq> sz then Some (False, o_set_error s'' ''submsg size changed'', m3)
         else Some (status, s'', m3)
       }
     }
   }"

definition pb_enc_submessage :: "pb_env \<Rightarrow> msg_encoder \<Rightarrow> encoder" where
  "pb_enc_submessage env encode s field src m =
     (case field_ptr field of
        PNull \<Rightarrow> Some (False, o_set_error s ''invalid field descriptor'', m)
      | PDefault _ \<Rightarrow> None
      | PFields fs \<Rightarrow> pb_encode_submessage env encode s fs src m)"

text \<open>The table of encoders, as \<open>PB_DECODERS\<close>.\<close>

definition PB_ENCODERS :: "pb_env \<Rightarrow> encoder \<Rightarrow> byte \<Rightarrow> encoder option option" where
  "PB_ENCODERS env sub lt =
     (if lt = PB_LTYPE_VARINT then Some (Some (pb_enc_varint env))
      else if lt = PB_LTYPE_UVARINT then Some (Some (pb_enc_uvarint env))
      else if lt = PB_LTYPE_SVARINT then Some (Some (pb_enc_svarint env))
      else if lt = PB_LTYPE_FIXED32 then Some (Some (pb_enc_fixed32 env))
      else if lt = PB_LTYPE_FIXED64 then Some (Some (pb_enc_fixed64 env))
      else if lt = PB_LTYPE_BYTES then Some (Some (pb_enc_bytes env))
      else if lt = PB_LTYPE_STRING then Some (Some (pb_enc_string env))
      else if lt = PB_LTYPE_SUBMESSAGE then Some (Some sub)
      else if lt = PB_LTYPE_EXTENSION then Some None
      else if lt = PB_LTYPE_FIXED_LENGTH_BYTES then Some (Some (pb_enc_fixed_length_bytes env))
      else None)"

definition call_encoder :: "encoder option \<Rightarrow> encoder" where
  "call_encoder func s field src m = (case func of None \<Rightarrow> None | Some f \<Rightarrow> f s field src m)"

section \<open>Arrays\<close>

text \<open>A loop over \<open>count\<close> items, \<open>data_size\<close> bytes apart.\<close>

fun encode_items :: "nat \<Rightarrow> encoder \<Rightarrow> pb_ostream_t \<Rightarrow> pb_field_t \<Rightarrow> ptr \<Rightarrow> mem \<Rightarrow> (bool \<times> pb_ostream_t \<times> mem) option" where
  "encode_items 0 func s field p m = Some (True, s, m)"
| "encode_items (Suc n) func s field p m = do {
     (b, s', m') \<leftarrow> func s field p m;
     if \<not> b then Some (False, s', m')
     else encode_items n func s' field (p + uint (data_size field)) m'
   }"

text \<open>An unpacked item: its tag, then the value, through one more pointer for pointer arrays.\<close>

definition encode_unpacked_item :: "pb_env \<Rightarrow> encoder option \<Rightarrow> encoder" where
  "encode_unpacked_item env func s field p m = do {
     (b, s', m') \<leftarrow> pb_encode_tag_for_field env s field m;
     if \<not> b then Some (False, s', m')
     else if PB_ATYPE (type field) = PB_ATYPE_POINTER \<and>
             (PB_LTYPE (type field) = PB_LTYPE_STRING \<or> PB_LTYPE (type field) = PB_LTYPE_BYTES)
     then do { q \<leftarrow> load_ptr m' p; call_encoder func s' field q m' }
     else call_encoder func s' field p m'
   }"

definition encode_array :: "pb_env \<Rightarrow> pb_ostream_t \<Rightarrow> pb_field_t \<Rightarrow> ptr \<Rightarrow> u64 \<Rightarrow> encoder option \<Rightarrow> mem \<Rightarrow> (bool \<times> pb_ostream_t \<times> mem) option" where
  "encode_array env s field pd count func m =
     (if count = 0 then Some (True, s, m)
      else if PB_ATYPE (type field) \<noteq> PB_ATYPE_POINTER \<and> count > ucast (array_size field)
      then Some (False, o_set_error s ''array max size exceeded'', m)
      else if PB_LTYPE (type field) \<le> PB_LTYPE_LAST_PACKABLE then do {
        (b, s1, m1) \<leftarrow> pb_encode_tag env s PB_WT_STRING (tag field) m;
        if \<not> b then Some (False, s1, m1)
        else do {
          (b, sz, m2) \<leftarrow>
            (if PB_LTYPE (type field) = PB_LTYPE_FIXED32 then Some (True, 4 * count, m1)
             else if PB_LTYPE (type field) = PB_LTYPE_FIXED64 then Some (True, 8 * count, m1)
             else do {
               (b, sizestream, m') \<leftarrow> encode_items (unat count) (call_encoder func) PB_OSTREAM_SIZING field pd m1;
               Some (b, bytes_written sizestream, m')
             });
          if \<not> b then Some (False, s1, m2)
          else do {
            (b, s2, m3) \<leftarrow> pb_encode_varint env s1 sz m2;
            if \<not> b then Some (False, s2, m3)
            else if o_callback s2 = Sizing then pb_write env s2 SNull sz m3
            else encode_items (unat count) (call_encoder func) s2 field pd m3
          }
        }
      }
      else encode_items (unat count) (encode_unpacked_item env func) s field pd m)"

section \<open>The proto3 default-value check\<close>

fun all_zero :: "mem \<Rightarrow> ptr \<Rightarrow> nat \<Rightarrow> bool option" where
  "all_zero m p 0 = Some True"
| "all_zero m p (Suc n) = do { b \<leftarrow> m p; if b \<noteq> 0 then Some False else all_zero m (p + 1) n }"

fun pb_check_proto3_default_value :: "nat \<Rightarrow> pb_field_t \<Rightarrow> ptr \<Rightarrow> mem \<Rightarrow> bool option"
and check_proto3_loop :: "nat \<Rightarrow> pb_field_iter_t \<Rightarrow> mem \<Rightarrow> bool option"
where
  "pb_check_proto3_default_value 0 field pd m = None"
| "pb_check_proto3_default_value (Suc n) field pd m =
     (if PB_ATYPE (type field) = PB_ATYPE_STATIC \<and> PB_LTYPE (type field) = PB_LTYPE_BYTES then do {
        (sz :: u32) \<leftarrow> load_word m pd 4; Some (sz = 0) }
      else if PB_ATYPE (type field) = PB_ATYPE_STATIC \<and> PB_LTYPE (type field) = PB_LTYPE_STRING then do {
        c \<leftarrow> m pd; Some (c = 0) }
      else if PB_ATYPE (type field) = PB_ATYPE_STATIC \<and> PB_LTYPE (type field) = PB_LTYPE_FIXED_LENGTH_BYTES then
        Some (data_size field = 0)
      else if PB_ATYPE (type field) = PB_ATYPE_STATIC \<and> PB_LTYPE (type field) = PB_LTYPE_SUBMESSAGE then
        (case field_ptr field of
           PFields fs \<Rightarrow> do {
             (b, it) \<leftarrow> pb_field_iter_begin fs pd;
             if b then check_proto3_loop n it m else Some True
           }
         | _ \<Rightarrow> None)
      else all_zero m pd (unat (data_size field)))"
| "check_proto3_loop 0 it m = None"
| "check_proto3_loop (Suc n) it m = do {
     f \<leftarrow> it_field it;
     z \<leftarrow> pb_check_proto3_default_value n f (pData it) m;
     if \<not> z then Some False
     else do {
       (b, it') \<leftarrow> pb_field_iter_next it;
       if b then check_proto3_loop n it' m else Some True
     }
   }"

section \<open>Fields\<close>

text \<open>
  The has flag and the count are read through \<open>pSize\<close>, which points into the struct, or to
  the local \<open>implicit_has\<close>: one byte, so a four-byte read through it is undefined.
\<close>

definition encode_basic_field :: "nat \<Rightarrow> pb_env \<Rightarrow> encoder \<Rightarrow> encoder" where
  "encode_basic_field fuel env sub s field pd m = do {
     func \<leftarrow> PB_ENCODERS env sub (PB_LTYPE (type field));
     let ps = pd + sint (size_offset field);
     implicit0 \<leftarrow>
       (if size_offset field \<noteq> 0 then Some True
        else if PB_HTYPE (type field) = PB_HTYPE_OPTIONAL then do {
          z \<leftarrow> pb_check_proto3_default_value fuel field pd m; Some (\<not> z) }
        else Some True);
     (pd', implicit_has) \<leftarrow>
       (if PB_ATYPE (type field) = PB_ATYPE_POINTER then do { q \<leftarrow> load_ptr m pd; Some (q, q \<noteq> 0) }
        else Some (pd, implicit0));
     if PB_HTYPE (type field) = PB_HTYPE_REQUIRED then
       if pd' = 0 then Some (False, o_set_error s ''missing required field'', m)
       else do {
         (b, s', m') \<leftarrow> pb_encode_tag_for_field env s field m;
         if \<not> b then Some (False, s', m') else call_encoder func s' field pd' m'
       }
     else if PB_HTYPE (type field) = PB_HTYPE_OPTIONAL then do {
       has \<leftarrow> (if size_offset field \<noteq> 0 then do { b \<leftarrow> m ps; Some (b \<noteq> 0) } else Some implicit_has);
       if has then do {
         (b, s', m') \<leftarrow> pb_encode_tag_for_field env s field m;
         if \<not> b then Some (False, s', m') else call_encoder func s' field pd' m'
       }
       else Some (True, s, m)
     }
     else if PB_HTYPE (type field) = PB_HTYPE_REPEATED then
       if size_offset field = 0 then None
       else do {
         (count :: u32) \<leftarrow> load_word m ps 4;
         encode_array env s field pd' (ucast count) func m
       }
     else if size_offset field = 0 then None
     else do {
       (which :: u32) \<leftarrow> load_word m ps 4;
       if which = tag field then do {
         (b, s', m') \<leftarrow> pb_encode_tag_for_field env s field m;
         if \<not> b then Some (False, s', m') else call_encoder func s' field pd' m'
       }
       else Some (True, s, m)
     }
   }"

definition encode_callback_field :: "pb_env \<Rightarrow> encoder" where
  "encode_callback_field env s field pd m = do {
     fp \<leftarrow> load_ptr m (pd + cb_off_funcs);
     if fp \<noteq> 0 then do {
       encode \<leftarrow> enc_fn env fp;
       (b, s', m') \<leftarrow> encode s field (pd + cb_off_arg) m;
       if \<not> b then Some (False, o_set_error s' ''callback error'', m') else Some (True, s', m')
     }
     else Some (True, s, m)
   }"

definition encode_field :: "nat \<Rightarrow> pb_env \<Rightarrow> encoder \<Rightarrow> encoder" where
  "encode_field fuel env sub s field pd m =
     (if PB_ATYPE (type field) = PB_ATYPE_STATIC \<or> PB_ATYPE (type field) = PB_ATYPE_POINTER
      then encode_basic_field fuel env sub s field pd m
      else if PB_ATYPE (type field) = PB_ATYPE_CALLBACK then encode_callback_field env s field pd m
      else Some (False, o_set_error s ''invalid field type'', m))"

section \<open>Extension fields\<close>

definition default_extension_encoder :: "pb_env \<Rightarrow> encoder \<Rightarrow> pb_ostream_t \<Rightarrow> ptr \<Rightarrow> mem \<Rightarrow> (bool \<times> pb_ostream_t \<times> mem) option" where
  "default_extension_encoder env enc_field s ext m = do {
     tp \<leftarrow> load_ptr m (ext + ext_off_type);
     et \<leftarrow> ext_types env tp;
     if PB_ATYPE (type (ext_arg et)) = PB_ATYPE_POINTER
     then enc_field s (ext_arg et) (ext + ext_off_dest) m
     else do {
       dest \<leftarrow> load_ptr m (ext + ext_off_dest);
       enc_field s (ext_arg et) dest m
     }
   }"

fun encode_extension_loop :: "nat \<Rightarrow> pb_env \<Rightarrow> encoder \<Rightarrow> ptr \<Rightarrow> pb_ostream_t \<Rightarrow> mem \<Rightarrow> (bool \<times> pb_ostream_t \<times> mem) option" where
  "encode_extension_loop 0 env enc_field ext s m = None"
| "encode_extension_loop (Suc n) env enc_field ext s m =
     (if ext = 0 then Some (True, s, m)
      else do {
        tp \<leftarrow> load_ptr m (ext + ext_off_type);
        et \<leftarrow> ext_types env tp;
        (status, s', m') \<leftarrow>
          (if ext_encode et \<noteq> 0 then do { encode \<leftarrow> extenc_fn env (ext_encode et); encode s ext m }
           else default_extension_encoder env enc_field s ext m);
        if \<not> status then Some (False, s', m')
        else do {
          nxt \<leftarrow> load_ptr m' (ext + ext_off_next);
          encode_extension_loop n env enc_field nxt s' m'
        }
      })"

definition encode_extension_field :: "nat \<Rightarrow> pb_env \<Rightarrow> encoder \<Rightarrow> encoder" where
  "encode_extension_field fuel env enc_field s field pd m = do {
     ext \<leftarrow> load_ptr m pd;
     encode_extension_loop fuel env enc_field ext s m
   }"

section \<open>Messages\<close>

fun encode_loop :: "nat \<Rightarrow> encoder \<Rightarrow> encoder \<Rightarrow> pb_field_iter_t \<Rightarrow> pb_ostream_t \<Rightarrow> mem \<Rightarrow> (bool \<times> pb_ostream_t \<times> mem) option" where
  "encode_loop 0 enc_field enc_ext it s m = None"
| "encode_loop (Suc n) enc_field enc_ext it s m = do {
     f \<leftarrow> it_field it;
     (b, s', m') \<leftarrow>
       (if PB_LTYPE (type f) = PB_LTYPE_EXTENSION then enc_ext s f (pData it) m
        else enc_field s f (pData it) m);
     if \<not> b then Some (False, s', m')
     else do {
       (more, it') \<leftarrow> pb_field_iter_next it;
       if more then encode_loop n enc_field enc_ext it' s' m' else Some (True, s', m')
     }
   }"

fun pb_encode :: "nat \<Rightarrow> pb_env \<Rightarrow> msg_encoder" where
  "pb_encode 0 env s fs src m = None"
| "pb_encode (Suc n) env s fs src m = do {
     (b, it) \<leftarrow> pb_field_iter_begin fs src;
     if \<not> b then Some (True, s, m)
     else
       let enc = encode_field n env (pb_enc_submessage env (pb_encode n env))
       in encode_loop n enc (encode_extension_field n env enc) it s m
   }"

definition pb_encode_delimited :: "nat \<Rightarrow> pb_env \<Rightarrow> msg_encoder" where
  "pb_encode_delimited fuel env = pb_encode_submessage env (pb_encode fuel env)"

definition pb_get_encoded_size :: "nat \<Rightarrow> pb_env \<Rightarrow> pb_field_t list \<Rightarrow> ptr \<Rightarrow> mem \<Rightarrow> (u64 option \<times> mem) option" where
  "pb_get_encoded_size fuel env fs src m = do {
     (b, s, m') \<leftarrow> pb_encode fuel env PB_OSTREAM_SIZING fs src m;
     Some (if b then Some (bytes_written s) else None, m')
   }"

end
