(* ===== verification/PbSink.thy ===== *)
theory PbSink
  imports PbEncode PbReadProps
begin

text \<open>
  What it means that an operation on an output stream emits a list of bytes. A sink is a sizing
  stream or a stream into a memory buffer with its free space. An operation emits
  \<open>out\<close> when on every sink with room for it succeeds, appends \<open>out\<close> to the buffer and counts
  its length, and on every other sink fails without touching anything but the free space. The
  operations may read the memory outside the buffer, the addresses in \<open>A\<close>, where it does
  not change. \<open>emits_seq\<close> composes operations as the encoder does.
\<close>

section \<open>Sinks\<close>

definition sink_end :: "pb_ostream_t \<Rightarrow> ptr" where
  "sink_end s = o_state s + uint (max_size s) - uint (bytes_written s)"

definition sink :: "ptr set \<Rightarrow> mem \<Rightarrow> pb_ostream_t \<Rightarrow> bool" where
  "sink A m s \<longleftrightarrow> o_callback s = Sizing \<or>
     o_callback s = Buf_write \<and> uint (bytes_written s) \<le> uint (max_size s) \<and> uint (max_size s) < 2 ^ 63 \<and>
     {o_state s ..< sink_end s} \<subseteq> dom m - A"

definition has_room :: "pb_ostream_t \<Rightarrow> nat \<Rightarrow> bool" where
  "has_room s n \<longleftrightarrow> o_callback s = Sizing \<or> unat (bytes_written s) + n \<le> unat (max_size s)"

definition put :: "pb_ostream_t \<Rightarrow> nat \<Rightarrow> pb_ostream_t" where
  "put s n = s\<lparr>o_state := (if o_callback s = Sizing then o_state s else o_state s + int n),
     bytes_written := bytes_written s + of_nat n\<rparr>"

definition put_mem :: "pb_ostream_t \<Rightarrow> mem \<Rightarrow> byte list \<Rightarrow> mem" where
  "put_mem s m bs = (if o_callback s = Sizing then m else upd_bytes m (o_state s) bs)"

text \<open>Nothing but the free space of the sink has changed.\<close>

definition sink_frame :: "pb_ostream_t \<Rightarrow> mem \<Rightarrow> mem \<Rightarrow> bool" where
  "sink_frame s m m' \<longleftrightarrow> (if o_callback s = Sizing then m' = m
     else dom m' = dom m \<and> (\<forall>a. a \<notin> {o_state s ..< sink_end s} \<longrightarrow> m' a = m a))"

definition agree :: "ptr set \<Rightarrow> mem \<Rightarrow> mem \<Rightarrow> bool" where
  "agree A m m' \<longleftrightarrow> (\<forall>a \<in> A. m' a = m a)"

type_synonym emitter = "pb_ostream_t \<Rightarrow> mem \<Rightarrow> (bool \<times> pb_ostream_t \<times> mem) option"

text \<open>The error message of the stream is left open: a submessage resets it.\<close>

definition emit_post :: "byte list \<Rightarrow> pb_ostream_t \<Rightarrow> mem \<Rightarrow> bool \<times> pb_ostream_t \<times> mem \<Rightarrow> bool" where
  "emit_post out s m = (\<lambda>(b, s', m').
     if has_room s (length out) then b \<and> (\<exists>e. s' = (put s (length out))\<lparr>o_errmsg := e\<rparr>) \<and> m' = put_mem s m out
     else \<not> b \<and> sink_frame s m m')"

definition emits :: "ptr set \<Rightarrow> mem \<Rightarrow> emitter \<Rightarrow> byte list \<Rightarrow> bool" where
  "emits A m0 W out \<longleftrightarrow> (\<forall>s m. agree A m0 m \<and> sink A m s \<longrightarrow> ok (W s m) (emit_post out s m))"

lemma emitsI: "(\<And>s m. agree A m0 m \<Longrightarrow> sink A m s \<Longrightarrow> ok (W s m) (emit_post out s m)) \<Longrightarrow> emits A m0 W out"
  by (simp add: emits_def)

lemma emitsD: "emits A m0 W out \<Longrightarrow> agree A m0 m \<Longrightarrow> sink A m s \<Longrightarrow> ok (W s m) (emit_post out s m)"
  by (simp add: emits_def)

lemma has_room_0 [simp]: "sink A m s \<Longrightarrow> has_room s 0"
  by (auto simp: sink_def has_room_def word_le_def word_le_nat_alt simp flip: word_le_def)

lemma errmsg_simps [simp]:
  "sink A m (s\<lparr>o_errmsg := e\<rparr>) = sink A m s" "has_room (s\<lparr>o_errmsg := e\<rparr>) n = has_room s n"
  "put (s\<lparr>o_errmsg := e\<rparr>) n = (put s n)\<lparr>o_errmsg := e\<rparr>" "put_mem (s\<lparr>o_errmsg := e\<rparr>) m bs = put_mem s m bs"
  "sink_frame (s\<lparr>o_errmsg := e\<rparr>) m m' = sink_frame s m m'" "sink_end (s\<lparr>o_errmsg := e\<rparr>) = sink_end s"
  by (simp_all add: sink_def has_room_def put_def put_mem_def sink_frame_def sink_end_def)

lemma emit_post_success:
  "has_room s (length out) \<Longrightarrow> emit_post out s m (True, put s (length out), put_mem s m out)"
proof -
  have "r = r\<lparr>o_errmsg := o_errmsg r\<rparr>" for r :: pb_ostream_t by simp
  then have "\<exists>e. put s (length out) = (put s (length out))\<lparr>o_errmsg := e\<rparr>" by blast
  then show "has_room s (length out) \<Longrightarrow> emit_post out s m (True, put s (length out), put_mem s m out)"
    by (simp add: emit_post_def)
qed

lemma put_0 [simp]: "put s 0 = s"
  by (simp add: put_def)

lemma put_mem_Nil [simp]: "put_mem s m [] = m"
  by (simp add: put_mem_def)

lemma put_simps [simp]:
  "o_callback (put s n) = o_callback s" "max_size (put s n) = max_size s" "o_errmsg (put s n) = o_errmsg s"
  by (simp_all add: put_def)

lemma put_put [simp]: "put (put s i) j = put s (i + j)"
  by (simp add: put_def algebra_simps)

text \<open>After bytes that fit, the count is exact.\<close>

lemma put_written:
  assumes "o_callback s \<noteq> Sizing" and "has_room s n"
  shows "unat (bytes_written (put s n)) = unat (bytes_written s) + n"
proof -
  have "unat (bytes_written s) + n < 2 ^ 64"
    using assms unsigned_less [of "max_size s", where ?'a = nat] by (simp add: has_room_def)
  then show ?thesis
    by (simp add: put_def unat_word_ariths unat_of_nat)
qed

lemma has_room_put: "has_room s i \<Longrightarrow> has_room (put s i) j \<longleftrightarrow> has_room s (i + j)"
  by (cases "o_callback s = Sizing") (auto simp: has_room_def put_written [unfolded has_room_def])

lemma sink_end_put: "o_callback s \<noteq> Sizing \<Longrightarrow> has_room s n \<Longrightarrow> sink_end (put s n) = sink_end s"
proof -
  assume a: "o_callback s \<noteq> Sizing" "has_room s n"
  have "int (unat (bytes_written (put s n))) = int (unat (bytes_written s)) + int n"
    using put_written [OF a] by simp
  then show ?thesis using a(1) by (simp add: sink_end_def put_def)
qed

lemma has_room_le: "has_room s n \<Longrightarrow> k \<le> n \<Longrightarrow> has_room s k"
  by (auto simp: has_room_def)

lemma room_int:
  "o_callback s \<noteq> Sizing \<Longrightarrow> has_room s n \<longleftrightarrow> o_state s + int n \<le> sink_end s"
proof -
  assume "o_callback s \<noteq> Sizing"
  then have "has_room s n \<longleftrightarrow> int (unat (bytes_written s) + n) \<le> int (unat (max_size s))"
    by (simp only: has_room_def of_nat_le_iff simp_thms)
  also have "\<dots> \<longleftrightarrow> uint (bytes_written s) + int n \<le> uint (max_size s)" by simp
  finally show ?thesis by (simp add: sink_end_def) linarith
qed

lemma interval_sub: "{p ..< e} \<subseteq> D \<Longrightarrow> p + n \<le> e \<Longrightarrow> {p ..< p + n :: int} \<subseteq> D"
  by (rule subset_trans [rotated]) auto

lemma sink_put:
  assumes "sink A m s" and "has_room s (length bs)"
  shows "sink A (put_mem s m bs) (put s (length bs))"
proof (cases "o_callback s = Sizing")
  case True
  then show ?thesis by (simp add: sink_def)
next
  case False
  let ?n = "length bs"
  from assms False have b: "o_callback s = Buf_write" and m: "uint (max_size s) < 2 ^ 63"
    and d: "{o_state s ..< sink_end s} \<subseteq> dom m - A" by (auto simp: sink_def)
  have le: "o_state s + int ?n \<le> sink_end s" using assms(2) room_int [OF False] by simp
  then have "mapped m (o_state s) (int ?n)" using interval_sub [OF d, of "int ?n"] by (auto simp: mapped_def)
  then have dom: "dom (put_mem s m bs) = dom m"
    using False same_outside_dom [OF same_outside_upd] by (simp add: put_mem_def)
  have "unat (bytes_written (put s ?n)) \<le> unat (max_size s)"
    using put_written [OF False assms(2)] assms(2) False by (simp add: has_room_def)
  then have "uint (bytes_written (put s ?n)) \<le> uint (max_size s)"
    by (simp only: flip: word_le_def word_le_nat_alt)
  moreover have "o_state (put s ?n) = o_state s + int ?n" using False by (simp add: put_def)
  then have "{o_state (put s ?n) ..< sink_end (put s ?n)} \<subseteq> {o_state s ..< sink_end s}"
    using sink_end_put [OF False assms(2)] by auto
  then have "{o_state (put s ?n) ..< sink_end (put s ?n)} \<subseteq> dom (put_mem s m bs) - A"
    unfolding dom using d by (rule subset_trans)
  ultimately show ?thesis using b m by (simp add: sink_def)
qed

lemma agree_put:
  assumes "sink A m s" and "has_room s (length bs)" and "agree A m0 m"
  shows "agree A m0 (put_mem s m bs)"
proof (cases "o_callback s = Sizing")
  case True
  with assms show ?thesis by (simp add: put_mem_def)
next
  case False
  with assms have d: "{o_state s ..< sink_end s} \<subseteq> - A" and "o_state s + int (length bs) \<le> sink_end s"
    using room_int [OF False] by (auto simp: sink_def)
  from interval_sub [OF this] have "\<not> (o_state s \<le> a \<and> a < o_state s + int (length bs))" if "a \<in> A" for a
    using that by fastforce
  with assms(3) False show ?thesis by (auto simp: agree_def put_mem_def upd_bytes_def)
qed

lemma put_mem_append:
  "put_mem (put s (length xs)) (put_mem s m xs) ys = put_mem s m (xs @ ys)"
proof (cases "o_callback s = Sizing")
  case False
  then show ?thesis by (simp add: put_mem_def put_def upd_bytes_append)
qed (simp add: put_mem_def)

lemma frame_put:
  assumes "sink A m s" and "has_room s (length bs)" and "sink_frame (put s (length bs)) (put_mem s m bs) m'"
  shows "sink_frame s m m'"
proof (cases "o_callback s = Sizing")
  case True
  with assms(3) show ?thesis by (simp add: sink_frame_def put_mem_def)
next
  case False
  let ?n = "length bs"
  have le: "o_state s + int ?n \<le> sink_end s" using assms(2) room_int [OF False] by simp
  have d: "{o_state s ..< sink_end s} \<subseteq> dom m" using assms(1) False by (auto simp: sink_def)
  with le have "mapped m (o_state s) (int ?n)" using interval_sub [OF d, of "int ?n"] by (simp add: mapped_def)
  from same_outside_upd [OF this] assms(3) False le show ?thesis
    by (auto simp: sink_frame_def put_mem_def same_outside_def sink_end_put [OF False assms(2)])
      (simp add: put_def)
qed

text \<open>Composition: the second operation starts where the first one stopped.\<close>

lemma emits_seq:
  assumes 1: "emits A m0 W1 out1" and 2: "emits A m0 W2 out2"
  shows "emits A m0 (\<lambda>s m. do { (b, s', m') \<leftarrow> W1 s m; if \<not> b then Some (False, s', m') else W2 s' m' }) (out1 @ out2)"
proof (rule emitsI)
  fix s m assume a: "agree A m0 m" and s: "sink A m s"
  from emitsD [OF 1 a s] obtain b s1 m1 where w: "W1 s m = Some (b, s1, m1)" and p: "emit_post out1 s m (b, s1, m1)"
    by (auto simp: ok_conv)
  show "ok (do { (b, s', m') \<leftarrow> W1 s m; if \<not> b then Some (False, s', m') else W2 s' m' }) (emit_post (out1 @ out2) s m)"
  proof (cases "has_room s (length out1)")
    case False
    then have "\<not> has_room s (length (out1 @ out2))" using has_room_le by fastforce
    with False w p show ?thesis by (simp add: emit_post_def)
  next
    case True
    with p obtain e where b: "b" and s1: "s1 = (put s (length out1))\<lparr>o_errmsg := e\<rparr>" and m1: "m1 = put_mem s m out1"
      by (auto simp: emit_post_def)
    have "ok (W2 s1 m1) (emit_post out2 s1 m1)"
      unfolding s1 m1 using a s True by (intro emitsD [OF 2] agree_put) (simp_all add: sink_put)
    moreover have "emit_post out2 s1 m1 r \<Longrightarrow> emit_post (out1 @ out2) s m r" for r
      using has_room_put [OF True, of "length out2"] frame_put [OF s True]
      by (auto simp: emit_post_def s1 m1 put_mem_append split: prod.splits if_splits)
    ultimately show ?thesis using w b by (auto elim: ok_mono)
  qed
qed

lemma emits_nothing: "emits A m0 (\<lambda>s m. Some (True, s, m)) []"
  using emit_post_success [of _ "[]"] by (intro emitsI) simp

section \<open>The primitive writers\<close>

text \<open>A write of \<open>n\<close> bytes whose source delivers \<open>bs\<close>, whatever the memory outside \<open>A\<close> holds.\<close>

definition delivers :: "ptr set \<Rightarrow> mem \<Rightarrow> write_src \<Rightarrow> byte list \<Rightarrow> bool" where
  "delivers A m0 src bs \<longleftrightarrow>
     (case src of SMem p \<Rightarrow> {p ..< p + int (length bs)} \<subseteq> A \<and> load_bytes m0 p (length bs) = Some bs
      | SLocal xs \<Rightarrow> length bs \<le> length xs \<and> bs = take (length bs) xs
      | SNull \<Rightarrow> bs = [])"

lemma load_agree:
  "agree A m0 m \<Longrightarrow> {p ..< p + int n} \<subseteq> A \<Longrightarrow> load_bytes m p n = load_bytes m0 p n"
  by (rule load_bytes_cong) (auto simp: agree_def subset_eq)

lemma copy_bytes_deliver:
  assumes "load_bytes m p (length bs) = Some bs" and "mapped m q (int (length bs))"
    and "{p ..< p + int (length bs)} \<inter> {q ..< q + int (length bs)} = {}"
  shows "copy_bytes m p q (length bs) = Some (upd_bytes m q bs)"
proof (cases "bs = []")
  case False
  have "p + int (length bs) \<le> q \<or> q + int (length bs) \<le> p"
  proof (rule ccontr)
    assume "\<not> ?thesis"
    then have "max p q \<in> {p ..< p + int (length bs)} \<inter> {q ..< q + int (length bs)}" using False by auto
    with assms(3) show False by blast
  qed
  with assms(1,2) show ?thesis by (rule copy_bytes_disjoint)
qed simp

lemma buf_write_deliver:
  assumes "delivers A m0 src bs" and "agree A m0 m" and "sink A m s" and "o_callback s = Buf_write"
    and "has_room s (length bs)" and "unat cnt = length bs"
  shows "buf_write s src cnt m = Some (True, s\<lparr>o_state := o_state s + uint cnt\<rparr>, upd_bytes m (o_state s) bs)"
proof -
  have d: "{o_state s ..< sink_end s} \<subseteq> dom m - A" "o_state s + int (length bs) \<le> sink_end s"
    using assms(3-5) room_int [of s "length bs"] by (auto simp: sink_def)
  note free = interval_sub [OF d]
  then have m: "mapped m (o_state s) (int (length bs))" by (auto simp: mapped_def)
  show ?thesis
  proof (cases src)
    case (SMem p)
    with assms(1) have p: "{p ..< p + int (length bs)} \<subseteq> A" "load_bytes m0 p (length bs) = Some bs"
      by (simp_all add: delivers_def)
    have "load_bytes m p (length bs) = Some bs" using load_agree [OF assms(2) p(1)] p(2) by simp
    moreover have "{p ..< p + int (length bs)} \<inter> {o_state s ..< o_state s + int (length bs)} = {}"
      using free p(1) by blast
    ultimately have "copy_bytes m p (o_state s) (length bs) = Some (upd_bytes m (o_state s) bs)"
      using m by (intro copy_bytes_deliver)
    then show ?thesis by (simp add: buf_write_def SMem assms(6))
  next
    case (SLocal xs)
    with assms(1,6) have "src_bytes src (unat cnt) m = Some bs" by (simp add: delivers_def)
    with m SLocal show ?thesis by (simp add: buf_write_def store_bytes_conv)
  next
    case SNull
    with assms(1,6) show ?thesis by (simp add: buf_write_def delivers_def)
  qed
qed

lemma write_emits:
  assumes "delivers A m0 src bs" and "unat cnt = length bs" and "length bs < 2 ^ 63"
  shows "emits A m0 (\<lambda>s m. pb_write env s src cnt m) bs"
proof (rule emitsI)
  fix s m assume a: "agree A m0 m" and s: "sink A m s"
  have "of_nat (unat cnt) = cnt" "int (unat cnt) = uint cnt" by simp_all
  then have cnt: "cnt = of_nat (length bs)" and ucnt: "uint cnt = int (length bs)" unfolding assms(2) by simp_all
  show "ok (pb_write env s src cnt m) (emit_post bs s m)"
  proof (cases "o_callback s = Sizing")
    case True
    then show ?thesis using emit_post_success [of s bs m]
      by (simp add: pb_write_def has_room_def put_def put_mem_def cnt)
  next
    case False
    with s have cb: "o_callback s = Buf_write" and "int (unat (max_size s)) < int (2 ^ 63)"
      and "int (unat (bytes_written s)) \<le> int (unat (max_size s))" by (auto simp: sink_def)
    then have small: "unat (max_size s) < 2 ^ 63" and le: "unat (bytes_written s) \<le> unat (max_size s)"
      by (simp_all only: of_nat_less_iff of_nat_le_iff)
    have "unat (bytes_written s + cnt) = unat (bytes_written s) + length bs"
      using small le assms by (simp add: unat_word_ariths)
    then have full: "bytes_written s + cnt > max_size s \<longleftrightarrow> \<not> has_room s (length bs)"
      using False by (simp add: has_room_def word_less_nat_alt not_le)
    show ?thesis
    proof (cases "has_room s (length bs)")
      case True
      with buf_write_deliver [OF assms(1) a s cb True assms(2)] full cb emit_post_success [OF True, of m] show ?thesis
        by (simp add: pb_write_def call_write_def put_def put_mem_def ucnt) (simp add: cnt)
    next
      case room: False
      with full cb show ?thesis by (simp add: pb_write_def emit_post_def sink_frame_def)
    qed
  qed
qed

lemma encode_varint_emits: "emits A m0 (\<lambda>s m. pb_encode_varint env s v m) (varint_bytes v)"
proof -
  have "length (varint_bytes v) \<le> 10" using varint_bytes_shape [of v] by simp
  then show ?thesis unfolding pb_encode_varint_write
    by (intro write_emits) (simp_all add: delivers_def unat_of_nat)
qed

lemma encode_svarint_emits: "emits A m0 (\<lambda>s m. pb_encode_svarint env s v m) (varint_bytes (zigzag v))"
  unfolding pb_encode_svarint_def by (rule encode_varint_emits)

definition tag_bytes :: "pb_wire_type_t \<Rightarrow> u32 \<Rightarrow> byte list" where
  "tag_bytes wt t = varint_bytes (push_bit 3 (ucast t) OR ucast wt)"

lemma encode_tag_emits: "emits A m0 (\<lambda>s m. pb_encode_tag env s wt t m) (tag_bytes wt t)"
  unfolding pb_encode_tag_def tag_bytes_def by (rule encode_varint_emits)

lemma encode_string_emits:
  assumes "delivers A m0 src bs" and "unat cnt = length bs" and "length bs < 2 ^ 63"
  shows "emits A m0 (\<lambda>s m. pb_encode_string env s src cnt m) (varint_bytes cnt @ bs)"
  unfolding pb_encode_string_def by (intro emits_seq encode_varint_emits write_emits assms)

end
