(* ===== verification/PbEncodeSpec.thy ===== *)
theory PbEncodeSpec
  imports PbSink PbDecodeSafe
begin

text \<open>
  What a message should look like on the wire: a specification that computes the bytes of a
  message from the struct in memory, without streams, buffers, sizing passes or
  substreams. It is undefined (\<open>None\<close>) where the message has no encoding or is not
  covered (callbacks that are set, extension lists that are not empty). The encoder is shown to
  emit exactly these bytes (\<open>encode_emits\<close>), whether it writes into a buffer or only
  counts.
\<close>

section \<open>The specification\<close>

fun concat_opts :: "'a list option list \<Rightarrow> 'a list option" where
  "concat_opts [] = Some []"
| "concat_opts (x # xs) = do { a \<leftarrow> x; b \<leftarrow> concat_opts xs; Some (a @ b) }"

text \<open>A length prefix and the bytes; objects are smaller than \<open>2 ^ 63\<close> bytes.\<close>

definition delimited :: "byte list \<Rightarrow> byte list option" where
  "delimited bs = (if int (length bs) < 2 ^ 63 then Some (varint_bytes (of_nat (length bs)) @ bs) else None)"

definition value_bytes :: "mem \<Rightarrow> (pb_field_t list \<Rightarrow> ptr \<Rightarrow> byte list option) \<Rightarrow> pb_field_t \<Rightarrow> ptr \<Rightarrow> byte list option" where
  "value_bytes R sub f p =
     (let lt = PB_LTYPE (type f) in
      if lt = PB_LTYPE_VARINT then do { r \<leftarrow> load_signed R (data_size f) p; v \<leftarrow> r; Some (varint_bytes v) }
      else if lt = PB_LTYPE_UVARINT then do { r \<leftarrow> load_unsigned R (data_size f) p; v \<leftarrow> r; Some (varint_bytes v) }
      else if lt = PB_LTYPE_SVARINT then do { r \<leftarrow> load_signed R (data_size f) p; v \<leftarrow> r; Some (varint_bytes (zigzag v)) }
      else if lt = PB_LTYPE_FIXED32 then load_bytes R p 4
      else if lt = PB_LTYPE_FIXED64 then load_bytes R p 8
      else if lt = PB_LTYPE_BYTES then
        if p = 0 then delimited []
        else do {
          (sz :: u32) \<leftarrow> load_word R p 4;
          if PB_ATYPE (type f) = PB_ATYPE_STATIC \<and> PB_BYTES_ARRAY_T_ALLOCSIZE sz > ucast (data_size f) then None
          else do { bs \<leftarrow> load_bytes R (p + 4) (unat sz); delimited bs }
        }
      else if lt = PB_LTYPE_STRING then
        if p = 0 then delimited []
        else do {
          n \<leftarrow> strnlen_loop R p 0 (if PB_ATYPE (type f) = PB_ATYPE_POINTER then 0xFFFFFFFFFFFFFFFF else unat (data_size f));
          bs \<leftarrow> load_bytes R p n;
          delimited bs
        }
      else if lt = PB_LTYPE_SUBMESSAGE then
        (case field_ptr f of PFields fs \<Rightarrow> do { bs \<leftarrow> sub fs p; delimited bs } | _ \<Rightarrow> None)
      else if lt = PB_LTYPE_FIXED_LENGTH_BYTES then
        if p = 0 then None else do { bs \<leftarrow> load_bytes R p (unat (data_size f)); delimited bs }
      else None)"

definition field_tag :: "pb_field_t \<Rightarrow> byte list option" where
  "field_tag f = map_option (\<lambda>wt. tag_bytes wt (tag f)) (wiretype_of (PB_LTYPE (type f)))"

definition tagged_value :: "mem \<Rightarrow> (pb_field_t list \<Rightarrow> ptr \<Rightarrow> byte list option) \<Rightarrow> pb_field_t \<Rightarrow> ptr \<Rightarrow> byte list option" where
  "tagged_value R sub f p = do { t \<leftarrow> field_tag f; v \<leftarrow> value_bytes R sub f p; Some (t @ v) }"

text \<open>The addresses of the items of an array.\<close>

fun item_addrs :: "nat \<Rightarrow> pb_field_t \<Rightarrow> ptr \<Rightarrow> ptr list" where
  "item_addrs 0 f p = []"
| "item_addrs (Suc n) f p = p # item_addrs n f (p + uint (data_size f))"

definition array_bytes :: "mem \<Rightarrow> (pb_field_t list \<Rightarrow> ptr \<Rightarrow> byte list option) \<Rightarrow> pb_field_t \<Rightarrow> ptr \<Rightarrow> u32 \<Rightarrow> byte list option" where
  "array_bytes R sub f p count =
     (if count = 0 then Some []
      else if PB_ATYPE (type f) \<noteq> PB_ATYPE_POINTER \<and> count > array_size f then None
      else if PB_LTYPE (type f) \<le> PB_LTYPE_LAST_PACKABLE then do {
        bs \<leftarrow> concat_opts (map (value_bytes R sub f) (item_addrs (unat count) f p));
        d \<leftarrow> delimited bs;
        Some (tag_bytes PB_WT_STRING (tag f) @ d)
      }
      else concat_opts (map (\<lambda>q.
        if PB_ATYPE (type f) = PB_ATYPE_POINTER \<and> (PB_LTYPE (type f) = PB_LTYPE_STRING \<or> PB_LTYPE (type f) = PB_LTYPE_BYTES)
        then do { q' \<leftarrow> load_ptr R q; tagged_value R sub f q' }
        else tagged_value R sub f q) (item_addrs (unat count) f p)))"

text \<open>When a proto3 field counts as absent. The first argument bounds the nesting.\<close>

fun all_default :: "(pb_field_t \<Rightarrow> ptr \<Rightarrow> bool option) \<Rightarrow> (pb_field_t \<times> ptr) list \<Rightarrow> bool option" where
  "all_default D [] = Some True"
| "all_default D ((f, p) # xs) = do { z \<leftarrow> D f p; if z then all_default D xs else Some False }"

definition members :: "pb_field_t list \<Rightarrow> ptr \<Rightarrow> (pb_field_t \<times> ptr) list" where
  "members fs base = map (\<lambda>i. (fs ! i, base + data_pos fs i)) [0 ..< nfields fs]"

primrec default_value :: "nat \<Rightarrow> mem \<Rightarrow> pb_field_t \<Rightarrow> ptr \<Rightarrow> bool option" where
  "default_value 0 R f p = None"
| "default_value (Suc d) R f p =
     (if PB_ATYPE (type f) = PB_ATYPE_STATIC \<and> PB_LTYPE (type f) = PB_LTYPE_BYTES then do {
        (sz :: u32) \<leftarrow> load_word R p 4; Some (sz = 0) }
      else if PB_ATYPE (type f) = PB_ATYPE_STATIC \<and> PB_LTYPE (type f) = PB_LTYPE_STRING then do {
        c \<leftarrow> R p; Some (c = 0) }
      else if PB_ATYPE (type f) = PB_ATYPE_STATIC \<and> PB_LTYPE (type f) = PB_LTYPE_FIXED_LENGTH_BYTES then
        Some (data_size f = 0)
      else if PB_ATYPE (type f) = PB_ATYPE_STATIC \<and> PB_LTYPE (type f) = PB_LTYPE_SUBMESSAGE then
        (case field_ptr f of
           PFields fs \<Rightarrow> if wf_array fs then all_default (default_value d R) (members fs p) else None
         | _ \<Rightarrow> None)
      else all_zero R p (unat (data_size f)))"

definition field_bytes :: "nat \<Rightarrow> mem \<Rightarrow> (pb_field_t list \<Rightarrow> ptr \<Rightarrow> byte list option) \<Rightarrow> pb_field_t \<Rightarrow> ptr \<Rightarrow> byte list option" where
  "field_bytes d R sub f p =
     (if PB_LTYPE (type f) = PB_LTYPE_EXTENSION then do {
        ext \<leftarrow> load_ptr R p; if ext = 0 then Some [] else None }
      else if PB_ATYPE (type f) = PB_ATYPE_CALLBACK then do {
        fp \<leftarrow> load_ptr R p; if fp = 0 then Some [] else None }
      else if PB_LTYPE (type f) \<le> PB_LTYPE_FIXED_LENGTH_BYTES \<and>
          (PB_ATYPE (type f) = PB_ATYPE_STATIC \<or> PB_ATYPE (type f) = PB_ATYPE_POINTER) then do {
        let ps = p + sint (size_offset f);
        nondefault \<leftarrow>
          (if size_offset f = 0 \<and> PB_HTYPE (type f) = PB_HTYPE_OPTIONAL
           then map_option Not (default_value d R f p) else Some True);
        (q, implicit) \<leftarrow>
          (if PB_ATYPE (type f) = PB_ATYPE_POINTER then do { q \<leftarrow> load_ptr R p; Some (q, q \<noteq> 0) }
           else Some (p, nondefault));
        if PB_HTYPE (type f) = PB_HTYPE_REQUIRED then
          if q = 0 then None else tagged_value R sub f q
        else if PB_HTYPE (type f) = PB_HTYPE_OPTIONAL then do {
          has \<leftarrow> (if size_offset f \<noteq> 0 then do { b \<leftarrow> R ps; Some (b \<noteq> 0) } else Some implicit);
          if has then tagged_value R sub f q else Some []
        }
        else if size_offset f = 0 then None
        else if PB_HTYPE (type f) = PB_HTYPE_REPEATED then do {
          (count :: u32) \<leftarrow> load_word R ps 4;
          array_bytes R sub f q count
        }
        else do {
          (which :: u32) \<leftarrow> load_word R ps 4;
          if which = tag f then tagged_value R sub f q else Some []
        }
      }
      else None)"

primrec message_bytes :: "nat \<Rightarrow> mem \<Rightarrow> pb_field_t list \<Rightarrow> ptr \<Rightarrow> byte list option" where
  "message_bytes 0 R fs src = None"
| "message_bytes (Suc d) R fs src =
     (if wf_array fs
      then concat_opts (map (\<lambda>(f, p). field_bytes d R (message_bytes d R) f p) (members fs src))
      else None)"

section \<open>Reading from a part of the memory\<close>

text \<open>
  What can be read from a part of the memory reads the same from any memory that agrees with it
  there.
\<close>

lemma map_leD: "R \<subseteq>\<^sub>m m \<Longrightarrow> R a = Some b \<Longrightarrow> m a = Some b"
  unfolding map_le_def by (metis domI)

lemma load_bytes_le: "R \<subseteq>\<^sub>m m \<Longrightarrow> load_bytes R p n = Some bs \<Longrightarrow> load_bytes m p n = Some bs"
proof (induction n arbitrary: p bs)
  case 0
  then show ?case by simp
next
  case (Suc n)
  then obtain b bs' where "R p = Some b" "load_bytes R (p + 1) n = Some bs'" "bs = b # bs'"
    by (auto simp: bind_eq_Some_conv)
  with Suc show ?case by (auto dest: map_leD)
qed

lemma load_word_le: "R \<subseteq>\<^sub>m m \<Longrightarrow> load_word R p n = Some w \<Longrightarrow> load_word m p n = Some w"
  by (auto simp: load_word_def bind_eq_Some_conv dest: load_bytes_le)

lemma load_ptr_le: "R \<subseteq>\<^sub>m m \<Longrightarrow> load_ptr R p = Some q \<Longrightarrow> load_ptr m p = Some q"
  by (auto simp: load_ptr_def bind_eq_Some_conv dest: load_word_le)

lemma load_signed_le: "R \<subseteq>\<^sub>m m \<Longrightarrow> load_signed R sz p = Some v \<Longrightarrow> load_signed m sz p = Some v"
  by (auto simp: load_signed_def bind_eq_Some_conv dest: load_word_le split: if_splits)

lemma load_unsigned_le: "R \<subseteq>\<^sub>m m \<Longrightarrow> load_unsigned R sz p = Some v \<Longrightarrow> load_unsigned m sz p = Some v"
  by (auto simp: load_unsigned_def bind_eq_Some_conv dest: load_word_le split: if_splits)

lemma strnlen_loop_le:
  "R \<subseteq>\<^sub>m m \<Longrightarrow> strnlen_loop R p sz mx = Some n \<Longrightarrow> strnlen_loop m p sz mx = Some n"
proof (induction R p sz mx rule: strnlen_loop.induct)
  case (1 R p sz mx)
  show ?case
  proof (cases "sz < mx")
    case True
    with 1 show ?thesis
      by (auto simp: strnlen_loop.simps [of R p sz mx] strnlen_loop.simps [of m p sz mx] bind_eq_Some_conv
          dest: map_leD split: if_splits)
  next
    case False
    then have "strnlen_loop X p sz mx = Some sz" for X by (simp add: strnlen_loop.simps [of X p sz mx])
    with 1 show ?thesis by simp
  qed
qed

lemma all_zero_le: "R \<subseteq>\<^sub>m m \<Longrightarrow> all_zero R p n = Some z \<Longrightarrow> all_zero m p n = Some z"
  by (induction R p n rule: all_zero.induct) (auto simp: bind_eq_Some_conv dest: map_leD split: if_splits)

lemma agree_le: "agree A m0 m \<Longrightarrow> m0 |` A \<subseteq>\<^sub>m m"
  by (auto simp: map_le_def agree_def restrict_map_def)

lemma load_restricted:
  assumes "load_bytes (m0 |` A) p n = Some bs"
  shows "delivers A m0 (SMem p) bs" and "length bs = n"
proof -
  have at: "length bs = n" "\<And>i. i < n \<Longrightarrow> (m0 |` A) (p + int i) = Some (bs ! i)"
    using assms by (auto simp: load_bytes_iff)
  have "a \<in> A" if "a \<in> {p ..< p + int n}" for a
  proof -
    from that have "nat (a - p) < n" "a = p + int (nat (a - p))" by auto
    with at(2) [of "nat (a - p)"] show ?thesis by (auto simp: restrict_map_def split: if_splits)
  qed
  moreover have "load_bytes m0 p n = Some bs"
    by (rule load_bytes_le [OF _ assms]) (simp add: map_le_def)
  ultimately show "delivers A m0 (SMem p) bs" and "length bs = n" using at(1) by (auto simp: delivers_def)
qed

section \<open>The proto3 check\<close>

text \<open>The fuel the check of a field needs.\<close>

definition check_fuel :: "nat \<Rightarrow> pb_field_t \<Rightarrow> nat" where
  "check_fuel d f = 1 + (case field_ptr f of PFields sub \<Rightarrow> msg_fuel d sub | _ \<Rightarrow> 0)"

lemma check_loop_default:
  assumes wa: "wf_array fs"
    and f: "\<And>i z n'. i < nfields fs \<Longrightarrow> D (fs ! i) (p + data_pos fs i) = Some z \<Longrightarrow> B \<le> n' \<Longrightarrow>
      pb_check_proto3_default_value n' (fs ! i) (p + data_pos fs i) m = Some z"
  shows "i < nfields fs \<Longrightarrow> nfields fs - i + B \<le> n \<Longrightarrow>
    all_default D (map (\<lambda>i. (fs ! i, p + data_pos fs i)) [i ..< nfields fs]) = Some z \<Longrightarrow>
    check_proto3_loop n (iter_at fs p i) m = Some z"
proof (induction n arbitrary: i)
  case 0
  then show ?case by simp
next
  case (Suc n)
  have up: "[i ..< nfields fs] = i # [Suc i ..< nfields fs]" using Suc.prems(1) by (rule upt_conv_Cons)
  have fld: "it_field (iter_at fs p i) = Some (fs ! i)" using wa Suc.prems(1) by (simp add: it_field_at)
  obtain z1 where z1: "D (fs ! i) (p + data_pos fs i) = Some z1" using Suc.prems(3) by (auto simp: up bind_eq_Some_conv)
  have c: "pb_check_proto3_default_value n (fs ! i) (p + data_pos fs i) m = Some z1"
    using Suc.prems by (intro f z1) auto
  show ?case
  proof (cases "Suc i < nfields fs")
    case True
    with Suc.IH [of "Suc i"] Suc.prems z1 c fld show ?thesis by (auto simp: up iter_next_at [OF wa])
  next
    case False
    with Suc.prems z1 c fld show ?thesis by (auto simp: up iter_next_at [OF wa])
  qed
qed

lemma default_value_check:
  "default_value d R f p = Some z \<Longrightarrow> R \<subseteq>\<^sub>m m \<Longrightarrow> check_fuel d f \<le> fuel \<Longrightarrow>
   pb_check_proto3_default_value fuel f p m = Some z"
proof (induction d arbitrary: f p z fuel)
  case 0
  then show ?case by simp
next
  case (Suc d)
  from Suc.prems(3) obtain k where fuel: "fuel = Suc k" by (cases fuel) (auto simp: check_fuel_def)
  show ?case
  proof (cases "PB_ATYPE (type f) = PB_ATYPE_STATIC \<and> PB_LTYPE (type f) = PB_LTYPE_SUBMESSAGE")
    case False
    with Suc.prems(1,2) show ?thesis
      by (auto simp: fuel bind_eq_Some_conv dest: load_word_le all_zero_le map_leD split: if_splits)
  next
    case True
    with Suc.prems(1) obtain fs where fs: "field_ptr f = PFields fs" and wa: "wf_array fs"
      and all: "all_default (default_value d R) (members fs p) = Some z"
      by (auto split: field_ptr.splits if_splits)
    define B where "B = msg_fuel (Suc d) fs - (2 + nfields fs) + 1"
    have k: "nfields fs + B \<le> k" using Suc.prems(3) by (simp add: fuel check_fuel_def fs B_def)
    show ?thesis
    proof (cases "nfields fs = 0")
      case True
      with all \<open>PB_ATYPE (type f) = PB_ATYPE_STATIC \<and> PB_LTYPE (type f) = PB_LTYPE_SUBMESSAGE\<close> show ?thesis
        by (simp add: fuel fs iter_begin_at [OF wa] members_def)
    next
      case False
      have "check_proto3_loop k (iter_at fs p 0) m = Some z"
      proof (rule check_loop_default [OF wa])
        fix i z n' assume i: "i < nfields fs" and z: "default_value d R (fs ! i) (p + data_pos fs i) = Some z" and B: "B \<le> n'"
        have "fs ! i \<in> set fs" using wf_array_length [OF wa] i by simp
        then have "check_fuel d (fs ! i) \<le> B"
          using msg_fuel_sub [of "fs ! i" fs _ d] by (auto simp: check_fuel_def B_def split: field_ptr.split)
        with B z Suc.prems(2) show "pb_check_proto3_default_value n' (fs ! i) (p + data_pos fs i) m = Some z"
          by (intro Suc.IH) auto
      qed (use False k all in \<open>auto simp: members_def\<close>)
      with False \<open>PB_ATYPE (type f) = PB_ATYPE_STATIC \<and> PB_LTYPE (type f) = PB_LTYPE_SUBMESSAGE\<close> show ?thesis
        by (simp add: fuel fs iter_begin_at [OF wa])
    qed
  qed
qed

section \<open>The encoders emit what the specification says\<close>

lemma emits_cong:
  "emits A m0 W' out \<Longrightarrow> (\<And>s m. agree A m0 m \<Longrightarrow> W s m = W' s m) \<Longrightarrow> emits A m0 W out"
  by (simp add: emits_def)

lemma delivers_nil: "delivers A m0 SNull []"
  by (simp add: delivers_def)

lemma string_emits:
  assumes "delimited bs = Some out" and "delivers A m0 src bs" and "cnt = of_nat (length bs)"
  shows "emits A m0 (\<lambda>s m. pb_encode_string env s src cnt m) out"
proof -
  from assms(1) have len: "length bs < 2 ^ 63" and out: "out = varint_bytes cnt @ bs"
    using assms(3) by (auto simp: delimited_def split: if_splits)
  then have "unat cnt = length bs" using assms(3) by (simp add: unat_of_nat)
  with len assms(2) show ?thesis unfolding out by (intro encode_string_emits)
qed

text \<open>The bytes of a fixed-width value are those in memory.\<close>

lemma le_word_bytes:
  "length bs \<le> n \<Longrightarrow> 8 * n \<le> LENGTH('a) \<Longrightarrow> i < length bs \<Longrightarrow> ucast (drop_bit (8 * i) (le_word bs :: 'a::len word)) = bs ! i"
proof (rule bit_word_eqI)
  fix k assume a: "length bs \<le> n" "8 * n \<le> LENGTH('a)" "i < length bs" and "k < LENGTH(8)"
  then have k: "k < 8" "8 * i + k < LENGTH('a)" "(8 * i + k) div 8 = i" "(8 * i + k) mod 8 = k" by simp_all
  with a show "bit (ucast (drop_bit (8 * i) (le_word bs :: 'a word)) :: byte) k = bit (bs ! i) k"
    by (auto simp: bit_ucast_iff bit_drop_bit_eq bit_le_word)
qed

lemma bit_FF: "bit (0xFF :: 'a::len word) n \<longleftrightarrow> n < 8 \<and> n < LENGTH('a)"
proof -
  have "(0xFF :: 'a word) = mask 8" by (simp add: mask_eq_exp_minus_1)
  then show ?thesis by (simp only: bit_mask_iff possible_bit_word) auto
qed

lemma ucast_and_FF: "(ucast (w AND 0xFF :: 'a::len word) :: byte) = ucast w"
  by (rule bit_word_eqI)
    (auto simp: bit_ucast_iff bit_and_iff bit_FF simp del: bit_numeral_word_iff dest: bit_imp_le_length)

lemma fixed32_bytes:
  assumes "length bs = 4"
  shows "[ucast ((le_word bs :: u32) AND 0xFF), ucast (drop_bit 8 (le_word bs :: u32) AND 0xFF),
      ucast (drop_bit 16 (le_word bs :: u32) AND 0xFF), ucast (drop_bit 24 (le_word bs :: u32) AND 0xFF)] = bs"
proof -
  obtain a b c d where bs: "bs = [a, b, c, d]" using assms by (auto simp: numeral_eq_Suc length_Suc_conv)
  have "ucast (drop_bit (8 * i) (le_word bs :: u32)) = bs ! i" if "i < 4" for i
    using le_word_bytes [of bs 4 i, where 'a = 32] assms that by simp
  from this [of 0] this [of 1] this [of 2] this [of 3] show ?thesis
    by (simp only: ucast_and_FF) (simp add: bs del: le_word.simps)
qed

lemma fixed64_bytes:
  assumes "length bs = 8"
  shows "[ucast ((le_word bs :: u64) AND 0xFF), ucast (drop_bit 8 (le_word bs :: u64) AND 0xFF),
      ucast (drop_bit 16 (le_word bs :: u64) AND 0xFF), ucast (drop_bit 24 (le_word bs :: u64) AND 0xFF),
      ucast (drop_bit 32 (le_word bs :: u64) AND 0xFF), ucast (drop_bit 40 (le_word bs :: u64) AND 0xFF),
      ucast (drop_bit 48 (le_word bs :: u64) AND 0xFF), ucast (drop_bit 56 (le_word bs :: u64) AND 0xFF)] = bs"
proof -
  obtain a b c d e f g h where bs: "bs = [a, b, c, d, e, f, g, h]"
    using assms by (auto simp: numeral_eq_Suc length_Suc_conv)
  have "ucast (drop_bit (8 * i) (le_word bs :: u64)) = bs ! i" if "i < 8" for i
    using le_word_bytes [of bs 8 i, where 'a = 64] assms that by simp
  from this [of 0] this [of 1] this [of 2] this [of 3] this [of 4] this [of 5] this [of 6] this [of 7] show ?thesis
    by (simp only: ucast_and_FF) (simp add: bs del: le_word.simps)
qed

lemma fixed32_emits:
  assumes "load_bytes (m0 |` A) p 4 = Some bs"
  shows "emits A m0 (\<lambda>s m. pb_encode_fixed32 env s p m) bs"
proof -
  have len: "length bs = 4" using load_restricted(2) [OF assms] .
  have "emits A m0 (\<lambda>s m. pb_write env s (SLocal bs) 4 m) bs"
    by (rule write_emits) (simp_all add: delivers_def len)
  then show ?thesis
    by (rule emits_cong) (simp add: pb_encode_fixed32_def load_word_def load_bytes_le [OF agree_le assms] fixed32_bytes [OF len])
qed

lemma fixed64_emits:
  assumes "load_bytes (m0 |` A) p 8 = Some bs"
  shows "emits A m0 (\<lambda>s m. pb_encode_fixed64 env s p m) bs"
proof -
  have len: "length bs = 8" using load_restricted(2) [OF assms] .
  have "emits A m0 (\<lambda>s m. pb_write env s (SLocal bs) 8 m) bs"
    by (rule write_emits) (simp_all add: delivers_def len)
  then show ?thesis
    by (rule emits_cong) (simp add: pb_encode_fixed64_def load_word_def load_bytes_le [OF agree_le assms] fixed64_bytes [OF len])
qed

text \<open>
  A submessage: the sizing pass counts the bytes, the second pass writes them into a substream
  of exactly that size.
\<close>

lemma submessage_emits:
  assumes enc: "emits A m0 (\<lambda>s m. enc s fs src m) bs" and len: "length bs < 2 ^ 63"
  shows "emits A m0 (\<lambda>s m. pb_encode_submessage env enc s fs src m) (varint_bytes (of_nat (length bs)) @ bs)"
proof -
  let ?n = "of_nat (length bs) :: u64"
  have un: "unat ?n = length bs" using len by (simp add: unat_of_nat)
  then have "int (unat ?n) = int (length bs)" by simp
  then have uin: "uint ?n = int (length bs)" by simp
  define W where "W s m = (if o_callback s = Sizing then pb_write env s SNull ?n m
       else if bytes_written s + ?n > max_size s then Some (False, o_set_error s ''stream full'', m)
       else do {
         (status, sub, m3) \<leftarrow>
           enc \<lparr>o_callback = o_callback s, o_state = o_state s, max_size = ?n,
                   bytes_written = 0, o_errmsg = None\<rparr> fs src m;
         let s'' = s\<lparr>o_state := o_state sub, bytes_written := bytes_written s + bytes_written sub,
                      o_errmsg := o_errmsg sub\<rparr>;
         if bytes_written sub \<noteq> ?n then Some (False, o_set_error s'' ''submsg size changed'', m3)
         else Some (status, s'', m3)
       })" for s m
  have W: "emits A m0 W bs"
  proof (rule emitsI)
    fix s m assume a: "agree A m0 m" and s: "sink A m s"
    show "ok (W s m) (emit_post bs s m)"
    proof (cases "o_callback s = Sizing")
      case True
      then show ?thesis using emit_post_success [of s bs m]
        by (simp add: W_def pb_write_def has_room_def put_def put_mem_def)
    next
      case False
      with s have cb: "o_callback s = Buf_write" and "int (unat (max_size s)) < int (2 ^ 63)"
        and "int (unat (bytes_written s)) \<le> int (unat (max_size s))"
        and free: "{o_state s ..< sink_end s} \<subseteq> dom m - A" by (auto simp: sink_def)
      then have small: "unat (max_size s) < 2 ^ 63" and le: "unat (bytes_written s) \<le> unat (max_size s)"
        by (simp_all only: of_nat_less_iff of_nat_le_iff)
      have "unat (bytes_written s + ?n) = unat (bytes_written s) + length bs"
        using small le len un by (simp add: unat_word_ariths)
      then have full: "bytes_written s + ?n > max_size s \<longleftrightarrow> \<not> has_room s (length bs)"
        using False by (simp add: has_room_def word_less_nat_alt not_le)
      show ?thesis
      proof (cases "has_room s (length bs)")
        case room: False
        with full False show ?thesis by (simp add: W_def emit_post_def sink_frame_def)
      next
        case True
        let ?sub = "\<lparr>o_callback = o_callback s, o_state = o_state s, max_size = ?n,
                   bytes_written = 0, o_errmsg = None\<rparr>"
        have end': "sink_end \<lparr>o_callback = c, o_state = o_state s, max_size = ?n,
            bytes_written = 0, o_errmsg = None\<rparr> = o_state s + int (length bs)" for c
          using uin by (simp add: sink_end_def)
        have "o_state s + int (length bs) \<le> sink_end s" using True room_int [OF False] by simp
        from interval_sub [OF free this] have "sink A m ?sub"
          using cb len uin by (simp add: sink_def end')
        from emitsD [OF enc a this] obtain st sub m3 where
          run: "enc ?sub fs src m = Some (st, sub, m3)" and post: "emit_post bs ?sub m (st, sub, m3)"
          by (auto simp: ok_conv)
        have "has_room ?sub (length bs)" using un False by (simp add: has_room_def)
        with post obtain e where st: "st" and sub: "sub = (put ?sub (length bs))\<lparr>o_errmsg := e\<rparr>"
          and m3: "m3 = put_mem ?sub m bs" by (auto simp: emit_post_def)
        have "W s m = Some (True, (put s (length bs))\<lparr>o_errmsg := e\<rparr>, put_mem s m bs)"
          using False True full st by (simp add: W_def run sub m3 Let_def put_def put_mem_def)
        then show ?thesis using True by (auto simp: emit_post_def)
      qed
    qed
  qed
  have "pb_encode_submessage env enc s fs src m =
      do { (b, s', m') \<leftarrow> pb_encode_varint env s ?n m; if \<not> b then Some (False, s', m') else W s' m' }"
    if a: "agree A m0 m" for s m
  proof -
    let ?z = PB_OSTREAM_SIZING
    have z: "sink A m ?z" "has_room ?z (length bs)" "\<And>bs. put_mem ?z m bs = m"
      by (simp_all add: sink_def has_room_def put_mem_def PB_OSTREAM_SIZING_def)
    from emitsD [OF enc a z(1)] z(2,3) obtain e where
      run: "enc ?z fs src m = Some (True, (put ?z (length bs))\<lparr>o_errmsg := e\<rparr>, m)"
      by (auto simp: ok_conv emit_post_def)
    define z1 where "z1 = (put ?z (length bs))\<lparr>o_errmsg := e\<rparr>"
    have "bytes_written z1 = ?n" by (simp add: z1_def put_def PB_OSTREAM_SIZING_def)
    with run show ?thesis unfolding z1_def [symmetric] W_def
      by (simp add: pb_encode_submessage_def Let_def [of "of_nat (length bs)"])
  qed
  then show ?thesis
    by (intro emits_cong [OF emits_seq [OF encode_varint_emits W]])
qed

text \<open>A value of any type.\<close>

lemma value_emits:
  assumes v: "value_bytes (m0 |` A) sub f p = Some out"
    and sub: "\<And>fs bs. field_ptr f = PFields fs \<Longrightarrow> sub fs p = Some bs \<Longrightarrow> emits A m0 (\<lambda>s m. enc s fs p m) bs"
  obtains E where "PB_ENCODERS env (pb_enc_submessage env enc) (PB_LTYPE (type f)) = Some (Some E)"
    and "emits A m0 (\<lambda>s m. E s f p m) out"
proof -
  let ?l = "PB_LTYPE (type f)" and ?R = "m0 |` A"
  note le = agree_le [of A m0]
  consider "?l = PB_LTYPE_VARINT" | "?l = PB_LTYPE_UVARINT" | "?l = PB_LTYPE_SVARINT" | "?l = PB_LTYPE_FIXED32"
    | "?l = PB_LTYPE_FIXED64" | "?l = PB_LTYPE_BYTES" | "?l = PB_LTYPE_STRING" | "?l = PB_LTYPE_SUBMESSAGE"
    | "?l = PB_LTYPE_FIXED_LENGTH_BYTES"
    using v by (auto simp: value_bytes_def Let_def split: if_splits)
  then have "\<exists>E. PB_ENCODERS env (pb_enc_submessage env enc) ?l = Some (Some E) \<and> emits A m0 (\<lambda>s m. E s f p m) out"
  proof cases
    case 1
    with v obtain x where x: "load_signed ?R (data_size f) p = Some (Some x)" and out: "out = varint_bytes x"
      by (auto simp: value_bytes_def bind_eq_Some_conv)
    have "emits A m0 (\<lambda>s m. pb_enc_varint env s f p m) out" unfolding out
      by (rule emits_cong [OF encode_varint_emits]) (simp add: pb_enc_varint_def load_signed_le [OF le x])
    with 1 show ?thesis by (simp add: PB_ENCODERS_def)
  next
    case 2
    with v obtain x where x: "load_unsigned ?R (data_size f) p = Some (Some x)" and out: "out = varint_bytes x"
      by (auto simp: value_bytes_def bind_eq_Some_conv)
    have "emits A m0 (\<lambda>s m. pb_enc_uvarint env s f p m) out" unfolding out
      by (rule emits_cong [OF encode_varint_emits]) (simp add: pb_enc_uvarint_def load_unsigned_le [OF le x])
    with 2 show ?thesis by (simp add: PB_ENCODERS_def)
  next
    case 3
    with v obtain x where x: "load_signed ?R (data_size f) p = Some (Some x)" and out: "out = varint_bytes (zigzag x)"
      by (auto simp: value_bytes_def bind_eq_Some_conv)
    have "emits A m0 (\<lambda>s m. pb_enc_svarint env s f p m) out" unfolding out
      by (rule emits_cong [OF encode_svarint_emits]) (simp add: pb_enc_svarint_def load_signed_le [OF le x])
    with 3 show ?thesis by (simp add: PB_ENCODERS_def)
  next
    case 4
    with v have "load_bytes ?R p 4 = Some out" by (simp add: value_bytes_def)
    then have "emits A m0 (\<lambda>s m. pb_enc_fixed32 env s f p m) out"
      by (rule emits_cong [OF fixed32_emits]) (simp add: pb_enc_fixed32_def)
    with 4 show ?thesis by (simp add: PB_ENCODERS_def)
  next
    case 5
    with v have "load_bytes ?R p 8 = Some out" by (simp add: value_bytes_def)
    then have "emits A m0 (\<lambda>s m. pb_enc_fixed64 env s f p m) out"
      by (rule emits_cong [OF fixed64_emits]) (simp add: pb_enc_fixed64_def)
    with 5 show ?thesis by (simp add: PB_ENCODERS_def)
  next
    case 6
    have "emits A m0 (\<lambda>s m. pb_enc_bytes env s f p m) out"
    proof (cases "p = 0")
      case True
      with v 6 have "delimited [] = Some out" by (simp add: value_bytes_def)
      from string_emits [OF this delivers_nil, of 0] True show ?thesis by (simp add: pb_enc_bytes_def)
    next
      case False
      with v 6 obtain sz :: u32 and bs where sz: "load_word ?R p 4 = Some sz"
        and ok: "\<not> (PB_ATYPE (type f) = PB_ATYPE_STATIC \<and> PB_BYTES_ARRAY_T_ALLOCSIZE sz > ucast (data_size f))"
        and bs: "load_bytes ?R (p + 4) (unat sz) = Some bs" and out: "delimited bs = Some out"
        by (auto simp: value_bytes_def bind_eq_Some_conv split: if_splits)
      have "(ucast sz :: u64) = of_nat (length bs)" using load_restricted(2) [OF bs] by simp
      from string_emits [OF out load_restricted(1) [OF bs] this] show ?thesis
        by (rule emits_cong) (use False ok in \<open>auto simp: pb_enc_bytes_def load_word_le [OF le sz]\<close>)
    qed
    with 6 show ?thesis by (simp add: PB_ENCODERS_def)
  next
    case 7
    have "emits A m0 (\<lambda>s m. pb_enc_string env s f p m) out"
    proof (cases "p = 0")
      case True
      with v 7 have "delimited [] = Some out" by (simp add: value_bytes_def)
      from string_emits [OF this delivers_nil, of 0] True show ?thesis by (simp add: pb_enc_string_def)
    next
      case False
      let ?max = "if PB_ATYPE (type f) = PB_ATYPE_POINTER then 0xFFFFFFFFFFFFFFFF else unat (data_size f)"
      from False v 7 obtain n bs where n: "strnlen_loop ?R p 0 ?max = Some n"
        and bs: "load_bytes ?R p n = Some bs" and out: "delimited bs = Some out"
        by (auto simp: value_bytes_def bind_eq_Some_conv split: if_splits)
      have "(of_nat n :: u64) = of_nat (length bs)" using load_restricted(2) [OF bs] by simp
      from string_emits [OF out load_restricted(1) [OF bs] this] show ?thesis
        by (rule emits_cong) (use False in \<open>simp only: pb_enc_string_def Let_def strnlen_loop_le [OF le n] if_False Option.bind.simps\<close>)
    qed
    with 7 show ?thesis by (simp add: PB_ENCODERS_def)
  next
    case 8
    with v obtain fs bs where fs: "field_ptr f = PFields fs" and bs: "sub fs p = Some bs" and out: "delimited bs = Some out"
      by (auto simp: value_bytes_def bind_eq_Some_conv split: field_ptr.splits)
    from out have "length bs < 2 ^ 63" "out = varint_bytes (of_nat (length bs)) @ bs"
      by (auto simp: delimited_def split: if_splits)
    with submessage_emits [where enc = enc and src = p, OF sub [OF fs bs]]
    have "emits A m0 (\<lambda>s m. pb_encode_submessage env enc s fs p m) out" by simp
    then have "emits A m0 (\<lambda>s m. pb_enc_submessage env enc s f p m) out"
      by (rule emits_cong) (simp add: pb_enc_submessage_def fs)
    with 8 show ?thesis by (simp add: PB_ENCODERS_def)
  next
    case 9
    with v obtain bs where p: "p \<noteq> 0" and bs: "load_bytes ?R p (unat (data_size f)) = Some bs" and out: "delimited bs = Some out"
      by (auto simp: value_bytes_def bind_eq_Some_conv split: if_splits)
    have "(ucast (data_size f) :: u64) = of_nat (length bs)" using load_restricted(2) [OF bs] by simp
    from string_emits [OF out load_restricted(1) [OF bs] this]
    have "emits A m0 (\<lambda>s m. pb_enc_fixed_length_bytes env s f p m) out"
      by (rule emits_cong) (simp add: pb_enc_fixed_length_bytes_def p)
    with 9 show ?thesis by (simp add: PB_ENCODERS_def)
  qed
  with that show ?thesis by blast
qed

text \<open>Arrays.\<close>

lemma items_emit:
  assumes "\<And>q out. q \<in> set (item_addrs n f p) \<Longrightarrow> vb q = Some out \<Longrightarrow> emits A m0 (\<lambda>s m. E s f q m) out"
  shows "concat_opts (map vb (item_addrs n f p)) = Some out \<Longrightarrow> emits A m0 (\<lambda>s m. encode_items n E s f p m) out"
  using assms
proof (induction n arbitrary: p out)
  case 0
  then show ?case by (simp add: emits_nothing)
next
  case (Suc n)
  from Suc.prems(1) obtain o1 o2 where o1: "vb p = Some o1"
    and o2: "concat_opts (map vb (item_addrs n f (p + uint (data_size f)))) = Some o2" and out: "out = o1 @ o2"
    by (auto simp: bind_eq_Some_conv)
  have "emits A m0 (\<lambda>s m. E s f p m) o1" using o1 by (intro Suc.prems(2)) simp_all
  moreover have "emits A m0 (\<lambda>s m. encode_items n E s f (p + uint (data_size f)) m) o2"
    using o2 by (rule Suc.IH) (intro Suc.prems(2), simp_all)
  ultimately show ?case unfolding out encode_items.simps by (rule emits_seq)
qed

lemma sizing_or_emits:
  assumes "emits A m0 W bs" and "length bs < 2 ^ 63"
  shows "emits A m0 (\<lambda>s m. if o_callback s = Sizing then pb_write env s SNull (of_nat (length bs)) m else W s m) bs"
proof (rule emitsI)
  fix s m assume a: "agree A m0 m" and s: "sink A m s"
  show "ok (if o_callback s = Sizing then pb_write env s SNull (of_nat (length bs)) m else W s m) (emit_post bs s m)"
  proof (cases "o_callback s = Sizing")
    case True
    then show ?thesis using emit_post_success [of s bs m]
      by (simp add: pb_write_def has_room_def put_def put_mem_def)
  next
    case False
    with emitsD [OF assms(1) a s] show ?thesis by simp
  qed
qed

lemma tag_for_field_emits:
  assumes "field_tag f = Some t"
  shows "emits A m0 (\<lambda>s m. pb_encode_tag_for_field env s f m) t"
proof -
  from assms obtain wt where "wiretype_of (PB_LTYPE (type f)) = Some wt" and t: "t = tag_bytes wt (tag f)"
    by (auto simp: field_tag_def)
  then show ?thesis unfolding t
    by (intro emits_cong [OF encode_tag_emits]) (simp add: pb_encode_tag_for_field_def)
qed

lemma fixed_items_length:
  assumes "\<And>q out. vb q = Some out \<Longrightarrow> length out = k"
  shows "concat_opts (map vb (item_addrs n f p)) = Some out \<Longrightarrow> length out = k * n"
  by (induction n arbitrary: p out) (auto simp: bind_eq_Some_conv dest: assms)

text \<open>What a field needs of the encoder of its submessages.\<close>

definition sub_emits :: "ptr set \<Rightarrow> mem \<Rightarrow> (pb_field_t list \<Rightarrow> ptr \<Rightarrow> byte list option) \<Rightarrow> msg_encoder \<Rightarrow> pb_field_t \<Rightarrow> bool" where
  "sub_emits A m0 sub enc f \<longleftrightarrow> (\<forall>fs q bs. field_ptr f = PFields fs \<longrightarrow> sub fs q = Some bs \<longrightarrow>
     emits A m0 (\<lambda>s m. enc s fs q m) bs)"

lemma table_value_emits:
  assumes "PB_ENCODERS env (pb_enc_submessage env enc) (PB_LTYPE (type f)) = Some (Some E)"
    and "sub_emits A m0 sub enc f" and "value_bytes (m0 |` A) sub f q = Some out"
  shows "emits A m0 (\<lambda>s m. E s f q m) out"
  using assms(3)
proof (rule value_emits)
  show "emits A m0 (\<lambda>s m. enc s fs q m) bs" if "field_ptr f = PFields fs" "sub fs q = Some bs" for fs bs
    using assms(2) that by (simp add: sub_emits_def)
  show "emits A m0 (\<lambda>s m. E s f q m) out"
    if "PB_ENCODERS env (pb_enc_submessage env enc) (PB_LTYPE (type f)) = Some (Some E')"
      "emits A m0 (\<lambda>s m. E' s f q m) out" for E'
    using that assms(1) by simp
qed

lemma tagged_emits:
  assumes E: "PB_ENCODERS env (pb_enc_submessage env enc) (PB_LTYPE (type f)) = Some (Some E)"
    and sub: "sub_emits A m0 sub enc f" and v: "tagged_value (m0 |` A) sub f q = Some out"
  shows "emits A m0 (\<lambda>s m. do { (b, s', m') \<leftarrow> pb_encode_tag_for_field env s f m;
           if \<not> b then Some (False, s', m') else call_encoder (Some E) s' f q m' }) out"
proof -
  from v obtain t w where "field_tag f = Some t" "value_bytes (m0 |` A) sub f q = Some w" and out: "out = t @ w"
    by (auto simp: tagged_value_def bind_eq_Some_conv)
  then show ?thesis unfolding out call_encoder_def option.case
    by (intro emits_seq tag_for_field_emits table_value_emits [OF E sub])
qed

lemma unpacked_item_emits:
  assumes E: "PB_ENCODERS env (pb_enc_submessage env enc) (PB_LTYPE (type f)) = Some (Some E)"
    and sub: "sub_emits A m0 sub enc f"
    and v: "(if PB_ATYPE (type f) = PB_ATYPE_POINTER \<and> (PB_LTYPE (type f) = PB_LTYPE_STRING \<or> PB_LTYPE (type f) = PB_LTYPE_BYTES)
        then do { q' \<leftarrow> load_ptr (m0 |` A) q; tagged_value (m0 |` A) sub f q' }
        else tagged_value (m0 |` A) sub f q) = Some out"
  shows "emits A m0 (\<lambda>s m. encode_unpacked_item env (Some E) s f q m) out"
proof (cases "PB_ATYPE (type f) = PB_ATYPE_POINTER \<and> (PB_LTYPE (type f) = PB_LTYPE_STRING \<or> PB_LTYPE (type f) = PB_LTYPE_BYTES)")
  case False
  with v have "tagged_value (m0 |` A) sub f q = Some out" by simp
  from tagged_emits [OF E sub this] show ?thesis
    by (rule emits_cong) (use False in \<open>simp only: encode_unpacked_item_def if_False simp_thms\<close>)
next
  case True
  with v obtain q' where q': "load_ptr (m0 |` A) q = Some q'" and "tagged_value (m0 |` A) sub f q' = Some out"
    by (auto simp: bind_eq_Some_conv)
  then obtain t w where t: "field_tag f = Some t" and w: "value_bytes (m0 |` A) sub f q' = Some w" and out: "out = t @ w"
    by (auto simp: tagged_value_def bind_eq_Some_conv)
  have "emits A m0 (\<lambda>s m. do { q \<leftarrow> load_ptr m q; call_encoder (Some E) s f q m }) w"
    by (rule emits_cong [OF table_value_emits [OF E sub w]])
      (simp add: load_ptr_le [OF agree_le q'] call_encoder_def)
  from emits_seq [OF tag_for_field_emits [OF t] this] show ?thesis unfolding out
    by (rule emits_cong) (use True in \<open>simp only: encode_unpacked_item_def if_True simp_thms\<close>)
qed

lemma packed_size:
  assumes E: "PB_ENCODERS env (pb_enc_submessage env enc) (PB_LTYPE (type f)) = Some (Some E)"
    and sub: "sub_emits A m0 sub enc f" and a: "agree A m0 m"
    and bs: "concat_opts (map (value_bytes (m0 |` A) sub f) (item_addrs (unat count) f p)) = Some bs"
  shows "(if PB_LTYPE (type f) = PB_LTYPE_FIXED32 then Some (True, 4 * ucast count, m)
             else if PB_LTYPE (type f) = PB_LTYPE_FIXED64 then Some (True, 8 * ucast count, m)
             else do {
               (b, sizestream, m') \<leftarrow> encode_items (unat count) (call_encoder (Some E)) PB_OSTREAM_SIZING f p m;
               Some (b, bytes_written sizestream, m')
             }) = Some (True, of_nat (length bs) :: u64, m)"
proof -
  have uc: "(ucast count :: u64) = of_nat (unat count)" by simp
  have len: "length bs = k * unat count" if "\<And>q out. value_bytes (m0 |` A) sub f q = Some out \<Longrightarrow> length out = k" for k
    using fixed_items_length [OF that bs] .
  consider "PB_LTYPE (type f) = PB_LTYPE_FIXED32" | "PB_LTYPE (type f) = PB_LTYPE_FIXED64"
    | "PB_LTYPE (type f) \<notin> {PB_LTYPE_FIXED32, PB_LTYPE_FIXED64}" by blast
  then show ?thesis
  proof cases
    case 1
    then have "length bs = 4 * unat count" by (intro len) (simp add: value_bytes_def load_bytes_length)
    with 1 show ?thesis by simp
  next
    case 2
    then have "length bs = 8 * unat count" by (intro len) (simp add: value_bytes_def load_bytes_length)
    with 2 show ?thesis by simp
  next
    case 3
    let ?z = PB_OSTREAM_SIZING
    have z: "sink A m ?z" "has_room ?z (length bs)" "\<And>bs. put_mem ?z m bs = m" "bytes_written ?z = 0"
      by (simp_all add: sink_def has_room_def put_mem_def PB_OSTREAM_SIZING_def)
    have "emits A m0 (\<lambda>s m. encode_items (unat count) (call_encoder (Some E)) s f p m) bs"
      using bs by (intro items_emit [where vb = "value_bytes (m0 |` A) sub f"])
        (auto simp: call_encoder_def intro: table_value_emits [OF E sub])
    from emitsD [OF this a z(1)] z(2,3) obtain e where
      "encode_items (unat count) (call_encoder (Some E)) ?z f p m = Some (True, (put ?z (length bs))\<lparr>o_errmsg := e\<rparr>, m)"
      by (auto simp: ok_conv emit_post_def)
    with 3 z(4) show ?thesis by (simp add: put_def)
  qed
qed

lemma array_emits:
  assumes E: "PB_ENCODERS env (pb_enc_submessage env enc) (PB_LTYPE (type f)) = Some (Some E)"
    and sub: "sub_emits A m0 sub enc f" and v: "array_bytes (m0 |` A) sub f p count = Some out"
  shows "emits A m0 (\<lambda>s m. encode_array env s f p (ucast count) (Some E) m) out"
proof (cases "count = 0")
  case True
  with v have "out = []" by (simp add: array_bytes_def)
  then show ?thesis using emits_nothing True by (simp add: encode_array_def)
next
  case nz: False
  have uc: "unat (ucast count :: u64) = unat count"
    by (simp add: unsigned_ucast_eq take_bit_nat_eq_self order.strict_trans [OF unsigned_less])
  then have n0: "(ucast count :: u64) \<noteq> 0" using nz by (metis unat_eq_zero)
  have "(ucast count :: u64) > ucast (array_size f) \<longleftrightarrow> count > array_size f" by (simp add: word_less_def)
  with v nz have fits: "(PB_ATYPE (type f) \<noteq> PB_ATYPE_POINTER \<and> (ucast count :: u64) > ucast (array_size f)) = False"
    by (auto simp: array_bytes_def split: if_splits)
  show ?thesis
  proof (cases "PB_LTYPE (type f) \<le> PB_LTYPE_LAST_PACKABLE")
    case False
    with v nz have "concat_opts (map (\<lambda>q.
        if PB_ATYPE (type f) = PB_ATYPE_POINTER \<and> (PB_LTYPE (type f) = PB_LTYPE_STRING \<or> PB_LTYPE (type f) = PB_LTYPE_BYTES)
        then do { q' \<leftarrow> load_ptr (m0 |` A) q; tagged_value (m0 |` A) sub f q' }
        else tagged_value (m0 |` A) sub f q) (item_addrs (unat count) f p)) = Some out"
      by (auto simp: array_bytes_def split: if_splits)
    then have "emits A m0 (\<lambda>s m. encode_items (unat count) (encode_unpacked_item env (Some E)) s f p m) out"
      by (rule items_emit [rotated]) (rule unpacked_item_emits [OF E sub])
    then show ?thesis
      by (rule emits_cong) (use False n0 fits in \<open>simp only: encode_array_def if_False uc\<close>)
  next
    case True
    with v nz obtain bs d where bs: "concat_opts (map (value_bytes (m0 |` A) sub f) (item_addrs (unat count) f p)) = Some bs"
      and d: "delimited bs = Some d" and out: "out = tag_bytes PB_WT_STRING (tag f) @ d"
      by (auto simp: array_bytes_def bind_eq_Some_conv split: if_splits)
    from d have len: "length bs < 2 ^ 63" and d': "d = varint_bytes (of_nat (length bs)) @ bs"
      by (auto simp: delimited_def split: if_splits)
    define W where "W s1 m1 = do {
          (b, sz, m2) \<leftarrow>
            (if PB_LTYPE (type f) = PB_LTYPE_FIXED32 then Some (True, 4 * ucast count, m1)
             else if PB_LTYPE (type f) = PB_LTYPE_FIXED64 then Some (True, 8 * ucast count, m1)
             else do {
               (b, sizestream, m') \<leftarrow> encode_items (unat count) (call_encoder (Some E)) PB_OSTREAM_SIZING f p m1;
               Some (b, bytes_written sizestream, m')
             });
          if \<not> b then Some (False, s1, m2)
          else do {
            (b, s2, m3) \<leftarrow> pb_encode_varint env s1 sz m2;
            if \<not> b then Some (False, s2, m3)
            else if o_callback s2 = Sizing then pb_write env s2 SNull sz m3
            else encode_items (unat count) (call_encoder (Some E)) s2 f p m3
          }
        }" for s1 m1
    have items: "emits A m0 (\<lambda>s m. encode_items (unat count) (call_encoder (Some E)) s f p m) bs"
      using bs by (intro items_emit [where vb = "value_bytes (m0 |` A) sub f"])
        (auto simp: call_encoder_def intro: table_value_emits [OF E sub])
    have "emits A m0 W d" unfolding d'
      by (rule emits_cong [OF emits_seq [OF encode_varint_emits sizing_or_emits [OF items len]]])
        (simp add: W_def packed_size [OF E sub _ bs])
    from emits_seq [OF encode_tag_emits this] show ?thesis unfolding out
      by (rule emits_cong) (use True n0 fits in \<open>simp only: encode_array_def if_False if_True uc W_def\<close>)
  qed
qed

section \<open>Fields and messages\<close>

lemma encoder_exists:
  assumes "l \<le> PB_LTYPE_FIXED_LENGTH_BYTES" and "l \<noteq> PB_LTYPE_EXTENSION"
  obtains E where "PB_ENCODERS env sub l = Some (Some E)"
  using ltype_cases [OF assms(1)] assms(2) by (auto simp: PB_ENCODERS_def)

lemma basic_field_emits:
  assumes v: "field_bytes d (m0 |` A) sub f p = Some out"
    and l: "PB_LTYPE (type f) \<noteq> PB_LTYPE_EXTENSION"
    and at: "PB_ATYPE (type f) = PB_ATYPE_STATIC \<or> PB_ATYPE (type f) = PB_ATYPE_POINTER"
    and sub: "sub_emits A m0 sub enc f" and fuel: "check_fuel d f \<le> fuel"
  shows "emits A m0 (\<lambda>s m. encode_basic_field fuel env (pb_enc_submessage env enc) s f p m) out"
proof -
  let ?R = "m0 |` A" and ?ps = "p + sint (size_offset f)"
  have nc: "PB_ATYPE (type f) \<noteq> PB_ATYPE_CALLBACK" using at by auto
  have lt: "PB_LTYPE (type f) \<le> PB_LTYPE_FIXED_LENGTH_BYTES"
    using v l nc at by (auto simp: field_bytes_def split: if_splits)
  obtain E where E: "PB_ENCODERS env (pb_enc_submessage env enc) (PB_LTYPE (type f)) = Some (Some E)"
    using encoder_exists [OF lt l] by blast
  let ?nd = "if size_offset f = 0 \<and> PB_HTYPE (type f) = PB_HTYPE_OPTIONAL
           then map_option Not (default_value d ?R f p) else Some True"
  obtain nd q imp where nd: "?nd = Some nd"
    and q: "(if PB_ATYPE (type f) = PB_ATYPE_POINTER then do { q \<leftarrow> load_ptr ?R p; Some (q, q \<noteq> 0) }
           else Some (p, nd)) = Some (q, imp)"
    and rest: "(if PB_HTYPE (type f) = PB_HTYPE_REQUIRED then
          if q = 0 then None else tagged_value ?R sub f q
        else if PB_HTYPE (type f) = PB_HTYPE_OPTIONAL then do {
          has \<leftarrow> (if size_offset f \<noteq> 0 then do { b \<leftarrow> ?R ?ps; Some (b \<noteq> 0) } else Some imp);
          if has then tagged_value ?R sub f q else Some []
        }
        else if size_offset f = 0 then None
        else if PB_HTYPE (type f) = PB_HTYPE_REPEATED then do {
          (count :: u32) \<leftarrow> load_word ?R ?ps 4;
          array_bytes ?R sub f q count
        }
        else do {
          (which :: u32) \<leftarrow> load_word ?R ?ps 4;
          if which = tag f then tagged_value ?R sub f q else Some []
        }) = Some out"
    using v l nc at lt by (simp only: field_bytes_def if_True if_False simp_thms Let_def) (auto simp: bind_eq_Some_conv simp del: if_split)
  have impl: "(if size_offset f \<noteq> 0 then Some True
       else if PB_HTYPE (type f) = PB_HTYPE_OPTIONAL then do {
          z \<leftarrow> pb_check_proto3_default_value fuel f p m; Some (\<not> z) }
        else Some True) = Some nd" if a: "agree A m0 m" for m
    using nd default_value_check [OF _ agree_le [OF a] fuel] by (auto split: if_splits)
  have ptr: "(if PB_ATYPE (type f) = PB_ATYPE_POINTER then do { q \<leftarrow> load_ptr m p; Some (q, q \<noteq> 0) }
           else Some (p, nd)) = Some (q, imp)" if a: "agree A m0 m" for m
    using q by (auto simp: bind_eq_Some_conv split: if_splits dest: load_ptr_le [OF agree_le [OF a]])
  define K where "K s m = (if PB_HTYPE (type f) = PB_HTYPE_REQUIRED then
       if q = 0 then Some (False, o_set_error s ''missing required field'', m)
       else do {
         (b, s', m') \<leftarrow> pb_encode_tag_for_field env s f m;
         if \<not> b then Some (False, s', m') else call_encoder (Some E) s' f q m'
       }
     else if PB_HTYPE (type f) = PB_HTYPE_OPTIONAL then do {
       has \<leftarrow> (if size_offset f \<noteq> 0 then do { b \<leftarrow> m ?ps; Some (b \<noteq> 0) } else Some imp);
       if has then do {
         (b, s', m') \<leftarrow> pb_encode_tag_for_field env s f m;
         if \<not> b then Some (False, s', m') else call_encoder (Some E) s' f q m'
       }
       else Some (True, s, m)
     }
     else if PB_HTYPE (type f) = PB_HTYPE_REPEATED then
       if size_offset f = 0 then None
       else do {
         (count :: u32) \<leftarrow> load_word m ?ps 4;
         encode_array env s f q (ucast count) (Some E) m
       }
     else if size_offset f = 0 then None
     else do {
       (which :: u32) \<leftarrow> load_word m ?ps 4;
       if which = tag f then do {
         (b, s', m') \<leftarrow> pb_encode_tag_for_field env s f m;
         if \<not> b then Some (False, s', m') else call_encoder (Some E) s' f q m'
       }
       else Some (True, s, m)
     })" for s m
  have run: "encode_basic_field fuel env (pb_enc_submessage env enc) s f p m = K s m" if "agree A m0 m" for s m
    by (simp only: encode_basic_field_def E Option.bind.simps Let_def impl [OF that] ptr [OF that] prod.case K_def)
  consider (req) "PB_HTYPE (type f) = PB_HTYPE_REQUIRED" | (opt) "PB_HTYPE (type f) = PB_HTYPE_OPTIONAL"
    | (rep) "PB_HTYPE (type f) = PB_HTYPE_REPEATED" | (oneof) "PB_HTYPE (type f) = PB_HTYPE_ONEOF"
    using htype_cases [of "type f"] by blast
  then show ?thesis
  proof cases
    case req
    with rest have "q \<noteq> 0" and "tagged_value ?R sub f q = Some out" by (auto split: if_splits)
    from tagged_emits [OF E sub this(2)] show ?thesis
      by (rule emits_cong) (use req \<open>q \<noteq> 0\<close> in \<open>simp add: run K_def\<close>)
  next
    case opt
    let ?has = "if size_offset f \<noteq> 0 then do { b \<leftarrow> ?R ?ps; Some (b \<noteq> 0) } else Some imp"
    from rest opt obtain has where has: "?has = Some has"
      and r: "(if has then tagged_value ?R sub f q else Some []) = Some out" by (auto simp: bind_eq_Some_conv)
    have has': "(if size_offset f \<noteq> 0 then do { b \<leftarrow> m ?ps; Some (b \<noteq> 0) } else Some imp) = Some has"
      if a: "agree A m0 m" for m
      using has by (auto simp: bind_eq_Some_conv split: if_splits dest: map_leD [OF agree_le [OF a]])
    have opt': "K s m = (if has then do {
         (b, s', m') \<leftarrow> pb_encode_tag_for_field env s f m;
         if \<not> b then Some (False, s', m') else call_encoder (Some E) s' f q m'
       } else Some (True, s, m))" if a: "agree A m0 m" for s m
      using opt by (simp only: K_def has' [OF a] Option.bind.simps) simp
    show ?thesis
    proof (cases has)
      case True
      with r have "tagged_value ?R sub f q = Some out" by simp
      from tagged_emits [OF E sub this] show ?thesis
        by (rule emits_cong) (use True in \<open>simp add: run opt'\<close>)
    next
      case False
      with r have "out = []" by simp
      with emits_nothing show ?thesis
        by (auto intro!: emits_cong [OF emits_nothing]) (use False in \<open>simp add: run opt'\<close>)
    qed
  next
    case rep
    with rest obtain count :: u32 where so: "size_offset f \<noteq> 0" and c: "load_word ?R ?ps 4 = Some count"
      and ar: "array_bytes ?R sub f q count = Some out" by (auto simp: bind_eq_Some_conv split: if_splits)
    from array_emits [OF E sub ar] show ?thesis
      by (rule emits_cong) (use rep so in \<open>simp add: run K_def load_word_le [OF agree_le c]\<close>)
  next
    case oneof
    with rest obtain which :: u32 where so: "size_offset f \<noteq> 0" and c: "load_word ?R ?ps 4 = Some which"
      and r: "(if which = tag f then tagged_value ?R sub f q else Some []) = Some out"
      by (auto simp: bind_eq_Some_conv split: if_splits)
    show ?thesis
    proof (cases "which = tag f")
      case True
      with r have "tagged_value ?R sub f q = Some out" by simp
      from tagged_emits [OF E sub this] show ?thesis
        by (rule emits_cong) (use oneof so True in \<open>simp add: run K_def load_word_le [OF agree_le c]\<close>)
    next
      case False
      with r have "out = []" by simp
      then show ?thesis
        by (auto intro!: emits_cong [OF emits_nothing]) (use oneof so False in \<open>simp add: run K_def load_word_le [OF agree_le c]\<close>)
    qed
  qed
qed

lemma field_emits:
  assumes v: "field_bytes d (m0 |` A) sub f p = Some out" and sub: "sub_emits A m0 sub enc f"
    and fuel: "check_fuel d f \<le> fuel"
  shows "emits A m0 (\<lambda>s m. if PB_LTYPE (type f) = PB_LTYPE_EXTENSION
       then encode_extension_field fuel env E s f p m
       else encode_field fuel env (pb_enc_submessage env enc) s f p m) out"
proof -
  from fuel obtain k where k: "fuel = Suc k" by (cases fuel) (auto simp: check_fuel_def)
  consider (ext) "PB_LTYPE (type f) = PB_LTYPE_EXTENSION"
    | (cb) "PB_LTYPE (type f) \<noteq> PB_LTYPE_EXTENSION" "PB_ATYPE (type f) = PB_ATYPE_CALLBACK"
    | (basic) "PB_LTYPE (type f) \<noteq> PB_LTYPE_EXTENSION" "PB_ATYPE (type f) \<noteq> PB_ATYPE_CALLBACK" by blast
  then show ?thesis
  proof cases
    case ext
    with v have ptr: "load_ptr (m0 |` A) p = Some 0" and "out = []"
      by (auto simp: field_bytes_def bind_eq_Some_conv split: if_splits)
    show ?thesis unfolding \<open>out = []\<close>
      by (rule emits_cong [OF emits_nothing])
        (use ext in \<open>simp add: encode_extension_field_def load_ptr_le [OF agree_le ptr] k\<close>)
  next
    case cb
    with v have ptr: "load_ptr (m0 |` A) p = Some 0" and "out = []"
      by (auto simp: field_bytes_def bind_eq_Some_conv split: if_splits)
    have "encode_field fuel env (pb_enc_submessage env enc) s f p m = Some (True, s, m)" if "agree A m0 m" for s m
      using cb load_ptr_le [OF agree_le [OF that] ptr] by (simp add: encode_field_def encode_callback_field_def)
    with cb(1) \<open>out = []\<close> show ?thesis by (auto intro!: emits_cong [OF emits_nothing])
  next
    case basic
    with v have at: "PB_ATYPE (type f) = PB_ATYPE_STATIC \<or> PB_ATYPE (type f) = PB_ATYPE_POINTER"
      by (auto simp: field_bytes_def split: if_splits)
    from basic_field_emits [OF v basic(1) at sub fuel, of env] show ?thesis
      by (rule emits_cong) (use basic at in \<open>simp add: encode_field_def\<close>)
  qed
qed

lemma encode_loop_emits:
  assumes wa: "wf_array fs"
    and F: "\<And>i out. i < nfields fs \<Longrightarrow> fb (fs ! i) (src + data_pos fs i) = Some out \<Longrightarrow>
      emits A m0 (\<lambda>s m. if PB_LTYPE (type (fs ! i)) = PB_LTYPE_EXTENSION
        then enc_ext s (fs ! i) (src + data_pos fs i) m else enc_field s (fs ! i) (src + data_pos fs i) m) out"
  shows "i < nfields fs \<Longrightarrow> nfields fs - i \<le> n \<Longrightarrow>
    concat_opts (map (\<lambda>i. fb (fs ! i) (src + data_pos fs i)) [i ..< nfields fs]) = Some out \<Longrightarrow>
    emits A m0 (\<lambda>s m. encode_loop n enc_field enc_ext (iter_at fs src i) s m) out"
proof (induction n arbitrary: i out)
  case 0
  then show ?case by simp
next
  case (Suc n)
  have up: "[i ..< nfields fs] = i # [Suc i ..< nfields fs]" using Suc.prems(1) by (rule upt_conv_Cons)
  have fld: "it_field (iter_at fs src i) = Some (fs ! i)" using wa Suc.prems(1) by (simp add: it_field_at)
  from Suc.prems(3) obtain o1 o2 where o1: "fb (fs ! i) (src + data_pos fs i) = Some o1"
    and o2: "concat_opts (map (\<lambda>i. fb (fs ! i) (src + data_pos fs i)) [Suc i ..< nfields fs]) = Some o2"
    and out: "out = o1 @ o2" by (auto simp: up bind_eq_Some_conv)
  have "emits A m0 (\<lambda>s m. if Suc i < nfields fs then encode_loop n enc_field enc_ext (iter_at fs src (Suc i)) s m
      else Some (True, s, m)) o2"
  proof (cases "Suc i < nfields fs")
    case True
    with Suc.IH [OF True _ o2] Suc.prems(2) show ?thesis by simp
  next
    case False
    with o2 have "o2 = []" by simp
    with False emits_nothing show ?thesis by simp
  qed
  from emits_seq [OF F [OF Suc.prems(1) o1] this] show ?case unfolding out
    by (rule emits_cong)
      (cases "Suc i < nfields fs"; simp add: fld iter_next_at [OF wa Suc.prems(1)] cong: if_cong)
qed

lemma encode_message_emits:
  "message_bytes d (m0 |` A) fs src = Some out \<Longrightarrow> msg_fuel d fs \<le> fuel \<Longrightarrow>
   emits A m0 (\<lambda>s m. pb_encode fuel env s fs src m) out"
proof (induction d arbitrary: fs src out fuel)
  case 0
  then show ?case by simp
next
  case (Suc d)
  from Suc.prems(2) obtain n where n: "fuel = Suc n" "nfields fs < n" by (cases fuel) auto
  from Suc.prems(1) have wa: "wf_array fs"
    and out: "concat_opts (map (\<lambda>i. field_bytes d (m0 |` A) (message_bytes d (m0 |` A)) (fs ! i) (src + data_pos fs i)) [0 ..< nfields fs]) = Some out"
    by (auto simp: members_def comp_def split: if_splits)
  show ?case
  proof (cases "nfields fs = 0")
    case True
    with out emits_nothing show ?thesis by (simp add: n(1) iter_begin_at [OF wa])
  next
    case False
    let ?E = "encode_field n env (pb_enc_submessage env (pb_encode n env))"
    have "emits A m0 (\<lambda>s m. encode_loop n ?E (encode_extension_field n env ?E) (iter_at fs src 0) s m) out"
    proof (rule encode_loop_emits [OF wa _ _ _ out])
      fix i out' assume i: "i < nfields fs"
        and fb: "field_bytes d (m0 |` A) (message_bytes d (m0 |` A)) (fs ! i) (src + data_pos fs i) = Some out'"
      have f: "fs ! i \<in> set fs" using wf_array_length [OF wa] i by simp
      have "sub_emits A m0 (message_bytes d (m0 |` A)) (pb_encode n env) (fs ! i)"
        using Suc.IH Suc.prems(2) n(1) msg_fuel_sub [OF f, of _ d] by (force simp: sub_emits_def)
      moreover have "check_fuel d (fs ! i) \<le> n"
        using Suc.prems(2) n msg_fuel_sub [OF f, of _ d] by (auto simp: check_fuel_def split: field_ptr.split)
      ultimately show "emits A m0 (\<lambda>s m. if PB_LTYPE (type (fs ! i)) = PB_LTYPE_EXTENSION
          then encode_extension_field n env ?E s (fs ! i) (src + data_pos fs i) m
          else ?E s (fs ! i) (src + data_pos fs i) m) out'"
        by (rule field_emits [OF fb])
    qed (use False n in simp_all)
    then show ?thesis
      by (rule emits_cong) (use False in \<open>simp add: n(1) iter_begin_at [OF wa] Let_def\<close>)
  qed
qed

end
