(* ===== verification/PbRoundtrip.thy ===== *)
theory PbRoundtrip
  imports PbEncodeSpec PbDecodeProps
begin

text \<open>
  What the writers put into a buffer is what the readers take out of it: varints, zigzag
  varints, tags, fixed-width values and strings; and the statements about whole messages that
  follow from \<open>PbEncodeSpec\<close>: the bytes the encoder writes are those of the specification, it
  writes nowhere else, and the sizing pass predicts their number.
\<close>

section \<open>Writing into a fresh buffer\<close>

text \<open>The buffer of \<open>n\<close> bytes at \<open>p\<close> is in memory and apart from the addresses in \<open>A\<close>.\<close>

definition free_buffer :: "ptr set \<Rightarrow> mem \<Rightarrow> ptr \<Rightarrow> u64 \<Rightarrow> bool" where
  "free_buffer A m p n \<longleftrightarrow> {p ..< p + uint n} \<subseteq> dom m - A \<and> uint n < 2 ^ 63"

lemma emit_fresh:
  assumes "emits A m W out" and "free_buffer A m p n"
  shows "if length out \<le> unat n
    then \<exists>e. W (pb_ostream_from_buffer p n) m =
      Some (True, \<lparr>o_callback = Buf_write, o_state = p + int (length out), max_size = n,
                   bytes_written = of_nat (length out), o_errmsg = e\<rparr>, upd_bytes m p out)
    else \<exists>s' m'. W (pb_ostream_from_buffer p n) m = Some (False, s', m') \<and> same_outside m m' p (uint n)"
proof -
  let ?s = "pb_ostream_from_buffer p n"
  have "agree A m m" by (simp add: agree_def)
  moreover have "sink A m ?s"
    using assms(2) by (simp add: sink_def sink_end_def pb_ostream_from_buffer_def free_buffer_def)
  ultimately obtain b s' m' where w: "W ?s m = Some (b, s', m')" and p: "emit_post out ?s m (b, s', m')"
    using emitsD [OF assms(1)] by (force simp: ok_conv)
  have room: "has_room ?s (length out) \<longleftrightarrow> length out \<le> unat n"
    by (simp add: has_room_def pb_ostream_from_buffer_def)
  show ?thesis
  proof (cases "length out \<le> unat n")
    case True
    with p room obtain e where "b" "s' = (put ?s (length out))\<lparr>o_errmsg := e\<rparr>" "m' = put_mem ?s m out"
      by (auto simp: emit_post_def)
    with True w show ?thesis by (auto simp: put_def put_mem_def pb_ostream_from_buffer_def)
  next
    case False
    with p room have "\<not> b" "sink_frame ?s m m'" by (simp_all add: emit_post_def)
    then have "\<not> b" "same_outside m m' p (uint n)"
      by (simp_all add: sink_frame_def same_outside_def sink_end_def pb_ostream_from_buffer_def)
    with False w show ?thesis by simp
  qed
qed

lemma written_content:
  assumes "length out < 2 ^ 64"
  shows "buf_content (upd_bytes m p out) (pb_istream_from_buffer p (of_nat (length out))) = Some out"
  using load_upd_same [of m p out] assms
  by (simp add: buf_content_def pb_istream_from_buffer_def unat_of_nat)

lemma drained: "unat (bytes_left (buf_advance (pb_istream_from_buffer p (of_nat k)) k)) = 0"
  by (simp add: buf_advance_def pb_istream_from_buffer_def)

text \<open>The concrete buffer of the witnesses: sixteen bytes at address 64.\<close>

definition rt_mem :: mem where
  "rt_mem = ex_mem 64 (replicate 16 0)"

lemma rt_buffer: "free_buffer {} rt_mem 64 16"
proof -
  have "{64 ..< 64 + uint (16 :: u64)} \<subseteq> dom rt_mem"
    by (auto simp: rt_mem_def ex_mem_def dom_def)
  then show ?thesis by (simp add: free_buffer_def)
qed

section \<open>Round trips\<close>

lemma varint_written:
  assumes "free_buffer {} m p n" and "length (varint_bytes v) \<le> unat n"
  obtains e where "pb_encode_varint env (pb_ostream_from_buffer p n) v m =
      Some (True, \<lparr>o_callback = Buf_write, o_state = p + int (length (varint_bytes v)), max_size = n,
                   bytes_written = of_nat (length (varint_bytes v)), o_errmsg = e\<rparr>, upd_bytes m p (varint_bytes v))"
    and "buf_content (upd_bytes m p (varint_bytes v)) (pb_istream_from_buffer p (of_nat (length (varint_bytes v)))) =
      Some (varint_bytes v)"
proof -
  have "length (varint_bytes v) < 2 ^ 64" using varint_bytes_shape [of v] by simp
  from that emit_fresh [OF encode_varint_emits [of _ _ env v] assms(1)] assms(2) written_content [OF this]
  show ?thesis by auto
qed

lemma left_0: "bytes_left (buf_advance (pb_istream_from_buffer p (of_nat k)) k) = 0"
  using drained [of p k] by (simp add: unat_eq_zero)

text \<open>
  C24: A number written as a varint into a buffer with room for it is read back by the varint
  reader, which uses up exactly the bytes written.
\<close>

theorem varint_roundtrip:
  assumes "free_buffer {} m p n" and "length (varint_bytes v) \<le> unat n"
  shows "\<exists>s' m' t. pb_encode_varint env (pb_ostream_from_buffer p n) v m = Some (True, s', m') \<and>
    pb_decode_varint env' (pb_istream_from_buffer p (bytes_written s')) m' = Some (Some v, t, m') \<and> bytes_left t = 0"
  by (rule varint_written [OF assms, of env])
    (use parse_varint_bytes [of v "[]"] in \<open>auto simp: buf.decode_varint_parse left_0\<close>)

theorem varint_roundtrip_witness:
  "\<exists>s' m' t. pb_encode_varint no_user (pb_ostream_from_buffer 64 16) 300 rt_mem = Some (True, s', m') \<and>
    pb_decode_varint no_user (pb_istream_from_buffer 64 (bytes_written s')) m' = Some (Some 300, t, m') \<and> bytes_left t = 0"
proof (rule varint_roundtrip [OF rt_buffer])
  show "length (varint_bytes 300) \<le> unat (16 :: u64)" using varint_bytes_shape [of 300] by simp
qed

text \<open>Zigzag coding is a bijection on 64-bit words.\<close>

lemma and_1_iff: "(w :: u64) AND 1 \<noteq> 0 \<longleftrightarrow> bit w 0"
  by (simp add: and_one_eq bit_0 even_iff_mod_2_eq_zero odd_iff_mod_2_eq_one)

lemma zigzag_inverse: "unzigzag (zigzag v) = v"
proof -
  define P where "P = push_bit 1 v"
  have P: "bit P i \<longleftrightarrow> 1 \<le> i \<and> i < 64 \<and> bit v (i - 1)" for i
    by (simp only: P_def bit_push_bit_iff possible_bit_word) auto
  have shift: "bit (drop_bit 1 w) i \<longleftrightarrow> bit w (Suc i)" for w :: u64 and i by (simp only: bit_drop_bit_eq) simp
  have neg: "sint v < 0 \<longleftrightarrow> bit v 63" using bit_last_iff [of v] by simp
  show ?thesis
  proof (cases "sint v < 0")
    case True
    then have z: "zigzag v = NOT P" by (simp add: zigzag_def P_def)
    have "bit (NOT P) 0" using P [of 0] by (simp only: bit_not_iff possible_bit_word) simp
    then have "unzigzag (zigzag v) = NOT (drop_bit 1 (NOT P))" using z and_1_iff [of "NOT P"] by (simp add: unzigzag_def)
    also have "\<dots> = v"
    proof (rule bit_word_eqI)
      fix i assume i: "i < LENGTH(64)"
      show "bit (NOT (drop_bit 1 (NOT P))) i = bit v i"
        using i P [of "Suc i"] True neg by (cases "i = 63") (simp_all only: bit_not_iff possible_bit_word shift, auto)
    qed
    finally show ?thesis .
  next
    case False
    then have z: "zigzag v = P" by (simp add: zigzag_def P_def)
    have "\<not> bit P 0" using P [of 0] by simp
    then have "unzigzag (zigzag v) = drop_bit 1 P" using z and_1_iff [of P] by (simp add: unzigzag_def)
    also have "\<dots> = v"
    proof (rule bit_word_eqI)
      fix i assume i: "i < LENGTH(64)"
      show "bit (drop_bit 1 P) i = bit v i"
        using i P [of "Suc i"] False neg by (cases "i = 63") (simp_all only: shift, auto)
    qed
    finally show ?thesis .
  qed
qed

text \<open>
  A signed number written in zigzag form is read back by the zigzag reader, which uses up
  exactly the bytes written.
\<close>

theorem svarint_roundtrip:
  assumes "free_buffer {} m p n" and "length (varint_bytes (zigzag v)) \<le> unat n"
  shows "\<exists>s' m' t. pb_encode_svarint env (pb_ostream_from_buffer p n) v m = Some (True, s', m') \<and>
    pb_decode_svarint env' (pb_istream_from_buffer p (bytes_written s')) m' = Some (Some v, t, m') \<and> bytes_left t = 0"
  unfolding pb_encode_svarint_def
  by (rule varint_written [OF assms, of env])
    (use parse_varint_bytes [of "zigzag v" "[]"] in
      \<open>auto simp: pb_decode_svarint_def buf.decode_varint_parse left_0 zigzag_inverse\<close>)

theorem svarint_roundtrip_witness:
  "\<exists>s' m' t. pb_encode_svarint no_user (pb_ostream_from_buffer 64 16) (- 5) rt_mem = Some (True, s', m') \<and>
    pb_decode_svarint no_user (pb_istream_from_buffer 64 (bytes_written s')) m' = Some (Some (- 5), t, m') \<and> bytes_left t = 0"
proof (rule svarint_roundtrip [OF rt_buffer])
  show "length (varint_bytes (zigzag (- 5))) \<le> unat (16 :: u64)" using varint_bytes_shape [of "zigzag (- 5)"] by simp
qed

text \<open>A tag fits into five bytes, and the 32-bit reader finds its two parts again.\<close>

lemma varint_bytes_short: "unat v < 128 ^ k \<Longrightarrow> 0 < k \<Longrightarrow> k \<le> 10 \<Longrightarrow> length (varint_bytes v) \<le> k"
proof (cases "v \<le> 0x7F")
  case True
  then show "0 < k \<Longrightarrow> length (varint_bytes v) \<le> k" by (simp add: varint_bytes_def)
next
  case False
  assume k: "unat v < 128 ^ k" "0 < k" "k \<le> 10"
  then have "varint_fill v [] = Some (groups7 k v)" using groups7_enough [of v k "[]"] by simp
  then have "groups7 10 v = groups7 k v" by (simp add: varint_fill_ten)
  moreover have "groups7 10 v \<noteq> []"
    using groups7_shape [of v 10] False unsigned_less [of v, where ?'a = nat] by fastforce
  ultimately show ?thesis
    using varint_bytes_big [OF False] length_groups7 [of k v] k(2) by (simp add: clear_last_def)
qed

lemma tag_word:
  fixes t wt :: u32
  assumes "unat t < 2 ^ 29" and "unat wt < 2 ^ 3"
  defines "v \<equiv> push_bit 3 (ucast t :: u64) OR ucast wt"
  shows "unat v < 2 ^ 32" and "(ucast v :: u32) AND 7 = wt" and "drop_bit 3 (ucast v :: u32) = t"
    and "(ucast v :: u32) = 0 \<longleftrightarrow> t = 0 \<and> wt = 0"
proof -
  have bv: "bit v i \<longleftrightarrow> (3 \<le> i \<and> i < 32 \<and> bit t (i - 3)) \<or> (i < 3 \<and> bit wt i)" for i
    using small_word_bits [OF assms(1), of "i - 3"] small_word_bits [OF assms(2), of i]
    by (auto simp: v_def bit_or_iff bit_push_bit_iff bit_ucast_iff possible_bit_word simp del: push_bit_eq_mult)
  have "take_bit 32 v = v" by (rule bit_word_eqI) (auto simp: bit_take_bit_iff bv)
  then have "unat v = take_bit 32 (unat v)" by (metis unsigned_take_bit_eq)
  then show "unat v < 2 ^ 32" by (metis take_bit_nat_less_exp)
  have b7: "bit (7 :: u32) i \<longleftrightarrow> i < 3" for i
  proof -
    have "(7 :: u32) = mask 3" by (simp add: mask_eq_exp_minus_1)
    then show ?thesis by (simp only: bit_mask_iff possible_bit_word) auto
  qed
  show wt: "(ucast v :: u32) AND 7 = wt"
    by (rule bit_word_eqI)
      (use small_word_bits [OF assms(2)] in \<open>auto simp: bit_and_iff b7 bit_ucast_iff bv simp del: bit_numeral_word_iff\<close>)
  show t: "drop_bit 3 (ucast v :: u32) = t"
    by (rule bit_word_eqI)
      (use small_word_bits [OF assms(1)] in \<open>auto simp: bit_drop_bit_eq bit_ucast_iff bv\<close>)
  show "(ucast v :: u32) = 0 \<longleftrightarrow> t = 0 \<and> wt = 0"
    using wt t by (auto simp: v_def)
qed

text \<open>
  A field number below \<open>2 ^ 29\<close> and a wire type written as a tag are read back as this field
  number and wire type, unless the tag is the zero byte, which the reader takes for the end of
  the message.
\<close>

theorem tag_roundtrip:
  assumes "free_buffer {} m p n" and "length (tag_bytes wt t) \<le> unat n" and "unat t < 2 ^ 29" and "unat wt < 2 ^ 3"
  shows "\<exists>s' m' s''. pb_encode_tag env (pb_ostream_from_buffer p n) wt t m = Some (True, s', m') \<and>
    pb_decode_tag env' (pb_istream_from_buffer p (bytes_written s')) m' =
      Some (if t = 0 \<and> wt = 0 then No_tag True else Tag wt t, s'', m') \<and> bytes_left s'' = 0"
proof -
  let ?v = "push_bit 3 (ucast t :: u64) OR ucast wt"
  note v = tag_word [OF assms(3,4)]
  have sh: "varint_shape (varint_bytes ?v)" "base128 (varint_bytes ?v) = unat ?v" using varint_bytes_shape by auto
  have "length (varint_bytes ?v) \<le> 5" using v(1) by (intro varint_bytes_short) auto
  then have "parse_varint 0 (0 :: u32) (varint_bytes ?v @ []) = (Inr (ucast ?v), length (varint_bytes ?v))"
    using parse_varint_shape [OF sh(1), of 0 "0 :: u32" "[]"] sh(2)
    by (simp del: push_bit_eq_mult)
  then show ?thesis unfolding pb_encode_tag_def
    by (rule_tac varint_written [OF assms(1) assms(2) [unfolded tag_bytes_def], of env])
      (auto simp: pb_decode_tag_def buf.decode_varint32_parse left_0 v(2-4) simp del: push_bit_eq_mult)
qed


theorem tag_roundtrip_witness:
  "\<exists>s' m' s''. pb_encode_tag no_user (pb_ostream_from_buffer 64 16) PB_WT_STRING 1000 rt_mem = Some (True, s', m') \<and>
    pb_decode_tag no_user (pb_istream_from_buffer 64 (bytes_written s')) m' = Some (Tag PB_WT_STRING 1000, s'', m') \<and>
    bytes_left s'' = 0"
proof -
  have "length (tag_bytes PB_WT_STRING 1000) \<le> unat (16 :: u64)"
    using varint_bytes_shape [of "push_bit 3 (ucast (1000 :: u32)) OR ucast PB_WT_STRING"]
    by (simp add: tag_bytes_def del: push_bit_numeral)
  from tag_roundtrip [OF rt_buffer this, of no_user no_user] show ?thesis by simp
qed

section \<open>Whole messages\<close>

text \<open>A struct of \<open>ex_fields\<close>: 5, the string hi, the numbers 7 and 300, a submessage with 9.\<close>

definition ex_struct :: "byte list" where
  "ex_struct = [5, 0, 0, 0, 1, 0x68, 0x69, 0, 0, 0, 0, 0, 2, 0, 0, 0, 7, 0, 0, 0, 44, 1, 0, 0, 1, 0, 0, 0, 9, 0, 0, 0]"

definition ex_encoded :: "byte list" where
  "ex_encoded = [0x08, 5, 0x12, 2, 0x68, 0x69, 0x1A, 3, 7, 0xAC, 2, 0x22, 2, 8, 9]"

abbreviation ex_world :: mem where
  "ex_world \<equiv> ex_mem2 64 (replicate 16 0) 100 ex_struct"

lemma ex_message: "message_bytes 3 (ex_world |` {100 ..< 132}) ex_fields 100 = Some ex_encoded"
proof -
  have "ex_world |` {100 ..< 132} = ex_mem 100 ex_struct"
    by (rule ext) (simp add: restrict_map_def ex_mem2_def ex_mem_def ex_struct_def)
  moreover have "message_bytes 3 (ex_mem 100 ex_struct) ex_fields 100 = Some ex_encoded" by code_simp
  ultimately show ?thesis by simp
qed

lemma ex_world_buffer: "free_buffer {100 ..< 132} ex_world 64 16"
proof -
  have "{64 ..< 64 + uint (16 :: u64)} \<subseteq> dom ex_world - {100 ..< 132}"
    by (auto simp: ex_mem2_def ex_mem_def dom_def)
  then show ?thesis by (simp add: free_buffer_def)
qed

lemma ex_fields_fuel3: "msg_fuel 3 ex_fields \<le> 30"
  by code_simp

text \<open>
  C16: The encoder refines the specification. When the specification gives a message bytes
  and the buffer, apart from the message, has room for them, the encoder writes exactly these bytes
  at the start of the buffer and changes nothing else; when it has not, the encoder fails, having
  changed only the buffer. The fuel is a bound on the size of the descriptor.
\<close>

theorem encode_refines:
  assumes "message_bytes d (m |` A) fs src = Some out" and "msg_fuel d fs \<le> fuel" and "free_buffer A m p n"
  shows "if length out \<le> unat n
    then \<exists>e. pb_encode fuel env (pb_ostream_from_buffer p n) fs src m =
      Some (True, \<lparr>o_callback = Buf_write, o_state = p + int (length out), max_size = n,
                   bytes_written = of_nat (length out), o_errmsg = e\<rparr>, upd_bytes m p out)
    else \<exists>s' m'. pb_encode fuel env (pb_ostream_from_buffer p n) fs src m = Some (False, s', m') \<and>
      (\<forall>a. a \<notin> {p ..< p + uint n} \<longrightarrow> m' a = m a)"
  using emit_fresh [OF encode_message_emits [OF assms(1,2)] assms(3), of env] by (auto simp: same_outside_def)

theorem encode_refines_witness:
  "\<exists>e. pb_encode 30 no_user (pb_ostream_from_buffer 64 16) ex_fields 100 ex_world =
     Some (True, \<lparr>o_callback = Buf_write, o_state = 79, max_size = 16, bytes_written = 15, o_errmsg = e\<rparr>,
       upd_bytes ex_world 64 ex_encoded)"
proof -
  have "length ex_encoded = 15" by (simp add: ex_encoded_def)
  with encode_refines [OF ex_message ex_fields_fuel3 ex_world_buffer, of no_user] show ?thesis by simp
qed

text \<open>
  The size that \<open>pb_get_encoded_size\<close> computes without writing anything is the number of
  bytes of the encoding.
\<close>

theorem encoded_size_exact:
  assumes "message_bytes d (m |` A) fs src = Some out" and "msg_fuel d fs \<le> fuel"
  shows "pb_get_encoded_size fuel env fs src m = Some (Some (of_nat (length out)), m)"
proof -
  have "agree A m m" "sink A m PB_OSTREAM_SIZING" by (simp_all add: agree_def sink_def PB_OSTREAM_SIZING_def)
  from emitsD [OF encode_message_emits [OF assms] this, of env] show ?thesis
    by (auto simp: ok_conv pb_get_encoded_size_def emit_post_def has_room_def put_def put_mem_def PB_OSTREAM_SIZING_def)
qed

theorem encoded_size_exact_witness:
  "pb_get_encoded_size 30 no_user ex_fields 100 ex_world = Some (Some 15, ex_world)"
proof -
  have "length ex_encoded = 15" by (simp add: ex_encoded_def)
  with encoded_size_exact [OF ex_message ex_fields_fuel3, of no_user] show ?thesis by simp
qed

end
