(* ===== verification/PbValueProps.thy ===== *)
theory PbValueProps
  imports PbStreamSafe PbReadProps
begin

text \<open>
  What the decoders of single values write: integers with the overflow check for every width,
  strings with their terminator, byte arrays with their length, fixed-width values.
\<close>

section \<open>Integers\<close>

text \<open>The width in bits of an integer of a data size.\<close>

definition int_size :: "u32 \<Rightarrow> bool" where
  "int_size sz \<longleftrightarrow> sz = 1 \<or> sz = 2 \<or> sz = 4 \<or> sz = 8"

lemma store_word_conv:
  "mapped m p (int n) \<Longrightarrow> store_word m p n w = Some (upd_bytes m p (le_bytes n w))"
  by (simp add: store_word_def store_bytes_conv)

lemma unat_ucast_up:
  assumes "LENGTH('a) \<le> LENGTH('b)"
  shows "unat (ucast (w :: 'a::len word) :: 'b::len word) = unat w"
proof -
  have "unat w < 2 ^ LENGTH('a)" by (rule unsigned_less)
  also have "(2 :: nat) ^ LENGTH('a) \<le> 2 ^ LENGTH('b)" using assms by simp
  finally show ?thesis by (simp add: unsigned_ucast_eq take_bit_nat_eq_self)
qed

lemma ucast_ucast_fits:
  assumes "LENGTH('a::len) \<le> LENGTH(64)"
  shows "(ucast (ucast v :: 'a word) :: u64) = v \<longleftrightarrow> unat v < 2 ^ LENGTH('a)"
proof -
  have "unat (ucast (ucast v :: 'a word) :: u64) = unat v mod 2 ^ LENGTH('a)"
    by (simp only: unat_ucast_up [OF assms]) (simp add: unsigned_ucast_eq take_bit_eq_mod)
  then show ?thesis
    by (simp only: word_unat_eq_iff) (metis mod_less mod_less_divisor zero_less_numeral zero_less_power)
qed

lemma clamp_unsigned_exact:
  assumes "int_size sz"
  shows "\<exists>w. clamp_unsigned sz v = Some (unat sz, w) \<and> (w = v \<longleftrightarrow> unat v < 2 ^ (8 * unat sz))"
proof -
  from assms consider "sz = 1" | "sz = 2" | "sz = 4" | "sz = 8" by (auto simp: int_size_def)
  then show ?thesis
  proof cases
    case 1 then show ?thesis using ucast_ucast_fits [where 'a = 8, of v] by (simp add: clamp_unsigned_def)
  next
    case 2 then show ?thesis using ucast_ucast_fits [where 'a = 16, of v] by (simp add: clamp_unsigned_def)
  next
    case 3 then show ?thesis using ucast_ucast_fits [where 'a = 32, of v] by (simp add: clamp_unsigned_def)
  next
    case 4 then show ?thesis using unsigned_less [of v, where ?'a = nat] by (simp add: clamp_unsigned_def)
  qed
qed

text \<open>
  C32: The decoder of unsigned integers stores the number of the varint into the field when it
  fits the field's width, and otherwise reports an overflow.
\<close>

theorem dec_uvarint_exact:
  assumes "buf_content m s = Some bs" and "parse_varint 0 (0 :: u64) bs = (Inr v, k)"
    and "int_size (data_size f)" and "mapped m dest (uint (data_size f))"
  shows "\<exists>s' m'. pb_dec_uvarint env s f dest m = Some (unat v < 2 ^ (8 * unat (data_size f)), s', m') \<and>
    (if unat v < 2 ^ (8 * unat (data_size f))
     then s' = buf_advance s k \<and> m' = upd_bytes m dest (le_bytes (unat (data_size f)) v)
     else s' = i_set_error (buf_advance s k) ''integer too large'')"
proof -
  obtain w where w: "clamp_unsigned (data_size f) v = Some (unat (data_size f), w)"
    and eq: "w = v \<longleftrightarrow> unat v < 2 ^ (8 * unat (data_size f))"
    using clamp_unsigned_exact [OF assms(3)] by blast
  have "mapped m dest (int (unat (data_size f)))" using assms(4) by simp
  from store_word_conv [OF this, of w] w eq assms(1,2) show ?thesis
    by (auto simp: pb_dec_uvarint_def buf.decode_varint_parse store_clamped_def)
qed

theorem dec_uvarint_exact_witness:
  "\<exists>s' m'. pb_dec_uvarint no_user (ex_stream 8 [0x96, 0x01]) (Pb_Field 1 1 0 0 2 0 PNull) 100
       (ex_mem2 8 [0x96, 0x01] 100 [7, 7, 7]) = Some (True, s', m') \<and>
     m' = upd_bytes (ex_mem2 8 [0x96, 0x01] 100 [7, 7, 7]) 100 [0x96, 0x00]"
proof -
  have p: "parse_varint 0 (0 :: u64) [0x96, 0x01] = (Inr 150, 2)" by code_simp
  from dec_uvarint_exact [OF ex_content2 p, of "Pb_Field 1 1 0 0 2 0 PNull" 8 100 "[7, 7, 7]" 100 no_user]
  have "\<exists>s' m'. pb_dec_uvarint no_user (ex_stream 8 [0x96, 0x01]) (Pb_Field 1 1 0 0 2 0 PNull) 100
       (ex_mem2 8 [0x96, 0x01] 100 [7, 7, 7]) = Some (True, s', m') \<and>
     m' = upd_bytes (ex_mem2 8 [0x96, 0x01] 100 [7, 7, 7]) 100 (le_bytes 2 (150 :: u64))"
    by (simp add: int_size_def ex_mapped2)
  moreover have "le_bytes 2 (150 :: u64) = [0x96, 0x00]" by code_simp
  ultimately show ?thesis by simp
qed

text \<open>A signed value fits a width when its two's complement range holds it.\<close>

definition fits_signed :: "u32 \<Rightarrow> u64 \<Rightarrow> bool" where
  "fits_signed sz v \<longleftrightarrow> - (2 ^ (8 * unat sz - 1)) \<le> sint v \<and> sint v < 2 ^ (8 * unat sz - 1)"

lemma scast_ucast_fits:
  assumes "LENGTH('a::len) \<le> LENGTH(64)"
  shows "(scast (ucast v :: 'a word) :: u64) = v \<longleftrightarrow>
    - (2 ^ (LENGTH('a) - 1)) \<le> sint v \<and> sint v < 2 ^ (LENGTH('a) - 1)"
proof -
  have m: "min (LENGTH('a) - Suc 0) 63 = LENGTH('a) - Suc 0" using assms by simp
  have "sint v = signed_take_bit 63 (uint v)" by (simp add: sint_uint)
  then have low: "sint (ucast v :: 'a word) = signed_take_bit (LENGTH('a) - Suc 0) (sint v)"
    by (simp add: signed_ucast_eq signed_take_bit_signed_take_bit m)
  have "sint (scast (ucast v :: 'a word) :: u64) = signed_take_bit 63 (sint (ucast v :: 'a word))"
    by (simp add: signed_scast_eq)
  also have "\<dots> = sint (ucast v :: 'a word)"
    unfolding low by (simp add: signed_take_bit_signed_take_bit min.commute m)
  finally have "sint (scast (ucast v :: 'a word) :: u64) = signed_take_bit (LENGTH('a) - Suc 0) (sint v)"
    using low by simp
  then have "(scast (ucast v :: 'a word) :: u64) = v \<longleftrightarrow> signed_take_bit (LENGTH('a) - Suc 0) (sint v) = sint v"
    by (metis signed_word_eqI)
  then show ?thesis by (simp add: signed_take_bit_int_eq_self_iff)
qed

lemma clamp_signed_exact:
  assumes "int_size sz"
  shows "\<exists>w. clamp_signed sz v = Some (unat sz, w) \<and> (w = v \<longleftrightarrow> fits_signed sz v)"
proof -
  from assms consider "sz = 1" | "sz = 2" | "sz = 4" | "sz = 8" by (auto simp: int_size_def)
  then show ?thesis
  proof cases
    case 1 then show ?thesis using scast_ucast_fits [where 'a = 8, of v] by (simp add: clamp_signed_def fits_signed_def)
  next
    case 2 then show ?thesis using scast_ucast_fits [where 'a = 16, of v] by (simp add: clamp_signed_def fits_signed_def)
  next
    case 3 then show ?thesis using scast_ucast_fits [where 'a = 32, of v] by (simp add: clamp_signed_def fits_signed_def)
  next
    case 4 then show ?thesis using sint_range_size [of v] by (simp add: clamp_signed_def fits_signed_def word_size)
  qed
qed

text \<open>
  The decoder of zigzag integers stores the number into the field when the two's
  complement range of the field's width holds it, and otherwise reports an overflow.
\<close>

theorem dec_svarint_exact:
  assumes "buf_content m s = Some bs" and "parse_varint 0 (0 :: u64) bs = (Inr v, k)"
    and "int_size (data_size f)" and "mapped m dest (uint (data_size f))"
  shows "\<exists>s' m'. pb_dec_svarint env s f dest m = Some (fits_signed (data_size f) (unzigzag v), s', m') \<and>
    (if fits_signed (data_size f) (unzigzag v)
     then s' = buf_advance s k \<and> m' = upd_bytes m dest (le_bytes (unat (data_size f)) (unzigzag v))
     else s' = i_set_error (buf_advance s k) ''integer too large'')"
proof -
  obtain w where w: "clamp_signed (data_size f) (unzigzag v) = Some (unat (data_size f), w)"
    and eq: "w = unzigzag v \<longleftrightarrow> fits_signed (data_size f) (unzigzag v)"
    using clamp_signed_exact [OF assms(3)] by blast
  have "mapped m dest (int (unat (data_size f)))" using assms(4) by simp
  from store_word_conv [OF this, of w] w eq assms(1,2) show ?thesis
    by (auto simp: pb_dec_svarint_def pb_decode_svarint_def buf.decode_varint_parse store_clamped_def)
qed

theorem dec_svarint_exact_witness:
  "\<exists>s' m'. pb_dec_svarint no_user (ex_stream 8 [0x03]) (Pb_Field 1 2 0 0 1 0 PNull) 100
       (ex_mem2 8 [0x03] 100 [7]) = Some (True, s', m') \<and> m' = upd_bytes (ex_mem2 8 [0x03] 100 [7]) 100 [0xFE]"
proof -
  have p: "parse_varint 0 (0 :: u64) [0x03] = (Inr 3, 1)" by code_simp
  have z: "fits_signed 1 (unzigzag 3)" "le_bytes 1 (unzigzag 3) = [0xFE]" by code_simp+
  from dec_svarint_exact [OF ex_content2 p, of "Pb_Field 1 2 0 0 1 0 PNull" 8 100 "[7]" 100 no_user] z show ?thesis
    by (simp add: int_size_def ex_mapped2)
qed

lemma ucast_scast_u32: "(ucast (scast (w :: u32) :: u64) :: u32) = w"
  by (rule bit_word_eqI) (auto simp: bit_ucast_iff bit_signed_iff)

text \<open>
  The decoder of plain signed integers takes the low 32 bits of the varint as a signed
  number when the field is narrower than 64 bits, stores it when the field's width holds it,
  and otherwise reports an overflow; so an \<open>int32\<close> field accepts every varint.
\<close>

theorem dec_varint_exact:
  assumes "buf_content m s = Some bs" and "parse_varint 0 (0 :: u64) bs = (Inr v, k)"
    and "int_size (data_size f)" and "mapped m dest (uint (data_size f))"
    and "sv = (if data_size f = 8 then v else scast (ucast v :: u32))"
  shows "\<exists>s' m'. pb_dec_varint env s f dest m = Some (fits_signed (data_size f) sv, s', m') \<and>
    (4 \<le> data_size f \<longrightarrow> fits_signed (data_size f) sv) \<and>
    (if fits_signed (data_size f) sv
     then s' = buf_advance s k \<and> m' = upd_bytes m dest (le_bytes (unat (data_size f)) sv)
     else s' = i_set_error (buf_advance s k) ''integer too large'')"
proof -
  obtain w where w: "clamp_signed (data_size f) sv = Some (unat (data_size f), w)"
    and eq: "w = sv \<longleftrightarrow> fits_signed (data_size f) sv"
    using clamp_signed_exact [OF assms(3)] by blast
  have "fits_signed (data_size f) sv" if "4 \<le> data_size f"
  proof -
    from assms(3) that have "data_size f = 4 \<or> data_size f = 8" by (auto simp: int_size_def word_le_nat_alt)
    then have "w = sv"
      using w assms(5) by (auto simp: clamp_signed_def ucast_scast_u32)
    with eq show ?thesis by simp
  qed
  moreover have "mapped m dest (int (unat (data_size f)))" using assms(4) by simp
  from store_word_conv [OF this, of w] w eq assms(1,2,5)
  have "\<exists>s' m'. pb_dec_varint env s f dest m = Some (fits_signed (data_size f) sv, s', m') \<and>
    (if fits_signed (data_size f) sv
     then s' = buf_advance s k \<and> m' = upd_bytes m dest (le_bytes (unat (data_size f)) sv)
     else s' = i_set_error (buf_advance s k) ''integer too large'')"
    by (auto simp: pb_dec_varint_def buf.decode_varint_parse store_clamped_def Let_def)
  ultimately show ?thesis by blast
qed

theorem dec_varint_exact_witness:
  "\<exists>s' m'. pb_dec_varint no_user (ex_stream 8 [0x80, 0x02]) (Pb_Field 1 0 0 0 1 0 PNull) 100
       (ex_mem2 8 [0x80, 0x02] 100 [7]) = Some (False, s', m') \<and> i_errmsg s' = Some ''integer too large''"
proof -
  have p: "parse_varint 0 (0 :: u64) [0x80, 0x02] = (Inr 256, 2)" by code_simp
  have z: "\<not> fits_signed 1 (scast (ucast (256 :: u64) :: u32))" by code_simp
  from dec_varint_exact [OF ex_content2 p, of "Pb_Field 1 0 0 0 1 0 PNull" 8 100 "[7]" 100 _ no_user] z show ?thesis
    by (force simp: int_size_def ex_mapped2 i_set_error_def buf_advance_def ex_stream_def pb_istream_from_buffer_def)
qed

section \<open>Strings and byte arrays\<close>

lemma read_mem_exact:
  assumes "buf_content m s = Some bs" and "unat cnt \<le> length bs" and "mapped m p (uint cnt)"
    and "{p ..< p + uint cnt} \<inter> {i_state s ..< i_state s + uint cnt} = {}"
  shows "pb_read env s (DMem p) cnt m = Some (True, [], buf_advance s (unat cnt), upd_bytes m p (take (unat cnt) bs))"
proof -
  from buf_contentD [OF assms(1)] have d: "i_callback s = Buf_read" "load_bytes m (i_state s) (length bs) = Some bs"
    "unat (bytes_left s) = length bs" by auto
  let ?t = "take (unat cnt) bs"
  have len: "length ?t = unat cnt" using assms(2) by simp
  have "load_bytes m (i_state s) (length ?t) = Some ?t"
    unfolding len using load_bytes_take [OF d(2) assms(2)] .
  moreover have "mapped m p (int (length ?t))" using assms(3) len by simp
  moreover have "i_state s + int (length ?t) \<le> p \<or> p + int (length ?t) \<le> i_state s \<or> ?t = []"
  proof (rule ccontr)
    assume "\<not> ?thesis"
    then have "max p (i_state s) \<in> {p ..< p + uint cnt} \<inter> {i_state s ..< i_state s + uint cnt}"
      using len by (auto simp: nat_less_iff zless_nat_eq_int_zless)
    with assms(4) show False by blast
  qed
  ultimately have "copy_bytes m (i_state s) p (unat cnt) = Some (upd_bytes m p ?t)"
    using copy_bytes_disjoint [of m "i_state s" "length ?t" ?t p] unfolding len by (cases "?t = []") (use len in auto)
  then show ?thesis using d assms(2)
    by (simp add: pb_read_def pb_read_direct_def call_read_def buf_read_def Let_def buf_advance_def word_less_nat_alt)
qed

lemma upd_bytes_snoc: "(upd_bytes m p xs)(p + int (length xs) \<mapsto> b) = upd_bytes m p (xs @ [b])"
  by (auto simp: upd_bytes_def fun_eq_iff nth_append)

lemma sub_disjoint:
  fixes a b c d :: int
  shows "{a ..< b} \<inter> {c ..< d} = {} \<Longrightarrow> a \<le> a' \<Longrightarrow> b' \<le> b \<Longrightarrow> c \<le> c' \<Longrightarrow> d' \<le> d \<Longrightarrow> {a' ..< b'} \<inter> {c' ..< d'} = {}"
  by fastforce

lemma after_prefix:
  assumes "buf_content m s = Some bs" and "k + unat n \<le> length bs"
  shows "buf_content m (buf_advance s k) = Some (drop k bs)" and "unat (ucast (n :: u32) :: u64) \<le> length (drop k bs)"
    and "i_state (buf_advance s k) = i_state s + int k"
  using buf.content_advance [OF assms(1), of k] assms(2) unat_ucast_up [of n, where 'b = 64]
  by (simp_all add: buf_advance_def)

lemma content_upd:
  assumes "buf_content m s = Some bs" and "{p ..< p + int (length xs)} \<inter> {i_state s ..< i_state s + int (length bs)} = {}"
  shows "buf_content (upd_bytes m p xs) s = Some bs"
proof -
  from buf_contentD [OF assms(1)] have d: "i_callback s = Buf_read" "load_bytes m (i_state s) (length bs) = Some bs"
    "unat (bytes_left s) = length bs" by auto
  have "load_bytes (upd_bytes m p xs) (i_state s) (length bs) = load_bytes m (i_state s) (length bs)"
    by (rule load_bytes_cong) (use assms(2) in \<open>fastforce simp: upd_bytes_def\<close>)
  with d show ?thesis by (simp add: buf_content_def)
qed

text \<open>
  A string that fits is stored in the field with a terminator behind it, the stream is left
  behind the string, and nothing else in memory changes.
\<close>

theorem dec_string_exact:
  assumes "buf_content m s = Some bs" and "parse_varint 0 (0 :: u32) bs = (Inr n, k)"
    and "k + unat n \<le> length bs" and "unat n < unat (data_size f)" and "PB_ATYPE (type f) = PB_ATYPE_STATIC"
    and "mapped m dest (uint (data_size f))"
    and "{dest ..< dest + uint (data_size f)} \<inter> {i_state s ..< i_state s + int (length bs)} = {}"
  shows "pb_dec_string env s f dest m =
    Some (True, buf_advance s (k + unat n), upd_bytes m dest (take (unat n) (drop k bs) @ [0]))"
proof -
  note a = after_prefix [OF assms(1,3)]
  have un: "int (unat n) < int (unat (data_size f))" using assms(4) by (simp only: of_nat_less_iff)
  have al: "int (k + unat n) \<le> int (length bs)" using assms(3) by (simp only: of_nat_le_iff)
  have u1: "unat (n + 1) = unat n + 1"
    using assms(4) unsigned_less [of "data_size f", where ?'a = nat] by (simp add: unat_word_ariths)
  have u64: "unat (ucast w :: u64) = unat w" for w :: u32 by (rule unat_ucast_up) simp
  have ok: "\<not> (ucast (n + 1) :: u64) < ucast n" "\<not> (ucast (n + 1) :: u64) > ucast (data_size f)"
    using assms(4) by (simp_all add: word_less_nat_alt u64 u1)
  have m1: "mapped m dest (uint (ucast n :: u64))"
    using assms(6) by (rule mapped_mono) (use un in simp_all)
  have d1: "{dest ..< dest + uint (ucast n :: u64)} \<inter>
      {i_state (buf_advance s k) ..< i_state (buf_advance s k) + uint (ucast n :: u64)} = {}"
    using assms(7) by (rule sub_disjoint) (use un al a(3) in simp_all)
  let ?t = "take (unat n) (drop k bs)"
  have len: "length ?t = unat n" using assms(3) by simp
  have rd: "pb_read env (buf_advance s k) (DMem dest) (ucast n) m =
      Some (True, [], buf_advance s (k + unat n), upd_bytes m dest ?t)"
    using read_mem_exact [OF a(1,2) m1 d1, of env] by (simp add: u64 buf.advance_add)
  have "m (dest + uint n) \<noteq> None"
    using mapped_byte [OF assms(6), of "dest + uint n"] un by auto
  then have "store (upd_bytes m dest ?t) (dest + uint n) 0 = Some ((upd_bytes m dest ?t)(dest + int (length ?t) \<mapsto> 0))"
    unfolding len by (simp add: store_def upd_bytes_def)
  then have "store (upd_bytes m dest ?t) (dest + uint n) 0 = Some (upd_bytes m dest (?t @ [0]))"
    unfolding upd_bytes_snoc .
  then show ?thesis using assms(5) ok
    by (simp add: pb_dec_string_def buf.decode_varint32_parse [OF assms(1)] assms(2) Let_def rd)
qed

theorem dec_string_exact_witness:
  "pb_dec_string no_user (ex_stream 8 [2, 65, 66]) (Pb_Field 1 6 0 0 3 0 PNull) 100 (ex_mem2 8 [2, 65, 66] 100 [7, 7, 7]) =
     Some (True, buf_advance (ex_stream 8 [2, 65, 66]) (1 + 2), upd_bytes (ex_mem2 8 [2, 65, 66] 100 [7, 7, 7]) 100 [65, 66, 0])"
proof -
  have p: "parse_varint 0 (0 :: u32) [2, 65, 66] = (Inr 2, 1)" by code_simp
  from dec_string_exact [OF ex_content2 p, of "Pb_Field 1 6 0 0 3 0 PNull" 8 100 "[7, 7, 7]" 100 no_user] show ?thesis
    by (simp add: PB_ATYPE_def ex_mapped2 ex_state)
qed

text \<open>
  A string that does not leave room for its terminator is refused before any of it is
  stored.
\<close>

theorem dec_string_too_long:
  assumes "buf_content m s = Some bs" and "parse_varint 0 (0 :: u32) bs = (Inr n, k)"
    and "unat (data_size f) \<le> unat n" and "PB_ATYPE (type f) = PB_ATYPE_STATIC"
  shows "\<exists>e \<in> {''string overflow'', ''size too large''}.
    pb_dec_string env s f dest m = Some (False, i_set_error (buf_advance s k) e, m)"
proof (cases "n = 0xFFFFFFFF")
  case True
  then show ?thesis using assms
    by (simp add: pb_dec_string_def buf.decode_varint32_parse Let_def)
next
  case False
  have "unat n \<noteq> 2 ^ 32 - 1"
  proof
    assume "unat n = 2 ^ 32 - 1"
    then have "unat n = unat (0xFFFFFFFF :: u32)" by simp
    with False show False by (simp only: word_unat_eq_iff)
  qed
  then have "unat (n + 1) = unat n + 1"
    using unsigned_less [of n, where ?'a = nat] by (simp add: unat_word_ariths)
  then have "(ucast (n + 1) :: u64) > ucast (data_size f)" "\<not> (ucast (n + 1) :: u64) < ucast n"
    using assms(3) unat_ucast_up [where 'b = 64, of "n + 1"] unat_ucast_up [where 'b = 64, of n]
      unat_ucast_up [where 'b = 64, of "data_size f"] by (simp_all add: word_less_nat_alt)
  with assms show ?thesis by (simp add: pb_dec_string_def buf.decode_varint32_parse Let_def)
qed

theorem dec_string_too_long_witness:
  "\<exists>e \<in> {''string overflow'', ''size too large''}.
    pb_dec_string no_user (ex_stream 8 [2, 65, 66]) (Pb_Field 1 6 0 0 2 0 PNull) 100 (ex_mem2 8 [2, 65, 66] 100 [7, 7]) =
      Some (False, i_set_error (buf_advance (ex_stream 8 [2, 65, 66]) 1) e, ex_mem2 8 [2, 65, 66] 100 [7, 7])"
proof -
  have "parse_varint 0 (0 :: u32) [2, 65, 66] = (Inr 2, 1)" by code_simp
  from dec_string_too_long [OF ex_content2 this] show ?thesis by (simp add: PB_ATYPE_def)
qed

text \<open>
  A byte array that fits is stored as its length and its bytes, the stream is left behind
  it, and nothing else in memory changes.
\<close>

theorem dec_bytes_exact:
  assumes "buf_content m s = Some bs" and "parse_varint 0 (0 :: u32) bs = (Inr n, k)"
    and "k + unat n \<le> length bs" and "unat n + 4 \<le> unat (data_size f)" and "PB_ATYPE (type f) = PB_ATYPE_STATIC"
    and "mapped m dest (uint (data_size f))"
    and "{dest ..< dest + uint (data_size f)} \<inter> {i_state s ..< i_state s + int (length bs)} = {}"
  shows "pb_dec_bytes env s f dest m =
    Some (True, buf_advance s (k + unat n), upd_bytes m dest (le_bytes 4 n @ take (unat n) (drop k bs)))"
proof -
  have un: "int (unat n + 4) \<le> int (unat (data_size f))" using assms(4) by (simp only: of_nat_le_iff)
  have al: "int (k + unat n) \<le> int (length bs)" using assms(3) by (simp only: of_nat_le_iff)
  have ok: "\<not> PB_BYTES_ARRAY_T_ALLOCSIZE n < ucast n" "\<not> PB_BYTES_ARRAY_T_ALLOCSIZE n > ucast (data_size f)"
    using un by (simp_all add: word_less_def uint_alloc_size)
  have "mapped m dest (int 4)" using assms(6) by (rule mapped_mono) (use un uint_ge_0 [of n] in \<open>simp, simp, linarith\<close>)
  then have sw: "store_word m dest 4 n = Some (upd_bytes m dest (le_bytes 4 n))" by (rule store_word_conv)
  let ?m = "upd_bytes m dest (le_bytes 4 n)"
  have so: "same_outside m ?m dest 4" using same_outside_upd [of m dest "le_bytes 4 n"] \<open>mapped m dest (int 4)\<close> by simp
  have c: "buf_content ?m s = Some bs"
  proof (rule content_upd [OF assms(1)])
    have "uint n + 4 \<le> uint (data_size f)" using un by simp
    then have "int 4 \<le> uint (data_size f)" using uint_ge_0 [of n] by linarith
    then show "{dest ..< dest + int (length (le_bytes 4 n))} \<inter> {i_state s ..< i_state s + int (length bs)} = {}"
      using assms(7) by (intro sub_disjoint [OF assms(7)]) simp_all
  qed
  note a = after_prefix [OF c assms(3)]
  have m1: "mapped ?m (dest + 4) (uint (ucast n :: u64))"
    unfolding same_outside_mapped [OF so] using assms(6) by (rule mapped_mono) (use un in simp_all)
  have d1: "{dest + 4 ..< dest + 4 + uint (ucast n :: u64)} \<inter>
      {i_state (buf_advance s k) ..< i_state (buf_advance s k) + uint (ucast n :: u64)} = {}"
    using assms(7) by (rule sub_disjoint) (use un al a(3) in simp_all)
  have u64: "unat (ucast n :: u64) = unat n" by (rule unat_ucast_up) simp
  have big: "\<not> (0xFFFFFFFF :: u32) < n"
    using unsigned_less [of n, where ?'a = nat] by (simp add: word_less_nat_alt not_less)
  have "upd_bytes ?m (dest + 4) xs = upd_bytes m dest (le_bytes 4 n @ xs)" for xs
    using upd_bytes_append [of m dest "le_bytes 4 n" xs] by simp
  then show ?thesis using assms(5) ok big read_mem_exact [OF a(1,2) m1 d1, of env]
    by (simp add: pb_dec_bytes_def buf.decode_varint32_parse [OF assms(1)] assms(2) Let_def sw u64 buf.advance_add)
qed

theorem dec_bytes_exact_witness:
  "pb_dec_bytes no_user (ex_stream 8 [2, 65, 66]) (Pb_Field 1 5 0 0 6 0 PNull) 100 (ex_mem2 8 [2, 65, 66] 100 [7, 7, 7, 7, 7, 7]) =
     Some (True, buf_advance (ex_stream 8 [2, 65, 66]) (1 + 2),
       upd_bytes (ex_mem2 8 [2, 65, 66] 100 [7, 7, 7, 7, 7, 7]) 100 [2, 0, 0, 0, 65, 66])"
proof -
  have p: "parse_varint 0 (0 :: u32) [2, 65, 66] = (Inr 2, 1)" by code_simp
  have l: "le_bytes 4 (2 :: u32) = [2, 0, 0, 0]" by code_simp
  from dec_bytes_exact [OF ex_content2 p, of "Pb_Field 1 5 0 0 6 0 PNull" 8 100 "[7, 7, 7, 7, 7, 7]" 100 no_user] show ?thesis
    by (simp add: PB_ATYPE_def ex_mapped2 ex_state l)
qed

end
