(* ===== verification/PbEncodeProps.thy ===== *)
theory PbEncodeProps
  imports PbRoundtrip
begin

text \<open>
  How the encoder decides that a field without a has flag is absent. The test looks at the first
  \<open>data_size\<close> bytes of a field; it does not look at the count of an array, and not at the whole
  of a pointer.
\<close>

text \<open>
  C35: A submessage of arrays of numbers, in a message without has flags, counts as empty when the
  first item of every array is zero, however many items the arrays have: the encoder writes
  nothing for it, and succeeds.
\<close>

theorem proto3_drops_arrays:
  assumes "PB_LTYPE (type f) = PB_LTYPE_SUBMESSAGE" and "PB_ATYPE (type f) = PB_ATYPE_STATIC"
    and "PB_HTYPE (type f) = PB_HTYPE_OPTIONAL" and "size_offset f = 0" and "field_ptr f = PFields fs"
    and wa: "wf_array fs" and "\<forall>i < nfields fs. PB_LTYPE (type (fs ! i)) \<le> PB_LTYPE_LAST_PACKABLE \<and>
      all_zero m (p + data_pos fs i) (unat (data_size (fs ! i))) = Some True"
    and "check_fuel 2 f \<le> fuel" and "PB_ENCODERS env sub PB_LTYPE_SUBMESSAGE = Some func"
  shows "encode_basic_field fuel env sub s f p m = Some (True, s, m)"
proof -
  have d1: "default_value 1 m g q = all_zero m q (unat (data_size g))"
    if "PB_LTYPE (type g) \<le> PB_LTYPE_LAST_PACKABLE" for g q using that by auto
  have all: "all_default D xs = Some True" if "\<forall>(g, q) \<in> set xs. D g q = Some True" for D xs
    using that by (induction xs) auto
  have "all_default (default_value 1 m) (members fs p) = Some True"
    using assms(7) d1 by (intro all) (auto simp: members_def simp del: default_value.simps)
  then have "default_value 2 m f p = Some True"
    using assms(1,2,5) wa by (simp add: numeral_2_eq_2)
  from default_value_check [OF this map_le_refl assms(8)]
  show ?thesis using assms(1-4,9) by (simp add: encode_basic_field_def Let_def)
qed

text \<open>The witness: one array, whose count says that it holds a single zero.\<close>

definition ex_inner :: "pb_field_t list" where
  "ex_inner = (let a = \<lparr>m_offset = 4, m_size = 8, m_elem = 4, m_companion = 0\<rparr>
    in [PB_FIELD 1 UINT32 REPEATED STATIC FIRST a a PNull, PB_LAST_FIELD])"

definition ex_outer :: pb_field_t where
  "ex_outer = (let a = \<lparr>m_offset = 0, m_size = 12, m_elem = 12, m_companion = 0\<rparr>
    in PB_FIELD 1 MESSAGE SINGULAR STATIC FIRST a a (PFields ex_inner))"

abbreviation ex_one_zero :: mem where
  "ex_one_zero \<equiv> ex_mem 100 [1, 0, 0, 0, 0, 0, 0, 0, 0, 0, 0, 0]"

theorem proto3_drops_arrays_witness:
  "encode_basic_field 20 no_user (pb_enc_submessage no_user (pb_encode 5 no_user)) PB_OSTREAM_SIZING ex_outer 100 ex_one_zero =
      Some (True, PB_OSTREAM_SIZING, ex_one_zero) \<and>
   message_bytes 2 ex_one_zero ex_inner 100 = Some [0x0A, 1, 0]"
proof
  show "encode_basic_field 20 no_user (pb_enc_submessage no_user (pb_encode 5 no_user)) PB_OSTREAM_SIZING ex_outer 100 ex_one_zero =
      Some (True, PB_OSTREAM_SIZING, ex_one_zero)"
  proof (rule proto3_drops_arrays [where fs = ex_inner])
    have "nfields ex_inner = 1" "PB_LTYPE (type (ex_inner ! 0)) \<le> PB_LTYPE_LAST_PACKABLE"
      "all_zero ex_one_zero (100 + data_pos ex_inner 0) (unat (data_size (ex_inner ! 0))) = Some True" by code_simp+
    then show "\<forall>i < nfields ex_inner. PB_LTYPE (type (ex_inner ! i)) \<le> PB_LTYPE_LAST_PACKABLE \<and>
        all_zero ex_one_zero (100 + data_pos ex_inner i) (unat (data_size (ex_inner ! i))) = Some True" by simp
    show "PB_ENCODERS no_user (pb_enc_submessage no_user (pb_encode 5 no_user)) PB_LTYPE_SUBMESSAGE = Some (Some (pb_enc_submessage no_user (pb_encode 5 no_user)))"
      by (simp add: PB_ENCODERS_def)
    show "PB_LTYPE (type ex_outer) = PB_LTYPE_SUBMESSAGE" "PB_ATYPE (type ex_outer) = PB_ATYPE_STATIC"
      "PB_HTYPE (type ex_outer) = PB_HTYPE_OPTIONAL" "size_offset ex_outer = 0" "wf_array ex_inner" by code_simp+
    show "field_ptr ex_outer = PFields ex_inner" by (simp add: ex_outer_def PB_FIELD_def)
    show "check_fuel 2 ex_outer \<le> 20" by code_simp
  qed
  show "message_bytes 2 ex_one_zero ex_inner 100 = Some [0x0A, 1, 0]" by code_simp
qed

text \<open>
  A pointer member whose target type has four bytes counts as absent when the lower half of
  the address in it is zero: the test compares \<open>data_size\<close> bytes of the pointer, not all eight.
\<close>

theorem proto3_pointer_low_half:
  assumes "PB_ATYPE (type f) = PB_ATYPE_POINTER" and "data_size f = 4" and "0 < fuel"
    and "load_bytes m p 8 = Some ([0, 0, 0, 0] @ upper)"
  shows "pb_check_proto3_default_value fuel f p m = Some True"
proof -
  obtain n where n: "fuel = Suc n" using assms(3) by (cases fuel) auto
  have "m (p + int i) = Some 0" if "i < 4" for i
    using assms(4) that by (auto simp: load_bytes_iff nth_Cons split: nat.splits)
  from this [of 0] this [of 1] this [of 2] this [of 3]
  have "all_zero m p 4 = Some True" by (simp add: eval_nat_numeral algebra_simps)
  with assms(1,2) n show ?thesis by simp
qed

theorem proto3_pointer_low_half_witness:
  "pb_check_proto3_default_value 1 (Pb_Field 1 (PB_ATYPE_POINTER OR PB_HTYPE_OPTIONAL OR PB_LTYPE_UVARINT) 0 0 4 0 PNull) 100
     (ex_mem 100 [0, 0, 0, 0, 1, 0, 0, 0]) = Some True"
proof (rule proto3_pointer_low_half)
  have "load_bytes (ex_mem 100 [0, 0, 0, 0, 1, 0, 0, 0]) 100 8 = Some ([0, 0, 0, 0] @ [1, 0, 0, 0])" by code_simp
  then show "load_bytes (ex_mem 100 [0, 0, 0, 0, 1, 0, 0, 0]) 100 8 = Some ([0, 0, 0, 0] @ [1, 0, 0, 0])" .
  show "PB_ATYPE (type (Pb_Field 1 (PB_ATYPE_POINTER OR PB_HTYPE_OPTIONAL OR PB_LTYPE_UVARINT) 0 0 4 0 PNull)) = PB_ATYPE_POINTER"
    by code_simp
qed simp_all

end
