(* ===== verification/LdbSlice.thy ===== *)
theory LdbSlice
  imports Prelude "HOL-Library.List_Lexorder"
begin

text \<open>
  The slices of leveldb (include/leveldb/slice.h) and the bytewise comparator (util/comparator.cc).
  A slice is modelled by the bytes it refers to. A comparator returns a number of which only the sign
  counts; \<open>None\<close> is a failed assertion. The interface \<open>comparator\<close> states what its clients, the
  skip list and the tables, need of one: a total preorder on the valid keys.
\<close>

type_synonym slice = "byte list"

section \<open>Slices\<close>

text \<open>\<open>memcmp\<close> of two blocks of the same length compares bytes as unsigned numbers.\<close>

fun memcmp :: "byte list \<Rightarrow> byte list \<Rightarrow> int" where
  "memcmp (a # as) (b # bs) = (if a < b then -1 else if b < a then 1 else memcmp as bs)"
| "memcmp _ _ = 0"

definition Slice_at :: "slice \<Rightarrow> nat \<Rightarrow> byte option" where
  "Slice_at s n = nth_opt s n"

definition Slice_remove_prefix :: "slice \<Rightarrow> nat \<Rightarrow> slice option" where
  "Slice_remove_prefix s n = (if n \<le> length s then Some (drop n s) else None)"

definition Slice_starts_with :: "slice \<Rightarrow> slice \<Rightarrow> bool" where
  "Slice_starts_with s x \<longleftrightarrow> length s \<ge> length x \<and> memcmp (take (length x) s) x = 0"

definition Slice_equal :: "slice \<Rightarrow> slice \<Rightarrow> bool" where
  "Slice_equal x y \<longleftrightarrow> length x = length y \<and> memcmp x y = 0"

definition Slice_compare :: "slice \<Rightarrow> slice \<Rightarrow> int" where
  "Slice_compare a b =
     (let min_len = (if length a < length b then length a else length b);
          r = memcmp (take min_len a) (take min_len b)
      in if r = 0 then (if length a < length b then -1 else if length a > length b then 1 else r) else r)"

lemma memcmp_0: "length a = length b \<Longrightarrow> memcmp a b = 0 \<longleftrightarrow> a = b"
  by (induction a b rule: memcmp.induct) auto

text \<open>The comparison of two slices is the one of the lexicographic order of their bytes.\<close>

lemma Slice_compare_lex: "Slice_compare a b = (if a < b then -1 else if a = b then 0 else 1)"
proof (induction a arbitrary: b)
  case Nil
  then show ?case by (cases b) (simp_all add: Slice_compare_def)
next
  case (Cons x a)
  show ?case
  proof (cases b)
    case Nil
    then show ?thesis by (simp add: Slice_compare_def)
  next
    case b: (Cons y b')
    have "Slice_compare (x # a) (y # b') =
        (if x < y then -1 else if y < x then 1 else Slice_compare a b')"
      by (simp add: Slice_compare_def Let_def)
    then show ?thesis using Cons.IH [of b'] b by auto
  qed
qed

lemma Slice_sign:
  "Slice_compare a b < 0 \<longleftrightarrow> a < b" "Slice_compare a b \<le> 0 \<longleftrightarrow> a \<le> b" "Slice_compare a b = 0 \<longleftrightarrow> a = b"
  by (auto simp: Slice_compare_lex)

lemma starts_with_prefix: "Slice_starts_with s x \<longleftrightarrow> (\<exists>r. s = x @ r)"
proof
  assume "Slice_starts_with s x"
  then have "take (length x) s = x" using memcmp_0 [of "take (length x) s" x] by (simp add: Slice_starts_with_def)
  then have "s = x @ drop (length x) s" by (metis append_take_drop_id)
  then show "\<exists>r. s = x @ r" ..
qed (auto simp: Slice_starts_with_def memcmp_0)

section \<open>Comparators\<close>

text \<open>
  A comparator has three operations (include/leveldb/comparator.h). The laws of the first make the valid
  keys a total preorder; the other two shorten a key within its range.
\<close>

record Comparator =
  Compare :: "slice \<Rightarrow> slice \<Rightarrow> int option"
  FindShortestSeparator :: "slice \<Rightarrow> slice \<Rightarrow> slice option"
  FindShortSuccessor :: "slice \<Rightarrow> slice option"

definition less_key :: "('k \<Rightarrow> 'k \<Rightarrow> int option) \<Rightarrow> 'k \<Rightarrow> 'k \<Rightarrow> bool" where
  "less_key cmp a b \<longleftrightarrow> (case cmp a b of None \<Rightarrow> False | Some r \<Rightarrow> r < 0)"

definition same_key :: "('k \<Rightarrow> 'k \<Rightarrow> int option) \<Rightarrow> 'k \<Rightarrow> 'k \<Rightarrow> bool" where
  "same_key cmp a b \<longleftrightarrow> cmp a b = Some 0"

locale comparator =
  fixes cmp :: "'k \<Rightarrow> 'k \<Rightarrow> int option" and valid :: "'k \<Rightarrow> bool"
  assumes cmp_defined: "valid a \<Longrightarrow> valid b \<Longrightarrow> \<exists>r. cmp a b = Some r"
    and cmp_swap: "valid a \<Longrightarrow> valid b \<Longrightarrow> cmp a b = Some r \<Longrightarrow> \<exists>r'. cmp b a = Some r' \<and> sgn r' = - sgn r"
    and cmp_trans: "valid a \<Longrightarrow> valid b \<Longrightarrow> valid c \<Longrightarrow> cmp a b = Some r \<Longrightarrow> cmp b c = Some s \<Longrightarrow> r \<le> 0 \<Longrightarrow> s \<le> 0 \<Longrightarrow>
      \<exists>t. cmp a c = Some t \<and> t \<le> 0 \<and> (r < 0 \<or> s < 0 \<longrightarrow> t < 0)"
begin

lemma same_refl: "valid a \<Longrightarrow> same_key cmp a a"
proof -
  assume a: "valid a"
  from cmp_defined [OF a a] obtain r where r: "cmp a a = Some r" by blast
  from cmp_swap [OF a a r] r have "sgn r = - sgn r" by auto
  then have "r = 0" by (simp add: sgn_if split: if_splits)
  with r show ?thesis by (simp add: same_key_def)
qed

lemma less_irrefl: "valid a \<Longrightarrow> \<not> less_key cmp a a"
  using same_refl [of a] by (simp add: same_key_def less_key_def)

lemma less_trans: "valid a \<Longrightarrow> valid b \<Longrightarrow> valid c \<Longrightarrow> less_key cmp a b \<Longrightarrow> less_key cmp b c \<Longrightarrow> less_key cmp a c"
  using cmp_trans [of a b c] by (force simp: less_key_def split: option.splits)

lemma less_cases:
  assumes "valid a" and "valid b"
  obtains "less_key cmp a b" "\<not> less_key cmp b a" "\<not> same_key cmp a b"
  | "same_key cmp a b" "\<not> less_key cmp a b" "\<not> less_key cmp b a"
  | "less_key cmp b a" "\<not> less_key cmp a b" "\<not> same_key cmp a b"
proof -
  from cmp_defined [OF assms] obtain r where r: "cmp a b = Some r" by blast
  from cmp_swap [OF assms r] obtain r' where r': "cmp b a = Some r'" "sgn r' = - sgn r" by blast
  consider "r < 0" | "r = 0" | "0 < r" by linarith
  then show ?thesis
  proof cases
    case 1
    with r' have "0 < r'" by (simp add: sgn_if split: if_splits)
    with 1 r r' that(1) show ?thesis by (simp add: less_key_def same_key_def)
  next
    case 2
    with r' have "r' = 0" by (simp add: sgn_if split: if_splits)
    with 2 r r' that(2) show ?thesis by (simp add: less_key_def same_key_def)
  next
    case 3
    with r' have "r' < 0" by (simp add: sgn_if split: if_splits)
    with 3 r r' that(3) show ?thesis by (simp add: less_key_def same_key_def)
  qed
qed

lemma same_less_trans: "valid a \<Longrightarrow> valid b \<Longrightarrow> valid c \<Longrightarrow> same_key cmp a b \<Longrightarrow> less_key cmp b c \<Longrightarrow> less_key cmp a c"
  using cmp_trans [of a b c] by (force simp: less_key_def same_key_def split: option.splits)

lemma less_same_trans: "valid a \<Longrightarrow> valid b \<Longrightarrow> valid c \<Longrightarrow> less_key cmp a b \<Longrightarrow> same_key cmp b c \<Longrightarrow> less_key cmp a c"
  using cmp_trans [of a b c] by (force simp: less_key_def same_key_def split: option.splits)

lemma same_sym: "valid a \<Longrightarrow> valid b \<Longrightarrow> same_key cmp a b \<Longrightarrow> same_key cmp b a"
  using cmp_swap [of a b 0] by (auto simp: same_key_def sgn_if split: if_splits)

end

text \<open>
  The contract of the shortening operations. Of a start that is not below the limit nothing is
  promised in the header; the wrapper for internal keys relies on its being left alone.
\<close>

locale key_comparator = comparator "Compare c" valid for c :: Comparator and valid :: "slice \<Rightarrow> bool" +
  assumes separator: "valid a \<Longrightarrow> valid b \<Longrightarrow> less_key (Compare c) a b \<Longrightarrow>
      \<exists>s. FindShortestSeparator c a b = Some s \<and> valid s \<and> \<not> less_key (Compare c) s a \<and> less_key (Compare c) s b"
    and separator_idle: "valid a \<Longrightarrow> valid b \<Longrightarrow> \<not> less_key (Compare c) a b \<Longrightarrow> FindShortestSeparator c a b = Some a"
    and successor: "valid a \<Longrightarrow> \<exists>s. FindShortSuccessor c a = Some s \<and> valid s \<and> \<not> less_key (Compare c) s a"

section \<open>The bytewise comparator\<close>

fun diff_index :: "slice \<Rightarrow> slice \<Rightarrow> nat" where
  "diff_index (a # as) (b # bs) = (if a = b then Suc (diff_index as bs) else 0)"
| "diff_index _ _ = 0"

definition bytewise_separator :: "slice \<Rightarrow> slice \<Rightarrow> slice" where
  "bytewise_separator start limit =
     (let min_length = min (length start) (length limit); d = diff_index start limit in
      if d \<ge> min_length then start
      else if start ! d < 0xFF \<and> unat (start ! d) + 1 < unat (limit ! d)
      then take d start @ [start ! d + 1]
      else start)"

fun bytewise_successor :: "slice \<Rightarrow> slice" where
  "bytewise_successor [] = []"
| "bytewise_successor (b # bs) = (if b \<noteq> 0xFF then [b + 1] else b # bytewise_successor bs)"

definition BytewiseComparator :: Comparator where
  "BytewiseComparator =
     \<lparr>Compare = (\<lambda>a b. Some (Slice_compare a b)),
      FindShortestSeparator = (\<lambda>a b. Some (bytewise_separator a b)),
      FindShortSuccessor = (\<lambda>a. Some (bytewise_successor a))\<rparr>"


lemma separator_Cons:
  "bytewise_separator (a # as) (b # bs) =
    (if a = b then a # bytewise_separator as bs
     else if a < 0xFF \<and> unat a + 1 < unat b then [a + 1] else a # as)"
  by (simp add: bytewise_separator_def Let_def)

lemma separator_Nil [simp]: "bytewise_separator [] b = []" "bytewise_separator a [] = a"
  by (simp_all add: bytewise_separator_def)

lemma byte_increment: "(a :: byte) < 0xFF \<Longrightarrow> unat (a + 1) = unat a + 1"
  by (simp add: word_less_nat_alt unat_word_ariths)

lemma separator_range: "a < b \<Longrightarrow> a \<le> bytewise_separator a b \<and> bytewise_separator a b < b"
proof (induction a b rule: diff_index.induct)
  case (1 x a y b)
  show ?case
  proof (cases "x = y")
    case True
    with 1 show ?thesis by (simp add: separator_Cons)
  next
    case False
    with 1(2) have "x < y" by simp
    then show ?thesis using False byte_increment [of x] by (auto simp: separator_Cons word_less_nat_alt)
  qed
qed auto

lemma separator_same: "\<not> a < b \<Longrightarrow> bytewise_separator a b = a"
proof (induction a b rule: diff_index.induct)
  case (1 x a y b)
  then show ?case by (auto simp: separator_Cons word_less_nat_alt)
qed auto

lemma separator_length: "length (bytewise_separator a b) \<le> length a"
  by (induction a b rule: diff_index.induct) (auto simp: separator_Cons)

lemma byte_below_max: "(b :: byte) \<noteq> 0xFF \<Longrightarrow> b < b + 1"
proof -
  assume "b \<noteq> 0xFF"
  then have "unat b \<noteq> 255" by (simp add: word_unat_eq_iff)
  moreover have "unat b < 256" using unsigned_less [of b, where ?'a = nat] by simp
  ultimately have "b < 0xFF" by (simp add: word_less_nat_alt)
  then show ?thesis using byte_increment [of b] by (simp add: word_less_nat_alt)
qed

lemma successor_range: "a \<le> bytewise_successor a"
  by (induction a) (auto simp: byte_below_max)

interpretation bytewise: key_comparator BytewiseComparator "\<lambda>_. True"
proof
  fix a b c :: slice and r s :: int
  show "\<exists>r. Compare BytewiseComparator a b = Some r" by (simp add: BytewiseComparator_def)
  show "\<exists>r'. Compare BytewiseComparator b a = Some r' \<and> sgn r' = - sgn r"
    if "Compare BytewiseComparator a b = Some r"
    using that by (auto simp: BytewiseComparator_def Slice_compare_lex split: if_splits)
  show "\<exists>t. Compare BytewiseComparator a c = Some t \<and> t \<le> 0 \<and> (r < 0 \<or> s < 0 \<longrightarrow> t < 0)"
    if "Compare BytewiseComparator a b = Some r" "Compare BytewiseComparator b c = Some s" "r \<le> 0" "s \<le> 0"
    using that by (auto simp: BytewiseComparator_def Slice_compare_lex split: if_splits)
  show "\<exists>s. FindShortestSeparator BytewiseComparator a b = Some s \<and> True \<and>
      \<not> less_key (Compare BytewiseComparator) s a \<and> less_key (Compare BytewiseComparator) s b"
    if "less_key (Compare BytewiseComparator) a b"
    using that separator_range [of a b] by (auto simp: BytewiseComparator_def less_key_def Slice_sign not_less)
  show "FindShortestSeparator BytewiseComparator a b = Some a" if "\<not> less_key (Compare BytewiseComparator) a b"
    using that by (simp add: BytewiseComparator_def less_key_def Slice_sign separator_same)
  show "\<exists>s. FindShortSuccessor BytewiseComparator a = Some s \<and> True \<and> \<not> less_key (Compare BytewiseComparator) s a"
    using successor_range [of a] by (simp add: BytewiseComparator_def less_key_def Slice_sign not_less)
qed

lemma bytewise_less: "less_key (Compare BytewiseComparator) a b \<longleftrightarrow> a < b"
  and bytewise_same: "same_key (Compare BytewiseComparator) a b \<longleftrightarrow> a = b"
  by (simp_all add: less_key_def same_key_def BytewiseComparator_def Slice_sign)

text \<open>
  The bytewise comparator keeps the contract of its header: the separator of two keys lies in
  the range from the first up to the second, it is no longer than the first, and keys that are not in
  order are left alone.
\<close>

theorem bytewise_separator_contract:
  "bytewise_separator start limit = s \<Longrightarrow> length s \<le> length start \<and>
    (if Slice_compare start limit < 0 then Slice_compare start s \<le> 0 \<and> Slice_compare s limit < 0 else s = start)"
  using separator_range [of start limit] separator_same [of start limit] separator_length [of start limit]
  by (auto simp: Slice_sign)

theorem bytewise_separator_contract_witness:
  "bytewise_separator [97, 98, 99, 100] [97, 104] = [97, 99] \<and> Slice_compare [97, 99] [97, 104] < 0"
proof -
  have s: "bytewise_separator [97, 98, 99, 100] [97, 104] = [97, 99]" by code_simp
  have "Slice_compare [97, 98, 99, 100] [97, 104] < 0" by code_simp
  with bytewise_separator_contract [OF s] s show ?thesis by simp
qed

end
