(* ===== verification/LdbCoding.thy ===== *)
theory LdbCoding
  imports LdbSlice PbVarint
begin

text \<open>
  The encodings of leveldb (util/coding.h, util/coding.cc) on byte lists: a pointer is the list of
  the bytes from it to the end of its object, a limit the number of bytes up to it. Reading past
  the object is \<open>None\<close>, a null result is \<open>Some None\<close>. The machine is little-endian; the code for
  the other byte order writes the same bytes.
\<close>

section \<open>Fixed-length numbers\<close>

definition EncodeFixed32 :: "u32 \<Rightarrow> byte list" where
  "EncodeFixed32 value = le_bytes 4 value"

definition EncodeFixed64 :: "u64 \<Rightarrow> byte list" where
  "EncodeFixed64 value = le_bytes 8 value"

definition PutFixed32 :: "slice \<Rightarrow> u32 \<Rightarrow> slice" where
  "PutFixed32 dst value = dst @ EncodeFixed32 value"

definition PutFixed64 :: "slice \<Rightarrow> u64 \<Rightarrow> slice" where
  "PutFixed64 dst value = dst @ EncodeFixed64 value"

definition DecodeFixed32 :: "byte list \<Rightarrow> u32 option" where
  "DecodeFixed32 ptr = (if 4 \<le> length ptr then Some (le_word (take 4 ptr)) else None)"

definition DecodeFixed64 :: "byte list \<Rightarrow> u64 option" where
  "DecodeFixed64 ptr = (if 8 \<le> length ptr then Some (le_word (take 8 ptr)) else None)"

section \<open>Varints\<close>

text \<open>\<open>*(ptr++) = v | B\<close> stores the low byte of the word.\<close>

definition EncodeVarint32 :: "u32 \<Rightarrow> byte list" where
  "EncodeVarint32 v =
     (let B = 128 in
      if v < push_bit 7 1 then [ucast v]
      else if v < push_bit 14 1 then [ucast (v OR B), ucast (drop_bit 7 v)]
      else if v < push_bit 21 1 then [ucast (v OR B), ucast (drop_bit 7 v OR B), ucast (drop_bit 14 v)]
      else if v < push_bit 28 1 then
        [ucast (v OR B), ucast (drop_bit 7 v OR B), ucast (drop_bit 14 v OR B), ucast (drop_bit 21 v)]
      else [ucast (v OR B), ucast (drop_bit 7 v OR B), ucast (drop_bit 14 v OR B), ucast (drop_bit 21 v OR B),
        ucast (drop_bit 28 v)])"

lemma drop_7_less: "128 \<le> (v :: u64) \<Longrightarrow> unat (drop_bit 7 v) < unat v"
proof -
  assume "128 \<le> v"
  then have "128 \<le> unat v" by (simp add: word_le_nat_alt)
  moreover have "unat (drop_bit 7 v) = unat v div 128" by (simp only: unat_drop_bit_div) simp
  ultimately show ?thesis by simp
qed

function EncodeVarint64 :: "u64 \<Rightarrow> byte list" where
  "EncodeVarint64 v =
     (if 128 \<le> v then ucast ((v AND 127) OR 128) # EncodeVarint64 (drop_bit 7 v) else [ucast v])"
  by pat_completeness auto
termination by (relation "measure unat") (simp_all add: drop_7_less)

declare EncodeVarint64.simps [simp del]

definition PutVarint32 :: "slice \<Rightarrow> u32 \<Rightarrow> slice" where
  "PutVarint32 dst v = dst @ EncodeVarint32 v"

definition PutVarint64 :: "slice \<Rightarrow> u64 \<Rightarrow> slice" where
  "PutVarint64 dst v = dst @ EncodeVarint64 v"

function VarintLength :: "u64 \<Rightarrow> nat" where
  "VarintLength v = (if 128 \<le> v then Suc (VarintLength (drop_bit 7 v)) else 1)"
  by pat_completeness auto
termination by (relation "measure unat") (simp_all add: drop_7_less)

declare VarintLength.simps [simp del]

text \<open>The loop of the two parsers; \<open>lim\<close> is \<open>limit - p\<close>.\<close>

fun GetVarint32PtrFallback :: "nat \<Rightarrow> u32 \<Rightarrow> byte list \<Rightarrow> nat \<Rightarrow> (u32 \<times> byte list) option option" where
  "GetVarint32PtrFallback shift result p lim =
     (if shift \<le> 28 \<and> 0 < lim then
        (case p of
           [] \<Rightarrow> None
         | b # p' \<Rightarrow>
             let byte = (ucast b :: u32) in
             if byte AND 128 \<noteq> 0
             then GetVarint32PtrFallback (shift + 7) (result OR push_bit shift (byte AND 127)) p' (lim - 1)
             else Some (Some (result OR push_bit shift byte, p')))
      else Some None)"

fun GetVarint64Ptr_loop :: "nat \<Rightarrow> u64 \<Rightarrow> byte list \<Rightarrow> nat \<Rightarrow> (u64 \<times> byte list) option option" where
  "GetVarint64Ptr_loop shift result p lim =
     (if shift \<le> 63 \<and> 0 < lim then
        (case p of
           [] \<Rightarrow> None
         | b # p' \<Rightarrow>
             let byte = (ucast b :: u64) in
             if byte AND 128 \<noteq> 0
             then GetVarint64Ptr_loop (shift + 7) (result OR push_bit shift (byte AND 127)) p' (lim - 1)
             else Some (Some (result OR push_bit shift byte, p')))
      else Some None)"

declare GetVarint32PtrFallback.simps [simp del] GetVarint64Ptr_loop.simps [simp del]

definition GetVarint32Ptr :: "byte list \<Rightarrow> nat \<Rightarrow> (u32 \<times> byte list) option option" where
  "GetVarint32Ptr p lim =
     (if 0 < lim then
        (case p of
           [] \<Rightarrow> None
         | b # p' \<Rightarrow>
             let result = (ucast b :: u32) in
             if result AND 128 = 0 then Some (Some (result, p')) else GetVarint32PtrFallback 0 0 p lim)
      else GetVarint32PtrFallback 0 0 p lim)"

definition GetVarint64Ptr :: "byte list \<Rightarrow> nat \<Rightarrow> (u64 \<times> byte list) option option" where
  "GetVarint64Ptr p lim = GetVarint64Ptr_loop 0 0 p lim"

definition GetVarint32 :: "slice \<Rightarrow> (u32 \<times> slice) option option" where
  "GetVarint32 input = GetVarint32Ptr input (length input)"

definition GetVarint64 :: "slice \<Rightarrow> (u64 \<times> slice) option option" where
  "GetVarint64 input = GetVarint64Ptr input (length input)"

section \<open>Strings\<close>

text \<open>The size of a slice is cut to 32 bits.\<close>

definition PutLengthPrefixedSlice :: "slice \<Rightarrow> slice \<Rightarrow> slice" where
  "PutLengthPrefixedSlice dst value = PutVarint32 dst (of_nat (length value)) @ value"

definition GetLengthPrefixedSlice :: "slice \<Rightarrow> (slice \<times> slice) option option" where
  "GetLengthPrefixedSlice input = do {
     r \<leftarrow> GetVarint32 input;
     case r of None \<Rightarrow> Some None
     | Some (len, input') \<Rightarrow>
         if length input' \<ge> unat len then Some (Some (take (unat len) input', drop (unat len) input'))
         else Some None
   }"

text \<open>The variant on pointers, of which only this file has a use.\<close>

definition GetLengthPrefixedSlicePtr :: "byte list \<Rightarrow> nat \<Rightarrow> (slice \<times> byte list) option option" where
  "GetLengthPrefixedSlicePtr p lim = do {
     r \<leftarrow> GetVarint32Ptr p lim;
     case r of None \<Rightarrow> Some None
     | Some (len, p') \<Rightarrow>
         if length p - length p' + unat len > lim then Some None
         else if length p' < unat len then None
         else Some (Some (take (unat len) p', drop (unat len) p'))
   }"


section \<open>What the encoders write\<close>

lemma bit_0x7F: "bit (127 :: 'a::len word) n \<longleftrightarrow> n < 7 \<and> n < LENGTH('a)"
  by (rule bit_7F)

lemma bit_0x80: "bit (128 :: 'a::len word) n \<longleftrightarrow> n = 7 \<and> n < LENGTH('a)"
  by (rule bit_80)

lemmas low_byte_bits = bit_or_iff bit_and_iff bit_ucast_iff bit_drop_bit_eq bit_0x7F bit_0x80

text \<open>The bytes of the unrolled encoder are those of the loop.\<close>

lemma low_byte_mask: "(ucast (drop_bit k v OR 128 :: u32) :: byte) = ucast ((drop_bit k (ucast v :: u64) AND 127) OR 128)"
proof (rule bit_word_eqI)
  fix n
  have "bit v (k + n) \<Longrightarrow> k + n < 32" using bit_imp_le_length [of v "k + n"] by simp
  then show "n < LENGTH(8) \<Longrightarrow> bit (ucast (drop_bit k v OR 128 :: u32) :: byte) n =
      bit (ucast ((drop_bit k (ucast v :: u64) AND 127) OR 128) :: byte) n"
    by (auto simp: low_byte_bits simp del: bit_numeral_word_iff)
qed

lemma low_byte: "(ucast (drop_bit k v :: u32) :: byte) = ucast (drop_bit k (ucast v :: u64))"
proof (rule bit_word_eqI)
  fix n
  have "bit v (k + n) \<Longrightarrow> k + n < 32" using bit_imp_le_length [of v "k + n"] by simp
  then show "bit (ucast (drop_bit k v) :: byte) n = bit (ucast (drop_bit k (ucast v :: u64)) :: byte) n"
    by (auto simp: low_byte_bits)
qed

lemma unat_shift: "unat (drop_bit k (ucast v :: u64)) = unat (v :: u32) div 2 ^ k"
proof -
  have "unat (ucast v :: u64) = unat v"
    by (simp add: unsigned_ucast_eq take_bit_nat_eq_self order.strict_trans [OF unsigned_less])
  then show ?thesis by (simp only: unat_drop_bit_div)
qed

lemma at_least_128: "128 \<le> (w :: u64) \<longleftrightarrow> 128 \<le> unat w"
  by (simp add: word_le_nat_alt)

lemma below_power: "(v :: u32) < push_bit k 1 \<longleftrightarrow> unat v < 2 ^ k" if "k < 32"
  using unat_push_one [where 'a = 32, of k] that by (simp add: word_less_nat_alt del: push_bit_eq_mult)

lemma loop_step: "EncodeVarint64 (drop_bit k (ucast (v :: u32))) =
    (if 128 \<le> unat v div 2 ^ k
     then ucast (drop_bit k v OR 128) # EncodeVarint64 (drop_bit (k + 7) (ucast v))
     else [ucast (drop_bit k v)])"
  using EncodeVarint64.simps [of "drop_bit k (ucast v)"]
  by (simp only: at_least_128 unat_shift low_byte_mask low_byte drop_bit_drop_bit add.commute)

lemma EncodeVarint32_loop: "EncodeVarint32 v = EncodeVarint64 (ucast v)"
proof -
  have v: "unat v < 2 ^ 32" using unsigned_less [of v, where ?'a = nat] by simp
  have b: "v < push_bit 7 1 \<longleftrightarrow> unat v < 2 ^ 7" "v < push_bit 14 1 \<longleftrightarrow> unat v < 2 ^ 14"
    "v < push_bit 21 1 \<longleftrightarrow> unat v < 2 ^ 21" "v < push_bit 28 1 \<longleftrightarrow> unat v < 2 ^ 28"
    by (simp_all only: below_power)
  have d: "128 \<le> unat v div 2 ^ 0 \<longleftrightarrow> \<not> unat v < 2 ^ 7" "128 \<le> unat v div 2 ^ 7 \<longleftrightarrow> \<not> unat v < 2 ^ 14"
    "128 \<le> unat v div 2 ^ 14 \<longleftrightarrow> \<not> unat v < 2 ^ 21" "128 \<le> unat v div 2 ^ 21 \<longleftrightarrow> \<not> unat v < 2 ^ 28"
    "128 \<le> unat v div 2 ^ 28 \<longleftrightarrow> False"
    using v by auto
  have s: "0 + 7 = (7 :: nat)" "7 + 7 = (14 :: nat)" "14 + 7 = (21 :: nat)" "21 + 7 = (28 :: nat)" by simp_all
  have le: "unat v < 2 ^ 7 \<Longrightarrow> unat v < 2 ^ 14" "unat v < 2 ^ 14 \<Longrightarrow> unat v < 2 ^ 21" "unat v < 2 ^ 21 \<Longrightarrow> unat v < 2 ^ 28"
    by simp_all
  have "EncodeVarint64 (ucast v) = EncodeVarint64 (drop_bit 0 (ucast v))" by simp
  also have "\<dots> = EncodeVarint32 v"
    unfolding loop_step [of 0] loop_step [of 7] loop_step [of 14] loop_step [of 21] loop_step [of 28] s d
      EncodeVarint32_def Let_def b
    using le by (simp only: drop_bit_0 id_apply split: if_split) blast
  finally show ?thesis ..
qed

lemma loop_shape: "varint_shape (EncodeVarint64 v) \<and> base128 (EncodeVarint64 v) = unat v"
proof (induction v rule: EncodeVarint64.induct)
  case (1 v)
  show ?case
  proof (cases "128 \<le> v")
    case True
    let ?b = "ucast ((v AND 127) OR 128) :: byte"
    have b7: "?b AND 0x7F = ucast (v AND 127)"
      by (rule bit_word_eqI) (auto simp: low_byte_bits simp del: bit_numeral_word_iff)
    have "unat (v AND 127) = unat v mod 128" using unat_and_mask [of v 7] by (simp add: mask_eq_exp_minus_1)
    then have "unat (?b AND 0x7F) = unat v mod 128"
      unfolding b7 by (simp add: unsigned_ucast_eq take_bit_eq_mod mod_mod_cancel)
    moreover have "bit (?b AND 0x80) 7" by (simp add: low_byte_bits del: bit_numeral_word_iff)
    then have "?b AND 0x80 \<noteq> 0" by (metis bit_0_eq bot_apply bot_bool_def)
    moreover have "EncodeVarint64 (drop_bit 7 v) \<noteq> []" by (subst EncodeVarint64.simps) simp
    moreover have "unat (drop_bit 7 v) = unat v div 128" by (simp only: unat_drop_bit_div) simp
    ultimately show ?thesis using 1 [OF True] True by (simp add: EncodeVarint64.simps [of v])
  next
    case False
    then have v: "unat v < 128" by (simp add: word_le_nat_alt)
    then have u: "unat (ucast v :: byte) = unat v" by (simp add: unsigned_ucast_eq take_bit_eq_mod)
    have t: "(ucast v :: byte) AND 0x7F = ucast v"
      using unat_and_mask [of "ucast v :: byte" 7] v u by (simp add: word_unat_eq_iff mask_eq_exp_minus_1)
    have "\<not> bit (ucast v :: byte) 7"
      by (subst t [symmetric]) (simp add: low_byte_bits del: bit_numeral_word_iff)
    then have "(ucast v :: byte) AND 0x80 = 0"
      by (intro bit_word_eqI) (auto simp: low_byte_bits simp del: bit_numeral_word_iff)
    with False u t show ?thesis by (simp add: EncodeVarint64.simps [of v])
  qed
qed

lemma VarintLength_loop: "VarintLength v = length (EncodeVarint64 v)"
proof (induction v rule: VarintLength.induct)
  case (1 v)
  then show ?case by (simp add: VarintLength.simps [of v] EncodeVarint64.simps [of v])
qed


section \<open>What the parsers read\<close>

lemma wide_byte:
  assumes "8 \<le> LENGTH('a::len)"
  shows "(ucast b :: 'a word) AND 128 = 0 \<longleftrightarrow> b AND 0x80 = (0 :: byte)"
    and "(ucast b :: 'a word) AND 127 = ucast (b AND 0x7F)"
    and "b AND 0x80 = 0 \<Longrightarrow> (ucast b :: 'a word) = ucast (b AND 0x7F)"
proof -
  have "\<not> bit b 8" by (auto dest: bit_imp_le_length)
  show z: "(ucast b :: 'a word) AND 128 = 0 \<longleftrightarrow> b AND 0x80 = 0"
  proof
    assume "(ucast b :: 'a word) AND 128 = 0"
    then have "\<not> bit ((ucast b :: 'a word) AND 128) 7" by simp
    then have "\<not> bit b 7" using assms by (simp add: low_byte_bits del: bit_numeral_word_iff)
    then show "b AND 0x80 = 0"
      by (intro bit_word_eqI) (auto simp: low_byte_bits simp del: bit_numeral_word_iff)
  next
    assume "b AND 0x80 = 0"
    then have "\<not> bit (b AND 0x80) 7" by simp
    then have "\<not> bit b 7" by (simp add: low_byte_bits del: bit_numeral_word_iff)
    then show "(ucast b :: 'a word) AND 128 = 0"
      by (intro bit_word_eqI) (auto simp: low_byte_bits simp del: bit_numeral_word_iff)
  qed
  show "(ucast b :: 'a word) AND 127 = ucast (b AND 0x7F)"
    by (rule bit_word_eqI) (auto simp: low_byte_bits simp del: bit_numeral_word_iff)
  show "(ucast b :: 'a word) = ucast (b AND 0x7F)" if "b AND 0x80 = 0"
  proof (rule bit_word_eqI)
    fix n assume "n < LENGTH('a)"
    have "\<not> bit (b AND 0x80) 7" using that by simp
    then have "\<not> bit b 7" by (simp add: low_byte_bits del: bit_numeral_word_iff)
    then have "bit b n \<Longrightarrow> n < 7" using bit_imp_le_length [of b n] by (cases "n = 7") auto
    then show "bit (ucast b :: 'a word) n = bit (ucast (b AND 0x7F) :: 'a word) n"
      by (auto simp: low_byte_bits simp del: bit_numeral_word_iff)
  qed
qed

definition parsed :: "byte list \<Rightarrow> (string + 'a) \<times> nat \<Rightarrow> ('a \<times> byte list) option" where
  "parsed p r = (case r of (Inr v, k) \<Rightarrow> Some (v, drop k p) | (Inl _, _) \<Rightarrow> None)"

lemma parsed_Suc [simp]: "parsed (b # p) (r, Suc k) = parsed p (r, k)"
  by (auto simp: parsed_def split: sum.splits)

lemma get32_parse:
  "7 dvd shift \<Longrightarrow> lim \<le> length p \<Longrightarrow>
   GetVarint32PtrFallback shift result p lim = Some (parsed p (parse_varint shift result (take lim p)))"
proof (induction p arbitrary: shift result lim)
  case Nil
  then show ?case by (simp add: GetVarint32PtrFallback.simps [of _ _ _ 0] parsed_def)
next
  case (Cons b p)
  have s: "shift \<le> 28 \<longleftrightarrow> \<not> 32 \<le> shift" using Cons.prems(1) by (auto elim!: dvdE)
  show ?case
  proof (cases "shift \<le> 28 \<and> 0 < lim")
    case False
    then show ?thesis using s by (cases lim) (auto simp: GetVarint32PtrFallback.simps [of shift] parsed_def)
  next
    case True
    then obtain l where l: "lim = Suc l" by (cases lim) auto
    have "7 dvd shift + 7" "l \<le> length p" using Cons.prems l by simp_all
    from Cons.IH [OF this] True s l wide_byte [of b, where 'a = 32] show ?thesis
      by (auto simp: GetVarint32PtrFallback.simps [of shift] Let_def split: prod.split) (simp add: parsed_def)
  qed
qed

lemma get64_parse:
  "lim \<le> length p \<Longrightarrow>
   GetVarint64Ptr_loop shift result p lim = Some (parsed p (parse_varint shift result (take lim p)))"
proof (induction p arbitrary: shift result lim)
  case Nil
  then show ?case by (simp add: GetVarint64Ptr_loop.simps [of _ _ _ 0] parsed_def)
next
  case (Cons b p)
  show ?case
  proof (cases "shift \<le> 63 \<and> 0 < lim")
    case False
    then show ?thesis by (cases lim) (auto simp: GetVarint64Ptr_loop.simps [of shift] parsed_def)
  next
    case True
    then obtain l where l: "lim = Suc l" by (cases lim) auto
    then have "l \<le> length p" using Cons.prems by simp
    from Cons.IH [OF this] True l wide_byte [of b, where 'a = 64] show ?thesis
      by (auto simp: GetVarint64Ptr_loop.simps [of shift] Let_def split: prod.split) (simp add: parsed_def)
  qed
qed

text \<open>Both parsers are the reference parser on the bytes before the limit; so none of them reads past it.\<close>

lemma GetVarint32Ptr_parse:
  "lim \<le> length p \<Longrightarrow> GetVarint32Ptr p lim = Some (parsed p (parse_varint 0 0 (take lim p)))"
proof -
  assume lim: "lim \<le> length p"
  note g = get32_parse [of 0 lim p 0, OF _ lim]
  show ?thesis
  proof (cases "p = [] \<or> lim = 0")
    case True
    with g lim show ?thesis by (auto simp: GetVarint32Ptr_def)
  next
    case False
    then obtain b p' l where "p = b # p'" "lim = Suc l" by (cases p; cases lim) auto
    with g wide_byte [of b, where 'a = 32] show ?thesis
      by (auto simp: GetVarint32Ptr_def Let_def) (simp add: parsed_def)
  qed
qed

lemma GetVarint64Ptr_parse:
  "lim \<le> length p \<Longrightarrow> GetVarint64Ptr p lim = Some (parsed p (parse_varint 0 0 (take lim p)))"
  using get64_parse [of lim p 0 0] by (simp add: GetVarint64Ptr_def)

section \<open>Round trips\<close>

lemma EncodeVarint64_length: "unat v < 128 ^ k \<Longrightarrow> 0 < k \<Longrightarrow> length (EncodeVarint64 v) \<le> k"
proof (induction k arbitrary: v)
  case 0
  then show ?case by simp
next
  case (Suc k)
  have "unat (drop_bit 7 v) = unat v div 128" by (simp only: unat_drop_bit_div) simp
  then have d: "unat (drop_bit 7 v) < 128 ^ k" using Suc.prems(1) by (simp add: less_mult_imp_div_less mult.commute)
  show ?case
  proof (cases "128 \<le> v")
    case True
    then have "128 \<le> unat v" by (simp add: word_le_nat_alt)
    with Suc.prems(1) have "0 < k" by (cases k) auto
    with Suc.IH [OF d] True show ?thesis by (simp add: EncodeVarint64.simps [of v])
  qed (simp add: EncodeVarint64.simps [of v])
qed

lemma EncodeVarint64_ten: "length (EncodeVarint64 v) \<le> 10"
  using unsigned_less [of v, where ?'a = nat] by (intro EncodeVarint64_length) auto

lemma EncodeVarint64_not_Nil [simp]: "EncodeVarint64 v \<noteq> []"
  by (subst EncodeVarint64.simps) simp

lemma unat_wide: "unat (ucast (v :: u32) :: u64) = unat v"
  by (simp add: unsigned_ucast_eq take_bit_nat_eq_self order.strict_trans [OF unsigned_less])

lemma EncodeVarint32_five: "length (EncodeVarint32 v) \<le> 5"
proof -
  have "unat (ucast v :: u64) < 128 ^ 5" using unsigned_less [of v, where ?'a = nat] by (simp add: unat_wide)
  then show ?thesis unfolding EncodeVarint32_loop by (intro EncodeVarint64_length) auto
qed

lemma parse_EncodeVarint64: "parse_varint 0 (0 :: u64) (EncodeVarint64 v @ rest) = (Inr v, length (EncodeVarint64 v))"
  using parse_varint_shape [of "EncodeVarint64 v" 0 "0 :: u64" rest] loop_shape [of v] EncodeVarint64_ten [of v] by simp

lemma parse_EncodeVarint32: "parse_varint 0 (0 :: u32) (EncodeVarint32 v @ rest) = (Inr v, length (EncodeVarint32 v))"
  using parse_varint_shape [of "EncodeVarint32 v" 0 "0 :: u32" rest] loop_shape [of "ucast v"] EncodeVarint32_five [of v]
  by (simp add: EncodeVarint32_loop unat_wide)

text \<open>
  Behind an encoded number the limit does not matter; it may lie past the end of the object.
\<close>

lemma GetVarint32Ptr_Encode:
  assumes "length (EncodeVarint32 v) \<le> lim"
  shows "GetVarint32Ptr (EncodeVarint32 v @ rest) lim = Some (Some (v, rest))"
proof -
  let ?e = "EncodeVarint32 v"
  have fb: "GetVarint32PtrFallback shift result (xs @ rest) (length xs + n) = Some (parsed (xs @ rest) (parse_varint shift result xs))"
    if "varint_shape xs" "7 dvd shift" "shift + 7 * (length xs - 1) < 32" for shift result xs n
    using that
  proof (induction xs arbitrary: shift result)
    case (Cons b xs)
    have s: "shift \<le> 28" using Cons.prems(2,3) by (auto elim!: dvdE)
    show ?case
    proof (cases "xs = []")
      case True
      with Cons.prems s wide_byte [of b, where 'a = 32] show ?thesis
        by (auto simp: GetVarint32PtrFallback.simps [of shift] Let_def parsed_def)
    next
      case False
      then obtain c cs where "xs = c # cs" by (cases xs) auto
      then have "7 dvd shift + 7" "shift + 7 + 7 * (length xs - 1) < 32" "varint_shape xs" "b AND 0x80 \<noteq> 0"
        using Cons.prems False by simp_all
      with Cons.IH [of "shift + 7"] s wide_byte [of b, where 'a = 32] show ?thesis
        by (auto simp: GetVarint32PtrFallback.simps [of shift] Let_def split: prod.split)
    qed
  qed simp
  have sh: "varint_shape ?e" using loop_shape by (simp add: EncodeVarint32_loop)
  obtain n where n: "lim = length ?e + n" using assms by (auto simp: le_iff_add)
  obtain b bs where e: "?e = b # bs" using sh by (cases ?e) auto
  have "GetVarint32PtrFallback 0 0 (?e @ rest) lim = Some (Some (v, rest))"
    using fb [OF sh, of 0 0 n] EncodeVarint32_five [of v] parse_EncodeVarint32 [of v "[]"] n by (simp add: parsed_def)
  then show ?thesis
    using sh e n wide_byte [of b, where 'a = 32] by (auto simp: GetVarint32Ptr_def Let_def GetVarint32PtrFallback.simps [of 0])
qed


lemma GetVarint64_Put: "GetVarint64 (EncodeVarint64 v @ rest) = Some (Some (v, rest))"
  by (simp add: GetVarint64_def GetVarint64Ptr_parse parse_EncodeVarint64 parsed_def)

lemma GetLengthPrefixedSlice_Put:
  assumes "length value < 2 ^ 32"
  shows "GetLengthPrefixedSlice (PutLengthPrefixedSlice [] value @ rest) = Some (Some (value, rest))"
proof -
  have "unat (of_nat (length value) :: u32) = length value" using assms by (simp add: unat_of_nat)
  then show ?thesis
    by (simp add: GetLengthPrefixedSlice_def PutLengthPrefixedSlice_def PutVarint32_def GetVarint32_def GetVarint32Ptr_Encode)
qed

lemma PutLengthPrefixedSlice_append: "PutLengthPrefixedSlice dst value = dst @ PutLengthPrefixedSlice [] value"
  by (simp add: PutLengthPrefixedSlice_def PutVarint32_def)

lemma DecodeFixed32_Encode: "DecodeFixed32 (EncodeFixed32 v @ rest) = Some v"
  by (simp add: DecodeFixed32_def EncodeFixed32_def le_word_le_bytes)

lemma DecodeFixed64_Encode: "DecodeFixed64 (EncodeFixed64 v @ rest) = Some v"
  by (simp add: DecodeFixed64_def EncodeFixed64_def le_word_le_bytes)

lemma length_EncodeFixed [simp]: "length (EncodeFixed32 v) = 4" "length (EncodeFixed64 w) = 8"
  by (simp_all add: EncodeFixed32_def EncodeFixed64_def)

text \<open>
  A length-prefixed slice is read back, with the rest of the input, whatever follows it,
  if its length fits into 32 bits.
\<close>

theorem length_prefixed_roundtrip:
  assumes "length value < 2 ^ 32"
  shows "GetLengthPrefixedSlice (PutLengthPrefixedSlice [] value @ rest) = Some (Some (value, rest))"
  using assms by (rule GetLengthPrefixedSlice_Put)

theorem length_prefixed_roundtrip_witness:
  "GetLengthPrefixedSlice (PutLengthPrefixedSlice [] [97, 98] @ [7]) = Some (Some ([97, 98], [7]))"
  by (rule length_prefixed_roundtrip) simp

lemma GetLengthPrefixedSlice_cases:
  obtains "GetLengthPrefixedSlice input = Some None"
  | k s rest where "GetLengthPrefixedSlice input = Some (Some (s, rest))" "0 < k" "k \<le> length input"
      "varint_shape (take k input)" "drop k input = s @ rest" "length s = base128 (take k input) mod 2 ^ 32"
proof -
  have g: "GetVarint32 input = Some (parsed input (parse_varint 0 0 input))"
    by (simp add: GetVarint32_def GetVarint32Ptr_parse)
  obtain r k where p: "parse_varint 0 (0 :: u32) input = (r, k)" by fastforce
  show ?thesis
  proof (cases r)
    case (Inl e)
    with g p that(1) show ?thesis by (simp add: GetLengthPrefixedSlice_def parsed_def)
  next
    case (Inr v)
    from parse_varint_Inr [OF p [unfolded Inr]] have k: "0 < k" "k \<le> length input" "varint_shape (take k input)"
      "v = of_nat (base128 (take k input))" by auto
    show ?thesis
    proof (cases "unat v \<le> length (drop k input)")
      case True
      have "unat v = base128 (take k input) mod 2 ^ 32" using k(4) by (simp add: unat_of_nat)
      moreover have "GetLengthPrefixedSlice input = Some (Some (take (unat v) (drop k input), drop (unat v) (drop k input)))"
        using True g p Inr by (simp add: GetLengthPrefixedSlice_def parsed_def)
      ultimately show ?thesis using that(2) k(1-3) True by (metis append_take_drop_id length_take min.absorb2)
    next
      case False
      with g p Inr that(1) show ?thesis by (simp add: GetLengthPrefixedSlice_def parsed_def)
    qed
  qed
qed

text \<open>
  On any input the parser of length-prefixed slices reads only the input: it returns
  nothing, or a slice and a rest that are, behind a varint, the whole input.
\<close>

theorem length_prefixed_safe:
  "\<exists>r. GetLengthPrefixedSlice input = Some r \<and>
    (case r of None \<Rightarrow> True | Some (s, rest) \<Rightarrow>
       \<exists>k. 0 < k \<and> k \<le> length input \<and> varint_shape (take k input) \<and> input = take k input @ s @ rest \<and>
         length s = base128 (take k input) mod 2 ^ 32)"
proof (rule GetLengthPrefixedSlice_cases [of input])
  fix k s rest assume g: "GetLengthPrefixedSlice input = Some (Some (s, rest))" and k: "0 < k" "k \<le> length input"
    "varint_shape (take k input)" "drop k input = s @ rest" "length s = base128 (take k input) mod 2 ^ 32"
  have "input = take k input @ s @ rest" using k(4) append_take_drop_id [of k input] by simp
  with g k show ?thesis by auto
qed simp

end
