(* ===== verification/LdbFormat.thy ===== *)
theory LdbFormat
  imports LdbCoding
begin

text \<open>
  The internal keys of leveldb (db/dbformat.h, db/dbformat.cc): a user key followed by eight bytes that
  hold a sequence number and a value type. Entries of the same user key are ordered by decreasing
  sequence number, so that a seek to a snapshot finds the newest entry that is not newer than it.
  A failed assertion is \<open>None\<close>. The enum of value types is a byte here, because the code casts
  arbitrary bytes of its input to it.
\<close>

section \<open>Keys\<close>

type_synonym SequenceNumber = u64
type_synonym ValueType = byte

abbreviation (input) kTypeDeletion :: ValueType where "kTypeDeletion \<equiv> 0"
abbreviation (input) kTypeValue :: ValueType where "kTypeValue \<equiv> 1"
abbreviation (input) kValueTypeForSeek :: ValueType where "kValueTypeForSeek \<equiv> kTypeValue"

definition kMaxSequenceNumber :: SequenceNumber where
  "kMaxSequenceNumber = push_bit 56 1 - 1"

record ParsedInternalKey =
  pk_user_key :: slice
  pk_sequence :: SequenceNumber
  pk_type :: ValueType

definition InternalKeyEncodingLength :: "ParsedInternalKey \<Rightarrow> nat" where
  "InternalKeyEncodingLength key = length (pk_user_key key) + 8"

definition PackSequenceAndType :: "SequenceNumber \<Rightarrow> ValueType \<Rightarrow> u64 option" where
  "PackSequenceAndType sq t =
     (if sq \<le> kMaxSequenceNumber \<and> t \<le> kValueTypeForSeek then Some (push_bit 8 sq OR ucast t) else None)"

definition AppendInternalKey :: "slice \<Rightarrow> ParsedInternalKey \<Rightarrow> slice option" where
  "AppendInternalKey result key = do {
     tag \<leftarrow> PackSequenceAndType (pk_sequence key) (pk_type key);
     Some (PutFixed64 (result @ pk_user_key key) tag)
   }"

definition ExtractUserKey :: "slice \<Rightarrow> slice option" where
  "ExtractUserKey internal_key =
     (if 8 \<le> length internal_key then Some (take (length internal_key - 8) internal_key) else None)"

definition ExtractValueType :: "slice \<Rightarrow> ValueType option" where
  "ExtractValueType internal_key =
     (if 8 \<le> length internal_key then do {
        num \<leftarrow> DecodeFixed64 (drop (length internal_key - 8) internal_key);
        Some (ucast (num AND 0xFF))
      } else None)"

text \<open>The result of \<open>ParseInternalKey\<close> is \<open>None\<close> where the function returns false.\<close>

definition ParseInternalKey :: "slice \<Rightarrow> ParsedInternalKey option" where
  "ParseInternalKey internal_key =
     (let n = length internal_key in
      if n < 8 then None
      else do {
        num \<leftarrow> DecodeFixed64 (drop (n - 8) internal_key);
        let c = (ucast (num AND 0xFF) :: byte);
        if c \<le> kTypeValue
        then Some \<lparr>pk_user_key = take (n - 8) internal_key, pk_sequence = drop_bit 8 num, pk_type = c\<rparr>
        else None
      })"

section \<open>The class InternalKey\<close>

type_synonym InternalKey = slice

definition new_InternalKey :: "slice \<Rightarrow> SequenceNumber \<Rightarrow> ValueType \<Rightarrow> InternalKey option" where
  "new_InternalKey user_key s t = AppendInternalKey [] \<lparr>pk_user_key = user_key, pk_sequence = s, pk_type = t\<rparr>"

definition InternalKey_Encode :: "InternalKey \<Rightarrow> slice option" where
  "InternalKey_Encode rep = (if rep \<noteq> [] then Some rep else None)"

definition InternalKey_SetFrom :: "InternalKey \<Rightarrow> ParsedInternalKey \<Rightarrow> InternalKey option" where
  "InternalKey_SetFrom rep p = AppendInternalKey [] p"

section \<open>The comparator of internal keys\<close>

definition internal_Compare :: "Comparator \<Rightarrow> slice \<Rightarrow> slice \<Rightarrow> int option" where
  "internal_Compare user_comparator akey bkey = do {
     ua \<leftarrow> ExtractUserKey akey;
     ub \<leftarrow> ExtractUserKey bkey;
     r \<leftarrow> Compare user_comparator ua ub;
     if r = 0 then do {
       anum \<leftarrow> DecodeFixed64 (drop (length akey - 8) akey);
       bnum \<leftarrow> DecodeFixed64 (drop (length bkey - 8) bkey);
       Some (if anum > bnum then -1 else if anum < bnum then 1 else r)
     }
     else Some r
   }"

text \<open>The two shortening operations share what they do with a shortened user key.\<close>

definition tack_on_tag :: "Comparator \<Rightarrow> slice \<Rightarrow> slice \<Rightarrow> slice \<Rightarrow> (slice \<Rightarrow> bool option) \<Rightarrow> slice option" where
  "tack_on_tag user_comparator start user_start tmp check =
     (if length tmp < length user_start then do {
        r \<leftarrow> Compare user_comparator user_start tmp;
        if r < 0 then do {
          tag \<leftarrow> PackSequenceAndType kMaxSequenceNumber kValueTypeForSeek;
          let tmp' = PutFixed64 tmp tag;
          c \<leftarrow> check tmp';
          if c then Some tmp' else None
        }
        else Some start
      }
      else Some start)"

definition internal_FindShortestSeparator :: "Comparator \<Rightarrow> slice \<Rightarrow> slice \<Rightarrow> slice option" where
  "internal_FindShortestSeparator user_comparator start limit = do {
     user_start \<leftarrow> ExtractUserKey start;
     user_limit \<leftarrow> ExtractUserKey limit;
     tmp \<leftarrow> FindShortestSeparator user_comparator user_start user_limit;
     tack_on_tag user_comparator start user_start tmp (\<lambda>tmp'. do {
       r1 \<leftarrow> internal_Compare user_comparator start tmp';
       r2 \<leftarrow> internal_Compare user_comparator tmp' limit;
       Some (r1 < 0 \<and> r2 < 0)
     })
   }"

definition internal_FindShortSuccessor :: "Comparator \<Rightarrow> slice \<Rightarrow> slice option" where
  "internal_FindShortSuccessor user_comparator key = do {
     user_key \<leftarrow> ExtractUserKey key;
     tmp \<leftarrow> FindShortSuccessor user_comparator user_key;
     tack_on_tag user_comparator key user_key tmp (\<lambda>tmp'. do {
       r \<leftarrow> internal_Compare user_comparator key tmp';
       Some (r < 0)
     })
   }"

definition InternalKeyComparator :: "Comparator \<Rightarrow> Comparator" where
  "InternalKeyComparator user_comparator =
     \<lparr>Compare = internal_Compare user_comparator,
      FindShortestSeparator = internal_FindShortestSeparator user_comparator,
      FindShortSuccessor = internal_FindShortSuccessor user_comparator\<rparr>"

section \<open>Filter policies\<close>

record FilterPolicy =
  CreateFilter :: "slice list \<Rightarrow> slice \<Rightarrow> slice option"
  KeyMayMatch :: "slice \<Rightarrow> slice \<Rightarrow> bool option"

fun extract_all :: "slice list \<Rightarrow> slice list option" where
  "extract_all [] = Some []"
| "extract_all (k # ks) = do { u \<leftarrow> ExtractUserKey k; us \<leftarrow> extract_all ks; Some (u # us) }"

definition InternalFilterPolicy :: "FilterPolicy \<Rightarrow> FilterPolicy" where
  "InternalFilterPolicy user_policy =
     \<lparr>CreateFilter = (\<lambda>keys dst. do { mkey \<leftarrow> extract_all keys; CreateFilter user_policy mkey dst }),
      KeyMayMatch = (\<lambda>key f. do { u \<leftarrow> ExtractUserKey key; KeyMayMatch user_policy u f })\<rparr>"

section \<open>Lookup keys\<close>

text \<open>
  The bytes from \<open>start_\<close> to \<open>end_\<close>, the offset of \<open>kstart_\<close> in them, and whether they are
  in a heap block instead of \<open>space_[200]\<close>. Writing past the buffer is \<open>None\<close>.
\<close>

record LookupKey =
  lk_bytes :: slice
  lk_kstart :: nat
  lk_heap :: bool

definition new_LookupKey :: "slice \<Rightarrow> SequenceNumber \<Rightarrow> LookupKey option" where
  "new_LookupKey user_key s = do {
     let usize = length user_key;
     let needed = usize + 13;
     let klength = EncodeVarint32 (of_nat (usize + 8));
     tag \<leftarrow> PackSequenceAndType s kValueTypeForSeek;
     let bytes = klength @ user_key @ EncodeFixed64 tag;
     if length bytes \<le> (if needed \<le> 200 then 200 else needed)
     then Some \<lparr>lk_bytes = bytes, lk_kstart = length klength, lk_heap = (200 < needed)\<rparr>
     else None
   }"

definition memtable_key :: "LookupKey \<Rightarrow> slice" where
  "memtable_key k = lk_bytes k"

definition internal_key :: "LookupKey \<Rightarrow> slice" where
  "internal_key k = drop (lk_kstart k) (lk_bytes k)"

definition user_key :: "LookupKey \<Rightarrow> slice" where
  "user_key k = take (length (lk_bytes k) - lk_kstart k - 8) (drop (lk_kstart k) (lk_bytes k))"


section \<open>Round trips\<close>

lemma kMax_bits: "sq \<le> kMaxSequenceNumber \<Longrightarrow> bit sq i \<Longrightarrow> i < 56"
proof (rule small_word_bits)
  assume "sq \<le> kMaxSequenceNumber"
  then have "unat sq \<le> unat kMaxSequenceNumber" by (simp only: word_le_nat_alt)
  also have "\<dots> < 2 ^ 56" by (simp add: kMaxSequenceNumber_def)
  finally show "unat sq < 2 ^ 56" .
qed

lemma bit_low_byte: "bit (0xFF :: u64) i \<longleftrightarrow> i < 8"
proof -
  have "(0xFF :: u64) = mask 8" by (simp add: mask_eq_exp_minus_1)
  then show ?thesis by (simp only: bit_mask_iff possible_bit_word) auto
qed

lemma pack_parts:
  assumes "sq \<le> kMaxSequenceNumber"
  shows "drop_bit 8 (push_bit 8 sq OR ucast (t :: byte)) = sq" and "ucast ((push_bit 8 sq OR ucast t) AND 0xFF) = t"
proof -
  show "drop_bit 8 (push_bit 8 sq OR ucast t) = sq"
  proof (rule bit_word_eqI)
    fix i
    have "bit t (8 + i) = False" using bit_imp_le_length [of t "8 + i"] by auto
    then show "bit (drop_bit 8 (push_bit 8 sq OR ucast t)) i = bit sq i"
      using kMax_bits [OF assms, of i]
      by (auto simp: bit_drop_bit_eq bit_or_iff bit_push_bit_iff bit_ucast_iff simp del: push_bit_eq_mult)
  qed
  show "ucast ((push_bit 8 sq OR ucast t) AND 0xFF) = t"
    by (rule bit_word_eqI)
      (auto simp: bit_and_iff bit_low_byte bit_or_iff bit_push_bit_iff bit_ucast_iff simp del: push_bit_eq_mult bit_numeral_word_iff)
qed

lemma unat_pack:
  assumes "sq \<le> kMaxSequenceNumber"
  shows "unat (push_bit 8 sq OR ucast (t :: byte)) = 256 * unat sq + unat t"
proof -
  let ?w = "push_bit 8 sq OR ucast t"
  have "unat ?w div 2 ^ 8 = unat sq" using arg_cong [OF pack_parts(1) [OF assms, of t], of unat] by (simp only: unat_drop_bit_div)
  moreover have "unat ?w mod 2 ^ 8 = unat t"
  proof -
    have "unat (?w AND mask 8) = unat ?w mod 2 ^ 8" by (rule unat_and_mask)
    moreover have "(mask 8 :: u64) = 0xFF" by (simp add: mask_eq_exp_minus_1)
    moreover have "unat (ucast (?w AND 0xFF) :: byte) = unat (?w AND 0xFF) mod 2 ^ LENGTH(8)" by (rule unat_ucast_mod)
    ultimately show ?thesis unfolding pack_parts(2) [OF assms] by (simp del: push_bit_eq_mult)
  qed
  ultimately show ?thesis using mult_div_mod_eq [of "2 ^ 8" "unat ?w"] by simp
qed

definition good_parsed :: "ParsedInternalKey \<Rightarrow> bool" where
  "good_parsed p \<longleftrightarrow> pk_sequence p \<le> kMaxSequenceNumber \<and> pk_type p \<le> kTypeValue"

text \<open>The tag of a parsed key, and the bytes of the key.\<close>

definition tag_of :: "SequenceNumber \<Rightarrow> ValueType \<Rightarrow> u64" where
  "tag_of sq t = push_bit 8 sq OR ucast t"

definition ikey :: "slice \<Rightarrow> SequenceNumber \<Rightarrow> ValueType \<Rightarrow> slice" where
  "ikey u sq t = u @ EncodeFixed64 (tag_of sq t)"

lemma AppendInternalKey_ikey:
  "good_parsed p \<Longrightarrow> AppendInternalKey [] p = Some (ikey (pk_user_key p) (pk_sequence p) (pk_type p))"
  by (simp add: AppendInternalKey_def PackSequenceAndType_def good_parsed_def ikey_def tag_of_def PutFixed64_def)

lemma length_ikey [simp]: "length (ikey u sq t) = length u + 8"
  by (simp add: ikey_def)

lemma ExtractUserKey_ikey [simp]: "ExtractUserKey (ikey u sq t) = Some u"
  by (simp add: ExtractUserKey_def ikey_def)

lemma tag_ikey [simp]: "DecodeFixed64 (drop (length u) (ikey u sq t)) = Some (tag_of sq t)"
  using DecodeFixed64_Encode [of "tag_of sq t" "[]"] by (simp add: ikey_def)

lemma tag_of_less:
  "s \<le> kMaxSequenceNumber \<Longrightarrow> s' \<le> kMaxSequenceNumber \<Longrightarrow>
   tag_of s t < tag_of s' t' \<longleftrightarrow> s < s' \<or> s = s' \<and> t < t'"
proof -
  assume "s \<le> kMaxSequenceNumber" "s' \<le> kMaxSequenceNumber"
  then have "tag_of s t < tag_of s' t' \<longleftrightarrow> 256 * unat s + unat t < 256 * unat s' + unat t'"
    by (simp only: tag_of_def word_less_nat_alt unat_pack)
  moreover have "unat t < 256" "unat t' < 256"
    using unsigned_less [of t, where ?'a = nat] unsigned_less [of t', where ?'a = nat] by simp_all
  ultimately show ?thesis by (simp add: word_less_nat_alt word_unat_eq_iff) linarith
qed

lemma tag_of_eq: "s \<le> kMaxSequenceNumber \<Longrightarrow> s' \<le> kMaxSequenceNumber \<Longrightarrow> tag_of s t = tag_of s' t' \<longleftrightarrow> s = s' \<and> t = t'"
  using tag_of_less [of s s' t t'] tag_of_less [of s' s t' t] by (metis linorder_less_linear order_less_irrefl)

text \<open>
  A parsed key with a sequence number of at most 56 bits and a known value type is parsed
  back from its encoding, which has the announced length; its user key and its type can also be
  extracted alone.
\<close>

theorem internal_key_roundtrip:
  assumes "pk_sequence p \<le> kMaxSequenceNumber" and "pk_type p \<le> kTypeValue"
  shows "\<exists>k. AppendInternalKey [] p = Some k \<and> length k = InternalKeyEncodingLength p \<and>
    ParseInternalKey k = Some p \<and> ExtractUserKey k = Some (pk_user_key p) \<and> ExtractValueType k = Some (pk_type p)"
proof -
  note parts = pack_parts [OF assms(1), of "pk_type p", folded tag_of_def]
  have "AppendInternalKey [] p = Some (ikey (pk_user_key p) (pk_sequence p) (pk_type p))"
    using assms by (intro AppendInternalKey_ikey) (simp add: good_parsed_def)
  then show ?thesis using parts assms(2)
    by (simp add: InternalKeyEncodingLength_def ParseInternalKey_def ExtractValueType_def Let_def)
      (simp add: ikey_def)
qed

theorem internal_key_roundtrip_witness:
  "\<exists>k. AppendInternalKey [] \<lparr>pk_user_key = [97], pk_sequence = 5, pk_type = 1\<rparr> = Some k \<and>
     ParseInternalKey k = Some \<lparr>pk_user_key = [97], pk_sequence = 5, pk_type = 1\<rparr>"
proof -
  have "(5 :: u64) \<le> kMaxSequenceNumber" by (simp add: kMaxSequenceNumber_def)
  then show ?thesis
    using internal_key_roundtrip [of "\<lparr>pk_user_key = [97], pk_sequence = 5, pk_type = 1\<rparr>"] by auto
qed


section \<open>The order of internal keys\<close>

definition uk :: "slice \<Rightarrow> slice" where
  "uk k = take (length k - 8) k"

definition tag64 :: "slice \<Rightarrow> u64" where
  "tag64 k = le_word (drop (length k - 8) k)"

definition valid_internal :: "(slice \<Rightarrow> bool) \<Rightarrow> slice \<Rightarrow> bool" where
  "valid_internal valid k \<longleftrightarrow> 8 \<le> length k \<and> valid (uk k)"

definition tag_order :: "u64 \<Rightarrow> u64 \<Rightarrow> int" where
  "tag_order x y = (if x > y then -1 else if x < y then 1 else 0)"

lemma internal_Compare_eq:
  assumes "8 \<le> length a" and "8 \<le> length b"
  shows "internal_Compare c a b =
    do { r \<leftarrow> Compare c (uk a) (uk b); Some (if r = 0 then tag_order (tag64 a) (tag64 b) else r) }"
proof -
  have "DecodeFixed64 (drop (length a - 8) a) = Some (tag64 a)" "DecodeFixed64 (drop (length b - 8) b) = Some (tag64 b)"
    using assms by (simp_all add: DecodeFixed64_def tag64_def)
  then show ?thesis using assms
    by (cases "Compare c (uk a) (uk b)")
      (auto simp: internal_Compare_def ExtractUserKey_def uk_def tag_order_def simp del: drop_drop)
qed

lemma uk_ikey [simp]: "uk (ikey u sq t) = u"
  by (simp add: uk_def ikey_def)

lemma tag64_ikey [simp]: "tag64 (ikey u sq t) = tag_of sq t"
  by (simp add: tag64_def ikey_def EncodeFixed64_def le_word_le_bytes)

lemma less_internal:
  assumes "8 \<le> length a" and "8 \<le> length b"
  shows "less_key (internal_Compare c) a b \<longleftrightarrow>
    less_key (Compare c) (uk a) (uk b) \<or> same_key (Compare c) (uk a) (uk b) \<and> tag64 b < tag64 a"
  unfolding less_key_def same_key_def internal_Compare_eq [OF assms]
  by (cases "Compare c (uk a) (uk b)") (auto simp: tag_order_def)

lemma tag_order_swap: "sgn (tag_order y x) = - sgn (tag_order x y)"
  by (auto simp: tag_order_def)

lemma tag_order_trans:
  "tag_order x y \<le> 0 \<Longrightarrow> tag_order y z \<le> 0 \<Longrightarrow>
   tag_order x z \<le> 0 \<and> (tag_order x y < 0 \<or> tag_order y z < 0 \<longrightarrow> tag_order x z < 0)"
  by (auto simp: tag_order_def split: if_splits)

lemma max_tag: "PackSequenceAndType kMaxSequenceNumber kValueTypeForSeek = Some (tag_of kMaxSequenceNumber 1)"
  by (simp add: PackSequenceAndType_def tag_of_def)

text \<open>The internal keys over a user comparator that keeps the contract.\<close>

locale internal_keys = key_comparator c valid for c :: Comparator and valid :: "slice \<Rightarrow> bool"
begin

lemma internal_swap:
  assumes "valid_internal valid a" and "valid_internal valid b" and "internal_Compare c a b = Some r"
  shows "\<exists>r'. internal_Compare c b a = Some r' \<and> sgn r' = - sgn r"
proof -
  have v: "valid (uk a)" "valid (uk b)" "8 \<le> length a" "8 \<le> length b" using assms by (simp_all add: valid_internal_def)
  from cmp_defined [OF v(1,2)] obtain r1 where r1: "Compare c (uk a) (uk b) = Some r1" by blast
  from cmp_swap [OF v(1,2) r1] obtain r2 where r2: "Compare c (uk b) (uk a) = Some r2" "sgn r2 = - sgn r1" by blast
  have "r1 = 0 \<longleftrightarrow> r2 = 0" using r2(2) by (auto simp: sgn_if split: if_splits)
  then show ?thesis
    using assms(3) r1 r2 tag_order_swap [of "tag64 b" "tag64 a"]
    by (auto simp: internal_Compare_eq v split: if_splits)
qed

lemma internal_trans:
  assumes "valid_internal valid a" and "valid_internal valid b" and "valid_internal valid d"
    and "internal_Compare c a b = Some r" and "internal_Compare c b d = Some s" and "r \<le> 0" and "s \<le> 0"
  shows "\<exists>t. internal_Compare c a d = Some t \<and> t \<le> 0 \<and> (r < 0 \<or> s < 0 \<longrightarrow> t < 0)"
proof -
  have v: "valid (uk a)" "valid (uk b)" "valid (uk d)" "8 \<le> length a" "8 \<le> length b" "8 \<le> length d"
    using assms by (simp_all add: valid_internal_def)
  obtain r1 s1 where u: "Compare c (uk a) (uk b) = Some r1" "Compare c (uk b) (uk d) = Some s1"
    using cmp_defined v by blast
  have r: "r = (if r1 = 0 then tag_order (tag64 a) (tag64 b) else r1)"
    and s: "s = (if s1 = 0 then tag_order (tag64 b) (tag64 d) else s1)"
    using assms(4,5) u by (simp_all add: internal_Compare_eq v)
  then have le: "r1 \<le> 0" "s1 \<le> 0" using assms(6,7) by (auto split: if_splits)
  from cmp_trans [OF v(1-3) u le] obtain t1 where
    t1: "Compare c (uk a) (uk d) = Some t1" "t1 \<le> 0" "r1 < 0 \<or> s1 < 0 \<longrightarrow> t1 < 0" by blast
  show ?thesis
  proof (cases "t1 < 0")
    case True
    with t1 show ?thesis by (simp add: internal_Compare_eq v)
  next
    case False
    with t1 le have "t1 = 0" "r1 = 0" "s1 = 0" by auto
    with r s t1 assms(6,7) tag_order_trans [of "tag64 a" "tag64 b" "tag64 d"] show ?thesis
      by (simp add: internal_Compare_eq v)
  qed
qed

text \<open>A shortened user key with the greatest tag: later than the start, and before the limit.\<close>

lemma tacked_key:
  assumes "valid_internal valid start" and "valid tmp" and "less_key (Compare c) (uk start) tmp"
  shows "valid_internal valid (PutFixed64 tmp (tag_of kMaxSequenceNumber 1))"
    and "less_key (internal_Compare c) start (PutFixed64 tmp (tag_of kMaxSequenceNumber 1))"
    and "valid_internal valid limit \<Longrightarrow> less_key (Compare c) tmp (uk limit) \<Longrightarrow>
      less_key (internal_Compare c) (PutFixed64 tmp (tag_of kMaxSequenceNumber 1)) limit"
proof -
  have "PutFixed64 tmp (tag_of kMaxSequenceNumber 1) = ikey tmp kMaxSequenceNumber 1"
    by (simp add: PutFixed64_def ikey_def)
  then show "valid_internal valid (PutFixed64 tmp (tag_of kMaxSequenceNumber 1))"
    and "less_key (internal_Compare c) start (PutFixed64 tmp (tag_of kMaxSequenceNumber 1))"
    and "valid_internal valid limit \<Longrightarrow> less_key (Compare c) tmp (uk limit) \<Longrightarrow>
      less_key (internal_Compare c) (PutFixed64 tmp (tag_of kMaxSequenceNumber 1)) limit"
    using assms by (simp_all add: valid_internal_def less_internal)
qed

lemma tack_on_tag_cases:
  assumes v: "valid_internal valid start" and tmp: "valid tmp"
    and check: "less_key (Compare c) (uk start) tmp \<Longrightarrow> check (PutFixed64 tmp (tag_of kMaxSequenceNumber 1)) = Some True"
  obtains "tack_on_tag c start (uk start) tmp check = Some start"
  | "less_key (Compare c) (uk start) tmp" "length tmp < length (uk start)"
    "tack_on_tag c start (uk start) tmp check = Some (PutFixed64 tmp (tag_of kMaxSequenceNumber 1))"
proof -
  have "valid (uk start)" using v by (simp add: valid_internal_def)
  from cmp_defined [OF this tmp] obtain r where r: "Compare c (uk start) tmp = Some r" by blast
  show ?thesis
    using that check r by (cases "length tmp < length (uk start) \<and> r < 0")
      (auto simp: tack_on_tag_def max_tag less_key_def Let_def)
qed

end

lemma less_key_Some: "less_key cmp a b \<Longrightarrow> \<exists>r < 0. cmp a b = Some r"
  by (auto simp: less_key_def split: option.splits)

sublocale internal_keys \<subseteq> internal: key_comparator "InternalKeyComparator c" "valid_internal valid"
proof
  fix a b d :: slice and r s :: int
  assume a: "valid_internal valid a"
  have va: "valid (uk a)" "8 \<le> length a" using a by (simp_all add: valid_internal_def)
  have xa: "ExtractUserKey a = Some (uk a)" using va by (simp add: ExtractUserKey_def uk_def)
  have irr: "\<not> less_key (internal_Compare c) a a"
    using less_irrefl [OF va(1)] va by (simp add: less_internal)
  from successor [OF va(1)] obtain tmp where tmp: "FindShortSuccessor c (uk a) = Some tmp" "valid tmp" by blast
  let ?check = "\<lambda>tmp'. do { r \<leftarrow> internal_Compare c a tmp'; Some (r < 0) }"
  have "?check (PutFixed64 tmp (tag_of kMaxSequenceNumber 1)) = Some True" if "less_key (Compare c) (uk a) tmp"
    using less_key_Some [OF tacked_key(2) [OF a tmp(2) that]] by auto
  then show "\<exists>s. FindShortSuccessor (InternalKeyComparator c) a = Some s \<and> valid_internal valid s \<and>
      \<not> less_key (Compare (InternalKeyComparator c)) s a"
  proof (rule tack_on_tag_cases [OF a tmp(2)])
    assume "tack_on_tag c a (uk a) tmp ?check = Some a"
    with a irr tmp xa show ?thesis by (simp add: InternalKeyComparator_def internal_FindShortSuccessor_def)
  next
    assume l: "less_key (Compare c) (uk a) tmp" and
      t: "tack_on_tag c a (uk a) tmp ?check = Some (PutFixed64 tmp (tag_of kMaxSequenceNumber 1))"
    let ?k = "PutFixed64 tmp (tag_of kMaxSequenceNumber 1)"
    note k = tacked_key(1,2) [OF a tmp(2) l]
    have "\<not> less_key (internal_Compare c) ?k a"
      using k internal_swap [OF a k(1)] by (auto simp: less_key_def sgn_if split: option.splits if_splits)
    with k t tmp xa show ?thesis by (simp add: InternalKeyComparator_def internal_FindShortSuccessor_def)
  qed
  assume b: "valid_internal valid b"
  have vb: "valid (uk b)" "8 \<le> length b" using b by (simp_all add: valid_internal_def)
  have xb: "ExtractUserKey b = Some (uk b)" using vb by (simp add: ExtractUserKey_def uk_def)
  show "\<exists>r. Compare (InternalKeyComparator c) a b = Some r"
    using cmp_defined [OF va(1) vb(1)] va vb by (auto simp: InternalKeyComparator_def internal_Compare_eq)
  show "\<exists>r'. Compare (InternalKeyComparator c) b a = Some r' \<and> sgn r' = - sgn r"
    if "Compare (InternalKeyComparator c) a b = Some r"
    using that internal_swap [OF a b] by (simp add: InternalKeyComparator_def)
  show "\<exists>t. Compare (InternalKeyComparator c) a d = Some t \<and> t \<le> 0 \<and> (r < 0 \<or> s < 0 \<longrightarrow> t < 0)"
    if "valid_internal valid d" "Compare (InternalKeyComparator c) a b = Some r"
      "Compare (InternalKeyComparator c) b d = Some s" "r \<le> 0" "s \<le> 0"
    using that internal_trans [OF a b] by (simp add: InternalKeyComparator_def)
  let ?check2 = "\<lambda>tmp'. do { r1 \<leftarrow> internal_Compare c a tmp'; r2 \<leftarrow> internal_Compare c tmp' b; Some (r1 < 0 \<and> r2 < 0) }"
  have sep: "FindShortestSeparator (InternalKeyComparator c) a b = tack_on_tag c a (uk a) tmp ?check2"
    if "FindShortestSeparator c (uk a) (uk b) = Some tmp" for tmp
    using that xa xb by (simp add: InternalKeyComparator_def internal_FindShortestSeparator_def)
  have idle: "FindShortestSeparator (InternalKeyComparator c) a b = Some a" if "\<not> less_key (Compare c) (uk a) (uk b)"
    using sep [OF separator_idle [OF va(1) vb(1) that]] by (simp add: tack_on_tag_def)
  show "FindShortestSeparator (InternalKeyComparator c) a b = Some a"
    if "\<not> less_key (Compare (InternalKeyComparator c)) a b"
    using that va vb by (intro idle) (simp add: InternalKeyComparator_def less_internal)
  assume l: "less_key (Compare (InternalKeyComparator c)) a b"
  then have l': "less_key (internal_Compare c) a b" by (simp add: InternalKeyComparator_def)
  show "\<exists>s. FindShortestSeparator (InternalKeyComparator c) a b = Some s \<and> valid_internal valid s \<and>
      \<not> less_key (Compare (InternalKeyComparator c)) s a \<and> less_key (Compare (InternalKeyComparator c)) s b"
  proof (cases "less_key (Compare c) (uk a) (uk b)")
    case False
    with idle a irr l show ?thesis by (simp add: InternalKeyComparator_def)
  next
    case True
    from separator [OF va(1) vb(1) True] obtain tmp where
      tmp: "FindShortestSeparator c (uk a) (uk b) = Some tmp" "valid tmp" "less_key (Compare c) tmp (uk b)" by blast
    have "?check2 (PutFixed64 tmp (tag_of kMaxSequenceNumber 1)) = Some True" if "less_key (Compare c) (uk a) tmp"
      using less_key_Some [OF tacked_key(2) [OF a tmp(2) that]] less_key_Some [OF tacked_key(3) [OF a tmp(2) that b tmp(3)]]
      by auto
    then show ?thesis
    proof (rule tack_on_tag_cases [OF a tmp(2)])
      assume "tack_on_tag c a (uk a) tmp ?check2 = Some a"
      with sep [OF tmp(1)] a irr l show ?thesis by (simp add: InternalKeyComparator_def)
    next
      assume u: "less_key (Compare c) (uk a) tmp" and
        t: "tack_on_tag c a (uk a) tmp ?check2 = Some (PutFixed64 tmp (tag_of kMaxSequenceNumber 1))"
      let ?k = "PutFixed64 tmp (tag_of kMaxSequenceNumber 1)"
      note k = tacked_key(1,2) [OF a tmp(2) u] tacked_key(3) [OF a tmp(2) u b tmp(3)]
      have "\<not> less_key (internal_Compare c) ?k a"
        using k internal_swap [OF a k(1)] by (auto simp: less_key_def sgn_if split: option.splits if_splits)
      with k t sep [OF tmp(1)] show ?thesis by (simp add: InternalKeyComparator_def)
    qed
  qed
qed


interpretation bytewise_keys: internal_keys BytewiseComparator "\<lambda>_. True" ..

text \<open>
  C28: Over the bytewise comparator the internal keys are ordered by increasing user key, then
  decreasing sequence number, then decreasing type.
\<close>

theorem internal_key_order:
  assumes "s \<le> kMaxSequenceNumber" and "s' \<le> kMaxSequenceNumber"
  shows "\<exists>r. Compare (InternalKeyComparator BytewiseComparator) (ikey u s t) (ikey u' s' t') = Some r \<and>
    (r < 0 \<longleftrightarrow> u < u' \<or> u = u' \<and> (s' < s \<or> s' = s \<and> t' < t)) \<and> (r = 0 \<longleftrightarrow> u = u' \<and> s = s' \<and> t = t')"
proof -
  note l1 = tag_of_less [OF assms, of t t'] and l2 = tag_of_less [OF assms(2,1), of t' t]
  note eq = tag_of_eq [OF assms, of t t']
  show ?thesis
    by (simp add: InternalKeyComparator_def internal_Compare_eq BytewiseComparator_def)
      (auto simp: tag_order_def Slice_compare_lex l1 l2 eq)
qed

theorem internal_key_order_witness:
  "\<exists>r. Compare (InternalKeyComparator BytewiseComparator) (ikey [97] 7 1) (ikey [97] 5 0) = Some r \<and> r < 0"
proof -
  have "(7 :: u64) \<le> kMaxSequenceNumber" "(5 :: u64) \<le> kMaxSequenceNumber" by (simp_all add: kMaxSequenceNumber_def)
  from internal_key_order [OF this, of "[97]" 1 "[97]" 0] show ?thesis by auto
qed

text \<open>
  C29: The wrapper for internal keys passes the contract of the comparator on: for two internal
  keys in order it returns a separator in their range, its assertions hold, and an order of the
  keys in which they do not increase leaves the first alone; and the short successor of a key is an internal
  key that is not below it.
\<close>

theorem internal_separator_contract:
  assumes "8 \<le> length start" and "8 \<le> length limit"
  shows "(\<exists>s. FindShortestSeparator (InternalKeyComparator BytewiseComparator) start limit = Some s \<and> 8 \<le> length s \<and>
      (if less_key (internal_Compare BytewiseComparator) start limit
       then \<not> less_key (internal_Compare BytewiseComparator) s start \<and> less_key (internal_Compare BytewiseComparator) s limit
       else s = start)) \<and>
    (\<exists>s. FindShortSuccessor (InternalKeyComparator BytewiseComparator) start = Some s \<and> 8 \<le> length s \<and>
      \<not> less_key (internal_Compare BytewiseComparator) s start)"
proof -
  have v: "valid_internal (\<lambda>_. True) start" "valid_internal (\<lambda>_. True) limit" using assms by (simp_all add: valid_internal_def)
  have c: "Compare (InternalKeyComparator BytewiseComparator) = internal_Compare BytewiseComparator"
    by (simp add: InternalKeyComparator_def)
  show ?thesis
    using bytewise_keys.internal.separator [OF v] bytewise_keys.internal.separator_idle [OF v] bytewise_keys.internal.successor [OF v(1)] assms(1)
    by (auto simp: c valid_internal_def)
qed

theorem internal_separator_contract_witness:
  "FindShortestSeparator (InternalKeyComparator BytewiseComparator) (ikey [97, 98, 99] 7 1) (ikey [97, 104] 5 1) =
     Some (ikey [97, 99] kMaxSequenceNumber 1) \<and>
   less_key (internal_Compare BytewiseComparator) (ikey [97, 99] kMaxSequenceNumber 1) (ikey [97, 104] 5 1) \<and>
   FindShortSuccessor (InternalKeyComparator BytewiseComparator) (ikey [97, 98, 99] 7 1) = Some (ikey [98] kMaxSequenceNumber 1) \<and>
   \<not> less_key (internal_Compare BytewiseComparator) (ikey [98] kMaxSequenceNumber 1) (ikey [97, 98, 99] 7 1)"
proof -
  have e: "FindShortestSeparator (InternalKeyComparator BytewiseComparator) (ikey [97, 98, 99] 7 1) (ikey [97, 104] 5 1) =
     Some (ikey [97, 99] kMaxSequenceNumber 1)"
    "FindShortSuccessor (InternalKeyComparator BytewiseComparator) (ikey [97, 98, 99] 7 1) = Some (ikey [98] kMaxSequenceNumber 1)"
    by code_simp+
  have l: "less_key (internal_Compare BytewiseComparator) (ikey [97, 98, 99] 7 1) (ikey [97, 104] 5 1)"
    by (simp add: less_internal bytewise_less)
  from internal_separator_contract [of "ikey [97, 98, 99] 7 1" "ikey [97, 104] 5 1"] e l show ?thesis by simp
qed

section \<open>Lookup keys\<close>

text \<open>A lookup key fits its buffer, and its three views are what the comments of the class say.\<close>

lemma LookupKey_parts:
  assumes "s \<le> kMaxSequenceNumber" and "length u + 8 < 2 ^ 32"
  shows "\<exists>k. new_LookupKey u s = Some k \<and> memtable_key k = PutLengthPrefixedSlice [] (ikey u s kValueTypeForSeek) \<and>
    internal_key k = ikey u s kValueTypeForSeek \<and> user_key k = u"
proof -
  have "PackSequenceAndType s kValueTypeForSeek = Some (tag_of s kValueTypeForSeek)"
    using assms(1) by (simp add: PackSequenceAndType_def tag_of_def)
  moreover define kl where "kl = EncodeVarint32 (of_nat (length u + 8))"
  moreover have "length kl \<le> 5" by (simp only: kl_def EncodeVarint32_five)
  ultimately show ?thesis
    unfolding new_LookupKey_def Let_def PutLengthPrefixedSlice_def PutVarint32_def length_ikey kl_def [symmetric]
    by (simp add: memtable_key_def internal_key_def user_key_def ikey_def)
qed

end
