(* ===== verification/LdbRandom.thy ===== *)
theory LdbRandom
  imports Prelude
begin

text \<open>
  The random number generator of leveldb, util/random.h. Its state \<open>seed_\<close> is a 32-bit word; every
  operation returns the number and the new state. \<open>Next\<close> computes a product modulo
  \<open>2 ^ 31 - 1\<close> without a division.
\<close>

definition Random :: "u32 \<Rightarrow> u32" where
  "Random s = (let seed = s AND 0x7fffffff in if seed = 0 \<or> seed = 2147483647 then 1 else seed)"

definition Random_Next :: "u32 \<Rightarrow> u32" where
  "Random_Next seed =
     (let M = (2147483647 :: u32); A = (16807 :: u64);
          product = (ucast seed :: u64) * A;
          seed' = (ucast (drop_bit 31 product + (product AND ucast M)) :: u32)
      in if seed' > M then seed' - M else seed')"

text \<open>\<open>Next() % n\<close>, where \<open>n\<close> is an \<open>int\<close> that is converted to \<open>uint32_t\<close>; a division by zero is undefined.\<close>

definition Random_Uniform :: "u32 \<Rightarrow> u32 \<Rightarrow> (u32 \<times> u32) option" where
  "Random_Uniform seed n = (if n = 0 then None else let s = Random_Next seed in Some (s mod n, s))"

definition Random_OneIn :: "u32 \<Rightarrow> u32 \<Rightarrow> (bool \<times> u32) option" where
  "Random_OneIn seed n = (if n = 0 then None else let s = Random_Next seed in Some (s mod n = 0, s))"

text \<open>The shift \<open>1 << b\<close> of an \<open>int\<close> is undefined from 31 on.\<close>

definition Random_Skewed :: "u32 \<Rightarrow> u32 \<Rightarrow> (u32 \<times> u32) option" where
  "Random_Skewed seed max_log = do {
     (b, s) \<leftarrow> Random_Uniform seed (max_log + 1);
     if unat b < 31 then Random_Uniform s (push_bit (unat b) 1) else None
   }"

section \<open>The sequence\<close>

definition good_seed :: "u32 \<Rightarrow> bool" where
  "good_seed s \<longleftrightarrow> 0 < unat s \<and> unat s < 2147483647"

lemma Random_good: "good_seed (Random s)"
proof -
  have "s AND 0x7fffffff = take_bit 31 s"
    by (simp add: take_bit_eq_mask mask_eq_exp_minus_1)
  then have "unat (s AND 0x7fffffff) < 2 ^ 31" using take_bit_nat_less_exp [of 31 "unat s"] by (simp add: unsigned_take_bit_eq del: take_bit_nat_less_exp)
  moreover have "unat (s AND 0x7fffffff) \<noteq> 0" if "s AND 0x7fffffff \<noteq> 0" using that by (simp add: unat_eq_0)
  moreover have "unat (s AND 0x7fffffff) \<noteq> 2147483647" if "s AND 0x7fffffff \<noteq> 2147483647"
    using that by (simp add: word_unat_eq_iff)
  ultimately show ?thesis by (auto simp: good_seed_def Random_def Let_def)
qed

text \<open>The multiplier has an inverse modulo \<open>2 ^ 31 - 1\<close>, so no product is a multiple of it.\<close>

lemma no_multiple:
  assumes "0 < s" and "s < 2147483647"
  shows "\<not> (2147483647 :: nat) dvd s * 16807"
proof
  assume "(2147483647 :: nat) dvd s * 16807"
  then have "2147483647 dvd s * 16807 * 1407677000" by (rule dvd_mult2)
  also have "s * 16807 * 1407677000 = s * (2147483647 * 11017 + 1)" by simp
  also have "\<dots> = 2147483647 * (11017 * s) + s" by (simp only: algebra_simps)
  finally have "2147483647 dvd s" by (simp only: dvd_add_right_iff dvd_triv_left)
  with assms show False by (simp add: dvd_imp_le leD)
qed

text \<open>
  From a good seed the generator moves to the seed times 16807 modulo \<open>2 ^ 31 - 1\<close>, which is
  a good seed again: the shift, the mask and the conditional subtraction compute the
  remainder, and no step overflows its width.
\<close>

theorem Random_Next_exact:
  assumes "good_seed s"
  shows "unat (Random_Next s) = unat s * 16807 mod (2 ^ 31 - 1) \<and> good_seed (Random_Next s)"
proof -
  let ?p = "unat s * 16807"
  define q r where "q = ?p div 2 ^ 31" and "r = ?p mod 2 ^ 31"
  have s: "0 < unat s" "unat s < 2147483647" using assms by (simp_all add: good_seed_def)
  have q: "q \<le> 16806" using s(2) by (simp add: q_def)
  have r: "r < 2 ^ 31" by (simp add: r_def)
  have p: "?p = q * 2 ^ 31 + r" by (simp add: q_def r_def)
  define P where "P = (ucast s :: u64) * 16807"
  have P: "unat P = ?p" using s(2) by (simp add: P_def unat_word_ariths unsigned_ucast_eq take_bit_nat_eq_self)
  have dq: "unat (drop_bit 31 P) = q" by (simp only: unat_drop_bit_div P q_def)
  have "(ucast (2147483647 :: u32) :: u64) = mask 31" by (simp add: mask_eq_exp_minus_1)
  then have ar: "unat (P AND ucast (2147483647 :: u32)) = r"
    by (simp only: take_bit_eq_mask [symmetric] unsigned_take_bit_eq P) (simp only: r_def take_bit_eq_mod)
  define sum where "sum = (ucast (drop_bit 31 P + (P AND ucast (2147483647 :: u32))) :: u32)"
  have sum: "unat sum = q + r"
    using q r dq ar by (simp add: sum_def unsigned_ucast_eq take_bit_eq_mod unat_word_ariths del: ucast_eq)
  have nx: "Random_Next s = (if 2147483647 < sum then sum - 2147483647 else sum)"
    by (simp add: Random_Next_def Let_def P_def sum_def)
  have ndvd: "\<not> 2147483647 dvd ?p" using no_multiple s by blast
  have M: "?p = q * 2147483647 + (q + r)" using p by simp
  have mod: "?p mod 2147483647 = (q + r) mod 2147483647" unfolding M by (simp only: add.commute [of _ "q + r"] mod_mult_self1)
  have "(q + r) mod 2147483647 \<noteq> 0" using ndvd by (simp only: dvd_eq_mod_eq_0 mod not_False_eq_True)
  then have ne: "q + r \<noteq> 2147483647" and pos: "0 < q + r" by (auto simp del: add_is_0 add_gr_0)
  have ne2: "q + r < 2 * 2147483647" using q r by simp
  show ?thesis
  proof (cases "2147483647 < q + r")
    case True
    then have "2147483647 < sum" using sum by (simp add: word_less_nat_alt)
    then have "unat (Random_Next s) = q + r - 2147483647" 
      using sum True unat_sub [of 2147483647 sum] by (simp add: nx word_le_nat_alt)
    with True mod ne2 show ?thesis by (simp add: good_seed_def le_mod_geq)
  next
    case False
    then have "\<not> 2147483647 < sum" using sum by (simp add: word_less_nat_alt)
    with False sum mod ne pos show ?thesis by (simp add: nx good_seed_def)
  qed
qed

theorem Random_Next_exact_witness: "unat (Random_Next (Random 0xdeadbeef)) = 1588444911 * 16807 mod (2 ^ 31 - 1)"
proof -
  have "Random 0xdeadbeef = 1588444911" by code_simp
  with Random_Next_exact [OF Random_good, of "0xdeadbeef"] show ?thesis by simp
qed

end
