(* ===== verification/LdbSkipList.thy ===== *)
theory LdbSkipList
  imports LdbSlice LdbRandom
begin

text \<open>
  The skip list of leveldb (db/skiplist.h): a list of nodes that are never freed, each with an array of
  links; \<open>next_[0]\<close> links all nodes in the order of their keys, \<open>next_[n]\<close> those higher
  than \<open>n\<close>. A node is its number in the list of all nodes, the head is node 0, a pointer is a
  number or null. Following a link that a node does not have, or that was never set, is \<open>None\<close>, as
  is a failed assertion. The loops over the links have fuel; the number of nodes and levels
  is enough. The list is used by one thread; the memory order of the links is not modelled.
\<close>

section \<open>Nodes\<close>

record 'k node =
  nd_key :: 'k
  nd_next :: "nat option option list"

record 'k skiplist =
  nodes :: "'k node list"
  max_height :: nat
  rnd :: u32

abbreviation (input) kMaxHeight :: nat where "kMaxHeight \<equiv> 12"
abbreviation (input) head :: nat where "head \<equiv> 0"

definition node_Next :: "'k node list \<Rightarrow> nat \<Rightarrow> nat \<Rightarrow> nat option option" where
  "node_Next ns x n = do { nd \<leftarrow> nth_opt ns x; link \<leftarrow> nth_opt (nd_next nd) n; link }"

definition node_SetNext :: "'k node list \<Rightarrow> nat \<Rightarrow> nat \<Rightarrow> nat option \<Rightarrow> 'k node list option" where
  "node_SetNext ns x n y = do {
     nd \<leftarrow> nth_opt ns x;
     if n < length (nd_next nd) then Some (ns[x := nd\<lparr>nd_next := (nd_next nd)[n := Some y]\<rparr>]) else None
   }"

definition NewNode :: "'k node list \<Rightarrow> 'k \<Rightarrow> nat \<Rightarrow> 'k node list \<times> nat" where
  "NewNode ns key height = (ns @ [\<lparr>nd_key = key, nd_next = replicate height None\<rparr>], length ns)"

definition node_key :: "'k node list \<Rightarrow> nat \<Rightarrow> 'k option" where
  "node_key ns x = do { nd \<leftarrow> nth_opt ns x; Some (nd_key nd) }"

section \<open>Searching\<close>

definition KeyIsAfterNode :: "('k \<Rightarrow> 'k \<Rightarrow> int option) \<Rightarrow> 'k node list \<Rightarrow> 'k \<Rightarrow> nat option \<Rightarrow> bool option" where
  "KeyIsAfterNode cmp ns key n =
     (case n of None \<Rightarrow> Some False
      | Some i \<Rightarrow> do { k \<leftarrow> node_key ns i; r \<leftarrow> cmp k key; Some (r < 0) })"

text \<open>The array \<open>prev\<close>, which may be null; its entries are not initialised.\<close>

fun set_prev :: "nat option list option \<Rightarrow> nat \<Rightarrow> nat \<Rightarrow> nat option list option option" where
  "set_prev None level x = Some None"
| "set_prev (Some prev) level x = (if level < length prev then Some (Some (prev[level := Some x])) else None)"

fun FindGreaterOrEqual_loop :: "nat \<Rightarrow> ('k \<Rightarrow> 'k \<Rightarrow> int option) \<Rightarrow> 'k node list \<Rightarrow> 'k \<Rightarrow> nat \<Rightarrow> nat \<Rightarrow>
    nat option list option \<Rightarrow> (nat option \<times> nat option list option) option" where
  "FindGreaterOrEqual_loop 0 cmp ns key x level prev = None"
| "FindGreaterOrEqual_loop (Suc n) cmp ns key x level prev = do {
     nxt \<leftarrow> node_Next ns x level;
     after \<leftarrow> KeyIsAfterNode cmp ns key nxt;
     if after then (case nxt of None \<Rightarrow> None | Some y \<Rightarrow> FindGreaterOrEqual_loop n cmp ns key y level prev)
     else do {
       prev' \<leftarrow> set_prev prev level x;
       if level = 0 then Some (nxt, prev')
       else FindGreaterOrEqual_loop n cmp ns key x (level - 1) prev'
     }
   }"

definition search_fuel :: "'k skiplist \<Rightarrow> nat" where
  "search_fuel sl = length (nodes sl) + max_height sl"

definition FindGreaterOrEqual :: "('k \<Rightarrow> 'k \<Rightarrow> int option) \<Rightarrow> 'k skiplist \<Rightarrow> 'k \<Rightarrow> nat option list option \<Rightarrow>
    (nat option \<times> nat option list option) option" where
  "FindGreaterOrEqual cmp sl key prev =
     FindGreaterOrEqual_loop (search_fuel sl) cmp (nodes sl) key head (max_height sl - 1) prev"

fun FindLessThan_loop :: "nat \<Rightarrow> ('k \<Rightarrow> 'k \<Rightarrow> int option) \<Rightarrow> 'k node list \<Rightarrow> 'k \<Rightarrow> nat \<Rightarrow> nat \<Rightarrow> nat option" where
  "FindLessThan_loop 0 cmp ns key x level = None"
| "FindLessThan_loop (Suc n) cmp ns key x level = do {
     before \<leftarrow> (if x = head then Some True else do { k \<leftarrow> node_key ns x; r \<leftarrow> cmp k key; Some (r < 0) });
     if \<not> before then None
     else do {
       nxt \<leftarrow> node_Next ns x level;
       stop \<leftarrow> (case nxt of None \<Rightarrow> Some True | Some y \<Rightarrow> do { k \<leftarrow> node_key ns y; r \<leftarrow> cmp k key; Some (r \<ge> 0) });
       if stop then (if level = 0 then Some x else FindLessThan_loop n cmp ns key x (level - 1))
       else (case nxt of None \<Rightarrow> None | Some y \<Rightarrow> FindLessThan_loop n cmp ns key y level)
     }
   }"

definition FindLessThan :: "('k \<Rightarrow> 'k \<Rightarrow> int option) \<Rightarrow> 'k skiplist \<Rightarrow> 'k \<Rightarrow> nat option" where
  "FindLessThan cmp sl key = FindLessThan_loop (search_fuel sl) cmp (nodes sl) key head (max_height sl - 1)"

fun FindLast_loop :: "nat \<Rightarrow> 'k node list \<Rightarrow> nat \<Rightarrow> nat \<Rightarrow> nat option" where
  "FindLast_loop 0 ns x level = None"
| "FindLast_loop (Suc n) ns x level = do {
     nxt \<leftarrow> node_Next ns x level;
     case nxt of
       None \<Rightarrow> if level = 0 then Some x else FindLast_loop n ns x (level - 1)
     | Some y \<Rightarrow> FindLast_loop n ns y level
   }"

definition FindLast :: "'k skiplist \<Rightarrow> nat option" where
  "FindLast sl = FindLast_loop (search_fuel sl) (nodes sl) head (max_height sl - 1)"

definition Contains :: "('k \<Rightarrow> 'k \<Rightarrow> int option) \<Rightarrow> 'k skiplist \<Rightarrow> 'k \<Rightarrow> bool option" where
  "Contains cmp sl key = do {
     (x, _) \<leftarrow> FindGreaterOrEqual cmp sl key None;
     case x of None \<Rightarrow> Some False
     | Some i \<Rightarrow> do { k \<leftarrow> node_key (nodes sl) i; r \<leftarrow> cmp key k; Some (r = 0) }
   }"

section \<open>Construction and insertion\<close>

fun clear_head :: "'k node list \<Rightarrow> nat \<Rightarrow> nat \<Rightarrow> 'k node list option" where
  "clear_head ns i 0 = Some ns"
| "clear_head ns i (Suc n) = do { ns' \<leftarrow> node_SetNext ns head i None; clear_head ns' (Suc i) n }"

definition new_SkipList :: "'k \<Rightarrow> 'k skiplist option" where
  "new_SkipList any_key = do {
     let (ns, hd) = NewNode [] any_key kMaxHeight;
     ns' \<leftarrow> clear_head ns 0 kMaxHeight;
     Some \<lparr>nodes = ns', max_height = 1, rnd = Random 0xdeadbeef\<rparr>
   }"

function RandomHeight_loop :: "nat \<Rightarrow> u32 \<Rightarrow> nat \<times> u32" where
  "RandomHeight_loop height r =
     (if height < kMaxHeight then
        let r' = Random_Next r in
        if r' mod 4 = 0 then RandomHeight_loop (height + 1) r' else (height, r')
      else (height, r))"
  by pat_completeness auto
termination by (relation "measure (\<lambda>(height, r). kMaxHeight - height)") auto

declare RandomHeight_loop.simps [simp del]

definition RandomHeight :: "u32 \<Rightarrow> nat \<times> u32" where
  "RandomHeight r = RandomHeight_loop 1 r"

text \<open>\<open>prev[i] = head_\<close> for the new levels.\<close>

fun raise_prev :: "nat option list \<Rightarrow> nat \<Rightarrow> nat \<Rightarrow> nat option list option" where
  "raise_prev prev i 0 = Some prev"
| "raise_prev prev i (Suc n) = (if i < length prev then raise_prev (prev[i := Some head]) (Suc i) n else None)"

fun link_loop :: "'k node list \<Rightarrow> nat option list \<Rightarrow> nat \<Rightarrow> nat \<Rightarrow> nat \<Rightarrow> 'k node list option" where
  "link_loop ns prev x i 0 = Some ns"
| "link_loop ns prev x i (Suc n) = do {
     entry \<leftarrow> nth_opt prev i;
     p \<leftarrow> entry;
     nxt \<leftarrow> node_Next ns p i;
     ns1 \<leftarrow> node_SetNext ns x i nxt;
     ns2 \<leftarrow> node_SetNext ns1 p i (Some x);
     link_loop ns2 prev x (Suc i) n
   }"

definition Insert :: "('k \<Rightarrow> 'k \<Rightarrow> int option) \<Rightarrow> 'k skiplist \<Rightarrow> 'k \<Rightarrow> 'k skiplist option" where
  "Insert cmp sl key = do {
     (x, p) \<leftarrow> FindGreaterOrEqual cmp sl key (Some (replicate kMaxHeight None));
     prev \<leftarrow> p;
     distinct_key \<leftarrow> (case x of None \<Rightarrow> Some True
       | Some i \<Rightarrow> do { k \<leftarrow> node_key (nodes sl) i; r \<leftarrow> cmp key k; Some (r \<noteq> 0) });
     if \<not> distinct_key then None
     else do {
       let (height, r') = RandomHeight (rnd sl);
       (prev', mh) \<leftarrow>
         (if height > max_height sl
          then do { prev' \<leftarrow> raise_prev prev (max_height sl) (height - max_height sl); Some (prev', height) }
          else Some (prev, max_height sl));
       let (ns, y) = NewNode (nodes sl) key height;
       ns' \<leftarrow> link_loop ns prev' y 0 height;
       Some \<lparr>nodes = ns', max_height = mh, rnd = r'\<rparr>
     }
   }"

section \<open>Iterators\<close>

text \<open>The member \<open>node_\<close> of an iterator over the list.\<close>

type_synonym sl_iterator = "nat option"

definition Iterator_new :: sl_iterator where "Iterator_new = None"

definition Iterator_Valid :: "sl_iterator \<Rightarrow> bool" where "Iterator_Valid it \<longleftrightarrow> it \<noteq> None"

definition Iterator_key :: "'k skiplist \<Rightarrow> sl_iterator \<Rightarrow> 'k option" where
  "Iterator_key sl it = do { x \<leftarrow> it; node_key (nodes sl) x }"

definition Iterator_Next :: "'k skiplist \<Rightarrow> sl_iterator \<Rightarrow> sl_iterator option" where
  "Iterator_Next sl it = do { x \<leftarrow> it; node_Next (nodes sl) x 0 }"

definition Iterator_Prev :: "('k \<Rightarrow> 'k \<Rightarrow> int option) \<Rightarrow> 'k skiplist \<Rightarrow> sl_iterator \<Rightarrow> sl_iterator option" where
  "Iterator_Prev cmp sl it = do {
     x \<leftarrow> it;
     k \<leftarrow> node_key (nodes sl) x;
     y \<leftarrow> FindLessThan cmp sl k;
     Some (if y = head then None else Some y)
   }"

definition Iterator_Seek :: "('k \<Rightarrow> 'k \<Rightarrow> int option) \<Rightarrow> 'k skiplist \<Rightarrow> 'k \<Rightarrow> sl_iterator option" where
  "Iterator_Seek cmp sl target = do { (x, _) \<leftarrow> FindGreaterOrEqual cmp sl target None; Some x }"

definition Iterator_SeekToFirst :: "'k skiplist \<Rightarrow> sl_iterator option" where
  "Iterator_SeekToFirst sl = node_Next (nodes sl) head 0"

definition Iterator_SeekToLast :: "'k skiplist \<Rightarrow> sl_iterator option" where
  "Iterator_SeekToLast sl = do { x \<leftarrow> FindLast sl; Some (if x = head then None else Some x) }"

end
