(* ===== verification/LdbSkipListProps.thy ===== *)
theory LdbSkipListProps
  imports LdbSkipList
begin

text \<open>
  The skip list (db/skiplist.h) is a sorted list without duplicates. The invariant \<open>sl_inv\<close> relates
  the nodes to the list \<open>xs\<close> of their numbers in the order of the keys: every link leads to the next
  node that is high enough. The searches are proved in the context of a comparator,
  and \<open>sl_repr\<close> forgets the nodes: it relates the list to the keys it holds.
\<close>

section \<open>The invariant\<close>

abbreviation "hgt ns x \<equiv> length (nd_next (ns ! x))"
abbreviation "key_of ns x \<equiv> nd_key (ns ! x)"

definition linked :: "'k node list \<Rightarrow> nat list \<Rightarrow> bool" where
  "linked ns xs \<longleftrightarrow> (\<forall>pre x suf i. head # xs = pre @ x # suf \<longrightarrow> i < hgt ns x \<longrightarrow>
     node_Next ns x i = Some (find (\<lambda>y. i < hgt ns y) suf))"

definition sl_inv :: "('k \<Rightarrow> 'k \<Rightarrow> int option) \<Rightarrow> ('k \<Rightarrow> bool) \<Rightarrow> 'k skiplist \<Rightarrow> nat list \<Rightarrow> bool" where
  "sl_inv cmp valid sl xs \<longleftrightarrow>
     nodes sl \<noteq> [] \<and> set xs = {1 ..< length (nodes sl)} \<and> distinct xs \<and>
     hgt (nodes sl) head = kMaxHeight \<and> 1 \<le> max_height sl \<and> max_height sl \<le> kMaxHeight \<and>
     (\<forall>x \<in> set xs. 1 \<le> hgt (nodes sl) x \<and> hgt (nodes sl) x \<le> max_height sl \<and> valid (key_of (nodes sl) x)) \<and>
     linked (nodes sl) xs \<and> sorted_wrt (less_key cmp) (map (key_of (nodes sl)) xs)"

definition sl_repr :: "('k \<Rightarrow> 'k \<Rightarrow> int option) \<Rightarrow> ('k \<Rightarrow> bool) \<Rightarrow> 'k skiplist \<Rightarrow> 'k list \<Rightarrow> bool" where
  "sl_repr cmp valid sl ks \<longleftrightarrow> (\<exists>xs. sl_inv cmp valid sl xs \<and> ks = map (key_of (nodes sl)) xs)"

text \<open>The predecessor of the nodes \<open>bs\<close> at a level, when the list is \<open>as @ bs\<close>.\<close>

definition pred_at :: "'k node list \<Rightarrow> nat list \<Rightarrow> nat \<Rightarrow> nat" where
  "pred_at ns as i = last (head # filter (\<lambda>y. i < hgt ns y) as)"

lemma linkedD: "linked ns xs \<Longrightarrow> head # xs = pre @ x # suf \<Longrightarrow> i < hgt ns x \<Longrightarrow>
    node_Next ns x i = Some (find (\<lambda>y. i < hgt ns y) suf)"
  by (simp add: linked_def)

lemma find_append: "find P (xs @ ys) = (case find P xs of None \<Rightarrow> find P ys | Some y \<Rightarrow> Some y)"
  by (induction xs) auto

lemma find_nth_0: "(\<forall>y \<in> set xs. P y) \<Longrightarrow> find P xs = nth_opt xs 0"
  by (cases xs) (auto simp: nth_opt_def)

text \<open>
  One step of a search from \<open>x\<close> at a level: on to a node of \<open>as\<close>, or stop at the predecessor.
\<close>

lemma search_step:
  assumes linked: "linked ns xs" and xs: "xs = as @ bs" and at: "head # xs = pre @ x # suf"
    and pre: "length pre \<le> length as" and lev: "level < hgt ns x"
  obtains (go) y pre' suf' where "node_Next ns x level = Some (Some y)" "y \<in> set as"
      "head # xs = pre' @ y # suf'" "length pre' \<le> length as" "length suf' < length suf" "level < hgt ns y"
  | (stop) nxt where "node_Next ns x level = Some nxt" "nxt = None \<or> (\<exists>y \<in> set bs. nxt = Some y)"
      "x = pred_at ns as level" "(\<forall>y \<in> set xs. level < hgt ns y) \<Longrightarrow> nxt = nth_opt bs 0"
proof -
  let ?P = "\<lambda>y. level < hgt ns y"
  have nx: "node_Next ns x level = Some (find ?P suf)" by (rule linkedD [OF linked at lev])
  define as2 where "as2 = take (length as - length pre) suf"
  have split: "(head # as) @ bs = (pre @ [x]) @ suf" using at xs by simp
  have suf: "suf = as2 @ bs" and as2: "head # as = pre @ x # as2"
  proof -
    have "take (Suc (length as)) ((head # as) @ bs) = head # as" by simp
    also have "take (Suc (length as)) ((head # as) @ bs) = pre @ x # as2"
      unfolding split as2_def using pre by (simp add: Suc_diff_le)
    finally show "head # as = pre @ x # as2" by simp
    have "drop (Suc (length as)) ((head # as) @ bs) = bs" by simp
    then have "bs = drop (length as - length pre) suf" unfolding split using pre by (simp add: Suc_diff_le)
    then show "suf = as2 @ bs" unfolding as2_def by simp
  qed
  show thesis
  proof (cases "find ?P as2")
    case (Some y)
    then obtain i where i: "i < length as2" "?P (as2 ! i)" "y = as2 ! i"
      unfolding find_Some_iff by blast
    have "find ?P suf = Some y" unfolding suf using Some by (simp add: find_append)
    moreover have "head # xs = (pre @ x # take i as2) @ y # (drop (Suc i) as2 @ bs)"
      using at suf i(1) id_take_nth_drop [OF i(1)] i(3) by simp
    moreover have "y \<in> set as"
    proof -
      have "y \<in> set as2" using i by simp
      then show ?thesis using as2 by (cases pre) auto
    qed
    moreover have "length (pre @ x # take i as2) \<le> length as"
      using as2 i(1) by (auto dest: arg_cong [where f = length])
    moreover have "length (drop (Suc i) as2 @ bs) < length suf" using suf i(1) by simp
    ultimately show thesis using go nx i by metis
  next
    case None
    then have none: "filter ?P as2 = []" by (simp add: find_None_iff filter_empty_conv)
    have nxt: "find ?P suf = find ?P bs" unfolding suf using None by (simp add: find_append)
    have "x = pred_at ns as level"
    proof (cases pre)
      case Nil
      with as2 have "x = head" "as = as2" by auto
      then show ?thesis using none by (simp add: pred_at_def)
    next
      case (Cons h pre')
      with as2 have "as = pre' @ x # as2" by simp
      then show ?thesis using none lev by (simp add: pred_at_def)
    qed
    moreover have "find ?P bs = None \<or> (\<exists>y \<in> set bs. find ?P bs = Some y)"
      by (cases "find ?P bs") (auto simp: find_Some_iff)
    moreover have "find ?P bs = nth_opt bs 0" if "\<forall>y \<in> set xs. ?P y"
      using that by (intro find_nth_0) (simp add: xs)
    ultimately show thesis using stop [of "find ?P bs"] nx nxt by metis
  qed
qed


section \<open>Searching\<close>

lemma node_NextD: "node_Next ns x i = Some r \<Longrightarrow> x < length ns \<and> i < hgt ns x"
  by (auto simp: node_Next_def nth_opt_def bind_eq_Some_conv split: if_splits)

text \<open>What a search leaves in \<open>prev\<close>: the predecessors of the levels from \<open>level\<close> down.\<close>

definition fill_prev :: "'k node list \<Rightarrow> nat list \<Rightarrow> nat \<Rightarrow> nat option list option \<Rightarrow> nat option list option" where
  "fill_prev ns as level = map_option
     (\<lambda>prev. map (\<lambda>j. if j \<le> level then Some (pred_at ns as j) else prev ! j) [0 ..< length prev])"

definition prev_fits :: "nat \<Rightarrow> nat option list option \<Rightarrow> bool" where
  "prev_fits level prev \<longleftrightarrow> (\<forall>p. prev = Some p \<longrightarrow> level < length p)"

lemma set_prev_fits: "prev_fits level prev \<Longrightarrow>
    set_prev prev level x = Some (map_option (\<lambda>p. p[level := Some x]) prev)"
  by (cases prev) (simp_all add: prev_fits_def)

lemma prev_fits_update: "prev_fits (Suc l) prev \<Longrightarrow> prev_fits l (map_option (\<lambda>p. p[Suc l := Some x]) prev)"
  by (auto simp: prev_fits_def)

lemma fill_prev_0: "map_option (\<lambda>p. p[0 := Some (pred_at ns as 0)]) prev = fill_prev ns as 0 prev"
proof (cases prev)
  case (Some p)
  have "p[0 := Some (pred_at ns as 0)] = map (\<lambda>j. if j \<le> 0 then Some (pred_at ns as j) else p ! j) [0 ..< length p]"
    by (rule nth_equalityI) (auto simp: nth_list_update)
  with Some show ?thesis by (simp add: fill_prev_def)
qed (simp add: fill_prev_def)

lemma fill_prev_Suc:
  "fill_prev ns as l (map_option (\<lambda>p. p[Suc l := Some (pred_at ns as (Suc l))]) prev) = fill_prev ns as (Suc l) prev"
  by (cases prev) (auto simp: fill_prev_def nth_list_update le_Suc_eq)

context comparator
begin

text \<open>The nodes \<open>as\<close> come before the target, the nodes \<open>bs\<close> do not.\<close>

definition divides :: "'k node list \<Rightarrow> 'k \<Rightarrow> nat list \<Rightarrow> nat list \<Rightarrow> bool" where
  "divides ns target as bs \<longleftrightarrow> valid target \<and> (\<forall>x \<in> set as \<union> set bs. x < length ns \<and> valid (key_of ns x) \<and> x \<noteq> head) \<and>
     (\<forall>x \<in> set as. less_key cmp (key_of ns x) target) \<and> (\<forall>x \<in> set bs. \<not> less_key cmp (key_of ns x) target)"

lemma dividesD:
  assumes "divides ns target as bs"
  shows "x \<in> set as \<Longrightarrow> \<exists>r. node_key ns x = Some (key_of ns x) \<and> cmp (key_of ns x) target = Some r \<and> r < 0 \<and> x \<noteq> head"
    and "x \<in> set bs \<Longrightarrow> \<exists>r. node_key ns x = Some (key_of ns x) \<and> cmp (key_of ns x) target = Some r \<and> 0 \<le> r \<and> x \<noteq> head"
  using assms cmp_defined [of "key_of ns x" target]
  by (fastforce simp: divides_def node_key_def less_key_def)+

lemma after_yes: "divides ns target as bs \<Longrightarrow> y \<in> set as \<Longrightarrow> KeyIsAfterNode cmp ns target (Some y) = Some True"
  using dividesD(1) [of ns target as bs y] by (auto simp: KeyIsAfterNode_def)

lemma after_no: "divides ns target as bs \<Longrightarrow> nxt = None \<or> (\<exists>y \<in> set bs. nxt = Some y) \<Longrightarrow>
    KeyIsAfterNode cmp ns target nxt = Some False"
  using dividesD(2) [of ns target as bs] by (fastforce simp: KeyIsAfterNode_def)

lemma FindGreaterOrEqual_loop_finds:
  assumes inv: "linked ns xs" "xs = as @ bs" "divides ns target as bs" "\<forall>y \<in> set xs. 0 < hgt ns y"
  shows "head # xs = pre @ x # suf \<Longrightarrow> length pre \<le> length as \<Longrightarrow> level < hgt ns x \<Longrightarrow> length suf + level < n \<Longrightarrow>
    prev_fits level prev \<Longrightarrow>
    FindGreaterOrEqual_loop n cmp ns target x level prev = Some (nth_opt bs 0, fill_prev ns as level prev)"
proof (induction n arbitrary: pre x suf level prev)
  case 0
  then show ?case by simp
next
  case (Suc n)
  from inv(1,2) Suc.prems(1-3) show ?case
  proof (cases rule: search_step)
    case (go y pre' suf')
    then show ?thesis using Suc.IH [of pre' y suf' level prev] Suc.prems by (simp add: after_yes [OF inv(3)])
  next
    case (stop nxt)
    note step = stop(1) after_no [OF inv(3) stop(2)] set_prev_fits [OF Suc.prems(5)]
    show ?thesis
    proof (cases level)
      case 0
      then show ?thesis using step stop(3,4) inv(4) Suc.prems(5) by (simp add: fill_prev_0)
    next
      case l: (Suc l)
      have "FindGreaterOrEqual_loop n cmp ns target x l (map_option (\<lambda>p. p[level := Some x]) prev) =
          Some (nth_opt bs 0, fill_prev ns as l (map_option (\<lambda>p. p[level := Some x]) prev))"
        using Suc.prems l by (intro Suc.IH) (simp_all add: prev_fits_update)
      then show ?thesis using step stop(3) l by (simp add: fill_prev_Suc)
    qed
  qed
qed

lemma FindLessThan_loop_finds:
  assumes inv: "linked ns xs" "xs = as @ bs" "divides ns target as bs"
  shows "head # xs = pre @ x # suf \<Longrightarrow> length pre \<le> length as \<Longrightarrow> x \<in> set (head # as) \<Longrightarrow> level < hgt ns x \<Longrightarrow>
    length suf + level < n \<Longrightarrow> FindLessThan_loop n cmp ns target x level = Some (pred_at ns as 0)"
proof (induction n arbitrary: pre x suf level)
  case 0
  then show ?case by simp
next
  case (Suc n)
  have before: "(if x = head then Some True else do { k \<leftarrow> node_key ns x; r \<leftarrow> cmp k target; Some (r < 0) }) = Some True"
    using Suc.prems(3) dividesD(1) [OF inv(3), of x] by auto
  from inv(1,2) Suc.prems(1,2,4) show ?case
  proof (cases rule: search_step)
    case (go y pre' suf')
    obtain r where "node_key ns y = Some (key_of ns y)" "cmp (key_of ns y) target = Some r" "r < 0"
      using dividesD(1) [OF inv(3) go(2)] by blast
    moreover have "FindLessThan_loop n cmp ns target y level = Some (pred_at ns as 0)"
      using go Suc.IH [of pre' y suf' level] Suc.prems by simp
    ultimately show ?thesis unfolding FindLessThan_loop.simps before by (simp add: go(1))
  next
    case (stop nxt)
    have "(case nxt of None \<Rightarrow> Some True | Some y \<Rightarrow> do { k \<leftarrow> node_key ns y; r \<leftarrow> cmp k target; Some (r \<ge> 0) }) = Some True"
      using stop(2) dividesD(2) [OF inv(3)] by fastforce
    then have "FindLessThan_loop (Suc n) cmp ns target x level =
        (if level = 0 then Some x else FindLessThan_loop n cmp ns target x (level - 1))"
      unfolding FindLessThan_loop.simps before by (simp add: stop(1))
    then show ?thesis using stop(3) Suc.prems Suc.IH [of pre x suf "level - 1"] by (cases level) simp_all
  qed
qed

end

lemma FindLast_loop_finds:
  assumes inv: "linked ns xs"
  shows "head # xs = pre @ x # suf \<Longrightarrow> level < hgt ns x \<Longrightarrow> length suf + level < n \<Longrightarrow>
    FindLast_loop n ns x level = Some (pred_at ns xs 0)"
proof (induction n arbitrary: pre x suf level)
  case 0
  then show ?case by simp
next
  case (Suc n)
  have "length pre \<le> length xs" using Suc.prems(1) by (auto dest: arg_cong [where f = length])
  from inv append_Nil2 [symmetric] Suc.prems(1) this Suc.prems(2) show ?case
  proof (cases rule: search_step)
    case (go y pre' suf')
    then show ?thesis using Suc.IH [of pre' y suf' level] Suc.prems by simp
  next
    case (stop nxt)
    then show ?thesis using Suc.prems Suc.IH [of pre x suf "level - 1"] by auto
  qed
qed


section \<open>Searches on a list with the invariant\<close>

text \<open>The part of a sorted list before a key, the part from it, and the list with a key put between.\<close>

definition keys_before :: "('k \<Rightarrow> 'k \<Rightarrow> int option) \<Rightarrow> 'k \<Rightarrow> 'k list \<Rightarrow> 'k list" where
  "keys_before cmp k = takeWhile (\<lambda>y. less_key cmp y k)"

definition keys_from :: "('k \<Rightarrow> 'k \<Rightarrow> int option) \<Rightarrow> 'k \<Rightarrow> 'k list \<Rightarrow> 'k list" where
  "keys_from cmp k = dropWhile (\<lambda>y. less_key cmp y k)"

definition insert_sorted :: "('k \<Rightarrow> 'k \<Rightarrow> int option) \<Rightarrow> 'k \<Rightarrow> 'k list \<Rightarrow> 'k list" where
  "insert_sorted cmp k ks = keys_before cmp k ks @ k # keys_from cmp k ks"

lemma before_from: "keys_before cmp k ks @ keys_from cmp k ks = ks"
  by (simp add: keys_before_def keys_from_def)

lemma sl_invD:
  assumes "sl_inv cmp valid sl xs"
  shows "linked (nodes sl) xs" "distinct (head # xs)" "Suc (length xs) = length (nodes sl)"
    "hgt (nodes sl) head = kMaxHeight" "1 \<le> max_height sl" "max_height sl \<le> kMaxHeight"
    "\<And>x. x \<in> set xs \<Longrightarrow> x < length (nodes sl) \<and> x \<noteq> head \<and> 1 \<le> hgt (nodes sl) x \<and>
       hgt (nodes sl) x \<le> max_height sl \<and> valid (key_of (nodes sl) x)"
    "sorted_wrt (less_key cmp) (map (key_of (nodes sl)) xs)"
proof -
  have s: "set xs = {1 ..< length (nodes sl)}" "distinct xs" "nodes sl \<noteq> []"
    using assms by (auto simp: sl_inv_def)
  then have "length xs = length (nodes sl) - 1" using distinct_card [of xs] by simp
  then show "Suc (length xs) = length (nodes sl)" using s(3) by (cases "nodes sl") auto
  show "distinct (head # xs)" using s by auto
qed (use assms in \<open>auto simp: sl_inv_def\<close>)

lemma set_around: "set (takeWhile P xs @ y # dropWhile P xs) = insert y (set xs)"
proof -
  have "set (takeWhile P xs) \<union> set (dropWhile P xs) = set xs"
    by (simp only: set_append [symmetric] takeWhile_dropWhile_id)
  then show ?thesis by auto
qed

lemma map_before: "map f (takeWhile (\<lambda>x. less_key cmp (f x) k) xs) = keys_before cmp k (map f xs)"
  "map f (dropWhile (\<lambda>x. less_key cmp (f x) k) xs) = keys_from cmp k (map f xs)"
  by (simp_all add: keys_before_def keys_from_def takeWhile_map dropWhile_map o_def)

context comparator
begin

lemma from_not_less:
  "sorted_wrt (less_key cmp) ks \<Longrightarrow> \<forall>k \<in> set ks. valid k \<Longrightarrow> valid t \<Longrightarrow> y \<in> set (keys_from cmp t ks) \<Longrightarrow> \<not> less_key cmp y t"
proof (induction ks)
  case (Cons k ks)
  show ?case
  proof (cases "less_key cmp k t")
    case True
    with Cons show ?thesis by (simp add: keys_from_def)
  next
    case False
    with Cons.prems(4) have "y = k \<or> y \<in> set ks" by (simp add: keys_from_def)
    then show ?thesis
    proof
      assume "y \<in> set ks"
      with Cons.prems have "less_key cmp k y" "valid k" "valid y" by auto
      with False less_trans [of k y t] Cons.prems(3) show ?thesis by blast
    qed (use False in simp)
  qed
qed (simp add: keys_from_def)

lemma before_less: "y \<in> set (keys_before cmp t ks) \<Longrightarrow> less_key cmp y t"
  unfolding keys_before_def by (blast dest: set_takeWhileD)

lemma set_from: "set (keys_from cmp t ks) \<subseteq> set ks" "set (keys_before cmp t ks) \<subseteq> set ks"
  unfolding keys_before_def keys_from_def by (auto dest: set_dropWhileD set_takeWhileD)

text \<open>A sorted list has at most one key that is the same as a given one, and it is found first.\<close>

lemma same_first:
  assumes sorted: "sorted_wrt (less_key cmp) ks" "\<forall>k \<in> set ks. valid k" and t: "valid t"
  shows "(\<exists>k \<in> set ks. same_key cmp t k) \<longleftrightarrow> (case keys_from cmp t ks of [] \<Rightarrow> False | k # _ \<Rightarrow> same_key cmp t k)"
proof
  assume "\<exists>k \<in> set ks. same_key cmp t k"
  then obtain k where k: "k \<in> set ks" "same_key cmp t k" by blast
  then have vk: "valid k" using sorted by blast
  then have nl: "\<not> less_key cmp k t" using less_cases [OF t vk] k(2) by metis
  then have "k \<in> set (keys_from cmp t ks)"
    using k(1) before_from [of cmp t ks] before_less [of k t ks] by (metis Un_iff set_append)
  then obtain k' r where f: "keys_from cmp t ks = k' # r" and kk: "k = k' \<or> k \<in> set r" by (cases "keys_from cmp t ks") auto
  have "k' \<in> set ks" using set_from(1) [of t ks] f by auto
  then have vk': "valid k'" using sorted by blast
  have "sorted_wrt (less_key cmp) (keys_from cmp t ks)"
    using sorted(1) before_from [of cmp t ks] by (metis sorted_wrt_append)
  then have "\<not> k \<in> set r"
    using f vk vk' t less_same_trans [OF vk' vk t _ same_sym [OF t vk k(2)]]
      from_not_less [OF sorted t, of k'] by auto
  with kk f k(2) show "case keys_from cmp t ks of [] \<Rightarrow> False | k # _ \<Rightarrow> same_key cmp t k" by simp
next
  assume "case keys_from cmp t ks of [] \<Rightarrow> False | k # _ \<Rightarrow> same_key cmp t k"
  then show "\<exists>k \<in> set ks. same_key cmp t k" using set_from(1) [of t ks] by (auto split: list.splits)
qed

lemma divides_inv:
  assumes inv: "sl_inv cmp valid sl xs" and t: "valid t"
  defines "P \<equiv> \<lambda>x. less_key cmp (key_of (nodes sl) x) t"
  shows "divides (nodes sl) t (takeWhile P xs) (dropWhile P xs)"
proof -
  have "\<not> P x" if "x \<in> set (dropWhile P xs)" for x
  proof -
    have "key_of (nodes sl) x \<in> set (keys_from cmp t (map (key_of (nodes sl)) xs))"
      using that unfolding P_def map_before(2) [symmetric] by simp
    then show ?thesis unfolding P_def
      using from_not_less [OF sl_invD(8) [OF inv] _ t] sl_invD(7) [OF inv] by auto
  qed
  moreover have "P x" if "x \<in> set (takeWhile P xs)" for x
    using that by (blast dest: set_takeWhileD)
  moreover have "set (takeWhile P xs) \<union> set (dropWhile P xs) = set xs"
    by (simp only: set_append [symmetric] takeWhile_dropWhile_id)
  ultimately show ?thesis using t sl_invD(7) [OF inv] unfolding divides_def P_def by blast
qed

lemma FindGreaterOrEqual_inv:
  assumes inv: "sl_inv cmp valid sl xs" and t: "valid t" and prev: "prev_fits (max_height sl - 1) prev"
  defines "P \<equiv> \<lambda>x. less_key cmp (key_of (nodes sl) x) t"
  shows "FindGreaterOrEqual cmp sl t prev = Some (nth_opt (dropWhile P xs) 0,
      fill_prev (nodes sl) (takeWhile P xs) (max_height sl - 1) prev)"
proof -
  note I = sl_invD [OF inv]
  have pos: "\<forall>y \<in> set xs. 0 < hgt (nodes sl) y" using I(7) by (fastforce simp: Suc_le_eq)
  show ?thesis unfolding FindGreaterOrEqual_def
    by (rule FindGreaterOrEqual_loop_finds [OF I(1) _ divides_inv [OF inv t, folded P_def] pos, where pre = "[]" and suf = xs])
      (use I(3-6) prev in \<open>simp_all add: search_fuel_def\<close>)
qed

lemma FindLessThan_inv:
  assumes inv: "sl_inv cmp valid sl xs" and t: "valid t"
  defines "P \<equiv> \<lambda>x. less_key cmp (key_of (nodes sl) x) t"
  shows "FindLessThan cmp sl t = Some (pred_at (nodes sl) (takeWhile P xs) 0)"
proof -
  note I = sl_invD [OF inv]
  show ?thesis unfolding FindLessThan_def
    by (rule FindLessThan_loop_finds [OF I(1) _ divides_inv [OF inv t, folded P_def], where pre = "[]" and suf = xs])
      (use I(3-6) in \<open>simp_all add: search_fuel_def\<close>)
qed

end

lemma FindLast_inv:
  assumes inv: "sl_inv cmp valid sl xs"
  shows "FindLast sl = Some (pred_at (nodes sl) xs 0)"
proof -
  note I = sl_invD [OF inv]
  show ?thesis unfolding FindLast_def
    by (rule FindLast_loop_finds [OF I(1), where pre = "[]" and suf = xs])
      (use I(3-6) in \<open>simp_all add: search_fuel_def\<close>)
qed

lemma pred_at_0: "sl_inv cmp valid sl xs \<Longrightarrow> set as \<subseteq> set xs \<Longrightarrow> pred_at (nodes sl) as 0 = last (head # as)"
proof -
  assume inv: "sl_inv cmp valid sl xs" and sub: "set as \<subseteq> set xs"
  then have "filter (\<lambda>y. 0 < hgt (nodes sl) y) as = as"
    using sl_invD(7) [OF inv] by (fastforce simp: filter_id_conv Suc_le_eq)
  then show ?thesis by (simp only: pred_at_def)
qed

end
