(* ===== verification/LdbSkipListInsert.thy ===== *)
theory LdbSkipListInsert
  imports LdbSkipListProps
begin

text \<open>
  Insertion into the skip list and its iterators (db/skiplist.h): insertion keeps the invariant and
  refines insertion into a sorted list of keys.
\<close>

section \<open>Linking a node\<close>

definition shape :: "'k node list \<Rightarrow> ('k \<times> nat) list" where
  "shape ns = map (\<lambda>nd. (nd_key nd, length (nd_next nd))) ns"

lemma shapeD:
  assumes "shape ns' = shape ns"
  shows "length ns' = length ns" "x < length ns \<Longrightarrow> key_of ns' x = key_of ns x" "x < length ns \<Longrightarrow> hgt ns' x = hgt ns x"
proof -
  show l: "length ns' = length ns" using assms by (auto simp: shape_def dest: map_eq_imp_length_eq)
  assume "x < length ns"
  then have "shape ns' ! x = (key_of ns' x, hgt ns' x)" "shape ns ! x = (key_of ns x, hgt ns x)"
    using l by (simp_all add: shape_def)
  then show "key_of ns' x = key_of ns x" "hgt ns' x = hgt ns x" using assms by simp_all
qed

lemma node_SetNext_spec:
  assumes "x < length ns" and "i < hgt ns x"
  obtains ns' where "node_SetNext ns x i v = Some ns'" "shape ns' = shape ns"
    "\<And>x' j. node_Next ns' x' j = (if x' = x \<and> j = i then Some v else node_Next ns x' j)"
proof
  let ?ns = "ns[x := (ns ! x)\<lparr>nd_next := (nd_next (ns ! x))[i := Some v]\<rparr>]"
  show "node_SetNext ns x i v = Some ?ns" using assms by (simp add: node_SetNext_def)
  show "shape ?ns = shape ns" using assms by (simp add: shape_def list_eq_iff_nth_eq nth_list_update)
  show "node_Next ?ns x' j = (if x' = x \<and> j = i then Some v else node_Next ns x' j)" for x' j
    using assms by (auto simp: node_Next_def nth_opt_def nth_list_update)
qed

text \<open>
  The loop puts \<open>y\<close> behind its predecessor \<open>p k\<close> at each level \<open>k\<close>; \<open>q k\<close> was its successor.
\<close>

lemma link_loop_spec:
  assumes "\<And>k. i \<le> k \<Longrightarrow> k < i + m \<Longrightarrow>
      nth_opt prev k = Some (Some (p k)) \<and> p k \<noteq> y \<and> p k < length ns \<and> k < hgt ns (p k) \<and> node_Next ns (p k) k = Some (q k)"
    and "i + m \<le> hgt ns y" and "y < length ns"
  shows "\<exists>ns'. link_loop ns prev y i m = Some ns' \<and> shape ns' = shape ns \<and>
    (\<forall>x k. node_Next ns' x k =
      (if i \<le> k \<and> k < i + m then if x = y then Some (q k) else if x = p k then Some (Some y) else node_Next ns x k
       else node_Next ns x k))"
  using assms
proof (induction m arbitrary: ns i)
  case 0
  then show ?case by auto
next
  case (Suc m)
  note at_i = Suc.prems(1) [of i, simplified]
  obtain ns1 where n1: "node_SetNext ns y i (q i) = Some ns1" "shape ns1 = shape ns"
    "\<And>x' j. node_Next ns1 x' j = (if x' = y \<and> j = i then Some (q i) else node_Next ns x' j)"
    by (rule node_SetNext_spec [of y ns i "q i"]) (use Suc.prems(2,3) in auto)
  note sh1 = shapeD [OF n1(2)]
  obtain ns2 where n2: "node_SetNext ns1 (p i) i (Some y) = Some ns2" "shape ns2 = shape ns1"
    "\<And>x' j. node_Next ns2 x' j = (if x' = p i \<and> j = i then Some (Some y) else node_Next ns1 x' j)"
    by (rule node_SetNext_spec [of "p i" ns1 i "Some y"]) (use at_i sh1 in auto)
  note sh2 = shapeD [OF n2(2)]
  have "\<exists>ns'. link_loop ns2 prev y (Suc i) m = Some ns' \<and> shape ns' = shape ns2 \<and>
    (\<forall>x k. node_Next ns' x k =
      (if Suc i \<le> k \<and> k < Suc i + m then if x = y then Some (q k) else if x = p k then Some (Some y) else node_Next ns2 x k
       else node_Next ns2 x k))"
  proof (rule Suc.IH)
    show "Suc i + m \<le> hgt ns2 y" "y < length ns2" using Suc.prems(2,3) sh1 sh2 by simp_all
    fix k assume k: "Suc i \<le> k" "k < Suc i + m"
    then have "nth_opt prev k = Some (Some (p k)) \<and> p k \<noteq> y \<and> p k < length ns \<and> k < hgt ns (p k) \<and> node_Next ns (p k) k = Some (q k)"
      by (intro Suc.prems(1)) auto
    then show "nth_opt prev k = Some (Some (p k)) \<and> p k \<noteq> y \<and> p k < length ns2 \<and> k < hgt ns2 (p k) \<and> node_Next ns2 (p k) k = Some (q k)"
      using sh1 sh2 n1(3) n2(3) k by simp
  qed
  then obtain ns' where n3: "link_loop ns2 prev y (Suc i) m = Some ns'" "shape ns' = shape ns2"
    "\<And>x k. node_Next ns' x k =
      (if Suc i \<le> k \<and> k < Suc i + m then if x = y then Some (q k) else if x = p k then Some (Some y) else node_Next ns2 x k
       else node_Next ns2 x k)" by blast
  have "link_loop ns prev y i (Suc m) = Some ns'" using at_i n1(1) n2(1) n3(1) by simp
  moreover have "node_Next ns' x k =
      (if i \<le> k \<and> k < i + Suc m then if x = y then Some (q k) else if x = p k then Some (Some y) else node_Next ns x k
       else node_Next ns x k)" for x k
  proof (cases "k = i")
    case True
    show ?thesis unfolding True using n3(3) [of x i] n2(3) [of x i] n1(3) [of x i] at_i by auto
  next
    case False
    then have "i \<le> k \<and> k < i + Suc m \<longleftrightarrow> Suc i \<le> k \<and> k < Suc i + m" by auto
    then show ?thesis using False n3(3) [of x k] n2(3) [of x k] n1(3) [of x k] by simp
  qed
  ultimately show ?case using n1(2) n2(2) n3(2) by metis
qed

section \<open>The links after an insertion\<close>

lemma pred_at_split:
  assumes "distinct (head # as)" and "head # as = pre @ x # as2" and "i < hgt ns x"
  shows "x = pred_at ns as i \<longleftrightarrow> find (\<lambda>y. i < hgt ns y) as2 = None"
proof (cases "filter (\<lambda>y. i < hgt ns y) as2 = []")
  case True
  then have "pred_at ns as i = x"
    using assms by (cases pre) (auto simp: pred_at_def)
  then show ?thesis using True by (simp add: find_None_iff filter_empty_conv)
next
  case False
  let ?f = "filter (\<lambda>y. i < hgt ns y)"
  have "pred_at ns as i = last (?f as2)" using assms False by (cases pre) (auto simp: pred_at_def)
  then have "pred_at ns as i \<in> set as2" using False last_in_set [OF False] by auto
  moreover have "x \<notin> set as2" using assms(1,2) by (cases pre) auto
  ultimately show ?thesis using False by (auto simp: find_None_iff filter_empty_conv)
qed

lemma pred_at_in: "pred_at ns as i \<in> set (head # as)" "i < hgt ns head \<Longrightarrow> i < hgt ns (pred_at ns as i)"
proof -
  have "pred_at ns as i \<in> set (head # filter (\<lambda>y. i < hgt ns y) as)" unfolding pred_at_def by (rule last_in_set) simp
  then show "pred_at ns as i \<in> set (head # as)" "i < hgt ns head \<Longrightarrow> i < hgt ns (pred_at ns as i)" by auto
qed

lemma pred_at_next:
  assumes "linked ns (as @ bs)" and "distinct (head # as)" and "i < hgt ns head"
  shows "node_Next ns (pred_at ns as i) i = Some (find (\<lambda>y. i < hgt ns y) bs)"
proof -
  obtain pre as2 where as: "head # as = pre @ pred_at ns as i # as2"
    using pred_at_in(1) [of ns as i] by (metis split_list)
  then have "find (\<lambda>y. i < hgt ns y) as2 = None"
    using pred_at_split [OF assms(2) as pred_at_in(2) [OF assms(3)]] by simp
  moreover have "head # as @ bs = pre @ pred_at ns as i # (as2 @ bs)" using as by (metis append_Cons append_assoc)
  ultimately show ?thesis
    using linkedD [OF assms(1) _ pred_at_in(2) [OF assms(3)], of pre as "as2 @ bs"] by (simp add: find_append)
qed


text \<open>
  The node \<open>y\<close> of height \<open>h\<close> is put between \<open>as\<close> and \<open>bs\<close>; \<open>step\<close> says which links
  the loop has changed.
\<close>

lemma linked_insert:
  assumes linked: "linked ns (as @ bs)" and dist: "distinct (head # as @ bs)" "y \<notin> set (head # as @ bs)"
    and low: "\<And>x. x \<in> set (head # as @ bs) \<Longrightarrow> hgt ns' x = hgt ns x" "hgt ns' y = h" "h \<le> hgt ns head"
    and step: "\<And>x k. node_Next ns' x k =
      (if k < h then if x = y then Some (find (\<lambda>z. k < hgt ns z) bs)
         else if x = pred_at ns as k then Some (Some y) else node_Next ns x k
       else node_Next ns x k)"
  shows "linked ns' (as @ y # bs)"
  unfolding linked_def
proof (intro allI impI)
  fix pre x suf i
  assume split: "head # as @ y # bs = pre @ x # suf" and i: "i < hgt ns' x"
  have da: "distinct (head # as)" using dist(1) by simp
  have same: "find (\<lambda>z. i < hgt ns' z) zs = find (\<lambda>z. i < hgt ns z) zs" if "set zs \<subseteq> set (head # as @ bs)" for zs
    using that low(1) by (intro find_cong) auto
  from split have "(head # as) @ (y # bs) = pre @ (x # suf)" by simp
  then consider (new) "pre = head # as" "x = y" "suf = bs"
    | (left) as2 where "head # as = pre @ x # as2" "suf = as2 @ y # bs"
    | (right) pre2 where "pre = head # as @ y # pre2" "bs = pre2 @ x # suf"
    by (auto simp: append_eq_append_conv2 append_eq_Cons_conv Cons_eq_append_conv)
  then show "node_Next ns' x i = Some (find (\<lambda>z. i < hgt ns' z) suf)"
  proof cases
    case new
    have "set bs \<subseteq> set (head # as @ bs)" by auto
    then show ?thesis using new step [of x i] i low(2) same [of bs] by auto
  next
    case left
    have x: "x \<in> set (head # as)" unfolding left(1) by simp
    then have ih: "i < hgt ns x" and xy: "x \<noteq> y" using i low(1) [of x] dist(2) by auto
    have "head # (as @ bs) = pre @ x # (as2 @ bs)" using left(1) by (metis append_Cons append_assoc)
    note old = linkedD [OF linked this ih]
    have "set as2 \<subseteq> set (head # as @ bs)" unfolding append_Cons [symmetric] left(1) by auto
    note s = same [OF this] same [of bs]
    have "find (\<lambda>z. i < hgt ns' z) (y # bs) = (if i < h then Some y else find (\<lambda>z. i < hgt ns z) bs)"
      using s(2) low(2) by auto
    then have new: "find (\<lambda>z. i < hgt ns' z) suf = (case find (\<lambda>z. i < hgt ns z) as2 of
        None \<Rightarrow> if i < h then Some y else find (\<lambda>z. i < hgt ns z) bs | Some z \<Rightarrow> Some z)"
      by (simp only: left(2) find_append s(1))
    show ?thesis
      unfolding new using step [of x i] old xy pred_at_split [OF da left(1) ih]
      by (auto simp: find_append split: option.splits)
  next
    case right
    have x: "x \<in> set bs" unfolding right(2) by simp
    then have "x \<noteq> y" "x \<notin> set (head # as)" "i < hgt ns x" using i dist low(1) [of x] by auto
    moreover have "node_Next ns x i = Some (find (\<lambda>z. i < hgt ns z) suf)"
      by (rule linkedD [OF linked, of "head # as @ pre2"]) (use right \<open>i < hgt ns x\<close> in auto)
    moreover have "pred_at ns as i \<noteq> x" using pred_at_in(1) [of ns as i] \<open>x \<notin> set (head # as)\<close> by auto
    moreover have "set suf \<subseteq> set (head # as @ bs)" unfolding right(2) by auto
    ultimately show ?thesis using step [of x i] same [of suf] by auto
  qed
qed

section \<open>Random heights\<close>

lemma RandomHeight_loop_bounds: "h \<le> kMaxHeight \<Longrightarrow> h \<le> fst (RandomHeight_loop h r) \<and> fst (RandomHeight_loop h r) \<le> kMaxHeight"
proof (induction h r rule: RandomHeight_loop.induct)
  case (1 h r)
  show ?case
  proof (cases "h < kMaxHeight \<and> Random_Next r mod 4 = 0")
    case True
    have "RandomHeight_loop h r = RandomHeight_loop (h + 1) (Random_Next r)"
      using True by (subst RandomHeight_loop.simps) (simp only: Let_def if_True simp_thms)
    moreover have "h + 1 \<le> fst (RandomHeight_loop (h + 1) (Random_Next r)) \<and>
        fst (RandomHeight_loop (h + 1) (Random_Next r)) \<le> kMaxHeight"
      by (rule 1(1) [OF conjunct1 [OF True] refl conjunct2 [OF True]]) (use conjunct1 [OF True] in simp)
    ultimately show ?thesis by simp
  next
    case False
    then have "fst (RandomHeight_loop h r) = h"
      by (subst RandomHeight_loop.simps) (cases "h < kMaxHeight"; simp only: Let_def if_True if_False simp_thms fst_conv)
    then show ?thesis using 1(2) by simp
  qed
qed

lemma RandomHeight_bounds: "1 \<le> fst (RandomHeight r)" "fst (RandomHeight r) \<le> kMaxHeight"
  using RandomHeight_loop_bounds [of 1 r] by (simp_all add: RandomHeight_def)


section \<open>Insertion\<close>

lemma raise_prev_spec:
  "i + m \<le> length prev \<Longrightarrow>
    raise_prev prev i m = Some (map (\<lambda>j. if i \<le> j \<and> j < i + m then Some head else prev ! j) [0 ..< length prev])"
proof (induction m arbitrary: prev i)
  case 0
  then show ?case by (auto intro!: nth_equalityI)
next
  case (Suc m)
  then show ?case by (auto simp: nth_list_update)
qed

lemma pred_at_high: "\<forall>x \<in> set as. hgt ns x \<le> i \<Longrightarrow> pred_at ns as i = head"
  by (auto simp: pred_at_def filter_empty_conv not_less intro!: arg_cong [where f = last])

text \<open>The predecessors that \<open>Insert\<close> passes to the linking loop.\<close>

lemma insert_prevs:
  assumes inv: "sl_inv cmp valid sl xs" and sub: "set as \<subseteq> set xs" and h: "h \<le> kMaxHeight"
    and fill: "fill_prev (nodes sl) as (max_height sl - 1) (Some (replicate kMaxHeight None)) = Some P"
  obtains prev where "(if h > max_height sl
      then do { prev' \<leftarrow> raise_prev P (max_height sl) (h - max_height sl); Some (prev', h) }
      else Some (P, max_height sl)) = Some (prev, max h (max_height sl))"
    "\<And>k. k < h \<Longrightarrow> nth_opt prev k = Some (Some (pred_at (nodes sl) as k))"
proof -
  note I = sl_invD [OF inv]
  have P: "length P = kMaxHeight" "\<And>k. k < max_height sl \<Longrightarrow> P ! k = Some (pred_at (nodes sl) as k)"
    using I(5,6) fill by (auto simp: fill_prev_def)
  have high: "pred_at (nodes sl) as k = head" if "max_height sl \<le> k" for k
    using that sub I(7) by (intro pred_at_high) fastforce
  show thesis
  proof (cases "h > max_height sl")
    case True
    let ?P = "map (\<lambda>j. if max_height sl \<le> j \<and> j < h then Some head else P ! j) [0 ..< length P]"
    have "raise_prev P (max_height sl) (h - max_height sl) = Some ?P"
      using raise_prev_spec [of "max_height sl" "h - max_height sl" P] True P(1) h by simp
    moreover have "nth_opt ?P k = Some (Some (pred_at (nodes sl) as k))" if "k < h" for k
      using that h P high [of k] by (auto simp: not_le)
    ultimately show ?thesis using True by (intro that [of ?P]) auto
  next
    case False
    then show ?thesis using P h I(6) by (intro that [of P]) auto
  qed
qed

context comparator
begin

lemma distinct_key_check:
  assumes inv: "sl_inv cmp valid sl xs" and key: "valid key"
    and bs: "bs = dropWhile (\<lambda>x. less_key cmp (key_of (nodes sl) x) key) xs"
  shows "(case nth_opt bs 0 of None \<Rightarrow> Some True | Some i \<Rightarrow> do { k \<leftarrow> node_key (nodes sl) i; r \<leftarrow> cmp key k; Some (r \<noteq> 0) })
    = Some (\<not> (\<exists>k \<in> set (map (key_of (nodes sl)) xs). same_key cmp key k))"
proof -
  note I = sl_invD [OF inv]
  have valid: "\<forall>k \<in> set (map (key_of (nodes sl)) xs). valid k" using I(7) by auto
  have keys: "keys_from cmp key (map (key_of (nodes sl)) xs) = map (key_of (nodes sl)) bs"
    unfolding bs map_before ..
  show ?thesis
  proof (cases bs)
    case Nil
    then show ?thesis using same_first [OF I(8) valid key] by (simp add: keys)
  next
    case (Cons b bs')
    then have "b \<in> set xs" using bs set_dropWhileD [of b _ xs] by (metis list.set_intros(1))
    then have b: "b < length (nodes sl)" "valid (key_of (nodes sl) b)" using I(7) by auto
    obtain r where "cmp key (key_of (nodes sl) b) = Some r" using cmp_defined [OF key b(2)] by blast
    then show ?thesis using same_first [OF I(8) valid key] b Cons by (simp add: keys node_key_def same_key_def)
  qed
qed

lemma insert_sorted_wrt:
  assumes "sorted_wrt (less_key cmp) ks" "\<forall>k \<in> set ks. valid k" "valid key" "\<not> (\<exists>k \<in> set ks. same_key cmp key k)"
  shows "sorted_wrt (less_key cmp) (insert_sorted cmp key ks)"
proof -
  have "sorted_wrt (less_key cmp) (keys_before cmp key ks @ keys_from cmp key ks)"
    using assms(1) by (simp only: before_from)
  moreover have after: "less_key cmp key k" if "k \<in> set (keys_from cmp key ks)" for k
  proof -
    have "k \<in> set ks" using that set_from(1) [of key ks] by auto
    then show ?thesis using from_not_less [OF assms(1-3) that] less_cases [OF assms(3), of k] assms(2,4) by metis
  qed
  ultimately show ?thesis
    using before_less [of _ key ks] unfolding insert_sorted_def sorted_wrt_append by auto
qed


lemma divided_inv:
  assumes inv: "sl_inv cmp valid sl (as @ bs)"
  shows "linked (nodes sl) (as @ bs)" "distinct (head # as @ bs)" "length (nodes sl) \<notin> set (head # as @ bs)"
    "x \<in> set (head # as @ bs) \<Longrightarrow> hgt (nodes sl @ [nd]) x = hgt (nodes sl) x"
    "x \<in> set (head # as @ bs) \<Longrightarrow> key_of (nodes sl @ [nd]) x = key_of (nodes sl) x"
    "x \<in> set (head # as @ bs) \<Longrightarrow> x < length (nodes sl)"
proof -
  note I = sl_invD [OF inv]
  show lt: "x < length (nodes sl)" if "x \<in> set (head # as @ bs)" for x
    using that I(3,7) by auto
  show "length (nodes sl) \<notin> set (head # as @ bs)" using lt by blast
  show "x \<in> set (head # as @ bs) \<Longrightarrow> hgt (nodes sl @ [nd]) x = hgt (nodes sl) x"
    "x \<in> set (head # as @ bs) \<Longrightarrow> key_of (nodes sl @ [nd]) x = key_of (nodes sl) x"
    using lt [of x] by (simp_all add: nth_append)
qed (use sl_invD [OF inv] in auto)

text \<open>What \<open>Insert\<close> does to the nodes: one more, and links that fit the list with it.\<close>

lemma Insert_run:
  assumes inv: "sl_inv cmp valid sl xs" and key: "valid key"
    and fresh: "\<not> (\<exists>k \<in> set (map (key_of (nodes sl)) xs). same_key cmp key k)"
    and as: "as = takeWhile (\<lambda>x. less_key cmp (key_of (nodes sl) x) key) xs"
    and bs: "bs = dropWhile (\<lambda>x. less_key cmp (key_of (nodes sl) x) key) xs"
  obtains h ns' r' where "Insert cmp sl key = Some \<lparr>nodes = ns', max_height = max h (max_height sl), rnd = r'\<rparr>"
    "1 \<le> h" "h \<le> kMaxHeight" "shape ns' = shape (nodes sl @ [\<lparr>nd_key = key, nd_next = replicate h None\<rparr>])"
    "linked ns' (as @ length (nodes sl) # bs)"
proof -
  note I = sl_invD [OF inv]
  let ?ns = "nodes sl" and ?y = "length (nodes sl)"
  have xs: "xs = as @ bs" by (simp add: as bs)
  note D = divided_inv [OF inv [unfolded xs]]
  obtain h r' where rh: "RandomHeight (rnd sl) = (h, r')" by (cases "RandomHeight (rnd sl)")
  have h: "1 \<le> h" "h \<le> kMaxHeight" using RandomHeight_bounds [of "rnd sl"] rh by simp_all
  have find: "FindGreaterOrEqual cmp sl key (Some (replicate kMaxHeight None)) =
      Some (nth_opt bs 0, fill_prev ?ns as (max_height sl - 1) (Some (replicate kMaxHeight None)))"
    unfolding as bs by (rule FindGreaterOrEqual_inv [OF inv key]) (use I(5,6) in \<open>simp add: prev_fits_def\<close>)
  obtain P where fill: "fill_prev ?ns as (max_height sl - 1) (Some (replicate kMaxHeight None)) = Some P"
    by (auto simp: fill_prev_def)
  obtain prev where prev: "(if h > max_height sl
      then do { prev' \<leftarrow> raise_prev P (max_height sl) (h - max_height sl); Some (prev', h) }
      else Some (P, max_height sl)) = Some (prev, max h (max_height sl))"
    "\<And>k. k < h \<Longrightarrow> nth_opt prev k = Some (Some (pred_at ?ns as k))"
    by (rule insert_prevs [OF inv _ h(2) fill]) (simp_all add: xs)
  let ?ns1 = "?ns @ [\<lparr>nd_key = key, nd_next = replicate h None\<rparr>]"
  have new: "node_Next ?ns1 x k = node_Next ?ns x k" for x k
    by (auto simp: node_Next_def nth_opt_def nth_append)
  have "\<exists>ns'. link_loop ?ns1 prev ?y 0 h = Some ns' \<and> shape ns' = shape ?ns1 \<and>
    (\<forall>x k. node_Next ns' x k =
      (if 0 \<le> k \<and> k < 0 + h then if x = ?y then Some (find (\<lambda>z. k < hgt ?ns z) bs)
         else if x = pred_at ?ns as k then Some (Some ?y) else node_Next ?ns1 x k
       else node_Next ?ns1 x k))"
  proof (rule link_loop_spec)
    fix k assume k: "0 \<le> k" "k < 0 + h"
    then have kh: "k < hgt ?ns head" using I(4) h by simp
    have p: "pred_at ?ns as k \<in> set (head # as @ bs)" using pred_at_in(1) [of ?ns as k] by auto
    show "nth_opt prev k = Some (Some (pred_at ?ns as k)) \<and> pred_at ?ns as k \<noteq> ?y \<and> pred_at ?ns as k < length ?ns1 \<and>
      k < hgt ?ns1 (pred_at ?ns as k) \<and> node_Next ?ns1 (pred_at ?ns as k) k = Some (find (\<lambda>z. k < hgt ?ns z) bs)"
      using prev(2) [of k] k D(4,6) [OF p] pred_at_in(2) [OF kh] pred_at_next [OF D(1) _ kh] D(2) new by simp
  qed simp_all
  then obtain ns' where ns': "link_loop ?ns1 prev ?y 0 h = Some ns'" "shape ns' = shape ?ns1"
    "\<And>x k. node_Next ns' x k =
      (if k < h then if x = ?y then Some (find (\<lambda>z. k < hgt ?ns z) bs)
         else if x = pred_at ?ns as k then Some (Some ?y) else node_Next ?ns x k
       else node_Next ?ns x k)" unfolding new by auto
  note sh = shapeD(3) [OF ns'(2)]
  have "Insert cmp sl key = Some \<lparr>nodes = ns', max_height = max h (max_height sl), rnd = r'\<rparr>"
    unfolding Insert_def find fill rh NewNode_def bind.simps(2) prod.case distinct_key_check [OF inv key bs] prev(1)
      Let_def not_not if_not_P [OF fresh] ns'(1) by (simp add: ns'(1))
  moreover have "linked ns' (as @ ?y # bs)"
    by (rule linked_insert [OF D(1-3) _ _ _ ns'(3)]) (use D(4,6) sh I(4) h in \<open>auto simp: less_Suc_eq\<close>)
  ultimately show thesis using that h ns'(2) by blast
qed

lemma Insert_inv:
  assumes inv: "sl_inv cmp valid sl xs" and key: "valid key"
    and fresh: "\<not> (\<exists>k \<in> set (map (key_of (nodes sl)) xs). same_key cmp key k)"
  shows "\<exists>sl' xs'. Insert cmp sl key = Some sl' \<and> sl_inv cmp valid sl' xs' \<and>
    map (key_of (nodes sl')) xs' = insert_sorted cmp key (map (key_of (nodes sl)) xs)"
proof -
  note I = sl_invD [OF inv]
  let ?ns = "nodes sl" and ?y = "length (nodes sl)"
  define as where "as = takeWhile (\<lambda>x. less_key cmp (key_of ?ns x) key) xs"
  define bs where "bs = dropWhile (\<lambda>x. less_key cmp (key_of ?ns x) key) xs"
  have xs: "xs = as @ bs" by (simp add: as_def bs_def)
  note D = divided_inv [OF inv [unfolded xs]]
  obtain h ns' r' where R: "Insert cmp sl key = Some \<lparr>nodes = ns', max_height = max h (max_height sl), rnd = r'\<rparr>"
    "1 \<le> h" "h \<le> kMaxHeight" "shape ns' = shape (?ns @ [\<lparr>nd_key = key, nd_next = replicate h None\<rparr>])"
    "linked ns' (as @ ?y # bs)" by (rule Insert_run [OF inv key fresh as_def bs_def])
  note sh = shapeD [OF R(4)]
  let ?sl = "\<lparr>nodes = ns', max_height = max h (max_height sl), rnd = r'\<rparr>"
  have old: "hgt ns' x = hgt ?ns x" "key_of ns' x = key_of ?ns x" if "x \<in> set (head # as @ bs)" for x
    using D(4-6) [OF that] sh(2,3) [of x] by auto
  have new: "hgt ns' ?y = h" "key_of ns' ?y = key" using sh(2,3) [of ?y] by simp_all
  have "map (key_of ns') as = map (key_of ?ns) as" "map (key_of ns') bs = map (key_of ?ns) bs"
    using old(2) by auto
  then have keys: "map (key_of ns') (as @ ?y # bs) = insert_sorted cmp key (map (key_of ?ns) xs)"
    unfolding insert_sorted_def map_before [symmetric] using new(2) by (simp add: as_def bs_def)
  have "sl_inv cmp valid ?sl (as @ ?y # bs)"
    unfolding sl_inv_def skiplist.simps keys
  proof (intro conjI)
    have "set xs = {1 ..< ?y}" using inv by (simp add: sl_inv_def)
    then show "set (as @ ?y # bs) = {1 ..< length ns'}" using I(3) sh(1) xs by auto
    have "1 \<le> hgt ns' x \<and> hgt ns' x \<le> max h (max_height sl) \<and> valid (key_of ns' x)" if "x \<in> set xs" for x
      using I(7) [OF that] old [of x] that xs by (simp add: le_max_iff_disj)
    then show "\<forall>x \<in> set (as @ ?y # bs). 1 \<le> hgt ns' x \<and> hgt ns' x \<le> max h (max_height sl) \<and> valid (key_of ns' x)"
      using new R(2) key xs by auto
    show "sorted_wrt (less_key cmp) (insert_sorted cmp key (map (key_of ?ns) xs))"
      by (rule insert_sorted_wrt [OF I(8) _ key fresh]) (use I(7) in auto)
    show "hgt ns' head = kMaxHeight" using old(1) [of head] I(4) by simp
  qed (use I(5,6) R(3,5) D(2,3) sh(1) in auto)
  with R(1) keys show ?thesis by (intro exI [of _ ?sl] exI [of _ "as @ ?y # bs"]) simp
qed

end


section \<open>The operations on the list of keys\<close>

lemma sl_reprE:
  assumes "sl_repr cmp valid sl ks"
  obtains xs where "sl_inv cmp valid sl xs" "ks = map (key_of (nodes sl)) xs"
  using assms by (auto simp: sl_repr_def)

lemma sl_repr_sorted: "sl_repr cmp valid sl ks \<Longrightarrow> sorted_wrt (less_key cmp) ks \<and> (\<forall>k \<in> set ks. valid k)"
  by (elim sl_reprE) (auto dest: sl_invD(7,8))

lemma new_SkipList_inv: "\<exists>sl. new_SkipList k = Some sl \<and> sl_inv cmp valid sl []"
proof -
  have "new_SkipList k = Some \<lparr>nodes = [\<lparr>nd_key = k, nd_next = replicate 12 (Some None)\<rparr>], max_height = 1,
      rnd = Random 0xdeadbeef\<rparr>"
    by (simp add: new_SkipList_def NewNode_def node_SetNext_def eval_nat_numeral)
  moreover have "linked [\<lparr>nd_key = k, nd_next = replicate 12 (Some None)\<rparr>] []"
    by (auto simp: linked_def node_Next_def Cons_eq_append_conv)
  ultimately show ?thesis by (simp add: sl_inv_def)
qed

lemma new_SkipList_repr: "\<exists>sl. new_SkipList k = Some sl \<and> sl_repr cmp valid sl []"
  using new_SkipList_inv [of k cmp valid] by (force simp: sl_repr_def)

context comparator
begin

lemma Insert_repr:
  assumes "sl_repr cmp valid sl ks" and key: "valid key" and "\<not> (\<exists>k \<in> set ks. same_key cmp key k)"
  shows "\<exists>sl'. Insert cmp sl key = Some sl' \<and> sl_repr cmp valid sl' (insert_sorted cmp key ks)"
  using assms(1)
proof (rule sl_reprE)
  fix xs assume "sl_inv cmp valid sl xs" "ks = map (key_of (nodes sl)) xs"
  with Insert_inv [OF this(1) key] assms(3) show ?thesis unfolding sl_repr_def by metis
qed

lemma Insert_duplicate:
  assumes "sl_repr cmp valid sl ks" and key: "valid key" and dup: "\<exists>k \<in> set ks. same_key cmp key k"
  shows "Insert cmp sl key = None"
  using assms(1)
proof (rule sl_reprE)
  fix xs assume inv: "sl_inv cmp valid sl xs" and ks: "ks = map (key_of (nodes sl)) xs"
  note I = sl_invD [OF inv]
  have fits: "prev_fits (max_height sl - 1) (Some (replicate kMaxHeight None))"
    using I(5,6) by (simp add: prev_fits_def)
  show "Insert cmp sl key = None"
    using distinct_key_check [OF inv key refl] dup ks
    by (simp add: Insert_def FindGreaterOrEqual_inv [OF inv key fits] bind_eq_None_conv split: option.splits)
qed

lemma Contains_repr:
  assumes "sl_repr cmp valid sl ks" and key: "valid key"
  shows "Contains cmp sl key = Some (\<exists>k \<in> set ks. same_key cmp key k)"
  using assms(1)
proof (rule sl_reprE)
  fix xs assume inv: "sl_inv cmp valid sl xs" and ks: "ks = map (key_of (nodes sl)) xs"
  define bs where "bs = dropWhile (\<lambda>x. less_key cmp (key_of (nodes sl) x) key) xs"
  have "FindGreaterOrEqual cmp sl key None = Some (nth_opt bs 0, None)"
    unfolding bs_def using FindGreaterOrEqual_inv [OF inv key, of None] by (simp add: prev_fits_def fill_prev_def)
  moreover have "(\<exists>k \<in> set ks. same_key cmp key k) =
      (case nth_opt bs 0 of None \<Rightarrow> False | Some i \<Rightarrow> same_key cmp key (key_of (nodes sl) i))"
    using same_first [of ks key] sl_repr_sorted [OF assms(1)] key
    unfolding ks map_before(2) [symmetric] bs_def [symmetric] by (cases bs) auto
  moreover have "i < length (nodes sl) \<and> valid (key_of (nodes sl) i)" if "nth_opt bs 0 = Some i" for i
  proof -
    have "i \<in> set bs" using that by (cases bs) auto
    then have "i \<in> set xs" unfolding bs_def by (rule set_dropWhileD)
    then show ?thesis using sl_invD(7) [OF inv] by blast
  qed
  ultimately show ?thesis
    using cmp_defined [OF key] by (fastforce simp: Contains_def node_key_def same_key_def split: option.splits)
qed

end

section \<open>Iterators\<close>

text \<open>The iterator stands at position \<open>p\<close> of the list, or is not valid when \<open>p\<close> is its length.\<close>

definition iterator_at :: "('k \<Rightarrow> 'k \<Rightarrow> int option) \<Rightarrow> ('k \<Rightarrow> bool) \<Rightarrow> 'k skiplist \<Rightarrow> 'k list \<Rightarrow> nat \<Rightarrow> sl_iterator \<Rightarrow> bool" where
  "iterator_at cmp valid sl ks p it \<longleftrightarrow>
     (\<exists>xs. sl_inv cmp valid sl xs \<and> ks = map (key_of (nodes sl)) xs \<and> p \<le> length xs \<and> it = nth_opt xs p)"

lemma iterator_key: "iterator_at cmp valid sl ks p it \<Longrightarrow>
    p \<le> length ks \<and> Iterator_Valid it = (p < length ks) \<and> (p < length ks \<longrightarrow> Iterator_key sl it = Some (ks ! p))"
proof -
  assume "iterator_at cmp valid sl ks p it"
  then obtain xs where xs: "sl_inv cmp valid sl xs" "ks = map (key_of (nodes sl)) xs" "p \<le> length xs" "it = nth_opt xs p"
    unfolding iterator_at_def by blast
  have "xs ! p < length (nodes sl)" if "p < length xs" using sl_invD(7) [OF xs(1), of "xs ! p"] that by simp
  then show ?thesis using xs(2-4) by (auto simp: Iterator_Valid_def Iterator_key_def nth_opt_def node_key_def)
qed

lemma level0_next:
  assumes inv: "sl_inv cmp valid sl xs" and "p < length (head # xs)"
  shows "node_Next (nodes sl) ((head # xs) ! p) 0 = Some (nth_opt xs p)"
proof -
  note I = sl_invD [OF inv]
  have high: "0 < hgt (nodes sl) x" if "x \<in> set (head # xs)" for x using that I(4,7) by fastforce
  have split: "head # xs = take p (head # xs) @ (head # xs) ! p # drop p xs"
    using id_take_nth_drop [OF assms(2)] by simp
  have "node_Next (nodes sl) ((head # xs) ! p) 0 = Some (find (\<lambda>y. 0 < hgt (nodes sl) y) (drop p xs))"
    by (rule linkedD [OF I(1) split]) (use assms(2) high in \<open>simp only: nth_mem\<close>)
  also have "find (\<lambda>y. 0 < hgt (nodes sl) y) (drop p xs) = nth_opt (drop p xs) 0"
    using high by (intro find_nth_0) (auto dest: in_set_dropD)
  also have "nth_opt (drop p xs) 0 = nth_opt xs p" by (auto simp: nth_opt_def)
  finally show ?thesis .
qed

lemma iterator_next:
  "iterator_at cmp valid sl ks p it \<Longrightarrow> p < length ks \<Longrightarrow>
    \<exists>it'. Iterator_Next sl it = Some it' \<and> iterator_at cmp valid sl ks (Suc p) it'"
  unfolding iterator_at_def using level0_next [of cmp valid sl _ "Suc p"]
  by (fastforce simp: Iterator_Next_def)

lemma iterator_first:
  "sl_repr cmp valid sl ks \<Longrightarrow> \<exists>it. Iterator_SeekToFirst sl = Some it \<and> iterator_at cmp valid sl ks 0 it"
  unfolding iterator_at_def sl_repr_def using level0_next [of cmp valid sl _ 0]
  by (fastforce simp: Iterator_SeekToFirst_def)

lemma last_position: "distinct (head # xs) \<Longrightarrow> p \<le> length xs \<Longrightarrow> l = last (head # take p xs) \<Longrightarrow>
    (if l = head then None else Some l) = (if p = 0 then None else nth_opt xs (p - 1))"
proof (cases p)
  case (Suc q)
  assume *: "distinct (head # xs)" "p \<le> length xs" "l = last (head # take p xs)"
  then have "take p xs = take q xs @ [xs ! q]" using Suc by (simp add: take_Suc_conv_app_nth)
  then have "l = xs ! q" using *(3) by simp
  moreover have "xs ! q \<noteq> head" using * Suc by (metis Suc_le_lessD distinct.simps(2) nth_mem)
  ultimately show ?thesis using Suc *(2) by simp
qed simp

lemma iterator_last:
  assumes "sl_repr cmp valid sl ks"
  shows "\<exists>it. Iterator_SeekToLast sl = Some it \<and>
    (if ks = [] then it = None else iterator_at cmp valid sl ks (length ks - 1) it)"
  using assms
proof (rule sl_reprE)
  fix xs assume inv: "sl_inv cmp valid sl xs" and ks: "ks = map (key_of (nodes sl)) xs"
  have "Iterator_SeekToLast sl = Some (if length xs = 0 then None else nth_opt xs (length xs - 1))"
    unfolding Iterator_SeekToLast_def FindLast_inv [OF inv] pred_at_0 [OF inv order_refl] bind.simps(2)
    by (rule arg_cong [where f = Some], rule last_position [OF sl_invD(2) [OF inv]]) simp_all
  then show ?thesis using inv ks by (auto simp: iterator_at_def intro!: exI [of _ xs])
qed

context comparator
begin

lemma iterator_seek:
  assumes "sl_repr cmp valid sl ks" and t: "valid t"
  shows "\<exists>it. Iterator_Seek cmp sl t = Some it \<and> iterator_at cmp valid sl ks (length (keys_before cmp t ks)) it"
  using assms(1)
proof (rule sl_reprE)
  fix xs assume inv: "sl_inv cmp valid sl xs" and ks: "ks = map (key_of (nodes sl)) xs"
  let ?P = "\<lambda>x. less_key cmp (key_of (nodes sl) x) t"
  have l: "length (keys_before cmp t ks) = length (takeWhile ?P xs)"
    unfolding ks map_before(1) [symmetric] by simp
  have "nth_opt (dropWhile ?P xs) 0 = nth_opt xs (length (takeWhile ?P xs))"
    by (auto simp: nth_opt_def dropWhile_eq_drop)
  then have "Iterator_Seek cmp sl t = Some (nth_opt xs (length (takeWhile ?P xs)))"
    using FindGreaterOrEqual_inv [OF inv t, of None] by (simp add: Iterator_Seek_def prev_fits_def)
  then show ?thesis unfolding iterator_at_def l using inv ks length_takeWhile_le [of ?P xs] by blast
qed

lemma before_own_key:
  assumes "sorted_wrt (less_key cmp) ks" "\<forall>k \<in> set ks. valid k" "p < length ks"
  shows "keys_before cmp (ks ! p) ks = take p ks"
  using assms
proof (induction ks arbitrary: p)
  case (Cons k ks)
  show ?case
  proof (cases p)
    case 0
    then show ?thesis using Cons.prems less_irrefl [of k] by (simp add: keys_before_def)
  next
    case (Suc q)
    then show ?thesis using Cons.prems Cons.IH [of q] by (simp add: keys_before_def)
  qed
qed simp

lemma iterator_prev:
  assumes "iterator_at cmp valid sl ks p it" and p: "p < length ks"
  shows "\<exists>it'. Iterator_Prev cmp sl it = Some it' \<and>
    (if p = 0 then it' = None else iterator_at cmp valid sl ks (p - 1) it')"
proof -
  obtain xs where inv: "sl_inv cmp valid sl xs" and ks: "ks = map (key_of (nodes sl)) xs" and it: "it = nth_opt xs p"
    using assms(1) by (auto simp: iterator_at_def)
  let ?k = "key_of (nodes sl) (xs ! p)"
  have x: "xs ! p < length (nodes sl)" "valid ?k" using sl_invD(7) [OF inv, of "xs ! p"] p ks by auto
  have "takeWhile (\<lambda>x. less_key cmp (key_of (nodes sl) x) ?k) xs = take p xs"
  proof -
    have "keys_before cmp ?k ks = take p ks"
      using before_own_key [of ks p] sl_invD(7,8) [OF inv] p ks by auto
    then have "length (takeWhile (\<lambda>x. less_key cmp (key_of (nodes sl) x) ?k) xs) = p"
      unfolding ks map_before(1) [symmetric] using p ks by (metis length_map length_take min.absorb4)
    then show ?thesis by (metis takeWhile_eq_take)
  qed
  then have "FindLessThan cmp sl ?k = Some (last (head # take p xs))"
    using FindLessThan_inv [OF inv x(2)] pred_at_0 [OF inv, of "take p xs"] by (simp add: set_take_subset del: last.simps)
  then have "Iterator_Prev cmp sl it = Some (if p = 0 then None else nth_opt xs (p - 1))"
    using last_position [OF sl_invD(2) [OF inv] _ refl, of p] it x p ks
    by (simp add: Iterator_Prev_def node_key_def del: last.simps)
  then show ?thesis using inv ks p by (auto simp: iterator_at_def intro!: exI [of _ xs])
qed

end


section \<open>The list as a whole\<close>

text \<open>
  C19: The skip list refines a sorted list of keys: inserting a key that compares equal to none in
  the list puts it at its place and keeps the invariant, whatever heights the generator draws; a
  second key that compares equal fails the assertion of the code.
\<close>

theorem skiplist_insert:
  assumes "comparator cmp valid" and "sl_repr cmp valid sl ks" and "valid key"
  shows "if \<exists>k \<in> set ks. same_key cmp key k then Insert cmp sl key = None
    else \<exists>sl'. Insert cmp sl key = Some sl' \<and> sl_repr cmp valid sl' (insert_sorted cmp key ks)"
  using comparator.Insert_repr [OF assms] comparator.Insert_duplicate [OF assms] by simp

theorem skiplist_insert_witness:
  "\<exists>sl sl'. new_SkipList [] = Some sl \<and> Insert (Compare BytewiseComparator) sl [98] = Some sl' \<and>
    sl_repr (Compare BytewiseComparator) (\<lambda>_. True) sl' [[98]]"
proof -
  obtain sl where sl: "new_SkipList [] = Some sl" "sl_repr (Compare BytewiseComparator) (\<lambda>_. True) sl []"
    using new_SkipList_repr [of "[] :: slice" "Compare BytewiseComparator" "\<lambda>_. True"] by blast
  show ?thesis using skiplist_insert [OF bytewise.comparator_axioms sl(2), of "[98]"] sl(1)
    by (simp add: insert_sorted_def keys_before_def keys_from_def)
qed

text \<open>Inserting many keys, as a client does.\<close>

fun insert_all :: "('k \<Rightarrow> 'k \<Rightarrow> int option) \<Rightarrow> 'k skiplist \<Rightarrow> 'k list \<Rightarrow> 'k skiplist option" where
  "insert_all cmp sl [] = Some sl"
| "insert_all cmp sl (k # ks) = do { sl' \<leftarrow> Insert cmp sl k; insert_all cmp sl' ks }"

text \<open>Walking over the list, as a client does: the keys from the iterator on, in either direction.\<close>

fun scan :: "nat \<Rightarrow> ('k \<Rightarrow> 'k \<Rightarrow> int option) \<Rightarrow> 'k skiplist \<Rightarrow> bool \<Rightarrow> sl_iterator \<Rightarrow> 'k list option" where
  "scan 0 cmp sl forward it = None"
| "scan (Suc n) cmp sl forward it =
     (if Iterator_Valid it then do {
        k \<leftarrow> Iterator_key sl it;
        it' \<leftarrow> (if forward then Iterator_Next sl it else Iterator_Prev cmp sl it);
        ks \<leftarrow> scan n cmp sl forward it';
        Some (k # ks)
      }
      else Some [])"

lemma set_insert_sorted: "set (insert_sorted cmp k ks) = insert k (set ks)"
  unfolding insert_sorted_def keys_before_def keys_from_def by (rule set_around)

lemma scan_forward:
  "iterator_at cmp valid sl ks p it \<Longrightarrow> length ks - p < n \<Longrightarrow> scan n cmp sl True it = Some (drop p ks)"
proof (induction n arbitrary: p it)
  case (Suc n)
  note k = iterator_key [OF Suc.prems(1)]
  show ?case
  proof (cases "p < length ks")
    case True
    obtain it' where it': "Iterator_Next sl it = Some it'" "iterator_at cmp valid sl ks (Suc p) it'"
      using iterator_next [OF Suc.prems(1) True] by blast
    have "scan n cmp sl True it' = Some (drop (Suc p) ks)"
      by (rule Suc.IH [OF it'(2)]) (use Suc.prems(2) True in simp)
    then show ?thesis using k True it'(1) by (simp add: Cons_nth_drop_Suc)
  qed (use k in simp)
qed simp

context comparator
begin

lemma scan_backward:
  "iterator_at cmp valid sl ks p it \<Longrightarrow> p < length ks \<Longrightarrow> Suc p < n \<Longrightarrow>
    scan n cmp sl False it = Some (rev (take (Suc p) ks))"
proof (induction n arbitrary: p it)
  case (Suc n)
  note k = iterator_key [OF Suc.prems(1)]
  obtain it' where it': "Iterator_Prev cmp sl it = Some it'"
    "if p = 0 then it' = None else iterator_at cmp valid sl ks (p - 1) it'"
    using iterator_prev [OF Suc.prems(1,2)] by blast
  have "scan n cmp sl False it' = Some (rev (take p ks))"
  proof (cases p)
    case 0
    then show ?thesis using it'(2) Suc.prems(3) by (cases n) (simp_all add: Iterator_Valid_def)
  next
    case (Suc q)
    then show ?thesis using it'(2) Suc.IH [of q it'] Suc.prems by simp
  qed
  then show ?case using k Suc.prems(2) it'(1) by (simp add: take_Suc_conv_app_nth)
qed simp

lemma insert_all_repr:
  assumes "sl_repr cmp valid sl xs" and "\<forall>k \<in> set ks. valid k"
    and "pairwise (\<lambda>a b. \<not> same_key cmp a b) (set xs \<union> set ks)" and "distinct ks" and "set xs \<inter> set ks = {}"
  shows "\<exists>sl' ys. insert_all cmp sl ks = Some sl' \<and> sl_repr cmp valid sl' ys \<and> set ys = set xs \<union> set ks"
  using assms
proof (induction ks arbitrary: sl xs)
  case (Cons k ks)
  have "\<not> (\<exists>x \<in> set xs. same_key cmp k x)"
    using Cons.prems(3,5) by (auto simp: pairwise_def)
  then obtain sl1 where s1: "Insert cmp sl k = Some sl1" "sl_repr cmp valid sl1 (insert_sorted cmp k xs)"
    using Insert_repr [OF Cons.prems(1), of k] Cons.prems(2) by auto
  obtain sl' ys where "insert_all cmp sl1 ks = Some sl'" "sl_repr cmp valid sl' ys"
    "set ys = set (insert_sorted cmp k xs) \<union> set ks"
    using Cons.IH [OF s1(2)] Cons.prems(2-5) by (auto simp: set_insert_sorted)
  with s1(1) show ?case by (auto simp: set_insert_sorted)
qed auto

end

text \<open>
  C26: Searching the skip list for any valid key ends within a number of steps bounded by its nodes
  and levels: a lookup finds the key exactly when the list holds one that compares equal, and an
  iterator that seeks the key walks over exactly the keys that are not before it.
\<close>

theorem skiplist_lookup:
  assumes "comparator cmp valid" and "sl_repr cmp valid sl ks" and "valid key"
  shows "Contains cmp sl key = Some (\<exists>k \<in> set ks. same_key cmp key k) \<and>
    (\<exists>it. Iterator_Seek cmp sl key = Some it \<and> scan (length ks + 1) cmp sl True it = Some (keys_from cmp key ks))"
proof -
  obtain it where it: "Iterator_Seek cmp sl key = Some it" "iterator_at cmp valid sl ks (length (keys_before cmp key ks)) it"
    using comparator.iterator_seek [OF assms] by blast
  have "drop (length (keys_before cmp key ks)) ks = keys_from cmp key ks"
    by (simp add: keys_before_def keys_from_def dropWhile_eq_drop)
  then show ?thesis using it comparator.Contains_repr [OF assms] scan_forward [OF it(2), of "length ks + 1"] by simp
qed

theorem skiplist_lookup_witness:
  "\<exists>sl. new_SkipList [] = Some sl \<and> Contains (Compare BytewiseComparator) sl [98] = Some False"
proof -
  obtain sl where sl: "new_SkipList [] = Some sl" "sl_repr (Compare BytewiseComparator) (\<lambda>_. True) sl []"
    using new_SkipList_repr [of "[] :: slice" "Compare BytewiseComparator" "\<lambda>_. True"] by blast
  show ?thesis using skiplist_lookup [OF bytewise.comparator_axioms sl(2), of "[98]"] sl(1) by simp
qed

text \<open>
  C25: From the empty list, inserting any pairwise different keys succeeds; the iterator then
  walks over exactly these keys in increasing order, to the end and back, in a number of steps
  bounded by the number of keys.
\<close>

theorem skiplist_scan:
  assumes "comparator cmp valid" and "\<forall>k \<in> set ks. valid k" and "distinct ks"
    and "pairwise (\<lambda>a b. \<not> same_key cmp a b) (set ks)" and "new_SkipList k0 = Some sl0"
  shows "\<exists>sl it ys. insert_all cmp sl0 ks = Some sl \<and> set ys = set ks \<and> sorted_wrt (less_key cmp) ys \<and>
    Iterator_SeekToFirst sl = Some it \<and> scan (length ys + 1) cmp sl True it = Some ys \<and>
    (\<exists>it'. Iterator_SeekToLast sl = Some it' \<and> scan (length ys + 1) cmp sl False it' = Some (rev ys))"
proof -
  have "sl_repr cmp valid sl0 []" using new_SkipList_repr [of k0 cmp valid] assms(5) by simp
  then obtain sl ys where sl: "insert_all cmp sl0 ks = Some sl" "sl_repr cmp valid sl ys" "set ys = set ks"
    using comparator.insert_all_repr [OF assms(1) _ assms(2), of sl0 "[]"] assms(3,4) by auto
  obtain it where it: "Iterator_SeekToFirst sl = Some it" "iterator_at cmp valid sl ys 0 it"
    using iterator_first [OF sl(2)] by blast
  obtain it' where it': "Iterator_SeekToLast sl = Some it'"
    "if ys = [] then it' = None else iterator_at cmp valid sl ys (length ys - 1) it'"
    using iterator_last [OF sl(2)] by blast
  have "scan (length ys + 1) cmp sl False it' = Some (rev ys)"
    using it'(2) comparator.scan_backward [OF assms(1), of sl ys "length ys - 1" it' "length ys + 1"]
    by (cases ys) (simp_all add: Iterator_Valid_def)
  then show ?thesis using sl it it'(1) scan_forward [OF it(2), of "length ys + 1"] sl_repr_sorted [OF sl(2)]
    by auto
qed


theorem skiplist_scan_witness:
  "\<exists>sl0 sl it. new_SkipList [] = Some sl0 \<and> insert_all (Compare BytewiseComparator) sl0 [[98], [97]] = Some sl \<and>
    Iterator_SeekToFirst sl = Some it \<and> scan 3 (Compare BytewiseComparator) sl True it = Some [[97], [98]]"
proof -
  let ?c = "Compare BytewiseComparator"
  obtain sl0 where sl0: "new_SkipList [] = Some (sl0 :: slice skiplist)"
    using new_SkipList_repr [of "[] :: slice" ?c "\<lambda>_. True"] by blast
  have "pairwise (\<lambda>a b. \<not> same_key ?c a b) (set [[98], [97]])" by (simp add: pairwise_def bytewise_same)
  from skiplist_scan [OF bytewise.comparator_axioms _ _ this sl0] obtain sl it ys where
    r: "insert_all ?c sl0 [[98], [97]] = Some sl" "set ys = {[98], [97]}" "sorted_wrt (<) ys"
      "Iterator_SeekToFirst sl = Some it" "scan (length ys + 1) ?c sl True it = Some ys"
    by (auto simp: bytewise_less [abs_def])
  have "sorted ys" "distinct ys" using r(3) by (simp_all add: strict_sorted_iff)
  then have "ys = sorted_list_of_set {[98], [97]}"
    using sorted_list_of_set.idem_if_sorted_distinct [of ys] r(2) by simp
  then have "ys = [[97], [98]]" by (simp add: sorted_list_of_set_insert_remove insort_key.simps)
  with r sl0 show ?thesis by (auto simp: numeral_3_eq_3)
qed

end
