(* ===== verification/LdbStatus.thy ===== *)
theory LdbStatus
  imports LdbCoding
begin

text \<open>
  The status values of leveldb (include/leveldb/status.h, util/status.cc). A status is the array
  \<open>state_\<close>: a length, a code and a message, or null for success. The codes are bytes, because the
  code casts a byte of the array to the enum. The size of the array is computed in 32 bits; writing
  or reading past it is \<open>None\<close>.
\<close>

type_synonym Status = "byte list option"

abbreviation (input) kOk :: byte where "kOk \<equiv> 0"
abbreviation (input) kNotFound :: byte where "kNotFound \<equiv> 1"
abbreviation (input) kCorruption :: byte where "kCorruption \<equiv> 2"
abbreviation (input) kNotSupported :: byte where "kNotSupported \<equiv> 3"
abbreviation (input) kInvalidArgument :: byte where "kInvalidArgument \<equiv> 4"
abbreviation (input) kIOError :: byte where "kIOError \<equiv> 5"

text \<open>The bytes of a string literal.\<close>

definition lit :: "string \<Rightarrow> byte list" where
  "lit s = map (\<lambda>c. of_nat (of_char c)) s"

definition new_Status :: "byte \<Rightarrow> slice \<Rightarrow> slice \<Rightarrow> Status option" where
  "new_Status code msg msg2 =
     (if code = kOk then None
      else
        let len1 = (of_nat (length msg) :: u32);
            len2 = (of_nat (length msg2) :: u32);
            size = len1 + (if len2 \<noteq> 0 then 2 + len2 else 0);
            result = EncodeFixed32 size @ [code] @ take (unat len1) msg
              @ (if len2 \<noteq> 0 then lit '': '' @ take (unat len2) msg2 else [])
        in if length result \<le> unat (size + 5) then Some (Some result) else None)"

definition CopyState :: "byte list \<Rightarrow> byte list option" where
  "CopyState state = do {
     size \<leftarrow> DecodeFixed32 state;
     if unat (size + 5) \<le> length state then Some (take (unat (size + 5)) state) else None
   }"

definition copy_Status :: "Status \<Rightarrow> Status option" where
  "copy_Status s = (case s of None \<Rightarrow> Some None | Some st \<Rightarrow> do { r \<leftarrow> CopyState st; Some (Some r) })"

definition Status_OK :: Status where "Status_OK = None"

definition Status_NotFound :: "slice \<Rightarrow> slice \<Rightarrow> Status option" where
  "Status_NotFound msg msg2 = new_Status kNotFound msg msg2"

definition Status_Corruption :: "slice \<Rightarrow> slice \<Rightarrow> Status option" where
  "Status_Corruption msg msg2 = new_Status kCorruption msg msg2"

definition Status_NotSupported :: "slice \<Rightarrow> slice \<Rightarrow> Status option" where
  "Status_NotSupported msg msg2 = new_Status kNotSupported msg msg2"

definition Status_InvalidArgument :: "slice \<Rightarrow> slice \<Rightarrow> Status option" where
  "Status_InvalidArgument msg msg2 = new_Status kInvalidArgument msg msg2"

definition Status_IOError :: "slice \<Rightarrow> slice \<Rightarrow> Status option" where
  "Status_IOError msg msg2 = new_Status kIOError msg msg2"

definition Status_ok :: "Status \<Rightarrow> bool" where
  "Status_ok s \<longleftrightarrow> s = None"

definition Status_code :: "Status \<Rightarrow> byte option" where
  "Status_code s = (case s of None \<Rightarrow> Some kOk | Some st \<Rightarrow> nth_opt st 4)"

definition IsNotFound :: "Status \<Rightarrow> bool option" where
  "IsNotFound s = do { c \<leftarrow> Status_code s; Some (c = kNotFound) }"

definition IsCorruption :: "Status \<Rightarrow> bool option" where
  "IsCorruption s = do { c \<leftarrow> Status_code s; Some (c = kCorruption) }"

definition IsIOError :: "Status \<Rightarrow> bool option" where
  "IsIOError s = do { c \<leftarrow> Status_code s; Some (c = kIOError) }"

definition IsNotSupportedError :: "Status \<Rightarrow> bool option" where
  "IsNotSupportedError s = do { c \<leftarrow> Status_code s; Some (c = kNotSupported) }"

definition IsInvalidArgument :: "Status \<Rightarrow> bool option" where
  "IsInvalidArgument s = do { c \<leftarrow> Status_code s; Some (c = kInvalidArgument) }"

text \<open>The decimal digits that \<open>snprintf\<close> prints for an unsigned or a signed number.\<close>

fun decimal :: "nat \<Rightarrow> byte list" where
  "decimal n = (if n < 10 then [of_nat (48 + n)] else decimal (n div 10) @ [of_nat (48 + n mod 10)])"

declare decimal.simps [simp del]

definition signed_decimal :: "int \<Rightarrow> byte list" where
  "signed_decimal i = (if i < 0 then lit ''-'' @ decimal (nat (- i)) else decimal (nat i))"

definition Status_type :: "byte \<Rightarrow> byte list" where
  "Status_type code =
     (if code = kOk then lit ''OK''
      else if code = kNotFound then lit ''NotFound: ''
      else if code = kCorruption then lit ''Corruption: ''
      else if code = kNotSupported then lit ''Not implemented: ''
      else if code = kInvalidArgument then lit ''Invalid argument: ''
      else if code = kIOError then lit ''IO error: ''
      else lit ''Unknown code('' @ signed_decimal (sint code) @ lit ''): '')"

definition Status_ToString :: "Status \<Rightarrow> byte list option" where
  "Status_ToString s =
     (case s of None \<Rightarrow> Some (lit ''OK'')
      | Some st \<Rightarrow> do {
          code \<leftarrow> Status_code s;
          len \<leftarrow> DecodeFixed32 st;
          if 5 + unat len \<le> length st then Some (Status_type code @ take (unat len) (drop 5 st)) else None
        })"

section \<open>What a status keeps\<close>

text \<open>The text of the two parts of a message, and the sizes for which it fits.\<close>

definition message_text :: "slice \<Rightarrow> slice \<Rightarrow> byte list" where
  "message_text msg msg2 = msg @ (if msg2 = [] then [] else lit '': '' @ msg2)"

lemma length_lit [simp]: "length (lit s) = length s"
  by (simp add: lit_def)

lemma unat_plus_5: "n + 5 < 2 ^ 32 \<Longrightarrow> unat (of_nat n + 5 :: u32) = n + 5"
proof -
  assume "n + 5 < 2 ^ 32"
  then have "n + 5 < 2 ^ LENGTH(32)" by simp
  from unat_of_nat_small [OF this] show ?thesis by (simp only: of_nat_add of_nat_numeral)
qed

lemma new_Status_fits:
  assumes "code \<noteq> kOk" and small: "length msg + length msg2 + 7 < 2 ^ 32"
  shows "new_Status code msg msg2 =
    Some (Some (EncodeFixed32 (of_nat (length (message_text msg msg2))) @ code # message_text msg msg2))"
proof -
  have l: "unat (of_nat (length msg) :: u32) = length msg" "unat (of_nat (length msg2) :: u32) = length msg2"
    using small by (simp_all add: unat_of_nat_small)
  have z: "(of_nat (length msg2) :: u32) \<noteq> 0 \<longleftrightarrow> msg2 \<noteq> []"
    using l(2) by (metis length_0_conv unat_0 word_unat_eq_iff)
  define n where "n = length (message_text msg msg2)"
  have n: "n + 5 < 2 ^ 32" using small by (simp add: n_def message_text_def)
  have sz: "(of_nat (length msg) :: u32) + (if (of_nat (length msg2) :: u32) \<noteq> 0 then 2 + of_nat (length msg2) else 0) = of_nat n"
    unfolding z by (simp add: n_def message_text_def)
  note u5 = unat_plus_5 [OF n]
  have r: "EncodeFixed32 (of_nat n) @ [code] @ take (length msg) msg
      @ (if msg2 \<noteq> [] then lit '': '' @ take (length msg2) msg2 else []) =
      EncodeFixed32 (of_nat n) @ code # message_text msg msg2" by (simp add: message_text_def)
  have len: "length (EncodeFixed32 (of_nat n) @ code # message_text msg msg2) = n + 5" by (simp add: n_def)
  show ?thesis
    unfolding new_Status_def Let_def unfolding sz unfolding l z unfolding r len u5 if_not_P [OF assms(1)] n_def [symmetric]
    by simp
qed

lemma EncodeFixed32_parts: "DecodeFixed32 (EncodeFixed32 v @ rest) = Some v" "(EncodeFixed32 v @ rest) ! 4 = rest ! 0"
  by (simp_all add: DecodeFixed32_Encode nth_append)

text \<open>
  A status made of a code and a message keeps both: the predicates tell the code, a copy is
  the same status, and the printed form is the name of the code with the two parts of the
  message, which are joined by a colon. The sizes are computed in 32 bits, so this needs a
  message that fits.
\<close>

theorem status_keeps:
  assumes "code \<in> {kNotFound, kCorruption, kNotSupported, kInvalidArgument, kIOError}"
    and "length msg + length msg2 + 7 < 2 ^ 32"
  shows "\<exists>s. new_Status code msg msg2 = Some s \<and> \<not> Status_ok s \<and> Status_code s = Some code \<and>
    copy_Status s = Some s \<and> Status_ToString s = Some (Status_type code @ message_text msg msg2)"
proof -
  let ?t = "message_text msg msg2"
  have n: "length ?t + 5 < 2 ^ 32" using assms(2) by (simp add: message_text_def)
  have u: "unat (of_nat (length ?t) :: u32) = length ?t" using n by (simp add: unat_of_nat_small)
  note u5 = unat_plus_5 [OF n]
  have "code \<noteq> kOk" using assms(1) by auto
  note new = new_Status_fits [OF this assms(2)]
  let ?st = "EncodeFixed32 (of_nat (length ?t)) @ code # ?t"
  have "Status_code (Some ?st) = Some code" by (simp add: Status_code_def EncodeFixed32_parts(2))
  moreover have "copy_Status (Some ?st) = Some (Some ?st)"
    unfolding copy_Status_def CopyState_def option.case EncodeFixed32_parts(1) bind.simps(2) u5 by simp
  moreover have "Status_ToString (Some ?st) = Some (Status_type code @ ?t)"
    unfolding Status_ToString_def option.case \<open>Status_code (Some ?st) = Some code\<close> EncodeFixed32_parts(1) bind.simps(2) u
    by simp
  ultimately show ?thesis using new by (auto simp: Status_ok_def)
qed

theorem status_keeps_witness:
  "\<exists>s. new_Status kIOError (lit ''a.log'') (lit ''disk full'') = Some s \<and>
     Status_ToString s = Some (lit ''IO error: a.log: disk full'')"
proof -
  have "Status_type kIOError @ message_text (lit ''a.log'') (lit ''disk full'') = lit ''IO error: a.log: disk full''"
    by (simp add: Status_type_def message_text_def lit_def)
  then show ?thesis using status_keeps [of kIOError "lit ''a.log''" "lit ''disk full''"] by auto
qed

end
