(* ===== verification/LdbMemTable.thy ===== *)
theory LdbMemTable
  imports LdbFormat LdbSkipListInsert LdbStatus
begin

text \<open>
  The memtable of leveldb (db/memtable.h, db/memtable.cc): a skip list of entries, each an internal key
  and a value, both with their length in front. An entry is the pointer to it, that is the bytes
  from there to the end of the object (see \<open>LdbCoding\<close>). A lookup finds the newest entry of a user key
  that is not newer than the snapshot it asks for. The arena that holds the entries
  is not modelled; an entry is its bytes.
\<close>

section \<open>Entries\<close>

text \<open>The slice at a pointer, and the pointer behind it.\<close>

definition entry_slice :: "byte list \<Rightarrow> (slice \<times> byte list) option" where
  "entry_slice data = do {
     r \<leftarrow> GetVarint32Ptr data 5;
     case r of None \<Rightarrow> None
     | Some (len, p) \<Rightarrow> if unat len \<le> length p then Some (take (unat len) p, drop (unat len) p) else None
   }"

definition mt_KeyComparator :: "Comparator \<Rightarrow> byte list \<Rightarrow> byte list \<Rightarrow> int option" where
  "mt_KeyComparator user_comparator aptr bptr = do {
     (a, _) \<leftarrow> entry_slice aptr;
     (b, _) \<leftarrow> entry_slice bptr;
     Compare (InternalKeyComparator user_comparator) a b
   }"

definition EncodeKey :: "slice \<Rightarrow> byte list" where
  "EncodeKey target = PutVarint32 [] (of_nat (length target)) @ target"

section \<open>The table\<close>

record MemTable =
  mt_refs :: int
  mt_table :: "byte list skiplist"

definition new_MemTable :: "MemTable option" where
  "new_MemTable = do { t \<leftarrow> new_SkipList []; Some \<lparr>mt_refs = 0, mt_table = t\<rparr> }"

definition MemTable_Ref :: "MemTable \<Rightarrow> MemTable" where
  "MemTable_Ref m = m\<lparr>mt_refs := mt_refs m + 1\<rparr>"

text \<open>The result is the table, or \<open>None\<close> inside when it was deleted, whose destructor has an assertion too.\<close>

definition MemTable_Unref :: "MemTable \<Rightarrow> MemTable option option" where
  "MemTable_Unref m =
     (let m' = m\<lparr>mt_refs := mt_refs m - 1\<rparr> in
      if \<not> mt_refs m' \<ge> 0 then None
      else if mt_refs m' \<le> 0 then (if mt_refs m' = 0 then Some None else None)
      else Some (Some m'))"

definition MemTable_Add :: "Comparator \<Rightarrow> MemTable \<Rightarrow> SequenceNumber \<Rightarrow> ValueType \<Rightarrow> slice \<Rightarrow> slice \<Rightarrow> MemTable option" where
  "MemTable_Add c m s type key value =
     (let key_size = length key;
          val_size = length value;
          internal_key_size = key_size + 8;
          encoded_len = VarintLength (of_nat internal_key_size) + internal_key_size
            + VarintLength (of_nat val_size) + val_size;
          buf = EncodeVarint32 (of_nat internal_key_size) @ key @ EncodeFixed64 (push_bit 8 s OR ucast type)
            @ EncodeVarint32 (of_nat val_size) @ value
      in if length buf = encoded_len
         then do { t \<leftarrow> Insert (mt_KeyComparator c) (mt_table m) buf; Some (m\<lparr>mt_table := t\<rparr>) }
         else None)"

text \<open>The result of \<open>Get\<close> with the value and the status it leaves in the variables of the caller.\<close>

definition MemTable_Get :: "Comparator \<Rightarrow> MemTable \<Rightarrow> LookupKey \<Rightarrow> slice \<Rightarrow> Status \<Rightarrow> (bool \<times> slice \<times> Status) option" where
  "MemTable_Get c m key value s = do {
     let memkey = memtable_key key;
     iter \<leftarrow> Iterator_Seek (mt_KeyComparator c) (mt_table m) memkey;
     if Iterator_Valid iter then do {
       entry \<leftarrow> Iterator_key (mt_table m) iter;
       r \<leftarrow> GetVarint32Ptr entry 5;
       case r of None \<Rightarrow> None
       | Some (key_length, key_ptr) \<Rightarrow>
           if \<not> (8 \<le> unat key_length \<and> unat key_length \<le> length key_ptr) then None
           else do {
             cmp \<leftarrow> Compare c (take (unat key_length - 8) key_ptr) (user_key key);
             if cmp = 0 then do {
               tag \<leftarrow> DecodeFixed64 (drop (unat key_length - 8) key_ptr);
               let type = (ucast (tag AND 0xFF) :: byte);
               if type = kTypeValue then do {
                 (v, _) \<leftarrow> entry_slice (drop (unat key_length) key_ptr);
                 Some (True, v, s)
               }
               else if type = kTypeDeletion then do { s' \<leftarrow> Status_NotFound [] []; Some (True, value, s') }
               else Some (False, value, s)
             }
             else Some (False, value, s)
           }
     }
     else Some (False, value, s)
   }"

section \<open>The iterator over a table\<close>

definition mt_Seek :: "Comparator \<Rightarrow> MemTable \<Rightarrow> slice \<Rightarrow> sl_iterator option" where
  "mt_Seek c m k = Iterator_Seek (mt_KeyComparator c) (mt_table m) (EncodeKey k)"

definition mt_SeekToFirst :: "MemTable \<Rightarrow> sl_iterator option" where
  "mt_SeekToFirst m = Iterator_SeekToFirst (mt_table m)"

definition mt_SeekToLast :: "MemTable \<Rightarrow> sl_iterator option" where
  "mt_SeekToLast m = Iterator_SeekToLast (mt_table m)"

definition mt_Next :: "MemTable \<Rightarrow> sl_iterator \<Rightarrow> sl_iterator option" where
  "mt_Next m it = Iterator_Next (mt_table m) it"

definition mt_Prev :: "Comparator \<Rightarrow> MemTable \<Rightarrow> sl_iterator \<Rightarrow> sl_iterator option" where
  "mt_Prev c m it = Iterator_Prev (mt_KeyComparator c) (mt_table m) it"

definition mt_key :: "MemTable \<Rightarrow> sl_iterator \<Rightarrow> slice option" where
  "mt_key m it = do { e \<leftarrow> Iterator_key (mt_table m) it; (k, _) \<leftarrow> entry_slice e; Some k }"

definition mt_value :: "MemTable \<Rightarrow> sl_iterator \<Rightarrow> slice option" where
  "mt_value m it = do {
     e \<leftarrow> Iterator_key (mt_table m) it;
     (_, p) \<leftarrow> entry_slice e;
     (v, _) \<leftarrow> entry_slice p;
     Some v
   }"

section \<open>Entries as data\<close>

text \<open>What an entry stands for: user key, sequence number, type and value.\<close>

type_synonym mt_entry = "slice \<times> SequenceNumber \<times> ValueType \<times> slice"

fun entry_key :: "mt_entry \<Rightarrow> slice" where
  "entry_key (u, s, t, v) = ikey u s t"

fun entry_bytes :: "mt_entry \<Rightarrow> byte list" where
  "entry_bytes (u, s, t, v) = PutLengthPrefixedSlice [] (ikey u s t) @ PutLengthPrefixedSlice [] v"

fun good_entry :: "(slice \<Rightarrow> bool) \<Rightarrow> mt_entry \<Rightarrow> bool" where
  "good_entry valid (u, s, t, v) \<longleftrightarrow> valid u \<and> s \<le> kMaxSequenceNumber \<and> t \<le> kTypeValue \<and>
     length u + 8 < 2 ^ 32 \<and> length v < 2 ^ 32"

text \<open>The keys on which the comparator of the skip list works: an internal key with its length, then anything.\<close>

definition valid_ptr :: "(slice \<Rightarrow> bool) \<Rightarrow> byte list \<Rightarrow> bool" where
  "valid_ptr valid p \<longleftrightarrow> (\<exists>k rest. entry_slice p = Some (k, rest) \<and> valid_internal valid k)"

lemma entry_slice_Put: "length k < 2 ^ 32 \<Longrightarrow> entry_slice (PutLengthPrefixedSlice [] k @ rest) = Some (k, rest)"
  by (simp add: entry_slice_def PutLengthPrefixedSlice_def PutVarint32_def GetVarint32Ptr_Encode EncodeVarint32_five
      unat_of_nat_small)

lemma entry_slice_bytes: "good_entry valid e \<Longrightarrow>
    entry_slice (entry_bytes e) = Some (entry_key e, PutLengthPrefixedSlice [] (snd (snd (snd e))))"
  by (cases e) (simp add: entry_slice_Put)

lemma valid_ptr_bytes: "good_entry valid e \<Longrightarrow> valid_ptr valid (entry_bytes e)"
  by (cases e) (auto simp: valid_ptr_def entry_slice_Put valid_internal_def)

lemma valid_ptr_target: "valid_internal valid k \<Longrightarrow> length k < 2 ^ 32 \<Longrightarrow> valid_ptr valid (PutLengthPrefixedSlice [] k)"
  using entry_slice_Put [of k "[]"] by (auto simp: valid_ptr_def)

lemma less_ptr:
  assumes "entry_slice p = Some (a, pr)" and "entry_slice q = Some (b, qr)"
  shows "less_key (mt_KeyComparator c) p q = less_key (internal_Compare c) a b"
    and "same_key (mt_KeyComparator c) p q = same_key (internal_Compare c) a b"
  using assms by (simp_all add: less_key_def same_key_def mt_KeyComparator_def InternalKeyComparator_def)

sublocale internal_keys \<subseteq> table: comparator "mt_KeyComparator c" "valid_ptr valid"
proof
  fix p q x :: "byte list" and r s :: int
  assume p: "valid_ptr valid p" and q: "valid_ptr valid q"
  obtain a pr where a: "entry_slice p = Some (a, pr)" "valid_internal valid a" using p by (auto simp: valid_ptr_def)
  obtain b qr where b: "entry_slice q = Some (b, qr)" "valid_internal valid b" using q by (auto simp: valid_ptr_def)
  show "\<exists>r. mt_KeyComparator c p q = Some r"
    using internal.cmp_defined [OF a(2) b(2)] by (simp add: mt_KeyComparator_def a b)
  show "\<exists>r'. mt_KeyComparator c q p = Some r' \<and> sgn r' = - sgn r" if "mt_KeyComparator c p q = Some r"
    using internal.cmp_swap [OF a(2) b(2)] that by (simp add: mt_KeyComparator_def a b)
  show "\<exists>t. mt_KeyComparator c p x = Some t \<and> t \<le> 0 \<and> (r < 0 \<or> s < 0 \<longrightarrow> t < 0)"
    if x: "valid_ptr valid x" and *: "mt_KeyComparator c p q = Some r" "mt_KeyComparator c q x = Some s" "r \<le> 0" "s \<le> 0"
  proof -
    obtain d xr where d: "entry_slice x = Some (d, xr)" "valid_internal valid d" using x by (auto simp: valid_ptr_def)
    show ?thesis using internal.cmp_trans [OF a(2) b(2) d(2)] * by (simp add: mt_KeyComparator_def a b d)
  qed
qed

section \<open>What a table holds\<close>

definition mt_holds :: "Comparator \<Rightarrow> (slice \<Rightarrow> bool) \<Rightarrow> MemTable \<Rightarrow> mt_entry set \<Rightarrow> bool" where
  "mt_holds c valid m E \<longleftrightarrow> (\<exists>es. sl_repr (mt_KeyComparator c) (valid_ptr valid) (mt_table m) (map entry_bytes es) \<and>
     (\<forall>e \<in> set es. good_entry valid e) \<and> set es = E)"

text \<open>The entries of a user key that a snapshot sees.\<close>

definition visible :: "Comparator \<Rightarrow> slice \<Rightarrow> SequenceNumber \<Rightarrow> mt_entry set \<Rightarrow> mt_entry set" where
  "visible c u s E = {e \<in> E. same_key (Compare c) u (fst e) \<and> fst (snd e) \<le> s}"

lemma new_MemTable_holds: "\<exists>m. new_MemTable = Some m \<and> mt_holds c valid m {}"
  using new_SkipList_repr [of "[] :: slice" "mt_KeyComparator c" "valid_ptr valid"]
  by (auto simp: new_MemTable_def mt_holds_def)

lemma Add_run:
  assumes "good_entry valid (u, s, t, v)"
  shows "MemTable_Add c m s t u v =
    do { tb \<leftarrow> Insert (mt_KeyComparator c) (mt_table m) (entry_bytes (u, s, t, v)); Some (m\<lparr>mt_table := tb\<rparr>) }"
proof -
  have wide: "EncodeVarint64 (of_nat n) = EncodeVarint32 (of_nat n)" if "n < 2 ^ 32" for n
  proof -
    have "(ucast (of_nat n :: u32) :: u64) = of_nat n"
      using that by (simp add: word_unat_eq_iff unat_ucast_mod unat_of_nat)
    then show ?thesis by (simp only: EncodeVarint32_loop)
  qed
  have "EncodeVarint32 (of_nat (length u + 8)) @ u @ EncodeFixed64 (push_bit 8 s OR ucast t) @
      EncodeVarint32 (of_nat (length v)) @ v = entry_bytes (u, s, t, v)"
    by (simp add: PutLengthPrefixedSlice_def PutVarint32_def ikey_def tag_of_def)
  moreover have "length (entry_bytes (u, s, t, v)) =
      VarintLength (of_nat (length u + 8)) + (length u + 8) + VarintLength (of_nat (length v)) + length v"
    using assms wide [of "length u + 8"] wide [of "length v"]
    by (simp add: PutLengthPrefixedSlice_def PutVarint32_def VarintLength_loop del: of_nat_add)
  ultimately show ?thesis unfolding MemTable_Add_def Let_def by (simp del: of_nat_add)
qed

context internal_keys
begin

lemma less_entry:
  assumes "good_entry valid (u, s, t, v)" and "good_entry valid (u', s', t', v')"
  shows "less_key (mt_KeyComparator c) (entry_bytes (u, s, t, v)) (entry_bytes (u', s', t', v')) \<longleftrightarrow>
      less_key (Compare c) u u' \<or> same_key (Compare c) u u' \<and> (s' < s \<or> s' = s \<and> t' < t)"
    and "same_key (mt_KeyComparator c) (entry_bytes (u, s, t, v)) (entry_bytes (u', s', t', v')) \<longleftrightarrow>
      same_key (Compare c) u u' \<and> s = s' \<and> t = t'"
proof -
  have k: "s \<le> kMaxSequenceNumber" "s' \<le> kMaxSequenceNumber" using assms by simp_all
  show "less_key (mt_KeyComparator c) (entry_bytes (u, s, t, v)) (entry_bytes (u', s', t', v')) \<longleftrightarrow>
      less_key (Compare c) u u' \<or> same_key (Compare c) u u' \<and> (s' < s \<or> s' = s \<and> t' < t)"
    using less_ptr(1) [OF entry_slice_bytes [OF assms(1)] entry_slice_bytes [OF assms(2)]] tag_of_less [OF k(2,1)]
    by (simp add: less_internal)
  have "same_key (internal_Compare c) (ikey u s t) (ikey u' s' t') \<longleftrightarrow> same_key (Compare c) u u' \<and> tag_of s t = tag_of s' t'"
    by (cases "Compare c u u'") (auto simp: same_key_def internal_Compare_eq tag_order_def)
  then show "same_key (mt_KeyComparator c) (entry_bytes (u, s, t, v)) (entry_bytes (u', s', t', v')) \<longleftrightarrow>
      same_key (Compare c) u u' \<and> s = s' \<and> t = t'"
    using less_ptr(2) [OF entry_slice_bytes [OF assms(1)] entry_slice_bytes [OF assms(2)]] tag_of_eq [OF k] by simp
qed

lemma less_target:
  assumes "good_entry valid (u', s', t', v')" and "valid u" and "s \<le> kMaxSequenceNumber" and "length u + 8 < 2 ^ 32"
  shows "less_key (mt_KeyComparator c) (entry_bytes (u', s', t', v')) (PutLengthPrefixedSlice [] (ikey u s kValueTypeForSeek)) \<longleftrightarrow>
    less_key (Compare c) u' u \<or> same_key (Compare c) u' u \<and> s < s'"
proof -
  have t: "\<not> 1 < t'" using assms(1) by (simp add: not_less)
  have "entry_slice (PutLengthPrefixedSlice [] (ikey u s kValueTypeForSeek)) = Some (ikey u s kValueTypeForSeek, [])"
    using entry_slice_Put [of "ikey u s kValueTypeForSeek" "[]"] assms(4) by simp
  then show ?thesis
    using less_ptr(1) [OF entry_slice_bytes [OF assms(1)]] tag_of_less [OF assms(3), of s' 1 t'] assms(1) t
    by (simp add: less_internal)
qed

lemma Add_holds:
  assumes "mt_holds c valid m E" and good: "good_entry valid (u, s, t, v)"
  shows "if \<exists>e \<in> E. same_key (Compare c) u (fst e) \<and> fst (snd e) = s \<and> fst (snd (snd e)) = t
    then MemTable_Add c m s t u v = None
    else \<exists>m'. MemTable_Add c m s t u v = Some m' \<and> mt_holds c valid m' (insert (u, s, t, v) E)"
proof -
  let ?cmp = "mt_KeyComparator c" and ?e = "entry_bytes (u, s, t, v)"
  obtain es where es: "sl_repr ?cmp (valid_ptr valid) (mt_table m) (map entry_bytes es)"
    "\<forall>e \<in> set es. good_entry valid e" "set es = E" using assms(1) by (auto simp: mt_holds_def)
  have v: "valid_ptr valid ?e" by (rule valid_ptr_bytes [OF good])
  have same: "same_key ?cmp ?e (entry_bytes e) \<longleftrightarrow> same_key (Compare c) u (fst e) \<and> fst (snd e) = s \<and> fst (snd (snd e)) = t"
    if "e \<in> E" for e
    using less_entry(2) [OF good, of "fst e" "fst (snd e)" "fst (snd (snd e))" "snd (snd (snd e))"] es(2,3) that by auto
  show ?thesis
  proof (cases "\<exists>k \<in> set (map entry_bytes es). same_key ?cmp ?e k")
    case True
    then have "Insert ?cmp (mt_table m) ?e = None" by (rule table.Insert_duplicate [OF es(1) v])
    then have "MemTable_Add c m s t u v = None" using Add_run [OF good] by simp
    then show ?thesis using True same es(3) by auto
  next
    case False
    obtain tb where tb: "Insert ?cmp (mt_table m) ?e = Some tb"
      "sl_repr ?cmp (valid_ptr valid) tb (insert_sorted ?cmp ?e (map entry_bytes es))"
      using table.Insert_repr [OF es(1) v False] by blast
    let ?es = "takeWhile (\<lambda>x. less_key ?cmp (entry_bytes x) ?e) es @ (u, s, t, v) #
        dropWhile (\<lambda>x. less_key ?cmp (entry_bytes x) ?e) es"
    have "insert_sorted ?cmp ?e (map entry_bytes es) = map entry_bytes ?es"
      by (simp add: insert_sorted_def map_before [symmetric])
    moreover have set: "set ?es = insert (u, s, t, v) E" unfolding set_around es(3) ..
    moreover have "\<forall>e \<in> set ?es. good_entry valid e" unfolding set using es(2,3) good by blast
    ultimately have "mt_holds c valid (m\<lparr>mt_table := tb\<rparr>) (insert (u, s, t, v) E)"
      unfolding mt_holds_def using tb(2) by (intro exI [of _ ?es]) simp
    moreover have "MemTable_Add c m s t u v = Some (m\<lparr>mt_table := tb\<rparr>)" using Add_run [OF good] tb(1) by simp
    moreover have "\<not> (\<exists>e \<in> E. same_key (Compare c) u (fst e) \<and> fst (snd e) = s \<and> fst (snd (snd e)) = t)"
      using False same es(3) by auto
    ultimately show ?thesis by (simp only: if_False) blast
  qed
qed


lemma Get_at_entry:
  assumes k: "memtable_key k = T" "user_key k = u"
    and it: "Iterator_Seek (mt_KeyComparator c) (mt_table m) T = Some it" "Iterator_Valid it"
      "Iterator_key (mt_table m) it = Some (entry_bytes (u', s', t', v'))"
    and good: "good_entry valid (u', s', t', v')"
  shows "MemTable_Get c m k v0 st0 = do {
      r \<leftarrow> Compare c u' u;
      if r = 0 then (if t' = kTypeValue then Some (True, v', st0) else do { st \<leftarrow> Status_NotFound [] []; Some (True, v0, st) })
      else Some (False, v0, st0) }"
proof -
  let ?n = "of_nat (length u' + 8) :: u32" and ?rest = "PutLengthPrefixedSlice [] v'"
  have n: "unat ?n = length u' + 8" using good by (intro unat_of_nat_small) simp
  have "entry_bytes (u', s', t', v') = EncodeVarint32 ?n @ (ikey u' s' t' @ ?rest)"
    by (simp add: PutLengthPrefixedSlice_def PutVarint32_def)
  then have g: "GetVarint32Ptr (entry_bytes (u', s', t', v')) 5 = Some (Some (?n, ikey u' s' t' @ ?rest))"
    by (simp only: GetVarint32Ptr_Encode [OF EncodeVarint32_five])
  define K where "K = ikey u' s' t' @ ?rest"
  have "take (length u') K = u'" "length u' + 8 \<le> length K" "DecodeFixed64 (drop (length u') K) = Some (tag_of s' t')"
    by (simp_all add: K_def ikey_def DecodeFixed64_Encode)
  moreover have "entry_slice (drop (length u' + 8) K) = Some (v', [])"
    using entry_slice_Put [of v' "[]"] good by (simp add: K_def)
  moreover have "ucast (tag_of s' t' AND 0xFF) = t'" using good pack_parts(2) [of s' t'] by (simp add: tag_of_def)
  moreover have "t' = kTypeDeletion" if "t' \<noteq> kTypeValue"
    using good that by (simp add: word_le_nat_alt word_unat_eq_iff)
  ultimately show ?thesis
    unfolding MemTable_Get_def Let_def k it(1) bind.simps(2) it(3) g option.case prod.case n K_def [symmetric]
    by (cases "Compare c u' u") (auto simp: it(2))
qed

text \<open>Entries before the target of a lookup are not visible; the first that is not before it decides.\<close>

lemma before_not_visible:
  assumes good: "good_entry valid e" and u: "valid u" "s \<le> kMaxSequenceNumber" "length u + 8 < 2 ^ 32"
    and less: "less_key (mt_KeyComparator c) (entry_bytes e) (PutLengthPrefixedSlice [] (ikey u s kValueTypeForSeek))"
  shows "e \<notin> visible c u s E"
proof -
  obtain u' s' t' v' where e: "e = (u', s', t', v')" by (cases e)
  have "less_key (Compare c) u' u \<or> same_key (Compare c) u' u \<and> s < s'" "valid u'"
    using less_target [OF _ u] less good unfolding e by auto
  then show ?thesis using less_cases [OF u(1), of u'] unfolding e visible_def by (auto simp: not_le)
qed

lemma first_decides:
  assumes u: "valid u" "s \<le> kMaxSequenceNumber" "length u + 8 < 2 ^ 32"
    and e: "e = (u', s', t', v')" and E: "set es = E" "es = as @ e # bs" "\<forall>e \<in> E. good_entry valid e"
    and sorted: "sorted_wrt (less_key (mt_KeyComparator c)) (map entry_bytes es)"
    and as: "\<forall>e \<in> set as. less_key (mt_KeyComparator c) (entry_bytes e) (PutLengthPrefixedSlice [] (ikey u s kValueTypeForSeek))"
    and first: "\<not> less_key (mt_KeyComparator c) (entry_bytes e) (PutLengthPrefixedSlice [] (ikey u s kValueTypeForSeek))"
  shows "if same_key (Compare c) u' u
    then e \<in> visible c u s E \<and> (\<forall>(_, s'', t'', _) \<in> visible c u s E. s'' < s' \<or> s'' = s' \<and> t'' \<le> t')
    else visible c u s E = {}"
proof -
  have good: "good_entry valid (u', s', t', v')" and inE: "e \<in> E" using E e by auto
  then have vu': "valid u'" by simp
  have ge: "\<not> less_key (Compare c) u' u" "same_key (Compare c) u' u \<Longrightarrow> s' \<le> s"
    using less_target [OF good u] first e by (auto simp: not_less)
  have later: "(less_key (Compare c) u' u'' \<or> same_key (Compare c) u' u'' \<and> (s'' < s' \<or> s'' = s' \<and> t'' < t')) \<and>
    valid u'' \<and> same_key (Compare c) u u''"
    if "(u'', s'', t'', v'') \<in> visible c u s E" "(u'', s'', t'', v'') \<noteq> e" for u'' s'' t'' v''
  proof -
    have x: "(u'', s'', t'', v'') \<in> E" "same_key (Compare c) u u''" using that by (simp_all add: visible_def)
    then have g: "good_entry valid (u'', s'', t'', v'')" using E(3) by blast
    have "(u'', s'', t'', v'') \<notin> set as" using before_not_visible [OF g u] as that(1) by blast
    then have "(u'', s'', t'', v'') \<in> set bs" using x(1) that(2) E(1,2) by auto
    then have "less_key (mt_KeyComparator c) (entry_bytes e) (entry_bytes (u'', s'', t'', v''))"
      using sorted E(2) by (auto simp: sorted_wrt_append simp del: entry_bytes.simps)
    then show ?thesis using less_entry(1) [OF good g] e g x(2) by simp
  qed
  show ?thesis
  proof (cases "same_key (Compare c) u' u")
    case True
    have "e \<in> visible c u s E" using inE ge(2) [OF True] same_sym [OF vu' u(1) True] by (simp add: visible_def e)
    moreover have "s'' < s' \<or> s'' = s' \<and> t'' \<le> t'" if x: "(u'', s'', t'', v'') \<in> visible c u s E" for u'' s'' t'' v''
    proof (cases "(u'', s'', t'', v'') = e")
      case False
      note l = later [OF x False]
      then have "\<not> less_key (Compare c) u' u''" using ge(1) less_same_trans [OF vu' _ u(1)] same_sym [OF u(1)] by blast
      with l show ?thesis by auto
    qed (simp add: e)
    ultimately show ?thesis using True by auto
  next
    case False
    then have less: "less_key (Compare c) u u'" using less_cases [OF vu' u(1)] ge(1) by metis
    have "x \<notin> visible c u s E" for x
    proof
      assume x: "x \<in> visible c u s E"
      obtain u'' s'' t'' v'' where x': "x = (u'', s'', t'', v'')" by (cases x)
      have "same_key (Compare c) u u'' \<and> valid u'' \<and> less_key (Compare c) u u''"
      proof (cases "x = e")
        case True
        then show ?thesis using x less vu' by (simp add: visible_def x' e)
      next
        case False
        then show ?thesis using later [of u'' s'' t'' v''] x x' less less_trans [OF u(1) vu'] less_same_trans [OF u(1) vu']
          by blast
      qed
      then show False using less_cases [OF u(1), of u''] by blast
    qed
    then show ?thesis using False by auto
  qed
qed

lemma Get_holds:
  assumes "mt_holds c valid m E" and u: "valid u" "s \<le> kMaxSequenceNumber" "length u + 8 < 2 ^ 32"
    and k: "memtable_key k = PutLengthPrefixedSlice [] (ikey u s kValueTypeForSeek)" "user_key k = u"
  shows "if visible c u s E = {} then MemTable_Get c m k v0 st0 = Some (False, v0, st0)
    else \<exists>(u', s', t', v') \<in> visible c u s E.
      (\<forall>(_, s'', t'', _) \<in> visible c u s E. s'' < s' \<or> s'' = s' \<and> t'' \<le> t') \<and>
      MemTable_Get c m k v0 st0 = (if t' = kTypeValue then Some (True, v', st0)
        else do { st \<leftarrow> Status_NotFound [] []; Some (True, v0, st) })"
proof -
  let ?cmp = "mt_KeyComparator c" and ?T = "PutLengthPrefixedSlice [] (ikey u s kValueTypeForSeek)"
  let ?P = "\<lambda>x. less_key ?cmp (entry_bytes x) ?T"
  obtain es where es: "sl_repr ?cmp (valid_ptr valid) (mt_table m) (map entry_bytes es)"
    "\<forall>e \<in> E. good_entry valid e" "set es = E" using assms(1) by (auto simp: mt_holds_def)
  have vT: "valid_ptr valid ?T" using u by (intro valid_ptr_target) (simp_all add: valid_internal_def)
  obtain it where it: "Iterator_Seek ?cmp (mt_table m) ?T = Some it"
    "iterator_at ?cmp (valid_ptr valid) (mt_table m) (map entry_bytes es) (length (keys_before ?cmp ?T (map entry_bytes es))) it"
    using table.iterator_seek [OF es(1) vT] by blast
  have l: "length (keys_before ?cmp ?T (map entry_bytes es)) = length (takeWhile ?P es)"
    unfolding map_before(1) [symmetric] by simp
  note at = iterator_key [OF it(2) [unfolded l]]
  have as: "\<forall>e \<in> set (takeWhile ?P es). ?P e" by (blast dest: set_takeWhileD)
  show ?thesis
  proof (cases "dropWhile ?P es")
    case Nil
    then have all: "takeWhile ?P es = es" by (metis append_Nil2 takeWhile_dropWhile_id)
    have "visible c u s E \<subseteq> E" by (auto simp: visible_def)
    then have "visible c u s E = {}" using as before_not_visible [OF _ u] es(2,3) unfolding all by blast
    moreover have "\<not> Iterator_Valid it" using at all by simp
    ultimately show ?thesis using it(1) by (simp add: MemTable_Get_def k)
  next
    case (Cons e es')
    obtain u' s' t' v' where e: "e = (u', s', t', v')" by (cases e)
    have split: "es = takeWhile ?P es @ e # es'" using Cons by (metis takeWhile_dropWhile_id)
    then have good: "good_entry valid (u', s', t', v')" using es(2,3) e by (metis in_set_conv_decomp)
    have "length (takeWhile ?P es) < length es" "es ! length (takeWhile ?P es) = e"
      by (subst split, simp, metis split nth_append_length)
    then have valid: "Iterator_Valid it" "Iterator_key (mt_table m) it = Some (entry_bytes (u', s', t', v'))"
      using at e by auto
    have sorted: "sorted_wrt (less_key ?cmp) (map entry_bytes es)" using sl_repr_sorted [OF es(1)] by blast
    have "\<not> ?P e" using hd_dropWhile [of ?P es] Cons by simp
    note decides = first_decides [OF u e es(3) split es(2) sorted as this]
    obtain r where "Compare c u' u = Some r" using cmp_defined [OF _ u(1)] good by auto
    then show ?thesis using Get_at_entry [OF k it(1) valid good, of v0 st0] decides
      by (cases "r = 0") (auto simp: same_key_def e)
  qed
qed

end

section \<open>The properties\<close>

lemma internal_keysI: "key_comparator c valid \<Longrightarrow> internal_keys c valid"
  by (simp add: internal_keys_def)

text \<open>
  C27: The memtable refines a set of entries: adding an entry whose user key, sequence number and
  type are not those of an entry of the table puts it into the table; adding it a second time
  fails the assertion of the skip list.
\<close>

theorem memtable_add:
  assumes "key_comparator c valid" and "mt_holds c valid m E" and "good_entry valid (u, s, t, v)"
  shows "if \<exists>(u', s', t', v') \<in> E. same_key (Compare c) u u' \<and> s' = s \<and> t' = t
    then MemTable_Add c m s t u v = None
    else \<exists>m'. MemTable_Add c m s t u v = Some m' \<and> mt_holds c valid m' (insert (u, s, t, v) E)"
  using internal_keys.Add_holds [OF internal_keysI [OF assms(1)] assms(2,3)]
  by (simp add: case_prod_beta)

lemma bytewise_key_comparator: "key_comparator BytewiseComparator (\<lambda>_. True)" ..

lemma small_sequence: "s \<le> 1000 \<Longrightarrow> s \<le> kMaxSequenceNumber"
proof -
  assume "s \<le> 1000"
  moreover have "(1000 :: u64) \<le> kMaxSequenceNumber" by (simp add: kMaxSequenceNumber_def)
  ultimately show ?thesis by (rule order_trans)
qed

theorem memtable_add_witness:
  "\<exists>m m'. new_MemTable = Some m \<and> MemTable_Add BytewiseComparator m 5 1 [97] [120] = Some m' \<and>
    mt_holds BytewiseComparator (\<lambda>_. True) m' {([97], 5, 1, [120])}"
proof -
  obtain m where m: "new_MemTable = Some m" "mt_holds BytewiseComparator (\<lambda>_. True) m {}"
    using new_MemTable_holds by blast
  have "good_entry (\<lambda>_. True) ([97], 5, 1, [120])" by (simp add: small_sequence)
  from memtable_add [OF bytewise_key_comparator m(2) this] m(1) show ?thesis by auto
qed

lemma Get_result:
  assumes "key_comparator c valid" and "mt_holds c valid m E"
    and "valid u" and "s \<le> kMaxSequenceNumber" and "length u + 8 < 2 ^ 32"
  shows "\<exists>k r. new_LookupKey u s = Some k \<and> MemTable_Get c m k v0 st0 = Some r \<and>
    (if visible c u s E = {} then r = (False, v0, st0)
     else \<exists>(u', s', t', v') \<in> visible c u s E.
       (\<forall>(_, s'', t'', _) \<in> visible c u s E. s'' < s' \<or> s'' = s' \<and> t'' \<le> t') \<and>
       (if t' = kTypeValue then r = (True, v', st0) else \<exists>st. r = (True, v0, st) \<and> IsNotFound st = Some True))"
proof -
  obtain k where k: "new_LookupKey u s = Some k" "memtable_key k = PutLengthPrefixedSlice [] (ikey u s kValueTypeForSeek)"
    "user_key k = u" using LookupKey_parts [OF assms(4,5)] by blast
  obtain st where st: "Status_NotFound [] [] = Some st" "IsNotFound st = Some True"
    by (simp add: Status_NotFound_def new_Status_fits IsNotFound_def Status_code_def EncodeFixed32_parts(2))
  note get = internal_keys.Get_holds [OF internal_keysI [OF assms(1)] assms(2-5) k(2,3), of v0 st0]
  show ?thesis
  proof (cases "visible c u s E = {}")
    case True
    then show ?thesis using get k(1) by (intro exI [of _ k] exI [of _ "(False, v0, st0)"]) simp
  next
    case False
    from get [unfolded if_not_P [OF False]] obtain x where x: "x \<in> visible c u s E"
      "case x of (u', s', t', v') \<Rightarrow> (\<forall>(_, s'', t'', _) \<in> visible c u s E. s'' < s' \<or> s'' = s' \<and> t'' \<le> t') \<and>
        MemTable_Get c m k v0 st0 = (if t' = kTypeValue then Some (True, v', st0)
          else do { st \<leftarrow> Status_NotFound [] []; Some (True, v0, st) })" by blast
    obtain u' s' t' v' where e: "x = (u', s', t', v')" by (cases x)
    let ?r = "if t' = kTypeValue then (True, v', st0) else (True, v0, st)"
    have "MemTable_Get c m k v0 st0 = Some ?r" using x(2) st(1) by (simp add: e)
    then show ?thesis using False k(1) st(2) x by (intro exI [of _ k] exI [of _ ?r]) (auto simp: e intro!: bexI [of _ x])
  qed
qed

text \<open>
  C20: A lookup in the memtable at a snapshot returns the newest entry of the user key that is not
  newer than the snapshot: its value, or the status NotFound when it is a deletion; when there is
  none it returns false and leaves the variables of the caller alone. It never fails an assertion.
\<close>

theorem memtable_get:
  assumes "key_comparator c valid" and "mt_holds c valid m E"
    and "valid u" and "s \<le> kMaxSequenceNumber" and "length u + 8 < 2 ^ 32"
  shows "\<exists>k r. new_LookupKey u s = Some k \<and> MemTable_Get c m k v0 st0 = Some r \<and>
    (if visible c u s E = {} then r = (False, v0, st0)
     else \<exists>(u', s', t', v') \<in> visible c u s E.
       (\<forall>(_, s'', t'', _) \<in> visible c u s E. s'' < s' \<or> s'' = s' \<and> t'' \<le> t') \<and>
       (if t' = kTypeValue then r = (True, v', st0) else \<exists>st. r = (True, v0, st) \<and> IsNotFound st = Some True))"
  by (rule Get_result [OF assms])

theorem memtable_get_witness:
  "\<exists>m m1 m2 k. new_MemTable = Some m \<and> MemTable_Add BytewiseComparator m 5 1 [97] [120] = Some m1 \<and>
    MemTable_Add BytewiseComparator m1 7 1 [97] [121] = Some m2 \<and> new_LookupKey [97] 6 = Some k \<and>
    MemTable_Get BytewiseComparator m2 k [] None = Some (True, [120], None)"
proof -
  let ?c = BytewiseComparator and ?v = "\<lambda>_ :: slice. True"
  obtain m where m: "new_MemTable = Some m" "mt_holds ?c ?v m {}" using new_MemTable_holds by blast
  have g: "good_entry ?v ([97], 5, 1, [120])" "good_entry ?v ([97], 7, 1, [121])" by (simp_all add: small_sequence)
  note add = internal_keys.Add_holds [OF internal_keysI [OF bytewise_key_comparator]]
  obtain m1 where m1: "MemTable_Add ?c m 5 1 [97] [120] = Some m1" "mt_holds ?c ?v m1 {([97], 5, 1, [120])}"
    using add [OF m(2) g(1)] by auto
  obtain m2 where m2: "MemTable_Add ?c m1 7 1 [97] [121] = Some m2"
    "mt_holds ?c ?v m2 {([97], 7, 1, [121]), ([97], 5, 1, [120])}"
    using add [OF m1(2) g(2)] by auto
  have "visible ?c [97] 6 {([97], 7, 1, [121]), ([97], 5, 1, [120])} = {([97], 5, 1, [120])}"
    by (auto simp: visible_def bytewise_same)
  then show ?thesis
    using memtable_get [OF bytewise_key_comparator m2(2), where u = "[97]" and s = 6 and ?v0.0 = "[]" and ?st0.0 = None] m m1 m2 by (auto simp: small_sequence)
qed

end
