(* ===== verification/LdbWriteBatch.thy ===== *)
theory LdbWriteBatch
  imports LdbMemTable
begin

text \<open>
  Write batches of leveldb (include/leveldb/write_batch.h, db/write_batch_internal.h, db/write_batch.cc).
  A batch is the string \<open>rep_\<close>: a sequence number, a count and a list of records. A handler of
  \<open>Iterate\<close> is a pair of functions on its state; the handler that fills a memtable is
  \<open>MemTableInserter\<close>. An overflow of an \<open>int\<close> is \<open>None\<close>, as is a failed assertion.
\<close>

type_synonym WriteBatch = slice

abbreviation (input) kHeader :: nat where "kHeader \<equiv> 12"

record 'h Handler =
  Handler_Put :: "slice \<Rightarrow> slice \<Rightarrow> 'h \<Rightarrow> 'h option"
  Handler_Delete :: "slice \<Rightarrow> 'h \<Rightarrow> 'h option"

text \<open>The value of an expression of type \<open>int\<close>.\<close>

definition c_int :: "int \<Rightarrow> int option" where
  "c_int i = (if - (2 ^ 31) \<le> i \<and> i < 2 ^ 31 then Some i else None)"

definition WriteBatch_Clear :: "WriteBatch \<Rightarrow> WriteBatch" where
  "WriteBatch_Clear rep = replicate kHeader 0"

definition new_WriteBatch :: WriteBatch where
  "new_WriteBatch = WriteBatch_Clear []"

definition wb_Count :: "WriteBatch \<Rightarrow> int option" where
  "wb_Count rep = do { w \<leftarrow> DecodeFixed32 (drop 8 rep); Some (sint w) }"

definition wb_SetCount :: "WriteBatch \<Rightarrow> int \<Rightarrow> WriteBatch option" where
  "wb_SetCount rep n =
     (if 12 \<le> length rep then Some (take 8 rep @ EncodeFixed32 (word_of_int n) @ drop 12 rep) else None)"

definition wb_Sequence :: "WriteBatch \<Rightarrow> SequenceNumber option" where
  "wb_Sequence rep = DecodeFixed64 rep"

definition wb_SetSequence :: "WriteBatch \<Rightarrow> SequenceNumber \<Rightarrow> WriteBatch option" where
  "wb_SetSequence rep sq = (if 8 \<le> length rep then Some (EncodeFixed64 sq @ drop 8 rep) else None)"

definition WriteBatch_Put :: "WriteBatch \<Rightarrow> slice \<Rightarrow> slice \<Rightarrow> WriteBatch option" where
  "WriteBatch_Put rep key value = do {
     n \<leftarrow> wb_Count rep;
     n' \<leftarrow> c_int (n + 1);
     rep1 \<leftarrow> wb_SetCount rep n';
     Some (PutLengthPrefixedSlice (PutLengthPrefixedSlice (rep1 @ [kTypeValue]) key) value)
   }"

definition WriteBatch_Delete :: "WriteBatch \<Rightarrow> slice \<Rightarrow> WriteBatch option" where
  "WriteBatch_Delete rep key = do {
     n \<leftarrow> wb_Count rep;
     n' \<leftarrow> c_int (n + 1);
     rep1 \<leftarrow> wb_SetCount rep n';
     Some (PutLengthPrefixedSlice (rep1 @ [kTypeDeletion]) key)
   }"

text \<open>
  The loop of \<open>Iterate\<close> returns an error or the number of records found, with the state of the handler.
  Every turn consumes a byte at least, so the length of the input is enough fuel.
\<close>

definition wb_corruption :: "string \<Rightarrow> 'h \<Rightarrow> ((Status + int) \<times> 'h) option" where
  "wb_corruption msg h = do { st \<leftarrow> Status_Corruption (lit msg) []; Some (Inl st, h) }"

fun Iterate_loop :: "nat \<Rightarrow> 'h Handler \<Rightarrow> slice \<Rightarrow> int \<Rightarrow> 'h \<Rightarrow> ((Status + int) \<times> 'h) option" where
  "Iterate_loop n hn [] found h = Some (Inr found, h)"
| "Iterate_loop 0 hn (tag # input) found h = None"
| "Iterate_loop (Suc n) hn (tag # input) found h = do {
     found' \<leftarrow> c_int (found + 1);
     if tag = kTypeValue then do {
       r \<leftarrow> GetLengthPrefixedSlice input;
       case r of None \<Rightarrow> wb_corruption ''bad WriteBatch Put'' h
       | Some (key, input1) \<Rightarrow> do {
           r \<leftarrow> GetLengthPrefixedSlice input1;
           case r of None \<Rightarrow> wb_corruption ''bad WriteBatch Put'' h
           | Some (value, input2) \<Rightarrow> do { h' \<leftarrow> Handler_Put hn key value h; Iterate_loop n hn input2 found' h' }
         }
     }
     else if tag = kTypeDeletion then do {
       r \<leftarrow> GetLengthPrefixedSlice input;
       case r of None \<Rightarrow> wb_corruption ''bad WriteBatch Delete'' h
       | Some (key, input1) \<Rightarrow> do { h' \<leftarrow> Handler_Delete hn key h; Iterate_loop n hn input1 found' h' }
     }
     else wb_corruption ''unknown WriteBatch tag'' h
   }"

definition WriteBatch_Iterate :: "'h Handler \<Rightarrow> WriteBatch \<Rightarrow> 'h \<Rightarrow> (Status \<times> 'h) option" where
  "WriteBatch_Iterate hn rep h =
     (if length rep < kHeader then do {
        st \<leftarrow> Status_Corruption (lit ''malformed WriteBatch (too small)'') [];
        Some (st, h)
      }
      else do {
        (r, h') \<leftarrow> Iterate_loop (length rep) hn (drop kHeader rep) 0 h;
        case r of Inl st \<Rightarrow> Some (st, h')
        | Inr found \<Rightarrow> do {
            n \<leftarrow> wb_Count rep;
            if found \<noteq> n then do { st \<leftarrow> Status_Corruption (lit ''WriteBatch has wrong count'') []; Some (st, h') }
            else Some (Status_OK, h')
          }
      })"

definition MemTableInserter :: "Comparator \<Rightarrow> (SequenceNumber \<times> MemTable) Handler" where
  "MemTableInserter c =
     \<lparr>Handler_Put = (\<lambda>key value (sq, m). do { m' \<leftarrow> MemTable_Add c m sq kTypeValue key value; Some (sq + 1, m') }),
      Handler_Delete = (\<lambda>key (sq, m). do { m' \<leftarrow> MemTable_Add c m sq kTypeDeletion key []; Some (sq + 1, m') })\<rparr>"

definition wb_InsertInto :: "Comparator \<Rightarrow> WriteBatch \<Rightarrow> MemTable \<Rightarrow> (Status \<times> MemTable) option" where
  "wb_InsertInto c rep m = do {
     sq \<leftarrow> wb_Sequence rep;
     (st, (_, m')) \<leftarrow> WriteBatch_Iterate (MemTableInserter c) rep (sq, m);
     Some (st, m')
   }"

definition wb_SetContents :: "WriteBatch \<Rightarrow> slice \<Rightarrow> WriteBatch option" where
  "wb_SetContents rep contents = (if length contents \<ge> kHeader then Some contents else None)"

definition wb_Append :: "WriteBatch \<Rightarrow> WriteBatch \<Rightarrow> WriteBatch option" where
  "wb_Append dst src = do {
     n \<leftarrow> wb_Count dst;
     k \<leftarrow> wb_Count src;
     n' \<leftarrow> c_int (n + k);
     dst1 \<leftarrow> wb_SetCount dst n';
     if length src \<ge> kHeader then Some (dst1 @ drop kHeader src) else None
   }"

section \<open>Batches as lists of operations\<close>

datatype batch_op = BPut slice slice | BDelete slice

fun op_bytes :: "batch_op \<Rightarrow> slice" where
  "op_bytes (BPut key value) = kTypeValue # PutLengthPrefixedSlice [] key @ PutLengthPrefixedSlice [] value"
| "op_bytes (BDelete key) = kTypeDeletion # PutLengthPrefixedSlice [] key"

fun good_op :: "batch_op \<Rightarrow> bool" where
  "good_op (BPut key value) \<longleftrightarrow> length key < 2 ^ 32 \<and> length value < 2 ^ 32"
| "good_op (BDelete key) \<longleftrightarrow> length key < 2 ^ 32"

definition wb_holds :: "WriteBatch \<Rightarrow> SequenceNumber \<Rightarrow> batch_op list \<Rightarrow> bool" where
  "wb_holds rep sq ops \<longleftrightarrow>
     rep = EncodeFixed64 sq @ EncodeFixed32 (of_nat (length ops)) @ concat (map op_bytes ops) \<and>
     length ops < 2 ^ 31 \<and> (\<forall>x \<in> set ops. good_op x)"

text \<open>The calls that a list of operations makes to a handler.\<close>

fun run_ops :: "'h Handler \<Rightarrow> batch_op list \<Rightarrow> 'h \<Rightarrow> 'h option" where
  "run_ops hn [] h = Some h"
| "run_ops hn (BPut key value # ops) h = do { h' \<leftarrow> Handler_Put hn key value h; run_ops hn ops h' }"
| "run_ops hn (BDelete key # ops) h = do { h' \<leftarrow> Handler_Delete hn key h; run_ops hn ops h' }"

lemma wb_holds_parts:
  assumes "wb_holds rep sq ops"
  shows "wb_Count rep = Some (int (length ops))" "wb_Sequence rep = Some sq" "12 \<le> length rep"
    "drop 12 rep = concat (map op_bytes ops)" "take 8 rep = EncodeFixed64 sq"
proof -
  have rep: "rep = EncodeFixed64 sq @ EncodeFixed32 (of_nat (length ops)) @ concat (map op_bytes ops)"
    and n: "length ops < 2 ^ 31" using assms by (simp_all add: wb_holds_def)
  have "sint (of_nat (length ops) :: u32) = int (length ops)"
    using n by (simp add: signed_of_nat signed_take_bit_int_eq_self)
  then show "wb_Count rep = Some (int (length ops))"
    using DecodeFixed32_Encode [of "of_nat (length ops)"] by (simp add: rep wb_Count_def)
  show "wb_Sequence rep = Some sq" by (simp add: rep wb_Sequence_def DecodeFixed64_Encode)
  show "12 \<le> length rep" "drop 12 rep = concat (map op_bytes ops)" "take 8 rep = EncodeFixed64 sq" by (simp_all add: rep)
qed

lemma new_WriteBatch_holds: "wb_holds new_WriteBatch 0 []"
proof -
  have "EncodeFixed64 0 @ EncodeFixed32 0 = replicate 12 0" by code_simp
  then show ?thesis by (simp add: wb_holds_def new_WriteBatch_def WriteBatch_Clear_def)
qed

lemma SetCount_holds:
  "wb_holds rep sq ops \<Longrightarrow> wb_SetCount rep (int n) =
    Some (EncodeFixed64 sq @ EncodeFixed32 (of_nat n) @ concat (map op_bytes ops))"
  using wb_holds_parts [of rep sq ops] by (simp add: wb_SetCount_def)

lemma put_record: "PutLengthPrefixedSlice (PutLengthPrefixedSlice (dst @ [t]) key) value =
    dst @ t # PutLengthPrefixedSlice [] key @ PutLengthPrefixedSlice [] value"
  and delete_record: "PutLengthPrefixedSlice (dst @ [t]) key = dst @ t # PutLengthPrefixedSlice [] key"
  by (simp_all add: PutLengthPrefixedSlice_def PutVarint32_def)

lemma c_int_small: "n < 2 ^ 31 \<Longrightarrow> c_int (int n) = Some (int n)"
  by (simp add: c_int_def)

lemma c_int_Suc: "n + 1 < 2 ^ 31 \<Longrightarrow> c_int (int n + 1) = Some (int (n + 1))"
  by (simp add: c_int_def)

lemma Put_holds:
  assumes "wb_holds rep sq ops" and "good_op (BPut key value)" and "length ops + 1 < 2 ^ 31"
  shows "\<exists>rep'. WriteBatch_Put rep key value = Some rep' \<and> wb_holds rep' sq (ops @ [BPut key value])"
proof -
  have "c_int (int (length ops) + 1) = Some (int (length ops + 1))" by (rule c_int_Suc [OF assms(3)])
  then have "WriteBatch_Put rep key value = Some (EncodeFixed64 sq @ EncodeFixed32 (of_nat (length ops + 1)) @
      concat (map op_bytes ops) @ op_bytes (BPut key value))"
    unfolding WriteBatch_Put_def wb_holds_parts(1) [OF assms(1)] bind.simps(2) put_record
    by (simp only: SetCount_holds [OF assms(1)] bind.simps(2) append_assoc op_bytes.simps)
  then show ?thesis using assms by (simp add: wb_holds_def add.commute)
qed

lemma Delete_holds:
  assumes "wb_holds rep sq ops" and "good_op (BDelete key)" and "length ops + 1 < 2 ^ 31"
  shows "\<exists>rep'. WriteBatch_Delete rep key = Some rep' \<and> wb_holds rep' sq (ops @ [BDelete key])"
proof -
  have "c_int (int (length ops) + 1) = Some (int (length ops + 1))" by (rule c_int_Suc [OF assms(3)])
  then have "WriteBatch_Delete rep key = Some (EncodeFixed64 sq @ EncodeFixed32 (of_nat (length ops + 1)) @
      concat (map op_bytes ops) @ op_bytes (BDelete key))"
    unfolding WriteBatch_Delete_def wb_holds_parts(1) [OF assms(1)] bind.simps(2) delete_record
    by (simp only: SetCount_holds [OF assms(1)] bind.simps(2) append_assoc op_bytes.simps)
  then show ?thesis using assms by (simp add: wb_holds_def add.commute)
qed

lemma SetSequence_holds:
  "wb_holds rep sq ops \<Longrightarrow> \<exists>rep'. wb_SetSequence rep sq' = Some rep' \<and> wb_holds rep' sq' ops"
  by (auto simp: wb_SetSequence_def wb_holds_def)

lemma Append_holds:
  assumes "wb_holds dst sq ops" and "wb_holds src sq' ops'" and "length ops + length ops' < 2 ^ 31"
  shows "\<exists>rep. wb_Append dst src = Some rep \<and> wb_holds rep sq (ops @ ops')"
proof -
  have "c_int (int (length ops) + int (length ops')) = Some (int (length ops + length ops'))"
    using c_int_small [OF assms(3)] by simp
  then have "wb_Append dst src = Some (EncodeFixed64 sq @ EncodeFixed32 (of_nat (length ops + length ops')) @
      concat (map op_bytes ops) @ concat (map op_bytes ops'))"
    unfolding wb_Append_def wb_holds_parts(1) [OF assms(1)] wb_holds_parts(1) [OF assms(2)] bind.simps(2)
    by (simp only: SetCount_holds [OF assms(1)] wb_holds_parts(3,4) [OF assms(2)] bind.simps(2) append_assoc if_True)
  then show ?thesis using assms by (auto simp: wb_holds_def)
qed

section \<open>Iteration\<close>

lemma Iterate_loop_ops:
  "\<forall>x \<in> set ops. good_op x \<Longrightarrow> length (concat (map op_bytes ops)) \<le> n \<Longrightarrow> k + length ops < 2 ^ 31 \<Longrightarrow>
    Iterate_loop n hn (concat (map op_bytes ops)) (int k) h =
      do { h' \<leftarrow> run_ops hn ops h; Some (Inr (int (k + length ops)), h') }"
proof (induction ops arbitrary: n k h)
  case Nil
  then show ?case by simp
next
  case (Cons x ops)
  let ?rest = "concat (map op_bytes ops)"
  obtain n' where n: "n = Suc n'" using Cons.prems(2) by (cases n; cases x) auto
  have c: "c_int (int k + 1) = Some (int (k + 1))" using Cons.prems(3) by (intro c_int_Suc) simp
  have pos: "0 < length (op_bytes x)" by (cases x) simp_all
  have IH: "Iterate_loop n' hn ?rest (int (k + 1)) h' =
      do { h' \<leftarrow> run_ops hn ops h'; Some (Inr (int (k + 1 + length ops)), h') }" for h'
    by (rule Cons.IH) (use Cons.prems n pos in \<open>auto simp del: length_greater_0_conv length_concat\<close>)
  show ?case
  proof (cases x)
    case (BPut key val)
    have "GetLengthPrefixedSlice (PutLengthPrefixedSlice [] key @ PutLengthPrefixedSlice [] val @ ?rest) =
        Some (Some (key, PutLengthPrefixedSlice [] val @ ?rest))"
      "GetLengthPrefixedSlice (PutLengthPrefixedSlice [] val @ ?rest) = Some (Some (val, ?rest))"
      using Cons.prems(1) BPut by (simp_all add: GetLengthPrefixedSlice_Put)
    then show ?thesis using IH by (cases "Handler_Put hn key val h") (simp_all add: n c BPut)
  next
    case (BDelete key)
    have "GetLengthPrefixedSlice (PutLengthPrefixedSlice [] key @ ?rest) = Some (Some (key, ?rest))"
      using Cons.prems(1) BDelete by (simp add: GetLengthPrefixedSlice_Put)
    then show ?thesis using IH by (cases "Handler_Delete hn key h") (simp_all add: n c BDelete)
  qed
qed

lemma Iterate_ops:
  assumes "wb_holds rep sq ops"
  shows "WriteBatch_Iterate hn rep h = do { h' \<leftarrow> run_ops hn ops h; Some (Status_OK, h') }"
proof -
  note P = wb_holds_parts [OF assms]
  have "length (concat (map op_bytes ops)) \<le> length rep" by (simp only: P(4) [symmetric] length_drop)
  then show ?thesis
    using Iterate_loop_ops [of ops "length rep" 0 hn h] assms P
    by (cases "run_ops hn ops h") (simp_all add: WriteBatch_Iterate_def wb_holds_def del: length_concat)
qed

text \<open>On any bytes the loop ends, and reports a corruption or as many records as it found.\<close>

definition total_handler :: "'h Handler \<Rightarrow> bool" where
  "total_handler hn \<longleftrightarrow> (\<forall>k v h. Handler_Put hn k v h \<noteq> None \<and> Handler_Delete hn k h \<noteq> None)"

lemma wb_corruption_Some: "length msg < 100 \<Longrightarrow>
    \<exists>st. wb_corruption msg h = Some (Inl st, h) \<and> IsCorruption st = Some True"
  by (simp add: wb_corruption_def Status_Corruption_def new_Status_fits IsCorruption_def Status_code_def EncodeFixed32_parts(2))

lemma GetLengthPrefixedSlice_shorter:
  obtains "GetLengthPrefixedSlice input = Some None"
  | s rest where "GetLengthPrefixedSlice input = Some (Some (s, rest))" "length rest < length input"
proof (rule GetLengthPrefixedSlice_cases [of input])
  fix k s rest assume g: "GetLengthPrefixedSlice input = Some (Some (s, rest))" "0 < k" "k \<le> length input" "drop k input = s @ rest"
  have "length rest < length input" using arg_cong [OF g(4), of length] g(2,3) unfolding length_drop length_append by linarith
  then show thesis using g(1) that(2) by blast
qed (use that in blast)

definition safe_result :: "((Status + int) \<times> 'h) option \<Rightarrow> bool" where
  "safe_result x \<longleftrightarrow> (\<exists>r h. x = Some (r, h) \<and> (\<forall>st. r = Inl st \<longrightarrow> IsCorruption st = Some True))"

lemma wb_corruption_safe: "length msg < 100 \<Longrightarrow> safe_result (wb_corruption msg h)"
  using wb_corruption_Some [of msg h] by (auto simp: safe_result_def)

lemma Iterate_loop_safe:
  "total_handler hn \<Longrightarrow> length input \<le> n \<Longrightarrow> k + length input < 2 ^ 31 \<Longrightarrow>
    safe_result (Iterate_loop n hn input (int k) h)"
proof (induction n arbitrary: input k h)
  case 0
  then show ?case by (simp add: safe_result_def)
next
  case (Suc n)
  show ?case
  proof (cases input)
    case Nil
    then show ?thesis by (simp add: safe_result_def)
  next
    case (Cons tag rest)
    have c: "c_int (int k + 1) = Some (int (k + 1))" using Suc.prems(3) Cons by (intro c_int_Suc) simp
    have IH: "safe_result (Iterate_loop n hn rest' (int (k + 1)) h')" if "length rest' \<le> length rest" for rest' h'
      by (rule Suc.IH) (use Suc.prems Cons that in auto)
    have calls: "\<exists>h'. Handler_Put hn key val h = Some h'" "\<exists>h'. Handler_Delete hn key h = Some h'" for key val
      using Suc.prems(1) by (auto simp: total_handler_def)
    consider (put) "tag = kTypeValue" | (del) "tag = kTypeDeletion" | (other) "tag \<noteq> kTypeValue" "tag \<noteq> kTypeDeletion" by blast
    then show ?thesis
    proof cases
      case put
      show ?thesis
      proof (rule GetLengthPrefixedSlice_shorter [of rest])
        fix key rest1 assume g1: "GetLengthPrefixedSlice rest = Some (Some (key, rest1))" "length rest1 < length rest"
        show ?thesis
        proof (rule GetLengthPrefixedSlice_shorter [of rest1])
          fix val rest2 assume g2: "GetLengthPrefixedSlice rest1 = Some (Some (val, rest2))" "length rest2 < length rest1"
          obtain h' where "Handler_Put hn key val h = Some h'" using calls(1) by blast
          then show ?thesis using IH [of rest2 h'] g1 g2 c put by (simp add: Cons)
        qed (use g1 c put in \<open>simp add: Cons wb_corruption_safe\<close>)
      qed (use c put in \<open>simp add: Cons wb_corruption_safe\<close>)
    next
      case del
      show ?thesis
      proof (rule GetLengthPrefixedSlice_shorter [of rest])
        fix key rest1 assume g1: "GetLengthPrefixedSlice rest = Some (Some (key, rest1))" "length rest1 < length rest"
        obtain h' where "Handler_Delete hn key h = Some h'" using calls(2) by blast
        then show ?thesis using IH [of rest1 h'] g1 c del by (simp add: Cons)
      qed (use c del in \<open>simp add: Cons wb_corruption_safe\<close>)
    next
      case other
      then show ?thesis using c by (simp add: Cons wb_corruption_safe)
    qed
  qed
qed

text \<open>
  C23: Iterating over any bytes, with a handler whose calls return, ends within the bytes and
  reports success or a corruption.
\<close>

theorem write_batch_safe:
  assumes hn: "total_handler hn" and small: "length bytes < 2 ^ 31"
  shows "\<exists>st h'. WriteBatch_Iterate hn bytes h = Some (st, h') \<and> (st = Status_OK \<or> IsCorruption st = Some True)"
proof -
  have corr: "\<exists>st. Status_Corruption (lit msg) [] = Some st \<and> IsCorruption st = Some True" if "length msg < 100" for msg
    using wb_corruption_Some [OF that, of h] by (auto simp: wb_corruption_def bind_eq_Some_conv)
  show ?thesis
  proof (cases "length bytes < kHeader")
    case True
    then show ?thesis using corr [of "''malformed WriteBatch (too small)''"] by (auto simp: WriteBatch_Iterate_def)
  next
    case False
    have "safe_result (Iterate_loop (length bytes) hn (drop kHeader bytes) (int 0) h)"
      by (rule Iterate_loop_safe [OF hn]) (use small in auto)
    then obtain r h' where r: "Iterate_loop (length bytes) hn (drop kHeader bytes) 0 h = Some (r, h')"
      "\<forall>st. r = Inl st \<longrightarrow> IsCorruption st = Some True" by (auto simp: safe_result_def)
    have "\<exists>n. wb_Count bytes = Some n" using False by (simp add: wb_Count_def DecodeFixed32_def)
    then show ?thesis using r False corr [of "''WriteBatch has wrong count''"]
      by (cases r) (auto simp: WriteBatch_Iterate_def)
  qed
qed

text \<open>A handler that counts the calls.\<close>

definition counter :: "nat Handler" where
  "counter = \<lparr>Handler_Put = (\<lambda>_ _ n. Some (n + 1)), Handler_Delete = (\<lambda>_ n. Some (n + 1))\<rparr>"

theorem write_batch_safe_witness:
  "\<exists>st h'. WriteBatch_Iterate counter [1, 2, 3] 0 = Some (st, h') \<and> (st = Status_OK \<or> IsCorruption st = Some True)"
  by (rule write_batch_safe) (simp_all add: total_handler_def counter_def)

section \<open>Writing a batch into a memtable\<close>

fun op_key :: "batch_op \<Rightarrow> slice" where
  "op_key (BPut key value) = key"
| "op_key (BDelete key) = key"

fun op_entry :: "SequenceNumber \<Rightarrow> batch_op \<Rightarrow> mt_entry" where
  "op_entry sq (BPut key value) = (key, sq, kTypeValue, value)"
| "op_entry sq (BDelete key) = (key, sq, kTypeDeletion, [])"

fun batch_entries :: "SequenceNumber \<Rightarrow> batch_op list \<Rightarrow> mt_entry list" where
  "batch_entries sq [] = []"
| "batch_entries sq (x # ops) = op_entry sq x # batch_entries (sq + 1) ops"

definition good_key :: "(slice \<Rightarrow> bool) \<Rightarrow> slice \<Rightarrow> bool" where
  "good_key valid k \<longleftrightarrow> valid k \<and> length k + 8 < 2 ^ 32"

lemma kMax_unat: "s \<le> kMaxSequenceNumber \<longleftrightarrow> unat s < 2 ^ 56"
proof -
  have "unat kMaxSequenceNumber = 2 ^ 56 - 1" by (simp add: kMaxSequenceNumber_def)
  then show ?thesis by (auto simp: word_le_nat_alt)
qed

lemma unat_add_small: "unat (sq :: u64) + n < 2 ^ 64 \<Longrightarrow> unat (sq + of_nat n) = unat sq + n"
  by (simp add: unat_word_ariths unat_of_nat)

lemma batch_entries_nth:
  "unat sq + length ops \<le> 2 ^ 56 \<Longrightarrow> i < length ops \<Longrightarrow>
    batch_entries sq ops ! i = op_entry (sq + of_nat i) (ops ! i)"
proof (induction ops arbitrary: sq i)
  case (Cons x ops)
  show ?case
  proof (cases i)
    case (Suc j)
    have "unat (sq + 1) = unat sq + 1" using Cons.prems(1) unat_add_small [of sq 1] by simp
    then have "batch_entries (sq + 1) ops ! j = op_entry (sq + 1 + of_nat j) (ops ! j)"
      using Cons.prems Suc by (intro Cons.IH) auto
    then show ?thesis using Suc by (simp add: add.assoc)
  qed simp
qed simp

lemma length_batch_entries [simp]: "length (batch_entries sq ops) = length ops"
  by (induction ops arbitrary: sq) auto

context internal_keys
begin

lemma run_inserter:
  "mt_holds c valid m E \<Longrightarrow> \<forall>x \<in> set ops. good_op x \<and> good_key valid (op_key x) \<Longrightarrow> unat sq + length ops \<le> 2 ^ 56 \<Longrightarrow>
    \<forall>e \<in> E. fst (snd e) < sq \<Longrightarrow>
    \<exists>sq' m'. run_ops (MemTableInserter c) ops (sq, m) = Some (sq', m') \<and> mt_holds c valid m' (E \<union> set (batch_entries sq ops))"
proof (induction ops arbitrary: sq m E)
  case Nil
  then show ?case by simp
next
  case (Cons x ops)
  obtain u t v where x: "op_entry sq x = (u, sq, t, v)" by (cases x) auto
  have good: "good_entry valid (u, sq, t, v)"
    using Cons.prems(2,3) x by (cases x) (auto simp: good_key_def kMax_unat)
  have fresh: "\<not> (\<exists>e \<in> E. same_key (Compare c) u (fst e) \<and> fst (snd e) = sq \<and> fst (snd (snd e)) = t)"
    using Cons.prems(4) by force
  obtain m1 where m1: "MemTable_Add c m sq t u v = Some m1" "mt_holds c valid m1 (insert (u, sq, t, v) E)"
    using Add_holds [OF Cons.prems(1) good] fresh by (auto split: if_splits)
  have step: "run_ops (MemTableInserter c) (x # ops) (sq, m) = run_ops (MemTableInserter c) ops (sq + 1, m1)"
    using m1(1) x by (cases x) (auto simp: MemTableInserter_def)
  have sq1: "unat (sq + 1) = unat sq + 1" using Cons.prems(3) unat_add_small [of sq 1] by simp
  have "\<exists>sq' m'. run_ops (MemTableInserter c) ops (sq + 1, m1) = Some (sq', m') \<and>
      mt_holds c valid m' (insert (u, sq, t, v) E \<union> set (batch_entries (sq + 1) ops))"
  proof (rule Cons.IH [OF m1(2)])
    show "\<forall>e \<in> insert (u, sq, t, v) E. fst (snd e) < sq + 1"
      using Cons.prems(4) sq1 by (auto simp: word_less_nat_alt)
  qed (use Cons.prems(2,3) sq1 in auto)
  then show ?case using step x by simp
qed

lemma InsertInto_holds:
  assumes "wb_holds rep sq ops" and "mt_holds c valid m E" and "\<forall>x \<in> set ops. good_key valid (op_key x)"
    and "unat sq + length ops \<le> 2 ^ 56" and "\<forall>e \<in> E. fst (snd e) < sq"
  shows "\<exists>m'. wb_InsertInto c rep m = Some (Status_OK, m') \<and> mt_holds c valid m' (E \<union> set (batch_entries sq ops))"
proof -
  have "\<forall>x \<in> set ops. good_op x \<and> good_key valid (op_key x)" using assms(1,3) by (simp add: wb_holds_def)
  from run_inserter [OF assms(2) this assms(4,5)] show ?thesis
    by (auto simp: wb_InsertInto_def wb_holds_parts(2) [OF assms(1)] Iterate_ops [OF assms(1)])
qed

end

section \<open>Reading a batch back\<close>

text \<open>The last operation on a key.\<close>

definition last_op :: "Comparator \<Rightarrow> slice \<Rightarrow> batch_op list \<Rightarrow> batch_op option" where
  "last_op c u ops = find (\<lambda>x. same_key (Compare c) u (op_key x)) (rev ops)"

lemma last_op_Some:
  assumes "i < length ops" and "same_key (Compare c) u (op_key (ops ! i))"
    and "\<And>j. i < j \<Longrightarrow> j < length ops \<Longrightarrow> \<not> same_key (Compare c) u (op_key (ops ! j))"
  shows "last_op c u ops = Some (ops ! i)"
  unfolding last_op_def find_Some_iff
proof (intro exI [of _ "length ops - Suc i"] conjI allI impI)
  fix j assume "j < length ops - Suc i"
  then show "\<not> same_key (Compare c) u (op_key (rev ops ! j))" using assms(1,3) by (simp add: rev_nth)
qed (use assms in \<open>simp_all add: rev_nth\<close>)

lemma last_op_None: "last_op c u ops = None \<longleftrightarrow> (\<forall>x \<in> set ops. \<not> same_key (Compare c) u (op_key x))"
  by (auto simp: last_op_def find_None_iff)

lemma op_entry_parts: "fst (op_entry s x) = op_key x" "fst (snd (op_entry s x)) = s"
  by (cases x; simp)+

lemma batch_entry:
  assumes "unat sq + length ops \<le> 2 ^ 56" and "i < length ops"
  shows "batch_entries sq ops ! i = op_entry (sq + of_nat i) (ops ! i)" "unat (sq + of_nat i) = unat sq + i"
    "op_entry (sq + of_nat i) (ops ! i) \<in> visible c u (sq + of_nat (length ops - 1)) (set (batch_entries sq ops)) \<longleftrightarrow>
      same_key (Compare c) u (op_key (ops ! i))"
proof -
  have u: "unat (sq + of_nat i) = unat sq + i" if "i < length ops" for i
    using unat_add_small [of sq i] assms(1) that by auto
  show e: "batch_entries sq ops ! i = op_entry (sq + of_nat i) (ops ! i)" by (rule batch_entries_nth [OF assms])
  show "unat (sq + of_nat i) = unat sq + i" by (rule u [OF assms(2)])
  have "op_entry (sq + of_nat i) (ops ! i) \<in> set (batch_entries sq ops)" using e assms(2) by (metis length_batch_entries nth_mem)
  moreover have "sq + of_nat i \<le> sq + of_nat (length ops - 1)"
    using u [OF assms(2)] u [of "length ops - 1"] assms(2) by (simp add: word_le_nat_alt)
  ultimately show "op_entry (sq + of_nat i) (ops ! i) \<in> visible c u (sq + of_nat (length ops - 1)) (set (batch_entries sq ops)) \<longleftrightarrow>
      same_key (Compare c) u (op_key (ops ! i))" by (simp add: visible_def op_entry_parts)
qed

text \<open>The newest visible entry of a batch comes from the last operation on the key.\<close>

lemma batch_newest:
  assumes sq: "unat sq + length ops \<le> 2 ^ 56"
    and e: "e \<in> visible c u (sq + of_nat (length ops - 1)) (set (batch_entries sq ops))"
      "\<forall>e'' \<in> visible c u (sq + of_nat (length ops - 1)) (set (batch_entries sq ops)). fst (snd e'') \<le> fst (snd e)"
  obtains i where "i < length ops" "e = op_entry (sq + of_nat i) (ops ! i)" "last_op c u ops = Some (ops ! i)"
proof -
  note entry = batch_entry [OF sq]
  obtain i where i: "i < length ops" "e = op_entry (sq + of_nat i) (ops ! i)"
    using e(1) entry(1) by (auto simp: visible_def in_set_conv_nth)
  have "last_op c u ops = Some (ops ! i)"
  proof (rule last_op_Some [OF i(1)])
    show "same_key (Compare c) u (op_key (ops ! i))" using entry(3) [OF i(1)] e(1) i(2) by simp
    fix j assume j: "i < j" "j < length ops"
    then have "\<not> sq + of_nat j \<le> sq + of_nat i" using entry(2) [OF i(1)] entry(2) [OF j(2)] by (simp add: word_le_nat_alt)
    then have "op_entry (sq + of_nat j) (ops ! j) \<notin> visible c u (sq + of_nat (length ops - 1)) (set (batch_entries sq ops))"
      using e(2) i(2) op_entry_parts(2) by metis
    then show "\<not> same_key (Compare c) u (op_key (ops ! j))" using entry(3) [OF j(2)] by simp
  qed
  with i that show thesis by blast
qed

text \<open>
  C15: A batch inserted into an empty memtable is read back: the insertion reports success, and a
  lookup of any key at the last sequence number of the batch returns what the last operation on
  that key says, its value or the status NotFound, and false when the batch has no operation on it.
\<close>

theorem write_batch_read:
  assumes "key_comparator c valid" and "new_MemTable = Some m" and "wb_holds rep sq ops"
    and "\<forall>x \<in> set ops. good_key valid (op_key x)" and "ops \<noteq> []" and "unat sq + length ops \<le> 2 ^ 56"
    and "good_key valid u"
  shows "\<exists>m' k r. wb_InsertInto c rep m = Some (Status_OK, m') \<and>
    new_LookupKey u (sq + of_nat (length ops - 1)) = Some k \<and> MemTable_Get c m' k v0 st0 = Some r \<and>
    (case last_op c u ops of None \<Rightarrow> r = (False, v0, st0)
     | Some (BPut _ v) \<Rightarrow> r = (True, v, st0)
     | Some (BDelete _) \<Rightarrow> \<exists>st. r = (True, v0, st) \<and> IsNotFound st = Some True)"
proof -
  have "mt_holds c valid m {}" using new_MemTable_holds [of c valid] assms(2) by (metis option.inject)
  from internal_keys.InsertInto_holds [OF internal_keysI [OF assms(1)] assms(3) this assms(4,6)]
  obtain m' where m': "wb_InsertInto c rep m = Some (Status_OK, m')" "mt_holds c valid m' (set (batch_entries sq ops))"
    by auto
  let ?s = "sq + of_nat (length ops - 1)" let ?V = "visible c u ?s (set (batch_entries sq ops))"
  note entry = batch_entry [OF assms(6)]
  have n: "length ops - 1 < length ops" using assms(5) by (cases ops) simp_all
  have "?s \<le> kMaxSequenceNumber" using entry(2) [OF n] n assms(6) unfolding kMax_unat by linarith
  moreover have "valid u" "length u + 8 < 2 ^ 32" using assms(7) by (simp_all add: good_key_def)
  ultimately obtain k r where k: "new_LookupKey u ?s = Some k" "MemTable_Get c m' k v0 st0 = Some r"
    and r: "if ?V = {} then r = (False, v0, st0)
     else \<exists>(u', s', t', v') \<in> ?V. (\<forall>(_, s'', t'', _) \<in> ?V. s'' < s' \<or> s'' = s' \<and> t'' \<le> t') \<and>
       (if t' = kTypeValue then r = (True, v', st0) else \<exists>st. r = (True, v0, st) \<and> IsNotFound st = Some True)"
    using Get_result [OF assms(1) m'(2)] by blast
  have "case last_op c u ops of None \<Rightarrow> r = (False, v0, st0)
     | Some (BPut _ v) \<Rightarrow> r = (True, v, st0)
     | Some (BDelete _) \<Rightarrow> \<exists>st. r = (True, v0, st) \<and> IsNotFound st = Some True"
  proof (cases "?V = {}")
    case True
    have "\<not> same_key (Compare c) u (op_key (ops ! i))" if "i < length ops" for i
      using entry(3) [OF that, where c = c and u = u] unfolding True by blast
    then have "last_op c u ops = None" by (auto simp: last_op_None in_set_conv_nth)
    then show ?thesis using r True by simp
  next
    case False
    from r [unfolded if_not_P [OF False]] obtain e where e: "e \<in> ?V"
      "case e of (u', s', t', v') \<Rightarrow> (\<forall>(_, s'', t'', _) \<in> ?V. s'' < s' \<or> s'' = s' \<and> t'' \<le> t') \<and>
        (if t' = kTypeValue then r = (True, v', st0) else \<exists>st. r = (True, v0, st) \<and> IsNotFound st = Some True)" by blast
    then have max: "\<forall>e'' \<in> ?V. fst (snd e'') \<le> fst (snd e)" by fastforce
    obtain i where "i < length ops" "e = op_entry (sq + of_nat i) (ops ! i)" "last_op c u ops = Some (ops ! i)"
      by (rule batch_newest [OF assms(6) e(1) max])
    then show ?thesis using e(2) by (cases "ops ! i") auto
  qed
  with m'(1) k show ?thesis by blast
qed

theorem write_batch_read_witness:
  "\<exists>m rep rep' m' k. new_MemTable = Some m \<and> WriteBatch_Put new_WriteBatch [97] [120] = Some rep \<and>
    WriteBatch_Put rep [97] [121] = Some rep' \<and> wb_InsertInto BytewiseComparator rep' m = Some (Status_OK, m') \<and>
    new_LookupKey [97] 1 = Some k \<and> MemTable_Get BytewiseComparator m' k [] None = Some (True, [121], None)"
proof -
  obtain m where m: "new_MemTable = Some m" using new_MemTable_holds by blast
  obtain rep where rep: "WriteBatch_Put new_WriteBatch [97] [120] = Some rep" "wb_holds rep 0 [BPut [97] [120]]"
    using Put_holds [OF new_WriteBatch_holds, of "[97]" "[120]"] by auto
  obtain rep' where rep': "WriteBatch_Put rep [97] [121] = Some rep'" "wb_holds rep' 0 [BPut [97] [120], BPut [97] [121]]"
    using Put_holds [OF rep(2), of "[97]" "[121]"] by auto
  have "last_op BytewiseComparator [97] [BPut [97] [120], BPut [97] [121]] = Some (BPut [97] [121])"
    by (simp add: last_op_def bytewise_same)
  then show ?thesis
    using write_batch_read [OF bytewise_key_comparator m rep'(2), where u = "[97]" and ?v0.0 = "[]" and ?st0.0 = None]
      m rep(1) rep'(1) by (auto simp: good_key_def)
qed

end
