(* ===== verification/LdbLog.thy ===== *)
theory LdbLog
  imports LdbCrc LdbStatus
begin

text \<open>
  The log files of leveldb (db/log_format.h, db/log_writer.h, db/log_writer.cc, db/log_reader.h,
  db/log_reader.cc). A record is split into fragments that do not cross the blocks of 32768 bytes of the file;
  each has a header with a checksum, a length and a type. The files are parameters: what
  \<open>Append\<close>, \<open>Flush\<close>, \<open>Read\<close> and \<open>Skip\<close> do to the state of a file. What the reader reports to its
  \<open>Reporter\<close> is collected in a list. The address of the data passed to the checksum does not matter
  (\<open>crc_Extend_bytes\<close>) and is 0 here.
\<close>

section \<open>The format\<close>

abbreviation (input) kZeroType :: nat where "kZeroType \<equiv> 0"
abbreviation (input) kFullType :: nat where "kFullType \<equiv> 1"
abbreviation (input) kFirstType :: nat where "kFirstType \<equiv> 2"
abbreviation (input) kMiddleType :: nat where "kMiddleType \<equiv> 3"
abbreviation (input) kLastType :: nat where "kLastType \<equiv> 4"
abbreviation (input) kMaxRecordType :: nat where "kMaxRecordType \<equiv> 4"
abbreviation (input) kEof :: nat where "kEof \<equiv> 5"
abbreviation (input) kBadRecord :: nat where "kBadRecord \<equiv> 6"

abbreviation (input) kBlockSize :: nat where "kBlockSize \<equiv> 32768"
abbreviation (input) kHeaderSize :: nat where "kHeaderSize \<equiv> 7"

section \<open>The writer\<close>

record 'w WritableFile =
  wf_Append :: "slice \<Rightarrow> 'w \<Rightarrow> Status \<times> 'w"
  wf_Flush :: "'w \<Rightarrow> Status \<times> 'w"

record log_writer =
  block_offset :: nat
  type_crc :: "u32 list"

fun InitTypeCrc :: "nat list \<Rightarrow> u32 list option" where
  "InitTypeCrc [] = Some []"
| "InitTypeCrc (i # is) = do { c \<leftarrow> crc_Value 0 [of_nat i]; cs \<leftarrow> InitTypeCrc is; Some (c # cs) }"

definition new_Writer :: "u64 \<Rightarrow> log_writer option" where
  "new_Writer dest_length = do {
     cs \<leftarrow> InitTypeCrc [0 ..< kMaxRecordType + 1];
     Some \<lparr>block_offset = unat dest_length mod kBlockSize, type_crc = cs\<rparr>
   }"

definition EmitPhysicalRecord :: "'w WritableFile \<Rightarrow> log_writer \<Rightarrow> nat \<Rightarrow> slice \<Rightarrow> 'w \<Rightarrow> (Status \<times> log_writer \<times> 'w) option" where
  "EmitPhysicalRecord wfile w t ptr dest =
     (let n = length ptr in
      if \<not> (n \<le> 0xffff \<and> block_offset w + kHeaderSize + n \<le> kBlockSize) then None
      else do {
        tc \<leftarrow> nth_opt (type_crc w) t;
        crc \<leftarrow> crc_Extend 0 tc ptr;
        let buf = EncodeFixed32 (crc_Mask crc) @ [of_nat (n mod 256), of_nat (n div 256), of_nat t];
        let (s, dest1) = wf_Append wfile buf dest;
        let (s', dest') =
          (if Status_ok s then
             (case wf_Append wfile ptr dest1 of (s2, dest2) \<Rightarrow> if Status_ok s2 then wf_Flush wfile dest2 else (s2, dest2))
           else (s, dest1));
        Some (s', w\<lparr>block_offset := block_offset w + kHeaderSize + n\<rparr>, dest')
      })"

text \<open>
  The loop of \<open>AddRecord\<close>. At most every second turn writes no byte of the record, so twice its length
  is enough fuel.
\<close>

fun AddRecord_loop :: "nat \<Rightarrow> 'w WritableFile \<Rightarrow> log_writer \<Rightarrow> slice \<Rightarrow> bool \<Rightarrow> 'w \<Rightarrow> (Status \<times> log_writer \<times> 'w) option" where
  "AddRecord_loop 0 wfile w ptr begin_rec dest = None"
| "AddRecord_loop (Suc n) wfile w ptr begin_rec dest =
     (if block_offset w > kBlockSize then None
      else
        let leftover = kBlockSize - block_offset w;
            (w1, dest1) =
              (if leftover < kHeaderSize then
                 (w\<lparr>block_offset := 0\<rparr>,
                  if leftover > 0 then snd (wf_Append wfile (replicate leftover 0) dest) else dest)
               else (w, dest))
        in
        if kBlockSize < block_offset w1 + kHeaderSize then None
        else do {
          let avail = kBlockSize - block_offset w1 - kHeaderSize;
          let left = length ptr;
          let fragment_length = (if left < avail then left else avail);
          let end_rec = (left = fragment_length);
          let type = (if begin_rec \<and> end_rec then kFullType
                      else if begin_rec then kFirstType
                      else if end_rec then kLastType
                      else kMiddleType);
          (s, w2, dest2) \<leftarrow> EmitPhysicalRecord wfile w1 type (take fragment_length ptr) dest1;
          let ptr' = drop fragment_length ptr;
          if Status_ok s \<and> length ptr' > 0 then AddRecord_loop n wfile w2 ptr' False dest2
          else Some (s, w2, dest2)
        })"

definition AddRecord :: "'w WritableFile \<Rightarrow> log_writer \<Rightarrow> slice \<Rightarrow> 'w \<Rightarrow> (Status \<times> log_writer \<times> 'w) option" where
  "AddRecord wfile w data dest = AddRecord_loop (2 * length data + 2) wfile w data True dest"

section \<open>The reader\<close>

record 's SequentialFile =
  sf_Read :: "nat \<Rightarrow> 's \<Rightarrow> Status \<times> slice \<times> 's"
  sf_Skip :: "u64 \<Rightarrow> 's \<Rightarrow> Status \<times> 's"

text \<open>
  The state of a reader with the state of its file, and the reports made so far. \<open>lr_reporter\<close> tells
  whether there is a reporter.
\<close>

record 's log_reader =
  lr_file :: 's
  lr_reporter :: bool
  lr_checksum :: bool
  lr_buffer :: slice
  lr_eof :: bool
  last_record_offset :: u64
  end_of_buffer_offset :: u64
  initial_offset :: u64
  resyncing :: bool
  lr_reports :: "(u64 \<times> Status) list"

definition new_Reader :: "'s \<Rightarrow> bool \<Rightarrow> bool \<Rightarrow> u64 \<Rightarrow> 's log_reader" where
  "new_Reader file reporter checksum offset =
     \<lparr>lr_file = file, lr_reporter = reporter, lr_checksum = checksum, lr_buffer = [], lr_eof = False,
      last_record_offset = 0, end_of_buffer_offset = 0, initial_offset = offset, resyncing = (offset > 0),
      lr_reports = []\<rparr>"

definition ReportDrop :: "'s log_reader \<Rightarrow> u64 \<Rightarrow> Status \<Rightarrow> 's log_reader" where
  "ReportDrop r bytes reason =
     (if lr_reporter r \<and> end_of_buffer_offset r - of_nat (length (lr_buffer r)) - bytes \<ge> initial_offset r
      then r\<lparr>lr_reports := lr_reports r @ [(bytes, reason)]\<rparr> else r)"

definition ReportCorruption :: "'s log_reader \<Rightarrow> u64 \<Rightarrow> byte list \<Rightarrow> 's log_reader option" where
  "ReportCorruption r bytes reason = do { st \<leftarrow> Status_Corruption reason []; Some (ReportDrop r bytes st) }"

definition SkipToInitialBlock :: "'s SequentialFile \<Rightarrow> 's log_reader \<Rightarrow> bool \<times> 's log_reader" where
  "SkipToInitialBlock sf r =
     (let offset_in_block = initial_offset r mod of_nat kBlockSize;
          start = initial_offset r - offset_in_block;
          block_start_location = (if offset_in_block > of_nat (kBlockSize - 6) then start + of_nat kBlockSize else start);
          r1 = r\<lparr>end_of_buffer_offset := block_start_location\<rparr>
      in if block_start_location > 0 then
           (case sf_Skip sf block_start_location (lr_file r1) of (skip_status, f) \<Rightarrow>
              let r2 = r1\<lparr>lr_file := f\<rparr> in
              if \<not> Status_ok skip_status then (False, ReportDrop r2 block_start_location skip_status) else (True, r2))
         else (True, r1))"

text \<open>
  The result is the type and the fragment, which stays what it was where the code does not set it. The
  type is a byte converted to \<open>unsigned int\<close> through a signed \<open>char\<close>. A read is followed by at most one
  more turn of the loop, so two turns are enough.
\<close>

fun ReadPhysicalRecord :: "nat \<Rightarrow> 's SequentialFile \<Rightarrow> 's log_reader \<Rightarrow> slice \<Rightarrow> (nat \<times> slice \<times> 's log_reader) option" where
  "ReadPhysicalRecord 0 sf r result = None"
| "ReadPhysicalRecord (Suc n) sf r result =
     (if length (lr_buffer r) < kHeaderSize then
        if \<not> lr_eof r then
          (case sf_Read sf kBlockSize (lr_file r) of (status, bytes, f) \<Rightarrow>
             let r1 = r\<lparr>lr_file := f, lr_buffer := bytes,
                        end_of_buffer_offset := end_of_buffer_offset r + of_nat (length bytes)\<rparr> in
             if \<not> Status_ok status then
               Some (kEof, result, (ReportDrop (r1\<lparr>lr_buffer := []\<rparr>) (of_nat kBlockSize) status)\<lparr>lr_eof := True\<rparr>)
             else if length bytes < kBlockSize then ReadPhysicalRecord n sf (r1\<lparr>lr_eof := True\<rparr>) result
             else ReadPhysicalRecord n sf r1 result)
        else Some (kEof, result, r\<lparr>lr_buffer := []\<rparr>)
      else
        let header = lr_buffer r;
            type = unat (scast (header ! 6) :: u32);
            len = unat (header ! 4) + 256 * unat (header ! 5)
        in
        if kHeaderSize + len > length header then
          (let r1 = r\<lparr>lr_buffer := []\<rparr> in
           if \<not> lr_eof r then do {
             r2 \<leftarrow> ReportCorruption r1 (of_nat (length header)) (lit ''bad record length'');
             Some (kBadRecord, result, r2)
           }
           else Some (kEof, result, r1))
        else if type = kZeroType \<and> len = 0 then Some (kBadRecord, result, r\<lparr>lr_buffer := []\<rparr>)
        else do {
          expected \<leftarrow> DecodeFixed32 header;
          actual_crc \<leftarrow> crc_Value 0 (take (1 + len) (drop 6 header));
          if lr_checksum r \<and> actual_crc \<noteq> crc_Unmask expected then do {
            r2 \<leftarrow> ReportCorruption (r\<lparr>lr_buffer := []\<rparr>) (of_nat (length header)) (lit ''checksum mismatch'');
            Some (kBadRecord, result, r2)
          }
          else
            let r1 = r\<lparr>lr_buffer := drop (kHeaderSize + len) header\<rparr> in
            if end_of_buffer_offset r1 - of_nat (length (lr_buffer r1)) - of_nat kHeaderSize - of_nat len < initial_offset r1
            then Some (kBadRecord, [], r1)
            else Some (type, take len (drop kHeaderSize header), r1)
        })"

text \<open>The loop of \<open>ReadRecord\<close>: the result is whether there is a record, the record and the scratch string.\<close>

fun ReadRecord_loop :: "nat \<Rightarrow> 's SequentialFile \<Rightarrow> 's log_reader \<Rightarrow> slice \<Rightarrow> slice \<Rightarrow> bool \<Rightarrow> u64 \<Rightarrow>
    (bool \<times> slice \<times> slice \<times> 's log_reader) option" where
  "ReadRecord_loop 0 sf r fragment scratch in_fragmented prospective = None"
| "ReadRecord_loop (Suc n) sf r fragment0 scratch in_fragmented prospective = do {
     (record_type, fragment, r1) \<leftarrow> ReadPhysicalRecord 2 sf r fragment0;
     let physical_record_offset =
       end_of_buffer_offset r1 - of_nat (length (lr_buffer r1)) - of_nat kHeaderSize - of_nat (length fragment);
     if resyncing r1 \<and> record_type = kMiddleType then
       ReadRecord_loop n sf r1 fragment scratch in_fragmented prospective
     else if resyncing r1 \<and> record_type = kLastType then
       ReadRecord_loop n sf (r1\<lparr>resyncing := False\<rparr>) fragment scratch in_fragmented prospective
     else do {
       let r2 = r1\<lparr>resyncing := False\<rparr>;
       if record_type = kFullType then do {
         r3 \<leftarrow> (if in_fragmented \<and> scratch \<noteq> []
                then ReportCorruption r2 (of_nat (length scratch)) (lit ''partial record without end(1)'') else Some r2);
         Some (True, fragment, [], r3\<lparr>last_record_offset := physical_record_offset\<rparr>)
       }
       else if record_type = kFirstType then do {
         r3 \<leftarrow> (if in_fragmented \<and> scratch \<noteq> []
                then ReportCorruption r2 (of_nat (length scratch)) (lit ''partial record without end(2)'') else Some r2);
         ReadRecord_loop n sf r3 fragment fragment True physical_record_offset
       }
       else if record_type = kMiddleType then
         (if \<not> in_fragmented then do {
            r3 \<leftarrow> ReportCorruption r2 (of_nat (length fragment)) (lit ''missing start of fragmented record(1)'');
            ReadRecord_loop n sf r3 fragment scratch in_fragmented prospective
          }
          else ReadRecord_loop n sf r2 fragment (scratch @ fragment) in_fragmented prospective)
       else if record_type = kLastType then
         (if \<not> in_fragmented then do {
            r3 \<leftarrow> ReportCorruption r2 (of_nat (length fragment)) (lit ''missing start of fragmented record(2)'');
            ReadRecord_loop n sf r3 fragment scratch in_fragmented prospective
          }
          else Some (True, scratch @ fragment, scratch @ fragment, r2\<lparr>last_record_offset := prospective\<rparr>))
       else if record_type = kEof then
         Some (False, [], (if in_fragmented then [] else scratch), r2)
       else if record_type = kBadRecord then
         (if in_fragmented then do {
            r3 \<leftarrow> ReportCorruption r2 (of_nat (length scratch)) (lit ''error in middle of record'');
            ReadRecord_loop n sf r3 fragment [] False prospective
          }
          else ReadRecord_loop n sf r2 fragment scratch in_fragmented prospective)
       else do {
         r3 \<leftarrow> ReportCorruption r2 (of_nat (length fragment + (if in_fragmented then length scratch else 0)))
           (lit ''unknown record type '' @ decimal record_type);
         ReadRecord_loop n sf r3 fragment [] False prospective
       }
     }
   }"

definition ReadRecord :: "nat \<Rightarrow> 's SequentialFile \<Rightarrow> 's log_reader \<Rightarrow> (bool \<times> slice \<times> slice \<times> 's log_reader) option" where
  "ReadRecord n sf r =
     (case (if last_record_offset r < initial_offset r then SkipToInitialBlock sf r else (True, r)) of
        (ok_skip, r1) \<Rightarrow> if \<not> ok_skip then Some (False, [], [], r1) else ReadRecord_loop n sf r1 [] [] False 0)"

definition LastRecordOffset :: "'s log_reader \<Rightarrow> u64" where
  "LastRecordOffset r = last_record_offset r"

end
