(* ===== verification/LdbLogProps.thy ===== *)
theory LdbLogProps
  imports LdbLog
begin

text \<open>
  What the log files keep: the bytes the writer appends for a record, and the proof that the reader
  finds exactly the records that are complete when the file is cut anywhere.
\<close>

section \<open>The bytes of a record\<close>

definition type_byte :: "nat \<Rightarrow> byte" where
  "type_byte t = of_nat t"

definition phys :: "nat \<Rightarrow> slice \<Rightarrow> byte list" where
  "phys t d = EncodeFixed32 (crc_Mask (crc32c (type_byte t # d)))
     @ [of_nat (length d mod 256), of_nat (length d div 256), type_byte t] @ d"

lemma length_phys [simp]: "length (phys t d) = 7 + length d"
  by (simp add: phys_def)

text \<open>The unused bytes before a header at position \<open>p\<close> of the file.\<close>

definition log_pad :: "nat \<Rightarrow> nat" where
  "log_pad p = (if kBlockSize - p mod kBlockSize < kHeaderSize then kBlockSize - p mod kBlockSize else 0)"

definition frag_len :: "nat \<Rightarrow> slice \<Rightarrow> nat" where
  "frag_len p d = min (length d) (kBlockSize - kHeaderSize - (p + log_pad p) mod kBlockSize)"

definition frag_type :: "bool \<Rightarrow> bool \<Rightarrow> nat" where
  "frag_type begin_rec end_rec =
     (if begin_rec then if end_rec then kFullType else kFirstType else if end_rec then kLastType else kMiddleType)"

definition frag_bytes :: "nat \<Rightarrow> bool \<Rightarrow> slice \<Rightarrow> byte list" where
  "frag_bytes p begin_rec d =
     replicate (log_pad p) 0 @ phys (frag_type begin_rec (length d = frag_len p d)) (take (frag_len p d) d)"

lemma log_pad_less: "log_pad p < 7"
  by (simp add: log_pad_def)

lemma padded_mod: "(p + log_pad p) mod kBlockSize + kHeaderSize \<le> kBlockSize"
proof (cases "kBlockSize - p mod kBlockSize < kHeaderSize")
  case True
  have e: "p div kBlockSize * kBlockSize + p mod kBlockSize = p" by (rule div_mult_mod_eq)
  have "p mod kBlockSize < kBlockSize" by simp
  with True e have "p + log_pad p = p div kBlockSize * kBlockSize + kBlockSize" unfolding log_pad_def if_P [OF True] by linarith
  then show ?thesis by simp
next
  case False
  then show ?thesis using mod_less_divisor [of kBlockSize p] by (simp add: log_pad_def)
qed

lemma frag_len_le [simp]: "frag_len p d \<le> length d"
  by (simp add: frag_len_def)

lemma length_frag: "length (frag_bytes p b d) = log_pad p + 7 + frag_len p d"
  by (simp add: frag_bytes_def)

lemma frag_len_fits: "(p + log_pad p) mod kBlockSize + kHeaderSize + frag_len p d \<le> kBlockSize"
  using padded_mod [of p] unfolding frag_len_def by linarith

text \<open>A fragment takes bytes of the record, unless only a header fits into the block.\<close>

lemma frag_len_progress:
  assumes "frag_len p d < length d" "frag_len p d = 0"
  shows "(p + log_pad p) mod kBlockSize = 32761" "0 < frag_len (p + log_pad p + 7) d"
proof -
  let ?q = "p + log_pad p"
  show q: "?q mod kBlockSize = 32761" using assms padded_mod [of p] by (simp add: frag_len_def min_def split: if_splits)
  have "(?q + 7) mod kBlockSize = (?q mod kBlockSize + 7) mod kBlockSize" by (simp add: mod_add_left_eq)
  then have "(?q + 7) mod kBlockSize = 0" unfolding q by simp
  then have "log_pad (?q + 7) = 0" "(?q + 7) mod kBlockSize = 0" by (simp_all add: log_pad_def)
  moreover have "0 < length d" using assms(1) by linarith
  ultimately show "0 < frag_len (?q + 7) d" unfolding frag_len_def by simp
qed

function record_bytes :: "nat \<Rightarrow> bool \<Rightarrow> slice \<Rightarrow> byte list" where
  "record_bytes p begin_rec d =
     frag_bytes p begin_rec d @
     (if length d = frag_len p d then []
      else record_bytes (p + log_pad p + 7 + frag_len p d) False (drop (frag_len p d) d))"
  by auto
termination
proof (relation "measure (\<lambda>(p, b, d). 2 * length d + (if frag_len p d = 0 then 1 else 0))")
  show "wf (measure (\<lambda>(p, b :: bool, d). 2 * length d + (if frag_len p d = 0 then 1 else 0)))" by simp
next
  fix p :: nat and b :: bool and d :: slice
  assume ne: "length d \<noteq> frag_len p d"
  then have lt: "frag_len p d < length d" using frag_len_le [of p d] by linarith
  show "((p + log_pad p + 7 + frag_len p d, False, drop (frag_len p d) d), p, b, d)
     \<in> measure (\<lambda>(p, b :: bool, d). 2 * length d + (if frag_len p d = 0 then 1 else 0))"
  proof (cases "frag_len p d = 0")
    case True
    then show ?thesis using frag_len_progress(2) [OF lt True] by simp
  next
    case False
    then have "Suc (2 * (length d - frag_len p d)) < 2 * length d" using lt by arith
    then show ?thesis using False lt by simp
  qed
qed

declare record_bytes.simps [simp del]

fun log_bytes :: "nat \<Rightarrow> slice list \<Rightarrow> byte list" where
  "log_bytes p [] = []"
| "log_bytes p (d # ds) = record_bytes p True d @ log_bytes (p + length (record_bytes p True d)) ds"

section \<open>The writer\<close>

text \<open>A file whose appends succeed: \<open>content\<close> is what has been written.\<close>

definition appends :: "'w WritableFile \<Rightarrow> ('w \<Rightarrow> byte list) \<Rightarrow> bool" where
  "appends wfile content \<longleftrightarrow>
     (\<forall>d w. \<exists>w'. wf_Append wfile d w = (None, w') \<and> content w' = content w @ d) \<and>
     (\<forall>w. \<exists>w'. wf_Flush wfile w = (None, w') \<and> content w' = content w)"

lemma appendsE:
  assumes "appends wfile content"
  obtains w' where "wf_Append wfile d w = (None, w')" "content w' = content w @ d"
  using assms unfolding appends_def by blast

lemma flushE:
  assumes "appends wfile content"
  obtains w' where "wf_Flush wfile w = (None, w')" "content w' = content w"
  using assms unfolding appends_def by blast

text \<open>A writer that stands at position \<open>p\<close> of its file.\<close>

definition writer_at :: "nat \<Rightarrow> log_writer \<Rightarrow> bool" where
  "writer_at p w \<longleftrightarrow> block_offset w \<le> kBlockSize \<and> block_offset w mod kBlockSize = p mod kBlockSize
     \<and> type_crc w = map (\<lambda>t. crc32c [type_byte t]) [0 ..< 5]"

lemma InitTypeCrc_map: "InitTypeCrc is = Some (map (\<lambda>t. crc32c [type_byte t]) is)"
  by (induction "is") (simp_all add: crc_Value_bytes type_byte_def)

lemma new_Writer_at: "\<exists>w. new_Writer n = Some w \<and> writer_at (unat n) w"
  unfolding new_Writer_def InitTypeCrc_map writer_at_def by (simp add: less_imp_le)

lemma frag_type_le: "frag_type b e < 5" "0 < frag_type b e"
  by (simp_all add: frag_type_def)

lemma EmitPhysicalRecord_run:
  assumes app: "appends wfile content" and fits: "block_offset w + 7 + length d \<le> 32768" and t: "t < 5"
    and crc: "type_crc w = map (\<lambda>t. crc32c [type_byte t]) [0 ..< 5]"
  shows "\<exists>s'. EmitPhysicalRecord wfile w t d s = Some (None, w\<lparr>block_offset := block_offset w + 7 + length d\<rparr>, s')
     \<and> content s' = content s @ phys t d"
proof -
  let ?h = "EncodeFixed32 (crc_Mask (crc32c ([type_byte t] @ d))) @ [of_nat (length d mod 256), of_nat (length d div 256), of_nat t]"
  obtain s1 where s1: "wf_Append wfile ?h s = (None, s1)" "content s1 = content s @ ?h" by (rule appendsE [OF app])
  obtain s2 where s2: "wf_Append wfile d s1 = (None, s2)" "content s2 = content s1 @ d" by (rule appendsE [OF app])
  obtain s3 where s3: "wf_Flush wfile s2 = (None, s3)" "content s3 = content s2" by (rule flushE [OF app])
  have tc: "nth_opt (type_crc w) t = Some (crc32c [type_byte t])" using t by (simp add: crc del: upt_Suc)
  have g: "(length d \<le> 0xffff \<and> block_offset w + 7 + length d \<le> 32768) = True" using fits by simp
  have "EmitPhysicalRecord wfile w t d s = Some (None, w\<lparr>block_offset := block_offset w + 7 + length d\<rparr>, s3)"
    unfolding EmitPhysicalRecord_def Let_def g tc using s1(1) s2(1) s3(1) by (simp add: crc_Extend_crc32c Status_ok_def)
  moreover have "content s3 = content s @ phys t d" by (simp add: s1 s2 s3 phys_def type_byte_def)
  ultimately show ?thesis by blast
qed

lemma padded_block:
  assumes "kBlockSize - p mod kBlockSize < kHeaderSize"
  shows "(p + (kBlockSize - p mod kBlockSize)) mod kBlockSize = 0"
proof -
  have "p div kBlockSize * kBlockSize + p mod kBlockSize = p" by (rule div_mult_mod_eq)
  moreover have "p mod kBlockSize < kBlockSize" by simp
  ultimately have "p + (kBlockSize - p mod kBlockSize) = (p div kBlockSize + 1) * kBlockSize"
    unfolding add_mult_distrib by linarith
  then show ?thesis by (simp only: mod_mult_self2_is_0)
qed

lemma AddRecord_switch:
  assumes app: "appends wfile content" and at: "writer_at p w"
  shows "\<exists>s1. (if kBlockSize - block_offset w < kHeaderSize then
        (w\<lparr>block_offset := 0\<rparr>,
         if kBlockSize - block_offset w > 0 then snd (wf_Append wfile (replicate (kBlockSize - block_offset w) 0) s) else s)
      else (w, s)) = (w\<lparr>block_offset := (p + log_pad p) mod kBlockSize\<rparr>, s1) \<and> content s1 = content s @ replicate (log_pad p) 0"
proof (cases "block_offset w = kBlockSize")
  case True
  then have "p mod kBlockSize = 0" using at by (simp add: writer_at_def)
  then have "log_pad p = 0" "(p + log_pad p) mod kBlockSize = 0" by (simp_all add: log_pad_def)
  then show ?thesis using True by simp
next
  case False
  then have "block_offset w < kBlockSize" using at unfolding writer_at_def by linarith
  then have o: "block_offset w = p mod kBlockSize" using at unfolding writer_at_def by (metis mod_less)
  show ?thesis
  proof (cases "kBlockSize - p mod kBlockSize < kHeaderSize")
    case True
    have pos: "0 < kBlockSize - p mod kBlockSize" by simp
    have pad: "log_pad p = kBlockSize - p mod kBlockSize" unfolding log_pad_def if_P [OF True] ..
    obtain s1 where s1: "wf_Append wfile (replicate (log_pad p) 0) s = (None, s1)" "content s1 = content s @ replicate (log_pad p) 0"
      by (rule appendsE [OF app])
    have z: "(p + log_pad p) mod kBlockSize = 0" unfolding pad by (rule padded_block [OF True])
    show ?thesis unfolding o if_P [OF True] if_P [OF pos] z unfolding pad [symmetric] s1(1) using s1(2) by simp
  next
    case nopad: False
    then have pad: "log_pad p = 0" unfolding log_pad_def by simp
    show ?thesis unfolding o if_not_P [OF nopad] pad by (simp add: o [symmetric])
  qed
qed

lemma AddRecord_loop_run:
  assumes app: "appends wfile content"
  shows "writer_at p w \<Longrightarrow> 2 * length d + (if frag_len p d = 0 then 1 else 0) < n \<Longrightarrow>
    \<exists>w' s'. AddRecord_loop n wfile w d b s = Some (None, w', s') \<and> content s' = content s @ record_bytes p b d
      \<and> writer_at (p + length (record_bytes p b d)) w'"
proof (induction p b d arbitrary: n w s rule: record_bytes.induct)
  case (1 p b d)
  obtain n' where n: "n = Suc n'" using 1(3) by (cases n) auto
  let ?q = "p + log_pad p" and ?k = "frag_len p d"
  let ?w1 = "w\<lparr>block_offset := ?q mod kBlockSize\<rparr>" and ?e = "length d = ?k"
  obtain s1 where s1: "(if kBlockSize - block_offset w < kHeaderSize then
        (w\<lparr>block_offset := 0\<rparr>,
         if kBlockSize - block_offset w > 0 then snd (wf_Append wfile (replicate (kBlockSize - block_offset w) 0) s) else s)
      else (w, s)) = (?w1, s1)" "content s1 = content s @ replicate (log_pad p) 0"
    using AddRecord_switch [OF app 1(2)] by blast
  have fits: "block_offset ?w1 + 7 + length (take ?k d) \<le> 32768" using frag_len_fits [of p d] by simp
  let ?w2 = "?w1\<lparr>block_offset := block_offset ?w1 + 7 + length (take ?k d)\<rparr>"
  obtain s2 where s2: "EmitPhysicalRecord wfile ?w1 (frag_type b ?e) (take ?k d) s1 = Some (None, ?w2, s2)"
      "content s2 = content s1 @ phys (frag_type b ?e) (take ?k d)"
    using EmitPhysicalRecord_run [OF app fits frag_type_le(1), of b ?e s1] 1(2) unfolding writer_at_def by auto
  have content2: "content s2 = content s @ frag_bytes p b d" by (simp add: s2 s1 frag_bytes_def)
  have at2: "writer_at (?q + 7 + ?k) ?w2"
  proof -
    have "(?q mod 32768 + 7 + ?k) mod 32768 = (?q + 7 + ?k) mod 32768" by (metis add.assoc mod_add_left_eq)
    then show ?thesis using fits 1(2) by (simp add: writer_at_def add.assoc)
  qed
  have g1: "(block_offset w > kBlockSize) = False" using 1(2) by (simp add: writer_at_def)
  have g2: "(kBlockSize < block_offset ?w1 + kHeaderSize) = False" using padded_mod [of p] by simp
  have k: "(if length d < kBlockSize - block_offset ?w1 - kHeaderSize then length d else kBlockSize - block_offset ?w1 - kHeaderSize) = ?k"
    by (simp add: frag_len_def min_def)
  have t: "(if b \<and> ?e then kFullType else if b then kFirstType else if ?e then kLastType else kMiddleType) = frag_type b ?e"
    by (simp add: frag_type_def)
  have step: "AddRecord_loop n wfile w d b s =
      (if 0 < length (drop ?k d) then AddRecord_loop n' wfile ?w2 (drop ?k d) False s2 else Some (None, ?w2, s2))"
    unfolding n AddRecord_loop.simps g1 Let_def s1(1) prod.case g2 k t if_False s2(1) bind.bind_lunit by (simp add: Status_ok_def)
  show ?case
  proof (cases ?e)
    case True
    then show ?thesis using content2 at2 step by (simp add: record_bytes.simps [of p b d] length_frag add.assoc)
  next
    case False
    then have lt: "?k < length d" using frag_len_le [of p d] by linarith
    have fuel: "2 * length (drop ?k d) + (if frag_len (?q + 7 + ?k) (drop ?k d) = 0 then 1 else 0) < n'"
      using 1(3) lt frag_len_progress(2) [OF lt] unfolding n by (cases "?k = 0") auto
    obtain w' s' where r: "AddRecord_loop n' wfile ?w2 (drop ?k d) False s2 = Some (None, w', s')"
        "content s' = content s2 @ record_bytes (?q + 7 + ?k) False (drop ?k d)"
        "writer_at (?q + 7 + ?k + length (record_bytes (?q + 7 + ?k) False (drop ?k d))) w'"
      using 1(1) [OF False at2 fuel] by blast
    show ?thesis using r content2 step lt False by (simp add: record_bytes.simps [of p b d] length_frag add.assoc)
  qed
qed

lemma AddRecord_run:
  assumes "appends wfile content" "writer_at p w"
  shows "\<exists>w' s'. AddRecord wfile w d s = Some (None, w', s') \<and> content s' = content s @ record_bytes p True d
      \<and> writer_at (p + length (record_bytes p True d)) w'"
  unfolding AddRecord_def by (rule AddRecord_loop_run [OF assms]) simp

text \<open>The calls of a client that adds records one after the other.\<close>

fun AddRecords :: "'w WritableFile \<Rightarrow> log_writer \<Rightarrow> slice list \<Rightarrow> 'w \<Rightarrow> (log_writer \<times> 'w) option" where
  "AddRecords wfile w [] s = Some (w, s)"
| "AddRecords wfile w (d # ds) s = do { (st, w1, s1) \<leftarrow> AddRecord wfile w d s; AddRecords wfile w1 ds s1 }"

lemma AddRecords_run:
  assumes "appends wfile content"
  shows "writer_at p w \<Longrightarrow> \<exists>w' s'. AddRecords wfile w ds s = Some (w', s') \<and> content s' = content s @ log_bytes p ds
      \<and> writer_at (p + length (log_bytes p ds)) w'"
proof (induction ds arbitrary: p w s)
  case Nil
  then show ?case by simp
next
  case (Cons d ds)
  obtain w1 s1 where 1: "AddRecord wfile w d s = Some (None, w1, s1)" "content s1 = content s @ record_bytes p True d"
      "writer_at (p + length (record_bytes p True d)) w1"
    using AddRecord_run [OF assms Cons.prems] by blast
  obtain w2 s2 where 2: "AddRecords wfile w1 ds s1 = Some (w2, s2)"
      "content s2 = content s1 @ log_bytes (p + length (record_bytes p True d)) ds"
      "writer_at (p + length (record_bytes p True d) + length (log_bytes (p + length (record_bytes p True d)) ds)) w2"
    using Cons.IH [OF 1(3)] by blast
  show ?case using 1 2 by (simp add: add.assoc)
qed

section \<open>The reader\<close>

text \<open>A file whose reads succeed: \<open>rest\<close> is what has not been read.\<close>

definition reads :: "'s SequentialFile \<Rightarrow> ('s \<Rightarrow> byte list) \<Rightarrow> bool" where
  "reads sf rest \<longleftrightarrow> (\<forall>n s. \<exists>s'. sf_Read sf n s = (None, take n (rest s), s') \<and> rest s' = drop n (rest s))"

text \<open>
  A reader that stands at position \<open>p\<close> of the file \<open>F\<close>: its buffer ends at \<open>e\<close>, in the block of \<open>p\<close>
  or at its end, and it has reported nothing.
\<close>

definition reader_at :: "('s \<Rightarrow> byte list) \<Rightarrow> byte list \<Rightarrow> nat \<Rightarrow> 's log_reader \<Rightarrow> bool" where
  "reader_at rest F p r \<longleftrightarrow> initial_offset r = 0 \<and> \<not> resyncing r \<and> lr_reports r = [] \<and>
     (\<exists>e. p \<le> e \<and> e \<le> length F \<and> lr_buffer r = drop p (take e F) \<and> rest (lr_file r) = drop e F
        \<and> e \<le> p div kBlockSize * kBlockSize + kBlockSize
        \<and> (if lr_eof r then e = length F \<and> length F < p div kBlockSize * kBlockSize + kBlockSize else kBlockSize dvd e))"

lemma reader_at_upd [simp]:
  "reader_at rest F p (r\<lparr>last_record_offset := x\<rparr>) = reader_at rest F p r"
  by (simp add: reader_at_def)

lemma reader_at_resync: "reader_at rest F p r \<Longrightarrow> reader_at rest F p (r\<lparr>resyncing := False\<rparr>)"
  by (simp add: reader_at_def)

lemma new_Reader_at: "rest s = F \<Longrightarrow> reader_at rest F 0 (new_Reader s reporter checksum 0)"
  unfolding reader_at_def new_Reader_def by (intro conjI exI [of _ "0::nat"]) simp_all

lemma phys_parts:
  assumes "length d < 65536"
  shows "phys t d ! 6 = type_byte t" "unat (phys t d ! 4) + 256 * unat (phys t d ! 5) = length d"
    "take (1 + length d) (drop 6 (phys t d)) = type_byte t # d" "drop 7 (phys t d) = d"
proof -
  have d: "length d div 256 < 256" using assms by (simp add: less_mult_imp_div_less)
  have "unat (of_nat (length d mod 256) :: byte) = length d mod 256" "unat (of_nat (length d div 256) :: byte) = length d div 256"
    using d by (simp_all add: unat_of_nat_small)
  then show "unat (phys t d ! 4) + 256 * unat (phys t d ! 5) = length d" by (simp add: phys_def nth_append)
qed (simp_all add: phys_def nth_append)

lemma type_value: "t < 7 \<Longrightarrow> unat (scast (type_byte t) :: u32) = t"
proof -
  assume "t < 7"
  then have "t = 0 \<or> t = 1 \<or> t = 2 \<or> t = 3 \<or> t = 4 \<or> t = 5 \<or> t = 6" by linarith
  then show ?thesis by (elim disjE) (simp_all add: type_byte_def)
qed

lemma parse_record:
  assumes buf: "lr_buffer r = phys t d @ rest_bytes" and t: "0 < t" "t < 7" and d: "length d < 65536" and i: "initial_offset r = 0"
  shows "ReadPhysicalRecord (Suc n) sf r res = Some (t, d, r\<lparr>lr_buffer := rest_bytes\<rparr>)"
proof -
  note ph = phys_parts [OF d, of t]
  have h: "(phys t d @ rest_bytes) ! 6 = type_byte t" "unat ((phys t d @ rest_bytes) ! 4) + 256 * unat ((phys t d @ rest_bytes) ! 5) = length d"
    using ph(1,2) by (simp_all add: nth_append)
  have ty: "unat (scast (type_byte t) :: u32) = t" by (rule type_value) (use t in simp)
  have c: "crc_Value 0 (take (1 + length d) (drop 6 (phys t d @ rest_bytes))) = Some (crc32c (type_byte t # d))"
    using ph(3) by (simp add: crc_Value_bytes)
  have e: "DecodeFixed32 (phys t d @ rest_bytes) = Some (crc_Mask (crc32c (type_byte t # d)))"
    unfolding phys_def append_assoc by (rule DecodeFixed32_Encode)
  have l: "(length (phys t d @ rest_bytes) < kHeaderSize) = False" "(kHeaderSize + length d > length (phys t d @ rest_bytes)) = False" by simp_all
  show ?thesis
    unfolding ReadPhysicalRecord.simps buf Let_def l if_False h ty c e bind.bind_lunit Unmask_Mask using t i ph(4) by simp
qed

lemma parse_cut:
  assumes buf: "lr_buffer r = take k (phys t d)" and k: "k < 7 + length d" and d: "length d < 65536" and eof: "lr_eof r"
  shows "ReadPhysicalRecord (Suc n) sf r res = Some (kEof, res, r\<lparr>lr_buffer := []\<rparr>)"
proof (cases "k < 7")
  case True
  then show ?thesis using eof by (simp add: buf)
next
  case False
  have l: "length (lr_buffer r) = k" using k by (simp add: buf)
  have h: "unat (lr_buffer r ! 4) + 256 * unat (lr_buffer r ! 5) = length d" using phys_parts(2) [OF d, of t] False by (simp add: buf)
  show ?thesis unfolding ReadPhysicalRecord.simps Let_def l h using False k eof by simp
qed

section \<open>One fragment\<close>

lemma log_pad_0: "p + 7 \<le> p div kBlockSize * kBlockSize + kBlockSize \<Longrightarrow> log_pad p = 0"
proof -
  assume a: "p + 7 \<le> p div kBlockSize * kBlockSize + kBlockSize"
  have "p div kBlockSize * kBlockSize + p mod kBlockSize = p" by (rule div_mult_mod_eq)
  with a have "\<not> kBlockSize - p mod kBlockSize < kHeaderSize" by linarith
  then show ?thesis by (simp add: log_pad_def)
qed

lemma log_pad_end:
  assumes "log_pad p \<noteq> 0"
  shows "p + log_pad p = p div kBlockSize * kBlockSize + kBlockSize"
proof -
  have c: "kBlockSize - p mod kBlockSize < kHeaderSize" using assms by (simp add: log_pad_def split: if_splits)
  have "p div kBlockSize * kBlockSize + p mod kBlockSize = p" by (rule div_mult_mod_eq)
  moreover have "p mod kBlockSize < kBlockSize" by simp
  ultimately show ?thesis unfolding log_pad_def if_P [OF c] by linarith
qed

lemma log_pad_multiple:
  assumes e: "kBlockSize dvd e" "p \<le> e" "e < p + 7"
  shows "p + log_pad p = e"
proof -
  obtain m where m: "e = kBlockSize * m" using e(1) by blast
  have dm: "p div kBlockSize * kBlockSize + p mod kBlockSize = p" by (rule div_mult_mod_eq)
  have lt: "p mod kBlockSize < kBlockSize" by simp
  show ?thesis
  proof (cases "p = e")
    case True
    then show ?thesis by (simp add: m log_pad_def)
  next
    case False
    have "p div kBlockSize < m" using e(2) False m by (metis div_less_iff_less_mult le_neq_implies_less mult.commute zero_less_numeral)
    moreover have "m * kBlockSize < (p div kBlockSize + 2) * kBlockSize" using e(3) dm lt m unfolding add_mult_distrib by linarith
    ultimately have "m = p div kBlockSize + 1" by simp
    then have ee: "e = p div kBlockSize * kBlockSize + kBlockSize" by (simp add: m)
    then have c: "kBlockSize - p mod kBlockSize < kHeaderSize" using e(3) dm by linarith
    show ?thesis unfolding log_pad_def if_P [OF c] using ee dm lt by linarith
  qed
qed

lemma block_mono: "(p :: nat) \<le> q \<Longrightarrow> p div kBlockSize * kBlockSize \<le> q div kBlockSize * kBlockSize"
  by (intro mult_le_mono1 div_le_mono)

text \<open>A buffer that is used up before the end of the file is filled from the next block.\<close>

lemma refill:
  assumes rd: "reads sf rest" and at: "reader_at rest F p r" and short: "length (lr_buffer r) < 7" and more: "\<not> lr_eof r"
  shows "\<exists>r1. ReadPhysicalRecord (Suc n) sf r res = ReadPhysicalRecord n sf r1 res \<and> reader_at rest F (p + log_pad p) r1
    \<and> (7 \<le> length (lr_buffer r1) \<or> lr_eof r1)"
proof -
  obtain e where e: "p \<le> e" "e \<le> length F" "lr_buffer r = drop p (take e F)" "rest (lr_file r) = drop e F" "kBlockSize dvd e"
    using at more unfolding reader_at_def by auto
  have "length (lr_buffer r) = e - p" using e(1-3) by simp
  then have "e < p + 7" using short e(1) by linarith
  then have q: "p + log_pad p = e" by (rule log_pad_multiple [OF e(5,1)])
  have be: "e div kBlockSize * kBlockSize = e" using e(5) by simp
  obtain s' where s': "sf_Read sf kBlockSize (lr_file r) = (None, take kBlockSize (drop e F), s')"
      "rest s' = drop kBlockSize (drop e F)"
    using rd unfolding reads_def e(4) [symmetric] by blast
  let ?b = "take kBlockSize (drop e F)"
  let ?r = "r\<lparr>lr_file := s', lr_buffer := ?b, end_of_buffer_offset := end_of_buffer_offset r + of_nat (length ?b)\<rparr>"
  let ?r1 = "if length ?b < kBlockSize then ?r\<lparr>lr_eof := True\<rparr> else ?r"
  have step: "ReadPhysicalRecord (Suc n) sf r res = ReadPhysicalRecord n sf ?r1 res"
    unfolding ReadPhysicalRecord.simps s'(1) Let_def prod.case using short more by (simp add: Status_ok_def)
  have at1: "reader_at rest F e ?r1"
  proof (cases "length ?b < kBlockSize")
    case True
    then have "length F < e + kBlockSize" by auto
    then show ?thesis unfolding if_P [OF True] reader_at_def be using e(2) s'(2) at
      by (intro conjI exI [of _ "length F"]) (simp_all add: reader_at_def)
  next
    case False
    then have "e + kBlockSize \<le> length F" by auto
    then show ?thesis unfolding if_not_P [OF False] reader_at_def be using e(5) s'(2) at more
      by (intro conjI exI [of _ "e + kBlockSize"]) (simp_all add: reader_at_def take_drop add.commute)
  qed
  have "7 \<le> length (lr_buffer ?r1) \<or> lr_eof ?r1" by auto
  then show ?thesis using step at1 unfolding q by blast
qed

text \<open>Before a header is read, the reader is at the header, or the file ends in the bytes before it.\<close>

lemma advance:
  assumes rd: "reads sf rest" and at: "reader_at rest F p r"
  shows "\<exists>r1 n. ReadPhysicalRecord 2 sf r res = ReadPhysicalRecord (Suc n) sf r1 res \<and> (7 \<le> length (lr_buffer r1) \<or> lr_eof r1)
    \<and> (reader_at rest F (p + log_pad p) r1
       \<or> length F < p + log_pad p \<and> lr_eof r1 \<and> length (lr_buffer r1) < 7 \<and> reader_at rest F p r1)"
proof -
  have two: "(2 :: nat) = Suc 1" by simp
  obtain e where e: "p \<le> e" "e \<le> length F" "lr_buffer r = drop p (take e F)" "e \<le> p div kBlockSize * kBlockSize + kBlockSize"
      "if lr_eof r then e = length F \<and> length F < p div kBlockSize * kBlockSize + kBlockSize else kBlockSize dvd e"
    using at unfolding reader_at_def by blast
  have len: "length (lr_buffer r) = e - p" using e(1-3) by simp
  consider (ready) "7 \<le> length (lr_buffer r)" | (last) "length (lr_buffer r) < 7" "lr_eof r" | (fill) "length (lr_buffer r) < 7" "\<not> lr_eof r"
    by linarith
  then show ?thesis
  proof cases
    case ready
    then have "log_pad p = 0" using e len by (intro log_pad_0) linarith
    then show ?thesis using ready at unfolding two by (intro exI [of _ r] exI [of _ 1]) simp
  next
    case last
    show ?thesis
    proof (cases "log_pad p = 0")
      case True
      then show ?thesis using last at unfolding two by (intro exI [of _ r] exI [of _ 1]) simp
    next
      case False
      have "length F < p + log_pad p" unfolding log_pad_end [OF False] using e(5) last(2) by simp
      then show ?thesis using last at unfolding two by (intro exI [of _ r] exI [of _ 1]) simp
    qed
  next
    case fill
    obtain r1 where "ReadPhysicalRecord (Suc 1) sf r res = ReadPhysicalRecord 1 sf r1 res" "reader_at rest F (p + log_pad p) r1"
        "7 \<le> length (lr_buffer r1) \<or> lr_eof r1"
      using refill [OF rd at fill, of 1 res] by blast
    then show ?thesis unfolding two by (intro exI [of _ r1] exI [of _ 0]) simp
  qed
qed

lemma frag_types:
  shows "frag_len p d < 65536"
  using frag_len_fits [of p d] by linarith

text \<open>The end of the buffer of a reader that is ready to read a fragment.\<close>

lemma buffer_end:
  assumes at: "reader_at rest F q r" and ready: "7 \<le> length (lr_buffer r) \<or> lr_eof r" and fits: "q mod kBlockSize + 7 + k \<le> kBlockSize"
  obtains e where "q \<le> e" "e \<le> length F" "lr_buffer r = take (e - q) (drop q F)" "rest (lr_file r) = drop e F"
    "e \<le> q div kBlockSize * kBlockSize + kBlockSize" "e = length F \<or> q + 7 + k \<le> e"
    "if lr_eof r then e = length F \<and> length F < q div kBlockSize * kBlockSize + kBlockSize else kBlockSize dvd e"
    "lr_eof r \<or> q + 7 + k \<le> e"
proof -
  obtain e where e: "q \<le> e" "e \<le> length F" "lr_buffer r = drop q (take e F)" "rest (lr_file r) = drop e F"
      "e \<le> q div kBlockSize * kBlockSize + kBlockSize"
      "if lr_eof r then e = length F \<and> length F < q div kBlockSize * kBlockSize + kBlockSize else kBlockSize dvd e"
    using at unfolding reader_at_def by blast
  have "lr_eof r \<or> q + 7 + k \<le> e"
  proof (cases "lr_eof r")
    case False
    then have 7: "q + 7 \<le> e" "kBlockSize dvd e" using ready e by auto
    then obtain m where m: "e = kBlockSize * m" by blast
    have "q div kBlockSize < m" using 7(1) m by (metis add_leE div_less_iff_less_mult le_neq_implies_less less_add_same_cancel1 mult.commute not_le zero_less_numeral)
    then have "(q div kBlockSize + 1) * kBlockSize \<le> m * kBlockSize" by (intro mult_le_mono1) simp
    moreover have "q div kBlockSize * kBlockSize + q mod kBlockSize = q" by (rule div_mult_mod_eq)
    ultimately show ?thesis using fits m unfolding add_mult_distrib by linarith
  qed simp
  then show thesis using e by (intro that [of e]) (auto simp: drop_take split: if_splits)
qed

lemma read_fragment:
  assumes rd: "reads sf rest" and at: "reader_at rest F p r" and F: "drop p F = frag_bytes p b d @ C"
  shows "\<exists>r'. ReadPhysicalRecord 2 sf r res = Some (frag_type b (length d = frag_len p d), take (frag_len p d) d, r')
    \<and> reader_at rest F (p + length (frag_bytes p b d)) r'"
proof -
  let ?k = "frag_len p d" and ?q = "p + log_pad p" and ?t = "frag_type b (length d = frag_len p d)"
  have "p \<le> length F" using at unfolding reader_at_def by (blast intro: le_trans)
  then have len: "p + length (frag_bytes p b d) + length C = length F" using arg_cong [OF F, of length] by simp
  then have notshort: "\<not> length F < ?q" by (simp add: length_frag)
  obtain r1 n where r1: "ReadPhysicalRecord 2 sf r res = ReadPhysicalRecord (Suc n) sf r1 res"
      "7 \<le> length (lr_buffer r1) \<or> lr_eof r1" "reader_at rest F ?q r1"
    using advance [OF rd at, of res] notshort by blast
  obtain e where e: "?q \<le> e" "e \<le> length F" "lr_buffer r1 = take (e - ?q) (drop ?q F)" "rest (lr_file r1) = drop e F"
      "e \<le> ?q div kBlockSize * kBlockSize + kBlockSize" "e = length F \<or> ?q + 7 + ?k \<le> e"
      "if lr_eof r1 then e = length F \<and> length F < ?q div kBlockSize * kBlockSize + kBlockSize else kBlockSize dvd e"
    using buffer_end [OF r1(3) r1(2) frag_len_fits [of p d]] by metis
  have e2: "?q + 7 + ?k \<le> e" using e(6) len by (auto simp: length_frag)
  have dropq: "drop ?q F = phys ?t (take ?k d) @ C" using arg_cong [OF F, of "drop (log_pad p)"] by (simp add: frag_bytes_def add.commute)
  have buf: "lr_buffer r1 = phys ?t (take ?k d) @ take (e - (?q + 7 + ?k)) C" using e2 by (simp add: e(3) dropq add.assoc)
  have tk: "length (take ?k d) = ?k" by simp
  have i: "initial_offset r1 = 0" using r1(3) by (simp add: reader_at_def)
  have small: "length (take ?k d) < 65536" unfolding tk by (rule frag_types)
  let ?r2 = "r1\<lparr>lr_buffer := take (e - (?q + 7 + ?k)) C\<rparr>"
  have res: "ReadPhysicalRecord 2 sf r res = Some (?t, take ?k d, ?r2)"
    unfolding r1(1) by (rule parse_record [OF buf frag_type_le(2) less_trans [OF frag_type_le(1)] small i]) simp
  have dropC: "drop (?q + 7 + ?k) F = C" using arg_cong [OF dropq, of "drop (7 + ?k)"] by (simp add: ac_simps)
  have "reader_at rest F (?q + 7 + ?k) ?r2"
    unfolding reader_at_def using r1(3) e e2 block_mono [of ?q "?q + 7 + ?k"]
    by (intro conjI exI [of _ e]) (auto simp: reader_at_def drop_take dropC split: if_splits)
  then show ?thesis using res by (simp add: length_frag add.assoc)
qed

lemma eof_at_end:
  assumes at: "reader_at rest F p r" and eof: "lr_eof r"
  shows "reader_at rest F (length F) (r\<lparr>lr_buffer := []\<rparr>)"
proof -
  obtain e where e: "p \<le> e" "e = length F" "rest (lr_file r) = drop e F" "length F < p div kBlockSize * kBlockSize + kBlockSize"
    using at eof unfolding reader_at_def by fastforce
  have "p div kBlockSize * kBlockSize \<le> length F div kBlockSize * kBlockSize" using e(1,2) by (intro block_mono) simp
  then have "length F < length F div kBlockSize * kBlockSize + kBlockSize" using e(4) by linarith
  then show ?thesis using at eof e unfolding reader_at_def by (intro conjI exI [of _ "length F"]) simp_all
qed

lemma reader_at_le: "reader_at rest F p r \<Longrightarrow> p \<le> length F"
  unfolding reader_at_def by (blast intro: le_trans)

text \<open>A fragment that is cut off ends the file without a report.\<close>

lemma read_cut:
  assumes rd: "reads sf rest" and at: "reader_at rest F p r" and F: "drop p F = take k (frag_bytes p b d)"
    and k: "k < length (frag_bytes p b d)"
  shows "\<exists>r'. ReadPhysicalRecord 2 sf r res = Some (kEof, res, r') \<and> reader_at rest F (length F) r'"
proof -
  let ?k = "frag_len p d" and ?q = "p + log_pad p" and ?t = "frag_type b (length d = frag_len p d)"
  have len: "length F < ?q + 7 + ?k" using arg_cong [OF F, of length] k reader_at_le [OF at] by (simp add: length_frag)
  obtain r1 n where r1: "ReadPhysicalRecord 2 sf r res = ReadPhysicalRecord (Suc n) sf r1 res" "7 \<le> length (lr_buffer r1) \<or> lr_eof r1"
      "reader_at rest F ?q r1 \<or> length F < ?q \<and> lr_eof r1 \<and> length (lr_buffer r1) < 7 \<and> reader_at rest F p r1"
    using advance [OF rd at, of res] by blast
  have "ReadPhysicalRecord (Suc n) sf r1 res = Some (kEof, res, r1\<lparr>lr_buffer := []\<rparr>) \<and> lr_eof r1"
  proof (cases "reader_at rest F ?q r1")
    case True
    obtain e where e: "e \<le> length F" "lr_buffer r1 = take (e - ?q) (drop ?q F)" "lr_eof r1 \<or> ?q + 7 + ?k \<le> e" "e = length F \<or> ?q + 7 + ?k \<le> e"
      using buffer_end [OF True r1(2) frag_len_fits [of p d]] by metis
    have eof: "lr_eof r1" "e = length F" using e(1,3,4) len by auto
    have "drop ?q F = take (k - log_pad p) (phys ?t (take ?k d))"
      using arg_cong [OF F, of "drop (log_pad p)"] unfolding drop_take frag_bytes_def by (simp add: add.commute)
    then have buf: "lr_buffer r1 = take (k - log_pad p) (phys ?t (take ?k d))"
      unfolding e(2) eof(2) length_drop [symmetric] by (simp only: take_all order_refl)
    have tk: "length (take ?k d) = ?k" by simp
    have kk: "k - log_pad p < 7 + length (take ?k d)" using k unfolding tk by (simp add: length_frag)
    show ?thesis using parse_cut [OF buf kk _ eof(1)] frag_types [of p d] eof(1) unfolding tk by simp
  next
    case False
    then show ?thesis using r1(3) by simp
  qed
  moreover have "lr_eof r1 \<Longrightarrow> reader_at rest F (length F) (r1\<lparr>lr_buffer := []\<rparr>)"
    using r1(3) eof_at_end by blast
  ultimately show ?thesis unfolding r1(1) by blast
qed

section \<open>Whole records\<close>

lemma read_record:
  assumes rd: "reads sf rest"
  shows "reader_at rest F p r \<Longrightarrow> drop p F = record_bytes p b d @ C \<Longrightarrow> length F - p < n \<Longrightarrow> (b \<Longrightarrow> S = []) \<Longrightarrow>
    \<exists>sc r'. ReadRecord_loop n sf r fr S (\<not> b) pr = Some (True, S @ d, sc, r')
      \<and> reader_at rest F (p + length (record_bytes p b d)) r'"
proof (induction p b d arbitrary: n r fr S pr rule: record_bytes.induct)
  case (1 p b d)
  obtain n' where n: "n = Suc n'" using 1(4) by (cases n) auto
  let ?k = "frag_len p d" and ?e = "length d = frag_len p d"
  let ?p1 = "p + log_pad p + 7 + ?k"
  let ?C = "(if ?e then [] else record_bytes ?p1 False (drop ?k d)) @ C"
  have F: "drop p F = frag_bytes p b d @ ?C" using 1(3) by (subst (asm) record_bytes.simps) simp
  obtain r1 where r1: "ReadPhysicalRecord 2 sf r fr = Some (frag_type b ?e, take ?k d, r1)" "reader_at rest F ?p1 r1"
    using read_fragment [OF rd 1(2) F] by (auto simp: length_frag add.assoc)
  let ?r1 = "r1\<lparr>resyncing := False\<rparr>"
  note at1 = reader_at_resync [OF r1(2)]
  have nr: "\<not> resyncing r1" using r1(2) by (simp add: reader_at_def)
  show ?case
  proof (cases ?e)
    case True
    have "\<exists>sc pro. ReadRecord_loop n sf r fr S (\<not> b) pr = Some (True, S @ d, sc, ?r1\<lparr>last_record_offset := pro\<rparr>)"
      unfolding n using r1(1) nr True 1(5) by (cases b) (auto simp: frag_type_def)
    moreover have "p + length (record_bytes p b d) = ?p1" using True by (simp add: record_bytes.simps [of p b d] length_frag)
    ultimately show ?thesis using at1 by (metis reader_at_upd)
  next
    case False
    have "drop ?p1 F = drop (length (frag_bytes p b d)) (drop p F)" by (simp add: length_frag add.assoc add.commute add.left_commute)
    then have F1: "drop ?p1 F = record_bytes ?p1 False (drop ?k d) @ C" unfolding F using False by simp
    have fuel: "length F - ?p1 < n'" using 1(4) reader_at_le [OF r1(2)] unfolding n by linarith
    have step: "\<exists>pr'. ReadRecord_loop n sf r fr S (\<not> b) pr = ReadRecord_loop n' sf ?r1 (take ?k d) (S @ take ?k d) (\<not> False) pr'"
      unfolding n using r1(1) nr False 1(5) by (cases b) (auto simp: frag_type_def)
    then obtain pr' where pr': "ReadRecord_loop n sf r fr S (\<not> b) pr = ReadRecord_loop n' sf ?r1 (take ?k d) (S @ take ?k d) (\<not> False) pr'" by blast
    obtain sc r' where "ReadRecord_loop n' sf ?r1 (take ?k d) (S @ take ?k d) (\<not> False) pr' = Some (True, (S @ take ?k d) @ drop ?k d, sc, r')"
        "reader_at rest F (?p1 + length (record_bytes ?p1 False (drop ?k d))) r'"
      using 1(1) [OF False at1 F1 fuel, of "S @ take ?k d" "take ?k d" pr'] by blast
    then show ?thesis unfolding pr' using False by (simp add: record_bytes.simps [of p b d] length_frag add.assoc)
  qed
qed

lemma read_record_cut:
  assumes rd: "reads sf rest"
  shows "reader_at rest F p r \<Longrightarrow> drop p F = take k (record_bytes p b d) \<Longrightarrow> k < length (record_bytes p b d) \<Longrightarrow> length F - p < n \<Longrightarrow>
    \<exists>sc r'. ReadRecord_loop n sf r fr S (\<not> b) pr = Some (False, [], sc, r') \<and> reader_at rest F (length F) r'"
proof (induction p b d arbitrary: n r fr S pr k rule: record_bytes.induct)
  case (1 p b d)
  obtain n' where n: "n = Suc n'" using 1(5) by (cases n) auto
  let ?k = "frag_len p d" and ?e = "length d = frag_len p d" and ?l = "length (frag_bytes p b d)"
  let ?p1 = "p + log_pad p + 7 + ?k"
  show ?case
  proof (cases "k < ?l")
    case True
    then have F: "drop p F = take k (frag_bytes p b d)" using 1(3) by (subst (asm) record_bytes.simps) simp
    obtain r1 where r1: "ReadPhysicalRecord 2 sf r fr = Some (kEof, fr, r1)" "reader_at rest F (length F) r1"
      using read_cut [OF rd 1(2) F True] by blast
    have nr: "\<not> resyncing r1" using r1(2) by (simp add: reader_at_def)
    show ?thesis unfolding n using r1 nr reader_at_resync [OF r1(2)] by simp
  next
    case False
    have ne: "\<not> ?e" using 1(4) False by (subst (asm) record_bytes.simps) auto
    let ?R = "record_bytes ?p1 False (drop ?k d)"
    have F: "drop p F = frag_bytes p b d @ take (k - ?l) ?R" using 1(3) False ne by (subst (asm) record_bytes.simps) simp
    obtain r1 where r1: "ReadPhysicalRecord 2 sf r fr = Some (frag_type b ?e, take ?k d, r1)" "reader_at rest F ?p1 r1"
      using read_fragment [OF rd 1(2) F] by (auto simp: length_frag add.assoc)
    let ?r1 = "r1\<lparr>resyncing := False\<rparr>"
    note at1 = reader_at_resync [OF r1(2)]
    have nr: "\<not> resyncing r1" using r1(2) by (simp add: reader_at_def)
    have "drop ?p1 F = drop ?l (drop p F)" by (simp add: length_frag add.assoc add.commute add.left_commute)
    then have F1: "drop ?p1 F = take (k - ?l) ?R" unfolding F by simp
    have k1: "k - ?l < length ?R" using 1(4) False ne by (subst (asm) record_bytes.simps) auto
    have fuel: "length F - ?p1 < n'" using 1(5) reader_at_le [OF r1(2)] unfolding n by linarith
    have "\<exists>S' pr'. ReadRecord_loop n sf r fr S (\<not> b) pr = ReadRecord_loop n' sf ?r1 (take ?k d) S' (\<not> False) pr'"
    proof (cases b)
      case True
      then show ?thesis unfolding n using r1(1) nr ne by (auto simp: frag_type_def)
    next
      case False
      then show ?thesis unfolding n using r1(1) nr ne by (auto simp: frag_type_def)
    qed
    then obtain S' pr' where pr': "ReadRecord_loop n sf r fr S (\<not> b) pr = ReadRecord_loop n' sf ?r1 (take ?k d) S' (\<not> False) pr'" by blast
    show ?thesis unfolding pr' by (rule 1(1) [OF ne at1 F1 k1 fuel])
  qed
qed

section \<open>Whole files\<close>

text \<open>
  The loop of a client: it reads until there is no more record. The number of records that end within
  the first \<open>k\<close> bytes is \<open>complete_records\<close>.
\<close>

fun ReadRecords :: "nat \<Rightarrow> nat \<Rightarrow> 's SequentialFile \<Rightarrow> 's log_reader \<Rightarrow> (slice list \<times> 's log_reader) option" where
  "ReadRecords 0 n sf r = None"
| "ReadRecords (Suc m) n sf r = do {
     (more, data, scratch, r1) \<leftarrow> ReadRecord n sf r;
     if more then do { (ds, r2) \<leftarrow> ReadRecords m n sf r1; Some (data # ds, r2) } else Some ([], r1)
   }"

fun complete_records :: "nat \<Rightarrow> nat \<Rightarrow> slice list \<Rightarrow> nat" where
  "complete_records p k [] = 0"
| "complete_records p k (d # ds) =
     (let q = p + length (record_bytes p True d) in if q \<le> k then Suc (complete_records q k ds) else 0)"

lemma record_bytes_nonempty: "0 < length (record_bytes p b d)"
  by (simp add: record_bytes.simps [of p b d] length_frag)

lemma ReadRecord_start:
  assumes "reader_at rest F p r"
  shows "ReadRecord n sf r = ReadRecord_loop n sf r [] [] (\<not> True) 0"
  using assms by (simp add: ReadRecord_def reader_at_def)

lemma ReadRecords_run:
  assumes rd: "reads sf rest"
  shows "reader_at rest F p r \<Longrightarrow> drop p F = take (k - p) (log_bytes p ds) \<Longrightarrow> p \<le> k \<Longrightarrow> length F - p < m \<Longrightarrow> length F < n \<Longrightarrow>
    \<exists>r'. ReadRecords m n sf r = Some (take (complete_records p k ds) ds, r') \<and> lr_reports r' = []"
proof (induction ds arbitrary: p r m)
  case Nil
  obtain m' where m: "m = Suc m'" using Nil(4) by (cases m) auto
  have F: "drop p F = take 0 (record_bytes p True [])" using Nil(2) by simp
  obtain sc r' where "ReadRecord_loop n sf r [] [] (\<not> True) 0 = Some (False, [], sc, r')" "reader_at rest F (length F) r'"
    using read_record_cut [OF rd Nil(1) F record_bytes_nonempty, of n "[]" "[]" 0] le_less_trans [OF diff_le_self Nil(5)] by auto
  then show ?case unfolding m ReadRecords.simps ReadRecord_start [OF Nil(1)] by (simp add: reader_at_def)
next
  case (Cons d ds)
  obtain m' where m: "m = Suc m'" using Cons.prems(4) by (cases m) auto
  let ?R = "record_bytes p True d"
  let ?q = "p + length ?R"
  have n: "length F - p < n" using Cons.prems(5) by linarith
  show ?case
  proof (cases "?q \<le> k")
    case True
    then have F: "drop p F = ?R @ take (k - ?q) (log_bytes ?q ds)" using Cons.prems(2) by simp
    obtain sc r' where r': "ReadRecord_loop n sf r [] [] (\<not> True) 0 = Some (True, d, sc, r')" "reader_at rest F ?q r'"
      using read_record [OF rd Cons.prems(1) F n, of "[]" "[]" 0] by auto
    have "drop ?q F = drop (length ?R) (drop p F)" by (simp add: add.commute)
    then have F1: "drop ?q F = take (k - ?q) (log_bytes ?q ds)" unfolding F by simp
    have "length F - ?q < m'" using Cons.prems(4) reader_at_le [OF r'(2)] record_bytes_nonempty [of p True d] unfolding m by linarith
    then obtain r2 where "ReadRecords m' n sf r' = Some (take (complete_records ?q k ds) ds, r2)" "lr_reports r2 = []"
      using Cons.IH [OF r'(2) F1 True _ Cons.prems(5)] by blast
    then show ?thesis unfolding m ReadRecords.simps ReadRecord_start [OF Cons.prems(1)] r'(1) using True by simp
  next
    case False
    then have F: "drop p F = take (k - p) ?R" "k - p < length ?R" using Cons.prems(2,3) by simp_all
    obtain sc r' where "ReadRecord_loop n sf r [] [] (\<not> True) 0 = Some (False, [], sc, r')" "reader_at rest F (length F) r'"
      using read_record_cut [OF rd Cons.prems(1) F n, of "[]" "[]" 0] by auto
    then show ?thesis unfolding m ReadRecords.simps ReadRecord_start [OF Cons.prems(1)] using False by (simp add: reader_at_def)
  qed
qed

lemma complete_records_all: "p + length (log_bytes p ds) \<le> k \<Longrightarrow> complete_records p k ds = length ds"
proof (induction ds arbitrary: p)
  case (Cons d ds)
  then show ?case using Cons.IH [of "p + length (record_bytes p True d)"] by (simp add: Let_def add.assoc)
qed simp

text \<open>
  C4: Records are written to an empty log and read back, also from a file that is cut anywhere, as a
  crash may leave it. The writer never fails an assertion; what it appends depends on the records
  only. If the reader finds the first \<open>k\<close> of these bytes, it returns exactly the records that are
  complete in them, in order and unchanged, whether it checks the checksums or not, and reports no
  corruption; the whole file gives all records. Reading ends within a number of turns bounded by
  the length of the file.
\<close>

theorem log_recovery:
  assumes app: "appends wfile content" "content s = []" and read: "reads sf rest"
  shows "\<exists>w w' s'. new_Writer 0 = Some w \<and> AddRecords wfile w ds s = Some (w', s') \<and>
    (\<forall>k f reporter checksum. rest f = take k (content s') \<longrightarrow>
      (\<exists>r'. ReadRecords (k + 1) (k + 1) sf (new_Reader f reporter checksum 0) = Some (take (complete_records 0 k ds) ds, r')
        \<and> lr_reports r' = []) \<and>
      (length (content s') \<le> k \<longrightarrow> take (complete_records 0 k ds) ds = ds))"
proof -
  obtain w where w: "new_Writer 0 = Some w" "writer_at 0 w" using new_Writer_at [of 0] by auto
  obtain w' s' where run: "AddRecords wfile w ds s = Some (w', s')" "content s' = content s @ log_bytes 0 ds"
    using AddRecords_run [OF app(1) w(2)] by blast
  then have c: "content s' = log_bytes 0 ds" using app(2) by simp
  have cut: "\<exists>r'. ReadRecords (k + 1) (k + 1) sf (new_Reader f reporter checksum 0) = Some (take (complete_records 0 k ds) ds, r')
      \<and> lr_reports r' = []"
    if f: "rest f = take k (content s')" for k f reporter checksum
  proof -
    have at: "reader_at rest (take k (content s')) 0 (new_Reader f reporter checksum 0)" by (rule new_Reader_at) (rule f)
    show ?thesis by (rule ReadRecords_run [OF read at]) (simp_all add: c)
  qed
  moreover have "take (complete_records 0 k ds) ds = ds" if "length (content s') \<le> k" for k
    using complete_records_all [of 0 ds k] that by (simp add: c)
  ultimately show ?thesis using w(1) run(1) by blast
qed

theorem log_recovery_witness:
  "\<exists>w w' s'. new_Writer 0 = Some w
    \<and> AddRecords \<lparr>wf_Append = \<lambda>d s. (None, s @ d), wf_Flush = \<lambda>s. (None, s)\<rparr> w [[1, 2], [], [3]] [] = Some (w', s')
    \<and> (\<forall>k. \<exists>r'. ReadRecords (k + 1) (k + 1) \<lparr>sf_Read = \<lambda>n s. (None, take n s, drop n s), sf_Skip = \<lambda>n s. (None, drop (unat n) s)\<rparr>
        (new_Reader (take k s') True True 0) = Some (take (complete_records 0 k [[1, 2], [], [3]]) [[1, 2], [], [3]], r'))"
  using log_recovery [where wfile = "\<lparr>wf_Append = \<lambda>d s. (None, s @ d), wf_Flush = \<lambda>s. (None, s)\<rparr>" and content = "\<lambda>s. s"
      and s = "[]" and sf = "\<lparr>sf_Read = \<lambda>n s. (None, take n s, drop n s), sf_Skip = \<lambda>n s. (None, drop (unat n) s)\<rparr>" and rest = "\<lambda>s. s"
      and ds = "[[1, 2], [], [3]]"]
  by (simp add: appends_def reads_def) blast

text \<open>
  The reader takes a physical record of type 5 with a good checksum, the value it uses itself for the end
  of the file, as the end of the file: it returns no record and reports nothing, where every other unknown
  type is reported, and the records behind it are not read.
\<close>

theorem log_type_eof:
  assumes rd: "reads sf rest" and f: "rest f = phys 5 d @ X" and d: "7 + length d \<le> kBlockSize"
  shows "\<exists>r'. ReadRecord (Suc n) sf (new_Reader f reporter checksum 0) = Some (False, [], [], r') \<and> lr_reports r' = []"
proof -
  let ?r = "new_Reader f reporter checksum 0"
  have two: "(2 :: nat) = Suc 1" and one: "(1 :: nat) = Suc 0" by simp_all
  have at: "reader_at rest (phys 5 d @ X) 0 ?r" by (rule new_Reader_at) (rule f)
  have "length (lr_buffer ?r) < 7" "\<not> lr_eof ?r" by (simp_all add: new_Reader_def)
  then obtain r1 where r1: "ReadPhysicalRecord 2 sf ?r [] = ReadPhysicalRecord 1 sf r1 []" "reader_at rest (phys 5 d @ X) 0 r1"
      "7 \<le> length (lr_buffer r1) \<or> lr_eof r1"
    using refill [OF rd at, of 1 "[]"] unfolding two by (auto simp: log_pad_def)
  have fits: "0 mod kBlockSize + 7 + length d \<le> kBlockSize" using d by simp
  obtain e where e: "lr_buffer r1 = take (e - 0) (drop 0 (phys 5 d @ X))" "e = length (phys 5 d @ X) \<or> 0 + 7 + length d \<le> e"
    using buffer_end [OF r1(2,3) fits] by metis
  have buf: "lr_buffer r1 = phys 5 d @ take (e - (7 + length d)) X" using e by auto
  have "ReadPhysicalRecord 2 sf ?r [] = Some (5, d, r1\<lparr>lr_buffer := take (e - (7 + length d)) X\<rparr>)"
    unfolding r1(1) one by (rule parse_record [OF buf]) (use d r1(2) in \<open>simp_all add: reader_at_def\<close>)
  then show ?thesis using r1(2) unfolding ReadRecord_start [OF at] by (simp add: reader_at_def)
qed

theorem log_type_eof_witness:
  "\<exists>r'. ReadRecord 1 \<lparr>sf_Read = \<lambda>n s. (None, take n s, drop n s), sf_Skip = \<lambda>n s. (None, drop (unat n) s)\<rparr>
      (new_Reader (phys 5 [1] @ phys kFullType [2]) True True 0) = Some (False, [], [], r') \<and> lr_reports r' = []"
  using log_type_eof [where n = 0 and sf = "\<lparr>sf_Read = \<lambda>n s. (None, take n s, drop n s), sf_Skip = \<lambda>n s. (None, drop (unat n) s)\<rparr>"
      and rest = "\<lambda>s. s" and f = "phys 5 [1] @ phys kFullType [2]" and d = "[1]" and X = "phys kFullType [2]" and reporter = True and checksum = True]
  by (simp add: reads_def)

end
