(* ===== verification/LdbIterator.thy ===== *)
theory LdbIterator
  imports LdbStatus LdbSlice
begin

text \<open>
  The interface of iterators (include/leveldb/iterator.h), the empty iterator (table/iterator.cc) and the wrapper
  that caches what an iterator says (table/iterator_wrapper.h). An iterator is a record of functions
  on its state; \<open>None\<close> is a failed assertion. The functions registered to clean up are not modelled.
  The locale \<open>iterator_over\<close> is the contract of the header: an iterator over a list of
  entries that stands at a position of it.
\<close>

record 's Iterator =
  it_Valid :: "'s \<Rightarrow> bool"
  it_SeekToFirst :: "'s \<Rightarrow> 's option"
  it_SeekToLast :: "'s \<Rightarrow> 's option"
  it_Seek :: "slice \<Rightarrow> 's \<Rightarrow> 's option"
  it_Next :: "'s \<Rightarrow> 's option"
  it_Prev :: "'s \<Rightarrow> 's option"
  it_key :: "'s \<Rightarrow> slice option"
  it_value :: "'s \<Rightarrow> slice option"
  it_status :: "'s \<Rightarrow> Status option"

text \<open>The state of an empty iterator is its status.\<close>

definition EmptyIterator :: "Status Iterator" where
  "EmptyIterator =
     \<lparr>it_Valid = (\<lambda>s. False), it_SeekToFirst = Some, it_SeekToLast = Some, it_Seek = (\<lambda>target. Some),
      it_Next = (\<lambda>s. None), it_Prev = (\<lambda>s. None), it_key = (\<lambda>s. None), it_value = (\<lambda>s. None), it_status = Some\<rparr>"

section \<open>The wrapper\<close>

record 's IteratorWrapper =
  iw_iter :: "'s option"
  iw_valid :: bool
  iw_key :: slice

definition new_IteratorWrapper :: "'s IteratorWrapper" where
  "new_IteratorWrapper = \<lparr>iw_iter = None, iw_valid = False, iw_key = []\<rparr>"

definition iw_Update :: "'s Iterator \<Rightarrow> 's \<Rightarrow> 's IteratorWrapper \<Rightarrow> 's IteratorWrapper option" where
  "iw_Update it s w =
     (if it_Valid it s then do { k \<leftarrow> it_key it s; Some (w\<lparr>iw_iter := Some s, iw_valid := True, iw_key := k\<rparr>) }
      else Some (w\<lparr>iw_iter := Some s, iw_valid := False\<rparr>))"

definition iw_Set :: "'s Iterator \<Rightarrow> 's option \<Rightarrow> 's IteratorWrapper \<Rightarrow> 's IteratorWrapper option" where
  "iw_Set it i w =
     (case i of None \<Rightarrow> Some (w\<lparr>iw_iter := None, iw_valid := False\<rparr>) | Some s \<Rightarrow> iw_Update it s (w\<lparr>iw_iter := i\<rparr>))"

definition iw_get_key :: "'s IteratorWrapper \<Rightarrow> slice option" where
  "iw_get_key w = (if iw_valid w then Some (iw_key w) else None)"

definition iw_value :: "'s Iterator \<Rightarrow> 's IteratorWrapper \<Rightarrow> slice option" where
  "iw_value it w = (if iw_valid w then do { s \<leftarrow> iw_iter w; it_value it s } else None)"

definition iw_status :: "'s Iterator \<Rightarrow> 's IteratorWrapper \<Rightarrow> Status option" where
  "iw_status it w = do { s \<leftarrow> iw_iter w; it_status it s }"

definition iw_move :: "'s Iterator \<Rightarrow> ('s \<Rightarrow> 's option) \<Rightarrow> 's IteratorWrapper \<Rightarrow> 's IteratorWrapper option" where
  "iw_move it f w = do { s \<leftarrow> iw_iter w; s' \<leftarrow> f s; iw_Update it s' w }"

definition iw_Next :: "'s Iterator \<Rightarrow> 's IteratorWrapper \<Rightarrow> 's IteratorWrapper option" where
  "iw_Next it w = iw_move it (it_Next it) w"

definition iw_Prev :: "'s Iterator \<Rightarrow> 's IteratorWrapper \<Rightarrow> 's IteratorWrapper option" where
  "iw_Prev it w = iw_move it (it_Prev it) w"

definition iw_Seek :: "'s Iterator \<Rightarrow> slice \<Rightarrow> 's IteratorWrapper \<Rightarrow> 's IteratorWrapper option" where
  "iw_Seek it k w = iw_move it (it_Seek it k) w"

definition iw_SeekToFirst :: "'s Iterator \<Rightarrow> 's IteratorWrapper \<Rightarrow> 's IteratorWrapper option" where
  "iw_SeekToFirst it w = iw_move it (it_SeekToFirst it) w"

definition iw_SeekToLast :: "'s Iterator \<Rightarrow> 's IteratorWrapper \<Rightarrow> 's IteratorWrapper option" where
  "iw_SeekToLast it w = iw_move it (it_SeekToLast it) w"

section \<open>The contract\<close>

text \<open>The position of the first entry whose key is not below the target.\<close>

definition seek_index :: "Comparator \<Rightarrow> slice \<Rightarrow> (slice \<times> slice) list \<Rightarrow> nat" where
  "seek_index c target es = length (takeWhile (\<lambda>e. less_key (Compare c) (fst e) target) es)"

lemma seek_index_le: "seek_index c target es \<le> length es"
  by (simp add: seek_index_def length_takeWhile_le)

lemma seek_index_before: "i < seek_index c target es \<Longrightarrow> less_key (Compare c) (fst (es ! i)) target"
  unfolding seek_index_def by (metis nth_mem set_takeWhileD takeWhile_nth)

lemma seek_index_at: "seek_index c target es < length es \<Longrightarrow> \<not> less_key (Compare c) (fst (es ! seek_index c target es)) target"
  unfolding seek_index_def by (rule nth_length_takeWhile)

lemma seek_index_unique:
  assumes "j \<le> length es" "\<And>i. i < j \<Longrightarrow> less_key (Compare c) (fst (es ! i)) target"
    and "j < length es \<Longrightarrow> \<not> less_key (Compare c) (fst (es ! j)) target"
  shows "seek_index c target es = j"
proof (rule antisym)
  show "seek_index c target es \<le> j"
  proof (rule ccontr)
    assume "\<not> seek_index c target es \<le> j"
    then show False using seek_index_before [of j c target es] seek_index_le [of c target es] assms(3) by auto
  qed
  show "j \<le> seek_index c target es"
  proof (rule ccontr)
    assume n: "\<not> j \<le> seek_index c target es"
    then have "seek_index c target es < length es" using assms(1) by linarith
    then show False using seek_index_at [of c target es] assms(2) [of "seek_index c target es"] n by simp
  qed
qed

locale iterator_over =
  fixes it :: "'s Iterator" and c :: Comparator and valid :: "slice \<Rightarrow> bool" and es :: "(slice \<times> slice) list"
    and at :: "'s \<Rightarrow> nat \<Rightarrow> bool"
  assumes at_le: "at s i \<Longrightarrow> i \<le> length es"
    and at_Valid: "at s i \<Longrightarrow> it_Valid it s \<longleftrightarrow> i < length es"
    and at_key: "at s i \<Longrightarrow> i < length es \<Longrightarrow> it_key it s = Some (fst (es ! i))"
    and at_value: "at s i \<Longrightarrow> i < length es \<Longrightarrow> it_value it s = Some (snd (es ! i))"
    and at_status: "at s i \<Longrightarrow> it_status it s = Some Status_OK"
    and at_First: "at s i \<Longrightarrow> \<exists>s'. it_SeekToFirst it s = Some s' \<and> at s' 0"
    and at_Last: "at s i \<Longrightarrow> \<exists>s'. it_SeekToLast it s = Some s' \<and> at s' (length es - 1)"
    and at_Seek: "at s i \<Longrightarrow> valid target \<Longrightarrow> \<exists>s'. it_Seek it target s = Some s' \<and> at s' (seek_index c target es)"
    and at_Next: "at s i \<Longrightarrow> i < length es \<Longrightarrow> \<exists>s'. it_Next it s = Some s' \<and> at s' (Suc i)"
    and at_Prev: "at s i \<Longrightarrow> i < length es \<Longrightarrow> \<exists>s'. it_Prev it s = Some s' \<and> at s' (if i = 0 then length es else i - 1)"

text \<open>The loops of a client that reads the entries from here on, forwards or backwards.\<close>

fun scan :: "nat \<Rightarrow> 's Iterator \<Rightarrow> ('s \<Rightarrow> 's option) \<Rightarrow> 's \<Rightarrow> ((slice \<times> slice) list \<times> 's) option" where
  "scan n it move s =
     (if it_Valid it s then
        (case n of 0 \<Rightarrow> None
         | Suc m \<Rightarrow> do {
             k \<leftarrow> it_key it s;
             v \<leftarrow> it_value it s;
             s1 \<leftarrow> move s;
             (r, s2) \<leftarrow> scan m it move s1;
             Some ((k, v) # r, s2)
           })
      else Some ([], s))"

declare scan.simps [simp del]

context iterator_over
begin

lemma entries_forward:
  "at s i \<Longrightarrow> length es - i \<le> n \<Longrightarrow> \<exists>s'. scan n it (it_Next it) s = Some (drop i es, s') \<and> at s' (length es)"
proof (induction n arbitrary: s i)
  case 0
  then have "i = length es" using at_le by fastforce
  then show ?case using 0 at_Valid by (auto simp: scan.simps)
next
  case (Suc n)
  show ?case
  proof (cases "i < length es")
    case True
    obtain s1 where s1: "it_Next it s = Some s1" "at s1 (Suc i)" using at_Next [OF Suc.prems(1) True] by blast
    have "length es - Suc i \<le> n" using Suc.prems(2) by linarith
    then obtain s2 where s2: "scan n it (it_Next it) s1 = Some (drop (Suc i) es, s2)" "at s2 (length es)"
      using Suc.IH [OF s1(2)] by blast
    show ?thesis using True s1 s2 at_Valid [OF Suc.prems(1)] at_key [OF Suc.prems(1) True] at_value [OF Suc.prems(1) True]
      by (simp add: scan.simps [of "Suc n"] Cons_nth_drop_Suc)
  next
    case False
    then have "i = length es" using at_le [OF Suc.prems(1)] by simp
    then show ?thesis using Suc.prems(1) at_Valid by (auto simp: scan.simps)
  qed
qed

lemma entries_backward:
  "at s i \<Longrightarrow> i < length es \<Longrightarrow> i < n \<Longrightarrow> \<exists>s'. scan n it (it_Prev it) s = Some (rev (take (Suc i) es), s') \<and> at s' (length es)"
proof (induction n arbitrary: s i)
  case (Suc n)
  obtain s1 where s1: "it_Prev it s = Some s1" "at s1 (if i = 0 then length es else i - 1)" using at_Prev [OF Suc.prems(1,2)] by blast
  have step: "scan (Suc n) it (it_Prev it) s = do { (r, s2) \<leftarrow> scan n it (it_Prev it) s1; Some (es ! i # r, s2) }"
    using Suc.prems(2) s1(1) at_Valid [OF Suc.prems(1)] at_key [OF Suc.prems(1,2)] at_value [OF Suc.prems(1,2)]
    by (simp add: scan.simps [of "Suc n"])
  show ?case
  proof (cases "i = 0")
    case True
    then have "scan n it (it_Prev it) s1 = Some ([], s1)" using s1(2) at_Valid by (simp add: scan.simps)
    then show ?thesis using True s1(2) Suc.prems(2) by (simp add: step take_Suc_conv_app_nth)
  next
    case False
    then obtain j where j: "i = Suc j" by (cases i) auto
    obtain s2 where "scan n it (it_Prev it) s1 = Some (rev (take i es), s2)" "at s2 (length es)"
      using Suc.IH [of s1 j] s1(2) Suc.prems(2,3) unfolding j by auto
    then show ?thesis using Suc.prems(2) by (simp add: step take_Suc_conv_app_nth)
  qed
qed simp

text \<open>A wrapped iterator at a position knows whether it is valid, and its key.\<close>

definition iw_at :: "'s IteratorWrapper \<Rightarrow> nat \<Rightarrow> bool" where
  "iw_at w i \<longleftrightarrow> (\<exists>s. iw_iter w = Some s \<and> at s i) \<and> (iw_valid w \<longleftrightarrow> i < length es) \<and> (i < length es \<longrightarrow> iw_key w = fst (es ! i))"

lemma Update_at: "at s i \<Longrightarrow> \<exists>w'. iw_Update it s w = Some w' \<and> iw_at w' i"
  using at_Valid [of s i] at_key [of s i] by (auto simp: iw_Update_def iw_at_def)

lemma move_at:
  assumes "iw_at w i" "\<And>s. at s i \<Longrightarrow> \<exists>s'. f s = Some s' \<and> at s' j"
  shows "\<exists>w'. iw_move it f w = Some w' \<and> iw_at w' j"
proof -
  obtain s s' where s: "iw_iter w = Some s" "f s = Some s'" "at s' j" using assms unfolding iw_at_def by blast
  then show ?thesis using Update_at [OF s(3), of w] by (simp add: iw_move_def)
qed

end

end
