(* ===== verification/LdbTwoLevel.thy ===== *)
theory LdbTwoLevel
  imports LdbIterator
begin

text \<open>
  The iterator over two levels (table/two_level_iterator.h, table/two_level_iterator.cc): an index iterator gives values, and a block function,
  a parameter, turns such a value into an iterator over entries. When the index is sorted and its keys
  separate the blocks, the two levels are an iterator over all entries.
\<close>

section \<open>The iterator\<close>

record ('i, 'd) TwoLevelIterator =
  tl_status :: Status
  tl_index :: "'i IteratorWrapper"
  tl_data :: "'d IteratorWrapper"
  tl_handle :: slice

text \<open>The three parameters that do not change: the operations of both levels and the block function.\<close>

record ('i, 'd) two_levels =
  index_ops :: "'i Iterator"
  data_ops :: "'d Iterator"
  block_function :: "slice \<Rightarrow> 'd option"

definition NewTwoLevelIterator :: "('i, 'd) two_levels \<Rightarrow> 'i \<Rightarrow> ('i, 'd) TwoLevelIterator option" where
  "NewTwoLevelIterator lv index_iter = do {
     w \<leftarrow> iw_Set (index_ops lv) (Some index_iter) new_IteratorWrapper;
     d \<leftarrow> iw_Set (data_ops lv) None new_IteratorWrapper;
     Some \<lparr>tl_status = Status_OK, tl_index = w, tl_data = d, tl_handle = []\<rparr>
   }"

definition tl_Valid :: "('i, 'd) TwoLevelIterator \<Rightarrow> bool" where
  "tl_Valid t = iw_valid (tl_data t)"

definition tl_get_key :: "('i, 'd) TwoLevelIterator \<Rightarrow> slice option" where
  "tl_get_key t = (if tl_Valid t then iw_get_key (tl_data t) else None)"

definition tl_get_value :: "('i, 'd) two_levels \<Rightarrow> ('i, 'd) TwoLevelIterator \<Rightarrow> slice option" where
  "tl_get_value lv t = (if tl_Valid t then iw_value (data_ops lv) (tl_data t) else None)"

definition tl_get_status :: "('i, 'd) two_levels \<Rightarrow> ('i, 'd) TwoLevelIterator \<Rightarrow> Status option" where
  "tl_get_status lv t = do {
     si \<leftarrow> iw_status (index_ops lv) (tl_index t);
     if \<not> Status_ok si then Some si
     else if iw_iter (tl_data t) \<noteq> None then do {
       sd \<leftarrow> iw_status (data_ops lv) (tl_data t);
       if \<not> Status_ok sd then Some sd else Some (tl_status t)
     }
     else Some (tl_status t)
   }"

definition SaveError :: "Status \<Rightarrow> ('i, 'd) TwoLevelIterator \<Rightarrow> ('i, 'd) TwoLevelIterator" where
  "SaveError s t = (if Status_ok (tl_status t) \<and> \<not> Status_ok s then t\<lparr>tl_status := s\<rparr> else t)"

definition SetDataIterator :: "('i, 'd) two_levels \<Rightarrow> 'd option \<Rightarrow> ('i, 'd) TwoLevelIterator \<Rightarrow> ('i, 'd) TwoLevelIterator option" where
  "SetDataIterator lv data_iter t = do {
     t1 \<leftarrow> (if iw_iter (tl_data t) \<noteq> None then do { s \<leftarrow> iw_status (data_ops lv) (tl_data t); Some (SaveError s t) } else Some t);
     d \<leftarrow> iw_Set (data_ops lv) data_iter (tl_data t1);
     Some (t1\<lparr>tl_data := d\<rparr>)
   }"

definition InitDataBlock :: "('i, 'd) two_levels \<Rightarrow> ('i, 'd) TwoLevelIterator \<Rightarrow> ('i, 'd) TwoLevelIterator option" where
  "InitDataBlock lv t =
     (if \<not> iw_valid (tl_index t) then SetDataIterator lv None t
      else do {
        handle \<leftarrow> iw_value (index_ops lv) (tl_index t);
        if iw_iter (tl_data t) \<noteq> None \<and> Slice_compare handle (tl_handle t) = 0 then Some t
        else do {
          iter \<leftarrow> block_function lv handle;
          SetDataIterator lv (Some iter) (t\<lparr>tl_handle := handle\<rparr>)
        }
      })"

definition on_index :: "('i IteratorWrapper \<Rightarrow> 'i IteratorWrapper option) \<Rightarrow> ('i, 'd) TwoLevelIterator \<Rightarrow> ('i, 'd) TwoLevelIterator option" where
  "on_index f t = do { w \<leftarrow> f (tl_index t); Some (t\<lparr>tl_index := w\<rparr>) }"

definition on_data :: "('d IteratorWrapper \<Rightarrow> 'd IteratorWrapper option) \<Rightarrow> ('i, 'd) TwoLevelIterator \<Rightarrow> ('i, 'd) TwoLevelIterator option" where
  "on_data f t = do { w \<leftarrow> f (tl_data t); Some (t\<lparr>tl_data := w\<rparr>) }"

definition on_data_if :: "('d IteratorWrapper \<Rightarrow> 'd IteratorWrapper option) \<Rightarrow> ('i, 'd) TwoLevelIterator \<Rightarrow> ('i, 'd) TwoLevelIterator option" where
  "on_data_if f t = (if iw_iter (tl_data t) \<noteq> None then on_data f t else Some t)"

text \<open>The loops end when the index does, which its interface does not bound.\<close>

partial_function (option) SkipEmptyDataBlocksForward ::
  "('i, 'd) two_levels \<Rightarrow> ('i, 'd) TwoLevelIterator \<Rightarrow> ('i, 'd) TwoLevelIterator option" where
  "SkipEmptyDataBlocksForward lv t =
     (if iw_iter (tl_data t) = None \<or> \<not> iw_valid (tl_data t) then
        (if \<not> iw_valid (tl_index t) then SetDataIterator lv None t
         else do {
           t1 \<leftarrow> on_index (iw_Next (index_ops lv)) t;
           t2 \<leftarrow> InitDataBlock lv t1;
           t3 \<leftarrow> on_data_if (iw_SeekToFirst (data_ops lv)) t2;
           SkipEmptyDataBlocksForward lv t3
         })
      else Some t)"

partial_function (option) SkipEmptyDataBlocksBackward ::
  "('i, 'd) two_levels \<Rightarrow> ('i, 'd) TwoLevelIterator \<Rightarrow> ('i, 'd) TwoLevelIterator option" where
  "SkipEmptyDataBlocksBackward lv t =
     (if iw_iter (tl_data t) = None \<or> \<not> iw_valid (tl_data t) then
        (if \<not> iw_valid (tl_index t) then SetDataIterator lv None t
         else do {
           t1 \<leftarrow> on_index (iw_Prev (index_ops lv)) t;
           t2 \<leftarrow> InitDataBlock lv t1;
           t3 \<leftarrow> on_data_if (iw_SeekToLast (data_ops lv)) t2;
           SkipEmptyDataBlocksBackward lv t3
         })
      else Some t)"

definition tl_Seek :: "('i, 'd) two_levels \<Rightarrow> slice \<Rightarrow> ('i, 'd) TwoLevelIterator \<Rightarrow> ('i, 'd) TwoLevelIterator option" where
  "tl_Seek lv target t = do {
     t1 \<leftarrow> on_index (iw_Seek (index_ops lv) target) t;
     t2 \<leftarrow> InitDataBlock lv t1;
     t3 \<leftarrow> on_data_if (iw_Seek (data_ops lv) target) t2;
     SkipEmptyDataBlocksForward lv t3
   }"

definition tl_SeekToFirst :: "('i, 'd) two_levels \<Rightarrow> ('i, 'd) TwoLevelIterator \<Rightarrow> ('i, 'd) TwoLevelIterator option" where
  "tl_SeekToFirst lv t = do {
     t1 \<leftarrow> on_index (iw_SeekToFirst (index_ops lv)) t;
     t2 \<leftarrow> InitDataBlock lv t1;
     t3 \<leftarrow> on_data_if (iw_SeekToFirst (data_ops lv)) t2;
     SkipEmptyDataBlocksForward lv t3
   }"

definition tl_SeekToLast :: "('i, 'd) two_levels \<Rightarrow> ('i, 'd) TwoLevelIterator \<Rightarrow> ('i, 'd) TwoLevelIterator option" where
  "tl_SeekToLast lv t = do {
     t1 \<leftarrow> on_index (iw_SeekToLast (index_ops lv)) t;
     t2 \<leftarrow> InitDataBlock lv t1;
     t3 \<leftarrow> on_data_if (iw_SeekToLast (data_ops lv)) t2;
     SkipEmptyDataBlocksBackward lv t3
   }"

definition tl_Next :: "('i, 'd) two_levels \<Rightarrow> ('i, 'd) TwoLevelIterator \<Rightarrow> ('i, 'd) TwoLevelIterator option" where
  "tl_Next lv t =
     (if tl_Valid t then do { t1 \<leftarrow> on_data (iw_Next (data_ops lv)) t; SkipEmptyDataBlocksForward lv t1 } else None)"

definition tl_Prev :: "('i, 'd) two_levels \<Rightarrow> ('i, 'd) TwoLevelIterator \<Rightarrow> ('i, 'd) TwoLevelIterator option" where
  "tl_Prev lv t =
     (if tl_Valid t then do { t1 \<leftarrow> on_data (iw_Prev (data_ops lv)) t; SkipEmptyDataBlocksBackward lv t1 } else None)"

definition TwoLevelIterator_ops :: "('i, 'd) two_levels \<Rightarrow> ('i, 'd) TwoLevelIterator Iterator" where
  "TwoLevelIterator_ops lv =
     \<lparr>it_Valid = tl_Valid, it_SeekToFirst = tl_SeekToFirst lv, it_SeekToLast = tl_SeekToLast lv, it_Seek = tl_Seek lv,
      it_Next = tl_Next lv, it_Prev = tl_Prev lv, it_key = tl_get_key, it_value = tl_get_value lv, it_status = tl_get_status lv\<rparr>"

section \<open>The contract\<close>

context iterator_over
begin

lemma iw_at_valid: "iw_at w i \<Longrightarrow> iw_valid w \<longleftrightarrow> i < length es"
  by (simp add: iw_at_def)

lemma iw_at_le: "iw_at w i \<Longrightarrow> i \<le> length es"
  using at_le by (auto simp: iw_at_def)

lemma iw_at_key: "iw_at w i \<Longrightarrow> i < length es \<Longrightarrow> iw_get_key w = Some (fst (es ! i))"
  by (simp add: iw_at_def iw_get_key_def)

lemma iw_at_value: "iw_at w i \<Longrightarrow> i < length es \<Longrightarrow> iw_value it w = Some (snd (es ! i))"
  using at_value by (auto simp: iw_at_def iw_value_def)

lemma iw_at_status: "iw_at w i \<Longrightarrow> iw_status it w = Some Status_OK"
  using at_status by (auto simp: iw_at_def iw_status_def)

lemma iw_at_iter: "iw_at w i \<Longrightarrow> iw_iter w \<noteq> None"
  by (auto simp: iw_at_def)

lemma iw_Set_at: "at s i \<Longrightarrow> \<exists>w'. iw_Set it (Some s) w = Some w' \<and> iw_at w' i"
  using Update_at by (simp add: iw_Set_def)

lemma iw_at_First: "iw_at w i \<Longrightarrow> \<exists>w'. iw_SeekToFirst it w = Some w' \<and> iw_at w' 0"
  unfolding iw_SeekToFirst_def by (erule move_at) (rule at_First)

lemma iw_at_Last: "iw_at w i \<Longrightarrow> \<exists>w'. iw_SeekToLast it w = Some w' \<and> iw_at w' (length es - 1)"
  unfolding iw_SeekToLast_def by (erule move_at) (rule at_Last)

lemma iw_at_Seek: "iw_at w i \<Longrightarrow> valid target \<Longrightarrow> \<exists>w'. iw_Seek it target w = Some w' \<and> iw_at w' (seek_index c target es)"
  unfolding iw_Seek_def by (erule move_at) (rule at_Seek)

lemma iw_at_Next: "iw_at w i \<Longrightarrow> i < length es \<Longrightarrow> \<exists>w'. iw_Next it w = Some w' \<and> iw_at w' (Suc i)"
  unfolding iw_Next_def by (erule move_at) (rule at_Next)

lemma iw_at_Prev: "iw_at w i \<Longrightarrow> i < length es \<Longrightarrow> \<exists>w'. iw_Prev it w = Some w' \<and> iw_at w' (if i = 0 then length es else i - 1)"
  unfolding iw_Prev_def by (erule move_at) (rule at_Prev)

end

text \<open>
  An index and its blocks: each index key is not below the keys of its block and below those of the
  next block, blocks are not empty, and the values of the index differ.
\<close>

locale two_level = index: iterator_over "index_ops lv" c valid idx at_index + comparator "Compare c" valid
  for lv :: "('i, 'd) two_levels" and c :: Comparator and valid :: "slice \<Rightarrow> bool" and idx :: "(slice \<times> slice) list"
    and at_index :: "'i \<Rightarrow> nat \<Rightarrow> bool" +
  fixes blocks :: "(slice \<times> slice) list list" and at_data :: "nat \<Rightarrow> 'd \<Rightarrow> nat \<Rightarrow> bool"
  assumes count: "length blocks = length idx"
    and opens: "j < length idx \<Longrightarrow> \<exists>d. block_function lv (snd (idx ! j)) = Some d \<and> at_data j d (length (blocks ! j))"
    and data: "j < length idx \<Longrightarrow> iterator_over (data_ops lv) c valid (blocks ! j) (at_data j)"
    and handles: "distinct (map snd idx)"
    and filled: "j < length idx \<Longrightarrow> blocks ! j \<noteq> []"
    and index_valid: "j < length idx \<Longrightarrow> valid (fst (idx ! j))"
    and data_valid: "j < length idx \<Longrightarrow> e \<in> set (blocks ! j) \<Longrightarrow> valid (fst e)"
    and above: "j < length idx \<Longrightarrow> e \<in> set (blocks ! j) \<Longrightarrow> \<not> less_key (Compare c) (fst (idx ! j)) (fst e)"
    and below: "Suc j < length idx \<Longrightarrow> e \<in> set (blocks ! Suc j) \<Longrightarrow> less_key (Compare c) (fst (idx ! j)) (fst e)"
begin

abbreviation "n \<equiv> length idx"
abbreviation "es \<equiv> concat blocks"

definition off :: "nat \<Rightarrow> nat" where
  "off j = length (concat (take j blocks))"

lemma start_Suc: "j < n \<Longrightarrow> off (Suc j) = off j + length (blocks ! j)"
  by (simp add: off_def count take_Suc_conv_app_nth)

lemma start_0: "off 0 = 0"
  by (simp add: off_def)

lemma off_n: "off n = length es"
  by (simp add: off_def count [symmetric])

lemma block_split: "j < n \<Longrightarrow> es = concat (take j blocks) @ blocks ! j @ concat (drop (Suc j) blocks)"
  using id_take_nth_drop [of j blocks] count by (metis concat.simps(2) concat_append)

lemma es_at: "j < n \<Longrightarrow> r < length (blocks ! j) \<Longrightarrow> es ! (off j + r) = blocks ! j ! r"
  by (subst block_split [of j]) (simp_all add: off_def nth_append)

lemma off_in: "j < n \<Longrightarrow> r < length (blocks ! j) \<Longrightarrow> off j + r < length es"
  by (subst block_split [of j]) (simp_all add: off_def)

lemma es_before: "i < off j \<Longrightarrow> j \<le> n \<Longrightarrow> \<exists>j' < j. es ! i \<in> set (blocks ! j')"
proof -
  assume i: "i < off j" and j: "j \<le> n"
  have "es = concat (take j blocks) @ concat (drop j blocks)" by (metis append_take_drop_id concat_append)
  then have "es ! i = concat (take j blocks) ! i" using i by (simp add: off_def nth_append)
  then have "es ! i \<in> set (concat (take j blocks))" using i unfolding off_def by (metis nth_mem)
  then obtain b where "b \<in> set (take j blocks)" "es ! i \<in> set b" by auto
  moreover obtain j' where "j' < length (take j blocks)" "take j blocks ! j' = b" using \<open>b \<in> set (take j blocks)\<close> by (metis in_set_conv_nth)
  ultimately show ?thesis by (intro exI [of _ j']) simp
qed

definition data_at :: "nat \<Rightarrow> 'd IteratorWrapper \<Rightarrow> nat \<Rightarrow> bool" where
  "data_at j w r \<longleftrightarrow> iterator_over.iw_at (blocks ! j) (at_data j) w r"

text \<open>States with an iterator over a block, at the end, and in general.\<close>

definition in_block :: "('i, 'd) TwoLevelIterator \<Rightarrow> nat \<Rightarrow> nat \<Rightarrow> bool" where
  "in_block t j r \<longleftrightarrow> tl_status t = Status_OK \<and> j < n \<and> index.iw_at (tl_index t) j \<and> data_at j (tl_data t) r \<and> tl_handle t = snd (idx ! j)"

definition no_data :: "('i, 'd) TwoLevelIterator \<Rightarrow> bool" where
  "no_data t \<longleftrightarrow> iw_iter (tl_data t) = None \<and> \<not> iw_valid (tl_data t)"

definition at_end :: "('i, 'd) TwoLevelIterator \<Rightarrow> bool" where
  "at_end t \<longleftrightarrow> tl_status t = Status_OK \<and> index.iw_at (tl_index t) n \<and> no_data t"

definition some_data :: "('i, 'd) TwoLevelIterator \<Rightarrow> bool" where
  "some_data t \<longleftrightarrow> tl_status t = Status_OK \<and> (no_data t \<or> (\<exists>j r. j < n \<and> data_at j (tl_data t) r \<and> tl_handle t = snd (idx ! j)))"

definition at_two :: "('i, 'd) TwoLevelIterator \<Rightarrow> nat \<Rightarrow> bool" where
  "at_two t i \<longleftrightarrow> (\<exists>j r. in_block t j r \<and> r < length (blocks ! j) \<and> i = off j + r) \<or> (at_end t \<and> i = length es)"

lemma SetData_none: "some_data t \<Longrightarrow> \<exists>t'. SetDataIterator lv None t = Some t' \<and> no_data t' \<and> tl_status t' = Status_OK \<and> tl_index t' = tl_index t"
  unfolding some_data_def data_at_def
  by (auto simp: SetDataIterator_def no_data_def iw_Set_def SaveError_def iterator_over.iw_at_status [OF data] dest: iterator_over.iw_at_iter [OF data])

lemma SetData_some:
  assumes t: "some_data t" and j: "j < n" and d: "at_data j d r"
  shows "\<exists>t'. SetDataIterator lv (Some d) (t\<lparr>tl_handle := h\<rparr>) = Some t' \<and> data_at j (tl_data t') r \<and> tl_status t' = Status_OK
    \<and> tl_index t' = tl_index t \<and> tl_handle t' = h"
proof -
  obtain w where w: "iw_Set (data_ops lv) (Some d) (tl_data t) = Some w" "data_at j w r"
    using iterator_over.iw_Set_at [OF data [OF j] d] unfolding data_at_def by blast
  have "iw_iter (tl_data t) \<noteq> None \<Longrightarrow> iw_status (data_ops lv) (tl_data t) = Some Status_OK"
    using t unfolding some_data_def data_at_def no_data_def by (auto simp: iterator_over.iw_at_status [OF data])
  moreover have "tl_status t = Status_OK" using t by (simp add: some_data_def)
  ultimately show ?thesis using w by (auto simp: SetDataIterator_def SaveError_def)
qed

lemma InitDataBlock_at:
  assumes t: "some_data t" and i: "index.iw_at (tl_index t) j"
  shows "\<exists>t'. InitDataBlock lv t = Some t' \<and> (if j < n then \<exists>r. in_block t' j r else at_end t')"
proof (cases "j < n")
  case False
  then have j: "j = n" using index.iw_at_le [OF i] by simp
  then show ?thesis using SetData_none [OF t] i index.iw_at_valid [OF i] by (auto simp: InitDataBlock_def at_end_def)
next
  case True
  note v = index.iw_at_value [OF i True] index.iw_at_valid [OF i]
  show ?thesis
  proof (cases "iw_iter (tl_data t) \<noteq> None \<and> Slice_compare (snd (idx ! j)) (tl_handle t) = 0")
    case same: True
    then obtain j' r where d: "j' < n" "data_at j' (tl_data t) r" "tl_handle t = snd (idx ! j')" "snd (idx ! j) = snd (idx ! j')"
      using t by (auto simp: some_data_def no_data_def Slice_sign)
    have "j' = j" using d(1,4) True handles nth_eq_iff_index_eq [of "map snd idx" j' j] by simp
    then show ?thesis using same v True d(2,3) i t by (auto simp: InitDataBlock_def in_block_def some_data_def)
  next
    case False
    obtain d where d: "block_function lv (snd (idx ! j)) = Some d" "at_data j d (length (blocks ! j))" using opens [OF True] by blast
    obtain t' where t': "SetDataIterator lv (Some d) (t\<lparr>tl_handle := snd (idx ! j)\<rparr>) = Some t'" "data_at j (tl_data t') (length (blocks ! j))"
        "tl_status t' = Status_OK" "tl_index t' = tl_index t" "tl_handle t' = snd (idx ! j)"
      using SetData_some [OF t True d(2)] by blast
    have "InitDataBlock lv t = Some t'" unfolding InitDataBlock_def if_not_P [OF False] using v True False d(1) t'(1) by auto
    moreover have "in_block t' j (length (blocks ! j))" using t' True i by (simp add: in_block_def)
    ultimately show ?thesis using True by auto
  qed
qed

text \<open>Moving the iterator of the block.\<close>

lemma on_data_at:
  assumes t: "in_block t j r" and f: "\<And>w. data_at j w r \<Longrightarrow> \<exists>w'. f w = Some w' \<and> data_at j w' r'"
  shows "\<exists>t'. on_data f t = Some t' \<and> on_data_if f t = Some t' \<and> in_block t' j r'"
proof -
  have j: "j < n" and d: "data_at j (tl_data t) r" using t by (simp_all add: in_block_def)
  obtain w' where "f (tl_data t) = Some w'" "data_at j w' r'" using f [OF d] by blast
  moreover have "iw_iter (tl_data t) \<noteq> None" using iterator_over.iw_at_iter [OF data [OF j]] d by (simp add: data_at_def)
  ultimately show ?thesis using t by (auto simp: on_data_def on_data_if_def in_block_def)
qed

lemma data_First: "in_block t j r \<Longrightarrow> \<exists>t'. on_data_if (iw_SeekToFirst (data_ops lv)) t = Some t' \<and> in_block t' j 0"
  using on_data_at [of t j r "iw_SeekToFirst (data_ops lv)" 0] iterator_over.iw_at_First [OF data] unfolding data_at_def in_block_def by blast

lemma data_Last: "in_block t j r \<Longrightarrow> \<exists>t'. on_data_if (iw_SeekToLast (data_ops lv)) t = Some t' \<and> in_block t' j (length (blocks ! j) - 1)"
  using on_data_at [of t j r "iw_SeekToLast (data_ops lv)"] iterator_over.iw_at_Last [OF data] unfolding data_at_def in_block_def by blast

lemma data_Seek: "in_block t j r \<Longrightarrow> valid x \<Longrightarrow>
    \<exists>t'. on_data_if (iw_Seek (data_ops lv) x) t = Some t' \<and> in_block t' j (seek_index c x (blocks ! j))"
  using on_data_at [of t j r "iw_Seek (data_ops lv) x"] iterator_over.iw_at_Seek [OF data] unfolding data_at_def in_block_def by blast

lemma data_Next: "in_block t j r \<Longrightarrow> r < length (blocks ! j) \<Longrightarrow> \<exists>t'. on_data (iw_Next (data_ops lv)) t = Some t' \<and> in_block t' j (Suc r)"
  using on_data_at [of t j r "iw_Next (data_ops lv)"] iterator_over.iw_at_Next [OF data] unfolding data_at_def in_block_def by blast

lemma data_Prev: "in_block t j r \<Longrightarrow> r < length (blocks ! j) \<Longrightarrow>
    \<exists>t'. on_data (iw_Prev (data_ops lv)) t = Some t' \<and> in_block t' j (if r = 0 then length (blocks ! j) else r - 1)"
  using on_data_at [of t j r "iw_Prev (data_ops lv)"] iterator_over.iw_at_Prev [OF data] unfolding data_at_def in_block_def by blast

text \<open>An index that moves to position \<open>j\<close>, with the block behind it and a move in it.\<close>

lemma moved:
  assumes t: "some_data t" and i: "index.iw_at (tl_index t) i" and f: "\<exists>w. f (tl_index t) = Some w \<and> index.iw_at w j"
    and g: "\<forall>t r. in_block t j r \<longrightarrow> (\<exists>t'. on_data_if g t = Some t' \<and> in_block t' j r')"
  shows "\<exists>t3. do { t1 \<leftarrow> on_index f t; t2 \<leftarrow> InitDataBlock lv t1; on_data_if g t2 } = Some t3
    \<and> (if j < n then in_block t3 j r' else at_end t3)"
proof -
  obtain w where w: "f (tl_index t) = Some w" "index.iw_at w j" using f by blast
  have "some_data (t\<lparr>tl_index := w\<rparr>)" using t by (auto simp: some_data_def no_data_def)
  then obtain t2 where t2: "InitDataBlock lv (t\<lparr>tl_index := w\<rparr>) = Some t2" "if j < n then \<exists>r. in_block t2 j r else at_end t2"
    using InitDataBlock_at [of "t\<lparr>tl_index := w\<rparr>" j] w(2) by auto
  show ?thesis
  proof (cases "j < n")
    case True
    then obtain r where "in_block t2 j r" using t2(2) by auto
    then show ?thesis using g w(1) t2(1) True by (auto simp: on_index_def)
  next
    case False
    then show ?thesis using w(1) t2 by (auto simp: on_index_def on_data_if_def at_end_def no_data_def)
  qed
qed

lemma in_block_some: "in_block t j r \<Longrightarrow> some_data t"
  by (auto simp: in_block_def some_data_def)

lemma at_end_some: "at_end t \<Longrightarrow> some_data t"
  by (auto simp: at_end_def some_data_def)

lemma in_block_iw: "in_block t j r \<Longrightarrow> iterator_over.iw_at (blocks ! j) (at_data j) (tl_data t) r"
  by (simp add: in_block_def data_at_def)

lemma in_block_valid: "in_block t j r \<Longrightarrow> iw_iter (tl_data t) \<noteq> None \<and> (iw_valid (tl_data t) \<longleftrightarrow> r < length (blocks ! j))"
proof -
  assume t: "in_block t j r"
  then have "j < n" by (simp add: in_block_def)
  from iterator_over.iw_at_iter [OF data [OF this] in_block_iw [OF t]] iterator_over.iw_at_valid [OF data [OF this] in_block_iw [OF t]]
  show ?thesis by blast
qed

lemma skip_end:
  assumes "at_end t"
  shows "\<exists>t'. SkipEmptyDataBlocksForward lv t = Some t' \<and> at_end t'" "\<exists>t'. SkipEmptyDataBlocksBackward lv t = Some t' \<and> at_end t'"
proof -
  obtain t' where "SetDataIterator lv None t = Some t'" "at_end t'"
    using SetData_none [OF at_end_some [OF assms]] assms by (auto simp: at_end_def)
  moreover have "iw_iter (tl_data t) = None" "\<not> iw_valid (tl_index t)"
    using assms index.iw_at_valid [of "tl_index t" n] by (simp_all add: at_end_def no_data_def)
  ultimately show "\<exists>t'. SkipEmptyDataBlocksForward lv t = Some t' \<and> at_end t'" "\<exists>t'. SkipEmptyDataBlocksBackward lv t = Some t' \<and> at_end t'"
    by (simp_all add: SkipEmptyDataBlocksForward.simps [of lv t] SkipEmptyDataBlocksBackward.simps [of lv t])
qed

lemma skip_stay:
  assumes "in_block t j r" "r < length (blocks ! j)"
  shows "SkipEmptyDataBlocksForward lv t = Some t" "SkipEmptyDataBlocksBackward lv t = Some t"
  using in_block_valid [OF assms(1)] assms(2)
  by (auto simp: SkipEmptyDataBlocksForward.simps [of lv t] SkipEmptyDataBlocksBackward.simps [of lv t])

lemma at_end_two: "at_end t \<Longrightarrow> at_two t (off n)"
  by (simp add: at_two_def off_n)

lemma in_block_two: "in_block t j r \<Longrightarrow> r < length (blocks ! j) \<Longrightarrow> at_two t (off j + r)"
  by (auto simp: at_two_def)

lemma skip_forward:
  assumes t: "in_block t j r" and r: "r \<le> length (blocks ! j)"
  shows "\<exists>t'. SkipEmptyDataBlocksForward lv t = Some t' \<and> at_two t' (off j + r)"
proof (cases "r < length (blocks ! j)")
  case True
  then show ?thesis using skip_stay(1) [OF t] in_block_two [OF t] by simp
next
  case False
  have j: "j < n" and ix: "index.iw_at (tl_index t) j" using t by (simp_all add: in_block_def)
  have pos: "off j + r = off (Suc j)" using False r start_Suc [OF j] by simp
  obtain t3 where t3: "do { t1 \<leftarrow> on_index (iw_Next (index_ops lv)) t; t2 \<leftarrow> InitDataBlock lv t1; on_data_if (iw_SeekToFirst (data_ops lv)) t2 } = Some t3"
      "if Suc j < n then in_block t3 (Suc j) 0 else at_end t3"
    using moved [where f = "iw_Next (index_ops lv)" and j = "Suc j" and r' = 0, OF in_block_some [OF t] ix index.iw_at_Next [OF ix j]] data_First by blast
  have run: "SkipEmptyDataBlocksForward lv t = SkipEmptyDataBlocksForward lv t3"
    using in_block_valid [OF t] False index.iw_at_valid [OF ix] j t3(1)
    by (subst SkipEmptyDataBlocksForward.simps) (auto split: bind_splits)
  show ?thesis
  proof (cases "Suc j < n")
    case True
    then have "in_block t3 (Suc j) 0" using t3(2) by simp
    moreover have "0 < length (blocks ! Suc j)" using filled [OF True] by simp
    ultimately show ?thesis using run skip_stay(1) in_block_two [of t3 "Suc j" 0] pos by simp
  next
    case last: False
    then have "Suc j = n" using j by simp
    then show ?thesis using run skip_end(1) [of t3] t3(2) last at_end_two pos by auto
  qed
qed

lemma skip_backward:
  assumes t: "in_block t j (length (blocks ! j))"
  shows "\<exists>t'. SkipEmptyDataBlocksBackward lv t = Some t' \<and> at_two t' (if j = 0 then length es else off j - 1)"
proof -
  have j: "j < n" and ix: "index.iw_at (tl_index t) j" using t by (simp_all add: in_block_def)
  let ?j = "if j = 0 then n else j - 1"
  obtain t3 where t3: "do { t1 \<leftarrow> on_index (iw_Prev (index_ops lv)) t; t2 \<leftarrow> InitDataBlock lv t1; on_data_if (iw_SeekToLast (data_ops lv)) t2 } = Some t3"
      "if ?j < n then in_block t3 ?j (length (blocks ! ?j) - 1) else at_end t3"
    using moved [where f = "iw_Prev (index_ops lv)" and j = ?j and r' = "length (blocks ! ?j) - 1", OF in_block_some [OF t] ix index.iw_at_Prev [OF ix j]] data_Last by blast
  have run: "SkipEmptyDataBlocksBackward lv t = SkipEmptyDataBlocksBackward lv t3"
    using in_block_valid [OF t] index.iw_at_valid [OF ix] j t3(1)
    by (subst SkipEmptyDataBlocksBackward.simps) (auto split: bind_splits)
  show ?thesis
  proof (cases "j = 0")
    case True
    then show ?thesis using run skip_end(2) [of t3] t3(2) at_end_two off_n by auto
  next
    case False
    have p: "?j = j - 1" "?j < n" using False j by simp_all
    have b: "in_block t3 (j - 1) (length (blocks ! (j - 1)) - 1)" using t3(2) unfolding if_P [OF p(2)] unfolding p(1) .
    have len: "0 < length (blocks ! (j - 1))" using filled [of "j - 1"] j by simp
    have lt: "length (blocks ! (j - 1)) - 1 < length (blocks ! (j - 1))" using len by linarith
    have "off j = off (j - 1) + length (blocks ! (j - 1))" using start_Suc [OF p(2) [unfolded p(1)]] False by simp
    then have "off j - 1 = off (j - 1) + (length (blocks ! (j - 1)) - 1)" using len by linarith
    then show ?thesis unfolding run skip_stay(2) [OF b lt] using in_block_two [OF b lt] False by simp
  qed
qed

lemma two_some: "at_two t i \<Longrightarrow> some_data t \<and> (\<exists>j. index.iw_at (tl_index t) j)"
  using in_block_some at_end_some by (auto simp: at_two_def in_block_def at_end_def)

text \<open>The three searches start with a move of the index.\<close>

lemma First_at: "at_two t i \<Longrightarrow> \<exists>t'. tl_SeekToFirst lv t = Some t' \<and> at_two t' 0"
proof -
  assume "at_two t i"
  then obtain j where t: "some_data t" and ix: "index.iw_at (tl_index t) j" using two_some by blast
  obtain t3 where t3: "do { t1 \<leftarrow> on_index (iw_SeekToFirst (index_ops lv)) t; t2 \<leftarrow> InitDataBlock lv t1; on_data_if (iw_SeekToFirst (data_ops lv)) t2 } = Some t3"
      "if 0 < n then in_block t3 0 0 else at_end t3"
    using moved [where f = "iw_SeekToFirst (index_ops lv)" and j = 0 and r' = 0, OF t ix index.iw_at_First [OF ix]] data_First by blast
  have run: "tl_SeekToFirst lv t = SkipEmptyDataBlocksForward lv t3" using t3(1) by (auto simp: tl_SeekToFirst_def split: bind_splits)
  show ?thesis
  proof (cases "0 < n")
    case True
    then show ?thesis using run t3(2) skip_forward [of t3 0 0] start_0 by simp
  next
    case False
    then have "off n = 0" by (simp add: off_def)
    then show ?thesis using run t3(2) False skip_end(1) [of t3] at_end_two by auto
  qed
qed

lemma Last_at: "at_two t i \<Longrightarrow> \<exists>t'. tl_SeekToLast lv t = Some t' \<and> at_two t' (length es - 1)"
proof -
  assume "at_two t i"
  then obtain j where t: "some_data t" and ix: "index.iw_at (tl_index t) j" using two_some by blast
  let ?j = "n - 1"
  obtain t3 where t3: "do { t1 \<leftarrow> on_index (iw_SeekToLast (index_ops lv)) t; t2 \<leftarrow> InitDataBlock lv t1; on_data_if (iw_SeekToLast (data_ops lv)) t2 } = Some t3"
      "if ?j < n then in_block t3 ?j (length (blocks ! ?j) - 1) else at_end t3"
    using moved [where f = "iw_SeekToLast (index_ops lv)" and j = ?j and r' = "length (blocks ! ?j) - 1", OF t ix index.iw_at_Last [OF ix]] data_Last by blast
  have run: "tl_SeekToLast lv t = SkipEmptyDataBlocksBackward lv t3" using t3(1) by (auto simp: tl_SeekToLast_def split: bind_splits)
  show ?thesis
  proof (cases "0 < n")
    case True
    then have b: "in_block t3 ?j (length (blocks ! ?j) - 1)" using t3(2) by simp
    have len: "0 < length (blocks ! ?j)" using filled [of ?j] True by simp
    have "off n = off ?j + length (blocks ! ?j)" using start_Suc [of ?j] True by simp
    then have "length es - 1 = off ?j + (length (blocks ! ?j) - 1)" using len off_n by linarith
    moreover have lt: "length (blocks ! ?j) - 1 < length (blocks ! ?j)" using len by linarith
    ultimately show ?thesis unfolding run skip_stay(2) [OF b lt] using in_block_two [OF b lt] by metis
  next
    case False
    then have z: "off n = 0" by (simp add: off_def)
    have "at_end t3" using t3(2) False by simp
    from skip_end(2) [OF this] obtain t' where "SkipEmptyDataBlocksBackward lv t3 = Some t'" "at_two t' (off n)" using at_end_two by blast
    moreover have "off n = length es - 1" using z off_n by linarith
    ultimately show ?thesis unfolding run by metis
  qed
qed

text \<open>All entries before the block the index finds are below the target.\<close>

lemma below_target:
  assumes x: "valid x" and j: "j \<le> seek_index c x idx" and i: "i < off j"
  shows "less_key (Compare c) (fst (es ! i)) x"
proof -
  have jn: "j \<le> n" using j seek_index_le [of c x idx] by simp
  obtain j' where j': "j' < j" "es ! i \<in> set (blocks ! j')" using es_before [OF i jn] by blast
  have n': "j' < n" using j'(1) jn by simp
  have lt: "less_key (Compare c) (fst (idx ! j')) x" using seek_index_before [of j' c x idx] j'(1) j by simp
  have v: "valid (fst (es ! i))" "valid (fst (idx ! j'))" using data_valid [OF n' j'(2)] index_valid [OF n'] by simp_all
  have "\<not> less_key (Compare c) (fst (idx ! j')) (fst (es ! i))" by (rule above [OF n' j'(2)])
  then show ?thesis using less_cases [OF v] less_trans [OF v x _ lt] same_less_trans [OF v x _ lt] by metis
qed

lemma seek_position:
  assumes x: "valid x"
  shows "seek_index c x es = (if seek_index c x idx < n then off (seek_index c x idx) + seek_index c x (blocks ! seek_index c x idx) else length es)"
proof (cases "seek_index c x idx < n")
  case False
  then have "seek_index c x idx = n" using seek_index_le [of c x idx] by simp
  then show ?thesis using below_target [OF x, of n] by (simp add: off_n) (intro seek_index_unique, simp_all)
next
  case True
  let ?j = "seek_index c x idx"
  let ?r = "seek_index c x (blocks ! ?j)"
  have r: "?r \<le> length (blocks ! ?j)" by (rule seek_index_le)
  have stp: "off (Suc ?j) = off ?j + length (blocks ! ?j)" by (rule start_Suc [OF True])
  have "seek_index c x es = off ?j + ?r"
  proof (rule seek_index_unique)
    have "off (Suc ?j) \<le> off n" unfolding off_def by (metis (no_types, lifting) Suc_leI True count append_take_drop_id concat_append length_append le_add1 take_all_iff order_refl)
    then show "off ?j + ?r \<le> length es" using r stp off_n by simp
    show "less_key (Compare c) (fst (es ! i)) x" if i: "i < off ?j + ?r" for i
    proof (cases "i < off ?j")
      case True
      then show ?thesis using below_target [OF x order_refl] by simp
    next
      case False
      then have "i = off ?j + (i - off ?j)" "i - off ?j < ?r" using i by simp_all
      then show ?thesis using es_at [OF True, of "i - off ?j"] seek_index_before [of "i - off ?j" c x "blocks ! ?j"] r by simp
    qed
    assume inside: "off ?j + ?r < length es"
    show "\<not> less_key (Compare c) (fst (es ! (off ?j + ?r))) x"
    proof (cases "?r < length (blocks ! ?j)")
      case in_b: True
      then show ?thesis using es_at [OF True in_b] seek_index_at [OF in_b] by simp
    next
      case False
      then have pos: "off ?j + ?r = off (Suc ?j)" using False r stp by linarith
      have sj: "Suc ?j < n" using inside pos off_n True by (cases "Suc ?j = n") auto
      have len: "0 < length (blocks ! Suc ?j)" using filled [OF sj] by simp
      let ?e = "blocks ! Suc ?j ! 0"
      have e: "es ! off (Suc ?j) = ?e" using es_at [OF sj len] by simp
      have in_e: "?e \<in> set (blocks ! Suc ?j)" using len by simp
      have ge: "\<not> less_key (Compare c) (fst (idx ! ?j)) x" by (rule seek_index_at [OF True])
      have v: "valid (fst (idx ! ?j))" "valid (fst ?e)" using index_valid [OF True] data_valid [OF sj in_e] by simp_all
      show ?thesis unfolding pos e using less_trans [OF v x below [OF sj in_e]] ge by blast
    qed
  qed
  then show ?thesis using True by simp
qed

lemma Seek_at: "at_two t i \<Longrightarrow> valid x \<Longrightarrow> \<exists>t'. tl_Seek lv x t = Some t' \<and> at_two t' (seek_index c x es)"
proof -
  assume t0: "at_two t i" and x: "valid x"
  obtain j where t: "some_data t" and ix: "index.iw_at (tl_index t) j" using two_some [OF t0] by blast
  let ?j = "seek_index c x idx"
  let ?r = "seek_index c x (blocks ! ?j)"
  obtain t3 where t3: "do { t1 \<leftarrow> on_index (iw_Seek (index_ops lv) x) t; t2 \<leftarrow> InitDataBlock lv t1; on_data_if (iw_Seek (data_ops lv) x) t2 } = Some t3"
      "if ?j < n then in_block t3 ?j ?r else at_end t3"
    using moved [where f = "iw_Seek (index_ops lv) x" and j = ?j and r' = ?r, OF t ix index.iw_at_Seek [OF ix x]] data_Seek [OF _ x] by blast
  have run: "tl_Seek lv x t = SkipEmptyDataBlocksForward lv t3" using t3(1) by (auto simp: tl_Seek_def split: bind_splits)
  show ?thesis
  proof (cases "?j < n")
    case True
    then have "in_block t3 ?j ?r" using t3(2) by simp
    from skip_forward [OF this seek_index_le] show ?thesis using run seek_position [OF x] True by simp
  next
    case False
    then show ?thesis using run t3(2) skip_end(1) [of t3] at_end_two seek_position [OF x] off_n by auto
  qed
qed

lemma Next_at: "at_two t i \<Longrightarrow> i < length es \<Longrightarrow> \<exists>t'. tl_Next lv t = Some t' \<and> at_two t' (Suc i)"
proof -
  assume "at_two t i" "i < length es"
  then obtain j r where b: "in_block t j r" "r < length (blocks ! j)" "i = off j + r" by (auto simp: at_two_def)
  obtain t1 where t1: "on_data (iw_Next (data_ops lv)) t = Some t1" "in_block t1 j (Suc r)" using data_Next [OF b(1,2)] by blast
  have "tl_Valid t" using in_block_valid [OF b(1)] b(2) by (simp add: tl_Valid_def)
  then show ?thesis using skip_forward [OF t1(2)] b(2,3) t1(1) by (simp add: tl_Next_def)
qed

lemma Prev_at: "at_two t i \<Longrightarrow> i < length es \<Longrightarrow> \<exists>t'. tl_Prev lv t = Some t' \<and> at_two t' (if i = 0 then length es else i - 1)"
proof -
  assume "at_two t i" "i < length es"
  then obtain j r where b: "in_block t j r" "r < length (blocks ! j)" "i = off j + r" by (auto simp: at_two_def)
  obtain t1 where t1: "on_data (iw_Prev (data_ops lv)) t = Some t1" "in_block t1 j (if r = 0 then length (blocks ! j) else r - 1)"
    using data_Prev [OF b(1,2)] by blast
  have v: "tl_Valid t" using in_block_valid [OF b(1)] b(2) by (simp add: tl_Valid_def)
  show ?thesis
  proof (cases "r = 0")
    case True
    have j: "j < n" using b(1) by (simp add: in_block_def)
    have "j = 0 \<longleftrightarrow> off j = 0"
    proof
      assume "off j = 0"
      show "j = 0"
      proof (rule ccontr)
        assume "j \<noteq> 0"
        then have "off j = off (j - 1) + length (blocks ! (j - 1))" "blocks ! (j - 1) \<noteq> []" using start_Suc [of "j - 1"] filled [of "j - 1"] j by simp_all
        then show False using \<open>off j = 0\<close> by simp
      qed
    qed (simp add: start_0)
    moreover have "in_block t1 j (length (blocks ! j))" "i = off j" using t1(2) True b(3) by simp_all
    ultimately show ?thesis using skip_backward [of t1 j] t1(1) v by (auto simp: tl_Prev_def split: if_splits)
  next
    case False
    then have "r - 1 < length (blocks ! j)" "i - 1 = off j + (r - 1)" "i \<noteq> 0" using b(2,3) by linarith+
    then show ?thesis using skip_stay(2) [of t1 j "r - 1"] in_block_two [of t1 j "r - 1"] t1 v False by (simp add: tl_Prev_def)
  qed
qed

lemma two_valid: "at_two t i \<Longrightarrow> tl_Valid t \<longleftrightarrow> i < length es"
  unfolding at_two_def
proof (elim disjE exE conjE)
  fix j r assume b: "in_block t j r" "r < length (blocks ! j)" "i = off j + r"
  have "j < n" using b(1) by (simp add: in_block_def)
  then show ?thesis using in_block_valid [OF b(1)] off_in b(2,3) by (simp add: tl_Valid_def)
qed (simp add: at_end_def no_data_def tl_Valid_def)

lemma two_le: "at_two t i \<Longrightarrow> i \<le> length es"
  by (auto simp: at_two_def in_block_def dest: off_in)

lemma two_entry:
  assumes "at_two t i" "i < length es"
  shows "tl_get_key t = Some (fst (es ! i))" "tl_get_value lv t = Some (snd (es ! i))"
proof -
  obtain j r where b: "in_block t j r" "r < length (blocks ! j)" "i = off j + r" using assms by (auto simp: at_two_def)
  have j: "j < n" using b(1) by (simp add: in_block_def)
  have v: "tl_Valid t" using two_valid [OF assms(1)] assms(2) by simp
  show "tl_get_key t = Some (fst (es ! i))" "tl_get_value lv t = Some (snd (es ! i))"
    using iterator_over.iw_at_key [OF data [OF j] in_block_iw [OF b(1)] b(2)] iterator_over.iw_at_value [OF data [OF j] in_block_iw [OF b(1)] b(2)]
      es_at [OF j b(2)] v b(3) by (simp_all add: tl_get_key_def tl_get_value_def)
qed

lemma two_status: "at_two t i \<Longrightarrow> tl_get_status lv t = Some Status_OK"
  unfolding at_two_def
proof (elim disjE exE conjE)
  fix j r assume b: "in_block t j r"
  then have j: "j < n" and ix: "index.iw_at (tl_index t) j" and st: "tl_status t = Status_OK" by (simp_all add: in_block_def)
  show ?thesis using index.iw_at_status [OF ix] iterator_over.iw_at_status [OF data [OF j] in_block_iw [OF b]] st
    by (simp add: tl_get_status_def)
next
  assume e: "at_end t"
  then have ix: "index.iw_at (tl_index t) n" by (simp add: at_end_def)
  show ?thesis using index.iw_at_status [OF ix] e by (simp add: tl_get_status_def at_end_def no_data_def)
qed

lemma new_two: "at_index s n \<Longrightarrow> \<exists>t. NewTwoLevelIterator lv s = Some t \<and> at_two t (length es)"
  using index.iw_Set_at [of s n new_IteratorWrapper]
  by (auto simp: NewTwoLevelIterator_def iw_Set_def [where i = None] at_two_def at_end_def no_data_def new_IteratorWrapper_def)

end

sublocale two_level \<subseteq> levels: iterator_over "TwoLevelIterator_ops lv" c valid es at_two
  by unfold_locales
    (simp_all add: TwoLevelIterator_ops_def two_le two_valid two_entry two_status First_at Last_at [simplified] Seek_at Next_at Prev_at [simplified])

context two_level
begin

lemma two_contract: "iterator_over (TwoLevelIterator_ops lv) c valid es at_two"
  by (rule levels.iterator_over_axioms)

text \<open>Where the first entry not below a target is.\<close>

lemma seek_in:
  assumes "valid x" "seek_index c x idx < n" "seek_index c x (blocks ! seek_index c x idx) < length (blocks ! seek_index c x idx)"
  shows "seek_index c x es < length es"
    "es ! seek_index c x es = blocks ! seek_index c x idx ! seek_index c x (blocks ! seek_index c x idx)"
  using seek_position [OF assms(1)] assms(2) es_at [OF assms(2,3)] off_in [OF assms(2,3)] by simp_all

lemma seek_next:
  assumes x: "valid x" and j: "seek_index c x idx < n" and r: "\<not> seek_index c x (blocks ! seek_index c x idx) < length (blocks ! seek_index c x idx)"
    and inside: "seek_index c x es < length es"
  shows "Suc (seek_index c x idx) < n" "es ! seek_index c x es \<in> set (blocks ! Suc (seek_index c x idx))"
proof -
  have pos: "seek_index c x es = off (Suc (seek_index c x idx))"
    using seek_position [OF x] j start_Suc [OF j] r seek_index_le [of c x "blocks ! seek_index c x idx"] by simp
  show s: "Suc (seek_index c x idx) < n" using inside pos off_n j by (cases "Suc (seek_index c x idx) = n") auto
  have "0 < length (blocks ! Suc (seek_index c x idx))" using filled [OF s] by simp
  then show "es ! seek_index c x es \<in> set (blocks ! Suc (seek_index c x idx))" using es_at [OF s, of 0] pos by simp
qed

lemma seek_none: "valid x \<Longrightarrow> \<not> seek_index c x idx < n \<Longrightarrow> seek_index c x es = length es"
  using seek_position [of x] by simp

end

end
