(* ===== verification/LdbMerger.thy ===== *)
theory LdbMerger
  imports LdbTwoLevel "HOL-Library.Multiset"
begin

text \<open>
  The merging iterator (table/merger.h, table/merger.cc): an iterator over the entries of several iterators, in the
  order of their keys and in both directions. When no key occurs twice, it is an iterator over the sorted
  list of all entries.
\<close>

section \<open>The iterator\<close>

datatype Direction = kForward | kReverse

record 's MergingIterator =
  mg_children :: "'s IteratorWrapper list"
  mg_current :: "nat option"
  mg_direction :: Direction

text \<open>A loop over the children, which does nothing else to the iterator.\<close>

fun each_child :: "(nat \<Rightarrow> 's IteratorWrapper \<Rightarrow> 's IteratorWrapper option) \<Rightarrow> nat \<Rightarrow> 's IteratorWrapper list \<Rightarrow> 's IteratorWrapper list option" where
  "each_child f i [] = Some []"
| "each_child f i (w # ws) = do { w' \<leftarrow> f i w; ws' \<leftarrow> each_child f (Suc i) ws; Some (w' # ws') }"

definition new_MergingIterator :: "'s Iterator list \<Rightarrow> 's list \<Rightarrow> 's MergingIterator option" where
  "new_MergingIterator its states = do {
     ws \<leftarrow> each_child (\<lambda>i w. iw_Set (its ! i) (Some (states ! i)) w) 0 (replicate (length states) new_IteratorWrapper);
     Some \<lparr>mg_children = ws, mg_current = None, mg_direction = kForward\<rparr>
   }"

definition mg_Valid :: "'s MergingIterator \<Rightarrow> bool" where
  "mg_Valid m \<longleftrightarrow> mg_current m \<noteq> None"

text \<open>The loop of the two searches: a child replaces the one found when the comparison says it is better.\<close>

fun find_child :: "(int \<Rightarrow> bool) \<Rightarrow> Comparator \<Rightarrow> 's IteratorWrapper list \<Rightarrow> nat list \<Rightarrow> nat option \<Rightarrow> nat option option" where
  "find_child better c ws [] found = Some found"
| "find_child better c ws (i # is) found =
     (if iw_valid (ws ! i) then
        (case found of None \<Rightarrow> find_child better c ws is (Some i)
         | Some j \<Rightarrow> do {
             k \<leftarrow> iw_get_key (ws ! i);
             k' \<leftarrow> iw_get_key (ws ! j);
             r \<leftarrow> Compare c k k';
             find_child better c ws is (if better r then Some i else found)
           })
      else find_child better c ws is found)"

definition FindSmallest :: "Comparator \<Rightarrow> 's MergingIterator \<Rightarrow> 's MergingIterator option" where
  "FindSmallest c m = do {
     smallest \<leftarrow> find_child (\<lambda>r. r < 0) c (mg_children m) [0 ..< length (mg_children m)] None;
     Some (m\<lparr>mg_current := smallest\<rparr>)
   }"

definition FindLargest :: "Comparator \<Rightarrow> 's MergingIterator \<Rightarrow> 's MergingIterator option" where
  "FindLargest c m = do {
     largest \<leftarrow> find_child (\<lambda>r. r > 0) c (mg_children m) (rev [0 ..< length (mg_children m)]) None;
     Some (m\<lparr>mg_current := largest\<rparr>)
   }"

definition all_children :: "(nat \<Rightarrow> 's IteratorWrapper \<Rightarrow> 's IteratorWrapper option) \<Rightarrow> 's MergingIterator \<Rightarrow> 's MergingIterator option" where
  "all_children f m = do { ws \<leftarrow> each_child f 0 (mg_children m); Some (m\<lparr>mg_children := ws\<rparr>) }"

definition mg_SeekToFirst :: "Comparator \<Rightarrow> 's Iterator list \<Rightarrow> 's MergingIterator \<Rightarrow> 's MergingIterator option" where
  "mg_SeekToFirst c its m = do {
     m1 \<leftarrow> all_children (\<lambda>i. iw_SeekToFirst (its ! i)) m;
     m2 \<leftarrow> FindSmallest c m1;
     Some (m2\<lparr>mg_direction := kForward\<rparr>)
   }"

definition mg_SeekToLast :: "Comparator \<Rightarrow> 's Iterator list \<Rightarrow> 's MergingIterator \<Rightarrow> 's MergingIterator option" where
  "mg_SeekToLast c its m = do {
     m1 \<leftarrow> all_children (\<lambda>i. iw_SeekToLast (its ! i)) m;
     m2 \<leftarrow> FindLargest c m1;
     Some (m2\<lparr>mg_direction := kReverse\<rparr>)
   }"

definition mg_Seek :: "Comparator \<Rightarrow> 's Iterator list \<Rightarrow> slice \<Rightarrow> 's MergingIterator \<Rightarrow> 's MergingIterator option" where
  "mg_Seek c its target m = do {
     m1 \<leftarrow> all_children (\<lambda>i. iw_Seek (its ! i) target) m;
     m2 \<leftarrow> FindSmallest c m1;
     Some (m2\<lparr>mg_direction := kForward\<rparr>)
   }"

text \<open>The current child, and the key and the value of the iterator.\<close>

definition current_child :: "'s MergingIterator \<Rightarrow> (nat \<times> 's IteratorWrapper) option" where
  "current_child m = do { j \<leftarrow> mg_current m; w \<leftarrow> nth_opt (mg_children m) j; Some (j, w) }"

definition mg_key :: "'s MergingIterator \<Rightarrow> slice option" where
  "mg_key m = do { (j, w) \<leftarrow> current_child m; iw_get_key w }"

definition mg_value :: "'s Iterator list \<Rightarrow> 's MergingIterator \<Rightarrow> slice option" where
  "mg_value its m = do { (j, w) \<leftarrow> current_child m; iw_value (its ! j) w }"

definition move_current :: "(nat \<Rightarrow> 's IteratorWrapper \<Rightarrow> 's IteratorWrapper option) \<Rightarrow> 's MergingIterator \<Rightarrow> 's MergingIterator option" where
  "move_current f m = do { (j, w) \<leftarrow> current_child m; w' \<leftarrow> f j w; Some (m\<lparr>mg_children := (mg_children m)[j := w']\<rparr>) }"

definition switch_forward :: "Comparator \<Rightarrow> 's Iterator list \<Rightarrow> 's MergingIterator \<Rightarrow> 's MergingIterator option" where
  "switch_forward c its m = do {
     key \<leftarrow> mg_key m;
     m1 \<leftarrow> all_children (\<lambda>i w.
       if mg_current m \<noteq> Some i then do {
         w1 \<leftarrow> iw_Seek (its ! i) key w;
         if iw_valid w1 then do {
           k \<leftarrow> iw_get_key w1;
           r \<leftarrow> Compare c key k;
           if r = 0 then iw_Next (its ! i) w1 else Some w1
         }
         else Some w1
       }
       else Some w) m;
     Some (m1\<lparr>mg_direction := kForward\<rparr>)
   }"

definition mg_Next :: "Comparator \<Rightarrow> 's Iterator list \<Rightarrow> 's MergingIterator \<Rightarrow> 's MergingIterator option" where
  "mg_Next c its m =
     (if mg_Valid m then do {
        m1 \<leftarrow> (if mg_direction m \<noteq> kForward then switch_forward c its m else Some m);
        m2 \<leftarrow> move_current (\<lambda>j. iw_Next (its ! j)) m1;
        FindSmallest c m2
      }
      else None)"

definition switch_reverse :: "'s Iterator list \<Rightarrow> 's MergingIterator \<Rightarrow> 's MergingIterator option" where
  "switch_reverse its m = do {
     key \<leftarrow> mg_key m;
     m1 \<leftarrow> all_children (\<lambda>i w.
       if mg_current m \<noteq> Some i then do {
         w1 \<leftarrow> iw_Seek (its ! i) key w;
         if iw_valid w1 then iw_Prev (its ! i) w1 else iw_SeekToLast (its ! i) w1
       }
       else Some w) m;
     Some (m1\<lparr>mg_direction := kReverse\<rparr>)
   }"

definition mg_Prev :: "Comparator \<Rightarrow> 's Iterator list \<Rightarrow> 's MergingIterator \<Rightarrow> 's MergingIterator option" where
  "mg_Prev c its m =
     (if mg_Valid m then do {
        m1 \<leftarrow> (if mg_direction m \<noteq> kReverse then switch_reverse its m else Some m);
        m2 \<leftarrow> move_current (\<lambda>j. iw_Prev (its ! j)) m1;
        FindLargest c m2
      }
      else None)"

text \<open>The status of the first child that has an error, or of the last child.\<close>

fun first_error :: "'s Iterator list \<Rightarrow> 's IteratorWrapper list \<Rightarrow> Status \<Rightarrow> Status option" where
  "first_error (it # its) (w # ws) status = do {
     s \<leftarrow> iw_status it w;
     if \<not> Status_ok s then Some s else first_error its ws s
   }"
| "first_error _ _ status = Some status"

definition mg_status :: "'s Iterator list \<Rightarrow> 's MergingIterator \<Rightarrow> Status option" where
  "mg_status its m = first_error its (mg_children m) Status_OK"

definition MergingIterator_ops :: "Comparator \<Rightarrow> 's Iterator list \<Rightarrow> 's MergingIterator Iterator" where
  "MergingIterator_ops c its =
     \<lparr>it_Valid = mg_Valid, it_SeekToFirst = mg_SeekToFirst c its, it_SeekToLast = mg_SeekToLast c its, it_Seek = mg_Seek c its,
      it_Next = mg_Next c its, it_Prev = mg_Prev c its, it_key = mg_key, it_value = mg_value its, it_status = mg_status its\<rparr>"

text \<open>Without children it is the empty iterator, and a single child is used as it is.\<close>

datatype 's MergedIterator = Empty_merged Status | One_merged 's | Many_merged "'s MergingIterator"

definition NewMergingIterator :: "'s Iterator list \<Rightarrow> 's list \<Rightarrow> 's MergedIterator option" where
  "NewMergingIterator its states =
     (if length states = 0 then Some (Empty_merged Status_OK)
      else if length states = 1 then Some (One_merged (states ! 0))
      else do { m \<leftarrow> new_MergingIterator its states; Some (Many_merged m) })"

definition MergedIterator_ops :: "Comparator \<Rightarrow> 's Iterator list \<Rightarrow> 's MergedIterator Iterator" where
  "MergedIterator_ops c its =
     (let e = EmptyIterator; o1 = its ! 0; mo = MergingIterator_ops c its;
          lift = (\<lambda>fe fo fm s. case s of Empty_merged x \<Rightarrow> map_option Empty_merged (fe x) | One_merged x \<Rightarrow> map_option One_merged (fo x)
            | Many_merged x \<Rightarrow> map_option Many_merged (fm x))
      in
      \<lparr>it_Valid = (\<lambda>s. case s of Empty_merged x \<Rightarrow> it_Valid e x | One_merged x \<Rightarrow> it_Valid o1 x | Many_merged x \<Rightarrow> it_Valid mo x),
       it_SeekToFirst = lift (it_SeekToFirst e) (it_SeekToFirst o1) (it_SeekToFirst mo),
       it_SeekToLast = lift (it_SeekToLast e) (it_SeekToLast o1) (it_SeekToLast mo),
       it_Seek = (\<lambda>t. lift (it_Seek e t) (it_Seek o1 t) (it_Seek mo t)),
       it_Next = lift (it_Next e) (it_Next o1) (it_Next mo),
       it_Prev = lift (it_Prev e) (it_Prev o1) (it_Prev mo),
       it_key = (\<lambda>s. case s of Empty_merged x \<Rightarrow> it_key e x | One_merged x \<Rightarrow> it_key o1 x | Many_merged x \<Rightarrow> it_key mo x),
       it_value = (\<lambda>s. case s of Empty_merged x \<Rightarrow> it_value e x | One_merged x \<Rightarrow> it_value o1 x | Many_merged x \<Rightarrow> it_value mo x),
       it_status = (\<lambda>s. case s of Empty_merged x \<Rightarrow> it_status e x | One_merged x \<Rightarrow> it_status o1 x | Many_merged x \<Rightarrow> it_status mo x)\<rparr>)"

lemma each_child_all:
  "(\<And>k. k < length ws \<Longrightarrow> \<exists>w'. f (i + k) (ws ! k) = Some w' \<and> P (i + k) w') \<Longrightarrow>
   \<exists>ws'. each_child f i ws = Some ws' \<and> length ws' = length ws \<and> (\<forall>k < length ws. P (i + k) (ws' ! k))"
proof (induction ws arbitrary: i)
  case (Cons w ws)
  obtain w' where w': "f i w = Some w'" "P i w'" using Cons.prems [of 0] by auto
  obtain ws' where "each_child f (Suc i) ws = Some ws'" "length ws' = length ws" "\<forall>k < length ws. P (Suc i + k) (ws' ! k)"
    using Cons.IH [of "Suc i"] Cons.prems [of "Suc _"] by auto
  then show ?case using w' by (auto simp: less_Suc_eq_0_disj)
qed simp

section \<open>The order of the entries\<close>

text \<open>
  The children are iterators over lists that are parts of one sorted list, in which no key occurs twice.
\<close>

locale merging = comparator "Compare c" valid
  for c :: Comparator and valid :: "slice \<Rightarrow> bool" +
  fixes its :: "'s Iterator list" and lists :: "(slice \<times> slice) list list" and ats :: "nat \<Rightarrow> 's \<Rightarrow> nat \<Rightarrow> bool"
    and es :: "(slice \<times> slice) list"
  assumes count: "length lists = length its"
    and child: "k < length its \<Longrightarrow> iterator_over (its ! k) c valid (lists ! k) (ats k)"
    and sorted: "sorted_wrt (less_key (Compare c)) (map fst es)"
    and list_sorted: "k < length its \<Longrightarrow> sorted_wrt (less_key (Compare c)) (map fst (lists ! k))"
    and entries: "mset es = mset (concat lists)"
    and keys: "e \<in> set es \<Longrightarrow> valid (fst e)"
begin

abbreviation "lt \<equiv> less_key (Compare c)"

lemma es_set: "set es = set (concat lists)"
  using entries by (metis set_mset_mset)

lemma valid_nth: "i < length es \<Longrightarrow> valid (fst (es ! i))"
  using keys by simp

lemma key_order: "i < length es \<Longrightarrow> j < length es \<Longrightarrow> lt (fst (es ! i)) (fst (es ! j)) \<longleftrightarrow> i < j"
proof -
  assume i: "i < length es" and j: "j < length es"
  have up: "lt (fst (es ! a)) (fst (es ! b))" if "a < b" "b < length es" for a b
    using sorted that by (simp add: sorted_wrt_iff_nth_less)
  note v = valid_nth [OF i] valid_nth [OF j]
  show ?thesis
  proof (cases i j rule: linorder_cases)
    case less
    then show ?thesis using up [OF less j] by simp
  next
    case equal
    then show ?thesis using less_irrefl [OF v(1)] by simp
  next
    case greater
    then show ?thesis using up [OF greater i] less_trans [OF v v(1)] less_irrefl [OF v(1)] by auto
  qed
qed

lemma es_distinct: "distinct es"
proof -
  have "es ! i \<noteq> es ! j" if "i < length es" "j < length es" "i \<noteq> j" for i j
    using key_order [OF that(1,2)] key_order [OF that(2,1)] that(3) less_irrefl [OF valid_nth [OF that(1)]] by (metis nat_neq_iff)
  then show ?thesis by (simp add: distinct_conv_nth)
qed

lemma in_take: "i < length es \<Longrightarrow> es ! i \<in> set (take j es) \<longleftrightarrow> i < j"
  using es_distinct by (auto simp: in_set_conv_nth nth_eq_iff_index_eq)

lemma list_index: "k < length its \<Longrightarrow> r < length (lists ! k) \<Longrightarrow> \<exists>i < length es. lists ! k ! r = es ! i"
proof -
  assume k: "k < length its" and r: "r < length (lists ! k)"
  have "lists ! k \<in> set lists" "lists ! k ! r \<in> set (lists ! k)" using k r count by simp_all
  then have "lists ! k ! r \<in> set (concat lists)" unfolding set_concat by blast
  then show ?thesis unfolding es_set [symmetric] in_set_conv_nth by auto
qed

lemma list_order:
  assumes k: "k < length its" and r: "a < b" "b < length (lists ! k)" and i: "lists ! k ! a = es ! i" "lists ! k ! b = es ! j" "i < length es" "j < length es"
  shows "i < j"
proof -
  have "lt (fst (lists ! k ! a)) (fst (lists ! k ! b))" using list_sorted [OF k] r by (simp add: sorted_wrt_iff_nth_less)
  then show ?thesis using key_order [OF i(3,4)] i by simp
qed

text \<open>Every entry is in one list.\<close>

definition owns :: "nat \<Rightarrow> nat \<Rightarrow> bool" where
  "owns k i \<longleftrightarrow> k < length its \<and> i < length es \<and> es ! i \<in> set (lists ! k)"

lemma owner_ex: "i < length es \<Longrightarrow> \<exists>k. owns k i"
proof -
  assume i: "i < length es"
  then have "es ! i \<in> set (concat lists)" unfolding es_set [symmetric] by simp
  then obtain l where "l \<in> set lists" "es ! i \<in> set l" by auto
  then show ?thesis using i count unfolding owns_def by (metis in_set_conv_nth)
qed

lemma owner_unique: "owns k i \<Longrightarrow> owns k' i \<Longrightarrow> k = k'"
proof -
  have dis: "distinct (concat lists)" using es_distinct entries by (metis mset_eq_imp_distinct_iff)
  have "\<not> (owns a i \<and> owns b i)" if "a < b" for a b
  proof
    assume o: "owns a i \<and> owns b i"
    then have a: "a < length lists" and b: "b < length lists" by (simp_all add: owns_def count)
    have "lists ! b \<in> set (drop (Suc a) lists)" using that b by (auto simp: in_set_conv_nth intro!: exI [of _ "b - Suc a"])
    then have "es ! i \<in> set (concat (drop (Suc a) lists))" using o by (auto simp: owns_def)
    moreover have "distinct (concat (take a lists) @ lists ! a @ concat (drop (Suc a) lists))"
      using dis id_take_nth_drop [OF a] by (metis concat.simps(2) concat_append)
    ultimately show False using o by (auto simp: owns_def)
  qed
  then show "owns k i \<Longrightarrow> owns k' i \<Longrightarrow> k = k'" by (metis nat_neq_iff)
qed

text \<open>How many entries of a list are among the first \<open>i\<close>.\<close>

definition pos :: "nat \<Rightarrow> nat \<Rightarrow> nat" where
  "pos k i = length (takeWhile (\<lambda>e. e \<in> set (take i es)) (lists ! k))"

lemma pos_le: "pos k i \<le> length (lists ! k)"
  by (simp add: pos_def length_takeWhile_le)

lemma pos_iff:
  assumes k: "k < length its"
  shows "r < pos k i \<longleftrightarrow> r < length (lists ! k) \<and> lists ! k ! r \<in> set (take i es)"
proof
  assume r: "r < pos k i"
  let ?t = "takeWhile (\<lambda>e. e \<in> set (take i es)) (lists ! k)"
  have "?t ! r \<in> set ?t" using r unfolding pos_def by (rule nth_mem)
  moreover have "?t ! r = lists ! k ! r" using r unfolding pos_def by (rule takeWhile_nth)
  ultimately have "lists ! k ! r \<in> set (take i es)" using set_takeWhileD by fastforce
  then show "r < length (lists ! k) \<and> lists ! k ! r \<in> set (take i es)" using r pos_le [of k i] by simp
next
  assume r: "r < length (lists ! k) \<and> lists ! k ! r \<in> set (take i es)"
  show "r < pos k i"
  proof (rule ccontr)
    assume n: "\<not> r < pos k i"
    let ?p = "length (takeWhile (\<lambda>e. e \<in> set (take i es)) (lists ! k))"
    have le: "?p \<le> r" using n by (simp add: pos_def)
    then have p: "?p < length (lists ! k)" using r by linarith
    have out: "lists ! k ! ?p \<notin> set (take i es)" by (rule nth_length_takeWhile [OF p])
    obtain a where a: "a < length es" "lists ! k ! ?p = es ! a" using list_index [OF k p] by blast
    obtain b where b: "b < length es" "lists ! k ! r = es ! b" using list_index [OF k] r by blast
    have bi: "b < i" using r b in_take by simp
    have ai: "\<not> a < i" using out a in_take by simp
    show False
    proof (cases "?p = r")
      case True
      then show False using out r by simp
    next
      case False
      then have "?p < r" using le by simp
      from list_order [OF k this _ a(2) b(2) a(1) b(1)] r bi ai show False by simp
    qed
  qed
qed

lemma pos_0: "pos k 0 = 0"
  by (cases "lists ! k") (simp_all add: pos_def)

lemma pos_end: "k < length its \<Longrightarrow> pos k (length es) = length (lists ! k)"
proof -
  assume k: "k < length its"
  have "e \<in> set (take (length es) es)" if "e \<in> set (lists ! k)" for e
    using that k count es_set by (auto intro: nth_mem)
  then have "takeWhile (\<lambda>e. e \<in> set (take (length es) es)) (lists ! k) = lists ! k" by (simp add: takeWhile_eq_all_conv)
  then show ?thesis by (simp only: pos_def)
qed

lemma pos_owner:
  assumes o: "owns k i"
  shows "pos k i < length (lists ! k)" "lists ! k ! pos k i = es ! i" "pos k (Suc i) = Suc (pos k i)"
proof -
  have k: "k < length its" and i: "i < length es" using o by (simp_all add: owns_def)
  obtain r where r: "r < length (lists ! k)" "lists ! k ! r = es ! i" using o by (auto simp: owns_def in_set_conv_nth)
  have below: "q < pos k j \<longleftrightarrow> (q < r \<or> q = r \<and> i < j)" if "j = i \<or> j = Suc i" for q j
  proof (cases "q < length (lists ! k)")
    case False
    then show ?thesis using pos_iff [OF k, of q j] r(1) by auto
  next
    case True
    obtain a where a: "a < length es" "lists ! k ! q = es ! a" using list_index [OF k True] by blast
    have "q < r \<Longrightarrow> a < i" "r < q \<Longrightarrow> i < a" "q = r \<Longrightarrow> a = i"
      using list_order [OF k _ r(1) a(2) r(2) a(1) i] list_order [OF k _ True r(2) a(2) i a(1)] a r nth_eq_iff_index_eq [OF es_distinct a(1) i] by auto
    moreover have "q < pos k j \<longleftrightarrow> a < j" using pos_iff [OF k, of q j] True a in_take by simp
    ultimately show ?thesis using that by (metis less_Suc_eq linorder_less_linear not_less_iff_gr_or_eq)
  qed
  have "pos k i = r" using below [of i "pos k i"] below [of i r] by (metis less_irrefl nat_neq_iff)
  moreover have "pos k (Suc i) = Suc r" using below [of "Suc i" r] below [of "Suc i" "Suc r"] by simp
  ultimately show "pos k i < length (lists ! k)" "lists ! k ! pos k i = es ! i" "pos k (Suc i) = Suc (pos k i)" using r by simp_all
qed

lemma pos_other:
  assumes k: "k < length its" and o: "\<not> owns k i" and i: "i < length es"
  shows "pos k (Suc i) = pos k i"
proof -
  have "q < pos k (Suc i) \<longleftrightarrow> q < pos k i" for q
  proof (cases "q < length (lists ! k)")
    case True
    then have "lists ! k ! q \<in> set (lists ! k)" by simp
    then have "lists ! k ! q \<noteq> es ! i" using o k i unfolding owns_def by metis
    then show ?thesis using pos_iff [OF k] i by (simp add: take_Suc_conv_app_nth)
  qed (simp add: pos_iff [OF k])
  then show ?thesis by (metis less_irrefl nat_neq_iff)
qed

text \<open>The entry at the position of a list is not among the first \<open>i\<close>, and it is after them.\<close>

lemma pos_at:
  assumes k: "k < length its" and p: "pos k i < length (lists ! k)"
  shows "\<exists>j < length es. i \<le> j \<and> lists ! k ! pos k i = es ! j"
proof -
  obtain j where j: "j < length es" "lists ! k ! pos k i = es ! j" using list_index [OF k p] by blast
  have "\<not> j < i" using pos_iff [OF k, of "pos k i" i] p j in_take by simp
  then show ?thesis using j by auto
qed

lemma pos_before:
  assumes k: "k < length its" and p: "pos k i = Suc r"
  shows "\<exists>j < length es. j < i \<and> lists ! k ! r = es ! j"
proof -
  have r: "r < length (lists ! k)" "lists ! k ! r \<in> set (take i es)" using pos_iff [OF k, of r i] p by simp_all
  then obtain j where j: "j < length es" "lists ! k ! r = es ! j" using list_index [OF k] by blast
  then show ?thesis using r(2) in_take by auto
qed

text \<open>A search in the lists is a search in all entries.\<close>

lemma seek_pos:
  assumes x: "valid x" and k: "k < length its"
  shows "seek_index c x (lists ! k) = pos k (seek_index c x es)"
proof (rule seek_index_unique [OF pos_le])
  let ?i = "seek_index c x es"
  show "lt (fst (lists ! k ! r)) x" if r: "r < pos k ?i" for r
  proof -
    have "lists ! k ! r \<in> set (take ?i es)" using pos_iff [OF k] r by blast
    then obtain j where "j < ?i" "lists ! k ! r = es ! j" by (auto simp: in_set_conv_nth)
    then show ?thesis using seek_index_before [of j c x es] by simp
  qed
  assume p: "pos k ?i < length (lists ! k)"
  obtain j where j: "j < length es" "?i \<le> j" "lists ! k ! pos k ?i = es ! j" using pos_at [OF k p] by blast
  have i: "?i < length es" using j by simp
  have "\<not> lt (fst (es ! ?i)) x" by (rule seek_index_at [OF i])
  moreover have "j = ?i \<or> lt (fst (es ! ?i)) (fst (es ! j))" using key_order [OF i j(1)] j(2) by auto
  ultimately show "\<not> lt (fst (lists ! k ! pos k ?i)) x"
    using j less_trans [OF valid_nth [OF i] valid_nth [OF j(1)] x] by auto
qed

lemma seek_self: "i < length es \<Longrightarrow> seek_index c (fst (es ! i)) es = i"
  by (rule seek_index_unique) (auto simp: key_order)

section \<open>The children\<close>

definition child_at :: "nat \<Rightarrow> 's IteratorWrapper \<Rightarrow> nat \<Rightarrow> bool" where
  "child_at k w r \<longleftrightarrow> iterator_over.iw_at (lists ! k) (ats k) w r"

definition kids :: "'s MergingIterator \<Rightarrow> (nat \<Rightarrow> nat) \<Rightarrow> bool" where
  "kids m p \<longleftrightarrow> length (mg_children m) = length its \<and> (\<forall>k < length its. child_at k (mg_children m ! k) (p k))"

definition prior :: "nat \<Rightarrow> nat \<Rightarrow> nat" where
  "prior k i = (case pos k i of 0 \<Rightarrow> length (lists ! k) | Suc r \<Rightarrow> r)"

text \<open>The current child is the owner of the entry at a position; past the end there is none.\<close>

definition current_at :: "'s MergingIterator \<Rightarrow> nat \<Rightarrow> bool" where
  "current_at m i \<longleftrightarrow> (if i < length es then \<exists>k. mg_current m = Some k \<and> owns k i else mg_current m = None)"

definition forward_at :: "'s MergingIterator \<Rightarrow> nat \<Rightarrow> bool" where
  "forward_at m i \<longleftrightarrow> kids m (\<lambda>k. pos k i) \<and> mg_direction m = kForward"

definition reverse_at :: "'s MergingIterator \<Rightarrow> nat \<Rightarrow> bool" where
  "reverse_at m i \<longleftrightarrow> kids m (\<lambda>k. prior k (Suc i)) \<and> mg_direction m = kReverse"

definition mg_at :: "'s MergingIterator \<Rightarrow> nat \<Rightarrow> bool" where
  "mg_at m i \<longleftrightarrow> i \<le> length es \<and> current_at m i \<and> (if i < length es then forward_at m i \<or> reverse_at m i else \<exists>p. kids m p)"

lemma kids_all:
  assumes m: "kids m p"
    and f: "\<And>k w. k < length its \<Longrightarrow> child_at k w (p k) \<Longrightarrow> \<exists>w'. f k w = Some w' \<and> child_at k w' (q k)"
  shows "\<exists>m'. all_children f m = Some m' \<and> kids m' q \<and> mg_current m' = mg_current m \<and> mg_direction m' = mg_direction m"
proof -
  have "\<exists>ws'. each_child f 0 (mg_children m) = Some ws' \<and> length ws' = length (mg_children m) \<and> (\<forall>k < length (mg_children m). child_at (0 + k) (ws' ! k) (q (0 + k)))"
    by (rule each_child_all) (use m f in \<open>simp add: kids_def\<close>)
  then obtain ws' where "each_child f 0 (mg_children m) = Some ws'" "length ws' = length (mg_children m)" "\<forall>k < length (mg_children m). child_at k (ws' ! k) (q k)"
    by auto
  then show ?thesis using m by (simp add: all_children_def kids_def)
qed

lemma child_valid: "k < length its \<Longrightarrow> child_at k w r \<Longrightarrow> iw_valid w \<longleftrightarrow> r < length (lists ! k)"
  unfolding child_at_def by (rule iterator_over.iw_at_valid [OF child])

lemma child_key: "k < length its \<Longrightarrow> child_at k w r \<Longrightarrow> r < length (lists ! k) \<Longrightarrow> iw_get_key w = Some (fst (lists ! k ! r))"
  unfolding child_at_def by (rule iterator_over.iw_at_key [OF child])

text \<open>The search over the children, when the valid ones have entries of the whole list and one is better than all others.\<close>

lemma find_best:
  assumes m: "kids m p"
    and e: "\<And>k. k < length its \<Longrightarrow> p k < length (lists ! k) \<Longrightarrow> j k < length es \<and> lists ! k ! p k = es ! j k"
    and o: "o1 < length its" "p o1 < length (lists ! o1)"
    and best: "\<And>k. k < length its \<Longrightarrow> p k < length (lists ! k) \<Longrightarrow> k \<noteq> o1 \<Longrightarrow>
      (\<exists>r. Compare c (fst (es ! j o1)) (fst (es ! j k)) = Some r \<and> better r) \<and> (\<exists>r. Compare c (fst (es ! j k)) (fst (es ! j o1)) = Some r \<and> \<not> better r)"
    and idx: "set ks = {0 ..< length its}"
  shows "find_child better c (mg_children m) ks None = Some (Some o1)"
proof -
  have val: "iw_valid (mg_children m ! k) \<longleftrightarrow> p k < length (lists ! k)" if "k < length its" for k
    using child_valid [OF that] m that by (simp add: kids_def)
  have key: "iw_get_key (mg_children m ! k) = Some (fst (es ! j k))" if "k < length its" "p k < length (lists ! k)" for k
    using child_key [OF that(1) _ that(2)] m that e by (simp add: kids_def)
  have "find_child better c (mg_children m) xs found = Some (Some o1)"
    if "set xs \<subseteq> {0 ..< length its}" "o1 \<in> set xs \<or> found = Some o1" "\<forall>f. found = Some f \<longrightarrow> f < length its \<and> p f < length (lists ! f)" for xs found
    using that
  proof (induction xs arbitrary: found)
    case (Cons x xs)
    have x: "x < length its" using Cons.prems(1) by simp
    show ?case
    proof (cases "p x < length (lists ! x)")
      case False
      then have "x \<noteq> o1" using o(2) by blast
      then show ?thesis using Cons False val [OF x] by simp
    next
      case True
      show ?thesis
      proof (cases found)
        case None
        then show ?thesis using Cons True val [OF x] x by auto
      next
        case (Some f)
        then have f: "f < length its" "p f < length (lists ! f)" using Cons.prems(3) by simp_all
        obtain r where r: "Compare c (fst (es ! j x)) (fst (es ! j f)) = Some r"
          using cmp_defined [OF valid_nth valid_nth] e [OF x True] e [OF f] by blast
        have b: "x = o1 \<Longrightarrow> f \<noteq> o1 \<Longrightarrow> better r" "f = o1 \<Longrightarrow> x \<noteq> o1 \<Longrightarrow> \<not> better r" using best [OF f] best [OF x True] r by auto
        have stp: "find_child better c (mg_children m) (x # xs) found = find_child better c (mg_children m) xs (if better r then Some x else found)"
          using Some val [OF x] True key [OF x True] key [OF f] r by simp
        show ?thesis unfolding stp using Cons.IH [of "if better r then Some x else found"] Cons.prems Some x True f b
          by (cases "x = o1"; cases "f = o1"; cases "better r") auto
      qed
    qed
  qed simp
  from this [of ks None] show ?thesis using idx o(1) by simp
qed

lemma find_none:
  assumes m: "kids m p" and none: "\<And>k. k < length its \<Longrightarrow> p k = length (lists ! k)" and idx: "set ks = {0 ..< length its}"
  shows "find_child better c (mg_children m) ks None = Some None"
proof -
  have "\<not> iw_valid (mg_children m ! k)" if "k < length its" for k
  proof -
    have "child_at k (mg_children m ! k) (p k)" using m that by (simp add: kids_def)
    from child_valid [OF that this] none [OF that] show ?thesis by simp
  qed
  then have "set xs \<subseteq> {0 ..< length its} \<Longrightarrow> find_child better c (mg_children m) xs None = Some None" for xs
    by (induction xs) auto
  then show ?thesis using idx by simp
qed

lemma less_compare: "valid a \<Longrightarrow> valid b \<Longrightarrow> lt a b \<Longrightarrow> (\<exists>r. Compare c a b = Some r \<and> r < 0) \<and> (\<exists>r. Compare c b a = Some r \<and> r > 0)"
proof -
  assume v: "valid a" "valid b" and l: "lt a b"
  obtain r where r: "Compare c a b = Some r" "r < 0" using l by (auto simp: less_key_def split: option.splits)
  obtain r' where "Compare c b a = Some r'" "sgn r' = - sgn r" using cmp_swap [OF v r(1)] by blast
  then show ?thesis using r by (auto simp: sgn_if split: if_splits)
qed

lemma FindSmallest_at:
  assumes m: "kids m (\<lambda>k. pos k i)" and i: "i \<le> length es"
  shows "\<exists>m'. FindSmallest c m = Some m' \<and> kids m' (\<lambda>k. pos k i) \<and> mg_direction m' = mg_direction m \<and> current_at m' i"
proof -
  have len: "set [0 ..< length (mg_children m)] = {0 ..< length its}" using m by (simp add: kids_def)
  show ?thesis
  proof (cases "i < length es")
    case True
    obtain o1 where o: "owns o1 i" using owner_ex [OF True] by blast
    have "\<forall>k. \<exists>j. k < length its \<longrightarrow> pos k i < length (lists ! k) \<longrightarrow> j < length es \<and> i \<le> j \<and> lists ! k ! pos k i = es ! j"
      using pos_at by blast
    then obtain j where j: "\<And>k. k < length its \<Longrightarrow> pos k i < length (lists ! k) \<Longrightarrow> j k < length es \<and> i \<le> j k \<and> lists ! k ! pos k i = es ! j k" by metis
    have ok: "o1 < length its" "pos o1 i < length (lists ! o1)" using o pos_owner(1) [OF o] by (simp_all add: owns_def)
    have jo: "j o1 = i" using j [OF ok] pos_owner(2) [OF o] nth_eq_iff_index_eq [OF es_distinct] True by metis
    have "find_child (\<lambda>r. r < 0) c (mg_children m) [0 ..< length (mg_children m)] None = Some (Some o1)"
    proof (rule find_best [OF m _ ok _ len])
      fix k
      assume k: "k < length its" "pos k i < length (lists ! k)"
      show "j k < length es \<and> lists ! k ! pos k i = es ! j k" using j [OF k] by blast
      assume ne: "k \<noteq> o1"
      have "owns k (j k)" using j [OF k] k nth_mem [OF k(2)] by (simp add: owns_def)
      then have "j k \<noteq> i" using owner_unique o ne by blast
      then have "lt (fst (es ! j o1)) (fst (es ! j k))" using key_order [OF True, of "j k"] j [OF k] jo by simp
      from less_compare [OF _ _ this] show "(\<exists>r. Compare c (fst (es ! j o1)) (fst (es ! j k)) = Some r \<and> r < 0)
          \<and> (\<exists>r. Compare c (fst (es ! j k)) (fst (es ! j o1)) = Some r \<and> \<not> r < 0)"
        using valid_nth j [OF k] jo True by fastforce
    qed
    then show ?thesis using m o True by (auto simp: FindSmallest_def kids_def current_at_def)
  next
    case False
    then have "i = length es" using i by simp
    then have "find_child (\<lambda>r. r < 0) c (mg_children m) [0 ..< length (mg_children m)] None = Some None"
      using find_none [OF m _ len] pos_end by simp
    then show ?thesis using m False by (auto simp: FindSmallest_def kids_def current_at_def)
  qed
qed

lemma prior_Suc: "owns k i \<Longrightarrow> prior k (Suc i) = pos k i"
  using pos_owner(3) by (simp add: prior_def)

lemma prior_other: "k < length its \<Longrightarrow> \<not> owns k i \<Longrightarrow> i < length es \<Longrightarrow> prior k (Suc i) = prior k i"
  by (simp add: prior_def pos_other)

lemma prior_entry:
  assumes k: "k < length its" and p: "prior k i < length (lists ! k)"
  shows "\<exists>j < length es. j < i \<and> lists ! k ! prior k i = es ! j"
proof (cases "pos k i")
  case 0
  then show ?thesis using p by (simp add: prior_def)
next
  case (Suc r)
  then show ?thesis using pos_before [OF k Suc] by (simp add: prior_def)
qed

lemma FindLargest_at:
  assumes m: "kids m (\<lambda>k. prior k i)" and i: "i \<le> length es"
  shows "\<exists>m'. FindLargest c m = Some m' \<and> kids m' (\<lambda>k. prior k i) \<and> mg_direction m' = mg_direction m
    \<and> current_at m' (if i = 0 then length es else i - 1)"
proof -
  have len: "set (rev [0 ..< length (mg_children m)]) = {0 ..< length its}" using m by (simp add: kids_def)
  show ?thesis
  proof (cases i)
    case (Suc i')
    then have i': "i' < length es" using i by simp
    obtain o1 where o: "owns o1 i'" using owner_ex [OF i'] by blast
    have "\<forall>k. \<exists>j. k < length its \<longrightarrow> prior k i < length (lists ! k) \<longrightarrow> j < length es \<and> j < i \<and> lists ! k ! prior k i = es ! j"
      using prior_entry by blast
    then obtain j where j: "\<And>k. k < length its \<Longrightarrow> prior k i < length (lists ! k) \<Longrightarrow> j k < length es \<and> j k < i \<and> lists ! k ! prior k i = es ! j k" by metis
    have po: "prior o1 i = pos o1 i'" using prior_Suc [OF o] Suc by simp
    have ok: "o1 < length its" "prior o1 i < length (lists ! o1)" using o pos_owner(1) [OF o] po by (simp_all add: owns_def)
    have jo: "j o1 = i'" using j [OF ok] pos_owner(2) [OF o] po nth_eq_iff_index_eq [OF es_distinct] i' by metis
    have "find_child (\<lambda>r. r > 0) c (mg_children m) (rev [0 ..< length (mg_children m)]) None = Some (Some o1)"
    proof (rule find_best [OF m _ ok _ len])
      fix k
      assume k: "k < length its" "prior k i < length (lists ! k)"
      show "j k < length es \<and> lists ! k ! prior k i = es ! j k" using j [OF k] by blast
      assume ne: "k \<noteq> o1"
      have "owns k (j k)" using j [OF k] k nth_mem [OF k(2)] by (simp add: owns_def)
      then have "j k \<noteq> i'" using owner_unique o ne by blast
      then have "lt (fst (es ! j k)) (fst (es ! j o1))" using key_order [of "j k" i'] i' j [OF k] jo Suc by simp
      from less_compare [OF _ _ this] show "(\<exists>r. Compare c (fst (es ! j o1)) (fst (es ! j k)) = Some r \<and> r > 0)
          \<and> (\<exists>r. Compare c (fst (es ! j k)) (fst (es ! j o1)) = Some r \<and> \<not> r > 0)"
        using valid_nth j [OF k] jo i' by fastforce
    qed
    then show ?thesis using m o i' Suc by (auto simp: FindLargest_def kids_def current_at_def)
  next
    case 0
    then have "prior k i = length (lists ! k)" for k using pos_0 [of k] by (simp add: prior_def)
    then have "find_child (\<lambda>r. r > 0) c (mg_children m) (rev [0 ..< length (mg_children m)]) None = Some None"
      using find_none [OF m _ len] by simp
    then show ?thesis using m 0 by (auto simp: FindLargest_def kids_def current_at_def)
  qed
qed

text \<open>What the searches leave is a position.\<close>

lemma kids_direction: "kids (m\<lparr>mg_direction := d\<rparr>) p = kids m p" "current_at (m\<lparr>mg_direction := d\<rparr>) i = current_at m i"
  by (simp_all add: kids_def current_at_def)

lemma smallest_ok:
  assumes "kids m (\<lambda>k. pos k i)" and "i \<le> length es"
  shows "\<exists>m'. FindSmallest c m = Some m' \<and> mg_at (m'\<lparr>mg_direction := kForward\<rparr>) i \<and> mg_direction m' = mg_direction m"
proof -
  obtain m' where m': "FindSmallest c m = Some m'" "kids m' (\<lambda>k. pos k i)" "mg_direction m' = mg_direction m" "current_at m' i"
    using FindSmallest_at [OF assms] by blast
  have "mg_at (m'\<lparr>mg_direction := kForward\<rparr>) i" using m' assms(2) by (auto simp: mg_at_def forward_at_def kids_direction)
  then show ?thesis using m' by blast
qed

lemma largest_ok:
  assumes "kids m (\<lambda>k. prior k i)" and "i \<le> length es"
  shows "\<exists>m'. FindLargest c m = Some m' \<and> mg_at (m'\<lparr>mg_direction := kReverse\<rparr>) (if i = 0 then length es else i - 1) \<and> mg_direction m' = mg_direction m"
proof -
  obtain m' where m': "FindLargest c m = Some m'" "kids m' (\<lambda>k. prior k i)" "mg_direction m' = mg_direction m" "current_at m' (if i = 0 then length es else i - 1)"
    using FindLargest_at [OF assms] by blast
  have "mg_at (m'\<lparr>mg_direction := kReverse\<rparr>) (if i = 0 then length es else i - 1)"
    using m' assms(2) by (cases i) (auto simp: mg_at_def reverse_at_def kids_direction)
  then show ?thesis using m' by blast
qed

section \<open>The contract\<close>

lemma at_kids: "mg_at m i \<Longrightarrow> \<exists>p. kids m p"
  by (auto simp: mg_at_def forward_at_def reverse_at_def split: if_splits)

lemma at_first: "mg_at m i \<Longrightarrow> \<exists>m'. mg_SeekToFirst c its m = Some m' \<and> mg_at m' 0"
proof -
  assume "mg_at m i"
  then obtain p where m: "kids m p" using at_kids by blast
  obtain m1 where m1: "all_children (\<lambda>i. iw_SeekToFirst (its ! i)) m = Some m1" "kids m1 (\<lambda>k. pos k 0)"
    using kids_all [OF m, of "\<lambda>i. iw_SeekToFirst (its ! i)" "\<lambda>k. pos k 0"] iterator_over.iw_at_First [OF child] unfolding child_at_def pos_0 by blast
  then show ?thesis using smallest_ok [OF m1(2)] by (auto simp: mg_SeekToFirst_def)
qed

lemma at_last: "mg_at m i \<Longrightarrow> \<exists>m'. mg_SeekToLast c its m = Some m' \<and> mg_at m' (length es - 1)"
proof -
  assume "mg_at m i"
  then obtain p where m: "kids m p" using at_kids by blast
  have pr: "prior k (length es) = length (lists ! k) - 1" if "k < length its" for k
    using pos_end [OF that] by (simp add: prior_def split: nat.splits)
  obtain m1 where m1: "all_children (\<lambda>i. iw_SeekToLast (its ! i)) m = Some m1" "kids m1 (\<lambda>k. length (lists ! k) - 1)"
    using kids_all [OF m, of "\<lambda>i. iw_SeekToLast (its ! i)" "\<lambda>k. length (lists ! k) - 1"] iterator_over.iw_at_Last [OF child] unfolding child_at_def by blast
  have "kids m1 (\<lambda>k. prior k (length es))" using m1(2) pr by (simp add: kids_def)
  from largest_ok [OF this order_refl] m1(1) show ?thesis by (cases "es = []") (auto simp: mg_SeekToLast_def)
qed

lemma at_seek: "mg_at m i \<Longrightarrow> valid x \<Longrightarrow> \<exists>m'. mg_Seek c its x m = Some m' \<and> mg_at m' (seek_index c x es)"
proof -
  assume "mg_at m i" and x: "valid x"
  then obtain p where m: "kids m p" using at_kids by blast
  have "\<exists>m1. all_children (\<lambda>i. iw_Seek (its ! i) x) m = Some m1 \<and> kids m1 (\<lambda>k. pos k (seek_index c x es)) \<and> mg_current m1 = mg_current m \<and> mg_direction m1 = mg_direction m"
  proof (rule kids_all [OF m])
    fix k w assume k: "k < length its" and w: "child_at k w (p k)"
    show "\<exists>w'. iw_Seek (its ! k) x w = Some w' \<and> child_at k w' (pos k (seek_index c x es))"
      using iterator_over.iw_at_Seek [OF child [OF k] _ x] w unfolding child_at_def seek_pos [OF x k] by blast
  qed
  then obtain m1 where m1: "all_children (\<lambda>i. iw_Seek (its ! i) x) m = Some m1" "kids m1 (\<lambda>k. pos k (seek_index c x es))" by blast
  then show ?thesis using smallest_ok [OF m1(2) seek_index_le] by (auto simp: mg_Seek_def)
qed

lemma current_entry:
  assumes m: "kids m p" and cur: "current_at m i" and i: "i < length es" and p: "\<And>k. owns k i \<Longrightarrow> p k = pos k i"
  shows "\<exists>k w. mg_current m = Some k \<and> owns k i \<and> current_child m = Some (k, w) \<and> child_at k w (pos k i) \<and> mg_children m ! k = w
    \<and> mg_key m = Some (fst (es ! i))"
proof -
  obtain k where k: "mg_current m = Some k" "owns k i" using cur i by (auto simp: current_at_def)
  have len: "k < length its" "k < length (mg_children m)" using k(2) m by (simp_all add: owns_def kids_def)
  let ?w = "mg_children m ! k"
  have w: "child_at k ?w (pos k i)" using m len(1) p [OF k(2)] unfolding kids_def by metis
  have "current_child m = Some (k, ?w)" using k len by (simp add: current_child_def)
  moreover have "iw_get_key ?w = Some (fst (es ! i))" using child_key [OF len(1) w pos_owner(1) [OF k(2)]] pos_owner(2) [OF k(2)] by simp
  ultimately show ?thesis using k w by (simp add: mg_key_def)
qed

lemma at_entry:
  assumes m: "mg_at m i" and i: "i < length es"
  shows "\<exists>k w. mg_current m = Some k \<and> owns k i \<and> current_child m = Some (k, w) \<and> child_at k w (pos k i) \<and> mg_children m ! k = w
    \<and> mg_key m = Some (fst (es ! i))"
proof -
  have cur: "current_at m i" using m by (simp add: mg_at_def)
  show ?thesis
  proof (cases "forward_at m i")
    case True
    then show ?thesis using current_entry [OF _ cur i] by (auto simp: forward_at_def)
  next
    case False
    then have "kids m (\<lambda>k. prior k (Suc i))" using m i by (simp add: mg_at_def reverse_at_def)
    from current_entry [OF this cur i prior_Suc] show ?thesis .
  qed
qed

text \<open>The current child moves, the others stay.\<close>

lemma kids_move:
  assumes m: "kids m p" and cur: "current_child m = Some (k, w)" and w': "child_at k w' (q k)" and q: "\<And>j. j < length its \<Longrightarrow> j \<noteq> k \<Longrightarrow> q j = p j"
    and f: "f k w = Some w'"
  shows "\<exists>m'. move_current f m = Some m' \<and> kids m' q \<and> mg_direction m' = mg_direction m"
proof -
  have k: "k < length (mg_children m)" using cur by (auto simp: current_child_def nth_opt_def split: bind_splits if_splits)
  have "child_at j ((mg_children m)[k := w'] ! j) (q j)" if "j < length its" for j
    using m w' q that k by (cases "j = k") (auto simp: kids_def)
  then show ?thesis using m cur f by (simp add: move_current_def kids_def)
qed

lemma current_same: "kids m p \<Longrightarrow> kids m' q \<Longrightarrow> mg_current m' = mg_current m \<Longrightarrow> mg_current m = Some k \<Longrightarrow> k < length its \<Longrightarrow>
    current_child m' = Some (k, mg_children m' ! k)"
  by (simp add: current_child_def kids_def)

lemma next_forward:
  assumes m: "kids m (\<lambda>k. pos k i)" and i: "i < length es" and o: "owns o1 i" "mg_current m = Some o1"
  shows "\<exists>m'. move_current (\<lambda>j. iw_Next (its ! j)) m = Some m' \<and> kids m' (\<lambda>k. pos k (Suc i)) \<and> mg_direction m' = mg_direction m"
proof -
  have k: "o1 < length its" using o(1) by (simp add: owns_def)
  let ?w = "mg_children m ! o1"
  have w: "child_at o1 ?w (pos o1 i)" using m k by (simp add: kids_def)
  obtain w' where w': "iw_Next (its ! o1) ?w = Some w'" "child_at o1 w' (Suc (pos o1 i))"
    using iterator_over.iw_at_Next [OF child [OF k] w [unfolded child_at_def] pos_owner(1) [OF o(1)]] unfolding child_at_def by blast
  show ?thesis
  proof (rule kids_move [where f = "\<lambda>j. iw_Next (its ! j)", OF m current_same [OF m m refl o(2) k] _ _ w'(1)])
    show "child_at o1 w' (pos o1 (Suc i))" using w'(2) pos_owner(3) [OF o(1)] by simp
    show "pos j (Suc i) = pos j i" if "j < length its" "j \<noteq> o1" for j
      using pos_other [OF that(1) _ i] owner_unique [OF o(1)] that(2) by blast
  qed
qed

lemma prev_reverse:
  assumes m: "kids m (\<lambda>k. prior k (Suc i))" and i: "i < length es" and o: "owns o1 i" "mg_current m = Some o1"
  shows "\<exists>m'. move_current (\<lambda>j. iw_Prev (its ! j)) m = Some m' \<and> kids m' (\<lambda>k. prior k i) \<and> mg_direction m' = mg_direction m"
proof -
  have k: "o1 < length its" using o(1) by (simp add: owns_def)
  let ?w = "mg_children m ! o1"
  have w: "child_at o1 ?w (pos o1 i)" using m k prior_Suc [OF o(1)] unfolding kids_def by metis
  obtain w' where w': "iw_Prev (its ! o1) ?w = Some w'" "child_at o1 w' (if pos o1 i = 0 then length (lists ! o1) else pos o1 i - 1)"
    using iterator_over.iw_at_Prev [OF child [OF k] w [unfolded child_at_def] pos_owner(1) [OF o(1)]] unfolding child_at_def by blast
  show ?thesis
  proof (rule kids_move [where f = "\<lambda>j. iw_Prev (its ! j)", OF m current_same [OF m m refl o(2) k] _ _ w'(1)])
    show "child_at o1 w' (prior o1 i)" using w'(2) by (cases "pos o1 i") (simp_all add: prior_def)
    show "prior j i = prior j (Suc i)" if "j < length its" "j \<noteq> o1" for j
      using prior_other [OF that(1) _ i] owner_unique [OF o(1)] that(2) by metis
  qed
qed

text \<open>Turning around: all other children are placed after the current key, or before it.\<close>

lemma other_ahead:
  assumes k: "k < length its" and p: "pos k i < length (lists ! k)" and i: "i < length es" and n: "\<not> owns k i"
  shows "\<exists>r. Compare c (fst (es ! i)) (fst (lists ! k ! pos k i)) = Some r \<and> r \<noteq> 0"
proof -
  obtain j where j: "j < length es" "i \<le> j" "lists ! k ! pos k i = es ! j" using pos_at [OF k p] by blast
  have "j \<noteq> i" using n j k nth_mem [OF p] by (auto simp: owns_def)
  then have "lt (fst (es ! i)) (fst (es ! j))" using key_order [OF i j(1)] j(2) by simp
  from less_compare [OF valid_nth [OF i] valid_nth [OF j(1)] this] j(3) show ?thesis by auto
qed

lemma switch_forward_at:
  assumes m: "kids m (\<lambda>k. prior k (Suc i))" and i: "i < length es" and o: "owns o1 i" "mg_current m = Some o1" and key: "mg_key m = Some (fst (es ! i))"
  shows "\<exists>m'. switch_forward c its m = Some m' \<and> kids m' (\<lambda>k. pos k i) \<and> mg_current m' = Some o1 \<and> mg_direction m' = kForward"
proof -
  let ?x = "fst (es ! i)"
  let ?f = "\<lambda>i w. if mg_current m \<noteq> Some i then do {
         w1 \<leftarrow> iw_Seek (its ! i) ?x w;
         if iw_valid w1 then do { k \<leftarrow> iw_get_key w1; r \<leftarrow> Compare c ?x k; if r = 0 then iw_Next (its ! i) w1 else Some w1 } else Some w1 }
       else Some w"
  have "\<exists>m1. all_children ?f m = Some m1 \<and> kids m1 (\<lambda>k. pos k i) \<and> mg_current m1 = mg_current m \<and> mg_direction m1 = mg_direction m"
  proof (rule kids_all [OF m])
    fix k w assume k: "k < length its" and w: "child_at k w (prior k (Suc i))"
    show "\<exists>w'. ?f k w = Some w' \<and> child_at k w' (pos k i)"
    proof (cases "k = o1")
      case True
      then show ?thesis using w o prior_Suc [OF o(1)] by simp
    next
      case False
      then have n: "\<not> owns k i" using owner_unique o(1) by blast
      obtain w1 where w1: "iw_Seek (its ! k) ?x w = Some w1" "child_at k w1 (pos k i)"
        using iterator_over.iw_at_Seek [OF child [OF k] w [unfolded child_at_def] valid_nth [OF i]]
        unfolding child_at_def seek_pos [OF valid_nth [OF i] k] seek_self [OF i] by blast
      show ?thesis
      proof (cases "pos k i < length (lists ! k)")
        case True
        obtain r where "Compare c ?x (fst (lists ! k ! pos k i)) = Some r" "r \<noteq> 0" using other_ahead [OF k True i n] by blast
        then show ?thesis using w1 o(2) False child_valid [OF k w1(2)] True child_key [OF k w1(2) True] by simp
      next
        case False2: False
        then show ?thesis using w1 o(2) False child_valid [OF k w1(2)] by simp
      qed
    qed
  qed
  then show ?thesis using o(2) by (auto simp: switch_forward_def key kids_direction)
qed

lemma switch_reverse_at:
  assumes m: "kids m (\<lambda>k. pos k i)" and i: "i < length es" and o: "owns o1 i" "mg_current m = Some o1" and key: "mg_key m = Some (fst (es ! i))"
  shows "\<exists>m'. switch_reverse its m = Some m' \<and> kids m' (\<lambda>k. prior k (Suc i)) \<and> mg_current m' = Some o1 \<and> mg_direction m' = kReverse"
proof -
  let ?x = "fst (es ! i)"
  let ?f = "\<lambda>i w. if mg_current m \<noteq> Some i then do {
         w1 \<leftarrow> iw_Seek (its ! i) ?x w;
         if iw_valid w1 then iw_Prev (its ! i) w1 else iw_SeekToLast (its ! i) w1 }
       else Some w"
  have "\<exists>m1. all_children ?f m = Some m1 \<and> kids m1 (\<lambda>k. prior k (Suc i)) \<and> mg_current m1 = mg_current m \<and> mg_direction m1 = mg_direction m"
  proof (rule kids_all [OF m])
    fix k w assume k: "k < length its" and w: "child_at k w (pos k i)"
    show "\<exists>w'. ?f k w = Some w' \<and> child_at k w' (prior k (Suc i))"
    proof (cases "k = o1")
      case True
      then show ?thesis using w o prior_Suc [OF o(1)] by simp
    next
      case False
      then have n: "\<not> owns k i" using owner_unique o(1) by blast
      have pr: "prior k (Suc i) = (if pos k i = 0 then length (lists ! k) else pos k i - 1)"
        using prior_other [OF k n i] by (simp add: prior_def split: nat.splits)
      obtain w1 where w1: "iw_Seek (its ! k) ?x w = Some w1" "child_at k w1 (pos k i)"
        using iterator_over.iw_at_Seek [OF child [OF k] w [unfolded child_at_def] valid_nth [OF i]]
        unfolding child_at_def seek_pos [OF valid_nth [OF i] k] seek_self [OF i] by blast
      show ?thesis
      proof (cases "pos k i < length (lists ! k)")
        case True
        obtain w2 where "iw_Prev (its ! k) w1 = Some w2" "child_at k w2 (prior k (Suc i))"
          using iterator_over.iw_at_Prev [OF child [OF k] w1(2) [unfolded child_at_def] True] unfolding child_at_def pr by blast
        then show ?thesis using w1 o(2) False child_valid [OF k w1(2)] True by simp
      next
        case False2: False
        then have "pos k i = length (lists ! k)" using pos_le [of k i] by simp
        then have pr': "prior k (Suc i) = length (lists ! k) - 1" using pr by simp
        obtain w2 where "iw_SeekToLast (its ! k) w1 = Some w2" "child_at k w2 (prior k (Suc i))"
          using iterator_over.iw_at_Last [OF child [OF k] w1(2) [unfolded child_at_def]] unfolding child_at_def pr' by blast
        then show ?thesis using w1 o(2) False child_valid [OF k w1(2)] False2 by simp
      qed
    qed
  qed
  then show ?thesis using o(2) by (auto simp: switch_reverse_def key kids_direction)
qed

lemma at_next:
  assumes m: "mg_at m i" and i: "i < length es"
  shows "\<exists>m'. mg_Next c its m = Some m' \<and> mg_at m' (Suc i)"
proof -
  obtain o1 where o: "mg_current m = Some o1" "owns o1 i" and key: "mg_key m = Some (fst (es ! i))" using at_entry [OF m i] by blast
  obtain m1 where m1: "(if mg_direction m \<noteq> kForward then switch_forward c its m else Some m) = Some m1"
      "kids m1 (\<lambda>k. pos k i)" "mg_current m1 = Some o1" "mg_direction m1 = kForward"
  proof (cases "forward_at m i")
    case True
    then show ?thesis using that [of m] o(1) by (simp add: forward_at_def)
  next
    case False
    then have "kids m (\<lambda>k. prior k (Suc i))" "mg_direction m = kReverse" using m i by (simp_all add: mg_at_def reverse_at_def)
    then show ?thesis using switch_forward_at [OF _ i o(2,1) key] that by auto
  qed
  obtain m2 where m2: "move_current (\<lambda>j. iw_Next (its ! j)) m1 = Some m2" "kids m2 (\<lambda>k. pos k (Suc i))" "mg_direction m2 = kForward"
    using next_forward [OF m1(2) i o(2) m1(3)] m1(4) by auto
  obtain m3 where m3: "FindSmallest c m2 = Some m3" "mg_at (m3\<lparr>mg_direction := kForward\<rparr>) (Suc i)" "mg_direction m3 = kForward"
    using smallest_ok [OF m2(2)] i m2(3) by auto
  have "m3\<lparr>mg_direction := kForward\<rparr> = m3" using m3(3) by simp
  then have "mg_at m3 (Suc i)" using m3(2) by metis
  then show ?thesis using m1(1) m2(1) m3(1) o(1) by (simp add: mg_Next_def mg_Valid_def split del: if_split)
qed

lemma at_prev:
  assumes m: "mg_at m i" and i: "i < length es"
  shows "\<exists>m'. mg_Prev c its m = Some m' \<and> mg_at m' (if i = 0 then length es else i - 1)"
proof -
  obtain o1 where o: "mg_current m = Some o1" "owns o1 i" and key: "mg_key m = Some (fst (es ! i))" using at_entry [OF m i] by blast
  obtain m1 where m1: "(if mg_direction m \<noteq> kReverse then switch_reverse its m else Some m) = Some m1"
      "kids m1 (\<lambda>k. prior k (Suc i))" "mg_current m1 = Some o1" "mg_direction m1 = kReverse"
  proof (cases "forward_at m i")
    case True
    then show ?thesis using switch_reverse_at [OF _ i o(2,1) key] that by (auto simp: forward_at_def)
  next
    case False
    then show ?thesis using that [of m] o(1) m i by (simp add: mg_at_def reverse_at_def)
  qed
  obtain m2 where m2: "move_current (\<lambda>j. iw_Prev (its ! j)) m1 = Some m2" "kids m2 (\<lambda>k. prior k i)" "mg_direction m2 = kReverse"
    using prev_reverse [OF m1(2) i o(2) m1(3)] m1(4) by auto
  obtain m3 where m3: "FindLargest c m2 = Some m3" "mg_at (m3\<lparr>mg_direction := kReverse\<rparr>) (if i = 0 then length es else i - 1)" "mg_direction m3 = kReverse"
    using largest_ok [OF m2(2)] i m2(3) by auto
  have "m3\<lparr>mg_direction := kReverse\<rparr> = m3" using m3(3) by simp
  then have "mg_at m3 (if i = 0 then length es else i - 1)" using m3(2) by metis
  then show ?thesis using m1(1) m2(1) m3(1) o(1) by (simp add: mg_Prev_def mg_Valid_def split del: if_split)
qed

lemma at_status:
  assumes m: "kids m p"
  shows "mg_status its m = Some Status_OK"
proof -
  have "first_error a b Status_OK = Some Status_OK"
    if "length a = length b" "\<forall>k < length a. iw_status (a ! k) (b ! k) = Some Status_OK" for a :: "'s Iterator list" and b
    using that by (induction a b "Status_OK" rule: first_error.induct) (auto simp: Status_ok_def Status_OK_def All_less_Suc2)
  moreover have "iw_status (its ! k) (mg_children m ! k) = Some Status_OK" if "k < length its" for k
    using iterator_over.iw_at_status [OF child [OF that]] m that by (auto simp: kids_def child_at_def)
  ultimately show ?thesis using m by (simp add: mg_status_def kids_def)
qed

lemma new_at:
  assumes s: "length states = length its" "\<And>k. k < length its \<Longrightarrow> \<exists>r. ats k (states ! k) r"
  shows "\<exists>m. new_MergingIterator its states = Some m \<and> mg_at m (length es)"
proof -
  let ?f = "\<lambda>i w. iw_Set (its ! i) (Some (states ! i)) w" and ?ws = "replicate (length states) new_IteratorWrapper"
  have "\<exists>w'. ?f (0 + k) (?ws ! k) = Some w' \<and> (\<exists>r. child_at (0 + k) w' r)" if "k < length ?ws" for k
  proof -
    have k: "k < length its" using that s(1) by simp
    obtain r where "ats k (states ! k) r" using s(2) [OF k] by blast
    from iterator_over.iw_Set_at [OF child [OF k] this, of "?ws ! k"] show ?thesis unfolding child_at_def add_0 by blast
  qed
  from each_child_all [where f = ?f and i = 0 and ws = ?ws and P = "\<lambda>k w. \<exists>r. child_at k w r", OF this]
  obtain ws where ws: "each_child ?f 0 ?ws = Some ws" "length ws = length its" "\<forall>k < length its. \<exists>r. child_at k (ws ! k) r" using s(1) by auto
  obtain p where p: "\<And>k. k < length its \<Longrightarrow> child_at k (ws ! k) (p k)" using ws(3) by metis
  let ?m = "\<lparr>mg_children = ws, mg_current = None, mg_direction = kForward\<rparr>"
  have "kids ?m p" using p ws(2) by (simp add: kids_def)
  then have "mg_at ?m (length es)" by (auto simp: mg_at_def current_at_def)
  then show ?thesis using ws(1) by (simp add: new_MergingIterator_def)
qed

end

sublocale merging \<subseteq> merged: iterator_over "MergingIterator_ops c its" c valid es mg_at
proof unfold_locales
  fix m i assume m: "mg_at m i"
  show "i \<le> length es" using m by (simp add: mg_at_def)
  show "it_Valid (MergingIterator_ops c its) m = (i < length es)"
    using m by (auto simp: MergingIterator_ops_def mg_Valid_def mg_at_def current_at_def split: if_splits)
  show "it_status (MergingIterator_ops c its) m = Some Status_OK" using at_status at_kids [OF m] by (auto simp: MergingIterator_ops_def)
  show "\<exists>s'. it_SeekToFirst (MergingIterator_ops c its) m = Some s' \<and> mg_at s' 0" using at_first [OF m] by (simp add: MergingIterator_ops_def)
  show "\<exists>s'. it_SeekToLast (MergingIterator_ops c its) m = Some s' \<and> mg_at s' (length es - 1)" using at_last [OF m] by (simp add: MergingIterator_ops_def)
  show "\<exists>s'. it_Seek (MergingIterator_ops c its) x m = Some s' \<and> mg_at s' (seek_index c x es)" if "valid x" for x
    using at_seek [OF m that] by (simp add: MergingIterator_ops_def)
  assume i: "i < length es"
  obtain k w where k: "owns k i" "current_child m = Some (k, w)" "child_at k w (pos k i)" and key: "mg_key m = Some (fst (es ! i))"
    using at_entry [OF m i] by blast
  show "it_key (MergingIterator_ops c its) m = Some (fst (es ! i))" using key by (simp add: MergingIterator_ops_def)
  have "k < length its" using k(1) by (simp add: owns_def)
  from iterator_over.iw_at_value [OF child [OF this] k(3) [unfolded child_at_def] pos_owner(1) [OF k(1)]]
  show "it_value (MergingIterator_ops c its) m = Some (snd (es ! i))" using k(2) pos_owner(2) [OF k(1)] by (simp add: MergingIterator_ops_def mg_value_def)
  show "\<exists>s'. it_Next (MergingIterator_ops c its) m = Some s' \<and> mg_at s' (Suc i)" using at_next [OF m i] by (simp add: MergingIterator_ops_def)
  show "\<exists>s'. it_Prev (MergingIterator_ops c its) m = Some s' \<and> mg_at s' (if i = 0 then length es else i - 1)"
    using at_prev [OF m i] by (simp add: MergingIterator_ops_def split del: if_split)
qed

end
