(* ===== verification/LdbWalk.thy ===== *)
theory LdbWalk
  imports LdbIterator
begin

text \<open>
  Clients of an iterator (include/leveldb/iterator.h): a client makes any sequence of calls, and what it sees
  afterwards is an entry of the list the iterator is over, or that there is none. The locale
  \<open>iterator_over\<close> gives this for every iterator that keeps the contract.
\<close>

datatype walk_step = To_first | To_last | To slice | Forward | Backward

fun step_iterator :: "'s Iterator \<Rightarrow> walk_step \<Rightarrow> 's \<Rightarrow> 's option" where
  "step_iterator it To_first = it_SeekToFirst it"
| "step_iterator it To_last = it_SeekToLast it"
| "step_iterator it (To target) = it_Seek it target"
| "step_iterator it Forward = it_Next it"
| "step_iterator it Backward = it_Prev it"

text \<open>The positions of the list, of which the last stands for the end; from there no step leads forward or backward.\<close>

fun step_position :: "Comparator \<Rightarrow> (slice \<times> slice) list \<Rightarrow> walk_step \<Rightarrow> nat \<Rightarrow> nat option" where
  "step_position c es To_first i = Some 0"
| "step_position c es To_last i = Some (length es - 1)"
| "step_position c es (To target) i = Some (seek_index c target es)"
| "step_position c es Forward i = (if i < length es then Some (Suc i) else None)"
| "step_position c es Backward i = (if i < length es then Some (if i = 0 then length es else i - 1) else None)"

fun walk :: "(walk_step \<Rightarrow> 's \<Rightarrow> 's option) \<Rightarrow> walk_step list \<Rightarrow> 's \<Rightarrow> 's option" where
  "walk f [] s = Some s"
| "walk f (x # xs) s = do { s1 \<leftarrow> f x s; walk f xs s1 }"

definition observe :: "'s Iterator \<Rightarrow> 's \<Rightarrow> ((slice \<times> slice) option \<times> Status) option" where
  "observe it s = do {
     st \<leftarrow> it_status it s;
     if it_Valid it s then do { k \<leftarrow> it_key it s; v \<leftarrow> it_value it s; Some (Some (k, v), st) } else Some (None, st)
   }"

fun target_ok :: "(slice \<Rightarrow> bool) \<Rightarrow> walk_step \<Rightarrow> bool" where
  "target_ok valid (To target) = valid target"
| "target_ok valid _ = True"

context iterator_over
begin

lemma step_at: "at s i \<Longrightarrow> target_ok valid x \<Longrightarrow> step_position c es x i = Some j \<Longrightarrow> \<exists>s'. step_iterator it x s = Some s' \<and> at s' j"
  using at_First [of s i] at_Last [of s i] at_Seek [of s i] at_Next [of s i] at_Prev [of s i]
  by (cases x) (auto split: if_splits)

lemma walk_at: "at s i \<Longrightarrow> \<forall>x \<in> set xs. target_ok valid x \<Longrightarrow> walk (step_position c es) xs i = Some j \<Longrightarrow>
    \<exists>s'. walk (step_iterator it) xs s = Some s' \<and> at s' j"
proof (induction xs arbitrary: s i)
  case (Cons x xs)
  obtain k where k: "step_position c es x i = Some k" "walk (step_position c es) xs k = Some j" using Cons.prems(3) by (auto split: bind_splits)
  obtain s1 where s1: "step_iterator it x s = Some s1" "at s1 k" using step_at [OF Cons.prems(1) _ k(1)] Cons.prems(2) by auto
  then show ?case using Cons.IH [OF s1(2) _ k(2)] Cons.prems(2) by simp
qed simp

lemma observe_at: "at s i \<Longrightarrow> observe it s = Some (if i < length es then Some (es ! i) else None, Status_OK)"
  using at_status [of s i] at_Valid [of s i] at_key [of s i] at_value [of s i] by (simp add: observe_def)

lemma walk_observe:
  assumes "at s i" "\<forall>x \<in> set xs. target_ok valid x" "walk (step_position c es) xs i = Some j"
  shows "do { s' \<leftarrow> walk (step_iterator it) xs s; observe it s' } = Some (if j < length es then Some (es ! j) else None, Status_OK)"
  using walk_at [OF assms] observe_at by auto

end

text \<open>Lists that are sorted alike and have the same entries are equal.\<close>

lemma sorted_unique:
  assumes "sorted_wrt R xs" "sorted_wrt R ys" "set xs = set ys" "\<And>x. x \<in> set xs \<Longrightarrow> \<not> R x x"
    and "\<And>x y. x \<in> set xs \<Longrightarrow> y \<in> set xs \<Longrightarrow> R x y \<Longrightarrow> \<not> R y x"
  shows "xs = ys"
  using assms
proof (induction xs arbitrary: ys)
  case (Cons x xs)
  obtain y ys' where ys: "ys = y # ys'" using Cons.prems(3) by (cases ys) auto
  have xy: "x = y"
  proof (rule ccontr)
    assume ne: "x \<noteq> y"
    then have "x \<in> set ys'" "y \<in> set xs" using Cons.prems(3) by (auto simp: ys)
    then show False using Cons.prems(1,2,5) by (auto simp: ys)
  qed
  have "x \<notin> set xs" using Cons.prems(1,4) by auto
  moreover have "x \<notin> set ys'" using Cons.prems(2,4) xy by (auto simp: ys)
  ultimately have eq: "set xs = set ys'" using Cons.prems(3) xy by (auto simp: ys)
  have "xs = ys'"
  proof (rule Cons.IH [OF _ _ eq])
    show "sorted_wrt R xs" "sorted_wrt R ys'" using Cons.prems(1,2) by (simp_all add: ys)
    show "\<not> R z z" if "z \<in> set xs" for z using Cons.prems(4) that by simp
    show "\<not> R w z" if "z \<in> set xs" "w \<in> set xs" "R z w" for z w using Cons.prems(5) that by simp
  qed
  then show ?case using xy by (simp add: ys)
qed simp

end
