(* ===== verification/LdbTableFormat.thy ===== *)
theory LdbTableFormat
  imports LdbCrc LdbStatus LdbFormat
begin

text \<open>
  The frame of a table file (table/format.h, table/format.cc): handles of blocks, the footer, and
  the reading of a block with its trailer; the options of include/leveldb/options.h. SNAPPY is not defined in the build, so the functions of port/port_posix.h
  for compression always fail.
\<close>

section \<open>Options\<close>

abbreviation (input) kNoCompression :: byte where "kNoCompression \<equiv> 0"
abbreviation (input) kSnappyCompression :: byte where "kSnappyCompression \<equiv> 1"

text \<open>
  The members that point to an environment, a logger and a cache are left out. A filter policy comes
  with its name, which a policy of this model does not have.
\<close>

record Options =
  opt_comparator :: Comparator
  create_if_missing :: bool
  error_if_exists :: bool
  paranoid_checks :: bool
  write_buffer_size :: u64
  max_open_files :: int
  block_size :: u64
  block_restart_interval :: int
  max_file_size :: u64
  opt_compression :: byte
  reuse_logs :: bool
  opt_filter_policy :: "(FilterPolicy \<times> slice) option"

record ReadOptions =
  verify_checksums :: bool
  fill_cache :: bool

definition new_ReadOptions :: ReadOptions where
  "new_ReadOptions = \<lparr>verify_checksums = False, fill_cache = True\<rparr>"

definition new_Options :: Options where
  "new_Options =
     \<lparr>opt_comparator = BytewiseComparator, create_if_missing = False, error_if_exists = False, paranoid_checks = False,
      write_buffer_size = push_bit 20 4, max_open_files = 1000, block_size = 4096, block_restart_interval = 16,
      max_file_size = push_bit 20 2, opt_compression = kSnappyCompression, reuse_logs = False, opt_filter_policy = None\<rparr>"

definition Snappy_Compress :: "slice \<Rightarrow> slice option" where
  "Snappy_Compress input = None"

definition Snappy_GetUncompressedLength :: "slice \<Rightarrow> u64 option" where
  "Snappy_GetUncompressedLength input = None"

definition Snappy_Uncompress :: "slice \<Rightarrow> slice option" where
  "Snappy_Uncompress input = None"

section \<open>Block handles\<close>

record BlockHandle =
  bh_offset :: u64
  bh_size :: u64

definition new_BlockHandle :: BlockHandle where
  "new_BlockHandle = \<lparr>bh_offset = - 1, bh_size = - 1\<rparr>"

abbreviation (input) kMaxEncodedLength :: nat where "kMaxEncodedLength \<equiv> 20"

definition bh_EncodeTo :: "BlockHandle \<Rightarrow> slice \<Rightarrow> slice option" where
  "bh_EncodeTo h dst =
     (if bh_offset h = - 1 \<or> bh_size h = - 1 then None
      else Some (PutVarint64 (PutVarint64 dst (bh_offset h)) (bh_size h)))"

text \<open>The status, the handle, which may be set by half, and what is left of the input.\<close>

definition bh_DecodeFrom :: "BlockHandle \<Rightarrow> slice \<Rightarrow> (Status \<times> BlockHandle \<times> slice) option" where
  "bh_DecodeFrom h input = do {
     bad \<leftarrow> Status_Corruption (lit ''bad block handle'') [];
     r \<leftarrow> GetVarint64 input;
     case r of None \<Rightarrow> Some (bad, h, input)
     | Some (off, input1) \<Rightarrow> do {
         r \<leftarrow> GetVarint64 input1;
         case r of None \<Rightarrow> Some (bad, h\<lparr>bh_offset := off\<rparr>, input1)
         | Some (sz, input2) \<Rightarrow> Some (Status_OK, \<lparr>bh_offset = off, bh_size = sz\<rparr>, input2)
       }
   }"

section \<open>The footer\<close>

record Footer =
  metaindex_handle :: BlockHandle
  index_handle :: BlockHandle

definition new_Footer :: Footer where
  "new_Footer = \<lparr>metaindex_handle = new_BlockHandle, index_handle = new_BlockHandle\<rparr>"

abbreviation (input) kEncodedLength :: nat where "kEncodedLength \<equiv> 48"

definition kTableMagicNumber :: u64 where "kTableMagicNumber = 0xdb4775248b80fb57"

text \<open>\<open>resize\<close> of a string, with zero bytes.\<close>

definition str_resize :: "slice \<Rightarrow> nat \<Rightarrow> slice" where
  "str_resize s n = take n s @ replicate (n - length s) 0"

definition footer_EncodeTo :: "Footer \<Rightarrow> slice \<Rightarrow> slice option" where
  "footer_EncodeTo f dst = do {
     d1 \<leftarrow> bh_EncodeTo (metaindex_handle f) dst;
     d2 \<leftarrow> bh_EncodeTo (index_handle f) d1;
     let d3 = str_resize d2 (2 * kMaxEncodedLength);
     let d4 = PutFixed32 d3 (ucast (kTableMagicNumber AND 0xffffffff));
     let d5 = PutFixed32 d4 (ucast (drop_bit 32 kTableMagicNumber));
     if length d5 = length dst + kEncodedLength then Some d5 else None
   }"

definition footer_DecodeFrom :: "Footer \<Rightarrow> slice \<Rightarrow> (Status \<times> Footer \<times> slice) option" where
  "footer_DecodeFrom f input = do {
     magic_lo \<leftarrow> DecodeFixed32 (drop (kEncodedLength - 8) input);
     magic_hi \<leftarrow> DecodeFixed32 (drop (kEncodedLength - 4) input);
     let magic = push_bit 32 (ucast magic_hi :: u64) OR ucast magic_lo;
     if magic \<noteq> kTableMagicNumber then do {
       bad \<leftarrow> Status_Corruption (lit ''not an sstable (bad magic number)'') [];
       Some (bad, f, input)
     }
     else do {
       (result, mh, input1) \<leftarrow> bh_DecodeFrom (metaindex_handle f) input;
       let f1 = f\<lparr>metaindex_handle := mh\<rparr>;
       if Status_ok result then do {
         (result2, ih, input2) \<leftarrow> bh_DecodeFrom (index_handle f1) input1;
         let f2 = f1\<lparr>index_handle := ih\<rparr>;
         if Status_ok result2 then Some (result2, f2, drop kEncodedLength input) else Some (result2, f2, input2)
       }
       else Some (result, f1, input1)
     }
   }"

section \<open>Blocks in a file\<close>

text \<open>
  A file for random access, a parameter: the status, the bytes read and whether they are in the
  buffer of the caller.
\<close>

type_synonym RandomAccessFile = "u64 \<Rightarrow> u64 \<Rightarrow> Status \<times> slice \<times> bool"

record BlockContents =
  bc_data :: slice
  cachable :: bool
  heap_allocated :: bool

abbreviation (input) kBlockTrailerSize :: u64 where "kBlockTrailerSize \<equiv> 5"

definition ReadBlock :: "RandomAccessFile \<Rightarrow> ReadOptions \<Rightarrow> BlockHandle \<Rightarrow> (Status \<times> BlockContents) option" where
  "ReadBlock raf options handle =
     (let n = bh_size handle;
          none = \<lparr>bc_data = [], cachable = False, heap_allocated = False\<rparr>;
          (s, data, in_buf) = raf (bh_offset handle) (n + kBlockTrailerSize)
      in
      if \<not> Status_ok s then Some (s, none)
      else if of_nat (length data) \<noteq> n + kBlockTrailerSize then do {
        bad \<leftarrow> Status_Corruption (lit ''truncated block read'') []; Some (bad, none) }
      else do {
        mismatch \<leftarrow>
          (if verify_checksums options then do {
             stored \<leftarrow> DecodeFixed32 (drop (unat n + 1) data);
             actual \<leftarrow> (if unat n + 1 \<le> length data then crc_Value 0 (take (unat n + 1) data) else None);
             Some (actual \<noteq> crc_Unmask stored)
           }
           else Some False);
        if mismatch then do {
          bad \<leftarrow> Status_Corruption (lit ''block checksum mismatch'') []; Some (bad, none) }
        else do {
          type \<leftarrow> nth_opt data (unat n);
          if type = kNoCompression then
            Some (Status_OK, \<lparr>bc_data = take (unat n) data, cachable = in_buf, heap_allocated = in_buf\<rparr>)
          else if type = kSnappyCompression then do {
            bad \<leftarrow> Status_Corruption (lit ''corrupted compressed block contents'') [];
            case Snappy_GetUncompressedLength (take (unat n) data) of None \<Rightarrow> Some (bad, none)
            | Some ulength \<Rightarrow>
                (case Snappy_Uncompress (take (unat n) data) of None \<Rightarrow> Some (bad, none)
                 | Some ubuf \<Rightarrow>
                     if length ubuf = unat ulength
                     then Some (Status_OK, \<lparr>bc_data = ubuf, cachable = True, heap_allocated = True\<rparr>) else None)
          }
          else do { bad \<leftarrow> Status_Corruption (lit ''bad block type'') []; Some (bad, none) }
        }
      })"

section \<open>Arrays of words\<close>

lemma length_words [simp]: "length (concat (map EncodeFixed32 ws)) = 4 * length ws"
  by (induction ws) auto

lemma length_words_comp [simp]: "length (concat (map (EncodeFixed32 \<circ> f) xs)) = 4 * length xs"
  using length_words [of "map f xs"] by simp

lemma word_at: "j < length ws \<Longrightarrow> DecodeFixed32 (drop (length c + j * 4) (c @ concat (map EncodeFixed32 ws) @ x)) = Some (ws ! j)"
proof (induction ws arbitrary: j c)
  case (Cons w ws)
  show ?case
  proof (cases j)
    case 0
    then show ?thesis by (simp add: DecodeFixed32_Encode)
  next
    case (Suc i)
    then have "DecodeFixed32 (drop (length (c @ EncodeFixed32 w) + i * 4) ((c @ EncodeFixed32 w) @ concat (map EncodeFixed32 ws) @ x)) = Some (ws ! i)"
      using Cons.prems by (intro Cons.IH) simp
    then show ?thesis using Suc by (simp add: ac_simps)
  qed
qed simp

section \<open>Round trips\<close>

lemma bh_EncodeTo_append:
  "bh_EncodeTo h dst = (if bh_offset h = - 1 \<or> bh_size h = - 1 then None
     else Some (dst @ EncodeVarint64 (bh_offset h) @ EncodeVarint64 (bh_size h)))"
  by (simp add: bh_EncodeTo_def PutVarint64_def)

lemma Corruption_lit: "length s < 2 ^ 31 \<Longrightarrow> \<exists>st. Status_Corruption (lit s) [] = Some st \<and> \<not> Status_ok st"
  unfolding Status_Corruption_def by (simp add: new_Status_def Let_def Status_ok_def unat_of_nat_small unat_word_ariths)

lemma bh_Decode_Encode:
  "bh_DecodeFrom h0 (EncodeVarint64 (bh_offset h) @ EncodeVarint64 (bh_size h) @ rest) = Some (Status_OK, h, rest)"
proof -
  obtain st where "Status_Corruption (lit ''bad block handle'') [] = Some st" using Corruption_lit [of "''bad block handle''"] by auto
  then show ?thesis by (simp add: bh_DecodeFrom_def GetVarint64_Put)
qed

lemma bh_encoding_20: "length (EncodeVarint64 (bh_offset h) @ EncodeVarint64 (bh_size h)) \<le> 20"
  using EncodeVarint64_ten [of "bh_offset h"] EncodeVarint64_ten [of "bh_size h"] by simp

definition handle_set :: "BlockHandle \<Rightarrow> bool" where
  "handle_set h \<longleftrightarrow> bh_offset h \<noteq> - 1 \<and> bh_size h \<noteq> - 1"

lemma str_resize_pad: "length s \<le> n \<Longrightarrow> str_resize s n = s @ replicate (n - length s) 0"
  by (simp add: str_resize_def)

lemma length_str_resize [simp]: "length (str_resize s n) = n"
  by (simp add: str_resize_def)

lemma magic_words:
  "(ucast (kTableMagicNumber AND 0xffffffff) :: u32) = 0x8b80fb57" "(ucast (drop_bit 32 kTableMagicNumber) :: u32) = 0xdb477524"
  "push_bit 32 (ucast (0xdb477524 :: u32) :: u64) OR ucast (0x8b80fb57 :: u32) = kTableMagicNumber"
  by (simp_all add: kTableMagicNumber_def)

definition footer_bytes :: "Footer \<Rightarrow> byte list" where
  "footer_bytes f =
     (let d = EncodeVarint64 (bh_offset (metaindex_handle f)) @ EncodeVarint64 (bh_size (metaindex_handle f))
        @ EncodeVarint64 (bh_offset (index_handle f)) @ EncodeVarint64 (bh_size (index_handle f))
      in d @ replicate (40 - length d) 0 @ EncodeFixed32 0x8b80fb57 @ EncodeFixed32 0xdb477524)"

lemma footer_parts:
  obtains pad where
    "footer_bytes f = EncodeVarint64 (bh_offset (metaindex_handle f)) @ EncodeVarint64 (bh_size (metaindex_handle f))
        @ EncodeVarint64 (bh_offset (index_handle f)) @ EncodeVarint64 (bh_size (index_handle f))
        @ pad @ EncodeFixed32 0x8b80fb57 @ EncodeFixed32 0xdb477524"
    "length (EncodeVarint64 (bh_offset (metaindex_handle f)) @ EncodeVarint64 (bh_size (metaindex_handle f))
        @ EncodeVarint64 (bh_offset (index_handle f)) @ EncodeVarint64 (bh_size (index_handle f)) @ pad) = 40"
proof -
  let ?d = "EncodeVarint64 (bh_offset (metaindex_handle f)) @ EncodeVarint64 (bh_size (metaindex_handle f))
        @ EncodeVarint64 (bh_offset (index_handle f)) @ EncodeVarint64 (bh_size (index_handle f))"
  have "length ?d \<le> 40" using bh_encoding_20 [of "metaindex_handle f"] bh_encoding_20 [of "index_handle f"] by simp
  then show thesis by (intro that [of "replicate (40 - length ?d) 0"]) (simp_all add: footer_bytes_def Let_def)
qed

lemma length_footer_bytes: "length (footer_bytes f) = 48"
  by (rule footer_parts [of f]) (simp only: length_append length_EncodeFixed)

lemma footer_Encode:
  assumes "handle_set (metaindex_handle f)" "handle_set (index_handle f)"
  shows "footer_EncodeTo f [] = Some (footer_bytes f)"
proof -
  let ?d = "EncodeVarint64 (bh_offset (metaindex_handle f)) @ EncodeVarint64 (bh_size (metaindex_handle f))
        @ EncodeVarint64 (bh_offset (index_handle f)) @ EncodeVarint64 (bh_size (index_handle f))"
  have le: "length ?d \<le> 40" using bh_encoding_20 [of "metaindex_handle f"] bh_encoding_20 [of "index_handle f"] by simp
  then have r: "str_resize ?d 40 = ?d @ replicate (40 - length ?d) 0" by (rule str_resize_pad)
  have l: "length ?d + (40 - length ?d) = 40" using le by (rule le_add_diff_inverse)
  have len: "length (footer_bytes f) = 48" by (rule length_footer_bytes)
  have "footer_EncodeTo f [] = (let d5 = footer_bytes f in if length d5 = 48 then Some d5 else None)"
    using assms r l unfolding footer_EncodeTo_def bh_EncodeTo_append handle_set_def PutFixed32_def magic_words footer_bytes_def Let_def by simp
  then show ?thesis using len by simp
qed

lemma footer_Decode: "footer_DecodeFrom f0 (footer_bytes f @ rest) = Some (Status_OK, f, rest)"
proof -
  obtain pad where fb: "footer_bytes f = EncodeVarint64 (bh_offset (metaindex_handle f)) @ EncodeVarint64 (bh_size (metaindex_handle f))
        @ EncodeVarint64 (bh_offset (index_handle f)) @ EncodeVarint64 (bh_size (index_handle f))
        @ pad @ EncodeFixed32 0x8b80fb57 @ EncodeFixed32 0xdb477524"
    and 40: "length (EncodeVarint64 (bh_offset (metaindex_handle f)) @ EncodeVarint64 (bh_size (metaindex_handle f))
        @ EncodeVarint64 (bh_offset (index_handle f)) @ EncodeVarint64 (bh_size (index_handle f)) @ pad) = 40"
    by (rule footer_parts [of f])
  let ?d = "EncodeVarint64 (bh_offset (metaindex_handle f)) @ EncodeVarint64 (bh_size (metaindex_handle f))
        @ EncodeVarint64 (bh_offset (index_handle f)) @ EncodeVarint64 (bh_size (index_handle f)) @ pad"
  have split: "footer_bytes f @ rest = ?d @ EncodeFixed32 0x8b80fb57 @ EncodeFixed32 0xdb477524 @ rest" unfolding fb by simp
  have "drop 40 (footer_bytes f @ rest) = EncodeFixed32 0x8b80fb57 @ EncodeFixed32 0xdb477524 @ rest"
    unfolding split drop_append 40 using 40 by simp
  then have lo: "DecodeFixed32 (drop 40 (footer_bytes f @ rest)) = Some 0x8b80fb57" by (simp only: DecodeFixed32_Encode)
  have "drop 44 (footer_bytes f @ rest) = drop 4 (drop 40 (footer_bytes f @ rest))" unfolding drop_drop by (simp del: drop_append)
  also have "\<dots> = EncodeFixed32 0xdb477524 @ rest"
    unfolding \<open>drop 40 (footer_bytes f @ rest) = EncodeFixed32 0x8b80fb57 @ EncodeFixed32 0xdb477524 @ rest\<close> by simp
  finally have hi: "DecodeFixed32 (drop 44 (footer_bytes f @ rest)) = Some 0xdb477524" by (simp only: DecodeFixed32_Encode)
  have end48: "drop 48 (footer_bytes f @ rest) = rest" using length_footer_bytes [of f] by simp
  have m: "bh_DecodeFrom h (footer_bytes f @ rest) = Some (Status_OK, metaindex_handle f,
      EncodeVarint64 (bh_offset (index_handle f)) @ EncodeVarint64 (bh_size (index_handle f)) @ pad @ EncodeFixed32 0x8b80fb57 @ EncodeFixed32 0xdb477524 @ rest)" for h
    unfolding fb append_assoc by (rule bh_Decode_Encode)
  show ?thesis
    unfolding footer_DecodeFrom_def using lo hi end48 m bh_Decode_Encode [of _ "index_handle f"]
    by (simp add: kTableMagicNumber_def Status_OK_def Status_ok_def Let_def del: drop_append)
qed

text \<open>
  A footer is written as 48 bytes and read back, with whatever follows it left in the input.
\<close>

theorem footer_roundtrip:
  assumes "handle_set (metaindex_handle f)" "handle_set (index_handle f)"
  shows "\<exists>d. footer_EncodeTo f [] = Some d \<and> length d = kEncodedLength \<and> footer_DecodeFrom f0 (d @ rest) = Some (Status_OK, f, rest)"
  using footer_Encode [OF assms] length_footer_bytes footer_Decode by simp

theorem footer_roundtrip_witness:
  "\<exists>d. footer_EncodeTo \<lparr>metaindex_handle = \<lparr>bh_offset = 300, bh_size = 8\<rparr>, index_handle = \<lparr>bh_offset = 313, bh_size = 70000\<rparr>\<rparr> [] = Some d
     \<and> footer_DecodeFrom new_Footer (d @ [1]) =
         Some (Status_OK, \<lparr>metaindex_handle = \<lparr>bh_offset = 300, bh_size = 8\<rparr>, index_handle = \<lparr>bh_offset = 313, bh_size = 70000\<rparr>\<rparr>, [1])"
  using footer_roundtrip [of "\<lparr>metaindex_handle = \<lparr>bh_offset = 300, bh_size = 8\<rparr>, index_handle = \<lparr>bh_offset = 313, bh_size = 70000\<rparr>\<rparr>" new_Footer "[1]"]
  by (auto simp: handle_set_def)

text \<open>
  Appending a footer to a string that is not empty fails its assertion, because the padding is computed
  for an empty one. Decoding one from less than 48 bytes reads behind the input.
\<close>

lemma footer_needs_empty: "dst \<noteq> [] \<Longrightarrow> footer_EncodeTo f dst = None"
  by (simp add: footer_EncodeTo_def bh_EncodeTo_append PutFixed32_def Let_def split: if_splits)

lemma footer_short: "length input < kEncodedLength \<Longrightarrow> footer_DecodeFrom f input = None"
  by (cases "44 \<le> length input") (simp_all add: footer_DecodeFrom_def DecodeFixed32_def)

section \<open>Reading a block\<close>

definition block_trailer :: "byte \<Rightarrow> slice \<Rightarrow> byte list" where
  "block_trailer type data = type # EncodeFixed32 (crc_Mask (crc32c (data @ [type])))"

lemma length_block_trailer [simp]: "length (block_trailer t d) = 5"
  by (simp add: block_trailer_def)

lemma ReadBlock_stored:
  assumes stored: "raf (bh_offset h) (bh_size h + 5) = (Status_OK, data @ block_trailer kNoCompression data, b)"
    and size: "bh_size h = of_nat (length data)" "length data + 5 < 2 ^ 64"
  shows "ReadBlock raf options h = Some (Status_OK, \<lparr>bc_data = data, cachable = b, heap_allocated = b\<rparr>)"
proof -
  have u: "unat (of_nat (length data) :: u64) = length data" using size(2) by (intro unat_of_nat_small) simp
  have d: "DecodeFixed32 (drop (length data + 1) (data @ block_trailer kNoCompression data)) = Some (crc_Mask (crc32c (data @ [kNoCompression])))"
    using DecodeFixed32_Encode [of _ "[]"] by (simp add: block_trailer_def)
  have t: "take (length data + 1) (data @ block_trailer kNoCompression data) = data @ [kNoCompression]" by (simp add: block_trailer_def)
  have ty: "nth_opt (data @ block_trailer kNoCompression data) (length data) = Some kNoCompression" by (simp add: nth_opt_def nth_append block_trailer_def)
  show ?thesis
    unfolding ReadBlock_def Let_def stored prod.case unfolding size(1) u d t ty
    by (simp add: Status_ok_def Status_OK_def crc_Value_bytes Unmask_Mask)
qed

lemma ReadBlock_checked:
  assumes ok: "ReadBlock raf options h = Some (Status_OK, contents)" and v: "verify_checksums options"
    and n: "unat (bh_size h) + 5 < 2 ^ 64" and len: "\<And>off k. length (fst (snd (raf off k))) < 2 ^ 64"
  shows "\<exists>data tail b w. raf (bh_offset h) (bh_size h + 5) = (Status_OK, data @ kNoCompression # tail, b) \<and> length data = unat (bh_size h)
    \<and> DecodeFixed32 tail = Some w \<and> crc_Unmask w = crc32c (data @ [kNoCompression])
    \<and> contents = \<lparr>bc_data = data, cachable = b, heap_allocated = b\<rparr>"
proof -
  let ?n = "unat (bh_size h)"
  obtain s bytes b where raf: "raf (bh_offset h) (bh_size h + 5) = (s, bytes, b)" by (cases "raf (bh_offset h) (bh_size h + 5)") auto
  note bad = Corruption_lit [of "''truncated block read''"] Corruption_lit [of "''block checksum mismatch''"]
    Corruption_lit [of "''bad block type''"] Corruption_lit [of "''corrupted compressed block contents''"]
  have s: "s = Status_OK" using ok by (auto simp: ReadBlock_def Let_def raf Status_ok_def Status_OK_def split: if_splits)
  have "of_nat (length bytes) = bh_size h + 5"
    using ok bad by (auto simp: ReadBlock_def Let_def raf Status_ok_def Status_OK_def split: if_splits)
  then have "unat (of_nat (length bytes) :: u64) = ?n + 5" using n by (simp add: unat_word_ariths)
  moreover have "length bytes < 2 ^ 64" using len [of "bh_offset h" "bh_size h + 5"] raf by simp
  ultimately have l: "length bytes = ?n + 5" by (simp add: unat_of_nat_small)
  have take1: "take (?n + 1) bytes = take ?n bytes @ [bytes ! ?n]" using l by (simp add: take_Suc_conv_app_nth)
  obtain w where w: "DecodeFixed32 (drop (?n + 1) bytes) = Some w" using l by (simp add: DecodeFixed32_def)
  have "crc32c (take ?n bytes @ [bytes ! ?n]) = crc_Unmask w"
    using ok bad v raf s l unfolding ReadBlock_def Let_def raf prod.case s w take1 crc_Value_bytes
    by (auto simp: Status_ok_def Status_OK_def split: if_splits)
  moreover have "bytes ! ?n = 0 \<and> contents = \<lparr>bc_data = take ?n bytes, cachable = b, heap_allocated = b\<rparr>"
    using ok bad v raf s l unfolding ReadBlock_def Let_def raf prod.case s w take1 crc_Value_bytes
    by (auto simp: Status_ok_def Status_OK_def Snappy_GetUncompressedLength_def split: if_splits)
  moreover have "bytes = take ?n bytes @ bytes ! ?n # drop (?n + 1) bytes" using l by (metis add.commute id_take_nth_drop less_add_same_cancel1 plus_1_eq_Suc zero_less_numeral)
  ultimately show ?thesis using raf s w l
    by (intro exI [of _ "take ?n bytes"] exI [of _ "drop (?n + 1) bytes"] exI [of _ b] exI [of _ w]) auto
qed

text \<open>
  C36: What the writer of tables stores, a block with its trailer, is read back with or without
  checksums; and with checksums on a read only succeeds when the bytes of the file have the length
  the handle says, and their checksum matches.
\<close>

theorem read_block_exact:
  assumes "bh_size h = of_nat (length data)" "length data + 5 < 2 ^ 64"
    and "\<And>off k. length (fst (snd (raf off k))) < 2 ^ 64"
  shows "(raf (bh_offset h) (bh_size h + 5) = (Status_OK, data @ block_trailer kNoCompression data, b) \<longrightarrow>
       ReadBlock raf options h = Some (Status_OK, \<lparr>bc_data = data, cachable = b, heap_allocated = b\<rparr>)) \<and>
    (verify_checksums options \<longrightarrow> ReadBlock raf options h = Some (Status_OK, contents) \<longrightarrow>
       (\<exists>data' tail b w. raf (bh_offset h) (bh_size h + 5) = (Status_OK, data' @ kNoCompression # tail, b) \<and> length data' = length data
          \<and> DecodeFixed32 tail = Some w \<and> crc_Unmask w = crc32c (data' @ [kNoCompression]) \<and> bc_data contents = data'))"
proof -
  have n: "unat (bh_size h) = length data" unfolding assms(1) by (rule unat_of_nat_small) (use assms(2) in simp)
  have "\<exists>data' tail b w. raf (bh_offset h) (bh_size h + 5) = (Status_OK, data' @ kNoCompression # tail, b) \<and> length data' = length data
          \<and> DecodeFixed32 tail = Some w \<and> crc_Unmask w = crc32c (data' @ [kNoCompression]) \<and> bc_data contents = data'"
    if "verify_checksums options" "ReadBlock raf options h = Some (Status_OK, contents)"
  proof -
    have "unat (bh_size h) + 5 < 2 ^ 64" unfolding n by (rule assms(2))
    from ReadBlock_checked [OF that(2,1) this assms(3)] show ?thesis
      unfolding n by (elim exE conjE, intro exI conjI) (assumption | simp)+
  qed
  then show ?thesis using ReadBlock_stored [OF _ assms(1,2)] by blast
qed

theorem read_block_exact_witness:
  "ReadBlock (\<lambda>off n. (Status_OK, take (unat n) ([7, 8] @ block_trailer 0 [7, 8]), True)) \<lparr>verify_checksums = True, fill_cache = True\<rparr>
     \<lparr>bh_offset = 0, bh_size = 2\<rparr> = Some (Status_OK, \<lparr>bc_data = [7, 8], cachable = True, heap_allocated = True\<rparr>)"
  using read_block_exact [of "\<lparr>bh_offset = 0, bh_size = 2\<rparr>" "[7, 8]"
      "\<lambda>off n. (Status_OK, take (unat n) ([7, 8] @ block_trailer 0 [7, 8]), True)" True "\<lparr>verify_checksums = True, fill_cache = True\<rparr>"]
  by simp

text \<open>
  A handle whose size is within five of the end of the range makes the size of the read wrap around;
  then the bytes checked for the type lie outside what was read.
\<close>

lemma ReadBlock_wraps:
  assumes "bh_size h = - 5" "raf (bh_offset h) 0 = (Status_OK, [], b)"
  shows "ReadBlock raf options h = None"
proof -
  have "\<not> unat (- 5 :: u64) < 0" by simp
  have e: "bh_size h + 5 = 0" by (simp add: assms(1))
  show ?thesis unfolding ReadBlock_def Let_def e assms(2) prod.case by (simp add: Status_ok_def Status_OK_def DecodeFixed32_def nth_opt_def)
qed

end
