(* ===== verification/LdbBlock.thy ===== *)
theory LdbBlock
  imports LdbTableFormat LdbIterator
begin

text \<open>
  The blocks of a table: the builder (table/block_builder.h, table/block_builder.cc), which leaves out of a key
  the prefix it shares with the key before, and the block with its iterator (table/block.h,
  table/block.cc), which searches the array of restart points. A pointer into the block is an
  offset; reading behind the block is \<open>None\<close>, as are failed assertions.
\<close>

section \<open>The builder\<close>

record BlockBuilder =
  bb_buffer :: slice
  bb_restarts :: "u32 list"
  bb_counter :: int
  bb_finished :: bool
  bb_last_key :: slice

definition new_BlockBuilder :: "Options \<Rightarrow> BlockBuilder option" where
  "new_BlockBuilder opts =
     (if block_restart_interval opts \<ge> 1
      then Some \<lparr>bb_buffer = [], bb_restarts = [0], bb_counter = 0, bb_finished = False, bb_last_key = []\<rparr> else None)"

definition bb_Reset :: "BlockBuilder \<Rightarrow> BlockBuilder" where
  "bb_Reset b = b\<lparr>bb_buffer := [], bb_restarts := [0], bb_counter := 0, bb_finished := False, bb_last_key := []\<rparr>"

definition bb_CurrentSizeEstimate :: "BlockBuilder \<Rightarrow> nat" where
  "bb_CurrentSizeEstimate b = length (bb_buffer b) + length (bb_restarts b) * 4 + 4"

definition bb_empty :: "BlockBuilder \<Rightarrow> bool" where
  "bb_empty b \<longleftrightarrow> bb_buffer b = []"

definition bb_Finish :: "BlockBuilder \<Rightarrow> slice \<times> BlockBuilder" where
  "bb_Finish b =
     (let buf = fold (\<lambda>r dst. PutFixed32 dst r) (bb_restarts b) (bb_buffer b);
          buf' = PutFixed32 buf (of_nat (length (bb_restarts b)))
      in (buf', b\<lparr>bb_buffer := buf', bb_finished := True\<rparr>))"

fun shared_prefix :: "slice \<Rightarrow> slice \<Rightarrow> nat" where
  "shared_prefix (a # as) (b # bs) = (if a = b then Suc (shared_prefix as bs) else 0)"
| "shared_prefix _ _ = 0"

definition bb_Add :: "Options \<Rightarrow> BlockBuilder \<Rightarrow> slice \<Rightarrow> slice \<Rightarrow> BlockBuilder option" where
  "bb_Add opts b key value =
     (if bb_finished b \<or> bb_counter b > block_restart_interval opts then None
      else do {
        increasing \<leftarrow>
          (if bb_buffer b = [] then Some True
           else do { r \<leftarrow> Compare (opt_comparator opts) key (bb_last_key b); Some (r > 0) });
        if \<not> increasing then None
        else do {
          let (shared, restarts, counter) =
            (if bb_counter b < block_restart_interval opts
             then (shared_prefix (bb_last_key b) key, bb_restarts b, bb_counter b)
             else (0, bb_restarts b @ [of_nat (length (bb_buffer b))], 0));
          let non_shared = length key - shared;
          let buf1 = PutVarint32 (bb_buffer b) (of_nat shared);
          let buf2 = PutVarint32 buf1 (of_nat non_shared);
          let buf3 = PutVarint32 buf2 (of_nat (length value));
          let buf4 = buf3 @ drop shared key @ value;
          let last = take shared (bb_last_key b) @ drop shared key;
          if last \<noteq> key then None
          else Some (b\<lparr>bb_buffer := buf4, bb_restarts := restarts, bb_counter := counter + 1, bb_last_key := last\<rparr>)
        }
      })"

section \<open>The block\<close>

record Block =
  blk_data :: slice
  blk_size :: nat
  restart_offset :: u32
  owned :: bool

definition NumRestarts :: "slice \<Rightarrow> nat \<Rightarrow> u32 option" where
  "NumRestarts data sz = (if sz \<ge> 4 then DecodeFixed32 (drop (sz - 4) data) else None)"

definition new_Block :: "BlockContents \<Rightarrow> Block option" where
  "new_Block contents =
     (let data = bc_data contents; sz = length data;
          bad = \<lparr>blk_data = data, blk_size = 0, restart_offset = 0, owned = heap_allocated contents\<rparr>
      in
      if sz < 4 then Some bad
      else do {
        n \<leftarrow> NumRestarts data sz;
        if unat n > (sz - 4) div 4 then Some bad
        else Some (bad\<lparr>blk_size := sz, restart_offset := of_nat sz - (1 + n) * 4\<rparr>)
      })"

text \<open>
  \<open>DecodeEntry\<close> on the offsets of \<open>p\<close> and \<open>limit\<close>: the offset of the key delta and the three lengths.
\<close>

definition DecodeEntry :: "slice \<Rightarrow> nat \<Rightarrow> nat \<Rightarrow> (nat \<times> u32 \<times> u32 \<times> u32) option option" where
  "DecodeEntry data p limit =
     (if limit < p + 3 then Some None
      else do {
        b0 \<leftarrow> nth_opt data p;
        b1 \<leftarrow> nth_opt data (p + 1);
        b2 \<leftarrow> nth_opt data (p + 2);
        let shared = (ucast b0 :: u32);
        let non_shared = (ucast b1 :: u32);
        let value_length = (ucast b2 :: u32);
        lengths \<leftarrow>
          (if shared OR non_shared OR value_length < 128 then Some (Some (p + 3, shared, non_shared, value_length))
           else do {
             r \<leftarrow> GetVarint32Ptr (drop p data) (limit - p);
             case r of None \<Rightarrow> Some None
             | Some (shared, rest1) \<Rightarrow> do {
                 let p1 = length data - length rest1;
                 r \<leftarrow> GetVarint32Ptr rest1 (limit - p1);
                 case r of None \<Rightarrow> Some None
                 | Some (non_shared, rest2) \<Rightarrow> do {
                     let p2 = length data - length rest2;
                     r \<leftarrow> GetVarint32Ptr rest2 (limit - p2);
                     case r of None \<Rightarrow> Some None
                     | Some (value_length, rest3) \<Rightarrow> Some (Some (length data - length rest3, shared, non_shared, value_length))
                   }
               }
           });
        case lengths of None \<Rightarrow> Some None
        | Some (p', shared, non_shared, value_length) \<Rightarrow>
            if (of_nat (limit - p') :: u32) < non_shared + value_length then Some None
            else Some (Some (p', shared, non_shared, value_length))
      })"

section \<open>The iterator\<close>

text \<open>\<open>value_\<close> is the offset and the length of the slice, or nothing when it does not point into the block.\<close>

record block_iter =
  bi_data :: slice
  bi_restarts :: u32
  bi_num_restarts :: u32
  bi_current :: u32
  bi_restart_index :: u32
  bi_key :: slice
  bi_value :: "(nat \<times> nat) option"
  bi_status :: Status

definition new_block_iter :: "slice \<Rightarrow> u32 \<Rightarrow> u32 \<Rightarrow> block_iter option" where
  "new_block_iter data restarts num_restarts =
     (if num_restarts > 0 then
        Some \<lparr>bi_data = data, bi_restarts = restarts, bi_num_restarts = num_restarts, bi_current = restarts,
          bi_restart_index = num_restarts, bi_key = [], bi_value = None, bi_status = Status_OK\<rparr>
      else None)"

definition bi_Valid :: "block_iter \<Rightarrow> bool" where
  "bi_Valid it \<longleftrightarrow> bi_current it < bi_restarts it"

definition bi_get_key :: "block_iter \<Rightarrow> slice option" where
  "bi_get_key it = (if bi_Valid it then Some (bi_key it) else None)"

definition bi_get_value :: "block_iter \<Rightarrow> slice option" where
  "bi_get_value it =
     (if bi_Valid it then
        (case bi_value it of None \<Rightarrow> None
         | Some (off, len) \<Rightarrow> if off + len \<le> length (bi_data it) then Some (take len (drop off (bi_data it))) else None)
      else None)"

definition NextEntryOffset :: "block_iter \<Rightarrow> u32 option" where
  "NextEntryOffset it = do { (off, len) \<leftarrow> bi_value it; Some (of_nat (off + len)) }"

definition GetRestartPoint :: "block_iter \<Rightarrow> u32 \<Rightarrow> u32 option" where
  "GetRestartPoint it index =
     (if index < bi_num_restarts it then DecodeFixed32 (drop (unat (bi_restarts it) + unat index * 4) (bi_data it)) else None)"

definition SeekToRestartPoint :: "block_iter \<Rightarrow> u32 \<Rightarrow> block_iter option" where
  "SeekToRestartPoint it index = do {
     off \<leftarrow> GetRestartPoint it index;
     Some (it\<lparr>bi_key := [], bi_restart_index := index, bi_value := Some (unat off, 0)\<rparr>)
   }"

definition CorruptionError :: "block_iter \<Rightarrow> block_iter option" where
  "CorruptionError it = do {
     st \<leftarrow> Status_Corruption (lit ''bad entry in block'') [];
     Some (it\<lparr>bi_current := bi_restarts it, bi_restart_index := bi_num_restarts it, bi_status := st, bi_key := [], bi_value := None\<rparr>)
   }"

fun advance_restart :: "nat \<Rightarrow> block_iter \<Rightarrow> block_iter option" where
  "advance_restart n it =
     (if bi_restart_index it + 1 < bi_num_restarts it then do {
        r \<leftarrow> GetRestartPoint it (bi_restart_index it + 1);
        if r < bi_current it then
          (case n of 0 \<Rightarrow> None | Suc m \<Rightarrow> advance_restart m (it\<lparr>bi_restart_index := bi_restart_index it + 1\<rparr>))
        else Some it
      }
      else Some it)"

declare advance_restart.simps [simp del]

definition ParseNextKey :: "block_iter \<Rightarrow> (bool \<times> block_iter) option" where
  "ParseNextKey it0 = do {
     cur \<leftarrow> NextEntryOffset it0;
     let it = it0\<lparr>bi_current := cur\<rparr>;
     if cur \<ge> bi_restarts it then
       Some (False, it\<lparr>bi_current := bi_restarts it, bi_restart_index := bi_num_restarts it\<rparr>)
     else do {
       r \<leftarrow> DecodeEntry (bi_data it) (unat cur) (unat (bi_restarts it));
       case r of None \<Rightarrow> do { it' \<leftarrow> CorruptionError it; Some (False, it') }
       | Some (p, shared, non_shared, value_length) \<Rightarrow>
           if length (bi_key it) < unat shared then do { it' \<leftarrow> CorruptionError it; Some (False, it') }
           else if p + unat non_shared \<le> length (bi_data it) then do {
             let it1 = it\<lparr>bi_key := take (unat shared) (bi_key it) @ take (unat non_shared) (drop p (bi_data it)),
                          bi_value := Some (p + unat non_shared, unat value_length)\<rparr>;
             it2 \<leftarrow> advance_restart (unat (bi_num_restarts it1)) it1;
             Some (True, it2)
           }
           else None
     }
   }"

definition bi_Next :: "block_iter \<Rightarrow> block_iter option" where
  "bi_Next it = (if bi_Valid it then do { (_, it') \<leftarrow> ParseNextKey it; Some it' } else None)"

text \<open>The loops of \<open>Prev\<close>, \<open>Seek\<close> and \<open>SeekToLast\<close>; every entry read has at least three bytes.\<close>

fun prev_restart :: "nat \<Rightarrow> u32 \<Rightarrow> block_iter \<Rightarrow> (bool \<times> block_iter) option" where
  "prev_restart 0 original it = None"
| "prev_restart (Suc n) original it = do {
     r \<leftarrow> GetRestartPoint it (bi_restart_index it);
     if r \<ge> original then
       (if bi_restart_index it = 0
        then Some (False, it\<lparr>bi_current := bi_restarts it, bi_restart_index := bi_num_restarts it\<rparr>)
        else prev_restart n original (it\<lparr>bi_restart_index := bi_restart_index it - 1\<rparr>))
     else Some (True, it)
   }"

fun parse_until :: "nat \<Rightarrow> u32 \<Rightarrow> block_iter \<Rightarrow> block_iter option" where
  "parse_until 0 bound it = None"
| "parse_until (Suc n) bound it = do {
     (more, it') \<leftarrow> ParseNextKey it;
     if more then do {
       next \<leftarrow> NextEntryOffset it';
       if next < bound then parse_until n bound it' else Some it'
     }
     else Some it'
   }"

definition bi_Prev :: "block_iter \<Rightarrow> block_iter option" where
  "bi_Prev it =
     (if bi_Valid it then do {
        let original = bi_current it;
        (found, it1) \<leftarrow> prev_restart (unat (bi_restart_index it) + 1) original it;
        if found then do {
          it2 \<leftarrow> SeekToRestartPoint it1 (bi_restart_index it1);
          parse_until (length (bi_data it) + 1) original it2
        }
        else Some it1
      }
      else None)"

fun seek_search :: "nat \<Rightarrow> Comparator \<Rightarrow> slice \<Rightarrow> block_iter \<Rightarrow> u32 \<Rightarrow> u32 \<Rightarrow> (u32 option \<times> block_iter) option" where
  "seek_search n c target it left right =
     (if left < right then
        (case n of 0 \<Rightarrow> None
         | Suc m \<Rightarrow> do {
             let mid = (left + right + 1) div 2;
             region_offset \<leftarrow> GetRestartPoint it mid;
             r \<leftarrow> DecodeEntry (bi_data it) (unat region_offset) (unat (bi_restarts it));
             case r of None \<Rightarrow> do { it' \<leftarrow> CorruptionError it; Some (None, it') }
             | Some (key_ptr, shared, non_shared, value_length) \<Rightarrow>
                 if shared \<noteq> 0 then do { it' \<leftarrow> CorruptionError it; Some (None, it') }
                 else if key_ptr + unat non_shared \<le> length (bi_data it) then do {
                   r \<leftarrow> Compare c (take (unat non_shared) (drop key_ptr (bi_data it))) target;
                   if r < 0 then seek_search m c target it mid right
                   else seek_search m c target it left (mid - 1)
                 }
                 else None
           })
      else Some (Some left, it))"

declare seek_search.simps [simp del]

fun seek_linear :: "nat \<Rightarrow> Comparator \<Rightarrow> slice \<Rightarrow> block_iter \<Rightarrow> block_iter option" where
  "seek_linear 0 c target it = None"
| "seek_linear (Suc n) c target it = do {
     (more, it') \<leftarrow> ParseNextKey it;
     if \<not> more then Some it'
     else do {
       r \<leftarrow> Compare c (bi_key it') target;
       if r \<ge> 0 then Some it' else seek_linear n c target it'
     }
   }"

definition bi_Seek :: "Comparator \<Rightarrow> slice \<Rightarrow> block_iter \<Rightarrow> block_iter option" where
  "bi_Seek c target it = do {
     (left, it1) \<leftarrow> seek_search (unat (bi_num_restarts it)) c target it 0 (bi_num_restarts it - 1);
     case left of None \<Rightarrow> Some it1
     | Some l \<Rightarrow> do { it2 \<leftarrow> SeekToRestartPoint it1 l; seek_linear (length (bi_data it) + 1) c target it2 }
   }"

definition bi_SeekToFirst :: "block_iter \<Rightarrow> block_iter option" where
  "bi_SeekToFirst it = do { it1 \<leftarrow> SeekToRestartPoint it 0; (_, it2) \<leftarrow> ParseNextKey it1; Some it2 }"

definition bi_SeekToLast :: "block_iter \<Rightarrow> block_iter option" where
  "bi_SeekToLast it = do {
     it1 \<leftarrow> SeekToRestartPoint it (bi_num_restarts it - 1);
     parse_until (length (bi_data it) + 1) (bi_restarts it) it1
   }"

text \<open>What \<open>NewIterator\<close> returns: an empty iterator or one over the block.\<close>

datatype BlockIterator = Empty_block_iterator Status | Block_iterator block_iter

definition Block_NewIterator :: "Block \<Rightarrow> BlockIterator option" where
  "Block_NewIterator blk =
     (if blk_size blk < 4 then do {
        st \<leftarrow> Status_Corruption (lit ''bad block contents'') [];
        Some (Empty_block_iterator st)
      }
      else do {
        n \<leftarrow> NumRestarts (blk_data blk) (blk_size blk);
        if n = 0 then Some (Empty_block_iterator Status_OK)
        else do { it \<leftarrow> new_block_iter (blk_data blk) (restart_offset blk) n; Some (Block_iterator it) }
      })"

definition block_iterator_ops :: "Comparator \<Rightarrow> block_iter Iterator" where
  "block_iterator_ops c =
     \<lparr>it_Valid = bi_Valid, it_SeekToFirst = bi_SeekToFirst, it_SeekToLast = bi_SeekToLast, it_Seek = bi_Seek c,
      it_Next = bi_Next, it_Prev = bi_Prev, it_key = bi_get_key, it_value = bi_get_value, it_status = (\<lambda>it. Some (bi_status it))\<rparr>"

fun lift_block :: "(block_iter \<Rightarrow> 'a) \<Rightarrow> (Status \<Rightarrow> 'a) \<Rightarrow> BlockIterator \<Rightarrow> 'a" where
  "lift_block f g (Empty_block_iterator s) = g s"
| "lift_block f g (Block_iterator it) = f it"

definition BlockIterator_ops :: "Comparator \<Rightarrow> BlockIterator Iterator" where
  "BlockIterator_ops c =
     (let b = block_iterator_ops c; e = EmptyIterator;
          move = (\<lambda>f g. lift_block (\<lambda>it. map_option Block_iterator (f it)) (\<lambda>s. map_option Empty_block_iterator (g s)))
      in
      \<lparr>it_Valid = lift_block (it_Valid b) (it_Valid e),
       it_SeekToFirst = move (it_SeekToFirst b) (it_SeekToFirst e), it_SeekToLast = move (it_SeekToLast b) (it_SeekToLast e),
       it_Seek = (\<lambda>t. move (it_Seek b t) (it_Seek e t)), it_Next = move (it_Next b) (it_Next e), it_Prev = move (it_Prev b) (it_Prev e),
       it_key = lift_block (it_key b) (it_key e), it_value = lift_block (it_value b) (it_value e),
       it_status = lift_block (it_status b) (it_status e)\<rparr>)"

end
