(* ===== verification/LdbBlockProps.thy ===== *)
theory LdbBlockProps
  imports LdbBlock
begin

text \<open>
  The layout of a block and what its iterator does on it: the iterator keeps the contract
  \<open>iterator_over\<close> for the entries of the block.
\<close>

section \<open>The entries in the block\<close>

text \<open>An entry with the length of the prefix its key shares with the key before.\<close>

type_synonym entry = "slice \<times> slice \<times> nat"

definition e_key :: "entry \<Rightarrow> slice" where "e_key e = fst e"
definition e_value :: "entry \<Rightarrow> slice" where "e_value e = fst (snd e)"
definition e_shared :: "entry \<Rightarrow> nat" where "e_shared e = snd (snd e)"

definition enc_header :: "entry \<Rightarrow> byte list" where
  "enc_header e = EncodeVarint32 (of_nat (e_shared e)) @ EncodeVarint32 (of_nat (length (e_key e) - e_shared e))
     @ EncodeVarint32 (of_nat (length (e_value e)))"

definition enc_entry :: "entry \<Rightarrow> byte list" where
  "enc_entry e = enc_header e @ drop (e_shared e) (e_key e) @ e_value e"

definition entry_off :: "entry list \<Rightarrow> nat \<Rightarrow> nat" where
  "entry_off ls i = length (concat (map enc_entry (take i ls)))"

lemma header_length: "3 \<le> length (enc_header e)"
proof -
  have "0 < length (EncodeVarint32 v)" for v using EncodeVarint64_not_Nil by (simp add: EncodeVarint32_loop)
  from this [of "of_nat (e_shared e)"] this [of "of_nat (length (e_key e) - e_shared e)"] this [of "of_nat (length (e_value e))"]
  show ?thesis unfolding enc_header_def length_append by linarith
qed

lemma off_Suc: "i < length ls \<Longrightarrow> entry_off ls (Suc i) = entry_off ls i + length (enc_entry (ls ! i))"
  by (simp add: entry_off_def take_Suc_conv_app_nth)

lemma off_0 [simp]: "entry_off ls 0 = 0"
  by (simp add: entry_off_def)

lemma off_all: "entry_off ls (length ls) = length (concat (map enc_entry ls))"
  by (simp add: entry_off_def)

lemma off_append: "i \<le> length ls \<Longrightarrow> entry_off (ls @ xs) i = entry_off ls i"
  by (simp add: entry_off_def)

lemma off_add: "i + n \<le> length ls \<Longrightarrow> entry_off ls i + 3 * n \<le> entry_off ls (i + n)"
proof (induction n)
  case (Suc n)
  have "3 \<le> length (enc_entry (ls ! (i + n)))" using header_length [of "ls ! (i + n)"] by (simp add: enc_entry_def)
  then show ?case using Suc off_Suc [of "i + n" ls] by simp
qed simp

lemma off_mono: "i \<le> j \<Longrightarrow> j \<le> length ls \<Longrightarrow> entry_off ls i \<le> entry_off ls j"
  using off_add [of i "j - i" ls] by simp

lemma off_less: "i < j \<Longrightarrow> j \<le> length ls \<Longrightarrow> entry_off ls i < entry_off ls j"
  using off_add [of i "j - i" ls] by simp

lemma off_le_iff: "i \<le> length ls \<Longrightarrow> j \<le> length ls \<Longrightarrow> entry_off ls i \<le> entry_off ls j \<longleftrightarrow> i \<le> j"
  using off_mono [of i j ls] off_less [of j i ls] by (cases "i \<le> j") auto

lemma off_ge: "i \<le> length ls \<Longrightarrow> i \<le> entry_off ls i"
  using off_add [of 0 i ls] by simp

lemma drop_off:
  assumes "i < length ls"
  shows "drop (entry_off ls i) (concat (map enc_entry ls) @ x) = enc_entry (ls ! i) @ drop (entry_off ls (Suc i)) (concat (map enc_entry ls) @ x)"
proof -
  have c: "concat (map enc_entry ls) = concat (map enc_entry (take i ls)) @ enc_entry (ls ! i) @ concat (map enc_entry (drop (Suc i) ls))"
    by (subst id_take_nth_drop [OF assms]) simp
  show ?thesis unfolding c off_Suc [OF assms] by (simp add: entry_off_def)
qed

section \<open>Reading a header\<close>

lemma below_128: "(x :: u32) < 128 \<longleftrightarrow> take_bit 7 x = x"
  by (simp add: word_unat_eq_iff unsigned_take_bit_eq take_bit_nat_eq_self_iff word_less_nat_alt)

lemma or_below_128: "(x :: u32) < 128 \<Longrightarrow> y < 128 \<Longrightarrow> x OR y < 128"
  by (simp add: below_128)

lemma bit_7_above: "bit (x :: u32) 7 \<Longrightarrow> \<not> x < 128"
  using small_word_bits [of x 7 7] by (auto simp: word_less_nat_alt)

lemma varint32_small: "v < 128 \<Longrightarrow> EncodeVarint32 v = [ucast v]"
  by (simp add: EncodeVarint32_def)

lemma varint32_large:
  assumes "\<not> v < 128"
  obtains b bs where "EncodeVarint32 v = b # bs" "bit (ucast b :: u32) 7"
proof -
  have large: "128 \<le> (ucast v :: u64)" using assms by (simp add: word_le_nat_alt word_less_nat_alt unat_wide)
  have e: "EncodeVarint64 (ucast v) = ucast ((ucast v AND 127) OR 128 :: u64) # EncodeVarint64 (drop_bit 7 (ucast v))"
    using large by (simp add: EncodeVarint64.simps [of "ucast v"])
  show thesis by (rule that) (unfold EncodeVarint32_loop e, rule refl, simp add: bit_ucast_iff bit_or_iff)
qed

lemma bit_7_or: "bit (x :: u32) 7 \<or> bit y 7 \<or> bit z 7 \<Longrightarrow> \<not> x OR y OR z < 128"
  by (rule bit_7_above) (simp add: bit_or_iff)

lemma ucast_byte: "(x :: u32) < 128 \<Longrightarrow> ucast (ucast x :: byte) = x"
proof -
  assume "x < 128"
  then have "bit x n \<Longrightarrow> n < 7" for n using small_word_bits [of x 7 n] by (simp add: word_less_nat_alt)
  then show ?thesis by (intro bit_word_eqI) (fastforce simp: bit_ucast_iff)
qed

text \<open>The first three bytes tell whether all numbers of the header take one byte.\<close>

lemma header_bytes:
  assumes "x = EncodeVarint32 a @ EncodeVarint32 b @ EncodeVarint32 c @ D"
  obtains (short) "a < 128" "b < 128" "c < 128" "x = ucast a # ucast b # ucast c # D"
  | (long) b0 b1 b2 y where "x = b0 # b1 # b2 # y" "\<not> (ucast b0 :: u32) OR ucast b1 OR ucast b2 < 128"
proof -
  have two: "\<exists>z0 z1 zs. EncodeVarint32 v @ EncodeVarint32 w @ D' = z0 # z1 # zs" for v w D'
    using EncodeVarint64_not_Nil [of "ucast v"] EncodeVarint64_not_Nil [of "ucast w"] unfolding EncodeVarint32_loop
    by (metis append_Cons list.exhaust append_Nil)
  have one: "\<exists>z zs. EncodeVarint32 v @ D' = z # zs" for v D'
    using EncodeVarint64_not_Nil [of "ucast v"] unfolding EncodeVarint32_loop by (metis append_Cons list.exhaust)
  consider "\<not> a < 128" | "a < 128" "\<not> b < 128" | "a < 128" "b < 128" "\<not> c < 128" | "a < 128" "b < 128" "c < 128" by blast
  then show thesis
  proof cases
    case 1
    obtain b0 bs where b0: "EncodeVarint32 a = b0 # bs" "bit (ucast b0 :: u32) 7" using varint32_large [OF 1] by blast
    obtain z0 z1 zs where z: "EncodeVarint32 b @ EncodeVarint32 c @ D = z0 # z1 # zs" using two by blast
    have "x = b0 # bs @ z0 # z1 # zs" by (simp add: assms b0 z)
    then show thesis using long [of b0 _ _] bit_7_or [of "ucast b0"] b0(2)
      by (cases bs; cases "tl bs") auto
  next
    case 2
    obtain b1 bs where b1: "EncodeVarint32 b = b1 # bs" "bit (ucast b1 :: u32) 7" using varint32_large [OF 2(2)] by blast
    obtain z zs where z: "EncodeVarint32 c @ D = z # zs" using one by blast
    have "x = ucast a # b1 # bs @ z # zs" by (simp add: assms varint32_small [OF 2(1)] b1 z)
    then show thesis using long [of "ucast a" b1] bit_7_or [of _ "ucast b1"] b1(2) by (cases bs) auto
  next
    case 3
    obtain b2 bs where b2: "EncodeVarint32 c = b2 # bs" "bit (ucast b2 :: u32) 7" using varint32_large [OF 3(3)] by blast
    have "x = ucast a # ucast b # b2 # bs @ D" by (simp add: assms varint32_small [OF 3(1)] varint32_small [OF 3(2)] b2)
    then show thesis using long [of "ucast a" "ucast b" b2] bit_7_or [of _ _ "ucast b2"] b2(2) by auto
  next
    case 4
    then show thesis using short by (simp add: assms varint32_small)
  qed
qed

lemma three_bytes:
  assumes "drop p data = b0 # b1 # b2 # y"
  shows "nth_opt data p = Some b0" "nth_opt data (p + 1) = Some b1" "nth_opt data (p + 2) = Some b2"
proof -
  have l: "p + 3 \<le> length data" using arg_cong [OF assms, of length] by simp
  have "data ! (p + i) = (b0 # b1 # b2 # y) ! i" if "i < 3" for i using l that unfolding assms [symmetric] by (simp add: nth_drop)
  from this [of 0] this [of 1] this [of 2] l
  show "nth_opt data p = Some b0" "nth_opt data (p + 1) = Some b1" "nth_opt data (p + 2) = Some b2"
    by (simp_all add: nth_opt_def numeral_2_eq_2)
qed

lemma DecodeEntry_header:
  assumes x: "drop p data = EncodeVarint32 a @ EncodeVarint32 b @ EncodeVarint32 c @ D"
    and h: "h = length (EncodeVarint32 a @ EncodeVarint32 b @ EncodeVarint32 c)"
    and lim: "p + h + unat b + unat c \<le> limit" "limit \<le> length data" "limit < 2 ^ 32"
  shows "DecodeEntry data p limit = Some (Some (p + h, a, b, c))"
proof -
  let ?Ea = "EncodeVarint32 a" and ?Eb = "EncodeVarint32 b" and ?Ec = "EncodeVarint32 c"
  have len: "length data = p + h + length D" using arg_cong [OF x, of length] lim(1,2) h by simp
  have pos: "0 < length (EncodeVarint32 v)" for v using EncodeVarint64_not_Nil by (simp add: EncodeVarint32_loop)
  have h3: "3 \<le> h" using pos [of a] pos [of b] pos [of c] unfolding h length_append by linarith
  have sum: "\<not> (of_nat (limit - (p + h)) :: u32) < b + c"
  proof -
    have "unat (of_nat (limit - (p + h)) :: u32) = limit - (p + h)" using lim(3) by (intro unat_of_nat_small) simp
    moreover have "unat (b + c) = unat b + unat c" using lim by (intro unat_add_lem [THEN iffD1]) simp
    ultimately show ?thesis using lim(1) by (simp add: word_less_nat_alt)
  qed
  have g1: "GetVarint32Ptr (drop p data) (limit - p) = Some (Some (a, ?Eb @ ?Ec @ D))"
    unfolding x by (rule GetVarint32Ptr_Encode) (use lim(1) h in simp)
  have p1: "length data - length (?Eb @ ?Ec @ D) = p + length ?Ea" using len h by simp
  have g2: "GetVarint32Ptr (?Eb @ ?Ec @ D) (limit - (p + length ?Ea)) = Some (Some (b, ?Ec @ D))"
    by (rule GetVarint32Ptr_Encode) (use lim(1) h in simp)
  have p2: "length data - length (?Ec @ D) = p + length ?Ea + length ?Eb" using len h by simp
  have g3: "GetVarint32Ptr (?Ec @ D) (limit - (p + length ?Ea + length ?Eb)) = Some (Some (c, D))"
    by (rule GetVarint32Ptr_Encode) (use lim(1) h in simp)
  have p3: "length data - length D = p + h" using len by simp
  have enough: "(limit < p + 3) = False" using lim(1) h3 by simp
  consider (short) "a < 128" "b < 128" "c < 128" "drop p data = ucast a # ucast b # ucast c # D"
    | (long) b0 b1 b2 y where "drop p data = b0 # b1 # b2 # y" "\<not> (ucast b0 :: u32) OR ucast b1 OR ucast b2 < 128"
    by (rule header_bytes [OF x]) blast+
  then show ?thesis
  proof cases
    case short
    note t = three_bytes [OF short(4)]
    have "h = 3" using short by (simp add: h varint32_small)
    then show ?thesis
      unfolding DecodeEntry_def enough t if_False bind.bind_lunit Let_def ucast_byte [OF short(1)] ucast_byte [OF short(2)] ucast_byte [OF short(3)]
      using sum or_below_128 [OF short(1) or_below_128 [OF short(2,3)]] by simp
  next
    case (long b0 b1 b2 y)
    note t = three_bytes [OF long(1)]
    show ?thesis
      unfolding DecodeEntry_def enough t if_False bind.bind_lunit Let_def if_not_P [OF long(2)] g1 option.case prod.case p1 g2 p2 g3 p3
      using sum by simp
  qed
qed

section \<open>Layouts\<close>

definition prev_key :: "entry list \<Rightarrow> nat \<Rightarrow> slice" where
  "prev_key ls i = (case i of 0 \<Rightarrow> [] | Suc j \<Rightarrow> e_key (ls ! j))"

text \<open>Each key shares the prefix with the key before that its entry says, and restart points share nothing.\<close>

definition chained :: "entry list \<Rightarrow> bool" where
  "chained ls \<longleftrightarrow> (\<forall>i < length ls. e_shared (ls ! i) \<le> length (prev_key ls i)
     \<and> e_shared (ls ! i) \<le> length (e_key (ls ! i))
     \<and> take (e_shared (ls ! i)) (prev_key ls i) = take (e_shared (ls ! i)) (e_key (ls ! i)))"

definition restarts_ok :: "entry list \<Rightarrow> nat list \<Rightarrow> bool" where
  "restarts_ok ls rs \<longleftrightarrow> rs \<noteq> [] \<and> rs ! 0 = 0 \<and> sorted_wrt (<) rs \<and> (\<forall>r \<in> set rs. r < length ls \<or> r = 0)
     \<and> (\<forall>r \<in> set rs. r < length ls \<longrightarrow> e_shared (ls ! r) = 0)"

definition block_bytes :: "entry list \<Rightarrow> nat list \<Rightarrow> slice" where
  "block_bytes ls rs = concat (map enc_entry ls)
     @ concat (map EncodeFixed32 (map (\<lambda>r. of_nat (entry_off ls r)) rs @ [of_nat (length rs)]))"

definition e_pair :: "entry \<Rightarrow> slice \<times> slice" where "e_pair e = (e_key e, e_value e)"

locale block_layout =
  fixes ls :: "entry list" and rs :: "nat list" and data :: slice
  assumes chain: "chained ls" and restarts: "restarts_ok ls rs" and bytes: "data = block_bytes ls rs" and size: "length data < 2 ^ 32"
begin

abbreviation "off \<equiv> entry_off ls"
abbreviation "n \<equiv> length ls"

lemma length_data: "length data = off n + 4 * length rs + 4"
proof -
  have "length (concat (map EncodeFixed32 ws)) = 4 * length ws" for ws by (rule length_words)
  then show ?thesis unfolding bytes block_bytes_def length_append off_all by simp
qed

lemma restart_count: "0 < length rs" "length rs < 2 ^ 32"
  using restarts size length_data by (simp_all add: restarts_ok_def)

lemma off_small: "i \<le> n \<Longrightarrow> off i < 2 ^ 32"
  using off_mono [of i n ls] size length_data by simp

lemma unat_off: "i \<le> n \<Longrightarrow> unat (of_nat (off i) :: u32) = off i"
  using off_small [of i] by (intro unat_of_nat_small) simp

lemma off_less_word: "i \<le> n \<Longrightarrow> j \<le> n \<Longrightarrow> (of_nat (off i) :: u32) < of_nat (off j) \<longleftrightarrow> i < j"
  using off_le_iff [of j ls i] by (simp add: word_less_nat_alt unat_off not_le [symmetric])

lemma unat_count: "unat (of_nat (length rs) :: u32) = length rs"
  using restart_count by (intro unat_of_nat_small) simp

lemma restart_le: "r < length rs \<Longrightarrow> rs ! r \<le> n"
  using restarts unfolding restarts_ok_def by (metis le_zero_eq linear nat_less_le nth_mem)

lemma restart_less: "r < r' \<Longrightarrow> r' < length rs \<Longrightarrow> rs ! r < rs ! r'"
  using restarts by (simp add: restarts_ok_def sorted_wrt_nth_less)

lemma restart_mono: "r \<le> r' \<Longrightarrow> r' < length rs \<Longrightarrow> rs ! r \<le> rs ! r'"
  using restart_less [of r r'] by (cases "r = r'") auto

lemma restart_word:
  assumes "r < length rs"
  shows "DecodeFixed32 (drop (off n + r * 4) data) = Some (of_nat (off (rs ! r)))"
proof -
  have "DecodeFixed32 (drop (length (concat (map enc_entry ls)) + r * 4) (concat (map enc_entry ls)
      @ concat (map EncodeFixed32 (map (\<lambda>r. of_nat (off r)) rs @ [of_nat (length rs)])) @ [])) = Some ((map (\<lambda>r. of_nat (off r)) rs @ [of_nat (length rs)]) ! r)"
    by (rule word_at) (use assms in simp)
  then show ?thesis using assms unfolding bytes block_bytes_def off_all by (simp add: nth_append del: map_append)
qed

lemma entry_at:
  assumes "i < n"
  shows "drop (off i) data = enc_entry (ls ! i) @ drop (off (Suc i)) data"
  unfolding bytes block_bytes_def by (rule drop_off [OF assms])

lemma shared_le: "i < n \<Longrightarrow> e_shared (ls ! i) \<le> length (e_key (ls ! i))"
  using chain by (simp add: chained_def)

lemma entry_fits:
  assumes "i < n"
  shows "off i + length (enc_header (ls ! i)) + (length (e_key (ls ! i)) - e_shared (ls ! i)) + length (e_value (ls ! i)) = off (Suc i)"
  using assms shared_le [OF assms] by (simp add: off_Suc enc_entry_def)

lemma decode_at:
  assumes i: "i < n"
  shows "DecodeEntry data (off i) (off n) = Some (Some (off i + length (enc_header (ls ! i)), of_nat (e_shared (ls ! i)),
      of_nat (length (e_key (ls ! i)) - e_shared (ls ! i)), of_nat (length (e_value (ls ! i)))))"
    and "e_shared (ls ! i) < 2 ^ 32 \<Longrightarrow> unat (of_nat (e_shared (ls ! i)) :: u32) = e_shared (ls ! i)"
    and "unat (of_nat (length (e_key (ls ! i)) - e_shared (ls ! i)) :: u32) = length (e_key (ls ! i)) - e_shared (ls ! i)"
    and "unat (of_nat (length (e_value (ls ! i))) :: u32) = length (e_value (ls ! i))"
proof -
  let ?e = "ls ! i"
  have le: "off (Suc i) \<le> off n" using i by (intro off_mono) auto
  note fit = entry_fits [OF i] and on = off_small [of n]
  show ns: "unat (of_nat (length (e_key ?e) - e_shared ?e) :: u32) = length (e_key ?e) - e_shared ?e"
    by (rule unat_of_nat_small) (use fit le on in simp)
  show vl: "unat (of_nat (length (e_value ?e)) :: u32) = length (e_value ?e)"
    by (rule unat_of_nat_small) (use fit le on in simp)
  show "e_shared (ls ! i) < 2 ^ 32 \<Longrightarrow> unat (of_nat (e_shared (ls ! i)) :: u32) = e_shared (ls ! i)"
    by (rule unat_of_nat_small) simp
  show "DecodeEntry data (off i) (off n) = Some (Some (off i + length (enc_header ?e), of_nat (e_shared ?e),
      of_nat (length (e_key ?e) - e_shared ?e), of_nat (length (e_value ?e))))"
  proof (rule DecodeEntry_header)
    show "drop (off i) data = EncodeVarint32 (of_nat (e_shared ?e)) @ EncodeVarint32 (of_nat (length (e_key ?e) - e_shared ?e))
        @ EncodeVarint32 (of_nat (length (e_value ?e))) @ drop (e_shared ?e) (e_key ?e) @ e_value ?e @ drop (off (Suc i)) data"
      using entry_at [OF i] by (simp add: enc_entry_def enc_header_def)
    show "off i + length (enc_header ?e) + unat (of_nat (length (e_key ?e) - e_shared ?e) :: u32) + unat (of_nat (length (e_value ?e)) :: u32) \<le> off n"
      unfolding ns vl using fit le by simp
  qed (use on length_data in \<open>simp_all add: enc_header_def\<close>)
qed

lemma key_le_off: "i < n \<Longrightarrow> length (e_key (ls ! i)) \<le> off (Suc i)"
proof (induction i)
  case 0
  then have "e_shared (ls ! 0) = 0" using chain by (auto simp: chained_def prev_key_def)
  then show ?case using entry_fits [OF 0] by simp
next
  case (Suc i)
  then have "e_shared (ls ! Suc i) \<le> length (e_key (ls ! i))" using chain by (auto simp: chained_def prev_key_def)
  then show ?case using Suc entry_fits [of "Suc i"] by simp
qed

lemma unat_shared: "i < n \<Longrightarrow> unat (of_nat (e_shared (ls ! i)) :: u32) = e_shared (ls ! i)"
  using shared_le [of i] key_le_off [of i] off_small [of "Suc i"] by (intro unat_of_nat_small) simp

text \<open>The position of the value, and what is read there.\<close>

definition value_off :: "nat \<Rightarrow> nat" where
  "value_off i = off i + length (enc_header (ls ! i)) + (length (e_key (ls ! i)) - e_shared (ls ! i))"

lemma value_end: "i < n \<Longrightarrow> value_off i + length (e_value (ls ! i)) = off (Suc i)"
  by (simp add: value_off_def entry_fits)

lemma off_le_data: "i \<le> n \<Longrightarrow> off i \<le> length data"
  using off_mono [of i n ls] length_data by simp

lemma value_read: "i < n \<Longrightarrow> take (length (e_value (ls ! i))) (drop (value_off i) data) = e_value (ls ! i)"
proof -
  assume i: "i < n"
  have "drop (value_off i) data = drop (length (enc_header (ls ! i)) + (length (e_key (ls ! i)) - e_shared (ls ! i))) (drop (off i) data)"
    unfolding value_off_def drop_drop by (simp only: ac_simps)
  then show ?thesis unfolding entry_at [OF i] enc_entry_def by simp
qed

lemma delta_read: "i < n \<Longrightarrow> take (length (e_key (ls ! i)) - e_shared (ls ! i)) (drop (off i + length (enc_header (ls ! i))) data)
    = drop (e_shared (ls ! i)) (e_key (ls ! i))"
proof -
  assume i: "i < n"
  have "drop (off i + length (enc_header (ls ! i))) data = drop (length (enc_header (ls ! i))) (drop (off i) data)" by (simp add: add.commute)
  then show ?thesis unfolding entry_at [OF i] enc_entry_def by simp
qed

section \<open>Positions of the iterator\<close>

definition it_ok :: "block_iter \<Rightarrow> bool" where
  "it_ok it \<longleftrightarrow> bi_data it = data \<and> bi_restarts it = of_nat (off n) \<and> bi_num_restarts it = of_nat (length rs) \<and> bi_status it = Status_OK"

definition restart_below :: "block_iter \<Rightarrow> nat \<Rightarrow> bool" where
  "restart_below it i \<longleftrightarrow> unat (bi_restart_index it) < length rs \<and> rs ! unat (bi_restart_index it) \<le> i"

text \<open>The iterator stands before entry \<open>i\<close>: the next entry read is this one.\<close>

definition before :: "block_iter \<Rightarrow> nat \<Rightarrow> bool" where
  "before it i \<longleftrightarrow> it_ok it \<and> i \<le> n \<and> (\<exists>a l. bi_value it = Some (a, l) \<and> a + l = off i) \<and> restart_below it i
     \<and> (i < n \<longrightarrow> e_shared (ls ! i) \<le> length (bi_key it) \<and> take (e_shared (ls ! i)) (bi_key it) = take (e_shared (ls ! i)) (e_key (ls ! i)))"

text \<open>It stands at entry \<open>i\<close>, or behind the last one.\<close>

definition at_entry :: "block_iter \<Rightarrow> nat \<Rightarrow> bool" where
  "at_entry it i \<longleftrightarrow> it_ok it \<and> i \<le> n \<and> bi_current it = of_nat (off i)
     \<and> (i < n \<longrightarrow> bi_key it = e_key (ls ! i) \<and> bi_value it = Some (value_off i, length (e_value (ls ! i))) \<and> restart_below it i)"

lemma GetRestartPoint_at: "it_ok it \<Longrightarrow> r < length rs \<Longrightarrow> GetRestartPoint it (of_nat r) = Some (of_nat (off (rs ! r)))"
proof -
  assume it: "it_ok it" and r: "r < length rs"
  have ur: "unat (of_nat r :: u32) = r" using r restart_count by (intro unat_of_nat_small) simp
  have "(of_nat r :: u32) < of_nat (length rs)" using r by (simp add: word_less_nat_alt ur unat_count)
  then show ?thesis using it restart_word [OF r] by (simp add: GetRestartPoint_def it_ok_def ur unat_off)
qed

lemma advance_restart_ok:
  assumes "it_ok it" "restart_below it i" "bi_current it = of_nat (off i)" "i \<le> n" "length rs - unat (bi_restart_index it) \<le> m"
  shows "\<exists>r. advance_restart m it = Some (it\<lparr>bi_restart_index := r\<rparr>) \<and> restart_below (it\<lparr>bi_restart_index := r\<rparr>) i"
  using assms
proof (induction m arbitrary: it)
  case 0
  then show ?case by (simp add: restart_below_def)
next
  case (Suc m)
  let ?r = "unat (bi_restart_index it)"
  have r: "?r < length rs" using Suc.prems(2) by (simp add: restart_below_def)
  have inc: "bi_restart_index it + 1 = of_nat (Suc ?r)" by simp
  have u: "unat (of_nat (Suc ?r) :: u32) = Suc ?r" using r restart_count by (intro unat_of_nat_small) simp
  have cond: "bi_restart_index it + 1 < bi_num_restarts it \<longleftrightarrow> Suc ?r < length rs"
    using Suc.prems(1) u unat_count unfolding inc it_ok_def by (simp add: word_less_nat_alt)
  show ?case
  proof (cases "Suc ?r < length rs \<and> rs ! Suc ?r < i")
    case True
    let ?it = "it\<lparr>bi_restart_index := bi_restart_index it + 1\<rparr>"
    have g: "GetRestartPoint it (bi_restart_index it + 1) = Some (of_nat (off (rs ! Suc ?r)))"
      unfolding inc using GetRestartPoint_at [OF Suc.prems(1)] True by blast
    have lt: "(of_nat (off (rs ! Suc ?r)) :: u32) < bi_current it"
      using True Suc.prems(3,4) off_less_word [of "rs ! Suc ?r" i] by simp
    have below: "restart_below ?it i" using True u unfolding restart_below_def inc by simp
    have ok: "it_ok ?it" using Suc.prems(1) by (simp add: it_ok_def)
    have m: "length rs - unat (bi_restart_index ?it) \<le> m" using Suc.prems(5) u r unfolding inc by simp
    obtain r' where "advance_restart m ?it = Some (?it\<lparr>bi_restart_index := r'\<rparr>)" "restart_below (?it\<lparr>bi_restart_index := r'\<rparr>) i"
      using Suc.IH [OF ok below _ Suc.prems(4) m] Suc.prems(3) by auto
    then show ?thesis using True cond g lt by (auto simp: advance_restart.simps [of "Suc m"])
  next
    case False
    have "advance_restart (Suc m) it = Some it"
    proof (cases "Suc ?r < length rs")
      case inside: True
      have g: "GetRestartPoint it (bi_restart_index it + 1) = Some (of_nat (off (rs ! Suc ?r)))"
        unfolding inc using GetRestartPoint_at [OF Suc.prems(1) inside] .
      have "\<not> (of_nat (off (rs ! Suc ?r)) :: u32) < bi_current it"
        using False inside Suc.prems(3,4) off_less_word [of "rs ! Suc ?r" i] restart_le [OF inside] by simp
      then show ?thesis using g cond inside by (simp add: advance_restart.simps [of "Suc m"])
    next
      case outside: False
      then show ?thesis using cond by (simp add: advance_restart.simps [of "Suc m"])
    qed
    then show ?thesis using Suc.prems(2) by (intro exI [of _ "bi_restart_index it"]) simp
  qed
qed

lemma NextEntryOffset_before: "before it i \<Longrightarrow> NextEntryOffset it = Some (of_nat (off i))"
  by (auto simp: before_def NextEntryOffset_def simp del: of_nat_add)

lemma Parse_entry:
  assumes b: "before it i" and i: "i < n"
  shows "\<exists>it'. ParseNextKey it = Some (True, it') \<and> at_entry it' i"
proof -
  let ?e = "ls ! i"
  note ok = b [unfolded before_def it_ok_def]
  have cur: "\<not> (of_nat (off n) :: u32) \<le> of_nat (off i)" using off_less_word [of i n] i by simp
  have un: "unat (of_nat (off i) :: u32) = off i" "unat (of_nat (off n) :: u32) = off n" using i by (simp_all add: unat_off)
  let ?it1 = "it\<lparr>bi_current := of_nat (off i), bi_key := take (e_shared ?e) (bi_key it) @ drop (e_shared ?e) (e_key ?e),
      bi_value := Some (value_off i, length (e_value ?e))\<rparr>"
  have key: "take (e_shared ?e) (bi_key it) @ drop (e_shared ?e) (e_key ?e) = e_key ?e" using ok i by simp
  have ok1: "it_ok ?it1" using ok by (simp add: it_ok_def)
  have below1: "restart_below ?it1 i" using ok by (simp add: restart_below_def)
  obtain r where r: "advance_restart (length rs) ?it1 = Some (?it1\<lparr>bi_restart_index := r\<rparr>)" "restart_below (?it1\<lparr>bi_restart_index := r\<rparr>) i"
    using advance_restart_ok [OF ok1 below1, of "length rs"] i by auto
  have inside: "off i + length (enc_header ?e) + (length (e_key ?e) - e_shared ?e) \<le> length data"
    using value_end [OF i] off_le_data [of "Suc i"] i by (simp add: value_off_def)
  have "ParseNextKey it = Some (True, ?it1\<lparr>bi_restart_index := r\<rparr>)"
    unfolding ParseNextKey_def NextEntryOffset_before [OF b] using ok cur un decode_at(1,3,4) [OF i] unat_shared [OF i] inside r(1) delta_read [OF i] i
    by (simp add: unat_count value_off_def Let_def)
  moreover have "at_entry (?it1\<lparr>bi_restart_index := r\<rparr>) i"
    using ok1 r(2) i key by (simp add: at_entry_def it_ok_def)
  ultimately show ?thesis by blast
qed

lemma Parse_end:
  assumes b: "before it n"
  shows "\<exists>it'. ParseNextKey it = Some (False, it') \<and> at_entry it' n"
proof -
  note ok = b [unfolded before_def it_ok_def]
  show ?thesis unfolding ParseNextKey_def NextEntryOffset_before [OF b] using ok by (simp add: Let_def at_entry_def it_ok_def)
qed

lemma at_before: "at_entry it i \<Longrightarrow> i < n \<Longrightarrow> before it (Suc i)"
  using value_end [of i] chain unfolding chained_def at_entry_def before_def restart_below_def
  by (auto simp: prev_key_def)

lemma Seek_before:
  assumes it: "it_ok it" and r: "r < length rs"
  shows "\<exists>it'. SeekToRestartPoint it (of_nat r) = Some it' \<and> before it' (rs ! r)"
proof -
  have ur: "unat (of_nat r :: u32) = r" using r restart_count by (intro unat_of_nat_small) simp
  have z: "rs ! r < n \<Longrightarrow> e_shared (ls ! (rs ! r)) = 0" using restarts r by (auto simp: restarts_ok_def)
  show ?thesis
    unfolding SeekToRestartPoint_def GetRestartPoint_at [OF it r]
    using it r restart_le [OF r] z ur by (auto simp: before_def it_ok_def restart_below_def unat_off)
qed

lemma fresh_at: "new_block_iter data (of_nat (off n)) (of_nat (length rs)) = Some it \<Longrightarrow> at_entry it n"
  by (auto simp: new_block_iter_def at_entry_def it_ok_def split: if_splits)

lemma at_Valid_iff: "at_entry it i \<Longrightarrow> bi_Valid it \<longleftrightarrow> i < n"
  using off_less_word [of i n] by (auto simp: at_entry_def bi_Valid_def it_ok_def)

lemma NextEntryOffset_at: "at_entry it i \<Longrightarrow> i < n \<Longrightarrow> NextEntryOffset it = Some (of_nat (off (Suc i)))"
  by (rule NextEntryOffset_before [OF at_before])

lemma parse_until_at:
  assumes "before it i" "i \<le> j" "j < n" "j - i < m"
  shows "\<exists>it'. parse_until m (of_nat (off (Suc j))) it = Some it' \<and> at_entry it' j"
  using assms
proof (induction m arbitrary: it i)
  case (Suc m)
  obtain it1 where it1: "ParseNextKey it = Some (True, it1)" "at_entry it1 i" using Parse_entry [OF Suc.prems(1)] Suc.prems(2,3) by auto
  have next1: "NextEntryOffset it1 = Some (of_nat (off (Suc i)))" using NextEntryOffset_at [OF it1(2)] Suc.prems(2,3) by simp
  have less: "(of_nat (off (Suc i)) :: u32) < of_nat (off (Suc j)) \<longleftrightarrow> i < j" using off_less_word [of "Suc i" "Suc j"] Suc.prems(2,3) by simp
  show ?case
  proof (cases "i = j")
    case True
    then show ?thesis using it1 next1 less by simp
  next
    case False
    have b: "before it1 (Suc i)" using at_before [OF it1(2)] Suc.prems(2,3) by simp
    show ?thesis using Suc.IH [OF b] Suc.prems False it1(1) next1 less by simp
  qed
qed simp

lemma SeekToFirst_at: "it_ok it \<Longrightarrow> \<exists>it'. bi_SeekToFirst it = Some it' \<and> at_entry it' 0"
proof -
  assume it: "it_ok it"
  have "rs ! 0 = 0" using restarts by (simp add: restarts_ok_def)
  then obtain it1 where it1: "SeekToRestartPoint it 0 = Some it1" "before it1 0"
    using Seek_before [OF it restart_count(1)] by auto
  show ?thesis
  proof (cases "n = 0")
    case True
    then show ?thesis using Parse_end [of it1] it1 by (auto simp: bi_SeekToFirst_def)
  next
    case False
    then show ?thesis using Parse_entry [OF it1(2)] it1 by (auto simp: bi_SeekToFirst_def)
  qed
qed

lemma fuel_enough: "i \<le> n \<Longrightarrow> i < length data + 1"
  using off_ge [of i ls] off_le_data [of i] by simp

lemma last_index: "it_ok it \<Longrightarrow> bi_num_restarts it - 1 = of_nat (length rs - 1)"
proof -
  assume it: "it_ok it"
  obtain k where "length rs = Suc k" using restart_count(1) by (cases "length rs") auto
  then show ?thesis using it by (simp add: it_ok_def)
qed

lemma SeekToLast_at: "it_ok it \<Longrightarrow> \<exists>it'. bi_SeekToLast it = Some it' \<and> at_entry it' (n - 1)"
proof -
  assume it: "it_ok it"
  note last = last_index [OF it]
  have lt: "length rs - 1 < length rs" using restart_count by simp
  obtain it1 where it1: "SeekToRestartPoint it (bi_num_restarts it - 1) = Some it1" "before it1 (rs ! (length rs - 1))"
    using Seek_before [OF it lt] last by auto
  show ?thesis
  proof (cases "n = 0")
    case True
    then have "rs ! (length rs - 1) = n" using restart_le [OF lt] by simp
    then obtain it2 where "ParseNextKey it1 = Some (False, it2)" "at_entry it2 n" using Parse_end [of it1] it1(2) by auto
    then show ?thesis using True it1(1) by (simp add: bi_SeekToLast_def)
  next
    case False
    have r: "rs ! (length rs - 1) \<le> n - 1"
    proof -
      have "rs ! (length rs - 1) < n \<or> rs ! (length rs - 1) = 0" using restarts lt unfolding restarts_ok_def by (meson nth_mem)
      then show ?thesis using False by linarith
    qed
    have bound: "bi_restarts it = of_nat (off (Suc (n - 1)))" using it False by (simp add: it_ok_def)
    have f: "n - 1 - rs ! (length rs - 1) < length (bi_data it) + 1" using fuel_enough [of n] it by (simp add: it_ok_def)
    obtain it2 where "parse_until (length (bi_data it) + 1) (of_nat (off (Suc (n - 1)))) it1 = Some it2" "at_entry it2 (n - 1)"
      using parse_until_at [OF it1(2) r _ f] False by auto
    then show ?thesis using it1(1) unfolding bi_SeekToLast_def bound by simp
  qed
qed

lemma Next_at: "at_entry it i \<Longrightarrow> i < n \<Longrightarrow> \<exists>it'. bi_Next it = Some it' \<and> at_entry it' (Suc i)"
proof -
  assume it: "at_entry it i" and i: "i < n"
  have b: "before it (Suc i)" by (rule at_before [OF it i])
  have v: "bi_Valid it" using at_Valid_iff [OF it] i by simp
  show ?thesis
  proof (cases "Suc i = n")
    case True
    then show ?thesis using Parse_end [of it] b v by (auto simp: bi_Next_def)
  next
    case False
    then show ?thesis using Parse_entry [OF b] i v by (auto simp: bi_Next_def)
  qed
qed

text \<open>The restart point to go back to is the last one before the entry.\<close>

lemma prev_restart_at:
  assumes "it_ok it" "unat (bi_restart_index it) < length rs" "i \<le> n" "unat (bi_restart_index it) < m"
  shows "if i = 0 then \<exists>it'. prev_restart m (of_nat (off i)) it = Some (False, it') \<and> at_entry it' n
    else \<exists>r. prev_restart m (of_nat (off i)) it = Some (True, it\<lparr>bi_restart_index := of_nat r\<rparr>) \<and> r < length rs \<and> rs ! r < i"
  using assms
proof (induction m arbitrary: it)
  case (Suc m)
  let ?r = "unat (bi_restart_index it)"
  have g: "GetRestartPoint it (bi_restart_index it) = Some (of_nat (off (rs ! ?r)))"
    using GetRestartPoint_at [OF Suc.prems(1,2)] by simp
  have ge: "(of_nat (off i) :: u32) \<le> of_nat (off (rs ! ?r)) \<longleftrightarrow> i \<le> rs ! ?r"
    using off_less_word [OF restart_le [OF Suc.prems(2)] Suc.prems(3)] by (simp add: not_less [symmetric])
  show ?case
  proof (cases "i \<le> rs ! ?r")
    case False
    have "prev_restart (Suc m) (of_nat (off i)) it = Some (True, it\<lparr>bi_restart_index := of_nat ?r\<rparr>)" using g ge False by simp
    moreover have "i \<noteq> 0" using False by (rule contrapos_nn) simp
    ultimately show ?thesis using False Suc.prems(2) unfolding if_not_P [OF \<open>i \<noteq> 0\<close>]
      by (intro exI [of _ ?r] conjI) simp_all
  next
    case True
    show ?thesis
    proof (cases "?r = 0")
      case zero: True
      then have "i = 0" using True restarts by (simp add: restarts_ok_def)
      moreover have z: "bi_restart_index it = 0" using zero by (simp add: unat_eq_0)
      moreover have "at_entry (it\<lparr>bi_current := bi_restarts it, bi_restart_index := bi_num_restarts it\<rparr>) n"
        using Suc.prems(1) by (simp add: at_entry_def it_ok_def)
      ultimately show ?thesis using g ge True by simp
    next
      case nz: False
      let ?it = "it\<lparr>bi_restart_index := bi_restart_index it - 1\<rparr>"
      have nz': "bi_restart_index it \<noteq> 0" using nz by (simp add: unat_eq_0)
      have u: "unat (bi_restart_index it - 1) = ?r - 1" using nz' by (rule unat_minus_one)
      have step: "prev_restart (Suc m) (of_nat (off i)) it = prev_restart m (of_nat (off i)) ?it" using g ge True nz' by simp
      have pre: "it_ok ?it" "unat (bi_restart_index ?it) < length rs" "unat (bi_restart_index ?it) < m"
        using Suc.prems(1,2,4) u nz by (simp_all add: it_ok_def)
      have eq: "?it\<lparr>bi_restart_index := x\<rparr> = it\<lparr>bi_restart_index := x\<rparr>" for x by simp
      show ?thesis using Suc.IH [OF pre(1,2) Suc.prems(3) pre(3)] unfolding step eq .
    qed
  qed
qed simp

lemma Prev_at:
  assumes it: "at_entry it i" and i: "i < n"
  shows "\<exists>it'. bi_Prev it = Some it' \<and> at_entry it' (if i = 0 then n else i - 1)"
proof -
  have v: "bi_Valid it" using at_Valid_iff [OF it] i by simp
  have ok: "it_ok it" "bi_current it = of_nat (off i)" "unat (bi_restart_index it) < length rs"
    using it i by (simp_all add: at_entry_def restart_below_def)
  note pr = prev_restart_at [OF ok(1,3) less_imp_le [OF i] less_add_one]
  show ?thesis
  proof (cases "i = 0")
    case True
    obtain it' where "prev_restart (unat (bi_restart_index it) + 1) (of_nat (off i)) it = Some (False, it')" "at_entry it' n"
      using pr unfolding if_P [OF True] by blast
    then show ?thesis using v ok(2) True by (simp add: bi_Prev_def del: prev_restart.simps)
  next
    case False
    obtain r where r: "prev_restart (unat (bi_restart_index it) + 1) (of_nat (off i)) it = Some (True, it\<lparr>bi_restart_index := of_nat r\<rparr>)"
        "r < length rs" "rs ! r < i"
      using pr unfolding if_not_P [OF False] by blast
    have "it_ok (it\<lparr>bi_restart_index := of_nat r\<rparr>)" using ok(1) by (simp add: it_ok_def)
    from Seek_before [OF this r(2)] obtain it2
      where it2: "SeekToRestartPoint (it\<lparr>bi_restart_index := of_nat r\<rparr>) (of_nat r) = Some it2" "before it2 (rs ! r)" by blast
    have le: "rs ! r \<le> i - 1" "i - 1 < n" "Suc (i - 1) = i" using r(3) i by auto
    have f: "i - 1 - rs ! r < length (bi_data it) + 1" using fuel_enough [of i] i ok(1) by (simp add: it_ok_def)
    obtain it3 where "parse_until (length (bi_data it) + 1) (of_nat (off i)) it2 = Some it3" "at_entry it3 (i - 1)"
      using parse_until_at [OF it2(2) le(1,2) f] le(3) by auto
    then show ?thesis using r(1) it2(1) v ok(2) False by (simp add: bi_Prev_def del: prev_restart.simps parse_until.simps)
  qed
qed

end

section \<open>Searching\<close>

locale sorted_block = block_layout ls rs data + comparator "Compare c" valid
  for ls :: "entry list" and rs :: "nat list" and data :: slice and c :: Comparator and valid :: "slice \<Rightarrow> bool" +
  assumes keys: "sorted_wrt (less_key (Compare c)) (map e_key ls)" "\<forall>e \<in> set ls. valid (e_key e)"
begin

lemma valid_at: "i < n \<Longrightarrow> valid (e_key (ls ! i))"
  using keys(2) by simp

lemma key_less: "i < j \<Longrightarrow> j < n \<Longrightarrow> less_key (Compare c) (e_key (ls ! i)) (e_key (ls ! j))"
  using keys(1) by (simp add: sorted_wrt_iff_nth_less)

lemma key_below: "j < n \<Longrightarrow> i \<le> j \<Longrightarrow> valid t \<Longrightarrow> less_key (Compare c) (e_key (ls ! j)) t \<Longrightarrow> less_key (Compare c) (e_key (ls ! i)) t"
  using less_trans [OF valid_at valid_at, of i j t] key_less [of i j] by (cases "i = j") auto

text \<open>All keys before the restart point the search ends with are below the target.\<close>

lemma seek_search_at:
  assumes it: "it_ok it" and t: "valid t"
  shows "l \<le> r \<Longrightarrow> r < length rs \<Longrightarrow> r - l \<le> m \<Longrightarrow> (l = 0 \<or> less_key (Compare c) (e_key (ls ! (rs ! l))) t) \<Longrightarrow>
    \<exists>l'. seek_search m c t it (of_nat l) (of_nat r) = Some (Some (of_nat l'), it) \<and> l' < length rs
      \<and> (l' = 0 \<or> less_key (Compare c) (e_key (ls ! (rs ! l'))) t)"
proof (induction m arbitrary: l r)
  case 0
  then show ?case by (auto simp: seek_search.simps)
next
  case (Suc m)
  have small: "unat (of_nat k :: u32) = k" if "k \<le> length rs" for k using that restart_count by (intro unat_of_nat_small) simp
  have less: "(of_nat l :: u32) < of_nat r \<longleftrightarrow> l < r" using Suc.prems small [of l] small [of r] by (simp add: word_less_nat_alt)
  show ?case
  proof (cases "l < r")
    case False
    then show ?thesis using Suc.prems less by (auto simp: seek_search.simps)
  next
    case True
    define mid where "mid = (l + r + 1) div 2"
    have mid: "l < mid" "mid \<le> r" using True by (auto simp: mid_def)
    have rl: "2 * length rs \<le> length data" using length_data by simp
    have mw: "((of_nat l + of_nat r + 1) div 2 :: u32) = of_nat mid"
    proof -
      have s: "l + r + 1 < 2 ^ 32" using Suc.prems(1,2) True rl size by linarith
      have "(of_nat l + of_nat r + 1 :: u32) = of_nat (l + r + 1)" by simp
      moreover have "unat (of_nat (l + r + 1) :: u32) = l + r + 1" using s by (intro unat_of_nat_small) simp
      ultimately have "unat ((of_nat l + of_nat r + 1) div 2 :: u32) = mid" by (simp only: unat_div mid_def) simp
      moreover have "unat (of_nat mid :: u32) = mid" using mid Suc.prems(2) by (intro small) simp
      ultimately show ?thesis by (simp add: word_unat_eq_iff)
    qed
    let ?i = "rs ! mid"
    have ml: "mid < length rs" using mid Suc.prems(2) by linarith
    have i: "?i < n"
    proof -
      have "rs ! 0 < ?i" using restart_less [of 0 mid] mid ml by simp
      then show ?thesis using restarts ml unfolding restarts_ok_def by (metis nth_mem not_less0)
    qed
    have sh: "e_shared (ls ! ?i) = 0" using restarts ml i by (auto simp: restarts_ok_def)
    have g: "GetRestartPoint it (of_nat mid) = Some (of_nat (off ?i))" by (rule GetRestartPoint_at [OF it ml])
    have un: "unat (of_nat (off ?i) :: u32) = off ?i" "unat (of_nat (off n) :: u32) = off n" using i by (simp_all add: unat_off)
    have key: "take (length (e_key (ls ! ?i))) (drop (off ?i + length (enc_header (ls ! ?i))) data) = e_key (ls ! ?i)"
      using delta_read [OF i] unfolding sh by simp
    have inside: "off ?i + length (enc_header (ls ! ?i)) + length (e_key (ls ! ?i)) \<le> length data"
      using value_end [OF i] off_le_data [of "Suc ?i"] i unfolding value_off_def sh by simp
    obtain k where k: "Compare c (e_key (ls ! ?i)) t = Some k" using cmp_defined [OF valid_at [OF i] t] by blast
    have step: "seek_search (Suc m) c t it (of_nat l) (of_nat r) =
        (if k < 0 then seek_search m c t it (of_nat mid) (of_nat r) else seek_search m c t it (of_nat l) (of_nat mid - 1))"
      using True less mw g it un decode_at(1,3) [OF i] key inside k unfolding sh
      by (simp add: seek_search.simps [of "Suc m"] it_ok_def Let_def del: One_nat_def)
    show ?thesis
    proof (cases "k < 0")
      case lt: True
      then have "less_key (Compare c) (e_key (ls ! ?i)) t" using k by (simp add: less_key_def)
      then show ?thesis using Suc.IH [OF mid(2) Suc.prems(2)] mid Suc.prems(3) lt step by auto
    next
      case ge: False
      have "(of_nat mid - 1 :: u32) = of_nat (mid - 1)" using mid(1) by (cases mid) auto
      moreover have "l \<le> mid - 1" "mid - 1 < length rs" "mid - 1 - l \<le> m" using mid Suc.prems(2,3) by auto
      ultimately show ?thesis using Suc.IH [of l "mid - 1"] Suc.prems(4) ge step by simp
    qed
  qed
qed

text \<open>The entries of the block as a client sees them.\<close>

abbreviation "es \<equiv> map e_pair ls"

lemma seek_linear_at:
  assumes t: "valid t"
  shows "before it i \<Longrightarrow> i \<le> seek_index c t es \<Longrightarrow> seek_index c t es - i < m \<Longrightarrow>
    \<exists>it'. seek_linear m c t it = Some it' \<and> at_entry it' (seek_index c t es)"
proof (induction m arbitrary: it i)
  case (Suc m)
  have le: "seek_index c t es \<le> n" using seek_index_le [of c t es] by simp
  show ?case
  proof (cases "i = n")
    case True
    then have "seek_index c t es = n" using le Suc.prems(2) by simp
    then show ?thesis using Parse_end [of it] Suc.prems(1) True by auto
  next
    case False
    then have i: "i < n" using le Suc.prems(2) by simp
    obtain it1 where it1: "ParseNextKey it = Some (True, it1)" "at_entry it1 i" using Parse_entry [OF Suc.prems(1) i] by blast
    obtain k where k: "Compare c (e_key (ls ! i)) t = Some k" using cmp_defined [OF valid_at [OF i] t] by blast
    have key: "bi_key it1 = e_key (ls ! i)" using it1(2) i by (simp add: at_entry_def)
    show ?thesis
    proof (cases "i = seek_index c t es")
      case True
      then have "\<not> less_key (Compare c) (e_key (ls ! i)) t" using seek_index_at [of c t es] i by (simp add: e_pair_def)
      then show ?thesis using it1 k key True by (simp add: less_key_def)
    next
      case False
      then have lt: "i < seek_index c t es" using Suc.prems(2) by simp
      then have "less_key (Compare c) (e_key (ls ! i)) t" using seek_index_before [of i c t es] i by (simp add: e_pair_def)
      moreover have "Suc i \<le> seek_index c t es" "seek_index c t es - Suc i < m" using lt Suc.prems(3) by linarith+
      then obtain it2 where "seek_linear m c t it1 = Some it2" "at_entry it2 (seek_index c t es)"
        using Suc.IH [OF at_before [OF it1(2) i]] by blast
      ultimately show ?thesis using it1(1) k key by (simp add: less_key_def)
    qed
  qed
qed simp

lemma Seek_at:
  assumes it: "it_ok it" and t: "valid t"
  shows "\<exists>it'. bi_Seek c t it = Some it' \<and> at_entry it' (seek_index c t es)"
proof -
  note last = last_index [OF it]
  have num: "unat (bi_num_restarts it) = length rs" using it unat_count by (simp add: it_ok_def)
  obtain l where l: "seek_search (length rs) c t it (of_nat 0) (of_nat (length rs - 1)) = Some (Some (of_nat l), it)" "l < length rs"
      "l = 0 \<or> less_key (Compare c) (e_key (ls ! (rs ! l))) t"
    using seek_search_at [OF it t, of 0 "length rs - 1" "length rs"] restart_count by auto
  obtain it2 where it2: "SeekToRestartPoint it (of_nat l) = Some it2" "before it2 (rs ! l)" using Seek_before [OF it l(2)] by blast
  have le: "rs ! l \<le> seek_index c t es"
  proof (rule ccontr)
    assume n: "\<not> rs ! l \<le> seek_index c t es"
    then have "rs ! l \<noteq> 0" by simp
    then have lt: "rs ! l < n" using restarts l(2) unfolding restarts_ok_def by (meson nth_mem)
    have "l \<noteq> 0" using \<open>rs ! l \<noteq> 0\<close> restarts unfolding restarts_ok_def by metis
    then have "less_key (Compare c) (e_key (ls ! seek_index c t es)) t"
      using key_below [OF lt _ t, of "seek_index c t es"] l(3) n by simp
    then show False using seek_index_at [of c t es] n lt by (simp add: e_pair_def)
  qed
  have f: "seek_index c t es - rs ! l < length (bi_data it) + 1"
    using fuel_enough [of "seek_index c t es"] seek_index_le [of c t es] it by (simp add: it_ok_def)
  show ?thesis using seek_linear_at [OF t it2(2) le f] l(1) it2(1) unfolding bi_Seek_def last num by simp
qed

lemma it_ok_at: "at_entry it i \<Longrightarrow> it_ok it"
  by (simp add: at_entry_def)

end

sublocale sorted_block \<subseteq> iter: iterator_over "block_iterator_ops c" c valid es at_entry
proof unfold_locales
  fix s i assume s: "at_entry s i"
  show "i \<le> length es" using s by (simp add: at_entry_def)
  show "it_Valid (block_iterator_ops c) s = (i < length es)" using at_Valid_iff [OF s] by (simp add: block_iterator_ops_def)
  show "it_status (block_iterator_ops c) s = Some Status_OK" using s by (simp add: block_iterator_ops_def at_entry_def it_ok_def)
  show "\<exists>s'. it_SeekToFirst (block_iterator_ops c) s = Some s' \<and> at_entry s' 0"
    using SeekToFirst_at [OF it_ok_at [OF s]] by (simp add: block_iterator_ops_def)
  show "\<exists>s'. it_SeekToLast (block_iterator_ops c) s = Some s' \<and> at_entry s' (length es - 1)"
    using SeekToLast_at [OF it_ok_at [OF s]] by (simp add: block_iterator_ops_def)
  show "\<exists>s'. it_Seek (block_iterator_ops c) target s = Some s' \<and> at_entry s' (seek_index c target es)" if "valid target" for target
    using Seek_at [OF it_ok_at [OF s] that] by (simp add: block_iterator_ops_def)
  assume "i < length es"
  then have i: "i < n" by simp
  show "it_key (block_iterator_ops c) s = Some (fst (es ! i))"
    using s i at_Valid_iff [OF s] by (simp add: block_iterator_ops_def bi_get_key_def at_entry_def e_pair_def)
  show "it_value (block_iterator_ops c) s = Some (snd (es ! i))"
    using s i at_Valid_iff [OF s] value_read [OF i] value_end [OF i] off_le_data [of "Suc i"]
    by (simp add: block_iterator_ops_def bi_get_value_def at_entry_def e_pair_def it_ok_def)
  show "\<exists>s'. it_Next (block_iterator_ops c) s = Some s' \<and> at_entry s' (Suc i)"
    using Next_at [OF s i] by (simp add: block_iterator_ops_def)
  show "\<exists>s'. it_Prev (block_iterator_ops c) s = Some s' \<and> at_entry s' (if i = 0 then length es else i - 1)"
    using Prev_at [OF s i] unfolding length_map by (simp add: block_iterator_ops_def split del: if_split)
qed

end
