(* ===== verification/LdbBlockBuild.thy ===== *)
theory LdbBlockBuild
  imports LdbBlockProps
begin

text \<open>
  What the block builder writes is a layout of the entries added, so that the iterator over the block
  gives them back.
\<close>

section \<open>The builder\<close>

lemma shared_prefix_le: "shared_prefix a b \<le> length a" "shared_prefix a b \<le> length b"
  by (induction a b rule: shared_prefix.induct) auto

lemma shared_prefix_take: "take (shared_prefix a b) a = take (shared_prefix a b) b"
  by (induction a b rule: shared_prefix.induct) auto

definition builder_inv :: "Options \<Rightarrow> BlockBuilder \<Rightarrow> entry list \<Rightarrow> nat list \<Rightarrow> bool" where
  "builder_inv opts b ls rs \<longleftrightarrow> bb_buffer b = concat (map enc_entry ls) \<and> bb_restarts b = map (\<lambda>r. of_nat (entry_off ls r)) rs
     \<and> bb_counter b = int (length ls - last rs) \<and> last rs \<le> length ls \<and> \<not> bb_finished b \<and> bb_last_key b = prev_key ls (length ls)
     \<and> chained ls \<and> restarts_ok ls rs \<and> bb_counter b \<le> block_restart_interval opts \<and> 1 \<le> block_restart_interval opts"

lemma new_builder: "new_BlockBuilder opts = Some b \<Longrightarrow> builder_inv opts b [] [0]"
  by (auto simp: new_BlockBuilder_def builder_inv_def prev_key_def chained_def restarts_ok_def split: if_splits)

lemma reset_builder: "1 \<le> block_restart_interval opts \<Longrightarrow> builder_inv opts (bb_Reset b) [] [0]"
  by (simp add: bb_Reset_def builder_inv_def prev_key_def chained_def restarts_ok_def)

lemma buffer_empty: "builder_inv opts b ls rs \<Longrightarrow> bb_buffer b = [] \<longleftrightarrow> ls = []"
  using off_less [of 0 "length ls" ls] by (cases ls) (auto simp: builder_inv_def entry_off_def)

lemma chained_snoc:
  assumes "chained ls" "s \<le> length (prev_key ls (length ls))" "s \<le> length k" "take s (prev_key ls (length ls)) = take s k"
  shows "chained (ls @ [(k, v, s)])"
proof -
  have "prev_key (ls @ [(k, v, s)]) i = prev_key ls i" if "i \<le> length ls" for i
    using that by (cases i) (auto simp: prev_key_def nth_append)
  then show ?thesis using assms unfolding chained_def by (auto simp: nth_append less_Suc_eq e_shared_def e_key_def)
qed

lemma restarts_same:
  assumes "restarts_ok ls rs" "ls = [] \<longrightarrow> e_shared x = 0"
  shows "restarts_ok (ls @ [x]) rs"
  using assms unfolding restarts_ok_def by (auto simp: nth_append less_Suc_eq)

lemma restarts_new:
  assumes ok: "restarts_ok ls rs" and lt: "last rs < length ls" and x: "e_shared x = 0"
  shows "restarts_ok (ls @ [x]) (rs @ [length ls])"
proof -
  have "r < length ls" if mem: "r \<in> set rs" for r
  proof -
    obtain j where j: "j < length rs" "rs ! j = r" using mem by (auto simp: in_set_conv_nth)
    have "last rs = rs ! (length rs - 1)" using ok by (simp add: restarts_ok_def last_conv_nth)
    moreover have "rs ! j \<le> rs ! (length rs - 1)"
    proof (cases "j = length rs - 1")
      case False
      then have "j < length rs - 1" "length rs - 1 < length rs" using j(1) by linarith+
      then show ?thesis using ok sorted_wrt_nth_less [of "(<)" rs j "length rs - 1"] by (simp add: restarts_ok_def)
    qed simp
    ultimately have "r \<le> last rs" using j(2) by simp
    then show ?thesis using lt by simp
  qed
  then show ?thesis using ok x lt unfolding restarts_ok_def by (auto simp: nth_append sorted_wrt_append less_Suc_eq)
qed

lemma Add_inv:
  assumes inv: "builder_inv opts b ls rs" and up: "ls \<noteq> [] \<Longrightarrow> \<exists>r. Compare (opt_comparator opts) k (prev_key ls (length ls)) = Some r \<and> r > 0"
  shows "\<exists>b' s rs'. bb_Add opts b k v = Some b' \<and> builder_inv opts b' (ls @ [(k, v, s)]) rs'"
proof -
  note i = inv [unfolded builder_inv_def]
  have inc: "(if bb_buffer b = [] then Some True
      else do { r \<leftarrow> Compare (opt_comparator opts) k (bb_last_key b); Some (r > 0) }) = Some True"
    using buffer_empty [OF inv] up i by auto
  have guard: "(bb_finished b \<or> bb_counter b > block_restart_interval opts) = False"
    using inv unfolding builder_inv_def by (simp del: of_nat_diff)
  let ?p = "prev_key ls (length ls)"
  have enc: "concat (map enc_entry (ls @ [(k, v, s)])) = PutVarint32 (PutVarint32 (PutVarint32 (bb_buffer b) (of_nat s)) (of_nat (length k - s))) (of_nat (length v)) @ drop s k @ v" for s
    using i by (simp add: enc_entry_def enc_header_def PutVarint32_def e_shared_def e_key_def e_value_def)
  have pk: "prev_key (ls @ [(k, v, s)]) (length (ls @ [(k, v, s)])) = k" for s by (simp add: prev_key_def e_key_def)
  have offs: "r \<le> length ls \<Longrightarrow> entry_off (ls @ [(k, v, s)]) r = entry_off ls r" for r s by (rule off_append)
  have rle: "r \<in> set rs \<Longrightarrow> r \<le> length ls" for r using i by (auto simp: restarts_ok_def)
  show ?thesis
  proof (cases "bb_counter b < block_restart_interval opts")
    case True
    let ?s = "shared_prefix ?p k"
    let ?b = "b\<lparr>bb_buffer := concat (map enc_entry (ls @ [(k, v, ?s)])), bb_counter := bb_counter b + 1, bb_last_key := k\<rparr>"
    have last: "take ?s ?p @ drop ?s k = k" using shared_prefix_take [of ?p k] by simp
    have "bb_Add opts b k v = Some ?b"
      unfolding bb_Add_def guard if_False inc bind.bind_lunit enc using True i last by simp
    moreover have "chained (ls @ [(k, v, ?s)])" using i shared_prefix_le shared_prefix_take by (intro chained_snoc) auto
    moreover have "restarts_ok (ls @ [(k, v, ?s)]) rs" using i by (intro restarts_same) (auto simp: e_shared_def prev_key_def)
    ultimately have "bb_Add opts b k v = Some ?b \<and> builder_inv opts ?b (ls @ [(k, v, ?s)]) rs"
      using i True pk offs rle by (auto simp: builder_inv_def Suc_diff_le)
    then show ?thesis by blast
  next
    case False
    let ?b = "b\<lparr>bb_buffer := concat (map enc_entry (ls @ [(k, v, 0)])), bb_restarts := bb_restarts b @ [of_nat (length (bb_buffer b))],
        bb_counter := 1, bb_last_key := k\<rparr>"
    have lt: "last rs < length ls" using False i by simp
    have "bb_Add opts b k v = Some ?b"
      unfolding bb_Add_def guard if_False inc bind.bind_lunit enc using False i by simp
    moreover have "chained (ls @ [(k, v, 0)])" using i by (intro chained_snoc) auto
    moreover have "restarts_ok (ls @ [(k, v, 0)]) (rs @ [length ls])" using i lt by (intro restarts_new) (auto simp: e_shared_def)
    moreover have "length (bb_buffer b) = entry_off (ls @ [(k, v, 0)]) (length ls)" using i offs [of "length ls"] by (simp add: off_all)
    ultimately have "bb_Add opts b k v = Some ?b \<and> builder_inv opts ?b (ls @ [(k, v, 0)]) (rs @ [length ls])"
      using i pk offs rle by (auto simp: builder_inv_def)
    then show ?thesis by blast
  qed
qed

text \<open>Adding entries one after the other.\<close>

fun add_all :: "Options \<Rightarrow> BlockBuilder \<Rightarrow> (slice \<times> slice) list \<Rightarrow> BlockBuilder option" where
  "add_all opts b [] = Some b"
| "add_all opts b ((k, v) # es) = do { b' \<leftarrow> bb_Add opts b k v; add_all opts b' es }"

lemma pair_simps [simp]: "e_pair (k, v, s) = (k, v)" "fst (e_pair e) = e_key e" "snd (e_pair e) = e_value e"
  by (simp_all add: e_pair_def e_key_def e_value_def)

context comparator
begin

lemma greater_swap:
  assumes "valid a" "valid b" "less_key cmp a b"
  shows "\<exists>r. cmp b a = Some r \<and> r > 0"
proof -
  obtain r where r: "cmp a b = Some r" "r < 0" using assms(3) by (auto simp: less_key_def split: option.splits)
  obtain r' where "cmp b a = Some r'" "sgn r' = - sgn r" using cmp_swap [OF assms(1,2) r(1)] by blast
  then show ?thesis using r(2) by (auto simp: sgn_if split: if_splits)
qed

end

lemma add_all_inv:
  assumes cmp: "comparator (Compare (opt_comparator opts)) valid"
  shows "builder_inv opts b ls rs \<Longrightarrow> sorted_wrt (less_key (Compare (opt_comparator opts))) (map e_key ls @ map fst es) \<Longrightarrow>
    \<forall>k \<in> set (map e_key ls @ map fst es). valid k \<Longrightarrow>
    \<exists>b' ls' rs'. add_all opts b es = Some b' \<and> builder_inv opts b' ls' rs' \<and> map e_pair ls' = map e_pair ls @ es"
proof (induction es arbitrary: b ls rs)
  case Nil
  then show ?case by auto
next
  case (Cons e es)
  obtain k v where e: "e = (k, v)" by fastforce
  have "\<exists>r. Compare (opt_comparator opts) k (prev_key ls (length ls)) = Some r \<and> r > 0" if ne: "ls \<noteq> []"
  proof -
    obtain j where j: "length ls = Suc j" using ne by (cases ls) auto
    then have p: "prev_key ls (length ls) = e_key (ls ! j)" "ls ! j \<in> set ls" by (simp_all add: prev_key_def)
    have "less_key (Compare (opt_comparator opts)) (e_key (ls ! j)) k" using Cons.prems(2) p(2) by (auto simp: e sorted_wrt_append)
    moreover have "valid (e_key (ls ! j))" "valid k" using Cons.prems(3) p(2) by (auto simp: e)
    ultimately show ?thesis unfolding p(1) using comparator.greater_swap [OF cmp] by blast
  qed
  then obtain b1 s rs1 where 1: "bb_Add opts b k v = Some b1" "builder_inv opts b1 (ls @ [(k, v, s)]) rs1"
    using Add_inv [OF Cons.prems(1), of k v] by blast
  have keys: "map e_key (ls @ [(k, v, s)]) @ map fst es = map e_key ls @ map fst (e # es)" by (simp add: e e_key_def)
  obtain b' ls' rs' where "add_all opts b1 es = Some b'" "builder_inv opts b' ls' rs'" "map e_pair ls' = map e_pair (ls @ [(k, v, s)]) @ es"
    using Cons.IH [OF 1(2)] Cons.prems(2,3) unfolding keys by blast
  then show ?case using 1(1) by (auto simp: e)
qed

lemma fold_PutFixed32: "fold (\<lambda>r dst. PutFixed32 dst r) ws x = x @ concat (map EncodeFixed32 ws)"
  by (induction ws arbitrary: x) (simp_all add: PutFixed32_def)

lemma Finish_bytes: "builder_inv opts b ls rs \<Longrightarrow> fst (bb_Finish b) = block_bytes ls rs"
  by (simp only: bb_Finish_def Let_def fst_conv fold_PutFixed32) (simp add: PutFixed32_def block_bytes_def builder_inv_def)

lemma builder_keys: "map e_pair ls = es \<Longrightarrow> map e_key ls = map fst es"
  by auto

section \<open>The iterator over a finished block\<close>

context block_layout
begin

lemma new_Block_layout:
  assumes "bc_data contents = data"
  shows "\<exists>blk it. new_Block contents = Some blk \<and> blk_size blk = length data \<and> Block_NewIterator blk = Some (Block_iterator it) \<and> at_entry it n"
proof -
  have c: "unat (of_nat (length rs) :: u32) = length rs" by (rule unat_count)
  have w: "DecodeFixed32 (drop (length data - 4) data) = Some (of_nat (length rs))"
  proof -
    have "DecodeFixed32 (drop (length (concat (map enc_entry ls)) + length rs * 4) (concat (map enc_entry ls)
        @ concat (map EncodeFixed32 (map (\<lambda>r. of_nat (off r)) rs @ [of_nat (length rs)])) @ []))
        = Some ((map (\<lambda>r. of_nat (off r)) rs @ [of_nat (length rs)]) ! length rs)"
      by (rule word_at) simp
    moreover have "length data - 4 = length (concat (map enc_entry ls)) + length rs * 4" using length_data by (simp add: off_all)
    ultimately show ?thesis unfolding bytes block_bytes_def by (simp add: nth_append mult.commute del: map_append)
  qed
  have "(of_nat (length data) :: u32) - (1 + of_nat (length rs)) * 4 = of_nat (off n)"
    unfolding length_data by (simp add: algebra_simps)
  then have b: "new_Block contents = Some \<lparr>blk_data = data, blk_size = length data, restart_offset = of_nat (off n), owned = heap_allocated contents\<rparr>"
    unfolding new_Block_def Let_def assms NumRestarts_def w using length_data c by simp
  have pos: "(of_nat (length rs) :: u32) > 0" using restart_count c by (simp add: word_gt_0 unat_eq_0 [symmetric])
  then obtain it where it: "new_block_iter data (of_nat (off n)) (of_nat (length rs)) = Some it" by (simp add: new_block_iter_def)
  have nz: "(of_nat (length rs) :: u32) \<noteq> 0" using pos by auto
  show ?thesis
    using b it fresh_at [OF it] length_data nz w by (simp add: Block_NewIterator_def NumRestarts_def)
qed

end

context sorted_block
begin

definition block_at :: "BlockIterator \<Rightarrow> nat \<Rightarrow> bool" where
  "block_at s i \<longleftrightarrow> (\<exists>it. s = Block_iterator it \<and> at_entry it i)"

lemma block_contract: "iterator_over (BlockIterator_ops c) c valid es block_at"
proof unfold_locales
  fix s i assume "block_at s i"
  then obtain it where s: "s = Block_iterator it" and at: "at_entry it i" by (auto simp: block_at_def)
  note defs = s BlockIterator_ops_def block_at_def Let_def
  show "i \<le> length es" using iter.at_le [OF at] .
  show "it_Valid (BlockIterator_ops c) s = (i < length es)" using iter.at_Valid [OF at] by (simp add: defs)
  show "it_status (BlockIterator_ops c) s = Some Status_OK" using iter.at_status [OF at] by (simp add: defs)
  show "\<exists>s'. it_SeekToFirst (BlockIterator_ops c) s = Some s' \<and> block_at s' 0" using iter.at_First [OF at] by (auto simp: defs)
  show "\<exists>s'. it_SeekToLast (BlockIterator_ops c) s = Some s' \<and> block_at s' (length es - 1)" using iter.at_Last [OF at] by (auto simp: defs)
  show "\<exists>s'. it_Seek (BlockIterator_ops c) t s = Some s' \<and> block_at s' (seek_index c t es)" if "valid t" for t
    using iter.at_Seek [OF at that] by (auto simp: defs)
  assume i: "i < length es"
  show "it_key (BlockIterator_ops c) s = Some (fst (es ! i))" using iter.at_key [OF at i] by (simp add: defs)
  show "it_value (BlockIterator_ops c) s = Some (snd (es ! i))" using iter.at_value [OF at i] by (simp add: defs)
  show "\<exists>s'. it_Next (BlockIterator_ops c) s = Some s' \<and> block_at s' (Suc i)" using iter.at_Next [OF at i] by (auto simp: defs)
  show "\<exists>s'. it_Prev (BlockIterator_ops c) s = Some s' \<and> block_at s' (if i = 0 then length es else i - 1)"
    using iter.at_Prev [OF at i] by (auto simp: defs split del: if_split)
qed

end

text \<open>
  A builder with the entries it has, and a finished block of entries. A block of sorted entries, opened,
  has an iterator that keeps the contract for these entries, whatever options it was built with.
\<close>

definition building :: "Options \<Rightarrow> BlockBuilder \<Rightarrow> (slice \<times> slice) list \<Rightarrow> bool" where
  "building opts b es \<longleftrightarrow> (\<exists>ls rs. builder_inv opts b ls rs \<and> map e_pair ls = es)"

definition stored_block :: "slice \<Rightarrow> (slice \<times> slice) list \<Rightarrow> bool" where
  "stored_block bytes es \<longleftrightarrow> (\<exists>opts b. building opts b es \<and> bytes = fst (bb_Finish b))"

lemma new_building: "new_BlockBuilder opts = Some b \<Longrightarrow> building opts b []"
  using new_builder by (auto simp: building_def)

lemma reset_building: "1 \<le> block_restart_interval opts \<Longrightarrow> building opts (bb_Reset b) []"
  using reset_builder by (auto simp: building_def)

lemma building_empty: "building opts b es \<Longrightarrow> bb_empty b \<longleftrightarrow> es = []"
  using buffer_empty by (auto simp: building_def bb_empty_def)

lemma building_finished: "building opts b es \<Longrightarrow> stored_block (fst (bb_Finish b)) es"
  by (auto simp: stored_block_def)

lemma building_Add:
  assumes b: "building opts b es" and up: "es \<noteq> [] \<Longrightarrow> \<exists>r. Compare (opt_comparator opts) k (fst (last es)) = Some r \<and> r > 0"
  shows "\<exists>b'. bb_Add opts b k v = Some b' \<and> building opts b' (es @ [(k, v)])"
proof -
  obtain ls rs where ls: "builder_inv opts b ls rs" "map e_pair ls = es" using b by (auto simp: building_def)
  have "ls \<noteq> [] \<Longrightarrow> prev_key ls (length ls) = fst (last es)"
    using ls(2) by (cases ls rule: rev_cases) (auto simp: prev_key_def nth_append e_key_def)
  then have "ls \<noteq> [] \<Longrightarrow> \<exists>r. Compare (opt_comparator opts) k (prev_key ls (length ls)) = Some r \<and> r > 0" using up ls(2) by auto
  then obtain b' s rs' where "bb_Add opts b k v = Some b'" "builder_inv opts b' (ls @ [(k, v, s)]) rs'" using Add_inv [OF ls(1)] by blast
  moreover have "map e_pair (ls @ [(k, v, s)]) = es @ [(k, v)]" using ls(2) by simp
  ultimately show ?thesis unfolding building_def by blast
qed

lemma built_block:
  assumes cmp: "comparator (Compare c) valid" and stored: "stored_block bytes es"
    and keys: "sorted_wrt (less_key (Compare c)) (map fst es)" "\<forall>k \<in> set (map fst es). valid k"
    and size: "length bytes < 2 ^ 32" and data: "bc_data contents = bytes"
  shows "\<exists>blk s at. new_Block contents = Some blk \<and> blk_size blk = length (bc_data contents) \<and> Block_NewIterator blk = Some s
    \<and> iterator_over (BlockIterator_ops c) c valid es at \<and> at s (length es) \<and> length es \<le> length (bc_data contents)"
proof -
  obtain opts b ls rs where b: "builder_inv opts b ls rs" "map e_pair ls = es" "bytes = fst (bb_Finish b)"
    using stored by (auto simp: stored_block_def building_def)
  have fin: "bytes = block_bytes ls rs" using Finish_bytes [OF b(1)] b(3) by simp
  have lay: "block_layout ls rs (bc_data contents)"
    by unfold_locales (use b(1) size data fin in \<open>simp_all add: builder_inv_def\<close>)
  have k: "map e_key ls = map fst es" by (rule builder_keys [OF b(2)])
  have v: "\<forall>e \<in> set ls. valid (e_key e)" using keys(2) unfolding k [symmetric] by simp
  have sb: "sorted_block ls rs (bc_data contents) c valid"
    by (intro sorted_block.intro lay cmp sorted_block_axioms.intro v) (use keys(1) k in simp)
  obtain blk it where blk: "new_Block contents = Some blk" "blk_size blk = length (bc_data contents)"
      "Block_NewIterator blk = Some (Block_iterator it)" "block_layout.at_entry ls rs (bc_data contents) it (length ls)"
    using block_layout.new_Block_layout [OF lay refl] by blast
  have len: "length ls = length es" using b(2) by auto
  have "sorted_block.block_at ls rs (bc_data contents) (Block_iterator it) (length es)"
    using blk(4) len sorted_block.block_at_def [OF sb] by auto
  moreover have "length es \<le> length (bc_data contents)" using block_layout.fuel_enough [OF lay order_refl] len by simp
  moreover have "iterator_over (BlockIterator_ops c) c valid es (sorted_block.block_at ls rs (bc_data contents))"
    using sorted_block.block_contract [OF sb] b(2) by simp
  ultimately show ?thesis using blk(1-3) by blast
qed

text \<open>
  The same from the start: entries added to a new builder. The iterator starts behind the last entry.
\<close>

lemma built_entries:
  assumes cmp: "comparator (Compare (opt_comparator opts)) valid" and interval: "1 \<le> block_restart_interval opts"
    and keys: "sorted_wrt (less_key (Compare (opt_comparator opts))) (map fst es)" "\<forall>k \<in> set (map fst es). valid k"
  shows "\<exists>b0 b. new_BlockBuilder opts = Some b0 \<and> add_all opts b0 es = Some b \<and>
    (length (fst (bb_Finish b)) < 2 ^ 32 \<longrightarrow> (\<forall>contents. bc_data contents = fst (bb_Finish b) \<longrightarrow>
      (\<exists>blk s at. new_Block contents = Some blk \<and> Block_NewIterator blk = Some s
         \<and> iterator_over (BlockIterator_ops (opt_comparator opts)) (opt_comparator opts) valid es at \<and> at s (length es)
         \<and> length es \<le> length (bc_data contents))))"
proof -
  obtain b0 where b0: "new_BlockBuilder opts = Some b0" using interval by (simp add: new_BlockBuilder_def)
  obtain b ls rs where b: "add_all opts b0 es = Some b" "builder_inv opts b ls rs" "map e_pair ls = es"
    using add_all_inv [OF cmp new_builder [OF b0], of es] keys by auto
  have "stored_block (fst (bb_Finish b)) es" using b(2,3) by (auto simp: stored_block_def building_def)
  then have "\<exists>blk s at. new_Block contents = Some blk \<and> Block_NewIterator blk = Some s
         \<and> iterator_over (BlockIterator_ops (opt_comparator opts)) (opt_comparator opts) valid es at \<and> at s (length es)
         \<and> length es \<le> length (bc_data contents)"
    if "length (fst (bb_Finish b)) < 2 ^ 32" "bc_data contents = fst (bb_Finish b)" for contents
    using built_block [OF cmp _ keys that] by blast
  then show ?thesis using b0 b(1) by blast
qed

section \<open>What a client reads\<close>

text \<open>The calls of a client that opens a block and moves its iterator.\<close>

definition read_forward :: "Comparator \<Rightarrow> BlockContents \<Rightarrow> (slice \<times> slice) list option" where
  "read_forward c contents = do {
     blk \<leftarrow> new_Block contents;
     s \<leftarrow> Block_NewIterator blk;
     s1 \<leftarrow> it_SeekToFirst (BlockIterator_ops c) s;
     (r, s2) \<leftarrow> scan (length (bc_data contents)) (BlockIterator_ops c) (it_Next (BlockIterator_ops c)) s1;
     if it_status (BlockIterator_ops c) s2 = Some Status_OK then Some r else None
   }"

definition read_backward :: "Comparator \<Rightarrow> BlockContents \<Rightarrow> (slice \<times> slice) list option" where
  "read_backward c contents = do {
     blk \<leftarrow> new_Block contents;
     s \<leftarrow> Block_NewIterator blk;
     s1 \<leftarrow> it_SeekToLast (BlockIterator_ops c) s;
     (r, s2) \<leftarrow> scan (length (bc_data contents)) (BlockIterator_ops c) (it_Prev (BlockIterator_ops c)) s1;
     if it_status (BlockIterator_ops c) s2 = Some Status_OK then Some r else None
   }"

definition read_from :: "Comparator \<Rightarrow> slice \<Rightarrow> BlockContents \<Rightarrow> (slice \<times> slice) list option" where
  "read_from c target contents = do {
     blk \<leftarrow> new_Block contents;
     s \<leftarrow> Block_NewIterator blk;
     s1 \<leftarrow> it_Seek (BlockIterator_ops c) target s;
     (r, s2) \<leftarrow> scan (length (bc_data contents)) (BlockIterator_ops c) (it_Next (BlockIterator_ops c)) s1;
     if it_status (BlockIterator_ops c) s2 = Some Status_OK then Some r else None
   }"

lemma read_contract:
  assumes blk: "new_Block contents = Some blk" "Block_NewIterator blk = Some s"
    and it: "iterator_over (BlockIterator_ops c) c valid es at" "at s (length es)" and len: "length es \<le> length (bc_data contents)" and t: "valid target"
  shows "read_forward c contents = Some es" "read_backward c contents = Some (rev es)"
    "read_from c target contents = Some (dropWhile (\<lambda>e. less_key (Compare c) (fst e) target) es)"
proof -
  let ?ops = "BlockIterator_ops c"
  note st = iterator_over.at_status [OF it(1)]
  obtain s1 where s1: "it_SeekToFirst ?ops s = Some s1" "at s1 0" using iterator_over.at_First [OF it] by blast
  obtain s2 where "scan (length (bc_data contents)) ?ops (it_Next ?ops) s1 = Some (drop 0 es, s2)" "at s2 (length es)"
    using iterator_over.entries_forward [OF it(1) s1(2), of "length (bc_data contents)"] len by auto
  then show "read_forward c contents = Some es" using blk s1(1) st by (simp add: read_forward_def)
  obtain s3 where s3: "it_Seek ?ops target s = Some s3" "at s3 (seek_index c target es)" using iterator_over.at_Seek [OF it t] by blast
  have "length es - seek_index c target es \<le> length (bc_data contents)" using len by linarith
  then obtain s4 where "scan (length (bc_data contents)) ?ops (it_Next ?ops) s3 = Some (drop (seek_index c target es) es, s4)" "at s4 (length es)"
    using iterator_over.entries_forward [OF it(1) s3(2)] by blast
  then show "read_from c target contents = Some (dropWhile (\<lambda>e. less_key (Compare c) (fst e) target) es)"
    using blk s3(1) st by (simp add: read_from_def seek_index_def dropWhile_eq_drop)
  obtain s5 where s5: "it_SeekToLast ?ops s = Some s5" "at s5 (length es - 1)" using iterator_over.at_Last [OF it] by blast
  have "\<exists>s6. scan (length (bc_data contents)) ?ops (it_Prev ?ops) s5 = Some (rev es, s6) \<and> at s6 (length es)"
  proof (cases "es = []")
    case True
    then show ?thesis using s5(2) iterator_over.at_Valid [OF it(1) s5(2)] by (simp add: scan.simps)
  next
    case False
    then have "0 < length es" by simp
    then have "length es - 1 < length es" "length es - 1 < length (bc_data contents)" "Suc (length es - 1) = length es" using len by linarith+
    then show ?thesis using iterator_over.entries_backward [OF it(1) s5(2)] by fastforce
  qed
  then show "read_backward c contents = Some (rev es)" using blk s5(1) st by (auto simp: read_backward_def)
qed

text \<open>
  C17: A block is read as it was built. Entries are added in the order of their internal keys, with any restart
  interval; when the block is smaller than 4 GB, it opens, its iterator gives the entries
  forwards and backwards, and a search followed by a scan gives the entries from the first key on that is
  not below the target. Keys are rebuilt from their shared prefixes, no read leaves the block, and
  the status stays good.
\<close>

theorem block_roundtrip:
  assumes "opt_comparator opts = InternalKeyComparator BytewiseComparator" and "1 \<le> block_restart_interval opts"
    and "sorted_wrt (less_key (Compare (opt_comparator opts))) (map fst es)" and "\<forall>k \<in> set (map fst es). 8 \<le> length k" and "8 \<le> length target"
  shows "\<exists>b0 b. new_BlockBuilder opts = Some b0 \<and> add_all opts b0 es = Some b \<and>
    (length (fst (bb_Finish b)) < 2 ^ 32 \<longrightarrow> (\<forall>contents. bc_data contents = fst (bb_Finish b) \<longrightarrow>
       read_forward (opt_comparator opts) contents = Some es \<and> read_backward (opt_comparator opts) contents = Some (rev es) \<and>
       read_from (opt_comparator opts) target contents =
         Some (dropWhile (\<lambda>e. less_key (Compare (opt_comparator opts)) (fst e) target) es)))"
proof -
  have cmp: "comparator (Compare (opt_comparator opts)) (valid_internal (\<lambda>_. True))"
    unfolding assms(1) by (rule bytewise_keys.internal.comparator_axioms)
  have v: "\<forall>k \<in> set (map fst es). valid_internal (\<lambda>_. True) k" "valid_internal (\<lambda>_. True) target"
    using assms(4,5) by (simp_all add: valid_internal_def)
  let ?c = "opt_comparator opts"
  obtain b0 b where b: "new_BlockBuilder opts = Some b0" "add_all opts b0 es = Some b"
    and H: "length (fst (bb_Finish b)) < 2 ^ 32 \<longrightarrow> (\<forall>contents. bc_data contents = fst (bb_Finish b) \<longrightarrow>
      (\<exists>blk s at. new_Block contents = Some blk \<and> Block_NewIterator blk = Some s
         \<and> iterator_over (BlockIterator_ops ?c) ?c (valid_internal (\<lambda>_. True)) es at \<and> at s (length es) \<and> length es \<le> length (bc_data contents)))"
    using built_entries [OF cmp assms(2,3) v(1)] by blast
  have "read_forward ?c contents = Some es \<and> read_backward ?c contents = Some (rev es) \<and>
       read_from ?c target contents = Some (dropWhile (\<lambda>e. less_key (Compare ?c) (fst e) target) es)"
    if small: "length (fst (bb_Finish b)) < 2 ^ 32" and data: "bc_data contents = fst (bb_Finish b)" for contents
  proof -
    obtain blk s "at" where o: "new_Block contents = Some blk" "Block_NewIterator blk = Some s"
        "iterator_over (BlockIterator_ops ?c) ?c (valid_internal (\<lambda>_. True)) es at" "at s (length es)" "length es \<le> length (bc_data contents)"
      using H small data by blast
    show ?thesis using read_contract [OF o(1,2) o(3) o(4) o(5) v(2)] by blast
  qed
  then show ?thesis using b by blast
qed

theorem block_roundtrip_witness:
  "\<exists>b0 b. new_BlockBuilder (new_Options\<lparr>opt_comparator := InternalKeyComparator BytewiseComparator\<rparr>) = Some b0 \<and>
    add_all (new_Options\<lparr>opt_comparator := InternalKeyComparator BytewiseComparator\<rparr>) b0 [(ikey [97, 98] 5 1, [1]), (ikey [97, 99] 7 1, [2])] = Some b"
  using block_roundtrip [of "new_Options\<lparr>opt_comparator := InternalKeyComparator BytewiseComparator\<rparr>"
      "[(ikey [97, 98] 5 1, [1]), (ikey [97, 99] 7 1, [2])]" "ikey [97] 5 1"]
  by (auto simp: new_Options_def InternalKeyComparator_def less_internal bytewise_less length_ikey)

section \<open>Instances of the contracts\<close>

text \<open>The empty iterator, and a block of three entries with two restart points.\<close>

interpretation empty_iterator: iterator_over EmptyIterator BytewiseComparator "\<lambda>_. True" "[]" "\<lambda>s i. s = Status_OK \<and> i = 0"
  by unfold_locales (simp_all add: EmptyIterator_def seek_index_def)

definition small_entries :: "entry list" where
  "small_entries = [([97, 98], [1], 0), ([97, 99], [2], 1), ([98], [3], 0)]"

interpretation small_block: sorted_block small_entries "[0, 2]" "block_bytes small_entries [0, 2]" BytewiseComparator "\<lambda>_. True"
proof (intro sorted_block.intro sorted_block_axioms.intro block_layout.intro)
  show "chained small_entries" by (auto simp: chained_def small_entries_def prev_key_def e_shared_def e_key_def less_Suc_eq)
  show "restarts_ok small_entries [0, 2]" by (auto simp: restarts_ok_def small_entries_def e_shared_def)
  have "length (block_bytes small_entries [0, 2]) = 28" by code_simp
  then show "length (block_bytes small_entries [0, 2]) < 2 ^ 32" by simp
  show "comparator (Compare BytewiseComparator) (\<lambda>_. True)" by (rule bytewise.comparator_axioms)
  show "sorted_wrt (less_key (Compare BytewiseComparator)) (map e_key small_entries)"
    by (simp add: small_entries_def e_key_def bytewise_less)
qed simp_all

end
