(* ===== verification/LdbMergeProps.thy ===== *)
theory LdbMergeProps
  imports LdbMerger LdbWalk LdbBlockBuild
begin

text \<open>
  What \<open>NewMergingIterator\<close> makes is an iterator over the entries of its children in order, whether there are no
  children, one or many. The instance merges two blocks.
\<close>

context merging
begin

definition childless :: bool where
  "childless \<longleftrightarrow> its = []"

fun merged_at :: "'s MergedIterator \<Rightarrow> nat \<Rightarrow> bool" where
  "merged_at (Empty_merged st) i \<longleftrightarrow> childless \<and> st = Status_OK \<and> i = 0"
| "merged_at (One_merged s) i \<longleftrightarrow> length its = 1 \<and> ats 0 s i"
| "merged_at (Many_merged m) i \<longleftrightarrow> mg_at m i"

lemma no_entries: "childless \<Longrightarrow> es = []"
  using count entries by (simp add: childless_def)

lemma no_child: "childless \<Longrightarrow> iterator_over EmptyIterator c valid es (\<lambda>s i. s = Status_OK \<and> i = 0)"
  by (simp add: no_entries) (unfold_locales; simp add: EmptyIterator_def seek_index_def)

lemma one_list: "length its = 1 \<Longrightarrow> lists ! 0 = es"
proof -
  assume one: "length its = 1"
  then obtain l where l: "lists = [l]" using count by (cases lists) auto
  have le: "set l = set es" using es_set l by simp
  let ?R = "\<lambda>a b. lt (fst a) (fst b)"
  have "l = es"
  proof (rule sorted_unique [of ?R])
    show "sorted_wrt ?R l" using list_sorted [of 0] one l by (simp add: sorted_wrt_map)
    show "sorted_wrt ?R es" using sorted by (simp add: sorted_wrt_map)
    show "set l = set es" by (rule le)
    have v: "valid (fst a)" if "a \<in> set l" for a using that unfolding le by (rule keys)
    show "\<not> lt (fst a) (fst a)" if "a \<in> set l" for a by (rule less_irrefl [OF v [OF that]])
    show "\<not> lt (fst b) (fst a)" if "a \<in> set l" "b \<in> set l" "lt (fst a) (fst b)" for a b
      using less_trans [OF v [OF that(1)] v [OF that(2)] v [OF that(1)] that(3)] less_irrefl [OF v [OF that(1)]] by blast
  qed
  then show ?thesis by (simp add: l)
qed

lemma one_child: "length its = 1 \<Longrightarrow> iterator_over (its ! 0) c valid es (ats 0)"
  using child [of 0] one_list by simp

lemma one_or_many:
  assumes "merged_at m i"
  obtains (none) st where "m = Empty_merged st" "childless" "st = Status_OK \<and> i = 0"
    | (one) s where "m = One_merged s" "length its = 1" "ats 0 s i"
    | (many) x where "m = Many_merged x" "mg_at x i"
  using assms by (cases m) auto

lemmas made_simps = MergedIterator_ops_def Let_def

lemma made_contract: "iterator_over (MergedIterator_ops c its) c valid es merged_at"
proof
  fix m i assume "merged_at m i"
  then have "i \<le> length es \<and> (it_Valid (MergedIterator_ops c its) m \<longleftrightarrow> i < length es) \<and> it_status (MergedIterator_ops c its) m = Some Status_OK
    \<and> (\<exists>s'. it_SeekToFirst (MergedIterator_ops c its) m = Some s' \<and> merged_at s' 0)
    \<and> (\<exists>s'. it_SeekToLast (MergedIterator_ops c its) m = Some s' \<and> merged_at s' (length es - 1))
    \<and> (\<forall>x. valid x \<longrightarrow> (\<exists>s'. it_Seek (MergedIterator_ops c its) x m = Some s' \<and> merged_at s' (seek_index c x es)))"
  proof (cases rule: one_or_many)
    case (none st)
    note f = iterator_over.at_le [OF no_child [OF none(2)] none(3)] iterator_over.at_Valid [OF no_child [OF none(2)] none(3)]
      iterator_over.at_status [OF no_child [OF none(2)] none(3)] iterator_over.at_First [OF no_child [OF none(2)] none(3)]
      iterator_over.at_Last [OF no_child [OF none(2)] none(3)] iterator_over.at_Seek [OF no_child [OF none(2)] none(3)]
    show ?thesis using f none(1,2) by (auto simp: made_simps)
  next
    case (one s)
    note f = iterator_over.at_le [OF one_child [OF one(2)] one(3)] iterator_over.at_Valid [OF one_child [OF one(2)] one(3)]
      iterator_over.at_status [OF one_child [OF one(2)] one(3)] iterator_over.at_First [OF one_child [OF one(2)] one(3)]
      iterator_over.at_Last [OF one_child [OF one(2)] one(3)] iterator_over.at_Seek [OF one_child [OF one(2)] one(3)]
    show ?thesis using f one(1,2) by (fastforce simp: made_simps)
  next
    case (many x)
    note f = merged.at_le [OF many(2)] merged.at_Valid [OF many(2)] merged.at_status [OF many(2)] merged.at_First [OF many(2)]
      merged.at_Last [OF many(2)] merged.at_Seek [OF many(2)]
    show ?thesis using f many(1) by (fastforce simp: made_simps)
  qed
  then show "i \<le> length es" "it_Valid (MergedIterator_ops c its) m \<longleftrightarrow> i < length es" "it_status (MergedIterator_ops c its) m = Some Status_OK"
    "\<exists>s'. it_SeekToFirst (MergedIterator_ops c its) m = Some s' \<and> merged_at s' 0"
    "\<exists>s'. it_SeekToLast (MergedIterator_ops c its) m = Some s' \<and> merged_at s' (length es - 1)"
    "\<And>x. valid x \<Longrightarrow> \<exists>s'. it_Seek (MergedIterator_ops c its) x m = Some s' \<and> merged_at s' (seek_index c x es)"
    by blast+
next
  fix m i assume m: "merged_at m i" and i: "i < length es"
  from m have "it_key (MergedIterator_ops c its) m = Some (fst (es ! i)) \<and> it_value (MergedIterator_ops c its) m = Some (snd (es ! i))
    \<and> (\<exists>s'. it_Next (MergedIterator_ops c its) m = Some s' \<and> merged_at s' (Suc i))
    \<and> (\<exists>s'. it_Prev (MergedIterator_ops c its) m = Some s' \<and> merged_at s' (if i = 0 then length es else i - 1))"
  proof (cases rule: one_or_many)
    case (none st)
    then show ?thesis using i no_entries by simp
  next
    case (one s)
    note f = iterator_over.at_key [OF one_child [OF one(2)] one(3) i] iterator_over.at_value [OF one_child [OF one(2)] one(3) i]
      iterator_over.at_Next [OF one_child [OF one(2)] one(3) i] iterator_over.at_Prev [OF one_child [OF one(2)] one(3) i]
    show ?thesis using f one(1,2) by (fastforce simp: made_simps split del: if_split)
  next
    case (many x)
    note f = merged.at_key [OF many(2) i] merged.at_value [OF many(2) i] merged.at_Next [OF many(2) i] merged.at_Prev [OF many(2) i]
    show ?thesis using f many(1) by (fastforce simp: made_simps split del: if_split)
  qed
  then show "it_key (MergedIterator_ops c its) m = Some (fst (es ! i))" "it_value (MergedIterator_ops c its) m = Some (snd (es ! i))"
    "\<exists>s'. it_Next (MergedIterator_ops c its) m = Some s' \<and> merged_at s' (Suc i)"
    "\<exists>s'. it_Prev (MergedIterator_ops c its) m = Some s' \<and> merged_at s' (if i = 0 then length es else i - 1)"
    by blast+
qed

lemma new_made:
  assumes s: "length states = length its" "\<And>k. k < length its \<Longrightarrow> ats k (states ! k) (length (lists ! k))"
  shows "\<exists>m. NewMergingIterator its states = Some m \<and> merged_at m (length es)"
proof (cases "length its \<le> 1")
  case True
  then consider "childless" | "length its = 1" unfolding childless_def by (cases its) auto
  then show ?thesis
  proof cases
    case 1
    then have "length states = 0" using s(1) by (simp add: childless_def)
    then have "NewMergingIterator its states = Some (Empty_merged Status_OK)" by (simp add: NewMergingIterator_def)
    moreover have l: "length es = 0" by (simp add: no_entries [OF 1])
    have "merged_at (Empty_merged Status_OK) (length es)" unfolding merged_at.simps l using 1 by blast
    ultimately show ?thesis by blast
  next
    case 2
    then show ?thesis using s(1) s(2) [of 0] one_list by (simp add: NewMergingIterator_def)
  qed
next
  case False
  then have "length states \<noteq> 0" "length states \<noteq> 1" using s(1) by auto
  moreover obtain m where "new_MergingIterator its states = Some m" "mg_at m (length es)" using new_at [OF s(1)] s(2) by blast
  ultimately show ?thesis by (simp add: NewMergingIterator_def)
qed

end

text \<open>
  C12: The merging iterator is an iterator over the merged list. Whatever calls a client makes after
  creating it, searches, steps and changes of direction in any order, it then shows the entry at the position these
  calls lead to in the sorted list of the entries of all children, or that there is none. The keys of all children
  are different, as internal keys are: when two children have a key in common, a step back from the second
  of its entries passes over the first, and the iterator is invalid when there is no smaller key.
\<close>

theorem merging_iterator:
  assumes "merging c valid its parts ats es" and "length states = length its"
    and "\<forall>k < length its. ats k (states ! k) (length (parts ! k))"
    and "\<forall>x \<in> set xs. target_ok valid x" and "walk (step_position c es) xs (length es) = Some i"
  shows "\<exists>m. NewMergingIterator its states = Some m \<and>
    do { m' \<leftarrow> walk (step_iterator (MergedIterator_ops c its)) xs m; observe (MergedIterator_ops c its) m' } =
      Some (if i < length es then Some (es ! i) else None, Status_OK)"
  using merging.new_made [OF assms(1,2)] assms(3) iterator_over.walk_observe [OF merging.made_contract [OF assms(1)] _ assms(4,5)]
  by blast

section \<open>An instance\<close>

definition between_entries :: "entry list" where
  "between_entries = [([97, 98, 99], [4], 0), ([99], [5], 0)]"

interpretation between_block: sorted_block between_entries "[0]" "block_bytes between_entries [0]" BytewiseComparator "\<lambda>_. True"
proof (intro sorted_block.intro sorted_block_axioms.intro block_layout.intro)
  show "chained between_entries" by (auto simp: chained_def between_entries_def prev_key_def e_shared_def e_key_def less_Suc_eq)
  show "restarts_ok between_entries [0]" by (auto simp: restarts_ok_def between_entries_def e_shared_def)
  have "length (block_bytes between_entries [0]) = 20" by code_simp
  then show "length (block_bytes between_entries [0]) < 2 ^ 32" by simp
  show "comparator (Compare BytewiseComparator) (\<lambda>_. True)" by (rule bytewise.comparator_axioms)
  show "sorted_wrt (less_key (Compare BytewiseComparator)) (map e_key between_entries)"
    by (simp add: between_entries_def e_key_def bytewise_less)
qed simp_all

definition two_ats :: "nat \<Rightarrow> BlockIterator \<Rightarrow> nat \<Rightarrow> bool" where
  "two_ats k = (if k = 0 then small_block.block_at else between_block.block_at)"

definition two_merged :: "(slice \<times> slice) list" where
  "two_merged = [([97, 98], [1]), ([97, 98, 99], [4]), ([97, 99], [2]), ([98], [3]), ([99], [5])]"

lemma two_lists:
  "map e_pair small_entries = [([97, 98], [1]), ([97, 99], [2]), ([98], [3])]" "map e_pair between_entries = [([97, 98, 99], [4]), ([99], [5])]"
  by (simp_all add: small_entries_def between_entries_def e_pair_def e_key_def e_value_def)

interpretation two_blocks: merging BytewiseComparator "\<lambda>_. True" "[BlockIterator_ops BytewiseComparator, BlockIterator_ops BytewiseComparator]"
  "[map e_pair small_entries, map e_pair between_entries]" two_ats two_merged
proof (intro merging.intro merging_axioms.intro)
  show "comparator (Compare BytewiseComparator) (\<lambda>_. True)" by (rule bytewise.comparator_axioms)
  show "sorted_wrt (less_key (Compare BytewiseComparator)) (map fst two_merged)" by (simp add: two_merged_def bytewise_less)
  show "mset two_merged = mset (concat [map e_pair small_entries, map e_pair between_entries])"
    by (simp add: two_lists two_merged_def)
next
  fix k assume k: "k < length [BlockIterator_ops BytewiseComparator, BlockIterator_ops BytewiseComparator]"
  then have "k = 0 \<or> k = 1" by auto
  then show "iterator_over ([BlockIterator_ops BytewiseComparator, BlockIterator_ops BytewiseComparator] ! k) BytewiseComparator (\<lambda>_. True)
      ([map e_pair small_entries, map e_pair between_entries] ! k) (two_ats k)"
    "sorted_wrt (less_key (Compare BytewiseComparator)) (map fst ([map e_pair small_entries, map e_pair between_entries] ! k))"
    using small_block.block_contract between_block.block_contract by (auto simp: two_ats_def two_lists bytewise_less)
qed simp_all

text \<open>Forward over two blocks and back: the second and the third entry are in different blocks.\<close>

theorem merging_iterator_witness:
  "\<exists>s1 s2 m. NewMergingIterator [BlockIterator_ops BytewiseComparator, BlockIterator_ops BytewiseComparator] [s1, s2] = Some m \<and>
    do { m' \<leftarrow> walk (step_iterator (MergedIterator_ops BytewiseComparator [BlockIterator_ops BytewiseComparator, BlockIterator_ops BytewiseComparator]))
           [To_first, Forward, Forward, Backward, Backward] m;
         observe (MergedIterator_ops BytewiseComparator [BlockIterator_ops BytewiseComparator, BlockIterator_ops BytewiseComparator]) m' }
      = Some (Some ([97, 98], [1]), Status_OK)"
proof -
  obtain s1 where s1: "small_block.block_at s1 (length (map e_pair small_entries))"
    using small_block.new_Block_layout [of "\<lparr>bc_data = block_bytes small_entries [0, 2], cachable = False, heap_allocated = False\<rparr>"]
    by (auto simp: small_block.block_at_def)
  obtain s2 where s2: "between_block.block_at s2 (length (map e_pair between_entries))"
    using between_block.new_Block_layout [of "\<lparr>bc_data = block_bytes between_entries [0], cachable = False, heap_allocated = False\<rparr>"]
    by (auto simp: between_block.block_at_def)
  have at: "\<forall>k < length [BlockIterator_ops BytewiseComparator, BlockIterator_ops BytewiseComparator].
      two_ats k ([s1, s2] ! k) (length ([map e_pair small_entries, map e_pair between_entries] ! k))"
    using s1 s2 by (auto simp: two_ats_def less_Suc_eq)
  have w: "walk (step_position BytewiseComparator two_merged) [To_first, Forward, Forward, Backward, Backward] (length two_merged) = Some 0"
    by (simp add: two_merged_def)
  from merging_iterator [OF two_blocks.merging_axioms _ at _ w] show ?thesis by (auto simp: two_merged_def)
qed

end
