(* ===== verification/LdbBloom.thy ===== *)
theory LdbBloom
  imports LdbFormat
begin

text \<open>
  Filters of leveldb: the hash function (util/hash.cc) and the bloom filter (util/bloom.cc). The
  interface \<open>filter_policy\<close> is the contract of include/leveldb/filter_policy.h; the bloom filter and the
  wrapper for internal keys (db/dbformat.cc) are its instances.
\<close>

section \<open>The hash function\<close>

function Hash_loop :: "u32 \<Rightarrow> byte list \<Rightarrow> u32 \<times> byte list" where
  "Hash_loop h data =
     (case DecodeFixed32 data of
        None \<Rightarrow> (h, data)
      | Some w \<Rightarrow> let h1 = (h + w) * 0xc6a4a793 in Hash_loop (h1 XOR drop_bit 16 h1) (drop 4 data))"
  by auto
termination
  by (relation "measure (\<lambda>(h, data). length data)") (auto simp: DecodeFixed32_def split: if_splits)

declare Hash_loop.simps [simp del]

definition Hash_rest :: "u32 \<Rightarrow> byte list \<Rightarrow> u32" where
  "Hash_rest h data =
     (if data = [] then h
      else
        let h3 = (if length data = 3 then h + push_bit 16 (ucast (data ! 2)) else h);
            h2 = (if length data \<ge> 2 then h3 + push_bit 8 (ucast (data ! 1)) else h3);
            h1 = (h2 + ucast (data ! 0)) * 0xc6a4a793
        in h1 XOR drop_bit 24 h1)"

definition Hash :: "slice \<Rightarrow> u32 \<Rightarrow> u32" where
  "Hash data seed =
     (let h = seed XOR (of_nat (length data) * 0xc6a4a793);
          (h1, rest) = Hash_loop h data
      in Hash_rest h1 rest)"

section \<open>The bloom filter\<close>

definition BloomHash :: "slice \<Rightarrow> u32" where
  "BloomHash key = Hash key 0xbc9f1d34"

record BloomFilterPolicy =
  bits_per_key :: u64
  bloom_k :: u64

text \<open>
  The number of probes is the floating-point product of the number of bits and 0.69, cut to an integer. Below
  30 the product is never within the rounding error of an integer, and above it is cut to 30, so
  the exact quotient is the same. A negative product has no value of type \<open>size_t\<close>.
\<close>

definition new_BloomFilterPolicy :: "int \<Rightarrow> BloomFilterPolicy option" where
  "new_BloomFilterPolicy bits =
     (if bits < -1 then None
      else
        let k = (of_int (max 0 (bits * 69 div 100)) :: u64);
            k1 = (if k < 1 then 1 else k);
            k2 = (if k1 > 30 then 30 else k1)
        in Some \<lparr>bits_per_key = of_int bits, bloom_k = k2\<rparr>)"

definition bloom_delta :: "u32 \<Rightarrow> u32" where
  "bloom_delta h = drop_bit 17 h OR push_bit 15 h"

definition bloom_bitpos :: "u32 \<Rightarrow> u64 \<Rightarrow> u32" where
  "bloom_bitpos h bits = ucast (ucast h mod bits)"

fun set_probes :: "nat \<Rightarrow> u64 \<Rightarrow> u32 \<Rightarrow> u32 \<Rightarrow> byte list \<Rightarrow> byte list option" where
  "set_probes 0 bits h delta array = Some array"
| "set_probes (Suc n) bits h delta array =
     (if bits = 0 then None
      else
        let bitpos = bloom_bitpos h bits; i = unat (bitpos div 8) in
        if i < length array
        then set_probes n bits (h + delta) delta (array[i := array ! i OR push_bit (unat (bitpos mod 8)) 1])
        else None)"

fun set_all_probes :: "nat \<Rightarrow> u64 \<Rightarrow> slice list \<Rightarrow> byte list \<Rightarrow> byte list option" where
  "set_all_probes k bits [] array = Some array"
| "set_all_probes k bits (key # keys) array = do {
     let h = BloomHash key;
     array1 \<leftarrow> set_probes k bits h (bloom_delta h) array;
     set_all_probes k bits keys array1
   }"

definition bloom_CreateFilter :: "BloomFilterPolicy \<Rightarrow> slice list \<Rightarrow> slice \<Rightarrow> slice option" where
  "bloom_CreateFilter p keys dst =
     (let bits0 = of_nat (length keys) * bits_per_key p;
          bits1 = (if bits0 < 64 then 64 else bits0);
          bytes = (bits1 + 7) div 8;
          bits = bytes * 8
      in do {
        array \<leftarrow> set_all_probes (unat (bloom_k p)) bits keys (replicate (unat bytes) 0);
        Some (dst @ array @ [ucast (bloom_k p)])
      })"

fun match_probes :: "nat \<Rightarrow> u64 \<Rightarrow> u32 \<Rightarrow> u32 \<Rightarrow> byte list \<Rightarrow> bool option" where
  "match_probes 0 bits h delta array = Some True"
| "match_probes (Suc n) bits h delta array =
     (if bits = 0 then None
      else
        let bitpos = bloom_bitpos h bits in do {
          b \<leftarrow> nth_opt array (unat (bitpos div 8));
          if b AND push_bit (unat (bitpos mod 8)) 1 = 0 then Some False
          else match_probes n bits (h + delta) delta array
        })"

definition bloom_KeyMayMatch :: "slice \<Rightarrow> slice \<Rightarrow> bool option" where
  "bloom_KeyMayMatch key bloom_filter =
     (let len = length bloom_filter in
      if len < 2 then Some False
      else
        let bits = (of_nat (len - 1) :: u64) * 8;
            k = (scast (bloom_filter ! (len - 1)) :: u64)
        in
        if k > 30 then Some True
        else let h = BloomHash key in match_probes (unat k) bits h (bloom_delta h) bloom_filter)"

definition bloom_policy :: "BloomFilterPolicy \<Rightarrow> FilterPolicy" where
  "bloom_policy p = \<lparr>CreateFilter = bloom_CreateFilter p, KeyMayMatch = bloom_KeyMayMatch\<rparr>"

definition NewBloomFilterPolicy :: "int \<Rightarrow> FilterPolicy option" where
  "NewBloomFilterPolicy bits = do { p \<leftarrow> new_BloomFilterPolicy bits; Some (bloom_policy p) }"

section \<open>The probes of a key stay set\<close>

definition covers :: "byte list \<Rightarrow> byte list \<Rightarrow> bool" where
  "covers a b \<longleftrightarrow> length a = length b \<and> (\<forall>i < length a. \<forall>n. bit (b ! i) n \<longrightarrow> bit (a ! i) n)"

lemma covers_refl: "covers a a"
  by (simp add: covers_def)

lemma covers_trans: "covers a b \<Longrightarrow> covers b c \<Longrightarrow> covers a c"
  by (simp add: covers_def)

lemma covers_update: "i < length a \<Longrightarrow> covers (a[i := a ! i OR x]) a"
  by (auto simp: covers_def nth_list_update bit_or_iff)

lemma probe_bit: "b AND 2 ^ n = 0 \<longleftrightarrow> \<not> bit (b :: byte) n"
  by (rule and_exp_eq_0_iff_not_bit)

lemma bitpos_bound:
  assumes "bits = of_nat n * 8" "n < 2 ^ 60" "0 < n"
  shows "unat (bloom_bitpos h bits div 8) < n" "bits \<noteq> 0"
proof -
  have u: "unat bits = n * 8" unfolding assms(1) using assms(2) by (simp add: unat_mult_lem [THEN iffD1] unat_of_nat_small)
  then show "bits \<noteq> 0" using assms(3) by auto
  have "unat (bloom_bitpos h bits) \<le> unat (ucast h mod bits)"
    unfolding bloom_bitpos_def unat_ucast_mod by (rule mod_less_eq_dividend)
  also have "\<dots> < n * 8" using u assms(3) by (simp add: unat_mod)
  finally show "unat (bloom_bitpos h bits div 8) < n" by (simp add: unat_div less_mult_imp_div_less)
qed

lemma match_covers:
  assumes "match_probes n bits h d b = Some True" "covers a b"
  shows "match_probes n bits h d a = Some True"
  using assms
proof (induction n arbitrary: h)
  case (Suc n)
  then show ?case by (auto simp: Let_def nth_opt_def covers_def probe_bit split: if_splits)
qed simp

lemma set_probes_sets:
  assumes "bits = of_nat (length a) * 8" "length a < 2 ^ 60" "0 < length a"
  shows "\<exists>a'. set_probes n bits h d a = Some a' \<and> covers a' a \<and> match_probes n bits h d a' = Some True"
  using assms
proof (induction n arbitrary: h a)
  case 0
  then show ?case by (simp add: covers_refl)
next
  case (Suc n)
  let ?pos = "bloom_bitpos h bits"
  let ?i = "unat (?pos div 8)" and ?m = "2 ^ unat (?pos mod 8) :: byte"
  let ?a = "a[?i := a ! ?i OR ?m]"
  note b = bitpos_bound(1) [OF Suc.prems, of h] bitpos_bound(2) [OF Suc.prems]
  obtain a' where a': "set_probes n bits (h + d) d ?a = Some a'" "covers a' ?a" "match_probes n bits (h + d) d a' = Some True"
    using Suc.IH [of ?a "h + d"] Suc.prems by auto
  have cov: "covers a' a" by (rule covers_trans [OF a'(2) covers_update [OF b(1)]])
  have small: "unat (?pos mod 8) < 8" by (simp add: unat_mod)
  have "bit ?m (unat (?pos mod 8))" using small by (simp add: bit_exp_iff)
  then have "bit (?a ! ?i) (unat (?pos mod 8))" using b(1) by (simp add: bit_or_iff)
  moreover have "?i < length a'" using a'(2) b(1) by (simp add: covers_def)
  ultimately have "bit (a' ! ?i) (unat (?pos mod 8))" "?i < length a'" using a'(2) by (simp_all add: covers_def)
  then show ?case using a' cov b by (simp add: Let_def probe_bit)
qed

lemma set_all_probes_sets:
  assumes "bits = of_nat (length a) * 8" "length a < 2 ^ 60" "0 < length a"
  shows "\<exists>a'. set_all_probes k bits keys a = Some a' \<and> covers a' a \<and>
    (\<forall>key \<in> set keys. match_probes k bits (BloomHash key) (bloom_delta (BloomHash key)) a' = Some True)"
  using assms
proof (induction keys arbitrary: a)
  case Nil
  then show ?case by (simp add: covers_refl)
next
  case (Cons key keys)
  obtain a1 where a1: "set_probes k bits (BloomHash key) (bloom_delta (BloomHash key)) a = Some a1" "covers a1 a"
      "match_probes k bits (BloomHash key) (bloom_delta (BloomHash key)) a1 = Some True"
    using set_probes_sets [OF Cons.prems] by blast
  then have "length a1 = length a" by (simp add: covers_def)
  then obtain a2 where a2: "set_all_probes k bits keys a1 = Some a2" "covers a2 a1"
      "\<forall>key \<in> set keys. match_probes k bits (BloomHash key) (bloom_delta (BloomHash key)) a2 = Some True"
    using Cons.IH [of a1] Cons.prems by auto
  show ?case using a1 a2 match_covers [OF a1(3) a2(2)] covers_trans [OF a2(2) a1(2)] by (simp add: Let_def)
qed

lemma match_append: "match_probes n bits h d a = Some True \<Longrightarrow> match_probes n bits h d (a @ x) = Some True"
proof (induction n arbitrary: h)
  case (Suc n)
  then show ?case by (auto simp: Let_def nth_opt_def nth_append split: if_splits)
qed simp

text \<open>The size of the filter in bytes.\<close>

lemma bloom_bytes:
  assumes "0 \<le> b" "b < 2 ^ 31" "n < 2 ^ 31"
  defines "bits0 \<equiv> (of_nat n * of_int b :: u64)"
  shows "\<exists>m. 8 \<le> m \<and> m < 2 ^ 60 \<and> ((if bits0 < 64 then 64 else bits0) + 7) div 8 = of_nat m"
proof -
  have "nat b < 2 ^ 31" using assms(1,2) by (simp add: nat_less_iff)
  then have "n * nat b \<le> 2 ^ 31 * 2 ^ 31" using assms(3) by (intro mult_le_mono) auto
  then have le: "n * nat b \<le> 2 ^ 62" by simp
  have e0: "bits0 = of_nat (n * nat b)" using assms(1) by (simp add: bits0_def)
  have u0: "unat bits0 = n * nat b" unfolding e0 by (rule unat_of_nat_small) (use le in simp)
  let ?b1 = "if bits0 < 64 then 64 else bits0" and ?m = "(max 64 (n * nat b) + 7) div 8"
  have u1: "unat ?b1 = max 64 (n * nat b)" using u0 by (simp add: word_less_nat_alt max_def)
  have "max 64 (n * nat b) \<le> 2 ^ 62" using le by simp
  then have u2: "unat (?b1 + 7) = max 64 (n * nat b) + 7" unfolding unat_word_ariths u1 by simp
  have "unat ((?b1 + 7) div 8) = ?m" using u2 by (simp add: unat_div)
  then have "of_nat (unat ((?b1 + 7) div 8)) = (of_nat ?m :: u64)" by (rule arg_cong)
  then have "(?b1 + 7) div 8 = of_nat ?m" unfolding of_nat_unat ucast_id .
  moreover have "8 \<le> ?m" using div_le_mono [of 64 "max 64 (n * nat b) + 7" 8] by simp
  moreover have "?m < 2 ^ 60" by (rule less_mult_imp_div_less) (use \<open>max 64 (n * nat b) \<le> 2 ^ 62\<close> in simp)
  ultimately show ?thesis by blast
qed

lemma byte_small: "(k :: u64) \<le> 30 \<Longrightarrow> scast (ucast k :: byte) = k"
proof -
  assume "k \<le> 30"
  then have "unat k < 2 ^ 5" by (simp add: word_le_nat_alt)
  then have "bit k i \<Longrightarrow> i < 5" for i by (rule small_word_bits)
  from this [of 7] this show ?thesis by (intro bit_word_eqI) (force simp: bit_signed_iff bit_unsigned_iff min_def not_less)
qed

lemma new_policy_probes:
  assumes "0 \<le> b"
  shows "\<exists>k. new_BloomFilterPolicy b = Some \<lparr>bits_per_key = of_int b, bloom_k = k\<rparr> \<and> k \<le> 30"
  using assms by (auto simp: new_BloomFilterPolicy_def Let_def not_less)

lemma bloom_creates:
  assumes "0 \<le> b" "b < 2 ^ 31" "length keys < 2 ^ 31" "bits_per_key p = of_int b" "bloom_k p \<le> 30"
  shows "\<exists>f. bloom_CreateFilter p keys dst = Some (dst @ f) \<and> (\<forall>key \<in> set keys. bloom_KeyMayMatch key f = Some True)"
proof -
  let ?bits0 = "of_nat (length keys) * bits_per_key p"
  obtain m where m: "8 \<le> m" "m < 2 ^ 60" "((if ?bits0 < 64 then 64 else ?bits0) + 7) div 8 = of_nat m"
    using bloom_bytes [OF assms(1-3)] unfolding assms(4) by blast
  have um: "unat (of_nat m :: u64) = m" using m(2) by (intro unat_of_nat_small) simp
  let ?k = "unat (bloom_k p)" and ?a0 = "replicate m 0 :: byte list" and ?bits = "of_nat m * 8 :: u64"
  obtain a where a: "set_all_probes ?k ?bits keys ?a0 = Some a" "covers a ?a0"
      "\<forall>key \<in> set keys. match_probes ?k ?bits (BloomHash key) (bloom_delta (BloomHash key)) a = Some True"
    using set_all_probes_sets [of ?bits ?a0 ?k keys] m(1,2) by auto
  have len: "length a = m" using a(2) by (simp add: covers_def)
  have "bloom_CreateFilter p keys dst = Some (dst @ a @ [ucast (bloom_k p)])"
    unfolding bloom_CreateFilter_def Let_def m(3) um a(1) by simp
  moreover have "bloom_KeyMayMatch key (a @ [ucast (bloom_k p)]) = Some True" if "key \<in> set keys" for key
    using match_append [OF a(3) [rule_format, OF that]] m(1) assms(5)
    unfolding bloom_KeyMayMatch_def by (simp add: Let_def len nth_append byte_small)
  ultimately show ?thesis by blast
qed

lemma match_total:
  assumes "bits = of_nat n * 8" "n < 2 ^ 60" "0 < n" "n \<le> length a"
  shows "\<exists>r. match_probes k bits h d a = Some r"
proof (induction k arbitrary: h)
  case (Suc k)
  have "unat (bloom_bitpos h bits div 8) < length a" using bitpos_bound(1) [OF assms(1-3), of h] assms(4) by linarith
  then show ?case using bitpos_bound(2) [OF assms(1-3)] Suc.IH [of "h + d"] by (auto simp: Let_def)
qed auto

lemma KeyMayMatch_total: "length f < 2 ^ 60 \<Longrightarrow> \<exists>r. bloom_KeyMayMatch key f = Some r"
  using match_total [of "of_nat (length f - 1) * 8" "length f - 1" f] by (auto simp: bloom_KeyMayMatch_def Let_def)

lemma bloom_defined: "length f < 2 ^ 60 \<Longrightarrow> KeyMayMatch (bloom_policy p) key f \<noteq> None"
  using KeyMayMatch_total [of f key] by (auto simp: bloom_policy_def)

section \<open>The contract of a filter policy\<close>

text \<open>
  What include/leveldb/filter_policy.h asks of a policy: creating a filter appends it to the
  destination, and every key it was created from may match.
\<close>

locale filter_policy =
  fixes policy :: FilterPolicy and valid_key :: "slice \<Rightarrow> bool"
  assumes creates: "length keys < 2 ^ 31 \<Longrightarrow> (\<forall>k \<in> set keys. valid_key k) \<Longrightarrow>
      \<exists>f. CreateFilter policy keys dst = Some (dst @ f) \<and> (\<forall>k \<in> set keys. KeyMayMatch policy k f = Some True)"

text \<open>The wrapper for internal keys passes the contract on.\<close>

locale user_filter = filter_policy

lemma extract_all_map: "\<forall>k \<in> set keys. 8 \<le> length k \<Longrightarrow> extract_all keys = Some (map (\<lambda>k. take (length k - 8) k) keys)"
  by (induction keys) (auto simp: ExtractUserKey_def)

sublocale user_filter \<subseteq> internal_filter: filter_policy "InternalFilterPolicy policy"
  "\<lambda>k. 8 \<le> length k \<and> valid_key (take (length k - 8) k)"
proof unfold_locales
  fix keys :: "slice list" and dst :: slice
  assume l: "length keys < 2 ^ 31" and v: "\<forall>k \<in> set keys. 8 \<le> length k \<and> valid_key (take (length k - 8) k)"
  let ?us = "map (\<lambda>k. take (length k - 8) k) keys"
  have e: "extract_all keys = Some ?us" by (rule extract_all_map) (use v in blast)
  obtain f where "CreateFilter policy ?us dst = Some (dst @ f)" "\<forall>k \<in> set ?us. KeyMayMatch policy k f = Some True"
    using creates [of ?us dst] l v by auto
  then show "\<exists>f. CreateFilter (InternalFilterPolicy policy) keys dst = Some (dst @ f)
      \<and> (\<forall>k \<in> set keys. KeyMayMatch (InternalFilterPolicy policy) k f = Some True)"
    using e v by (intro exI [of _ f]) (auto simp: InternalFilterPolicy_def ExtractUserKey_def)
qed

text \<open>Bloom filters keep it, for any number of bits per key.\<close>

locale bloom_bits =
  fixes b :: int and p :: BloomFilterPolicy
  assumes bits: "0 \<le> b" "b < 2 ^ 31" "new_BloomFilterPolicy b = Some p"

sublocale bloom_bits \<subseteq> user_filter "bloom_policy p" "\<lambda>_. True"
proof unfold_locales
  fix keys :: "slice list" and dst :: slice
  assume "length keys < 2 ^ 31"
  moreover have "bits_per_key p = of_int b" "bloom_k p \<le> 30" using new_policy_probes [OF bits(1)] bits(3) by auto
  ultimately show "\<exists>f. CreateFilter (bloom_policy p) keys dst = Some (dst @ f) \<and> (\<forall>k \<in> set keys. KeyMayMatch (bloom_policy p) k f = Some True)"
    using bloom_creates [OF bits(1,2)] by (simp add: bloom_policy_def)
qed

context bloom_bits
begin

lemma matches_all: "length keys < 2 ^ 31 \<Longrightarrow>
    \<exists>f. CreateFilter (bloom_policy p) keys dst = Some (dst @ f) \<and> (\<forall>key \<in> set keys. KeyMayMatch (bloom_policy p) key f = Some True)"
  by (rule creates) simp_all

lemma internal_contract: "filter_policy (InternalFilterPolicy (bloom_policy p)) (\<lambda>k. 8 \<le> length k)"
  using internal_filter.filter_policy_axioms by simp

end

interpretation bloom_10: bloom_bits 10 "\<lparr>bits_per_key = 10, bloom_k = 6\<rparr>"
  by unfold_locales (simp_all add: new_BloomFilterPolicy_def Let_def)

text \<open>
  A bloom filter has no false negatives, for any number of bits per key: the filter is appended to
  the destination, and each key it was created from may match. The filter is never too small for
  its probes.
\<close>

theorem bloom_no_false_negatives:
  assumes "0 \<le> b" and "b < 2 ^ 31" and "length keys < 2 ^ 31"
  shows "\<exists>policy f. NewBloomFilterPolicy b = Some policy \<and> CreateFilter policy keys dst = Some (dst @ f) \<and>
    (\<forall>key \<in> set keys. KeyMayMatch policy key f = Some True)"
proof -
  obtain p where p: "new_BloomFilterPolicy b = Some p" using new_policy_probes [OF assms(1)] by blast
  have "bloom_bits b p" by unfold_locales (use assms p in simp_all)
  from bloom_bits.matches_all [OF this assms(3)] p show ?thesis by (simp add: NewBloomFilterPolicy_def)
qed

theorem bloom_no_false_negatives_witness:
  "\<exists>policy f. NewBloomFilterPolicy 10 = Some policy \<and> CreateFilter policy [[104], [105]] [7] = Some ([7] @ f) \<and>
    KeyMayMatch policy [104] f = Some True \<and> KeyMayMatch policy [105] f = Some True"
  using bloom_no_false_negatives [of 10 "[[104], [105]]" "[7]"] by auto

end
