(* ===== verification/LdbFilterBlock.thy ===== *)
theory LdbFilterBlock
  imports LdbBloom LdbTableFormat
begin

text \<open>
  The filter block of a table (table/filter_block.h, table/filter_block.cc): filters for every
  2048 bytes of the table file, and an array of their offsets. The policy is a parameter that
  keeps the contract \<open>filter_policy\<close>.
\<close>

section \<open>The builder\<close>

abbreviation (input) kFilterBaseLg :: nat where "kFilterBaseLg \<equiv> 11"
abbreviation (input) kFilterBase :: u64 where "kFilterBase \<equiv> 2048"

record FilterBlockBuilder =
  fb_keys :: slice
  fb_start :: "nat list"
  fb_result :: slice
  filter_offsets :: "u32 list"

definition new_FilterBlockBuilder :: FilterBlockBuilder where
  "new_FilterBlockBuilder = \<lparr>fb_keys = [], fb_start = [], fb_result = [], filter_offsets = []\<rparr>"

fun split_keys :: "slice \<Rightarrow> nat list \<Rightarrow> slice list" where
  "split_keys keys (a # b # starts) = take (b - a) (drop a keys) # split_keys keys (b # starts)"
| "split_keys keys _ = []"

text \<open>The number of keys is cast to \<open>int\<close>; a policy that is given fewer keys than there are would miss some.\<close>

definition GenerateFilter :: "FilterPolicy \<Rightarrow> FilterBlockBuilder \<Rightarrow> FilterBlockBuilder option" where
  "GenerateFilter policy b =
     (let num_keys = length (fb_start b) in
      if num_keys = 0 then Some (b\<lparr>filter_offsets := filter_offsets b @ [of_nat (length (fb_result b))]\<rparr>)
      else
        let tmp_keys = split_keys (fb_keys b) (fb_start b @ [length (fb_keys b)]) in do {
          r \<leftarrow> CreateFilter policy (take (unat (of_nat num_keys :: u32)) tmp_keys) (fb_result b);
          Some (b\<lparr>filter_offsets := filter_offsets b @ [of_nat (length (fb_result b))],
                 fb_result := r, fb_keys := [], fb_start := []\<rparr>)
        })"

text \<open>The loop of \<open>StartBlock\<close>; every turn adds an offset, so the index is enough fuel.\<close>

fun StartBlock_loop :: "nat \<Rightarrow> FilterPolicy \<Rightarrow> nat \<Rightarrow> FilterBlockBuilder \<Rightarrow> FilterBlockBuilder option" where
  "StartBlock_loop n policy filter_index b =
     (if filter_index > length (filter_offsets b) then
        (case n of 0 \<Rightarrow> None
         | Suc m \<Rightarrow> do { b' \<leftarrow> GenerateFilter policy b; StartBlock_loop m policy filter_index b' })
      else Some b)"

declare StartBlock_loop.simps [simp del]

definition StartBlock :: "FilterPolicy \<Rightarrow> FilterBlockBuilder \<Rightarrow> u64 \<Rightarrow> FilterBlockBuilder option" where
  "StartBlock policy b block_offset =
     (let filter_index = unat (block_offset div kFilterBase) in
      if filter_index \<ge> length (filter_offsets b) then StartBlock_loop filter_index policy filter_index b else None)"

definition fb_AddKey :: "FilterBlockBuilder \<Rightarrow> slice \<Rightarrow> FilterBlockBuilder" where
  "fb_AddKey b key = b\<lparr>fb_start := fb_start b @ [length (fb_keys b)], fb_keys := fb_keys b @ key\<rparr>"

definition put_offsets :: "slice \<Rightarrow> u32 list \<Rightarrow> slice" where
  "put_offsets result offsets = fold (\<lambda>v r. PutFixed32 r v) offsets result"

definition fb_Finish :: "FilterPolicy \<Rightarrow> FilterBlockBuilder \<Rightarrow> (slice \<times> FilterBlockBuilder) option" where
  "fb_Finish policy b = do {
     b1 \<leftarrow> (if fb_start b \<noteq> [] then GenerateFilter policy b else Some b);
     let array_offset = (of_nat (length (fb_result b1)) :: u32);
     let r = PutFixed32 (put_offsets (fb_result b1) (filter_offsets b1)) array_offset @ [of_nat kFilterBaseLg];
     Some (r, b1\<lparr>fb_result := r\<rparr>)
   }"

section \<open>The reader\<close>

text \<open>\<open>offset_\<close> as an index into the contents; with \<open>num_\<close> zero neither is used.\<close>

record FilterBlockReader =
  fr_data :: slice
  fr_offset :: nat
  fr_num :: nat
  base_lg :: u64

definition new_FilterBlockReader :: "slice \<Rightarrow> FilterBlockReader option" where
  "new_FilterBlockReader contents =
     (let n = length contents; r = \<lparr>fr_data = [], fr_offset = 0, fr_num = 0, base_lg = 0\<rparr> in
      if n < 5 then Some r
      else do {
        let r1 = r\<lparr>base_lg := scast (contents ! (n - 1))\<rparr>;
        last_word \<leftarrow> DecodeFixed32 (drop (n - 5) contents);
        if unat last_word > n - 5 then Some r1
        else Some (r1\<lparr>fr_data := contents, fr_offset := unat last_word, fr_num := (n - 5 - unat last_word) div 4\<rparr>)
      })"

text \<open>A shift by 64 or more is undefined.\<close>

definition fr_KeyMayMatch :: "FilterPolicy \<Rightarrow> FilterBlockReader \<Rightarrow> u64 \<Rightarrow> slice \<Rightarrow> bool option" where
  "fr_KeyMayMatch policy r block_offset key =
     (if base_lg r \<ge> 64 then None
      else
        let index = unat (drop_bit (unat (base_lg r)) block_offset) in
        if index < fr_num r then do {
          start \<leftarrow> DecodeFixed32 (drop (fr_offset r + index * 4) (fr_data r));
          limit \<leftarrow> DecodeFixed32 (drop (fr_offset r + index * 4 + 4) (fr_data r));
          if start \<le> limit \<and> unat limit \<le> fr_offset r
          then KeyMayMatch policy key (take (unat limit - unat start) (drop (unat start) (fr_data r)))
          else if start = limit then Some False
          else Some True
        }
        else Some True)"

section \<open>What the builder has written\<close>

text \<open>
  The keys of the filters that are finished, the bytes of these filters, and the keys added since.
\<close>

fun starts_of :: "nat \<Rightarrow> slice list \<Rightarrow> nat list" where
  "starts_of n [] = []"
| "starts_of n (k # ks) = n # starts_of (n + length k) ks"

definition filter_for :: "FilterPolicy \<Rightarrow> slice list \<Rightarrow> slice \<Rightarrow> bool" where
  "filter_for policy keys f \<longleftrightarrow> (\<forall>k \<in> set keys. KeyMayMatch policy k f = Some True)"

definition built :: "FilterPolicy \<Rightarrow> slice list list \<Rightarrow> slice list \<Rightarrow> FilterBlockBuilder \<Rightarrow> bool" where
  "built policy groups pending b \<longleftrightarrow>
     fb_keys b = concat pending \<and> fb_start b = starts_of 0 pending \<and>
     (\<exists>fs. list_all2 (filter_for policy) groups fs \<and> fb_result b = concat fs \<and>
        filter_offsets b = map of_nat (starts_of 0 fs))"

lemma length_starts [simp]: "length (starts_of n ks) = length ks"
  by (induction ks arbitrary: n) auto

lemma starts_append: "starts_of n (ks @ [k]) = starts_of n ks @ [n + length (concat ks)]"
  by (induction ks arbitrary: n) (auto simp: add.assoc)

lemma starts_nth: "i < length fs \<Longrightarrow> starts_of n fs ! i = n + length (concat (take i fs))"
proof (induction fs arbitrary: n i)
  case (Cons f fs)
  then show ?case by (cases i) (auto simp: add.assoc)
qed simp

lemma split_starts: "split_keys (p @ concat ks) (starts_of (length p) ks @ [length (p @ concat ks)]) = ks"
proof (induction ks arbitrary: p)
  case (Cons k ks)
  show ?case
  proof (cases ks)
    case Nil
    then show ?thesis by simp
  next
    case (Cons k' ks')
    have "split_keys ((p @ k) @ concat ks) (starts_of (length (p @ k)) ks @ [length ((p @ k) @ concat ks)]) = ks" by (rule Cons.IH)
    then show ?thesis using Cons by simp
  qed
qed simp

lemma new_built: "built policy [] [] new_FilterBlockBuilder"
  by (simp add: built_def new_FilterBlockBuilder_def)

lemma AddKey_built: "built policy gs ks b \<Longrightarrow> built policy gs (ks @ [k]) (fb_AddKey b k)"
  by (simp add: built_def fb_AddKey_def starts_append)

lemma AddKeys_built: "built policy gs ks b \<Longrightarrow> built policy gs (ks @ new) (foldl fb_AddKey b new)"
proof (induction new arbitrary: ks b)
  case (Cons k new)
  show ?case using Cons.IH [OF AddKey_built [OF Cons.prems, of k]] by simp
qed simp

lemma built_groups: "built policy gs ks b \<Longrightarrow> length (filter_offsets b) = length gs"
  by (auto simp: built_def dest: list_all2_lengthD)

context filter_policy
begin

lemma Generate_built:
  assumes b: "built policy gs ks b" and keys: "length ks < 2 ^ 31" "\<forall>k \<in> set ks. valid_key k"
  shows "\<exists>b'. GenerateFilter policy b = Some b' \<and> built policy (gs @ [ks]) [] b'"
proof -
  obtain fs where fs: "list_all2 (filter_for policy) gs fs" "fb_result b = concat fs" "filter_offsets b = map of_nat (starts_of 0 fs)"
    using b by (auto simp: built_def)
  have ks: "fb_keys b = concat ks" "fb_start b = starts_of 0 ks" using b by (simp_all add: built_def)
  have add: "list_all2 (filter_for policy) (gs @ [ks]) (fs @ [f])" if "filter_for policy ks f" for f
    using fs(1) that by (simp add: list_all2_appendI)
  show ?thesis
  proof (cases "ks = []")
    case True
    have "filter_for policy ks []" by (simp add: True filter_for_def)
    then show ?thesis using fs ks add [of "[]"] True
      by (simp add: GenerateFilter_def built_def Let_def) (intro exI [of _ "fs @ [[]]"], simp add: starts_append)
  next
    case False
    have split: "split_keys (fb_keys b) (fb_start b @ [length (fb_keys b)]) = ks" using split_starts [of "[]" ks] by (simp add: ks)
    have num: "unat (of_nat (length (fb_start b)) :: u32) = length ks" using keys(1) by (simp add: ks unat_of_nat_small)
    obtain f where f: "CreateFilter policy ks (fb_result b) = Some (fb_result b @ f)" "filter_for policy ks f"
      using creates [OF keys, of "fb_result b"] by (auto simp: filter_for_def)
    have ne: "length (fb_start b) \<noteq> 0" using False by (simp add: ks)
    show ?thesis
      unfolding GenerateFilter_def Let_def split num using ne f add [OF f(2)] fs
      by (simp add: built_def) (intro exI [of _ "fs @ [f]"], simp add: starts_append)
  qed
qed

lemma StartBlock_loop_built:
  assumes "built policy gs ks b" "length ks < 2 ^ 31" "\<forall>k \<in> set ks. valid_key k" "length gs \<le> i" "i - length gs \<le> n"
  shows "\<exists>b'. StartBlock_loop n policy i b = Some b' \<and>
    (if i = length gs then built policy gs ks b' else built policy (gs @ [ks] @ replicate (i - length gs - 1) []) [] b')"
  using assms
proof (induction n arbitrary: gs ks b)
  case 0
  then show ?case using built_groups [OF 0(1)] by (simp add: StartBlock_loop.simps)
next
  case (Suc n)
  show ?case
  proof (cases "i = length gs")
    case True
    then show ?thesis using Suc.prems(1) built_groups [OF Suc.prems(1)] by (simp add: StartBlock_loop.simps)
  next
    case False
    obtain b1 where b1: "GenerateFilter policy b = Some b1" "built policy (gs @ [ks]) [] b1"
      using Generate_built [OF Suc.prems(1-3)] by blast
    have p1: "length (gs @ [ks]) \<le> i" "i - length (gs @ [ks]) \<le> n" using Suc.prems(4,5) False by simp_all
    obtain b' where b': "StartBlock_loop n policy i b1 = Some b'"
        "if i = length (gs @ [ks]) then built policy (gs @ [ks]) [] b'
         else built policy ((gs @ [ks]) @ [[]] @ replicate (i - length (gs @ [ks]) - 1) []) [] b'"
      using Suc.IH [OF b1(2) _ _ p1] by auto
    have "built policy (gs @ [ks] @ replicate (i - length gs - 1) []) [] b'"
    proof (cases "i = length (gs @ [ks])")
      case True
      then show ?thesis using b'(2) by simp
    next
      case ne: False
      then have "i - length gs - 1 = Suc (i - length (gs @ [ks]) - 1)" using False Suc.prems(4) by simp
      then show ?thesis using b'(2) ne by simp
    qed
    then show ?thesis using b1(1) b'(1) False Suc.prems(4) built_groups [OF Suc.prems(1)]
      by (simp add: StartBlock_loop.simps [of "Suc n"])
  qed
qed

lemma StartBlock_built:
  assumes b: "built policy gs ks b" and keys: "length ks < 2 ^ 31" "\<forall>k \<in> set ks. valid_key k"
    and i: "length gs \<le> unat (off div kFilterBase)"
  shows "\<exists>b' gs' ks'. StartBlock policy b off = Some b' \<and> built policy gs' ks' b' \<and> length gs' = unat (off div kFilterBase)
    \<and> set ks' \<subseteq> set ks \<and> length ks' \<le> length ks \<and> (\<forall>i \<le> length gs. set ((gs @ [ks]) ! i) \<subseteq> set ((gs' @ [ks']) ! i))"
proof -
  let ?i = "unat (off div kFilterBase)"
  obtain b' where b': "StartBlock_loop ?i policy ?i b = Some b'"
      "if ?i = length gs then built policy gs ks b' else built policy (gs @ [ks] @ replicate (?i - length gs - 1) []) [] b'"
    using StartBlock_loop_built [OF b keys i diff_le_self] by blast
  have run: "StartBlock policy b off = Some b'"
    unfolding StartBlock_def Let_def using i b'(1) built_groups [OF b] by simp
  show ?thesis
  proof (cases "?i = length gs")
    case True
    then show ?thesis using run b'(2) by (intro exI [of _ b'] exI [of _ gs] exI [of _ ks]) simp
  next
    case False
    let ?gs = "gs @ [ks] @ replicate (?i - length gs - 1) []"
    have "length ?gs = ?i" using i False by simp
    moreover have "(gs @ [ks]) ! j = (?gs @ [[]]) ! j" if "j \<le> length gs" for j using that by (auto simp: nth_append)
    ultimately show ?thesis using run b'(2) False by (intro exI [of _ b'] exI [of _ ?gs] exI [of _ "[]"]) auto
  qed
qed

end

section \<open>The words behind the filters\<close>

lemma put_offsets_append: "put_offsets r ws = r @ concat (map EncodeFixed32 ws)"
  by (induction ws arbitrary: r) (simp_all add: put_offsets_def PutFixed32_def)

text \<open>The offsets of the filters and the offset of their array, read one after the other.\<close>

lemma starts_end: "i \<le> length fs \<Longrightarrow> (starts_of 0 fs @ [length (concat fs)]) ! i = length (concat (take i fs))"
  by (cases "i = length fs") (auto simp: nth_append starts_nth)

lemma filter_slice: "i < length fs \<Longrightarrow>
    take (length (concat (take (Suc i) fs)) - length (concat (take i fs))) (drop (length (concat (take i fs))) (concat fs @ x)) = fs ! i"
proof -
  assume i: "i < length fs"
  have "concat fs = concat (take i fs) @ fs ! i @ concat (drop (Suc i) fs)"
    using id_take_nth_drop [OF i] by (metis append_Cons append_assoc concat.simps(2) concat_append)
  moreover have "length (concat (take (Suc i) fs)) = length (concat (take i fs)) + length (fs ! i)"
    using i by (simp add: take_Suc_conv_app_nth)
  ultimately show ?thesis by simp
qed

lemma concat_take_le: "length (concat (take i fs)) \<le> length (concat fs)"
  by (metis append_take_drop_id concat_append length_append le_add1)

lemma concat_take_mono: "i < length fs \<Longrightarrow> length (concat (take i fs)) \<le> length (concat (take (Suc i) fs))"
  by (simp add: take_Suc_conv_app_nth)

definition filter_block :: "slice list \<Rightarrow> slice" where
  "filter_block fs = concat fs @ concat (map EncodeFixed32 (map of_nat (starts_of 0 fs @ [length (concat fs)]))) @ [11]"

lemma Finish_block:
  assumes "fb_result b = concat fs" "filter_offsets b = map of_nat (starts_of 0 fs)"
  shows "PutFixed32 (put_offsets (fb_result b) (filter_offsets b)) (of_nat (length (fb_result b))) @ [of_nat kFilterBaseLg] = filter_block fs"
  unfolding filter_block_def put_offsets_append PutFixed32_def assms by simp

lemma reader_of_block:
  assumes "length (filter_block fs) < 2 ^ 32"
  shows "new_FilterBlockReader (filter_block fs) =
    Some \<lparr>fr_data = filter_block fs, fr_offset = length (concat fs), fr_num = length fs, base_lg = 11\<rparr>"
proof -
  let ?c = "concat fs" and ?ws = "map of_nat (starts_of 0 fs @ [length (concat fs)]) :: u32 list"
  have len: "length (filter_block fs) = length ?c + 4 * length fs + 5" by (simp add: filter_block_def)
  have "DecodeFixed32 (drop (length ?c + length fs * 4) (?c @ concat (map EncodeFixed32 ?ws) @ [11])) = Some (?ws ! length fs)"
    by (rule word_at) simp
  then have w: "DecodeFixed32 (drop (length (filter_block fs) - 5) (filter_block fs)) = Some (of_nat (length ?c))"
    by (simp add: filter_block_def nth_append mult.commute)
  have u: "unat (of_nat (length ?c) :: u32) = length ?c" using assms len by (intro unat_of_nat_small) simp
  have l: "filter_block fs ! (length (filter_block fs) - 1) = 11" by (simp add: filter_block_def nth_append)
  show ?thesis unfolding new_FilterBlockReader_def Let_def w l using len u by simp
qed

lemma match_in_block:
  assumes small: "length (filter_block fs) < 2 ^ 32" and i: "i < length fs" "unat (drop_bit 11 off) = i"
  shows "fr_KeyMayMatch policy \<lparr>fr_data = filter_block fs, fr_offset = length (concat fs), fr_num = length fs, base_lg = 11\<rparr> off key =
    KeyMayMatch policy key (fs ! i)"
proof -
  let ?c = "concat fs" and ?ws = "map of_nat (starts_of 0 fs @ [length (concat fs)]) :: u32 list"
  have len: "length ?c < 2 ^ 32" using small by (simp add: filter_block_def)
  have word: "DecodeFixed32 (drop (length ?c + j * 4) (filter_block fs)) = Some (of_nat (length (concat (take j fs))))" if "j \<le> length fs" for j
  proof -
    have "?ws ! j = of_nat (length (concat (take j fs)))" using that starts_end [OF that] by (simp add: nth_append del: map_append)
    then show ?thesis unfolding filter_block_def using word_at [of j ?ws ?c "[11]"] that by simp
  qed
  have s: "DecodeFixed32 (drop (length ?c + i * 4) (filter_block fs)) = Some (of_nat (length (concat (take i fs))))"
    and e: "DecodeFixed32 (drop (length ?c + i * 4 + 4) (filter_block fs)) = Some (of_nat (length (concat (take (Suc i) fs))))"
    using word [of i] word [of "Suc i"] i(1) by (simp_all add: ac_simps)
  have u: "unat (of_nat (length (concat (take j fs))) :: u32) = length (concat (take j fs))" for j
    using concat_take_le [of j fs] len by (intro unat_of_nat_small) simp
  have sl: "take (length (concat (take (Suc i) fs)) - length (concat (take i fs))) (drop (length (concat (take i fs))) (filter_block fs)) = fs ! i"
    unfolding filter_block_def by (rule filter_slice [OF i(1)])
  have le: "(of_nat (length (concat (take i fs))) :: u32) \<le> of_nat (length (concat (take (Suc i) fs)))"
    unfolding word_le_nat_alt u by (rule concat_take_mono [OF i(1)])
  show ?thesis
    unfolding fr_KeyMayMatch_def Let_def using i concat_take_le [of "Suc i" fs] by (simp add: s e u sl le)
qed

section \<open>The keys of a table\<close>

text \<open>
  The calls a table builder makes: for each data block its offset and its keys.
\<close>

fun run_blocks :: "FilterPolicy \<Rightarrow> (u64 \<times> slice list) list \<Rightarrow> FilterBlockBuilder \<Rightarrow> FilterBlockBuilder option" where
  "run_blocks policy [] b = Some b"
| "run_blocks policy ((off, keys) # bs) b = do {
     b1 \<leftarrow> StartBlock policy b off;
     run_blocks policy bs (foldl fb_AddKey b1 keys)
   }"

definition block_index :: "u64 \<Rightarrow> nat" where
  "block_index off = unat (off div kFilterBase)"

lemma block_index_mono: "a \<le> b \<Longrightarrow> block_index a \<le> block_index b"
  by (simp add: block_index_def unat_div word_le_nat_alt div_le_mono)

lemma block_index_shift: "unat (drop_bit 11 off) = block_index (off :: u64)"
  by (simp add: block_index_def drop_bit_eq_div unat_div)

lemma nth_snoc_mono: "set ks \<subseteq> set ks' \<Longrightarrow> i \<le> length gs \<Longrightarrow> set ((gs @ [ks]) ! i) \<subseteq> set ((gs @ [ks']) ! i)"
  by (auto simp: nth_append)

context filter_policy
begin

lemma run_built:
  assumes "built policy gs ks b" "\<forall>k \<in> set ks. valid_key k" "length ks + length (concat (map snd bs)) < 2 ^ 31"
    and "\<forall>(off, keys) \<in> set bs. length gs \<le> block_index off \<and> (\<forall>k \<in> set keys. valid_key k)" "sorted (map fst bs)"
  shows "\<exists>b' gs' ks'. run_blocks policy bs b = Some b' \<and> built policy gs' ks' b' \<and> length ks' < 2 ^ 31 \<and> (\<forall>k \<in> set ks'. valid_key k)
    \<and> length gs \<le> length gs' \<and> (\<forall>i \<le> length gs. set ((gs @ [ks]) ! i) \<subseteq> set ((gs' @ [ks']) ! i))
    \<and> (\<forall>(off, keys) \<in> set bs. block_index off \<le> length gs' \<and> set keys \<subseteq> set ((gs' @ [ks']) ! block_index off))"
  using assms
proof (induction bs arbitrary: gs ks b)
  case Nil
  then show ?case by auto
next
  case (Cons blk bs)
  obtain off keys where blk: "blk = (off, keys)" by fastforce
  have i: "length gs \<le> unat (off div kFilterBase)" using Cons.prems(4) by (simp add: blk block_index_def)
  have l: "length ks < 2 ^ 31" using Cons.prems(3) by simp
  obtain b1 gs1 ks1 where 1: "StartBlock policy b off = Some b1" "built policy gs1 ks1 b1" "length gs1 = block_index off"
      "set ks1 \<subseteq> set ks" "length ks1 \<le> length ks" "\<forall>i \<le> length gs. set ((gs @ [ks]) ! i) \<subseteq> set ((gs1 @ [ks1]) ! i)"
    using StartBlock_built [OF Cons.prems(1) l Cons.prems(2) i] unfolding block_index_def by blast
  let ?ks = "ks1 @ keys" and ?b = "foldl fb_AddKey b1 keys"
  have b: "built policy gs1 ?ks ?b" by (rule AddKeys_built [OF 1(2)])
  have v: "\<forall>k \<in> set ?ks. valid_key k" using 1(4) Cons.prems(2,4) by (auto simp: blk)
  have len: "length ?ks + length (concat (map snd bs)) < 2 ^ 31" using 1(5) Cons.prems(3) by (simp add: blk)
  have rest: "\<forall>(o', keys') \<in> set bs. length gs1 \<le> block_index o' \<and> (\<forall>k \<in> set keys'. valid_key k)"
    using Cons.prems(4,5) block_index_mono unfolding 1(3) by (fastforce simp: blk)
  have s: "sorted (map fst bs)" using Cons.prems(5) by simp
  obtain b' gs' ks' where 2: "run_blocks policy bs ?b = Some b'" "built policy gs' ks' b'" "length ks' < 2 ^ 31" "\<forall>k \<in> set ks'. valid_key k"
      "length gs1 \<le> length gs'" "\<forall>i \<le> length gs1. set ((gs1 @ [?ks]) ! i) \<subseteq> set ((gs' @ [ks']) ! i)"
      "\<forall>(o', keys') \<in> set bs. block_index o' \<le> length gs' \<and> set keys' \<subseteq> set ((gs' @ [ks']) ! block_index o')"
    using Cons.IH [OF b v len rest s] by blast
  have le: "length gs \<le> length gs1" using i unfolding 1(3) block_index_def .
  have "set ((gs @ [ks]) ! j) \<subseteq> set ((gs' @ [ks']) ! j)" if j: "j \<le> length gs" for j
  proof -
    have j1: "j \<le> length gs1" using j le by linarith
    have "set ((gs @ [ks]) ! j) \<subseteq> set ((gs1 @ [ks1]) ! j)" using 1(6) j by blast
    also have "\<dots> \<subseteq> set ((gs1 @ [?ks]) ! j)" using j1 by (intro nth_snoc_mono) auto
    also have "\<dots> \<subseteq> set ((gs' @ [ks']) ! j)" using 2(6) j1 by blast
    finally show ?thesis .
  qed
  moreover have "block_index off \<le> length gs' \<and> set keys \<subseteq> set ((gs' @ [ks']) ! block_index off)"
    using 2(5) 2(6) [rule_format, of "length gs1"] unfolding 1(3) [symmetric] by simp
  ultimately show ?case using 1(1) 2 le by (intro exI [of _ b'] exI [of _ gs'] exI [of _ ks']) (auto simp: blk)
qed

lemma Finish_built:
  assumes b: "built policy gs ks b" and keys: "length ks < 2 ^ 31" "\<forall>k \<in> set ks. valid_key k"
  shows "\<exists>fs b'. fb_Finish policy b = Some (filter_block fs, b') \<and>
    list_all2 (filter_for policy) (if ks = [] then gs else gs @ [ks]) fs"
proof (cases "ks = []")
  case True
  then obtain fs where fs: "list_all2 (filter_for policy) gs fs" "fb_result b = concat fs" "filter_offsets b = map of_nat (starts_of 0 fs)"
    using b by (auto simp: built_def)
  have "fb_start b = []" using b True by (simp add: built_def)
  then show ?thesis using fs(1) Finish_block [OF fs(2,3)] True by (auto simp: fb_Finish_def Let_def)
next
  case False
  obtain b1 where b1: "GenerateFilter policy b = Some b1" "built policy (gs @ [ks]) [] b1" using Generate_built [OF assms] by blast
  then obtain fs where fs: "list_all2 (filter_for policy) (gs @ [ks]) fs" "fb_result b1 = concat fs" "filter_offsets b1 = map of_nat (starts_of 0 fs)"
    by (auto simp: built_def)
  have "fb_start b \<noteq> []" using b False by (cases ks) (auto simp: built_def)
  then show ?thesis using b1(1) fs(1) Finish_block [OF fs(2,3)] False by (auto simp: fb_Finish_def Let_def)
qed

lemma filter_block_matches:
  assumes keys: "length (concat (map snd bs)) < 2 ^ 31" "\<forall>(off, keys) \<in> set bs. \<forall>k \<in> set keys. valid_key k" "sorted (map fst bs)"
  shows "\<exists>b b' contents. run_blocks policy bs new_FilterBlockBuilder = Some b \<and> fb_Finish policy b = Some (contents, b') \<and>
    (length contents < 2 ^ 32 \<longrightarrow> (\<exists>r. new_FilterBlockReader contents = Some r \<and>
       (\<forall>(off, keys) \<in> set bs. \<forall>k \<in> set keys. fr_KeyMayMatch policy r off k = Some True)))"
proof -
  obtain b gs ks where run: "run_blocks policy bs new_FilterBlockBuilder = Some b" "built policy gs ks b" "length ks < 2 ^ 31" "\<forall>k \<in> set ks. valid_key k"
      "\<forall>(off, keys) \<in> set bs. block_index off \<le> length gs \<and> set keys \<subseteq> set ((gs @ [ks]) ! block_index off)"
    using run_built [OF new_built, of bs] keys by auto
  obtain fs b' where fin: "fb_Finish policy b = Some (filter_block fs, b')" "list_all2 (filter_for policy) (if ks = [] then gs else gs @ [ks]) fs"
    using Finish_built [OF run(2-4)] by blast
  have "fr_KeyMayMatch policy \<lparr>fr_data = filter_block fs, fr_offset = length (concat fs), fr_num = length fs, base_lg = 11\<rparr> off k = Some True"
    if small: "length (filter_block fs) < 2 ^ 32" and blk: "(off, keys) \<in> set bs" and k: "k \<in> set keys" for off keys k
  proof -
    let ?i = "block_index off"
    have i: "?i \<le> length gs" "k \<in> set ((gs @ [ks]) ! ?i)" using run(5) blk k by auto
    then have "ks = [] \<Longrightarrow> ?i < length gs" by (cases "?i = length gs") auto
    then have i': "?i < length (if ks = [] then gs else gs @ [ks])" using i(1) by auto
    then have "filter_for policy ((if ks = [] then gs else gs @ [ks]) ! ?i) (fs ! ?i)" by (rule list_all2_nthD [OF fin(2)])
    moreover have "(if ks = [] then gs else gs @ [ks]) ! ?i = (gs @ [ks]) ! ?i" using i' by (auto simp: nth_append)
    ultimately have "KeyMayMatch policy k (fs ! ?i) = Some True" using i(2) by (simp add: filter_for_def)
    moreover have "?i < length fs" using i' list_all2_lengthD [OF fin(2)] by simp
    ultimately show ?thesis using match_in_block [OF small _ block_index_shift] by simp
  qed
  then show ?thesis using run(1) fin(1) reader_of_block by blast
qed

end

text \<open>
  C18: The filter block of a table has no false negatives. Keys are added block by block, at growing offsets,
  with internal keys and a bloom filter of the user keys behind it; then every key may match at the
  offset of its block. Neither the builder nor the reader fails, and the block is only assumed to be
  smaller than 4 GB, which its offsets need.
\<close>

theorem filter_block_no_false_negatives:
  assumes "0 \<le> n" "n < 2 ^ 31" "NewBloomFilterPolicy n = Some user_policy"
    and "length (concat (map snd bs)) < 2 ^ 31" "\<forall>(off, keys) \<in> set bs. \<forall>k \<in> set keys. 8 \<le> length k" "sorted (map fst bs)"
  shows "\<exists>b b' contents. run_blocks (InternalFilterPolicy user_policy) bs new_FilterBlockBuilder = Some b \<and>
    fb_Finish (InternalFilterPolicy user_policy) b = Some (contents, b') \<and>
    (length contents < 2 ^ 32 \<longrightarrow> (\<exists>r. new_FilterBlockReader contents = Some r \<and>
       (\<forall>(off, keys) \<in> set bs. \<forall>k \<in> set keys. fr_KeyMayMatch (InternalFilterPolicy user_policy) r off k = Some True)))"
proof -
  obtain p where p: "new_BloomFilterPolicy n = Some p" "user_policy = bloom_policy p"
    using assms(3) by (auto simp: NewBloomFilterPolicy_def split: bind_splits)
  have "bloom_bits n p" by unfold_locales (use assms p in simp_all)
  then have "filter_policy (InternalFilterPolicy user_policy) (\<lambda>k. 8 \<le> length k)"
    unfolding p(2) using bloom_bits.internal_contract by blast
  then show ?thesis by (rule filter_policy.filter_block_matches) (use assms in auto)
qed

theorem filter_block_no_false_negatives_witness:
  "\<exists>b b' contents. run_blocks (InternalFilterPolicy (bloom_policy \<lparr>bits_per_key = 10, bloom_k = 6\<rparr>))
      [(0, [ikey [97] 1 1]), (3000, [ikey [98] 2 1, ikey [99] 1 1])] new_FilterBlockBuilder = Some b \<and>
    fb_Finish (InternalFilterPolicy (bloom_policy \<lparr>bits_per_key = 10, bloom_k = 6\<rparr>)) b = Some (contents, b')"
proof -
  have "NewBloomFilterPolicy 10 = Some (bloom_policy \<lparr>bits_per_key = 10, bloom_k = 6\<rparr>)"
    by (simp add: NewBloomFilterPolicy_def new_BloomFilterPolicy_def Let_def)
  from filter_block_no_false_negatives [OF _ _ this, of "[(0, [ikey [97] 1 1]), (3000, [ikey [98] 2 1, ikey [99] 1 1])]"]
  show ?thesis by (auto simp: length_ikey)
qed

end
