(* ===== verification/LdbTable.thy ===== *)
theory LdbTable
  imports LdbLog LdbBlock LdbFilterBlock LdbTwoLevel
begin

text \<open>
  The tables (include/leveldb/table_builder.h, include/leveldb/table.h, table/table_builder.cc, table/table.cc): the builder writes data blocks, a
  filter block, the metaindex block, the index block and the footer to a file; a table opened on
  such a file searches the index and reads the blocks it needs. Files are parameters. A block cache is given
  by its lookups, and what is inserted in it is part of the result.
\<close>

section \<open>The builder\<close>

text \<open>The filter block builder comes with its policy, which it keeps when the options change.\<close>

record TableBuilder =
  tb_options :: Options
  tb_index_options :: Options
  tb_offset :: u64
  tb_status :: Status
  tb_data_block :: BlockBuilder
  tb_index_block :: BlockBuilder
  tb_last_key :: slice
  tb_num_entries :: int
  tb_closed :: bool
  tb_filter_block :: "(FilterPolicy \<times> FilterBlockBuilder) option"
  tb_pending_index_entry :: bool
  tb_pending_handle :: BlockHandle

definition on_filter :: "(FilterPolicy \<Rightarrow> FilterBlockBuilder \<Rightarrow> FilterBlockBuilder option) \<Rightarrow> TableBuilder \<Rightarrow> TableBuilder option" where
  "on_filter f r =
     (case tb_filter_block r of None \<Rightarrow> Some r
      | Some (policy, b) \<Rightarrow> do { b' \<leftarrow> f policy b; Some (r\<lparr>tb_filter_block := Some (policy, b')\<rparr>) })"

definition new_TableBuilder :: "Options \<Rightarrow> TableBuilder option" where
  "new_TableBuilder opts = do {
     db \<leftarrow> new_BlockBuilder opts;
     ib \<leftarrow> new_BlockBuilder opts;
     on_filter (\<lambda>policy b. StartBlock policy b 0)
       \<lparr>tb_options = opts, tb_index_options = opts\<lparr>block_restart_interval := 1\<rparr>, tb_offset = 0, tb_status = Status_OK,
        tb_data_block = db, tb_index_block = ib, tb_last_key = [], tb_num_entries = 0, tb_closed = False,
        tb_filter_block = map_option (\<lambda>(policy, name). (policy, new_FilterBlockBuilder)) (opt_filter_policy opts),
        tb_pending_index_entry = False, tb_pending_handle = new_BlockHandle\<rparr>
   }"

text \<open>Whether the new options have the comparator object of the old ones is a parameter.\<close>

definition tb_ChangeOptions :: "bool \<Rightarrow> Options \<Rightarrow> TableBuilder \<Rightarrow> (Status \<times> TableBuilder) option" where
  "tb_ChangeOptions same_comparator opts r =
     (if \<not> same_comparator then do {
        st \<leftarrow> Status_InvalidArgument (lit ''changing comparator while building table'') [];
        Some (st, r)
      }
      else Some (Status_OK, r\<lparr>tb_options := opts, tb_index_options := opts\<lparr>block_restart_interval := 1\<rparr>\<rparr>))"

definition tb_ok :: "TableBuilder \<Rightarrow> bool" where
  "tb_ok r \<longleftrightarrow> Status_ok (tb_status r)"

definition WriteRawBlock :: "'w WritableFile \<Rightarrow> TableBuilder \<Rightarrow> slice \<Rightarrow> byte \<Rightarrow> 'w \<Rightarrow> (BlockHandle \<times> TableBuilder \<times> 'w) option" where
  "WriteRawBlock wfile r block_contents type dest =
     (let handle = \<lparr>bh_offset = tb_offset r, bh_size = of_nat (length block_contents)\<rparr>;
          (s1, dest1) = wf_Append wfile block_contents dest
      in
      if \<not> Status_ok s1 then Some (handle, r\<lparr>tb_status := s1\<rparr>, dest1)
      else do {
        crc \<leftarrow> crc_Value 0 block_contents;
        crc' \<leftarrow> crc_Extend 0 crc [type];
        let trailer = type # EncodeFixed32 (crc_Mask crc');
        let (s2, dest2) = wf_Append wfile trailer dest1;
        let r1 = r\<lparr>tb_status := s2\<rparr>;
        Some (handle, if Status_ok s2 then r1\<lparr>tb_offset := tb_offset r + of_nat (length block_contents) + kBlockTrailerSize\<rparr> else r1, dest2)
      })"

text \<open>The block builder is returned as it is after its \<open>Reset\<close>.\<close>

definition WriteBlock :: "'w WritableFile \<Rightarrow> TableBuilder \<Rightarrow> BlockBuilder \<Rightarrow> 'w \<Rightarrow> (BlockHandle \<times> BlockBuilder \<times> TableBuilder \<times> 'w) option" where
  "WriteBlock wfile r block dest =
     (if \<not> tb_ok r then None
      else
        let (raw, block1) = bb_Finish block;
            type = opt_compression (tb_options r);
            (block_contents, type') =
              (if type = kNoCompression then (raw, type)
               else if type = kSnappyCompression then
                 (case Snappy_Compress raw of None \<Rightarrow> (raw, kNoCompression)
                  | Some compressed \<Rightarrow>
                      if length compressed < length raw - length raw div 8 then (compressed, type) else (raw, kNoCompression))
               else ([], type))
        in do {
          (handle, r1, dest1) \<leftarrow> WriteRawBlock wfile r block_contents type' dest;
          Some (handle, bb_Reset block1, r1, dest1)
        })"

definition tb_Flush :: "'w WritableFile \<Rightarrow> TableBuilder \<Rightarrow> 'w \<Rightarrow> (TableBuilder \<times> 'w) option" where
  "tb_Flush wfile r dest =
     (if tb_closed r then None
      else if \<not> tb_ok r then Some (r, dest)
      else if bb_empty (tb_data_block r) then Some (r, dest)
      else if tb_pending_index_entry r then None
      else do {
        (handle, block, r1, dest1) \<leftarrow> WriteBlock wfile r (tb_data_block r) dest;
        let r2 = r1\<lparr>tb_data_block := block, tb_pending_handle := handle\<rparr>;
        let (r3, dest3) =
          (if tb_ok r2 then
             (let (s, dest2) = wf_Flush wfile dest1 in (r2\<lparr>tb_pending_index_entry := True, tb_status := s\<rparr>, dest2))
           else (r2, dest1));
        r4 \<leftarrow> on_filter (\<lambda>policy b. StartBlock policy b (tb_offset r3)) r3;
        Some (r4, dest3)
      })"

text \<open>An index entry with the key given, for the pending handle.\<close>

definition add_index_entry :: "slice option \<Rightarrow> TableBuilder \<Rightarrow> TableBuilder option" where
  "add_index_entry key r = do {
     last_key \<leftarrow> key;
     handle_encoding \<leftarrow> bh_EncodeTo (tb_pending_handle r) [];
     ib \<leftarrow> bb_Add (tb_index_options r) (tb_index_block r) last_key handle_encoding;
     Some (r\<lparr>tb_last_key := last_key, tb_index_block := ib, tb_pending_index_entry := False\<rparr>)
   }"

definition tb_Add :: "'w WritableFile \<Rightarrow> TableBuilder \<Rightarrow> slice \<Rightarrow> slice \<Rightarrow> 'w \<Rightarrow> (TableBuilder \<times> 'w) option" where
  "tb_Add wfile r key value dest =
     (if tb_closed r then None
      else if \<not> tb_ok r then Some (r, dest)
      else do {
        increasing \<leftarrow>
          (if tb_num_entries r > 0 then do { x \<leftarrow> Compare (opt_comparator (tb_options r)) key (tb_last_key r); Some (x > 0) }
           else Some True);
        if \<not> increasing then None
        else do {
          r1 \<leftarrow>
            (if tb_pending_index_entry r then
               (if bb_empty (tb_data_block r)
                then add_index_entry (FindShortestSeparator (opt_comparator (tb_options r)) (tb_last_key r) key) r else None)
             else Some r);
          r2 \<leftarrow> on_filter (\<lambda>policy b. Some (fb_AddKey b key)) r1;
          db \<leftarrow> bb_Add (tb_options r2) (tb_data_block r2) key value;
          let r3 = r2\<lparr>tb_last_key := key, tb_num_entries := tb_num_entries r2 + 1, tb_data_block := db\<rparr>;
          if bb_CurrentSizeEstimate db \<ge> unat (block_size (tb_options r3)) then tb_Flush wfile r3 dest else Some (r3, dest)
        }
      })"

definition tb_status_of :: "TableBuilder \<Rightarrow> Status" where
  "tb_status_of r = tb_status r"

text \<open>The parts of \<open>Finish\<close>, each of which does nothing after an error.\<close>

definition write_filter :: "'w WritableFile \<Rightarrow> TableBuilder \<Rightarrow> 'w \<Rightarrow> (BlockHandle \<times> TableBuilder \<times> 'w) option" where
  "write_filter wfile r dest =
     (case tb_filter_block r of
        Some (policy, fb) \<Rightarrow>
          if tb_ok r then do {
            (contents, fb') \<leftarrow> fb_Finish policy fb;
            WriteRawBlock wfile (r\<lparr>tb_filter_block := Some (policy, fb')\<rparr>) contents kNoCompression dest
          }
          else Some (new_BlockHandle, r, dest)
      | None \<Rightarrow> Some (new_BlockHandle, r, dest))"

definition write_metaindex :: "'w WritableFile \<Rightarrow> BlockHandle \<Rightarrow> TableBuilder \<Rightarrow> 'w \<Rightarrow> (BlockHandle \<times> TableBuilder \<times> 'w) option" where
  "write_metaindex wfile filter_block_handle r dest =
     (if tb_ok r then do {
        meta \<leftarrow> new_BlockBuilder (tb_options r);
        meta' \<leftarrow>
          (if tb_filter_block r \<noteq> None then do {
             (policy, name) \<leftarrow> opt_filter_policy (tb_options r);
             handle_encoding \<leftarrow> bh_EncodeTo filter_block_handle [];
             bb_Add (tb_options r) meta (lit ''filter.'' @ name) handle_encoding
           }
           else Some meta);
        (handle, _, r1, dest1) \<leftarrow> WriteBlock wfile r meta' dest;
        Some (handle, r1, dest1)
      }
      else Some (new_BlockHandle, r, dest))"

definition write_index :: "'w WritableFile \<Rightarrow> TableBuilder \<Rightarrow> 'w \<Rightarrow> (BlockHandle \<times> TableBuilder \<times> 'w) option" where
  "write_index wfile r dest =
     (if tb_ok r then do {
        r1 \<leftarrow> (if tb_pending_index_entry r
               then add_index_entry (FindShortSuccessor (opt_comparator (tb_options r)) (tb_last_key r)) r else Some r);
        (handle, block, r2, dest1) \<leftarrow> WriteBlock wfile r1 (tb_index_block r1) dest;
        Some (handle, r2\<lparr>tb_index_block := block\<rparr>, dest1)
      }
      else Some (new_BlockHandle, r, dest))"

definition write_footer :: "'w WritableFile \<Rightarrow> BlockHandle \<Rightarrow> BlockHandle \<Rightarrow> TableBuilder \<Rightarrow> 'w \<Rightarrow> (TableBuilder \<times> 'w) option" where
  "write_footer wfile metaindex_block_handle index_block_handle r dest =
     (if tb_ok r then do {
        footer_encoding \<leftarrow> footer_EncodeTo \<lparr>metaindex_handle = metaindex_block_handle, index_handle = index_block_handle\<rparr> [];
        let (s, dest1) = wf_Append wfile footer_encoding dest;
        let r1 = r\<lparr>tb_status := s\<rparr>;
        Some (if Status_ok s then r1\<lparr>tb_offset := tb_offset r + of_nat (length footer_encoding)\<rparr> else r1, dest1)
      }
      else Some (r, dest))"

definition tb_Finish :: "'w WritableFile \<Rightarrow> TableBuilder \<Rightarrow> 'w \<Rightarrow> (Status \<times> TableBuilder \<times> 'w) option" where
  "tb_Finish wfile r dest = do {
     (r1, dest1) \<leftarrow> tb_Flush wfile r dest;
     if tb_closed r1 then None
     else do {
       (fh, r2, dest2) \<leftarrow> write_filter wfile (r1\<lparr>tb_closed := True\<rparr>) dest1;
       (mh, r3, dest3) \<leftarrow> write_metaindex wfile fh r2 dest2;
       (ih, r4, dest4) \<leftarrow> write_index wfile r3 dest3;
       (r5, dest5) \<leftarrow> write_footer wfile mh ih r4 dest4;
       Some (tb_status r5, r5, dest5)
     }
   }"

definition tb_Abandon :: "TableBuilder \<Rightarrow> TableBuilder option" where
  "tb_Abandon r = (if tb_closed r then None else Some (r\<lparr>tb_closed := True\<rparr>))"

definition tb_NumEntries :: "TableBuilder \<Rightarrow> int" where
  "tb_NumEntries r = tb_num_entries r"

definition tb_FileSize :: "TableBuilder \<Rightarrow> u64" where
  "tb_FileSize r = tb_offset r"

section \<open>The table\<close>

text \<open>The reader of the filter comes with its policy.\<close>

record Table =
  t_options :: Options
  t_file :: RandomAccessFile
  t_cache_id :: u64
  t_filter :: "(FilterPolicy \<times> FilterBlockReader) option"
  t_metaindex_handle :: BlockHandle
  t_index_block :: Block

definition meta_options :: "Options \<Rightarrow> ReadOptions" where
  "meta_options opts = (if paranoid_checks opts then new_ReadOptions\<lparr>verify_checksums := True\<rparr> else new_ReadOptions)"

definition ReadFilter :: "Table \<Rightarrow> slice \<Rightarrow> Table option" where
  "ReadFilter t filter_handle_value = do {
     (s, filter_handle, _) \<leftarrow> bh_DecodeFrom new_BlockHandle filter_handle_value;
     if \<not> Status_ok s then Some t
     else do {
       (s1, block) \<leftarrow> ReadBlock (t_file t) (meta_options (t_options t)) filter_handle;
       if \<not> Status_ok s1 then Some t
       else do {
         (policy, name) \<leftarrow> opt_filter_policy (t_options t);
         reader \<leftarrow> new_FilterBlockReader (bc_data block);
         Some (t\<lparr>t_filter := Some (policy, reader)\<rparr>)
       }
     }
   }"

definition ReadMeta :: "Table \<Rightarrow> Footer \<Rightarrow> Table option" where
  "ReadMeta t footer =
     (case opt_filter_policy (t_options t) of None \<Rightarrow> Some t
      | Some (policy, name) \<Rightarrow> do {
          (s, contents) \<leftarrow> ReadBlock (t_file t) (meta_options (t_options t)) (metaindex_handle footer);
          if \<not> Status_ok s then Some t
          else do {
            meta \<leftarrow> new_Block contents;
            iter \<leftarrow> Block_NewIterator meta;
            let key = lit ''filter.'' @ name;
            let ops = BlockIterator_ops BytewiseComparator;
            iter1 \<leftarrow> it_Seek ops key iter;
            if it_Valid ops iter1 then do {
              k \<leftarrow> it_key ops iter1;
              if k = key then do { v \<leftarrow> it_value ops iter1; ReadFilter t v } else Some t
            }
            else Some t
          }
        })"

definition Table_Open :: "Options \<Rightarrow> RandomAccessFile \<Rightarrow> u64 \<Rightarrow> u64 \<Rightarrow> (Status \<times> Table option) option" where
  "Table_Open opts raf new_id file_size =
     (if file_size < of_nat kEncodedLength then do {
        st \<leftarrow> Status_Corruption (lit ''file is too short to be an sstable'') [];
        Some (st, None)
      }
      else
        let (s, footer_input, _) = raf (file_size - of_nat kEncodedLength) (of_nat kEncodedLength) in
        if \<not> Status_ok s then Some (s, None)
        else do {
          (s1, footer, _) \<leftarrow> footer_DecodeFrom new_Footer footer_input;
          if \<not> Status_ok s1 then Some (s1, None)
          else do {
            (s2, contents) \<leftarrow> ReadBlock raf (meta_options opts) (index_handle footer);
            if \<not> Status_ok s2 then Some (s2, None)
            else do {
              index_block \<leftarrow> new_Block contents;
              t \<leftarrow> ReadMeta
                \<lparr>t_options = opts, t_file = raf, t_cache_id = new_id, t_filter = None,
                 t_metaindex_handle = metaindex_handle footer, t_index_block = index_block\<rparr> footer;
              Some (s2, Some t)
            }
          }
        })"

text \<open>\<open>lookup\<close> is \<open>None\<close> when there is no block cache.\<close>

definition BlockReader :: "Table \<Rightarrow> (slice \<Rightarrow> Block option) option \<Rightarrow> ReadOptions \<Rightarrow> slice \<Rightarrow> (BlockIterator \<times> (slice \<times> Block) option) option" where
  "BlockReader t lookup options index_value = do {
     (s, handle, _) \<leftarrow> bh_DecodeFrom new_BlockHandle index_value;
     let key = EncodeFixed64 (t_cache_id t) @ EncodeFixed64 (bh_offset handle);
     (s1, block, inserted) \<leftarrow>
       (if \<not> Status_ok s then Some (s, None, None)
        else
          case do { f \<leftarrow> lookup; f key } of Some b \<Rightarrow> Some (s, Some b, None)
          | None \<Rightarrow> do {
              (s1, contents) \<leftarrow> ReadBlock (t_file t) options handle;
              if Status_ok s1 then do {
                b \<leftarrow> new_Block contents;
                Some (s1, Some b, if lookup \<noteq> None \<and> cachable contents \<and> fill_cache options then Some (key, b) else None)
              }
              else Some (s1, None, None)
            });
     case block of Some b \<Rightarrow> do { iter \<leftarrow> Block_NewIterator b; Some (iter, inserted) }
     | None \<Rightarrow> Some (Empty_block_iterator s1, inserted)
   }"

definition Table_levels :: "Table \<Rightarrow> (slice \<Rightarrow> Block option) option \<Rightarrow> ReadOptions \<Rightarrow> (BlockIterator, BlockIterator) two_levels" where
  "Table_levels t lookup options =
     \<lparr>index_ops = BlockIterator_ops (opt_comparator (t_options t)), data_ops = BlockIterator_ops (opt_comparator (t_options t)),
      block_function = (\<lambda>v. do { (iter, inserted) \<leftarrow> BlockReader t lookup options v; Some iter })\<rparr>"

definition Table_NewIterator :: "Table \<Rightarrow> (slice \<Rightarrow> Block option) option \<Rightarrow> ReadOptions \<Rightarrow> (BlockIterator, BlockIterator) TwoLevelIterator option" where
  "Table_NewIterator t lookup options = do {
     index_iter \<leftarrow> Block_NewIterator (t_index_block t);
     NewTwoLevelIterator (Table_levels t lookup options) index_iter
   }"

text \<open>What \<open>saver\<close> does to its argument is a parameter.\<close>

definition InternalGet :: "Table \<Rightarrow> (slice \<Rightarrow> Block option) option \<Rightarrow> ReadOptions \<Rightarrow> slice \<Rightarrow> ('a \<Rightarrow> slice \<Rightarrow> slice \<Rightarrow> 'a) \<Rightarrow> 'a \<Rightarrow> (Status \<times> 'a) option" where
  "InternalGet t lookup options k saver arg = do {
     let ops = BlockIterator_ops (opt_comparator (t_options t));
     iiter0 \<leftarrow> Block_NewIterator (t_index_block t);
     iiter \<leftarrow> it_Seek ops k iiter0;
     (s, arg') \<leftarrow>
       (if it_Valid ops iiter then do {
          handle_value \<leftarrow> it_value ops iiter;
          excluded \<leftarrow>
            (case t_filter t of None \<Rightarrow> Some False
             | Some (policy, reader) \<Rightarrow> do {
                 (sh, handle, _) \<leftarrow> bh_DecodeFrom new_BlockHandle handle_value;
                 if Status_ok sh then do { m \<leftarrow> fr_KeyMayMatch policy reader (bh_offset handle) k; Some (\<not> m) } else Some False
               });
          if excluded then Some (Status_OK, arg)
          else do {
            (block_iter0, _) \<leftarrow> BlockReader t lookup options handle_value;
            block_iter \<leftarrow> it_Seek ops k block_iter0;
            arg' \<leftarrow> (if it_Valid ops block_iter
              then do { key \<leftarrow> it_key ops block_iter; v \<leftarrow> it_value ops block_iter; Some (saver arg key v) } else Some arg);
            s \<leftarrow> it_status ops block_iter;
            Some (s, arg')
          }
        }
        else Some (Status_OK, arg));
     if Status_ok s then do { s' \<leftarrow> it_status ops iiter; Some (s', arg') } else Some (s, arg')
   }"

definition ApproximateOffsetOf :: "Table \<Rightarrow> slice \<Rightarrow> u64 option" where
  "ApproximateOffsetOf t key = do {
     let ops = BlockIterator_ops (opt_comparator (t_options t));
     index_iter0 \<leftarrow> Block_NewIterator (t_index_block t);
     index_iter \<leftarrow> it_Seek ops key index_iter0;
     if it_Valid ops index_iter then do {
       input \<leftarrow> it_value ops index_iter;
       (s, handle, _) \<leftarrow> bh_DecodeFrom new_BlockHandle input;
       Some (if Status_ok s then bh_offset handle else bh_offset (t_metaindex_handle t))
     }
     else Some (bh_offset (t_metaindex_handle t))
   }"

end
