(* ===== verification/LdbTableBuild.thy ===== *)
theory LdbTableBuild
  imports LdbTable LdbBlockBuild
begin

text \<open>
  What the table builder has written: an invariant over the calls of \<open>Add\<close> and \<open>Flush\<close>, for files that may
  fail, and the layout of a finished file.
\<close>

section \<open>Files\<close>

text \<open>
  A file for writing: when it says so, an append has been done, and no file has 4 GB or more. What
  it holds after a failure is left open.
\<close>

locale writable_file =
  fixes wfile :: "'w WritableFile" and content :: "'w \<Rightarrow> byte list"
  assumes append_ok: "wf_Append wfile d s = (st, s') \<Longrightarrow> Status_ok st \<Longrightarrow> content s' = content s @ d \<and> length (content s') < 2 ^ 32"
    and flush_ok: "wf_Flush wfile s = (st, s') \<Longrightarrow> Status_ok st \<Longrightarrow> content s' = content s"

text \<open>A file in memory that is full at \<open>n\<close> bytes.\<close>

definition bounded_file :: "nat \<Rightarrow> byte list WritableFile" where
  "bounded_file n =
     \<lparr>wf_Append = (\<lambda>d s. if length s + length d \<le> n then (Status_OK, s @ d) else (Some [], s)), wf_Flush = (\<lambda>s. (Status_OK, s))\<rparr>"

lemma bounded_file_ok: "n < 2 ^ 32 \<Longrightarrow> writable_file (bounded_file n) (\<lambda>s. s)"
  by unfold_locales (auto simp: bounded_file_def Status_ok_def split: if_splits)

interpretation memory_file: writable_file "bounded_file 65536" "\<lambda>s. s"
  by (rule bounded_file_ok) simp

section \<open>Blocks in the file\<close>

text \<open>The blocks written so far: the bytes and the entries of each.\<close>

type_synonym data_blocks = "(slice \<times> (slice \<times> slice) list) list"

definition chunk :: "slice \<Rightarrow> byte list" where
  "chunk b = b @ block_trailer kNoCompression b"

definition chunks :: "data_blocks \<Rightarrow> byte list" where
  "chunks bs = concat (map (chunk \<circ> fst) bs)"

definition handle_at :: "nat \<Rightarrow> slice \<Rightarrow> BlockHandle" where
  "handle_at p b = \<lparr>bh_offset = of_nat p, bh_size = of_nat (length b)\<rparr>"

definition enc_handle :: "BlockHandle \<Rightarrow> byte list" where
  "enc_handle h = EncodeVarint64 (bh_offset h) @ EncodeVarint64 (bh_size h)"

definition block_pos :: "data_blocks \<Rightarrow> nat \<Rightarrow> nat" where
  "block_pos bs j = length (chunks (take j bs))"

definition block_handle :: "data_blocks \<Rightarrow> nat \<Rightarrow> BlockHandle" where
  "block_handle bs j = handle_at (block_pos bs j) (fst (bs ! j))"

definition block_entries :: "data_blocks \<Rightarrow> (slice \<times> slice) list" where
  "block_entries bs = concat (map snd bs)"

definition filter_calls :: "data_blocks \<Rightarrow> (slice \<times> slice) list \<Rightarrow> (u64 \<times> slice list) list" where
  "filter_calls bs cur = map (\<lambda>j. (of_nat (block_pos bs j), map fst (snd (bs ! j)))) [0 ..< length bs]
     @ [(of_nat (length (chunks bs)), map fst cur)]"

lemma small_64: "n < 2 ^ 32 \<Longrightarrow> unat (of_nat n :: u64) = n"
  by (rule unat_of_nat_small) simp

lemma length_chunk [simp]: "length (chunk b) = length b + 5"
  by (simp add: chunk_def)

lemma chunks_snoc [simp]: "chunks (bs @ [b]) = chunks bs @ chunk (fst b)" "chunks [] = []"
  by (simp_all add: chunks_def)

lemma block_entries_snoc [simp]: "block_entries (bs @ [b]) = block_entries bs @ snd b" "block_entries [] = []"
  by (simp_all add: block_entries_def)

lemma block_pos_append: "j \<le> length bs \<Longrightarrow> block_pos (bs @ [b]) j = block_pos bs j"
  by (simp add: block_pos_def)

lemma block_pos_length: "block_pos bs (length bs) = length (chunks bs)"
  by (simp add: block_pos_def)

lemma block_handle_append: "j < length bs \<Longrightarrow> block_handle (bs @ [b]) j = block_handle bs j"
  by (simp add: block_handle_def block_pos_append nth_append)

lemma block_handle_last: "block_handle (bs @ [b]) (length bs) = handle_at (length (chunks bs)) (fst b)"
  by (simp add: block_handle_def block_pos_append block_pos_length)

lemma chunks_split: "chunks bs = chunks (take j bs) @ chunks (drop j bs)"
  unfolding chunks_def by (metis append_take_drop_id concat_append map_append)

lemma block_pos_le: "block_pos bs j \<le> length (chunks bs)"
  unfolding block_pos_def using chunks_split [of bs j] by simp

lemma block_pos_mono: "i \<le> j \<Longrightarrow> block_pos bs i \<le> block_pos bs j"
  using chunks_split [of "take j bs" i] by (simp add: block_pos_def min_absorb1)

lemma filter_calls_snoc: "filter_calls (bs @ [(b, cur)]) [] = filter_calls bs cur @ [(of_nat (length (chunks (bs @ [(b, cur)]))), [])]"
proof -
  have "map (\<lambda>j. (of_nat (block_pos (bs @ [(b, cur)]) j), map fst (snd ((bs @ [(b, cur)]) ! j)))) [0 ..< length bs]
      = map (\<lambda>j. (of_nat (block_pos bs j), map fst (snd (bs ! j)))) [0 ..< length bs]"
    by (rule map_cong) (simp_all add: block_pos_append nth_append)
  then show ?thesis unfolding filter_calls_def by (simp add: block_pos_append block_pos_length)
qed

lemma filter_calls_sorted:
  assumes "length (chunks bs) < 2 ^ 32"
  shows "sorted (map fst (filter_calls bs cur))"
proof -
  have u: "unat (of_nat (block_pos bs j) :: u64) = block_pos bs j" for j
    using assms block_pos_le [of bs j] by (intro unat_of_nat_small) simp
  have "map fst (filter_calls bs cur) = map (\<lambda>j. of_nat (block_pos bs j)) [0 ..< Suc (length bs)]"
    by (simp add: filter_calls_def o_def block_pos_length)
  moreover have "sorted (map (\<lambda>j. of_nat (block_pos bs j) :: u64) [0 ..< Suc (length bs)])"
    unfolding sorted_wrt_map sorted_map by (rule sorted_wrt_mono_rel [OF _ sorted_wrt_upt]) (simp add: word_le_nat_alt u block_pos_mono)
  ultimately show ?thesis by simp
qed

lemma filter_calls_keys: "concat (map snd (filter_calls bs cur)) = map fst (block_entries bs @ cur)"
proof -
  have "map snd (map (\<lambda>j. (of_nat (block_pos bs j) :: u64, map fst (snd (bs ! j)))) [0 ..< length bs]) = map (map fst \<circ> snd) bs"
    unfolding map_map by (rule nth_equalityI) auto
  then have "concat (map snd (filter_calls bs cur)) = concat (map (map fst \<circ> snd) bs) @ map fst cur"
    by (simp add: filter_calls_def)
  then show ?thesis by (simp add: block_entries_def map_concat)
qed

lemma filter_calls_mem:
  assumes "j < length bs"
  shows "(of_nat (block_pos bs j), map fst (snd (bs ! j))) \<in> set (filter_calls bs cur)"
  using assms by (simp add: filter_calls_def)

lemma run_blocks_append: "run_blocks policy (xs @ ys) b = do { b' \<leftarrow> run_blocks policy xs b; run_blocks policy ys b' }"
proof (induction xs arbitrary: b)
  case (Cons x xs)
  then show ?case by (cases x) simp
qed simp

lemma run_blocks_key:
  assumes "run_blocks policy (filter_calls bs cur) b = Some b'"
  shows "run_blocks policy (filter_calls bs (cur @ [(k, v)])) b = Some (fb_AddKey b' k)"
  using assms by (auto simp: filter_calls_def run_blocks_append split: bind_splits)

context filter_policy
begin

lemma calls_run:
  assumes "sorted (map fst calls)" "length (concat (map snd calls)) < 2 ^ 31" "\<forall>k \<in> set (concat (map snd calls)). valid_key k"
  shows "\<exists>b gs ks. run_blocks policy calls new_FilterBlockBuilder = Some b \<and> built policy gs ks b \<and> length ks < 2 ^ 31
    \<and> (\<forall>k \<in> set ks. valid_key k)
    \<and> (\<forall>(off, keys) \<in> set calls. block_index off \<le> length gs \<and> set keys \<subseteq> set ((gs @ [ks]) ! block_index off))"
proof -
  have v: "\<forall>(off, keys) \<in> set calls. length ([] :: slice list list) \<le> block_index off \<and> (\<forall>k \<in> set keys. valid_key k)"
    using assms(3) by auto
  have len: "length ([] :: slice list) + length (concat (map snd calls)) < 2 ^ 31" using assms(2) by simp
  show ?thesis using run_built [OF new_built _ len v assms(1)] by auto
qed

end

section \<open>The invariant of the builder\<close>

definition entries_ok :: "Comparator \<Rightarrow> (slice \<Rightarrow> bool) \<Rightarrow> (slice \<times> slice) list \<Rightarrow> bool" where
  "entries_ok c valid es \<longleftrightarrow> sorted_wrt (less_key (Compare c)) (map fst es) \<and> (\<forall>k \<in> set (map fst es). valid k)"

text \<open>
  The entries of the index: each key separates its block from what follows, and if it is not the
  last key of the block, it is not of the same kind as any key that follows.
\<close>

definition separates :: "Comparator \<Rightarrow> (slice \<Rightarrow> slice \<Rightarrow> bool) \<Rightarrow> slice \<Rightarrow> slice \<Rightarrow> slice \<Rightarrow> bool" where
  "separates c same lk sep k \<longleftrightarrow> less_key (Compare c) sep k \<and> (sep = lk \<or> \<not> same sep k)"

definition index_ok :: "Comparator \<Rightarrow> (slice \<Rightarrow> bool) \<Rightarrow> (slice \<Rightarrow> slice \<Rightarrow> bool) \<Rightarrow> data_blocks \<Rightarrow> (slice \<times> slice) list \<Rightarrow> (slice \<times> slice) list \<Rightarrow> bool" where
  "index_ok c valid same bs cur idx \<longleftrightarrow> (\<forall>j < length idx. valid (fst (idx ! j)) \<and> snd (idx ! j) = enc_handle (block_handle bs j)
     \<and> (\<forall>e \<in> set (snd (bs ! j)). \<not> less_key (Compare c) (fst (idx ! j)) (fst e))
     \<and> (\<forall>e \<in> set (block_entries (drop (Suc j) bs) @ cur). separates c same (fst (last (snd (bs ! j)))) (fst (idx ! j)) (fst e)))"

text \<open>
  What a table is built with. Keys of the same kind are neighbours in the order, and no separator but
  the key itself is of the kind of the key above it: for internal keys, those with the same user key.
\<close>

locale table_setting = key_comparator "opt_comparator opts" valid + writable_file wfile content
  for opts :: Options and valid :: "slice \<Rightarrow> bool" and wfile :: "'w WritableFile" and content :: "'w \<Rightarrow> byte list" +
  fixes same :: "slice \<Rightarrow> slice \<Rightarrow> bool"
  assumes interval: "1 \<le> block_restart_interval opts"
    and compression: "opt_compression opts = kNoCompression \<or> opt_compression opts = kSnappyCompression"
    and policies: "opt_filter_policy opts = Some (policy, name) \<Longrightarrow> filter_policy policy valid"
    and same_between: "valid a \<Longrightarrow> valid b \<Longrightarrow> valid d \<Longrightarrow> \<not> less_key (Compare (opt_comparator opts)) b a \<Longrightarrow>
      \<not> less_key (Compare (opt_comparator opts)) d b \<Longrightarrow> same a d \<Longrightarrow> same a b \<and> same b d"
    and same_separator: "valid a \<Longrightarrow> valid b \<Longrightarrow> less_key (Compare (opt_comparator opts)) a b \<Longrightarrow>
      FindShortestSeparator (opt_comparator opts) a b = Some s \<Longrightarrow> s = a \<or> \<not> same s b"
begin

abbreviation "lt \<equiv> less_key (Compare (opt_comparator opts))"
abbreviation "index_opts \<equiv> opts\<lparr>block_restart_interval := 1\<rparr>"

definition filter_at :: "TableBuilder \<Rightarrow> data_blocks \<Rightarrow> (slice \<times> slice) list \<Rightarrow> bool" where
  "filter_at r bs cur \<longleftrightarrow>
     (case opt_filter_policy opts of None \<Rightarrow> tb_filter_block r = None
      | Some (policy, name) \<Rightarrow> \<exists>fb. tb_filter_block r = Some (policy, fb) \<and> run_blocks policy (filter_calls bs cur) new_FilterBlockBuilder = Some fb)"

definition blocks_at :: "TableBuilder \<Rightarrow> 'w \<Rightarrow> data_blocks \<Rightarrow> bool" where
  "blocks_at r s bs \<longleftrightarrow> tb_options r = opts \<and> tb_index_options r = index_opts \<and> tb_status r = Status_OK
     \<and> content s = chunks bs \<and> length (chunks bs) < 2 ^ 32 \<and> tb_offset r = of_nat (length (chunks bs))
     \<and> (\<forall>b \<in> set bs. snd b \<noteq> [] \<and> stored_block (fst b) (snd b))"

definition index_at :: "TableBuilder \<Rightarrow> data_blocks \<Rightarrow> (slice \<times> slice) list \<Rightarrow> (slice \<times> slice) list \<Rightarrow> bool" where
  "index_at r bs cur idx \<longleftrightarrow> building index_opts (tb_index_block r) idx \<and> index_ok (opt_comparator opts) valid same bs cur idx
     \<and> (if tb_pending_index_entry r
        then bs \<noteq> [] \<and> cur = [] \<and> length idx = length bs - 1 \<and> tb_pending_handle r = block_handle bs (length bs - 1)
        else length idx = length bs \<and> (bs = [] \<or> cur \<noteq> []))"

lemma index_at_same: "index_at r bs cur idx \<Longrightarrow> tb_index_block r' = tb_index_block r \<and> tb_pending_index_entry r' = tb_pending_index_entry r
    \<and> tb_pending_handle r' = tb_pending_handle r \<and> x \<Longrightarrow> index_at r' bs cur idx"
  by (simp only: index_at_def, blast)

definition tb_at :: "TableBuilder \<Rightarrow> 'w \<Rightarrow> data_blocks \<Rightarrow> (slice \<times> slice) list \<Rightarrow> (slice \<times> slice) list \<Rightarrow> bool" where
  "tb_at r s bs cur idx \<longleftrightarrow> \<not> tb_closed r \<and> blocks_at r s bs \<and> index_at r bs cur idx \<and> filter_at r bs cur
     \<and> building opts (tb_data_block r) cur
     \<and> entries_ok (opt_comparator opts) valid (block_entries bs @ cur) \<and> length (block_entries bs @ cur) < 2 ^ 31
     \<and> tb_num_entries r = int (length (block_entries bs @ cur))
     \<and> (block_entries bs @ cur \<noteq> [] \<longrightarrow> tb_last_key r = fst (last (block_entries bs @ cur)))"

definition failed :: "TableBuilder \<Rightarrow> bool" where
  "failed r \<longleftrightarrow> \<not> tb_closed r \<and> \<not> tb_ok r"

text \<open>Writing a block.\<close>

definition written :: "TableBuilder \<Rightarrow> 'w \<Rightarrow> slice \<Rightarrow> TableBuilder \<Rightarrow> 'w \<Rightarrow> bool" where
  "written r s b r' s' \<longleftrightarrow> (\<exists>st off. r' = r\<lparr>tb_status := st, tb_offset := off\<rparr>
     \<and> (if Status_ok st then content s' = content s @ chunk b \<and> length (content s @ chunk b) < 2 ^ 32 \<and> off = tb_offset r + of_nat (length b + 5)
        else off = tb_offset r))"

lemma writtenI:
  assumes "Status_ok st \<Longrightarrow> content s' = content s @ chunk b" "Status_ok st \<Longrightarrow> length (content s') < 2 ^ 32"
  shows "written r s b (if Status_ok st then r\<lparr>tb_status := st, tb_offset := tb_offset r + of_nat (length b) + 5\<rparr> else r\<lparr>tb_status := st\<rparr>) s'"
proof (cases "Status_ok st")
  case True
  then show ?thesis using assms unfolding written_def
    by (intro exI [of _ st] exI [of _ "tb_offset r + of_nat (length b) + 5"]) simp
next
  case False
  then show ?thesis unfolding written_def by (intro exI [of _ st] exI [of _ "tb_offset r"]) simp
qed

lemma WriteRawBlock_ok:
  "\<exists>r' s'. WriteRawBlock wfile r b kNoCompression s = Some (\<lparr>bh_offset = tb_offset r, bh_size = of_nat (length b)\<rparr>, r', s') \<and> written r s b r' s'"
proof -
  obtain s1 d1 where a1: "wf_Append wfile b s = (s1, d1)" by fastforce
  show ?thesis
  proof (cases "Status_ok s1")
    case False
    then show ?thesis using writtenI [of s1 d1 s b r] by (simp add: WriteRawBlock_def a1 Let_def)
  next
    case True
    obtain s2 d2 where a2: "wf_Append wfile (block_trailer kNoCompression b) d1 = (s2, d2)" by fastforce
    have "WriteRawBlock wfile r b kNoCompression s = Some (\<lparr>bh_offset = tb_offset r, bh_size = of_nat (length b)\<rparr>,
        if Status_ok s2 then r\<lparr>tb_status := s2, tb_offset := tb_offset r + of_nat (length b) + 5\<rparr> else r\<lparr>tb_status := s2\<rparr>, d2)"
      using True a2 by (simp add: WriteRawBlock_def a1 Let_def crc_Value_bytes crc_Extend_crc32c block_trailer_def)
    moreover have "Status_ok s2 \<Longrightarrow> content d2 = content s @ chunk b \<and> length (content d2) < 2 ^ 32"
      using append_ok [OF a1 True] append_ok [OF a2] unfolding chunk_def by (metis append_assoc)
    ultimately show ?thesis using writtenI [of s2 d2 s b r] by blast
  qed
qed

lemma WriteBlock_ok:
  assumes r: "tb_ok r" "tb_options r = opts"
  shows "\<exists>r' s'. WriteBlock wfile r blk s = Some (\<lparr>bh_offset = tb_offset r, bh_size = of_nat (length (fst (bb_Finish blk)))\<rparr>,
      bb_Reset (snd (bb_Finish blk)), r', s') \<and> written r s (fst (bb_Finish blk)) r' s'"
proof -
  obtain raw blk1 where f: "bb_Finish blk = (raw, blk1)" by fastforce
  have w: "WriteBlock wfile r blk s = do { (handle, r1, dest1) \<leftarrow> WriteRawBlock wfile r raw kNoCompression s; Some (handle, bb_Reset blk1, r1, dest1) }"
    using r compression by (auto simp: WriteBlock_def f Let_def Snappy_Compress_def)
  obtain r' s' where "WriteRawBlock wfile r raw kNoCompression s = Some (\<lparr>bh_offset = tb_offset r, bh_size = of_nat (length raw)\<rparr>, r', s')"
      "written r s raw r' s'" using WriteRawBlock_ok by blast
  then show ?thesis by (simp add: w f)
qed

lemma written_cases:
  assumes "written r s b r' s'"
  obtains (ok) "tb_ok r'" "r' = r\<lparr>tb_status := Status_OK, tb_offset := tb_offset r + of_nat (length b + 5)\<rparr>" "content s' = content s @ chunk b"
      "length (content s @ chunk b) < 2 ^ 32"
  | (error) st where "\<not> tb_ok r'" "r' = r\<lparr>tb_status := st\<rparr>"
proof -
  obtain st off where w: "r' = r\<lparr>tb_status := st, tb_offset := off\<rparr>"
    "if Status_ok st then content s' = content s @ chunk b \<and> length (content s @ chunk b) < 2 ^ 32 \<and> off = tb_offset r + of_nat (length b + 5)
        else off = tb_offset r" using assms unfolding written_def by blast
  show thesis
  proof (cases "Status_ok st")
    case True
    then have "st = Status_OK" by (simp add: Status_ok_def Status_OK_def)
    then show thesis using ok w True by (simp add: tb_ok_def)
  next
    case False
    then have "r' = r\<lparr>tb_status := st\<rparr>" using w by simp
    then show thesis using error False by (simp add: tb_ok_def)
  qed
qed

text \<open>The filter builder at the start of a block: it has seen the calls for the blocks before.\<close>

lemma filter_at_same: "filter_at r bs cur \<Longrightarrow> tb_filter_block r' = tb_filter_block r \<Longrightarrow> filter_at r' bs cur"
  by (simp only: filter_at_def)

lemma StartBlock_runs:
  assumes f: "filter_at r bs cur" and len: "length (chunks bs) < 2 ^ 32" "length (block_entries bs @ cur) < 2 ^ 31"
    and v: "\<forall>k \<in> set (map fst (block_entries bs @ cur)). valid k" and off: "of_nat (length (chunks bs)) \<le> off"
  shows "\<exists>r'. on_filter (\<lambda>policy b. StartBlock policy b off) r = Some r' \<and> (\<exists>fb. r' = r\<lparr>tb_filter_block := fb\<rparr>)
    \<and> (case opt_filter_policy opts of None \<Rightarrow> tb_filter_block r' = None
       | Some (policy, name) \<Rightarrow> \<exists>fb. tb_filter_block r' = Some (policy, fb)
           \<and> run_blocks policy (filter_calls bs cur @ [(off, [])]) new_FilterBlockBuilder = Some fb)"
proof (cases "opt_filter_policy opts")
  case None
  then show ?thesis using f by (intro exI [of _ r]) (auto simp: filter_at_def on_filter_def intro: exI [of _ None])
next
  case (Some pn)
  obtain policy name where pn: "pn = (policy, name)" by fastforce
  then obtain fb where fb: "tb_filter_block r = Some (policy, fb)" "run_blocks policy (filter_calls bs cur) new_FilterBlockBuilder = Some fb"
    using f Some by (auto simp: filter_at_def)
  let ?calls = "filter_calls bs cur @ [(off, [])]"
  have "sorted (map fst (filter_calls bs cur))" by (rule filter_calls_sorted [OF len(1)])
  moreover have "\<forall>x \<in> set (map fst (filter_calls bs cur)). x \<le> off"
  proof -
    have "(of_nat (block_pos bs j) :: u64) \<le> of_nat (length (chunks bs))" for j
      using len(1) block_pos_le [of bs j] by (simp add: word_le_nat_alt unat_of_nat_small)
    then show ?thesis using off by (auto simp: filter_calls_def intro: order_trans)
  qed
  ultimately have "sorted (map fst ?calls)" by (simp add: sorted_append)
  moreover have "concat (map snd ?calls) = map fst (block_entries bs @ cur)" using filter_calls_keys by simp
  ultimately obtain b where "run_blocks policy ?calls new_FilterBlockBuilder = Some b"
    using filter_policy.calls_run [OF policies [OF Some [unfolded pn]], of ?calls] len(2) v by auto
  then obtain b' where "StartBlock policy fb off = Some b'" "run_blocks policy ?calls new_FilterBlockBuilder = Some b'"
    using fb(2) by (auto simp: run_blocks_append split: bind_splits)
  then show ?thesis using fb(1) Some pn by (simp add: on_filter_def) blast
qed

text \<open>The entry of the index for the last block.\<close>

lemma handle_encodes:
  assumes "length (chunks bs) < 2 ^ 32" "bs \<noteq> []"
  shows "bh_EncodeTo (block_handle bs (length bs - 1)) [] = Some (enc_handle (block_handle bs (length bs - 1)))"
proof -
  obtain bs' b where bs: "bs = bs' @ [b]" using assms(2) by (cases bs rule: rev_cases) auto
  have "length (chunks bs') < 2 ^ 32" "length (fst b) < 2 ^ 32" using assms(1) by (simp_all add: bs)
  then have "unat (of_nat (length (chunks bs')) :: u64) < 2 ^ 32" "unat (of_nat (length (fst b)) :: u64) < 2 ^ 32" by (simp_all add: unat_of_nat_small)
  moreover have "unat (- 1 :: u64) = 2 ^ 64 - 1"
  proof -
    have "(- 1 :: u64) = 0xffffffffffffffff" by simp
    then show ?thesis by (simp only:) simp
  qed
  ultimately have "(of_nat (length (chunks bs')) :: u64) \<noteq> - 1" "(of_nat (length (fst b)) :: u64) \<noteq> - 1" by auto
  then show ?thesis by (simp add: bs block_handle_last bh_EncodeTo_append enc_handle_def handle_at_def)
qed

lemma add_index_ok:
  assumes b: "length (chunks bs) < 2 ^ 32" "\<forall>b \<in> set bs. snd b \<noteq> []" "tb_index_options r = index_opts"
    and ix: "index_at r bs [] idx" "tb_pending_index_entry r"
    and es: "entries_ok (opt_comparator opts) valid (block_entries bs)" and last: "tb_last_key r = fst (last (block_entries bs))"
    and sep: "valid sep" "\<not> lt sep (tb_last_key r)"
  shows "\<exists>r'. add_index_entry (Some sep) r = Some r' \<and> (\<exists>ib. r' = r\<lparr>tb_last_key := sep, tb_index_block := ib, tb_pending_index_entry := False\<rparr>)
    \<and> (\<exists>idx'. building index_opts (tb_index_block r') idx' \<and> index_ok (opt_comparator opts) valid same bs [] idx' \<and> length idx' = length bs
        \<and> fst (last idx') = sep)"
proof -
  let ?n = "length bs - 1"
  note i = ix(1) [unfolded index_at_def if_P [OF ix(2)]]
  have bs: "bs \<noteq> []" "?n < length bs" using i by simp_all
  have len: "length idx = ?n" and io: "index_ok (opt_comparator opts) valid same bs [] idx" and pend: "tb_pending_handle r = block_handle bs ?n" using i by blast+
  have enc: "bh_EncodeTo (tb_pending_handle r) [] = Some (enc_handle (block_handle bs ?n))"
    using handle_encodes [OF b(1) bs(1)] pend by simp
  obtain bs' x where bs': "bs = bs' @ [x]" using bs(1) by (cases bs rule: rev_cases) auto
  have x: "snd x \<noteq> []" using b(2) by (simp add: bs')
  have lk: "tb_last_key r = fst (last (snd x))" using last x by (simp add: bs')
  have all: "e \<in> set (snd x) \<Longrightarrow> valid (fst e) \<and> (lt (fst e) (tb_last_key r) \<or> fst e = tb_last_key r)" for e
  proof -
    assume e: "e \<in> set (snd x)"
    obtain ys y where ys: "snd x = ys @ [y]" using x by (cases "snd x" rule: rev_cases) auto
    have "entries_ok (opt_comparator opts) valid (block_entries bs' @ ys @ [y])" using es by (simp add: bs' ys)
    then show ?thesis using e lk unfolding ys entries_ok_def by (auto simp: sorted_wrt_append)
  qed
  have vl: "valid (tb_last_key r)" using all [of "last (snd x)"] x lk by simp
  have ge: "\<not> lt sep (fst e)" if "e \<in> set (snd x)" for e
    using all [OF that] sep(2) less_trans [OF sep(1) _ vl, of "fst e"] by auto
  have up: "\<exists>r'. Compare (opt_comparator index_opts) sep (fst (last idx)) = Some r' \<and> r' > 0" if ne: "idx \<noteq> []"
  proof -
    have pos: "0 < length idx" using ne by simp
    have l: "last idx = idx ! (?n - 1)" "?n - 1 < length idx" "Suc (?n - 1) = ?n" using ne len pos by (simp add: last_conv_nth, linarith+)
    have xd: "x \<in> set (drop (Suc (?n - 1)) bs)" unfolding l(3) by (simp add: bs')
    then have "last (snd x) \<in> set (block_entries (drop (Suc (?n - 1)) bs) @ [])"
      unfolding block_entries_def append_Nil2 set_concat set_map using last_in_set [OF x] by blast
    then have "lt (fst (last idx)) (tb_last_key r)" "valid (fst (last idx))" using io l lk unfolding index_ok_def separates_def by auto
    then have "lt (fst (last idx)) sep"
      using less_cases [OF vl sep(1)] sep(2) less_trans [OF _ vl sep(1)] less_same_trans [OF _ vl sep(1)] by metis
    then show ?thesis using greater_swap [OF \<open>valid (fst (last idx))\<close> sep(1)] by simp
  qed
  obtain ib where ib: "bb_Add index_opts (tb_index_block r) sep (enc_handle (block_handle bs ?n)) = Some ib"
      "building index_opts ib (idx @ [(sep, enc_handle (block_handle bs ?n))])"
    using building_Add [OF _ up] i by blast
  let ?idx = "idx @ [(sep, enc_handle (block_handle bs ?n))]"
  have "index_ok (opt_comparator opts) valid same bs [] ?idx"
    unfolding index_ok_def
  proof (intro allI impI)
    fix j assume j: "j < length ?idx"
    show "valid (fst (?idx ! j)) \<and> snd (?idx ! j) = enc_handle (block_handle bs j) \<and> (\<forall>e\<in>set (snd (bs ! j)). \<not> lt (fst (?idx ! j)) (fst e))
      \<and> (\<forall>e\<in>set (block_entries (drop (Suc j) bs) @ []). separates (opt_comparator opts) same (fst (last (snd (bs ! j)))) (fst (?idx ! j)) (fst e))"
    proof (cases "j < length idx")
      case True
      then show ?thesis using io unfolding index_ok_def by (simp add: nth_append)
    next
      case False
      then have "j = length bs'" using j len by (simp add: bs')
      then show ?thesis using sep(1) ge len by (simp add: bs' nth_append block_entries_def)
    qed
  qed
  moreover have "length ?idx = length bs" using len bs(2) by simp
  ultimately show ?thesis using enc ib b(3) by (auto simp: add_index_entry_def intro!: exI [of _ ?idx])
qed

text \<open>\<open>Flush\<close> turns the current entries into a block.\<close>

lemma filter_at_block:
  assumes "case opt_filter_policy opts of None \<Rightarrow> tb_filter_block r' = None
       | Some (policy, name) \<Rightarrow> \<exists>fb. tb_filter_block r' = Some (policy, fb)
           \<and> run_blocks policy (filter_calls bs cur @ [(of_nat (length (chunks (bs @ [(b, cur)]))), [])]) new_FilterBlockBuilder = Some fb"
  shows "filter_at r' (bs @ [(b, cur)]) []"
  using assms unfolding filter_at_def filter_calls_snoc [of bs b cur] .

lemma index_ok_block: "index_ok c v sm bs cur idx \<Longrightarrow> length idx \<le> length bs \<Longrightarrow> index_ok c v sm (bs @ [(b, cur)]) [] idx"
  unfolding index_ok_def by (auto simp: nth_append block_handle_append)

lemma Flush_ok:
  assumes inv: "tb_at r s bs cur idx"
  shows "\<exists>r' s'. tb_Flush wfile r s = Some (r', s') \<and>
    (failed r' \<or> (\<exists>bs' idx'. tb_at r' s' bs' [] idx' \<and> block_entries bs' = block_entries bs @ cur))"
proof (cases "cur = []")
  case True
  have "bb_empty (tb_data_block r)" using inv building_empty True unfolding tb_at_def by blast
  moreover have "\<not> tb_closed r" using inv by (simp add: tb_at_def)
  ultimately have "tb_Flush wfile r s = Some (r, s)" by (simp add: tb_Flush_def)
  then show ?thesis using inv True by auto
next
  case False
  note i = inv [unfolded tb_at_def blocks_at_def]
  have fl: "filter_at r bs cur" and db: "building opts (tb_data_block r) cur" and closed: "\<not> tb_closed r" and ok: "tb_ok r"
    and small: "length (chunks bs) < 2 ^ 32" and off: "tb_offset r = of_nat (length (chunks bs))" and o: "tb_options r = opts"
    and cont: "content s = chunks bs" and n31: "length (block_entries bs @ cur) < 2 ^ 31"
    using i by (simp_all add: tb_ok_def Status_ok_def Status_OK_def)
  have v: "\<forall>k \<in> set (map fst (block_entries bs @ cur)). valid k" using i by (simp add: entries_ok_def)
  have pend: "\<not> tb_pending_index_entry r" and len: "length idx = length bs" and io: "index_ok (opt_comparator opts) valid same bs cur idx"
    using i False by (simp_all add: index_at_def split: if_splits)
  have ne: "\<not> bb_empty (tb_data_block r)" using building_empty [OF db] False by simp
  let ?b = "fst (bb_Finish (tb_data_block r))" and ?h = "\<lparr>bh_offset = tb_offset r, bh_size = of_nat (length (fst (bb_Finish (tb_data_block r))))\<rparr>"
  let ?bs = "bs @ [(?b, cur)]"
  obtain r1 s1 where w: "WriteBlock wfile r (tb_data_block r) s = Some (?h, bb_Reset (snd (bb_Finish (tb_data_block r))), r1, s1)"
      "written r s ?b r1 s1" using WriteBlock_ok [OF ok o] by blast
  let ?r2 = "r1\<lparr>tb_data_block := bb_Reset (snd (bb_Finish (tb_data_block r))), tb_pending_handle := ?h\<rparr>"
  have flush: "tb_Flush wfile r s =
      (let (r3, s3) = (if tb_ok ?r2 then (let (st, s2) = wf_Flush wfile s1 in (?r2\<lparr>tb_pending_index_entry := True, tb_status := st\<rparr>, s2)) else (?r2, s1))
       in do { r4 \<leftarrow> on_filter (\<lambda>policy b. StartBlock policy b (tb_offset r3)) r3; Some (r4, s3) })"
    using closed ok ne pend w(1) by (simp add: tb_Flush_def Let_def split: prod.splits)
  from w(2) show ?thesis
  proof (cases rule: written_cases)
    case (error st)
    have nok: "\<not> tb_ok ?r2" using error(1) by (simp add: tb_ok_def)
    have "filter_at ?r2 bs cur" by (rule filter_at_same [OF fl]) (simp add: error(2))
    then obtain r4 fb where r4: "on_filter (\<lambda>policy b. StartBlock policy b (tb_offset r)) ?r2 = Some r4" "r4 = ?r2\<lparr>tb_filter_block := fb\<rparr>"
      using StartBlock_runs [OF _ small n31 v, of ?r2 "tb_offset r"] off by auto
    moreover have "tb_offset ?r2 = tb_offset r" using error(2) by simp
    ultimately have "tb_Flush wfile r s = Some (r4, s1)" unfolding flush if_not_P [OF nok] by simp
    moreover have "failed r4" using r4(2) nok closed error(2) by (simp add: failed_def tb_ok_def)
    ultimately show ?thesis by blast
  next
    case w_ok: ok
    obtain st s2 where fs: "wf_Flush wfile s1 = (st, s2)" by fastforce
    let ?r3 = "?r2\<lparr>tb_pending_index_entry := True, tb_status := st\<rparr>"
    have cs: "chunks ?bs = content s @ chunk ?b" using cont by simp
    have small': "length (chunks ?bs) < 2 ^ 32" unfolding cs by (rule w_ok(4))
    have off3: "tb_offset ?r3 = of_nat (length (chunks ?bs))" using w_ok(2) off by simp
    have le: "(of_nat (length (chunks bs)) :: u64) \<le> of_nat (length (chunks ?bs))"
      unfolding word_le_nat_alt small_64 [OF small] small_64 [OF small'] by simp
    have f3: "filter_at ?r3 bs cur" by (rule filter_at_same [OF fl]) (simp add: w_ok(2))
    let ?calls = "filter_calls bs cur @ [(of_nat (length (chunks ?bs)), [])]"
    obtain r4 fb where r4: "on_filter (\<lambda>policy b. StartBlock policy b (of_nat (length (chunks ?bs)))) ?r3 = Some r4" "r4 = ?r3\<lparr>tb_filter_block := fb\<rparr>"
      and c4: "case opt_filter_policy opts of None \<Rightarrow> tb_filter_block r4 = None
       | Some (policy, name) \<Rightarrow> \<exists>fb. tb_filter_block r4 = Some (policy, fb) \<and> run_blocks policy ?calls new_FilterBlockBuilder = Some fb"
      using StartBlock_runs [OF f3 small n31 v le] by (elim exE conjE) (rule that)
    note f4 = filter_at_block [OF c4]
    have run: "tb_Flush wfile r s = Some (r4, s2)" using w_ok(1) fs r4(1) [folded off3] unfolding flush by (simp add: tb_ok_def)
    show ?thesis
    proof (cases "Status_ok st")
      case bad: False
      then have "failed r4" using r4(2) closed w_ok(2) by (simp add: failed_def tb_ok_def)
      then show ?thesis using run by blast
    next
      case good: True
      have st: "st = Status_OK" using good by (simp add: Status_ok_def Status_OK_def)
      have "blocks_at r4 s2 ?bs"
        using i r4(2) w_ok(2) st flush_ok [OF fs good] w_ok(3) cs small' off3 building_finished [OF db] False
        unfolding blocks_at_def by auto
      moreover have "index_at r4 ?bs [] idx"
        using i index_ok_block [OF io, of ?b] len r4(2) w_ok(2) off
        by (simp add: index_at_def block_handle_last handle_at_def)
      moreover have "building opts (tb_data_block r4) []" using r4(2) reset_building [OF interval] by simp
      ultimately have "tb_at r4 s2 ?bs [] idx"
        using i f4 r4(2) w_ok(2) unfolding tb_at_def by simp
      then show ?thesis using run by (intro exI [of _ r4] exI [of _ s2]) auto
    qed
  qed
qed

text \<open>\<open>Add\<close>: the keys of the index are below the new key.\<close>

lemma entries_split: "block_entries bs = block_entries (take j bs) @ block_entries (drop j bs)"
  unfolding block_entries_def by (metis append_take_drop_id concat_append map_append)

lemma index_below:
  assumes io: "index_ok (opt_comparator opts) valid same bs cur idx" and j: "j < length idx" and ne: "block_entries (drop (Suc j) bs) @ cur \<noteq> []"
    and k: "valid k" "lt (fst (last (block_entries bs @ cur))) k" "valid (fst (last (block_entries bs @ cur)))"
  shows "separates (opt_comparator opts) same (fst (last (snd (bs ! j)))) (fst (idx ! j)) k"
proof -
  let ?later = "block_entries (drop (Suc j) bs) @ cur" and ?i = "fst (idx ! j)"
  have "block_entries bs @ cur = block_entries (take (Suc j) bs) @ ?later" using entries_split [of bs "Suc j"] by simp
  then have l: "last (block_entries bs @ cur) = last ?later" using ne by (metis last_append)
  have "last ?later \<in> set ?later" using ne by (rule last_in_set)
  then have s: "separates (opt_comparator opts) same (fst (last (snd (bs ! j)))) ?i (fst (last ?later))" and vi: "valid ?i"
    using io j unfolding index_ok_def by blast+
  note vl = k(3) [unfolded l] and up = k(2) [unfolded l]
  have "lt ?i (fst (last ?later))" using s by (simp add: separates_def)
  moreover have "\<not> lt (fst (last ?later)) ?i" "\<not> lt k (fst (last ?later))"
    using less_cases [OF vi vl] less_cases [OF vl k(1)] calculation up by metis+
  ultimately show ?thesis
    using s less_trans [OF vi vl k(1) _ up] same_between [OF vi vl k(1)] unfolding separates_def by blast
qed

lemma index_ok_add:
  assumes "index_ok (opt_comparator opts) valid same bs cur idx"
    and "\<forall>j < length idx. separates (opt_comparator opts) same (fst (last (snd (bs ! j)))) (fst (idx ! j)) k"
  shows "index_ok (opt_comparator opts) valid same bs (cur @ [(k, v)]) idx"
  using assms unfolding index_ok_def by auto

lemma sorted_snoc:
  assumes es: "entries_ok (opt_comparator opts) valid es" and k: "valid k" and up: "es \<noteq> [] \<Longrightarrow> lt (fst (last es)) k"
  shows "entries_ok (opt_comparator opts) valid (es @ [(k, v)])"
proof (cases es rule: rev_cases)
  case (snoc ys y)
  have vy: "valid (fst y)" and y: "lt (fst y) k" using es up by (simp_all add: snoc entries_ok_def)
  have "lt (fst e) k" if "e \<in> set ys" for e
    using es less_trans [OF _ vy k _ y] that by (auto simp: snoc entries_ok_def sorted_wrt_append)
  then show ?thesis using es k y by (auto simp: snoc entries_ok_def sorted_wrt_append)
qed (simp add: entries_ok_def k)

text \<open>The first part of \<open>Add\<close>, which completes the index.\<close>

lemma Add_index:
  assumes inv: "tb_at r s bs cur idx" and k: "valid k" and up: "block_entries bs @ cur \<noteq> [] \<Longrightarrow> lt (fst (last (block_entries bs @ cur))) k"
  shows "\<exists>r1 idx1. (if tb_pending_index_entry r then
        (if bb_empty (tb_data_block r) then add_index_entry (FindShortestSeparator (opt_comparator opts) (tb_last_key r) k) r else None)
      else Some r) = Some r1
    \<and> (\<exists>lk ib. r1 = r\<lparr>tb_last_key := lk, tb_index_block := ib, tb_pending_index_entry := False\<rparr>)
    \<and> building index_opts (tb_index_block r1) idx1 \<and> length idx1 = length bs \<and> index_ok (opt_comparator opts) valid same bs (cur @ [(k, v)]) idx1"
proof (cases "tb_pending_index_entry r")
  case False
  note i = inv [unfolded tb_at_def index_at_def if_not_P [OF False]]
  have idx: "building index_opts (tb_index_block r) idx" "index_ok (opt_comparator opts) valid same bs cur idx" "length idx = length bs" "bs = [] \<or> cur \<noteq> []"
    using i by blast+
  have v: "cur \<noteq> [] \<Longrightarrow> valid (fst (last (block_entries bs @ cur)))" using i by (simp add: entries_ok_def)
  have "\<forall>j < length idx. separates (opt_comparator opts) same (fst (last (snd (bs ! j)))) (fst (idx ! j)) k"
    using index_below [OF idx(2) _ _ k] up v idx(3,4) by auto
  then have "index_ok (opt_comparator opts) valid same bs (cur @ [(k, v)]) idx" by (rule index_ok_add [OF idx(2)])
  then show ?thesis using False idx by (intro exI [of _ r] exI [of _ idx] conjI exI [of _ "tb_last_key r"] exI [of _ "tb_index_block r"]) simp_all
next
  case True
  note i = inv [unfolded tb_at_def index_at_def if_P [OF True]]
  have cur: "cur = []" and bs: "bs \<noteq> []" using i by blast+
  have b: "blocks_at r s bs" using i by blast
  have db: "bb_empty (tb_data_block r)" using i cur building_empty by blast
  have es: "entries_ok (opt_comparator opts) valid (block_entries bs)" using i cur by simp
  have last_ne: "snd (last bs) \<noteq> []" using b bs by (simp add: blocks_at_def)
  have ne: "block_entries bs \<noteq> []"
    using last_ne bs unfolding block_entries_def by (metis concat_eq_Nil_conv last_in_set list.set_map image_eqI)
  have lk: "tb_last_key r = fst (last (block_entries bs))" using i cur ne by simp
  have vl: "valid (tb_last_key r)" using es ne lk by (simp add: entries_ok_def)
  have up': "lt (tb_last_key r) k" using up ne lk cur by simp
  obtain sep where sep: "FindShortestSeparator (opt_comparator opts) (tb_last_key r) k = Some sep" "valid sep" "\<not> lt sep (tb_last_key r)" "lt sep k"
    using separator [OF vl k up'] by blast
  have ia: "index_at r bs [] idx" using i cur True by (simp add: index_at_def)
  obtain r1 idx1 where r1: "add_index_entry (Some sep) r = Some r1" "\<exists>ib. r1 = r\<lparr>tb_last_key := sep, tb_index_block := ib, tb_pending_index_entry := False\<rparr>"
      "building index_opts (tb_index_block r1) idx1" "index_ok (opt_comparator opts) valid same bs [] idx1" "length idx1 = length bs" "fst (last idx1) = sep"
    using add_index_ok [OF _ _ _ ia True es lk sep(2,3)] b unfolding blocks_at_def by blast
  have s_sep: "sep = tb_last_key r \<or> \<not> same sep k" by (rule same_separator [OF vl k up' sep(1)])
  have "separates (opt_comparator opts) same (fst (last (snd (bs ! j)))) (fst (idx1 ! j)) k" if j: "j < length idx1" for j
  proof (cases "Suc j < length bs")
    case True
    have "last bs \<in> set (drop (Suc j) bs)" using True by (metis drop_eq_Nil2 last_drop last_in_set not_le)
    then have ne_later: "block_entries (drop (Suc j) bs) @ [] \<noteq> []" using last_ne by (auto simp: block_entries_def)
    show ?thesis using index_below [OF r1(4) j ne_later k] up' vl lk by simp
  next
    case False
    then have jl: "j = length idx1 - 1" "j = length bs - 1" using j r1(5) by simp_all
    have "idx1 \<noteq> []" using j by auto
    then have "idx1 ! j = last idx1" using jl(1) by (simp add: last_conv_nth)
    moreover have "fst (last (snd (bs ! j))) = tb_last_key r"
      using bs last_ne lk jl(2) by (cases bs rule: rev_cases) (simp_all add: nth_append)
    ultimately show ?thesis using r1(6) sep(4) s_sep by (simp add: separates_def)
  qed
  then have "index_ok (opt_comparator opts) valid same bs (cur @ [(k, v)]) idx1" using index_ok_add [OF r1(4)] cur by simp
  then show ?thesis using True db sep(1) r1 by (intro exI [of _ r1] exI [of _ idx1]) auto
qed

lemma AddKey_ok:
  assumes "filter_at r bs cur"
  shows "\<exists>r'. on_filter (\<lambda>policy b. Some (fb_AddKey b k)) r = Some r' \<and> filter_at r' bs (cur @ [(k, v)]) \<and> (\<exists>fb. r' = r\<lparr>tb_filter_block := fb\<rparr>)"
proof (cases "opt_filter_policy opts")
  case None
  then show ?thesis using assms by (intro exI [of _ r]) (auto simp: filter_at_def on_filter_def intro: exI [of _ None])
next
  case (Some pn)
  obtain policy name where pn: "pn = (policy, name)" by fastforce
  then obtain fb where fb: "tb_filter_block r = Some (policy, fb)" "run_blocks policy (filter_calls bs cur) new_FilterBlockBuilder = Some fb"
    using assms Some by (auto simp: filter_at_def)
  then show ?thesis using Some pn run_blocks_key [OF fb(2), of k v] by (auto simp: on_filter_def filter_at_def)
qed

lemma Add_ok:
  assumes inv: "tb_at r s bs cur idx" and k: "valid k" and up: "block_entries bs @ cur \<noteq> [] \<Longrightarrow> lt (fst (last (block_entries bs @ cur))) k"
    and n: "length (block_entries bs @ cur) + 1 < 2 ^ 31"
  shows "\<exists>r' s'. tb_Add wfile r k v s = Some (r', s') \<and>
    (failed r' \<or> (\<exists>bs' cur' idx'. tb_at r' s' bs' cur' idx' \<and> block_entries bs' @ cur' = (block_entries bs @ cur) @ [(k, v)]))"
proof -
  note i = inv [unfolded tb_at_def blocks_at_def]
  have o: "tb_options r = opts" and closed: "\<not> tb_closed r" and ok: "tb_ok r" using i by (simp_all add: tb_ok_def Status_ok_def Status_OK_def)
  have es: "entries_ok (opt_comparator opts) valid (block_entries bs @ cur)" using i by blast
  have inc: "(if tb_num_entries r > 0 then do { x \<leftarrow> Compare (opt_comparator (tb_options r)) k (tb_last_key r); Some (x > 0) } else Some True) = Some True"
  proof (cases "block_entries bs @ cur = []")
    case False
    have lk: "tb_last_key r = fst (last (block_entries bs @ cur))" using i False by blast
    have "valid (tb_last_key r)" unfolding lk using es False unfolding entries_ok_def by (metis last_in_set list.set_map image_eqI)
    from greater_swap [OF this k] up [OF False] show ?thesis by (auto simp: o lk)
  qed (use i in simp)
  obtain r1 idx1 lk ib where r1: "(if tb_pending_index_entry r then
        (if bb_empty (tb_data_block r) then add_index_entry (FindShortestSeparator (opt_comparator opts) (tb_last_key r) k) r else None)
      else Some r) = Some r1" "r1 = r\<lparr>tb_last_key := lk, tb_index_block := ib, tb_pending_index_entry := False\<rparr>"
      "building index_opts (tb_index_block r1) idx1" "length idx1 = length bs" "index_ok (opt_comparator opts) valid same bs (cur @ [(k, v)]) idx1"
    using Add_index [OF inv k up] by blast
  have f1: "filter_at r1 bs cur" by (rule filter_at_same [of r]) (use i r1(2) in simp_all)
  obtain r2 fb where r2: "on_filter (\<lambda>policy b. Some (fb_AddKey b k)) r1 = Some r2" "filter_at r2 bs (cur @ [(k, v)])" "r2 = r1\<lparr>tb_filter_block := fb\<rparr>"
    using AddKey_ok [OF f1] by blast
  have "cur \<noteq> [] \<Longrightarrow> \<exists>x. Compare (opt_comparator opts) k (fst (last cur)) = Some x \<and> x > 0"
  proof -
    assume c: "cur \<noteq> []"
    have "valid (fst (last cur))" using es c by (simp add: entries_ok_def)
    then show ?thesis using greater_swap [OF _ k] up c by simp
  qed
  then obtain db where db: "bb_Add opts (tb_data_block r) k v = Some db" "building opts db (cur @ [(k, v)])"
    using building_Add [of opts "tb_data_block r" cur k v] i by blast
  let ?r3 = "r2\<lparr>tb_last_key := k, tb_num_entries := tb_num_entries r2 + 1, tb_data_block := db\<rparr>"
  have run: "tb_Add wfile r k v s = (if bb_CurrentSizeEstimate db \<ge> unat (block_size (tb_options ?r3)) then tb_Flush wfile ?r3 s else Some (?r3, s))"
  proof -
    have nok: "(\<not> tb_ok r) = False" using ok by simp
    have o2: "tb_options r2 = opts" "tb_data_block r2 = tb_data_block r" using r2(3) r1(2) o by simp_all
    show ?thesis unfolding tb_Add_def o inc [unfolded o] if_not_P [OF closed] nok if_False r1(1) by (simp add: r2(1) o2 db(1) Let_def)
  qed
  have "block_entries bs @ cur @ [(k, v)] = (block_entries bs @ cur) @ [(k, v)]" by simp
  then have es': "entries_ok (opt_comparator opts) valid (block_entries bs @ cur @ [(k, v)])"
    using sorted_snoc [OF es k up] by metis
  have "filter_at ?r3 bs (cur @ [(k, v)])" by (rule filter_at_same [OF r2(2)]) simp
  then have inv3: "tb_at ?r3 s bs (cur @ [(k, v)]) idx1"
    using i r1 r2(3) db(2) es' n unfolding tb_at_def blocks_at_def index_at_def by simp
  show ?thesis
  proof (cases "bb_CurrentSizeEstimate db \<ge> unat (block_size (tb_options ?r3))")
    case True
    then show ?thesis using Flush_ok [OF inv3] run by (metis append.right_neutral append_assoc)
  next
    case False
    then show ?thesis using inv3 run by (metis append_assoc)
  qed
qed

section \<open>Finishing\<close>

text \<open>A handle of a block within 4 GB can be encoded.\<close>

lemma handle_set_at: "p < 2 ^ 32 \<Longrightarrow> length b < 2 ^ 32 \<Longrightarrow> handle_set (handle_at p b)"
proof -
  assume a: "p < 2 ^ 32" "length b < 2 ^ 32"
  have m: "(- 1 :: u64) = 0xffffffffffffffff" by simp
  have "unat (- 1 :: u64) = 2 ^ 64 - 1" unfolding m by simp
  then have "n < 2 ^ 32 \<Longrightarrow> (of_nat n :: u64) \<noteq> - 1" for n using small_64 [of n] by auto
  then show ?thesis using a by (simp add: handle_set_def handle_at_def)
qed

lemma encode_handle_at: "p < 2 ^ 32 \<Longrightarrow> length b < 2 ^ 32 \<Longrightarrow> bh_EncodeTo (handle_at p b) [] = Some (enc_handle (handle_at p b))"
  using handle_set_at [of p b] by (simp add: bh_EncodeTo_append handle_set_def enc_handle_def)

text \<open>The file is a prefix of known bytes.\<close>

definition tail_at :: "TableBuilder \<Rightarrow> 'w \<Rightarrow> byte list \<Rightarrow> bool" where
  "tail_at r s pre \<longleftrightarrow> tb_options r = opts \<and> tb_index_options r = index_opts \<and> tb_closed r \<and> tb_ok r
     \<and> content s = pre \<and> length pre < 2 ^ 32 \<and> tb_offset r = of_nat (length pre)"

lemma tail_written:
  assumes "tail_at r s pre" "written r s b r' s'"
  shows "tb_ok r' \<Longrightarrow> tail_at r' s' (pre @ chunk b) \<and> (\<exists>st off. r' = r\<lparr>tb_status := st, tb_offset := off\<rparr>)" "tb_closed r'"
  using assms(2) by (cases rule: written_cases; use assms(1) in \<open>auto simp: tail_at_def\<close>)+

lemma tail_error:
  assumes "\<not> tb_ok r"
  shows "write_filter wfile r s = Some (new_BlockHandle, r, s)" "write_metaindex wfile fh r s = Some (new_BlockHandle, r, s)"
    "write_index wfile r s = Some (new_BlockHandle, r, s)" "write_footer wfile mh ih r s = Some (r, s)"
  using assms by (simp_all add: write_filter_def write_metaindex_def write_index_def write_footer_def split: option.splits)

lemma write_footer_ok:
  assumes t: "tail_at r s pre" and h: "handle_set mh" "handle_set ih"
  shows "\<exists>r' s'. write_footer wfile mh ih r s = Some (r', s') \<and> tb_closed r' \<and>
    (tb_ok r' \<longrightarrow> content s' = pre @ footer_bytes \<lparr>metaindex_handle = mh, index_handle = ih\<rparr> \<and> length (content s') < 2 ^ 32)"
proof -
  let ?f = "footer_bytes \<lparr>metaindex_handle = mh, index_handle = ih\<rparr>"
  obtain st s' where a: "wf_Append wfile ?f s = (st, s')" by fastforce
  have e: "footer_EncodeTo \<lparr>metaindex_handle = mh, index_handle = ih\<rparr> [] = Some ?f" using h by (intro footer_Encode) simp_all
  show ?thesis using t append_ok [OF a] by (cases "Status_ok st") (auto simp: write_footer_def e a tail_at_def tb_ok_def)
qed

lemma write_index_ok:
  assumes t: "tail_at r s pre" and small: "length (chunks bs) < 2 ^ 32" and full: "\<forall>b \<in> set bs. snd b \<noteq> []"
    and ix: "index_at r bs [] idx" and es: "entries_ok (opt_comparator opts) valid (block_entries bs)"
    and last: "block_entries bs \<noteq> [] \<Longrightarrow> tb_last_key r = fst (last (block_entries bs))"
  shows "\<exists>ih r' s' ib idx'. write_index wfile r s = Some (ih, r', s') \<and> tb_closed r' \<and> stored_block ib idx'
    \<and> index_ok (opt_comparator opts) valid same bs [] idx' \<and> length idx' = length bs
    \<and> (tb_ok r' \<longrightarrow> tail_at r' s' (pre @ chunk ib) \<and> ih = handle_at (length pre) ib)"
proof -
  have ok: "tb_ok r" "tb_options r = opts" "tb_index_options r = index_opts" using t by (simp_all add: tail_at_def)
  obtain r1 idx' lk ib pd where r1: "(if tb_pending_index_entry r
      then add_index_entry (FindShortSuccessor (opt_comparator (tb_options r)) (tb_last_key r)) r else Some r) = Some r1"
      "r1 = r\<lparr>tb_last_key := lk, tb_index_block := ib, tb_pending_index_entry := pd\<rparr>" "building index_opts (tb_index_block r1) idx'"
      "index_ok (opt_comparator opts) valid same bs [] idx'" "length idx' = length bs"
  proof (cases "tb_pending_index_entry r")
    case False
    have "building index_opts (tb_index_block r) idx" "index_ok (opt_comparator opts) valid same bs [] idx" "length idx = length bs"
      using ix unfolding index_at_def if_not_P [OF False] by blast+
    then show thesis using that [of r "tb_pending_index_entry r" "tb_index_block r" "tb_last_key r" idx] False by simp
  next
    case True
    have ne: "bs \<noteq> []" using ix True by (simp add: index_at_def)
    then have ne': "block_entries bs \<noteq> []" using full unfolding block_entries_def by (metis concat_eq_Nil_conv last_in_set list.set_map image_eqI)
    have vl: "valid (tb_last_key r)" using es ne' last unfolding entries_ok_def by (metis last_in_set list.set_map image_eqI)
    obtain sep where sep: "FindShortSuccessor (opt_comparator opts) (tb_last_key r) = Some sep" "valid sep" "\<not> lt sep (tb_last_key r)"
      using successor [OF vl] by blast
    show thesis using add_index_ok [OF small full ok(3) ix True es last [OF ne'] sep(2,3)] True sep(1) ok(2) that by auto
  qed
  have ok1: "tb_ok r1" "tb_options r1 = opts" using ok r1(2) by (simp_all add: tb_ok_def)
  have t1: "tail_at r1 s pre" using t r1(2) by (simp add: tail_at_def tb_ok_def)
  let ?ib = "fst (bb_Finish (tb_index_block r1))"
  obtain r2 s2 where w: "WriteBlock wfile r1 (tb_index_block r1) s = Some (\<lparr>bh_offset = tb_offset r1, bh_size = of_nat (length ?ib)\<rparr>,
      bb_Reset (snd (bb_Finish (tb_index_block r1))), r2, s2)" "written r1 s ?ib r2 s2" using WriteBlock_ok [OF ok1] by blast
  let ?r' = "r2\<lparr>tb_index_block := bb_Reset (snd (bb_Finish (tb_index_block r1)))\<rparr>"
  have "write_index wfile r s = Some (\<lparr>bh_offset = tb_offset r1, bh_size = of_nat (length ?ib)\<rparr>, ?r', s2)"
    unfolding write_index_def if_P [OF ok(1)] r1(1) bind.bind_lunit w(1) by simp
  moreover have "tb_ok ?r' \<Longrightarrow> tail_at ?r' s2 (pre @ chunk ?ib)" "tb_closed ?r'"
    using tail_written [OF t1 w(2)] by (simp_all add: tb_ok_def tail_at_def)
  moreover have "\<lparr>bh_offset = tb_offset r1, bh_size = of_nat (length ?ib)\<rparr> = handle_at (length pre) ?ib"
    using t1 by (simp add: tail_at_def handle_at_def)
  ultimately show ?thesis using building_finished [OF r1(3)] r1(4,5) by blast
qed

text \<open>The filter block and the entry for it in the metaindex block.\<close>

definition filter_part :: "data_blocks \<Rightarrow> byte list \<Rightarrow> (slice \<times> slice) list \<Rightarrow> bool" where
  "filter_part bs part ms \<longleftrightarrow>
     (case opt_filter_policy opts of None \<Rightarrow> part = [] \<and> ms = []
      | Some (policy, name) \<Rightarrow> \<exists>fb fb' bytes. run_blocks policy (filter_calls bs []) new_FilterBlockBuilder = Some fb
          \<and> fb_Finish policy fb = Some (bytes, fb') \<and> part = chunk bytes
          \<and> ms = [(lit ''filter.'' @ name, enc_handle (handle_at (length (chunks bs)) bytes))])"

lemma write_filter_ok:
  assumes t: "tail_at r s (chunks bs)" and f: "filter_at r bs []" and n: "length (block_entries bs) < 2 ^ 31"
    and v: "\<forall>k \<in> set (map fst (block_entries bs)). valid k"
  shows "\<exists>fh r' s' part ms. write_filter wfile r s = Some (fh, r', s') \<and> tb_closed r' \<and> filter_part bs part ms
    \<and> (tb_ok r' \<longrightarrow> tail_at r' s' (chunks bs @ part) \<and> (\<exists>fb st off. r' = r\<lparr>tb_filter_block := fb, tb_status := st, tb_offset := off\<rparr>)
        \<and> (case opt_filter_policy opts of None \<Rightarrow> tb_filter_block r' = None
           | Some (policy, name) \<Rightarrow> tb_filter_block r' \<noteq> None \<and> (\<exists>b. fh = handle_at (length (chunks bs)) b \<and> part = chunk b
               \<and> ms = [(lit ''filter.'' @ name, enc_handle fh)])))"
proof (cases "opt_filter_policy opts")
  case None
  then have "tb_filter_block r = None" using f by (simp add: filter_at_def)
  then show ?thesis using None t
    by (intro exI [of _ new_BlockHandle] exI [of _ r] exI [of _ s] exI [of _ "[]"])
      (auto simp: write_filter_def filter_part_def tail_at_def intro!: exI [of _ None] exI [of _ "tb_status r"] exI [of _ "tb_offset r"])
next
  case (Some pn)
  obtain policy name where pn: "pn = (policy, name)" by fastforce
  obtain fb where fb: "tb_filter_block r = Some (policy, fb)" "run_blocks policy (filter_calls bs []) new_FilterBlockBuilder = Some fb"
    using f Some pn by (auto simp: filter_at_def)
  have small: "length (chunks bs) < 2 ^ 32" and off: "tb_offset r = of_nat (length (chunks bs))" and ok: "tb_ok r" using t by (simp_all add: tail_at_def)
  have pol: "filter_policy policy valid" using policies Some pn by blast
  have keys: "concat (map snd (filter_calls bs [])) = map fst (block_entries bs)" using filter_calls_keys [of bs "[]"] by simp
  obtain gs ks where b: "built policy gs ks fb" "length ks < 2 ^ 31" "\<forall>k \<in> set ks. valid k"
    using filter_policy.calls_run [OF pol filter_calls_sorted [OF small, of "[]"]] n v fb(2) unfolding keys by auto
  obtain fs fb' where fin: "fb_Finish policy fb = Some (filter_block fs, fb')" using filter_policy.Finish_built [OF pol b] by blast
  let ?b = "filter_block fs" and ?r = "r\<lparr>tb_filter_block := Some (policy, fb')\<rparr>"
  have t1: "tail_at ?r s (chunks bs)" using t by (simp add: tail_at_def tb_ok_def)
  obtain r' s' where w: "WriteRawBlock wfile ?r ?b kNoCompression s = Some (\<lparr>bh_offset = tb_offset ?r, bh_size = of_nat (length ?b)\<rparr>, r', s')"
      "written ?r s ?b r' s'" using WriteRawBlock_ok by blast
  have h: "\<lparr>bh_offset = tb_offset ?r, bh_size = of_nat (length ?b)\<rparr> = handle_at (length (chunks bs)) ?b" using off by (simp add: handle_at_def)
  have "write_filter wfile r s = Some (handle_at (length (chunks bs)) ?b, r', s')"
    using fb(1) ok fin w(1) unfolding h by (simp add: write_filter_def)
  moreover have "filter_part bs (chunk ?b) [(lit ''filter.'' @ name, enc_handle (handle_at (length (chunks bs)) ?b))]"
    using Some pn fb(2) fin by (auto simp: filter_part_def)
  ultimately show ?thesis using tail_written [OF t1 w(2)] Some pn
    by (intro exI [of _ "handle_at (length (chunks bs)) ?b"] exI [of _ r'] exI [of _ s'] exI [of _ "chunk ?b"]
        exI [of _ "[(lit ''filter.'' @ name, enc_handle (handle_at (length (chunks bs)) ?b))]"]) auto
qed

lemma write_metaindex_ok:
  assumes t: "tail_at r s (chunks bs @ part)" and f: "filter_part bs part ms"
    and h: "case opt_filter_policy opts of None \<Rightarrow> tb_filter_block r = None
           | Some (policy, name) \<Rightarrow> tb_filter_block r \<noteq> None \<and> (\<exists>b. fh = handle_at (length (chunks bs)) b \<and> part = chunk b
               \<and> ms = [(lit ''filter.'' @ name, enc_handle fh)])"
  shows "\<exists>mh r' s' mb. write_metaindex wfile fh r s = Some (mh, r', s') \<and> tb_closed r' \<and> stored_block mb ms
    \<and> (tb_ok r' \<longrightarrow> tail_at r' s' (chunks bs @ part @ chunk mb) \<and> mh = handle_at (length (chunks bs @ part)) mb
        \<and> (\<exists>st off. r' = r\<lparr>tb_status := st, tb_offset := off\<rparr>))"
proof -
  have ok: "tb_ok r" "tb_options r = opts" using t by (simp_all add: tail_at_def)
  obtain m0 where m0: "new_BlockBuilder opts = Some m0" using interval by (simp add: new_BlockBuilder_def)
  obtain m where m: "(if tb_filter_block r \<noteq> None then do {
             (policy, name) \<leftarrow> opt_filter_policy opts;
             handle_encoding \<leftarrow> bh_EncodeTo fh [];
             bb_Add opts m0 (lit ''filter.'' @ name) handle_encoding
           }
           else Some m0) = Some m" "building opts m ms"
  proof (cases "opt_filter_policy opts")
    case None
    then show thesis using h f new_building [OF m0] that [of m0] by (simp add: filter_part_def)
  next
    case (Some pn)
    obtain policy name where pn: "pn = (policy, name)" by fastforce
    obtain b where b: "tb_filter_block r \<noteq> None" "fh = handle_at (length (chunks bs)) b" "part = chunk b" "ms = [(lit ''filter.'' @ name, enc_handle fh)]"
      using h Some pn by auto
    have "length (chunks bs) < 2 ^ 32" "length b < 2 ^ 32" using t b(3) by (simp_all add: tail_at_def)
    then have e: "bh_EncodeTo fh [] = Some (enc_handle fh)" unfolding b(2) by (rule encode_handle_at)
    obtain m where "bb_Add opts m0 (lit ''filter.'' @ name) (enc_handle fh) = Some m" "building opts m ([] @ [(lit ''filter.'' @ name, enc_handle fh)])"
      using building_Add [OF new_building [OF m0]] by blast
    then show thesis using that [of m] Some pn b(1,4) e by simp
  qed
  let ?mb = "fst (bb_Finish m)"
  obtain r' s' where w: "WriteBlock wfile r m s = Some (\<lparr>bh_offset = tb_offset r, bh_size = of_nat (length ?mb)\<rparr>, bb_Reset (snd (bb_Finish m)), r', s')"
      "written r s ?mb r' s'" using WriteBlock_ok [OF ok] by blast
  have "\<lparr>bh_offset = tb_offset r, bh_size = of_nat (length ?mb)\<rparr> = handle_at (length (chunks bs @ part)) ?mb" using t by (simp add: tail_at_def handle_at_def)
  then have "write_metaindex wfile fh r s = Some (handle_at (length (chunks bs @ part)) ?mb, r', s')"
    unfolding write_metaindex_def if_P [OF ok(1)] ok(2) m0 bind.bind_lunit m(1) w(1) by simp
  then show ?thesis using tail_written [OF t w(2)] building_finished [OF m(2)] by auto
qed

text \<open>The layout of a finished file.\<close>

definition table_file :: "byte list \<Rightarrow> data_blocks \<Rightarrow> (slice \<times> slice) list \<Rightarrow> bool" where
  "table_file bytes bs idx \<longleftrightarrow> length bytes < 2 ^ 32 \<and> (\<forall>b \<in> set bs. snd b \<noteq> [] \<and> stored_block (fst b) (snd b))
     \<and> length idx = length bs \<and> index_ok (opt_comparator opts) valid same bs [] idx
     \<and> (\<exists>part ms mb ib. filter_part bs part ms \<and> stored_block mb ms \<and> stored_block ib idx
         \<and> bytes = chunks bs @ part @ chunk mb @ chunk ib
             @ footer_bytes \<lparr>metaindex_handle = handle_at (length (chunks bs @ part)) mb,
                             index_handle = handle_at (length (chunks bs @ part @ chunk mb)) ib\<rparr>)"

lemma Finish_failed:
  assumes "failed r"
  shows "\<exists>r'. tb_Finish wfile r s = Some (tb_status r, r', s) \<and> tb_closed r' \<and> \<not> Status_ok (tb_status r)"
proof -
  have n: "\<not> tb_ok (r\<lparr>tb_closed := True\<rparr>)" using assms by (simp add: failed_def tb_ok_def)
  have "tb_Flush wfile r s = Some (r, s)" using assms by (simp add: failed_def tb_Flush_def)
  then show ?thesis using assms tail_error [OF n] by (simp add: tb_Finish_def failed_def tb_ok_def)
qed

text \<open>The steps behind the metaindex block.\<close>

lemma finish_index:
  assumes t: "tb_ok r \<Longrightarrow> tail_at r s (chunks bs @ part @ chunk mb) \<and> mh = handle_at (length (chunks bs @ part)) mb" and closed: "tb_closed r"
    and b: "\<forall>b \<in> set bs. snd b \<noteq> [] \<and> stored_block (fst b) (snd b)"
    and ix: "tb_ok r \<Longrightarrow> index_at r bs [] idx" and es: "entries_ok (opt_comparator opts) valid (block_entries bs)"
    and last: "tb_ok r \<Longrightarrow> block_entries bs \<noteq> [] \<Longrightarrow> tb_last_key r = fst (last (block_entries bs))"
    and f: "filter_part bs part ms" "stored_block mb ms"
  shows "\<exists>st r' s'. do { (ih, r4, dest4) \<leftarrow> write_index wfile r s; (r5, dest5) \<leftarrow> write_footer wfile mh ih r4 dest4; Some (tb_status r5, r5, dest5) }
      = Some (st, r', s') \<and> tb_closed r' \<and> (Status_ok st \<longrightarrow> (\<exists>idx'. table_file (content s') bs idx'))"
proof (cases "tb_ok r")
  case False
  then show ?thesis using tail_error [OF False] closed by (simp add: tb_ok_def)
next
  case True
  have t': "tail_at r s (chunks bs @ part @ chunk mb)" and mh: "mh = handle_at (length (chunks bs @ part)) mb" using t True by blast+
  have sizes: "length (chunks bs) < 2 ^ 32" "length (chunks bs @ part) < 2 ^ 32" "length mb < 2 ^ 32" "length (chunks bs @ part @ chunk mb) < 2 ^ 32"
    using t' by (simp_all add: tail_at_def)
  obtain ih r4 s4 ib idx' where w: "write_index wfile r s = Some (ih, r4, s4)" "tb_closed r4" "stored_block ib idx'"
      "index_ok (opt_comparator opts) valid same bs [] idx'" "length idx' = length bs"
      "tb_ok r4 \<longrightarrow> tail_at r4 s4 ((chunks bs @ part @ chunk mb) @ chunk ib) \<and> ih = handle_at (length (chunks bs @ part @ chunk mb)) ib"
    using write_index_ok [OF t' sizes(1) _ ix [OF True] es last [OF True]] b by blast
  show ?thesis
  proof (cases "tb_ok r4")
    case False
    then show ?thesis using tail_error(4) [OF False] w(1,2) by (simp add: tb_ok_def)
  next
    case ok4: True
    have t4: "tail_at r4 s4 ((chunks bs @ part @ chunk mb) @ chunk ib)" and ih: "ih = handle_at (length (chunks bs @ part @ chunk mb)) ib"
      using w(6) ok4 by blast+
    have "length ib < 2 ^ 32" using t4 by (simp add: tail_at_def)
    then have hs: "handle_set mh" "handle_set ih" unfolding mh ih by (intro handle_set_at sizes; assumption)+
    obtain r5 s5 where w5: "write_footer wfile mh ih r4 s4 = Some (r5, s5)" "tb_closed r5"
        "tb_ok r5 \<longrightarrow> content s5 = ((chunks bs @ part @ chunk mb) @ chunk ib) @ footer_bytes \<lparr>metaindex_handle = mh, index_handle = ih\<rparr> \<and> length (content s5) < 2 ^ 32"
      using write_footer_ok [OF t4 hs] by blast
    have "table_file (content s5) bs idx'" if "tb_ok r5"
    proof -
      have "content s5 = chunks bs @ part @ chunk mb @ chunk ib
             @ footer_bytes \<lparr>metaindex_handle = handle_at (length (chunks bs @ part)) mb, index_handle = handle_at (length (chunks bs @ part @ chunk mb)) ib\<rparr>"
        using w5(3) that unfolding mh ih by simp
      then show ?thesis unfolding table_file_def using w5(3) that b w(3,4,5) f by blast
    qed
    then show ?thesis using w(1) w5(1,2) by (auto simp: tb_ok_def)
  qed
qed

lemma Finish_ok:
  assumes inv: "tb_at r s bs cur idx"
  shows "\<exists>st r' s'. tb_Finish wfile r s = Some (st, r', s') \<and> tb_closed r' \<and>
    (Status_ok st \<longrightarrow> (\<exists>bs' idx'. table_file (content s') bs' idx' \<and> block_entries bs' = block_entries bs @ cur))"
proof -
  obtain r1 s1 where fl: "tb_Flush wfile r s = Some (r1, s1)"
      "failed r1 \<or> (\<exists>bs' idx'. tb_at r1 s1 bs' [] idx' \<and> block_entries bs' = block_entries bs @ cur)"
    using Flush_ok [OF inv] by blast
  show ?thesis
  proof (cases "failed r1")
    case True
    have "tb_Flush wfile r1 s1 = Some (r1, s1)" using True by (simp add: failed_def tb_Flush_def)
    then have "tb_Finish wfile r s = tb_Finish wfile r1 s1" using fl(1) by (simp add: tb_Finish_def)
    then show ?thesis using Finish_failed [OF True, of s1] by metis
  next
    case False
    then obtain bs' idx' where i1: "tb_at r1 s1 bs' [] idx'" "block_entries bs' = block_entries bs @ cur" using fl(2) by blast
    note i = i1(1) [unfolded tb_at_def blocks_at_def append_Nil2]
    let ?r = "r1\<lparr>tb_closed := True\<rparr>"
    have t: "tail_at ?r s1 (chunks bs')" using i by (simp add: tail_at_def tb_ok_def Status_ok_def Status_OK_def)
    have f: "filter_at ?r bs' []" by (rule filter_at_same [of r1]) (use i in simp_all)
    have v: "\<forall>k \<in> set (map fst (block_entries bs')). valid k" and n: "length (block_entries bs') < 2 ^ 31" and closed: "\<not> tb_closed r1"
      and es: "entries_ok (opt_comparator opts) valid (block_entries bs')" and b: "\<forall>b \<in> set bs'. snd b \<noteq> [] \<and> stored_block (fst b) (snd b)"
      using i by (simp_all add: entries_ok_def)
    obtain fh r2 s2 part ms where w2: "write_filter wfile ?r s1 = Some (fh, r2, s2)" "tb_closed r2" "filter_part bs' part ms"
      "tb_ok r2 \<longrightarrow> tail_at r2 s2 (chunks bs' @ part) \<and> (\<exists>fb st off. r2 = ?r\<lparr>tb_filter_block := fb, tb_status := st, tb_offset := off\<rparr>)
        \<and> (case opt_filter_policy opts of None \<Rightarrow> tb_filter_block r2 = None
           | Some (policy, name) \<Rightarrow> tb_filter_block r2 \<noteq> None \<and> (\<exists>b. fh = handle_at (length (chunks bs')) b \<and> part = chunk b
               \<and> ms = [(lit ''filter.'' @ name, enc_handle fh)]))" using write_filter_ok [OF t f n v] by blast
    have run: "tb_Finish wfile r s = do { (mh, r3, dest3) \<leftarrow> write_metaindex wfile fh r2 s2; (ih, r4, dest4) \<leftarrow> write_index wfile r3 dest3;
        (r5, dest5) \<leftarrow> write_footer wfile mh ih r4 dest4; Some (tb_status r5, r5, dest5) }"
      unfolding tb_Finish_def fl(1) bind.bind_lunit prod.case if_not_P [OF closed] w2(1) ..
    show ?thesis
    proof (cases "tb_ok r2")
      case bad: False
      then show ?thesis using run tail_error [OF bad] w2(2) by (simp add: tb_ok_def)
    next
      case ok2: True
      obtain mh r3 s3 mb where w3: "write_metaindex wfile fh r2 s2 = Some (mh, r3, s3)" "tb_closed r3" "stored_block mb ms"
          "tb_ok r3 \<longrightarrow> tail_at r3 s3 (chunks bs' @ part @ chunk mb) \<and> mh = handle_at (length (chunks bs' @ part)) mb
             \<and> (\<exists>st off. r3 = r2\<lparr>tb_status := st, tb_offset := off\<rparr>)"
        using write_metaindex_ok [of r2 s2 bs' part ms fh] w2(3,4) ok2 by blast
      have same: "tb_ok r3 \<Longrightarrow> tb_index_block r3 = tb_index_block r1 \<and> tb_pending_index_entry r3 = tb_pending_index_entry r1
          \<and> tb_pending_handle r3 = tb_pending_handle r1 \<and> tb_last_key r3 = tb_last_key r1" using w3(4) w2(4) ok2 by auto
      have ix: "tb_ok r3 \<Longrightarrow> index_at r3 bs' [] idx'" using i1(1) same unfolding tb_at_def by (blast intro: index_at_same)
      have last: "tb_ok r3 \<Longrightarrow> block_entries bs' \<noteq> [] \<Longrightarrow> tb_last_key r3 = fst (last (block_entries bs'))" using i same by simp
      obtain st r' s' where fin: "do { (ih, r4, dest4) \<leftarrow> write_index wfile r3 s3; (r5, dest5) \<leftarrow> write_footer wfile mh ih r4 dest4; Some (tb_status r5, r5, dest5) }
          = Some (st, r', s')" "tb_closed r'" "Status_ok st \<longrightarrow> (\<exists>idx'. table_file (content s') bs' idx')"
        using finish_index [OF _ w3(2) b ix es last w2(3) w3(3)] w3(4) by blast
      have "tb_Finish wfile r s = Some (st, r', s')" unfolding run w3(1) using fin(1) by simp
      then show ?thesis using fin(2,3) i1(2) by metis
    qed
  qed
qed

end

end
