(* ===== verification/LdbTableProps.thy ===== *)
theory LdbTableProps
  imports LdbTableBuild
begin

text \<open>
  A table is read as it was built: a finished file opens, its iterator runs over all entries, and lookups
  find them.
\<close>

section \<open>Building\<close>

text \<open>The calls of a client that builds a table.\<close>

fun tb_AddAll :: "'w WritableFile \<Rightarrow> TableBuilder \<Rightarrow> (slice \<times> slice) list \<Rightarrow> 'w \<Rightarrow> (TableBuilder \<times> 'w) option" where
  "tb_AddAll wfile r [] s = Some (r, s)"
| "tb_AddAll wfile r ((k, v) # es) s = do { (r', s') \<leftarrow> tb_Add wfile r k v s; tb_AddAll wfile r' es s' }"

definition build_table :: "Options \<Rightarrow> 'w WritableFile \<Rightarrow> (slice \<times> slice) list \<Rightarrow> 'w \<Rightarrow> (Status \<times> 'w) option" where
  "build_table opts wfile es s = do {
     r \<leftarrow> new_TableBuilder opts;
     (r1, s1) \<leftarrow> tb_AddAll wfile r es s;
     (st, r2, s2) \<leftarrow> tb_Finish wfile r1 s1;
     Some (st, s2)
   }"

context table_setting
begin

lemma AddAll_failed: "failed r \<Longrightarrow> tb_AddAll wfile r es s = Some (r, s)"
  by (induction es) (auto simp: failed_def tb_Add_def)

lemma new_at:
  assumes "content s = []"
  shows "\<exists>r. new_TableBuilder opts = Some r \<and> tb_at r s [] [] []"
proof -
  obtain m0 where m0: "new_BlockBuilder opts = Some m0" using interval by (simp add: new_BlockBuilder_def)
  then have m1: "new_BlockBuilder index_opts = Some m0" by (simp add: new_BlockBuilder_def split: if_splits)
  let ?r = "\<lparr>tb_options = opts, tb_index_options = index_opts, tb_offset = 0, tb_status = Status_OK,
        tb_data_block = m0, tb_index_block = m0, tb_last_key = [], tb_num_entries = 0, tb_closed = False,
        tb_filter_block = map_option (\<lambda>(policy, name). (policy, new_FilterBlockBuilder)) (opt_filter_policy opts),
        tb_pending_index_entry = False, tb_pending_handle = new_BlockHandle\<rparr>"
  have s0: "StartBlock policy new_FilterBlockBuilder 0 = Some new_FilterBlockBuilder" for policy
    by (simp add: StartBlock_def StartBlock_loop.simps new_FilterBlockBuilder_def)
  have "on_filter (\<lambda>policy b. StartBlock policy b 0) ?r = Some ?r"
    by (cases "opt_filter_policy opts") (auto simp: on_filter_def s0)
  then have new: "new_TableBuilder opts = Some ?r" by (simp add: new_TableBuilder_def m0)
  have "filter_at ?r [] []"
    by (cases "opt_filter_policy opts") (auto simp: filter_at_def filter_calls_def s0)
  then have "tb_at ?r s [] [] []"
    using assms new_building [OF m0] new_building [OF m1]
    by (simp add: tb_at_def blocks_at_def index_at_def index_ok_def entries_ok_def)
  then show ?thesis using new by blast
qed

lemma AddAll_ok:
  assumes "tb_at r s bs cur idx" "entries_ok (opt_comparator opts) valid ((block_entries bs @ cur) @ es)"
    and "length ((block_entries bs @ cur) @ es) < 2 ^ 31"
  shows "\<exists>r' s'. tb_AddAll wfile r es s = Some (r', s') \<and>
    (failed r' \<or> (\<exists>bs' cur' idx'. tb_at r' s' bs' cur' idx' \<and> block_entries bs' @ cur' = (block_entries bs @ cur) @ es))"
  using assms
proof (induction es arbitrary: r s bs cur idx)
  case (Cons e es)
  obtain k v where e: "e = (k, v)" by fastforce
  have up: "lt (fst (last (block_entries bs @ cur))) k" if "block_entries bs @ cur \<noteq> []"
  proof -
    have "\<forall>x \<in> set (block_entries bs @ cur). lt (fst x) k" using Cons.prems(2) unfolding e entries_ok_def by (auto simp: sorted_wrt_append)
    then show ?thesis using last_in_set [OF that] by blast
  qed
  have k: "valid k" using Cons.prems(2) by (simp add: e entries_ok_def)
  have n: "length (block_entries bs @ cur) + 1 < 2 ^ 31" using Cons.prems(3) by simp
  obtain r1 s1 where 1: "tb_Add wfile r k v s = Some (r1, s1)"
      "failed r1 \<or> (\<exists>bs' cur' idx'. tb_at r1 s1 bs' cur' idx' \<and> block_entries bs' @ cur' = (block_entries bs @ cur) @ [(k, v)])"
    using Add_ok [OF Cons.prems(1) k up n] by blast
  show ?case
  proof (cases "failed r1")
    case True
    then show ?thesis using 1(1) AddAll_failed [OF True] by (simp add: e)
  next
    case False
    then obtain bs' cur' idx' where 2: "tb_at r1 s1 bs' cur' idx'" "block_entries bs' @ cur' = (block_entries bs @ cur) @ [(k, v)]" using 1(2) by blast
    have "(block_entries bs' @ cur') @ es = (block_entries bs @ cur) @ e # es" unfolding 2(2) by (simp add: e)
    then show ?thesis using Cons.IH [OF 2(1)] Cons.prems(2,3) 1(1) by (simp add: e)
  qed
qed auto

lemma build_ok:
  assumes "content s = []" "entries_ok (opt_comparator opts) valid es" "length es < 2 ^ 31"
  shows "\<exists>st s'. build_table opts wfile es s = Some (st, s') \<and>
    (Status_ok st \<longrightarrow> (\<exists>bs idx. table_file (content s') bs idx \<and> block_entries bs = es))"
proof -
  obtain r where r: "new_TableBuilder opts = Some r" "tb_at r s [] [] []" using new_at [OF assms(1)] by blast
  obtain r1 s1 where 1: "tb_AddAll wfile r es s = Some (r1, s1)"
      "failed r1 \<or> (\<exists>bs' cur' idx'. tb_at r1 s1 bs' cur' idx' \<and> block_entries bs' @ cur' = es)"
    using AddAll_ok [OF r(2), of es] assms(2,3) unfolding block_entries_snoc(2) append_Nil by blast
  have "\<exists>st r' s'. tb_Finish wfile r1 s1 = Some (st, r', s') \<and> (Status_ok st \<longrightarrow> (\<exists>bs idx. table_file (content s') bs idx \<and> block_entries bs = es))"
    using 1(2) Finish_failed [of r1 s1] Finish_ok [of r1 s1] by metis
  then obtain st r' s' where "tb_Finish wfile r1 s1 = Some (st, r', s')" "Status_ok st \<longrightarrow> (\<exists>bs idx. table_file (content s') bs idx \<and> block_entries bs = es)"
    by blast
  then show ?thesis using r(1) 1(1) by (intro exI [of _ st] exI [of _ s']) (simp add: build_table_def)
qed

end

section \<open>Reading blocks\<close>

text \<open>A file that serves its bytes.\<close>

definition serves :: "RandomAccessFile \<Rightarrow> byte list \<Rightarrow> bool" where
  "serves raf bytes \<longleftrightarrow> (\<forall>off n. \<exists>b. raf off n = (Status_OK, take (unat n) (drop (unat off) bytes), b))"

lemma read_chunk:
  assumes raf: "serves raf (pre @ chunk b @ post)" and len: "length (pre @ chunk b @ post) < 2 ^ 32"
  shows "\<exists>ib. ReadBlock raf options (handle_at (length pre) b) = Some (Status_OK, \<lparr>bc_data = b, cachable = ib, heap_allocated = ib\<rparr>)"
proof -
  have u: "unat (of_nat (length pre) :: u64) = length pre" "unat (of_nat (length b) + 5 :: u64) = length b + 5"
  proof -
    show "unat (of_nat (length pre) :: u64) = length pre" using len by (intro small_64) simp
    have "(of_nat (length b) + 5 :: u64) = of_nat (length b + 5)" by simp
    then show "unat (of_nat (length b) + 5 :: u64) = length b + 5" using len by (simp only:) (intro small_64, simp)
  qed
  obtain ib where "raf (bh_offset (handle_at (length pre) b)) (bh_size (handle_at (length pre) b) + 5)
      = (Status_OK, take (length b + 5) (drop (length pre) (pre @ chunk b @ post)), ib)"
    using raf u unfolding serves_def handle_at_def by (metis BlockHandle.select_convs(1,2))
  then have "raf (bh_offset (handle_at (length pre) b)) (bh_size (handle_at (length pre) b) + 5)
      = (Status_OK, b @ block_trailer kNoCompression b, ib)" by (simp add: chunk_def)
  from ReadBlock_stored [where raf = raf and h = "handle_at (length pre) b", OF this] len show ?thesis by (auto simp: handle_at_def)
qed

lemma handle_decodes: "bh_DecodeFrom h0 (enc_handle h) = Some (Status_OK, h, [])"
  using bh_Decode_Encode [of h0 h "[]"] by (simp add: enc_handle_def)

lemma read_footer:
  assumes raf: "serves raf (pre @ footer_bytes f)" and len: "length (pre @ footer_bytes f) < 2 ^ 32"
  shows "\<exists>b. raf (of_nat (length (pre @ footer_bytes f)) - 48) 48 = (Status_OK, footer_bytes f, b)"
proof -
  have l: "length (footer_bytes f) = 48" by (rule length_footer_bytes)
  have u48: "unat (48 :: u64) = 48" by simp
  have "(of_nat (length (pre @ footer_bytes f)) - 48 :: u64) = of_nat (length pre)" by (simp add: l)
  moreover have "unat (of_nat (length pre) :: u64) = length pre" using len by (intro small_64) simp
  ultimately show ?thesis using raf l unfolding serves_def by (metis append_eq_conv_conj order_refl take_all u48)
qed

section \<open>Opening a table\<close>

lemma concat_at: "i < length xs \<Longrightarrow> concat xs = concat (take i xs) @ xs ! i @ concat (drop (Suc i) xs)"
  by (subst id_take_nth_drop) simp_all

lemma fr_same: "(\<And>f. KeyMayMatch policy k f = KeyMayMatch policy k' f) \<Longrightarrow> fr_KeyMayMatch policy r off k = fr_KeyMayMatch policy r off k'"
  by (simp only: fr_KeyMayMatch_def)

text \<open>The reader of a filter block answers for every key the policy answers for.\<close>

lemma fr_defined:
  assumes small: "length (filter_block fs) < 2 ^ 32" and reader: "new_FilterBlockReader (filter_block fs) = Some reader"
    and k: "\<And>f. length f < 2 ^ 32 \<Longrightarrow> KeyMayMatch policy k f \<noteq> None"
  shows "fr_KeyMayMatch policy reader off k \<noteq> None"
proof -
  have r: "reader = \<lparr>fr_data = filter_block fs, fr_offset = length (concat fs), fr_num = length fs, base_lg = 11\<rparr>"
    using reader reader_of_block [OF small] by simp
  show ?thesis
  proof (cases "unat (drop_bit 11 off) < length fs")
    case True
    let ?f = "fs ! unat (drop_bit 11 off)"
    have "length ?f \<le> length (concat fs)" using concat_at [OF True] by simp
    also have "\<dots> < 2 ^ 32" using small by (simp add: filter_block_def)
    finally show ?thesis using match_in_block [OF small True refl] k by (simp add: r)
  next
    case False
    then show ?thesis by (simp add: r fr_KeyMayMatch_def)
  qed
qed

context filter_policy
begin

lemma filter_reader:
  assumes run: "run_blocks policy calls new_FilterBlockBuilder = Some fb" and fin: "fb_Finish policy fb = Some (bytes, fb')"
    and calls: "sorted (map fst calls)" "length (concat (map snd calls)) < 2 ^ 31" "\<forall>k \<in> set (concat (map snd calls)). valid_key k"
    and small: "length bytes < 2 ^ 32"
  shows "\<exists>reader. new_FilterBlockReader bytes = Some reader \<and> (\<forall>(off, keys) \<in> set calls. \<forall>k \<in> set keys. fr_KeyMayMatch policy reader off k = Some True)
    \<and> (\<forall>off k. (\<forall>f. length f < 2 ^ 32 \<longrightarrow> KeyMayMatch policy k f \<noteq> None) \<longrightarrow> fr_KeyMayMatch policy reader off k \<noteq> None)"
proof -
  have "\<forall>(off, keys) \<in> set calls. \<forall>k \<in> set keys. valid_key k" using calls(3) by auto
  from filter_block_matches [OF calls(2) this calls(1)] run fin small
  obtain r where r: "new_FilterBlockReader bytes = Some r" "\<forall>(off, keys) \<in> set calls. \<forall>k \<in> set keys. fr_KeyMayMatch policy r off k = Some True"
    by auto
  obtain b gs ks where "run_blocks policy calls new_FilterBlockBuilder = Some b" "built policy gs ks b" "length ks < 2 ^ 31" "\<forall>k \<in> set ks. valid_key k"
    using calls_run [OF calls] by blast
  then obtain fs where "bytes = filter_block fs" using Finish_built [of gs ks b] run fin by auto
  then show ?thesis using r small fr_defined [of fs r] by blast
qed

end

context table_setting
begin

text \<open>The index is sorted, as every block has entries.\<close>

lemma index_sorted:
  assumes tf: "table_file bytes bs idx" and es: "entries_ok (opt_comparator opts) valid (block_entries bs)"
  shows "entries_ok (opt_comparator opts) valid idx"
proof -
  have len: "length idx = length bs" and io: "index_ok (opt_comparator opts) valid same bs [] idx" and full: "\<forall>b \<in> set bs. snd b \<noteq> []"
    using tf by (simp_all add: table_file_def)
  have v: "j < length idx \<Longrightarrow> valid (fst (idx ! j))" for j using io by (simp add: index_ok_def)
  have "lt (fst (idx ! i)) (fst (idx ! j))" if ij: "i < j" "j < length idx" for i j
  proof -
    have jb: "bs ! j \<in> set (drop (Suc i) bs)" using ij len by (auto simp: in_set_conv_nth intro!: exI [of _ "j - Suc i"])
    have ne: "snd (bs ! j) \<noteq> []" using full ij(2) len by simp
    let ?e = "last (snd (bs ! j))"
    have e: "?e \<in> set (snd (bs ! j))" using ne by simp
    then have "?e \<in> set (block_entries (drop (Suc i) bs) @ [])" using jb by (auto simp: block_entries_def)
    then have "lt (fst (idx ! i)) (fst ?e)" using io ij unfolding index_ok_def separates_def by auto
    moreover have "\<not> lt (fst (idx ! j)) (fst ?e)" using io ij(2) e unfolding index_ok_def by blast
    moreover have ve: "valid (fst ?e)" using es e ij(2) len by (auto simp: entries_ok_def block_entries_def)
    moreover have vi: "valid (fst (idx ! i))" using v [of i] ij by simp
    ultimately show ?thesis using less_cases [OF ve v [OF ij(2)]] less_trans [OF vi ve v [OF ij(2)]] less_same_trans [OF vi ve v [OF ij(2)]] by metis
  qed
  then show ?thesis using v by (simp add: entries_ok_def sorted_wrt_iff_nth_less all_set_conv_all_nth)
qed

definition filter_ok :: "Table \<Rightarrow> data_blocks \<Rightarrow> bool" where
  "filter_ok t bs \<longleftrightarrow> (\<forall>policy reader. t_filter t = Some (policy, reader) \<longrightarrow> (\<exists>name. opt_filter_policy opts = Some (policy, name))
     \<and> (\<forall>j < length bs. \<forall>k \<in> set (map fst (snd (bs ! j))). fr_KeyMayMatch policy reader (of_nat (block_pos bs j)) k = Some True)
     \<and> (\<forall>off k. (\<forall>f. length f < 2 ^ 32 \<longrightarrow> KeyMayMatch policy k f \<noteq> None) \<longrightarrow> fr_KeyMayMatch policy reader off k \<noteq> None))"

lemma ReadFilter_ok:
  assumes run: "run_blocks policy (filter_calls bs []) new_FilterBlockBuilder = Some fb" "fb_Finish policy fb = Some (fbytes, fb')"
    and es: "entries_ok (opt_comparator opts) valid (block_entries bs)" "length (block_entries bs) < 2 ^ 31"
    and raf: "serves raf (chunks bs @ chunk fbytes @ post)" and len: "length (chunks bs @ chunk fbytes @ post) < 2 ^ 32"
    and t: "t_options t = opts" "t_file t = raf" and pol: "opt_filter_policy opts = Some (policy, name)"
  shows "\<exists>t'. ReadFilter t (enc_handle (handle_at (length (chunks bs)) fbytes)) = Some t' \<and> (\<exists>f. t' = t\<lparr>t_filter := f\<rparr>) \<and> filter_ok t' bs"
proof -
  obtain ib where rb: "ReadBlock raf (meta_options opts) (handle_at (length (chunks bs)) fbytes)
      = Some (Status_OK, \<lparr>bc_data = fbytes, cachable = ib, heap_allocated = ib\<rparr>)" using read_chunk [OF raf len] by blast
  have keys: "concat (map snd (filter_calls bs [])) = map fst (block_entries bs)" using filter_calls_keys [of bs "[]"] by simp
  have sizes: "length (chunks bs) < 2 ^ 32" "length fbytes < 2 ^ 32" using len by simp_all
  have v: "\<forall>k \<in> set (map fst (block_entries bs)). valid k" using es(1) by (simp add: entries_ok_def)
  obtain reader where rd: "new_FilterBlockReader fbytes = Some reader"
      "\<forall>(off, keys) \<in> set (filter_calls bs []). \<forall>k \<in> set keys. fr_KeyMayMatch policy reader off k = Some True"
      "\<forall>off k. (\<forall>f. length f < 2 ^ 32 \<longrightarrow> KeyMayMatch policy k f \<noteq> None) \<longrightarrow> fr_KeyMayMatch policy reader off k \<noteq> None"
    using filter_policy.filter_reader [OF policies [OF pol] run filter_calls_sorted [OF sizes(1)] _ _ sizes(2)] es(2) v unfolding keys by auto
  have "ReadFilter t (enc_handle (handle_at (length (chunks bs)) fbytes)) = Some (t\<lparr>t_filter := Some (policy, reader)\<rparr>)"
    using rb rd(1) t pol by (simp add: ReadFilter_def handle_decodes Status_ok_def Status_OK_def)
  moreover have "fr_KeyMayMatch policy reader (of_nat (block_pos bs j)) k = Some True" if "j < length bs" "k \<in> set (map fst (snd (bs ! j)))" for j k
    using rd(2) filter_calls_mem [OF that(1)] that(2) by blast
  ultimately show ?thesis using rd(3) pol by (auto simp: filter_ok_def)
qed

lemma ReadMeta_ok:
  assumes fp: "filter_part bs part ms" and mb: "stored_block mb ms"
    and es: "entries_ok (opt_comparator opts) valid (block_entries bs)" "length (block_entries bs) < 2 ^ 31"
    and raf: "serves raf (chunks bs @ part @ chunk mb @ post)" and len: "length (chunks bs @ part @ chunk mb @ post) < 2 ^ 32"
    and t: "t_options t = opts" "t_file t = raf" "t_filter t = None" and f: "metaindex_handle footer = handle_at (length (chunks bs @ part)) mb"
  shows "\<exists>t'. ReadMeta t footer = Some t' \<and> (\<exists>f. t' = t\<lparr>t_filter := f\<rparr>) \<and> filter_ok t' bs"
proof (cases "opt_filter_policy opts")
  case None
  then show ?thesis using t by (intro exI [of _ t]) (auto simp: ReadMeta_def filter_ok_def intro: exI [of _ None])
next
  case (Some pn)
  obtain policy name where pn: "pn = (policy, name)" by fastforce
  note pol = Some [unfolded pn]
  let ?key = "lit ''filter.'' @ name" and ?ops = "BlockIterator_ops BytewiseComparator"
  obtain fb fb' fbytes where part: "run_blocks policy (filter_calls bs []) new_FilterBlockBuilder = Some fb" "fb_Finish policy fb = Some (fbytes, fb')"
      "part = chunk fbytes" "ms = [(?key, enc_handle (handle_at (length (chunks bs)) fbytes))]"
    using fp pol by (auto simp: filter_part_def)
  obtain ib where rb: "ReadBlock raf (meta_options opts) (metaindex_handle footer)
      = Some (Status_OK, \<lparr>bc_data = mb, cachable = ib, heap_allocated = ib\<rparr>)"
    using read_chunk [of raf "chunks bs @ part" mb post] raf len by (auto simp: f)
  have "length mb < 2 ^ 32" using len by simp
  then obtain blk s "at" where blk: "new_Block \<lparr>bc_data = mb, cachable = ib, heap_allocated = ib\<rparr> = Some blk" "Block_NewIterator blk = Some s"
      "iterator_over ?ops BytewiseComparator (\<lambda>_. True) ms at" "at s (length ms)"
    using built_block [OF bytewise.comparator_axioms mb, of "\<lparr>bc_data = mb, cachable = ib, heap_allocated = ib\<rparr>"] part(4) by auto
  have "seek_index BytewiseComparator ?key ms = 0" by (simp add: part(4) seek_index_def bytewise_less)
  then obtain s1 where s1: "it_Seek ?ops ?key s = Some s1" "at s1 0" using iterator_over.at_Seek [OF blk(3,4), of ?key] by auto
  have ne: "0 < length ms" by (simp add: part(4))
  have at0: "it_Valid ?ops s1" "it_key ?ops s1 = Some ?key" "it_value ?ops s1 = Some (enc_handle (handle_at (length (chunks bs)) fbytes))"
    using iterator_over.at_Valid [OF blk(3) s1(2)] iterator_over.at_key [OF blk(3) s1(2) ne] iterator_over.at_value [OF blk(3) s1(2) ne] ne
    by (simp_all add: part(4))
  have "ReadMeta t footer = ReadFilter t (enc_handle (handle_at (length (chunks bs)) fbytes))"
    using pol t rb blk(1,2) s1(1) at0 by (simp add: ReadMeta_def Status_ok_def Status_OK_def)
  moreover have "serves raf (chunks bs @ chunk fbytes @ chunk mb @ post)" "length (chunks bs @ chunk fbytes @ chunk mb @ post) < 2 ^ 32"
    using raf len by (simp_all add: part(3))
  ultimately show ?thesis using ReadFilter_ok [OF part(1,2) es _ _ t(1,2) pol] by metis
qed

text \<open>A table that is open on a finished file.\<close>

definition opened :: "byte list \<Rightarrow> data_blocks \<Rightarrow> (slice \<times> slice) list \<Rightarrow> RandomAccessFile \<Rightarrow> Table \<Rightarrow> BlockIterator \<Rightarrow> (BlockIterator \<Rightarrow> nat \<Rightarrow> bool) \<Rightarrow> bool" where
  "opened bytes bs idx raf t s at \<longleftrightarrow> table_file bytes bs idx \<and> entries_ok (opt_comparator opts) valid (block_entries bs) \<and> serves raf bytes
     \<and> t_options t = opts \<and> t_file t = raf \<and> Block_NewIterator (t_index_block t) = Some s
     \<and> iterator_over (BlockIterator_ops (opt_comparator opts)) (opt_comparator opts) valid idx at \<and> at s (length idx) \<and> filter_ok t bs"

lemma Open_ok:
  assumes tf: "table_file bytes bs idx" and es: "entries_ok (opt_comparator opts) valid (block_entries bs)" "length (block_entries bs) < 2 ^ 31"
    and raf: "serves raf bytes"
  shows "\<exists>t s at. Table_Open opts raf new_id (of_nat (length bytes)) = Some (Status_OK, Some t) \<and> opened bytes bs idx raf t s at"
proof -
  obtain part ms mb ib where b: "filter_part bs part ms" "stored_block mb ms" "stored_block ib idx"
      "bytes = chunks bs @ part @ chunk mb @ chunk ib @ footer_bytes \<lparr>metaindex_handle = handle_at (length (chunks bs @ part)) mb,
                             index_handle = handle_at (length (chunks bs @ part @ chunk mb)) ib\<rparr>" and small: "length bytes < 2 ^ 32"
    using tf by (auto simp: table_file_def)
  let ?f = "\<lparr>metaindex_handle = handle_at (length (chunks bs @ part)) mb, index_handle = handle_at (length (chunks bs @ part @ chunk mb)) ib\<rparr>"
  have split: "bytes = (chunks bs @ part @ chunk mb @ chunk ib) @ footer_bytes ?f" "bytes = (chunks bs @ part @ chunk mb) @ chunk ib @ footer_bytes ?f"
    "bytes = chunks bs @ part @ chunk mb @ (chunk ib @ footer_bytes ?f)" unfolding b(4) by simp_all
  obtain bf where rf: "raf (of_nat (length bytes) - 48) 48 = (Status_OK, footer_bytes ?f, bf)"
    using read_footer [OF raf [unfolded split(1)] small [unfolded split(1)]] unfolding split(1) by blast
  obtain ii where ri: "ReadBlock raf (meta_options opts) (index_handle ?f) = Some (Status_OK, \<lparr>bc_data = ib, cachable = ii, heap_allocated = ii\<rparr>)"
    using read_chunk [OF raf [unfolded split(2)] small [unfolded split(2)]] by fastforce
  have large: "\<not> (of_nat (length bytes) :: u64) < of_nat 48"
    unfolding word_less_nat_alt small_64 [OF small] by (simp add: split(1) length_footer_bytes)
  have "length ib < 2 ^ 32" using small by (simp add: b(4))
  then obtain blk s "at" where blk: "new_Block \<lparr>bc_data = ib, cachable = ii, heap_allocated = ii\<rparr> = Some blk" "Block_NewIterator blk = Some s"
      "iterator_over (BlockIterator_ops (opt_comparator opts)) (opt_comparator opts) valid idx at" "at s (length idx)"
    using built_block [OF comparator_axioms b(3), of "\<lparr>bc_data = ib, cachable = ii, heap_allocated = ii\<rparr>"] index_sorted [OF tf es(1)]
    unfolding entries_ok_def by auto
  let ?t = "\<lparr>t_options = opts, t_file = raf, t_cache_id = new_id, t_filter = None, t_metaindex_handle = metaindex_handle ?f, t_index_block = blk\<rparr>"
  obtain t f where t: "ReadMeta ?t ?f = Some t" "t = ?t\<lparr>t_filter := f\<rparr>" "filter_ok t bs"
    using ReadMeta_ok [OF b(1,2) es raf [unfolded split(3)] small [unfolded split(3)], of ?t ?f] by auto
  have "footer_DecodeFrom new_Footer (footer_bytes ?f) = Some (Status_OK, ?f, [])" using footer_Decode [of new_Footer ?f "[]"] by simp
  then have "Table_Open opts raf new_id (of_nat (length bytes)) = Some (Status_OK, Some t)"
    using rf ri blk(1) t(1) unfolding Table_Open_def if_not_P [OF large] by (simp add: Status_ok_def Status_OK_def)
  moreover have "opened bytes bs idx raf t s at" using tf es(1) raf t(2,3) blk by (simp add: opened_def)
  ultimately show ?thesis by blast
qed

section \<open>Reading a table\<close>

lemma block_entries_ok:
  assumes es: "entries_ok (opt_comparator opts) valid (block_entries bs)" and j: "j < length bs"
  shows "entries_ok (opt_comparator opts) valid (snd (bs ! j))"
proof -
  have "block_entries bs = block_entries (take j bs) @ snd (bs ! j) @ block_entries (drop (Suc j) bs)"
    unfolding block_entries_def by (subst id_take_nth_drop [OF j]) simp
  then show ?thesis using es by (simp add: entries_ok_def sorted_wrt_append)
qed

text \<open>The blocks of the table, read through their handles.\<close>

lemma BlockReader_ok:
  assumes o: "opened bytes bs idx raf t s at" and j: "j < length bs"
  shows "\<exists>d at_d. (\<exists>inserted. BlockReader t None options (snd (idx ! j)) = Some (d, inserted))
    \<and> iterator_over (BlockIterator_ops (opt_comparator opts)) (opt_comparator opts) valid (snd (bs ! j)) at_d \<and> at_d d (length (snd (bs ! j)))
    \<and> length (snd (bs ! j)) \<le> length bytes"
proof -
  have tf: "table_file bytes bs idx" and es: "entries_ok (opt_comparator opts) valid (block_entries bs)" and raf: "serves raf bytes"
    and to: "t_options t = opts" "t_file t = raf" using o by (simp_all add: opened_def)
  have len: "length idx = length bs" and small: "length bytes < 2 ^ 32" and stored: "stored_block (fst (bs ! j)) (snd (bs ! j))"
    and io: "index_ok (opt_comparator opts) valid same bs [] idx" using tf j by (simp_all add: table_file_def)
  have h: "snd (idx ! j) = enc_handle (handle_at (length (chunks (take j bs))) (fst (bs ! j)))"
    using io j len by (simp add: index_ok_def block_handle_def block_pos_def)
  have "chunks bs = chunks (take j bs) @ chunk (fst (bs ! j)) @ chunks (drop (Suc j) bs)"
    unfolding chunks_def by (subst id_take_nth_drop [OF j]) simp
  then obtain post where bytes: "bytes = chunks (take j bs) @ chunk (fst (bs ! j)) @ post" using tf by (auto simp: table_file_def)
  obtain ib where rb: "ReadBlock raf options (handle_at (length (chunks (take j bs))) (fst (bs ! j)))
      = Some (Status_OK, \<lparr>bc_data = fst (bs ! j), cachable = ib, heap_allocated = ib\<rparr>)"
    using read_chunk [OF raf [unfolded bytes] small [unfolded bytes]] by blast
  have lb: "length (fst (bs ! j)) < 2 ^ 32" "length (fst (bs ! j)) \<le> length bytes" using small by (simp_all add: bytes)
  obtain blk d at_d where blk: "new_Block \<lparr>bc_data = fst (bs ! j), cachable = ib, heap_allocated = ib\<rparr> = Some blk" "Block_NewIterator blk = Some d"
      "iterator_over (BlockIterator_ops (opt_comparator opts)) (opt_comparator opts) valid (snd (bs ! j)) at_d" "at_d d (length (snd (bs ! j)))"
      "length (snd (bs ! j)) \<le> length (fst (bs ! j))"
    using built_block [OF comparator_axioms stored _ _ lb(1), of "\<lparr>bc_data = fst (bs ! j), cachable = ib, heap_allocated = ib\<rparr>"]
      block_entries_ok [OF es j] unfolding entries_ok_def by auto
  have "BlockReader t None options (snd (idx ! j)) = Some (d, None)"
    using rb blk(1,2) to by (simp add: BlockReader_def h handle_decodes Status_ok_def Status_OK_def)
  then show ?thesis using blk(3,4,5) lb(2) by auto
qed

lemma opened_levels:
  assumes o: "opened bytes bs idx raf t s at"
  shows "\<exists>at_data. two_level (Table_levels t None options) (opt_comparator opts) valid idx at (map snd bs) at_data"
proof -
  have tf: "table_file bytes bs idx" and es: "entries_ok (opt_comparator opts) valid (block_entries bs)"
    and to: "t_options t = opts" and it: "iterator_over (BlockIterator_ops (opt_comparator opts)) (opt_comparator opts) valid idx at"
    using o by (simp_all add: opened_def)
  have len: "length idx = length bs" and io: "index_ok (opt_comparator opts) valid same bs [] idx" and full: "\<forall>b \<in> set bs. snd b \<noteq> []"
    and small: "length bytes < 2 ^ 32" using tf by (simp_all add: table_file_def)
  define P where "P j f \<longleftrightarrow> (\<exists>d. (\<exists>inserted. BlockReader t None options (snd (idx ! j)) = Some (d, inserted))
      \<and> iterator_over (BlockIterator_ops (opt_comparator opts)) (opt_comparator opts) valid (snd (bs ! j)) f \<and> f d (length (snd (bs ! j))))" for j f
  have "\<forall>j. \<exists>f. j < length bs \<longrightarrow> P j f"
  proof
    fix j
    show "\<exists>f. j < length bs \<longrightarrow> P j f"
    proof (cases "j < length bs")
      case True
      from BlockReader_ok [OF o True, of options] show ?thesis unfolding P_def by (elim exE conjE) (intro exI impI conjI)
    qed simp
  qed
  then obtain at_data where P: "\<And>j. j < length bs \<Longrightarrow> P j (at_data j)" by metis
  note d = P [unfolded P_def]
  have pos: "block_pos bs i < block_pos bs j" if "i < j" "j < length bs" for i j
  proof -
    have "block_pos bs (Suc i) \<le> block_pos bs j" using that by (intro block_pos_mono) simp
    moreover have "block_pos bs (Suc i) = block_pos bs i + length (chunk (fst (bs ! i)))"
      using that by (simp add: block_pos_def take_Suc_conv_app_nth)
    ultimately show ?thesis by simp
  qed
  have handles: "distinct (map snd idx)"
  proof -
    have "snd (idx ! i) \<noteq> snd (idx ! j)" if ij: "i < j" "j < length idx" for i j
    proof
      assume "snd (idx ! i) = snd (idx ! j)"
      then have "enc_handle (block_handle bs i) = enc_handle (block_handle bs j)" using io ij by (simp add: index_ok_def)
      then have "bh_DecodeFrom new_BlockHandle (enc_handle (block_handle bs i)) = bh_DecodeFrom new_BlockHandle (enc_handle (block_handle bs j))" by simp
      then have "(of_nat (block_pos bs i) :: u64) = of_nat (block_pos bs j)" by (simp add: handle_decodes block_handle_def handle_at_def)
      then have "unat (of_nat (block_pos bs i) :: u64) = unat (of_nat (block_pos bs j) :: u64)" by simp
      moreover have "block_pos bs k < 2 ^ 32" for k
      proof -
        have "length (chunks bs) \<le> length bytes" using tf by (auto simp: table_file_def)
        then show ?thesis using block_pos_le [of bs k] small by linarith
      qed
      ultimately show False using pos [of i j] ij len by (simp add: small_64)
    qed
    then show ?thesis unfolding distinct_conv_nth using nat_neq_iff by (metis length_map nth_map)
  qed
  show ?thesis
  proof (intro exI [of _ at_data] two_level.intro two_level_axioms.intro)
    show "iterator_over (index_ops (Table_levels t None options)) (opt_comparator opts) valid idx at" using it to by (simp add: Table_levels_def)
    show "comparator (Compare (opt_comparator opts)) valid" by (rule comparator_axioms)
    show "length (map snd bs) = length idx" using len by simp
    show "distinct (map snd idx)" by (rule handles)
    fix j assume j: "j < length idx"
    then have jb: "j < length bs" using len by simp
    show "\<exists>d. block_function (Table_levels t None options) (snd (idx ! j)) = Some d \<and> at_data j d (length (map snd bs ! j))"
      using d [OF jb] jb by (auto simp: Table_levels_def)
    show "iterator_over (data_ops (Table_levels t None options)) (opt_comparator opts) valid (map snd bs ! j) (at_data j)"
      using d [OF jb] jb to by (auto simp: Table_levels_def)
    show "map snd bs ! j \<noteq> []" using full jb by simp
    show "valid (fst (idx ! j))" using io j by (simp add: index_ok_def)
    show "valid (fst e)" if "e \<in> set (map snd bs ! j)" for e using block_entries_ok [OF es jb] that jb by (auto simp: entries_ok_def)
    show "\<not> lt (fst (idx ! j)) (fst e)" if "e \<in> set (map snd bs ! j)" for e using io j that jb by (simp add: index_ok_def)
  next
    fix j e assume j: "Suc j < length idx" and e: "e \<in> set (map snd bs ! Suc j)"
    have "bs ! Suc j \<in> set (drop (Suc j) bs)" using j len by (metis Cons_nth_drop_Suc list.set_intros(1))
    then have "e \<in> set (block_entries (drop (Suc j) bs) @ [])" using e j len by (auto simp: block_entries_def)
    then show "lt (fst (idx ! j)) (fst e)" using io j unfolding index_ok_def separates_def by auto
  qed
qed

end

end
