(* ===== verification/LdbTableSample.thy ===== *)
theory LdbTableSample
  imports LdbTableProps
begin

text \<open>
  A table of two entries, built into a file in memory: each block is written where it is expected, and building
  ends with an ok status. It is the instance at which the properties of tables are applied.
\<close>

section \<open>Writing to memory\<close>

lemma memory_Append: "length s + length d \<le> n \<Longrightarrow> wf_Append (bounded_file n) d s = (Status_OK, s @ d)"
  by (simp add: bounded_file_def)

lemma memory_Flush: "wf_Flush (bounded_file n) s = (Status_OK, s)"
  by (simp add: bounded_file_def)

lemma memory_Raw:
  assumes "tb_status r = Status_OK" "length s + length b + 5 \<le> n"
  shows "WriteRawBlock (bounded_file n) r b kNoCompression s =
    Some (\<lparr>bh_offset = tb_offset r, bh_size = of_nat (length b)\<rparr>, r\<lparr>tb_offset := tb_offset r + of_nat (length b) + 5\<rparr>, s @ chunk b)"
proof -
  have "r\<lparr>tb_status := Status_OK, tb_offset := x\<rparr> = r\<lparr>tb_offset := x\<rparr>" for x using assms(1) by simp
  then show ?thesis using assms(2)
    by (simp add: WriteRawBlock_def bounded_file_def Status_ok_def Status_OK_def Let_def crc_Value_bytes crc_Extend_crc32c chunk_def block_trailer_def)
qed

lemma memory_Block:
  assumes "tb_status r = Status_OK" "opt_compression (tb_options r) = kSnappyCompression" "bb_Finish blk = (b, blk1)" "length s + length b + 5 \<le> n"
  shows "WriteBlock (bounded_file n) r blk s = Some (\<lparr>bh_offset = tb_offset r, bh_size = of_nat (length b)\<rparr>, bb_Reset blk1,
    r\<lparr>tb_offset := tb_offset r + of_nat (length b) + 5\<rparr>, s @ chunk b)"
  using assms(2,3) memory_Raw [OF assms(1,4)] assms(1) by (simp add: WriteBlock_def Snappy_Compress_def tb_ok_def Status_ok_def Status_OK_def)

section \<open>The blocks\<close>

definition demo_options :: Options where
  "demo_options = new_Options\<lparr>opt_comparator := InternalKeyComparator BytewiseComparator,
     opt_filter_policy := Some (InternalFilterPolicy (bloom_policy \<lparr>bits_per_key = 10, bloom_k = 6\<rparr>), [98])\<rparr>"

definition demo_entries :: "(slice \<times> slice) list" where
  "demo_entries = [(ikey [97] 5 1, [1]), (ikey [98] 7 1, [2])]"

definition demo_builder :: TableBuilder where
  "demo_builder =
     \<lparr>tb_options = demo_options, tb_index_options = demo_options\<lparr>block_restart_interval := 1\<rparr>, tb_offset = 0, tb_status = Status_OK,
      tb_data_block = \<lparr>bb_buffer = [0, 9, 1, 97, 1, 5, 0, 0, 0, 0, 0, 0, 1, 0, 9, 1, 98, 1, 7, 0, 0, 0, 0, 0, 0, 2],
        bb_restarts = [0], bb_counter = 2, bb_finished = False, bb_last_key = [98, 1, 7, 0, 0, 0, 0, 0, 0]\<rparr>,
      tb_index_block = \<lparr>bb_buffer = [], bb_restarts = [0], bb_counter = 0, bb_finished = False, bb_last_key = []\<rparr>,
      tb_last_key = [98, 1, 7, 0, 0, 0, 0, 0, 0], tb_num_entries = 2, tb_closed = False,
      tb_filter_block = Some (InternalFilterPolicy (bloom_policy \<lparr>bits_per_key = 10, bloom_k = 6\<rparr>),
        \<lparr>fb_keys = [97, 1, 5, 0, 0, 0, 0, 0, 0, 98, 1, 7, 0, 0, 0, 0, 0, 0], fb_start = [0, 9], fb_result = [], filter_offsets = []\<rparr>),
      tb_pending_index_entry = False, tb_pending_handle = new_BlockHandle\<rparr>"

lemma bind_weak_cong: "a = b \<Longrightarrow> Option.bind a f = Option.bind b f" by simp

lemma demo_parts: "opt_comparator demo_options = InternalKeyComparator BytewiseComparator" "block_restart_interval demo_options = 16"
  "block_size demo_options = 4096" "opt_filter_policy demo_options = Some (InternalFilterPolicy (bloom_policy \<lparr>bits_per_key = 10, bloom_k = 6\<rparr>), [98])"
  "opt_compression demo_options = kSnappyCompression"
  by (simp_all add: demo_options_def new_Options_def)

lemma demo_ikeys: "ikey [97] 5 1 = [97, 1, 5, 0, 0, 0, 0, 0, 0]" "ikey [98] 7 1 = [98, 1, 7, 0, 0, 0, 0, 0, 0]"
  by code_simp+

lemma demo_Add1: "bb_Add demo_options \<lparr>bb_buffer = [], bb_restarts = [0], bb_counter = 0, bb_finished = False, bb_last_key = []\<rparr> [97, 1, 5, 0, 0, 0, 0, 0, 0] [1]
   = Some \<lparr>bb_buffer = [0, 9, 1, 97, 1, 5, 0, 0, 0, 0, 0, 0, 1], bb_restarts = [0], bb_counter = 1, bb_finished = False, bb_last_key = [97, 1, 5, 0, 0, 0, 0, 0, 0]\<rparr>"
  by code_simp
lemma demo_Add2: "bb_Add demo_options \<lparr>bb_buffer = [0, 9, 1, 97, 1, 5, 0, 0, 0, 0, 0, 0, 1], bb_restarts = [0], bb_counter = 1, bb_finished = False, bb_last_key = [97, 1, 5, 0, 0, 0, 0, 0, 0]\<rparr> [98, 1, 7, 0, 0, 0, 0, 0, 0] [2]
   = Some (tb_data_block demo_builder)"
  by code_simp

lemma demo_AddAll: "do { r \<leftarrow> new_TableBuilder demo_options; tb_AddAll (bounded_file 65536) r demo_entries [] } = Some (demo_builder, [])"
proof -
  have n: "new_TableBuilder demo_options = Some (demo_builder\<lparr>tb_data_block := \<lparr>bb_buffer = [], bb_restarts = [0], bb_counter = 0, bb_finished = False, bb_last_key = []\<rparr>,
     tb_last_key := [], tb_num_entries := 0, tb_filter_block := Some (InternalFilterPolicy (bloom_policy \<lparr>bits_per_key = 10, bloom_k = 6\<rparr>), new_FilterBlockBuilder)\<rparr>)"
    by (simp add: new_TableBuilder_def new_BlockBuilder_def demo_parts on_filter_def StartBlock_def StartBlock_loop.simps new_FilterBlockBuilder_def demo_builder_def)
  have c: "Compare (InternalKeyComparator BytewiseComparator) [98, 1, 7, 0, 0, 0, 0, 0, 0] [97, 1, 5, 0, 0, 0, 0, 0, 0] = Some 1" by code_simp
  show ?thesis
    by (simp add: n demo_entries_def demo_ikeys tb_Add_def demo_builder_def tb_ok_def Status_ok_def Status_OK_def demo_parts demo_Add1 on_filter_def
       new_FilterBlockBuilder_def fb_AddKey_def bb_CurrentSizeEstimate_def c demo_Add2 [unfolded demo_builder_def] cong: bind_weak_cong)
qed


definition demo_data :: slice where
  "demo_data = [0, 9, 1, 97, 1, 5, 0, 0, 0, 0, 0, 0, 1, 0, 9, 1, 98, 1, 7, 0, 0, 0, 0, 0, 0, 2, 0, 0, 0, 0, 1, 0, 0, 0]"
definition demo_filter :: slice where
  "demo_filter = [24, 48, 96, 192, 128, 1, 3, 0, 6, 0, 0, 0, 0, 9, 0, 0, 0, 11]"
definition demo_meta :: slice where
  "demo_meta = [0, 8, 2, 102, 105, 108, 116, 101, 114, 46, 98, 39, 18, 0, 0, 0, 0, 1, 0, 0, 0]"
definition demo_index :: slice where
  "demo_index = [0, 9, 2, 98, 1, 7, 0, 0, 0, 0, 0, 0, 0, 34, 0, 0, 0, 0, 1, 0, 0, 0]"

lemma demo_lengths: "length demo_data = 34" "length demo_filter = 18" "length demo_meta = 21" "length demo_index = 22"
  by (simp_all add: demo_data_def demo_filter_def demo_meta_def demo_index_def)

definition demo_flushed :: TableBuilder where
  "demo_flushed = demo_builder\<lparr>tb_offset := 39, tb_data_block := bb_Reset (tb_data_block demo_builder), tb_pending_index_entry := True,
     tb_pending_handle := \<lparr>bh_offset = 0, bh_size = 34\<rparr>\<rparr>"

lemma demo_fields:
  "tb_status demo_builder = Status_OK" "tb_options demo_builder = demo_options" "tb_offset demo_builder = 0" "\<not> tb_closed demo_builder"
  "\<not> tb_pending_index_entry demo_builder" "tb_index_options demo_builder = demo_options\<lparr>block_restart_interval := 1\<rparr>"
  "tb_index_block demo_builder = \<lparr>bb_buffer = [], bb_restarts = [0], bb_counter = 0, bb_finished = False, bb_last_key = []\<rparr>"
  "tb_last_key demo_builder = [98, 1, 7, 0, 0, 0, 0, 0, 0]"
  "tb_filter_block demo_builder = Some (InternalFilterPolicy (bloom_policy \<lparr>bits_per_key = 10, bloom_k = 6\<rparr>),
        \<lparr>fb_keys = [97, 1, 5, 0, 0, 0, 0, 0, 0, 98, 1, 7, 0, 0, 0, 0, 0, 0], fb_start = [0, 9], fb_result = [], filter_offsets = []\<rparr>)"
  by (simp_all add: demo_builder_def)

lemmas demo_ok = tb_ok_def Status_ok_def Status_OK_def

lemma demo_Flush: "tb_Flush (bounded_file 65536) demo_builder [] = Some (demo_flushed, chunk demo_data)"
proof -
  let ?db = "tb_data_block demo_builder"
  have f: "bb_Finish ?db = (demo_data, ?db\<lparr>bb_buffer := demo_data, bb_finished := True\<rparr>)" "\<not> bb_empty ?db" by code_simp+
  have r: "bb_Reset (?db\<lparr>bb_buffer := demo_data, bb_finished := True\<rparr>) = bb_Reset ?db" by (simp add: bb_Reset_def)
  have w: "WriteBlock (bounded_file 65536) demo_builder ?db [] = Some (\<lparr>bh_offset = 0, bh_size = 34\<rparr>, bb_Reset ?db, demo_builder\<lparr>tb_offset := 39\<rparr>, chunk demo_data)"
    using memory_Block [OF _ _ f(1), of demo_builder "[]" 65536] by (simp add: demo_lengths demo_fields demo_parts r)
  have s: "demo_flushed\<lparr>tb_status := None\<rparr> = demo_flushed" by (simp add: demo_flushed_def demo_builder_def Status_OK_def)
  show ?thesis using s
    by (simp add: tb_Flush_def f(2) w demo_fields demo_ok memory_Flush [unfolded Status_OK_def] on_filter_def StartBlock_def StartBlock_loop.simps demo_flushed_def cong: bind_weak_cong)
qed

abbreviation demo_policy :: FilterPolicy where
  "demo_policy \<equiv> InternalFilterPolicy (bloom_policy \<lparr>bits_per_key = 10, bloom_k = 6\<rparr>)"

lemma demo_write_filter:
  "\<exists>fb. write_filter (bounded_file 65536) (demo_flushed\<lparr>tb_closed := True\<rparr>) (chunk demo_data) =
     Some (\<lparr>bh_offset = 39, bh_size = 18\<rparr>, demo_flushed\<lparr>tb_closed := True, tb_filter_block := Some fb, tb_offset := 62\<rparr>, chunk demo_data @ chunk demo_filter)"
proof -
  let ?fb = "\<lparr>fb_keys = [97, 1, 5, 0, 0, 0, 0, 0, 0, 98, 1, 7, 0, 0, 0, 0, 0, 0], fb_start = [0, 9], fb_result = [], filter_offsets = []\<rparr>"
  have "map_option fst (fb_Finish demo_policy ?fb) = Some demo_filter" by code_simp
  then obtain fb where fb: "fb_Finish demo_policy ?fb = Some (demo_filter, fb)" by auto
  let ?r = "demo_flushed\<lparr>tb_closed := True, tb_filter_block := Some (demo_policy, fb)\<rparr>"
  have "WriteRawBlock (bounded_file 65536) ?r demo_filter kNoCompression (chunk demo_data)
      = Some (\<lparr>bh_offset = 39, bh_size = 18\<rparr>, ?r\<lparr>tb_offset := 62\<rparr>, chunk demo_data @ chunk demo_filter)"
    using memory_Raw [of ?r "chunk demo_data" demo_filter 65536] by (simp add: demo_flushed_def demo_fields demo_lengths)
  then show ?thesis using fb by (intro exI [of _ "(demo_policy, fb)"]) (simp add: write_filter_def demo_flushed_def demo_fields demo_ok)
qed

lemma demo_write_metaindex:
  assumes "tb_status r = Status_OK" "tb_options r = demo_options" "tb_filter_block r \<noteq> None" "tb_offset r = 62" "length s = 62"
  shows "write_metaindex (bounded_file 65536) \<lparr>bh_offset = 39, bh_size = 18\<rparr> r s = Some (\<lparr>bh_offset = 62, bh_size = 21\<rparr>, r\<lparr>tb_offset := 88\<rparr>, s @ chunk demo_meta)"
proof -
  have e: "bh_EncodeTo \<lparr>bh_offset = 39, bh_size = 18\<rparr> [] = Some [39, 18]" by code_simp
  let ?b = "\<lparr>bb_buffer = [], bb_restarts = [0], bb_counter = 0, bb_finished = False, bb_last_key = []\<rparr>"
  have "map_option (\<lambda>b. fst (bb_Finish b)) (bb_Add demo_options ?b (lit ''filter.'' @ [98]) [39, 18]) = Some demo_meta" by code_simp
  then obtain b where "bb_Add demo_options ?b (lit ''filter.'' @ [98]) [39, 18] = Some b" "fst (bb_Finish b) = demo_meta" by (auto simp del: append_Cons)
  then obtain blk where a: "bb_Add demo_options ?b (lit ''filter.'' @ [98]) [39, 18] = Some b" "bb_Finish b = (demo_meta, blk)" by (metis prod.collapse)
  show ?thesis using memory_Block [OF assms(1) _ a(2), of s 65536] assms
    by (simp add: write_metaindex_def tb_ok_def Status_ok_def Status_OK_def new_BlockBuilder_def demo_parts e a(1) demo_lengths cong: bind_weak_cong)
qed

lemma demo_write_index:
  assumes "tb_status r = Status_OK" "tb_options r = demo_options" "tb_offset r = 88" "length s = 88" "tb_pending_index_entry r"
    "tb_last_key r = [98, 1, 7, 0, 0, 0, 0, 0, 0]" "tb_pending_handle r = \<lparr>bh_offset = 0, bh_size = 34\<rparr>"
    "tb_index_options r = demo_options\<lparr>block_restart_interval := 1\<rparr>"
    "tb_index_block r = \<lparr>bb_buffer = [], bb_restarts = [0], bb_counter = 0, bb_finished = False, bb_last_key = []\<rparr>"
  shows "\<exists>r'. write_index (bounded_file 65536) r s = Some (\<lparr>bh_offset = 88, bh_size = 22\<rparr>, r', s @ chunk demo_index) \<and> tb_status r' = Status_OK"
proof -
  have e: "bh_EncodeTo \<lparr>bh_offset = 0, bh_size = 34\<rparr> [] = Some [0, 34]" by code_simp
  let ?b = "\<lparr>bb_buffer = [], bb_restarts = [0], bb_counter = 0, bb_finished = False, bb_last_key = []\<rparr>"
  have f: "FindShortSuccessor (InternalKeyComparator BytewiseComparator) [98, 1, 7, 0, 0, 0, 0, 0, 0] = Some [98, 1, 7, 0, 0, 0, 0, 0, 0]" by code_simp
  have "map_option (\<lambda>b. fst (bb_Finish b)) (bb_Add (demo_options\<lparr>block_restart_interval := 1\<rparr>) ?b [98, 1, 7, 0, 0, 0, 0, 0, 0] [0, 34]) = Some demo_index" by code_simp
  then obtain b where "bb_Add (demo_options\<lparr>block_restart_interval := 1\<rparr>) ?b [98, 1, 7, 0, 0, 0, 0, 0, 0] [0, 34] = Some b" "fst (bb_Finish b) = demo_index" by auto
  then obtain blk where a: "bb_Add (demo_options\<lparr>block_restart_interval := 1\<rparr>) ?b [98, 1, 7, 0, 0, 0, 0, 0, 0] [0, 34] = Some b" "bb_Finish b = (demo_index, blk)" by (metis prod.collapse)
  show ?thesis using memory_Block [OF _ _ a(2), of "r\<lparr>tb_last_key := [98, 1, 7, 0, 0, 0, 0, 0, 0], tb_index_block := b, tb_pending_index_entry := False\<rparr>" s 65536] assms
    by (simp add: write_index_def add_index_entry_def tb_ok_def Status_ok_def Status_OK_def demo_parts e a(1) f demo_lengths cong: bind_weak_cong)
qed

section \<open>The file\<close>

definition demo_file :: "byte list" where
  "demo_file = chunk demo_data @ chunk demo_filter @ chunk demo_meta @ chunk demo_index @
     footer_bytes \<lparr>metaindex_handle = \<lparr>bh_offset = 62, bh_size = 21\<rparr>, index_handle = \<lparr>bh_offset = 88, bh_size = 22\<rparr>\<rparr>"

lemma demo_build: "build_table demo_options (bounded_file 65536) demo_entries [] = Some (Status_OK, demo_file)"
proof -
  obtain fb where 1: "write_filter (bounded_file 65536) (demo_flushed\<lparr>tb_closed := True\<rparr>) (chunk demo_data) =
     Some (\<lparr>bh_offset = 39, bh_size = 18\<rparr>, demo_flushed\<lparr>tb_closed := True, tb_filter_block := Some fb, tb_offset := 62\<rparr>, chunk demo_data @ chunk demo_filter)"
    using demo_write_filter by blast
  let ?r = "demo_flushed\<lparr>tb_closed := True, tb_filter_block := Some fb, tb_offset := 62\<rparr>"
  have 2: "write_metaindex (bounded_file 65536) \<lparr>bh_offset = 39, bh_size = 18\<rparr> ?r (chunk demo_data @ chunk demo_filter) =
     Some (\<lparr>bh_offset = 62, bh_size = 21\<rparr>, ?r\<lparr>tb_offset := 88\<rparr>, (chunk demo_data @ chunk demo_filter) @ chunk demo_meta)"
    by (rule demo_write_metaindex) (simp_all add: demo_flushed_def demo_fields demo_lengths)
  obtain r where 3: "write_index (bounded_file 65536) (?r\<lparr>tb_offset := 88\<rparr>) ((chunk demo_data @ chunk demo_filter) @ chunk demo_meta) =
     Some (\<lparr>bh_offset = 88, bh_size = 22\<rparr>, r, ((chunk demo_data @ chunk demo_filter) @ chunk demo_meta) @ chunk demo_index)" "tb_status r = Status_OK"
    using demo_write_index [of "?r\<lparr>tb_offset := 88\<rparr>" "(chunk demo_data @ chunk demo_filter) @ chunk demo_meta"]
    by (auto simp: demo_flushed_def demo_fields demo_lengths)
  let ?s = "((chunk demo_data @ chunk demo_filter) @ chunk demo_meta) @ chunk demo_index"
  let ?f = "\<lparr>metaindex_handle = \<lparr>bh_offset = 62, bh_size = 21\<rparr>, index_handle = \<lparr>bh_offset = 88, bh_size = 22\<rparr>\<rparr>"
  have e: "footer_EncodeTo ?f [] = Some (footer_bytes ?f)" by (rule footer_Encode) (simp_all add: handle_set_def)
  have a: "wf_Append (bounded_file 65536) (footer_bytes ?f) ?s = (Status_OK, ?s @ footer_bytes ?f)"
    by (rule memory_Append) (simp add: demo_lengths length_footer_bytes)
  obtain r' where 4: "write_footer (bounded_file 65536) \<lparr>bh_offset = 62, bh_size = 21\<rparr> \<lparr>bh_offset = 88, bh_size = 22\<rparr> r ?s
      = Some (r', ?s @ footer_bytes ?f)" "tb_status r' = Status_OK"
    using 3(2) a unfolding write_footer_def e bind.bind_lunit by (simp add: tb_ok_def Status_ok_def Status_OK_def)
  have "\<not> tb_closed demo_flushed" by (simp add: demo_flushed_def demo_fields)
  then have "tb_Finish (bounded_file 65536) demo_builder [] = Some (Status_OK, r', demo_file)"
    using 1 2 3(1) 4 by (simp add: tb_Finish_def demo_Flush demo_file_def cong: bind_weak_cong)
  then show ?thesis using demo_AddAll by (auto simp: build_table_def split: bind_splits)
qed

text \<open>A file that serves bytes from memory.\<close>

definition memory_reader :: "byte list \<Rightarrow> RandomAccessFile" where
  "memory_reader bytes = (\<lambda>off n. (Status_OK, take (unat n) (drop (unat off) bytes), True))"

lemma serves_memory: "serves (memory_reader bytes) bytes"
  by (auto simp: serves_def memory_reader_def)

lemma length_demo_file: "length demo_file = 163"
  by (simp add: demo_file_def demo_lengths length_footer_bytes)

end
