(* ===== verification/LdbTableRead.thy ===== *)
theory LdbTableRead
  imports LdbTableSample
begin

text \<open>
  Iterators and lookups of an open table (table/table.cc), and tables of internal keys: what a finished
  table holds is what it was built from.
\<close>

section \<open>Iterators and lookups\<close>

context table_setting
begin

lemma NewIterator_ok:
  assumes "opened bytes bs idx raf t s at"
  shows "\<exists>it at2. Table_NewIterator t None options = Some it
    \<and> iterator_over (TwoLevelIterator_ops (Table_levels t None options)) (opt_comparator opts) valid (block_entries bs) at2
    \<and> at2 it (length (block_entries bs))"
proof -
  obtain at_data where tl: "two_level (Table_levels t None options) (opt_comparator opts) valid idx at (map snd bs) at_data"
    using opened_levels [OF assms] by blast
  have "at s (length idx)" and s: "Block_NewIterator (t_index_block t) = Some s" using assms by (simp_all add: opened_def)
  from two_level.new_two [OF tl this(1)] two_level.two_contract [OF tl] s show ?thesis
    unfolding block_entries_def Table_NewIterator_def by auto
qed

text \<open>The policy answers for the key, and alike for all keys of its kind.\<close>

definition policy_ok :: "slice \<Rightarrow> bool" where
  "policy_ok k \<longleftrightarrow> (\<forall>policy name. opt_filter_policy opts = Some (policy, name) \<longrightarrow>
     (\<forall>f. length f < 2 ^ 32 \<longrightarrow> KeyMayMatch policy k f \<noteq> None) \<and> (\<forall>k' f. valid k' \<longrightarrow> same k k' \<longrightarrow> KeyMayMatch policy k f = KeyMayMatch policy k' f))"

text \<open>What a lookup does with the first entry not below its key.\<close>

definition got :: "slice \<Rightarrow> (slice \<times> slice) list \<Rightarrow> ('a \<Rightarrow> slice \<Rightarrow> slice \<Rightarrow> 'a) \<Rightarrow> 'a \<Rightarrow> 'a \<Rightarrow> bool" where
  "got k es saver arg arg' \<longleftrightarrow>
     (let i = seek_index (opt_comparator opts) k es in
      if i < length es then
        arg' = saver arg (fst (es ! i)) (snd (es ! i)) \<or> arg' = arg \<and> \<not> same k (fst (es ! i))
      else arg' = arg)"

text \<open>When the block the index leads to has no entry from the key on, the next entry is of another kind.\<close>

lemma beyond_block:
  assumes tl: "two_level lv (opt_comparator opts) valid idx at (map snd bs) at_data" and tf: "table_file bytes bs idx"
    and es: "entries_ok (opt_comparator opts) valid (block_entries bs)"
    and k: "valid k" and J: "J = seek_index (opt_comparator opts) k idx" "J < length idx"
    and r: "\<not> seek_index (opt_comparator opts) k (snd (bs ! J)) < length (snd (bs ! J))"
    and i: "i = seek_index (opt_comparator opts) k (block_entries bs)" "i < length (block_entries bs)"
  shows "\<not> same k (fst (block_entries bs ! i))"
proof
  assume sm: "same k (fst (block_entries bs ! i))"
  have len: "length idx = length bs" and io: "index_ok (opt_comparator opts) valid same bs [] idx" and full: "\<forall>b \<in> set bs. snd b \<noteq> []"
    using tf by (simp_all add: table_file_def)
  have jb: "J < length bs" using J(2) len by simp
  let ?e = "block_entries bs ! i" and ?x = "fst (idx ! J)" and ?b = "snd (bs ! J)"
  have r': "\<not> seek_index (opt_comparator opts) k (map snd bs ! J) < length (map snd bs ! J)" using r jb by simp
  have e: "Suc J < length idx" "?e \<in> set (map snd bs ! Suc J)"
    using two_level.seek_next [OF tl k] J r' i unfolding block_entries_def by auto
  have "bs ! Suc J \<in> set (drop (Suc J) bs)" using e(1) len by (metis Cons_nth_drop_Suc list.set_intros(1))
  then have "?e \<in> set (block_entries (drop (Suc J) bs) @ [])" using e len by (auto simp: block_entries_def)
  then have sep: "lt ?x (fst ?e)" "?x = fst (last ?b) \<or> \<not> same ?x (fst ?e)" using io J(2) unfolding index_ok_def separates_def by auto
  have v: "valid ?x" "valid (fst ?e)" using io J(2) es i(2) by (simp_all add: index_ok_def entries_ok_def)
  have ge: "\<not> lt ?x k" using seek_index_at [of "opt_comparator opts" k idx] J by simp
  have "\<not> lt (fst ?e) ?x" using less_trans [OF v(1,2,1) sep(1)] less_irrefl [OF v(1)] by blast
  from same_between [OF k v ge this sm] sep(2) have x: "?x = fst (last ?b)" by blast
  have ne: "?b \<noteq> []" using full jb by simp
  then have "0 < length ?b" by simp
  then have "length ?b - 1 < seek_index (opt_comparator opts) k ?b" using r by linarith
  from seek_index_before [OF this] have "lt (fst (last ?b)) k" using ne by (simp add: last_conv_nth)
  then show False using x ge by simp
qed

lemma Get_ok:
  assumes o: "opened bytes bs idx raf t s at" and k: "valid k" and pol: "policy_ok k"
  shows "\<exists>arg'. InternalGet t None options k saver arg = Some (Status_OK, arg') \<and> got k (block_entries bs) saver arg arg'"
proof -
  let ?c = "opt_comparator opts"
  let ?ops = "BlockIterator_ops ?c" and ?J = "seek_index ?c k idx" and ?es = "block_entries bs"
  let ?i = "seek_index ?c k ?es"
  have tf: "table_file bytes bs idx" and es: "entries_ok ?c valid ?es" and to: "t_options t = opts"
    and it: "iterator_over ?ops ?c valid idx at" and s: "Block_NewIterator (t_index_block t) = Some s" "at s (length idx)"
    and fo: "filter_ok t bs" using o by (simp_all add: opened_def)
  have len: "length idx = length bs" and io: "index_ok ?c valid same bs [] idx" using tf by (simp_all add: table_file_def)
  obtain at_data where tl: "two_level (Table_levels t None options) ?c valid idx at (map snd bs) at_data" using opened_levels [OF o] by blast
  obtain s1 where s1: "it_Seek ?ops k s = Some s1" "at s1 ?J" using iterator_over.at_Seek [OF it s(2) k] by blast
  have st1: "it_status ?ops s1 = Some Status_OK" and val1: "it_Valid ?ops s1 \<longleftrightarrow> ?J < length idx"
    using iterator_over.at_status [OF it s1(2)] iterator_over.at_Valid [OF it s1(2)] by simp_all
  show ?thesis
  proof (cases "?J < length idx")
    case False
    then have "?i = length ?es" using two_level.seek_none [OF tl k] by (simp add: block_entries_def)
    then show ?thesis using False s(1) s1(1) st1 val1 to by (simp add: InternalGet_def got_def Status_ok_def Status_OK_def)
  next
    case J: True
    then have jb: "?J < length bs" using len by simp
    let ?b = "snd (bs ! ?J)" and ?r = "seek_index ?c k (snd (bs ! ?J))"
    have hv: "it_value ?ops s1 = Some (snd (idx ! ?J))" "snd (idx ! ?J) = enc_handle (block_handle bs ?J)"
      using iterator_over.at_value [OF it s1(2) J] io J by (simp_all add: index_ok_def)
    have off: "bh_offset (block_handle bs ?J) = of_nat (block_pos bs ?J)" by (simp add: block_handle_def handle_at_def)
    define excluded where "excluded = (case t_filter t of None \<Rightarrow> Some False
        | Some (policy, reader) \<Rightarrow> do {
            (sh, handle, _) \<leftarrow> bh_DecodeFrom new_BlockHandle (snd (idx ! ?J));
            if Status_ok sh then do { m \<leftarrow> fr_KeyMayMatch policy reader (bh_offset handle) k; Some (\<not> m) } else Some False
          })"
    have in_block: "?i < length ?es" "?es ! ?i = ?b ! ?r" if "?r < length ?b"
      using two_level.seek_in [OF tl k J] that jb by (simp_all add: block_entries_def)
    have other: "\<not> same k (fst (?es ! ?i))" if "?i < length ?es" "\<not> ?r < length ?b"
      using beyond_block [OF tl tf es k refl J that(2) refl that(1)] .
    obtain x where x: "excluded = Some x" "x \<Longrightarrow> ?i < length ?es \<Longrightarrow> \<not> same k (fst (?es ! ?i))"
    proof (cases "t_filter t")
      case None
      then show ?thesis using that [of False] by (simp add: excluded_def)
    next
      case (Some pr)
      obtain policy reader where pr: "t_filter t = Some (policy, reader)" using Some by (cases pr) auto
      obtain name where pn: "opt_filter_policy opts = Some (policy, name)" using fo pr by (auto simp: filter_ok_def)
      have def: "fr_KeyMayMatch policy reader (of_nat (block_pos bs ?J)) k \<noteq> None"
        using fo pr pol pn unfolding filter_ok_def policy_ok_def by blast
      then obtain m where m: "fr_KeyMayMatch policy reader (of_nat (block_pos bs ?J)) k = Some m" by blast
      have "excluded = Some (\<not> m)"
        by (simp add: excluded_def pr hv(2) handle_decodes off m Status_ok_def Status_OK_def)
      moreover have "\<not> same k (fst (?es ! ?i))" if "\<not> m" "?i < length ?es"
      proof
        assume sm: "same k (fst (?es ! ?i))"
        then have r: "?r < length ?b" using other that(2) by blast
        have v: "valid (fst (?es ! ?i))" using es that(2) by (simp add: entries_ok_def)
        have "fst (?es ! ?i) \<in> set (map fst ?b)" using in_block(2) [OF r] r by simp
        then have "fr_KeyMayMatch policy reader (of_nat (block_pos bs ?J)) (fst (?es ! ?i)) = Some True"
          using fo pr jb unfolding filter_ok_def by blast
        moreover have "KeyMayMatch policy k f = KeyMayMatch policy (fst (?es ! ?i)) f" for f
          using pol pn sm v unfolding policy_ok_def by blast
        ultimately have "m" using fr_same [of policy k "fst (?es ! ?i)"] m by simp
        then show False using that(1) by simp
      qed
      ultimately show ?thesis using that [of "\<not> m"] by blast
    qed
    obtain d inserted at_d where d: "BlockReader t None options (snd (idx ! ?J)) = Some (d, inserted)"
        "iterator_over ?ops ?c valid ?b at_d" "at_d d (length ?b)" using BlockReader_ok [OF o jb, of options] by blast
    obtain d1 where d1: "it_Seek ?ops k d = Some d1" "at_d d1 ?r" using iterator_over.at_Seek [OF d(2,3) k] by blast
    have std: "it_status ?ops d1 = Some Status_OK" and vald: "it_Valid ?ops d1 \<longleftrightarrow> ?r < length ?b"
      using iterator_over.at_status [OF d(2) d1(2)] iterator_over.at_Valid [OF d(2) d1(2)] by simp_all
    let ?arg = "if \<not> x \<and> ?r < length ?b then saver arg (fst (?b ! ?r)) (snd (?b ! ?r)) else arg"
    have kv: "it_key ?ops d1 = Some (fst (?b ! ?r))" "it_value ?ops d1 = Some (snd (?b ! ?r))" if "?r < length ?b"
      using iterator_over.at_key [OF d(2) d1(2) that] iterator_over.at_value [OF d(2) d1(2) that] by simp_all
    have "InternalGet t None options k saver arg = Some (Status_OK, ?arg)"
      using s(1) s1(1) st1 val1 to J hv(1) x(1) [unfolded excluded_def] d(1) d1(1) std vald kv
      by (cases x; cases "?r < length ?b") (simp_all add: InternalGet_def Let_def Status_ok_def Status_OK_def)
    moreover have "got k ?es saver arg ?arg"
      using in_block other x(2) by (auto simp: got_def Let_def)
    ultimately show ?thesis by blast
  qed
qed

end

section \<open>Tables of internal keys\<close>

context internal_keys
begin

text \<open>A separator is the start itself, or its user key is below that of the limit.\<close>

lemma separator_user:
  assumes a: "valid_internal valid a" and b: "valid_internal valid b"
    and s: "FindShortestSeparator (InternalKeyComparator c) a b = Some s"
  shows "s = a \<or> less_key (Compare c) (uk s) (uk b)"
proof -
  have v: "valid (uk a)" "valid (uk b)" and x: "ExtractUserKey a = Some (uk a)" "ExtractUserKey b = Some (uk b)"
    using a b by (simp_all add: valid_internal_def ExtractUserKey_def uk_def)
  show ?thesis
  proof (cases "less_key (Compare c) (uk a) (uk b)")
    case True
    then obtain tmp where tmp: "FindShortestSeparator c (uk a) (uk b) = Some tmp" "less_key (Compare c) tmp (uk b)"
      using separator [OF v] by blast
    have "uk (PutFixed64 tmp t) = tmp" for t by (simp add: PutFixed64_def uk_def)
    then show ?thesis using s x tmp
      by (auto simp: InternalKeyComparator_def internal_FindShortestSeparator_def tack_on_tag_def Let_def split: if_splits bind_splits)
  next
    case False
    then show ?thesis using separator_idle [OF v False] s x
      by (auto simp: InternalKeyComparator_def internal_FindShortestSeparator_def tack_on_tag_def split: if_splits)
  qed
qed

end

text \<open>
  The options a database gives its tables (\<open>SanitizeOptions\<close> in db/db_impl.cc): the comparator of internal keys and,
  with a bloom filter for user keys, its wrapper.
\<close>

definition db_options :: "Options \<Rightarrow> bool" where
  "db_options opts \<longleftrightarrow> opt_comparator opts = InternalKeyComparator BytewiseComparator \<and> 1 \<le> block_restart_interval opts
     \<and> (opt_compression opts = kNoCompression \<or> opt_compression opts = kSnappyCompression)
     \<and> (\<forall>policy name. opt_filter_policy opts = Some (policy, name) \<longrightarrow>
          (\<exists>b p. 0 \<le> b \<and> b < 2 ^ 31 \<and> NewBloomFilterPolicy b = Some p \<and> policy = InternalFilterPolicy p))"

definition internal_ok :: "slice \<Rightarrow> bool" where
  "internal_ok k \<longleftrightarrow> 8 \<le> length k"

definition same_user :: "slice \<Rightarrow> slice \<Rightarrow> bool" where
  "same_user a b \<longleftrightarrow> uk a = uk b"

lemma internal_ok_valid: "valid_internal (\<lambda>_. True) = internal_ok"
  by (rule ext) (simp add: valid_internal_def internal_ok_def)

lemma internal_less: "internal_ok a \<Longrightarrow> internal_ok b \<Longrightarrow>
    less_key (Compare (InternalKeyComparator BytewiseComparator)) a b \<longleftrightarrow> uk a < uk b \<or> uk a = uk b \<and> tag64 b < tag64 a"
  by (simp add: InternalKeyComparator_def internal_ok_def less_internal bytewise_less bytewise_same)

lemma db_setting:
  assumes "db_options opts" and "writable_file wfile content"
  shows "table_setting opts internal_ok wfile content same_user"
proof (intro table_setting.intro table_setting_axioms.intro assms(2))
  have c: "opt_comparator opts = InternalKeyComparator BytewiseComparator" using assms(1) by (simp add: db_options_def)
  show "key_comparator (opt_comparator opts) internal_ok" using bytewise_keys.internal.key_comparator_axioms by (simp add: c internal_ok_valid)
  show "1 \<le> block_restart_interval opts" "opt_compression opts = kNoCompression \<or> opt_compression opts = kSnappyCompression"
    using assms(1) by (simp_all add: db_options_def)
  show "filter_policy policy internal_ok" if pol: "opt_filter_policy opts = Some (policy, name)" for policy name
  proof -
    obtain b p where "0 \<le> b" "b < 2 ^ 31" "new_BloomFilterPolicy b = Some p" "policy = InternalFilterPolicy (bloom_policy p)"
      using assms(1) pol unfolding db_options_def NewBloomFilterPolicy_def by (auto split: bind_splits)
    then show ?thesis using bloom_bits.internal_contract [of b p] unfolding internal_ok_def [abs_def] by (simp add: bloom_bits_def)
  qed
  show "same_user a b \<and> same_user b d" if "internal_ok a" "internal_ok b" "internal_ok d"
    "\<not> less_key (Compare (opt_comparator opts)) b a" "\<not> less_key (Compare (opt_comparator opts)) d b" "same_user a d" for a b d
    using that unfolding c same_user_def by (auto simp: internal_less)
  show "s = a \<or> \<not> same_user s b" if "internal_ok a" "internal_ok b" "less_key (Compare (opt_comparator opts)) a b"
    "FindShortestSeparator (opt_comparator opts) a b = Some s" for a b s
    using bytewise_keys.separator_user [of a b s] that by (auto simp: c internal_ok_valid same_user_def bytewise_less)
qed

lemma db_policy:
  assumes "db_options opts" and "writable_file wfile content" and "internal_ok k"
  shows "table_setting.policy_ok opts internal_ok same_user k"
proof -
  have "KeyMayMatch policy k f \<noteq> None" if "opt_filter_policy opts = Some (policy, name)" "length f < 2 ^ 32" for policy name f
    using that assms(1,3) bloom_defined [of f] unfolding db_options_def NewBloomFilterPolicy_def internal_ok_def
    by (fastforce simp: InternalFilterPolicy_def ExtractUserKey_def split: bind_splits)
  moreover have "KeyMayMatch policy k f = KeyMayMatch policy k' f"
    if "opt_filter_policy opts = Some (policy, name)" "internal_ok k'" "same_user k k'" for policy name k' f
    using that assms(1,3) unfolding db_options_def internal_ok_def same_user_def uk_def
    by (fastforce simp: InternalFilterPolicy_def ExtractUserKey_def)
  ultimately show ?thesis by (simp add: table_setting.policy_ok_def [OF db_setting [OF assms(1,2)]])
qed

text \<open>The sample table is an instance.\<close>

lemma demo_db: "db_options demo_options"
proof -
  have "NewBloomFilterPolicy 10 = Some (bloom_policy \<lparr>bits_per_key = 10, bloom_k = 6\<rparr>)"
    by (simp add: NewBloomFilterPolicy_def new_BloomFilterPolicy_def Let_def)
  then show ?thesis unfolding db_options_def demo_parts
    by (intro conjI allI impI exI [of _ 10] exI [of _ "bloom_policy \<lparr>bits_per_key = 10, bloom_k = 6\<rparr>"]) simp_all
qed

interpretation demo_table: table_setting demo_options internal_ok "bounded_file 65536" "\<lambda>s. s" same_user
  by (rule db_setting [OF demo_db memory_file.writable_file_axioms])

lemma demo_sorted:
  "sorted_wrt (less_key (Compare (opt_comparator demo_options))) (map fst demo_entries)" "\<forall>k \<in> set (map fst demo_entries). internal_ok k"
  by (simp_all add: demo_entries_def demo_parts internal_less internal_ok_def)

section \<open>What a table holds\<close>

text \<open>A client that reads at most \<open>n\<close> entries: where it starts, and how it goes on.\<close>

definition read_table :: "Table \<Rightarrow> ReadOptions \<Rightarrow> nat
    \<Rightarrow> ((BlockIterator, BlockIterator) TwoLevelIterator Iterator \<Rightarrow> (BlockIterator, BlockIterator) TwoLevelIterator \<Rightarrow> (BlockIterator, BlockIterator) TwoLevelIterator option)
    \<Rightarrow> ((BlockIterator, BlockIterator) TwoLevelIterator Iterator \<Rightarrow> (BlockIterator, BlockIterator) TwoLevelIterator \<Rightarrow> (BlockIterator, BlockIterator) TwoLevelIterator option)
    \<Rightarrow> (slice \<times> slice) list option" where
  "read_table t options n start move = do {
     let ops = TwoLevelIterator_ops (Table_levels t None options);
     it \<leftarrow> Table_NewIterator t None options;
     it1 \<leftarrow> start ops it;
     (r, it2) \<leftarrow> scan n ops (move ops) it1;
     Some r
   }"

lemma seek_rest: "drop (seek_index c k es) es = dropWhile (\<lambda>e. less_key (Compare c) (fst e) k) es"
  by (simp add: seek_index_def dropWhile_eq_drop)

context table_setting
begin

lemma read_ok:
  assumes o: "opened bytes bs idx raf t s at"
  shows "read_table t options (length (block_entries bs)) it_SeekToFirst it_Next = Some (block_entries bs)"
    and "read_table t options (length (block_entries bs)) it_SeekToLast it_Prev = Some (rev (block_entries bs))"
    and "valid k \<Longrightarrow> read_table t options (length (block_entries bs)) (\<lambda>ops. it_Seek ops k) it_Next
      = Some (dropWhile (\<lambda>e. lt (fst e) k) (block_entries bs))"
proof -
  let ?ops = "TwoLevelIterator_ops (Table_levels t None options)" and ?es = "block_entries bs"
  obtain it at2 where it: "Table_NewIterator t None options = Some it" "iterator_over ?ops (opt_comparator opts) valid ?es at2" "at2 it (length ?es)"
    using NewIterator_ok [OF o, of options] by blast
  note fwd = iterator_over.entries_forward [OF it(2)]
  show "read_table t options (length ?es) it_SeekToFirst it_Next = Some ?es"
  proof -
    obtain a where "it_SeekToFirst ?ops it = Some a" "at2 a 0" using iterator_over.at_First [OF it(2,3)] by blast
    then show ?thesis using fwd [of a 0 "length ?es"] it(1) by (auto simp: read_table_def)
  qed
  show "read_table t options (length ?es) it_SeekToLast it_Prev = Some (rev ?es)"
  proof -
    obtain a where a: "it_SeekToLast ?ops it = Some a" "at2 a (length ?es - 1)" using iterator_over.at_Last [OF it(2,3)] by blast
    show ?thesis
    proof (cases "?es = []")
      case True
      then show ?thesis using a it(1) iterator_over.at_Valid [OF it(2) a(2)] by (simp add: read_table_def scan.simps)
    next
      case False
      then have "length ?es - 1 < length ?es" "Suc (length ?es - 1) = length ?es" by simp_all
      then show ?thesis using iterator_over.entries_backward [OF it(2) a(2), of "length ?es"] a(1) it(1) by (auto simp: read_table_def)
    qed
  qed
  show "read_table t options (length ?es) (\<lambda>ops. it_Seek ops k) it_Next = Some (dropWhile (\<lambda>e. lt (fst e) k) ?es)" if v: "valid k"
  proof -
    obtain a where a: "it_Seek ?ops k it = Some a" "at2 a (seek_index (opt_comparator opts) k ?es)"
      using iterator_over.at_Seek [OF it(2,3) v] by blast
    show ?thesis using fwd [OF a(2), of "length ?es"] a(1) it(1) by (auto simp: read_table_def seek_rest Let_def)
  qed
qed

end

text \<open>
  C3: A table holds what it was built from. Whatever file the builder writes to, building ends without a
  failed assertion, and when the status is ok, opening the file gives a table whose
  iterator runs over the entries in order, backwards, and from the first key not below a target. The
  entries have increasing internal keys; the options are those a database uses, with any bloom filter, block
  size and restart interval.
\<close>

theorem table_roundtrip:
  assumes "db_options opts" and "writable_file wfile content" and "content s = []" and "length es < 2 ^ 31"
    and "sorted_wrt (less_key (Compare (opt_comparator opts))) (map fst es)" and "\<forall>k \<in> set (map fst es). internal_ok k"
  shows "\<exists>st s'. build_table opts wfile es s = Some (st, s') \<and> (Status_ok st \<longrightarrow> (\<forall>raf new_id options target. serves raf (content s') \<longrightarrow>
    (\<exists>t. Table_Open opts raf new_id (of_nat (length (content s'))) = Some (Status_OK, Some t) \<and>
       read_table t options (length es) it_SeekToFirst it_Next = Some es \<and>
       read_table t options (length es) it_SeekToLast it_Prev = Some (rev es) \<and>
       (internal_ok target \<longrightarrow> read_table t options (length es) (\<lambda>ops. it_Seek ops target) it_Next =
          Some (dropWhile (\<lambda>e. less_key (Compare (opt_comparator opts)) (fst e) target) es)))))"
proof -
  note set = db_setting [OF assms(1,2)]
  have es: "entries_ok (opt_comparator opts) internal_ok es" using assms(5,6) by (simp add: entries_ok_def)
  obtain st s' where b: "build_table opts wfile es s = Some (st, s')"
      "Status_ok st \<longrightarrow> (\<exists>bs idx. table_setting.table_file opts internal_ok same_user (content s') bs idx \<and> block_entries bs = es)"
    using table_setting.build_ok [OF set assms(3) es assms(4)] by blast
  show ?thesis
  proof (intro exI [of _ st] exI [of _ s'] conjI impI allI)
    show "build_table opts wfile es s = Some (st, s')" by (rule b(1))
  next
    fix raf new_id options target
    assume "Status_ok st" and raf: "serves raf (content s')"
    then obtain bs idx where tf: "table_setting.table_file opts internal_ok same_user (content s') bs idx" "block_entries bs = es"
      using b(2) by blast
    obtain t i "at" where t: "Table_Open opts raf new_id (of_nat (length (content s'))) = Some (Status_OK, Some t)"
        "table_setting.opened opts internal_ok same_user (content s') bs idx raf t i at"
      using table_setting.Open_ok [OF set tf(1) _ _ raf] es assms(4) tf(2) by blast
    show "\<exists>t. Table_Open opts raf new_id (of_nat (length (content s'))) = Some (Status_OK, Some t) \<and>
       read_table t options (length es) it_SeekToFirst it_Next = Some es \<and>
       read_table t options (length es) it_SeekToLast it_Prev = Some (rev es) \<and>
       (internal_ok target \<longrightarrow> read_table t options (length es) (\<lambda>ops. it_Seek ops target) it_Next =
          Some (dropWhile (\<lambda>e. less_key (Compare (opt_comparator opts)) (fst e) target) es))"
      using t(1) table_setting.read_ok [OF set t(2), where options = options] unfolding tf(2) by blast
  qed
qed

theorem table_roundtrip_witness:
  "\<exists>t. Table_Open demo_options (memory_reader demo_file) 7 163 = Some (Status_OK, Some t) \<and>
     read_table t new_ReadOptions 2 it_SeekToFirst it_Next = Some [(ikey [97] 5 1, [1]), (ikey [98] 7 1, [2])] \<and>
     read_table t new_ReadOptions 2 it_SeekToLast it_Prev = Some [(ikey [98] 7 1, [2]), (ikey [97] 5 1, [1])]"
proof -
  have "length demo_entries < 2 ^ 31" by (simp add: demo_entries_def)
  note rt = table_roundtrip [OF demo_db memory_file.writable_file_axioms refl this demo_sorted]
  have len: "length demo_entries = 2" "(of_nat (length demo_file) :: u64) = 163" "rev demo_entries = [(ikey [98] 7 1, [2]), (ikey [97] 5 1, [1])]"
    by (simp_all add: demo_entries_def length_demo_file)
  obtain st s' where b: "build_table demo_options (bounded_file 65536) demo_entries [] = Some (st, s')"
      "Status_ok st \<longrightarrow> (\<forall>raf new_id options target. serves raf s' \<longrightarrow>
        (\<exists>t. Table_Open demo_options raf new_id (of_nat (length s')) = Some (Status_OK, Some t) \<and>
           read_table t options (length demo_entries) it_SeekToFirst it_Next = Some demo_entries \<and>
           read_table t options (length demo_entries) it_SeekToLast it_Prev = Some (rev demo_entries)))"
    using rt by blast
  have s': "Status_ok st" "s' = demo_file" using b(1) demo_build by (simp_all add: Status_ok_def Status_OK_def)
  obtain t where "Table_Open demo_options (memory_reader demo_file) 7 (of_nat (length demo_file)) = Some (Status_OK, Some t)"
      "read_table t new_ReadOptions (length demo_entries) it_SeekToFirst it_Next = Some demo_entries"
      "read_table t new_ReadOptions (length demo_entries) it_SeekToLast it_Prev = Some (rev demo_entries)"
    using b(2) s' serves_memory [of demo_file] by blast
  then show ?thesis unfolding len by (auto simp: demo_entries_def)
qed

lemma table_lookup:
  assumes "db_options opts" and "writable_file wfile content" and "content s = []" and "length es < 2 ^ 31"
    and "sorted_wrt (less_key (Compare (opt_comparator opts))) (map fst es)" and "\<forall>k \<in> set (map fst es). internal_ok k"
    and "build_table opts wfile es s = Some (st, s')" and "Status_ok st" and "serves raf (content s')" and "internal_ok k"
  shows "\<exists>t arg'. Table_Open opts raf new_id (of_nat (length (content s'))) = Some (Status_OK, Some t) \<and>
    InternalGet t None options k saver arg = Some (Status_OK, arg') \<and>
    (case dropWhile (\<lambda>e. less_key (Compare (opt_comparator opts)) (fst e) k) es of
       [] \<Rightarrow> arg' = arg
     | (k', v) # _ \<Rightarrow> arg' = saver arg k' v \<or> arg' = arg \<and> uk k' \<noteq> uk k)"
proof -
  note set = db_setting [OF assms(1,2)] and pol = db_policy [OF assms(1,2,10)]
  have es: "entries_ok (opt_comparator opts) internal_ok es" using assms(5,6) by (simp add: entries_ok_def)
  obtain bs idx where tf: "table_setting.table_file opts internal_ok same_user (content s') bs idx" "block_entries bs = es"
    using table_setting.build_ok [OF set assms(3) es assms(4)] assms(7,8) by auto
  obtain t i "at" where t: "Table_Open opts raf new_id (of_nat (length (content s'))) = Some (Status_OK, Some t)"
      "table_setting.opened opts internal_ok same_user (content s') bs idx raf t i at"
    using table_setting.Open_ok [OF set tf(1) _ _ assms(9)] es assms(4) tf(2) by blast
  obtain arg' where g: "InternalGet t None options k saver arg = Some (Status_OK, arg')" "table_setting.got opts same_user k es saver arg arg'"
    using table_setting.Get_ok [OF set t(2) assms(10) pol, of options saver arg] tf(2) by blast
  have "case dropWhile (\<lambda>e. less_key (Compare (opt_comparator opts)) (fst e) k) es of [] \<Rightarrow> arg' = arg
     | (k', v) # _ \<Rightarrow> arg' = saver arg k' v \<or> arg' = arg \<and> uk k' \<noteq> uk k"
    using g(2) unfolding table_setting.got_def [OF set] seek_rest [symmetric] same_user_def Let_def
    by (auto simp: Cons_nth_drop_Suc [symmetric] split: if_splits prod.splits)
  then show ?thesis using t(1) g(1) by blast
qed

text \<open>
  C13: Lookups in a table find what it holds. A lookup of an internal key gives the function of the caller
  the first entry not below the key. It may give it nothing only when that entry
  belongs to another user key: neither the filter nor the separators of the index hide an entry of the user key.
\<close>

theorem table_get:
  assumes "db_options opts" and "writable_file wfile content" and "content s = []" and "length es < 2 ^ 31"
    and "sorted_wrt (less_key (Compare (opt_comparator opts))) (map fst es)" and "\<forall>k \<in> set (map fst es). internal_ok k"
    and "build_table opts wfile es s = Some (st, s')" and "Status_ok st" and "serves raf (content s')" and "internal_ok k"
  shows "\<exists>t arg'. Table_Open opts raf new_id (of_nat (length (content s'))) = Some (Status_OK, Some t) \<and>
    InternalGet t None options k saver arg = Some (Status_OK, arg') \<and>
    (case dropWhile (\<lambda>e. less_key (Compare (opt_comparator opts)) (fst e) k) es of
       [] \<Rightarrow> arg' = arg
     | (k', v) # _ \<Rightarrow> arg' = saver arg k' v \<or> arg' = arg \<and> uk k' \<noteq> uk k)"
  by (rule table_lookup [OF assms])

theorem table_get_witness:
  "\<exists>t. Table_Open demo_options (memory_reader demo_file) 7 163 = Some (Status_OK, Some t) \<and>
     InternalGet t None new_ReadOptions (ikey [97] 9 1) (\<lambda>_ k v. Some (k, v)) None = Some (Status_OK, Some (ikey [97] 5 1, [1]))"
proof -
  have l: "\<not> less_key (Compare (opt_comparator demo_options)) (ikey [97] 5 1) (ikey [97] 9 1)"
    by (simp add: demo_parts internal_less internal_ok_def kMaxSequenceNumber_def tag_of_less)
  have k: "internal_ok (ikey [97] 9 1)" by (simp add: internal_ok_def)
  show ?thesis
    using table_get [OF demo_db memory_file.writable_file_axioms refl _ demo_sorted demo_build _ serves_memory [of demo_file] k,
        of 7 new_ReadOptions "\<lambda>_ k v. Some (k, v)" None] l
    by (simp add: Status_ok_def Status_OK_def length_demo_file demo_entries_def)
qed

text \<open>
  Reading blocks of a table through a block cache: what is inserted is found by later reads. A block is cached under the
  number of the table and the offset of the block; a cache holds for the handles of a table what reading them gives.
\<close>

definition cached_read :: "Table \<Rightarrow> ReadOptions \<Rightarrow> slice \<Rightarrow> (slice \<Rightarrow> Block option) \<Rightarrow> (BlockIterator \<times> (slice \<Rightarrow> Block option)) option" where
  "cached_read t options v f = do {
     (it, inserted) \<leftarrow> BlockReader t (Some f) options v;
     Some (it, case inserted of None \<Rightarrow> f | Some (key, b) \<Rightarrow> f(key := Some b))
   }"

fun cached_reads :: "Table \<Rightarrow> ReadOptions \<Rightarrow> slice list \<Rightarrow> (slice \<Rightarrow> Block option) \<Rightarrow> (BlockIterator list \<times> (slice \<Rightarrow> Block option)) option" where
  "cached_reads t options [] f = Some ([], f)"
| "cached_reads t options (v # vs) f = do {
     (it, f1) \<leftarrow> cached_read t options v f;
     (its, f2) \<leftarrow> cached_reads t options vs f1;
     Some (it # its, f2)
   }"

definition handle_of :: "slice \<Rightarrow> BlockHandle \<Rightarrow> bool" where
  "handle_of v h \<longleftrightarrow> (\<exists>st rest. bh_DecodeFrom new_BlockHandle v = Some (st, h, rest) \<and> Status_ok st)"

definition cache_holds :: "Table \<Rightarrow> ReadOptions \<Rightarrow> BlockHandle set \<Rightarrow> (slice \<Rightarrow> Block option) \<Rightarrow> bool" where
  "cache_holds t options H f \<longleftrightarrow> (\<forall>h \<in> H. \<forall>b. f (EncodeFixed64 (t_cache_id t) @ EncodeFixed64 (bh_offset h)) = Some b \<longrightarrow>
     (\<exists>st contents. ReadBlock (t_file t) options h = Some (st, contents) \<and> Status_ok st \<and> new_Block contents = Some b))"

lemma EncodeFixed64_inj: "EncodeFixed64 a = EncodeFixed64 b \<Longrightarrow> a = b"
  using DecodeFixed64_Encode [of a "[]"] DecodeFixed64_Encode [of b "[]"] by simp

lemma cached_read_exact:
  assumes f: "cache_holds t options H f" and H: "inj_on bh_offset H" "h \<in> H" and v: "handle_of v h"
  shows "(\<exists>f1. cached_read t options v f = Some (it, f1)) \<longleftrightarrow> BlockReader t None options v = Some (it, None)"
    and "cached_read t options v f = Some (it, f1) \<Longrightarrow> cache_holds t options H f1"
proof -
  let ?key = "EncodeFixed64 (t_cache_id t) @ EncodeFixed64 (bh_offset h)"
  obtain st rest where h: "bh_DecodeFrom new_BlockHandle v = Some (st, h, rest)" "Status_ok st" using v by (auto simp: handle_of_def)
  have plain: "BlockReader t None options v = do {
      (s1, contents) \<leftarrow> ReadBlock (t_file t) options h;
      block \<leftarrow> (if Status_ok s1 then do { b \<leftarrow> new_Block contents; Some (Some b) } else Some None);
      case block of Some b \<Rightarrow> do { iter \<leftarrow> Block_NewIterator b; Some (iter, None) } | None \<Rightarrow> Some (Empty_block_iterator s1, None) }"
    using h by (auto simp: BlockReader_def Let_def split: bind_splits option.splits)
  show "(\<exists>f1. cached_read t options v f = Some (it, f1)) \<longleftrightarrow> BlockReader t None options v = Some (it, None)"
  proof (cases "f ?key")
    case None
    have "(\<exists>f1. cached_read t options v f = Some (it, f1)) \<longleftrightarrow> (\<exists>ins. BlockReader t (Some f) options v = Some (it, ins))"
      by (auto simp: cached_read_def split: bind_splits)
    also have "\<dots> \<longleftrightarrow> BlockReader t None options v = Some (it, None)"
      unfolding plain using h None by (auto simp: BlockReader_def Let_def split: bind_splits option.splits if_splits)
    finally show ?thesis .
  next
    case (Some b)
    then obtain s1 contents where c: "ReadBlock (t_file t) options h = Some (s1, contents)" "Status_ok s1" "new_Block contents = Some b"
      using f H(2) Some unfolding cache_holds_def by blast
    have "BlockReader t (Some f) options v = do { iter \<leftarrow> Block_NewIterator b; Some (iter, None) }"
      using h Some by (simp add: BlockReader_def Let_def)
    then show ?thesis unfolding plain using c by (auto simp: cached_read_def split: bind_splits)
  qed
  show "cache_holds t options H f1" if r: "cached_read t options v f = Some (it, f1)"
  proof -
    obtain ins where ins: "BlockReader t (Some f) options v = Some (it, ins)" "f1 = (case ins of None \<Rightarrow> f | Some (key, b) \<Rightarrow> f(key := Some b))"
      using r by (auto simp: cached_read_def split: bind_splits)
    show ?thesis
    proof (cases ins)
      case None
      then show ?thesis using f ins(2) by simp
    next
      case (Some kb)
      obtain key b where kb: "kb = (key, b)" by (cases kb)
      have new: "key = ?key \<and> (\<exists>s1 contents. ReadBlock (t_file t) options h = Some (s1, contents) \<and> Status_ok s1 \<and> new_Block contents = Some b)"
        using ins(1) h Some kb by (auto simp: BlockReader_def Let_def split: bind_splits option.splits if_splits)
      show ?thesis unfolding cache_holds_def
      proof (intro ballI allI impI)
        fix h' b' assume h': "h' \<in> H" "f1 (EncodeFixed64 (t_cache_id t) @ EncodeFixed64 (bh_offset h')) = Some b'"
        show "\<exists>st contents. ReadBlock (t_file t) options h' = Some (st, contents) \<and> Status_ok st \<and> new_Block contents = Some b'"
        proof (cases "bh_offset h' = bh_offset h")
          case True
          then have "h' = h" using H h'(1) by (simp add: inj_on_eq_iff)
          then show ?thesis using h'(2) new ins(2) Some kb by simp
        next
          case False
          then have "EncodeFixed64 (t_cache_id t) @ EncodeFixed64 (bh_offset h') \<noteq> ?key" using EncodeFixed64_inj by fastforce
          then show ?thesis using h' new ins(2) Some kb f by (auto simp: cache_holds_def)
        qed
      qed
    qed
  qed
qed

lemma cached_reads_exact:
  "cache_holds t options H f \<Longrightarrow> inj_on bh_offset H \<Longrightarrow> \<forall>v \<in> set vs. \<exists>h \<in> H. handle_of v h \<Longrightarrow>
   (\<exists>f'. cached_reads t options vs f = Some (its, f') \<and> cache_holds t options H f') \<longleftrightarrow>
     map (BlockReader t None options) vs = map (\<lambda>it. Some (it, None)) its"
proof (induction vs arbitrary: f its)
  case (Cons v vs)
  obtain h where h: "h \<in> H" "handle_of v h" using Cons.prems(3) by auto
  note one = cached_read_exact [OF Cons.prems(1,2) h]
  show ?case
  proof
    assume "\<exists>f'. cached_reads t options (v # vs) f = Some (its, f') \<and> cache_holds t options H f'"
    then obtain f' it f1 its' where r: "cached_read t options v f = Some (it, f1)" "cached_reads t options vs f1 = Some (its', f')" "its = it # its'"
        "cache_holds t options H f'"
      by (auto split: bind_splits)
    have "BlockReader t None options v = Some (it, None)" using one(1) r(1) by blast
    moreover have "map (BlockReader t None options) vs = map (\<lambda>it. Some (it, None)) its'"
      using Cons.IH [OF one(2) [OF r(1)] Cons.prems(2), of its'] Cons.prems(3) r(2,4) by auto
    ultimately show "map (BlockReader t None options) (v # vs) = map (\<lambda>it. Some (it, None)) its" using r(3) by simp
  next
    assume m: "map (BlockReader t None options) (v # vs) = map (\<lambda>it. Some (it, None)) its"
    then obtain it its' where its: "its = it # its'" by (cases its) auto
    then obtain f1 where f1: "cached_read t options v f = Some (it, f1)" using one(1) [of it] m by auto
    have "map (BlockReader t None options) vs = map (\<lambda>it. Some (it, None)) its'" using m its by simp
    then obtain f' where "cached_reads t options vs f1 = Some (its', f')" "cache_holds t options H f'"
      using Cons.IH [OF one(2) [OF f1] Cons.prems(2), of its'] Cons.prems(3) by auto
    then show "\<exists>f'. cached_reads t options (v # vs) f = Some (its, f') \<and> cache_holds t options H f'" using f1 its by simp
  qed
qed auto

text \<open>
  C37: The block cache does not change what is read. Reads of blocks of a table, in any order and with repetitions, give through a
  cache exactly the iterators that they give without one, when the reads have the same options and no two
  blocks of the table have the same offset; and the cache, which may be empty or hold blocks of other tables, keeps holding for every
  block of the table what reading it gives.
\<close>

theorem block_cache_transparent:
  assumes "cache_holds t options H f" and "inj_on bh_offset H" and "\<forall>v \<in> set vs. \<exists>h \<in> H. handle_of v h"
  shows "(\<exists>f'. cached_reads t options vs f = Some (its, f') \<and> cache_holds t options H f') \<longleftrightarrow>
    map (BlockReader t None options) vs = map (\<lambda>it. Some (it, None)) its"
  using assms by (rule cached_reads_exact)

text \<open>Two empty blocks, at the offsets 0 and 13; the first is read twice.\<close>

definition two_empty_blocks :: Table where
  "two_empty_blocks = \<lparr>t_options = new_Options, t_file = memory_reader ([0, 0, 0, 0, 1, 0, 0, 0, 0, 0, 0, 0, 0] @ [0, 0, 0, 0, 1, 0, 0, 0, 0, 0, 0, 0, 0]), t_cache_id = 7,
     t_filter = None, t_metaindex_handle = new_BlockHandle, t_index_block = \<lparr>blk_data = [], blk_size = 0, restart_offset = 0, owned = False\<rparr>\<rparr>"

theorem block_cache_transparent_witness:
  "\<exists>its f'. cached_reads two_empty_blocks new_ReadOptions [[0, 8], [13, 8], [0, 8]] (\<lambda>_. None) = Some (its, f') \<and>
     map (BlockReader two_empty_blocks None new_ReadOptions) [[0, 8], [13, 8], [0, 8]] = map (\<lambda>it. Some (it, None)) its"
proof -
  let ?H = "{\<lparr>bh_offset = 0, bh_size = 8\<rparr>, \<lparr>bh_offset = 13, bh_size = 8\<rparr>}"
  have "map_option (\<lambda>(st, h, rest). (Status_ok st, bh_offset h, bh_size h)) (bh_DecodeFrom new_BlockHandle [0, 8]) = Some (True, 0, 8)"
    "map_option (\<lambda>(st, h, rest). (Status_ok st, bh_offset h, bh_size h)) (bh_DecodeFrom new_BlockHandle [13, 8]) = Some (True, 13, 8)" by code_simp+
  then have "handle_of [0, 8] \<lparr>bh_offset = 0, bh_size = 8\<rparr>" "handle_of [13, 8] \<lparr>bh_offset = 13, bh_size = 8\<rparr>" by (auto simp: handle_of_def)
  then have h: "\<forall>v \<in> set [[0, 8], [13, 8], [0, 8]]. \<exists>h \<in> ?H. handle_of v h" by auto
  have "map_option snd (BlockReader two_empty_blocks None new_ReadOptions [0, 8]) = Some None"
    "map_option snd (BlockReader two_empty_blocks None new_ReadOptions [13, 8]) = Some None" by code_simp+
  then obtain a b where ab: "BlockReader two_empty_blocks None new_ReadOptions [0, 8] = Some (a, None)" "BlockReader two_empty_blocks None new_ReadOptions [13, 8] = Some (b, None)"
    by auto
  have "cache_holds two_empty_blocks new_ReadOptions ?H (\<lambda>_. None)" by (simp add: cache_holds_def)
  then show ?thesis
    using block_cache_transparent [OF _ _ h, of two_empty_blocks new_ReadOptions "\<lambda>_. None" "[a, b, a]"] ab by (auto simp: inj_on_def)
qed

section \<open>An instance of two levels\<close>

text \<open>An index block of one entry that leads to a block of three.\<close>

definition small_index :: "entry list" where
  "small_index = [([0xFF], [7], 0)]"

interpretation small_index: sorted_block small_index "[0]" "block_bytes small_index [0]" BytewiseComparator "\<lambda>_. True"
proof (intro sorted_block.intro sorted_block_axioms.intro block_layout.intro)
  show "chained small_index" by (auto simp: chained_def small_index_def prev_key_def e_shared_def e_key_def)
  show "restarts_ok small_index [0]" by (auto simp: restarts_ok_def small_index_def e_shared_def)
  have "length (block_bytes small_index [0]) = 13" by code_simp
  then show "length (block_bytes small_index [0]) < 2 ^ 32" by simp
  show "comparator (Compare BytewiseComparator) (\<lambda>_. True)" by (rule bytewise.comparator_axioms)
  show "sorted_wrt (less_key (Compare BytewiseComparator)) (map e_key small_index)" by (simp add: small_index_def)
qed simp_all

definition small_levels :: "(BlockIterator, BlockIterator) two_levels" where
  "small_levels =
     \<lparr>index_ops = BlockIterator_ops BytewiseComparator, data_ops = BlockIterator_ops BytewiseComparator,
      block_function = (\<lambda>v. do {
        blk \<leftarrow> new_Block \<lparr>bc_data = block_bytes small_entries [0, 2], cachable = False, heap_allocated = False\<rparr>;
        Block_NewIterator blk
      })\<rparr>"

interpretation small_levels: two_level small_levels BytewiseComparator "\<lambda>_. True" "map e_pair small_index" small_index.block_at
  "[map e_pair small_entries]" "\<lambda>j. small_block.block_at"
proof (intro two_level.intro two_level_axioms.intro)
  have i: "index_ops small_levels = BlockIterator_ops BytewiseComparator" "data_ops small_levels = BlockIterator_ops BytewiseComparator"
    by (simp_all add: small_levels_def)
  show "iterator_over (index_ops small_levels) BytewiseComparator (\<lambda>_. True) (map e_pair small_index) small_index.block_at"
    unfolding i by (rule small_index.block_contract)
  show "comparator (Compare BytewiseComparator) (\<lambda>_. True)" by (rule bytewise.comparator_axioms)
  show "length [map e_pair small_entries] = length (map e_pair small_index)" "distinct (map snd (map e_pair small_index))"
    by (simp_all add: small_index_def)
  fix j
  assume "j < length (map e_pair small_index)"
  then have j: "j = 0" by (simp add: small_index_def)
  obtain blk s where s: "new_Block \<lparr>bc_data = block_bytes small_entries [0, 2], cachable = False, heap_allocated = False\<rparr> = Some blk"
      "Block_NewIterator blk = Some (Block_iterator s)" "small_block.at_entry s (length small_entries)"
    using small_block.new_Block_layout [of "\<lparr>bc_data = block_bytes small_entries [0, 2], cachable = False, heap_allocated = False\<rparr>"] by auto
  then have "small_block.block_at (Block_iterator s) (length small_entries)" unfolding small_block.block_at_def by blast
  then show "\<exists>d. block_function small_levels (snd (map e_pair small_index ! j)) = Some d \<and> small_block.block_at d (length ([map e_pair small_entries] ! j))"
    using s(1,2) by (simp add: j small_levels_def)
  show "iterator_over (data_ops small_levels) BytewiseComparator (\<lambda>_. True) ([map e_pair small_entries] ! j) small_block.block_at"
    unfolding i j using small_block.block_contract by simp
  show "[map e_pair small_entries] ! j \<noteq> []" by (simp add: j small_entries_def)
  show "\<not> less_key (Compare BytewiseComparator) (fst (map e_pair small_index ! j)) (fst e)" if "e \<in> set ([map e_pair small_entries] ! j)" for e
    using that by (auto simp: j small_entries_def small_index_def e_pair_def e_key_def bytewise_less)
qed (simp_all add: small_index_def)

end
