(* ===== verification/LdbDBIter.thy ===== *)
theory LdbDBIter
  imports LdbMerger LdbRandom LdbTableRead
begin

text \<open>
  The iterator of a database (db/db_iter.h, db/db_iter.cc): over an iterator of internal keys it shows, of every user
  key, the newest entry that is not newer than a snapshot, unless that is a deletion. Every so often it
  reports a key it has read to the database; these reports are a list here.
\<close>

section \<open>The iterator\<close>

definition kReadBytesPeriod :: u32 where
  "kReadBytesPeriod = 1048576"

text \<open>
  The reports of \<open>RecordReadSample\<close> are kept in \<open>di_samples\<close>, the newest first. The capacity of a string is not modelled,
  so that clearing a saved value and swapping it with an empty string are the same.
\<close>

record 's DBIter =
  di_iter :: 's
  di_status :: Status
  di_saved_key :: slice
  di_saved_value :: slice
  di_direction :: Direction
  di_valid :: bool
  di_rnd :: u32
  di_bytes_counter :: int
  di_samples :: "slice list"

definition RandomPeriod :: "u32 \<Rightarrow> (int \<times> u32) option" where
  "RandomPeriod rnd = do { (r, rnd') \<leftarrow> Random_Uniform rnd (2 * kReadBytesPeriod); Some (uint r, rnd') }"

definition NewDBIterator :: "'s \<Rightarrow> u32 \<Rightarrow> 's DBIter option" where
  "NewDBIterator iter seed = do {
     (period, rnd) \<leftarrow> RandomPeriod (Random seed);
     Some \<lparr>di_iter = iter, di_status = Status_OK, di_saved_key = [], di_saved_value = [], di_direction = kForward,
           di_valid = False, di_rnd = rnd, di_bytes_counter = period, di_samples = []\<rparr>
   }"

definition di_key :: "'s Iterator \<Rightarrow> 's DBIter \<Rightarrow> slice option" where
  "di_key it d =
     (if di_valid d then
        (if di_direction d = kForward then do { k \<leftarrow> it_key it (di_iter d); ExtractUserKey k } else Some (di_saved_key d))
      else None)"

definition di_value :: "'s Iterator \<Rightarrow> 's DBIter \<Rightarrow> slice option" where
  "di_value it d =
     (if di_valid d then (if di_direction d = kForward then it_value it (di_iter d) else Some (di_saved_value d)) else None)"

definition di_get_status :: "'s Iterator \<Rightarrow> 's DBIter \<Rightarrow> Status option" where
  "di_get_status it d = (if Status_ok (di_status d) then it_status it (di_iter d) else Some (di_status d))"

definition on_iter :: "('s \<Rightarrow> 's option) \<Rightarrow> 's DBIter \<Rightarrow> 's DBIter option" where
  "on_iter f d = do { s \<leftarrow> f (di_iter d); Some (d\<lparr>di_iter := s\<rparr>) }"

text \<open>The loop ends when enough random numbers are not zero.\<close>

partial_function (option) sample_loop :: "slice \<Rightarrow> int \<Rightarrow> u32 \<Rightarrow> slice list \<Rightarrow> (int \<times> u32 \<times> slice list) option" where
  "sample_loop k counter rnd samples =
     (if counter < 0 then do { (period, rnd') \<leftarrow> RandomPeriod rnd; sample_loop k (counter + period) rnd' (k # samples) }
      else Some (counter, rnd, samples))"

definition ParseKey :: "'s Iterator \<Rightarrow> 's DBIter \<Rightarrow> (ParsedInternalKey option \<times> 's DBIter) option" where
  "ParseKey it d = do {
     k \<leftarrow> it_key it (di_iter d);
     v \<leftarrow> it_value it (di_iter d);
     (counter, rnd, samples) \<leftarrow> sample_loop k (di_bytes_counter d - int (length k + length v)) (di_rnd d) (di_samples d);
     let d1 = d\<lparr>di_bytes_counter := counter, di_rnd := rnd, di_samples := samples\<rparr>;
     case ParseInternalKey k of
       None \<Rightarrow> do { st \<leftarrow> Status_Corruption (lit ''corrupted internal key in DBIter'') []; Some (None, d1\<lparr>di_status := st\<rparr>) }
     | Some pk \<Rightarrow> Some (Some pk, d1)
   }"

text \<open>In every call the string \<open>skip\<close> is \<open>saved_key_\<close>.\<close>

partial_function (option) FindNextUserEntry_loop ::
  "Comparator \<Rightarrow> 's Iterator \<Rightarrow> SequenceNumber \<Rightarrow> bool \<Rightarrow> 's DBIter \<Rightarrow> 's DBIter option" where
  "FindNextUserEntry_loop c it sq skipping d = do {
     (parsed, d1) \<leftarrow> ParseKey it d;
     (found, skipping1, d2) \<leftarrow>
       (case parsed of None \<Rightarrow> Some (False, skipping, d1)
        | Some pk \<Rightarrow>
            if pk_sequence pk \<le> sq then
              (if pk_type pk = kTypeDeletion then Some (False, True, d1\<lparr>di_saved_key := pk_user_key pk\<rparr>)
               else if pk_type pk = kTypeValue then do {
                 hidden \<leftarrow> (if skipping then do { r \<leftarrow> Compare c (pk_user_key pk) (di_saved_key d1); Some (r \<le> 0) } else Some False);
                 if hidden then Some (False, skipping, d1)
                 else Some (True, skipping, d1\<lparr>di_valid := True, di_saved_key := []\<rparr>)
               }
               else Some (False, skipping, d1))
            else Some (False, skipping, d1));
     if found then Some d2
     else do {
       d3 \<leftarrow> on_iter (it_Next it) d2;
       if it_Valid it (di_iter d3) then FindNextUserEntry_loop c it sq skipping1 d3
       else Some (d3\<lparr>di_saved_key := [], di_valid := False\<rparr>)
     }
   }"

definition FindNextUserEntry :: "Comparator \<Rightarrow> 's Iterator \<Rightarrow> SequenceNumber \<Rightarrow> bool \<Rightarrow> 's DBIter \<Rightarrow> 's DBIter option" where
  "FindNextUserEntry c it sq skipping d =
     (if it_Valid it (di_iter d) \<and> di_direction d = kForward then FindNextUserEntry_loop c it sq skipping d else None)"

definition di_Next :: "Comparator \<Rightarrow> 's Iterator \<Rightarrow> SequenceNumber \<Rightarrow> 's DBIter \<Rightarrow> 's DBIter option" where
  "di_Next c it sq d =
     (if \<not> di_valid d then None
      else if di_direction d = kReverse then do {
        d1 \<leftarrow> on_iter (if \<not> it_Valid it (di_iter d) then it_SeekToFirst it else it_Next it) (d\<lparr>di_direction := kForward\<rparr>);
        if \<not> it_Valid it (di_iter d1) then Some (d1\<lparr>di_valid := False, di_saved_key := []\<rparr>)
        else FindNextUserEntry c it sq True d1
      }
      else do {
        k \<leftarrow> it_key it (di_iter d);
        u \<leftarrow> ExtractUserKey k;
        FindNextUserEntry c it sq True (d\<lparr>di_saved_key := u\<rparr>)
      })"

partial_function (option) FindPrevUserEntry_loop ::
  "Comparator \<Rightarrow> 's Iterator \<Rightarrow> SequenceNumber \<Rightarrow> ValueType \<Rightarrow> 's DBIter \<Rightarrow> (ValueType \<times> 's DBIter) option" where
  "FindPrevUserEntry_loop c it sq value_type d = do {
     (parsed, d1) \<leftarrow> ParseKey it d;
     (stop, value_type1, d2) \<leftarrow>
       (case parsed of None \<Rightarrow> Some (False, value_type, d1)
        | Some pk \<Rightarrow>
            if pk_sequence pk \<le> sq then do {
              before \<leftarrow> (if value_type \<noteq> kTypeDeletion then do { r \<leftarrow> Compare c (pk_user_key pk) (di_saved_key d1); Some (r < 0) } else Some False);
              if before then Some (True, value_type, d1)
              else if pk_type pk = kTypeDeletion then Some (False, pk_type pk, d1\<lparr>di_saved_key := [], di_saved_value := []\<rparr>)
              else do {
                raw_value \<leftarrow> it_value it (di_iter d1);
                k \<leftarrow> it_key it (di_iter d1);
                u \<leftarrow> ExtractUserKey k;
                Some (False, pk_type pk, d1\<lparr>di_saved_key := u, di_saved_value := raw_value\<rparr>)
              }
            }
            else Some (False, value_type, d1));
     if stop then Some (value_type1, d2)
     else do {
       d3 \<leftarrow> on_iter (it_Prev it) d2;
       if it_Valid it (di_iter d3) then FindPrevUserEntry_loop c it sq value_type1 d3 else Some (value_type1, d3)
     }
   }"

definition FindPrevUserEntry :: "Comparator \<Rightarrow> 's Iterator \<Rightarrow> SequenceNumber \<Rightarrow> 's DBIter \<Rightarrow> 's DBIter option" where
  "FindPrevUserEntry c it sq d =
     (if di_direction d = kReverse then do {
        (value_type, d1) \<leftarrow> (if it_Valid it (di_iter d) then FindPrevUserEntry_loop c it sq kTypeDeletion d else Some (kTypeDeletion, d));
        if value_type = kTypeDeletion
        then Some (d1\<lparr>di_valid := False, di_saved_key := [], di_saved_value := [], di_direction := kForward\<rparr>)
        else Some (d1\<lparr>di_valid := True\<rparr>)
      }
      else None)"

text \<open>The loop of \<open>Prev\<close> that leaves the entries of the current key; its result says whether there is one before.\<close>

partial_function (option) leave_key :: "Comparator \<Rightarrow> 's Iterator \<Rightarrow> 's DBIter \<Rightarrow> (bool \<times> 's DBIter) option" where
  "leave_key c it d = do {
     d1 \<leftarrow> on_iter (it_Prev it) d;
     if \<not> it_Valid it (di_iter d1) then Some (False, d1\<lparr>di_valid := False, di_saved_key := [], di_saved_value := []\<rparr>)
     else do {
       k \<leftarrow> it_key it (di_iter d1);
       u \<leftarrow> ExtractUserKey k;
       r \<leftarrow> Compare c u (di_saved_key d1);
       if r < 0 then Some (True, d1) else leave_key c it d1
     }
   }"

definition di_Prev :: "Comparator \<Rightarrow> 's Iterator \<Rightarrow> SequenceNumber \<Rightarrow> 's DBIter \<Rightarrow> 's DBIter option" where
  "di_Prev c it sq d =
     (if \<not> di_valid d then None
      else if di_direction d = kForward then
        (if it_Valid it (di_iter d) then do {
           k \<leftarrow> it_key it (di_iter d);
           u \<leftarrow> ExtractUserKey k;
           (more, d1) \<leftarrow> leave_key c it (d\<lparr>di_saved_key := u\<rparr>);
           if \<not> more then Some d1 else FindPrevUserEntry c it sq (d1\<lparr>di_direction := kReverse\<rparr>)
         }
         else None)
      else FindPrevUserEntry c it sq d)"

definition di_Seek :: "Comparator \<Rightarrow> 's Iterator \<Rightarrow> SequenceNumber \<Rightarrow> slice \<Rightarrow> 's DBIter \<Rightarrow> 's DBIter option" where
  "di_Seek c it sq target d = do {
     k \<leftarrow> AppendInternalKey [] \<lparr>pk_user_key = target, pk_sequence = sq, pk_type = kValueTypeForSeek\<rparr>;
     d1 \<leftarrow> on_iter (it_Seek it k) (d\<lparr>di_direction := kForward, di_saved_value := [], di_saved_key := k\<rparr>);
     if it_Valid it (di_iter d1) then FindNextUserEntry c it sq False d1 else Some (d1\<lparr>di_valid := False\<rparr>)
   }"

definition di_SeekToFirst :: "Comparator \<Rightarrow> 's Iterator \<Rightarrow> SequenceNumber \<Rightarrow> 's DBIter \<Rightarrow> 's DBIter option" where
  "di_SeekToFirst c it sq d = do {
     d1 \<leftarrow> on_iter (it_SeekToFirst it) (d\<lparr>di_direction := kForward, di_saved_value := []\<rparr>);
     if it_Valid it (di_iter d1) then FindNextUserEntry c it sq False d1 else Some (d1\<lparr>di_valid := False\<rparr>)
   }"

definition di_SeekToLast :: "Comparator \<Rightarrow> 's Iterator \<Rightarrow> SequenceNumber \<Rightarrow> 's DBIter \<Rightarrow> 's DBIter option" where
  "di_SeekToLast c it sq d = do {
     d1 \<leftarrow> on_iter (it_SeekToLast it) (d\<lparr>di_direction := kReverse, di_saved_value := []\<rparr>);
     FindPrevUserEntry c it sq d1
   }"

definition DBIter_ops :: "Comparator \<Rightarrow> 's Iterator \<Rightarrow> SequenceNumber \<Rightarrow> 's DBIter Iterator" where
  "DBIter_ops c it sq =
     \<lparr>it_Valid = di_valid, it_SeekToFirst = di_SeekToFirst c it sq, it_SeekToLast = di_SeekToLast c it sq, it_Seek = di_Seek c it sq,
      it_Next = di_Next c it sq, it_Prev = di_Prev c it sq, it_key = di_key it, it_value = di_value it, it_status = di_get_status it\<rparr>"

section \<open>Sampling\<close>

text \<open>Of two draws in a row one is not zero, so that the loop ends.\<close>

definition zero_draw :: "u32 \<Rightarrow> bool" where
  "zero_draw s \<longleftrightarrow> unat (Random_Next s) mod 2097152 = 0"

lemma zero_twice:
  assumes "1 \<le> a" "a < (1024 :: nat)"
  shows "a * 2097152 * 16807 mod 2147483647 mod 2097152 \<noteq> 0"
proof -
  define h l where "h = a * 16807 div 1024" and "l = a * 16807 mod 1024"
  have hl: "a * 16807 = 1024 * h + l" "l < 1024" "1 \<le> h" "h \<le> 16806" using assms by (simp_all add: h_def l_def less_eq_div_iff_mult_less_eq)
  have "a * 2097152 * 16807 = (a * 16807) * 2097152" by simp
  also have "\<dots> = h * 2147483647 + (h + l * 2097152)" unfolding hl(1) by simp
  finally have "a * 2097152 * 16807 mod 2147483647 = (h + l * 2097152) mod 2147483647" by (simp only: mod_mult_self3)
  also have "\<dots> = h + l * 2097152" using hl(2,4) by simp
  finally show ?thesis using hl(3,4) by simp
qed

lemma zero_once:
  assumes s: "good_seed s" and z: "zero_draw s"
  shows "\<not> zero_draw (Random_Next s)"
proof -
  let ?n = "Random_Next s"
  have g: "good_seed ?n" using Random_Next_exact [OF s] by blast
  obtain a where a: "unat ?n = a * 2097152" using z by (auto simp: zero_draw_def)
  have "a \<in> {1 ..< 1024}" using g a by (auto simp: good_seed_def)
  then have "a * 2097152 * 16807 mod 2147483647 mod 2097152 \<noteq> 0" by (intro zero_twice) simp_all
  then show ?thesis using Random_Next_exact [OF g] a by (simp add: zero_draw_def)
qed

lemma RandomPeriod_good:
  assumes "good_seed s"
  shows "RandomPeriod s = Some (int (unat (Random_Next s) mod 2097152), Random_Next s)" "good_seed (Random_Next s)"
proof -
  have "unat (Random_Next s mod 2097152) = unat (Random_Next s) mod unat (2097152 :: u32)" by (rule unat_mod)
  then have "uint (Random_Next s mod 2097152) = int (unat (Random_Next s) mod 2097152)" by (simp only: uint_nat) simp
  then show "RandomPeriod s = Some (int (unat (Random_Next s) mod 2097152), Random_Next s)"
    by (simp add: RandomPeriod_def Random_Uniform_def kReadBytesPeriod_def Let_def)
  show "good_seed (Random_Next s)" using Random_Next_exact [OF assms] by blast
qed

lemma sample_ends: "good_seed rnd \<Longrightarrow> \<exists>counter' rnd' samples'. sample_loop k counter rnd samples = Some (counter', rnd', samples') \<and> good_seed rnd'"
proof (induction "2 * nat (- counter) + (if zero_draw rnd then 1 else 0)" arbitrary: counter rnd samples rule: less_induct)
  case less
  show ?case
  proof (cases "counter < 0")
    case False
    then show ?thesis using less.prems by (simp add: sample_loop.simps)
  next
    case True
    note p = RandomPeriod_good [OF less.prems]
    let ?n = "Random_Next rnd" and ?r = "int (unat (Random_Next rnd) mod 2097152)"
    have "2 * nat (- (counter + ?r)) + (if zero_draw ?n then 1 else 0) < 2 * nat (- counter) + (if zero_draw rnd then 1 else 0)"
    proof (cases "zero_draw rnd")
      case True
      then show ?thesis using zero_once [OF less.prems True] by (simp add: zero_draw_def)
    next
      case False
      then have "0 < ?r" by (simp add: zero_draw_def)
      then have "nat (- (counter + ?r)) < nat (- counter)" using True by linarith
      then have "2 * nat (- (counter + ?r)) + (if zero_draw ?n then 1 else 0) < 2 * nat (- counter)" by (simp only: split: if_split) linarith
      then show ?thesis using False by (simp only: if_False add_0_right)
    qed
    from less.hyps [OF this p(2)] True p(1) show ?thesis by (simp add: sample_loop.simps [of k counter])
  qed
qed

end
