(* ===== verification/LdbDBIterProps.thy ===== *)
theory LdbDBIterProps
  imports LdbDBIter LdbWalk
begin

text \<open>
  The contract of the database iterator: over an iterator of sorted internal keys it is an iterator over the user
  keys that the snapshot shows, in both directions and with changes of the direction.
\<close>

section \<open>What the iterator shows\<close>

definition seqn :: "slice \<Rightarrow> SequenceNumber" where
  "seqn k = drop_bit 8 (tag64 k)"

definition vtype :: "slice \<Rightarrow> ValueType" where
  "vtype k = ucast (tag64 k AND 0xFF)"

text \<open>An entry is visible when it is not newer than the snapshot; it is shown when it is the newest visible entry of its key and a value.\<close>

definition in_snapshot :: "SequenceNumber \<Rightarrow> (slice \<times> slice) list \<Rightarrow> nat \<Rightarrow> bool" where
  "in_snapshot sq es i \<longleftrightarrow> seqn (fst (es ! i)) \<le> sq"

definition shown :: "SequenceNumber \<Rightarrow> (slice \<times> slice) list \<Rightarrow> nat \<Rightarrow> bool" where
  "shown sq es i \<longleftrightarrow> in_snapshot sq es i \<and> vtype (fst (es ! i)) = kTypeValue \<and> (\<forall>j < i. in_snapshot sq es j \<longrightarrow> uk (fst (es ! j)) \<noteq> uk (fst (es ! i)))"

definition shown_indices :: "SequenceNumber \<Rightarrow> (slice \<times> slice) list \<Rightarrow> nat list" where
  "shown_indices sq es = filter (shown sq es) [0 ..< length es]"

definition user_view :: "SequenceNumber \<Rightarrow> (slice \<times> slice) list \<Rightarrow> (slice \<times> slice) list" where
  "user_view sq es = map (\<lambda>i. (uk (fst (es ! i)), snd (es ! i))) (shown_indices sq es)"

lemma parsed: "8 \<le> length k \<Longrightarrow> vtype k \<le> kTypeValue \<Longrightarrow> ParseInternalKey k = Some \<lparr>pk_user_key = uk k, pk_sequence = seqn k, pk_type = vtype k\<rparr>"
  by (simp add: ParseInternalKey_def Let_def DecodeFixed64_def uk_def seqn_def vtype_def tag64_def)

lemma byte_le_1: "(b :: byte) \<le> 1 \<Longrightarrow> b = 0 \<or> b = 1"
proof -
  assume "b \<le> 1"
  then have "unat b \<le> 1" by (simp add: word_le_nat_alt)
  then show ?thesis by (auto simp: word_unat_eq_iff le_Suc_eq)
qed

lemma upt_split: "i \<le> j \<Longrightarrow> [0 ..< j] = [0 ..< i] @ [i ..< j]"
  by (metis le_add_diff_inverse upt_add_eq_append zero_le)

text \<open>A visible entry of a key is not before the key that a search looks for.\<close>

lemma tag64_parts: "unat (tag64 k) = 256 * unat (seqn k) + unat (vtype k)"
proof -
  have "unat (drop_bit 8 (tag64 k)) = unat (tag64 k) div 2 ^ 8" by (rule unat_drop_bit_div)
  moreover have "unat (tag64 k AND mask 8) = unat (tag64 k) mod 2 ^ 8" by (rule unat_and_mask)
  moreover have "(mask 8 :: u64) = 0xFF" by (simp add: mask_eq_exp_minus_1)
  moreover have "unat (ucast (tag64 k AND 0xFF) :: byte) = unat (tag64 k AND 0xFF) mod 2 ^ LENGTH(8)" by (rule unat_ucast_mod)
  ultimately show ?thesis by (simp add: seqn_def vtype_def)
qed

lemma visible_tag:
  assumes "seqn k \<le> sq" "vtype k \<le> kTypeValue" "sq \<le> kMaxSequenceNumber"
  shows "tag64 k \<le> tag_of sq 1"
proof -
  have "unat (seqn k) \<le> unat sq" "unat (vtype k) \<le> 1" using assms by (simp_all add: word_le_nat_alt)
  then have "unat (tag64 k) \<le> unat (tag_of sq 1)" unfolding tag64_parts tag_of_def unat_pack [OF assms(3)] by simp
  then show ?thesis by (simp add: word_le_nat_alt)
qed

lemma ikey_parts: "sq \<le> kMaxSequenceNumber \<Longrightarrow> seqn (ikey u sq t) = sq" "sq \<le> kMaxSequenceNumber \<Longrightarrow> vtype (ikey u sq t) = t"
  by (simp_all only: seqn_def vtype_def tag64_ikey tag_of_def pack_parts)

locale db_view = inner: iterator_over it "InternalKeyComparator BytewiseComparator" valid es at
  for it :: "'s Iterator" and valid :: "slice \<Rightarrow> bool" and es :: "(slice \<times> slice) list" and at :: "'s \<Rightarrow> nat \<Rightarrow> bool" +
  fixes sq :: SequenceNumber
  assumes sorted: "sorted_wrt (less_key (Compare (InternalKeyComparator BytewiseComparator))) (map fst es)"
    and keys: "e \<in> set es \<Longrightarrow> internal_ok (fst e) \<and> vtype (fst e) \<le> kTypeValue"
    and snapshot: "sq \<le> kMaxSequenceNumber"
begin

abbreviation "n \<equiv> length es"
abbreviation "key i \<equiv> uk (fst (es ! i))"
abbreviation "idx \<equiv> shown_indices sq es"

lemma entry_ok: "i < n \<Longrightarrow> internal_ok (fst (es ! i)) \<and> vtype (fst (es ! i)) \<le> kTypeValue"
  using keys by simp

lemma key_mono: "i \<le> j \<Longrightarrow> j < n \<Longrightarrow> key i \<le> key j"
proof -
  assume i: "i \<le> j" and j: "j < n"
  show ?thesis
  proof (cases "i = j")
    case False
    then have "i < j" using i by simp
    then have "less_key (Compare (InternalKeyComparator BytewiseComparator)) (fst (es ! i)) (fst (es ! j))"
      using sorted j by (simp add: sorted_wrt_iff_nth_less)
    then show ?thesis using internal_less entry_ok [of i] entry_ok [of j] i j by auto
  qed simp
qed

lemma idx_shown: "p < length idx \<Longrightarrow> idx ! p < n \<and> shown sq es (idx ! p)"
proof -
  assume "p < length idx"
  then have "idx ! p \<in> set idx" by simp
  then show ?thesis by (auto simp: shown_indices_def)
qed

lemma idx_mono: "p < q \<Longrightarrow> q < length idx \<Longrightarrow> idx ! p < idx ! q"
proof -
  have "sorted_wrt (<) idx" unfolding shown_indices_def by (intro sorted_wrt_filter sorted_wrt_upt)
  then show "p < q \<Longrightarrow> q < length idx \<Longrightarrow> idx ! p < idx ! q" by (rule sorted_wrt_nth_less)
qed

text \<open>How many entries before an index are shown.\<close>

definition rank :: "nat \<Rightarrow> nat" where
  "rank i = length (filter (shown sq es) [0 ..< i])"

lemma rank_0: "rank 0 = 0"
  by (simp add: rank_def)

lemma rank_n: "rank n = length idx"
  by (simp add: rank_def shown_indices_def)

lemma rank_Suc: "rank (Suc i) = (if shown sq es i then Suc (rank i) else rank i)"
  by (simp add: rank_def)

lemma rank_at: "i < n \<Longrightarrow> shown sq es i \<Longrightarrow> rank i < length idx \<and> idx ! rank i = i"
proof -
  assume i: "i < n" "shown sq es i"
  have "[0 ..< n] = [0 ..< i] @ i # [Suc i ..< n]" using i(1) upt_split [of i n] upt_conv_Cons [OF i(1)] by simp
  then have "idx = filter (shown sq es) [0 ..< i] @ i # filter (shown sq es) [Suc i ..< n]" using i(2) by (simp add: shown_indices_def)
  then show ?thesis by (simp add: rank_def nth_append)
qed

lemma rank_idx: "p < length idx \<Longrightarrow> rank (idx ! p) = p"
proof -
  assume p: "p < length idx"
  have s: "idx ! p < n" "shown sq es (idx ! p)" using idx_shown [OF p] by simp_all
  have r: "rank (idx ! p) < length idx" "idx ! rank (idx ! p) = idx ! p" using rank_at [OF s] by simp_all
  show ?thesis using idx_mono [of p "rank (idx ! p)"] idx_mono [of "rank (idx ! p)" p] r p by (metis less_irrefl nat_neq_iff)
qed

lemma rank_mono: "i \<le> j \<Longrightarrow> rank i \<le> rank j"
proof -
  assume "i \<le> j"
  then show ?thesis by (simp add: rank_def upt_split)
qed

lemma rank_same: "i \<le> j \<Longrightarrow> (\<And>q. i \<le> q \<Longrightarrow> q < j \<Longrightarrow> \<not> shown sq es q) \<Longrightarrow> rank j = rank i"
proof -
  assume ij: "i \<le> j" and no: "\<And>q. i \<le> q \<Longrightarrow> q < j \<Longrightarrow> \<not> shown sq es q"
  have "filter (shown sq es) [i ..< j] = []" using no by (simp add: filter_empty_conv)
  then show ?thesis by (simp add: rank_def upt_split [OF ij])
qed

section \<open>Positions\<close>

text \<open>The part of the state that does not depend on the sampling.\<close>

definition di_ok :: "'s DBIter \<Rightarrow> bool" where
  "di_ok d \<longleftrightarrow> di_status d = Status_OK \<and> good_seed (di_rnd d)"

definition sampled :: "'s DBIter \<Rightarrow> 's DBIter \<Rightarrow> bool" where
  "sampled d d' \<longleftrightarrow> di_ok d' \<and> (\<exists>cn r s. d' = d\<lparr>di_bytes_counter := cn, di_rnd := r, di_samples := s\<rparr>)"

lemma ParseKey_at:
  assumes d: "di_ok d" and i: "at (di_iter d) i" "i < n"
  shows "\<exists>d'. ParseKey it d = Some (Some \<lparr>pk_user_key = key i, pk_sequence = seqn (fst (es ! i)), pk_type = vtype (fst (es ! i))\<rparr>, d') \<and> sampled d d'"
proof -
  obtain cn r s where smp: "sample_loop (fst (es ! i)) (di_bytes_counter d - int (length (fst (es ! i)) + length (snd (es ! i)))) (di_rnd d) (di_samples d) = Some (cn, r, s)" "good_seed r"
    using sample_ends d unfolding di_ok_def by blast
  let ?d = "d\<lparr>di_bytes_counter := cn, di_rnd := r, di_samples := s\<rparr>"
  have "ParseInternalKey (fst (es ! i)) = Some \<lparr>pk_user_key = key i, pk_sequence = seqn (fst (es ! i)), pk_type = vtype (fst (es ! i))\<rparr>"
    by (rule parsed) (use entry_ok [OF i(2)] in \<open>simp_all add: internal_ok_def\<close>)
  then have "ParseKey it d = Some (Some \<lparr>pk_user_key = key i, pk_sequence = seqn (fst (es ! i)), pk_type = vtype (fst (es ! i))\<rparr>, ?d)"
    using smp(1) inner.at_key [OF i] inner.at_value [OF i] by (simp add: ParseKey_def)
  moreover have "sampled d ?d" using d smp(2) by (auto simp: sampled_def di_ok_def)
  ultimately show ?thesis by blast
qed

text \<open>Standing at an entry that is shown, or before the entries of one.\<close>

definition forward_entry :: "'s DBIter \<Rightarrow> nat \<Rightarrow> bool" where
  "forward_entry d x \<longleftrightarrow> di_direction d = kForward \<and> di_valid d \<and> at (di_iter d) x"

definition before_entry :: "nat \<Rightarrow> nat \<Rightarrow> bool" where
  "before_entry lo x \<longleftrightarrow> lo \<le> x \<and> (\<forall>j. lo \<le> j \<longrightarrow> j < x \<longrightarrow> \<not> in_snapshot sq es j) \<and> (0 < lo \<longrightarrow> key (lo - 1) < key x)"

definition before_pos :: "nat \<Rightarrow> nat" where
  "before_pos lo = (if lo = 0 then n else lo - 1)"

definition reverse_entry :: "'s DBIter \<Rightarrow> nat \<Rightarrow> bool" where
  "reverse_entry d x \<longleftrightarrow> di_direction d = kReverse \<and> di_valid d \<and> di_saved_key d = key x \<and> di_saved_value d = snd (es ! x)
     \<and> (\<exists>lo. before_entry lo x \<and> at (di_iter d) (before_pos lo))"

definition di_at :: "'s DBIter \<Rightarrow> nat \<Rightarrow> bool" where
  "di_at d p \<longleftrightarrow> di_ok d \<and> p \<le> length idx \<and> (\<exists>i. at (di_iter d) i)
     \<and> (if p < length idx then forward_entry d (idx ! p) \<or> reverse_entry d (idx ! p) else \<not> di_valid d)"

lemma user_order: "less_key (Compare BytewiseComparator) a b \<longleftrightarrow> a < b"
  by (rule bytewise_less)

lemma byte_compare: "Compare BytewiseComparator a b = Some (Slice_compare a b)"
  by (simp add: BytewiseComparator_def)

lemma rank_le: "i \<le> n \<Longrightarrow> rank i \<le> length idx"
  using rank_mono [of i n] rank_n by simp

lemma sampled_parts:
  assumes "sampled d d'"
  shows "di_ok d'" "di_iter d' = di_iter d" "di_saved_key d' = di_saved_key d" "di_saved_value d' = di_saved_value d"
    "di_direction d' = di_direction d" "di_valid d' = di_valid d"
  using assms by (auto simp: sampled_def)

lemma at_shown:
  assumes "di_ok d" "di_direction d = kForward" "di_valid d" "at (di_iter d) x" "x < n" "shown sq es x" "i \<le> x" "\<And>j. i \<le> j \<Longrightarrow> j < x \<Longrightarrow> \<not> shown sq es j"
  shows "di_at d (rank i)"
proof -
  have "rank x = rank i" by (rule rank_same [OF assms(7,8)])
  then have "rank i < length idx" "idx ! rank i = x" using rank_at [OF assms(5,6)] by simp_all
  then show ?thesis using assms(1-4) by (auto simp: di_at_def forward_entry_def)
qed

lemma at_end: "di_ok d \<Longrightarrow> at (di_iter d) i \<Longrightarrow> \<not> di_valid d \<Longrightarrow> di_at d (length idx)"
  by (auto simp: di_at_def)

text \<open>The entries that the forward search has to skip are those with a visible entry of their key behind.\<close>

definition seen :: "nat \<Rightarrow> slice \<Rightarrow> bool" where
  "seen i k \<longleftrightarrow> (\<exists>j < i. in_snapshot sq es j \<and> key j = k)"

lemma seen_Suc: "seen (Suc i) k \<longleftrightarrow> seen i k \<or> in_snapshot sq es i \<and> key i = k"
  by (auto simp: seen_def less_Suc_eq)

lemma seen_key: "seen i k \<Longrightarrow> i \<le> j \<Longrightarrow> j < n \<Longrightarrow> k \<le> key j"
  using key_mono by (force simp: seen_def)

lemma shown_seen: "shown sq es i \<longleftrightarrow> in_snapshot sq es i \<and> vtype (fst (es ! i)) = kTypeValue \<and> \<not> seen i (key i)"
  by (auto simp: shown_def seen_def)

definition skips :: "nat \<Rightarrow> bool \<Rightarrow> slice \<Rightarrow> bool" where
  "skips i skipping skip \<longleftrightarrow> (\<forall>j. i \<le> j \<longrightarrow> j < n \<longrightarrow> in_snapshot sq es j \<longrightarrow> seen i (key j) = (skipping \<and> key j \<le> skip))"

lemma skips_invisible: "skips i skipping skip \<Longrightarrow> \<not> in_snapshot sq es i \<Longrightarrow> skips (Suc i) skipping skip"
  by (simp add: skips_def seen_Suc)

lemma skips_key:
  assumes i: "i < n" "in_snapshot sq es i"
  shows "skips (Suc i) True (key i)"
  unfolding skips_def
proof (intro allI impI)
  fix j assume j: "Suc i \<le> j" "j < n" "in_snapshot sq es j"
  have le: "key i \<le> key j" using key_mono [of i j] j by simp
  have "seen i (key j) \<Longrightarrow> key j \<le> key i" using seen_key [of i "key j" i] i by simp
  then show "seen (Suc i) (key j) = (True \<and> key j \<le> key i)" using le i(2) by (auto simp: seen_Suc)
qed

lemma skips_hidden:
  assumes s: "skips i True skip" and i: "i < n" "in_snapshot sq es i" "key i \<le> skip"
  shows "skips (Suc i) True skip" "\<not> shown sq es i"
proof -
  have h: "seen i (key i)" using s i by (simp add: skips_def)
  then show "\<not> shown sq es i" by (simp add: shown_seen)
  have "seen (Suc i) k = seen i k" for k using h by (auto simp: seen_Suc)
  then show "skips (Suc i) True skip" using s by (simp add: skips_def)
qed

lemma next_loop:
  "di_ok d \<Longrightarrow> di_direction d = kForward \<Longrightarrow> at (di_iter d) i \<Longrightarrow> i < n \<Longrightarrow> skips i skipping (di_saved_key d) \<Longrightarrow>
   \<exists>d'. FindNextUserEntry_loop BytewiseComparator it sq skipping d = Some d' \<and> di_at d' (rank i)"
proof (induction "n - i" arbitrary: i d skipping rule: less_induct)
  case less
  note d = less.prems
  let ?loop = "FindNextUserEntry_loop BytewiseComparator it sq"
  obtain d1 where pk: "ParseKey it d = Some (Some \<lparr>pk_user_key = key i, pk_sequence = seqn (fst (es ! i)), pk_type = vtype (fst (es ! i))\<rparr>, d1)"
    and s: "sampled d d1" using ParseKey_at [OF d(1,3,4)] by blast
  note d1 = sampled_parts [OF s]
  have cont: "\<exists>d'. (do { d3 \<leftarrow> on_iter (it_Next it) d2; if it_Valid it (di_iter d3) then ?loop sk d3 else Some (d3\<lparr>di_saved_key := [], di_valid := False\<rparr>) }) = Some d'
      \<and> di_at d' (rank i)"
    if d2: "di_ok d2" "di_direction d2 = kForward" "di_iter d2 = di_iter d" "skips (Suc i) sk (di_saved_key d2)" and no: "\<not> shown sq es i" for d2 sk
  proof -
    have r: "rank (Suc i) = rank i" using no by (simp add: rank_Suc)
    obtain w where w: "it_Next it (di_iter d) = Some w" "at w (Suc i)" using inner.at_Next [OF d(3,4)] by blast
    let ?d3 = "d2\<lparr>di_iter := w\<rparr>"
    have st: "on_iter (it_Next it) d2 = Some ?d3" using w(1) d2(3) by (simp add: on_iter_def)
    have v: "it_Valid it w \<longleftrightarrow> Suc i < n" using inner.at_Valid [OF w(2)] .
    show ?thesis
    proof (cases "Suc i < n")
      case True
      have "di_ok ?d3" "di_direction ?d3 = kForward" "at (di_iter ?d3) (Suc i)" "skips (Suc i) sk (di_saved_key ?d3)"
        using d2 w(2) by (simp_all add: di_ok_def)
      from less.hyps [of "Suc i" ?d3 sk, OF _ this(1,2,3) True this(4)] d(4) r st v True show ?thesis by simp
    next
      case False
      then have "Suc i = n" using d(4) by simp
      then have "rank i = length idx" using r rank_n by simp
      moreover have "di_at (?d3\<lparr>di_saved_key := [], di_valid := False\<rparr>) (length idx)"
        using w(2) d2(1) by (intro at_end [of _ "Suc i"]) (simp_all add: di_ok_def)
      ultimately show ?thesis using st v False by simp
    qed
  qed
  note run = FindNextUserEntry_loop.simps [of BytewiseComparator it sq skipping d] pk
  have ty: "vtype (fst (es ! i)) = 0 \<or> vtype (fst (es ! i)) = 1" using entry_ok [OF d(4)] byte_le_1 by blast
  show ?case
  proof (cases "in_snapshot sq es i")
    case False
    then have "\<not> seqn (fst (es ! i)) \<le> sq" "\<not> shown sq es i" by (simp_all add: in_snapshot_def shown_def)
    then show ?thesis using cont [of d1 skipping] d1 d(2,5) skips_invisible [OF d(5) False] run by simp
  next
    case vis: True
    then have le: "seqn (fst (es ! i)) \<le> sq" by (simp add: in_snapshot_def)
    show ?thesis
    proof (cases "vtype (fst (es ! i)) = kTypeDeletion")
      case True
      then have "\<not> shown sq es i" by (simp add: shown_def)
      then show ?thesis using cont [of "d1\<lparr>di_saved_key := key i\<rparr>" True] d1 d(2) skips_key [OF d(4) vis] run le True by (simp add: di_ok_def)
    next
      case False
      then have val: "vtype (fst (es ! i)) = kTypeValue" using ty by blast
      show ?thesis
      proof (cases "skipping \<and> key i \<le> di_saved_key d")
        case True
        note h = skips_hidden [of i, OF _ d(4) vis]
        have "Slice_compare (key i) (di_saved_key d1) \<le> 0" using True d1(3) Slice_sign(2) by simp
        then show ?thesis using cont [of d1 True] d1 d(2,5) h True run le val by (simp add: byte_compare)
      next
        case no: False
        then have "\<not> seen i (key i)" using d(4,5) vis by (simp add: skips_def)
        then have sh: "shown sq es i" using vis val by (simp add: shown_seen)
        let ?d = "d1\<lparr>di_valid := True, di_saved_key := []\<rparr>"
        have "di_at ?d (rank i)" by (rule at_shown [where x = i]) (use d1 d(2,3,4) sh in \<open>simp_all add: di_ok_def\<close>)
        then show ?thesis using run le val no d1(3) by (cases skipping) (simp_all add: byte_compare Slice_sign(2))
      qed
    qed
  qed
qed

lemma FindNext_at:
  assumes "di_ok d" "di_direction d = kForward" "at (di_iter d) i" "i < n" "skips i skipping (di_saved_key d)"
  shows "\<exists>d'. FindNextUserEntry BytewiseComparator it sq skipping d = Some d' \<and> di_at d' (rank i)"
  using next_loop [OF assms] inner.at_Valid [OF assms(3)] assms(2,4) by (simp add: FindNextUserEntry_def)

text \<open>From the entry that is shown, or from before it, the search with its key goes on behind it.\<close>

lemma next_after:
  "di_ok d \<Longrightarrow> di_direction d = kForward \<Longrightarrow> at (di_iter d) i \<Longrightarrow> i \<le> x \<Longrightarrow> x < n \<Longrightarrow> shown sq es x \<Longrightarrow> di_saved_key d = key x \<Longrightarrow>
   (\<And>j. i \<le> j \<Longrightarrow> j < x \<Longrightarrow> \<not> in_snapshot sq es j) \<Longrightarrow>
   \<exists>d'. FindNextUserEntry_loop BytewiseComparator it sq True d = Some d' \<and> di_at d' (rank (Suc x))"
proof (induction "x - i" arbitrary: i d rule: less_induct)
  case less
  note d = less.prems
  have i: "i < n" using d(4,5) by simp
  let ?loop = "FindNextUserEntry_loop BytewiseComparator it sq"
  obtain d1 where pk: "ParseKey it d = Some (Some \<lparr>pk_user_key = key i, pk_sequence = seqn (fst (es ! i)), pk_type = vtype (fst (es ! i))\<rparr>, d1)"
    and s: "sampled d d1" using ParseKey_at [OF d(1,3) i] by blast
  note d1 = sampled_parts [OF s]
  have "(if pk_sequence p \<le> sq then (if pk_type p = kTypeDeletion then Some (False, True, d1\<lparr>di_saved_key := pk_user_key p\<rparr>)
       else if pk_type p = kTypeValue then do {
         hidden \<leftarrow> (if True then do { r \<leftarrow> Compare BytewiseComparator (pk_user_key p) (di_saved_key d1); Some (r \<le> 0) } else Some False);
         if hidden then Some (False, True, d1) else Some (True, True, d1\<lparr>di_valid := True, di_saved_key := []\<rparr>) }
       else Some (False, True, d1)) else Some (False, True, d1)) = Some (False, True, d1)"
    if p: "p = \<lparr>pk_user_key = key i, pk_sequence = seqn (fst (es ! i)), pk_type = vtype (fst (es ! i))\<rparr>" for p
  proof (cases "i = x")
    case True
    then have "vtype (fst (es ! i)) = kTypeValue" using d(6) by (simp add: shown_def)
    then show ?thesis using True d(7) d1(3) by (simp add: p byte_compare Slice_sign(2))
  next
    case False
    then have "\<not> in_snapshot sq es i" using d(4,8) by simp
    then show ?thesis by (simp add: p in_snapshot_def)
  qed
  then have run: "?loop True d = (do { d3 \<leftarrow> on_iter (it_Next it) d1; if it_Valid it (di_iter d3) then ?loop True d3
      else Some (d3\<lparr>di_saved_key := [], di_valid := False\<rparr>) })" by (simp add: FindNextUserEntry_loop.simps [of BytewiseComparator it sq True d] pk)
  obtain w where w: "it_Next it (di_iter d) = Some w" "at w (Suc i)" using inner.at_Next [OF d(3) i] by blast
  let ?d3 = "d1\<lparr>di_iter := w\<rparr>"
  have st: "on_iter (it_Next it) d1 = Some ?d3" using w(1) d1(2) by (simp add: on_iter_def)
  have v: "it_Valid it w \<longleftrightarrow> Suc i < n" using inner.at_Valid [OF w(2)] .
  have d3: "di_ok ?d3" "di_direction ?d3 = kForward" "at (di_iter ?d3) (Suc i)" "di_saved_key ?d3 = key x"
    using d1 d w(2) by (simp_all add: di_ok_def)
  show ?case
  proof (cases "i = x")
    case False
    then have "x - Suc i < x - i" "Suc i \<le> x" using d(4) by simp_all
    from less.hyps [OF this(1) d3(1-3) this(2) d(5,6) d3(4)] d(8) st v run d(5) \<open>Suc i \<le> x\<close> show ?thesis by simp
  next
    case True
    show ?thesis
    proof (cases "Suc x < n")
      case in_n: True
      have "skips (Suc x) True (di_saved_key ?d3)" using skips_key [OF d(5)] d(6) d3(4) by (simp add: shown_def)
      from next_loop [OF d3(1-3) [unfolded True] in_n this] st v run in_n True show ?thesis by simp
    next
      case False
      then have "Suc x = n" using d(5) by simp
      then have "rank (Suc x) = length idx" using rank_n by simp
      moreover have "di_at (?d3\<lparr>di_saved_key := [], di_valid := False\<rparr>) (length idx)"
        using w(2) d3(1) by (intro at_end [of _ "Suc i"]) (simp_all add: di_ok_def)
      ultimately show ?thesis using st v run False True by simp
    qed
  qed
qed

text \<open>
  The backward search: \<open>lo\<close> entries are left, and \<open>x\<close> is the last visible entry it has passed, with its
  type and, for a value, its key and value saved.
\<close>

definition passed :: "nat \<Rightarrow> nat \<Rightarrow> nat option \<Rightarrow> ValueType \<Rightarrow> 's DBIter \<Rightarrow> bool" where
  "passed b lo x vt d \<longleftrightarrow>
     (case x of None \<Rightarrow> vt = kTypeDeletion \<and> (\<forall>j. lo \<le> j \<longrightarrow> j < b \<longrightarrow> \<not> in_snapshot sq es j)
      | Some y \<Rightarrow> lo \<le> y \<and> y < b \<and> in_snapshot sq es y \<and> vt = vtype (fst (es ! y))
          \<and> (vt = kTypeValue \<longrightarrow> di_saved_key d = key y \<and> di_saved_value d = snd (es ! y))
          \<and> (\<forall>j. lo \<le> j \<longrightarrow> j < y \<longrightarrow> \<not> in_snapshot sq es j) \<and> (\<forall>j. y < j \<longrightarrow> j < b \<longrightarrow> \<not> shown sq es j))"

lemma passed_skip: "passed b (Suc i) x vt d \<Longrightarrow> \<not> in_snapshot sq es i \<Longrightarrow> di_saved_key d' = di_saved_key d \<Longrightarrow> di_saved_value d' = di_saved_value d \<Longrightarrow> passed b i x vt d'"
proof -
  assume p: "passed b (Suc i) x vt d" and i: "\<not> in_snapshot sq es i" and d: "di_saved_key d' = di_saved_key d" "di_saved_value d' = di_saved_value d"
  have "i \<le> j \<longleftrightarrow> j = i \<or> Suc i \<le> j" for j by auto
  then show ?thesis using p i d by (auto simp: passed_def split: option.splits)
qed

text \<open>The entry passed before is not shown when the search goes on with another one.\<close>

lemma passed_next:
  assumes p: "passed b (Suc i) x vt d" and i: "i < b" "b \<le> n" "in_snapshot sq es i"
    and go: "vt = kTypeDeletion \<or> \<not> key i < di_saved_key d"
    and s: "vtype (fst (es ! i)) = kTypeValue \<longrightarrow> di_saved_key d' = key i \<and> di_saved_value d' = snd (es ! i)"
  shows "passed b i (Some i) (vtype (fst (es ! i))) d'"
proof -
  have "\<not> shown sq es j" if j: "i < j" "j < b" for j
  proof (cases x)
    case None
    then show ?thesis using p j by (simp add: passed_def shown_def)
  next
    case (Some y)
    consider "j < y" | "j = y" | "y < j" by linarith
    then show ?thesis
    proof cases
      case 1
      then show ?thesis using p Some j by (simp add: passed_def shown_def)
    next
      case 2
      have "seen y (key y)" if "vtype (fst (es ! y)) = kTypeValue"
      proof -
        have "\<not> key i < key y" using go that p Some by (auto simp: passed_def)
        moreover have "key i \<le> key y" using key_mono [of i y] j(1) 2 j(2) i(2) by simp
        ultimately show ?thesis using i(3) j(1) 2 by (auto simp: seen_def)
      qed
      then show ?thesis using 2 by (auto simp: shown_seen)
    next
      case 3
      then show ?thesis using p Some j by (simp add: passed_def)
    qed
  qed
  then show ?thesis using i s by (simp add: passed_def)
qed

definition prev_done :: "nat \<Rightarrow> ValueType \<Rightarrow> 's DBIter \<Rightarrow> bool" where
  "prev_done b vt d \<longleftrightarrow> di_ok d \<and> di_direction d = kReverse \<and> (\<exists>lo x. at (di_iter d) (before_pos lo) \<and> passed b lo x vt d
     \<and> (lo = 0 \<or> vt \<noteq> kTypeDeletion \<and> key (lo - 1) < di_saved_key d))"

lemma prev_loop:
  "di_ok d \<Longrightarrow> di_direction d = kReverse \<Longrightarrow> at (di_iter d) i \<Longrightarrow> i < b \<Longrightarrow> b \<le> n \<Longrightarrow> passed b (Suc i) x vt d \<Longrightarrow>
   \<exists>vt' d'. FindPrevUserEntry_loop BytewiseComparator it sq vt d = Some (vt', d') \<and> prev_done b vt' d'"
proof (induction i arbitrary: d x vt rule: less_induct)
  case (less i)
  note d = less.prems
  have i: "i < n" using d(4,5) by simp
  let ?loop = "FindPrevUserEntry_loop BytewiseComparator it sq"
  obtain d1 where pk: "ParseKey it d = Some (Some \<lparr>pk_user_key = key i, pk_sequence = seqn (fst (es ! i)), pk_type = vtype (fst (es ! i))\<rparr>, d1)"
    and s: "sampled d d1" using ParseKey_at [OF d(1,3) i] by blast
  note d1 = sampled_parts [OF s]
  note run = FindPrevUserEntry_loop.simps [of BytewiseComparator it sq vt d] pk
  have cont: "\<exists>vt' d'. (do { d3 \<leftarrow> on_iter (it_Prev it) d2; if it_Valid it (di_iter d3) then ?loop vt2 d3 else Some (vt2, d3) }) = Some (vt', d') \<and> prev_done b vt' d'"
    if d2: "di_ok d2" "di_direction d2 = kReverse" "di_iter d2 = di_iter d" "passed b i x2 vt2 d2" for d2 vt2 x2
  proof -
    obtain w where w: "it_Prev it (di_iter d) = Some w" "at w (before_pos i)" using inner.at_Prev [OF d(3) i] by (auto simp: before_pos_def)
    let ?d3 = "d2\<lparr>di_iter := w\<rparr>"
    have st: "on_iter (it_Prev it) d2 = Some ?d3" using w(1) d2(3) by (simp add: on_iter_def)
    have v: "it_Valid it w \<longleftrightarrow> 0 < i" using inner.at_Valid [OF w(2)] i by (auto simp: before_pos_def)
    have ok: "di_ok ?d3" "di_direction ?d3 = kReverse" "passed b i x2 vt2 ?d3" using d2 by (simp_all add: di_ok_def passed_def split: option.splits)
    show ?thesis
    proof (cases i)
      case 0
      then have "prev_done b vt2 ?d3" using ok w(2) unfolding prev_done_def by (intro conjI exI [of _ 0] exI [of _ x2]) simp_all
      then show ?thesis using st v 0 by simp
    next
      case (Suc i')
      have "at (di_iter ?d3) i'" "i' < i" "i' < b" "passed b (Suc i') x2 vt2 ?d3" using w(2) Suc ok(3) d(4) by (simp_all add: before_pos_def)
      from less.IH [OF this(2) ok(1,2) this(1,3) d(5) this(4)] show ?thesis using st v Suc by simp
    qed
  qed
  show ?case
  proof (cases "in_snapshot sq es i")
    case False
    have "passed b i x vt d1" by (rule passed_skip [OF d(6) False d1(3,4)])
    then show ?thesis using cont [of d1 x vt] d1 d(2) run False by (simp add: in_snapshot_def)
  next
    case vis: True
    then have le: "seqn (fst (es ! i)) \<le> sq" by (simp add: in_snapshot_def)
    show ?thesis
    proof (cases "vt \<noteq> kTypeDeletion \<and> key i < di_saved_key d")
      case True
      have "passed b (Suc i) x vt d1" using d(6) d1(3,4) by (simp add: passed_def split: option.splits)
      moreover have "at (di_iter d1) (before_pos (Suc i))" using d(3) d1(2) by (simp add: before_pos_def)
      ultimately have "prev_done b vt d1" using d1 d(2) True unfolding prev_done_def by (intro conjI exI [of _ "Suc i"] exI [of _ x]) simp_all
      then show ?thesis using run le True d1(3) by (simp add: byte_compare Slice_sign(1))
    next
      case go: False
      have go': "vt = kTypeDeletion \<or> \<not> key i < di_saved_key d" using go by blast
      show ?thesis
      proof (cases "vtype (fst (es ! i)) = kTypeDeletion")
        case True
        let ?d2 = "d1\<lparr>di_saved_key := [], di_saved_value := []\<rparr>"
        have "passed b i (Some i) (vtype (fst (es ! i))) ?d2" by (rule passed_next [OF d(6,4,5) vis go']) (simp add: True)
        then have "passed b i (Some i) kTypeDeletion ?d2" using True by simp
        then show ?thesis using cont [of ?d2 "Some i" kTypeDeletion] d1 d(2) run le go' True
          by (cases "vt = kTypeDeletion") (simp_all add: di_ok_def byte_compare Slice_sign(1))
      next
        case False
        let ?d2 = "d1\<lparr>di_saved_key := key i, di_saved_value := snd (es ! i)\<rparr>"
        have "passed b i (Some i) (vtype (fst (es ! i))) ?d2" by (rule passed_next [OF d(6,4,5) vis go']) simp
        moreover have "ExtractUserKey (fst (es ! i)) = Some (key i)" using entry_ok [OF i] by (simp add: ExtractUserKey_def uk_def internal_ok_def)
        ultimately show ?thesis using cont [of ?d2 "Some i" "vtype (fst (es ! i))"] d1 d(2) run le go' False inner.at_key [OF d(3) i] inner.at_value [OF d(3) i]
          by (cases "vt = kTypeDeletion") (simp_all add: di_ok_def byte_compare Slice_sign(1))
      qed
    qed
  qed
qed

lemma FindPrev_at:
  assumes d: "di_ok d" "di_direction d = kReverse" "at (di_iter d) (before_pos lo)" and lo: "lo \<le> b" "b \<le> n"
    and gap: "\<And>j. lo \<le> j \<Longrightarrow> j < b \<Longrightarrow> \<not> in_snapshot sq es j"
  shows "\<exists>d'. FindPrevUserEntry BytewiseComparator it sq d = Some d' \<and> di_at d' (if rank b = 0 then length idx else rank b - 1)"
proof -
  have p0: "passed b lo None kTypeDeletion d" using gap by (simp add: passed_def)
  have v: "it_Valid it (di_iter d) \<longleftrightarrow> 0 < lo" using inner.at_Valid [OF d(3)] lo by (auto simp: before_pos_def)
  have "\<exists>vt d1. (if it_Valid it (di_iter d) then FindPrevUserEntry_loop BytewiseComparator it sq kTypeDeletion d else Some (kTypeDeletion, d)) = Some (vt, d1)
      \<and> prev_done b vt d1"
  proof (cases lo)
    case 0
    then have "prev_done b kTypeDeletion d" using d p0 unfolding prev_done_def by (intro conjI exI [of _ 0] exI [of _ None]) simp_all
    then show ?thesis using v 0 by simp
  next
    case (Suc i)
    then have "at (di_iter d) i" "i < b" "passed b (Suc i) None kTypeDeletion d" using d(3) lo(1) p0 by (simp_all add: before_pos_def)
    from prev_loop [OF d(1,2) this(1,2) lo(2) this(3)] show ?thesis using v Suc by simp
  qed
  then obtain vt d1 where run: "(if it_Valid it (di_iter d) then FindPrevUserEntry_loop BytewiseComparator it sq kTypeDeletion d else Some (kTypeDeletion, d)) = Some (vt, d1)"
    and dn: "prev_done b vt d1" by blast
  obtain lo' x where e: "at (di_iter d1) (before_pos lo')" "passed b lo' x vt d1" "lo' = 0 \<or> vt \<noteq> kTypeDeletion \<and> key (lo' - 1) < di_saved_key d1"
    and ok: "di_ok d1" "di_direction d1 = kReverse" using dn unfolding prev_done_def by blast
  show ?thesis
  proof (cases "vt = kTypeDeletion")
    case True
    then have l0: "lo' = 0" using e(3) by simp
    have "\<not> shown sq es j" if "j < b" for j
    proof (cases x)
      case None
      then show ?thesis using e(2) that l0 by (simp add: passed_def shown_def)
    next
      case (Some y)
      then show ?thesis using e(2) that l0 True by (cases j y rule: linorder_cases) (auto simp: passed_def shown_def)
    qed
    then have "rank b = 0" using rank_same [of 0 b] rank_0 by simp
    moreover have "di_at (d1\<lparr>di_valid := False, di_saved_key := [], di_saved_value := [], di_direction := kForward\<rparr>) (length idx)"
      using e(1) ok by (intro at_end [of _ "before_pos lo'"]) (simp_all add: di_ok_def)
    ultimately show ?thesis using run True d(2) by (simp add: FindPrevUserEntry_def)
  next
    case False
    then obtain y where y: "x = Some y" using e(2) by (cases x) (auto simp: passed_def)
    note py = e(2) [unfolded y passed_def option.case]
    have yn: "y < n" using py lo(2) by simp
    have val: "vt = kTypeValue" using False py entry_ok [OF yn] byte_le_1 by blast
    have low: "key (lo' - 1) < key y" if "0 < lo'" using e(3) that py val by simp
    have "\<not> seen y (key y)"
    proof
      assume "seen y (key y)"
      then obtain j where j: "j < y" "in_snapshot sq es j" "key j = key y" by (auto simp: seen_def)
      then have "j < lo'" using py by (meson not_less)
      then have "key j \<le> key (lo' - 1)" "0 < lo'" using py yn by (auto intro!: key_mono)
      then show False using low j(3) by simp
    qed
    then have sh: "shown sq es y" using py val by (simp add: shown_seen)
    have "rank b = rank (Suc y)" using py by (intro rank_same) (auto simp: Suc_le_eq)
    then have r: "rank b = Suc (rank y)" using sh by (simp add: rank_Suc)
    have i: "rank y < length idx" "idx ! rank y = y" using rank_at [OF yn sh] by simp_all
    have "before_entry lo' y" using py low by (simp add: before_entry_def)
    then have "reverse_entry (d1\<lparr>di_valid := True\<rparr>) y" using ok e(1) py val by (auto simp: reverse_entry_def)
    then have "di_at (d1\<lparr>di_valid := True\<rparr>) (rank y)" using ok(1) i e(1) by (auto simp: di_at_def di_ok_def)
    then show ?thesis using run False d(2) r by (simp add: FindPrevUserEntry_def)
  qed
qed

section \<open>The contract\<close>

lemma view_length: "length (user_view sq es) = length idx"
  by (simp add: user_view_def)

lemma view_nth: "p < length idx \<Longrightarrow> user_view sq es ! p = (key (idx ! p), snd (es ! (idx ! p)))"
  by (simp add: user_view_def)

lemma view_sorted: "sorted_wrt (<) (map fst (user_view sq es))"
proof -
  have "key (idx ! p) < key (idx ! q)" if "p < q" "q < length idx" for p q
  proof -
    have x: "idx ! p < idx ! q" "idx ! q < n" "shown sq es (idx ! p)" "shown sq es (idx ! q)"
      using idx_mono [OF that] idx_shown [of p] idx_shown [OF that(2)] that by simp_all
    then have "key (idx ! p) \<noteq> key (idx ! q)" by (simp add: shown_def)
    moreover have "key (idx ! p) \<le> key (idx ! q)" using key_mono x by simp
    ultimately show ?thesis by (rule order_le_neq_trans [rotated])
  qed
  then show ?thesis by (simp add: sorted_wrt_iff_nth_less view_length view_nth)
qed

lemma view_mem: "(u, v) \<in> set (user_view sq es) \<longleftrightarrow> (\<exists>i < n. shown sq es i \<and> es ! i = (fst (es ! i), v) \<and> key i = u)"
  by (auto simp: user_view_def shown_indices_def prod_eq_iff)

lemma di_SeekToFirst_at:
  assumes d: "di_at d p"
  shows "\<exists>d'. di_SeekToFirst BytewiseComparator it sq d = Some d' \<and> di_at d' 0"
proof -
  obtain i where i: "at (di_iter d) i" and ok: "di_ok d" using d by (auto simp: di_at_def)
  obtain w where w: "it_SeekToFirst it (di_iter d) = Some w" "at w 0" using inner.at_First [OF i] by blast
  let ?d1 = "d\<lparr>di_direction := kForward, di_saved_value := [], di_iter := w\<rparr>"
  have st: "on_iter (it_SeekToFirst it) (d\<lparr>di_direction := kForward, di_saved_value := []\<rparr>) = Some ?d1" using w(1) by (simp add: on_iter_def)
  have v: "it_Valid it w \<longleftrightarrow> 0 < n" using inner.at_Valid [OF w(2)] .
  have d1: "di_ok ?d1" "di_direction ?d1 = kForward" "at (di_iter ?d1) 0" using ok w(2) by (simp_all add: di_ok_def)
  show ?thesis
  proof (cases "0 < n")
    case True
    have "skips 0 False (di_saved_key ?d1)" by (simp add: skips_def seen_def)
    from FindNext_at [OF d1 True this] show ?thesis using st v True rank_0 by (simp add: di_SeekToFirst_def)
  next
    case False
    then have "length idx = 0" using rank_n rank_0 by simp
    moreover have "di_at (?d1\<lparr>di_valid := False\<rparr>) (length idx)" using d1 by (intro at_end [of _ 0]) (simp_all add: di_ok_def)
    ultimately show ?thesis using st v False by (simp add: di_SeekToFirst_def)
  qed
qed

lemma di_SeekToLast_at:
  assumes d: "di_at d p"
  shows "\<exists>d'. di_SeekToLast BytewiseComparator it sq d = Some d' \<and> di_at d' (length idx - 1)"
proof -
  obtain i where i: "at (di_iter d) i" and ok: "di_ok d" using d by (auto simp: di_at_def)
  obtain w where w: "it_SeekToLast it (di_iter d) = Some w" "at w (n - 1)" using inner.at_Last [OF i] by blast
  let ?d1 = "d\<lparr>di_direction := kReverse, di_saved_value := [], di_iter := w\<rparr>"
  have st: "on_iter (it_SeekToLast it) (d\<lparr>di_direction := kReverse, di_saved_value := []\<rparr>) = Some ?d1" using w(1) by (simp add: on_iter_def)
  have "before_pos n = n - 1" by (simp add: before_pos_def)
  then have d1: "di_ok ?d1" "di_direction ?d1 = kReverse" "at (di_iter ?d1) (before_pos n)" using ok w(2) by (simp_all add: di_ok_def)
  from FindPrev_at [OF d1 order_refl order_refl] show ?thesis using st rank_n by (cases "length idx = 0") (auto simp: di_SeekToLast_def)
qed

lemma di_Next_at:
  assumes d: "di_at d p" and p: "p < length idx"
  shows "\<exists>d'. di_Next BytewiseComparator it sq d = Some d' \<and> di_at d' (Suc p)"
proof -
  let ?x = "idx ! p"
  have ok: "di_ok d" and cases: "forward_entry d ?x \<or> reverse_entry d ?x" using d p by (simp_all add: di_at_def)
  have x: "?x < n" "shown sq es ?x" using idx_shown [OF p] by simp_all
  have r: "rank (Suc ?x) = Suc p" using x rank_idx [OF p] by (simp add: rank_Suc)
  show ?thesis
  proof (cases "forward_entry d ?x")
    case True
    then have f: "di_direction d = kForward" "di_valid d" "at (di_iter d) ?x" by (simp_all add: forward_entry_def)
    have k: "it_key it (di_iter d) = Some (fst (es ! ?x))" "ExtractUserKey (fst (es ! ?x)) = Some (key ?x)"
      using inner.at_key [OF f(3) x(1)] entry_ok [OF x(1)] by (simp_all add: ExtractUserKey_def uk_def internal_ok_def)
    let ?d1 = "d\<lparr>di_saved_key := key ?x\<rparr>"
    have "\<exists>d'. FindNextUserEntry_loop BytewiseComparator it sq True ?d1 = Some d' \<and> di_at d' (rank (Suc ?x))"
      by (rule next_after [where i = ?x]) (use ok f x in \<open>simp_all add: di_ok_def\<close>)
    then show ?thesis using f k r inner.at_Valid [OF f(3)] x(1) by (simp add: di_Next_def FindNextUserEntry_def)
  next
    case False
    then have f: "di_direction d = kReverse" "di_valid d" "di_saved_key d = key ?x" using cases by (simp_all add: reverse_entry_def)
    obtain lo where lo: "before_entry lo ?x" "at (di_iter d) (before_pos lo)" using False cases unfolding reverse_entry_def by blast
    have le: "lo \<le> ?x" using lo(1) by (simp add: before_entry_def)
    have v: "it_Valid it (di_iter d) \<longleftrightarrow> 0 < lo" using inner.at_Valid [OF lo(2)] le x(1) by (auto simp: before_pos_def)
    have "\<exists>w. (if \<not> it_Valid it (di_iter d) then it_SeekToFirst it else it_Next it) (di_iter d) = Some w \<and> at w lo"
    proof (cases lo)
      case 0
      then show ?thesis using inner.at_First [OF lo(2)] v by simp
    next
      case (Suc l)
      then have "at (di_iter d) l" "l < n" using lo(2) le x(1) by (simp_all add: before_pos_def)
      from inner.at_Next [OF this] show ?thesis using v Suc by simp
    qed
    then obtain w where w: "(if \<not> it_Valid it (di_iter d) then it_SeekToFirst it else it_Next it) (di_iter d) = Some w" "at w lo" by blast
    let ?d1 = "d\<lparr>di_direction := kForward, di_iter := w\<rparr>"
    have st: "on_iter (if \<not> it_Valid it (di_iter d) then it_SeekToFirst it else it_Next it) (d\<lparr>di_direction := kForward\<rparr>) = Some ?d1"
      using w(1) by (simp add: on_iter_def)
    have vw: "it_Valid it w" using inner.at_Valid [OF w(2)] le x(1) by simp
    have "\<exists>d'. FindNextUserEntry_loop BytewiseComparator it sq True ?d1 = Some d' \<and> di_at d' (rank (Suc ?x))"
      by (rule next_after [where i = lo]) (use ok f x w(2) le lo(1) in \<open>simp_all add: di_ok_def before_entry_def\<close>)
    then show ?thesis using f r st vw by (simp add: di_Next_def FindNextUserEntry_def)
  qed
qed

text \<open>Leaving the entries of a key backwards: those behind are of the key.\<close>

definition left_key :: "nat \<Rightarrow> nat \<Rightarrow> 's DBIter \<Rightarrow> bool" where
  "left_key x lo d \<longleftrightarrow> lo \<le> x \<and> di_ok d \<and> at (di_iter d) (before_pos lo) \<and> (\<forall>j. lo \<le> j \<longrightarrow> j < x \<longrightarrow> key j = key x)
     \<and> (0 < lo \<longrightarrow> key (lo - 1) < key x) \<and> (lo = 0 \<longrightarrow> \<not> di_valid d)"

lemma leave_at:
  "at (di_iter d) i \<Longrightarrow> i \<le> x \<Longrightarrow> x < n \<Longrightarrow> di_ok d \<Longrightarrow> di_saved_key d = key x \<Longrightarrow> (\<And>j. i \<le> j \<Longrightarrow> j < x \<Longrightarrow> key j = key x) \<Longrightarrow>
   \<exists>lo d'. leave_key BytewiseComparator it d = Some (0 < lo, d') \<and> left_key x lo d'"
proof (induction i arbitrary: d rule: less_induct)
  case (less i)
  note d = less.prems
  have i: "i < n" using d(2,3) by simp
  obtain w where w: "it_Prev it (di_iter d) = Some w" "at w (before_pos i)" using inner.at_Prev [OF d(1) i] by (auto simp: before_pos_def)
  let ?d1 = "d\<lparr>di_iter := w\<rparr>"
  have st: "on_iter (it_Prev it) d = Some ?d1" using w(1) by (simp add: on_iter_def)
  have v: "it_Valid it w \<longleftrightarrow> 0 < i" using inner.at_Valid [OF w(2)] i by (auto simp: before_pos_def)
  note run = leave_key.simps [of BytewiseComparator it d] st
  show ?case
  proof (cases i)
    case 0
    have "di_ok (?d1\<lparr>di_valid := False, di_saved_key := [], di_saved_value := []\<rparr>)" using d(4) by (simp add: di_ok_def)
    moreover have "at w (before_pos 0)" using w(2) 0 by simp
    moreover have "\<forall>j. 0 \<le> j \<longrightarrow> j < x \<longrightarrow> key j = key x" using d(6) unfolding 0 by blast
    moreover have "0 \<le> x" "\<not> 0 < (0 :: nat)" by simp_all
    moreover have "\<not> di_valid (?d1\<lparr>di_valid := False, di_saved_key := [], di_saved_value := []\<rparr>)" by simp
    moreover have "di_iter (?d1\<lparr>di_valid := False, di_saved_key := [], di_saved_value := []\<rparr>) = w" by simp
    ultimately have "left_key x 0 (?d1\<lparr>di_valid := False, di_saved_key := [], di_saved_value := []\<rparr>)" unfolding left_key_def by metis
    then show ?thesis using run v 0 by (intro exI conjI) simp_all
  next
    case (Suc k)
    have k: "k < n" "at w k" "k < i" using i w(2) Suc by (simp_all add: before_pos_def)
    have e: "it_key it w = Some (fst (es ! k))" "ExtractUserKey (fst (es ! k)) = Some (key k)"
      using inner.at_key [OF k(2,1)] entry_ok [OF k(1)] by (simp_all add: ExtractUserKey_def uk_def internal_ok_def)
    show ?thesis
    proof (cases "key k < key x")
      case True
      have go: "leave_key BytewiseComparator it d = Some (0 < i, ?d1)" using run v Suc e True d(5) by (simp add: byte_compare Slice_sign(1))
      have "di_ok ?d1" using d(4) by (simp add: di_ok_def)
      moreover have "key (i - 1) < key x" "i \<noteq> 0" using True Suc by simp_all
      moreover have "\<forall>j. i \<le> j \<longrightarrow> j < x \<longrightarrow> key j = key x" using d(6) by blast
      moreover have "di_iter ?d1 = w" by simp
      ultimately have "left_key x i ?d1" using w(2) d(2) unfolding left_key_def by metis
      then show ?thesis using go by blast
    next
      case False
      have "key k \<le> key x" using key_mono [of k x] k(3) d(2,3) by simp
      then have eq: "key j = key x" if "k \<le> j" "j < x" for j using False d(6) [of j] that Suc by (cases "j = k") auto
      have go: "leave_key BytewiseComparator it d = leave_key BytewiseComparator it ?d1" using run v Suc e False d(5) by (simp add: byte_compare Slice_sign(1))
      have d1: "at (di_iter ?d1) k" "k \<le> x" "di_ok ?d1" "di_saved_key ?d1 = key x" using k d(2,4,5) by (simp_all add: di_ok_def)
      show ?thesis unfolding go by (rule less.IH [OF k(3) d1(1,2) d(3) d1(3,4) eq])
    qed
  qed
qed

lemma di_Prev_at:
  assumes d: "di_at d p" and p: "p < length idx"
  shows "\<exists>d'. di_Prev BytewiseComparator it sq d = Some d' \<and> di_at d' (if p = 0 then length idx else p - 1)"
proof -
  let ?x = "idx ! p"
  have ok: "di_ok d" and cases: "forward_entry d ?x \<or> reverse_entry d ?x" using d p by (simp_all add: di_at_def)
  have x: "?x < n" "shown sq es ?x" using idx_shown [OF p] by simp_all
  have r: "rank ?x = p" by (rule rank_idx [OF p])
  show ?thesis
  proof (cases "forward_entry d ?x")
    case True
    then have f: "di_direction d = kForward" "di_valid d" "at (di_iter d) ?x" by (simp_all add: forward_entry_def)
    have k: "it_key it (di_iter d) = Some (fst (es ! ?x))" "ExtractUserKey (fst (es ! ?x)) = Some (key ?x)"
      using inner.at_key [OF f(3) x(1)] entry_ok [OF x(1)] by (simp_all add: ExtractUserKey_def uk_def internal_ok_def)
    let ?d1 = "d\<lparr>di_saved_key := key ?x\<rparr>"
    have d1: "at (di_iter ?d1) ?x" "di_ok ?d1" "di_saved_key ?d1 = key ?x" using f ok by (simp_all add: di_ok_def)
    have "\<exists>lo d'. leave_key BytewiseComparator it ?d1 = Some (0 < lo, d') \<and> left_key ?x lo d'"
      by (rule leave_at [OF d1(1) order_refl x(1) d1(2,3)]) simp
    then obtain lo d' where lk: "leave_key BytewiseComparator it ?d1 = Some (0 < lo, d')" "left_key ?x lo d'" by blast
    note lo = lk(1) lk(2) [unfolded left_key_def, THEN conjunct1] lk(2) [unfolded left_key_def, THEN conjunct2, THEN conjunct1]
      lk(2) [unfolded left_key_def, THEN conjunct2, THEN conjunct2, THEN conjunct1]
    have lo5: "key j = key ?x" if "lo \<le> j" "j < ?x" for j using lk(2) that by (simp add: left_key_def)
    have lo7: "\<not> di_valid d'" if "lo = 0" using lk(2) that by (simp add: left_key_def)
    have gap: "\<not> in_snapshot sq es j" if "lo \<le> j" "j < ?x" for j using x(2) that lo5 [OF that] by (auto simp: shown_def)
    have v: "it_Valid it (di_iter d)" using inner.at_Valid [OF f(3)] x(1) by simp
    show ?thesis
    proof (cases "lo = 0")
      case True
      have "rank ?x = rank 0" by (rule rank_same) (use gap True in \<open>auto simp: shown_def\<close>)
      then have "p = 0" using r rank_0 by simp
      moreover have "di_at d' (length idx)" using at_end [OF lo(3,4)] lo7 True by simp
      ultimately show ?thesis using f k v lo(1) True by (simp add: di_Prev_def)
    next
      case False
      let ?d2 = "d'\<lparr>di_direction := kReverse\<rparr>"
      have "di_ok ?d2" "di_direction ?d2 = kReverse" "at (di_iter ?d2) (before_pos lo)" using lo(3,4) by (simp_all add: di_ok_def)
      from FindPrev_at [OF this lo(2) less_imp_le [OF x(1)] gap, unfolded r] show ?thesis using f k v lo(1) False
        by (simp add: di_Prev_def del: One_nat_def split del: if_split)
    qed
  next
    case False
    then have f: "di_direction d = kReverse" "di_valid d" using cases by (simp_all add: reverse_entry_def)
    obtain lo where lo: "before_entry lo ?x" "at (di_iter d) (before_pos lo)" using False cases unfolding reverse_entry_def by blast
    have le: "lo \<le> ?x" using lo(1) by (simp add: before_entry_def)
    have gap: "\<not> in_snapshot sq es j" if "lo \<le> j" "j < ?x" for j using lo(1) that by (simp add: before_entry_def)
    from FindPrev_at [OF ok f(1) lo(2) le less_imp_le [OF x(1)] gap, unfolded r] show ?thesis using f
      by (simp add: di_Prev_def del: One_nat_def split del: if_split)
  qed
qed

lemma di_Seek_at:
  assumes d: "di_at d p" and target: "valid (ikey target sq 1)"
  shows "\<exists>d'. di_Seek BytewiseComparator it sq target d = Some d' \<and> di_at d' (seek_index BytewiseComparator target (user_view sq es))"
proof -
  let ?ic = "InternalKeyComparator BytewiseComparator" and ?k = "ikey target sq 1"
  let ?i = "seek_index ?ic ?k es"
  obtain r where r: "at (di_iter d) r" and ok: "di_ok d" using d by (auto simp: di_at_def)
  have app: "AppendInternalKey [] \<lparr>pk_user_key = target, pk_sequence = sq, pk_type = kValueTypeForSeek\<rparr> = Some ?k"
    using AppendInternalKey_ikey [of "\<lparr>pk_user_key = target, pk_sequence = sq, pk_type = kValueTypeForSeek\<rparr>"] snapshot by (simp add: good_parsed_def)
  have k: "internal_ok ?k" by (simp add: internal_ok_def)
  obtain w where w: "it_Seek it ?k (di_iter d) = Some w" "at w ?i" using inner.at_Seek [OF r target] by blast
  have i: "?i \<le> n" by (rule seek_index_le)
  have tag: "\<not> tag_of sq 1 < tag64 (fst (es ! j))" if "j < n" "in_snapshot sq es j" for j
    using visible_tag [of "fst (es ! j)" sq] entry_ok [OF that(1)] that(2) snapshot by (simp add: in_snapshot_def not_less)
  have below: "key j < target" if "j < ?i" "in_snapshot sq es j" for j
    using seek_index_before [OF that(1)] internal_less [OF _ k] entry_ok [of j] that i tag [of j] by auto
  have above: "target \<le> key j" if "?i \<le> j" "j < n" for j
  proof -
    have "\<not> key ?i < target" using seek_index_at [of ?ic ?k es] internal_less [OF _ k] entry_ok [of ?i] that by auto
    then have "target \<le> key ?i" by (simp only: not_less)
    then show ?thesis using key_mono [OF that] by (rule order_trans)
  qed
  have si: "seek_index BytewiseComparator target (user_view sq es) = rank ?i"
  proof (rule seek_index_unique)
    show "rank ?i \<le> length (user_view sq es)" using rank_le [OF i] by (simp add: view_length)
    show "less_key (Compare BytewiseComparator) (fst (user_view sq es ! p)) target" if p: "p < rank ?i" for p
    proof -
      have l: "p < length idx" using p rank_le [OF i] by simp
      have "idx ! p < ?i" using rank_mono [of ?i "idx ! p"] rank_idx [OF l] p by (metis leD not_less)
      then show ?thesis using below idx_shown [OF l] by (simp add: user_order view_nth [OF l] shown_def)
    qed
    show "\<not> less_key (Compare BytewiseComparator) (fst (user_view sq es ! rank ?i)) target" if "rank ?i < length (user_view sq es)"
    proof -
      have l: "rank ?i < length idx" using that by (simp add: view_length)
      note x = idx_shown [OF l]
      have "\<not> idx ! rank ?i < ?i"
      proof
        assume "idx ! rank ?i < ?i"
        then have "rank (Suc (idx ! rank ?i)) \<le> rank ?i" by (intro rank_mono) simp
        then show False using x rank_idx [OF l] by (simp add: rank_Suc)
      qed
      then have "target \<le> key (idx ! rank ?i)" using above x by simp
      then show ?thesis by (simp add: user_order view_nth [OF l] not_less)
    qed
  qed
  let ?d1 = "d\<lparr>di_direction := kForward, di_saved_value := [], di_saved_key := ?k, di_iter := w\<rparr>"
  have st: "on_iter (it_Seek it ?k) (d\<lparr>di_direction := kForward, di_saved_value := [], di_saved_key := ?k\<rparr>) = Some ?d1" using w(1) by (simp add: on_iter_def)
  have v: "it_Valid it w \<longleftrightarrow> ?i < n" using inner.at_Valid [OF w(2)] .
  have d1: "di_ok ?d1" "di_direction ?d1 = kForward" "at (di_iter ?d1) ?i" using ok w(2) by (simp_all add: di_ok_def)
  show ?thesis
  proof (cases "?i < n")
    case True
    have "skips ?i False (di_saved_key ?d1)" using below above by (fastforce simp: skips_def seen_def)
    from FindNext_at [OF d1 True this] show ?thesis using app st v True unfolding si by (simp add: di_Seek_def)
  next
    case False
    then have "?i = n" using i by simp
    then have "rank ?i = length idx" using rank_n by simp
    moreover have "di_at (?d1\<lparr>di_valid := False\<rparr>) (length idx)" using d1 by (intro at_end [of _ ?i]) (simp_all add: di_ok_def)
    ultimately show ?thesis using app st v False unfolding si by (simp add: di_Seek_def)
  qed
qed

lemma di_entry:
  assumes d: "di_at d p" and p: "p < length idx"
  shows "di_key it d = Some (fst (user_view sq es ! p))" "di_value it d = Some (snd (user_view sq es ! p))"
proof -
  let ?x = "idx ! p"
  have x: "?x < n" using idx_shown [OF p] by simp
  have "di_key it d = Some (key ?x) \<and> di_value it d = Some (snd (es ! ?x))"
  proof (cases "forward_entry d ?x")
    case True
    then have f: "di_direction d = kForward" "di_valid d" "at (di_iter d) ?x" by (simp_all add: forward_entry_def)
    have "ExtractUserKey (fst (es ! ?x)) = Some (key ?x)" using entry_ok [OF x] by (simp add: ExtractUserKey_def uk_def internal_ok_def)
    then show ?thesis using f inner.at_key [OF f(3) x] inner.at_value [OF f(3) x] by (simp add: di_key_def di_value_def)
  next
    case False
    then have "reverse_entry d ?x" using d p by (simp add: di_at_def)
    then show ?thesis by (auto simp: reverse_entry_def di_key_def di_value_def)
  qed
  then show "di_key it d = Some (fst (user_view sq es ! p))" "di_value it d = Some (snd (user_view sq es ! p))" by (simp_all add: view_nth [OF p])
qed

lemma di_status_at: "di_at d p \<Longrightarrow> di_get_status it d = Some Status_OK"
  using inner.at_status by (auto simp: di_at_def di_ok_def di_get_status_def Status_ok_def Status_OK_def)

lemma new_DBIter_at:
  assumes "at iter i"
  shows "\<exists>d. NewDBIterator iter seed = Some d \<and> di_at d (length idx)"
proof -
  have g: "good_seed (Random seed)" by (rule Random_good)
  from RandomPeriod_good [OF this] show ?thesis using assms at_end [of _ i] by (simp add: NewDBIterator_def di_ok_def)
qed

end

sublocale db_view \<subseteq> user: iterator_over "DBIter_ops BytewiseComparator it sq" BytewiseComparator "\<lambda>u. valid (ikey u sq 1)" "user_view sq es" di_at
proof unfold_locales
  fix d p assume d: "di_at d p"
  show "p \<le> length (user_view sq es)" using d by (simp add: di_at_def view_length)
  show "it_Valid (DBIter_ops BytewiseComparator it sq) d = (p < length (user_view sq es))"
    using d by (auto simp: DBIter_ops_def di_at_def view_length forward_entry_def reverse_entry_def split: if_splits)
  show "it_status (DBIter_ops BytewiseComparator it sq) d = Some Status_OK" using di_status_at [OF d] by (simp add: DBIter_ops_def)
  show "\<exists>s'. it_SeekToFirst (DBIter_ops BytewiseComparator it sq) d = Some s' \<and> di_at s' 0" using di_SeekToFirst_at [OF d] by (simp add: DBIter_ops_def)
  show "\<exists>s'. it_SeekToLast (DBIter_ops BytewiseComparator it sq) d = Some s' \<and> di_at s' (length (user_view sq es) - 1)"
    using di_SeekToLast_at [OF d] by (simp add: DBIter_ops_def view_length)
  show "\<exists>s'. it_Seek (DBIter_ops BytewiseComparator it sq) x d = Some s' \<and> di_at s' (seek_index BytewiseComparator x (user_view sq es))" if "valid (ikey x sq 1)" for x
    using di_Seek_at [OF d that] by (simp add: DBIter_ops_def)
  assume "p < length (user_view sq es)"
  then have p: "p < length idx" by (simp add: view_length)
  show "it_key (DBIter_ops BytewiseComparator it sq) d = Some (fst (user_view sq es ! p))"
    "it_value (DBIter_ops BytewiseComparator it sq) d = Some (snd (user_view sq es ! p))" using di_entry [OF d p] by (simp_all add: DBIter_ops_def)
  show "\<exists>s'. it_Next (DBIter_ops BytewiseComparator it sq) d = Some s' \<and> di_at s' (Suc p)" using di_Next_at [OF d p] by (simp add: DBIter_ops_def)
  show "\<exists>s'. it_Prev (DBIter_ops BytewiseComparator it sq) d = Some s' \<and> di_at s' (if p = 0 then length (user_view sq es) else p - 1)"
    using di_Prev_at [OF d p] by (simp add: DBIter_ops_def view_length split del: if_split cong del: if_weak_cong)
qed

context db_view
begin

lemma user_contract: "iterator_over (DBIter_ops BytewiseComparator it sq) BytewiseComparator (\<lambda>u. valid (ikey u sq 1)) (user_view sq es) di_at"
  by (rule user.iterator_over_axioms)

end

text \<open>
  C2: The database iterator over any iterator of sorted internal keys. Whatever calls a client makes
  after creating it, searches, steps and changes of direction in any order, it then shows the entry at the position
  these calls lead to in the list of the user keys that the snapshot shows, each with its newest value that is not
  deleted, or that there is none.
\<close>

theorem db_iterator:
  assumes "db_view it valid es ats sq" and "ats iter j"
    and "\<forall>x \<in> set xs. target_ok (\<lambda>u. valid (ikey u sq 1)) x" and "walk (step_position BytewiseComparator (user_view sq es)) xs (length (user_view sq es)) = Some i"
  shows "\<exists>d. NewDBIterator iter seed = Some d \<and>
    do { d' \<leftarrow> walk (step_iterator (DBIter_ops BytewiseComparator it sq)) xs d; observe (DBIter_ops BytewiseComparator it sq) d' } =
      Some (if i < length (user_view sq es) then Some (user_view sq es ! i) else None, Status_OK)"
proof -
  obtain d where d: "NewDBIterator iter seed = Some d" "db_view.di_at es ats sq d (length (user_view sq es))"
    using db_view.new_DBIter_at [OF assms(1,2), of seed] db_view.view_length [OF assms(1)] by auto
  then show ?thesis using iterator_over.walk_observe [OF db_view.user_contract [OF assms(1)] d(2) assms(3,4)] by blast
qed

end
