(* ===== verification/LdbMemIter.thy ===== *)
theory LdbMemIter
  imports LdbDBIterProps LdbMemTable
begin

text \<open>
  The iterator of a memtable (class MemTableIterator of db/memtable.cc) as an instance of the iterator interface, and the
  database iterator over it: what it shows is what lookups with the same snapshot find.
\<close>

definition MemTable_NewIterator :: "MemTable \<Rightarrow> sl_iterator" where
  "MemTable_NewIterator m = Iterator_new"

definition MemTableIterator_ops :: "Comparator \<Rightarrow> MemTable \<Rightarrow> sl_iterator Iterator" where
  "MemTableIterator_ops c m =
     \<lparr>it_Valid = Iterator_Valid, it_SeekToFirst = (\<lambda>_. mt_SeekToFirst m), it_SeekToLast = (\<lambda>_. mt_SeekToLast m),
      it_Seek = (\<lambda>k _. mt_Seek c m k), it_Next = mt_Next m, it_Prev = mt_Prev c m, it_key = mt_key m, it_value = mt_value m,
      it_status = (\<lambda>_. Some Status_OK)\<rparr>"

text \<open>The entries as internal keys and values, and the keys that an encoding can hold.\<close>

fun entry_pair :: "mt_entry \<Rightarrow> slice \<times> slice" where
  "entry_pair (u, s, t, v) = (ikey u s t, v)"

definition fits_key :: "slice \<Rightarrow> bool" where
  "fits_key k \<longleftrightarrow> internal_ok k \<and> length k < 2 ^ 32"

locale memtable_list =
  fixes m :: MemTable and es :: "mt_entry list"
  assumes repr: "sl_repr (mt_KeyComparator BytewiseComparator) (valid_ptr (\<lambda>_. True)) (mt_table m) (map entry_bytes es)"
    and good: "e \<in> set es \<Longrightarrow> good_entry (\<lambda>_. True) e"
begin

abbreviation "ops \<equiv> MemTableIterator_ops BytewiseComparator m"
abbreviation "cmp \<equiv> mt_KeyComparator BytewiseComparator"

definition mem_at :: "sl_iterator \<Rightarrow> nat \<Rightarrow> bool" where
  "mem_at it p \<longleftrightarrow> iterator_at cmp (valid_ptr (\<lambda>_. True)) (mt_table m) (map entry_bytes es) p it"

lemma mem_le: "mem_at it p \<Longrightarrow> p \<le> length es"
proof -
  assume "mem_at it p"
  then obtain xs where "map entry_bytes es = map (key_of (nodes (mt_table m))) xs" "p \<le> length xs" unfolding mem_at_def iterator_at_def by blast
  then show ?thesis using map_eq_imp_length_eq [of entry_bytes es] by fastforce
qed

lemma mem_end: "mem_at None (length es)"
proof -
  obtain xs where xs: "sl_inv cmp (valid_ptr (\<lambda>_. True)) (mt_table m) xs" "map entry_bytes es = map (key_of (nodes (mt_table m))) xs"
    using repr unfolding sl_repr_def by blast
  have "length es = length xs" using map_eq_imp_length_eq [OF xs(2)] .
  then show ?thesis unfolding mem_at_def iterator_at_def using xs by (intro exI [of _ xs] conjI) (simp_all add: nth_opt_def)
qed

lemma mem_key:
  assumes it: "mem_at it p" and p: "p < length es"
  shows "mt_key m it = Some (fst (entry_pair (es ! p)))" "mt_value m it = Some (snd (entry_pair (es ! p)))"
proof -
  have k: "Iterator_key (mt_table m) it = Some (entry_bytes (es ! p))" using iterator_key [OF it [unfolded mem_at_def]] p by simp
  obtain u s t v where e: "es ! p = (u, s, t, v)" by (cases "es ! p")
  have g: "good_entry (\<lambda>_. True) (es ! p)" using good p by simp
  then have "entry_slice (PutLengthPrefixedSlice [] v) = Some (v, [])" using entry_slice_Put [of v "[]"] by (simp add: e)
  then show "mt_key m it = Some (fst (entry_pair (es ! p)))" "mt_value m it = Some (snd (entry_pair (es ! p)))"
    using k entry_slice_bytes [OF g] by (simp_all add: mt_key_def mt_value_def e)
qed

lemma less_pair:
  assumes e: "e \<in> set es" and k: "fits_key k"
  shows "less_key cmp (entry_bytes e) (EncodeKey k) \<longleftrightarrow> less_key (Compare (InternalKeyComparator BytewiseComparator)) (fst (entry_pair e)) k"
proof -
  have "entry_slice (EncodeKey k) = Some (k, [])" using entry_slice_Put [of k "[]"] k by (simp add: EncodeKey_def PutLengthPrefixedSlice_def fits_key_def)
  moreover have "fst (entry_pair e) = entry_key e" by (cases e) simp
  ultimately show ?thesis using less_ptr(1) [OF entry_slice_bytes [OF good [OF e]]] by (simp add: InternalKeyComparator_def)
qed

lemma mem_seek: "fits_key k \<Longrightarrow> length (keys_before cmp (EncodeKey k) (map entry_bytes es)) = seek_index (InternalKeyComparator BytewiseComparator) k (map entry_pair es)"
proof -
  assume k: "fits_key k"
  have "takeWhile (\<lambda>e. less_key cmp (entry_bytes e) (EncodeKey k)) es
      = takeWhile (\<lambda>e. less_key (Compare (InternalKeyComparator BytewiseComparator)) (fst (entry_pair e)) k) es"
    by (rule takeWhile_cong) (use less_pair k in auto)
  then show ?thesis by (simp add: keys_before_def seek_index_def takeWhile_map comp_def)
qed

lemma target_ptr: "fits_key k \<Longrightarrow> valid_ptr (\<lambda>_. True) (EncodeKey k)"
  using valid_ptr_target [of "\<lambda>_. True" k] by (simp add: EncodeKey_def PutLengthPrefixedSlice_def fits_key_def internal_ok_valid)

lemma mem_contract: "iterator_over ops (InternalKeyComparator BytewiseComparator) fits_key (map entry_pair es) mem_at"
proof
  fix it p assume it: "mem_at it p"
  note repr_at = it [unfolded mem_at_def]
  have tc: "comparator cmp (valid_ptr (\<lambda>_. True))" by (rule bytewise_keys.table.comparator_axioms)
  show "p \<le> length (map entry_pair es)" using mem_le [OF it] by simp
  show "it_Valid ops it \<longleftrightarrow> p < length (map entry_pair es)" using iterator_key [OF repr_at] by (simp add: MemTableIterator_ops_def)
  show "it_status ops it = Some Status_OK" by (simp add: MemTableIterator_ops_def)
  show "\<exists>s'. it_SeekToFirst ops it = Some s' \<and> mem_at s' 0" using iterator_first [OF repr] by (simp add: MemTableIterator_ops_def mt_SeekToFirst_def mem_at_def)
  show "\<exists>s'. it_SeekToLast ops it = Some s' \<and> mem_at s' (length (map entry_pair es) - 1)"
    using iterator_last [OF repr] mem_end by (cases "es = []") (auto simp: MemTableIterator_ops_def mt_SeekToLast_def mem_at_def)
  show "\<exists>s'. it_Seek ops k it = Some s' \<and> mem_at s' (seek_index (InternalKeyComparator BytewiseComparator) k (map entry_pair es))" if "fits_key k" for k
    using comparator.iterator_seek [OF tc repr target_ptr [OF that]] mem_seek [OF that] by (auto simp: MemTableIterator_ops_def mt_Seek_def mem_at_def)
  assume "p < length (map entry_pair es)"
  then have p: "p < length es" by simp
  show "it_key ops it = Some (fst (map entry_pair es ! p))" "it_value ops it = Some (snd (map entry_pair es ! p))"
    using mem_key [OF it p] p by (simp_all add: MemTableIterator_ops_def)
  show "\<exists>s'. it_Next ops it = Some s' \<and> mem_at s' (Suc p)" using iterator_next [OF repr_at] p by (simp add: MemTableIterator_ops_def mt_Next_def mem_at_def)
  show "\<exists>s'. it_Prev ops it = Some s' \<and> mem_at s' (if p = 0 then length (map entry_pair es) else p - 1)"
    using comparator.iterator_prev [OF tc repr_at] p mem_end by (cases "p = 0") (auto simp: MemTableIterator_ops_def mt_Prev_def mem_at_def)
qed

lemma mem_sorted: "sorted_wrt (less_key (Compare (InternalKeyComparator BytewiseComparator))) (map fst (map entry_pair es))"
proof -
  have "sorted_wrt (less_key cmp) (map entry_bytes es)" using sl_repr_sorted [OF repr] by simp
  moreover have "less_key (Compare (InternalKeyComparator BytewiseComparator)) (fst (entry_pair a)) (fst (entry_pair b))"
    if "a \<in> set es" "b \<in> set es" "less_key cmp (entry_bytes a) (entry_bytes b)" for a b
  proof -
    have "fst (entry_pair e) = entry_key e" for e by (cases e) simp
    then show ?thesis using that(3) less_ptr(1) [OF entry_slice_bytes [OF good [OF that(1)]] entry_slice_bytes [OF good [OF that(2)]]]
      by (simp add: InternalKeyComparator_def)
  qed
  ultimately show ?thesis unfolding sorted_wrt_map by (rule sorted_wrt_mono_rel [rotated])
qed

lemma mem_keys: "e \<in> set (map entry_pair es) \<Longrightarrow> internal_ok (fst e) \<and> vtype (fst e) \<le> kTypeValue"
proof -
  assume "e \<in> set (map entry_pair es)"
  then obtain u s t v where e: "(u, s, t, v) \<in> set es" "e = (ikey u s t, v)" by auto
  then have "t \<le> kTypeValue" "s \<le> kMaxSequenceNumber" using good [OF e(1)] by simp_all
  then show ?thesis by (simp add: e(2) internal_ok_def ikey_parts)
qed

lemma new_mem: "mem_at (MemTable_NewIterator m) (length es)"
  using mem_end by (simp add: MemTable_NewIterator_def Iterator_new_def)

end

section \<open>The database iterator over a memtable\<close>

text \<open>The entry of a user key that a lookup with the snapshot finds.\<close>

definition newest :: "SequenceNumber \<Rightarrow> mt_entry set \<Rightarrow> slice \<Rightarrow> mt_entry \<Rightarrow> bool" where
  "newest sq E u e \<longleftrightarrow> e \<in> visible BytewiseComparator u sq E
     \<and> (\<forall>(_, s, t, _) \<in> visible BytewiseComparator u sq E. s < fst (snd e) \<or> s = fst (snd e) \<and> t \<le> fst (snd (snd e)))"

locale memtable_view = memtable_list +
  fixes sq :: SequenceNumber
  assumes snapshot: "sq \<le> kMaxSequenceNumber"

sublocale memtable_view \<subseteq> view: db_view ops fits_key "map entry_pair es" mem_at sq
  by (intro db_view.intro mem_contract db_view_axioms.intro mem_sorted mem_keys snapshot)

context memtable_view
begin

lemma entry_parts:
  assumes i: "i < length es" and e: "es ! i = (u, s, t, w)"
  shows "map entry_pair es ! i = (ikey u s t, w)" "in_snapshot sq (map entry_pair es) i \<longleftrightarrow> s \<le> sq"
    "vtype (fst (map entry_pair es ! i)) = t" "s \<le> kMaxSequenceNumber" "t \<le> kTypeValue" "length u + 8 < 2 ^ 32"
proof -
  have g: "good_entry (\<lambda>_. True) (u, s, t, w)" using good i e by (metis nth_mem)
  then show "s \<le> kMaxSequenceNumber" "t \<le> kTypeValue" "length u + 8 < 2 ^ 32" by simp_all
  show p: "map entry_pair es ! i = (ikey u s t, w)" using i e by simp
  show "in_snapshot sq (map entry_pair es) i \<longleftrightarrow> s \<le> sq" "vtype (fst (map entry_pair es ! i)) = t"
    using g by (simp_all add: in_snapshot_def p ikey_parts)
qed

lemma entry_before:
  assumes ij: "i < j" "j < length es" and e: "es ! i = (u, s, t, v)" "es ! j = (u, s', t', v')"
  shows "s' < s \<or> s' = s \<and> t' < t"
proof -
  have i: "i < length es" using ij by simp
  have "less_key (Compare (InternalKeyComparator BytewiseComparator)) (ikey u s t) (ikey u s' t')"
    using sorted_wrt_nth_less [OF mem_sorted ij(1)] ij i entry_parts(1) [OF i e(1)] entry_parts(1) [OF ij(2) e(2)] by simp
  then have "tag_of s' t' < tag_of s t" by (simp add: internal_less internal_ok_def)
  then show ?thesis using tag_of_less [OF entry_parts(4) [OF ij(2) e(2)] entry_parts(4) [OF i e(1)]] by simp
qed

lemma newest_unique:
  assumes "newest sq (set es) u e" "newest sq (set es) u e'"
  shows "e = e'"
proof -
  obtain s t v s' t' v' where e: "e = (u, s, t, v)" "e' = (u, s', t', v')" "e \<in> set es" "e' \<in> set es" "s = s'" "t = t'"
    using assms by (cases e; cases e') (fastforce simp: newest_def visible_def bytewise_same)
  obtain i j where ij: "i < length es" "es ! i = e" "j < length es" "es ! j = e'" using e(3,4) by (metis in_set_conv_nth)
  show ?thesis
  proof (cases i j rule: linorder_cases)
    case less
    show ?thesis using entry_before [OF less ij(3)] ij e by auto
  next
    case equal
    then show ?thesis using ij by simp
  next
    case greater
    show ?thesis using entry_before [OF greater ij(1)] ij e by auto
  qed
qed

lemma shown_newest:
  assumes i: "i < length es" and e: "es ! i = (u, s, t, v)"
  shows "shown sq (map entry_pair es) i \<longleftrightarrow> t = kTypeValue \<and> newest sq (set es) u (u, s, t, v)"
proof
  assume sh: "shown sq (map entry_pair es) i"
  then have st: "s \<le> sq" "t = kTypeValue" using entry_parts(2,3) [OF i e] by (simp_all add: shown_def)
  have "s' < s \<or> s' = s \<and> t' \<le> t" if x: "(u, s', t', v') \<in> set es" "s' \<le> sq" for s' t' v'
  proof -
    obtain j where j: "j < length es" "es ! j = (u, s', t', v')" using x(1) by (metis in_set_conv_nth)
    have "\<not> j < i" using sh entry_parts(1,2) [OF j] entry_parts(1) [OF i e] x(2) by (auto simp: shown_def)
    then consider "i = j" | "i < j" by linarith
    then show ?thesis
    proof cases
      case 1
      then show ?thesis using e j by simp
    next
      case 2
      then show ?thesis using entry_before [OF 2 j(1) e j(2)] by auto
    qed
  qed
  moreover have "(u, s, t, v) \<in> set es" using i e by (metis nth_mem)
  ultimately show "t = kTypeValue \<and> newest sq (set es) u (u, s, t, v)" using st by (auto simp: newest_def visible_def bytewise_same)
next
  assume n: "t = kTypeValue \<and> newest sq (set es) u (u, s, t, v)"
  then have le: "s \<le> sq" by (simp add: newest_def visible_def)
  have "uk (fst (map entry_pair es ! j)) \<noteq> uk (fst (map entry_pair es ! i))" if j: "j < i" "in_snapshot sq (map entry_pair es) j" for j
  proof
    obtain u' s' t' v' where ej: "es ! j = (u', s', t', v')" by (cases "es ! j")
    have jl: "j < length es" using j(1) i by simp
    assume "uk (fst (map entry_pair es ! j)) = uk (fst (map entry_pair es ! i))"
    then have u: "u' = u" using entry_parts(1) [OF jl ej] entry_parts(1) [OF i e] by simp
    have "s' \<le> sq" using j(2) entry_parts(2) [OF jl ej] by simp
    moreover have "(u, s', t', v') \<in> set es" using jl ej u by (metis nth_mem)
    ultimately have "s' < s \<or> s' = s \<and> t' \<le> t" using n by (auto simp: newest_def visible_def bytewise_same)
    then show False using entry_before [OF j(1) i ej [unfolded u] e] by auto
  qed
  then show "shown sq (map entry_pair es) i" using n le entry_parts(2,3) [OF i e] by (simp add: shown_def)
qed

lemma view_newest: "(u, v) \<in> set (user_view sq (map entry_pair es)) \<longleftrightarrow> (\<exists>s. newest sq (set es) u (u, s, kTypeValue, v))"
proof
  assume "(u, v) \<in> set (user_view sq (map entry_pair es))"
  then obtain i where i: "i < length es" "shown sq (map entry_pair es) i" "snd (map entry_pair es ! i) = v" "uk (fst (map entry_pair es ! i)) = u"
    by (auto simp: user_view_def shown_indices_def)
  obtain u' s t v' where e: "es ! i = (u', s, t, v')" by (cases "es ! i")
  have "u' = u" "v' = v" using i(3,4) entry_parts(1) [OF i(1) e] by simp_all
  then show "\<exists>s. newest sq (set es) u (u, s, kTypeValue, v)" using i(2) shown_newest [OF i(1) e] by auto
next
  assume "\<exists>s. newest sq (set es) u (u, s, kTypeValue, v)"
  then obtain s where s: "newest sq (set es) u (u, s, kTypeValue, v)" by blast
  then have "(u, s, kTypeValue, v) \<in> set es" by (simp add: newest_def visible_def)
  then obtain i where i: "i < length es" "es ! i = (u, s, kTypeValue, v)" by (metis in_set_conv_nth)
  have "shown sq (map entry_pair es) i" using shown_newest [OF i] s by simp
  then show "(u, v) \<in> set (user_view sq (map entry_pair es))" using i entry_parts(1) [OF i] by (force simp: user_view_def shown_indices_def)
qed

lemma newest_fits: "newest sq (set es) u (u, s, t, v) \<Longrightarrow> length u + 8 < 2 ^ 32"
  using good by (auto simp: newest_def visible_def)

lemma get_newest:
  assumes u: "length u + 8 < 2 ^ 32"
  shows "(\<exists>k. new_LookupKey u sq = Some k \<and> MemTable_Get BytewiseComparator m k [] Status_OK = Some (True, v, Status_OK)) \<longleftrightarrow>
    (\<exists>s. newest sq (set es) u (u, s, kTypeValue, v))"
proof -
  have h: "mt_holds BytewiseComparator (\<lambda>_. True) m (set es)" using repr good by (auto simp: mt_holds_def)
  obtain k r where k: "new_LookupKey u sq = Some k" "MemTable_Get BytewiseComparator m k [] Status_OK = Some r"
    and r: "if visible BytewiseComparator u sq (set es) = {} then r = (False, [], Status_OK)
      else \<exists>(u', s', t', v') \<in> visible BytewiseComparator u sq (set es).
       (\<forall>(_, s'', t'', _) \<in> visible BytewiseComparator u sq (set es). s'' < s' \<or> s'' = s' \<and> t'' \<le> t') \<and>
       (if t' = kTypeValue then r = (True, v', Status_OK) else \<exists>st. r = (True, [], st) \<and> IsNotFound st = Some True)"
    using Get_result [OF bytewise_key_comparator h TrueI snapshot u, of "[]" Status_OK] by blast
  have nf: "IsNotFound Status_OK \<noteq> Some True" by (simp add: IsNotFound_def Status_code_def Status_OK_def)
  show ?thesis
  proof (cases "visible BytewiseComparator u sq (set es) = {}")
    case True
    then show ?thesis using k r by (simp add: newest_def)
  next
    case False
    obtain u' s' t' v' where e: "(u', s', t', v') \<in> visible BytewiseComparator u sq (set es)"
      "\<forall>(_, s'', t'', _) \<in> visible BytewiseComparator u sq (set es). s'' < s' \<or> s'' = s' \<and> t'' \<le> t'"
      "if t' = kTypeValue then r = (True, v', Status_OK) else \<exists>st. r = (True, [], st) \<and> IsNotFound st = Some True"
      using r [unfolded if_not_P [OF False]] by blast
    have u': "u' = u" using e(1) by (simp add: visible_def bytewise_same)
    have n: "newest sq (set es) u (u, s', t', v')" using e(1,2) u' by (simp add: newest_def)
    show ?thesis
    proof (cases "t' = kTypeValue")
      case True
      then show ?thesis using e(3) k n newest_unique [OF n] by auto
    next
      case ty: False
      then have "r \<noteq> (True, v, Status_OK)" using e(3) nf by auto
      moreover have "\<not> newest sq (set es) u (u, s, kTypeValue, v)" for s using newest_unique [OF n] ty by blast
      ultimately show ?thesis using k by simp
    qed
  qed
qed

end

text \<open>
  C11: A scan and the lookups of a database agree. Over a memtable, the database iterator shows
  in increasing order exactly the keys, with their values, that a lookup with the same snapshot finds; whatever calls a
  client makes, searches, steps and changes of direction, it then shows the entry at the position they lead to.
\<close>

theorem memtable_iteration:
  assumes "mt_holds BytewiseComparator (\<lambda>_. True) m E" and "sq \<le> kMaxSequenceNumber"
  shows "\<exists>shows_list. sorted_wrt (<) (map fst shows_list) \<and>
    (\<forall>u v. (u, v) \<in> set shows_list \<longleftrightarrow> length u + 8 < 2 ^ 32 \<and>
      (\<exists>k. new_LookupKey u sq = Some k \<and> MemTable_Get BytewiseComparator m k [] Status_OK = Some (True, v, Status_OK))) \<and>
    (\<forall>seed xs i. (\<forall>x \<in> set xs. target_ok (\<lambda>u. length u + 8 < 2 ^ 32) x) \<longrightarrow>
      walk (step_position BytewiseComparator shows_list) xs (length shows_list) = Some i \<longrightarrow>
      (\<exists>d. NewDBIterator (MemTable_NewIterator m) seed = Some d \<and>
        do { d' \<leftarrow> walk (step_iterator (DBIter_ops BytewiseComparator (MemTableIterator_ops BytewiseComparator m) sq)) xs d;
             observe (DBIter_ops BytewiseComparator (MemTableIterator_ops BytewiseComparator m) sq) d' } =
          Some (if i < length shows_list then Some (shows_list ! i) else None, Status_OK)))"
proof -
  obtain es where es: "sl_repr (mt_KeyComparator BytewiseComparator) (valid_ptr (\<lambda>_. True)) (mt_table m) (map entry_bytes es)"
    "\<forall>e \<in> set es. good_entry (\<lambda>_. True) e" using assms(1) by (auto simp: mt_holds_def)
  have ml: "memtable_list m es" using es by (simp add: memtable_list_def)
  have mv: "memtable_view m es sq" using ml assms(2) by (simp add: memtable_view_def memtable_view_axioms_def)
  have dv: "db_view (MemTableIterator_ops BytewiseComparator m) fits_key (map entry_pair es) (memtable_list.mem_at m es) sq"
    by (intro db_view.intro db_view_axioms.intro memtable_list.mem_contract [OF ml] memtable_list.mem_sorted [OF ml] memtable_list.mem_keys [OF ml] assms(2))
  have fits: "fits_key (ikey u sq 1) \<longleftrightarrow> length u + 8 < 2 ^ 32" for u by (simp add: fits_key_def internal_ok_def)
  let ?view = "user_view sq (map entry_pair es)"
  show ?thesis
  proof (intro exI [of _ ?view] conjI allI impI)
    show "sorted_wrt (<) (map fst ?view)" by (rule db_view.view_sorted [OF dv])
    show "(u, v) \<in> set ?view \<longleftrightarrow> length u + 8 < 2 ^ 32 \<and>
        (\<exists>k. new_LookupKey u sq = Some k \<and> MemTable_Get BytewiseComparator m k [] Status_OK = Some (True, v, Status_OK))" for u v
      using memtable_view.get_newest [OF mv] memtable_view.view_newest [OF mv] memtable_view.newest_fits [OF mv] by blast
    show "\<exists>d. NewDBIterator (MemTable_NewIterator m) seed = Some d \<and>
        do { d' \<leftarrow> walk (step_iterator (DBIter_ops BytewiseComparator (MemTableIterator_ops BytewiseComparator m) sq)) xs d;
             observe (DBIter_ops BytewiseComparator (MemTableIterator_ops BytewiseComparator m) sq) d' } =
          Some (if i < length ?view then Some (?view ! i) else None, Status_OK)"
      if t: "\<forall>x \<in> set xs. target_ok (\<lambda>u. length u + 8 < 2 ^ 32) x" and w: "walk (step_position BytewiseComparator ?view) xs (length ?view) = Some i" for seed xs i
    proof -
      obtain d where d: "NewDBIterator (MemTable_NewIterator m) seed = Some d" "db_view.di_at (map entry_pair es) (memtable_list.mem_at m es) sq d (length ?view)"
        using db_view.new_DBIter_at [OF dv memtable_list.new_mem [OF ml], of seed] db_view.view_length [OF dv] by auto
      have "\<forall>x \<in> set xs. target_ok (\<lambda>u. fits_key (ikey u sq 1)) x" using t by (simp add: fits)
      from iterator_over.walk_observe [OF db_view.user_contract [OF dv] d(2) this w] d(1) show ?thesis by blast
    qed
  qed
qed

section \<open>An instance\<close>

text \<open>Two versions of a key, and a deletion.\<close>

definition demo_list :: "mt_entry list" where
  "demo_list = [([97], 5, 1, [121]), ([97], 3, 1, [120]), ([98], 4, 0, [])]"

definition demo_mem :: MemTable where
  "demo_mem = the (do {
     m \<leftarrow> new_MemTable;
     m1 \<leftarrow> MemTable_Add BytewiseComparator m 3 1 [97] [120];
     m2 \<leftarrow> MemTable_Add BytewiseComparator m1 4 0 [98] [];
     MemTable_Add BytewiseComparator m2 5 1 [97] [121]
   })"

lemma demo_entries_good: "e \<in> set demo_list \<Longrightarrow> good_entry (\<lambda>_. True) e"
  by (auto simp: demo_list_def small_sequence)

lemma demo_mem_holds: "mt_holds BytewiseComparator (\<lambda>_. True) demo_mem (set demo_list)"
proof -
  note add = internal_keys.Add_holds [OF internal_keysI [OF bytewise_key_comparator]]
  obtain m where m: "new_MemTable = Some m" "mt_holds BytewiseComparator (\<lambda>_. True) m {}" using new_MemTable_holds by blast
  obtain m1 where m1: "MemTable_Add BytewiseComparator m 3 1 [97] [120] = Some m1" "mt_holds BytewiseComparator (\<lambda>_. True) m1 {([97], 3, 1, [120])}"
    using add [OF m(2), of "[97]" 3 1 "[120]"] by (auto simp: small_sequence)
  obtain m2 where m2: "MemTable_Add BytewiseComparator m1 4 0 [98] [] = Some m2"
    "mt_holds BytewiseComparator (\<lambda>_. True) m2 {([98], 4, 0, []), ([97], 3, 1, [120])}"
    using add [OF m1(2), of "[98]" 4 0 "[]"] by (auto simp: small_sequence)
  obtain m3 where m3: "MemTable_Add BytewiseComparator m2 5 1 [97] [121] = Some m3"
    "mt_holds BytewiseComparator (\<lambda>_. True) m3 {([97], 5, 1, [121]), ([98], 4, 0, []), ([97], 3, 1, [120])}"
    using add [OF m2(2), of "[97]" 5 1 "[121]"] by (auto simp: small_sequence bytewise_same)
  have "demo_mem = m3" unfolding demo_mem_def m(1) bind.simps(2) m1(1) m2(1) m3(1) option.sel ..
  moreover have "{([97], 5, 1, [121]), ([98], 4, 0, []), ([97], 3, 1, [120])} = set demo_list" by (auto simp: demo_list_def)
  ultimately show ?thesis using m3(2) by simp
qed

lemma demo_mem_repr: "sl_repr (mt_KeyComparator BytewiseComparator) (valid_ptr (\<lambda>_. True)) (mt_table demo_mem) (map entry_bytes demo_list)"
proof -
  let ?cmp = "mt_KeyComparator BytewiseComparator" and ?R = "\<lambda>a b. less_key (mt_KeyComparator BytewiseComparator) (entry_bytes a) (entry_bytes b)"
  obtain es where es: "sl_repr ?cmp (valid_ptr (\<lambda>_. True)) (mt_table demo_mem) (map entry_bytes es)" "set es = set demo_list"
    using demo_mem_holds by (auto simp: mt_holds_def)
  have v: "valid_ptr (\<lambda>_. True) (entry_bytes e)" if "e \<in> set demo_list" for e by (rule valid_ptr_bytes [OF demo_entries_good [OF that]])
  have "es = demo_list"
  proof (rule sorted_unique [where R = ?R])
    show "sorted_wrt ?R es" using sl_repr_sorted [OF es(1)] by (simp add: sorted_wrt_map)
    show "sorted_wrt ?R demo_list" unfolding demo_list_def
      by (simp add: bytewise_keys.less_entry bytewise_less bytewise_same small_sequence del: entry_bytes.simps)
    show "\<not> ?R x x" if "x \<in> set es" for x using bytewise_keys.table.less_irrefl v es(2) that by simp
    show "\<not> ?R y x" if "x \<in> set es" "y \<in> set es" "?R x y" for x y
      using bytewise_keys.table.less_trans [OF v v v that(3)] bytewise_keys.table.less_irrefl v es(2) that(1,2) by blast
  qed (rule es(2))
  then show ?thesis using es(1) by simp
qed

lemma demo_snapshot: "(4 :: SequenceNumber) \<le> kMaxSequenceNumber"
  by (simp add: small_sequence)

interpretation demo_list: memtable_list demo_mem demo_list
  by (intro memtable_list.intro demo_mem_repr demo_entries_good)

interpretation demo_view: memtable_view demo_mem demo_list 4
  by unfold_locales (rule demo_snapshot)

lemma demo_db_view: "db_view (MemTableIterator_ops BytewiseComparator demo_mem) fits_key (map entry_pair demo_list) demo_list.mem_at 4"
  by unfold_locales

interpretation demo_scan: db_view "MemTableIterator_ops BytewiseComparator demo_mem" fits_key "map entry_pair demo_list" demo_list.mem_at 4
  by (rule demo_db_view)

lemma demo_user_view: "user_view 4 (map entry_pair demo_list) = [([97], [120])]"
  by (simp add: user_view_def shown_indices_def shown_def in_snapshot_def demo_list_def ikey_parts small_sequence upt_rec less_Suc_eq)

theorem memtable_iteration_witness:
  "\<exists>d. NewDBIterator (MemTable_NewIterator demo_mem) 7 = Some d \<and>
    do { d' \<leftarrow> walk (step_iterator (DBIter_ops BytewiseComparator (MemTableIterator_ops BytewiseComparator demo_mem) 4)) [] d;
         observe (DBIter_ops BytewiseComparator (MemTableIterator_ops BytewiseComparator demo_mem) 4) d' } = Some (None, Status_OK)"
  using memtable_iteration [OF demo_mem_holds demo_snapshot] by (fastforce dest: spec [of _ "[]"])

text \<open>The older value of the key is shown, the newer and the deletion are not.\<close>

theorem db_iterator_witness:
  "\<exists>d. NewDBIterator (MemTable_NewIterator demo_mem) 7 = Some d \<and>
    do { d' \<leftarrow> walk (step_iterator (DBIter_ops BytewiseComparator (MemTableIterator_ops BytewiseComparator demo_mem) 4)) [To_last, Backward, To [96]] d;
         observe (DBIter_ops BytewiseComparator (MemTableIterator_ops BytewiseComparator demo_mem) 4) d' } = Some (Some ([97], [120]), Status_OK)"
proof -
  have w: "walk (step_position BytewiseComparator (user_view 4 (map entry_pair demo_list))) [To_last, Backward, To [96]] (length (user_view 4 (map entry_pair demo_list))) = Some 0"
    by (simp add: demo_user_view seek_index_def bytewise_less)
  have t: "\<forall>x \<in> set [To_last, Backward, To [96]]. target_ok (\<lambda>u. fits_key (ikey u 4 1)) x" by (simp add: fits_key_def internal_ok_def)
  from db_iterator [OF demo_db_view demo_list.new_mem t w] show ?thesis by (simp add: demo_user_view)
qed

end
