(* ===== verification/LdbLogging.thy ===== *)
theory LdbLogging
  imports LdbStatus LdbFormat
begin

text \<open>
  Numbers and strings as text (util/logging.h, util/logging.cc) and the texts of keys for debugging (db/dbformat.cc).
  A decimal number is parsed with a check for the overflow of 64 bits.
\<close>

definition AppendNumberTo :: "slice \<Rightarrow> u64 \<Rightarrow> slice" where
  "AppendNumberTo str num = str @ decimal (unat num)"

definition NumberToString :: "u64 \<Rightarrow> slice" where
  "NumberToString num = AppendNumberTo [] num"

text \<open>Two lower-case hexadecimal digits.\<close>

definition hex_digit :: "nat \<Rightarrow> byte" where
  "hex_digit n = (if n < 10 then of_nat (48 + n) else of_nat (87 + n))"

fun AppendEscapedStringTo :: "slice \<Rightarrow> slice \<Rightarrow> slice" where
  "AppendEscapedStringTo str [] = str"
| "AppendEscapedStringTo str (c # cs) =
     AppendEscapedStringTo
       (if 32 \<le> c \<and> c \<le> 126 then str @ [c]
        else str @ [92, 120, hex_digit (unat c div 16), hex_digit (unat c mod 16)]) cs"

definition EscapeString :: "slice \<Rightarrow> slice" where
  "EscapeString s = AppendEscapedStringTo [] s"

text \<open>The loop says whether there was an overflow, and gives the value, the number of digits and the rest.\<close>

fun consume_digits :: "slice \<Rightarrow> u64 \<Rightarrow> nat \<Rightarrow> bool \<times> u64 \<times> nat \<times> slice" where
  "consume_digits [] v digits = (False, v, digits, [])"
| "consume_digits (c # cs) v digits =
     (if 48 \<le> c \<and> c \<le> 57 then
        (let delta = (ucast (c - 48) :: u64); kMaxUint64 = (- 1 :: u64) in
         if v > kMaxUint64 div 10 \<or> v = kMaxUint64 div 10 \<and> delta > kMaxUint64 mod 10 then (True, v, digits, c # cs)
         else consume_digits cs (v * 10 + delta) (Suc digits))
      else (False, v, digits, c # cs))"

text \<open>The result of the function, the value it leaves in the variable of the caller, and the rest of the input.\<close>

definition ConsumeDecimalNumber :: "slice \<Rightarrow> u64 \<Rightarrow> bool \<times> u64 \<times> slice" where
  "ConsumeDecimalNumber input val =
     (case consume_digits input 0 0 of (overflow, v, digits, rest) \<Rightarrow> if overflow then (False, val, rest) else (digits > 0, v, rest))"

definition ParsedInternalKey_DebugString :: "ParsedInternalKey \<Rightarrow> slice" where
  "ParsedInternalKey_DebugString p =
     [39] @ EscapeString (pk_user_key p) @ [39] @ lit '' @ '' @ decimal (unat (pk_sequence p)) @ lit '' : '' @ decimal (unat (pk_type p))"

definition InternalKey_DebugString :: "InternalKey \<Rightarrow> slice" where
  "InternalKey_DebugString rep =
     (case ParseInternalKey rep of Some p \<Rightarrow> ParsedInternalKey_DebugString p | None \<Rightarrow> lit ''(bad)'' @ EscapeString rep)"

section \<open>What is read\<close>

definition is_digit :: "byte \<Rightarrow> bool" where
  "is_digit c \<longleftrightarrow> 48 \<le> c \<and> c \<le> 57"

definition digit_value :: "byte \<Rightarrow> nat" where
  "digit_value c = unat c - 48"

text \<open>The number that digits stand for, after a number read before.\<close>

fun digits_value :: "nat \<Rightarrow> slice \<Rightarrow> nat" where
  "digits_value v [] = v"
| "digits_value v (c # cs) = digits_value (v * 10 + digit_value c) cs"

lemma digits_value_ge: "v \<le> digits_value v cs"
proof (induction cs arbitrary: v)
  case (Cons c cs)
  have "v \<le> v * 10 + digit_value c" by simp
  then show ?case using Cons.IH [of "v * 10 + digit_value c"] by simp
qed simp

lemma digits_value_append: "digits_value v (cs @ ds) = digits_value (digits_value v cs) ds"
  by (induction cs arbitrary: v) simp_all

lemma digit_bounds: "is_digit c \<Longrightarrow> digit_value c < 10 \<and> unat (ucast (c - 48) :: u64) = digit_value c"
proof -
  assume c: "is_digit c"
  then have b: "48 \<le> unat c" "unat c \<le> 57" by (simp_all add: is_digit_def word_le_nat_alt)
  have "unat (c - 48) = unat c - 48" using c by (simp add: is_digit_def unat_sub)
  then show ?thesis using b by (simp add: digit_value_def unsigned_ucast_eq take_bit_nat_eq_self)
qed

lemma step_fits:
  assumes c: "is_digit c"
  shows "(v > (- 1 :: u64) div 10 \<or> v = - 1 div 10 \<and> (ucast (c - 48) :: u64) > - 1 mod 10) \<longleftrightarrow> \<not> unat v * 10 + digit_value c < 2 ^ 64"
    and "unat v * 10 + digit_value c < 2 ^ 64 \<Longrightarrow> unat (v * 10 + (ucast (c - 48) :: u64)) = unat v * 10 + digit_value c"
proof -
  note d = digit_bounds [OF c]
  have m: "unat ((- 1 :: u64) div 10) = 1844674407370955161" "unat ((- 1 :: u64) mod 10) = 5" by (simp_all add: unat_div unat_mod)
  have "v = - 1 div 10 \<longleftrightarrow> unat v = 1844674407370955161" using m(1) by (metis word_unat_eq_iff)
  then show "(v > (- 1 :: u64) div 10 \<or> v = - 1 div 10 \<and> (ucast (c - 48) :: u64) > - 1 mod 10) \<longleftrightarrow> \<not> unat v * 10 + digit_value c < 2 ^ 64"
    using d m by (simp only: word_less_nat_alt) auto
  show "unat (v * 10 + (ucast (c - 48) :: u64)) = unat v * 10 + digit_value c" if "unat v * 10 + digit_value c < 2 ^ 64"
  proof -
    have "unat (v * 10 :: u64) = unat v * 10" using that by (subst unat_mult_lem [THEN iffD1]) simp_all
    then show ?thesis using that d by (subst unat_add_lem [THEN iffD1]) simp_all
  qed
qed

lemma consume_digits_value:
  assumes "\<forall>c \<in> set ds. is_digit c" "rest = [] \<or> \<not> is_digit (hd rest)"
  shows "digits_value (unat v) ds < 2 ^ 64 \<Longrightarrow> consume_digits (ds @ rest) v k = (False, of_nat (digits_value (unat v) ds), k + length ds, rest)"
    and "\<not> digits_value (unat v) ds < 2 ^ 64 \<Longrightarrow> fst (consume_digits (ds @ rest) v k)"
  using assms
proof (induction ds arbitrary: v k)
  case Nil
  {
    case 1
    then show ?case by (cases rest) (auto simp: is_digit_def)
  next
    case 2
    then show ?case using unsigned_less [of v, where ?'a = nat] by simp
  }
next
  case (Cons c ds)
  {
    case 1
    have c: "is_digit c" using 1(2) by simp
    have "unat v * 10 + digit_value c < 2 ^ 64" using 1(1) digits_value_ge [of "unat v * 10 + digit_value c" ds] by simp
    then show ?case using Cons.IH(1) [of "v * 10 + ucast (c - 48)" "Suc k"] 1 step_fits [OF c, of v] c
      by (simp add: is_digit_def Let_def)
  next
    case 2
    have c: "is_digit c" using 2(2) by simp
    show ?case
    proof (cases "unat v * 10 + digit_value c < 2 ^ 64")
      case True
      then show ?thesis using Cons.IH(2) [of "v * 10 + ucast (c - 48)" "Suc k"] 2 step_fits [OF c, of v] c
        by (simp add: is_digit_def Let_def)
    next
      case False
      then show ?thesis using step_fits(1) [OF c, of v] c by (simp add: is_digit_def Let_def)
    qed
  }
qed

lemma decimal_digits: "(\<forall>c \<in> set (decimal n). is_digit c) \<and> decimal n \<noteq> [] \<and> digits_value 0 (decimal n) = n"
proof (induction n rule: decimal.induct)
  case (1 n)
  have d: "is_digit (of_nat (48 + m))" "digit_value (of_nat (48 + m)) = m" if "m < 10" for m
  proof -
    have "unat (of_nat (48 + m) :: byte) = 48 + m" using that unat_of_nat_small [of "48 + m", where 'a = 8] by simp
    then show "is_digit (of_nat (48 + m))" "digit_value (of_nat (48 + m)) = m" using that
      by (simp_all add: is_digit_def digit_value_def word_le_nat_alt del: of_nat_add)
  qed
  show ?case
  proof (cases "n < 10")
    case True
    then show ?thesis using d [OF True] by (simp add: decimal.simps [of n] del: of_nat_add)
  next
    case False
    then show ?thesis using 1 d [of "n mod 10"] by (simp add: decimal.simps [of n] digits_value_append del: of_nat_add)
  qed
qed

lemma zeros_value: "digits_value 0 (replicate k 48 @ ds) = digits_value 0 ds"
  by (induction k) (simp_all add: digit_value_def)

text \<open>
  C40: Decimal numbers are parsed exactly. Digits are consumed to the first character that is not one; the value
  is the number they stand for when it is below \<open>2 ^ 64\<close>, and otherwise the function reports a failure
  and leaves the variable as it was.
\<close>

theorem consume_decimal_exact:
  assumes "\<forall>c \<in> set ds. is_digit c" and "rest = [] \<or> \<not> is_digit (hd rest)"
  shows "if digits_value 0 ds < 2 ^ 64
    then ConsumeDecimalNumber (ds @ rest) val = (ds \<noteq> [], of_nat (digits_value 0 ds), rest)
    else \<exists>rest'. ConsumeDecimalNumber (ds @ rest) val = (False, val, rest')"
  using consume_digits_value [OF assms, of 0 0] by (auto simp: ConsumeDecimalNumber_def split: prod.splits)

theorem consume_decimal_exact_witness:
  "ConsumeDecimalNumber (lit ''18446744073709551615.log'') 7 = (True, - 1, lit ''.log'') \<and>
   (\<exists>rest. ConsumeDecimalNumber (lit ''18446744073709551616'') 7 = (False, 7, rest))"
proof -
  have a: "lit ''18446744073709551615.log'' = lit ''18446744073709551615'' @ lit ''.log''" by (simp add: lit_def)
  have d: "\<forall>c \<in> set (lit ''18446744073709551615''). is_digit c" "\<forall>c \<in> set (lit ''18446744073709551616''). is_digit c"
    "\<not> is_digit (hd (lit ''.log''))" by (simp_all add: lit_def is_digit_def)
  have v: "digits_value 0 (lit ''18446744073709551615'') = 18446744073709551615" "digits_value 0 (lit ''18446744073709551616'') = 18446744073709551616"
    by (simp_all add: lit_def digit_value_def)
  have n: "lit ''18446744073709551615'' \<noteq> []" by (simp add: lit_def)
  show ?thesis
    using consume_decimal_exact [OF d(1) disjI2 [OF d(3)], of 7] consume_decimal_exact [OF d(2) disjI1 [OF refl], of 7] n
    unfolding a v by (auto split: if_splits)
qed

end
