(* ===== verification/LdbFilename.thy ===== *)
theory LdbFilename
  imports LdbLogging LdbSlice
begin

text \<open>
  The names of the files of a database (db/filename.h, db/filename.cc), the helpers that write and read a whole
  file (util/env.cc), and the file CURRENT, which names the manifest. The environment is a record of functions
  on the state of the file system; files that are open are numbers. What the header of the
  environment promises is the locale \<open>file_system\<close>.
\<close>

section \<open>Names\<close>

datatype FileType = kLogFile | kDBLockFile | kTableFile | kDescriptorFile | kCurrentFile | kTempFile | kInfoLogFile

text \<open>The format \<open>%06llu\<close>.\<close>

definition six_digits :: "u64 \<Rightarrow> slice" where
  "six_digits number = (let d = decimal (unat number) in replicate (6 - length d) 48 @ d)"

definition MakeFileName :: "slice \<Rightarrow> u64 \<Rightarrow> string \<Rightarrow> slice" where
  "MakeFileName name number suffix = name @ lit ''/'' @ six_digits number @ lit ''.'' @ lit suffix"

definition LogFileName :: "slice \<Rightarrow> u64 \<Rightarrow> slice option" where
  "LogFileName name number = (if number > 0 then Some (MakeFileName name number ''log'') else None)"

definition TableFileName :: "slice \<Rightarrow> u64 \<Rightarrow> slice option" where
  "TableFileName name number = (if number > 0 then Some (MakeFileName name number ''ldb'') else None)"

definition SSTTableFileName :: "slice \<Rightarrow> u64 \<Rightarrow> slice option" where
  "SSTTableFileName name number = (if number > 0 then Some (MakeFileName name number ''sst'') else None)"

definition DescriptorFileName :: "slice \<Rightarrow> u64 \<Rightarrow> slice option" where
  "DescriptorFileName dbname number = (if number > 0 then Some (dbname @ lit ''/MANIFEST-'' @ six_digits number) else None)"

definition CurrentFileName :: "slice \<Rightarrow> slice" where
  "CurrentFileName dbname = dbname @ lit ''/CURRENT''"

definition LockFileName :: "slice \<Rightarrow> slice" where
  "LockFileName dbname = dbname @ lit ''/LOCK''"

definition TempFileName :: "slice \<Rightarrow> u64 \<Rightarrow> slice option" where
  "TempFileName dbname number = (if number > 0 then Some (MakeFileName dbname number ''dbtmp'') else None)"

definition InfoLogFileName :: "slice \<Rightarrow> slice" where
  "InfoLogFileName dbname = dbname @ lit ''/LOG''"

definition OldInfoLogFileName :: "slice \<Rightarrow> slice" where
  "OldInfoLogFileName dbname = dbname @ lit ''/LOG.old''"

text \<open>The variables of the caller are only written on success.\<close>

definition ParseFileName :: "slice \<Rightarrow> (u64 \<times> FileType) option" where
  "ParseFileName fname =
     (if Slice_equal fname (lit ''CURRENT'') then Some (0, kCurrentFile)
      else if Slice_equal fname (lit ''LOCK'') then Some (0, kDBLockFile)
      else if Slice_equal fname (lit ''LOG'') \<or> Slice_equal fname (lit ''LOG.old'') then Some (0, kInfoLogFile)
      else if Slice_starts_with fname (lit ''MANIFEST-'') then do {
        rest \<leftarrow> Slice_remove_prefix fname (length (lit ''MANIFEST-''));
        let (found, num, rest1) = ConsumeDecimalNumber rest 0;
        if \<not> found then None
        else if rest1 \<noteq> [] then None
        else Some (num, kDescriptorFile)
      }
      else
        (let (found, num, suffix) = ConsumeDecimalNumber fname 0 in
         if \<not> found then None
         else if Slice_equal suffix (lit ''.log'') then Some (num, kLogFile)
         else if Slice_equal suffix (lit ''.sst'') \<or> Slice_equal suffix (lit ''.ldb'') then Some (num, kTableFile)
         else if Slice_equal suffix (lit ''.dbtmp'') then Some (num, kTempFile)
         else None))"

section \<open>The environment\<close>

record 's Env =
  env_NewSequentialFile :: "slice \<Rightarrow> 's \<Rightarrow> Status \<times> nat \<times> 's"
  env_NewWritableFile :: "slice \<Rightarrow> 's \<Rightarrow> Status \<times> nat \<times> 's"
  env_Read :: "nat \<Rightarrow> nat \<Rightarrow> 's \<Rightarrow> Status \<times> slice \<times> 's"
  env_Append :: "nat \<Rightarrow> slice \<Rightarrow> 's \<Rightarrow> Status \<times> 's"
  env_Sync :: "nat \<Rightarrow> 's \<Rightarrow> Status \<times> 's"
  env_Close :: "nat \<Rightarrow> 's \<Rightarrow> Status \<times> 's"
  env_release :: "nat \<Rightarrow> 's \<Rightarrow> 's"
  env_DeleteFile :: "slice \<Rightarrow> 's \<Rightarrow> Status \<times> 's"
  env_RenameFile :: "slice \<Rightarrow> slice \<Rightarrow> 's \<Rightarrow> Status \<times> 's"

definition DoWriteStringToFile :: "'s Env \<Rightarrow> slice \<Rightarrow> slice \<Rightarrow> bool \<Rightarrow> 's \<Rightarrow> Status \<times> 's" where
  "DoWriteStringToFile env data fname should_sync s =
     (let (st, f, s1) = env_NewWritableFile env fname s in
      if \<not> Status_ok st then (st, s1)
      else
        (let (st1, s2) = env_Append env f data s1;
             (st2, s3) = (if Status_ok st1 \<and> should_sync then env_Sync env f s2 else (st1, s2));
             (st3, s4) = (if Status_ok st2 then env_Close env f s3 else (st2, s3));
             s5 = env_release env f s4
         in (st3, if \<not> Status_ok st3 then snd (env_DeleteFile env fname s5) else s5)))"

definition WriteStringToFile :: "'s Env \<Rightarrow> slice \<Rightarrow> slice \<Rightarrow> 's \<Rightarrow> Status \<times> 's" where
  "WriteStringToFile env data fname = DoWriteStringToFile env data fname False"

definition WriteStringToFileSync :: "'s Env \<Rightarrow> slice \<Rightarrow> slice \<Rightarrow> 's \<Rightarrow> Status \<times> 's" where
  "WriteStringToFileSync env data fname = DoWriteStringToFile env data fname True"

partial_function (option) read_fragments :: "'s Env \<Rightarrow> nat \<Rightarrow> slice \<Rightarrow> 's \<Rightarrow> (Status \<times> slice \<times> 's) option" where
  "read_fragments env f data s =
     (case env_Read env f 8192 s of (st, fragment, s1) \<Rightarrow>
        if \<not> Status_ok st then Some (st, data, s1)
        else if fragment = [] then Some (st, data, s1)
        else read_fragments env f (data @ fragment) s1)"

definition ReadFileToString :: "'s Env \<Rightarrow> slice \<Rightarrow> 's \<Rightarrow> (Status \<times> slice \<times> 's) option" where
  "ReadFileToString env fname s =
     (let (st, f, s1) = env_NewSequentialFile env fname s in
      if \<not> Status_ok st then Some (st, [], s1)
      else do { (st1, data, s2) \<leftarrow> read_fragments env f [] s1; Some (st1, data, env_release env f s2) })"

definition SetCurrentFile :: "'s Env \<Rightarrow> slice \<Rightarrow> u64 \<Rightarrow> 's \<Rightarrow> (Status \<times> 's) option" where
  "SetCurrentFile env dbname descriptor_number s = do {
     manifest \<leftarrow> DescriptorFileName dbname descriptor_number;
     contents \<leftarrow> (if Slice_starts_with manifest (dbname @ lit ''/'') then Slice_remove_prefix manifest (length dbname + 1) else None);
     tmp \<leftarrow> TempFileName dbname descriptor_number;
     let (st, s1) = WriteStringToFileSync env (contents @ [10]) tmp s;
     let (st1, s2) = (if Status_ok st then env_RenameFile env tmp (CurrentFileName dbname) s1 else (st, s1));
     Some (st1, if \<not> Status_ok st1 then snd (env_DeleteFile env tmp s2) else s2)
   }"

section \<open>The contract of the environment\<close>

text \<open>
  \<open>content\<close> is what the files hold, \<open>writes\<close> says which file an open file writes, \<open>closed\<close> that it was closed, and
  \<open>reads\<close> what an open file has left to read. An operation on one file leaves the others, also when it fails, and a renaming
  that fails changes nothing.
\<close>

locale file_system =
  fixes env :: "'s Env" and content :: "'s \<Rightarrow> slice \<Rightarrow> slice option" and writes :: "'s \<Rightarrow> nat \<Rightarrow> slice \<Rightarrow> bool"
    and closed :: "'s \<Rightarrow> nat \<Rightarrow> bool" and reads :: "'s \<Rightarrow> nat \<Rightarrow> slice \<Rightarrow> bool"
  assumes new_writable: "env_NewWritableFile env f s = (st, h, s') \<Longrightarrow>
      (\<forall>g. g \<noteq> f \<longrightarrow> content s' g = content s g) \<and> (Status_ok st \<longrightarrow> content s' f = Some [] \<and> writes s' h f)"
    and append: "writes s h f \<Longrightarrow> env_Append env h d s = (st, s') \<Longrightarrow>
      writes s' h f \<and> (\<forall>g. g \<noteq> f \<longrightarrow> content s' g = content s g) \<and> (Status_ok st \<longrightarrow> content s' f = map_option (\<lambda>c. c @ d) (content s f))"
    and sync: "writes s h f \<Longrightarrow> env_Sync env h s = (st, s') \<Longrightarrow>
      writes s' h f \<and> (\<forall>g. g \<noteq> f \<longrightarrow> content s' g = content s g) \<and> (Status_ok st \<longrightarrow> content s' f = content s f)"
    and close_file: "writes s h f \<Longrightarrow> env_Close env h s = (st, s') \<Longrightarrow>
      (\<forall>g. g \<noteq> f \<longrightarrow> content s' g = content s g) \<and> (if Status_ok st then content s' f = content s f \<and> closed s' h else writes s' h f)"
    and release_open: "writes s h f \<Longrightarrow> g \<noteq> f \<Longrightarrow> content (env_release env h s) g = content s g"
    and release_closed: "closed s h \<Longrightarrow> content (env_release env h s) = content s"
    and delete_file: "env_DeleteFile env f s = (st, s') \<Longrightarrow> g \<noteq> f \<Longrightarrow> content s' g = content s g"
    and rename_file: "env_RenameFile env a b s = (st, s') \<Longrightarrow> a \<noteq> b \<Longrightarrow>
      content s' = (if Status_ok st then (content s)(b := content s a, a := None) else content s)"
    and new_sequential: "env_NewSequentialFile env f s = (st, h, s') \<Longrightarrow> Status_ok st \<Longrightarrow> \<exists>c. content s f = Some c \<and> reads s' h c"
    and read_file: "reads s h c \<Longrightarrow> env_Read env h n s = (st, d, s') \<Longrightarrow> Status_ok st \<Longrightarrow>
      \<exists>r. c = d @ r \<and> reads s' h r \<and> (0 < n \<and> d = [] \<longrightarrow> c = [])"
begin

lemma write_string:
  assumes "DoWriteStringToFile env data fname sync s = (st, s')"
  shows "(\<forall>g. g \<noteq> fname \<longrightarrow> content s' g = content s g) \<and> (Status_ok st \<longrightarrow> content s' fname = Some data)"
proof -
  obtain st0 h s1 where n: "env_NewWritableFile env fname s = (st0, h, s1)" by (cases "env_NewWritableFile env fname s")
  note N = new_writable [OF n]
  show ?thesis
  proof (cases "Status_ok st0")
    case False
    then show ?thesis using assms n N by (auto simp: DoWriteStringToFile_def)
  next
    case True
    obtain st1 s2 where a: "env_Append env h data s1 = (st1, s2)" by (cases "env_Append env h data s1")
    have A: "writes s2 h fname \<and> (\<forall>g. g \<noteq> fname \<longrightarrow> content s2 g = content s1 g) \<and> (Status_ok st1 \<longrightarrow> content s2 fname = Some data)"
      using append [OF _ a] N True by auto
    obtain st2 s3 where y: "(if Status_ok st1 \<and> sync then env_Sync env h s2 else (st1, s2)) = (st2, s3)" by fastforce
    have Y: "writes s3 h fname \<and> (\<forall>g. g \<noteq> fname \<longrightarrow> content s3 g = content s2 g) \<and> (Status_ok st2 \<longrightarrow> content s3 fname = Some data)"
    proof (cases "Status_ok st1 \<and> sync")
      case True
      then have "env_Sync env h s2 = (st2, s3)" using y by simp
      from local.sync [OF _ this, of fname] A True show ?thesis by auto
    next
      case False
      then show ?thesis using y A by auto
    qed
    obtain st3 s4 where c: "(if Status_ok st2 then env_Close env h s3 else (st2, s3)) = (st3, s4)" by fastforce
    have C: "(\<forall>g. g \<noteq> fname \<longrightarrow> content s4 g = content s3 g) \<and> (if Status_ok st3 then content s4 fname = Some data \<and> closed s4 h else writes s4 h fname)"
    proof (cases "Status_ok st2")
      case True
      then have "env_Close env h s3 = (st3, s4)" using c by simp
      from close_file [OF _ this, of fname] Y True show ?thesis by auto
    next
      case False
      then show ?thesis using c Y by auto
    qed
    let ?s5 = "env_release env h s4"
    have R: "(\<forall>g. g \<noteq> fname \<longrightarrow> content ?s5 g = content s4 g) \<and> (Status_ok st3 \<longrightarrow> content ?s5 fname = Some data)"
      using C release_open [of s4 h fname] release_closed [of s4 h] by (cases "Status_ok st3") auto
    have run: "st = st3 \<and> s' = (if \<not> Status_ok st3 then snd (env_DeleteFile env fname ?s5) else ?s5)"
      using assms n True a y c by (auto simp: DoWriteStringToFile_def Let_def)
    obtain x s6 where "env_DeleteFile env fname ?s5 = (x, s6)" by (cases "env_DeleteFile env fname ?s5")
    then show ?thesis using run N A Y C R delete_file [of fname ?s5 x s6] by (cases "Status_ok st3") auto
  qed
qed

lemma read_all:
  assumes "reads s h c"
  shows "\<exists>st data' s'. read_fragments env h data s = Some (st, data', s') \<and> (Status_ok st \<longrightarrow> data' = data @ c)"
  using assms
proof (induction "length c" arbitrary: c data s rule: less_induct)
  case less
  obtain st d s1 where r: "env_Read env h 8192 s = (st, d, s1)" by (cases "env_Read env h 8192 s")
  show ?case
  proof (cases "Status_ok st")
    case False
    then show ?thesis using r by (simp add: read_fragments.simps)
  next
    case True
    obtain rest where c: "c = d @ rest" "reads s1 h rest" "d = [] \<longrightarrow> c = []" using read_file [OF less.prems r True] by auto
    show ?thesis
    proof (cases "d = []")
      case True
      then show ?thesis using c r by (simp add: read_fragments.simps)
    next
      case False
      have "length rest < length c" using c(1) False by simp
      from less.hyps [OF this c(2), of "data @ d"] show ?thesis using r False True c(1) \<open>Status_ok st\<close> by (simp add: read_fragments.simps)
    qed
  qed
qed

lemma read_string:
  "\<exists>st data s'. ReadFileToString env fname s = Some (st, data, s') \<and> (Status_ok st \<longrightarrow> content s fname = Some data)"
proof -
  obtain st h s1 where n: "env_NewSequentialFile env fname s = (st, h, s1)" by (cases "env_NewSequentialFile env fname s")
  show ?thesis
  proof (cases "Status_ok st")
    case False
    then show ?thesis using n by (simp add: ReadFileToString_def)
  next
    case True
    obtain c where c: "content s fname = Some c" "reads s1 h c" using new_sequential [OF n True] by blast
    from read_all [OF c(2), of "[]"] show ?thesis using n True c(1) by (auto simp: ReadFileToString_def)
  qed
qed

end

section \<open>Names are parsed back\<close>

lemma six_parsed:
  assumes "rest = [] \<or> \<not> is_digit (hd rest)"
  shows "ConsumeDecimalNumber (six_digits n @ rest) val = (True, n, rest)"
proof -
  let ?ds = "six_digits n"
  note d = decimal_digits [of "unat n"]
  have all: "\<forall>c \<in> set ?ds. is_digit c" using d by (auto simp: six_digits_def Let_def is_digit_def)
  have v: "digits_value 0 ?ds = unat n" using d by (simp add: six_digits_def Let_def zeros_value)
  have ne: "?ds \<noteq> []" using d by (simp add: six_digits_def Let_def)
  have "digits_value 0 ?ds < 2 ^ 64" unfolding v using unsigned_less [of n, where ?'a = nat] by simp
  then show ?thesis using consume_digits_value(1) [OF all assms, of 0 0] ne by (simp add: ConsumeDecimalNumber_def v)
qed

lemma six_first: "\<exists>c cs. six_digits n = c # cs \<and> is_digit c"
proof -
  note d = decimal_digits [of "unat n"]
  have "six_digits n \<noteq> []" "\<forall>c \<in> set (six_digits n). is_digit c" using d by (auto simp: six_digits_def Let_def is_digit_def)
  then show ?thesis by (cases "six_digits n") auto
qed

lemma Slice_equal_iff: "Slice_equal a b \<longleftrightarrow> a = b"
  using memcmp_0 [of a b] by (auto simp: Slice_equal_def)

text \<open>A name that begins with a digit is none of the fixed names.\<close>

lemma digit_name: "is_digit c \<Longrightarrow> \<not> Slice_equal (c # cs) (lit ''CURRENT'') \<and> \<not> Slice_equal (c # cs) (lit ''LOCK'') \<and> \<not> Slice_equal (c # cs) (lit ''LOG'')
    \<and> \<not> Slice_equal (c # cs) (lit ''LOG.old'') \<and> \<not> Slice_starts_with (c # cs) (lit ''MANIFEST-'')"
  unfolding Slice_equal_iff starts_with_prefix by (auto simp: lit_def is_digit_def)

lemma numbered_name:
  assumes "rest = [] \<or> \<not> is_digit (hd rest)"
  shows "ParseFileName (six_digits n @ rest) =
    (if rest = lit ''.log'' then Some (n, kLogFile) else if rest = lit ''.sst'' \<or> rest = lit ''.ldb'' then Some (n, kTableFile)
     else if rest = lit ''.dbtmp'' then Some (n, kTempFile) else None)"
proof -
  obtain c cs where c: "six_digits n = c # cs" "is_digit c" using six_first by blast
  then have "\<not> Slice_equal (six_digits n @ rest) (lit ''CURRENT'')" "\<not> Slice_equal (six_digits n @ rest) (lit ''LOCK'')"
    "\<not> Slice_equal (six_digits n @ rest) (lit ''LOG'')" "\<not> Slice_equal (six_digits n @ rest) (lit ''LOG.old'')"
    "\<not> Slice_starts_with (six_digits n @ rest) (lit ''MANIFEST-'')"
    using digit_name [OF c(2), of "cs @ rest"] by simp_all
  then show ?thesis using six_parsed [OF assms, of n 0] by (simp add: ParseFileName_def Slice_equal_iff)
qed

lemma manifest_name: "ParseFileName (lit ''MANIFEST-'' @ six_digits n) = Some (n, kDescriptorFile)"
proof -
  let ?f = "lit ''MANIFEST-'' @ six_digits n"
  have "Slice_starts_with ?f (lit ''MANIFEST-'')" unfolding starts_with_prefix by blast
  moreover have "\<not> Slice_equal ?f (lit ''CURRENT'')" "\<not> Slice_equal ?f (lit ''LOCK'')" "\<not> Slice_equal ?f (lit ''LOG'')" "\<not> Slice_equal ?f (lit ''LOG.old'')"
    unfolding Slice_equal_iff by (simp_all add: lit_def)
  ultimately show ?thesis using six_parsed [of "[]" n 0] by (simp add: ParseFileName_def Slice_remove_prefix_def)
qed

text \<open>
  C39: The names of files are parsed back, for every 64-bit number and in any directory: what follows the name of
  the directory and a slash is recognised as a file of its type, with its number; the other names have the number zero.
\<close>

theorem file_names_parsed:
  assumes "0 < n"
  shows "map (\<lambda>f. do { name \<leftarrow> f dir n; ParseFileName (drop (length dir + 1) name) }) [LogFileName, TableFileName, SSTTableFileName, DescriptorFileName, TempFileName]
      = [Some (n, kLogFile), Some (n, kTableFile), Some (n, kTableFile), Some (n, kDescriptorFile), Some (n, kTempFile)] \<and>
    map (\<lambda>f. ParseFileName (drop (length dir + 1) (f dir))) [CurrentFileName, LockFileName, InfoLogFileName, OldInfoLogFileName]
      = [Some (0, kCurrentFile), Some (0, kDBLockFile), Some (0, kInfoLogFile), Some (0, kInfoLogFile)]"
proof -
  have dot: "\<not> is_digit (hd (lit (CHR ''.'' # s)))" for s by (simp add: lit_def is_digit_def)
  have slash: "drop (Suc 0) (lit (CHR ''/'' # s)) = lit s" for s by (simp add: lit_def)
  have made: "ParseFileName (drop (Suc (length dir)) (MakeFileName dir n s)) = ParseFileName (six_digits n @ lit (CHR ''.'' # s))" for s
    by (simp add: MakeFileName_def lit_def)
  have fixed: "ParseFileName (lit ''CURRENT'') = Some (0, kCurrentFile)" "ParseFileName (lit ''LOCK'') = Some (0, kDBLockFile)"
    "ParseFileName (lit ''LOG'') = Some (0, kInfoLogFile)" "ParseFileName (lit ''LOG.old'') = Some (0, kInfoLogFile)"
    unfolding ParseFileName_def Slice_equal_iff by (simp_all add: lit_def)
  have numbered: "ParseFileName (six_digits n @ lit ''.log'') = Some (n, kLogFile)" "ParseFileName (six_digits n @ lit ''.ldb'') = Some (n, kTableFile)"
    "ParseFileName (six_digits n @ lit ''.sst'') = Some (n, kTableFile)" "ParseFileName (six_digits n @ lit ''.dbtmp'') = Some (n, kTempFile)"
    unfolding numbered_name [OF disjI2 [OF dot]] by (simp_all add: lit_def)
  show ?thesis using assms numbered manifest_name [of n] fixed
    by (simp add: LogFileName_def TableFileName_def SSTTableFileName_def DescriptorFileName_def TempFileName_def CurrentFileName_def
        LockFileName_def InfoLogFileName_def OldInfoLogFileName_def made slash)
qed

theorem file_names_parsed_witness:
  "\<exists>name. LogFileName [100] 7 = Some name \<and> ParseFileName (drop (length [100 :: byte] + 1) name) = Some (7, kLogFile)"
proof -
  have "(0 :: u64) < 7" by simp
  from file_names_parsed [OF this, of "[100]"] show ?thesis by (simp add: LogFileName_def)
qed

section \<open>The current manifest\<close>

context file_system
begin

definition current_line :: "u64 \<Rightarrow> slice" where
  "current_line n = lit ''MANIFEST-'' @ six_digits n @ [10]"

lemma current_names:
  assumes "0 < n"
  shows "DescriptorFileName dbname n = Some (dbname @ lit ''/'' @ lit ''MANIFEST-'' @ six_digits n)"
    "\<exists>tmp. TempFileName dbname n = Some tmp \<and> tmp \<noteq> CurrentFileName dbname"
proof -
  show "DescriptorFileName dbname n = Some (dbname @ lit ''/'' @ lit ''MANIFEST-'' @ six_digits n)"
    using assms by (simp add: DescriptorFileName_def lit_def)
  obtain c cs where "six_digits n = c # cs" "is_digit c" using six_first by blast
  then show "\<exists>tmp. TempFileName dbname n = Some tmp \<and> tmp \<noteq> CurrentFileName dbname"
    using assms by (auto simp: TempFileName_def MakeFileName_def CurrentFileName_def lit_def is_digit_def)
qed

lemma set_current:
  assumes n: "0 < n"
  shows "\<exists>st s' tmp. SetCurrentFile env dbname n s = Some (st, s') \<and> TempFileName dbname n = Some tmp \<and>
    (\<forall>g. g \<noteq> tmp \<and> g \<noteq> CurrentFileName dbname \<longrightarrow> content s' g = content s g) \<and>
    content s' (CurrentFileName dbname) = (if Status_ok st then Some (current_line n) else content s (CurrentFileName dbname))"
proof -
  let ?m = "dbname @ lit ''/'' @ lit ''MANIFEST-'' @ six_digits n" and ?cur = "CurrentFileName dbname"
  obtain tmp where tmp: "TempFileName dbname n = Some tmp" "tmp \<noteq> ?cur" using current_names(2) [OF n] by blast
  have pre: "Slice_starts_with ?m (dbname @ lit ''/'')" unfolding starts_with_prefix by auto
  have cut: "Slice_remove_prefix ?m (length dbname + 1) = Some (lit ''MANIFEST-'' @ six_digits n)" by (simp add: Slice_remove_prefix_def)
  obtain st s1 where w: "WriteStringToFileSync env ((lit ''MANIFEST-'' @ six_digits n) @ [10]) tmp s = (st, s1)" by fastforce
  have W: "(\<forall>g. g \<noteq> tmp \<longrightarrow> content s1 g = content s g) \<and> (Status_ok st \<longrightarrow> content s1 tmp = Some (current_line n))"
    using write_string [OF w [unfolded WriteStringToFileSync_def]] by (simp add: current_line_def)
  obtain st1 s2 where r: "(if Status_ok st then env_RenameFile env tmp ?cur s1 else (st, s1)) = (st1, s2)" by fastforce
  have R: "(\<forall>g. g \<noteq> tmp \<and> g \<noteq> ?cur \<longrightarrow> content s2 g = content s g) \<and> content s2 ?cur = (if Status_ok st1 then Some (current_line n) else content s ?cur)"
  proof (cases "Status_ok st")
    case True
    then have "env_RenameFile env tmp ?cur s1 = (st1, s2)" using r by simp
    from rename_file [OF this tmp(2)] W True tmp(2) show ?thesis by auto
  next
    case False
    then show ?thesis using r W tmp(2) by auto
  qed
  let ?s3 = "if \<not> Status_ok st1 then snd (env_DeleteFile env tmp s2) else s2"
  have run: "SetCurrentFile env dbname n s = Some (st1, ?s3)"
    using current_names(1) [OF n] pre cut tmp(1) w r by (simp add: SetCurrentFile_def)
  obtain x s4 where d: "env_DeleteFile env tmp s2 = (x, s4)" by fastforce
  have "g \<noteq> tmp \<Longrightarrow> content ?s3 g = content s2 g" for g using delete_file [OF d] d by simp
  then show ?thesis using run R tmp by (intro exI [of _ st1] exI [of _ ?s3] exI [of _ tmp]) auto
qed

end

text \<open>
  C10: The pointer to the manifest is replaced as a whole. Whatever operation of the environment fails, the other files stay as they
  are, except the temporary one, and CURRENT either is as before and the status is an error, or the status is ok and
  reading it gives the name of the new manifest and a newline, or an error.
\<close>

theorem current_file_replaced:
  assumes "file_system env content writes closed reading" and "0 < n"
  shows "\<exists>st s' tmp. SetCurrentFile env dbname n s = Some (st, s') \<and> TempFileName dbname n = Some tmp \<and>
    (\<forall>g. g \<noteq> tmp \<and> g \<noteq> CurrentFileName dbname \<longrightarrow> content s' g = content s g) \<and>
    (if Status_ok st then \<exists>st1 data s1. ReadFileToString env (CurrentFileName dbname) s' = Some (st1, data, s1) \<and>
       (Status_ok st1 \<longrightarrow> last data = 10 \<and> ParseFileName (butlast data) = Some (n, kDescriptorFile))
     else content s' (CurrentFileName dbname) = content s (CurrentFileName dbname))"
proof -
  obtain st s' tmp where c: "SetCurrentFile env dbname n s = Some (st, s')" "TempFileName dbname n = Some tmp"
    "\<forall>g. g \<noteq> tmp \<and> g \<noteq> CurrentFileName dbname \<longrightarrow> content s' g = content s g"
    "content s' (CurrentFileName dbname) = (if Status_ok st then Some (lit ''MANIFEST-'' @ six_digits n @ [10]) else content s (CurrentFileName dbname))"
    using file_system.set_current [OF assms, of dbname s] unfolding file_system.current_line_def [OF assms(1)] by blast
  obtain st1 data s1 where r: "ReadFileToString env (CurrentFileName dbname) s' = Some (st1, data, s1)"
    "Status_ok st1 \<longrightarrow> content s' (CurrentFileName dbname) = Some data" using file_system.read_string [OF assms(1)] by blast
  have "last (lit ''MANIFEST-'' @ six_digits n @ [10]) = 10" "butlast (lit ''MANIFEST-'' @ six_digits n @ [10]) = lit ''MANIFEST-'' @ six_digits n"
    by (simp_all add: butlast_append)
  then show ?thesis using c r manifest_name [of n] by (intro exI [of _ st] exI [of _ s'] exI [of _ tmp]) auto
qed

section \<open>An instance\<close>

text \<open>Files in memory: what they hold, which file an open file writes, and what an open file has left to read. A file cannot be longer than a limit.\<close>

record memory_files =
  mf_files :: "slice \<Rightarrow> slice option"
  mf_writes :: "nat \<Rightarrow> slice option"
  mf_reads :: "nat \<Rightarrow> slice"
  mf_next :: nat

definition mf_error :: Status where
  "mf_error = Some []"

definition memory_env :: "nat \<Rightarrow> memory_files Env" where
  "memory_env limit =
     \<lparr>env_NewSequentialFile = (\<lambda>f s. case mf_files s f of None \<Rightarrow> (mf_error, 0, s)
        | Some c \<Rightarrow> (Status_OK, mf_next s, s\<lparr>mf_reads := (mf_reads s)(mf_next s := c), mf_next := Suc (mf_next s)\<rparr>)),
      env_NewWritableFile = (\<lambda>f s. (Status_OK, mf_next s, s\<lparr>mf_files := (mf_files s)(f := Some []),
        mf_writes := (mf_writes s)(mf_next s := Some f), mf_next := Suc (mf_next s)\<rparr>)),
      env_Read = (\<lambda>h n s. (Status_OK, take n (mf_reads s h), s\<lparr>mf_reads := (mf_reads s)(h := drop n (mf_reads s h))\<rparr>)),
      env_Append = (\<lambda>h d s. case mf_writes s h of None \<Rightarrow> (mf_error, s)
        | Some f \<Rightarrow> (case mf_files s f of None \<Rightarrow> (mf_error, s)
            | Some c \<Rightarrow> if length c + length d \<le> limit then (Status_OK, s\<lparr>mf_files := (mf_files s)(f := Some (c @ d))\<rparr>) else (mf_error, s))),
      env_Sync = (\<lambda>h s. (Status_OK, s)),
      env_Close = (\<lambda>h s. (Status_OK, s\<lparr>mf_writes := (mf_writes s)(h := None)\<rparr>)),
      env_release = (\<lambda>h s. s),
      env_DeleteFile = (\<lambda>f s. (Status_OK, s\<lparr>mf_files := (mf_files s)(f := None)\<rparr>)),
      env_RenameFile = (\<lambda>a b s. (Status_OK, s\<lparr>mf_files := (mf_files s)(b := mf_files s a, a := None)\<rparr>))\<rparr>"

lemma mf_error_bad: "\<not> Status_ok mf_error" "Status_ok Status_OK"
  by (simp_all add: mf_error_def Status_ok_def Status_OK_def)

interpretation memory_env: file_system "memory_env 4096" mf_files "\<lambda>s h f. mf_writes s h = Some f" "\<lambda>s h. mf_writes s h = None" "\<lambda>s h c. mf_reads s h = c"
  by unfold_locales (auto simp: memory_env_def mf_error_bad split: option.splits if_splits)

text \<open>A new manifest for an empty file system.\<close>

theorem current_file_replaced_witness:
  "\<exists>st s'. SetCurrentFile (memory_env 4096) [100] 7 \<lparr>mf_files = \<lambda>_. None, mf_writes = \<lambda>_. None, mf_reads = \<lambda>_. [], mf_next = 0\<rparr> = Some (st, s') \<and>
    mf_files s' [99] = None"
  using current_file_replaced [OF memory_env.file_system_axioms, of 7 "[100]" "\<lparr>mf_files = \<lambda>_. None, mf_writes = \<lambda>_. None, mf_reads = \<lambda>_. [], mf_next = 0\<rparr>"]
  by (fastforce simp: CurrentFileName_def TempFileName_def MakeFileName_def)

end
