(* ===== verification/LdbTableCache.thy ===== *)
theory LdbTableCache
  imports LdbTableRead LdbFilename
begin

text \<open>
  The table cache (db/table_cache.cc): a table file is opened when it is not in the cache, under its present or its old name, and
  lookups and iterators of tables go through it. The files and what the cache holds are parameters; \<open>FindTable\<close> says what is
  inserted. Handles are not counted.
\<close>

section \<open>The cache\<close>

text \<open>
  \<open>tc_NewRandomAccessFile\<close> opens a file of the environment. \<open>tc_Lookup\<close> is what the cache holds, \<open>tc_new_id\<close> the number that the
  block cache gives to a table that is opened, and \<open>tc_blocks\<close> what the block cache holds, when there is one.
\<close>

record TableCache =
  tc_NewRandomAccessFile :: "slice \<Rightarrow> Status \<times> RandomAccessFile"
  tc_dbname :: slice
  tc_options :: Options
  tc_Lookup :: "slice \<Rightarrow> Table option"
  tc_new_id :: u64
  tc_blocks :: "(slice \<Rightarrow> Block option) option"

text \<open>The status, the table, and what is inserted into the cache under which key.\<close>

definition FindTable :: "TableCache \<Rightarrow> u64 \<Rightarrow> u64 \<Rightarrow> (Status \<times> Table option \<times> (slice \<times> Table) option) option" where
  "FindTable tc file_number file_size =
     (let key = EncodeFixed64 file_number in
      case tc_Lookup tc key of Some t \<Rightarrow> Some (Status_OK, Some t, None)
      | None \<Rightarrow> do {
          fname \<leftarrow> TableFileName (tc_dbname tc) file_number;
          let (s, raf) = tc_NewRandomAccessFile tc fname;
          (s1, raf1) \<leftarrow>
            (if Status_ok s then Some (s, raf)
             else do {
               old_fname \<leftarrow> SSTTableFileName (tc_dbname tc) file_number;
               let (s', raf') = tc_NewRandomAccessFile tc old_fname;
               Some (if Status_ok s' then (Status_OK, raf') else (s, raf))
             });
          (s2, table) \<leftarrow> (if Status_ok s1 then Table_Open (tc_options tc) raf1 (tc_new_id tc) file_size else Some (s1, None));
          if \<not> Status_ok s2 then (if table = None then Some (s2, None, None) else None)
          else do { t \<leftarrow> table; Some (s2, Some t, Some (key, t)) }
        })"

text \<open>An iterator over a table, or the status of the iterator that stands for an error.\<close>

type_synonym TableIterator = "(BlockIterator, BlockIterator) TwoLevelIterator"

definition TableCache_NewIterator :: "TableCache \<Rightarrow> ReadOptions \<Rightarrow> u64 \<Rightarrow> u64 \<Rightarrow> (Status + Table \<times> TableIterator) option" where
  "TableCache_NewIterator tc options file_number file_size = do {
     (s, table, _) \<leftarrow> FindTable tc file_number file_size;
     if \<not> Status_ok s then Some (Inl s)
     else do { t \<leftarrow> table; it \<leftarrow> Table_NewIterator t (tc_blocks tc) options; Some (Inr (t, it)) }
   }"

definition TableCache_Get :: "TableCache \<Rightarrow> ReadOptions \<Rightarrow> u64 \<Rightarrow> u64 \<Rightarrow> slice \<Rightarrow> ('a \<Rightarrow> slice \<Rightarrow> slice \<Rightarrow> 'a) \<Rightarrow> 'a \<Rightarrow> (Status \<times> 'a) option" where
  "TableCache_Get tc options file_number file_size k saver arg = do {
     (s, table, _) \<leftarrow> FindTable tc file_number file_size;
     if Status_ok s then do { t \<leftarrow> table; InternalGet t (tc_blocks tc) options k saver arg }
     else Some (s, arg)
   }"

text \<open>What the cache holds after an insertion, and after \<open>Evict\<close>.\<close>

definition insert_table :: "slice \<times> Table \<Rightarrow> TableCache \<Rightarrow> TableCache" where
  "insert_table kt tc = tc\<lparr>tc_Lookup := (tc_Lookup tc)(fst kt := Some (snd kt))\<rparr>"

definition Evict :: "u64 \<Rightarrow> TableCache \<Rightarrow> TableCache" where
  "Evict file_number tc = tc\<lparr>tc_Lookup := (tc_Lookup tc)(EncodeFixed64 file_number := None)\<rparr>"

end
