(* ===== verification/LdbVersionEdit.thy ===== *)
theory LdbVersionEdit
  imports LdbLogging "HOL-Library.Product_Lexorder"
begin

text \<open>
  The changes of a database state that leveldb logs in its manifest (db/version_edit.h, db/version_edit.cc):
  the numbers that changed, and the table files that were added to and deleted from the levels.
\<close>

section \<open>The edit\<close>

definition kNumLevels :: nat where
  "kNumLevels = 7"

record FileMetaData =
  fm_refs :: int
  fm_allowed_seeks :: int
  fm_number :: u64
  fm_file_size :: u64
  fm_smallest :: InternalKey
  fm_largest :: InternalKey

text \<open>The constructor leaves the number as it is; every use assigns it.\<close>

definition new_FileMetaData :: FileMetaData where
  "new_FileMetaData = \<lparr>fm_refs = 0, fm_allowed_seeks = 2 ^ 30, fm_number = 0, fm_file_size = 0, fm_smallest = [], fm_largest = []\<rparr>"

record VersionEdit =
  ve_comparator :: slice
  ve_log_number :: u64
  ve_prev_log_number :: u64
  ve_next_file_number :: u64
  ve_last_sequence :: SequenceNumber
  ve_has_comparator :: bool
  ve_has_log_number :: bool
  ve_has_prev_log_number :: bool
  ve_has_next_file_number :: bool
  ve_has_last_sequence :: bool
  ve_compact_pointers :: "(int \<times> InternalKey) list"
  ve_deleted_files :: "(int \<times> u64) set"
  ve_new_files :: "(int \<times> FileMetaData) list"

text \<open>Clearing an edit leaves the compaction pointers.\<close>

definition ve_Clear :: "VersionEdit \<Rightarrow> VersionEdit" where
  "ve_Clear e =
     e\<lparr>ve_comparator := [], ve_log_number := 0, ve_prev_log_number := 0, ve_last_sequence := 0, ve_next_file_number := 0,
       ve_has_comparator := False, ve_has_log_number := False, ve_has_prev_log_number := False,
       ve_has_next_file_number := False, ve_has_last_sequence := False, ve_deleted_files := {}, ve_new_files := []\<rparr>"

definition new_VersionEdit :: VersionEdit where
  "new_VersionEdit =
     \<lparr>ve_comparator = [], ve_log_number = 0, ve_prev_log_number = 0, ve_next_file_number = 0, ve_last_sequence = 0,
      ve_has_comparator = False, ve_has_log_number = False, ve_has_prev_log_number = False, ve_has_next_file_number = False,
      ve_has_last_sequence = False, ve_compact_pointers = [], ve_deleted_files = {}, ve_new_files = []\<rparr>"

definition SetComparatorName :: "slice \<Rightarrow> VersionEdit \<Rightarrow> VersionEdit" where
  "SetComparatorName name e = e\<lparr>ve_has_comparator := True, ve_comparator := name\<rparr>"

definition SetLogNumber :: "u64 \<Rightarrow> VersionEdit \<Rightarrow> VersionEdit" where
  "SetLogNumber num e = e\<lparr>ve_has_log_number := True, ve_log_number := num\<rparr>"

definition SetPrevLogNumber :: "u64 \<Rightarrow> VersionEdit \<Rightarrow> VersionEdit" where
  "SetPrevLogNumber num e = e\<lparr>ve_has_prev_log_number := True, ve_prev_log_number := num\<rparr>"

definition SetNextFile :: "u64 \<Rightarrow> VersionEdit \<Rightarrow> VersionEdit" where
  "SetNextFile num e = e\<lparr>ve_has_next_file_number := True, ve_next_file_number := num\<rparr>"

definition SetLastSequence :: "SequenceNumber \<Rightarrow> VersionEdit \<Rightarrow> VersionEdit" where
  "SetLastSequence sq e = e\<lparr>ve_has_last_sequence := True, ve_last_sequence := sq\<rparr>"

definition SetCompactPointer :: "int \<Rightarrow> InternalKey \<Rightarrow> VersionEdit \<Rightarrow> VersionEdit" where
  "SetCompactPointer level key e = e\<lparr>ve_compact_pointers := ve_compact_pointers e @ [(level, key)]\<rparr>"

definition AddFile :: "int \<Rightarrow> u64 \<Rightarrow> u64 \<Rightarrow> InternalKey \<Rightarrow> InternalKey \<Rightarrow> VersionEdit \<Rightarrow> VersionEdit" where
  "AddFile level file_number file_size smallest largest e =
     e\<lparr>ve_new_files := ve_new_files e @ [(level, new_FileMetaData\<lparr>fm_number := file_number, fm_file_size := file_size,
       fm_smallest := smallest, fm_largest := largest\<rparr>)]\<rparr>"

definition DeleteFile :: "int \<Rightarrow> u64 \<Rightarrow> VersionEdit \<Rightarrow> VersionEdit" where
  "DeleteFile level file_number e = e\<lparr>ve_deleted_files := insert (level, file_number) (ve_deleted_files e)\<rparr>"

section \<open>Encoding\<close>

abbreviation (input) kComparator :: u32 where "kComparator \<equiv> 1"
abbreviation (input) kLogNumber :: u32 where "kLogNumber \<equiv> 2"
abbreviation (input) kNextFileNumber :: u32 where "kNextFileNumber \<equiv> 3"
abbreviation (input) kLastSequence :: u32 where "kLastSequence \<equiv> 4"
abbreviation (input) kCompactPointer :: u32 where "kCompactPointer \<equiv> 5"
abbreviation (input) kDeletedFile :: u32 where "kDeletedFile \<equiv> 6"
abbreviation (input) kNewFile :: u32 where "kNewFile \<equiv> 7"
abbreviation (input) kPrevLogNumber :: u32 where "kPrevLogNumber \<equiv> 9"

text \<open>A level is converted to an unsigned number; the key of a pointer or a file must not be empty.\<close>

fun put_pointer :: "slice \<Rightarrow> int \<times> InternalKey \<Rightarrow> slice option" where
  "put_pointer dst (level, key) = do {
     k \<leftarrow> InternalKey_Encode key;
     Some (PutLengthPrefixedSlice (PutVarint32 (PutVarint32 dst kCompactPointer) (word_of_int level)) k)
   }"

fun put_deleted :: "slice \<Rightarrow> int \<times> u64 \<Rightarrow> slice" where
  "put_deleted dst (level, number) = PutVarint64 (PutVarint32 (PutVarint32 dst kDeletedFile) (word_of_int level)) number"

fun put_file :: "slice \<Rightarrow> int \<times> FileMetaData \<Rightarrow> slice option" where
  "put_file dst (level, f) = do {
     let dst1 = PutVarint64 (PutVarint64 (PutVarint32 (PutVarint32 dst kNewFile) (word_of_int level)) (fm_number f)) (fm_file_size f);
     s \<leftarrow> InternalKey_Encode (fm_smallest f);
     l \<leftarrow> InternalKey_Encode (fm_largest f);
     Some (PutLengthPrefixedSlice (PutLengthPrefixedSlice dst1 s) l)
   }"

fun put_each :: "(slice \<Rightarrow> 'a \<Rightarrow> slice option) \<Rightarrow> slice \<Rightarrow> 'a list \<Rightarrow> slice option" where
  "put_each f dst [] = Some dst"
| "put_each f dst (x # xs) = do { dst1 \<leftarrow> f dst x; put_each f dst1 xs }"

definition ve_EncodeTo :: "VersionEdit \<Rightarrow> slice \<Rightarrow> slice option" where
  "ve_EncodeTo e dst = do {
     let d1 = (if ve_has_comparator e then PutLengthPrefixedSlice (PutVarint32 dst kComparator) (ve_comparator e) else dst);
     let d2 = (if ve_has_log_number e then PutVarint64 (PutVarint32 d1 kLogNumber) (ve_log_number e) else d1);
     let d3 = (if ve_has_prev_log_number e then PutVarint64 (PutVarint32 d2 kPrevLogNumber) (ve_prev_log_number e) else d2);
     let d4 = (if ve_has_next_file_number e then PutVarint64 (PutVarint32 d3 kNextFileNumber) (ve_next_file_number e) else d3);
     let d5 = (if ve_has_last_sequence e then PutVarint64 (PutVarint32 d4 kLastSequence) (ve_last_sequence e) else d4);
     d6 \<leftarrow> put_each put_pointer d5 (ve_compact_pointers e);
     let d7 = foldl put_deleted d6 (sorted_list_of_set (ve_deleted_files e));
     put_each put_file d7 (ve_new_files e)
   }"

section \<open>Decoding\<close>

text \<open>
  A reader gives a value and the rest of the input, or says that it has failed. The operator \<open>&&\<close> of the
  code goes on with the next reader only after success.
\<close>

type_synonym 'a reader = "slice \<Rightarrow> ('a \<times> slice) option option"

definition then_read :: "'a reader \<Rightarrow> ('a \<Rightarrow> 'b reader) \<Rightarrow> 'b reader" where
  "then_read r f input = do { x \<leftarrow> r input; case x of None \<Rightarrow> Some None | Some (v, rest) \<Rightarrow> f v rest }"

definition read_as :: "'a \<Rightarrow> 'a reader" where
  "read_as v input = Some (Some (v, input))"

definition GetInternalKey :: "InternalKey reader" where
  "GetInternalKey = GetLengthPrefixedSlice"

definition GetLevel :: "int reader" where
  "GetLevel input = do {
     x \<leftarrow> GetVarint32 input;
     case x of None \<Rightarrow> Some None
     | Some (v, rest) \<Rightarrow> if v < of_nat kNumLevels then Some (Some (uint v, rest)) else Some None
   }"

text \<open>One case of the switch: an edit of the object, or a message.\<close>

definition field_case :: "string \<Rightarrow> 'a reader \<Rightarrow> ('a \<Rightarrow> VersionEdit \<Rightarrow> VersionEdit) \<Rightarrow> VersionEdit \<Rightarrow> slice
    \<Rightarrow> (string option \<times> VersionEdit \<times> slice) option" where
  "field_case msg r f e input = do {
     x \<leftarrow> r input;
     Some (case x of None \<Rightarrow> (Some msg, e, input) | Some (v, rest) \<Rightarrow> (None, f v e, rest))
   }"

definition read_field :: "u32 \<Rightarrow> VersionEdit \<Rightarrow> slice \<Rightarrow> (string option \<times> VersionEdit \<times> slice) option" where
  "read_field tag e input =
     (if tag = kComparator then field_case ''comparator name'' GetLengthPrefixedSlice SetComparatorName e input
      else if tag = kLogNumber then field_case ''log number'' GetVarint64 SetLogNumber e input
      else if tag = kPrevLogNumber then field_case ''previous log number'' GetVarint64 SetPrevLogNumber e input
      else if tag = kNextFileNumber then field_case ''next file number'' GetVarint64 SetNextFile e input
      else if tag = kLastSequence then field_case ''last sequence number'' GetVarint64 SetLastSequence e input
      else if tag = kCompactPointer then
        field_case ''compaction pointer'' (then_read GetLevel (\<lambda>level. then_read GetInternalKey (\<lambda>key. read_as (level, key))))
          (\<lambda>(level, key). SetCompactPointer level key) e input
      else if tag = kDeletedFile then
        field_case ''deleted file'' (then_read GetLevel (\<lambda>level. then_read GetVarint64 (\<lambda>number. read_as (level, number))))
          (\<lambda>(level, number). DeleteFile level number) e input
      else if tag = kNewFile then
        field_case ''new-file entry''
          (then_read GetLevel (\<lambda>level. then_read GetVarint64 (\<lambda>number. then_read GetVarint64 (\<lambda>file_size.
             then_read GetInternalKey (\<lambda>smallest. then_read GetInternalKey (\<lambda>largest. read_as (level, number, file_size, smallest, largest)))))))
          (\<lambda>(level, number, file_size, smallest, largest). AddFile level number file_size smallest largest) e input
      else Some (Some ''unknown tag'', e, input))"

text \<open>The loop; every tag takes at least a byte, so that the length of the input is enough fuel.\<close>

fun read_fields :: "nat \<Rightarrow> VersionEdit \<Rightarrow> slice \<Rightarrow> (string option \<times> VersionEdit \<times> slice) option" where
  "read_fields 0 e input = None"
| "read_fields (Suc n) e input = do {
     t \<leftarrow> GetVarint32 input;
     case t of None \<Rightarrow> Some (None, e, input)
     | Some (tag, rest) \<Rightarrow> do {
         (msg, e1, rest1) \<leftarrow> read_field tag e rest;
         if msg = None then read_fields n e1 rest1 else Some (msg, e1, rest1)
       }
   }"

definition ve_DecodeFrom :: "slice \<Rightarrow> VersionEdit \<Rightarrow> (Status \<times> VersionEdit) option" where
  "ve_DecodeFrom src e = do {
     (msg, e1, input) \<leftarrow> read_fields (Suc (length src)) (ve_Clear e) src;
     let msg1 = (if msg = None \<and> input \<noteq> [] then Some ''invalid tag'' else msg);
     case msg1 of None \<Rightarrow> Some (Status_OK, e1)
     | Some m \<Rightarrow> do { st \<leftarrow> Status_Corruption (lit ''VersionEdit'') (lit m); Some (st, e1) }
   }"

text \<open>The text of an edit for debugging; the levels are printed as unsigned numbers.\<close>

fun pointer_text :: "int \<times> InternalKey \<Rightarrow> slice" where
  "pointer_text (level, key) = [10] @ lit ''  CompactPointer: '' @ NumberToString (word_of_int level) @ lit '' '' @ InternalKey_DebugString key"

fun deleted_text :: "int \<times> u64 \<Rightarrow> slice" where
  "deleted_text (level, number) = [10] @ lit ''  DeleteFile: '' @ NumberToString (word_of_int level) @ lit '' '' @ NumberToString number"

fun file_text :: "int \<times> FileMetaData \<Rightarrow> slice" where
  "file_text (level, f) = [10] @ lit ''  AddFile: '' @ NumberToString (word_of_int level) @ lit '' '' @ NumberToString (fm_number f)
     @ lit '' '' @ NumberToString (fm_file_size f) @ lit '' '' @ InternalKey_DebugString (fm_smallest f) @ lit '' .. '' @ InternalKey_DebugString (fm_largest f)"

definition ve_DebugString :: "VersionEdit \<Rightarrow> slice" where
  "ve_DebugString e =
     lit ''VersionEdit {''
     @ (if ve_has_comparator e then [10] @ lit ''  Comparator: '' @ ve_comparator e else [])
     @ (if ve_has_log_number e then [10] @ lit ''  LogNumber: '' @ NumberToString (ve_log_number e) else [])
     @ (if ve_has_prev_log_number e then [10] @ lit ''  PrevLogNumber: '' @ NumberToString (ve_prev_log_number e) else [])
     @ (if ve_has_next_file_number e then [10] @ lit ''  NextFile: '' @ NumberToString (ve_next_file_number e) else [])
     @ (if ve_has_last_sequence e then [10] @ lit ''  LastSeq: '' @ NumberToString (ve_last_sequence e) else [])
     @ concat (map pointer_text (ve_compact_pointers e)) @ concat (map deleted_text (sorted_list_of_set (ve_deleted_files e)))
     @ concat (map file_text (ve_new_files e)) @ [10] @ lit ''}'' @ [10]"

section \<open>What an edit keeps\<close>

definition level_ok :: "int \<Rightarrow> bool" where
  "level_ok level \<longleftrightarrow> 0 \<le> level \<and> level < int kNumLevels"

fun file_typed :: "int \<times> FileMetaData \<Rightarrow> bool" where
  "file_typed (level, f) \<longleftrightarrow> level_ok level \<and> length (fm_smallest f) < 2 ^ 32 \<and> length (fm_largest f) < 2 ^ 32
     \<and> fm_refs f = 0 \<and> fm_allowed_seeks f = 2 ^ 30"

definition edit_typed :: "VersionEdit \<Rightarrow> bool" where
  "edit_typed e \<longleftrightarrow> length (ve_comparator e) < 2 ^ 32
     \<and> (\<not> ve_has_comparator e \<longrightarrow> ve_comparator e = []) \<and> (\<not> ve_has_log_number e \<longrightarrow> ve_log_number e = 0)
     \<and> (\<not> ve_has_prev_log_number e \<longrightarrow> ve_prev_log_number e = 0) \<and> (\<not> ve_has_next_file_number e \<longrightarrow> ve_next_file_number e = 0)
     \<and> (\<not> ve_has_last_sequence e \<longrightarrow> ve_last_sequence e = 0)
     \<and> (\<forall>(level, key) \<in> set (ve_compact_pointers e). level_ok level \<and> length key < 2 ^ 32)
     \<and> finite (ve_deleted_files e) \<and> (\<forall>(level, _) \<in> ve_deleted_files e. level_ok level)
     \<and> (\<forall>f \<in> set (ve_new_files e). file_typed f)"

text \<open>An edit whose keys are not empty can be encoded.\<close>

definition edit_ok :: "VersionEdit \<Rightarrow> bool" where
  "edit_ok e \<longleftrightarrow> edit_typed e \<and> (\<forall>(_, key) \<in> set (ve_compact_pointers e). key \<noteq> [])
     \<and> (\<forall>(_, f) \<in> set (ve_new_files e). fm_smallest f \<noteq> [] \<and> fm_largest f \<noteq> [])"

lemma new_typed: "edit_typed new_VersionEdit"
  by (simp add: edit_typed_def new_VersionEdit_def)

lemma Clear_typed: "edit_typed e \<Longrightarrow> edit_typed (ve_Clear e)"
  by (simp add: edit_typed_def ve_Clear_def)

lemma setters_typed:
  "edit_typed e \<Longrightarrow> length name < 2 ^ 32 \<Longrightarrow> edit_typed (SetComparatorName name e)"
  "edit_typed e \<Longrightarrow> edit_typed (SetLogNumber num e)" "edit_typed e \<Longrightarrow> edit_typed (SetPrevLogNumber num e)"
  "edit_typed e \<Longrightarrow> edit_typed (SetNextFile num e)" "edit_typed e \<Longrightarrow> edit_typed (SetLastSequence sq e)"
  "edit_typed e \<Longrightarrow> level_ok level \<Longrightarrow> length key < 2 ^ 32 \<Longrightarrow> edit_typed (SetCompactPointer level key e)"
  "edit_typed e \<Longrightarrow> level_ok level \<Longrightarrow> edit_typed (DeleteFile level num e)"
  "edit_typed e \<Longrightarrow> level_ok level \<Longrightarrow> length smallest < 2 ^ 32 \<Longrightarrow> length largest < 2 ^ 32 \<Longrightarrow>
    edit_typed (AddFile level num size1 smallest largest e)"
  by (simp_all add: edit_typed_def SetComparatorName_def SetLogNumber_def SetPrevLogNumber_def SetNextFile_def SetLastSequence_def
      SetCompactPointer_def DeleteFile_def AddFile_def new_FileMetaData_def)

section \<open>Decoding always ends\<close>

text \<open>A reader that never reads behind its input and gives values of a kind.\<close>

definition reads_as :: "'a reader \<Rightarrow> ('a \<Rightarrow> bool) \<Rightarrow> bool" where
  "reads_as r P \<longleftrightarrow> (\<forall>input. \<exists>x. r input = Some x \<and> (case x of None \<Rightarrow> True | Some (v, rest) \<Rightarrow> P v \<and> length rest \<le> length input))"

lemma reads_asE: "reads_as r P \<Longrightarrow> (r input = Some None \<Longrightarrow> thesis) \<Longrightarrow>
    (\<And>v rest. r input = Some (Some (v, rest)) \<Longrightarrow> P v \<Longrightarrow> length rest \<le> length input \<Longrightarrow> thesis) \<Longrightarrow> thesis"
  unfolding reads_as_def by (fastforce split: option.splits)

lemma GetVarint32_reads: "GetVarint32 input = Some None \<or> (\<exists>v rest. GetVarint32 input = Some (Some (v, rest)) \<and> length rest < length input)"
proof -
  have g: "GetVarint32 input = Some (parsed input (parse_varint 0 0 input))" by (simp add: GetVarint32_def GetVarint32Ptr_parse)
  obtain r k where p: "parse_varint 0 (0 :: u32) input = (r, k)" by fastforce
  show ?thesis
  proof (cases r)
    case (Inr v)
    then show ?thesis using g p parse_varint_Inr [OF p [unfolded Inr]] by (auto simp: parsed_def)
  qed (simp add: g p parsed_def)
qed

lemma GetVarint64_reads: "reads_as GetVarint64 (\<lambda>_. True)"
proof -
  have "GetVarint64 input = Some (parsed input (parse_varint 0 0 input))" for input by (simp add: GetVarint64_def GetVarint64Ptr_parse)
  then show ?thesis by (auto simp: reads_as_def parsed_def split: sum.splits prod.splits)
qed

lemma GetLengthPrefixedSlice_reads: "reads_as GetLengthPrefixedSlice (\<lambda>v. length v < 2 ^ 32)"
  unfolding reads_as_def
proof
  fix input
  show "\<exists>x. GetLengthPrefixedSlice input = Some x \<and> (case x of None \<Rightarrow> True | Some (v, rest) \<Rightarrow> length v < 2 ^ 32 \<and> length rest \<le> length input)"
  proof (cases rule: GetLengthPrefixedSlice_cases [of input])
    case (2 k v rest)
    have "length v < 2 ^ 32" by (simp add: 2(6))
    moreover have "length (drop k input) = length v + length rest" by (simp add: 2(5))
    ultimately show ?thesis using 2(1) by simp
  qed simp
qed

lemma GetInternalKey_reads: "reads_as GetInternalKey (\<lambda>v. length v < 2 ^ 32)"
  unfolding GetInternalKey_def by (rule GetLengthPrefixedSlice_reads)

lemma GetLevel_reads: "reads_as GetLevel level_ok"
  unfolding reads_as_def
proof
  fix input
  show "\<exists>x. GetLevel input = Some x \<and> (case x of None \<Rightarrow> True | Some (v, rest) \<Rightarrow> level_ok v \<and> length rest \<le> length input)"
    using GetVarint32_reads [of input] by (auto simp: GetLevel_def level_ok_def kNumLevels_def word_less_def)
qed

lemma then_reads:
  assumes "reads_as r P" "\<And>v. P v \<Longrightarrow> reads_as (f v) Q"
  shows "reads_as (then_read r f) Q"
  unfolding reads_as_def
proof
  fix input
  show "\<exists>x. then_read r f input = Some x \<and> (case x of None \<Rightarrow> True | Some (v, rest) \<Rightarrow> Q v \<and> length rest \<le> length input)"
  proof (rule reads_asE [OF assms(1), of input])
    fix v rest assume v: "r input = Some (Some (v, rest))" "P v" "length rest \<le> length input"
    show ?thesis by (rule reads_asE [OF assms(2) [OF v(2)], of rest]) (use v in \<open>simp_all add: then_read_def\<close>)
  qed (simp add: then_read_def)
qed

lemma read_as_reads: "P v \<Longrightarrow> reads_as (read_as v) P"
  by (simp add: reads_as_def read_as_def)

definition keeps_typed :: "VersionEdit \<Rightarrow> slice \<Rightarrow> (string option \<times> VersionEdit \<times> slice) option \<Rightarrow> bool" where
  "keeps_typed e input r \<longleftrightarrow> (\<exists>msg e1 rest. r = Some (msg, e1, rest) \<and> length rest \<le> length input \<and> edit_typed e1
     \<and> (\<forall>m. msg = Some m \<longrightarrow> length m < 100))"

lemma field_case_typed:
  assumes "reads_as r P" "edit_typed e" "\<And>v. P v \<Longrightarrow> edit_typed (f v e)" "length msg < 100"
  shows "keeps_typed e input (field_case msg r f e input)"
  by (rule reads_asE [OF assms(1), of input]) (use assms(2-4) in \<open>simp_all add: keeps_typed_def field_case_def\<close>)

lemma keeps_if: "(b \<Longrightarrow> keeps_typed e input x) \<Longrightarrow> (\<not> b \<Longrightarrow> keeps_typed e input y) \<Longrightarrow> keeps_typed e input (if b then x else y)"
  by simp

lemma read_field_typed: "edit_typed e \<Longrightarrow> keeps_typed e input (read_field tag e input)"
proof -
  assume e: "edit_typed e"
  note rd = then_reads [OF GetLevel_reads] then_reads [OF GetVarint64_reads] then_reads [OF GetInternalKey_reads]
  have p: "reads_as (then_read GetLevel (\<lambda>level. then_read GetInternalKey (\<lambda>key. read_as (level, key)))) (\<lambda>(l, k). level_ok l \<and> length k < 2 ^ 32)"
    by (intro rd read_as_reads) simp
  have d: "reads_as (then_read GetLevel (\<lambda>level. then_read GetVarint64 (\<lambda>number. read_as (level, number)))) (\<lambda>(l, n). level_ok l)"
    by (intro rd read_as_reads) simp
  have n: "reads_as (then_read GetLevel (\<lambda>level. then_read GetVarint64 (\<lambda>number. then_read GetVarint64 (\<lambda>file_size.
             then_read GetInternalKey (\<lambda>smallest. then_read GetInternalKey (\<lambda>largest. read_as (level, number, file_size, smallest, largest)))))))
      (\<lambda>(l, _, _, s, g). level_ok l \<and> length s < 2 ^ 32 \<and> length g < 2 ^ 32)"
    by (intro rd read_as_reads) simp
  have nums: "keeps_typed e input (field_case msg GetVarint64 f e input)"
    if "\<And>v. edit_typed (f v e)" "length msg < 100" for msg f using field_case_typed [OF GetVarint64_reads e, of f msg] that by simp
  have c: "keeps_typed e input (field_case ''comparator name'' GetLengthPrefixedSlice SetComparatorName e input)"
    by (rule field_case_typed [OF GetLengthPrefixedSlice_reads e]) (simp_all add: setters_typed e)
  note cases = c nums [of SetLogNumber "''log number''"] nums [of SetPrevLogNumber "''previous log number''"]
    nums [of SetNextFile "''next file number''"] nums [of SetLastSequence "''last sequence number''"]
    field_case_typed [OF p e, of "\<lambda>(level, key). SetCompactPointer level key" "''compaction pointer''"]
    field_case_typed [OF d e, of "\<lambda>(level, number). DeleteFile level number" "''deleted file''"]
    field_case_typed [OF n e, of "\<lambda>(level, number, file_size, smallest, largest). AddFile level number file_size smallest largest" "''new-file entry''"]
  have u: "keeps_typed e input (Some (Some ''unknown tag'', e, input))" using e by (simp add: keeps_typed_def)
  show ?thesis unfolding read_field_def by (intro keeps_if cases u) (auto simp: setters_typed e)
qed

lemma read_fields_typed: "edit_typed e \<Longrightarrow> length input < n \<Longrightarrow> keeps_typed e input (read_fields n e input)"
proof (induction n arbitrary: e input)
  case (Suc n)
  show ?case
  proof (rule disjE [OF GetVarint32_reads [of input]])
    assume "GetVarint32 input = Some None"
    then show ?thesis using Suc.prems(1) by (simp add: keeps_typed_def)
  next
    assume "\<exists>v rest. GetVarint32 input = Some (Some (v, rest)) \<and> length rest < length input"
    then obtain tag rest where t: "GetVarint32 input = Some (Some (tag, rest))" "length rest < length input" by blast
    obtain msg e1 rest1 where f: "read_field tag e rest = Some (msg, e1, rest1)" "length rest1 \<le> length rest" "edit_typed e1" "\<forall>m. msg = Some m \<longrightarrow> length m < 100"
      using read_field_typed [OF Suc.prems(1), of rest tag] by (auto simp: keeps_typed_def)
    have "keeps_typed e1 rest1 (read_fields n e1 rest1)" by (rule Suc.IH [OF f(3)]) (use f(2) t(2) Suc.prems(2) in simp)
    then show ?thesis using t f by (cases msg) (auto simp: keeps_typed_def)
  qed
qed simp

lemma decode_typed:
  assumes "edit_typed e"
  shows "\<exists>st e1. ve_DecodeFrom src e = Some (st, e1) \<and> edit_typed e1 \<and> (Status_ok st \<or> IsCorruption st = Some True)"
proof -
  obtain msg e1 rest where r: "read_fields (Suc (length src)) (ve_Clear e) src = Some (msg, e1, rest)" "edit_typed e1" "\<forall>m. msg = Some m \<longrightarrow> length m < 100"
    using read_fields_typed [OF Clear_typed [OF assms], of src "Suc (length src)"] by (auto simp: keeps_typed_def)
  let ?m = "if msg = None \<and> rest \<noteq> [] then Some ''invalid tag'' else msg"
  show ?thesis
  proof (cases ?m)
    case None
    then show ?thesis using r(1,2) by (simp add: ve_DecodeFrom_def Status_ok_def Status_OK_def)
  next
    case (Some m)
    then have "length m < 100" using r(3) by (auto split: if_splits)
    then have st: "Status_Corruption (lit ''VersionEdit'') (lit m)
        = Some (Some (EncodeFixed32 (of_nat (length (message_text (lit ''VersionEdit'') (lit m)))) @ kCorruption # message_text (lit ''VersionEdit'') (lit m)))"
      unfolding Status_Corruption_def by (intro new_Status_fits) simp_all
    show ?thesis using r(1,2) Some st by (simp add: ve_DecodeFrom_def IsCorruption_def Status_code_def EncodeFixed32_parts(2) del: lit_def)
  qed
qed

text \<open>
  C38: Decoding an edit is total and typed. Whatever bytes the manifest holds, decoding ends without a failed
  assertion, with success or a corruption; the levels it leaves in the edit are levels of the database, which the
  code uses as array indices, the keys and names have lengths that can be encoded again, and members that are
  absent have their default. A new edit is of this form. The setters of numbers keep it for any number; those that
  take a level, a name or a key check nothing, and keep it for a level of the database and for a length below 4 GB.
\<close>

theorem version_edit_decode_typed:
  assumes "edit_typed e"
  shows "(\<exists>st e1. ve_DecodeFrom src e = Some (st, e1) \<and> edit_typed e1 \<and> (Status_ok st \<or> IsCorruption st = Some True)) \<and>
    edit_typed new_VersionEdit \<and> edit_typed (SetLogNumber num e) \<and> edit_typed (SetPrevLogNumber num e) \<and>
    edit_typed (SetNextFile num e) \<and> edit_typed (SetLastSequence sq e) \<and>
    (length name < 2 ^ 32 \<longrightarrow> edit_typed (SetComparatorName name e)) \<and>
    (level_ok level \<longrightarrow> edit_typed (DeleteFile level num e) \<and>
       (length key < 2 ^ 32 \<longrightarrow> edit_typed (SetCompactPointer level key e)) \<and>
       (length smallest < 2 ^ 32 \<and> length largest < 2 ^ 32 \<longrightarrow> edit_typed (AddFile level num file_size smallest largest e)))"
  using decode_typed [OF assms] new_typed setters_typed [OF assms] by blast

text \<open>A file on level seven is refused.\<close>

theorem version_edit_decode_typed_witness:
  "(\<exists>st e1. ve_DecodeFrom [6, 7, 1] new_VersionEdit = Some (st, e1) \<and> edit_typed e1 \<and> \<not> Status_ok st) \<and>
    edit_typed (DeleteFile 6 4 new_VersionEdit) \<and> edit_typed (AddFile 6 5 100 [1] [2] new_VersionEdit)"
proof -
  have "map_option (\<lambda>(st, e). Status_ok st) (ve_DecodeFrom [6, 7, 1] new_VersionEdit) = Some False" by code_simp
  moreover have "level_ok 6" by (simp add: level_ok_def kNumLevels_def)
  ultimately show ?thesis using version_edit_decode_typed [OF new_typed, of "[6, 7, 1]" _ _ _ 6 "[]" "[1]" "[2]"] by auto
qed

section \<open>What is encoded is decoded\<close>

text \<open>The bytes are read to the end, and they change the edit.\<close>

definition reads_to :: "VersionEdit \<Rightarrow> slice \<Rightarrow> VersionEdit \<Rightarrow> bool" where
  "reads_to e input e1 \<longleftrightarrow> (\<forall>n. length input < n \<longrightarrow> read_fields n e input = Some (None, e1, []))"

lemma GetVarint32_Put: "GetVarint32 (EncodeVarint32 v @ rest) = Some (Some (v, rest))"
  unfolding GetVarint32_def by (rule GetVarint32Ptr_Encode) simp

lemma reads_end: "reads_to e [] e"
  unfolding reads_to_def
proof (intro allI impI)
  fix n :: nat
  assume "length ([] :: slice) < n"
  then obtain m where "n = Suc m" by (cases n) auto
  then show "read_fields n e [] = Some (None, e, [])" using GetVarint32_reads [of "[]"] by auto
qed

lemma reads_field:
  assumes f: "read_field tag e (payload @ rest) = Some (None, e1, rest)" and r: "reads_to e1 rest e2"
  shows "reads_to e (EncodeVarint32 tag @ payload @ rest) e2"
  unfolding reads_to_def
proof (intro allI impI)
  fix n
  assume n: "length (EncodeVarint32 tag @ payload @ rest) < n"
  then obtain m where m: "n = Suc m" by (cases n) auto
  have "0 < length (EncodeVarint32 tag)" by (simp add: EncodeVarint32_loop)
  moreover have "length (EncodeVarint32 tag) + (length payload + length rest) < Suc m" using n m by simp
  ultimately have "length rest < m" by linarith
  then show "read_fields n e (EncodeVarint32 tag @ payload @ rest) = Some (None, e2, [])"
    using f r m GetVarint32_Put [of tag "payload @ rest"] by (simp add: reads_to_def)
qed

abbreviation (input) level_bytes :: "int \<Rightarrow> byte list" where
  "level_bytes level \<equiv> EncodeVarint32 (word_of_int level)"

abbreviation (input) slice_bytes :: "slice \<Rightarrow> byte list" where
  "slice_bytes k \<equiv> PutLengthPrefixedSlice [] k"

lemma GetLevel_Put: "level_ok level \<Longrightarrow> GetLevel (level_bytes level @ rest) = Some (Some (level, rest))"
proof -
  assume l: "level_ok level"
  then have "uint (word_of_int level :: u32) = level" by (simp add: level_ok_def kNumLevels_def unsigned_of_int take_bit_int_eq_self)
  then show ?thesis using l by (simp add: GetLevel_def GetVarint32_Put word_less_def level_ok_def kNumLevels_def)
qed

fun pointer_bytes :: "int \<times> InternalKey \<Rightarrow> byte list" where
  "pointer_bytes (level, key) = EncodeVarint32 kCompactPointer @ level_bytes level @ slice_bytes key"

fun deleted_bytes :: "int \<times> u64 \<Rightarrow> byte list" where
  "deleted_bytes (level, number) = EncodeVarint32 kDeletedFile @ level_bytes level @ EncodeVarint64 number"

fun file_bytes :: "int \<times> FileMetaData \<Rightarrow> byte list" where
  "file_bytes (level, f) = EncodeVarint32 kNewFile @ level_bytes level @ EncodeVarint64 (fm_number f) @ EncodeVarint64 (fm_file_size f)
     @ slice_bytes (fm_smallest f) @ slice_bytes (fm_largest f)"

lemma put_each_bytes:
  assumes "\<And>x dst. x \<in> set xs \<Longrightarrow> f dst x = Some (dst @ g x)"
  shows "put_each f dst xs = Some (dst @ concat (map g xs))"
  using assms by (induction xs arbitrary: dst) simp_all

lemma put_pointers: "\<forall>(_, key) \<in> set ps. key \<noteq> [] \<Longrightarrow> put_each put_pointer dst ps = Some (dst @ concat (map pointer_bytes ps))"
  by (rule put_each_bytes) (auto simp: InternalKey_Encode_def PutVarint32_def PutLengthPrefixedSlice_append [of "dst @ _" for dst])

lemma put_files: "\<forall>(_, f) \<in> set fs. fm_smallest f \<noteq> [] \<and> fm_largest f \<noteq> [] \<Longrightarrow> put_each put_file dst fs = Some (dst @ concat (map file_bytes fs))"
  by (rule put_each_bytes)
    (auto simp: InternalKey_Encode_def PutVarint32_def PutVarint64_def PutLengthPrefixedSlice_append [of "dst @ _" for dst])

lemma put_deleted_all: "foldl put_deleted dst ds = dst @ concat (map deleted_bytes ds)"
  by (induction ds arbitrary: dst) (auto simp: PutVarint32_def PutVarint64_def)

lemma reads_pointer:
  assumes "level_ok level" "length key < 2 ^ 32" "reads_to (SetCompactPointer level key e) rest e1"
  shows "reads_to e (pointer_bytes (level, key) @ rest) e1"
proof -
  have "read_field kCompactPointer e ((level_bytes level @ slice_bytes key) @ rest) = Some (None, SetCompactPointer level key e, rest)"
    using assms(1,2) by (simp add: read_field_def field_case_def then_read_def read_as_def GetLevel_Put GetInternalKey_def GetLengthPrefixedSlice_Put)
  from reads_field [OF this assms(3)] show ?thesis by simp
qed

lemma reads_deleted:
  assumes "level_ok level" "reads_to (DeleteFile level number e) rest e1"
  shows "reads_to e (deleted_bytes (level, number) @ rest) e1"
proof -
  have "read_field kDeletedFile e ((level_bytes level @ EncodeVarint64 number) @ rest) = Some (None, DeleteFile level number e, rest)"
    using assms(1) by (simp add: read_field_def field_case_def then_read_def read_as_def GetLevel_Put GetVarint64_Put)
  from reads_field [OF this assms(2)] show ?thesis by simp
qed

lemma reads_file:
  assumes "file_typed (level, f)" "reads_to (e\<lparr>ve_new_files := ve_new_files e @ [(level, f)]\<rparr>) rest e1"
  shows "reads_to e (file_bytes (level, f) @ rest) e1"
proof -
  have "AddFile level (fm_number f) (fm_file_size f) (fm_smallest f) (fm_largest f) e = e\<lparr>ve_new_files := ve_new_files e @ [(level, f)]\<rparr>"
    using assms(1) by (cases f) (simp add: AddFile_def new_FileMetaData_def)
  then have "read_field kNewFile e ((level_bytes level @ EncodeVarint64 (fm_number f) @ EncodeVarint64 (fm_file_size f)
      @ slice_bytes (fm_smallest f) @ slice_bytes (fm_largest f)) @ rest) = Some (None, e\<lparr>ve_new_files := ve_new_files e @ [(level, f)]\<rparr>, rest)"
    using assms(1) by (simp add: read_field_def field_case_def then_read_def read_as_def GetLevel_Put GetVarint64_Put GetInternalKey_def GetLengthPrefixedSlice_Put)
  from reads_field [OF this assms(2)] show ?thesis by simp
qed

lemma reads_pointers:
  "\<forall>(level, key) \<in> set ps. level_ok level \<and> length key < 2 ^ 32 \<Longrightarrow>
   reads_to (e\<lparr>ve_compact_pointers := ve_compact_pointers e @ ps\<rparr>) rest e1 \<Longrightarrow> reads_to e (concat (map pointer_bytes ps) @ rest) e1"
proof (induction ps arbitrary: e)
  case (Cons p ps)
  obtain level key where p: "p = (level, key)" by (cases p)
  have "reads_to (SetCompactPointer level key e) (concat (map pointer_bytes ps) @ rest) e1"
    by (rule Cons.IH) (use Cons.prems p in \<open>auto simp: SetCompactPointer_def\<close>)
  then show ?case using reads_pointer [of level key e] Cons.prems(1) p by (simp del: pointer_bytes.simps)
qed simp

lemma reads_deleted_all:
  "\<forall>(level, _) \<in> set ds. level_ok level \<Longrightarrow> reads_to (e\<lparr>ve_deleted_files := ve_deleted_files e \<union> set ds\<rparr>) rest e1 \<Longrightarrow>
   reads_to e (concat (map deleted_bytes ds) @ rest) e1"
proof (induction ds arbitrary: e)
  case (Cons d ds)
  obtain level number where d: "d = (level, number)" by (cases d)
  have "reads_to (DeleteFile level number e) (concat (map deleted_bytes ds) @ rest) e1"
    by (rule Cons.IH) (use Cons.prems d in \<open>auto simp: DeleteFile_def\<close>)
  then show ?case using reads_deleted [of level number e] Cons.prems(1) d by (simp del: deleted_bytes.simps)
qed simp

lemma reads_files:
  "\<forall>f \<in> set fs. file_typed f \<Longrightarrow> reads_to (e\<lparr>ve_new_files := ve_new_files e @ fs\<rparr>) rest e1 \<Longrightarrow>
   reads_to e (concat (map file_bytes fs) @ rest) e1"
proof (induction fs arbitrary: e)
  case (Cons x fs)
  obtain level f where x: "x = (level, f)" by (cases x)
  have "reads_to (e\<lparr>ve_new_files := ve_new_files e @ [(level, f)]\<rparr>) (concat (map file_bytes fs) @ rest) e1"
    by (rule Cons.IH) (use Cons.prems x in auto)
  then show ?case using reads_file [of level f e] Cons.prems(1) x by (simp del: file_bytes.simps)
qed simp

text \<open>The five single members.\<close>

lemma reads_single:
  "length name < 2 ^ 32 \<Longrightarrow> reads_to (SetComparatorName name e) rest e1 \<Longrightarrow> reads_to e (EncodeVarint32 kComparator @ slice_bytes name @ rest) e1"
  "reads_to (SetLogNumber num e) rest e1 \<Longrightarrow> reads_to e (EncodeVarint32 kLogNumber @ EncodeVarint64 num @ rest) e1"
  "reads_to (SetPrevLogNumber num e) rest e1 \<Longrightarrow> reads_to e (EncodeVarint32 kPrevLogNumber @ EncodeVarint64 num @ rest) e1"
  "reads_to (SetNextFile num e) rest e1 \<Longrightarrow> reads_to e (EncodeVarint32 kNextFileNumber @ EncodeVarint64 num @ rest) e1"
  "reads_to (SetLastSequence num e) rest e1 \<Longrightarrow> reads_to e (EncodeVarint32 kLastSequence @ EncodeVarint64 num @ rest) e1"
  by (rule reads_field; simp add: read_field_def field_case_def GetVarint64_Put GetLengthPrefixedSlice_Put)+

definition single_bytes :: "VersionEdit \<Rightarrow> byte list" where
  "single_bytes e =
     (if ve_has_comparator e then EncodeVarint32 kComparator @ slice_bytes (ve_comparator e) else [])
     @ (if ve_has_log_number e then EncodeVarint32 kLogNumber @ EncodeVarint64 (ve_log_number e) else [])
     @ (if ve_has_prev_log_number e then EncodeVarint32 kPrevLogNumber @ EncodeVarint64 (ve_prev_log_number e) else [])
     @ (if ve_has_next_file_number e then EncodeVarint32 kNextFileNumber @ EncodeVarint64 (ve_next_file_number e) else [])
     @ (if ve_has_last_sequence e then EncodeVarint32 kLastSequence @ EncodeVarint64 (ve_last_sequence e) else [])"

definition set_singles :: "VersionEdit \<Rightarrow> VersionEdit \<Rightarrow> VersionEdit" where
  "set_singles e e0 =
     (let e1 = (if ve_has_comparator e then SetComparatorName (ve_comparator e) e0 else e0);
          e2 = (if ve_has_log_number e then SetLogNumber (ve_log_number e) e1 else e1);
          e3 = (if ve_has_prev_log_number e then SetPrevLogNumber (ve_prev_log_number e) e2 else e2);
          e4 = (if ve_has_next_file_number e then SetNextFile (ve_next_file_number e) e3 else e3)
      in if ve_has_last_sequence e then SetLastSequence (ve_last_sequence e) e4 else e4)"

lemma reads_singles: "length (ve_comparator e) < 2 ^ 32 \<Longrightarrow> reads_to (set_singles e e0) rest e1 \<Longrightarrow> reads_to e0 (single_bytes e @ rest) e1"
proof -
  assume c: "length (ve_comparator e) < 2 ^ 32" and r: "reads_to (set_singles e e0) rest e1"
  have opt: "reads_to x ((if b then t @ p else []) @ y) e1"
    if "reads_to (if b then f x else x) y e1" "b \<Longrightarrow> reads_to (f x) y e1 \<Longrightarrow> reads_to x (t @ p @ y) e1" for b f x y t p
    using that by (cases b) simp_all
  show ?thesis unfolding single_bytes_def append_assoc
    by (rule opt [where f = "SetComparatorName (ve_comparator e)"], rule opt [where f = "SetLogNumber (ve_log_number e)"],
        rule opt [where f = "SetPrevLogNumber (ve_prev_log_number e)"], rule opt [where f = "SetNextFile (ve_next_file_number e)"],
        rule opt [where f = "SetLastSequence (ve_last_sequence e)"], rule r [unfolded set_singles_def Let_def])
      (use c in \<open>auto intro: reads_single\<close>)
qed

lemma encoded:
  assumes "edit_ok e"
  shows "ve_EncodeTo e dst = Some (dst @ single_bytes e @ concat (map pointer_bytes (ve_compact_pointers e))
    @ concat (map deleted_bytes (sorted_list_of_set (ve_deleted_files e))) @ concat (map file_bytes (ve_new_files e)))"
proof -
  have p: "put_each put_pointer d (ve_compact_pointers e) = Some (d @ concat (map pointer_bytes (ve_compact_pointers e)))"
    "put_each put_file d (ve_new_files e) = Some (d @ concat (map file_bytes (ve_new_files e)))" for d
    using assms put_pointers [of "ve_compact_pointers e" d] put_files [of "ve_new_files e" d] by (simp_all add: edit_ok_def)
  show ?thesis
    by (simp add: ve_EncodeTo_def Let_def p put_deleted_all single_bytes_def PutVarint32_def PutVarint64_def PutLengthPrefixedSlice_append [of "dst @ _" for dst])
qed

lemma decoded:
  assumes e: "edit_typed e"
  shows "set_singles e (ve_Clear e0)\<lparr>ve_compact_pointers := ve_compact_pointers e0 @ ve_compact_pointers e,
      ve_deleted_files := ve_deleted_files e, ve_new_files := ve_new_files e\<rparr>
    = e\<lparr>ve_compact_pointers := ve_compact_pointers e0 @ ve_compact_pointers e\<rparr>"
  using e by (cases e) (auto simp: edit_typed_def set_singles_def ve_Clear_def Let_def SetComparatorName_def SetLogNumber_def SetPrevLogNumber_def
      SetNextFile_def SetLastSequence_def intro: VersionEdit.equality)

text \<open>
  C9: An edit is decoded to what was encoded. The numbers, the name, the deleted and the new files and the
  compaction pointers of an edit with levels of the database and keys that are not empty are read back;
  decoding into an edit that was used before keeps its old compaction pointers in front.
\<close>

theorem version_edit_roundtrip:
  assumes "edit_ok e"
  shows "\<exists>bytes. ve_EncodeTo e [] = Some bytes \<and>
    ve_DecodeFrom bytes e0 = Some (Status_OK, e\<lparr>ve_compact_pointers := ve_compact_pointers e0 @ ve_compact_pointers e\<rparr>)"
proof -
  have e: "edit_typed e" using assms by (simp add: edit_ok_def)
  let ?p = "ve_compact_pointers e" and ?d = "sorted_list_of_set (ve_deleted_files e)" and ?f = "ve_new_files e"
  let ?e1 = "set_singles e (ve_Clear e0)"
  let ?bytes = "single_bytes e @ concat (map pointer_bytes ?p) @ concat (map deleted_bytes ?d) @ concat (map file_bytes ?f)"
  let ?goal = "e\<lparr>ve_compact_pointers := ve_compact_pointers e0 @ ?p\<rparr>"
  have fin: "set ?d = ve_deleted_files e" using e by (simp add: edit_typed_def)
  have parts: "ve_compact_pointers ?e1 = ve_compact_pointers e0" "ve_deleted_files ?e1 = {}" "ve_new_files ?e1 = []"
    by (simp_all add: set_singles_def Let_def ve_Clear_def SetComparatorName_def SetLogNumber_def SetPrevLogNumber_def SetNextFile_def SetLastSequence_def)
  have "reads_to (ve_Clear e0) ?bytes ?goal"
  proof (rule reads_singles)
    show "length (ve_comparator e) < 2 ^ 32" using e by (simp add: edit_typed_def)
    show "reads_to ?e1 (concat (map pointer_bytes ?p) @ concat (map deleted_bytes ?d) @ concat (map file_bytes ?f)) ?goal"
    proof (intro reads_pointers reads_deleted_all)
      show "\<forall>(level, key) \<in> set ?p. level_ok level \<and> length key < 2 ^ 32" using e by (simp add: edit_typed_def)
      show "\<forall>(level, _) \<in> set ?d. level_ok level" using e unfolding fin by (simp add: edit_typed_def)
      let ?e2 = "?e1\<lparr>ve_compact_pointers := ve_compact_pointers ?e1 @ ?p\<rparr>"
      let ?e3 = "?e2\<lparr>ve_deleted_files := ve_deleted_files ?e2 \<union> set ?d\<rparr>"
      have end_eq: "?e3\<lparr>ve_new_files := ve_new_files ?e3 @ ?f\<rparr> = ?goal" using decoded [OF e, of e0] by (simp add: parts fin)
      have "reads_to ?e3 (concat (map file_bytes ?f) @ []) ?goal"
      proof (rule reads_files)
        show "\<forall>f \<in> set ?f. file_typed f" using e by (simp add: edit_typed_def)
        show "reads_to (?e3\<lparr>ve_new_files := ve_new_files ?e3 @ ?f\<rparr>) [] ?goal" unfolding end_eq by (rule reads_end)
      qed
      then show "reads_to ?e3 (concat (map file_bytes ?f)) ?goal" by (simp only: append_Nil2)
    qed
  qed
  then have "read_fields (Suc (length ?bytes)) (ve_Clear e0) ?bytes = Some (None, ?goal, [])" by (simp only: reads_to_def lessI)
  then have "ve_DecodeFrom ?bytes e0 = Some (Status_OK, ?goal)" by (simp add: ve_DecodeFrom_def del: read_fields.simps)
  then show ?thesis using encoded [OF assms, of "[]"] by simp
qed

text \<open>A file on level one, with one that it replaces.\<close>

theorem version_edit_roundtrip_witness:
  "\<exists>bytes. ve_EncodeTo (DeleteFile 1 4 (AddFile 1 5 100 [1] [2] (SetLogNumber 3 new_VersionEdit))) [] = Some bytes \<and>
    ve_DecodeFrom bytes new_VersionEdit = Some (Status_OK, DeleteFile 1 4 (AddFile 1 5 100 [1] [2] (SetLogNumber 3 new_VersionEdit)))"
proof -
  let ?e = "DeleteFile 1 4 (AddFile 1 5 100 [1] [2] (SetLogNumber 3 new_VersionEdit))"
  have "edit_typed ?e" by (intro setters_typed new_typed) (simp_all add: level_ok_def kNumLevels_def)
  then have "edit_ok ?e" by (simp add: edit_ok_def DeleteFile_def AddFile_def SetLogNumber_def new_VersionEdit_def new_FileMetaData_def)
  moreover have "?e\<lparr>ve_compact_pointers := ve_compact_pointers new_VersionEdit @ ve_compact_pointers ?e\<rparr> = ?e"
    by (simp add: DeleteFile_def AddFile_def SetLogNumber_def new_VersionEdit_def)
  ultimately show ?thesis using version_edit_roundtrip [of ?e new_VersionEdit] by simp
qed

end
