(* ===== verification/LdbVersion.thy ===== *)
theory LdbVersion
  imports LdbTableCache LdbVersionEdit
begin

text \<open>
  A version of the database (class Version of db/version_set.h and db/version_set.cc): the table files of every level. The files of level 0
  may overlap; those of a deeper level are sorted and disjoint. A file is the record of its members; the
  counters of references and of allowed seeks, which versions share, are not modelled.
\<close>

section \<open>Sizes\<close>

text \<open>The conversion to \<open>int\<close> keeps 32 bits; an \<open>int\<close> that overflows is undefined.\<close>

definition int_result :: "int \<Rightarrow> int option" where
  "int_result x = (if - (2 ^ 31) \<le> x \<and> x < 2 ^ 31 then Some x else None)"

definition TargetFileSize :: "Options \<Rightarrow> int" where
  "TargetFileSize opts = sint (ucast (max_file_size opts) :: 32 word)"

definition MaxGrandParentOverlapBytes :: "Options \<Rightarrow> int option" where
  "MaxGrandParentOverlapBytes opts = int_result (10 * TargetFileSize opts)"

definition ExpandedCompactionByteSizeLimit :: "Options \<Rightarrow> int option" where
  "ExpandedCompactionByteSizeLimit opts = int_result (25 * TargetFileSize opts)"

definition MaxFileSizeForLevel :: "Options \<Rightarrow> int \<Rightarrow> u64" where
  "MaxFileSizeForLevel opts level = of_int (TargetFileSize opts)"

text \<open>The sum is added up in 64 bits and read as a signed number.\<close>

definition TotalFileSize :: "FileMetaData list \<Rightarrow> int" where
  "TotalFileSize files = sint (foldl (\<lambda>sum f. sum + fm_file_size f) (0 :: u64) files)"

section \<open>Searching the files of a level\<close>

text \<open>The comparator of internal keys is given by the user's comparator \<open>c\<close>.\<close>

function FindFile_loop :: "Comparator \<Rightarrow> FileMetaData list \<Rightarrow> slice \<Rightarrow> nat \<Rightarrow> nat \<Rightarrow> nat option" where
  "FindFile_loop c files key left right =
     (if left < right then do {
        let mid = (left + right) div 2;
        largest \<leftarrow> InternalKey_Encode (fm_largest (files ! mid));
        r \<leftarrow> internal_Compare c largest key;
        if r < 0 then FindFile_loop c files key (mid + 1) right else FindFile_loop c files key left mid
      }
      else Some right)"
  by pat_completeness auto
termination by (relation "measure (\<lambda>(_, _, _, left, right). right - left)") auto

declare FindFile_loop.simps [simp del]

definition FindFile :: "Comparator \<Rightarrow> FileMetaData list \<Rightarrow> slice \<Rightarrow> nat option" where
  "FindFile c files key = FindFile_loop c files key 0 (length files)"

definition AfterFile :: "Comparator \<Rightarrow> slice option \<Rightarrow> FileMetaData \<Rightarrow> bool option" where
  "AfterFile c ukey f =
     (case ukey of None \<Rightarrow> Some False
      | Some u \<Rightarrow> do { largest \<leftarrow> ExtractUserKey (fm_largest f); r \<leftarrow> Compare c u largest; Some (r > 0) })"

definition BeforeFile :: "Comparator \<Rightarrow> slice option \<Rightarrow> FileMetaData \<Rightarrow> bool option" where
  "BeforeFile c ukey f =
     (case ukey of None \<Rightarrow> Some False
      | Some u \<Rightarrow> do { smallest \<leftarrow> ExtractUserKey (fm_smallest f); r \<leftarrow> Compare c u smallest; Some (r < 0) })"

text \<open>The loop over files that are not sorted. A second test is only made when the first fails.\<close>

fun check_all_files :: "Comparator \<Rightarrow> FileMetaData list \<Rightarrow> slice option \<Rightarrow> slice option \<Rightarrow> bool option" where
  "check_all_files c [] smallest largest = Some False"
| "check_all_files c (f # fs) smallest largest = do {
     after \<leftarrow> AfterFile c smallest f;
     outside \<leftarrow> (if after then Some True else BeforeFile c largest f);
     if outside then check_all_files c fs smallest largest else Some True
   }"

definition SomeFileOverlapsRange :: "Comparator \<Rightarrow> bool \<Rightarrow> FileMetaData list \<Rightarrow> slice option \<Rightarrow> slice option \<Rightarrow> bool option" where
  "SomeFileOverlapsRange c disjoint_sorted_files files smallest_user_key largest_user_key =
     (if \<not> disjoint_sorted_files then check_all_files c files smallest_user_key largest_user_key
      else do {
        index \<leftarrow>
          (case smallest_user_key of None \<Rightarrow> Some 0
           | Some u \<Rightarrow> do {
               small \<leftarrow> new_InternalKey u kMaxSequenceNumber kValueTypeForSeek;
               target \<leftarrow> InternalKey_Encode small;
               FindFile c files target
             });
        if index \<ge> length files then Some False
        else do { before \<leftarrow> BeforeFile c largest_user_key (files ! index); Some (\<not> before) }
      })"

section \<open>Versions\<close>

record Version =
  v_files :: "nat \<Rightarrow> FileMetaData list"

definition new_Version :: Version where
  "new_Version = \<lparr>v_files = (\<lambda>_. [])\<rparr>"

definition NumFiles :: "Version \<Rightarrow> nat \<Rightarrow> nat" where
  "NumFiles v level = length (v_files v level)"

definition OverlapInLevel :: "Comparator \<Rightarrow> Version \<Rightarrow> nat \<Rightarrow> slice option \<Rightarrow> slice option \<Rightarrow> bool option" where
  "OverlapInLevel c v level smallest_user_key largest_user_key =
     SomeFileOverlapsRange c (level > 0) (v_files v level) smallest_user_key largest_user_key"

text \<open>
  The loop of \<open>GetOverlappingInputs\<close>: \<open>fs\<close> are the files from index \<open>i\<close> on. In level 0 a file that is
  added may extend the range, and the search starts again with all files.
\<close>

partial_function (option) overlapping_loop ::
    "Comparator \<Rightarrow> bool \<Rightarrow> FileMetaData list \<Rightarrow> slice option \<Rightarrow> slice option \<Rightarrow> FileMetaData list \<Rightarrow> FileMetaData list \<Rightarrow> FileMetaData list option" where
  "overlapping_loop c level0 files user_begin user_end fs inputs =
     (case fs of [] \<Rightarrow> Some inputs
      | f # rest \<Rightarrow> do {
          file_start \<leftarrow> ExtractUserKey (fm_smallest f);
          file_limit \<leftarrow> ExtractUserKey (fm_largest f);
          before \<leftarrow> (case user_begin of None \<Rightarrow> Some False | Some b \<Rightarrow> do { r \<leftarrow> Compare c file_limit b; Some (r < 0) });
          after \<leftarrow> (if before then Some False else case user_end of None \<Rightarrow> Some False | Some e \<Rightarrow> do { r \<leftarrow> Compare c file_start e; Some (r > 0) });
          if before \<or> after then overlapping_loop c level0 files user_begin user_end rest inputs
          else if level0 then do {
            lower \<leftarrow> (case user_begin of None \<Rightarrow> Some False | Some b \<Rightarrow> do { r \<leftarrow> Compare c file_start b; Some (r < 0) });
            if lower then overlapping_loop c level0 files (Some file_start) user_end files []
            else do {
              higher \<leftarrow> (case user_end of None \<Rightarrow> Some False | Some e \<Rightarrow> do { r \<leftarrow> Compare c file_limit e; Some (r > 0) });
              if higher then overlapping_loop c level0 files user_begin (Some file_limit) files []
              else overlapping_loop c level0 files user_begin user_end rest (inputs @ [f])
            }
          }
          else overlapping_loop c level0 files user_begin user_end rest (inputs @ [f])
        })"

definition GetOverlappingInputs :: "Comparator \<Rightarrow> Version \<Rightarrow> nat \<Rightarrow> InternalKey option \<Rightarrow> InternalKey option \<Rightarrow> FileMetaData list option" where
  "GetOverlappingInputs c v level begin_key end_key =
     (if level < kNumLevels then do {
        user_begin \<leftarrow> (case begin_key of None \<Rightarrow> Some None | Some b \<Rightarrow> do { u \<leftarrow> ExtractUserKey b; Some (Some u) });
        user_end \<leftarrow> (case end_key of None \<Rightarrow> Some None | Some e \<Rightarrow> do { u \<leftarrow> ExtractUserKey e; Some (Some u) });
        overlapping_loop c (level = 0) (v_files v level) user_begin user_end (v_files v level) []
      }
      else None)"

text \<open>The level for a new table of the memtable; the loop goes up from \<open>level\<close>.\<close>

definition kMaxMemCompactLevel :: nat where
  "kMaxMemCompactLevel = 2"

function pick_level :: "Comparator \<Rightarrow> Options \<Rightarrow> Version \<Rightarrow> slice \<Rightarrow> slice \<Rightarrow> InternalKey \<Rightarrow> InternalKey \<Rightarrow> nat \<Rightarrow> nat option" where
  "pick_level c opts v smallest_user_key largest_user_key start limit level =
     (if level < kMaxMemCompactLevel then do {
        overlap \<leftarrow> OverlapInLevel c v (level + 1) (Some smallest_user_key) (Some largest_user_key);
        if overlap then Some level
        else do {
          too_many \<leftarrow>
            (if level + 2 < kNumLevels then do {
               overlaps \<leftarrow> GetOverlappingInputs c v (level + 2) (Some start) (Some limit);
               limit_bytes \<leftarrow> MaxGrandParentOverlapBytes opts;
               Some (TotalFileSize overlaps > limit_bytes)
             }
             else Some False);
          if too_many then Some level
          else pick_level c opts v smallest_user_key largest_user_key start limit (level + 1)
        }
      }
      else Some level)"
  by pat_completeness auto
termination by (relation "measure (\<lambda>(_, _, _, _, _, _, _, level). kMaxMemCompactLevel - level)") auto

declare pick_level.simps [simp del]

definition PickLevelForMemTableOutput :: "Comparator \<Rightarrow> Options \<Rightarrow> Version \<Rightarrow> slice \<Rightarrow> slice \<Rightarrow> nat option" where
  "PickLevelForMemTableOutput c opts v smallest_user_key largest_user_key = do {
     overlap \<leftarrow> OverlapInLevel c v 0 (Some smallest_user_key) (Some largest_user_key);
     if overlap then Some 0
     else do {
       start \<leftarrow> new_InternalKey smallest_user_key kMaxSequenceNumber kValueTypeForSeek;
       limit \<leftarrow> new_InternalKey largest_user_key 0 0;
       pick_level c opts v smallest_user_key largest_user_key start limit 0
     }
   }"

section \<open>The iterator over the files of a level\<close>

text \<open>The state of the iterator is its index.\<close>

definition LevelFileNumIterator_ops :: "Comparator \<Rightarrow> FileMetaData list \<Rightarrow> nat Iterator" where
  "LevelFileNumIterator_ops c flist =
     \<lparr>it_Valid = (\<lambda>index. index < length flist),
      it_SeekToFirst = (\<lambda>index. Some 0),
      it_SeekToLast = (\<lambda>index. Some (if flist = [] then 0 else length flist - 1)),
      it_Seek = (\<lambda>target index. FindFile c flist target),
      it_Next = (\<lambda>index. if index < length flist then Some (index + 1) else None),
      it_Prev = (\<lambda>index. if index < length flist then Some (if index = 0 then length flist else index - 1) else None),
      it_key = (\<lambda>index. if index < length flist then InternalKey_Encode (fm_largest (flist ! index)) else None),
      it_value = (\<lambda>index. if index < length flist
         then Some (EncodeFixed64 (fm_number (flist ! index)) @ EncodeFixed64 (fm_file_size (flist ! index))) else None),
      it_status = (\<lambda>index. Some Status_OK)\<rparr>"

definition new_LevelFileNumIterator :: "FileMetaData list \<Rightarrow> nat" where
  "new_LevelFileNumIterator flist = length flist"

section \<open>Lookups\<close>

text \<open>What a table tells of the entry that a lookup finds. The constructors are those of \<open>SaverState\<close>.\<close>

datatype SaverState = Saver_kNotFound | Saver_kFound | Saver_kDeleted | Saver_kCorrupt

record Saver =
  sv_state :: SaverState
  sv_value :: slice

definition SaveValue :: "Comparator \<Rightarrow> slice \<Rightarrow> Saver \<Rightarrow> slice \<Rightarrow> slice \<Rightarrow> Saver option" where
  "SaveValue c ukey s ik v =
     (case ParseInternalKey ik of None \<Rightarrow> Some (s\<lparr>sv_state := Saver_kCorrupt\<rparr>)
      | Some parsed_key \<Rightarrow> do {
          r \<leftarrow> Compare c (pk_user_key parsed_key) ukey;
          Some (if r = 0 then
                  (if pk_type parsed_key = kTypeValue then s\<lparr>sv_state := Saver_kFound, sv_value := v\<rparr>
                   else s\<lparr>sv_state := Saver_kDeleted\<rparr>)
                else s)
        })"

definition NewestFirst :: "FileMetaData \<Rightarrow> FileMetaData \<Rightarrow> bool" where
  "NewestFirst a b = (fm_number a > fm_number b)"

text \<open>The files of level 0 that may have the key, and their order; files have different numbers.\<close>

fun files_around :: "Comparator \<Rightarrow> slice \<Rightarrow> FileMetaData list \<Rightarrow> FileMetaData list option" where
  "files_around c ukey [] = Some []"
| "files_around c ukey (f # fs) = do {
     smallest \<leftarrow> ExtractUserKey (fm_smallest f);
     r \<leftarrow> Compare c ukey smallest;
     inside \<leftarrow> (if r \<ge> 0 then do { largest \<leftarrow> ExtractUserKey (fm_largest f); r1 \<leftarrow> Compare c ukey largest; Some (r1 \<le> 0) } else Some False);
     tmp \<leftarrow> files_around c ukey fs;
     Some (if inside then f # tmp else tmp)
   }"

fun insert_newest :: "FileMetaData \<Rightarrow> FileMetaData list \<Rightarrow> FileMetaData list" where
  "insert_newest f [] = [f]"
| "insert_newest f (g # gs) = (if NewestFirst g f then g # insert_newest f gs else f # g # gs)"

definition sort_newest :: "FileMetaData list \<Rightarrow> FileMetaData list" where
  "sort_newest fs = foldr insert_newest fs []"

text \<open>The files of a level that are searched.\<close>

definition files_to_search :: "Comparator \<Rightarrow> Version \<Rightarrow> slice \<Rightarrow> slice \<Rightarrow> nat \<Rightarrow> FileMetaData list option" where
  "files_to_search c v ukey ik level =
     (if level = 0 then do { tmp \<leftarrow> files_around c ukey (v_files v 0); Some (sort_newest tmp) }
      else do {
        index \<leftarrow> FindFile c (v_files v level) ik;
        if index \<ge> length (v_files v level) then Some []
        else do {
          let f = v_files v level ! index;
          smallest \<leftarrow> ExtractUserKey (fm_smallest f);
          r \<leftarrow> Compare c ukey smallest;
          Some (if r < 0 then [] else [f])
        }
      })"

text \<open>The file whose seek is charged, with its level.\<close>

record GetStats =
  seek_file :: "FileMetaData option"
  seek_file_level :: int

record GetState =
  gs_value :: slice
  gs_stats :: GetStats
  gs_last_file_read :: "(FileMetaData \<times> nat) option"

definition charge_seek :: "GetState \<Rightarrow> GetState" where
  "charge_seek g =
     (case gs_last_file_read g of None \<Rightarrow> g
      | Some (f, level) \<Rightarrow>
          if seek_file (gs_stats g) = None then g\<lparr>gs_stats := \<lparr>seek_file = Some f, seek_file_level = int level\<rparr>\<rparr> else g)"

text \<open>The inner loop; a status is returned when the lookup ends.\<close>

fun get_in_files :: "Comparator \<Rightarrow> TableCache \<Rightarrow> ReadOptions \<Rightarrow> slice \<Rightarrow> slice \<Rightarrow> nat \<Rightarrow> FileMetaData list \<Rightarrow> GetState
    \<Rightarrow> (Status option \<times> GetState) option" where
  "get_in_files c tc options ukey ik level [] g = Some (None, g)"
| "get_in_files c tc options ukey ik level (f # fs) g = do {
     let g1 = (charge_seek g)\<lparr>gs_last_file_read := Some (f, level)\<rparr>;
     (s, saver') \<leftarrow> TableCache_Get tc options (fm_number f) (fm_file_size f) ik
       (\<lambda>a k v. do { saver \<leftarrow> a; SaveValue c ukey saver k v }) (Some \<lparr>sv_state = Saver_kNotFound, sv_value = gs_value g1\<rparr>);
     saver \<leftarrow> saver';
     let g2 = g1\<lparr>gs_value := sv_value saver\<rparr>;
     if \<not> Status_ok s then Some (Some s, g2)
     else case sv_state saver of
         Saver_kNotFound \<Rightarrow> get_in_files c tc options ukey ik level fs g2
       | Saver_kFound \<Rightarrow> Some (Some s, g2)
       | Saver_kDeleted \<Rightarrow> do { s1 \<leftarrow> Status_NotFound [] []; Some (Some s1, g2) }
       | Saver_kCorrupt \<Rightarrow> do { s1 \<leftarrow> Status_Corruption (lit ''corrupted key for '') ukey; Some (Some s1, g2) }
   }"

fun get_in_levels :: "Comparator \<Rightarrow> TableCache \<Rightarrow> ReadOptions \<Rightarrow> Version \<Rightarrow> slice \<Rightarrow> slice \<Rightarrow> nat list \<Rightarrow> GetState
    \<Rightarrow> (Status option \<times> GetState) option" where
  "get_in_levels c tc options v ukey ik [] g = Some (None, g)"
| "get_in_levels c tc options v ukey ik (level # levels) g = do {
     fs \<leftarrow> files_to_search c v ukey ik level;
     (s, g1) \<leftarrow> get_in_files c tc options ukey ik level fs g;
     if s = None then get_in_levels c tc options v ukey ik levels g1 else Some (s, g1)
   }"

definition Version_Get :: "Comparator \<Rightarrow> TableCache \<Rightarrow> ReadOptions \<Rightarrow> Version \<Rightarrow> LookupKey \<Rightarrow> slice \<Rightarrow> (Status \<times> slice \<times> GetStats) option" where
  "Version_Get c tc options v k val = do {
     (s, g) \<leftarrow> get_in_levels c tc options v (user_key k) (internal_key k) [0 ..< kNumLevels]
       \<lparr>gs_value = val, gs_stats = \<lparr>seek_file = None, seek_file_level = - 1\<rparr>, gs_last_file_read = None\<rparr>;
     s1 \<leftarrow> (case s of Some s \<Rightarrow> Some s | None \<Rightarrow> Status_NotFound [] []);
     Some (s1, gs_value g, gs_stats g)
   }"

text \<open>\<open>ForEachOverlapping\<close> calls a function on the files that may have the key, until it returns false.\<close>

fun call_each :: "('a \<Rightarrow> nat \<Rightarrow> FileMetaData \<Rightarrow> 'a \<times> bool) \<Rightarrow> nat \<Rightarrow> FileMetaData list \<Rightarrow> 'a \<Rightarrow> 'a \<times> bool" where
  "call_each func level [] arg = (arg, True)"
| "call_each func level (f # fs) arg = (let (arg1, more) = func arg level f in if more then call_each func level fs arg1 else (arg1, False))"

fun each_level :: "Comparator \<Rightarrow> Version \<Rightarrow> slice \<Rightarrow> slice \<Rightarrow> ('a \<Rightarrow> nat \<Rightarrow> FileMetaData \<Rightarrow> 'a \<times> bool) \<Rightarrow> nat list \<Rightarrow> 'a \<Rightarrow> 'a option" where
  "each_level c v ukey ik func [] arg = Some arg"
| "each_level c v ukey ik func (level # levels) arg = do {
     fs \<leftarrow> files_to_search c v ukey ik level;
     let (arg1, more) = call_each func level fs arg;
     if more then each_level c v ukey ik func levels arg1 else Some arg1
   }"

definition ForEachOverlapping :: "Comparator \<Rightarrow> Version \<Rightarrow> slice \<Rightarrow> slice \<Rightarrow> ('a \<Rightarrow> nat \<Rightarrow> FileMetaData \<Rightarrow> 'a \<times> bool) \<Rightarrow> 'a \<Rightarrow> 'a option" where
  "ForEachOverlapping c v ukey ik func arg = each_level c v ukey ik func [0 ..< kNumLevels] arg"

end
