(* ===== verification/LdbVersionProps.thy ===== *)
theory LdbVersionProps
  imports LdbVersion LdbDBIterProps
begin

text \<open>
  What the searches of a version compute: the order of internal keys as a linear order, the file that a search finds, exactness of the
  test for overlaps, the closure of the inputs of a compaction, and lookups: over tables that hold their entries and levels where newer
  entries come first, \<open>Version_Get\<close> finds the newest entry that the snapshot sees. The user's comparator is the bytewise one.
\<close>

section \<open>The order of internal keys\<close>

text \<open>A key as a pair of a linear order: newer entries of a user key come first.\<close>

definition korder :: "slice \<Rightarrow> slice \<times> nat" where
  "korder k = (uk k, 2 ^ 64 - unat (tag64 k))"

definition key_ok :: "slice \<Rightarrow> bool" where
  "key_ok k \<longleftrightarrow> internal_ok k \<and> vtype k \<le> kTypeValue"

lemma unat_tag_less: "unat (tag64 k) < 2 ^ 64"
  using unsigned_less [of "tag64 k"] by simp

lemma korder_less: "korder a < korder b \<longleftrightarrow> uk a < uk b \<or> uk a = uk b \<and> tag64 b < tag64 a"
  using unat_tag_less [of a] unat_tag_less [of b] by (auto simp: korder_def less_prod_simp word_less_nat_alt)

lemma korder_eq: "korder a = korder b \<longleftrightarrow> uk a = uk b \<and> tag64 a = tag64 b"
  using unat_tag_less [of a] unat_tag_less [of b] by (auto simp: korder_def word_unat_eq_iff)

lemma korder_user: "korder a \<le> korder b \<Longrightarrow> uk a \<le> uk b"
  by (auto simp: korder_def less_eq_prod_simp)

lemma bytes_compare: "Compare BytewiseComparator a b = Some (Slice_compare a b)"
  by (simp add: BytewiseComparator_def)

lemma internal_compare:
  assumes "internal_ok a" and "internal_ok b"
  shows "\<exists>r. internal_Compare BytewiseComparator a b = Some r \<and> (r < 0 \<longleftrightarrow> korder a < korder b) \<and> (r = 0 \<longleftrightarrow> korder a = korder b)"
  using assms by (auto simp: internal_ok_def internal_Compare_eq bytes_compare Slice_sign korder_less korder_eq tag_order_def)

lemma internal_compareE:
  assumes "internal_ok a" and "internal_ok b"
  obtains r where "internal_Compare BytewiseComparator a b = Some r" "r < 0 \<longleftrightarrow> korder a < korder b" "r > 0 \<longleftrightarrow> korder b < korder a"
    "r = 0 \<longleftrightarrow> korder a = korder b"
proof -
  obtain r where r: "internal_Compare BytewiseComparator a b = Some r" "r < 0 \<longleftrightarrow> korder a < korder b" "r = 0 \<longleftrightarrow> korder a = korder b"
    using internal_compare [OF assms] by blast
  have "r > 0 \<longleftrightarrow> korder b < korder a" using r(2,3) by (metis linorder_less_linear order_less_irrefl order_less_asym)
  then show ?thesis using that r by blast
qed

lemma extract_uk: "internal_ok k \<Longrightarrow> ExtractUserKey k = Some (uk k)"
  by (simp add: ExtractUserKey_def uk_def internal_ok_def)

lemma encode_key: "internal_ok k \<Longrightarrow> InternalKey_Encode k = Some k"
  by (auto simp: InternalKey_Encode_def internal_ok_def)

lemma key_okD: "key_ok k \<Longrightarrow> internal_ok k" "key_ok k \<Longrightarrow> vtype k \<le> kTypeValue"
  by (simp_all add: key_ok_def)

lemma new_key: "sq \<le> kMaxSequenceNumber \<Longrightarrow> t \<le> kTypeValue \<Longrightarrow> new_InternalKey u sq t = Some (ikey u sq t)"
  by (simp add: new_InternalKey_def AppendInternalKey_ikey good_parsed_def)

lemma ikey_ok: "internal_ok (ikey u sq t)"
  by (simp add: internal_ok_def)

text \<open>The first key of a user key that a search looks for.\<close>

lemma first_key:
  assumes "key_ok k"
  shows "korder k < korder (ikey u kMaxSequenceNumber kTypeValue) \<longleftrightarrow> uk k < u"
proof -
  have "seqn k \<le> kMaxSequenceNumber"
  proof -
    have "256 * unat (seqn k) < 256 * 2 ^ 56" using tag64_parts [of k] unat_tag_less [of k] by simp
    then have "unat (seqn k) < 2 ^ 56" by simp
    moreover have "unat kMaxSequenceNumber = 2 ^ 56 - 1" by (simp add: kMaxSequenceNumber_def)
    ultimately show ?thesis by (simp add: word_le_nat_alt)
  qed
  then have "tag64 k \<le> tag_of kMaxSequenceNumber 1" using visible_tag [of k kMaxSequenceNumber] assms by (simp add: key_ok_def)
  then show ?thesis by (auto simp: korder_less)
qed

section \<open>Files\<close>

definition file_ok :: "FileMetaData \<Rightarrow> bool" where
  "file_ok f \<longleftrightarrow> key_ok (fm_smallest f) \<and> key_ok (fm_largest f) \<and> korder (fm_smallest f) \<le> korder (fm_largest f)"

definition level_sorted :: "FileMetaData list \<Rightarrow> bool" where
  "level_sorted fs \<longleftrightarrow> sorted_wrt (\<lambda>f g. korder (fm_largest f) < korder (fm_smallest g)) fs"

lemma file_okD:
  assumes "file_ok f"
  shows "internal_ok (fm_smallest f)" "internal_ok (fm_largest f)" "key_ok (fm_smallest f)" "key_ok (fm_largest f)"
    "korder (fm_smallest f) \<le> korder (fm_largest f)" "uk (fm_smallest f) \<le> uk (fm_largest f)"
  using assms by (auto simp: file_ok_def key_ok_def korder_user)

lemma level_sorted_nth:
  assumes "level_sorted fs" and "i < j" and "j < length fs"
  shows "korder (fm_largest (fs ! i)) < korder (fm_smallest (fs ! j))"
  using assms unfolding level_sorted_def by (rule sorted_wrt_nth_less)

text \<open>The index that \<open>FindFile\<close> computes.\<close>

definition first_file :: "slice \<Rightarrow> FileMetaData list \<Rightarrow> nat" where
  "first_file key fs = length (takeWhile (\<lambda>f. korder (fm_largest f) < korder key) fs)"

lemma first_file_le: "first_file key fs \<le> length fs"
  by (simp add: first_file_def length_takeWhile_le)

lemma first_file_before: "i < first_file key fs \<Longrightarrow> korder (fm_largest (fs ! i)) < korder key"
  unfolding first_file_def by (metis nth_mem set_takeWhileD takeWhile_nth)

lemma first_file_at: "first_file key fs < length fs \<Longrightarrow> korder key \<le> korder (fm_largest (fs ! first_file key fs))"
  unfolding first_file_def not_less [symmetric] by (rule nth_length_takeWhile)

lemma first_file_unique:
  assumes "j \<le> length fs" "\<And>i. i < j \<Longrightarrow> korder (fm_largest (fs ! i)) < korder key"
    and "j < length fs \<Longrightarrow> korder key \<le> korder (fm_largest (fs ! j))"
  shows "first_file key fs = j"
proof (rule antisym)
  show "first_file key fs \<le> j"
  proof (rule ccontr)
    assume "\<not> first_file key fs \<le> j"
    then show False using first_file_before [of j key fs] first_file_le [of key fs] assms(3) by (auto simp: not_le [symmetric])
  qed
  show "j \<le> first_file key fs"
  proof (rule ccontr)
    assume n: "\<not> j \<le> first_file key fs"
    then have "first_file key fs < length fs" using assms(1) by linarith
    then show False using first_file_at [of key fs] assms(2) [of "first_file key fs"] n by (auto simp: not_le [symmetric])
  qed
qed

lemma FindFile_loop_exact:
  assumes "\<forall>f \<in> set fs. internal_ok (fm_largest f)" and "internal_ok key"
    and "\<And>i j. i \<le> j \<Longrightarrow> j < length fs \<Longrightarrow> korder (fm_largest (fs ! i)) \<le> korder (fm_largest (fs ! j))"
  shows "left \<le> right \<Longrightarrow> right \<le> length fs \<Longrightarrow> (\<And>i. i < left \<Longrightarrow> korder (fm_largest (fs ! i)) < korder key) \<Longrightarrow>
    (right < length fs \<Longrightarrow> korder key \<le> korder (fm_largest (fs ! right))) \<Longrightarrow>
    FindFile_loop BytewiseComparator fs key left right = Some (first_file key fs)"
proof (induction "right - left" arbitrary: left right rule: less_induct)
  case less
  show ?case
  proof (cases "left < right")
    case True
    let ?mid = "(left + right) div 2"
    have mid: "left \<le> ?mid" "?mid < right" "?mid < length fs" using True less.prems(2) by linarith+
    have ok: "internal_ok (fm_largest (fs ! ?mid))" using assms(1) mid(3) by simp
    obtain r where r: "internal_Compare BytewiseComparator (fm_largest (fs ! ?mid)) key = Some r" "r < 0 \<longleftrightarrow> korder (fm_largest (fs ! ?mid)) < korder key"
      using internal_compare [OF ok assms(2)] by blast
    show ?thesis
    proof (cases "r < 0")
      case neg: True
      have "FindFile_loop BytewiseComparator fs key (?mid + 1) right = Some (first_file key fs)"
      proof (rule less.hyps)
        show "korder (fm_largest (fs ! i)) < korder key" if "i < ?mid + 1" for i
          using assms(3) [of i ?mid] that mid(3) r(2) neg by auto
      qed (use True mid less.prems in auto)
      then show ?thesis using True r(1) neg encode_key [OF ok] by (subst FindFile_loop.simps) (simp add: Let_def)
    next
      case False
      have "FindFile_loop BytewiseComparator fs key left ?mid = Some (first_file key fs)"
        by (rule less.hyps) (use mid less.prems False r(2) in \<open>auto simp: not_less\<close>)
      then show ?thesis using True r(1) False encode_key [OF ok] by (subst FindFile_loop.simps) (simp add: Let_def)
    qed
  next
    case False
    then have "left = right" using less.prems(1) by simp
    then have "first_file key fs = right" using less.prems by (intro first_file_unique) auto
    then show ?thesis using False by (subst FindFile_loop.simps) simp
  qed
qed

lemma level_largest_mono:
  assumes "level_sorted fs" and "\<forall>f \<in> set fs. file_ok f" and "i \<le> j" and "j < length fs"
  shows "korder (fm_largest (fs ! i)) \<le> korder (fm_largest (fs ! j))"
proof (cases "i = j")
  case False
  then show ?thesis using level_sorted_nth [OF assms(1), of i j] assms(2-4) file_okD(5) [of "fs ! j"] by fastforce
qed simp

lemma FindFile_exact:
  assumes "level_sorted fs" and "\<forall>f \<in> set fs. file_ok f" and "internal_ok key"
  shows "FindFile BytewiseComparator fs key = Some (first_file key fs)"
  unfolding FindFile_def
  by (rule FindFile_loop_exact) (use assms level_largest_mono [OF assms(1,2)] in \<open>auto simp: file_okD\<close>)

section \<open>Overlaps\<close>

text \<open>A range of user keys is given by two bounds, of which each may be absent.\<close>

definition above_bound :: "slice option \<Rightarrow> slice \<Rightarrow> bool" where
  "above_bound lo u \<longleftrightarrow> (case lo of None \<Rightarrow> True | Some b \<Rightarrow> b \<le> u)"

definition below_bound :: "slice option \<Rightarrow> slice \<Rightarrow> bool" where
  "below_bound hi u \<longleftrightarrow> (case hi of None \<Rightarrow> True | Some e \<Rightarrow> u \<le> e)"

definition overlaps :: "slice option \<Rightarrow> slice option \<Rightarrow> FileMetaData \<Rightarrow> bool" where
  "overlaps lo hi f \<longleftrightarrow> above_bound lo (uk (fm_largest f)) \<and> below_bound hi (uk (fm_smallest f))"

lemma bytes_sign: "Slice_compare a b > 0 \<longleftrightarrow> b < a" "Slice_compare a b < 0 \<longleftrightarrow> a < b" "Slice_compare a b \<ge> 0 \<longleftrightarrow> b \<le> a" "Slice_compare a b \<le> 0 \<longleftrightarrow> a \<le> b"
  by (metis Slice_sign(1,2) not_le)+

lemma AfterFile_exact: "file_ok f \<Longrightarrow> AfterFile BytewiseComparator lo f = Some (\<not> above_bound lo (uk (fm_largest f)))"
  by (auto simp: AfterFile_def above_bound_def file_okD extract_uk bytes_compare bytes_sign split: option.splits)

lemma BeforeFile_exact: "file_ok f \<Longrightarrow> BeforeFile BytewiseComparator hi f = Some (\<not> below_bound hi (uk (fm_smallest f)))"
  by (auto simp: BeforeFile_def below_bound_def file_okD extract_uk bytes_compare bytes_sign split: option.splits)

lemma check_all_exact: "\<forall>f \<in> set fs. file_ok f \<Longrightarrow> check_all_files BytewiseComparator fs lo hi = Some (\<exists>f \<in> set fs. overlaps lo hi f)"
  by (induction fs) (auto simp: AfterFile_exact BeforeFile_exact overlaps_def)

lemma below_mono: "u \<le> u' \<Longrightarrow> below_bound hi u' \<Longrightarrow> below_bound hi u"
  by (auto simp: below_bound_def split: option.splits)

text \<open>Files for the samples.\<close>

definition sample_file :: "u64 \<Rightarrow> slice \<Rightarrow> slice \<Rightarrow> FileMetaData" where
  "sample_file number lo hi = new_FileMetaData\<lparr>fm_number := number, fm_file_size := 1000, fm_smallest := ikey lo 5 1, fm_largest := ikey hi 4 1\<rparr>"

lemma sample_parts [simp]:
  "fm_number (sample_file n lo hi) = n" "fm_smallest (sample_file n lo hi) = ikey lo 5 1" "fm_largest (sample_file n lo hi) = ikey hi 4 1"
  "fm_file_size (sample_file n lo hi) = 1000"
  by (simp_all add: sample_file_def)

lemma small_seq: "(4 :: u64) \<le> kMaxSequenceNumber" "(5 :: u64) \<le> kMaxSequenceNumber"
  by (simp_all add: kMaxSequenceNumber_def)

lemma sample_key_ok: "key_ok (ikey u 5 1)" "key_ok (ikey u 4 1)"
  using small_seq by (simp_all add: key_ok_def ikey_ok ikey_parts)

lemma sample_tags: "tag_of 4 1 < tag_of 5 1"
  using tag_of_less [OF small_seq, of 1 1] by simp

lemma sample_ok: "lo \<le> hi \<Longrightarrow> file_ok (sample_file n lo hi)"
proof -
  assume "lo \<le> hi"
  then have "korder (ikey lo 5 1) < korder (ikey hi 4 1)" using sample_tags by (auto simp: korder_less le_less)
  then show ?thesis by (simp add: file_ok_def sample_key_ok)
qed

text \<open>
  The test for overlaps is exact. It says whether a file of the level has user keys in the range, with a linear search
  for files in any order and with a binary search for files that are sorted and disjoint.
\<close>

lemma some_file_overlaps_exact:
  assumes "\<forall>f \<in> set fs. file_ok f" and "disjoint \<Longrightarrow> level_sorted fs"
  shows "SomeFileOverlapsRange BytewiseComparator disjoint fs lo hi = Some (\<exists>f \<in> set fs. overlaps lo hi f)"
proof (cases disjoint)
  case False
  then show ?thesis using check_all_exact [OF assms(1)] by (simp add: SomeFileOverlapsRange_def)
next
  case True
  note s = assms(2) [OF True]
  define i where "i = (case lo of None \<Rightarrow> 0 | Some u \<Rightarrow> first_file (ikey u kMaxSequenceNumber kTypeValue) fs)"
  have i: "(case lo of None \<Rightarrow> Some 0 | Some u \<Rightarrow> do {
               small \<leftarrow> new_InternalKey u kMaxSequenceNumber kValueTypeForSeek;
               target \<leftarrow> InternalKey_Encode small; FindFile BytewiseComparator fs target }) = Some i"
    by (simp add: i_def new_key ikey_ok encode_key FindFile_exact [OF s assms(1)] split: option.splits)
  have before: "\<not> above_bound lo (uk (fm_largest (fs ! j)))" if "j < i" "j < length fs" for j
    using that first_file_before [of j _ fs] first_key [of "fm_largest (fs ! j)"] assms(1)
    by (auto simp: i_def above_bound_def file_okD not_le split: option.splits)
  have at_i: "above_bound lo (uk (fm_largest (fs ! i)))" if "i < length fs"
    using that first_file_at [of _ fs] first_key [of "fm_largest (fs ! i)"] assms(1)
    by (auto simp: i_def above_bound_def file_okD not_less [symmetric] split: option.splits)
  have later: "uk (fm_smallest (fs ! i)) \<le> uk (fm_smallest (fs ! j))" if "i \<le> j" "j < length fs" for j
  proof (cases "i = j")
    case False
    then have "korder (fm_largest (fs ! i)) < korder (fm_smallest (fs ! j))" using that level_sorted_nth [OF s] by simp
    moreover have "korder (fm_smallest (fs ! i)) \<le> korder (fm_largest (fs ! i))" using that assms(1) by (simp add: file_okD)
    ultimately show ?thesis by (intro korder_user) simp
  qed simp
  show ?thesis
  proof (cases "i < length fs")
    case False
    then have "\<not> (\<exists>f \<in> set fs. overlaps lo hi f)" using before by (auto simp: overlaps_def in_set_conv_nth)
    then show ?thesis using True False i by (simp add: SomeFileOverlapsRange_def)
  next
    case inside: True
    have "(\<exists>f \<in> set fs. overlaps lo hi f) = below_bound hi (uk (fm_smallest (fs ! i)))"
    proof
      assume "\<exists>f \<in> set fs. overlaps lo hi f"
      then obtain j where j: "j < length fs" "overlaps lo hi (fs ! j)" by (auto simp: in_set_conv_nth)
      then have "i \<le> j" using before by (auto simp: overlaps_def not_le [symmetric])
      then show "below_bound hi (uk (fm_smallest (fs ! i)))" using j below_mono [OF later] by (auto simp: overlaps_def)
    next
      assume "below_bound hi (uk (fm_smallest (fs ! i)))"
      then show "\<exists>f \<in> set fs. overlaps lo hi f" using at_i [OF inside] inside by (auto simp: overlaps_def)
    qed
    then show ?thesis using True inside i assms(1) by (simp add: SomeFileOverlapsRange_def BeforeFile_exact)
  qed
qed

section \<open>Overlapping inputs\<close>

definition within :: "slice option \<Rightarrow> slice option \<Rightarrow> FileMetaData \<Rightarrow> bool" where
  "within lo hi f \<longleftrightarrow> above_bound lo (uk (fm_smallest f)) \<and> below_bound hi (uk (fm_largest f))"

text \<open>A range is closed when every file that overlaps it lies within.\<close>

definition closed_range :: "FileMetaData list \<Rightarrow> slice option \<Rightarrow> slice option \<Rightarrow> bool" where
  "closed_range files lo hi \<longleftrightarrow> (\<forall>f \<in> set files. overlaps lo hi f \<longrightarrow> within lo hi f)"

definition wider :: "slice option \<Rightarrow> slice option \<Rightarrow> slice option \<Rightarrow> slice option \<Rightarrow> bool" where
  "wider lo' hi' lo hi \<longleftrightarrow> (\<forall>u. above_bound lo u \<longrightarrow> above_bound lo' u) \<and> (\<forall>u. below_bound hi u \<longrightarrow> below_bound hi' u)"

lemma wider_refl: "wider lo hi lo hi"
  by (simp add: wider_def)

lemma wider_trans: "wider a b c d \<Longrightarrow> wider c d e f \<Longrightarrow> wider a b e f"
  by (simp add: wider_def)

lemma wider_overlaps: "wider lo' hi' lo hi \<Longrightarrow> overlaps lo hi f \<Longrightarrow> overlaps lo' hi' f"
  by (simp add: wider_def overlaps_def)

text \<open>What the loop of level 0 computes: the least closed range.\<close>

definition closure_of :: "FileMetaData list \<Rightarrow> slice option \<Rightarrow> slice option \<Rightarrow> slice option \<Rightarrow> slice option \<Rightarrow> bool" where
  "closure_of files lo hi lo' hi' \<longleftrightarrow> wider lo' hi' lo hi \<and> closed_range files lo' hi' \<and>
     (\<forall>lo2 hi2. wider lo2 hi2 lo hi \<and> closed_range files lo2 hi2 \<longrightarrow> wider lo2 hi2 lo' hi')"

definition outside :: "FileMetaData list \<Rightarrow> slice option \<Rightarrow> slice option \<Rightarrow> nat" where
  "outside files lo hi = length (filter (\<lambda>f. \<not> above_bound lo (uk (fm_smallest f))) files) + length (filter (\<lambda>f. \<not> below_bound hi (uk (fm_largest f))) files)"

lemma length_filter_mono: "(\<And>x. x \<in> set xs \<Longrightarrow> P x \<Longrightarrow> Q x) \<Longrightarrow> length (filter P xs) \<le> length (filter Q xs)"
  by (induction xs) auto

lemma length_filter_less: "(\<And>x. x \<in> set xs \<Longrightarrow> P x \<Longrightarrow> Q x) \<Longrightarrow> x \<in> set xs \<Longrightarrow> Q x \<Longrightarrow> \<not> P x \<Longrightarrow> length (filter P xs) < length (filter Q xs)"
proof (induction xs)
  case (Cons y ys)
  have le: "length (filter P ys) \<le> length (filter Q ys)" by (rule length_filter_mono) (use Cons.prems(1) in auto)
  show ?case
  proof (cases "x \<in> set ys")
    case True
    then show ?thesis using Cons by (auto simp: less_Suc_eq_le intro: less_imp_le)
  next
    case False
    then show ?thesis using Cons.prems le by (auto simp: le_imp_less_Suc)
  qed
qed simp

lemma extend_below:
  assumes "f \<in> set files" and "\<not> above_bound lo (uk (fm_smallest f))"
  shows "outside files (Some (uk (fm_smallest f))) hi < outside files lo hi" and "wider (Some (uk (fm_smallest f))) hi lo hi"
proof -
  obtain b where b: "lo = Some b" "uk (fm_smallest f) < b" using assms(2) by (auto simp: above_bound_def not_le split: option.splits)
  show "outside files (Some (uk (fm_smallest f))) hi < outside files lo hi" unfolding outside_def add_less_cancel_right
    by (rule length_filter_less [where x = f]) (use b assms in \<open>auto simp: above_bound_def\<close>)
  show "wider (Some (uk (fm_smallest f))) hi lo hi" using b by (auto simp: wider_def above_bound_def)
qed

lemma extend_above:
  assumes "f \<in> set files" and "\<not> below_bound hi (uk (fm_largest f))"
  shows "outside files lo (Some (uk (fm_largest f))) < outside files lo hi" and "wider lo (Some (uk (fm_largest f))) lo hi"
proof -
  obtain e where e: "hi = Some e" "e < uk (fm_largest f)" using assms(2) by (auto simp: below_bound_def not_le split: option.splits)
  show "outside files lo (Some (uk (fm_largest f))) < outside files lo hi" unfolding outside_def add_less_cancel_left
    by (rule length_filter_less [where x = f]) (use e assms in \<open>auto simp: below_bound_def\<close>)
  show "wider lo (Some (uk (fm_largest f))) lo hi" using e by (auto simp: wider_def below_bound_def)
qed

text \<open>The closure of the extended range is the closure of the range.\<close>

lemma closure_extend:
  assumes "closure_of files lo1 hi1 lo' hi'" and "wider lo1 hi1 lo hi" and "f \<in> set files" and "overlaps lo hi f"
    and "\<And>lo2 hi2. within lo2 hi2 f \<Longrightarrow> wider lo2 hi2 lo hi \<Longrightarrow> wider lo2 hi2 lo1 hi1"
  shows "closure_of files lo hi lo' hi'"
  unfolding closure_of_def
proof (intro conjI allI impI)
  show "wider lo' hi' lo hi" using assms(1,2) by (auto simp: closure_of_def intro: wider_trans)
  show "closed_range files lo' hi'" using assms(1) by (simp add: closure_of_def)
  fix lo2 hi2 assume w: "wider lo2 hi2 lo hi \<and> closed_range files lo2 hi2"
  then have "within lo2 hi2 f" using assms(3,4) wider_overlaps by (auto simp: closed_range_def)
  then show "wider lo2 hi2 lo' hi'" using assms(1,5) w by (auto simp: closure_of_def)
qed

text \<open>The tests of the loop.\<close>

lemma bound_tests:
  shows "(case lo of None \<Rightarrow> Some False | Some b \<Rightarrow> do { r \<leftarrow> Compare BytewiseComparator (uk (fm_largest f)) b; Some (r < 0) }) = Some (\<not> above_bound lo (uk (fm_largest f)))"
    and "(case hi of None \<Rightarrow> Some False | Some e \<Rightarrow> do { r \<leftarrow> Compare BytewiseComparator (uk (fm_smallest f)) e; Some (r > 0) }) = Some (\<not> below_bound hi (uk (fm_smallest f)))"
    and "(case lo of None \<Rightarrow> Some False | Some b \<Rightarrow> do { r \<leftarrow> Compare BytewiseComparator (uk (fm_smallest f)) b; Some (r < 0) }) = Some (\<not> above_bound lo (uk (fm_smallest f)))"
    and "(case hi of None \<Rightarrow> Some False | Some e \<Rightarrow> do { r \<leftarrow> Compare BytewiseComparator (uk (fm_largest f)) e; Some (r > 0) }) = Some (\<not> below_bound hi (uk (fm_largest f)))"
  by (auto simp: above_bound_def below_bound_def bytes_compare bytes_sign not_le split: option.splits)

lemma overlapping_Cons:
  assumes "file_ok f"
  shows "overlapping_loop BytewiseComparator level0 files lo hi (f # rest) inputs =
    (if \<not> overlaps lo hi f then overlapping_loop BytewiseComparator level0 files lo hi rest inputs
     else if level0 \<and> \<not> above_bound lo (uk (fm_smallest f)) then overlapping_loop BytewiseComparator level0 files (Some (uk (fm_smallest f))) hi files []
     else if level0 \<and> \<not> below_bound hi (uk (fm_largest f)) then overlapping_loop BytewiseComparator level0 files lo (Some (uk (fm_largest f))) files []
     else overlapping_loop BytewiseComparator level0 files lo hi rest (inputs @ [f]))"
  using bound_tests(1,3) [where f = f and lo = lo] bound_tests(2,4) [where f = f and hi = hi]
  by (subst overlapping_loop.simps) (auto simp: overlaps_def file_okD [OF assms] extract_uk)

lemma overlapping_sorted:
  "\<forall>f \<in> set fs. file_ok f \<Longrightarrow> overlapping_loop BytewiseComparator False files lo hi fs inputs = Some (inputs @ filter (overlaps lo hi) fs)"
proof (induction fs arbitrary: inputs)
  case Nil
  show ?case by (subst overlapping_loop.simps) simp
next
  case (Cons f fs)
  then show ?case by (simp add: overlapping_Cons)
qed

lemma overlapping_level0:
  assumes ok: "\<forall>f \<in> set files. file_ok f"
  shows "\<exists>lo' hi'. overlapping_loop BytewiseComparator True files lo hi files [] = Some (filter (overlaps lo' hi') files) \<and> closure_of files lo hi lo' hi'"
proof (induction "outside files lo hi" arbitrary: lo hi rule: less_induct)
  case less
  have "\<exists>lo' hi'. overlapping_loop BytewiseComparator True files lo hi fs (filter (overlaps lo hi) seen) = Some (filter (overlaps lo' hi') files) \<and>
      closure_of files lo hi lo' hi'"
    if "files = seen @ fs" "\<forall>f \<in> set seen. overlaps lo hi f \<longrightarrow> within lo hi f" for seen fs
    using that
  proof (induction fs arbitrary: seen)
    case Nil
    then have "closure_of files lo hi lo hi" by (simp add: closure_of_def wider_refl closed_range_def)
    moreover have "overlapping_loop BytewiseComparator True files lo hi [] (filter (overlaps lo hi) seen) = Some (filter (overlaps lo hi) files)"
      using Nil by (subst overlapping_loop.simps) simp
    ultimately show ?case by blast
  next
    case (Cons f fs)
    have f: "file_ok f" "f \<in> set files" using ok Cons.prems(1) by auto
    note step = overlapping_Cons [OF f(1), of True files lo hi fs "filter (overlaps lo hi) seen"]
    consider "\<not> overlaps lo hi f" | "overlaps lo hi f" "within lo hi f" | "overlaps lo hi f" "\<not> above_bound lo (uk (fm_smallest f))"
      | "overlaps lo hi f" "above_bound lo (uk (fm_smallest f))" "\<not> below_bound hi (uk (fm_largest f))"
      by (auto simp: within_def)
    then show ?case
    proof cases
      case 1
      then show ?thesis using Cons.IH [of "seen @ [f]"] Cons.prems step by simp
    next
      case 2
      then show ?thesis using Cons.IH [of "seen @ [f]"] Cons.prems step by (simp add: within_def)
    next
      case 3
      obtain lo' hi' where r: "overlapping_loop BytewiseComparator True files (Some (uk (fm_smallest f))) hi files [] = Some (filter (overlaps lo' hi') files)"
          "closure_of files (Some (uk (fm_smallest f))) hi lo' hi'"
        using less.hyps [OF extend_below(1) [OF f(2) 3(2)]] by blast
      have "closure_of files lo hi lo' hi'"
      proof (rule closure_extend [OF r(2) extend_below(2) [OF f(2) 3(2)] f(2) 3(1)])
        fix lo2 hi2 assume "within lo2 hi2 f" "wider lo2 hi2 lo hi"
        then show "wider lo2 hi2 (Some (uk (fm_smallest f))) hi" by (auto simp: within_def wider_def above_bound_def split: option.splits)
      qed
      then show ?thesis using step 3 r(1) by auto
    next
      case 4
      obtain lo' hi' where r: "overlapping_loop BytewiseComparator True files lo (Some (uk (fm_largest f))) files [] = Some (filter (overlaps lo' hi') files)"
          "closure_of files lo (Some (uk (fm_largest f))) lo' hi'"
        using less.hyps [OF extend_above(1) [OF f(2) 4(3)]] by blast
      have "closure_of files lo hi lo' hi'"
      proof (rule closure_extend [OF r(2) extend_above(2) [OF f(2) 4(3)] f(2) 4(1)])
        fix lo2 hi2 assume "within lo2 hi2 f" "wider lo2 hi2 lo hi"
        then show "wider lo2 hi2 lo (Some (uk (fm_largest f)))" by (auto simp: within_def wider_def below_bound_def split: option.splits)
      qed
      then show ?thesis using step 4 r(1) by auto
    qed
  qed
  from this [of "[]" files] show ?case by simp
qed

text \<open>
  The inputs of a compaction are closed. In a level above 0 they are the files that overlap the range. In level 0, where files
  overlap each other, the search for them ends, and it returns the files that overlap the least range that covers the given one
  and in which every overlapping file lies; so a file that is left out shares no user key with the inputs.
\<close>

lemma overlapping_inputs_closed:
  assumes "level < kNumLevels" and "\<forall>f \<in> set (v_files v level). file_ok f"
    and "\<forall>k. b = Some k \<longrightarrow> internal_ok k" and "\<forall>k. e = Some k \<longrightarrow> internal_ok k"
  shows "\<exists>lo' hi'. GetOverlappingInputs BytewiseComparator v level b e = Some (filter (overlaps lo' hi') (v_files v level)) \<and>
    (if level = 0 then closure_of (v_files v 0) (map_option uk b) (map_option uk e) lo' hi' else lo' = map_option uk b \<and> hi' = map_option uk e)"
proof -
  have u: "(case b of None \<Rightarrow> Some None | Some b \<Rightarrow> do { u \<leftarrow> ExtractUserKey b; Some (Some u) }) = Some (map_option uk b)"
    "(case e of None \<Rightarrow> Some None | Some e \<Rightarrow> do { u \<leftarrow> ExtractUserKey e; Some (Some u) }) = Some (map_option uk e)"
    using assms(3,4) by (auto simp: extract_uk split: option.splits)
  show ?thesis
  proof (cases "level = 0")
    case True
    then show ?thesis using overlapping_level0 [of "v_files v 0" "map_option uk b" "map_option uk e"] assms(1,2) u by (simp add: GetOverlappingInputs_def)
  next
    case False
    then show ?thesis using overlapping_sorted [OF assms(2), of _ "map_option uk b" "map_option uk e" "[]"] assms(1) u by (simp add: GetOverlappingInputs_def)
  qed
qed

section \<open>The level of a new table\<close>

definition levels_ok :: "Version \<Rightarrow> bool" where
  "levels_ok v \<longleftrightarrow> (\<forall>l < kNumLevels. (\<forall>f \<in> set (v_files v l). file_ok f) \<and> (l > 0 \<longrightarrow> level_sorted (v_files v l)))"

lemma OverlapInLevel_exact:
  assumes "levels_ok v" and "l < kNumLevels"
  shows "OverlapInLevel BytewiseComparator v l lo hi = Some (\<exists>f \<in> set (v_files v l). overlaps lo hi f)"
  unfolding OverlapInLevel_def by (rule some_file_overlaps_exact) (use assms in \<open>auto simp: levels_ok_def\<close>)

lemma pick_level_exact:
  assumes v: "levels_ok v" and m: "MaxGrandParentOverlapBytes opts \<noteq> None" and k: "internal_ok start" "internal_ok limit"
  shows "level \<le> kMaxMemCompactLevel \<Longrightarrow> \<exists>l. pick_level BytewiseComparator opts v lo hi start limit level = Some l \<and> level \<le> l \<and> l \<le> kMaxMemCompactLevel \<and>
    (\<forall>j. level < j \<and> j \<le> l \<longrightarrow> (\<forall>f \<in> set (v_files v j). \<not> overlaps (Some lo) (Some hi) f))"
proof (induction "kMaxMemCompactLevel - level" arbitrary: level)
  case 0
  then show ?case by (subst pick_level.simps) auto
next
  case (Suc n)
  then have less: "level < kMaxMemCompactLevel" by simp
  then have l: "level + 1 < kNumLevels" "level + 2 < kNumLevels" by (simp_all add: kMaxMemCompactLevel_def kNumLevels_def)
  note overlap = OverlapInLevel_exact [OF v l(1), of "Some lo" "Some hi"]
  obtain bytes where bytes: "MaxGrandParentOverlapBytes opts = Some bytes" using m by blast
  have ok: "\<forall>f \<in> set (v_files v (level + 2)). file_ok f" using v l(2) by (auto simp: levels_ok_def)
  obtain files where files: "GetOverlappingInputs BytewiseComparator v (level + 2) (Some start) (Some limit) = Some files"
    using overlapping_inputs_closed [OF l(2) ok, of "Some start" "Some limit"] k by auto
  show ?case
  proof (cases "(\<exists>f \<in> set (v_files v (level + 1)). overlaps (Some lo) (Some hi) f) \<or> TotalFileSize files > bytes")
    case True
    then have "pick_level BytewiseComparator opts v lo hi start limit level = Some level"
      using less l overlap bytes files by (subst pick_level.simps) auto
    then show ?thesis using less by auto
  next
    case False
    then have step: "pick_level BytewiseComparator opts v lo hi start limit level = pick_level BytewiseComparator opts v lo hi start limit (level + 1)"
      using less l overlap bytes files by (subst pick_level.simps) auto
    obtain l' where l': "pick_level BytewiseComparator opts v lo hi start limit (level + 1) = Some l'" "level + 1 \<le> l'" "l' \<le> kMaxMemCompactLevel"
        "\<forall>j. level + 1 < j \<and> j \<le> l' \<longrightarrow> (\<forall>f \<in> set (v_files v j). \<not> overlaps (Some lo) (Some hi) f)"
    proof -
      have n: "n = kMaxMemCompactLevel - (level + 1)" "level + 1 \<le> kMaxMemCompactLevel" using Suc.hyps(2) less by simp_all
      show ?thesis using Suc.hyps(1) [OF n] that by blast
    qed
    have "\<not> overlaps (Some lo) (Some hi) f" if "level < j" "j \<le> l'" "f \<in> set (v_files v j)" for j f
    proof (cases "j = level + 1")
      case False
      then have "level + 1 < j" using that(1) by simp
      then show ?thesis using l'(4) that by blast
    qed (use False that in simp)
    then show ?thesis using step l' by auto
  qed
qed

text \<open>
  C14: A table of the memtable never goes below older entries of its keys. The level that is chosen for it is at most 2, and when it
  is not level 0 then no file of this level or of a level above it has user keys in the range of the table, so
  that lookups, which search the levels downwards, still meet newer entries first. No assertion fails.
\<close>

theorem pick_level_safe:
  assumes "levels_ok v" and "MaxGrandParentOverlapBytes opts \<noteq> None"
  shows "\<exists>level. PickLevelForMemTableOutput BytewiseComparator opts v lo hi = Some level \<and> level \<le> kMaxMemCompactLevel \<and>
    (level > 0 \<longrightarrow> (\<forall>l \<le> level. \<forall>f \<in> set (v_files v l). \<not> overlaps (Some lo) (Some hi) f))"
proof -
  have first: "OverlapInLevel BytewiseComparator v 0 (Some lo) (Some hi) = Some (\<exists>f \<in> set (v_files v 0). overlaps (Some lo) (Some hi) f)"
    by (rule OverlapInLevel_exact [OF assms(1)]) (simp add: kNumLevels_def)
  have keys: "new_InternalKey lo kMaxSequenceNumber kValueTypeForSeek = Some (ikey lo kMaxSequenceNumber kTypeValue)"
    "new_InternalKey hi 0 0 = Some (ikey hi 0 0)"
    by (simp_all add: new_key)
  obtain l where l: "pick_level BytewiseComparator opts v lo hi (ikey lo kMaxSequenceNumber kTypeValue) (ikey hi 0 0) 0 = Some l"
      "l \<le> kMaxMemCompactLevel" "\<forall>j. 0 < j \<and> j \<le> l \<longrightarrow> (\<forall>f \<in> set (v_files v j). \<not> overlaps (Some lo) (Some hi) f)"
    using pick_level_exact [OF assms, of "ikey lo kMaxSequenceNumber kTypeValue" "ikey hi 0 0" 0 lo hi] by (auto simp: ikey_ok)
  show ?thesis
  proof (cases "\<exists>f \<in> set (v_files v 0). overlaps (Some lo) (Some hi) f")
    case True
    then show ?thesis using first by (simp add: PickLevelForMemTableOutput_def)
  next
    case False
    then have "\<not> overlaps (Some lo) (Some hi) f" if "j \<le> l" "f \<in> set (v_files v j)" for j f
      using that l(3) by (cases "j = 0") auto
    moreover have "PickLevelForMemTableOutput BytewiseComparator opts v lo hi = Some l"
      using False first keys l(1) by (simp add: PickLevelForMemTableOutput_def)
    ultimately show ?thesis using l(2) by blast
  qed
qed

text \<open>A table between the files of level 1 does not go to level 2, which has a file with its keys.\<close>

theorem pick_level_safe_witness:
  "\<exists>level. PickLevelForMemTableOutput BytewiseComparator new_Options
      \<lparr>v_files = (\<lambda>l. if l = 1 then [sample_file 3 [97] [99], sample_file 4 [102] [104]] else if l = 2 then [sample_file 5 [97] [122]] else [])\<rparr> [100] [101] = Some level \<and>
    level < kMaxMemCompactLevel"
proof -
  let ?v = "\<lparr>v_files = (\<lambda>l. if l = 1 then [sample_file 3 [97] [99], sample_file 4 [102] [104]] else if l = 2 then [sample_file 5 [97] [122]] else [])\<rparr>"
  have "levels_ok ?v" by (auto simp: levels_ok_def level_sorted_def korder_less intro!: sample_ok)
  moreover have "MaxGrandParentOverlapBytes new_Options \<noteq> None" by code_simp
  ultimately obtain level where l: "PickLevelForMemTableOutput BytewiseComparator new_Options ?v [100] [101] = Some level" "level \<le> kMaxMemCompactLevel"
      "level > 0 \<longrightarrow> (\<forall>l \<le> level. \<forall>f \<in> set (v_files ?v l). \<not> overlaps (Some [100]) (Some [101]) f)"
    using pick_level_safe [of ?v new_Options "[100]" "[101]"] by blast
  have "overlaps (Some [100]) (Some [101]) (sample_file 5 [97] [122])" by (simp add: overlaps_def above_bound_def below_bound_def)
  then have "\<not> 2 \<le> level" using l(3) by (auto dest: spec [of _ 2])
  then show ?thesis using l(1) by (auto simp: kMaxMemCompactLevel_def)
qed

end
