(* ===== verification/LdbVersionGet.thy ===== *)
theory LdbVersionGet
  imports LdbVersionProps
begin

text \<open>
  Lookups in a version. When every file holds its entries and newer entries of a user key come first, from the files of level 0 with high numbers
  down to the deepest level, \<open>Version_Get\<close> finds the newest entry that the snapshot sees.
\<close>

section \<open>What a version holds\<close>

text \<open>The table of a file serves lookups of its entries, as \<open>table_get\<close> says of a table that was built from them.\<close>

definition serves_file :: "TableCache \<Rightarrow> ReadOptions \<Rightarrow> FileMetaData \<Rightarrow> (slice \<times> slice) list \<Rightarrow> bool" where
  "serves_file tc options f es \<longleftrightarrow> (\<forall>k saver (arg :: Saver option). internal_ok k \<longrightarrow>
     (\<exists>arg'. TableCache_Get tc options (fm_number f) (fm_file_size f) k saver arg = Some (Status_OK, arg') \<and>
       (case dropWhile (\<lambda>e. korder (fst e) < korder k) es of [] \<Rightarrow> arg' = arg
        | (k', v) # _ \<Rightarrow> arg' = saver arg k' v \<or> arg' = arg \<and> uk k' \<noteq> uk k)))"

definition file_holds :: "FileMetaData \<Rightarrow> (slice \<times> slice) list \<Rightarrow> bool" where
  "file_holds f es \<longleftrightarrow> es \<noteq> [] \<and> fm_smallest f = fst (hd es) \<and> fm_largest f = fst (last es) \<and>
     (\<forall>e \<in> set es. key_ok (fst e)) \<and> sorted_wrt (\<lambda>a b. korder (fst a) < korder (fst b)) es"

definition newest_first :: "Version \<Rightarrow> (FileMetaData \<Rightarrow> (slice \<times> slice) list) \<Rightarrow> bool" where
  "newest_first v C \<longleftrightarrow> (\<forall>l < kNumLevels. \<forall>l' < kNumLevels. \<forall>f \<in> set (v_files v l). \<forall>g \<in> set (v_files v l').
     l < l' \<or> l = 0 \<and> l' = 0 \<and> fm_number g < fm_number f \<longrightarrow>
     (\<forall>e \<in> set (C f). \<forall>e' \<in> set (C g). uk (fst e) = uk (fst e') \<longrightarrow> tag64 (fst e') < tag64 (fst e)))"

definition version_holds :: "Version \<Rightarrow> (FileMetaData \<Rightarrow> (slice \<times> slice) list) \<Rightarrow> bool" where
  "version_holds v C \<longleftrightarrow> (\<forall>l < kNumLevels. \<forall>f \<in> set (v_files v l). file_holds f (C f)) \<and>
     (\<forall>l < kNumLevels. 0 < l \<longrightarrow> level_sorted (v_files v l)) \<and> distinct (map fm_number (v_files v 0)) \<and> newest_first v C"

definition version_served :: "TableCache \<Rightarrow> ReadOptions \<Rightarrow> Version \<Rightarrow> (FileMetaData \<Rightarrow> (slice \<times> slice) list) \<Rightarrow> bool" where
  "version_served tc options v C \<longleftrightarrow> (\<forall>l < kNumLevels. \<forall>f \<in> set (v_files v l). serves_file tc options f (C f))"

definition version_entries :: "Version \<Rightarrow> (FileMetaData \<Rightarrow> (slice \<times> slice) list) \<Rightarrow> (slice \<times> slice) set" where
  "version_entries v C = (\<Union>l \<in> {..< kNumLevels}. \<Union>f \<in> set (v_files v l). set (C f))"

definition seen :: "slice \<Rightarrow> SequenceNumber \<Rightarrow> (slice \<times> slice) set \<Rightarrow> (slice \<times> slice) set" where
  "seen u sq E = {e \<in> E. uk (fst e) = u \<and> seqn (fst e) \<le> sq}"

lemma levels_pos: "0 < kNumLevels"
  by (simp add: kNumLevels_def)

lemma version_holdsD: "version_holds v C \<Longrightarrow> l < kNumLevels \<Longrightarrow> f \<in> set (v_files v l) \<Longrightarrow> file_holds f (C f)"
  by (simp add: version_holds_def)

lemma file_holds_bounds:
  assumes "file_holds f es"
  shows "e \<in> set es \<Longrightarrow> korder (fm_smallest f) \<le> korder (fst e)" and "e \<in> set es \<Longrightarrow> korder (fst e) \<le> korder (fm_largest f)" and "file_ok f"
proof -
  note h = assms [unfolded file_holds_def]
  have mono: "korder (fst (es ! i)) \<le> korder (fst (es ! j))" if "i \<le> j" "j < length es" for i j
    using h that sorted_wrt_nth_less [of "\<lambda>a b. korder (fst a) < korder (fst b)" es i j] by (cases "i = j") auto
  have b: "korder (fm_smallest f) \<le> korder (fst e) \<and> korder (fst e) \<le> korder (fm_largest f)" if e: "e \<in> set es" for e
  proof -
    obtain i where "i < length es" "e = es ! i" using e by (metis in_set_conv_nth)
    then show ?thesis using h mono [of 0 i] mono [of i "length es - 1"] by (simp add: hd_conv_nth last_conv_nth)
  qed
  then show "e \<in> set es \<Longrightarrow> korder (fm_smallest f) \<le> korder (fst e)" "e \<in> set es \<Longrightarrow> korder (fst e) \<le> korder (fm_largest f)" by blast+
  show "file_ok f" using h b [of "hd es"] by (auto simp: file_ok_def)
qed

text \<open>An entry of a user key is seen when it does not come before the key of the search.\<close>

lemma seen_iff:
  assumes "key_ok k" and "sq \<le> kMaxSequenceNumber"
  shows "uk k = u \<and> seqn k \<le> sq \<longleftrightarrow> uk k = u \<and> \<not> korder k < korder (ikey u sq kTypeValue)"
proof -
  have "seqn k \<le> sq" if "tag64 k \<le> tag_of sq 1"
  proof -
    have "256 * unat (seqn k) + unat (vtype k) \<le> 256 * unat sq + 1"
      using that unat_pack [OF assms(2), of 1] by (simp add: word_le_nat_alt tag64_parts tag_of_def)
    then show ?thesis by (simp add: word_le_nat_alt)
  qed
  then show ?thesis using visible_tag [of k sq] assms by (auto simp: korder_less key_ok_def)
qed

section \<open>One file\<close>

text \<open>How the newest entry of a set is answered.\<close>

definition answers :: "(slice \<times> slice) set \<Rightarrow> slice \<Rightarrow> Status \<Rightarrow> slice \<Rightarrow> bool" where
  "answers V old st val \<longleftrightarrow> (\<exists>(k, x) \<in> V. (\<forall>(k', _) \<in> V. tag64 k' \<le> tag64 k) \<and>
     (if vtype k = kTypeValue then st = Status_OK \<and> val = x else IsNotFound st = Some True \<and> val = old))"

lemma answersI:
  assumes "e \<in> V" and "\<And>e'. e' \<in> V \<Longrightarrow> tag64 (fst e') \<le> tag64 (fst e)"
    and "if vtype (fst e) = kTypeValue then st = Status_OK \<and> val = snd e else IsNotFound st = Some True \<and> val = old"
  shows "answers V old st val"
  unfolding answers_def by (rule bexI [OF _ assms(1)]) (use assms(2,3) in \<open>auto simp: case_prod_beta\<close>)

lemma first_seen:
  assumes "file_holds f es" and "sq \<le> kMaxSequenceNumber"
  shows "case dropWhile (\<lambda>e. korder (fst e) < korder (ikey u sq kTypeValue)) es of [] \<Rightarrow> seen u sq (set es) = {}
    | e # _ \<Rightarrow> if uk (fst e) = u then e \<in> seen u sq (set es) \<and> (\<forall>e' \<in> seen u sq (set es). tag64 (fst e') \<le> tag64 (fst e)) else seen u sq (set es) = {}"
proof -
  let ?t = "korder (ikey u sq kTypeValue)" and ?d = "dropWhile (\<lambda>e. korder (fst e) < korder (ikey u sq kTypeValue)) es"
  note h = assms(1) [unfolded file_holds_def]
  have split: "es = takeWhile (\<lambda>e. korder (fst e) < ?t) es @ ?d" by simp
  have in_d: "seen u sq (set es) = {e \<in> set ?d. uk (fst e) = u}"
  proof -
    have a: "\<not> korder (fst e) < ?t" if "e \<in> set ?d" for e
    proof -
      have "sorted_wrt (\<lambda>a b. korder (fst a) < korder (fst b)) ?d" using h by (metis sorted_wrt_dropWhile)
      moreover have "\<not> korder (fst (hd ?d)) < ?t" using hd_dropWhile [OF length_pos_if_in_set [OF that, unfolded length_greater_0_conv]] .
      ultimately show ?thesis using that by (cases ?d) (auto dest: order.strict_trans1)
    qed
    have b: "e \<in> set ?d" if "e \<in> set es" "\<not> korder (fst e) < ?t" for e
      using that set_takeWhileD [of e "\<lambda>e. korder (fst e) < ?t" es] by (metis Un_iff set_append split)
    have iff: "uk (fst e) = u \<and> seqn (fst e) \<le> sq \<longleftrightarrow> uk (fst e) = u \<and> \<not> korder (fst e) < ?t" if "e \<in> set es" for e
      by (rule seen_iff [OF _ assms(2)]) (use h that in blast)
    show ?thesis
    proof (intro set_eqI iffI)
      fix e assume "e \<in> seen u sq (set es)"
      then show "e \<in> {e \<in> set ?d. uk (fst e) = u}" using iff [of e] b [of e] by (simp add: seen_def)
    next
      fix e assume e: "e \<in> {e \<in> set ?d. uk (fst e) = u}"
      then have "e \<in> set es" by (auto dest: set_dropWhileD)
      then show "e \<in> seen u sq (set es)" using iff [of e] a [of e] e by (simp add: seen_def)
    qed
  qed
  have sd: "sorted_wrt (\<lambda>a b. korder (fst a) < korder (fst b)) ?d" using h by (metis sorted_wrt_dropWhile)
  show ?thesis
  proof (cases ?d)
    case Nil
    show ?thesis using in_d [unfolded Nil] unfolding Nil by simp
  next
    case (Cons e es')
    have le: "uk (fst e') = uk (fst e) \<Longrightarrow> tag64 (fst e') \<le> tag64 (fst e)" "uk (fst e) \<le> uk (fst e')" if "e' \<in> set ?d" for e'
      using sd [unfolded Cons] that [unfolded Cons] by (auto simp: korder_less)
    have "u \<le> uk (fst e)"
    proof -
      have "\<not> korder (fst e) < ?t" using hd_dropWhile [of "\<lambda>e. korder (fst e) < ?t" es] Cons by simp
      then show ?thesis by (auto simp: korder_less not_less)
    qed
    then have "uk (fst e') \<noteq> u" if "uk (fst e) \<noteq> u" "e' \<in> set ?d" for e' using le(2) [OF that(2)] that(1) by auto
    then have none: "{x \<in> set (e # es'). uk (fst x) = u} = {}" if "uk (fst e) \<noteq> u"
      using \<open>\<And>e'. uk (fst e) \<noteq> u \<Longrightarrow> e' \<in> set ?d \<Longrightarrow> uk (fst e') \<noteq> u\<close> [unfolded Cons] that by blast
    have "tag64 (fst e') \<le> tag64 (fst e)" if "e' \<in> {x \<in> set (e # es'). uk (fst x) = u}" "uk (fst e) = u" for e' using le(1) [unfolded Cons, of e'] that by simp
    then show ?thesis unfolding in_d unfolding Cons list.case using none by (cases "uk (fst e) = u") (simp_all only: if_True if_False, auto)
  qed
qed

text \<open>The status that a lookup in a file leaves, and the value.\<close>

lemma save_value:
  assumes "key_ok k"
  shows "SaveValue BytewiseComparator u s k x = Some
    (if uk k \<noteq> u then s else if vtype k = kTypeValue then s\<lparr>sv_state := Saver_kFound, sv_value := x\<rparr> else s\<lparr>sv_state := Saver_kDeleted\<rparr>)"
  using parsed [of k] assms by (simp add: SaveValue_def key_ok_def internal_ok_def bytes_compare Slice_sign)

definition file_answer :: "slice \<Rightarrow> SequenceNumber \<Rightarrow> (slice \<times> slice) list \<Rightarrow> slice \<Rightarrow> Saver \<Rightarrow> bool" where
  "file_answer u sq es old s \<longleftrightarrow>
     (if seen u sq (set es) = {} then s = \<lparr>sv_state = Saver_kNotFound, sv_value = old\<rparr>
      else \<exists>e \<in> seen u sq (set es). (\<forall>e' \<in> seen u sq (set es). tag64 (fst e') \<le> tag64 (fst e)) \<and>
        s = (if vtype (fst e) = kTypeValue then \<lparr>sv_state = Saver_kFound, sv_value = snd e\<rparr> else \<lparr>sv_state = Saver_kDeleted, sv_value = old\<rparr>))"

lemma get_file:
  assumes "file_holds f es" and "serves_file tc options f es" and "sq \<le> kMaxSequenceNumber"
  shows "\<exists>s. TableCache_Get tc options (fm_number f) (fm_file_size f) (ikey u sq kTypeValue)
      (\<lambda>a k v. do { saver \<leftarrow> a; SaveValue BytewiseComparator u saver k v }) (Some \<lparr>sv_state = Saver_kNotFound, sv_value = old\<rparr>) = Some (Status_OK, Some s) \<and>
    file_answer u sq es old s"
proof -
  let ?k = "ikey u sq kTypeValue" and ?s0 = "\<lparr>sv_state = Saver_kNotFound, sv_value = old\<rparr>"
    and ?saver = "\<lambda>a k v. do { saver \<leftarrow> a; SaveValue BytewiseComparator u saver k v }"
  obtain arg' where g: "TableCache_Get tc options (fm_number f) (fm_file_size f) ?k ?saver (Some ?s0) = Some (Status_OK, arg')"
      "case dropWhile (\<lambda>e. korder (fst e) < korder ?k) es of [] \<Rightarrow> arg' = Some ?s0
        | (k', v) # _ \<Rightarrow> arg' = ?saver (Some ?s0) k' v \<or> arg' = Some ?s0 \<and> uk k' \<noteq> uk ?k"
    using assms(2) ikey_ok unfolding serves_file_def by blast
  note first = first_seen [OF assms(1,3), of u]
  have "\<exists>s. arg' = Some s \<and> file_answer u sq es old s"
  proof (cases "dropWhile (\<lambda>e. korder (fst e) < korder ?k) es")
    case Nil
    show ?thesis using g(2) [unfolded Nil] first [unfolded Nil] by (simp add: file_answer_def)
  next
    case (Cons e es')
    have "e \<in> set es" using Cons by (metis list.set_intros(1) set_dropWhileD)
    then have "key_ok (fst e)" using assms(1) by (simp add: file_holds_def)
    note sv = save_value [OF this, of u ?s0 "snd e"]
    show ?thesis
    proof (cases "uk (fst e) = u")
      case True
      then have arg: "arg' = SaveValue BytewiseComparator u ?s0 (fst e) (snd e)" using g(2) Cons by (simp add: case_prod_beta)
      have e: "e \<in> seen u sq (set es)" "\<forall>e' \<in> seen u sq (set es). tag64 (fst e') \<le> tag64 (fst e)" using first Cons True by simp_all
      show ?thesis unfolding arg sv file_answer_def using e True by auto
    next
      case False
      then have "arg' = Some ?s0" using g(2) Cons sv by (auto simp: case_prod_beta)
      then show ?thesis using first Cons False by (simp add: file_answer_def)
    qed
  qed
  then show ?thesis using g(1) by blast
qed

section \<open>The files of a level\<close>

lemma NewestFirst_iff: "NewestFirst a b \<longleftrightarrow> fm_number b < fm_number a"
  by (simp add: NewestFirst_def)

lemma set_insert_newest [simp]: "set (insert_newest f fs) = insert f (set fs)"
  by (induction fs) auto

lemma set_sort_newest [simp]: "set (sort_newest fs) = set fs"
  unfolding sort_newest_def by (induction fs) auto

lemma insert_newest_sorted:
  "fm_number f \<notin> fm_number ` set fs \<Longrightarrow> sorted_wrt (\<lambda>a b. fm_number b < fm_number a) fs \<Longrightarrow> sorted_wrt (\<lambda>a b. fm_number b < fm_number a) (insert_newest f fs)"
  by (induction fs) (auto simp: NewestFirst_iff intro: order.strict_trans)

lemma sort_newest_sorted: "distinct (map fm_number fs) \<Longrightarrow> sorted_wrt (\<lambda>a b. fm_number b < fm_number a) (sort_newest fs)"
proof (induction fs)
  case (Cons f fs)
  then show ?case using insert_newest_sorted [of f "sort_newest fs"] by (simp add: sort_newest_def [of "f # fs"] flip: sort_newest_def)
qed (simp add: sort_newest_def)

lemma files_around_exact:
  "\<forall>f \<in> set fs. file_ok f \<Longrightarrow> files_around BytewiseComparator u fs = Some (filter (\<lambda>f. uk (fm_smallest f) \<le> u \<and> u \<le> uk (fm_largest f)) fs)"
  by (induction fs) (auto simp: file_okD extract_uk bytes_compare bytes_sign)

text \<open>What the search of a level has to give: the first file with an entry that is seen has the newest one of the level.\<close>

definition search_order :: "(FileMetaData \<Rightarrow> (slice \<times> slice) set) \<Rightarrow> FileMetaData list \<Rightarrow> FileMetaData list \<Rightarrow> bool" where
  "search_order S files fs \<longleftrightarrow> set fs \<subseteq> set files \<and> ((\<forall>f \<in> set fs. S f = {}) \<longrightarrow> (\<forall>g \<in> set files. S g = {})) \<and>
     (\<forall>pre f post. fs = pre @ f # post \<and> (\<forall>h \<in> set pre. S h = {}) \<and> S f \<noteq> {} \<longrightarrow>
       (\<forall>g \<in> set files. g \<noteq> f \<longrightarrow> (\<forall>e \<in> S f. \<forall>e' \<in> S g. tag64 (fst e') < tag64 (fst e))))"

abbreviation (input) seen_of :: "slice \<Rightarrow> SequenceNumber \<Rightarrow> (FileMetaData \<Rightarrow> (slice \<times> slice) list) \<Rightarrow> FileMetaData \<Rightarrow> (slice \<times> slice) set" where
  "seen_of u sq C f \<equiv> seen u sq (set (C f))"

lemma search_level0:
  assumes h: "version_holds v C"
  shows "\<exists>fs. files_to_search BytewiseComparator v u ik 0 = Some fs \<and> search_order (seen_of u sq C) (v_files v 0) fs"
proof -
  let ?in = "\<lambda>f. uk (fm_smallest f) \<le> u \<and> u \<le> uk (fm_largest f)"
  let ?fs = "sort_newest (filter ?in (v_files v 0))"
  have holds: "file_holds f (C f)" if "f \<in> set (v_files v 0)" for f using version_holdsD [OF h levels_pos that] .
  have search: "files_to_search BytewiseComparator v u ik 0 = Some ?fs"
    using files_around_exact [of "v_files v 0" u] file_holds_bounds(3) [OF holds] by (simp add: files_to_search_def)
  have out: "seen_of u sq C f = {}" if "f \<in> set (v_files v 0)" "\<not> ?in f" for f
    using file_holds_bounds(1,2) [OF holds [OF that(1)]] that(2) korder_user by (fastforce simp: seen_def)
  have d: "distinct (map fm_number (v_files v 0))" "newest_first v C" using h by (simp_all add: version_holds_def)
  have "search_order (seen_of u sq C) (v_files v 0) ?fs" unfolding search_order_def
  proof (intro conjI allI impI ballI)
    show "set ?fs \<subseteq> set (v_files v 0)" by auto
    show "seen_of u sq C g = {}" if "\<forall>f \<in> set ?fs. seen_of u sq C f = {}" "g \<in> set (v_files v 0)" for g
      using that out [of g] by (cases "?in g") auto
    fix pre f post g e e'
    assume p: "?fs = pre @ f # post \<and> (\<forall>h \<in> set pre. seen_of u sq C h = {}) \<and> seen_of u sq C f \<noteq> {}"
      and g: "g \<in> set (v_files v 0)" "g \<noteq> f" and e: "e \<in> seen_of u sq C f" "e' \<in> seen_of u sq C g"
    have "?in g" using out [OF g(1)] e(2) by auto
    then have "g \<in> set ?fs" using g(1) by simp
    then have "g \<in> set post" using p g(2) e(2) by auto
    moreover have "sorted_wrt (\<lambda>a b. fm_number b < fm_number a) ?fs"
      by (rule sort_newest_sorted) (rule distinct_map_filter [OF d(1)])
    then have "sorted_wrt (\<lambda>a b. fm_number b < fm_number a) (pre @ f # post)" using p by (simp only:)
    ultimately have "fm_number g < fm_number f" by (simp add: sorted_wrt_append)
    moreover have "f \<in> set (v_files v 0)"
    proof -
      have "f \<in> set ?fs" using p by (simp only: set_append) simp
      then show ?thesis by simp
    qed
    ultimately show "tag64 (fst e') < tag64 (fst e)"
      using d(2) [unfolded newest_first_def, rule_format, OF levels_pos levels_pos _ g(1), of f e e'] e by (simp add: seen_def)
  qed
  with search show ?thesis by blast
qed

lemma search_deeper:
  assumes h: "version_holds v C" and level: "0 < level" "level < kNumLevels" and sq: "sq \<le> kMaxSequenceNumber"
  shows "\<exists>fs. files_to_search BytewiseComparator v u (ikey u sq kTypeValue) level = Some fs \<and> search_order (seen_of u sq C) (v_files v level) fs"
proof -
  let ?files = "v_files v level" and ?t = "ikey u sq kTypeValue"
  let ?j = "first_file ?t ?files"
  have holds: "file_holds (?files ! i) (C (?files ! i))" if "i < length ?files" for i using h that level by (auto simp: version_holds_def)
  have ok: "\<forall>f \<in> set ?files. file_ok f" using h level file_holds_bounds(3) by (auto simp: version_holds_def)
  have s: "level_sorted ?files" using h level by (simp add: version_holds_def)
  note b = file_holds_bounds [OF holds]
  have keys: "key_ok (fst e)" if "i < length ?files" "e \<in> set (C (?files ! i))" for i e using holds [OF that(1)] that(2) by (simp add: file_holds_def)
  have before: "seen_of u sq C (?files ! i) = {}" if "i < ?j" for i
  proof -
    have i: "i < length ?files" using that first_file_le [of ?t ?files] by simp
    have "e \<notin> seen_of u sq C (?files ! i)" for e
    proof
      assume e: "e \<in> seen_of u sq C (?files ! i)"
      then have m: "e \<in> set (C (?files ! i))" by (simp add: seen_def)
      have "\<not> korder (fst e) < korder ?t" using seen_iff [OF keys [OF i m] sq, of u] e by (simp add: seen_def)
      then show False using b(2) [OF i m] first_file_before [OF that] by auto
    qed
    then show ?thesis by blast
  qed
  show ?thesis
  proof (cases "?j < length ?files")
    case False
    then have "seen_of u sq C g = {}" if "g \<in> set ?files" for g using before that by (auto simp: in_set_conv_nth)
    moreover have "files_to_search BytewiseComparator v u ?t level = Some []" using False level(1) FindFile_exact [OF s ok ikey_ok] by (simp add: files_to_search_def)
    ultimately show ?thesis by (auto simp: search_order_def)
  next
    case True
    let ?f = "?files ! ?j"
    have later: "korder (fm_largest ?f) < korder (fst e')" if "i < length ?files" "?j < i" "e' \<in> set (C (?files ! i))" for i e'
      using level_sorted_nth [OF s that(2,1)] b(1) [OF that(1,3)] by simp
    have f: "file_ok ?f" "internal_ok (fm_smallest ?f)" using ok True file_okD by auto
    have search: "files_to_search BytewiseComparator v u ?t level = Some (if u < uk (fm_smallest ?f) then [] else [?f])"
      using True level(1) f FindFile_exact [OF s ok ikey_ok] by (simp add: files_to_search_def Let_def extract_uk bytes_compare bytes_sign)
    have cases: "i < ?j \<or> i = ?j \<or> ?j < i" for i by linarith
    show ?thesis
    proof (cases "u < uk (fm_smallest ?f)")
      case small: True
      have "seen_of u sq C g = {}" if "g \<in> set ?files" for g
      proof -
        obtain i where i: "i < length ?files" "g = ?files ! i" using \<open>g \<in> set ?files\<close> by (metis in_set_conv_nth)
        have "uk (fst e) \<noteq> u" if "e \<in> set (C (?files ! i))" "\<not> i < ?j" for e
        proof -
          have "korder (fm_smallest ?f) \<le> korder (fst e)"
          proof (cases "i = ?j")
            case True
            then show ?thesis using b(1) [OF i(1) that(1)] by simp
          next
            case False
            then have "?j < i" using that(2) by simp
            then show ?thesis using later [OF i(1) _ that(1)] file_okD(5) [OF f(1)] by simp
          qed
          then show ?thesis using korder_user small by fastforce
        qed
        then have "seen_of u sq C g = {}" if "\<not> i < ?j" unfolding seen_def i(2) using that by blast
        then show ?thesis using before [of i] unfolding i(2) by blast
      qed
      then show ?thesis using search small by (auto simp: search_order_def)
    next
      case False
      have other: "tag64 (fst e') < tag64 (fst e)" if gs: "g \<in> set ?files" and "g \<noteq> ?f" "e \<in> seen_of u sq C ?f" "e' \<in> seen_of u sq C g" for g e e'
      proof -
        obtain i where i: "i < length ?files" "g = ?files ! i" using gs by (metis in_set_conv_nth)
        have "\<not> i < ?j" using before [of i] that(4) unfolding i(2) by blast
        moreover have "i \<noteq> ?j" using that(2) unfolding i(2) by blast
        ultimately have "?j < i" by linarith
        moreover have m: "e \<in> set (C ?f)" "e' \<in> set (C (?files ! i))" "uk (fst e) = uk (fst e')" using that(3,4) i(2) by (simp_all add: seen_def)
        ultimately have "korder (fst e) < korder (fst e')" using later [OF i(1)] b(2) [OF True m(1)] by (meson order.strict_trans1)
        then show ?thesis using m(3) by (simp add: korder_less)
      qed
      have none: "seen_of u sq C g = {}" if "seen_of u sq C ?f = {}" and gs: "g \<in> set ?files" for g
      proof -
        obtain i where i: "i < length ?files" "g = ?files ! i" using gs by (metis in_set_conv_nth)
        have last: "last (C ?f) \<in> set (C ?f)" "fm_largest ?f = fst (last (C ?f))" using holds [OF True] by (simp_all add: file_holds_def)
        have "\<not> korder (fm_largest ?f) < korder ?t" using first_file_at [OF True] by auto
        moreover have "last (C ?f) \<notin> seen_of u sq C ?f" using that(1) by blast
        ultimately have "uk (fm_largest ?f) \<noteq> u" "\<not> korder (fm_largest ?f) < korder ?t"
          using last seen_iff [OF keys [OF True last(1)] sq, of u] by (simp_all add: seen_def)
        then have u: "u < uk (fm_largest ?f)" by (auto simp: korder_less)
        have "uk (fst e) \<noteq> u" if "e \<in> set (C (?files ! i))" "?j < i" for e
          using korder_user [OF less_imp_le [OF later [OF i(1) that(2,1)]]] u by simp
        then have "seen_of u sq C g = {}" if "?j < i" unfolding seen_def i(2) using that by blast
        then show ?thesis using before [of i] cases [of i] that(1) unfolding i(2) by blast
      qed
      have "search_order (seen_of u sq C) ?files [?f]" unfolding search_order_def
      proof (intro conjI allI impI ballI)
        show "set [?f] \<subseteq> set ?files" using True by simp
        show "seen_of u sq C g = {}" if "\<forall>f \<in> set [?f]. seen_of u sq C f = {}" "g \<in> set ?files" for g using none that by simp
        fix pre f post g e e'
        assume "[?f] = pre @ f # post \<and> (\<forall>h \<in> set pre. seen_of u sq C h = {}) \<and> seen_of u sq C f \<noteq> {}" and g: "g \<in> set ?files" "g \<noteq> f"
          and e: "e \<in> seen_of u sq C f" "e' \<in> seen_of u sq C g"
        then have "f = ?f" by (cases pre) auto
        then show "tag64 (fst e') < tag64 (fst e)" using other g e by blast
      qed
      then show ?thesis using search False by auto
    qed
  qed
qed

section \<open>The whole lookup\<close>

lemma charge_value [simp]: "gs_value (charge_seek g) = gs_value g"
  by (auto simp: charge_seek_def split: option.splits prod.splits)

definition found_in :: "(FileMetaData \<Rightarrow> (slice \<times> slice) set) \<Rightarrow> FileMetaData list \<Rightarrow> slice \<Rightarrow> Status option \<Rightarrow> slice \<Rightarrow> bool" where
  "found_in S fs old s val \<longleftrightarrow> (\<exists>pre f post st. fs = pre @ f # post \<and> (\<forall>h \<in> set pre. S h = {}) \<and> S f \<noteq> {} \<and> s = Some st \<and> answers (S f) old st val)"

lemma NotFound_empty: "\<exists>st. Status_NotFound [] [] = Some st \<and> IsNotFound st = Some True"
  by (simp add: Status_NotFound_def new_Status_fits IsNotFound_def Status_code_def EncodeFixed32_parts(2))

lemma OK_ok: "Status_ok Status_OK"
  by (simp add: Status_ok_def Status_OK_def)

lemma get_in_files_exact:
  assumes "\<forall>f \<in> set fs. file_holds f (C f) \<and> serves_file tc options f (C f)" and "sq \<le> kMaxSequenceNumber"
  shows "\<exists>s g'. get_in_files BytewiseComparator tc options u (ikey u sq kTypeValue) level fs g = Some (s, g') \<and>
    (if \<forall>f \<in> set fs. seen_of u sq C f = {} then s = None \<and> gs_value g' = gs_value g
     else found_in (seen_of u sq C) fs (gs_value g) s (gs_value g'))"
  using assms(1)
proof (induction fs arbitrary: g)
  case Nil
  then show ?case by simp
next
  case (Cons f fs)
  let ?g1 = "(charge_seek g)\<lparr>gs_last_file_read := Some (f, level)\<rparr>"
  obtain s where s: "TableCache_Get tc options (fm_number f) (fm_file_size f) (ikey u sq kTypeValue)
      (\<lambda>a k v. do { saver \<leftarrow> a; SaveValue BytewiseComparator u saver k v }) (Some \<lparr>sv_state = Saver_kNotFound, sv_value = gs_value g\<rparr>) = Some (Status_OK, Some s)"
      "file_answer u sq (C f) (gs_value g) s"
    using get_file [of f "C f" tc options sq u "gs_value g"] Cons.prems assms(2) by auto
  show ?case
  proof (cases "seen_of u sq C f = {}")
    case True
    then have sv: "s = \<lparr>sv_state = Saver_kNotFound, sv_value = gs_value g\<rparr>" using s(2) by (simp add: file_answer_def)
    let ?g2 = "?g1\<lparr>gs_value := gs_value g\<rparr>"
    obtain s' g' where r: "get_in_files BytewiseComparator tc options u (ikey u sq kTypeValue) level fs ?g2 = Some (s', g')"
        "if \<forall>f \<in> set fs. seen_of u sq C f = {} then s' = None \<and> gs_value g' = gs_value ?g2 else found_in (seen_of u sq C) fs (gs_value ?g2) s' (gs_value g')"
      using Cons.IH [of ?g2] Cons.prems by auto
    have "get_in_files BytewiseComparator tc options u (ikey u sq kTypeValue) level (f # fs) g = Some (s', g')"
      using s(1) r(1) by (simp add: sv Let_def OK_ok)
    moreover have "found_in (seen_of u sq C) (f # fs) (gs_value g) s' (gs_value g')" if "found_in (seen_of u sq C) fs (gs_value g) s' (gs_value g')"
    proof -
      obtain pre f' post st where p: "fs = pre @ f' # post" "\<forall>h \<in> set pre. seen_of u sq C h = {}" "seen_of u sq C f' \<noteq> {}" "s' = Some st"
          "answers (seen_of u sq C f') (gs_value g) st (gs_value g')"
        using \<open>found_in (seen_of u sq C) fs (gs_value g) s' (gs_value g')\<close> unfolding found_in_def by blast
      show ?thesis unfolding found_in_def by (rule exI [of _ "f # pre"], rule exI [of _ f'], rule exI [of _ post], rule exI [of _ st]) (use p True in simp)
    qed
    moreover have q: "(\<forall>f \<in> set (f # fs). seen_of u sq C f = {}) = (\<forall>f \<in> set fs. seen_of u sq C f = {})" using True by simp
    ultimately show ?thesis using r(2) unfolding q by (intro exI [of _ s'] exI [of _ g']) (auto simp only: split: if_splits, simp_all)
  next
    case False
    then obtain e where e: "e \<in> seen_of u sq C f" "\<forall>e' \<in> seen_of u sq C f. tag64 (fst e') \<le> tag64 (fst e)"
        "s = (if vtype (fst e) = kTypeValue then \<lparr>sv_state = Saver_kFound, sv_value = snd e\<rparr> else \<lparr>sv_state = Saver_kDeleted, sv_value = gs_value g\<rparr>)"
      using s(2) by (auto simp: file_answer_def)
    obtain nf where nf: "Status_NotFound [] [] = Some nf" "IsNotFound nf = Some True" using NotFound_empty by blast
    let ?st = "if vtype (fst e) = kTypeValue then Status_OK else nf"
    have "get_in_files BytewiseComparator tc options u (ikey u sq kTypeValue) level (f # fs) g = Some (Some ?st, ?g1\<lparr>gs_value := sv_value s\<rparr>)"
      using s(1) nf(1) by (simp add: e(3) Let_def OK_ok)
    moreover have "answers (seen_of u sq C f) (gs_value g) ?st (sv_value s)"
      by (rule answersI [OF e(1)]) (use e(2,3) nf(2) in auto)
    then have "found_in (seen_of u sq C) (f # fs) (gs_value g) (Some ?st) (sv_value s)"
      unfolding found_in_def by (intro exI [of _ "[]"] exI [of _ f] exI [of _ fs] exI [of _ ?st]) (use False in simp)
    ultimately show ?thesis using False by (intro exI conjI) auto
  qed
qed

text \<open>The files of several levels, and an answer that is the newest of its level.\<close>

definition found_at :: "slice \<Rightarrow> SequenceNumber \<Rightarrow> (FileMetaData \<Rightarrow> (slice \<times> slice) list) \<Rightarrow> Version \<Rightarrow> nat list \<Rightarrow> slice \<Rightarrow> Status option \<Rightarrow> slice \<Rightarrow> bool" where
  "found_at u sq C v ls old s val \<longleftrightarrow> (\<exists>lpre level lpost f st. ls = lpre @ level # lpost \<and> (\<forall>l \<in> set lpre. \<forall>g \<in> set (v_files v l). seen_of u sq C g = {}) \<and>
     f \<in> set (v_files v level) \<and> (\<forall>g \<in> set (v_files v level). g \<noteq> f \<longrightarrow> (\<forall>e \<in> seen_of u sq C f. \<forall>e' \<in> seen_of u sq C g. tag64 (fst e') < tag64 (fst e))) \<and>
     s = Some st \<and> answers (seen_of u sq C f) old st val)"

lemma get_in_levels_exact:
  assumes h: "version_holds v C" and served: "version_served tc options v C" and sq: "sq \<le> kMaxSequenceNumber" and "\<forall>l \<in> set ls. l < kNumLevels"
  shows "\<exists>s g'. get_in_levels BytewiseComparator tc options v u (ikey u sq kTypeValue) ls g = Some (s, g') \<and>
    (if \<forall>l \<in> set ls. \<forall>f \<in> set (v_files v l). seen_of u sq C f = {} then s = None \<and> gs_value g' = gs_value g
     else found_at u sq C v ls (gs_value g) s (gs_value g'))"
  using assms(4)
proof (induction ls arbitrary: g)
  case Nil
  then show ?case by simp
next
  case (Cons l ls)
  have l: "l < kNumLevels" using Cons.prems by simp
  obtain fs where fs: "files_to_search BytewiseComparator v u (ikey u sq kTypeValue) l = Some fs" "search_order (seen_of u sq C) (v_files v l) fs"
    using search_level0 [OF h, of u "ikey u sq kTypeValue" sq] search_deeper [OF h _ l sq, of u] by (cases "l = 0") auto
  note so = fs(2) [unfolded search_order_def]
  have sub: "\<forall>f \<in> set fs. file_holds f (C f) \<and> serves_file tc options f (C f)" using so h served l by (auto simp: version_holds_def version_served_def)
  obtain s g1 where r: "get_in_files BytewiseComparator tc options u (ikey u sq kTypeValue) l fs g = Some (s, g1)"
      "if \<forall>f \<in> set fs. seen_of u sq C f = {} then s = None \<and> gs_value g1 = gs_value g else found_in (seen_of u sq C) fs (gs_value g) s (gs_value g1)"
    using get_in_files_exact [OF sub sq] by blast
  show ?case
  proof (cases "\<forall>f \<in> set fs. seen_of u sq C f = {}")
    case True
    then have none: "\<forall>f \<in> set (v_files v l). seen_of u sq C f = {}" and s: "s = None" "gs_value g1 = gs_value g" using so r(2) by auto
    obtain s' g' where r': "get_in_levels BytewiseComparator tc options v u (ikey u sq kTypeValue) ls g1 = Some (s', g')"
        "if \<forall>l \<in> set ls. \<forall>f \<in> set (v_files v l). seen_of u sq C f = {} then s' = None \<and> gs_value g' = gs_value g1 else found_at u sq C v ls (gs_value g1) s' (gs_value g')"
      using Cons.IH [of g1] Cons.prems by auto
    have "found_at u sq C v (l # ls) (gs_value g) s' (gs_value g')" if "found_at u sq C v ls (gs_value g) s' (gs_value g')"
    proof -
      obtain lpre level lpost f st where p: "ls = lpre @ level # lpost" "\<forall>l \<in> set lpre. \<forall>g \<in> set (v_files v l). seen_of u sq C g = {}" "f \<in> set (v_files v level)"
          "\<forall>g \<in> set (v_files v level). g \<noteq> f \<longrightarrow> (\<forall>e \<in> seen_of u sq C f. \<forall>e' \<in> seen_of u sq C g. tag64 (fst e') < tag64 (fst e))"
          "s' = Some st" "answers (seen_of u sq C f) (gs_value g) st (gs_value g')"
        using \<open>found_at u sq C v ls (gs_value g) s' (gs_value g')\<close> unfolding found_at_def by blast
      show ?thesis unfolding found_at_def
        by (rule exI [of _ "l # lpre"], rule exI [of _ level], rule exI [of _ lpost], rule exI [of _ f], rule exI [of _ st]) (use p none in simp)
    qed
    moreover have "get_in_levels BytewiseComparator tc options v u (ikey u sq kTypeValue) (l # ls) g = Some (s', g')"
      using fs(1) r(1) r'(1) s(1) by simp
    moreover have q: "(\<forall>l \<in> set (l # ls). \<forall>f \<in> set (v_files v l). seen_of u sq C f = {}) = (\<forall>l \<in> set ls. \<forall>f \<in> set (v_files v l). seen_of u sq C f = {})"
      using none by simp
    ultimately show ?thesis using r'(2) unfolding q s(2) by (intro exI [of _ s'] exI [of _ g']) (auto simp only: split: if_splits)
  next
    case False
    then have "found_in (seen_of u sq C) fs (gs_value g) s (gs_value g1)" using r(2) by argo
    then obtain pre f post st where p: "fs = pre @ f # post" "\<forall>h \<in> set pre. seen_of u sq C h = {}" "seen_of u sq C f \<noteq> {}" "s = Some st"
        "answers (seen_of u sq C f) (gs_value g) st (gs_value g1)"
      unfolding found_in_def by blast
    have f: "f \<in> set (v_files v l)" using so p(1) by auto
    have newest: "\<forall>g \<in> set (v_files v l). g \<noteq> f \<longrightarrow> (\<forall>e \<in> seen_of u sq C f. \<forall>e' \<in> seen_of u sq C g. tag64 (fst e') < tag64 (fst e))"
      using so p(1,2,3) by blast
    have "found_at u sq C v (l # ls) (gs_value g) s (gs_value g1)" unfolding found_at_def
      by (rule exI [of _ "[]"], rule exI [of _ l], rule exI [of _ ls], rule exI [of _ f], rule exI [of _ st]) (use p f newest in simp)
    moreover have "\<not> (\<forall>l \<in> set (l # ls). \<forall>f \<in> set (v_files v l). seen_of u sq C f = {})" using f p(3) by auto
    ultimately show ?thesis using fs(1) r(1) p(4) by auto
  qed
qed

lemma answers_whole:
  assumes "answers V old st val" and "V \<subseteq> W" and "\<And>e e'. e \<in> V \<Longrightarrow> e' \<in> W \<Longrightarrow> e' \<notin> V \<Longrightarrow> tag64 (fst e') \<le> tag64 (fst e)"
  shows "answers W old st val"
proof -
  obtain k x where e: "(k, x) \<in> V" "\<forall>(k', _) \<in> V. tag64 k' \<le> tag64 k"
      "if vtype k = kTypeValue then st = Status_OK \<and> val = x else IsNotFound st = Some True \<and> val = old"
    using assms(1) unfolding answers_def by blast
  show ?thesis
  proof (rule answersI)
    show "(k, x) \<in> W" using e(1) assms(2) by blast
    fix e' assume "e' \<in> W"
    then show "tag64 (fst e') \<le> tag64 (fst (k, x))" using e(2) assms(3) [OF e(1), of e'] by (cases "e' \<in> V") (auto simp: case_prod_beta)
  qed (use e(3) in simp)
qed


text \<open>
  C5: A lookup in a version finds the newest entry that the snapshot sees. When the levels of a version are sorted and newer
  entries come first, \<open>Get\<close> passes over all files that cannot have the key, and it
  returns the value of the newest entry of the user key not newer than the snapshot, or NotFound when that is a
  deletion or there is none, in which case the value of the caller is as it was.
\<close>

theorem version_get:
  assumes "version_holds v C" and "version_served tc options v C" and "sq \<le> kMaxSequenceNumber" and "length u + 8 < 2 ^ 32"
  shows "\<exists>k st val stats. new_LookupKey u sq = Some k \<and> Version_Get BytewiseComparator tc options v k old = Some (st, val, stats) \<and>
    (if seen u sq (version_entries v C) = {} then IsNotFound st = Some True \<and> val = old
     else answers (seen u sq (version_entries v C)) old st val)"
proof -
  let ?g = "\<lparr>gs_value = old, gs_stats = \<lparr>seek_file = None, seek_file_level = - 1\<rparr>, gs_last_file_read = None\<rparr>" and ?ls = "[0 ..< kNumLevels]"
  obtain k where k: "new_LookupKey u sq = Some k" "internal_key k = ikey u sq kTypeValue" "user_key k = u" using LookupKey_parts [OF assms(3,4)] by blast
  obtain nf where nf: "Status_NotFound [] [] = Some nf" "IsNotFound nf = Some True" using NotFound_empty by blast
  obtain s g' where r: "get_in_levels BytewiseComparator tc options v u (ikey u sq kTypeValue) ?ls ?g = Some (s, g')"
      "if \<forall>l \<in> set ?ls. \<forall>f \<in> set (v_files v l). seen_of u sq C f = {} then s = None \<and> gs_value g' = gs_value ?g
       else found_at u sq C v ?ls (gs_value ?g) s (gs_value g')"
    using get_in_levels_exact [OF assms(1-3), of ?ls u ?g] by auto
  have entries: "seen u sq (version_entries v C) = (\<Union>l \<in> set ?ls. \<Union>f \<in> set (v_files v l). seen_of u sq C f)"
    by (auto simp: version_entries_def seen_def)
  have get: "Version_Get BytewiseComparator tc options v k old = Some (case s of None \<Rightarrow> nf | Some st \<Rightarrow> st, gs_value g', gs_stats g')"
    using r(1) k nf(1) by (simp add: Version_Get_def split: option.split)
  show ?thesis
  proof (cases "\<forall>l \<in> set ?ls. \<forall>f \<in> set (v_files v l). seen_of u sq C f = {}")
    case True
    then have "seen u sq (version_entries v C) = {}" "s = None" "gs_value g' = old" using entries r(2) by auto
    then show ?thesis using k(1) get nf(2) by auto
  next
    case False
    then have f: "found_at u sq C v ?ls old s (gs_value g')" using r(2) by (simp only: if_False) simp
    obtain lpre level lpost f st where p: "?ls = lpre @ level # lpost" "\<forall>l \<in> set lpre. \<forall>g \<in> set (v_files v l). seen_of u sq C g = {}"
        "f \<in> set (v_files v level)" "\<forall>g \<in> set (v_files v level). g \<noteq> f \<longrightarrow> (\<forall>e \<in> seen_of u sq C f. \<forall>e' \<in> seen_of u sq C g. tag64 (fst e') < tag64 (fst e))"
        "s = Some st" "answers (seen_of u sq C f) old st (gs_value g')"
      using f unfolding found_at_def by blast
    have level: "level < kNumLevels"
    proof -
      have "level \<in> set ?ls" unfolding p(1) by simp
      then show ?thesis by simp
    qed
    have sub: "seen_of u sq C f \<subseteq> seen u sq (version_entries v C)" using p(3) level by (auto simp: entries)
    have newest: "newest_first v C" using assms(1) by (simp add: version_holds_def)
    have "answers (seen u sq (version_entries v C)) old st (gs_value g')"
    proof (rule answers_whole [OF p(6) sub])
      fix e e' assume e: "e \<in> seen_of u sq C f" "e' \<in> seen u sq (version_entries v C)" "e' \<notin> seen_of u sq C f"
      then obtain l g where g: "l < kNumLevels" "g \<in> set (v_files v l)" "e' \<in> seen_of u sq C g" by (auto simp: entries)
      have "sorted_wrt (<) (lpre @ level # lpost)" unfolding p(1) [symmetric] by simp
      moreover have "l \<in> set (lpre @ level # lpost)" unfolding p(1) [symmetric] using g(1) by simp
      ultimately have before: "l \<in> set lpre" if "l < level" using that by (auto simp: sorted_wrt_append)
      have "level \<le> l" using before p(2) g by (metis empty_iff not_le)
      then show "tag64 (fst e') \<le> tag64 (fst e)"
      proof (cases "l = level")
        case True
        then show ?thesis using p(4) g e by (metis order.strict_implies_order)
      next
        case False
        then have "level < l" using \<open>level \<le> l\<close> by simp
        moreover have "uk (fst e) = uk (fst e')" "e \<in> set (C f)" "e' \<in> set (C g)" using e(1) g(3) by (simp_all add: seen_def)
        ultimately show ?thesis
          using newest [unfolded newest_first_def, rule_format, OF level g(1) p(3) g(2), of e e'] by simp
      qed
    qed
    moreover have "seen u sq (version_entries v C) \<noteq> {}" using p(6) sub by (auto simp: answers_def)
    ultimately show ?thesis using k(1) get p(5) by auto
  qed
qed

section \<open>A version of a table file\<close>

text \<open>A file that was built from entries and that the environment opens serves its entries.\<close>

lemma built_file_served:
  assumes opts: "db_options opts" and w: "writable_file wfile content" "content s = []" and es: "length es < 2 ^ 31" "sorted_wrt (\<lambda>a b. korder (fst a) < korder (fst b)) es"
    and keys: "\<forall>e \<in> set es. internal_ok (fst e)" and built: "build_table opts wfile es s = Some (st, s')" "Status_ok st" "serves raf (content s')"
    and tc: "tc_options tc = opts" "tc_blocks tc = None" "tc_Lookup tc (EncodeFixed64 (fm_number f)) = None"
    and name: "TableFileName (tc_dbname tc) (fm_number f) = Some fname" "tc_NewRandomAccessFile tc fname = (Status_OK, raf)"
    and size: "fm_file_size f = of_nat (length (content s'))"
  shows "serves_file tc options f es"
  unfolding serves_file_def
proof (intro allI impI)
  fix k saver and arg :: "Saver option"
  assume k: "internal_ok k"
  have c: "opt_comparator opts = InternalKeyComparator BytewiseComparator" using opts by (simp add: db_options_def)
  have less: "less_key (Compare (opt_comparator opts)) a b = (korder a < korder b)" if "internal_ok a" "internal_ok b" for a b
    unfolding c internal_less [OF that] korder_less ..
  have sorted: "sorted_wrt (less_key (Compare (opt_comparator opts))) (map fst es)"
    unfolding sorted_wrt_map by (rule sorted_wrt_mono_rel [OF _ es(2)]) (use keys less in auto)
  have keys': "\<forall>k \<in> set (map fst es). internal_ok k" using keys by auto
  obtain t arg' where t: "Table_Open opts raf (tc_new_id tc) (of_nat (length (content s'))) = Some (Status_OK, Some t)"
      "InternalGet t None options k saver arg = Some (Status_OK, arg')"
      "case dropWhile (\<lambda>e. less_key (Compare (opt_comparator opts)) (fst e) k) es of [] \<Rightarrow> arg' = arg
       | (k', v) # _ \<Rightarrow> arg' = saver arg k' v \<or> arg' = arg \<and> uk k' \<noteq> uk k"
    using table_lookup [OF opts w es(1) sorted keys' built k, where new_id = "tc_new_id tc" and options = options and saver = saver and arg = arg] by blast
  have "dropWhile (\<lambda>e. less_key (Compare (opt_comparator opts)) (fst e) k) es = dropWhile (\<lambda>e. korder (fst e) < korder k) es"
    by (rule dropWhile_cong) (use keys k less in auto)
  moreover have "FindTable tc (fm_number f) (fm_file_size f) = Some (Status_OK, Some t, Some (EncodeFixed64 (fm_number f), t))"
    using t(1) tc name size by (simp add: FindTable_def Let_def OK_ok)
  then have "TableCache_Get tc options (fm_number f) (fm_file_size f) k saver arg = Some (Status_OK, arg')"
    using t(2) tc(2) by (simp add: TableCache_Get_def OK_ok)
  ultimately show "\<exists>arg'. TableCache_Get tc options (fm_number f) (fm_file_size f) k saver arg = Some (Status_OK, arg') \<and>
      (case dropWhile (\<lambda>e. korder (fst e) < korder k) es of [] \<Rightarrow> arg' = arg | (k', v) # _ \<Rightarrow> arg' = saver arg k' v \<or> arg' = arg \<and> uk k' \<noteq> uk k)"
    using t(3) by auto
qed

text \<open>The table of two entries, as the only file of level 1.\<close>

definition demo_meta_file :: FileMetaData where
  "demo_meta_file = new_FileMetaData\<lparr>fm_number := 7, fm_file_size := 163, fm_smallest := ikey [97] 5 1, fm_largest := ikey [98] 7 1\<rparr>"

definition demo_version :: Version where
  "demo_version = new_Version\<lparr>v_files := (\<lambda>_. [])(1 := [demo_meta_file])\<rparr>"

definition demo_cache :: TableCache where
  "demo_cache = \<lparr>tc_NewRandomAccessFile = (\<lambda>fname. if fname = lit ''db/000007.ldb'' then (Status_OK, memory_reader demo_file) else (mf_error, memory_reader [])),
     tc_dbname = lit ''db'', tc_options = demo_options, tc_Lookup = (\<lambda>_. None), tc_new_id = 1, tc_blocks = None\<rparr>"

lemma demo_key_ok: "key_ok (ikey [97] 5 1)" "key_ok (ikey [98] 7 1)" "korder (ikey [97] 5 1) < korder (ikey [98] 7 1)"
proof -
  have "(5 :: u64) \<le> kMaxSequenceNumber" "(7 :: u64) \<le> kMaxSequenceNumber" by (simp_all add: kMaxSequenceNumber_def)
  then show "key_ok (ikey [97] 5 1)" "key_ok (ikey [98] 7 1)" by (simp_all add: key_ok_def ikey_ok ikey_parts)
  show "korder (ikey [97] 5 1) < korder (ikey [98] 7 1)" by (simp add: korder_less)
qed

lemma demo_holds: "version_holds demo_version (\<lambda>_. demo_entries)"
  unfolding version_holds_def newest_first_def
  by (auto simp: demo_version_def demo_meta_file_def file_holds_def demo_entries_def new_Version_def demo_key_ok level_sorted_def split: if_splits)

lemma demo_served: "version_served demo_cache new_ReadOptions demo_version (\<lambda>_. demo_entries)"
proof -
  have "serves_file demo_cache new_ReadOptions demo_meta_file demo_entries"
  proof (rule built_file_served [OF demo_db memory_file.writable_file_axioms refl _ _ _ demo_build OK_ok serves_memory [of demo_file]])
    show "TableFileName (tc_dbname demo_cache) (fm_number demo_meta_file) = Some (lit ''db/000007.ldb'')"
      by (simp add: demo_cache_def demo_meta_file_def) code_simp
  qed (simp_all add: demo_cache_def demo_meta_file_def demo_entries_def demo_key_ok ikey_ok length_demo_file)
  then show ?thesis by (auto simp: version_served_def demo_version_def new_Version_def split: if_splits)
qed

theorem version_get_witness:
  "\<exists>k st val stats. new_LookupKey [97] 9 = Some k \<and> Version_Get BytewiseComparator demo_cache new_ReadOptions demo_version k [] = Some (st, val, stats) \<and>
    st = Status_OK \<and> val = [1]"
proof -
  have s: "(9 :: u64) \<le> kMaxSequenceNumber" "(5 :: u64) \<le> kMaxSequenceNumber" "(7 :: u64) \<le> kMaxSequenceNumber" by (simp_all add: kMaxSequenceNumber_def)
  have "version_entries demo_version (\<lambda>_. demo_entries) = set demo_entries"
  proof (intro subset_antisym subsetI)
    fix e assume "e \<in> set demo_entries"
    then show "e \<in> version_entries demo_version (\<lambda>_. demo_entries)"
      unfolding version_entries_def by (intro UN_I [of 1]) (simp_all add: kNumLevels_def demo_version_def)
  qed (auto simp: version_entries_def split: if_splits)
  moreover have "seen [97] 9 (set demo_entries) = {(ikey [97] 5 1, [1])}"
    using s by (auto simp: seen_def demo_entries_def ikey_parts)
  ultimately have seen: "seen [97] 9 (version_entries demo_version (\<lambda>_. demo_entries)) = {(ikey [97] 5 1, [1])}" by simp
  obtain k st val stats where g: "new_LookupKey [97] 9 = Some k"
      "Version_Get BytewiseComparator demo_cache new_ReadOptions demo_version k [] = Some (st, val, stats)" "answers {(ikey [97] 5 1, [1])} [] st val"
    using version_get [OF demo_holds demo_served s(1), of "[97]" "[]"] unfolding seen by auto
  have "st = Status_OK \<and> val = [1]" using g(3) s(2) by (simp add: answers_def ikey_parts)
  with g(1,2) show ?thesis by blast
qed

end
