(* ===== verification/LdbBuilder.thy ===== *)
theory LdbBuilder
  imports LdbVersionProps
begin

text \<open>
  How edits make a new version (class VersionSet::Builder of db/version_set.cc): deleted and added files are collected per level, and \<open>SaveTo\<close> merges
  the added files with those of the base version. The result is the base version with the edits applied one after another.
\<close>

section \<open>The builder\<close>

record LevelState =
  deleted_files :: "u64 set"
  added_files :: "FileMetaData list"

text \<open>The pointers of the version set, where the next compaction of a level starts, are changed by \<open>Apply\<close> as well.\<close>

record Builder =
  b_base :: Version
  b_levels :: "nat \<Rightarrow> LevelState"
  b_compact_pointer :: "nat \<Rightarrow> slice"

definition new_Builder :: "(nat \<Rightarrow> slice) \<Rightarrow> Version \<Rightarrow> Builder" where
  "new_Builder compact_pointer base = \<lparr>b_base = base, b_levels = (\<lambda>_. \<lparr>deleted_files = {}, added_files = []\<rparr>), b_compact_pointer = compact_pointer\<rparr>"

definition InternalKey_Compare :: "Comparator \<Rightarrow> InternalKey \<Rightarrow> InternalKey \<Rightarrow> int option" where
  "InternalKey_Compare c a b = do { x \<leftarrow> InternalKey_Encode a; y \<leftarrow> InternalKey_Encode b; internal_Compare c x y }"

definition BySmallestKey :: "Comparator \<Rightarrow> FileMetaData \<Rightarrow> FileMetaData \<Rightarrow> bool option" where
  "BySmallestKey c f1 f2 = do {
     r \<leftarrow> InternalKey_Compare c (fm_smallest f1) (fm_smallest f2);
     Some (if r \<noteq> 0 then r < 0 else fm_number f1 < fm_number f2)
   }"

text \<open>The insertion into a sorted set; an element that is equivalent to a present one is not inserted.\<close>

fun FileSet_insert :: "Comparator \<Rightarrow> FileMetaData \<Rightarrow> FileMetaData list \<Rightarrow> FileMetaData list option" where
  "FileSet_insert c f [] = Some [f]"
| "FileSet_insert c f (g # gs) = do {
     before \<leftarrow> BySmallestKey c f g;
     if before then Some (f # g # gs)
     else do {
       after \<leftarrow> BySmallestKey c g f;
       if after then do { gs' \<leftarrow> FileSet_insert c f gs; Some (g # gs') } else Some (g # gs)
     }
   }"

fun each :: "('a \<Rightarrow> 's \<Rightarrow> 's option) \<Rightarrow> 'a list \<Rightarrow> 's \<Rightarrow> 's option" where
  "each f [] s = Some s"
| "each f (x # xs) s = do { s1 \<leftarrow> f x s; each f xs s1 }"

text \<open>The index of an array of \<open>kNumLevels\<close> elements.\<close>

definition level_index :: "int \<Rightarrow> nat option" where
  "level_index level = (if 0 \<le> level \<and> level < int kNumLevels then Some (nat level) else None)"

definition apply_pointer :: "int \<times> InternalKey \<Rightarrow> Builder \<Rightarrow> Builder option" where
  "apply_pointer p b = do {
     level \<leftarrow> level_index (fst p);
     key \<leftarrow> InternalKey_Encode (snd p);
     Some (b\<lparr>b_compact_pointer := (b_compact_pointer b)(level := key)\<rparr>)
   }"

definition apply_deleted :: "int \<times> u64 \<Rightarrow> Builder \<Rightarrow> Builder option" where
  "apply_deleted d b = do {
     level \<leftarrow> level_index (fst d);
     let s = b_levels b level;
     Some (b\<lparr>b_levels := (b_levels b)(level := s\<lparr>deleted_files := insert (snd d) (deleted_files s)\<rparr>)\<rparr>)
   }"

definition installed_file :: "FileMetaData \<Rightarrow> FileMetaData" where
  "installed_file f =
     (let allowed_seeks = sint (ucast (fm_file_size f div 16384) :: 32 word) in
      f\<lparr>fm_refs := 1, fm_allowed_seeks := (if allowed_seeks < 100 then 100 else allowed_seeks)\<rparr>)"

definition apply_new :: "Comparator \<Rightarrow> int \<times> FileMetaData \<Rightarrow> Builder \<Rightarrow> Builder option" where
  "apply_new c p b = do {
     level \<leftarrow> level_index (fst p);
     let f = installed_file (snd p);
     let s = b_levels b level;
     added \<leftarrow> FileSet_insert c f (added_files s);
     Some (b\<lparr>b_levels := (b_levels b)(level := \<lparr>deleted_files = deleted_files s - {fm_number f}, added_files = added\<rparr>)\<rparr>)
   }"

definition Apply :: "Comparator \<Rightarrow> VersionEdit \<Rightarrow> Builder \<Rightarrow> Builder option" where
  "Apply c edit b = do {
     b1 \<leftarrow> each apply_pointer (ve_compact_pointers edit) b;
     b2 \<leftarrow> each apply_deleted (sorted_list_of_set (ve_deleted_files edit)) b1;
     each (apply_new c) (ve_new_files edit) b2
   }"

text \<open>Files are appended to a level of the new version, unless they are deleted.\<close>

definition MaybeAddFile :: "Comparator \<Rightarrow> u64 set \<Rightarrow> nat \<Rightarrow> FileMetaData \<Rightarrow> FileMetaData list \<Rightarrow> FileMetaData list option" where
  "MaybeAddFile c deleted level f files =
     (if fm_number f \<in> deleted then Some files
      else if level > 0 \<and> files \<noteq> [] then do {
        r \<leftarrow> InternalKey_Compare c (fm_largest (last files)) (fm_smallest f);
        if r < 0 then Some (files @ [f]) else None
      }
      else Some (files @ [f]))"

text \<open>The files before \<open>upper_bound\<close> in a sorted sequence, and the rest.\<close>

fun split_upper_bound :: "Comparator \<Rightarrow> FileMetaData \<Rightarrow> FileMetaData list \<Rightarrow> (FileMetaData list \<times> FileMetaData list) option" where
  "split_upper_bound c f [] = Some ([], [])"
| "split_upper_bound c f (g # gs) = do {
     above \<leftarrow> BySmallestKey c f g;
     if above then Some ([], g # gs) else do { (before, rest) \<leftarrow> split_upper_bound c f gs; Some (g # before, rest) }
   }"

fun merge_added :: "Comparator \<Rightarrow> u64 set \<Rightarrow> nat \<Rightarrow> FileMetaData list \<Rightarrow> FileMetaData list \<Rightarrow> FileMetaData list \<Rightarrow> FileMetaData list option" where
  "merge_added c deleted level [] base files = each (MaybeAddFile c deleted level) base files"
| "merge_added c deleted level (a # added) base files = do {
     (before, rest) \<leftarrow> split_upper_bound c a base;
     files1 \<leftarrow> each (MaybeAddFile c deleted level) before files;
     files2 \<leftarrow> MaybeAddFile c deleted level a files1;
     merge_added c deleted level added rest files2
   }"

text \<open>The check of the result, which is compiled in with assertions.\<close>

fun no_overlap :: "Comparator \<Rightarrow> FileMetaData list \<Rightarrow> bool option" where
  "no_overlap c (f # g # gs) = do {
     r \<leftarrow> InternalKey_Compare c (fm_largest f) (fm_smallest g);
     if r \<ge> 0 then Some False else no_overlap c (g # gs)
   }"
| "no_overlap c _ = Some True"

definition save_level :: "Comparator \<Rightarrow> Builder \<Rightarrow> nat \<Rightarrow> Version \<Rightarrow> Version option" where
  "save_level c b level v = do {
     let s = b_levels b level;
     files \<leftarrow> merge_added c (deleted_files s) level (added_files s) (v_files (b_base b) level) (v_files v level);
     fine \<leftarrow> (if level > 0 then no_overlap c files else Some True);
     if fine then Some (v\<lparr>v_files := (v_files v)(level := files)\<rparr>) else None
   }"

definition SaveTo :: "Comparator \<Rightarrow> Builder \<Rightarrow> Version \<Rightarrow> Version option" where
  "SaveTo c b v = each (save_level c b) [0 ..< kNumLevels] v"

section \<open>The order of files\<close>

definition bkey :: "FileMetaData \<Rightarrow> (slice \<times> nat) \<times> u64" where
  "bkey f = (korder (fm_smallest f), fm_number f)"

lemma bkey_less: "bkey f < bkey g \<longleftrightarrow> korder (fm_smallest f) < korder (fm_smallest g) \<or> korder (fm_smallest f) = korder (fm_smallest g) \<and> fm_number f < fm_number g"
  by (auto simp: bkey_def less_prod_simp)

lemma InternalKey_Compare_eq: "internal_ok a \<Longrightarrow> internal_ok b \<Longrightarrow> InternalKey_Compare BytewiseComparator a b = internal_Compare BytewiseComparator a b"
  by (simp add: InternalKey_Compare_def encode_key)

lemma BySmallestKey_exact: "file_ok f \<Longrightarrow> file_ok g \<Longrightarrow> BySmallestKey BytewiseComparator f g = Some (bkey f < bkey g)"
  using internal_compare [of "fm_smallest f" "fm_smallest g"]
  by (auto simp: BySmallestKey_def InternalKey_Compare_eq file_okD bkey_less)

abbreviation files_sorted :: "FileMetaData list \<Rightarrow> bool" where
  "files_sorted \<equiv> sorted_wrt (\<lambda>f g. bkey f < bkey g)"

lemma FileSet_insert_exact:
  "file_ok f \<Longrightarrow> \<forall>g \<in> set fs. file_ok g \<Longrightarrow> files_sorted fs \<Longrightarrow> bkey f \<notin> bkey ` set fs \<Longrightarrow>
   \<exists>fs'. FileSet_insert BytewiseComparator f fs = Some fs' \<and> set fs' = insert f (set fs) \<and> files_sorted fs'"
proof (induction fs)
  case (Cons g gs)
  show ?case
  proof (cases "bkey f < bkey g")
    case True
    then show ?thesis using Cons.prems by (auto simp: BySmallestKey_exact intro: order.strict_trans)
  next
    case False
    then have "bkey g < bkey f" using Cons.prems(4) by auto
    moreover obtain gs' where gs': "FileSet_insert BytewiseComparator f gs = Some gs'" "set gs' = insert f (set gs)" "files_sorted gs'"
      using Cons by auto
    ultimately show ?thesis using False Cons.prems by (auto simp: BySmallestKey_exact)
  qed
qed simp

lemma split_upper_exact:
  "file_ok f \<Longrightarrow> \<forall>g \<in> set fs. file_ok g \<Longrightarrow>
   split_upper_bound BytewiseComparator f fs = Some (takeWhile (\<lambda>g. \<not> bkey f < bkey g) fs, dropWhile (\<lambda>g. \<not> bkey f < bkey g) fs)"
  by (induction fs) (auto simp: BySmallestKey_exact)

text \<open>The merge of two sorted lists of files.\<close>

fun merge_files :: "FileMetaData list \<Rightarrow> FileMetaData list \<Rightarrow> FileMetaData list" where
  "merge_files [] base = base"
| "merge_files (a # added) base = takeWhile (\<lambda>g. \<not> bkey a < bkey g) base @ a # merge_files added (dropWhile (\<lambda>g. \<not> bkey a < bkey g) base)"

lemma set_merge_files [simp]: "set (merge_files added base) = set added \<union> set base"
proof (induction added arbitrary: base)
  case (Cons a added)
  have "set base = set (takeWhile (\<lambda>g. \<not> bkey a < bkey g) base) \<union> set (dropWhile (\<lambda>g. \<not> bkey a < bkey g) base)"
    by (metis set_append takeWhile_dropWhile_id)
  then show ?case using Cons by auto
qed simp

lemma merge_files_sorted:
  "files_sorted added \<Longrightarrow> files_sorted base \<Longrightarrow> bkey ` set added \<inter> bkey ` set base = {} \<Longrightarrow> files_sorted (merge_files added base)"
proof (induction added arbitrary: base)
  case (Cons a added)
  let ?t = "takeWhile (\<lambda>g. \<not> bkey a < bkey g) base" and ?d = "dropWhile (\<lambda>g. \<not> bkey a < bkey g) base"
  have base: "files_sorted (?t @ ?d)" using Cons.prems(2) by simp
  have t: "\<forall>g \<in> set ?t. bkey g < bkey a" using Cons.prems(3) by (fastforce dest: set_takeWhileD)
  have "\<forall>g \<in> set ?d. bkey a < bkey g"
  proof (cases ?d)
    case (Cons g gs)
    then have "bkey a < bkey g" using hd_dropWhile [of "\<lambda>g. \<not> bkey a < bkey g" base] by simp
    moreover have "\<forall>h \<in> set gs. bkey g < bkey h" using base unfolding Cons by (simp add: sorted_wrt_append)
    ultimately show ?thesis unfolding Cons by (auto intro: order.strict_trans)
  next
    case Nil
    show ?thesis unfolding Nil by simp
  qed
  moreover have "files_sorted (merge_files added ?d)"
  proof (rule Cons.IH)
    have sub: "set ?d \<subseteq> set base" by (auto dest: set_dropWhileD)
    show "bkey ` set added \<inter> bkey ` set ?d = {}" using Cons.prems(3) image_mono [OF sub, of bkey] by auto
  qed (use Cons.prems(1) base in \<open>simp_all add: sorted_wrt_append\<close>)
  moreover have "\<forall>g \<in> set ?t. \<forall>h \<in> insert a (set added \<union> set ?d). bkey g < bkey h"
  proof (intro ballI, elim insertE UnE)
    fix g h assume "g \<in> set ?t" "h = a"
    then show "bkey g < bkey h" using t by blast
  next
    fix g h assume "g \<in> set ?t" "h \<in> set added"
    then show "bkey g < bkey h" using t Cons.prems(1) by (auto intro: order.strict_trans)
  next
    fix g h assume "g \<in> set ?t" "h \<in> set ?d"
    then show "bkey g < bkey h" using base [unfolded sorted_wrt_append] by blast
  qed
  moreover have "files_sorted ?t" using base [unfolded sorted_wrt_append] by blast
  moreover have "\<forall>h \<in> set added. bkey a < bkey h" using Cons.prems(1) by simp
  ultimately show ?case unfolding merge_files.simps sorted_wrt_append sorted_wrt.simps list.set set_merge_files by blast
qed simp

text \<open>What the loops append.\<close>

lemma level_sorted_append: "level_sorted (xs @ ys) \<Longrightarrow> level_sorted xs"
  by (simp add: level_sorted_def sorted_wrt_append)

lemma MaybeAddFile_exact:
  assumes "\<forall>g \<in> set files. file_ok g" and "file_ok f" and "fm_number f \<notin> del \<Longrightarrow> level > 0 \<Longrightarrow> level_sorted (files @ [f])"
  shows "MaybeAddFile BytewiseComparator del level f files = Some (files @ (if fm_number f \<in> del then [] else [f]))"
proof -
  have "internal_Compare BytewiseComparator (fm_largest (last files)) (fm_smallest f) = Some r \<Longrightarrow> r < 0"
    if "fm_number f \<notin> del" "level > 0" "files \<noteq> []" for r
  proof -
    assume r: "internal_Compare BytewiseComparator (fm_largest (last files)) (fm_smallest f) = Some r"
    have "korder (fm_largest (last files)) < korder (fm_smallest f)"
      using assms(3) [OF that(1,2)] that(3) by (simp add: level_sorted_def sorted_wrt_append)
    moreover have "internal_ok (fm_largest (last files))" "internal_ok (fm_smallest f)" using assms(1,2) that(3) by (auto simp: file_okD)
    ultimately show "r < 0" using internal_compare [of "fm_largest (last files)" "fm_smallest f"] r by auto
  qed
  moreover have "\<exists>r. internal_Compare BytewiseComparator (fm_largest (last files)) (fm_smallest f) = Some r" if "files \<noteq> []"
  proof -
    have "internal_ok (fm_largest (last files))" "internal_ok (fm_smallest f)" using assms(1,2) that by (auto simp: file_okD)
    then show ?thesis using internal_compare by blast
  qed
  ultimately show ?thesis using assms by (auto simp: MaybeAddFile_def InternalKey_Compare_eq file_okD)
qed

abbreviation (input) kept :: "u64 set \<Rightarrow> FileMetaData list \<Rightarrow> FileMetaData list" where
  "kept del \<equiv> filter (\<lambda>f. fm_number f \<notin> del)"

lemma each_MaybeAdd:
  "\<forall>g \<in> set files. file_ok g \<Longrightarrow> \<forall>g \<in> set fs. file_ok g \<Longrightarrow> (level > 0 \<Longrightarrow> level_sorted (files @ kept del fs)) \<Longrightarrow>
   each (MaybeAddFile BytewiseComparator del level) fs files = Some (files @ kept del fs)"
proof (induction fs arbitrary: files)
  case (Cons f fs)
  have "MaybeAddFile BytewiseComparator del level f files = Some (files @ (if fm_number f \<in> del then [] else [f]))"
  proof (rule MaybeAddFile_exact)
    show "level_sorted (files @ [f])" if "fm_number f \<notin> del" "level > 0"
      using Cons.prems(3) that level_sorted_append [of "files @ [f]" "kept del fs"] by simp
  qed (use Cons.prems in auto)
  then show ?case using Cons.IH [of "files @ (if fm_number f \<in> del then [] else [f])"] Cons.prems by auto
qed simp

lemma each_append: "each f (xs @ ys) s = do { s1 \<leftarrow> each f xs s; each f ys s1 }"
proof (induction xs arbitrary: s)
  case (Cons x xs)
  then show ?case by (cases "f x s") simp_all
qed simp

lemma merge_added_exact:
  "\<forall>g \<in> set base. file_ok g \<Longrightarrow> \<forall>g \<in> set added. file_ok g \<Longrightarrow>
   merge_added BytewiseComparator del level added base files = each (MaybeAddFile BytewiseComparator del level) (merge_files added base) files"
proof (induction added arbitrary: base files)
  case (Cons a added)
  have "\<forall>g \<in> set (dropWhile (\<lambda>g. \<not> bkey a < bkey g) base). file_ok g" using Cons.prems(1) by (auto dest: set_dropWhileD)
  then have "merge_added BytewiseComparator del level added (dropWhile (\<lambda>g. \<not> bkey a < bkey g) base) =
      each (MaybeAddFile BytewiseComparator del level) (merge_files added (dropWhile (\<lambda>g. \<not> bkey a < bkey g) base))"
    using Cons by (intro ext) simp
  then show ?case using Cons.prems by (simp add: split_upper_exact each_append)
qed simp

lemma no_overlap_sorted: "\<forall>g \<in> set fs. file_ok g \<Longrightarrow> level_sorted fs \<Longrightarrow> no_overlap BytewiseComparator fs = Some True"
proof (induction fs rule: induct_list012)
  case (3 f g gs)
  have "internal_ok (fm_largest f)" "internal_ok (fm_smallest g)" using 3(3) by (simp_all add: file_okD)
  then obtain r where "internal_Compare BytewiseComparator (fm_largest f) (fm_smallest g) = Some r" "r < 0 \<longleftrightarrow> korder (fm_largest f) < korder (fm_smallest g)"
    using internal_compare by blast
  then show ?case using 3 by (simp add: InternalKey_Compare_eq file_okD level_sorted_def)
qed simp_all

text \<open>Sorted and pairwise disjoint files are a sorted level.\<close>

definition disjoint_files :: "FileMetaData set \<Rightarrow> bool" where
  "disjoint_files F \<longleftrightarrow> (\<forall>f \<in> F. \<forall>g \<in> F. f \<noteq> g \<longrightarrow> korder (fm_largest f) < korder (fm_smallest g) \<or> korder (fm_largest g) < korder (fm_smallest f))"

lemma disjoint_level_sorted:
  assumes "files_sorted fs" and "\<forall>g \<in> set fs. file_ok g" and "disjoint_files (set fs)"
  shows "level_sorted fs"
  unfolding level_sorted_def
proof (rule sorted_wrt_mono_rel [OF _ assms(1)])
  fix f g assume fg: "f \<in> set fs" "g \<in> set fs" "bkey f < bkey g"
  then have "f \<noteq> g" by auto
  then have "korder (fm_largest f) < korder (fm_smallest g) \<or> korder (fm_largest g) < korder (fm_smallest f)"
    using assms(3) fg by (simp add: disjoint_files_def)
  moreover have "korder (fm_smallest f) \<le> korder (fm_smallest g)" using fg(3) by (auto simp: bkey_less)
  ultimately show "korder (fm_largest f) < korder (fm_smallest g)"
    using assms(2) fg file_okD(5) [of g] by (metis leD order.strict_trans1 order.trans)
qed

lemma level_sorted_disjoint: "level_sorted fs \<Longrightarrow> disjoint_files (set fs)"
  unfolding disjoint_files_def
proof (intro ballI impI)
  fix f g assume s: "level_sorted fs" and fg: "f \<in> set fs" "g \<in> set fs" "f \<noteq> g"
  obtain i j where ij: "i < length fs" "f = fs ! i" "j < length fs" "g = fs ! j" using fg(1,2) by (metis in_set_conv_nth)
  then have "i < j \<or> j < i" using fg(3) by (metis linorder_neqE_nat)
  then show "korder (fm_largest f) < korder (fm_smallest g) \<or> korder (fm_largest g) < korder (fm_smallest f)"
    using level_sorted_nth [OF s] ij by blast
qed

section \<open>The specification\<close>

text \<open>An edit deletes files of a level by their numbers, and then adds files.\<close>

definition edit_new :: "VersionEdit \<Rightarrow> nat \<Rightarrow> FileMetaData set" where
  "edit_new e l = snd ` {p \<in> set (ve_new_files e). fst p = int l}"

definition apply_edit :: "VersionEdit \<Rightarrow> (nat \<Rightarrow> FileMetaData set) \<Rightarrow> nat \<Rightarrow> FileMetaData set" where
  "apply_edit e S l = {f \<in> S l. (int l, fm_number f) \<notin> ve_deleted_files e} \<union> installed_file ` edit_new e l"

text \<open>An edit as the database makes it, and numbers that were not used in their level before.\<close>

definition edit_applies :: "VersionEdit \<Rightarrow> bool" where
  "edit_applies e \<longleftrightarrow> (\<forall>p \<in> set (ve_compact_pointers e). level_ok (fst p) \<and> snd p \<noteq> []) \<and>
     finite (ve_deleted_files e) \<and> (\<forall>d \<in> ve_deleted_files e. level_ok (fst d)) \<and>
     (\<forall>p \<in> set (ve_new_files e). level_ok (fst p) \<and> file_ok (snd p)) \<and>
     distinct (map (\<lambda>p. (fst p, fm_number (snd p))) (ve_new_files e))"

definition edit_fresh :: "(nat \<Rightarrow> u64 set) \<Rightarrow> VersionEdit \<Rightarrow> bool" where
  "edit_fresh U e \<longleftrightarrow> (\<forall>p \<in> set (ve_new_files e). fm_number (snd p) \<notin> U (nat (fst p)))"

fun edits_fresh :: "(nat \<Rightarrow> u64 set) \<Rightarrow> VersionEdit list \<Rightarrow> bool" where
  "edits_fresh U [] = True"
| "edits_fresh U (e # es) \<longleftrightarrow> edit_fresh U e \<and> edits_fresh (\<lambda>l. U l \<union> fm_number ` edit_new e l) es"

definition base_files :: "Builder \<Rightarrow> nat \<Rightarrow> FileMetaData list" where
  "base_files b l = v_files (b_base b) l"

definition all_files :: "Builder \<Rightarrow> nat \<Rightarrow> FileMetaData set" where
  "all_files b l = set (base_files b l) \<union> set (added_files (b_levels b l))"

definition live_files :: "Builder \<Rightarrow> nat \<Rightarrow> FileMetaData set" where
  "live_files b l = {f \<in> all_files b l. fm_number f \<notin> deleted_files (b_levels b l)}"

definition builder_ok :: "Builder \<Rightarrow> bool" where
  "builder_ok b \<longleftrightarrow> (\<forall>l < kNumLevels. files_sorted (base_files b l) \<and> files_sorted (added_files (b_levels b l)) \<and> (\<forall>f \<in> all_files b l. file_ok f) \<and>
     fm_number ` set (base_files b l) \<inter> fm_number ` set (added_files (b_levels b l)) = {})"

lemma installed_parts [simp]:
  "fm_number (installed_file f) = fm_number f" "fm_smallest (installed_file f) = fm_smallest f" "fm_largest (installed_file f) = fm_largest f"
  "fm_file_size (installed_file f) = fm_file_size f"
  by (simp_all add: installed_file_def Let_def)

lemma installed_ok [simp]: "file_ok (installed_file f) = file_ok f"
  by (simp add: file_ok_def)

lemma level_index_ok: "level_ok l \<Longrightarrow> level_index l = Some (nat l) \<and> nat l < kNumLevels \<and> int (nat l) = l"
  by (auto simp: level_index_def level_ok_def)

text \<open>A file that is added.\<close>

lemma apply_new_exact:
  assumes b: "builder_ok b" and l: "level_ok l" and f: "file_ok f" and fresh: "fm_number f \<notin> fm_number ` all_files b (nat l)"
  shows "\<exists>b'. apply_new BytewiseComparator (l, f) b = Some b' \<and> builder_ok b' \<and> b_base b' = b_base b \<and> b_compact_pointer b' = b_compact_pointer b \<and>
    (\<forall>k. all_files b' k = (if k = nat l then insert (installed_file f) (all_files b k) else all_files b k)) \<and>
    (\<forall>k. live_files b' k = (if k = nat l then insert (installed_file f) (live_files b k) else live_files b k))"
proof -
  let ?l = "nat l" and ?f = "installed_file f"
  let ?s = "b_levels b ?l"
  note li = level_index_ok [OF l]
  note bl = b [unfolded builder_ok_def, rule_format, of ?l]
  have "bkey ?f \<notin> bkey ` set (added_files ?s)" using fresh by (auto simp: all_files_def bkey_def)
  then obtain added where a: "FileSet_insert BytewiseComparator ?f (added_files ?s) = Some added" "set added = insert ?f (set (added_files ?s))" "files_sorted added"
    using FileSet_insert_exact [of ?f "added_files ?s"] bl li f by (auto simp: all_files_def)
  define b' where "b' = b\<lparr>b_levels := (b_levels b)(?l := \<lparr>deleted_files = deleted_files ?s - {fm_number f}, added_files = added\<rparr>)\<rparr>"
  have r: "apply_new BytewiseComparator (l, f) b = Some b'" using a(1) li by (simp add: apply_new_def b'_def Let_def)
  have all: "all_files b' k = (if k = ?l then insert ?f (all_files b k) else all_files b k)" for k
    using a(2) by (auto simp: all_files_def base_files_def b'_def)
  have live: "live_files b' k = (if k = ?l then insert ?f (live_files b k) else live_files b k)" for k
  proof (cases "k = ?l")
    case True
    have "fm_number g \<noteq> fm_number f" if "g \<in> all_files b ?l" for g using fresh that by (metis imageI)
    then show ?thesis using True by (auto simp: live_files_def all) (auto simp: b'_def)
  next
    case False
    then show ?thesis by (auto simp: live_files_def all) (auto simp: b'_def)
  qed
  have "builder_ok b'" unfolding builder_ok_def
  proof (intro allI impI)
    fix k assume k: "k < kNumLevels"
    show "files_sorted (base_files b' k) \<and> files_sorted (added_files (b_levels b' k)) \<and> (\<forall>f \<in> all_files b' k. file_ok f) \<and>
        fm_number ` set (base_files b' k) \<inter> fm_number ` set (added_files (b_levels b' k)) = {}"
    proof (cases "k = ?l")
      case True
      have "fm_number f \<notin> fm_number ` set (base_files b ?l)" using fresh by (auto simp: all_files_def)
      moreover have "\<forall>f \<in> all_files b' k. file_ok f" using bl li f unfolding all True by simp
      ultimately show ?thesis using True a bl li by (auto simp: base_files_def b'_def)
    next
      case False
      then show ?thesis using b [unfolded builder_ok_def, rule_format, OF k] by (simp add: all) (simp add: base_files_def b'_def)
    qed
  qed
  moreover have "b_base b' = b_base b" "b_compact_pointer b' = b_compact_pointer b" by (simp_all add: b'_def)
  ultimately show ?thesis using r all live by blast
qed

lemma apply_all_new:
  "builder_ok b \<Longrightarrow> \<forall>p \<in> set ps. level_ok (fst p) \<and> file_ok (snd p) \<Longrightarrow> distinct (map (\<lambda>p. (fst p, fm_number (snd p))) ps) \<Longrightarrow>
   \<forall>p \<in> set ps. fm_number (snd p) \<notin> fm_number ` all_files b (nat (fst p)) \<Longrightarrow>
   \<exists>b'. each (apply_new BytewiseComparator) ps b = Some b' \<and> builder_ok b' \<and> b_base b' = b_base b \<and> b_compact_pointer b' = b_compact_pointer b \<and>
    (\<forall>k. all_files b' k = all_files b k \<union> installed_file ` snd ` {p \<in> set ps. fst p = int k}) \<and>
    (\<forall>k. live_files b' k = live_files b k \<union> installed_file ` snd ` {p \<in> set ps. fst p = int k})"
proof (induction ps arbitrary: b)
  case (Cons p ps)
  obtain l f where p: "p = (l, f)" by (cases p)
  have l: "level_ok l" and f: "file_ok f" and fr: "fm_number f \<notin> fm_number ` all_files b (nat l)" using Cons.prems by (simp_all add: p)
  obtain b1 where b1: "apply_new BytewiseComparator (l, f) b = Some b1" "builder_ok b1" "b_base b1 = b_base b" "b_compact_pointer b1 = b_compact_pointer b"
      "\<forall>k. all_files b1 k = (if k = nat l then insert (installed_file f) (all_files b k) else all_files b k)"
      "\<forall>k. live_files b1 k = (if k = nat l then insert (installed_file f) (live_files b k) else live_files b k)"
    using apply_new_exact [OF Cons.prems(1) l f fr] by blast
  have lk: "(l = int k) = (k = nat l)" for k using level_index_ok [OF l] by auto
  have "fm_number (snd q) \<notin> fm_number ` all_files b1 (nat (fst q))" if "q \<in> set ps" for q
  proof -
    have old: "fm_number (snd q) \<notin> fm_number ` all_files b (nat (fst q))" using Cons.prems(4) that by simp
    have "level_ok (fst q)" using Cons.prems(2) that by simp
    then have "nat (fst q) = nat l \<Longrightarrow> fst q = l" using level_index_ok [OF l] level_index_ok [of "fst q"] by metis
    moreover have "(l, fm_number f) \<noteq> (fst q, fm_number (snd q))" using Cons.prems(3) that by (force simp: p)
    ultimately show ?thesis using old b1(5) by (auto split: if_splits)
  qed
  then obtain b2 where b2: "each (apply_new BytewiseComparator) ps b1 = Some b2" "builder_ok b2" "b_base b2 = b_base b1" "b_compact_pointer b2 = b_compact_pointer b1"
      "\<forall>k. all_files b2 k = all_files b1 k \<union> installed_file ` snd ` {p \<in> set ps. fst p = int k}"
      "\<forall>k. live_files b2 k = live_files b1 k \<union> installed_file ` snd ` {p \<in> set ps. fst p = int k}"
    using Cons.IH [OF b1(2)] Cons.prems(2,3) by auto
  have new: "{q \<in> set (p # ps). fst q = int k} = (if k = nat l then insert (l, f) {q \<in> set ps. fst q = int k} else {q \<in> set ps. fst q = int k})" for k
    using lk [of k] by (auto simp: p)
  show ?case
  proof (intro exI conjI allI)
    show "each (apply_new BytewiseComparator) (p # ps) b = Some b2" using b1(1) b2(1) by (simp add: p)
    show "builder_ok b2" "b_base b2 = b_base b" "b_compact_pointer b2 = b_compact_pointer b" using b2 b1 by simp_all
    show "all_files b2 k = all_files b k \<union> installed_file ` snd ` {q \<in> set (p # ps). fst q = int k}" for k
      unfolding new using b1(5) b2(5) by simp
    show "live_files b2 k = live_files b k \<union> installed_file ` snd ` {q \<in> set (p # ps). fst q = int k}" for k
      unfolding new using b1(6) b2(6) by simp
  qed
qed auto

lemma apply_deletions:
  "builder_ok b \<Longrightarrow> \<forall>d \<in> set ds. level_ok (fst d) \<Longrightarrow>
   \<exists>b'. each apply_deleted ds b = Some b' \<and> builder_ok b' \<and> b_base b' = b_base b \<and> b_compact_pointer b' = b_compact_pointer b \<and>
    (\<forall>k. all_files b' k = all_files b k) \<and> (\<forall>k. live_files b' k = {f \<in> live_files b k. (int k, fm_number f) \<notin> set ds})"
proof (induction ds arbitrary: b)
  case (Cons d ds)
  obtain l n where d: "d = (l, n)" by (cases d)
  note li = level_index_ok [of l]
  have l: "level_ok l" using Cons.prems(2) by (simp add: d)
  let ?s = "b_levels b (nat l)"
  define b1 where "b1 = b\<lparr>b_levels := (b_levels b)(nat l := ?s\<lparr>deleted_files := insert n (deleted_files ?s)\<rparr>)\<rparr>"
  have r: "apply_deleted (l, n) b = Some b1" using li l by (simp add: apply_deleted_def b1_def Let_def)
  have all: "all_files b1 k = all_files b k" for k by (simp add: all_files_def base_files_def b1_def)
  have "builder_ok b1" using Cons.prems(1) unfolding builder_ok_def all by (simp add: base_files_def b1_def)
  moreover have live: "live_files b1 k = {f \<in> live_files b k. (int k, fm_number f) \<noteq> (l, n)}" for k
  proof -
    have "((int k, m) = (l, n)) = (k = nat l \<and> m = n)" for m using li l by auto
    then show ?thesis unfolding live_files_def all by (simp add: b1_def) auto
  qed
  ultimately obtain b2 where b2: "each apply_deleted ds b1 = Some b2" "builder_ok b2" "b_base b2 = b_base b1" "b_compact_pointer b2 = b_compact_pointer b1"
      "\<forall>k. all_files b2 k = all_files b1 k" "\<forall>k. live_files b2 k = {f \<in> live_files b1 k. (int k, fm_number f) \<notin> set ds}"
    using Cons.IH [of b1] Cons.prems(2) by auto
  have "live_files b2 k = {f \<in> live_files b k. (int k, fm_number f) \<notin> set (d # ds)}" for k
    using b2(6) by (auto simp: live d)
  then show ?case using r b2 all by (simp add: d) (simp add: b1_def)
qed auto

lemma apply_pointers:
  "builder_ok b \<Longrightarrow> \<forall>p \<in> set ps. level_ok (fst p) \<and> snd p \<noteq> [] \<Longrightarrow>
   \<exists>b'. each apply_pointer ps b = Some b' \<and> builder_ok b' \<and> b_base b' = b_base b \<and> b_levels b' = b_levels b"
proof (induction ps arbitrary: b)
  case (Cons p ps)
  let ?b1 = "b\<lparr>b_compact_pointer := (b_compact_pointer b)(nat (fst p) := snd p)\<rparr>"
  have r: "apply_pointer p b = Some ?b1" using Cons.prems(2) level_index_ok [of "fst p"] by (simp add: apply_pointer_def InternalKey_Encode_def)
  have "builder_ok ?b1" using Cons.prems(1) by (simp add: builder_ok_def all_files_def base_files_def)
  then show ?case using Cons.IH [of ?b1] Cons.prems(2) r by auto
qed auto

lemma Apply_exact:
  assumes b: "builder_ok b" and e: "edit_applies e" and fresh: "edit_fresh (\<lambda>k. fm_number ` all_files b k) e"
  shows "\<exists>b'. Apply BytewiseComparator e b = Some b' \<and> builder_ok b' \<and> b_base b' = b_base b \<and>
    (\<forall>k. all_files b' k = all_files b k \<union> installed_file ` edit_new e k) \<and> (\<forall>k. live_files b' k = apply_edit e (live_files b) k)"
proof -
  note ed = e [unfolded edit_applies_def]
  obtain b1 where b1: "each apply_pointer (ve_compact_pointers e) b = Some b1" "builder_ok b1" "b_base b1 = b_base b" "b_levels b1 = b_levels b"
    using apply_pointers [OF b] ed by blast
  have same: "all_files b1 k = all_files b k" "live_files b1 k = live_files b k" for k
    using b1(3,4) by (simp_all add: all_files_def live_files_def base_files_def)
  obtain b2 where b2: "each apply_deleted (sorted_list_of_set (ve_deleted_files e)) b1 = Some b2" "builder_ok b2" "b_base b2 = b_base b1"
      "\<forall>k. all_files b2 k = all_files b1 k" "\<forall>k. live_files b2 k = {f \<in> live_files b1 k. (int k, fm_number f) \<notin> ve_deleted_files e}"
    using apply_deletions [OF b1(2), of "sorted_list_of_set (ve_deleted_files e)"] ed by auto
  have "\<forall>p \<in> set (ve_new_files e). fm_number (snd p) \<notin> fm_number ` all_files b2 (nat (fst p))"
    using fresh b2(4) by (simp add: edit_fresh_def same)
  then obtain b3 where b3: "each (apply_new BytewiseComparator) (ve_new_files e) b2 = Some b3" "builder_ok b3" "b_base b3 = b_base b2"
      "\<forall>k. all_files b3 k = all_files b2 k \<union> installed_file ` snd ` {p \<in> set (ve_new_files e). fst p = int k}"
      "\<forall>k. live_files b3 k = live_files b2 k \<union> installed_file ` snd ` {p \<in> set (ve_new_files e). fst p = int k}"
    using apply_all_new [OF b2(2), of "ve_new_files e"] ed by blast
  then show ?thesis
    using b1 b2 by (simp add: Apply_def apply_edit_def edit_new_def same)
qed

lemma Apply_all:
  "builder_ok b \<Longrightarrow> \<forall>e \<in> set es. edit_applies e \<Longrightarrow> edits_fresh (\<lambda>k. fm_number ` all_files b k) es \<Longrightarrow>
   \<exists>b'. each (Apply BytewiseComparator) es b = Some b' \<and> builder_ok b' \<and> b_base b' = b_base b \<and> (\<forall>k. live_files b' k = fold apply_edit es (live_files b) k)"
proof (induction es arbitrary: b)
  case (Cons e es)
  obtain b1 where b1: "Apply BytewiseComparator e b = Some b1" "builder_ok b1" "b_base b1 = b_base b"
      "\<forall>k. all_files b1 k = all_files b k \<union> installed_file ` edit_new e k" "\<forall>k. live_files b1 k = apply_edit e (live_files b) k"
    using Apply_exact [OF Cons.prems(1), of e] Cons.prems(2,3) unfolding edits_fresh.simps by (meson list.set_intros(1))
  have "(\<lambda>k. fm_number ` all_files b1 k) = (\<lambda>k. fm_number ` all_files b k \<union> fm_number ` edit_new e k)"
    using b1(4) by (auto simp: image_Un image_image)
  then have "edits_fresh (\<lambda>k. fm_number ` all_files b1 k) es" using Cons.prems(3) by simp
  moreover have "live_files b1 = apply_edit e (live_files b)" using b1(5) by blast
  ultimately show ?case using Cons.IH [OF b1(2)] Cons.prems(2) b1(1,3) by auto
qed auto

section \<open>The new version\<close>

lemma save_level_exact:
  assumes b: "builder_ok b" and l: "l < kNumLevels" and disjoint: "l > 0 \<Longrightarrow> disjoint_files (live_files b l)" and new: "v_files v l = []"
  shows "\<exists>files. save_level BytewiseComparator b l v = Some (v\<lparr>v_files := (v_files v)(l := files)\<rparr>) \<and> set files = live_files b l \<and>
    files_sorted files \<and> (l > 0 \<longrightarrow> level_sorted files)"
proof -
  let ?base = "v_files (b_base b) l" and ?added = "added_files (b_levels b l)" and ?del = "deleted_files (b_levels b l)"
  let ?m = "merge_files ?added ?base"
  let ?files = "kept ?del ?m"
  note bl = b [unfolded builder_ok_def, rule_format, OF l, unfolded base_files_def]
  have ok: "\<forall>g \<in> set ?base. file_ok g" "\<forall>g \<in> set ?added. file_ok g" using bl by (auto simp: all_files_def base_files_def)
  have "bkey ` set ?added \<inter> bkey ` set ?base = {}" using bl by (auto simp: bkey_def)
  then have ms: "files_sorted ?m" using bl merge_files_sorted by blast
  then have fs: "files_sorted ?files" by (simp add: sorted_wrt_filter)
  have set: "set ?files = live_files b l" by (auto simp: live_files_def all_files_def base_files_def)
  have okf: "\<forall>g \<in> set ?m. file_ok g" "\<forall>g \<in> set ?files. file_ok g" using ok by auto
  have ls: "level_sorted ?files" if "l > 0" by (rule disjoint_level_sorted [OF fs okf(2)]) (use disjoint [OF that] set in simp)
  have "merge_added BytewiseComparator ?del l ?added ?base (v_files v l) = Some ?files"
    using each_MaybeAdd [of "[]" ?m l ?del] okf(1) ls by (simp add: merge_added_exact [OF ok] new)
  then have "save_level BytewiseComparator b l v = Some (v\<lparr>v_files := (v_files v)(l := ?files)\<rparr>)"
    using no_overlap_sorted [OF okf(2)] ls by (simp add: save_level_def Let_def)
  then show ?thesis using set fs ls by blast
qed

lemma SaveTo_exact:
  assumes b: "builder_ok b" and disjoint: "\<forall>l < kNumLevels. l > 0 \<longrightarrow> disjoint_files (live_files b l)"
  shows "\<exists>v. SaveTo BytewiseComparator b new_Version = Some v \<and>
    (\<forall>l < kNumLevels. set (v_files v l) = live_files b l \<and> files_sorted (v_files v l) \<and> (l > 0 \<longrightarrow> level_sorted (v_files v l)))"
proof -
  let ?good = "\<lambda>v l. set (v_files v l) = live_files b l \<and> files_sorted (v_files v l) \<and> (l > 0 \<longrightarrow> level_sorted (v_files v l))"
  have "\<exists>v'. each (save_level BytewiseComparator b) ls v = Some v' \<and> (\<forall>l \<in> set ls. ?good v' l) \<and> (\<forall>l. l \<notin> set ls \<longrightarrow> v_files v' l = v_files v l)"
    if "distinct ls" "\<forall>l \<in> set ls. l < kNumLevels \<and> v_files v l = []" for ls v
    using that
  proof (induction ls arbitrary: v)
    case (Cons l ls)
    obtain files where f: "save_level BytewiseComparator b l v = Some (v\<lparr>v_files := (v_files v)(l := files)\<rparr>)" "set files = live_files b l"
        "files_sorted files" "l > 0 \<longrightarrow> level_sorted files"
      using save_level_exact [OF b, of l v] Cons.prems disjoint by auto
    let ?v1 = "v\<lparr>v_files := (v_files v)(l := files)\<rparr>"
    obtain v' where v': "each (save_level BytewiseComparator b) ls ?v1 = Some v'" "\<forall>l \<in> set ls. ?good v' l"
        "\<forall>k. k \<notin> set ls \<longrightarrow> v_files v' k = v_files ?v1 k"
    proof -
      have "distinct ls" "\<forall>k \<in> set ls. k < kNumLevels \<and> v_files ?v1 k = []" using Cons.prems by auto
      then show ?thesis using Cons.IH [of ?v1] that by blast
    qed
    have "v_files v' l = files" using v'(3) Cons.prems(1) by simp
    then show ?case using f v' by (intro exI [of _ v']) auto
  qed auto
  from this [of "[0 ..< kNumLevels]" new_Version] show ?thesis by (auto simp: SaveTo_def new_Version_def)
qed

text \<open>The files of a version, as sets.\<close>

definition file_sets :: "Version \<Rightarrow> nat \<Rightarrow> FileMetaData set" where
  "file_sets v l = set (v_files v l)"

definition version_ok :: "Version \<Rightarrow> bool" where
  "version_ok v \<longleftrightarrow> (\<forall>l < kNumLevels. (\<forall>f \<in> set (v_files v l). file_ok f) \<and> files_sorted (v_files v l) \<and> (l > 0 \<longrightarrow> level_sorted (v_files v l)))"

text \<open>
  C6: A builder applies edits. However many edits are collected before the new version is saved, its levels hold
  the files of the base version with the edits applied one after another, each deleting files of a level by number and then adding files; they are
  sorted by their smallest keys, and those of a level above 0 are disjoint. No assertion fails when the numbers of new files
  were not used in their level before and the files that are left in a level above 0 do not overlap.
\<close>

theorem builder_refines:
  assumes "version_ok v0" and "\<forall>e \<in> set es. edit_applies e" and "edits_fresh (\<lambda>l. fm_number ` file_sets v0 l) es"
    and "\<forall>l < kNumLevels. l > 0 \<longrightarrow> disjoint_files (fold apply_edit es (file_sets v0) l)"
  shows "\<exists>b v. each (Apply BytewiseComparator) es (new_Builder pointers v0) = Some b \<and> SaveTo BytewiseComparator b new_Version = Some v \<and>
    version_ok v \<and> (\<forall>l < kNumLevels. file_sets v l = fold apply_edit es (file_sets v0) l)"
proof -
  let ?b0 = "new_Builder pointers v0"
  have all: "all_files ?b0 = file_sets v0" "live_files ?b0 = file_sets v0"
    by (auto simp: all_files_def live_files_def base_files_def new_Builder_def file_sets_def)
  have "builder_ok ?b0" using assms(1) unfolding builder_ok_def all
    by (simp add: version_ok_def base_files_def file_sets_def) (simp add: new_Builder_def)
  then obtain b where b: "each (Apply BytewiseComparator) es ?b0 = Some b" "builder_ok b" "\<forall>k. live_files b k = fold apply_edit es (file_sets v0) k"
    using Apply_all [of ?b0 es] assms(2,3) unfolding all by blast
  then have "\<forall>l < kNumLevels. l > 0 \<longrightarrow> disjoint_files (live_files b l)" using assms(4) by simp
  then obtain v where v: "SaveTo BytewiseComparator b new_Version = Some v"
      "\<forall>l < kNumLevels. set (v_files v l) = live_files b l \<and> files_sorted (v_files v l) \<and> (l > 0 \<longrightarrow> level_sorted (v_files v l))"
    using SaveTo_exact [OF b(2)] by blast
  have "\<forall>f \<in> live_files b l. file_ok f" if "l < kNumLevels" for l using b(2) that by (auto simp: builder_ok_def live_files_def)
  then have "version_ok v" using v(2) by (auto simp: version_ok_def)
  then show ?thesis using b v by (auto simp: file_sets_def)
qed

text \<open>Two edits: a file of level 1 is replaced by another one, and a file is added to level 0.\<close>

definition sample_base :: Version where
  "sample_base = \<lparr>v_files = (\<lambda>l. if l = 1 then [sample_file 3 [97] [99], sample_file 4 [102] [104]] else [])\<rparr>"

definition sample_edits :: "VersionEdit list" where
  "sample_edits = [new_VersionEdit\<lparr>ve_deleted_files := {(1, 3)}, ve_new_files := [(1, sample_file 5 [98] [100])]\<rparr>,
     new_VersionEdit\<lparr>ve_new_files := [(0, sample_file 6 [97] [122])]\<rparr>]"

lemma sample_applied:
  "fold apply_edit sample_edits (file_sets sample_base) l =
     (if l = 1 then {sample_file 4 [102] [104], installed_file (sample_file 5 [98] [100])}
      else if l = 0 then {installed_file (sample_file 6 [97] [122])} else {})"
proof -
  have one: "edit_new (new_VersionEdit\<lparr>ve_deleted_files := {(1, 3)}, ve_new_files := [(1, sample_file 5 [98] [100])]\<rparr>) l =
      (if l = 1 then {sample_file 5 [98] [100]} else {})" for l by (auto simp: edit_new_def)
  have two: "edit_new (new_VersionEdit\<lparr>ve_new_files := [(0, sample_file 6 [97] [122])]\<rparr>) l =
      (if l = 0 then {sample_file 6 [97] [122]} else {})" for l by (auto simp: edit_new_def)
  have base: "file_sets sample_base l = (if l = 1 then {sample_file 3 [97] [99], sample_file 4 [102] [104]} else {})" for l
    by (auto simp: file_sets_def sample_base_def)
  show ?thesis
    unfolding sample_edits_def by (simp add: apply_edit_def one two base) (auto simp: new_VersionEdit_def)
qed

lemma sample_edits_fine:
  "version_ok sample_base" "\<forall>e \<in> set sample_edits. edit_applies e"
  "edits_fresh (\<lambda>l. fm_number ` file_sets sample_base l) sample_edits"
proof -
  show "version_ok sample_base"
    by (simp add: version_ok_def sample_base_def sample_ok level_sorted_def bkey_less korder_less)
  show "\<forall>e \<in> set sample_edits. edit_applies e"
    by (simp add: sample_edits_def edit_applies_def new_VersionEdit_def level_ok_def kNumLevels_def sample_ok)
  show "edits_fresh (\<lambda>l. fm_number ` file_sets sample_base l) sample_edits"
    by (auto simp: sample_edits_def edit_fresh_def file_sets_def sample_base_def edit_new_def)
qed

theorem builder_refines_witness:
  "\<exists>b v. each (Apply BytewiseComparator) sample_edits (new_Builder (\<lambda>_. []) sample_base) = Some b \<and>
     SaveTo BytewiseComparator b new_Version = Some v \<and> version_ok v \<and> file_sets v 0 = {installed_file (sample_file 6 [97] [122])} \<and>
     file_sets v 1 = {sample_file 4 [102] [104], installed_file (sample_file 5 [98] [100])}"
proof -
  have "\<forall>l < kNumLevels. l > 0 \<longrightarrow> disjoint_files (fold apply_edit sample_edits (file_sets sample_base) l)"
    by (simp add: sample_applied disjoint_files_def korder_less)
  from builder_refines [OF sample_edits_fine this, of "\<lambda>_. []"] show ?thesis by (fastforce simp: sample_applied kNumLevels_def)
qed

end
