(* ===== verification/LdbCompaction.thy ===== *)
theory LdbCompaction
  imports LdbBuilder
begin

text \<open>
  Which files a compaction merges (classes VersionSet and Compaction of db/version_set.cc). A compaction takes files of a level and the files of the next
  level that overlap them. Of the set of versions the record below has the members that choosing a compaction uses: the current
  version, and what \<open>Finalize\<close> and the counters of seeks found, whose arithmetic is not modelled.
\<close>

section \<open>Compactions\<close>

record Compaction =
  c_level :: nat
  c_max_output_file_size :: u64
  c_input_version :: "Version option"
  c_edit :: VersionEdit
  c_inputs0 :: "FileMetaData list"
  c_inputs1 :: "FileMetaData list"
  c_grandparents :: "FileMetaData list"
  c_grandparent_index :: nat
  c_seen_key :: bool
  c_overlapped_bytes :: u64
  c_level_ptrs :: "nat \<Rightarrow> nat"

definition new_Compaction :: "Options \<Rightarrow> nat \<Rightarrow> Compaction" where
  "new_Compaction opts level = \<lparr>c_level = level, c_max_output_file_size = MaxFileSizeForLevel opts (int level), c_input_version = None,
     c_edit = new_VersionEdit, c_inputs0 = [], c_inputs1 = [], c_grandparents = [], c_grandparent_index = 0, c_seen_key = False,
     c_overlapped_bytes = 0, c_level_ptrs = (\<lambda>_. 0)\<rparr>"

text \<open>\<open>vs_score_high\<close> says that the score of the current version is at least one; the file to compact comes with its level.\<close>

record VersionSet =
  vs_options :: Options
  vs_current :: Version
  vs_compact_pointer :: "nat \<Rightarrow> slice"
  vs_compaction_level :: int
  vs_score_high :: bool
  vs_file_to_compact :: "(FileMetaData \<times> int) option"

section \<open>Ranges\<close>

fun range_loop :: "Comparator \<Rightarrow> FileMetaData list \<Rightarrow> InternalKey \<Rightarrow> InternalKey \<Rightarrow> (InternalKey \<times> InternalKey) option" where
  "range_loop c [] smallest largest = Some (smallest, largest)"
| "range_loop c (f # fs) smallest largest = do {
     r \<leftarrow> InternalKey_Compare c (fm_smallest f) smallest;
     r1 \<leftarrow> InternalKey_Compare c (fm_largest f) largest;
     range_loop c fs (if r < 0 then fm_smallest f else smallest) (if r1 > 0 then fm_largest f else largest)
   }"

fun GetRange :: "Comparator \<Rightarrow> FileMetaData list \<Rightarrow> (InternalKey \<times> InternalKey) option" where
  "GetRange c [] = None"
| "GetRange c (f # fs) = range_loop c fs (fm_smallest f) (fm_largest f)"

definition GetRange2 :: "Comparator \<Rightarrow> FileMetaData list \<Rightarrow> FileMetaData list \<Rightarrow> (InternalKey \<times> InternalKey) option" where
  "GetRange2 c inputs1 inputs2 = GetRange c (inputs1 @ inputs2)"

section \<open>The inputs of a compaction\<close>

text \<open>A sum of two sizes as a signed number of 64 bits.\<close>

definition int64_result :: "int \<Rightarrow> int option" where
  "int64_result x = (if - (2 ^ 63) \<le> x \<and> x < 2 ^ 63 then Some x else None)"

text \<open>
  More files of the level are taken when this does not add files of the next level. The result has the inputs of both
  levels, the largest key of the first, and the range of both.
\<close>

definition expand_inputs :: "Comparator \<Rightarrow> VersionSet \<Rightarrow> nat \<Rightarrow> FileMetaData list \<Rightarrow> FileMetaData list \<Rightarrow> InternalKey \<Rightarrow> InternalKey \<Rightarrow> InternalKey
    \<Rightarrow> (FileMetaData list \<times> FileMetaData list \<times> InternalKey \<times> InternalKey \<times> InternalKey) option" where
  "expand_inputs c vs level inputs0 inputs1 largest all_start all_limit =
     (let same = Some (inputs0, inputs1, largest, all_start, all_limit) in
      if inputs1 = [] then same
      else do {
        expanded0 \<leftarrow> GetOverlappingInputs c (vs_current vs) level (Some all_start) (Some all_limit);
        more \<leftarrow>
          (if length expanded0 > length inputs0 then do {
             sum \<leftarrow> int64_result (TotalFileSize inputs1 + TotalFileSize expanded0);
             limit \<leftarrow> ExpandedCompactionByteSizeLimit (vs_options vs);
             Some (sum < limit)
           }
           else Some False);
        if more then do {
          (new_start, new_limit) \<leftarrow> GetRange c expanded0;
          expanded1 \<leftarrow> GetOverlappingInputs c (vs_current vs) (level + 1) (Some new_start) (Some new_limit);
          if length expanded1 = length inputs1 then do {
            (start, limit) \<leftarrow> GetRange2 c expanded0 expanded1;
            Some (expanded0, expanded1, new_limit, start, limit)
          }
          else same
        }
        else same
      })"

definition SetupOtherInputs :: "Comparator \<Rightarrow> Compaction \<Rightarrow> VersionSet \<Rightarrow> (Compaction \<times> VersionSet) option" where
  "SetupOtherInputs c co vs = do {
     let level = c_level co;
     (smallest, largest0) \<leftarrow> GetRange c (c_inputs0 co);
     other \<leftarrow> GetOverlappingInputs c (vs_current vs) (level + 1) (Some smallest) (Some largest0);
     (start, limit) \<leftarrow> GetRange2 c (c_inputs0 co) other;
     (inputs0, inputs1, largest, all_start, all_limit) \<leftarrow> expand_inputs c vs level (c_inputs0 co) other largest0 start limit;
     grandparents \<leftarrow>
       (if level + 2 < kNumLevels then GetOverlappingInputs c (vs_current vs) (level + 2) (Some all_start) (Some all_limit)
        else Some (c_grandparents co));
     pointer \<leftarrow> InternalKey_Encode largest;
     Some (co\<lparr>c_inputs0 := inputs0, c_inputs1 := inputs1, c_grandparents := grandparents,
              c_edit := SetCompactPointer (int level) largest (c_edit co)\<rparr>,
           vs\<lparr>vs_compact_pointer := (vs_compact_pointer vs)(level := pointer)\<rparr>)
   }"

text \<open>The first file behind the pointer of the level.\<close>

fun file_behind :: "Comparator \<Rightarrow> slice \<Rightarrow> FileMetaData list \<Rightarrow> FileMetaData list option" where
  "file_behind c pointer [] = Some []"
| "file_behind c pointer (f # fs) =
     (if pointer = [] then Some [f]
      else do {
        largest \<leftarrow> InternalKey_Encode (fm_largest f);
        r \<leftarrow> internal_Compare c largest pointer;
        if r > 0 then Some [f] else file_behind c pointer fs
      })"

text \<open>The choice of the first file, with its level.\<close>

definition first_input :: "Comparator \<Rightarrow> VersionSet \<Rightarrow> (nat \<times> FileMetaData list) option option" where
  "first_input c vs =
     (if vs_score_high vs then do {
        level \<leftarrow> level_index (vs_compaction_level vs);
        if level + 1 < kNumLevels then do {
          inputs \<leftarrow> file_behind c (vs_compact_pointer vs level) (v_files (vs_current vs) level);
          if inputs \<noteq> [] then Some (Some (level, inputs))
          else case v_files (vs_current vs) level of [] \<Rightarrow> None | f # _ \<Rightarrow> Some (Some (level, [f]))
        }
        else None
      }
      else case vs_file_to_compact vs of None \<Rightarrow> Some None
        | Some (f, l) \<Rightarrow> do { level \<leftarrow> level_index l; Some (Some (level, [f])) })"

definition PickCompaction :: "Comparator \<Rightarrow> VersionSet \<Rightarrow> (Compaction option \<times> VersionSet) option" where
  "PickCompaction c vs = do {
     first \<leftarrow> first_input c vs;
     case first of None \<Rightarrow> Some (None, vs)
     | Some (level, inputs) \<Rightarrow> do {
         inputs0 \<leftarrow>
           (if level = 0 then do {
              (smallest, largest) \<leftarrow> GetRange c inputs;
              overlapping \<leftarrow> GetOverlappingInputs c (vs_current vs) 0 (Some smallest) (Some largest);
              if overlapping \<noteq> [] then Some overlapping else None
            }
            else Some inputs);
         (co, vs1) \<leftarrow> SetupOtherInputs c ((new_Compaction (vs_options vs) level)\<lparr>c_input_version := Some (vs_current vs), c_inputs0 := inputs0\<rparr>) vs;
         Some (Some co, vs1)
       }
   }"

text \<open>A manual compaction of a level above 0 takes no more files after the limit is reached.\<close>

fun up_to_limit :: "u64 \<Rightarrow> u64 \<Rightarrow> FileMetaData list \<Rightarrow> FileMetaData list" where
  "up_to_limit limit acc [] = []"
| "up_to_limit limit acc (f # fs) =
     (let sum = acc + fm_file_size f in if sum \<ge> limit then [f] else f # up_to_limit limit sum fs)"

definition VersionSet_CompactRange :: "Comparator \<Rightarrow> VersionSet \<Rightarrow> nat \<Rightarrow> InternalKey option \<Rightarrow> InternalKey option \<Rightarrow> (Compaction option \<times> VersionSet) option" where
  "VersionSet_CompactRange c vs level begin_key end_key = do {
     inputs \<leftarrow> GetOverlappingInputs c (vs_current vs) level begin_key end_key;
     if inputs = [] then Some (None, vs)
     else do {
       let inputs0 = (if level > 0 then up_to_limit (MaxFileSizeForLevel (vs_options vs) (int level)) 0 inputs else inputs);
       (co, vs1) \<leftarrow> SetupOtherInputs c ((new_Compaction (vs_options vs) level)\<lparr>c_input_version := Some (vs_current vs), c_inputs0 := inputs0\<rparr>) vs;
       Some (Some co, vs1)
     }
   }"

section \<open>Questions to a compaction\<close>

definition IsTrivialMove :: "Options \<Rightarrow> Compaction \<Rightarrow> bool option" where
  "IsTrivialMove opts co =
     (if length (c_inputs0 co) = 1 \<and> length (c_inputs1 co) = 0 then do {
        bytes \<leftarrow> MaxGrandParentOverlapBytes opts;
        Some (TotalFileSize (c_grandparents co) \<le> bytes)
      }
      else Some False)"

definition AddInputDeletions :: "Compaction \<Rightarrow> VersionEdit \<Rightarrow> VersionEdit" where
  "AddInputDeletions co edit =
     fold (\<lambda>f. DeleteFile (int (c_level co + 1)) (fm_number f)) (c_inputs1 co)
       (fold (\<lambda>f. DeleteFile (int (c_level co)) (fm_number f)) (c_inputs0 co) edit)"

text \<open>The search in the files of a level goes on where the last one ended; it says whether a file has the key.\<close>

function advance_ptr :: "Comparator \<Rightarrow> slice \<Rightarrow> FileMetaData list \<Rightarrow> nat \<Rightarrow> (bool \<times> nat) option" where
  "advance_ptr c ukey files ptr =
     (if ptr < length files then do {
        largest \<leftarrow> ExtractUserKey (fm_largest (files ! ptr));
        r \<leftarrow> Compare c ukey largest;
        if r \<le> 0 then do {
          smallest \<leftarrow> ExtractUserKey (fm_smallest (files ! ptr));
          r1 \<leftarrow> Compare c ukey smallest;
          Some (r1 \<ge> 0, ptr)
        }
        else advance_ptr c ukey files (ptr + 1)
      }
      else Some (False, ptr))"
  by pat_completeness auto
termination by (relation "measure (\<lambda>(_, _, files, ptr). length files - ptr)") auto

declare advance_ptr.simps [simp del]

fun base_level_loop :: "Comparator \<Rightarrow> Version \<Rightarrow> slice \<Rightarrow> nat list \<Rightarrow> (nat \<Rightarrow> nat) \<Rightarrow> (bool \<times> (nat \<Rightarrow> nat)) option" where
  "base_level_loop c v ukey [] ptrs = Some (True, ptrs)"
| "base_level_loop c v ukey (lvl # lvls) ptrs = do {
     (found, ptr) \<leftarrow> advance_ptr c ukey (v_files v lvl) (ptrs lvl);
     if found then Some (False, ptrs(lvl := ptr)) else base_level_loop c v ukey lvls (ptrs(lvl := ptr))
   }"

definition IsBaseLevelForKey :: "Comparator \<Rightarrow> slice \<Rightarrow> Compaction \<Rightarrow> (bool \<times> Compaction) option" where
  "IsBaseLevelForKey c ukey co = do {
     v \<leftarrow> c_input_version co;
     (base, ptrs) \<leftarrow> base_level_loop c v ukey [c_level co + 2 ..< kNumLevels] (c_level_ptrs co);
     Some (base, co\<lparr>c_level_ptrs := ptrs\<rparr>)
   }"

function skip_grandparents :: "Comparator \<Rightarrow> slice \<Rightarrow> Compaction \<Rightarrow> Compaction option" where
  "skip_grandparents c ik co =
     (if c_grandparent_index co < length (c_grandparents co) then do {
        let f = c_grandparents co ! c_grandparent_index co;
        largest \<leftarrow> InternalKey_Encode (fm_largest f);
        r \<leftarrow> internal_Compare c ik largest;
        if r > 0 then
          skip_grandparents c ik
            (co\<lparr>c_overlapped_bytes := (if c_seen_key co then c_overlapped_bytes co + fm_file_size f else c_overlapped_bytes co),
                c_grandparent_index := c_grandparent_index co + 1\<rparr>)
        else Some co
      }
      else Some co)"
  by pat_completeness auto
termination by (relation "measure (\<lambda>(_, _, co). length (c_grandparents co) - c_grandparent_index co)") auto

declare skip_grandparents.simps [simp del]

definition ShouldStopBefore :: "Comparator \<Rightarrow> Options \<Rightarrow> slice \<Rightarrow> Compaction \<Rightarrow> (bool \<times> Compaction) option" where
  "ShouldStopBefore c opts ik co = do {
     co1 \<leftarrow> skip_grandparents c ik co;
     let co2 = co1\<lparr>c_seen_key := True\<rparr>;
     bytes \<leftarrow> MaxGrandParentOverlapBytes opts;
     if sint (c_overlapped_bytes co2) > bytes then Some (True, co2\<lparr>c_overlapped_bytes := 0\<rparr>) else Some (False, co2)
   }"

definition ReleaseInputs :: "Compaction \<Rightarrow> Compaction" where
  "ReleaseInputs co = co\<lparr>c_input_version := None\<rparr>"

section \<open>Sizes of levels\<close>

definition NumLevelFiles :: "VersionSet \<Rightarrow> nat \<Rightarrow> nat option" where
  "NumLevelFiles vs level = (if level < kNumLevels then Some (length (v_files (vs_current vs) level)) else None)"

definition NumLevelBytes :: "VersionSet \<Rightarrow> nat \<Rightarrow> int option" where
  "NumLevelBytes vs level = (if level < kNumLevels then Some (TotalFileSize (v_files (vs_current vs) level)) else None)"

fun max_overlap :: "Comparator \<Rightarrow> Version \<Rightarrow> nat \<Rightarrow> FileMetaData list \<Rightarrow> int \<Rightarrow> int option" where
  "max_overlap c v level [] result = Some result"
| "max_overlap c v level (f # fs) result = do {
     overlaps \<leftarrow> GetOverlappingInputs c v (level + 1) (Some (fm_smallest f)) (Some (fm_largest f));
     let sum = TotalFileSize overlaps;
     max_overlap c v level fs (if sum > result then sum else result)
   }"

definition MaxNextLevelOverlappingBytes :: "Comparator \<Rightarrow> VersionSet \<Rightarrow> int option" where
  "MaxNextLevelOverlappingBytes c vs =
     each (\<lambda>level. max_overlap c (vs_current vs) level (v_files (vs_current vs) level)) [1 ..< kNumLevels - 1] 0"

end
