(* ===== verification/LdbCompactionWork.thy ===== *)
theory LdbCompactionWork
  imports LdbCompaction
begin

text \<open>
  What a compaction does (db/db_impl.cc, the class CompactionState and the functions around \<open>DoCompactionWork\<close>): it reads the merged entries of its
  inputs, leaves out those that no snapshot can see any more, and writes the others to new tables. The lock, the log of messages, the statistics and
  the memtable that is written in between when it is full are not modelled; the iterator over the inputs, the environment and
  the times at which the database is shut down are parameters.
\<close>

section \<open>The state of a compaction\<close>

text \<open>The size of an output is set when it is finished; before that it is zero here and undefined in the code.\<close>

record Output =
  out_number :: u64
  out_file_size :: u64
  out_smallest :: InternalKey
  out_largest :: InternalKey

record CompactionState =
  cs_compaction :: Compaction
  cs_smallest_snapshot :: SequenceNumber
  cs_outputs :: "Output list"
  cs_outfile :: "nat option"
  cs_builder :: "TableBuilder option"
  cs_total_bytes :: u64

definition new_CompactionState :: "Compaction \<Rightarrow> CompactionState" where
  "new_CompactionState co = \<lparr>cs_compaction = co, cs_smallest_snapshot = 0, cs_outputs = [], cs_outfile = None, cs_builder = None, cs_total_bytes = 0\<rparr>"

text \<open>What it uses of the database: the next file number, the outputs that must not be deleted, and the table cache.\<close>

record CompactionDB =
  cd_next_file_number :: u64
  cd_pending_outputs :: "u64 set"
  cd_tables :: TableCache

text \<open>The environment, with a flush of an open file and the opening of a file for reading, and the options of the database.\<close>

record 's CompactionEnv =
  ce_env :: "'s Env"
  ce_Flush :: "nat \<Rightarrow> 's \<Rightarrow> Status \<times> 's"
  ce_NewRandomAccessFile :: "'s \<Rightarrow> slice \<Rightarrow> Status \<times> RandomAccessFile"
  ce_dbname :: slice
  ce_options :: Options

definition open_file :: "'s CompactionEnv \<Rightarrow> nat \<Rightarrow> 's WritableFile" where
  "open_file ce h = \<lparr>wf_Append = env_Append (ce_env ce) h, wf_Flush = ce_Flush ce h\<rparr>"

definition on_current_output :: "(Output \<Rightarrow> Output) \<Rightarrow> CompactionState \<Rightarrow> CompactionState option" where
  "on_current_output f cs =
     (if cs_outputs cs = [] then None
      else Some (cs\<lparr>cs_outputs := butlast (cs_outputs cs) @ [f (last (cs_outputs cs))]\<rparr>))"

section \<open>Output files\<close>

definition OpenCompactionOutputFile :: "'s CompactionEnv \<Rightarrow> CompactionState \<Rightarrow> CompactionDB \<Rightarrow> 's
    \<Rightarrow> (Status \<times> CompactionState \<times> CompactionDB \<times> 's) option" where
  "OpenCompactionOutputFile ce cs db s =
     (if cs_builder cs \<noteq> None then None
      else do {
        let file_number = cd_next_file_number db;
        let db1 = db\<lparr>cd_next_file_number := file_number + 1, cd_pending_outputs := insert file_number (cd_pending_outputs db)\<rparr>;
        let cs1 = cs\<lparr>cs_outputs := cs_outputs cs @ [\<lparr>out_number = file_number, out_file_size = 0, out_smallest = [], out_largest = []\<rparr>]\<rparr>;
        fname \<leftarrow> TableFileName (ce_dbname ce) file_number;
        let (st, h, s1) = env_NewWritableFile (ce_env ce) fname s;
        if Status_ok st then do {
          b \<leftarrow> new_TableBuilder (ce_options ce);
          Some (st, cs1\<lparr>cs_outfile := Some h, cs_builder := Some b\<rparr>, db1, s1)
        }
        else Some (st, cs1, db1, s1)
      })"

text \<open>A new table is opened through the table cache, which keeps it; the status of an iterator over it is returned.\<close>

definition check_table :: "'s CompactionEnv \<Rightarrow> u64 \<Rightarrow> u64 \<Rightarrow> CompactionDB \<Rightarrow> 's \<Rightarrow> (Status \<times> CompactionDB) option" where
  "check_table ce number file_size db s = do {
     let tc = (cd_tables db)\<lparr>tc_NewRandomAccessFile := ce_NewRandomAccessFile ce s\<rparr>;
     (st, table, inserted) \<leftarrow> FindTable tc number file_size;
     let db1 = (case inserted of None \<Rightarrow> db | Some kt \<Rightarrow> db\<lparr>cd_tables := insert_table kt (cd_tables db)\<rparr>);
     if \<not> Status_ok st then Some (st, db1)
     else do {
       t \<leftarrow> table;
       it \<leftarrow> Table_NewIterator t (tc_blocks tc) new_ReadOptions;
       st1 \<leftarrow> it_status (TwoLevelIterator_ops (Table_levels t (tc_blocks tc) new_ReadOptions)) it;
       Some (st1, db1)
     }
   }"

text \<open>A table is finished, or abandoned when the input has failed, and its file is closed.\<close>

definition FinishCompactionOutputFile :: "'s CompactionEnv \<Rightarrow> 'i Iterator \<Rightarrow> 'i \<Rightarrow> CompactionState \<Rightarrow> CompactionDB \<Rightarrow> 's
    \<Rightarrow> (Status \<times> CompactionState \<times> CompactionDB \<times> 's) option" where
  "FinishCompactionOutputFile ce it w cs db s = do {
     h \<leftarrow> cs_outfile cs;
     b \<leftarrow> cs_builder cs;
     output_number \<leftarrow> (if cs_outputs cs = [] then None else Some (out_number (last (cs_outputs cs))));
     if output_number = 0 then None
     else do {
       st \<leftarrow> it_status it w;
       let current_entries = tb_NumEntries b;
       (st1, b1, s1) \<leftarrow> (if Status_ok st then tb_Finish (open_file ce h) b s else do { b1 \<leftarrow> tb_Abandon b; Some (st, b1, s) });
       let current_bytes = tb_FileSize b1;
       cs1 \<leftarrow> on_current_output (\<lambda>out. out\<lparr>out_file_size := current_bytes\<rparr>) cs;
       let cs2 = cs1\<lparr>cs_total_bytes := cs_total_bytes cs1 + current_bytes, cs_builder := None, cs_outfile := None\<rparr>;
       let (st2, s2) = (if Status_ok st1 then env_Sync (ce_env ce) h s1 else (st1, s1));
       let (st3, s3) = (if Status_ok st2 then env_Close (ce_env ce) h s2 else (st2, s2));
       let s4 = env_release (ce_env ce) h s3;
       (st4, db1) \<leftarrow> (if Status_ok st3 \<and> current_entries > 0 then check_table ce output_number current_bytes db s4 else Some (st3, db));
       Some (st4, cs2, db1, s4)
     }
   }"

section \<open>Entries that are left out\<close>

text \<open>What the loop knows of the entry before: its user key and its sequence number.\<close>

record KeyState =
  ks_has_current_user_key :: bool
  ks_current_user_key :: slice
  ks_last_sequence_for_key :: SequenceNumber

definition new_KeyState :: KeyState where
  "new_KeyState = \<lparr>ks_has_current_user_key = False, ks_current_user_key = [], ks_last_sequence_for_key = kMaxSequenceNumber\<rparr>"

definition drop_entry :: "Comparator \<Rightarrow> SequenceNumber \<Rightarrow> slice \<Rightarrow> KeyState \<Rightarrow> Compaction \<Rightarrow> (bool \<times> KeyState \<times> Compaction) option" where
  "drop_entry c smallest_snapshot key ks co =
     (case ParseInternalKey key of
        None \<Rightarrow> Some (False, new_KeyState, co)
      | Some pk \<Rightarrow> do {
          first \<leftarrow>
            (if \<not> ks_has_current_user_key ks then Some True
             else do { r \<leftarrow> Compare c (pk_user_key pk) (ks_current_user_key ks); Some (r \<noteq> 0) });
          let ks1 = (if first then \<lparr>ks_has_current_user_key = True, ks_current_user_key = pk_user_key pk, ks_last_sequence_for_key = kMaxSequenceNumber\<rparr> else ks);
          (drop, co1) \<leftarrow>
            (if ks_last_sequence_for_key ks1 \<le> smallest_snapshot then Some (True, co)
             else if pk_type pk = kTypeDeletion \<and> pk_sequence pk \<le> smallest_snapshot then IsBaseLevelForKey c (pk_user_key pk) co
             else Some (False, co));
          Some (drop, ks1\<lparr>ks_last_sequence_for_key := pk_sequence pk\<rparr>, co1)
        })"

section \<open>The loop\<close>

text \<open>An entry that is kept goes to the present output, which is closed when it is big enough.\<close>

definition add_entry :: "'s CompactionEnv \<Rightarrow> 'i Iterator \<Rightarrow> 'i \<Rightarrow> slice \<Rightarrow> CompactionState \<Rightarrow> CompactionDB \<Rightarrow> 's
    \<Rightarrow> (Status \<times> CompactionState \<times> CompactionDB \<times> 's) option" where
  "add_entry ce it w key cs db s = do {
     (st, cs1, db1, s1) \<leftarrow> (if cs_builder cs = None then OpenCompactionOutputFile ce cs db s else Some (Status_OK, cs, db, s));
     if \<not> Status_ok st then Some (st, cs1, db1, s1)
     else do {
       h \<leftarrow> cs_outfile cs1;
       b \<leftarrow> cs_builder cs1;
       cs2 \<leftarrow> (if tb_NumEntries b = 0 then on_current_output (\<lambda>out. out\<lparr>out_smallest := key\<rparr>) cs1 else Some cs1);
       cs3 \<leftarrow> on_current_output (\<lambda>out. out\<lparr>out_largest := key\<rparr>) cs2;
       value \<leftarrow> it_value it w;
       (b1, s2) \<leftarrow> tb_Add (open_file ce h) b key value s1;
       let cs4 = cs3\<lparr>cs_builder := Some b1\<rparr>;
       if tb_FileSize b1 \<ge> c_max_output_file_size (cs_compaction cs4) then FinishCompactionOutputFile ce it w cs4 db1 s2
       else Some (Status_OK, cs4, db1, s2)
     }
   }"

text \<open>One round of the loop: a status that is not ok ends it.\<close>

definition compact_entry :: "Comparator \<Rightarrow> 's CompactionEnv \<Rightarrow> 'i Iterator \<Rightarrow> 'i \<Rightarrow> KeyState \<Rightarrow> CompactionState \<Rightarrow> CompactionDB \<Rightarrow> 's
    \<Rightarrow> (Status \<times> KeyState \<times> CompactionState \<times> CompactionDB \<times> 's) option" where
  "compact_entry c ce it w ks cs db s = do {
     key \<leftarrow> it_key it w;
     (stop, co) \<leftarrow> ShouldStopBefore c (ce_options ce) key (cs_compaction cs);
     let cs1 = cs\<lparr>cs_compaction := co\<rparr>;
     (st, cs2, db1, s1) \<leftarrow> (if stop \<and> cs_builder cs1 \<noteq> None then FinishCompactionOutputFile ce it w cs1 db s else Some (Status_OK, cs1, db, s));
     if \<not> Status_ok st then Some (st, ks, cs2, db1, s1)
     else do {
       (drop, ks1, co1) \<leftarrow> drop_entry c (cs_smallest_snapshot cs2) key ks (cs_compaction cs2);
       let cs3 = cs2\<lparr>cs_compaction := co1\<rparr>;
       (st1, cs4, db2, s2) \<leftarrow> (if drop then Some (Status_OK, cs3, db1, s1) else add_entry ce it w key cs3 db1 s1);
       Some (st1, ks1, cs4, db2, s2)
     }
   }"

text \<open>\<open>down n\<close> says whether the database is shut down when the \<open>n\<close>-th entry is reached.\<close>

partial_function (option) compaction_loop :: "Comparator \<Rightarrow> 's CompactionEnv \<Rightarrow> 'i Iterator \<Rightarrow> (nat \<Rightarrow> bool) \<Rightarrow> nat \<Rightarrow> 'i
    \<Rightarrow> KeyState \<Rightarrow> CompactionState \<Rightarrow> CompactionDB \<Rightarrow> 's \<Rightarrow> (Status \<times> nat \<times> 'i \<times> CompactionState \<times> CompactionDB \<times> 's) option" where
  "compaction_loop c ce it down n w ks cs db s =
     (if it_Valid it w \<and> \<not> down n then do {
        r \<leftarrow> compact_entry c ce it w ks cs db s;
        case r of (st, ks1, cs1, db1, s1) \<Rightarrow>
          if \<not> Status_ok st then Some (st, n, w, cs1, db1, s1)
          else do {
            w1 \<leftarrow> it_Next it w;
            compaction_loop c ce it down (Suc n) w1 ks1 cs1 db1 s1
          }
      }
      else Some (Status_OK, n, w, cs, db, s))"

definition shutdown_status :: "Status option" where
  "shutdown_status = Status_IOError (lit ''Deleting DB during compaction'') []"

text \<open>
  The work up to the point where the results are installed. \<open>oldest\<close> is the oldest snapshot, when there is one, and
  \<open>last_sequence\<close> the last sequence number of the set of versions.
\<close>

definition DoCompactionWork :: "Comparator \<Rightarrow> 's CompactionEnv \<Rightarrow> VersionSet \<Rightarrow> SequenceNumber option \<Rightarrow> SequenceNumber \<Rightarrow> (nat \<Rightarrow> bool)
    \<Rightarrow> 'i Iterator \<Rightarrow> 'i \<Rightarrow> CompactionState \<Rightarrow> CompactionDB \<Rightarrow> 's \<Rightarrow> (Status \<times> CompactionState \<times> CompactionDB \<times> 's) option" where
  "DoCompactionWork c ce vs oldest last_sequence down it w cs db s = do {
     files \<leftarrow> NumLevelFiles vs (c_level (cs_compaction cs));
     if files = 0 \<or> cs_builder cs \<noteq> None \<or> cs_outfile cs \<noteq> None then None
     else do {
       let cs1 = cs\<lparr>cs_smallest_snapshot := (case oldest of None \<Rightarrow> last_sequence | Some number \<Rightarrow> number)\<rparr>;
       w1 \<leftarrow> it_SeekToFirst it w;
       (st, n, w2, cs2, db2, s2) \<leftarrow> compaction_loop c ce it down 0 w1 new_KeyState cs1 db s;
       st1 \<leftarrow> (if Status_ok st \<and> down n then shutdown_status else Some st);
       (st2, cs3, db3, s3) \<leftarrow>
         (if Status_ok st1 \<and> cs_builder cs2 \<noteq> None then FinishCompactionOutputFile ce it w2 cs2 db2 s2 else Some (st1, cs2, db2, s2));
       st3 \<leftarrow> (if Status_ok st2 then it_status it w2 else Some st2);
       Some (st3, cs3, db3, s3)
     }
   }"

text \<open>The edit with which \<open>InstallCompactionResults\<close> installs the results.\<close>

definition compaction_edit :: "CompactionState \<Rightarrow> VersionEdit" where
  "compaction_edit cs =
     (let co = cs_compaction cs in
      fold (\<lambda>out. AddFile (int (c_level co + 1)) (out_number out) (out_file_size out) (out_smallest out) (out_largest out)) (cs_outputs cs)
        (AddInputDeletions co (c_edit co)))"

text \<open>What is done with the state at the end, also after a failure.\<close>

definition CleanupCompaction :: "'s CompactionEnv \<Rightarrow> CompactionState \<Rightarrow> CompactionDB \<Rightarrow> 's \<Rightarrow> (CompactionDB \<times> 's) option" where
  "CleanupCompaction ce cs db s = do {
     _ \<leftarrow> (case cs_builder cs of None \<Rightarrow> if cs_outfile cs = None then Some None else None
         | Some b \<Rightarrow> do { b1 \<leftarrow> tb_Abandon b; Some (Some b1) });
     let s1 = (case cs_outfile cs of None \<Rightarrow> s | Some h \<Rightarrow> env_release (ce_env ce) h s);
     Some (db\<lparr>cd_pending_outputs := cd_pending_outputs db - out_number ` set (cs_outputs cs)\<rparr>, s1)
   }"

end
