(* ===== verification/LdbCompactionProps.thy ===== *)
theory LdbCompactionProps
  imports LdbCompaction
begin

text \<open>
  What a compaction promises: its inputs are all files of the next level that overlap the files taken, in level 0 no file that overlaps them
  stays behind, and the questions whether a deeper level has a key, asked in the order of the keys, are answered exactly.
  The user's comparator is the bytewise one.
\<close>

section \<open>Is there a deeper level with the key?\<close>

abbreviation has_key :: "slice \<Rightarrow> FileMetaData \<Rightarrow> bool" where
  "has_key u \<equiv> overlaps (Some u) (Some u)"

lemma has_key_iff: "has_key u f \<longleftrightarrow> uk (fm_smallest f) \<le> u \<and> u \<le> uk (fm_largest f)"
  by (auto simp: overlaps_def above_bound_def below_bound_def)

lemma smallest_mono:
  assumes "level_sorted fs" and "\<forall>f \<in> set fs. file_ok f" and "i \<le> j" and "j < length fs"
  shows "uk (fm_smallest (fs ! i)) \<le> uk (fm_smallest (fs ! j))"
proof (cases "i = j")
  case False
  then have "korder (fm_largest (fs ! i)) < korder (fm_smallest (fs ! j))" using assms level_sorted_nth [OF assms(1)] by simp
  moreover have "korder (fm_smallest (fs ! i)) \<le> korder (fm_largest (fs ! i))" using assms by (simp add: file_okD)
  ultimately show ?thesis by (intro korder_user) simp
qed simp

text \<open>The files before the pointer of a level end below the key.\<close>

definition passed :: "FileMetaData list \<Rightarrow> nat \<Rightarrow> slice \<Rightarrow> bool" where
  "passed fs ptr u \<longleftrightarrow> ptr \<le> length fs \<and> (\<forall>j < ptr. uk (fm_largest (fs ! j)) < u)"

lemma passed_mono: "passed fs ptr u \<Longrightarrow> u \<le> u' \<Longrightarrow> passed fs ptr u'"
  by (auto simp: passed_def intro: order.strict_trans2)

lemma advance_ptr_exact:
  assumes s: "level_sorted fs" and ok: "\<forall>f \<in> set fs. file_ok f"
  shows "passed fs ptr u \<Longrightarrow> \<exists>ptr'. advance_ptr BytewiseComparator u fs ptr = Some (\<exists>f \<in> set fs. has_key u f, ptr') \<and> passed fs ptr' u"
proof (induction "length fs - ptr" arbitrary: ptr)
  case 0
  then have "ptr = length fs" by (simp add: passed_def)
  moreover have "\<not> (\<exists>f \<in> set fs. has_key u f)" using 0 \<open>ptr = length fs\<close> by (auto simp: passed_def has_key_iff in_set_conv_nth not_le [symmetric])
  ultimately show ?case using 0 by (subst advance_ptr.simps) auto
next
  case (Suc n)
  then have p: "ptr < length fs" by simp
  let ?f = "fs ! ptr"
  have f: "file_ok ?f" using ok p by simp
  have l: "ExtractUserKey (fm_largest ?f) = Some (uk (fm_largest ?f))" "ExtractUserKey (fm_smallest ?f) = Some (uk (fm_smallest ?f))"
    using f by (simp_all add: extract_uk file_okD)
  show ?case
  proof (cases "u \<le> uk (fm_largest ?f)")
    case True
    have "(\<exists>f \<in> set fs. has_key u f) \<longleftrightarrow> uk (fm_smallest ?f) \<le> u"
    proof
      assume "\<exists>f \<in> set fs. has_key u f"
      then obtain j where j: "j < length fs" "uk (fm_smallest (fs ! j)) \<le> u" "u \<le> uk (fm_largest (fs ! j))" by (auto simp: has_key_iff in_set_conv_nth)
      then have "ptr \<le> j" using Suc.prems by (meson leD linorder_le_less_linear passed_def)
      then show "uk (fm_smallest ?f) \<le> u" using smallest_mono [OF s ok _ j(1)] j(2) by (meson order.trans)
    next
      assume "uk (fm_smallest ?f) \<le> u"
      then show "\<exists>f \<in> set fs. has_key u f" using True p by (auto simp: has_key_iff)
    qed
    then show ?thesis using True p l Suc.prems by (subst advance_ptr.simps) (simp add: bytes_compare bytes_sign)
  next
    case False
    then have "passed fs (ptr + 1) u" using Suc.prems p by (auto simp: passed_def less_Suc_eq)
    moreover have "n = length fs - (ptr + 1)" using Suc.hyps(2) by simp
    moreover have "advance_ptr BytewiseComparator u fs ptr = advance_ptr BytewiseComparator u fs (ptr + 1)"
      using False p l by (subst advance_ptr.simps) (simp add: bytes_compare bytes_sign)
    ultimately show ?thesis using Suc.hyps(1) by metis
  qed
qed

lemma base_level_loop_exact:
  assumes v: "levels_ok v"
  shows "distinct lvls \<Longrightarrow> \<forall>l \<in> set lvls. 0 < l \<and> l < kNumLevels \<and> passed (v_files v l) (ptrs l) u \<Longrightarrow>
    \<exists>ptrs'. base_level_loop BytewiseComparator v u lvls ptrs = Some (\<forall>l \<in> set lvls. \<forall>f \<in> set (v_files v l). \<not> has_key u f, ptrs') \<and>
      (\<forall>l. if l \<in> set lvls then passed (v_files v l) (ptrs' l) u else ptrs' l = ptrs l)"
proof (induction lvls arbitrary: ptrs)
  case (Cons l ls)
  have l: "level_sorted (v_files v l)" "\<forall>f \<in> set (v_files v l). file_ok f" using v Cons.prems(2) by (auto simp: levels_ok_def)
  obtain ptr where ptr: "advance_ptr BytewiseComparator u (v_files v l) (ptrs l) = Some (\<exists>f \<in> set (v_files v l). has_key u f, ptr)" "passed (v_files v l) ptr u"
    using advance_ptr_exact [OF l, of "ptrs l" u] Cons.prems(2) by auto
  show ?case
  proof (cases "\<exists>f \<in> set (v_files v l). has_key u f")
    case True
    then show ?thesis using ptr Cons.prems by (intro exI [of _ "ptrs(l := ptr)"]) auto
  next
    case False
    have "\<forall>k \<in> set ls. 0 < k \<and> k < kNumLevels \<and> passed (v_files v k) ((ptrs(l := ptr)) k) u" using Cons.prems by auto
    then obtain ptrs' where "base_level_loop BytewiseComparator v u ls (ptrs(l := ptr)) = Some (\<forall>l \<in> set ls. \<forall>f \<in> set (v_files v l). \<not> has_key u f, ptrs')"
        "\<forall>k. if k \<in> set ls then passed (v_files v k) (ptrs' k) u else ptrs' k = (ptrs(l := ptr)) k"
      using Cons.IH [of "ptrs(l := ptr)"] Cons.prems(1) unfolding distinct.simps by blast
    then show ?thesis using ptr False Cons.prems(1) by (intro exI [of _ ptrs']) (auto split: if_splits)
  qed
qed auto

text \<open>The levels that a compaction does not merge have no file with the key.\<close>

definition base_level :: "Version \<Rightarrow> nat \<Rightarrow> slice \<Rightarrow> bool" where
  "base_level v level u \<longleftrightarrow> (\<forall>l < kNumLevels. level + 2 \<le> l \<longrightarrow> (\<forall>f \<in> set (v_files v l). \<not> has_key u f))"

definition ptrs_passed :: "Version \<Rightarrow> Compaction \<Rightarrow> slice \<Rightarrow> bool" where
  "ptrs_passed v co u \<longleftrightarrow> c_input_version co = Some v \<and> (\<forall>l < kNumLevels. c_level co + 2 \<le> l \<longrightarrow> passed (v_files v l) (c_level_ptrs co l) u)"

lemma ptrs_passed_mono: "ptrs_passed v co u \<Longrightarrow> u \<le> u' \<Longrightarrow> ptrs_passed v co u'"
  by (auto simp: ptrs_passed_def intro: passed_mono)

lemma ptrs_passed_start: "c_input_version co = Some v \<Longrightarrow> c_level_ptrs co = (\<lambda>_. 0) \<Longrightarrow> ptrs_passed v co u"
  by (simp add: ptrs_passed_def passed_def)

lemma IsBaseLevel_exact:
  assumes "levels_ok v" and "ptrs_passed v co u"
  shows "\<exists>ptrs. IsBaseLevelForKey BytewiseComparator u co = Some (base_level v (c_level co) u, co\<lparr>c_level_ptrs := ptrs\<rparr>) \<and>
    ptrs_passed v (co\<lparr>c_level_ptrs := ptrs\<rparr>) u"
proof -
  let ?ls = "[c_level co + 2 ..< kNumLevels]"
  have set: "set ?ls = {l. l < kNumLevels \<and> c_level co + 2 \<le> l}" by auto
  have "\<forall>l \<in> set ?ls. 0 < l \<and> l < kNumLevels \<and> passed (v_files v l) (c_level_ptrs co l) u"
    unfolding set using assms(2) by (simp add: ptrs_passed_def)
  from base_level_loop_exact [OF assms(1) distinct_upt this] obtain ptrs where
    p: "base_level_loop BytewiseComparator v u ?ls (c_level_ptrs co) = Some (\<forall>l \<in> set ?ls. \<forall>f \<in> set (v_files v l). \<not> has_key u f, ptrs)"
      "\<forall>l. if l \<in> set ?ls then passed (v_files v l) (ptrs l) u else ptrs l = c_level_ptrs co l"
    by blast
  have "(\<forall>l \<in> set ?ls. \<forall>f \<in> set (v_files v l). \<not> has_key u f) = base_level v (c_level co) u" unfolding set base_level_def by blast
  moreover have "passed (v_files v l) (ptrs l) u" if "l < kNumLevels" "c_level co + 2 \<le> l" for l
  proof -
    have "l \<in> set ?ls" using that by simp
    then show ?thesis using p(2) by presburger
  qed
  ultimately show ?thesis using assms(2) p(1) by (intro exI [of _ ptrs]) (simp add: IsBaseLevelForKey_def ptrs_passed_def)
qed

text \<open>Questions for one key after the other.\<close>

fun ask_base :: "Comparator \<Rightarrow> slice list \<Rightarrow> Compaction \<Rightarrow> (bool list \<times> Compaction) option" where
  "ask_base c [] co = Some ([], co)"
| "ask_base c (u # us) co = do {
     (b, co1) \<leftarrow> IsBaseLevelForKey c u co;
     (bs, co2) \<leftarrow> ask_base c us co1;
     Some (b # bs, co2)
   }"

lemma ask_base_exact:
  assumes v: "levels_ok v"
  shows "sorted us \<Longrightarrow> (us \<noteq> [] \<Longrightarrow> ptrs_passed v co (hd us)) \<Longrightarrow>
    \<exists>co'. ask_base BytewiseComparator us co = Some (map (base_level v (c_level co)) us, co')"
proof (induction us arbitrary: co)
  case (Cons u us)
  obtain ptrs where p: "IsBaseLevelForKey BytewiseComparator u co = Some (base_level v (c_level co) u, co\<lparr>c_level_ptrs := ptrs\<rparr>)"
      "ptrs_passed v (co\<lparr>c_level_ptrs := ptrs\<rparr>) u"
    using IsBaseLevel_exact [OF v] Cons.prems(2) by fastforce
  have "ptrs_passed v (co\<lparr>c_level_ptrs := ptrs\<rparr>) (hd us)" if "us \<noteq> []"
    using ptrs_passed_mono [OF p(2)] Cons.prems(1) that by (cases us) auto
  then obtain co' where "ask_base BytewiseComparator us (co\<lparr>c_level_ptrs := ptrs\<rparr>) = Some (map (base_level v (c_level co)) us, co')"
    using Cons.IH [of "co\<lparr>c_level_ptrs := ptrs\<rparr>"] Cons.prems(1) by auto
  then show ?case using p(1) by simp
qed simp

text \<open>
  The test for deeper data is exact. Asked for user keys in ascending order, as a compaction meets them, \<open>IsBaseLevelForKey\<close>
  says of each whether no file of a level below the two that are merged has the key in its range, although its pointers
  only move forward.
\<close>

theorem base_level_exact:
  assumes "levels_ok v" and "c_input_version co = Some v" and "c_level_ptrs co = (\<lambda>_. 0)" and "sorted us"
  shows "\<exists>co'. ask_base BytewiseComparator us co = Some (map (base_level v (c_level co)) us, co')"
  by (rule ask_base_exact [OF assms(1,4)]) (rule ptrs_passed_start [OF assms(2,3)])

text \<open>Two files of level 2, below a compaction of level 0.\<close>

definition two_deep :: Version where
  "two_deep = \<lparr>v_files = (\<lambda>l. if l = 2 then [sample_file 3 [97] [99], sample_file 4 [102] [104]] else [])\<rparr>"

lemma two_deep_ok: "levels_ok two_deep"
  by (auto simp: two_deep_def levels_ok_def level_sorted_def korder_less intro!: sample_ok)

theorem base_level_exact_witness:
  "\<exists>co'. ask_base BytewiseComparator [[98], [100], [103], [105]] ((new_Compaction new_Options 0)\<lparr>c_input_version := Some two_deep\<rparr>) =
     Some ([False, True, False, True], co')"
proof -
  let ?co = "(new_Compaction new_Options 0)\<lparr>c_input_version := Some two_deep\<rparr>"
  have b: "base_level two_deep 0 u \<longleftrightarrow> \<not> has_key u (sample_file 3 [97] [99]) \<and> \<not> has_key u (sample_file 4 [102] [104])" for u
  proof -
    have "base_level two_deep 0 u \<longleftrightarrow> (\<forall>l \<in> {2 ..< kNumLevels}. \<forall>f \<in> set (v_files two_deep l). \<not> has_key u f)" by (auto simp: base_level_def)
    also have "{2 ..< kNumLevels} = {2, 3, 4, 5, 6}" by (auto simp: kNumLevels_def)
    finally show ?thesis by (auto simp: two_deep_def)
  qed
  have "\<exists>co'. ask_base BytewiseComparator [[98], [100], [103], [105]] ?co = Some (map (base_level two_deep (c_level ?co)) [[98], [100], [103], [105]], co')"
    by (rule base_level_exact [OF two_deep_ok]) (simp_all add: new_Compaction_def)
  then show ?thesis by (simp add: b new_Compaction_def has_key_iff)
qed

section \<open>Ranges and sizes\<close>

text \<open>The range of user keys of files.\<close>

definition user_range :: "FileMetaData list \<Rightarrow> slice \<Rightarrow> slice \<Rightarrow> bool" where
  "user_range fs lo hi \<longleftrightarrow> (\<forall>f \<in> set fs. lo \<le> uk (fm_smallest f) \<and> uk (fm_largest f) \<le> hi) \<and>
     (\<exists>f \<in> set fs. lo = uk (fm_smallest f)) \<and> (\<exists>f \<in> set fs. hi = uk (fm_largest f))"

lemma range_loop_exact:
  "\<forall>f \<in> set fs. file_ok f \<Longrightarrow> internal_ok a \<Longrightarrow> internal_ok b \<Longrightarrow>
    \<exists>s l. range_loop BytewiseComparator fs a b = Some (s, l) \<and> s \<in> insert a (fm_smallest ` set fs) \<and> l \<in> insert b (fm_largest ` set fs) \<and>
      korder s \<le> korder a \<and> korder b \<le> korder l \<and> (\<forall>f \<in> set fs. korder s \<le> korder (fm_smallest f) \<and> korder (fm_largest f) \<le> korder l)"
proof (induction fs arbitrary: a b)
  case (Cons f fs)
  have f: "internal_ok (fm_smallest f)" "internal_ok (fm_largest f)" using Cons.prems(1) by (simp_all add: file_okD)
  obtain r where r: "internal_Compare BytewiseComparator (fm_smallest f) a = Some r" "r < 0 \<longleftrightarrow> korder (fm_smallest f) < korder a"
    using internal_compare [OF f(1) Cons.prems(2)] by blast
  obtain r1 where r1: "internal_Compare BytewiseComparator (fm_largest f) b = Some r1" "r1 > 0 \<longleftrightarrow> korder b < korder (fm_largest f)"
    using internal_compareE [OF f(2) Cons.prems(3)] by metis
  let ?a = "if r < 0 then fm_smallest f else a" and ?b = "if r1 > 0 then fm_largest f else b"
  have "internal_ok ?a" "internal_ok ?b" using f Cons.prems by auto
  then obtain s l where sl: "range_loop BytewiseComparator fs ?a ?b = Some (s, l)" "s \<in> insert ?a (fm_smallest ` set fs)" "l \<in> insert ?b (fm_largest ` set fs)"
      "korder s \<le> korder ?a" "korder ?b \<le> korder l" "\<forall>f \<in> set fs. korder s \<le> korder (fm_smallest f) \<and> korder (fm_largest f) \<le> korder l"
    using Cons.IH [of ?a ?b] Cons.prems(1) by (metis list.set_intros(2))
  have "korder ?a \<le> korder a" "korder ?a \<le> korder (fm_smallest f)" "korder b \<le> korder ?b" "korder (fm_largest f) \<le> korder ?b"
    using r(2) r1(2) by auto
  then have "korder s \<le> korder a \<and> korder b \<le> korder l \<and> korder s \<le> korder (fm_smallest f) \<and> korder (fm_largest f) \<le> korder l"
    using sl(4,5) by (meson order.trans)
  moreover have "range_loop BytewiseComparator (f # fs) a b = Some (s, l)"
    using sl(1) r(1) r1(1) Cons.prems f by (simp add: InternalKey_Compare_eq)
  moreover have "s \<in> insert a (fm_smallest ` set (f # fs))" "l \<in> insert b (fm_largest ` set (f # fs))" using sl(2,3) by (auto split: if_splits)
  ultimately show ?case using sl(6) by auto
qed simp

lemma GetRange_exact:
  assumes "fs \<noteq> []" and "\<forall>f \<in> set fs. file_ok f"
  shows "\<exists>s l. GetRange BytewiseComparator fs = Some (s, l) \<and> internal_ok s \<and> internal_ok l \<and> user_range fs (uk s) (uk l)"
proof -
  obtain f gs where fs: "fs = f # gs" using assms(1) by (cases fs) auto
  have "internal_ok (fm_smallest f)" "internal_ok (fm_largest f)" using assms(2) by (simp_all add: fs file_okD)
  then obtain s l where sl: "GetRange BytewiseComparator fs = Some (s, l)" "s \<in> fm_smallest ` set fs" "l \<in> fm_largest ` set fs"
      "\<forall>f \<in> set fs. korder s \<le> korder (fm_smallest f) \<and> korder (fm_largest f) \<le> korder l"
    using range_loop_exact [of gs "fm_smallest f" "fm_largest f"] assms(2) unfolding fs by auto
  then have "internal_ok s \<and> internal_ok l" using assms(2) by (auto simp: file_okD)
  then show ?thesis using sl by (auto simp: user_range_def korder_user)
qed

text \<open>A file in the range of others overlaps it.\<close>

lemma range_overlaps: "user_range fs lo hi \<Longrightarrow> f \<in> set fs \<Longrightarrow> file_ok f \<Longrightarrow> overlaps (Some lo) (Some hi) f"
  by (auto simp: user_range_def overlaps_def above_bound_def below_bound_def dest: file_okD(6) intro: order.trans)

lemma range_mono: "user_range fs lo hi \<Longrightarrow> user_range gs lo' hi' \<Longrightarrow> set fs \<subseteq> set gs \<Longrightarrow> lo' \<le> lo \<and> hi \<le> hi'"
  unfolding user_range_def by blast

lemma wider_Some: "wider (Some lo') (Some hi') (Some lo) (Some hi) \<longleftrightarrow> lo' \<le> lo \<and> hi \<le> hi'"
  by (auto simp: wider_def above_bound_def below_bound_def intro: order.trans)

text \<open>Levels whose sizes add up below two to the sixty-second.\<close>

abbreviation bytes_of :: "FileMetaData list \<Rightarrow> nat" where
  "bytes_of fs \<equiv> (\<Sum>f \<leftarrow> fs. unat (fm_file_size f))"

lemma bytes_of_filter: "bytes_of (filter P fs) \<le> bytes_of fs"
  by (induction fs) auto

lemma TotalFileSize_exact: "bytes_of fs < 2 ^ 62 \<Longrightarrow> TotalFileSize fs = int (bytes_of fs)"
proof -
  assume b: "bytes_of fs < 2 ^ 62"
  have "foldl (\<lambda>sum f. sum + fm_file_size f) a fs = a + of_nat (bytes_of fs)" for a :: u64
    by (induction fs arbitrary: a) simp_all
  then have "TotalFileSize fs = sint (of_nat (bytes_of fs) :: u64)" by (simp add: TotalFileSize_def)
  also have "\<dots> = int (bytes_of fs)"
    using b by (simp add: signed_of_nat signed_take_bit_int_eq_self)
  finally show ?thesis .
qed

section \<open>The inputs of a compaction\<close>

text \<open>No file of level 0 that stays behind overlaps the files taken.\<close>

definition closed_inputs :: "Version \<Rightarrow> nat \<Rightarrow> FileMetaData list \<Rightarrow> bool" where
  "closed_inputs v level fs \<longleftrightarrow> set fs \<subseteq> set (v_files v level) \<and>
     (level = 0 \<longrightarrow> (\<forall>lo hi. user_range fs lo hi \<longrightarrow> (\<forall>f \<in> set (v_files v 0). overlaps (Some lo) (Some hi) f \<longrightarrow> f \<in> set fs)))"

definition inputs_closed :: "Version \<Rightarrow> Compaction \<Rightarrow> bool" where
  "inputs_closed v co \<longleftrightarrow> c_level co + 1 < kNumLevels \<and> c_input_version co = Some v \<and> closed_inputs v (c_level co) (c_inputs0 co) \<and>
     (\<exists>lo hi. user_range (c_inputs0 co) lo hi \<and> c_inputs1 co = filter (overlaps (Some lo) (Some hi)) (v_files v (c_level co + 1))) \<and>
     (c_level co + 2 < kNumLevels \<longrightarrow> (\<exists>lo hi. user_range (c_inputs0 co @ c_inputs1 co) lo hi \<and>
        c_grandparents co = filter (overlaps (Some lo) (Some hi)) (v_files v (c_level co + 2))))"

definition optional_ok :: "slice option \<Rightarrow> bool" where
  "optional_ok k \<longleftrightarrow> (\<forall>x. k = Some x \<longrightarrow> internal_ok x)"

lemma overlap_inputs:
  assumes v: "levels_ok v" and l: "level < kNumLevels" and k: "optional_ok a" "optional_ok b"
  shows "\<exists>fs. GetOverlappingInputs BytewiseComparator v level a b = Some fs \<and> closed_inputs v level fs \<and> bytes_of fs \<le> bytes_of (v_files v level) \<and>
    (\<forall>f \<in> set (v_files v level). overlaps (map_option uk a) (map_option uk b) f \<longrightarrow> f \<in> set fs) \<and>
    (level > 0 \<longrightarrow> fs = filter (overlaps (map_option uk a) (map_option uk b)) (v_files v level))"
proof -
  let ?files = "v_files v level"
  have ok: "\<forall>f \<in> set ?files. file_ok f" using v l by (simp add: levels_ok_def)
  obtain lo hi where r: "GetOverlappingInputs BytewiseComparator v level a b = Some (filter (overlaps lo hi) ?files)"
      "if level = 0 then closure_of (v_files v 0) (map_option uk a) (map_option uk b) lo hi else lo = map_option uk a \<and> hi = map_option uk b"
    using overlapping_inputs_closed [OF l ok, of a b] k unfolding optional_ok_def by blast
  have wide: "wider lo hi (map_option uk a) (map_option uk b)" using r(2) by (auto simp: closure_of_def wider_refl split: if_splits)
  have "closed_inputs v level (filter (overlaps lo hi) ?files)" unfolding closed_inputs_def
  proof (intro conjI impI allI ballI)
    fix lo' hi' f assume l0: "level = 0" and rg: "user_range (filter (overlaps lo hi) ?files) lo' hi'" and f: "f \<in> set (v_files v 0)" "overlaps (Some lo') (Some hi') f"
    have c: "closed_range ?files lo hi" using r(2) l0 by (simp add: closure_of_def)
    obtain f1 f2 where f12: "f1 \<in> set ?files" "overlaps lo hi f1" "lo' = uk (fm_smallest f1)" "f2 \<in> set ?files" "overlaps lo hi f2" "hi' = uk (fm_largest f2)"
      using rg by (auto simp: user_range_def)
    then have "above_bound lo lo'" "below_bound hi hi'" using c by (auto simp: closed_range_def within_def)
    then have "wider lo hi (Some lo') (Some hi')" by (auto simp: wider_def above_bound_def below_bound_def split: option.splits intro: order.trans)
    then show "f \<in> set (filter (overlaps lo hi) ?files)" using wider_overlaps f l0 by auto
  qed auto
  then show ?thesis using r wide wider_overlaps bytes_of_filter [of "overlaps lo hi" ?files] by (auto split: if_splits)
qed

text \<open>Sizes that can be added up, and a limit that is a number of the code.\<close>

definition sizes_ok :: "Options \<Rightarrow> Version \<Rightarrow> bool" where
  "sizes_ok opts v \<longleftrightarrow> ExpandedCompactionByteSizeLimit opts \<noteq> None \<and> (\<forall>l < kNumLevels. bytes_of (v_files v l) < 2 ^ 62)"

lemma expand_inputs_exact:
  assumes v: "levels_ok (vs_current vs)" and sz: "sizes_ok (vs_options vs) (vs_current vs)" and l: "level + 1 < kNumLevels"
    and fs: "closed_inputs (vs_current vs) level fs" and r0: "user_range fs lo0 hi0" and gs: "gs = filter (overlaps (Some lo0) (Some hi0)) (v_files (vs_current vs) (level + 1))"
    and k: "internal_ok lg" "internal_ok s" "internal_ok t" and r: "user_range (fs @ gs) (uk s) (uk t)"
  shows "\<exists>in0 in1 lg' s' t'. expand_inputs BytewiseComparator vs level fs gs lg s t = Some (in0, in1, lg', s', t') \<and>
    set fs \<subseteq> set in0 \<and> closed_inputs (vs_current vs) level in0 \<and> internal_ok lg' \<and> internal_ok s' \<and> internal_ok t' \<and> user_range (in0 @ in1) (uk s') (uk t') \<and>
    (\<exists>lo hi. user_range in0 lo hi \<and> in1 = filter (overlaps (Some lo) (Some hi)) (v_files (vs_current vs) (level + 1)))"
proof -
  let ?v = "vs_current vs"
  have ok: "\<forall>f \<in> set (v_files ?v j). file_ok f" if "j < kNumLevels" for j using v that by (simp add: levels_ok_def)
  have sub: "set fs \<subseteq> set (v_files ?v level)" using fs by (simp add: closed_inputs_def)
  note same = exI [of _ fs, OF exI [of _ gs, OF exI [of _ lg, OF exI [of _ s, OF exI [of _ t]]]]]
  have keep: "set fs \<subseteq> set fs \<and> closed_inputs ?v level fs \<and> internal_ok lg \<and> internal_ok s \<and> internal_ok t \<and> user_range (fs @ gs) (uk s) (uk t) \<and>
      (\<exists>lo hi. user_range fs lo hi \<and> gs = filter (overlaps (Some lo) (Some hi)) (v_files ?v (level + 1)))" using fs k r r0 gs by blast
  have opt: "optional_ok (Some x)" if "internal_ok x" for x using that by (simp add: optional_ok_def)
  have lvl: "level < kNumLevels" using l by simp
  show ?thesis
  proof (cases "gs = []")
    case True
    then have "expand_inputs BytewiseComparator vs level fs gs lg s t = Some (fs, gs, lg, s, t)" by (simp add: expand_inputs_def Let_def)
    then show ?thesis using keep by blast
  next
    case False
    obtain es where es: "GetOverlappingInputs BytewiseComparator ?v level (Some s) (Some t) = Some es" "closed_inputs ?v level es"
        "bytes_of es \<le> bytes_of (v_files ?v level)" "\<forall>f \<in> set (v_files ?v level). overlaps (Some (uk s)) (Some (uk t)) f \<longrightarrow> f \<in> set es"
      using overlap_inputs [OF v lvl opt [OF k(2)] opt [OF k(3)]] by auto
    have inc: "set fs \<subseteq> set es" using es(4) sub range_overlaps [OF r] ok [OF lvl] by auto
    have ess: "set es \<subseteq> set (v_files ?v level)" using es(2) by (simp add: closed_inputs_def)
    have "fs \<noteq> []" using r0 by (auto simp: user_range_def)
    then have "es \<noteq> []" using inc by auto
    moreover have "\<forall>f \<in> set es. file_ok f" using ess ok [OF lvl] by blast
    ultimately obtain s1 l1 where r1: "GetRange BytewiseComparator es = Some (s1, l1)" "internal_ok s1" "internal_ok l1" "user_range es (uk s1) (uk l1)"
      using GetRange_exact by blast
    obtain hs where hs: "GetOverlappingInputs BytewiseComparator ?v (level + 1) (Some s1) (Some l1) = Some hs"
        "hs = filter (overlaps (Some (uk s1)) (Some (uk l1))) (v_files ?v (level + 1))"
      using overlap_inputs [OF v l opt [OF r1(2)] opt [OF r1(3)]] by auto
    have "\<forall>f \<in> set (es @ hs). file_ok f" using ess ok [OF lvl] ok [OF l] hs(2) by auto
    then obtain s2 l2 where r2: "GetRange2 BytewiseComparator es hs = Some (s2, l2)" "internal_ok s2" "internal_ok l2" "user_range (es @ hs) (uk s2) (uk l2)"
      using GetRange_exact [of "es @ hs"] \<open>es \<noteq> []\<close> unfolding GetRange2_def by auto
    have small: "bytes_of es < 2 ^ 62" "bytes_of gs < 2 ^ 62"
      using es(3) sz lvl l bytes_of_filter [of "overlaps (Some lo0) (Some hi0)" "v_files ?v (level + 1)"] unfolding gs sizes_ok_def by (meson le_less_trans)+
    have sum: "int64_result (TotalFileSize gs + TotalFileSize es) = Some (int (bytes_of gs) + int (bytes_of es))"
      using small by (simp add: TotalFileSize_exact int64_result_def)
    obtain limit where limit: "ExpandedCompactionByteSizeLimit (vs_options vs) = Some limit" using sz by (auto simp: sizes_ok_def)
    have "expand_inputs BytewiseComparator vs level fs gs lg s t = Some (fs, gs, lg, s, t) \<or>
        expand_inputs BytewiseComparator vs level fs gs lg s t = Some (es, hs, l1, s2, l2)"
      using False es(1) sum limit r1(1) hs(1) r2(1) by (simp add: expand_inputs_def Let_def)
    then show ?thesis
    proof
      assume "expand_inputs BytewiseComparator vs level fs gs lg s t = Some (fs, gs, lg, s, t)"
      then show ?thesis using keep by blast
    next
      assume "expand_inputs BytewiseComparator vs level fs gs lg s t = Some (es, hs, l1, s2, l2)"
      then show ?thesis using inc es(2) r1(3,4) r2(2,3,4) hs(2) by blast
    qed
  qed
qed

lemma SetupOtherInputs_exact:
  assumes v: "levels_ok (vs_current vs)" and sz: "sizes_ok (vs_options vs) (vs_current vs)" and l: "c_level co + 1 < kNumLevels"
    and fs: "closed_inputs (vs_current vs) (c_level co) (c_inputs0 co)" and ne: "c_inputs0 co \<noteq> []" and iv: "c_input_version co = Some (vs_current vs)"
  shows "\<exists>co' vs'. SetupOtherInputs BytewiseComparator co vs = Some (co', vs') \<and> inputs_closed (vs_current vs) co' \<and> c_level co' = c_level co \<and>
    set (c_inputs0 co) \<subseteq> set (c_inputs0 co') \<and> vs_current vs' = vs_current vs"
proof -
  let ?v = "vs_current vs" and ?l = "c_level co"
  have ok: "\<forall>f \<in> set (v_files ?v j). file_ok f" if "j < kNumLevels" for j using v that by (simp add: levels_ok_def)
  have opt: "optional_ok (Some x)" if "internal_ok x" for x using that by (simp add: optional_ok_def)
  have "\<forall>f \<in> set (c_inputs0 co). file_ok f" using fs ok [of ?l] l by (auto simp: closed_inputs_def)
  then obtain s0 l0 where r0: "GetRange BytewiseComparator (c_inputs0 co) = Some (s0, l0)" "internal_ok s0" "internal_ok l0" "user_range (c_inputs0 co) (uk s0) (uk l0)"
    using GetRange_exact [OF ne] by blast
  obtain gs where gs: "GetOverlappingInputs BytewiseComparator ?v (?l + 1) (Some s0) (Some l0) = Some gs" "gs = filter (overlaps (Some (uk s0)) (Some (uk l0))) (v_files ?v (?l + 1))"
    using overlap_inputs [OF v l opt [OF r0(2)] opt [OF r0(3)]] by auto
  have "\<forall>f \<in> set (c_inputs0 co @ gs). file_ok f" using fs ok [of ?l] ok [OF l] l gs(2) by (auto simp: closed_inputs_def)
  then obtain s t where r: "GetRange2 BytewiseComparator (c_inputs0 co) gs = Some (s, t)" "internal_ok s" "internal_ok t" "user_range (c_inputs0 co @ gs) (uk s) (uk t)"
    using GetRange_exact [of "c_inputs0 co @ gs"] ne unfolding GetRange2_def by auto
  obtain in0 in1 lg s' t' where e: "expand_inputs BytewiseComparator vs ?l (c_inputs0 co) gs l0 s t = Some (in0, in1, lg, s', t')"
      "set (c_inputs0 co) \<subseteq> set in0" "closed_inputs ?v ?l in0" "internal_ok lg" "internal_ok s'" "internal_ok t'" "user_range (in0 @ in1) (uk s') (uk t')"
      "\<exists>lo hi. user_range in0 lo hi \<and> in1 = filter (overlaps (Some lo) (Some hi)) (v_files ?v (?l + 1))"
    using expand_inputs_exact [OF v sz l fs r0(4) gs(2) r0(3) r(2,3,4)] by metis
  obtain gp where gp: "(if ?l + 2 < kNumLevels then GetOverlappingInputs BytewiseComparator ?v (?l + 2) (Some s') (Some t') else Some (c_grandparents co)) = Some gp"
      "?l + 2 < kNumLevels \<longrightarrow> gp = filter (overlaps (Some (uk s')) (Some (uk t'))) (v_files ?v (?l + 2))"
    using overlap_inputs [OF v _ opt [OF e(5)] opt [OF e(6)], of "?l + 2"] by (cases "?l + 2 < kNumLevels") auto
  let ?co = "co\<lparr>c_inputs0 := in0, c_inputs1 := in1, c_grandparents := gp, c_edit := SetCompactPointer (int ?l) lg (c_edit co)\<rparr>"
  have "SetupOtherInputs BytewiseComparator co vs = Some (?co, vs\<lparr>vs_compact_pointer := (vs_compact_pointer vs)(?l := lg)\<rparr>)"
    using r0(1) gs(1) r(1) e(1) gp(1) e(4) by (simp add: SetupOtherInputs_def Let_def encode_key)
  moreover have "inputs_closed ?v ?co" unfolding inputs_closed_def using l iv e(3,7,8) gp(2) by auto
  ultimately show ?thesis using e(2) by auto
qed

text \<open>A set of versions from which compactions are chosen.\<close>

definition set_ok :: "VersionSet \<Rightarrow> bool" where
  "set_ok vs \<longleftrightarrow> levels_ok (vs_current vs) \<and> sizes_ok (vs_options vs) (vs_current vs) \<and>
     (\<forall>l. vs_compact_pointer vs l = [] \<or> internal_ok (vs_compact_pointer vs l)) \<and>
     (vs_score_high vs \<longrightarrow> 0 \<le> vs_compaction_level vs \<and> vs_compaction_level vs + 1 < int kNumLevels \<and>
        v_files (vs_current vs) (nat (vs_compaction_level vs)) \<noteq> []) \<and>
     (\<forall>f l. vs_file_to_compact vs = Some (f, l) \<longrightarrow> 0 \<le> l \<and> l + 1 < int kNumLevels \<and> f \<in> set (v_files (vs_current vs) (nat l)))"

lemma file_behind_exact:
  "\<forall>f \<in> set fs. file_ok f \<Longrightarrow> p = [] \<or> internal_ok p \<Longrightarrow>
   \<exists>gs. file_behind BytewiseComparator p fs = Some gs \<and> set gs \<subseteq> set fs"
proof (induction fs)
  case (Cons f fs)
  have f: "internal_ok (fm_largest f)" using Cons.prems(1) by (simp add: file_okD)
  show ?case
  proof (cases "p = []")
    case False
    then have "internal_ok p" using Cons.prems(2) by simp
    then obtain r where "internal_Compare BytewiseComparator (fm_largest f) p = Some r" using internal_compare [OF f] by blast
    then show ?thesis using Cons False f by (auto simp: encode_key)
  qed simp
qed simp

lemma up_to_limit_sub: "set (up_to_limit limit acc fs) \<subseteq> set fs" and up_to_limit_ne: "up_to_limit limit acc fs = [] \<longleftrightarrow> fs = []"
  by (induction fs arbitrary: acc) (auto simp: Let_def split: if_splits)

lemma first_input_exact:
  assumes "set_ok vs"
  shows "(first_input BytewiseComparator vs = Some None \<and> \<not> vs_score_high vs \<and> vs_file_to_compact vs = None) \<or>
    (\<exists>level fs. first_input BytewiseComparator vs = Some (Some (level, fs)) \<and> level + 1 < kNumLevels \<and> fs \<noteq> [] \<and> set fs \<subseteq> set (v_files (vs_current vs) level))"
proof (cases "vs_score_high vs")
  case True
  let ?l = "nat (vs_compaction_level vs)"
  have l: "level_index (vs_compaction_level vs) = Some ?l" "?l + 1 < kNumLevels" "v_files (vs_current vs) ?l \<noteq> []"
    using assms True by (auto simp: set_ok_def level_index_def)
  have "levels_ok (vs_current vs)" "?l < kNumLevels" using assms l(2) by (simp_all add: set_ok_def)
  then have "\<forall>f \<in> set (v_files (vs_current vs) ?l). file_ok f" by (simp add: levels_ok_def)
  then obtain gs where gs: "file_behind BytewiseComparator (vs_compact_pointer vs ?l) (v_files (vs_current vs) ?l) = Some gs" "set gs \<subseteq> set (v_files (vs_current vs) ?l)"
    using file_behind_exact assms unfolding set_ok_def by blast
  obtain f fs where f: "v_files (vs_current vs) ?l = f # fs" using l(3) by (cases "v_files (vs_current vs) ?l") auto
  show ?thesis using True l gs f by (cases "gs = []") (auto simp: first_input_def)
next
  case False
  show ?thesis
  proof (cases "vs_file_to_compact vs")
    case None
    then show ?thesis using False by (simp add: first_input_def)
  next
    case (Some fl)
    obtain f l where fl: "fl = (f, l)" by (cases fl)
    then have "0 \<le> l" "l + 1 < int kNumLevels" "f \<in> set (v_files (vs_current vs) (nat l))" using assms Some by (auto simp: set_ok_def)
    then show ?thesis using False Some fl by (auto simp: first_input_def level_index_def)
  qed
qed

lemma PickCompaction_exact:
  assumes "set_ok vs"
  shows "\<exists>co vs'. PickCompaction BytewiseComparator vs = Some (co, vs') \<and> vs_current vs' = vs_current vs \<and>
    (case co of None \<Rightarrow> \<not> vs_score_high vs \<and> vs_file_to_compact vs = None | Some co \<Rightarrow> inputs_closed (vs_current vs) co)"
  using first_input_exact [OF assms]
proof
  assume "first_input BytewiseComparator vs = Some None \<and> \<not> vs_score_high vs \<and> vs_file_to_compact vs = None"
  then show ?thesis by (simp add: PickCompaction_def)
next
  let ?v = "vs_current vs"
  have v: "levels_ok ?v" "sizes_ok (vs_options vs) ?v" using assms by (simp_all add: set_ok_def)
  assume "\<exists>level fs. first_input BytewiseComparator vs = Some (Some (level, fs)) \<and> level + 1 < kNumLevels \<and> fs \<noteq> [] \<and> set fs \<subseteq> set (v_files ?v level)"
  then obtain level fs where first: "first_input BytewiseComparator vs = Some (Some (level, fs))" and level: "level + 1 < kNumLevels"
    and fs: "fs \<noteq> []" "set fs \<subseteq> set (v_files ?v level)" by blast
  have "\<exists>in0. (if level = 0 then do {
              (smallest, largest) \<leftarrow> GetRange BytewiseComparator fs;
              overlapping \<leftarrow> GetOverlappingInputs BytewiseComparator ?v 0 (Some smallest) (Some largest);
              if overlapping \<noteq> [] then Some overlapping else None
            } else Some fs) = Some in0 \<and> in0 \<noteq> [] \<and> closed_inputs ?v level in0"
  proof (cases "level = 0")
    case True
    have files: "\<forall>f \<in> set (v_files ?v 0). file_ok f" using v(1) level unfolding levels_ok_def by (metis add_lessD1 True)
    have ok: "\<forall>f \<in> set fs. file_ok f" using files fs(2) True by blast
    then obtain s l where sl: "GetRange BytewiseComparator fs = Some (s, l)" "internal_ok s" "internal_ok l" "user_range fs (uk s) (uk l)"
      using GetRange_exact [OF fs(1)] by blast
    have "0 < kNumLevels" "optional_ok (Some s)" "optional_ok (Some l)" using sl by (simp_all add: kNumLevels_def optional_ok_def)
    from overlap_inputs [OF v(1) this] obtain es where es: "GetOverlappingInputs BytewiseComparator ?v 0 (Some s) (Some l) = Some es" "closed_inputs ?v 0 es"
        "\<forall>f \<in> set (v_files ?v 0). overlaps (Some (uk s)) (Some (uk l)) f \<longrightarrow> f \<in> set es" by auto
    have "set fs \<subseteq> set es" using es(3) fs(2) True range_overlaps [OF sl(4)] ok by auto
    then have "es \<noteq> []" using fs(1) by auto
    then show ?thesis using True sl(1) es by auto
  qed (use fs in \<open>simp add: closed_inputs_def\<close>)
  then obtain in0 where in0: "(if level = 0 then do {
              (smallest, largest) \<leftarrow> GetRange BytewiseComparator fs;
              overlapping \<leftarrow> GetOverlappingInputs BytewiseComparator ?v 0 (Some smallest) (Some largest);
              if overlapping \<noteq> [] then Some overlapping else None
            } else Some fs) = Some in0" "in0 \<noteq> []" "closed_inputs ?v level in0" by blast
  let ?co = "(new_Compaction (vs_options vs) level)\<lparr>c_input_version := Some ?v, c_inputs0 := in0\<rparr>"
  obtain co' vs' where "SetupOtherInputs BytewiseComparator ?co vs = Some (co', vs')" "inputs_closed ?v co'" "vs_current vs' = ?v"
    using SetupOtherInputs_exact [OF v, of ?co] level in0(2,3) by (auto simp: new_Compaction_def)
  then show ?thesis using first in0(1) by (simp add: PickCompaction_def)
qed

lemma CompactRange_exact:
  assumes "set_ok vs" and "level + 1 < kNumLevels" and "optional_ok a" and "optional_ok b"
  shows "\<exists>co vs'. VersionSet_CompactRange BytewiseComparator vs level a b = Some (co, vs') \<and> vs_current vs' = vs_current vs \<and>
    (case co of None \<Rightarrow> \<forall>f \<in> set (v_files (vs_current vs) level). \<not> overlaps (map_option uk a) (map_option uk b) f
     | Some co \<Rightarrow> c_level co = level \<and> inputs_closed (vs_current vs) co)"
proof -
  let ?v = "vs_current vs"
  have v: "levels_ok ?v" "sizes_ok (vs_options vs) ?v" using assms(1) by (simp_all add: set_ok_def)
  have l: "level < kNumLevels" using assms(2) by simp
  obtain fs where fs: "GetOverlappingInputs BytewiseComparator ?v level a b = Some fs" "closed_inputs ?v level fs"
      "\<forall>f \<in> set (v_files ?v level). overlaps (map_option uk a) (map_option uk b) f \<longrightarrow> f \<in> set fs"
    using overlap_inputs [OF v(1) l assms(3,4)] by blast
  show ?thesis
  proof (cases "fs = []")
    case True
    then show ?thesis using fs by (auto simp: VersionSet_CompactRange_def)
  next
    case False
    let ?in0 = "if level > 0 then up_to_limit (MaxFileSizeForLevel (vs_options vs) (int level)) 0 fs else fs"
    let ?co = "(new_Compaction (vs_options vs) level)\<lparr>c_input_version := Some ?v, c_inputs0 := ?in0\<rparr>"
    have "closed_inputs ?v level ?in0" using fs(2) up_to_limit_sub by (fastforce simp: closed_inputs_def)
    moreover have "?in0 \<noteq> []" using False by (simp add: up_to_limit_ne)
    ultimately obtain co' vs' where "SetupOtherInputs BytewiseComparator ?co vs = Some (co', vs')" "inputs_closed ?v co'" "c_level co' = level" "vs_current vs' = ?v"
      using SetupOtherInputs_exact [OF v, of ?co] assms(2) by (auto simp: new_Compaction_def)
    then show ?thesis using fs(1) False by (simp add: VersionSet_CompactRange_def Let_def)
  qed
qed

text \<open>
  C8: A compaction has all the files it must merge. Whether it is chosen by size, by seeks or for a range given by a user, it has
  at least one file of its level; of the next level it has exactly the files that overlap the user keys of these, so that no file that stays
  there has a user key of the files taken above it; in level 0 no file stays behind that overlaps the files taken; and the files two levels
  below, which bound its outputs, are those that overlap all inputs. No assertion fails, and there is no compaction only when nothing asks for one.
\<close>

theorem compaction_inputs:
  assumes "set_ok vs" and "level + 1 < kNumLevels" and "optional_ok a" and "optional_ok b"
  shows "(\<exists>co vs'. PickCompaction BytewiseComparator vs = Some (co, vs') \<and> vs_current vs' = vs_current vs \<and>
      (case co of None \<Rightarrow> \<not> vs_score_high vs \<and> vs_file_to_compact vs = None | Some co \<Rightarrow> inputs_closed (vs_current vs) co)) \<and>
    (\<exists>co vs'. VersionSet_CompactRange BytewiseComparator vs level a b = Some (co, vs') \<and> vs_current vs' = vs_current vs \<and>
      (case co of None \<Rightarrow> \<forall>f \<in> set (v_files (vs_current vs) level). \<not> overlaps (map_option uk a) (map_option uk b) f
       | Some co \<Rightarrow> c_level co = level \<and> inputs_closed (vs_current vs) co))"
  using PickCompaction_exact [OF assms(1)] CompactRange_exact [OF assms] by blast

text \<open>A file of level 1 has had too many seeks; of the two files of level 2 it overlaps the first.\<close>

definition busy_set :: VersionSet where
  "busy_set = \<lparr>vs_options = new_Options,
     vs_current = \<lparr>v_files = (\<lambda>l. if l = 1 then [sample_file 5 [98] [100]] else if l = 2 then [sample_file 3 [97] [99], sample_file 4 [102] [104]] else [])\<rparr>,
     vs_compact_pointer = (\<lambda>_. []), vs_compaction_level = - 1, vs_score_high = False, vs_file_to_compact = Some (sample_file 5 [98] [100], 1)\<rparr>"

lemma busy_set_ok: "set_ok busy_set"
proof -
  have "levels_ok (vs_current busy_set)" by (auto simp: busy_set_def levels_ok_def level_sorted_def korder_less intro!: sample_ok)
  moreover have "ExpandedCompactionByteSizeLimit (vs_options busy_set) \<noteq> None" by code_simp
  ultimately show ?thesis by (auto simp: set_ok_def sizes_ok_def busy_set_def kNumLevels_def)
qed

theorem compaction_inputs_witness:
  "(\<exists>co vs'. PickCompaction BytewiseComparator busy_set = Some (Some co, vs') \<and> inputs_closed (vs_current busy_set) co) \<and>
   (\<exists>co vs'. VersionSet_CompactRange BytewiseComparator busy_set 1 None (Some (ikey [98] 9 1)) = Some (Some co, vs') \<and> c_level co = 1 \<and>
      inputs_closed (vs_current busy_set) co)"
proof -
  have o: "optional_ok None" "optional_ok (Some (ikey [98] 9 1))" by (simp_all add: optional_ok_def ikey_ok)
  have "overlaps None (Some [98]) (sample_file 5 [98] [100])" by (simp add: overlaps_def above_bound_def below_bound_def)
  then have f: "\<not> (\<forall>f \<in> set (v_files (vs_current busy_set) 1). \<not> overlaps (map_option uk None) (map_option uk (Some (ikey [98] 9 1))) f)"
    by (simp add: busy_set_def)
  have s: "vs_file_to_compact busy_set \<noteq> None" by (simp add: busy_set_def)
  have l: "1 + 1 < kNumLevels" by (simp add: kNumLevels_def)
  from compaction_inputs [OF busy_set_ok l o] show ?thesis using f s by (auto split: option.splits)
qed

end
