(* ===== verification/LdbCompactionDrop.thy ===== *)
theory LdbCompactionDrop
  imports LdbCompactionWork LdbCompactionProps LdbVersionGet
begin

text \<open>
  Which entries a compaction leaves out: those hidden by a newer entry that every snapshot sees, and deletions that every snapshot sees when no deeper level has the
  key. What is read with a snapshot stays the same. The user's comparator is the bytewise one.
\<close>

section \<open>The entries that survive\<close>

text \<open>\<open>prev\<close> is the user key and the sequence number of the entry before.\<close>

definition hidden :: "(slice \<Rightarrow> bool) \<Rightarrow> SequenceNumber \<Rightarrow> (slice \<times> SequenceNumber) option \<Rightarrow> slice \<Rightarrow> bool" where
  "hidden base snap prev k \<longleftrightarrow> (\<exists>q. prev = Some (uk k, q) \<and> q \<le> snap) \<or> (vtype k = kTypeDeletion \<and> seqn k \<le> snap \<and> base (uk k))"

definition entry_mark :: "slice \<times> slice \<Rightarrow> slice \<times> SequenceNumber" where
  "entry_mark e = (uk (fst e), seqn (fst e))"

fun surviving :: "(slice \<Rightarrow> bool) \<Rightarrow> SequenceNumber \<Rightarrow> (slice \<times> SequenceNumber) option \<Rightarrow> (slice \<times> slice) list \<Rightarrow> (slice \<times> slice) list" where
  "surviving base snap prev [] = []"
| "surviving base snap prev (e # es) = (if hidden base snap prev (fst e) then [] else [e]) @ surviving base snap (Some (entry_mark e)) es"

lemma surviving_mem:
  "e \<in> set (surviving base snap prev es) \<longleftrightarrow>
    (\<exists>i < length es. e = es ! i \<and> \<not> hidden base snap (if i = 0 then prev else Some (entry_mark (es ! (i - 1)))) (fst (es ! i)))"
proof (induction es arbitrary: prev)
  case (Cons x es)
  have "(\<exists>i < length (x # es). e = (x # es) ! i \<and> \<not> hidden base snap (if i = 0 then prev else Some (entry_mark ((x # es) ! (i - 1)))) (fst ((x # es) ! i))) \<longleftrightarrow>
      (e = x \<and> \<not> hidden base snap prev (fst x)) \<or>
      (\<exists>i < length es. e = es ! i \<and> \<not> hidden base snap (if i = 0 then Some (entry_mark x) else Some (entry_mark (es ! (i - 1)))) (fst (es ! i)))"
  proof (intro iffI; elim disjE exE conjE)
    fix i assume i: "i < length (x # es)" "e = (x # es) ! i"
      "\<not> hidden base snap (if i = 0 then prev else Some (entry_mark ((x # es) ! (i - 1)))) (fst ((x # es) ! i))"
    show "(e = x \<and> \<not> hidden base snap prev (fst x)) \<or>
      (\<exists>i < length es. e = es ! i \<and> \<not> hidden base snap (if i = 0 then Some (entry_mark x) else Some (entry_mark (es ! (i - 1)))) (fst (es ! i)))"
    proof (cases i)
      case (Suc j)
      then show ?thesis using i by (intro disjI2 exI [of _ j]) (auto simp: nth_Cons')
    qed (use i in simp)
  next
    assume "e = x" "\<not> hidden base snap prev (fst x)"
    then show "\<exists>i < length (x # es). e = (x # es) ! i \<and> \<not> hidden base snap (if i = 0 then prev else Some (entry_mark ((x # es) ! (i - 1)))) (fst ((x # es) ! i))"
      by (intro exI [of _ 0]) simp
  next
    fix i assume "i < length es" "e = es ! i" "\<not> hidden base snap (if i = 0 then Some (entry_mark x) else Some (entry_mark (es ! (i - 1)))) (fst (es ! i))"
    then show "\<exists>i < length (x # es). e = (x # es) ! i \<and> \<not> hidden base snap (if i = 0 then prev else Some (entry_mark ((x # es) ! (i - 1)))) (fst ((x # es) ! i))"
      by (intro exI [of _ "Suc i"]) (auto simp: nth_Cons')
  qed
  then show ?case using Cons.IH by auto
qed simp

section \<open>What is read\<close>

text \<open>The value that a snapshot reads: the newest entry that it sees is a value.\<close>

definition reads_value :: "(slice \<times> slice) set \<Rightarrow> slice \<Rightarrow> SequenceNumber \<Rightarrow> slice \<Rightarrow> bool" where
  "reads_value E u sq v \<longleftrightarrow> (\<exists>e \<in> seen u sq E. (\<forall>e' \<in> seen u sq E. tag64 (fst e') \<le> tag64 (fst e)) \<and> vtype (fst e) = kTypeValue \<and> snd e = v)"

lemma seqn_mono: "tag64 a \<le> tag64 b \<Longrightarrow> seqn a \<le> seqn b"
  by (simp add: seqn_def word_le_nat_alt drop_bit_eq_div unat_div div_le_mono)

definition entries_sorted :: "(slice \<times> slice) list \<Rightarrow> bool" where
  "entries_sorted es \<longleftrightarrow> sorted_wrt (\<lambda>a b. korder (fst a) < korder (fst b)) es \<and> (\<forall>e \<in> set es. key_ok (fst e))"

lemma sorted_tags:
  assumes "entries_sorted es" and "i < j" and "j < length es"
  shows "uk (fst (es ! i)) \<le> uk (fst (es ! j))" and "uk (fst (es ! i)) = uk (fst (es ! j)) \<Longrightarrow> tag64 (fst (es ! j)) < tag64 (fst (es ! i))"
proof -
  have "korder (fst (es ! i)) < korder (fst (es ! j))"
    using assms sorted_wrt_nth_less [of "\<lambda>a b. korder (fst a) < korder (fst b)" es i j] by (simp add: entries_sorted_def)
  then show "uk (fst (es ! i)) \<le> uk (fst (es ! j))" "uk (fst (es ! i)) = uk (fst (es ! j)) \<Longrightarrow> tag64 (fst (es ! j)) < tag64 (fst (es ! i))"
    by (auto simp: korder_less)
qed

text \<open>The entries \<open>D\<close> of deeper levels are older, and there are none where \<open>base\<close> holds.\<close>

definition deeper :: "(slice \<Rightarrow> bool) \<Rightarrow> (slice \<times> slice) list \<Rightarrow> (slice \<times> slice) set \<Rightarrow> bool" where
  "deeper base es D \<longleftrightarrow> (\<forall>d \<in> D. \<not> base (uk (fst d)) \<and> (\<forall>e \<in> set es. uk (fst e) = uk (fst d) \<longrightarrow> tag64 (fst d) < tag64 (fst e)))"

lemma surviving_reads:
  assumes es: "entries_sorted es" and D: "deeper base es D" and sq: "snap \<le> sq"
  shows "reads_value (set (surviving base snap None es) \<union> D) u sq v \<longleftrightarrow> reads_value (set es \<union> D) u sq v"
proof -
  let ?S = "set (surviving base snap None es)" and ?V = "seen u sq (set es \<union> D)"
  let ?W = "seen u sq (?S \<union> D)"
  have sub: "?W \<subseteq> ?V" by (auto simp: seen_def surviving_mem)
  have survives: "es ! i \<in> ?S" if i: "i < length es" and n: "\<not> hidden base snap (if i = 0 then None else Some (entry_mark (es ! (i - 1)))) (fst (es ! i))" for i
    unfolding surviving_mem using i n by blast
  text \<open>An entry is hidden by the one before it only when that one is seen as well.\<close>
  have before: "es ! (i - 1) \<in> ?V \<and> tag64 (fst (es ! i)) < tag64 (fst (es ! (i - 1)))"
    if i: "i < length es" "es ! i \<in> ?V" "(if i = 0 then None else Some (entry_mark (es ! (i - 1)))) = Some (uk (fst (es ! i)), q)" "q \<le> snap" for i q
  proof -
    have "i \<noteq> 0" and m: "uk (fst (es ! (i - 1))) = uk (fst (es ! i))" "seqn (fst (es ! (i - 1))) \<le> snap" using i(3,4) by (auto simp: entry_mark_def split: if_splits)
    then have "i - 1 < i" by simp
    moreover have "es ! (i - 1) \<in> set es" using i(1) by simp
    ultimately show ?thesis using m i(2) sq sorted_tags(2) [OF es \<open>i - 1 < i\<close> i(1)] by (auto simp: seen_def)
  qed
  show ?thesis
  proof
    assume "reads_value (set es \<union> D) u sq v"
    then obtain e where e: "e \<in> ?V" "\<forall>e' \<in> ?V. tag64 (fst e') \<le> tag64 (fst e)" "vtype (fst e) = kTypeValue" "snd e = v" by (auto simp: reads_value_def)
    have "e \<in> ?W"
    proof (cases "e \<in> D")
      case True
      then show ?thesis using e(1) by (simp add: seen_def)
    next
      case False
      then have "e \<in> set es" using e(1) by (simp add: seen_def)
      then obtain i where i: "i < length es" "e = es ! i" by (auto simp: in_set_conv_nth)
      have "\<not> hidden base snap (if i = 0 then None else Some (entry_mark (es ! (i - 1)))) (fst (es ! i))"
      proof
        assume "hidden base snap (if i = 0 then None else Some (entry_mark (es ! (i - 1)))) (fst (es ! i))"
        then obtain q where "(if i = 0 then None else Some (entry_mark (es ! (i - 1)))) = Some (uk (fst (es ! i)), q)" "q \<le> snap"
          using e(3) i(2) by (auto simp: hidden_def)
        then have "es ! (i - 1) \<in> ?V" "tag64 (fst e) < tag64 (fst (es ! (i - 1)))" using before [OF i(1)] e(1) i(2) by blast+
        then show False using e(2) by (meson leD)
      qed
      then show ?thesis using survives [OF i(1)] e(1) i(2) by (simp add: seen_def)
    qed
    then show "reads_value (?S \<union> D) u sq v" using e sub by (auto simp: reads_value_def)
  next
    assume "reads_value (?S \<union> D) u sq v"
    then obtain e where e: "e \<in> ?W" "\<forall>e' \<in> ?W. tag64 (fst e') \<le> tag64 (fst e)" "vtype (fst e) = kTypeValue" "snd e = v" by (auto simp: reads_value_def)
    show "reads_value (set es \<union> D) u sq v"
    proof (cases "\<exists>i < length es. es ! i \<in> ?V")
      case False
      have "?V \<subseteq> ?W"
      proof
        fix x assume x: "x \<in> ?V"
        then have "x \<notin> set es" using False by (metis in_set_conv_nth)
        then show "x \<in> ?W" using x by (simp add: seen_def)
      qed
      then show ?thesis using e sub by (auto simp: reads_value_def)
    next
      case True
      define j where "j = (LEAST i. i < length es \<and> es ! i \<in> ?V)"
      have j: "j < length es" "es ! j \<in> ?V" using LeastI_ex [OF True] by (simp_all add: j_def)
      have least: "j \<le> i" if "i < length es" "es ! i \<in> ?V" for i unfolding j_def using that by (intro Least_le) simp
      have uj: "uk (fst (es ! j)) = u" using j(2) by (simp add: seen_def)
      have newest: "tag64 (fst e') \<le> tag64 (fst (es ! j))" if e': "e' \<in> ?V" for e'
      proof (cases "e' \<in> D")
        case True
        moreover have "es ! j \<in> set es" "uk (fst (es ! j)) = uk (fst e')" using j(1) e' uj by (simp_all add: seen_def)
        ultimately show ?thesis using D unfolding deeper_def by (metis order.strict_implies_order)
      next
        case False
        then obtain i where i: "i < length es" "e' = es ! i" using e' by (auto simp: seen_def in_set_conv_nth)
        show ?thesis
        proof (cases "i = j")
          case False
          then have "j < i" using least e' i by fastforce
          moreover have "uk (fst (es ! i)) = u" using e' i(2) by (simp add: seen_def)
          ultimately show ?thesis using sorted_tags(2) [OF es _ i(1)] i(2) uj by (simp add: less_imp_le)
        qed (use i in simp)
      qed
      show ?thesis
      proof (cases "es ! j \<in> ?S")
        case True
        then have "es ! j \<in> ?W" using j(2) by (simp add: seen_def)
        then have "tag64 (fst (es ! j)) \<le> tag64 (fst e)" using e(2) by blast
        then have "\<forall>e' \<in> ?V. tag64 (fst e') \<le> tag64 (fst e)" using newest by (meson order.trans)
        then show ?thesis using e sub by (auto simp: reads_value_def)
      next
        case False
        then have h: "hidden base snap (if j = 0 then None else Some (entry_mark (es ! (j - 1)))) (fst (es ! j))" using survives [OF j(1)] by blast
        have "\<not> (\<exists>q. (if j = 0 then None else Some (entry_mark (es ! (j - 1)))) = Some (uk (fst (es ! j)), q) \<and> q \<le> snap)"
        proof
          assume "\<exists>q. (if j = 0 then None else Some (entry_mark (es ! (j - 1)))) = Some (uk (fst (es ! j)), q) \<and> q \<le> snap"
          then obtain q where q: "(if j = 0 then None else Some (entry_mark (es ! (j - 1)))) = Some (uk (fst (es ! j)), q)" "q \<le> snap" by blast
          then have "j \<noteq> 0" "j - 1 < length es" using j(1) by (auto split: if_splits)
          then show False using before [OF j q] least [of "j - 1"] by auto
        qed
        then have del: "seqn (fst (es ! j)) \<le> snap" "base u" using h uj by (auto simp: hidden_def)
        have "e \<notin> D" using D del(2) e(1) by (auto simp: deeper_def seen_def)
        then have "e \<in> ?S" using e(1) by (simp add: seen_def)
        then obtain k where k: "k < length es" "e = es ! k" "\<not> hidden base snap (if k = 0 then None else Some (entry_mark (es ! (k - 1)))) (fst (es ! k))"
          unfolding surviving_mem by blast
        have uk: "uk (fst (es ! k)) = u" "es ! k \<in> ?V" using e(1) sub k(2) by (auto simp: seen_def)
        have "j \<noteq> k" using False \<open>e \<in> ?S\<close> k(2) by auto
        then have jk: "j < k" using least [OF k(1) uk(2)] by simp
        then have k1: "j \<le> k - 1" "k - 1 < k" "k - 1 < length es" using k(1) by auto
        have "uk (fst (es ! (k - 1))) = u"
        proof (cases "j = k - 1")
          case False
          then have "j < k - 1" using k1(1) by simp
          then show ?thesis using sorted_tags(1) [OF es _ k1(3)] sorted_tags(1) [OF es k1(2) k(1)] uj uk(1) by fastforce
        qed (use uj in simp)
        moreover have "seqn (fst (es ! (k - 1))) \<le> snap"
        proof (cases "j = k - 1")
          case False
          then have "tag64 (fst (es ! (k - 1))) < tag64 (fst (es ! j))" using sorted_tags(2) [OF es _ k1(3)] k1(1) calculation uj by simp
          then show ?thesis using seqn_mono [of "fst (es ! (k - 1))" "fst (es ! j)"] del(1) by (meson order.strict_implies_order order.trans)
        qed (use del in simp)
        ultimately show ?thesis using k(3) jk uk(1) by (auto simp: hidden_def entry_mark_def)
      qed
    qed
  qed
qed

section \<open>What the code leaves out\<close>

definition key_state :: "(slice \<times> SequenceNumber) option \<Rightarrow> KeyState \<Rightarrow> bool" where
  "key_state prev ks \<longleftrightarrow> (case prev of None \<Rightarrow> \<not> ks_has_current_user_key ks
     | Some (u, q) \<Rightarrow> ks_has_current_user_key ks \<and> ks_current_user_key ks = u \<and> ks_last_sequence_for_key ks = q)"

lemma drop_entry_exact:
  assumes v: "levels_ok v" and p: "ptrs_passed v co (uk k)" and k: "key_ok k" and ks: "key_state prev ks" and snap: "snap < kMaxSequenceNumber"
  shows "\<exists>ks' ptrs. drop_entry BytewiseComparator snap k ks co =
      Some (hidden (base_level v (c_level co)) snap prev k, ks', co\<lparr>c_level_ptrs := ptrs\<rparr>) \<and>
    key_state (Some (uk k, seqn k)) ks' \<and> ptrs_passed v (co\<lparr>c_level_ptrs := ptrs\<rparr>) (uk k)"
proof -
  have parse: "ParseInternalKey k = Some \<lparr>pk_user_key = uk k, pk_sequence = seqn k, pk_type = vtype k\<rparr>"
    using k by (intro parsed) (simp_all add: key_ok_def internal_ok_def)
  let ?new = "\<lparr>ks_has_current_user_key = True, ks_current_user_key = uk k, ks_last_sequence_for_key = kMaxSequenceNumber\<rparr>"
  define same where "same \<longleftrightarrow> (\<exists>q. prev = Some (uk k, q))"
  define ks1 where "ks1 = (if \<not> same then ?new else ks)"
  have first: "(if \<not> ks_has_current_user_key ks then Some True
      else do { r \<leftarrow> Compare BytewiseComparator (uk k) (ks_current_user_key ks); Some (r \<noteq> 0) }) = Some (\<not> same)"
    using ks Slice_sign by (auto simp: key_state_def same_def bytes_compare split: option.splits)
  have last: "ks_last_sequence_for_key ks1 \<le> snap \<longleftrightarrow> (\<exists>q. prev = Some (uk k, q) \<and> q \<le> snap)"
    using ks snap by (auto simp: ks1_def same_def key_state_def split: option.splits)
  have next_state: "key_state (Some (uk k, seqn k)) (ks1\<lparr>ks_last_sequence_for_key := seqn k\<rparr>)"
    using ks by (auto simp: key_state_def ks1_def same_def)
  have run: "drop_entry BytewiseComparator snap k ks co = do {
      (drop, co1) \<leftarrow>
        (if ks_last_sequence_for_key ks1 \<le> snap then Some (True, co)
         else if vtype k = kTypeDeletion \<and> seqn k \<le> snap then IsBaseLevelForKey BytewiseComparator (uk k) co
         else Some (False, co));
      Some (drop, ks1\<lparr>ks_last_sequence_for_key := seqn k\<rparr>, co1) }"
    unfolding drop_entry_def parse option.case ParsedInternalKey.simps first bind.bind_lunit Let_def ks1_def ..
  have keep: "co = co\<lparr>c_level_ptrs := c_level_ptrs co\<rparr>" by simp
  obtain ptrs where ptrs: "IsBaseLevelForKey BytewiseComparator (uk k) co = Some (base_level v (c_level co) (uk k), co\<lparr>c_level_ptrs := ptrs\<rparr>)"
      "ptrs_passed v (co\<lparr>c_level_ptrs := ptrs\<rparr>) (uk k)"
    using IsBaseLevel_exact [OF v p] by blast
  show ?thesis
  proof (cases "\<not> (ks_last_sequence_for_key ks1 \<le> snap) \<and> vtype k = kTypeDeletion \<and> seqn k \<le> snap")
    case True
    then show ?thesis using run ptrs next_state last by (auto simp: hidden_def)
  next
    case False
    then have "drop_entry BytewiseComparator snap k ks co = Some (hidden (base_level v (c_level co)) snap prev k, ks1\<lparr>ks_last_sequence_for_key := seqn k\<rparr>, co)"
      using run last by (auto simp: hidden_def)
    then show ?thesis using next_state p keep by metis
  qed
qed

text \<open>The decisions of the loop for a list of entries.\<close>

fun keep_entries :: "Comparator \<Rightarrow> SequenceNumber \<Rightarrow> KeyState \<Rightarrow> Compaction \<Rightarrow> (slice \<times> slice) list \<Rightarrow> (slice \<times> slice) list option" where
  "keep_entries c snap ks co [] = Some []"
| "keep_entries c snap ks co (e # es) = do {
     (drop, ks1, co1) \<leftarrow> drop_entry c snap (fst e) ks co;
     rest \<leftarrow> keep_entries c snap ks1 co1 es;
     Some (if drop then rest else e # rest)
   }"

lemma keep_entries_exact:
  assumes v: "levels_ok v" and snap: "snap < kMaxSequenceNumber"
  shows "entries_sorted es \<Longrightarrow> key_state prev ks \<Longrightarrow> (es \<noteq> [] \<Longrightarrow> ptrs_passed v co (uk (fst (hd es)))) \<Longrightarrow>
    keep_entries BytewiseComparator snap ks co es = Some (surviving (base_level v (c_level co)) snap prev es)"
proof (induction es arbitrary: prev ks co)
  case (Cons e es)
  have k: "key_ok (fst e)" using Cons.prems(1) by (simp add: entries_sorted_def)
  obtain ks' ptrs where d: "drop_entry BytewiseComparator snap (fst e) ks co =
      Some (hidden (base_level v (c_level co)) snap prev (fst e), ks', co\<lparr>c_level_ptrs := ptrs\<rparr>)"
      "key_state (Some (entry_mark e)) ks'" "ptrs_passed v (co\<lparr>c_level_ptrs := ptrs\<rparr>) (uk (fst e))"
    using drop_entry_exact [OF v _ k Cons.prems(2) snap] Cons.prems(3) unfolding entry_mark_def by fastforce
  have "entries_sorted es" using Cons.prems(1) by (simp add: entries_sorted_def)
  moreover have "ptrs_passed v (co\<lparr>c_level_ptrs := ptrs\<rparr>) (uk (fst (hd es)))" if "es \<noteq> []"
  proof (rule ptrs_passed_mono [OF d(3)])
    show "uk (fst e) \<le> uk (fst (hd es))" using Cons.prems(1) that by (cases es) (auto simp: entries_sorted_def korder_less)
  qed
  ultimately show ?case using Cons.IH [of "Some (entry_mark e)" ks' "co\<lparr>c_level_ptrs := ptrs\<rparr>"] d(1,2) by simp
qed simp

text \<open>
  C7: A compaction changes nothing that can be read. The entries that the loop keeps, together with those of deeper levels, give to every snapshot not older
  than the oldest one the same value of every key as all entries did, or none: an entry is left out only when a newer one of its key
  is seen by all snapshots, or when it is a deletion that all snapshots see and no deeper level has the key. The entries come in the
  order of their internal keys, and those of deeper levels, in files with their keys, are older.
\<close>

theorem compaction_keeps_views:
  assumes "levels_ok v" and "c_input_version co = Some v" and "c_level_ptrs co = (\<lambda>_. 0)" and "entries_sorted es"
    and "snap < kMaxSequenceNumber" and "snap \<le> sq"
    and "\<forall>d \<in> D. \<exists>l f. c_level co + 2 \<le> l \<and> l < kNumLevels \<and> f \<in> set (v_files v l) \<and> has_key (uk (fst d)) f"
    and "\<forall>d \<in> D. \<forall>e \<in> set es. uk (fst e) = uk (fst d) \<longrightarrow> tag64 (fst d) < tag64 (fst e)"
  shows "\<exists>ks. keep_entries BytewiseComparator snap new_KeyState co es = Some ks \<and> set ks \<subseteq> set es \<and>
    (\<forall>u x. reads_value (set ks \<union> D) u sq x \<longleftrightarrow> reads_value (set es \<union> D) u sq x)"
proof -
  let ?base = "base_level v (c_level co)"
  have "key_state None new_KeyState" by (simp add: key_state_def new_KeyState_def)
  from keep_entries_exact [OF assms(1,5,4) this ptrs_passed_start [OF assms(2,3)]]
  have "keep_entries BytewiseComparator snap new_KeyState co es = Some (surviving ?base snap None es)" .
  moreover have "deeper ?base es D" using assms(7,8) unfolding deeper_def base_level_def by blast
  then have "reads_value (set (surviving ?base snap None es) \<union> D) u sq x \<longleftrightarrow> reads_value (set es \<union> D) u sq x" for u x
    by (rule surviving_reads [OF assms(4) _ assms(6)])
  moreover have "set (surviving ?base snap None es) \<subseteq> set es" by (auto simp: surviving_mem)
  ultimately show ?thesis by blast
qed

text \<open>
  Two keys above the files of \<open>two_deep\<close>, both deleted; the deletion of the first must stay because an older value of it lies deeper.
\<close>

theorem compaction_keeps_views_witness:
  "\<exists>ks. keep_entries BytewiseComparator 6 new_KeyState ((new_Compaction new_Options 0)\<lparr>c_input_version := Some two_deep\<rparr>)
      [(ikey [98] 5 0, []), (ikey [98] 4 1, [1]), (ikey [120] 5 0, []), (ikey [120] 4 1, [1])] = Some ks \<and>
    \<not> reads_value (set ks \<union> {(ikey [98] 1 1, [2])}) [98] 6 [2]"
proof -
  let ?co = "(new_Compaction new_Options 0)\<lparr>c_input_version := Some two_deep\<rparr>"
  let ?es = "[(ikey [98] 5 0, []), (ikey [98] 4 1, [1]), (ikey [120] 5 0, []), (ikey [120] 4 1, [1])] :: (slice \<times> slice) list"
  let ?d = "(ikey [98] 1 1, [2]) :: slice \<times> slice"
  have b: "(x :: u64) \<le> kMaxSequenceNumber" if "x \<le> 6" for x
  proof -
    have "(6 :: u64) \<le> kMaxSequenceNumber" by (simp add: kMaxSequenceNumber_def)
    then show ?thesis using that by (meson order.trans)
  qed
  note less = tag_of_less [OF b b]
  have es: "entries_sorted ?es"
    by (auto simp: entries_sorted_def korder_less key_ok_def ikey_ok ikey_parts b less)
  have "f \<in> set (v_files two_deep 2) \<Longrightarrow> f = sample_file 3 [97] [99] \<or> f = sample_file 4 [102] [104]" for f by (simp add: two_deep_def)
  have deep: "\<forall>d \<in> {?d}. \<exists>l f. c_level ?co + 2 \<le> l \<and> l < kNumLevels \<and> f \<in> set (v_files two_deep l) \<and> has_key (uk (fst d)) f"
    by (auto intro!: exI [of _ 2] exI [of _ "sample_file 3 [97] [99]"] simp: new_Compaction_def kNumLevels_def two_deep_def has_key_iff)
  have old: "\<forall>d \<in> {?d}. \<forall>e \<in> set ?es. uk (fst e) = uk (fst d) \<longrightarrow> tag64 (fst d) < tag64 (fst e)" by (simp add: less)
  have co: "c_input_version ?co = Some two_deep" "c_level_ptrs ?co = (\<lambda>_. 0)" by (simp_all add: new_Compaction_def)
  have snap: "(6 :: u64) < kMaxSequenceNumber" by (simp add: kMaxSequenceNumber_def)
  obtain ks where ks: "keep_entries BytewiseComparator 6 new_KeyState ?co ?es = Some ks"
      "\<forall>u x. reads_value (set ks \<union> {?d}) u 6 x \<longleftrightarrow> reads_value (set ?es \<union> {?d}) u 6 x"
    using compaction_keeps_views [OF two_deep_ok co es snap order.refl deep old] by blast
  have "\<not> reads_value (set ?es \<union> {?d}) [98] 6 [2]"
  proof
    assume "reads_value (set ?es \<union> {?d}) [98] 6 [2]"
    then obtain e where e: "e \<in> seen [98] 6 (set ?es \<union> {?d})" "\<forall>e' \<in> seen [98] 6 (set ?es \<union> {?d}). tag64 (fst e') \<le> tag64 (fst e)" "snd e = [2]"
      by (auto simp: reads_value_def)
    have "(ikey [98] 5 0, []) \<in> seen [98] 6 (set ?es \<union> {?d})" by (simp add: seen_def ikey_parts b)
    moreover have "e = ?d" using e(1,3) by (auto simp: seen_def)
    ultimately have "tag_of 5 0 \<le> tag_of 1 1" using e(2) by fastforce
    moreover have "tag_of 1 1 < tag_of 5 0" by (simp add: less)
    ultimately show False by simp
  qed
  then show ?thesis using ks by blast
qed

end
