(* ===== verification/Spec2Isabelle.thy ===== *)
theory Spec2Isabelle
  imports PbDecodeProps PbRoundtrip PbValueProps PbEncodeProps LdbWriteBatch LdbLogProps LdbMergeProps LdbMemIter LdbVersionGet LdbBuilder LdbCompactionDrop
begin

text \<open>
  A model of two libraries of the repository, the protocol buffer library nanopb
  (breakpoint/Pods/nanopb, in C) and the key-value store leveldb (breakpoint/Pods/leveldb-library, in C++),
  and the theorems that make them correct. The theories of the first have names
  with Pb, those of the second with Ldb.

  nanopb. It encodes C structs as protocol buffer messages and decodes messages into
  structs, without allocating memory. A message type is described by an array of
  \<open>pb_field_t\<close> entries (pb.h), each with a tag, a type byte and the place of the member in the
  struct, relative to the member before it. The iterator of pb_common.c walks over such an array
  together with the struct. pb_decode.c reads a message from an input stream \<open>pb_istream_t\<close>: it
  splits the input into tags and payloads, looks the tag up with the iterator, and calls the
  field decoder of the type from the table \<open>PB_DECODERS\<close>; unknown fields are offered to extensions
  and otherwise skipped; at the end it checks that all required fields were there. pb_encode.c
  walks over the array and writes each present member to an output stream \<open>pb_ostream_t\<close>; a
  submessage is encoded twice, first into a sizing stream that only counts.

  The model of nanopb. Memory is a partial map from addresses to bytes, threaded through every
  operation (\<open>mem\<close>); pointers are integers, and reading or writing an address outside the domain
  makes the operation \<open>None\<close>, which stands for undefined behaviour, as do a missing table entry
  and a shift by the width of its operand. \<open>Some\<close> with \<open>False\<close> is an error the code reports. Machine
  integers are words of their width: \<open>pb_size_t\<close> has 32 bits (the build defines
  PB_FIELD_32BIT and PB_NO_PACKED_STRUCTS), \<open>size_t\<close> and pointers have 64. PB_ENABLE_MALLOC is not
  defined in the build, so pointer members can be encoded but not decoded. What the user of the
  library supplies, stream callbacks, field callbacks and extension handlers, is a parameter, the
  record \<open>pb_env\<close> that maps function pointers to functions.

  Theories of this model:
  \<^item> \<open>Prelude\<close>: words, memory, loads and stores, the predicate \<open>ok\<close> on results.
  \<^item> \<open>PbTypes\<close> (pb.h, the stream structs of pb_decode.h and pb_encode.h): constants, \<open>pb_field_t\<close>,
    streams, error messages, the macros \<open>PB_FIELD\<close> and \<open>PB_ONEOF_FIELD\<close> that build an entry.
  \<^item> \<open>PbIter\<close> (pb_common.c): the iterator, and what it computes on a well-formed array.
  \<^item> \<open>PbIStream\<close> (pb_decode.c, streams, varints, tags, skipping, substreams).
  \<^item> \<open>PbDecFields\<close> (pb_decode.c, the field decoders and their table).
  \<^item> \<open>PbDecode\<close> (pb_decode.c, decode_field and its kinds, extensions, defaults, messages).
  \<^item> \<open>PbOStream\<close> (pb_encode.c, streams, varints, tags).
  \<^item> \<open>PbEncode\<close> (pb_encode.c, the field encoders, arrays, the proto3 test, messages).

  Theories of its proofs:
  \<^item> \<open>PbVarint\<close>: parsing and printing of base-128 numbers as functions on byte lists.
  \<^item> \<open>PbReaders\<close>: the interface \<open>byte_source\<close> of an input stream with a content; the readers proved
    from its laws; the buffer stream as its instance.
  \<^item> \<open>PbReadProps\<close>: what the readers accept and return; skipping; substreams.
  \<^item> \<open>PbValueProps\<close>: what the field decoders store, and when they refuse.
  \<^item> \<open>PbStreamSafe\<close>, \<open>PbDecodeSafe\<close>: every operation of the decoder stays within the input and
    the struct; the interface \<open>item_decoder\<close> is what a field decoder promises to the decoders of
    arrays, with an instance for each of the nine field types.
  \<^item> \<open>PbDecodeProps\<close>: safety and termination of whole messages, empty, unknown and truncated input,
    required fields.
  \<^item> \<open>PbSink\<close>, \<open>PbEncodeSpec\<close>: an abstract specification \<open>message_bytes\<close> of the bytes a message
    stands for, and the proof that the encoder emits them on every sink, a buffer or a sizing
    stream.
  \<^item> \<open>PbRoundtrip\<close>: what is written is read back; the encoder refines its specification; sizes.
  \<^item> \<open>PbEncodeProps\<close>: the test for absent proto3 fields.

  Fuel. Loops that end because the input gets shorter or because the array of fields is finite
  have a fuel argument where the function is not structurally recursive. \<open>msg_fuel\<close> bounds the
  size of a descriptor up to a nesting depth; with more fuel than the number of input bytes plus
  \<open>msg_fuel\<close> the decoder returns (\<open>pb_decode_safe\<close>), and \<open>msg_fuel\<close> is enough for the encoder
  (\<open>encode_refines\<close>). Nesting is bounded because descriptors are finite trees in the model; C
  descriptors that refer to themselves are not covered.

  leveldb. A write is a batch of operations (db/write_batch.cc), a string that is appended to a
  log file (db/log_writer.cc) and then applied to a table in memory (db/memtable.cc), a skip list
  (db/skiplist.h) of entries ordered by internal keys (db/dbformat.h): the user's key, a sequence
  number and a type, where newer entries of a key come first. After a crash the log is read back
  (db/log_reader.cc). Full memory tables are written to table files of sorted blocks
  (table/block_builder.cc, table/block.cc) with an index, a filter block (table/filter_block.cc, util/bloom.cc)
  and a footer (table/format.cc), and every block and every log record carries a checksum
  (util/crc32c.cc). Numbers and strings are encoded by util/coding.cc; failures are values of Status. A
  database is read through an iterator (db/db_iter.cc) that shows of every user key the newest value
  that a snapshot sees; it works on the merged entries (table/merger.cc) of all tables.

  The model of leveldb. A slice or a string is its list of bytes, and an object is a record of its
  members. \<open>None\<close> is a failed assertion or an access outside of an object; errors are statuses. An
  interface of the code with virtual functions (comparators, filter policies, iterators, files) is a
  record of functions, and what its header promises is a locale:
  \<^item> \<open>comparator\<close> and \<open>key_comparator\<close> (\<open>LdbSlice\<close>): a total order, and the contract of
    \<open>FindShortestSeparator\<close> and \<open>FindShortSuccessor\<close>; instance: the bytewise comparator.
  \<^item> \<open>internal_keys\<close> (\<open>LdbFormat\<close>): internal keys over any key comparator are a key comparator again (a
    \<open>sublocale\<close>), and so are the entries of the memory table (\<open>LdbMemTable\<close>).
  \<^item> \<open>filter_policy\<close>, \<open>user_filter\<close> and \<open>bloom_bits\<close> (\<open>LdbBloom\<close>): a filter matches the keys it was made
    of; the bloom filter keeps this, and the policy on internal keys keeps it of the policy within.
  \<^item> \<open>iterator_over\<close> (\<open>LdbIterator\<close>): an iterator stands at a position of a list of entries;
    the iterator of a sorted block keeps this (\<open>block_layout\<close>, \<open>sorted_block\<close> in \<open>LdbBlockProps\<close>), and
    so does the iterator over an index of blocks (\<open>two_level\<close> in \<open>LdbTwoLevel\<close>, a \<open>sublocale\<close>), the merging
    iterator over iterators that keep it (\<open>merging\<close> in \<open>LdbMerger\<close>), the iterator of a memtable (\<open>memtable_list\<close>
    in \<open>LdbMemIter\<close>), and, for the list of the user keys that are shown, the database iterator over any of
    these (\<open>db_view\<close> in \<open>LdbDBIterProps\<close>, \<open>memtable_view\<close> over a memtable).
  \<^item> \<open>file_system\<close> (\<open>LdbFilename\<close>): an environment whose operations change one file, or fail, and whose renaming is
    atomic; instance: files in memory where writes, syncs and renamings may fail.
  \<^item> \<open>writable_file\<close> and \<open>table_setting\<close> (\<open>LdbTableBuild\<close>): a file that has what was appended when it says so, and what a
    table is built with; instances: a bounded file in memory, the options of a database.

  Theories of the leveldb model and its proofs:
  \<^item> \<open>LdbRandom\<close> (util/random.h), \<open>LdbSlice\<close> (include/leveldb/slice.h, comparator.h, util/comparator.cc),
    \<open>LdbCoding\<close> (util/coding.cc), \<open>LdbStatus\<close> (util/status.cc), \<open>LdbCrc\<close> (util/crc32c.cc and its tables).
  \<^item> \<open>LdbFormat\<close> (db/dbformat.h, db/dbformat.cc): internal keys, their order and separators.
  \<^item> \<open>LdbSkipList\<close> (db/skiplist.h) with \<open>LdbSkipListProps\<close> and \<open>LdbSkipListInsert\<close>: the nodes are a map from
    addresses to a key and links; the invariant says that every level is a sublist of the one
    below and all are sorted; \<open>Insert\<close> keeps it for every outcome of the random heights.
  \<^item> \<open>LdbMemTable\<close> (db/memtable.cc), \<open>LdbWriteBatch\<close> (db/write_batch.cc): lookups in a table find the newest
    entry visible at a sequence number; a batch that is applied has the effect of its operations.
  \<^item> \<open>LdbLog\<close> and \<open>LdbLogProps\<close> (db/log_format.h, db/log_writer.cc, db/log_reader.cc): what is written to a log
    is read back, also when the file is cut anywhere.
  \<^item> \<open>LdbBloom\<close> (util/hash.cc, util/bloom.cc), \<open>LdbFilterBlock\<close> (table/filter_block.cc): no key is lost.
  \<^item> \<open>LdbTableFormat\<close> (include/leveldb/options.h, table/format.cc), \<open>LdbIterator\<close> (include/leveldb/iterator.h,
    table/iterator.cc, table/iterator_wrapper.h).
  \<^item> \<open>LdbBlock\<close>, \<open>LdbBlockProps\<close>, \<open>LdbBlockBuild\<close> (table/block_builder.cc, table/block.cc): what is added to a
    block is read back, in both directions and from any key on.
  \<^item> \<open>LdbTwoLevel\<close> (table/two_level_iterator.cc): an index of blocks and their iterators are one iterator.
  \<^item> \<open>LdbTable\<close> (table/table_builder.cc, table/table.cc): the builder, the open table, its iterator and lookups, and
    what a block cache sees of them. \<open>LdbTableBuild\<close>: the invariant of the builder, on files that may
    fail. \<open>LdbTableProps\<close>: a finished file opens and its blocks are read. \<open>LdbTableRead\<close>: iterators and lookups; tables of
    internal keys. \<open>LdbTableSample\<close>: a table of two entries in memory, where the theorems are applied.

  \<^item> \<open>LdbWalk\<close>: any sequence of calls of a client of an iterator. \<open>LdbMerger\<close>, \<open>LdbMergeProps\<close> (table/merger.cc): many
    iterators as one, whatever the direction. \<open>LdbDBIter\<close>, \<open>LdbDBIterProps\<close> (db/db_iter.cc): the newest values a snapshot
    shows. \<open>LdbMemIter\<close> (class MemTableIterator of db/memtable.cc): scans and lookups of a memtable agree.

  \<^item> \<open>LdbLogging\<close> (util/logging.cc, the DebugString functions of db/dbformat.cc): numbers and escaped strings as text.
    \<open>LdbFilename\<close> (db/filename.cc, util/env.cc): the names of the files of a database, and the replacement of the file
    that names the manifest. \<open>LdbVersionEdit\<close> (db/version_edit.cc): the records of the manifest, written and read.
  \<^item> \<open>LdbTableCache\<close> (db/table_cache.cc): tables are opened when they are used. \<open>LdbVersion\<close> (class Version of db/version_set.cc):
    the table files of every level, the searches among them and lookups. \<open>LdbVersionProps\<close>: these searches are exact, and a new
    table is not put below older entries. \<open>LdbVersionGet\<close>: a lookup finds the newest entry that a snapshot sees.
    \<open>LdbBuilder\<close> (class VersionSet::Builder of db/version_set.cc): edits are applied to a version.
  \<^item> \<open>LdbCompaction\<close> (class Compaction of db/version_set.cc, and the functions of class VersionSet that choose its inputs):
    which files are merged. \<open>LdbCompactionProps\<close>: these are all that must be, and the test for deeper data is exact.
    \<open>LdbCompactionWork\<close> (\<open>DoCompactionWork\<close> of db/db_impl.cc and the functions it calls): the loop over the entries and the tables it
    writes. \<open>LdbCompactionDrop\<close>: the entries that are left out cannot be seen by any snapshot.

  Fuel in leveldb. \<open>AddRecord\<close> has twice the length of the record and two more; \<open>ReadRecord\<close> more than the bytes left in the
  file; the loops of a block iterator the length of the block and one more, since every entry
  takes at least three bytes; the reader of a version edit one more than its length; the searches of the skip list a bound by nodes and levels. The loops of the two-level
  iterator, which skip empty blocks, are bounded by nothing but the index and are partial functions, as are the loop that reads a whole file, the search for
  overlapping files of level 0, which starts again when its range grows, the loop of a compaction, and those of the database iterator, which skip hidden entries and draw random numbers for the reports of what it has read. The
  theorems about these loops say that the results are not \<open>None\<close>; of the loop of a compaction there are theorems on the decisions it takes, but none
  on the loop as a whole.

  Not modelled: the code under PB_ENABLE_MALLOC, PB_BUFFER_ONLY, PB_NO_ERRMSG and
  PB_OLD_CALLBACK_STYLE, which the build does not select; of leveldb, threads and the order of
  memory accesses, the checksum instructions of single processors, the arena
  behind the memory table, the functions that iterators call when they are destroyed,
  the operating system (util/env_posix.cc), the counters of references and
  of seeks that versions share, the scores by which a level is chosen for compaction (\<open>Finalize\<close>), and of the database itself the writing and recovery of the manifest, the iterator
  over the inputs of a compaction as a whole, the scheduling, the flush of a memtable, and opening, writing and recovering a database; the Objective-C libraries beside; the Swift application.
\<close>

end
